(* ===== verification/Prelude.thy ===== *)
theory Prelude
  imports Main "HOL-Library.Word" "HOL-Library.Monad_Syntax"
begin

text \<open>
  Shared vocabulary of the development: the machine integers, the library-wide
  \<open>castle::status\<close> enumeration, caller-owned memory ranges (a pointer with its size, possibly
  null), bounds-checked loads and stores whose failure is the value \<open>None\<close> (undefined
  behaviour in the C++ code), and the lemmas that let a byte-by-byte writer be read as one
  \<open>store\<close> of the bytes it produces.
\<close>

unbundle bit_operations_syntax

section \<open>Machine integers and sizes\<close>

type_synonym u8 = "8 word"
type_synonym u16 = "16 word"
type_synonym u32 = "32 word"
type_synonym u64 = "64 word"

text \<open>
  \<open>size_type\<close> is \<open>size_t\<close>; the target of the repository is a 32-bit Cortex-M (Raspberry Pi
  Pico).  Indices are natural numbers; \<open>usz\<close> is applied wherever the code computes a size that
  can leave the range of \<open>size_t\<close>, and \<open>usz_sub\<close> is its wrapping subtraction.
\<close>

definition size_mod :: nat where
  "size_mod = 2 ^ 32"

definition usz :: "nat \<Rightarrow> nat" where
  "usz n = n mod size_mod"

definition usz_sub :: "nat \<Rightarrow> nat \<Rightarrow> nat" where
  "usz_sub a b = (a + size_mod - b mod size_mod) mod size_mod"

lemma usz_id [simp]: "n < size_mod \<Longrightarrow> usz n = n"
  by (simp add: usz_def)

lemma usz_bound [simp]: "usz n < size_mod"
  by (simp add: usz_def size_mod_def)

lemma usz_sub_ge: "b \<le> a \<Longrightarrow> a < size_mod \<Longrightarrow> usz_sub a b = a - b"
proof -
  assume "b \<le> a" and "a < size_mod"
  then have "a + size_mod - b mod size_mod = (a - b) + size_mod" by simp
  with \<open>a < size_mod\<close> show "usz_sub a b = a - b" by (simp add: usz_sub_def)
qed

lemma u8_eqI:
  assumes "bit a 0 = bit b 0" "bit a 1 = bit b 1" "bit a 2 = bit b 2" "bit a 3 = bit b 3"
    "bit a 4 = bit b 4" "bit a 5 = bit b 5" "bit a 6 = bit b 6" "bit a 7 = bit b 7"
  shows "a = (b :: u8)"
proof (rule bit_word_eqI)
  fix n assume "n < LENGTH(8)"
  then have "n = 0 \<or> n = 1 \<or> n = 2 \<or> n = 3 \<or> n = 4 \<or> n = 5 \<or> n = 6 \<or> n = 7"
    by (simp; arith)
  with assms show "bit a n = bit b n" by (elim disjE) simp_all
qed

text \<open>The bytes of a range, as a list over which the simplifier can check a property.\<close>

lemma u8_range:
  assumes "word_of_nat lo \<le> c" and "c \<le> word_of_nat hi" and "lo < 256" and "hi < 256"
  shows "(c :: u8) \<in> set (map word_of_nat [lo..<Suc hi])"
proof -
  have "lo \<le> unat c" and "unat c \<le> hi"
    using assms by (simp_all add: word_le_nat_alt unat_of_nat)
  moreover have "c = word_of_nat (unat c)" by simp
  ultimately show ?thesis by (metis atLeastAtMost_iff atLeastLessThanSuc_atLeastAtMost imageI set_map set_upt)
qed

lemma word_bit_high [simp]:
  "8 \<le> n \<Longrightarrow> \<not> bit (a :: u8) n"
  "16 \<le> n \<Longrightarrow> \<not> bit (b :: u16) n"
  "32 \<le> n \<Longrightarrow> \<not> bit (c :: u32) n"
  "64 \<le> n \<Longrightarrow> \<not> bit (d :: u64) n"
  by (auto dest: bit_imp_le_length)

text \<open>Masking the high or the low bits of a byte, as division and remainder.\<close>

lemma byte_less: "unat (b :: u8) < 256"
  using unsigned_less [of b] by simp

lemma byte_unat: "8 \<le> LENGTH('a) \<Longrightarrow> unat (ucast (b :: u8) :: 'a::len word) = unat b"
  using less_le_trans [OF byte_less [of b], of "2 ^ LENGTH('a)"] power_increasing [of 8 "LENGTH('a)" "2 :: nat"]
  by (simp add: unsigned_ucast_eq take_bit_nat_eq_self_iff)

lemma byte_high:
  assumes "k + m = 8" and "8 \<le> LENGTH('a)"
  shows "unat ((ucast (b :: u8) :: 'a::len word) AND push_bit k (mask m)) = unat b div 2 ^ k * 2 ^ k"
proof -
  have x: "(ucast b :: 'a word) AND push_bit k (mask m) = push_bit k (drop_bit k (ucast b))"
    by (rule bit_word_eqI) (use assms in \<open>auto simp: bit_simps dest: bit_imp_le_length\<close>)
  have b: "unat b < 2 ^ LENGTH('a)"
    using less_le_trans [OF byte_less [of b], of "2 ^ LENGTH('a)"] power_increasing [of 8 "LENGTH('a)" "2 :: nat"] assms(2) by simp
  have "take_bit LENGTH('a) (unat b div 2 ^ k * 2 ^ k) = unat b div 2 ^ k * 2 ^ k" "take_bit LENGTH('a) (unat b) = unat b"
    using b le_less_trans [OF div_times_less_eq_dividend b] by (simp_all only: take_bit_nat_eq_self)
  then show ?thesis unfolding x unsigned_push_bit_eq unsigned_drop_bit_eq byte_unat [OF assms(2)]
    by (simp add: push_bit_eq_mult drop_bit_eq_div)
qed

lemma byte_low: "8 \<le> LENGTH('a) \<Longrightarrow> unat ((ucast (b :: u8) :: 'a::len word) AND mask m) = unat b mod 2 ^ m"
  unfolding take_bit_eq_mask [symmetric] unsigned_take_bit_eq by (simp add: byte_unat take_bit_eq_mod)

section \<open>Status codes\<close>

datatype status =
    status_ok
  | status_full
  | status_empty
  | status_out_of_range
  | status_not_found
  | status_not_configured
  | status_invalid_config
  | status_invalid_argument
  | status_invalid_callback
  | status_invalid_subscription
  | status_already_exists
  | status_system_call_error
  | status_data_loss
  | status_time_out
  | status_unknown_error

definition succeeded :: "status \<Rightarrow> bool" where
  "succeeded s = (s = status_ok)"

section \<open>Caller-owned memory\<close>

text \<open>
  A pointer argument together with its element count: a null pointer with the count the
  caller claims, or a valid range.
\<close>

datatype 'a ptr = Null nat | Mem "'a list"

fun psize :: "'a ptr \<Rightarrow> nat" where
  "psize (Null n) = n"
| "psize (Mem xs) = length xs"

fun is_null :: "'a ptr \<Rightarrow> bool" where
  "is_null (Null n) = True"
| "is_null (Mem xs) = False"

text \<open>A load or a store outside the range is undefined behaviour: \<open>None\<close>.\<close>

fun rd :: "'a ptr \<Rightarrow> nat \<Rightarrow> 'a option" where
  "rd (Null n) i = None"
| "rd (Mem xs) i = (if i < length xs then Some (xs ! i) else None)"

fun put :: "'a ptr \<Rightarrow> nat \<Rightarrow> 'a \<Rightarrow> 'a ptr option" where
  "put (Null n) i v = None"
| "put (Mem xs) i v = (if i < length xs then Some (Mem (xs[i := v])) else None)"

text \<open>The effect of storing a whole list at an offset.\<close>

fun store :: "'a ptr \<Rightarrow> nat \<Rightarrow> 'a list \<Rightarrow> 'a ptr option" where
  "store (Null n) i vs = (if vs = [] then Some (Null n) else None)"
| "store (Mem xs) i vs =
     (if i + length vs \<le> length xs \<or> vs = []
      then Some (Mem (take i xs @ vs @ drop (i + length vs) xs)) else None)"

named_theorems store_simps \<open>composing consecutive stores\<close>

lemma store_Nil [simp, store_simps]: "store p i [] = Some p"
  by (cases p) simp_all

lemma take_update_drop:
  "i < length xs \<Longrightarrow> xs[i := v] = take i xs @ v # drop (Suc i) xs"
  by (rule upd_conv_take_nth_drop)

lemma store_Cons [store_simps]:
  "Option.bind (put p i v) (\<lambda>q. store q (Suc i) vs) = store p i (v # vs)"
proof (cases p)
  case (Null n)
  then show ?thesis by simp
next
  case (Mem xs)
  show ?thesis
  proof (cases "vs = []")
    case True
    with Mem show ?thesis by (auto simp: take_update_drop not_less)
  next
    case False
    with Mem show ?thesis
      by (auto simp: take_update_drop not_less min_def add.commute)
  qed
qed

lemma store_single [store_simps]: "put p i v = store p i [v]"
  using store_Cons [of p i v "[]"] by (simp add: bind_eq_Some_conv)

lemma store_append [store_simps]:
  "Option.bind (store p i us) (\<lambda>q. store q (i + length us) vs) = store p i (us @ vs)"
proof (cases p)
  case (Null n)
  then show ?thesis by simp
next
  case (Mem xs)
  show ?thesis
  proof (cases "us = [] \<or> vs = []")
    case True
    with Mem show ?thesis by (auto simp: add.commute)
  next
    case False
    with Mem show ?thesis
      by (cases us; cases vs) (auto simp: min_def ac_simps)
  qed
qed

text \<open>Two consecutive stores of a longer program are one; the second starts where the first ends.\<close>

lemma store_chain:
  "j = i + length us \<Longrightarrow>
   Option.bind (store p i us) (\<lambda>q. Option.bind (store q j vs) k) = Option.bind (store p i (us @ vs)) k"
  by (simp add: store_append [symmetric] bind_assoc)

lemma bind_map_option_right [store_simps]:
  "Option.bind x (\<lambda>y. map_option f (g y)) = map_option f (Option.bind x g)"
  by (cases x) simp_all

lemma bind_Some_pair [store_simps]:
  "Option.bind x (\<lambda>y. Some (c, y)) = map_option (Pair c) x"
  by (cases x) simp_all

lemma bind_return [store_simps]:
  "Option.bind x (\<lambda>y. Some (f y)) = map_option f x"
  by (cases x) simp_all

lemma add_num_Suc:
  "i + 1 = Suc i" "i + 2 = Suc (Suc i)" "i + 3 = Suc (Suc (Suc i))" "i + 4 = Suc (Suc (Suc (Suc i)))"
  "i + 5 = Suc (Suc (Suc (Suc (Suc i))))" "i + 6 = Suc (Suc (Suc (Suc (Suc (Suc i)))))"
  "i + 7 = Suc (Suc (Suc (Suc (Suc (Suc (Suc i))))))" "i + 8 = Suc (Suc (Suc (Suc (Suc (Suc (Suc (Suc i)))))))"
  by simp_all

text \<open>Expand a \<open>store\<close> into single stores and collect the returned index at the end.\<close>

lemmas writer_simps = store_Cons [symmetric] bind_map_option_right bind_return option.map_ident add_num_Suc

lemma store_length:
  "store (Mem xs) i vs = Some q \<Longrightarrow> \<exists>ys. q = Mem ys \<and> length ys = length xs"
  by (auto split: if_splits)

lemma store_fits [simp]:
  "i + length vs \<le> length xs \<Longrightarrow>
   store (Mem xs) i vs = Some (Mem (take i xs @ vs @ drop (i + length vs) xs))"
  by simp

section \<open>UTF-8\<close>

text \<open>The encoding of a code point, as RFC 3629 defines it.\<close>

definition utf8_encode :: "nat \<Rightarrow> u8 list" where
  "utf8_encode c =
     (if c < 0x80 then [of_nat c]
      else if c < 0x800 then [of_nat (0xC0 + c div 64), of_nat (0x80 + c mod 64)]
      else if c < 0x10000 then [of_nat (0xE0 + c div 4096), of_nat (0x80 + c div 64 mod 64), of_nat (0x80 + c mod 64)]
      else [of_nat (0xF0 + c div 262144), of_nat (0x80 + c div 4096 mod 64), of_nat (0x80 + c div 64 mod 64), of_nat (0x80 + c mod 64)])"

end
