(* ===== verification/Queues.thy ===== *)
theory Queues
  imports Prelude
begin

text \<open>
  The contract of a bounded FIFO queue, as the clients of \<open>castle::container\<close> rely on it: what an
  enqueue and a dequeue do to the sequence of stored elements.  The client lemma is proved once: in
  any interleaving of operations the elements come out in the order they were accepted, none lost and
  none invented.
\<close>

datatype 'a queue_op = Enq 'a | Deq

locale bounded_queue =
  fixes inv :: "'q \<Rightarrow> bool" and items :: "'q \<Rightarrow> 'a list" and capacity :: "'q \<Rightarrow> nat"
    and enq :: "'a \<Rightarrow> 'q \<Rightarrow> bool \<times> 'q" and deq :: "'q \<Rightarrow> 'a option \<times> 'q"
  assumes bound: "inv q \<Longrightarrow> length (items q) \<le> capacity q"
    and enq_ok: "inv q \<Longrightarrow> length (items q) < capacity q \<Longrightarrow>
      \<exists>q'. enq x q = (True, q') \<and> inv q' \<and> items q' = items q @ [x] \<and> capacity q' = capacity q"
    and enq_full: "inv q \<Longrightarrow> length (items q) = capacity q \<Longrightarrow> enq x q = (False, q)"
    and deq_ok: "inv q \<Longrightarrow> items q = x # xs \<Longrightarrow>
      \<exists>q'. deq q = (Some x, q') \<and> inv q' \<and> items q' = xs \<and> capacity q' = capacity q"
    and deq_empty: "inv q \<Longrightarrow> items q = [] \<Longrightarrow> deq q = (None, q)"
begin

text \<open>Run a sequence of operations, collecting the elements accepted and the elements delivered.\<close>

fun run :: "'a queue_op list \<Rightarrow> 'q \<Rightarrow> 'a list \<times> 'a list \<times> 'q" where
  "run [] q = ([], [], q)"
| "run (Enq x # ops) q =
     (let (b, q) = enq x q; (acc, del, q) = run ops q in (if b then x # acc else acc, del, q))"
| "run (Deq # ops) q =
     (let (y, q) = deq q; (acc, del, q) = run ops q
      in (acc, case y of None \<Rightarrow> del | Some y \<Rightarrow> y # del, q))"

lemma fifo:
  "inv q \<Longrightarrow> run ops q = (acc, del, q') \<Longrightarrow> inv q' \<and> capacity q' = capacity q \<and> items q @ acc = del @ items q'"
proof (induction ops q arbitrary: acc del q' rule: run.induct)
  case (1 q)
  then show ?case by simp
next
  case (2 x ops q)
  show ?case
  proof (cases "length (items q) < capacity q")
    case True
    from enq_ok [OF 2(2) this, of x] obtain q1 where q1: "enq x q = (True, q1)" "inv q1" "items q1 = items q @ [x]"
      "capacity q1 = capacity q" by blast
    obtain acc1 del1 q2 where r: "run ops q1 = (acc1, del1, q2)" by (cases "run ops q1") auto
    with 2(1) [OF q1(1) [symmetric] refl q1(2) r] 2(3) q1 show ?thesis by auto
  next
    case False
    then have "length (items q) = capacity q" using bound [OF 2(2)] by simp
    from enq_full [OF 2(2) this, of x] have e: "enq x q = (False, q)" .
    obtain acc1 del1 q2 where r: "run ops q = (acc1, del1, q2)" by (cases "run ops q") auto
    with 2(1) [OF e [symmetric] refl 2(2) r] 2(3) e show ?thesis by auto
  qed
next
  case (3 ops q)
  show ?case
  proof (cases "items q")
    case Nil
    from deq_empty [OF 3(2) this] have e: "deq q = (None, q)" .
    obtain acc1 del1 q2 where r: "run ops q = (acc1, del1, q2)" by (cases "run ops q") auto
    with 3(1) [OF e [symmetric] refl 3(2) r] 3(3) e show ?thesis by auto
  next
    case (Cons x xs)
    from deq_ok [OF 3(2) this] obtain q1 where q1: "deq q = (Some x, q1)" "inv q1" "items q1 = xs"
      "capacity q1 = capacity q" by blast
    obtain acc1 del1 q2 where r: "run ops q1 = (acc1, del1, q2)" by (cases "run ops q1") auto
    with 3(1) [OF q1(1) [symmetric] refl q1(2) r] 3(3) q1 Cons show ?thesis by auto
  qed
qed

end

end
