(* ===== verification/RingBuffer.thy ===== *)
theory RingBuffer
  imports Queues
begin

text \<open>
  \<open>castle::container::ring_buffer\<close> (\<open>container/ring_buffer.hpp\<close>): a circular array with head, tail and
  size, its index arithmetic (the power-of-two mask included), every operation of the class, and the
  refinement to a bounded FIFO list.  The copying and the moving overload of a push store the same
  value.  \<open>None\<close> is an access outside the storage, the source or the destination.
\<close>

section \<open>State and index arithmetic\<close>

record 'a ring_buffer =
  data :: "'a list"
  head :: nat
  tail :: nat
  size :: nat

definition is_power_of_two :: "nat \<Rightarrow> bool" where
  "is_power_of_two n \<longleftrightarrow> n \<noteq> 0 \<and> n AND (n - 1) = 0"

definition ring_wrap :: "nat \<Rightarrow> nat \<Rightarrow> nat" where
  "ring_wrap N index = (if is_power_of_two N then index AND (N - 1) else index mod N)"

definition ring_advance :: "nat \<Rightarrow> nat \<Rightarrow> nat" where
  "ring_advance N index = (if index + 1 = N then 0 else index + 1)"

definition ring_retreat :: "nat \<Rightarrow> nat \<Rightarrow> nat" where
  "ring_retreat N index = (if index = 0 then N - 1 else index - 1)"

definition ring_capacity :: "'a ring_buffer \<Rightarrow> nat" where
  "ring_capacity r = length (data r)"

section \<open>Operations\<close>

definition ring_init :: "nat \<Rightarrow> 'a \<Rightarrow> 'a ring_buffer" where
  "ring_init N z = \<lparr>data = replicate N z, head = 0, tail = 0, size = 0\<rparr>"

definition ring_empty :: "'a ring_buffer \<Rightarrow> bool" where
  "ring_empty r = (size r = 0)"

definition ring_full :: "'a ring_buffer \<Rightarrow> bool" where
  "ring_full r = (size r = ring_capacity r)"

definition ring_available :: "'a ring_buffer \<Rightarrow> nat" where
  "ring_available r = ring_capacity r - size r"

definition ring_clear :: "'a ring_buffer \<Rightarrow> 'a ring_buffer" where
  "ring_clear r = r\<lparr>head := 0, tail := 0, size := 0\<rparr>"

text \<open>The three statements every insertion ends with.\<close>

definition ring_store :: "'a \<Rightarrow> 'a ring_buffer \<Rightarrow> 'a ring_buffer" where
  "ring_store v r =
     r\<lparr>data := (data r)[tail r := v], tail := ring_advance (ring_capacity r) (tail r), size := size r + 1\<rparr>"

definition ring_drop :: "'a ring_buffer \<Rightarrow> 'a ring_buffer" where
  "ring_drop r = r\<lparr>head := ring_advance (ring_capacity r) (head r), size := size r - 1\<rparr>"

definition ring_push :: "'a \<Rightarrow> 'a ring_buffer \<Rightarrow> bool \<times> 'a ring_buffer" where
  "ring_push v r = (if ring_full r then (False, r) else (True, ring_store v r))"

fun ring_push_list :: "'a list \<Rightarrow> 'a ring_buffer \<Rightarrow> 'a ring_buffer" where
  "ring_push_list [] r = r"
| "ring_push_list (v # vs) r = (if ring_full r then r else ring_push_list vs (snd (ring_push v r)))"

definition ring_of_list :: "nat \<Rightarrow> 'a \<Rightarrow> 'a list \<Rightarrow> 'a ring_buffer" where
  "ring_of_list N z vs = ring_push_list vs (ring_init N z)"

definition ring_force_push :: "'a \<Rightarrow> 'a ring_buffer \<Rightarrow> bool \<times> 'a ring_buffer" where
  "ring_force_push v r =
     (let evicted = ring_full r; r = (if evicted then ring_drop r else r) in (evicted, ring_store v r))"

definition ring_pop :: "'a ring_buffer \<Rightarrow> 'a option \<times> 'a ring_buffer" where
  "ring_pop r = (if ring_empty r then (None, r) else (Some (data r ! head r), ring_drop r))"

definition ring_discard :: "'a ring_buffer \<Rightarrow> bool \<times> 'a ring_buffer" where
  "ring_discard r = (if ring_empty r then (False, r) else (True, ring_drop r))"

definition ring_peek :: "nat \<Rightarrow> 'a ring_buffer \<Rightarrow> 'a option option" where
  "ring_peek index r =
     (if index \<ge> size r then Some None
      else map_option Some (rd (Mem (data r)) (ring_wrap (ring_capacity r) (usz (head r + index)))))"

definition ring_front :: "'a ring_buffer \<Rightarrow> 'a option" where
  "ring_front r = rd (Mem (data r)) (head r)"

definition ring_back :: "'a ring_buffer \<Rightarrow> 'a option" where
  "ring_back r = rd (Mem (data r)) (ring_retreat (ring_capacity r) (tail r))"

function ring_push_bulk_loop :: "'a ptr \<Rightarrow> nat \<Rightarrow> nat \<Rightarrow> 'a ring_buffer \<Rightarrow> (nat \<times> 'a ring_buffer) option" where
  "ring_push_bulk_loop src limit written r =
     (if written < limit \<and> \<not> ring_full r
      then do { v \<leftarrow> rd src written; ring_push_bulk_loop src limit (written + 1) (ring_store v r) }
      else Some (written, r))"
  by pat_completeness auto
termination
  by (relation "measure (\<lambda>(_, limit, written, _). limit - written)") auto

declare ring_push_bulk_loop.simps [simp del]

definition ring_push_bulk :: "'a ptr \<Rightarrow> nat \<Rightarrow> 'a ring_buffer \<Rightarrow> (nat \<times> 'a ring_buffer) option" where
  "ring_push_bulk src limit r = (if is_null src then Some (0, r) else ring_push_bulk_loop src limit 0 r)"

function ring_pop_bulk_loop :: "'a ptr \<Rightarrow> nat \<Rightarrow> nat \<Rightarrow> 'a ring_buffer \<Rightarrow> (nat \<times> 'a ptr \<times> 'a ring_buffer) option" where
  "ring_pop_bulk_loop dst limit k r =
     (if k < limit \<and> \<not> ring_empty r
      then do { v \<leftarrow> rd (Mem (data r)) (head r); dst \<leftarrow> put dst k v; ring_pop_bulk_loop dst limit (k + 1) (ring_drop r) }
      else Some (k, dst, r))"
  by pat_completeness auto
termination
  by (relation "measure (\<lambda>(_, limit, k, _). limit - k)") auto

declare ring_pop_bulk_loop.simps [simp del]

definition ring_pop_bulk :: "'a ptr \<Rightarrow> nat \<Rightarrow> 'a ring_buffer \<Rightarrow> (nat \<times> 'a ptr \<times> 'a ring_buffer) option" where
  "ring_pop_bulk dst limit r = (if is_null dst then Some (0, dst, r) else ring_pop_bulk_loop dst limit 0 r)"

section \<open>Masks and remainders\<close>

lemma power_of_two_exp: "is_power_of_two n \<Longrightarrow> \<exists>k. n = 2 ^ k"
proof (induction n rule: less_induct)
  case (less n)
  show ?case
  proof (cases "even n")
    case True
    then obtain m where n: "n = 2 * m" by blast
    with less.prems have "0 < m" by (simp add: is_power_of_two_def)
    then have "(n - 1) div 2 = m - 1" "n div 2 = m" "n mod 2 = 0" by (simp_all add: n)
    moreover have "n \<noteq> 0" "n - 1 \<noteq> 0" using n \<open>0 < m\<close> by simp_all
    ultimately have "n AND (n - 1) = 2 * (m AND (m - 1))"
      using and_nat_unfold [of n "n - 1"] by (simp only: if_False simp_thms mult_zero_left add_0)
    with less.prems \<open>0 < m\<close> have "is_power_of_two m" by (simp add: is_power_of_two_def)
    with less.IH [of m] \<open>0 < m\<close> obtain k where "m = 2 ^ k" by (auto simp: n)
    then show ?thesis by (intro exI [of _ "Suc k"]) (simp add: n)
  next
    case False
    then have "n mod 2 = 1" "(n - 1) div 2 = n div 2" by presburger+
    then have "n AND (n - 1) = 2 * (n div 2)"
      using and_nat_unfold [of n "n - 1"] False by (auto simp: odd_pos)
    with less.prems have "n div 2 = 0" "n \<noteq> 0" by (simp_all add: is_power_of_two_def)
    then have "n = 2 ^ 0" by simp
    then show ?thesis by blast
  qed
qed

lemma ring_wrap_mod: "ring_wrap N i = i mod N"
proof (cases "is_power_of_two N")
  case True
  then obtain k where "N = 2 ^ k" using power_of_two_exp by blast
  then show ?thesis
    by (simp add: ring_wrap_def True take_bit_eq_mod [symmetric] take_bit_eq_mask mask_nat_def)
qed (simp add: ring_wrap_def)

lemma ring_advance_mod: "i < N \<Longrightarrow> ring_advance N i = (i + 1) mod N"
  by (auto simp: ring_advance_def)

section \<open>The list a ring buffer stores\<close>

definition ring_items :: "'a ring_buffer \<Rightarrow> 'a list" where
  "ring_items r = map (\<lambda>i. data r ! ((head r + i) mod ring_capacity r)) [0..<size r]"

text \<open>No object is larger than half the address space, so an index plus a capacity does not wrap.\<close>

definition ring_inv :: "'a ring_buffer \<Rightarrow> bool" where
  "ring_inv r \<longleftrightarrow> 0 < ring_capacity r \<and> ring_capacity r < 2 ^ 31 \<and> head r < ring_capacity r \<and>
     size r \<le> ring_capacity r \<and> tail r = (head r + size r) mod ring_capacity r"

lemma length_items [simp]: "length (ring_items r) = size r"
  by (simp add: ring_items_def)

lemma ring_inv_init: "0 < N \<Longrightarrow> N < 2 ^ 31 \<Longrightarrow> ring_inv (ring_init N z)"
  by (simp add: ring_inv_def ring_init_def ring_capacity_def)

lemma items_init [simp]: "ring_items (ring_init N z) = []"
  by (simp add: ring_items_def ring_init_def)

lemma mod_ne:
  assumes "i < s" and "s < N"
  shows "(h + i) mod N \<noteq> (h + s) mod (N :: nat)"
proof
  assume "(h + i) mod N = (h + s) mod N"
  then have "N dvd (h + s) - (h + i)" using assms by (metis add_le_mono less_imp_le mod_eq_dvd_iff_nat order_refl)
  then have "N dvd s - i" by simp
  with assms show False by (auto dest: dvd_imp_le)
qed

lemma store_items:
  assumes "ring_inv r" and "size r < ring_capacity r"
  shows "ring_inv (ring_store v r)" and "ring_items (ring_store v r) = ring_items r @ [v]"
    and "ring_capacity (ring_store v r) = ring_capacity r"
proof -
  let ?N = "ring_capacity r"
  have t: "tail r = (head r + size r) mod ?N" and N: "0 < ?N" using assms by (simp_all add: ring_inv_def)
  then have tN: "tail r < ?N" by simp
  have cap: "ring_capacity (ring_store v r) = ?N" by (simp add: ring_store_def ring_capacity_def)
  show "ring_capacity (ring_store v r) = ?N" by (rule cap)
  have "ring_advance ?N (tail r) = (head r + Suc (size r)) mod ?N"
    by (simp add: ring_advance_mod tN) (simp add: t mod_simps)
  then show "ring_inv (ring_store v r)"
    using assms unfolding ring_inv_def cap by (simp add: ring_store_def)
  have "data (ring_store v r) ! ((head r + i) mod ?N) = data r ! ((head r + i) mod ?N)" if "i < size r" for i
    using mod_ne [OF that assms(2), of "head r"] by (simp add: ring_store_def t)
  moreover have "data (ring_store v r) ! tail r = v" using tN by (simp add: ring_store_def ring_capacity_def)
  ultimately show "ring_items (ring_store v r) = ring_items r @ [v]"
    unfolding ring_items_def cap using t by (simp add: ring_store_def)
qed

lemma drop_items:
  assumes "ring_inv r" and "0 < size r"
  shows "ring_inv (ring_drop r)" and "ring_items (ring_drop r) = tl (ring_items r)"
    and "ring_capacity (ring_drop r) = ring_capacity r" and "ring_items r = data r ! head r # tl (ring_items r)"
proof -
  let ?N = "ring_capacity r"
  have h: "head r < ?N" using assms by (simp add: ring_inv_def)
  have cap: "ring_capacity (ring_drop r) = ?N" by (simp add: ring_drop_def ring_capacity_def)
  show "ring_capacity (ring_drop r) = ?N" by (rule cap)
  obtain k where k: "size r = Suc k" using assms(2) by (cases "size r") auto
  have adv: "ring_advance ?N (head r) = Suc (head r) mod ?N" using h by (simp add: ring_advance_mod)
  then show "ring_inv (ring_drop r)"
    using assms h k unfolding ring_inv_def cap by (simp add: ring_drop_def mod_simps)
  have "ring_items r = data r ! head r # map (\<lambda>i. data r ! ((head r + Suc i) mod ?N)) [0..<k]"
    using h k by (simp add: ring_items_def upt_conv_Cons map_Suc_upt [symmetric] del: upt_Suc)
  moreover have "ring_items (ring_drop r) = map (\<lambda>i. data r ! ((head r + Suc i) mod ?N)) [0..<k]"
    unfolding ring_items_def cap using k adv by (simp add: ring_drop_def mod_simps)
  ultimately show "ring_items (ring_drop r) = tl (ring_items r)" and "ring_items r = data r ! head r # tl (ring_items r)"
    by simp_all
qed

interpretation ring: bounded_queue ring_inv ring_items ring_capacity ring_push ring_pop
proof
  fix q :: "'a ring_buffer" and x and xs
  assume q: "ring_inv q"
  then show "length (ring_items q) \<le> ring_capacity q" by (simp add: ring_inv_def)
  show "\<exists>q'. ring_push x q = (True, q') \<and> ring_inv q' \<and> ring_items q' = ring_items q @ [x] \<and> ring_capacity q' = ring_capacity q"
    if "length (ring_items q) < ring_capacity q"
    using store_items [OF q, of x] that by (auto simp: ring_push_def ring_full_def)
  show "ring_push x q = (False, q)" if "length (ring_items q) = ring_capacity q"
    using that by (simp add: ring_push_def ring_full_def)
  show "\<exists>q'. ring_pop q = (Some x, q') \<and> ring_inv q' \<and> ring_items q' = xs \<and> ring_capacity q' = ring_capacity q"
    if "ring_items q = x # xs"
  proof -
    have "0 < size q" using that length_items [of q] by (metis length_greater_0_conv list.distinct(1))
    from drop_items [OF q this] that show ?thesis using \<open>0 < size q\<close> by (auto simp: ring_pop_def ring_empty_def)
  qed
  show "ring_pop q = (None, q)" if "ring_items q = []"
  proof -
    have "size q = 0" using that length_items [of q] by (metis list.size(3))
    then show ?thesis by (simp add: ring_pop_def ring_empty_def)
  qed
qed


section \<open>The remaining operations\<close>

lemma force_push_items:
  assumes "ring_inv r"
  shows "ring_inv (snd (ring_force_push v r))"
    and "ring_capacity (snd (ring_force_push v r)) = ring_capacity r"
    and "ring_items (snd (ring_force_push v r)) =
      drop (Suc (size r) - ring_capacity r) (ring_items r @ [v])"
    and "fst (ring_force_push v r) \<longleftrightarrow> size r = ring_capacity r"
proof -
  let ?r = "if ring_full r then ring_drop r else r"
  have "0 < ring_capacity r" "size r \<le> ring_capacity r" using assms by (simp_all add: ring_inv_def)
  then have r: "ring_inv ?r" "size ?r < ring_capacity ?r" "ring_capacity ?r = ring_capacity r"
    using assms drop_items [OF assms] by (auto simp: ring_full_def ring_drop_def)
  have "ring_items ?r = drop (Suc (size r) - ring_capacity r) (ring_items r)"
    using \<open>0 < ring_capacity r\<close> \<open>size r \<le> ring_capacity r\<close> drop_items(2) [OF assms]
    by (auto simp: ring_full_def drop_Suc)
  moreover have "Suc (size r) - ring_capacity r \<le> size r" using \<open>0 < ring_capacity r\<close> by simp
  ultimately have "ring_items ?r @ [v] = drop (Suc (size r) - ring_capacity r) (ring_items r @ [v])" by simp
  with store_items [OF r(1,2), of v] r(3)
  show "ring_inv (snd (ring_force_push v r))"
    "ring_capacity (snd (ring_force_push v r)) = ring_capacity r"
    "ring_items (snd (ring_force_push v r)) = drop (Suc (size r) - ring_capacity r) (ring_items r @ [v])"
    by (simp_all add: ring_force_push_def Let_def)
  show "fst (ring_force_push v r) \<longleftrightarrow> size r = ring_capacity r" by (simp add: ring_force_push_def ring_full_def Let_def)
qed

lemma items_nth: "i < size r \<Longrightarrow> ring_items r ! i = data r ! ((head r + i) mod ring_capacity r)"
  by (simp add: ring_items_def)

lemma rd_data: "i < ring_capacity r \<Longrightarrow> rd (Mem (data r)) i = Some (data r ! i)"
  by (simp add: ring_capacity_def)

lemma peek_items:
  assumes "ring_inv r"
  shows "ring_peek i r = Some (if i < size r then Some (ring_items r ! i) else None)"
proof (cases "i < size r")
  case True
  with assms have "head r + i < size_mod" and "0 < ring_capacity r" by (auto simp: ring_inv_def size_mod_def)
  with True show ?thesis by (simp add: ring_peek_def ring_wrap_mod items_nth rd_data del: rd.simps)
qed (simp add: ring_peek_def)

lemma front_items:
  assumes "ring_inv r" and "0 < size r"
  shows "ring_front r = Some (hd (ring_items r))"
proof -
  have "head r < ring_capacity r" using assms(1) by (simp add: ring_inv_def)
  then show ?thesis
    using drop_items(4) [OF assms] by (simp add: ring_front_def rd_data del: rd.simps) (metis list.sel(1))
qed

lemma back_items:
  assumes "ring_inv r" and "0 < size r"
  shows "ring_back r = Some (last (ring_items r))"
proof -
  let ?N = "ring_capacity r"
  obtain k where k: "size r = Suc k" using assms(2) by (cases "size r") auto
  have r: "head r < ?N" "size r \<le> ?N" "tail r = (head r + size r) mod ?N" "0 < ?N" using assms(1) by (simp_all add: ring_inv_def)
  have "ring_retreat ?N (tail r) = (head r + k) mod ?N"
  proof (cases "(head r + k) mod ?N = ?N - 1")
    case True
    then have "tail r = 0" using r(3,4) k by (simp add: mod_Suc)
    with True show ?thesis by (simp add: ring_retreat_def)
  next
    case False
    then have "tail r = Suc ((head r + k) mod ?N)" using r(3,4) k by (simp add: mod_Suc)
    then show ?thesis by (simp add: ring_retreat_def)
  qed
  moreover have "last (ring_items r) = ring_items r ! k"
    using k by (metis diff_Suc_1 last_conv_nth length_items list.size(3) nat.distinct(1))
  ultimately show ?thesis using r(4) k by (simp add: ring_back_def rd_data items_nth del: rd.simps)
qed

lemma clear_items: "ring_inv r \<Longrightarrow> ring_inv (ring_clear r) \<and> ring_items (ring_clear r) = []"
  by (simp add: ring_inv_def ring_clear_def ring_items_def ring_capacity_def)

section \<open>Lists of pushes and bulk transfers\<close>

lemma push_items:
  assumes "ring_inv r"
  shows "ring_inv (snd (ring_push v r))" and "ring_capacity (snd (ring_push v r)) = ring_capacity r"
    and "ring_items (snd (ring_push v r)) = take (ring_capacity r) (ring_items r @ [v])"
    and "fst (ring_push v r) \<longleftrightarrow> size r < ring_capacity r"
proof -
  have "size r \<le> ring_capacity r" using assms by (simp add: ring_inv_def)
  then show "ring_inv (snd (ring_push v r))" "ring_capacity (snd (ring_push v r)) = ring_capacity r"
    "ring_items (snd (ring_push v r)) = take (ring_capacity r) (ring_items r @ [v])"
    "fst (ring_push v r) \<longleftrightarrow> size r < ring_capacity r"
    using assms store_items [OF assms, of v] by (auto simp: ring_push_def ring_full_def)
qed

lemma pop_items:
  assumes "ring_inv r"
  shows "fst (ring_pop r) = (case ring_items r of [] \<Rightarrow> None | x # _ \<Rightarrow> Some x)"
    and "ring_inv (snd (ring_pop r))" and "ring_items (snd (ring_pop r)) = tl (ring_items r)"
    and "ring_discard r = (ring_items r \<noteq> [], snd (ring_pop r))"
proof -
  have "ring_items r = [] \<longleftrightarrow> size r = 0" using length_items [of r] by (metis length_0_conv)
  then show "fst (ring_pop r) = (case ring_items r of [] \<Rightarrow> None | x # _ \<Rightarrow> Some x)"
    "ring_inv (snd (ring_pop r))" "ring_items (snd (ring_pop r)) = tl (ring_items r)"
    "ring_discard r = (ring_items r \<noteq> [], snd (ring_pop r))"
    using assms drop_items [OF assms] by (auto simp: ring_pop_def ring_discard_def ring_empty_def split: list.splits)
qed

lemma push_list_items:
  "ring_inv r \<Longrightarrow> ring_inv (ring_push_list vs r) \<and> ring_capacity (ring_push_list vs r) = ring_capacity r \<and>
    ring_items (ring_push_list vs r) = take (ring_capacity r) (ring_items r @ vs)"
proof (induction vs r rule: ring_push_list.induct)
  case (1 r)
  then show ?case by (simp add: ring_inv_def)
next
  case (2 v vs r)
  show ?case
  proof (cases "ring_full r")
    case True
    then show ?thesis using 2(2) by (simp add: ring_full_def)
  next
    case False
    then have "size r < ring_capacity r" using 2(2) by (simp add: ring_full_def ring_inv_def)
    then have "take (ring_capacity r) (ring_items r @ [v]) = ring_items r @ [v]" by simp
    with False show ?thesis using 2(1) [OF False] push_items [OF 2(2), of v] by simp
  qed
qed

definition ring_force_push_list :: "'a list \<Rightarrow> 'a ring_buffer \<Rightarrow> 'a ring_buffer" where
  "ring_force_push_list vs r = fold (\<lambda>v r. snd (ring_force_push v r)) vs r"

lemma force_push_list_items:
  assumes "ring_inv r"
  shows "ring_inv (ring_force_push_list vs r) \<and>
    ring_items (ring_force_push_list vs r) = drop (size r + length vs - ring_capacity r) (ring_items r @ vs)"
  unfolding ring_force_push_list_def using assms
proof (induction vs arbitrary: r)
  case Nil
  then show ?case by (simp add: ring_inv_def)
next
  case (Cons v vs)
  let ?r = "snd (ring_force_push v r)"
  have r: "ring_inv ?r" "ring_capacity ?r = ring_capacity r"
    "ring_items ?r = drop (Suc (size r) - ring_capacity r) (ring_items r @ [v])"
    using force_push_items [OF Cons.prems] by simp_all
  have le: "size r \<le> ring_capacity r" "0 < ring_capacity r" using Cons.prems by (simp_all add: ring_inv_def)
  have s: "size ?r = Suc (size r) - (Suc (size r) - ring_capacity r)"
    using r(3) length_items [of ?r] by simp
  let ?d = "Suc (size r) - ring_capacity r"
  have "drop (size ?r + length vs - ring_capacity r) (drop ?d (ring_items r @ [v]) @ vs)
      = drop (size ?r + length vs - ring_capacity r) (drop ?d ((ring_items r @ [v]) @ vs))"
    using le by (subst drop_append) simp
  also have "\<dots> = drop (size r + length (v # vs) - ring_capacity r) (ring_items r @ v # vs)"
    using le s by (cases "size r = ring_capacity r") (simp_all add: add.commute)
  finally show ?case using Cons.IH [OF r(1)] r(2,3) by simp
qed

lemma push_bulk_loop_items:
  assumes "ring_inv r" and "limit \<le> length xs"
  shows "\<exists>r'. ring_push_bulk_loop (Mem xs) limit k r = Some (k + min (limit - k) (ring_available r), r') \<and> ring_inv r' \<and>
    ring_items r' = ring_items r @ take (min (limit - k) (ring_available r)) (drop k xs)"
  using assms
proof (induction "limit - k" arbitrary: k r)
  case 0
  then show ?case by (subst ring_push_bulk_loop.simps) simp
next
  case (Suc d)
  show ?case
  proof (cases "ring_full r")
    case True
    then show ?thesis using Suc.prems(1) by (subst ring_push_bulk_loop.simps) (simp add: ring_full_def ring_available_def)
  next
    case False
    then have lt: "size r < ring_capacity r" using Suc.prems(1) by (simp add: ring_full_def ring_inv_def)
    have k: "k < limit" "k < length xs" using Suc.hyps(2) Suc.prems(2) by simp_all
    note s = store_items [OF Suc.prems(1) lt, of "xs ! k"]
    have sz: "size (ring_store (xs ! k) r) = Suc (size r)" by (simp add: ring_store_def)
    have av: "ring_available r = Suc (ring_available (ring_store (xs ! k) r))"
      using lt by (simp add: ring_available_def s(3) sz)
    have lk: "limit - k = Suc (limit - Suc k)" using k by simp
    have d: "drop k xs = xs ! k # drop (Suc k) xs" using k by (simp add: Cons_nth_drop_Suc)
    have "d = limit - Suc k" using Suc.hyps(2) by simp
    from Suc.hyps(1) [OF this s(1) Suc.prems(2)]
    show ?thesis using False k by (subst ring_push_bulk_loop.simps) (auto simp: av lk d s(2))
  qed
qed

fun ring_drops :: "nat \<Rightarrow> 'a ring_buffer \<Rightarrow> 'a ring_buffer" where
  "ring_drops 0 r = r"
| "ring_drops (Suc n) r = ring_drops n (ring_drop r)"

lemma drops_items:
  "ring_inv r \<Longrightarrow> n \<le> size r \<Longrightarrow> ring_inv (ring_drops n r) \<and> ring_items (ring_drops n r) = drop n (ring_items r)"
proof (induction n r rule: ring_drops.induct)
  case (2 n r)
  then have "0 < size r" "n \<le> size (ring_drop r)" by (simp_all add: ring_drop_def)
  with 2 drop_items [of r] show ?case by (simp add: drop_Suc)
qed simp

lemma pop_bulk_loop_items:
  assumes "ring_inv r"
  shows "ring_pop_bulk_loop dst limit k r =
      map_option (\<lambda>dst. (k + min (limit - k) (size r), dst, ring_drops (min (limit - k) (size r)) r))
        (store dst k (take (limit - k) (ring_items r)))"
  using assms
proof (induction "limit - k" arbitrary: k r dst)
  case 0
  then show ?case by (subst ring_pop_bulk_loop.simps) simp
next
  case (Suc d)
  show ?case
  proof (cases "ring_empty r")
    case True
    then have "ring_items r = []" using length_items [of r] by (metis length_0_conv ring_empty_def)
    with True show ?thesis using Suc.prems(1) by (subst ring_pop_bulk_loop.simps) (simp add: ring_empty_def)
  next
    case False
    then have pos: "0 < size r" by (simp add: ring_empty_def)
    have k: "k < limit" using Suc.hyps(2) by simp
    have h: "head r < ring_capacity r" using Suc.prems(1) by (simp add: ring_inv_def)
    note d = drop_items [OF Suc.prems(1) pos]
    obtain x xs where xs: "ring_items r = x # xs" "data r ! head r = x" "ring_items (ring_drop r) = xs" using d by metis
    have sz: "size r = Suc (size (ring_drop r))" using pos by (simp add: ring_drop_def)
    have lk: "limit - k = Suc (limit - Suc k)" using k by simp
    have "d = limit - Suc k" using Suc.hyps(2) by simp
    note IH = Suc.hyps(1) [OF this d(1)]
    show ?thesis using False k h
      by (subst ring_pop_bulk_loop.simps)
        (simp add: rd_data xs lk sz IH store_Cons [symmetric] bind_map_option_right del: rd.simps store.simps put.simps)
  qed
qed

section \<open>What the ring buffer promises\<close>

text \<open>The bulk operations: \<open>push_bulk\<close> appends the first elements of the source, as many as were asked
  for and as there is room, \<open>pop_bulk\<close> moves the oldest elements to the start of the destination, as many
  as were asked for and as are stored; neither reads or writes outside the ranges the caller passes.\<close>

lemma ring_bulk:
  assumes "ring_inv r" and "limit \<le> length xs"
  shows "(\<exists>r'. ring_push_bulk (Mem xs) limit r = Some (min limit (ring_available r), r') \<and> ring_inv r' \<and>
      ring_items r' = ring_items r @ take (min limit (ring_available r)) xs) \<and>
    (\<exists>r'. ring_pop_bulk (Mem xs) limit r =
        Some (min limit (size r), Mem (take limit (ring_items r) @ drop (min limit (size r)) xs), r') \<and> ring_inv r' \<and>
      ring_items r' = drop limit (ring_items r)) \<and>
    ring_push_bulk (Null n) limit r = Some (0, r) \<and> ring_pop_bulk (Null n) limit r = Some (0, Null n, r)"
proof -
  have "drop (min limit (size r)) (ring_items r) = drop limit (ring_items r)"
    by (simp add: min_def)
  moreover have "min limit (size r) \<le> length xs" using assms(2) by simp
  ultimately show ?thesis
    using push_bulk_loop_items [OF assms, of 0] pop_bulk_loop_items [OF assms(1), of "Mem xs" limit 0]
      drops_items [OF assms(1), of "min limit (size r)"]
    by (simp add: ring_push_bulk_def ring_pop_bulk_def min.commute)
qed

lemma ring_of_list_items:
  "0 < N \<Longrightarrow> N < 2 ^ 31 \<Longrightarrow> ring_inv (ring_of_list N z vs) \<and> ring_capacity (ring_of_list N z vs) = N \<and>
     ring_items (ring_of_list N z vs) = take N vs"
  using push_list_items [OF ring_inv_init [of N z], of vs] by (simp add: ring_of_list_def) (simp add: ring_init_def ring_capacity_def)

text \<open>C12: every operation, described on the list the buffer stores.  \<open>push\<close> appends or refuses when full,
  \<open>force_push\<close> appends and drops the oldest element when full, both \<open>pop\<close>s remove the oldest, \<open>peek\<close>,
  \<open>front\<close> and \<open>back\<close> read the element at a position, at the front and at the back (never outside the
  storage, the wrap-around mask included), \<open>clear\<close> removes all.  \<open>push_bulk\<close> appends the first elements of the
  source, as many as were asked for and as there is room; \<open>pop_bulk\<close> moves the oldest elements to the start of
  the destination, as many as were asked for and as are stored; neither touches memory outside the ranges the
  caller passes, and a null range is left alone.  The list constructor stores the elements that fit.  Each
  operation keeps the invariant.\<close>

theorem ring_operations:
  assumes "ring_inv r"
  shows "(ring_empty r \<longleftrightarrow> ring_items r = []) \<and> (ring_full r \<longleftrightarrow> length (ring_items r) = ring_capacity r) \<and>
    ring_available r = ring_capacity r - length (ring_items r) \<and>
    ring_inv (snd (ring_push v r)) \<and>
    fst (ring_push v r) = (length (ring_items r) < ring_capacity r) \<and>
    ring_items (snd (ring_push v r)) = take (ring_capacity r) (ring_items r @ [v]) \<and>
    ring_inv (snd (ring_force_push v r)) \<and>
    fst (ring_force_push v r) = (length (ring_items r) = ring_capacity r) \<and>
    ring_items (snd (ring_force_push v r)) = drop (Suc (length (ring_items r)) - ring_capacity r) (ring_items r @ [v]) \<and>
    fst (ring_pop r) = (case ring_items r of [] \<Rightarrow> None | x # _ \<Rightarrow> Some x) \<and>
    ring_inv (snd (ring_pop r)) \<and> ring_items (snd (ring_pop r)) = tl (ring_items r) \<and>
    ring_discard r = (ring_items r \<noteq> [], snd (ring_pop r)) \<and>
    ring_peek i r = Some (if i < length (ring_items r) then Some (ring_items r ! i) else None) \<and>
    (ring_items r \<noteq> [] \<longrightarrow> ring_front r = Some (hd (ring_items r)) \<and> ring_back r = Some (last (ring_items r))) \<and>
    ring_inv (ring_clear r) \<and> ring_items (ring_clear r) = [] \<and>
    (limit \<le> length xs \<longrightarrow>
      (\<exists>r'. ring_push_bulk (Mem xs) limit r = Some (min limit (ring_available r), r') \<and> ring_inv r' \<and>
        ring_items r' = ring_items r @ take (min limit (ring_available r)) xs) \<and>
      (\<exists>r'. ring_pop_bulk (Mem xs) limit r =
          Some (min limit (length (ring_items r)),
            Mem (take limit (ring_items r) @ drop (min limit (length (ring_items r))) xs), r') \<and> ring_inv r' \<and>
        ring_items r' = drop limit (ring_items r))) \<and>
    ring_push_bulk (Null n) limit r = Some (0, r) \<and> ring_pop_bulk (Null n) limit r = Some (0, Null n, r) \<and>
    (0 < N \<and> N < 2 ^ 31 \<longrightarrow> ring_inv (ring_of_list N z vs) \<and> ring_capacity (ring_of_list N z vs) = N \<and>
      ring_items (ring_of_list N z vs) = take N vs)"
proof -
  have e: "ring_items r = [] \<longleftrightarrow> size r = 0" using length_items [of r] by (metis length_0_conv)
  have null: "ring_push_bulk (Null n) limit r = Some (0, r)" "ring_pop_bulk (Null n) limit r = Some (0, Null n, r)"
    by (simp_all add: ring_push_bulk_def ring_pop_bulk_def)
  show ?thesis
    using push_items [OF assms, of v] force_push_items [OF assms, of v] pop_items [OF assms] peek_items [OF assms, of i]
      clear_items [OF assms] front_items [OF assms] back_items [OF assms] null
    by (intro conjI impI)
      (simp_all add: e ring_empty_def ring_full_def ring_available_def ring_bulk [OF assms, unfolded ring_available_def] ring_of_list_items)
qed

theorem ring_operations_witness:
  "ring_items (snd (ring_push 4 \<lparr>data = [1, 2, 3 :: nat], head = 2, tail = 1, size = 2\<rparr>)) = [3, 1, 4] \<and>
   ring_peek 1 \<lparr>data = [1, 2, 3 :: nat], head = 2, tail = 1, size = 2\<rparr> = Some (Some 1) \<and>
   (\<exists>r'. ring_pop_bulk (Mem [0, 0, 0, 0]) 4 \<lparr>data = [1, 2, 3 :: nat], head = 2, tail = 1, size = 2\<rparr> =
     Some (2, Mem [3, 1, 0, 0], r') \<and> ring_items r' = []) \<and>
   ring_items (ring_of_list 2 0 [7 :: nat, 8, 9]) = [7, 8]"
proof -
  let ?r = "\<lparr>data = [1, 2, 3 :: nat], head = 2, tail = 1, size = 2\<rparr>"
  have i: "ring_inv ?r" by (simp add: ring_inv_def ring_capacity_def)
  have "ring_items ?r = [3, 1]" by (simp add: ring_items_def ring_capacity_def numeral_2_eq_2 upt_rec)
  then show ?thesis using ring_operations [OF i, of 4 1 4 "[0, 0, 0, 0]" 0 2 0 "[7, 8, 9]"]
    by (auto simp: ring_capacity_def)
qed

text \<open>First in, first out: in any interleaving of pushes and pops from any state, what was stored
  followed by what was accepted is what was delivered followed by what is still stored.\<close>

theorem ring_fifo:
  assumes "ring_inv r" and "ring.run ops r = (accepted, delivered, r')"
  shows "ring_items r @ accepted = delivered @ ring_items r'"
  using ring.fifo [OF assms] by blast

theorem ring_fifo_witness:
  "ring_items (ring_init 2 (0 :: nat)) @ [7, 8, 9] = [7, 8] @ ring_items \<lparr>data = [9, 8], head = 0, tail = 1, size = 1\<rparr>"
proof (rule ring_fifo)
  show "ring_inv (ring_init 2 (0 :: nat))" by (simp add: ring_inv_init)
  show "ring.run [Enq 7, Enq 8, Enq 5, Deq, Enq 9, Deq] (ring_init 2 0) =
      ([7, 8, 9], [7, 8], \<lparr>data = [9, 8 :: nat], head = 0, tail = 1, size = 1\<rparr>)"
    by (simp add: ring_init_def ring_push_def ring_pop_def ring_full_def ring_empty_def ring_store_def ring_drop_def
        ring_capacity_def ring_advance_def numeral_2_eq_2)
qed

text \<open>\<open>force_push\<close> over any sequence keeps the newest elements: the buffer holds the last ones of what it
  stored followed by the sequence, as many as its capacity allows.\<close>

theorem ring_keeps_newest:
  assumes "ring_inv r"
  shows "ring_items (ring_force_push_list vs r) = drop (size r + length vs - ring_capacity r) (ring_items r @ vs)"
  using force_push_list_items [OF assms] by blast

theorem ring_keeps_newest_witness:
  "ring_items (ring_force_push_list [1, 2, 3, 4, 5] (ring_init 3 (0 :: nat))) = [3, 4, 5]"
  using ring_keeps_newest [of "ring_init 3 (0 :: nat)" "[1, 2, 3, 4, 5]"]
  by (simp add: ring_inv_init) (simp add: ring_init_def ring_capacity_def)

end
