(* ===== verification/Strings.thy ===== *)
theory Strings
  imports Prelude
begin

text \<open>
  Text in fixed storage: \<open>castle::container::basic_string_view\<close> (\<open>castle/container/string_view.hpp\<close>) and
  \<open>basic_string\<close> (\<open>castle/container/string.hpp\<close>) over \<open>char\<close>.  A view is a pointer with its size; a string
  is its array of capacity plus one characters and its size.  A view handed to a string is a range of its own:
  a string edited through a view of itself is not modelled.  Every operation of the string is described on the
  list of its characters.
\<close>

section \<open>The C library\<close>

text \<open>The index of a character among \<open>n\<close> bytes from \<open>i\<close> on; the bytes before it are equal or not; only the
  sign of \<open>memcmp\<close> is specified.\<close>

definition memchr :: "u8 ptr \<Rightarrow> nat \<Rightarrow> u8 \<Rightarrow> nat \<Rightarrow> nat option option" where
  "memchr p i c n = (case p of
     Null m \<Rightarrow> None
   | Mem xs \<Rightarrow> if i + n \<le> length xs then Some (List.find (\<lambda>j. xs ! j = c) [i..<i + n]) else None)"

fun memcmp_bytes :: "u8 list \<Rightarrow> u8 list \<Rightarrow> int" where
  "memcmp_bytes (x # xs) (y # ys) = (if x < y then - 1 else if x > y then 1 else memcmp_bytes xs ys)"
| "memcmp_bytes _ _ = 0"

definition memcmp :: "u8 ptr \<Rightarrow> nat \<Rightarrow> u8 ptr \<Rightarrow> nat \<Rightarrow> int option" where
  "memcmp p i q n = (case (p, q) of
     (Mem xs, Mem ys) \<Rightarrow> if i + n \<le> length xs \<and> n \<le> length ys then Some (memcmp_bytes (take n (drop i xs)) (take n ys)) else None
   | _ \<Rightarrow> None)"

section \<open>Views\<close>

definition view_substr :: "u8 ptr \<Rightarrow> nat \<Rightarrow> nat option \<Rightarrow> u8 ptr" where
  "view_substr v offset count =
     (if offset > psize v then Null 0
      else let available = psize v - offset;
               count = (case count of None \<Rightarrow> available | Some n \<Rightarrow> if n > available then available else n)
           in case v of Null n \<Rightarrow> Null count | Mem xs \<Rightarrow> Mem (take count (drop offset xs)))"

definition view_find_char :: "u8 ptr \<Rightarrow> u8 \<Rightarrow> nat \<Rightarrow> nat option option" where
  "view_find_char v c offset = (if offset \<ge> psize v then Some None else memchr v offset c (psize v - offset))"

function view_find_loop :: "u8 ptr \<Rightarrow> u8 ptr \<Rightarrow> nat \<Rightarrow> nat \<Rightarrow> nat option option" where
  "view_find_loop v s last_start i =
     (if i \<le> last_start then do {
        first \<leftarrow> rd s 0;
        found \<leftarrow> memchr v i first (last_start - i + 1);
        case found of
          None \<Rightarrow> Some None
        | Some i' \<Rightarrow>
            if i' < i then None
            else do { d \<leftarrow> memcmp v i' s (psize s); if d = 0 then Some (Some i') else view_find_loop v s last_start (i' + 1) } }
      else Some None)"
  by pat_completeness auto
termination by (relation "measure (\<lambda>(v, s, last, i). Suc last - i)") auto

declare view_find_loop.simps [simp del]

definition view_find :: "u8 ptr \<Rightarrow> u8 ptr \<Rightarrow> nat \<Rightarrow> nat option option" where
  "view_find v s offset =
     (if psize s = 0 then Some (if offset \<le> psize v then Some offset else None)
      else if psize s > psize v \<or> offset > psize v - psize s then Some None
      else view_find_loop v s (psize v - psize s) offset)"

definition view_compare :: "u8 ptr \<Rightarrow> u8 ptr \<Rightarrow> int option" where
  "view_compare v w = do {
     let common = (if psize v < psize w then psize v else psize w);
     r \<leftarrow> memcmp v 0 w common;
     Some (if r \<noteq> 0 then r else if psize v < psize w then - 1 else if psize v > psize w then 1 else 0) }"

definition view_starts_with :: "u8 ptr \<Rightarrow> u8 ptr \<Rightarrow> bool option" where
  "view_starts_with v prefix =
     (if psize prefix \<le> psize v then do { d \<leftarrow> view_compare (view_substr v 0 (Some (psize prefix))) prefix; Some (d = 0) } else Some False)"

definition view_ends_with :: "u8 ptr \<Rightarrow> u8 ptr \<Rightarrow> bool option" where
  "view_ends_with v suffix =
     (if psize suffix \<le> psize v then do {
        d \<leftarrow> view_compare (view_substr v (psize v - psize suffix) (Some (psize suffix))) suffix; Some (d = 0) }
      else Some False)"

section \<open>Strings\<close>

record cstring =
  str_data :: "u8 list"
  str_size :: nat

definition str_capacity :: "cstring \<Rightarrow> nat" where
  "str_capacity s = length (str_data s) - 1"

definition str_full :: "cstring \<Rightarrow> bool" where "str_full s \<longleftrightarrow> str_size s = str_capacity s"
definition str_empty :: "cstring \<Rightarrow> bool" where "str_empty s \<longleftrightarrow> str_size s = 0"
definition str_available :: "cstring \<Rightarrow> nat" where "str_available s = str_capacity s - str_size s"

definition str_put :: "nat \<Rightarrow> u8 \<Rightarrow> cstring \<Rightarrow> cstring option" where
  "str_put i c s = (if i < length (str_data s) then Some (s\<lparr>str_data := (str_data s)[i := c]\<rparr>) else None)"

definition str_resized :: "nat \<Rightarrow> cstring \<Rightarrow> cstring option" where
  "str_resized n s = str_put n 0 (s\<lparr>str_size := n\<rparr>)"

definition str_clear :: "cstring \<Rightarrow> cstring option" where
  "str_clear s = str_resized 0 s"

text \<open>A fresh string: its array is uninitialised but for the terminator.\<close>

definition str_init :: "u8 list \<Rightarrow> cstring option" where
  "str_init raw = str_clear \<lparr>str_data = raw, str_size = 0\<rparr>"

function copy_chars :: "nat \<Rightarrow> u8 ptr \<Rightarrow> nat \<Rightarrow> nat \<Rightarrow> cstring \<Rightarrow> cstring option" where
  "copy_chars dst src count i s =
     (if i < count then do { c \<leftarrow> rd src i; s \<leftarrow> str_put (dst + i) c s; copy_chars dst src count (i + 1) s } else Some s)"
  by pat_completeness auto
termination by (relation "measure (\<lambda>(dst, src, count, i, s). count - i)") auto

declare copy_chars.simps [simp del]

text \<open>The length of a C string, given up beyond a limit.\<close>

function text_length :: "u8 ptr \<Rightarrow> nat \<Rightarrow> nat \<Rightarrow> nat option option" where
  "text_length text limit n =
     (if n \<le> limit then do {
        c \<leftarrow> rd text n;
        if c \<noteq> 0 then if n + 1 > limit then Some None else text_length text limit (n + 1) else Some (Some n) }
      else Some None)"
  by pat_completeness auto
termination by (relation "measure (\<lambda>(text, limit, n). limit - n)") auto

declare text_length.simps [simp del]

definition str_assign_text :: "u8 ptr \<Rightarrow> cstring \<Rightarrow> (status \<times> cstring) option" where
  "str_assign_text text s =
     (if is_null text then do { s \<leftarrow> str_clear s; Some (status_invalid_argument, s) }
      else do {
        n \<leftarrow> text_length text (str_capacity s) 0;
        case n of
          None \<Rightarrow> Some (status_full, s)
        | Some n \<Rightarrow> do { s \<leftarrow> copy_chars 0 text n 0 s; s \<leftarrow> str_resized n s; Some (status_ok, s) } })"

definition str_assign :: "u8 ptr \<Rightarrow> cstring \<Rightarrow> (status \<times> cstring) option" where
  "str_assign v s =
     (if psize v > str_capacity s then Some (status_full, s)
      else do { s \<leftarrow> copy_chars 0 v (psize v) 0 s; s \<leftarrow> str_resized (psize v) s; Some (status_ok, s) })"

definition str_of_view :: "u8 list \<Rightarrow> u8 ptr \<Rightarrow> cstring option" where
  "str_of_view raw v = do {
     s \<leftarrow> str_init raw;
     (r, s) \<leftarrow> str_assign v s;
     if r \<noteq> status_ok then str_clear s else Some s }"

definition str_of_text :: "u8 list \<Rightarrow> u8 ptr \<Rightarrow> cstring option" where
  "str_of_text raw text = do {
     s \<leftarrow> str_init raw;
     (r, s) \<leftarrow> str_assign_text text s;
     if r \<noteq> status_ok then str_clear s else Some s }"

text \<open>A copy of another string: assigned, where assigning a string to itself does nothing, or constructed.\<close>

definition str_copied :: "cstring \<Rightarrow> cstring \<Rightarrow> cstring option" where
  "str_copied other s = do {
     s \<leftarrow> copy_chars 0 (Mem (str_data other)) (str_size other) 0 (s\<lparr>str_size := str_size other\<rparr>);
     str_put (str_size s) 0 s }"

definition str_copy :: "u8 list \<Rightarrow> cstring \<Rightarrow> cstring option" where
  "str_copy raw other = do {
     s \<leftarrow> copy_chars 0 (Mem (str_data other)) (str_size other) 0 \<lparr>str_data = raw, str_size = str_size other\<rparr>;
     str_put (str_size s) 0 s }"

text \<open>Subscripts, iterators and the text handed to C read and write the array.\<close>

definition str_at :: "nat \<Rightarrow> cstring \<Rightarrow> u8 option" where
  "str_at i s = rd (Mem (str_data s)) i"

definition str_push_back :: "u8 \<Rightarrow> cstring \<Rightarrow> (status \<times> cstring) option" where
  "str_push_back c s =
     (if str_full s then Some (status_full, s)
      else do { s' \<leftarrow> str_put (str_size s) c s; s' \<leftarrow> str_resized (str_size s + 1) s'; Some (status_ok, s') })"

definition str_pop_back :: "cstring \<Rightarrow> (status \<times> cstring) option" where
  "str_pop_back s =
     (if str_empty s then Some (status_empty, s) else do { s \<leftarrow> str_resized (str_size s - 1) s; Some (status_ok, s) })"

definition str_append_text :: "u8 ptr \<Rightarrow> cstring \<Rightarrow> (status \<times> cstring) option" where
  "str_append_text text s =
     (if is_null text then Some (status_invalid_argument, s)
      else do {
        n \<leftarrow> text_length text (str_capacity s - str_size s) 0;
        case n of
          None \<Rightarrow> Some (status_full, s)
        | Some n \<Rightarrow> do {
            s' \<leftarrow> copy_chars (str_size s) text n 0 s; s' \<leftarrow> str_resized (str_size s + n) s'; Some (status_ok, s') } })"

definition str_append :: "u8 ptr \<Rightarrow> cstring \<Rightarrow> (status \<times> cstring) option" where
  "str_append v s =
     (if psize v > str_capacity s - str_size s then Some (status_full, s)
      else do {
        s' \<leftarrow> copy_chars (str_size s) v (psize v) 0 s; s' \<leftarrow> str_resized (str_size s + psize v) s'; Some (status_ok, s') })"

text \<open>The loop of \<open>insert\<close> that makes room, from the back.\<close>

fun str_open_loop :: "nat \<Rightarrow> nat \<Rightarrow> nat \<Rightarrow> cstring \<Rightarrow> cstring option" where
  "str_open_loop 0 position n s = Some s"
| "str_open_loop (Suc i) position n s =
     (if Suc i > position then do {
        c \<leftarrow> rd (Mem (str_data s)) i;
        s \<leftarrow> str_put (i + n) c s;
        str_open_loop i position n s }
      else Some s)"

definition str_insert :: "nat \<Rightarrow> u8 ptr \<Rightarrow> cstring \<Rightarrow> (status \<times> cstring) option" where
  "str_insert position v s =
     (if position > str_size s then Some (status_out_of_range, s)
      else if psize v > str_capacity s - str_size s then Some (status_full, s)
      else do {
        s' \<leftarrow> str_open_loop (str_size s) position (psize v) s;
        s' \<leftarrow> copy_chars position v (psize v) 0 s';
        s' \<leftarrow> str_resized (str_size s + psize v) s';
        Some (status_ok, s') })"

function str_close_loop :: "nat \<Rightarrow> nat \<Rightarrow> cstring \<Rightarrow> cstring option" where
  "str_close_loop i count s =
     (if i + count < str_size s then do {
        c \<leftarrow> rd (Mem (str_data s)) (i + count);
        s' \<leftarrow> str_put i c s;
        str_close_loop (i + 1) count s' }
      else Some s)"
  by pat_completeness auto
termination
  by (relation "measure (\<lambda>(i, count, s). str_size s - (i + count))") (auto simp: str_put_def split: if_splits)

declare str_close_loop.simps [simp del]

definition str_erase :: "nat \<Rightarrow> nat option \<Rightarrow> cstring \<Rightarrow> (status \<times> cstring) option" where
  "str_erase position count s =
     (if position > str_size s then Some (status_out_of_range, s)
      else do {
        let count = (case count of None \<Rightarrow> str_size s - position | Some n \<Rightarrow> if n > str_size s - position then str_size s - position else n);
        s' \<leftarrow> str_close_loop position count s;
        s' \<leftarrow> str_resized (str_size s - count) s';
        Some (status_ok, s') })"

function str_fill_loop :: "nat \<Rightarrow> nat \<Rightarrow> u8 \<Rightarrow> cstring \<Rightarrow> cstring option" where
  "str_fill_loop i count c s = (if i < count then do { s \<leftarrow> str_put i c s; str_fill_loop (i + 1) count c s } else Some s)"
  by pat_completeness auto
termination by (relation "measure (\<lambda>(i, count, _, _). count - i)") auto

declare str_fill_loop.simps [simp del]

definition str_resize :: "nat \<Rightarrow> u8 \<Rightarrow> cstring \<Rightarrow> (status \<times> cstring) option" where
  "str_resize count c s =
     (if count > str_capacity s then Some (status_full, s)
      else do {
        s' \<leftarrow> (if count > str_size s then str_fill_loop (str_size s) count c s else Some s);
        s' \<leftarrow> str_resized count s';
        Some (status_ok, s') })"

definition str_view :: "cstring \<Rightarrow> u8 ptr" where
  "str_view s = Mem (take (str_size s) (str_data s))"

definition str_append_string :: "cstring \<Rightarrow> cstring \<Rightarrow> (status \<times> cstring) option" where
  "str_append_string other s = str_append (str_view other) s"

definition str_find_char :: "u8 \<Rightarrow> nat \<Rightarrow> cstring \<Rightarrow> nat option option" where
  "str_find_char c offset s = view_find_char (str_view s) c offset"

definition str_find :: "u8 ptr \<Rightarrow> nat \<Rightarrow> cstring \<Rightarrow> nat option option" where
  "str_find v offset s = view_find (str_view s) v offset"

definition str_compare :: "u8 ptr \<Rightarrow> cstring \<Rightarrow> int option" where
  "str_compare v s = view_compare (str_view s) v"

definition str_equal :: "cstring \<Rightarrow> cstring \<Rightarrow> bool option" where
  "str_equal s u = do { d \<leftarrow> str_compare (str_view u) s; Some (d = 0) }"

definition str_less :: "cstring \<Rightarrow> cstring \<Rightarrow> bool option" where
  "str_less s u = do { d \<leftarrow> str_compare (str_view u) s; Some (d < 0) }"

section \<open>The text of a string\<close>

text \<open>A string of capacity \<open>N\<close> that holds \<open>t\<close>: its characters, the terminator, and what is left of the array.\<close>

definition str_holds :: "nat \<Rightarrow> cstring \<Rightarrow> u8 list \<Rightarrow> bool" where
  "str_holds N s t \<longleftrightarrow> (\<exists>r. s = \<lparr>str_data = t @ 0 # r, str_size = length t\<rparr> \<and> length t + length r = N)"

text \<open>The characters of a view; a null view is empty.\<close>

fun view_ok :: "u8 ptr \<Rightarrow> bool" where
  "view_ok (Null n) \<longleftrightarrow> n = 0"
| "view_ok (Mem xs) \<longleftrightarrow> True"

fun view_text :: "u8 ptr \<Rightarrow> u8 list" where
  "view_text (Null n) = []"
| "view_text (Mem xs) = xs"

lemma psize_view: "view_ok v \<Longrightarrow> psize v = length (view_text v)"
  by (cases v) simp_all

lemma holds_sizes:
  assumes "str_holds N s t"
  shows "str_size s = length t" "str_capacity s = N" "length t \<le> N" "str_view s = Mem t" "length (str_data s) = Suc N"
  using assms by (auto simp: str_holds_def str_capacity_def str_view_def)

lemma copy_chars_store:
  "i \<le> n \<Longrightarrow> n \<le> length xs \<Longrightarrow> dst + n \<le> length (str_data s) \<Longrightarrow>
   copy_chars dst (Mem xs) n i s =
     Some (s\<lparr>str_data := take (dst + i) (str_data s) @ take (n - i) (drop i xs) @ drop (dst + n) (str_data s)\<rparr>)"
proof (induction "n - i" arbitrary: i s)
  case 0
  then show ?case by (subst copy_chars.simps) simp
next
  case (Suc k)
  then have i: "i < n" "i < length xs" "dst + i < length (str_data s)" by auto
  then have "take (n - i) (drop i xs) = xs ! i # take (n - Suc i) (drop (Suc i) xs)"
    by (simp add: Cons_nth_drop_Suc [symmetric] take_Cons' Suc_diff_Suc [symmetric])
  then show ?case
    using Suc.hyps(1) [of "Suc i" "s\<lparr>str_data := (str_data s)[dst + i := xs ! i]\<rparr>"] Suc.hyps(2) Suc.prems i
    by (subst copy_chars.simps) (simp add: str_put_def take_Suc_conv_app_nth)
qed

lemma copy_view:
  assumes "view_ok v" and "dst + length (view_text v) \<le> length (str_data s)"
  shows "copy_chars dst v (psize v) 0 s =
    Some (s\<lparr>str_data := take dst (str_data s) @ view_text v @ drop (dst + length (view_text v)) (str_data s)\<rparr>)"
  using assms copy_chars_store [of 0 "psize v" "view_text v" dst s] by (cases v) (simp_all add: copy_chars.simps)

text \<open>An operation that keeps the string well-formed and leaves this text.\<close>

definition leaves :: "nat \<Rightarrow> (status \<times> cstring) option \<Rightarrow> status \<Rightarrow> u8 list \<Rightarrow> bool" where
  "leaves N x r t \<longleftrightarrow> (\<exists>s. x = Some (r, s) \<and> str_holds N s t)"

lemma resized_holds:
  assumes "length (str_data s) = Suc N" and "n \<le> N"
  shows "\<exists>s'. str_resized n s = Some s' \<and> str_holds N s' (take n (str_data s))"
  using assms
  by (intro exI [of _ "\<lparr>str_data = take n (str_data s) @ 0 # drop (Suc n) (str_data s), str_size = n\<rparr>"])
    (auto simp: str_resized_def str_put_def str_holds_def upd_conv_take_nth_drop)

lemma clear_holds: "length (str_data s) = Suc N \<Longrightarrow> \<exists>s'. str_clear s = Some s' \<and> str_holds N s' []"
  using resized_holds [of s N 0] by (simp add: str_clear_def)

lemma leaves_resized:
  assumes "length (str_data s) = Suc N" and "n \<le> N" and "take n (str_data s) = t"
  shows "leaves N (do { s \<leftarrow> str_resized n s; Some (r, s) }) r t"
  using resized_holds [OF assms(1,2)] assms(3) by (auto simp: leaves_def)

lemma push_back_leaves:
  assumes "str_holds N s t"
  shows "leaves N (str_push_back c s) (if length t < N then status_ok else status_full) (if length t < N then t @ [c] else t)"
proof -
  obtain r where r: "s = \<lparr>str_data = t @ 0 # r, str_size = length t\<rparr>" "length t + length r = N"
    using assms by (auto simp: str_holds_def)
  show ?thesis
    using assms r leaves_resized [of "s\<lparr>str_data := t @ c # r\<rparr>" N "Suc (length t)" "t @ [c]" status_ok]
    by (auto simp: str_push_back_def str_full_def str_capacity_def str_put_def leaves_def)
qed

lemma append_leaves:
  assumes "str_holds N s t" and "view_ok v"
  shows "leaves N (str_append v s) (if length t + length (view_text v) \<le> N then status_ok else status_full)
    (if length t + length (view_text v) \<le> N then t @ view_text v else t)"
proof -
  note s = holds_sizes [OF assms(1)]
  have room: "length (view_text v) > N - length t \<longleftrightarrow> \<not> length t + length (view_text v) \<le> N" using s(3) by linarith
  show ?thesis
  proof (cases "length t + length (view_text v) \<le> N")
    case True
    have t: "take (length t) (str_data s) = t" using assms(1) by (auto simp: str_holds_def)
    let ?s = "s\<lparr>str_data := t @ view_text v @ drop (length t + length (view_text v)) (str_data s)\<rparr>"
    have "copy_chars (length t) v (psize v) 0 s = Some ?s"
      using True s(5) t copy_view [OF assms(2), of "length t" s] by simp
    moreover have "leaves N (do { s \<leftarrow> str_resized (length t + psize v) ?s; Some (status_ok, s) }) status_ok (t @ view_text v)"
      using True s(5) by (intro leaves_resized) (simp_all add: psize_view assms(2))
    ultimately show ?thesis using True s(1,2) room by (simp add: str_append_def psize_view assms(2))
  next
    case False
    with room have "psize v > N - length t" by (simp add: psize_view assms(2))
    then show ?thesis using False assms(1) s(1,2) by (simp only: str_append_def leaves_def if_True if_False) blast
  qed
qed

lemma assign_leaves:
  assumes "str_holds N s t" and "view_ok v"
  shows "leaves N (str_assign v s) (if length (view_text v) \<le> N then status_ok else status_full)
    (if length (view_text v) \<le> N then view_text v else t)"
proof (cases "length (view_text v) \<le> N")
  case True
  note s = holds_sizes [OF assms(1)]
  let ?s = "s\<lparr>str_data := view_text v @ drop (length (view_text v)) (str_data s)\<rparr>"
  have "copy_chars 0 v (psize v) 0 s = Some ?s" using True s(5) copy_view [OF assms(2), of 0 s] by simp
  moreover have "leaves N (do { s \<leftarrow> str_resized (psize v) ?s; Some (status_ok, s) }) status_ok (view_text v)"
    using True s(5) by (intro leaves_resized) (simp_all add: psize_view assms(2))
  ultimately show ?thesis using True s by (simp add: str_assign_def psize_view assms(2))
next
  case False
  then show ?thesis using assms holds_sizes [OF assms(1)] by (simp add: str_assign_def psize_view leaves_def)
qed

lemma text_length_is:
  assumes "length z < length xs" and "xs = z @ 0 # w" and "0 \<notin> set z" and "n \<le> length z" and "n \<le> limit"
  shows "text_length (Mem xs) limit n = Some (if length z \<le> limit then Some (length z) else None)"
  using assms(4,5)
proof (induction "length z - n" arbitrary: n)
  case 0
  then show ?case using assms(2) by (subst text_length.simps) auto
next
  case (Suc k)
  then have n: "n < length z" by linarith
  then have "xs ! n = z ! n" "z ! n \<noteq> 0" using assms(2,3) by (auto simp: nth_append dest: nth_mem)
  then show ?case using n Suc assms(1) by (subst text_length.simps) auto
qed

text \<open>A C string: its characters up to the first zero.\<close>

definition c_text :: "u8 ptr \<Rightarrow> u8 list \<Rightarrow> bool" where
  "c_text p z \<longleftrightarrow> 0 \<notin> set z \<and> (\<exists>w. p = Mem (z @ 0 # w))"

lemma copy_text:
  assumes "c_text p z" and "dst + length z \<le> length (str_data s)"
  shows "copy_chars dst p (length z) 0 s = Some (s\<lparr>str_data := take dst (str_data s) @ z @ drop (dst + length z) (str_data s)\<rparr>)"
  using assms copy_chars_store [of 0 "length z" "z @ 0 # w" dst s for w] by (auto simp: c_text_def)

lemma text_length_c:
  assumes "c_text p z"
  shows "text_length p limit 0 = Some (if length z \<le> limit then Some (length z) else None)"
  using assms text_length_is [of z _ _ 0] by (auto simp: c_text_def)

lemma assign_text_leaves:
  assumes "str_holds N s t" and "c_text p z"
  shows "leaves N (str_assign_text p s) (if length z \<le> N then status_ok else status_full) (if length z \<le> N then z else t)"
proof (cases "length z \<le> N")
  case True
  note s = holds_sizes [OF assms(1)]
  let ?s = "s\<lparr>str_data := z @ drop (length z) (str_data s)\<rparr>"
  have "copy_chars 0 p (length z) 0 s = Some ?s" using True s(5) copy_text [OF assms(2), of 0 s] by simp
  moreover have "leaves N (do { s \<leftarrow> str_resized (length z) ?s; Some (status_ok, s) }) status_ok z"
    using True s(5) by (intro leaves_resized) simp_all
  moreover have "\<not> is_null p" using assms(2) by (auto simp: c_text_def)
  ultimately show ?thesis using True s by (simp add: str_assign_text_def text_length_c [OF assms(2)])
next
  case False
  moreover have "\<not> is_null p" using assms(2) by (auto simp: c_text_def)
  ultimately show ?thesis using assms holds_sizes [OF assms(1)]
    by (simp add: str_assign_text_def text_length_c [OF assms(2)] leaves_def)
qed

lemma append_text_leaves:
  assumes "str_holds N s t" and "c_text p z"
  shows "leaves N (str_append_text p s) (if length t + length z \<le> N then status_ok else status_full)
    (if length t + length z \<le> N then t @ z else t)"
proof -
  note s = holds_sizes [OF assms(1)]
  have null: "\<not> is_null p" using assms(2) by (auto simp: c_text_def)
  have room: "length z \<le> N - length t \<longleftrightarrow> length t + length z \<le> N" using s(3) by linarith
  show ?thesis
  proof (cases "length t + length z \<le> N")
    case True
    have t: "take (length t) (str_data s) = t" using assms(1) by (auto simp: str_holds_def)
    let ?s = "s\<lparr>str_data := t @ z @ drop (length t + length z) (str_data s)\<rparr>"
    have "copy_chars (length t) p (length z) 0 s = Some ?s" using True s(5) copy_text [OF assms(2), of "length t" s] t by simp
    moreover have "leaves N (do { s \<leftarrow> str_resized (length t + length z) ?s; Some (status_ok, s) }) status_ok (t @ z)"
      using True s(5) by (intro leaves_resized) simp_all
    ultimately show ?thesis using True s null room by (simp add: str_append_text_def text_length_c [OF assms(2)])
  next
    case False
    then show ?thesis using assms s null room by (simp add: str_append_text_def text_length_c [OF assms(2)] leaves_def)
  qed
qed

lemma pop_back_leaves:
  assumes "str_holds N s t"
  shows "leaves N (str_pop_back s) (if t = [] then status_empty else status_ok) (butlast t)"
proof (cases "t = []")
  case True
  then show ?thesis using assms holds_sizes [OF assms] by (simp add: str_pop_back_def str_empty_def leaves_def)
next
  case False
  note s = holds_sizes [OF assms]
  have "take (length t - 1) (str_data s) = butlast t" using assms by (auto simp: str_holds_def butlast_conv_take)
  then have "leaves N (do { s \<leftarrow> str_resized (length t - 1) s; Some (status_ok, s) }) status_ok (butlast t)"
    using s by (intro leaves_resized) simp_all
  then show ?thesis using False s by (simp add: str_pop_back_def str_empty_def)
qed

lemma open_loop_moves:
  "i + n \<le> length (str_data s) \<Longrightarrow> position \<le> i \<Longrightarrow>
   str_open_loop i position n s =
     Some (s\<lparr>str_data := take (position + n) (str_data s) @ take (i - position) (drop position (str_data s)) @ drop (i + n) (str_data s)\<rparr>)"
proof (induction i arbitrary: s)
  case (Suc i)
  show ?case
  proof (cases "Suc i = position")
    case False
    with Suc.prems have i: "position \<le> i" "i + n < length (str_data s)" by linarith+
    let ?d = "(str_data s)[i + n := str_data s ! i]"
    have "drop (i + n) ?d = str_data s ! i # drop (Suc (i + n)) (str_data s)"
      using i(2) by (simp add: Cons_nth_drop_Suc [symmetric])
    moreover have "take (i - position) (drop position ?d) = take (i - position) (drop position (str_data s))"
      using i by (intro nth_equalityI) simp_all
    moreover have "take (Suc i - position) (drop position (str_data s)) = take (i - position) (drop position (str_data s)) @ [str_data s ! i]"
      using i by (simp add: Suc_diff_le take_Suc_conv_app_nth)
    ultimately show ?thesis
      using Suc.IH [of "s\<lparr>str_data := ?d\<rparr>"] Suc.prems i by (simp add: str_put_def)
  next
    case True
    show ?thesis unfolding True [symmetric] by simp
  qed
qed simp

lemma close_loop_moves:
  assumes "str_size s \<le> length (str_data s)" and "i + n \<le> str_size s"
  shows "str_close_loop i n s =
     Some (s\<lparr>str_data := take i (str_data s) @ take (str_size s - (i + n)) (drop (i + n) (str_data s)) @ drop (str_size s - n) (str_data s)\<rparr>)"
  using assms
proof (induction "str_size s - (i + n)" arbitrary: i s)
  case 0
  then have "str_size s - n = i" "\<not> i + n < str_size s" by linarith+
  with 0 show ?case by (subst str_close_loop.simps) simp
next
  case (Suc k)
  then have i: "i + n < str_size s" "i < str_size s - n" by linarith+
  let ?d = "(str_data s)[i := str_data s ! (i + n)]"
  have "take (str_size s - (i + n)) (drop (i + n) (str_data s)) =
      str_data s ! (i + n) # take (str_size s - (Suc i + n)) (drop (Suc i + n) (str_data s))"
    using i Suc.prems(1) by (simp add: Cons_nth_drop_Suc [symmetric] take_Cons' Suc_diff_Suc [symmetric])
  moreover have "take (Suc i) ?d = take i (str_data s) @ [str_data s ! (i + n)]" using i Suc.prems(1) by (simp add: take_Suc_conv_app_nth)
  ultimately show ?case
    using Suc.hyps(1) [of "s\<lparr>str_data := ?d\<rparr>" "Suc i"] Suc.hyps(2) Suc.prems i
    by (subst str_close_loop.simps) (simp add: str_put_def)
qed

lemma fill_loop_fills:
  "i \<le> n \<Longrightarrow> n \<le> length (str_data s) \<Longrightarrow>
   str_fill_loop i n c s = Some (s\<lparr>str_data := take i (str_data s) @ replicate (n - i) c @ drop n (str_data s)\<rparr>)"
proof (induction "n - i" arbitrary: i s)
  case 0
  then show ?case by (subst str_fill_loop.simps) simp
next
  case (Suc k)
  then have i: "i < n" by linarith
  let ?d = "(str_data s)[i := c]"
  have "take (Suc i) ?d = take i (str_data s) @ [c]" using i Suc.prems(2) by (simp add: take_Suc_conv_app_nth)
  moreover have "replicate (n - i) c = c # replicate (n - Suc i) c" using i by (simp add: Suc_diff_Suc [symmetric])
  ultimately show ?case
    using Suc.hyps(1) [of "Suc i" "s\<lparr>str_data := ?d\<rparr>"] Suc.hyps(2) Suc.prems i
    by (subst str_fill_loop.simps) (simp add: str_put_def)
qed

lemma holds_take: "str_holds N s t \<Longrightarrow> n \<le> length t \<Longrightarrow> take n (str_data s) = take n t"
  by (auto simp: str_holds_def)

lemma holds_split:
  assumes "str_holds N s t" and "i \<le> length t"
  shows "take i (str_data s) = take i t" "drop i (str_data s) = drop i t @ drop (length t) (str_data s)"
  using assms by (auto simp: str_holds_def)

lemma insert_leaves:
  assumes "str_holds N s t" and "view_ok v"
  shows "leaves N (str_insert i v s)
    (if i > length t then status_out_of_range else if length t + length (view_text v) > N then status_full else status_ok)
    (if i > length t \<or> length t + length (view_text v) > N then t else take i t @ view_text v @ drop i t)"
proof -
  note s = holds_sizes [OF assms(1)]
  let ?n = "length (view_text v)"
  have room: "?n > N - length t \<longleftrightarrow> length t + ?n > N" using s(3) by linarith
  show ?thesis
  proof (cases "i > length t \<or> length t + ?n > N")
    case False
    then have i: "i \<le> length t" "length t + ?n \<le> N" by simp_all
    note split = holds_split [OF assms(1) i(1)]
    define u where "u = take (i + ?n) (str_data s)"
    define r where "r = drop (length t + ?n) (str_data s)"
    have u: "length u = i + ?n" "take i u = take i t" using i s(5) split by (simp_all add: u_def min_def)
    have r: "length r = Suc N - (length t + ?n)" using s(5) by (simp add: r_def)
    have "take (length t - i) (drop i (str_data s)) = drop i t" using split i by simp
    then have open_loop: "str_open_loop (length t) i ?n s = Some (s\<lparr>str_data := u @ drop i t @ r\<rparr>)"
      using i s open_loop_moves [of "length t" ?n s i] by (simp add: u_def r_def)
    have "copy_chars i v (psize v) 0 (s\<lparr>str_data := u @ drop i t @ r\<rparr>) = Some (s\<lparr>str_data := take i t @ view_text v @ drop i t @ r\<rparr>)"
      using i u copy_view [OF assms(2), of i "s\<lparr>str_data := u @ drop i t @ r\<rparr>"] by simp
    moreover have "leaves N (do { s \<leftarrow> str_resized (length t + ?n) (s\<lparr>str_data := take i t @ view_text v @ drop i t @ r\<rparr>); Some (status_ok, s) })
        status_ok (take i t @ view_text v @ drop i t)"
      using i r by (intro leaves_resized) simp_all
    ultimately show ?thesis using False s(1,2) room open_loop by (simp add: str_insert_def psize_view assms(2))
  next
    case True
    then show ?thesis using assms s room by (auto simp: str_insert_def psize_view leaves_def)
  qed
qed

lemma erase_leaves:
  fixes count :: "nat option"
  assumes "str_holds N s t"
  shows "leaves N (str_erase i count s) (if i > length t then status_out_of_range else status_ok)
    (if i > length t then t else take i t @ drop (i + (case count of None \<Rightarrow> length t - i | Some n \<Rightarrow> min n (length t - i))) t)"
proof (cases "i > length t")
  case True
  then show ?thesis using assms(1) holds_sizes [OF assms(1)] by (simp add: str_erase_def leaves_def)
next
  case False
  note s = holds_sizes [OF assms(1)]
  define n where "n = (case count of None \<Rightarrow> length t - i | Some n \<Rightarrow> min n (length t - i))"
  have n: "i + n \<le> length t" using False by (auto simp: n_def split: option.splits)
  then obtain k where k: "length t = i + n + k" using le_Suc_ex by blast
  define r where "r = drop (i + k) (str_data s)"
  have "take (length t - (i + n)) (drop (i + n) (str_data s)) = drop (i + n) t"
    using holds_split(2) [OF assms n] n by simp
  then have "str_close_loop i n s = Some (s\<lparr>str_data := take i t @ drop (i + n) t @ r\<rparr>)"
    using n s close_loop_moves [of s i n] holds_split(1) [OF assms, of i] k by (simp add: r_def add.commute)
  moreover have "leaves N (do { s \<leftarrow> str_resized (i + k) (s\<lparr>str_data := take i t @ drop (i + n) t @ r\<rparr>); Some (status_ok, s) }) status_ok
      (take i t @ drop (i + n) t)"
    using k s by (intro leaves_resized) (simp_all add: r_def)
  moreover have "(case count of None \<Rightarrow> str_size s - i | Some n \<Rightarrow> if n > str_size s - i then str_size s - i else n) = n"
    unfolding s(1) by (auto simp: n_def split: option.splits)
  moreover have "length t - n = i + k" using k by simp
  ultimately show ?thesis using False s unfolding n_def [symmetric] by (simp add: str_erase_def Let_def)
qed

lemma resize_leaves:
  assumes "str_holds N s t"
  shows "leaves N (str_resize n c s) (if n > N then status_full else status_ok)
    (if n > N then t else take n t @ replicate (n - length t) c)"
proof (cases "n > N")
  case True
  then show ?thesis using assms holds_sizes [OF assms] by (simp add: str_resize_def leaves_def)
next
  case False
  note s = holds_sizes [OF assms]
  let ?d = "if n > length t then take (length t) (str_data s) @ replicate (n - length t) c @ drop n (str_data s) else str_data s"
  have "(if n > str_size s then str_fill_loop (str_size s) n c s else Some s) = Some (s\<lparr>str_data := ?d\<rparr>)"
    using False s fill_loop_fills [of "length t" n s c] by simp
  moreover have "leaves N (do { s \<leftarrow> str_resized n (s\<lparr>str_data := ?d\<rparr>); Some (status_ok, s) }) status_ok
      (take n t @ replicate (n - length t) c)"
    using False s holds_take [OF assms, of "length t"] holds_take [OF assms, of n] by (intro leaves_resized) simp_all
  ultimately show ?thesis using False s by (simp add: str_resize_def)
qed

section \<open>What the views answer\<close>

lemma memcmp_take: "memcmp_bytes (take (min (length xs) (length ys)) xs) (take (min (length xs) (length ys)) ys) = memcmp_bytes xs ys"
  by (induction xs ys rule: memcmp_bytes.induct) auto

definition byte_order :: "(u8 \<times> u8) set" where
  "byte_order = {(a, b). a < b}"

lemma compare_sign:
  "view_compare (Mem xs) (Mem ys) = Some d \<Longrightarrow> (d = 0 \<longleftrightarrow> xs = ys) \<and> (d < 0 \<longleftrightarrow> (xs, ys) \<in> lexord byte_order)"
proof -
  define cmp where "cmp xs ys = (if memcmp_bytes xs ys \<noteq> 0 then memcmp_bytes xs ys
    else if length xs < length ys then - 1 else if length xs > length ys then 1 else 0)" for xs ys
  have "view_compare (Mem xs) (Mem ys) = Some (cmp xs ys)"
  proof -
    have common: "(if length xs < length ys then length xs else length ys) = min (length xs) (length ys)" by simp
    show ?thesis unfolding view_compare_def psize.simps Let_def common by (simp add: memcmp_def memcmp_take cmp_def)
  qed
  moreover have "(cmp xs ys = 0 \<longleftrightarrow> xs = ys) \<and> (cmp xs ys < 0 \<longleftrightarrow> (xs, ys) \<in> lexord byte_order)"
  proof (induction xs arbitrary: ys)
    case Nil
    show ?case by (cases ys) (simp_all add: cmp_def)
  next
    case (Cons x xs)
    show ?case using Cons.IH [of "tl ys"] by (cases ys) (auto simp: cmp_def byte_order_def)
  qed
  ultimately show "view_compare (Mem xs) (Mem ys) = Some d \<Longrightarrow> ?thesis" by simp
qed

lemma compare_some: "\<exists>d. view_compare (Mem xs) (Mem ys) = Some d"
  by (simp add: view_compare_def memcmp_def Let_def)

lemma compare_zero: "do { d \<leftarrow> view_compare (Mem xs) (Mem ys); Some (d = 0) } = Some (xs = ys)"
proof -
  obtain d where "view_compare (Mem xs) (Mem ys) = Some d" using compare_some by blast
  with compare_sign [OF this] show ?thesis by simp
qed

lemma find_upt:
  fixes P :: "nat \<Rightarrow> bool" and i j :: nat
  shows "case List.find P [i..<j] of None \<Rightarrow> \<forall>k. i \<le> k \<and> k < j \<longrightarrow> \<not> P k | Some k \<Rightarrow> i \<le> k \<and> k < j \<and> P k \<and> (\<forall>l. i \<le> l \<and> l < k \<longrightarrow> \<not> P l)"
proof (induction "j - i" arbitrary: i)
  case 0
  then show ?case by auto
next
  case (Suc n)
  then have "[i..<j] = i # [Suc i..<j]" "i < j" by (simp_all add: upt_conv_Cons)
  moreover note Suc.hyps(1) [of "Suc i"]
  moreover have "n = j - Suc i" using Suc.hyps(2) by simp
  ultimately show ?case
    by (cases "P i"; cases "List.find P [Suc i..<j]") (auto, (metis Suc_leI le_neq_implies_less)+)
qed

text \<open>The first place at or after \<open>i\<close> where \<open>ys\<close> occurs in \<open>xs\<close>.\<close>

definition occurs :: "u8 list \<Rightarrow> u8 list \<Rightarrow> nat \<Rightarrow> bool" where
  "occurs ys xs j \<longleftrightarrow> j + length ys \<le> length xs \<and> take (length ys) (drop j xs) = ys"

definition first_at :: "(nat \<Rightarrow> bool) \<Rightarrow> nat \<Rightarrow> nat option \<Rightarrow> bool" where
  "first_at P i r \<longleftrightarrow> (case r of None \<Rightarrow> \<forall>k \<ge> i. \<not> P k | Some k \<Rightarrow> i \<le> k \<and> P k \<and> (\<forall>l. i \<le> l \<and> l < k \<longrightarrow> \<not> P l))"

lemma find_loop_first:
  assumes "ys \<noteq> []" and "length ys \<le> length xs"
  shows "\<exists>r. view_find_loop (Mem xs) (Mem ys) (length xs - length ys) i = Some r \<and> first_at (occurs ys xs) i r"
proof (induction "Suc (length xs - length ys) - i" arbitrary: i rule: less_induct)
  case less
  let ?last = "length xs - length ys"
  show ?case
  proof (cases "i \<le> ?last")
    case False
    then have "\<not> occurs ys xs k" if "i \<le> k" for k using that assms by (auto simp: occurs_def)
    with False show ?thesis by (subst view_find_loop.simps) (simp add: first_at_def)
  next
    case True
    obtain y zs where y: "ys = y # zs" using assms(1) by (cases ys) auto
    let ?found = "List.find (\<lambda>j. xs ! j = y) [i..<Suc ?last]"
    have range: "i + (?last - i + 1) = Suc ?last" "Suc ?last \<le> length xs" using True assms(2) y by simp_all
    then have search: "memchr (Mem xs) i y (?last - i + 1) = Some ?found" unfolding memchr_def range(1) by simp
    have head: "xs ! k = y" if "occurs ys xs k" for k
    proof -
      have "take (length ys) (drop k xs) ! 0 = y" using that y by (simp add: occurs_def)
      then show ?thesis using that y by (simp add: occurs_def)
    qed
    have top: "k < Suc ?last" if "occurs ys xs k" for k using that by (auto simp: occurs_def)
    note found = find_upt [where P = "\<lambda>j. xs ! j = y" and i = i and j = "Suc ?last"]
    show ?thesis
    proof (cases ?found)
      case None
      then have "\<not> occurs ys xs k" if "i \<le> k" for k using found head [of k] top [of k] that by auto
      then show ?thesis using None True search y by (subst view_find_loop.simps) (simp add: first_at_def)
    next
      case (Some j)
      then have j: "i \<le> j" "j < Suc ?last" "\<forall>l. i \<le> l \<and> l < j \<longrightarrow> \<not> occurs ys xs l" using found head by auto
      have range_j: "j + length ys \<le> length xs" using j(2) assms(2) by linarith
      then have cmp: "memcmp (Mem xs) j (Mem ys) (length ys) = Some (memcmp_bytes (take (length ys) (drop j xs)) ys)"
        by (simp add: memcmp_def)
      have zero: "memcmp_bytes a b = 0 \<longleftrightarrow> a = b" if "length a = length b" for a b
        using that by (induction a b rule: memcmp_bytes.induct) auto
      have same: "memcmp_bytes (take (length ys) (drop j xs)) ys = 0 \<longleftrightarrow> occurs ys xs j"
        using zero [of "take (length ys) (drop j xs)" ys] range_j by (simp add: occurs_def)
      have step: "view_find_loop (Mem xs) (Mem ys) ?last i =
        (if occurs ys xs j then Some (Some j) else view_find_loop (Mem xs) (Mem ys) ?last (j + 1))"
        using Some True search y j(1) cmp same by (subst view_find_loop.simps) simp
      show ?thesis
      proof (cases "occurs ys xs j")
        case True
        then show ?thesis using step j by (simp add: first_at_def)
      next
        case False
        obtain r where r: "view_find_loop (Mem xs) (Mem ys) ?last (j + 1) = Some r" "first_at (occurs ys xs) (j + 1) r"
        proof -
          have "Suc ?last - (j + 1) < Suc ?last - i" using j(1,2) by linarith
          then show ?thesis using less that by blast
        qed
        have "\<not> occurs ys xs l" if "i \<le> l" "l < j + 1" for l using that j(3) False by (cases "l = j") auto
        with r(2) j(1) have "first_at (occurs ys xs) i r"
          by (cases r) (auto simp: first_at_def not_less [symmetric] Suc_le_eq)
        with r(1) False show ?thesis using step by simp
      qed
    qed
  qed
qed

text \<open>The searches of a view return the first place at or after the offset, comparison is the lexicographic
  order of the bytes with the shorter text first, and the prefix and suffix tests are exact.\<close>

theorem view_operations:
  "(\<exists>r. view_find (Mem xs) (Mem ys) i = Some r \<and> first_at (occurs ys xs) i r) \<and>
   (\<exists>r. view_find_char (Mem xs) c i = Some r \<and> first_at (\<lambda>j. j < length xs \<and> xs ! j = c) i r) \<and>
   (\<exists>d. view_compare (Mem xs) (Mem ys) = Some d \<and> (d = 0 \<longleftrightarrow> xs = ys) \<and> (d < 0 \<longleftrightarrow> (xs, ys) \<in> lexord byte_order)) \<and>
   view_starts_with (Mem xs) (Mem ys) = Some (\<exists>zs. xs = ys @ zs) \<and> view_ends_with (Mem xs) (Mem ys) = Some (\<exists>zs. xs = zs @ ys)"
proof (intro conjI)
  show "\<exists>r. view_find (Mem xs) (Mem ys) i = Some r \<and> first_at (occurs ys xs) i r"
  proof (cases "ys = [] \<or> length ys > length xs \<or> i > length xs - length ys")
    case True
    then show ?thesis by (auto simp: view_find_def first_at_def occurs_def)
  next
    case False
    then show ?thesis using find_loop_first [of ys xs i] by (simp add: view_find_def)
  qed
  show "\<exists>r. view_find_char (Mem xs) c i = Some r \<and> first_at (\<lambda>j. j < length xs \<and> xs ! j = c) i r"
    using find_upt [where P = "\<lambda>j. xs ! j = c" and i = i and j = "length xs"]
    by (cases "List.find (\<lambda>j. xs ! j = c) [i..<length xs]") (auto simp: view_find_char_def memchr_def first_at_def)
  show "\<exists>d. view_compare (Mem xs) (Mem ys) = Some d \<and> (d = 0 \<longleftrightarrow> xs = ys) \<and> (d < 0 \<longleftrightarrow> (xs, ys) \<in> lexord byte_order)"
    using compare_some compare_sign by blast
  show "view_starts_with (Mem xs) (Mem ys) = Some (\<exists>zs. xs = ys @ zs)"
    by (auto simp: view_starts_with_def view_substr_def Let_def compare_zero min_def) (metis append_take_drop_id)
  show "view_ends_with (Mem xs) (Mem ys) = Some (\<exists>zs. xs = zs @ ys)"
    by (auto simp: view_ends_with_def view_substr_def Let_def compare_zero) (metis append_take_drop_id)
qed

section \<open>What a string promises\<close>

lemma view_str: "str_holds N s t \<Longrightarrow> view_text (str_view s) = t \<and> view_ok (str_view s)"
  by (simp add: holds_sizes(4))

lemma init_holds: "length raw = Suc N \<Longrightarrow> \<exists>s. str_init raw = Some s \<and> str_holds N s []"
  using clear_holds [of "\<lparr>str_data = raw, str_size = 0\<rparr>" N] by (simp add: str_init_def)

text \<open>A construction keeps what its assignment accepts and is empty otherwise.\<close>

lemma constructed_holds:
  assumes "leaves N x r t" and "r = status_ok \<or> t = []"
  shows "\<exists>s. do { (r, s) \<leftarrow> x; if r \<noteq> status_ok then str_clear s else Some s } = Some s \<and> str_holds N s t"
proof -
  obtain s where s: "x = Some (r, s)" "str_holds N s t" using assms(1) by (auto simp: leaves_def)
  with clear_holds [OF holds_sizes(5) [OF s(2)]] assms(2) show ?thesis by (cases "r = status_ok") auto
qed

lemma of_view_holds:
  assumes "length raw = Suc N" and "view_ok v"
  shows "\<exists>s. str_of_view raw v = Some s \<and> str_holds N s (if length (view_text v) \<le> N then view_text v else [])"
proof -
  obtain s where s: "str_init raw = Some s" "str_holds N s []" using init_holds [OF assms(1)] by blast
  show ?thesis using constructed_holds [OF assign_leaves [OF s(2) assms(2)]] s(1) by (simp add: str_of_view_def)
qed

lemma of_text_holds:
  assumes "length raw = Suc N" and "c_text p z"
  shows "\<exists>s. str_of_text raw p = Some s \<and> str_holds N s (if length z \<le> N then z else [])"
proof -
  obtain s where s: "str_init raw = Some s" "str_holds N s []" using init_holds [OF assms(1)] by blast
  show ?thesis using constructed_holds [OF assign_text_leaves [OF s(2) assms(2)]] s(1) by (simp add: str_of_text_def)
qed

lemma assign_null: "str_holds N s t \<Longrightarrow> leaves N (str_assign_text (Null n) s) status_invalid_argument []"
  using clear_holds [OF holds_sizes(5), of N s t] by (auto simp: str_assign_text_def leaves_def)

lemma append_null: "str_holds N s t \<Longrightarrow> leaves N (str_append_text (Null n) s) status_invalid_argument t"
  by (simp add: str_append_text_def leaves_def)

lemma of_null_holds: "length raw = Suc N \<Longrightarrow> \<exists>s. str_of_text raw (Null n) = Some s \<and> str_holds N s []"
proof -
  assume "length raw = Suc N"
  then obtain s where s: "str_init raw = Some s" "str_holds N s []" using init_holds by blast
  show ?thesis using constructed_holds [OF assign_null [OF s(2)]] s(1) by (simp add: str_of_text_def)
qed

lemma copied_holds:
  assumes "str_holds N u z" and "length (str_data s) = Suc N"
  shows "\<exists>s'. str_copied u s = Some s' \<and> str_holds N s' z"
proof -
  note u = holds_sizes [OF assms(1)]
  have "copy_chars 0 (Mem (str_data u)) (length z) 0 (s\<lparr>str_size := length z\<rparr>) =
      Some \<lparr>str_data = z @ drop (length z) (str_data s), str_size = length z\<rparr>"
    using copy_chars_store [of 0 "length z" "str_data u" 0 "s\<lparr>str_size := length z\<rparr>"] u assms(2) holds_take [OF assms(1), of "length z"]
    by simp
  then show ?thesis using resized_holds [of "\<lparr>str_data = z @ drop (length z) (str_data s), str_size = length z\<rparr>" N "length z"] u assms(2)
    by (simp add: str_copied_def str_resized_def)
qed

lemma copy_holds: "str_holds N u z \<Longrightarrow> length raw = Suc N \<Longrightarrow> \<exists>s. str_copy raw u = Some s \<and> str_holds N s z"
  using copied_holds [of N u z "\<lparr>str_data = raw, str_size = 0\<rparr>"] by (simp add: str_copied_def str_copy_def)

lemma at_holds: "str_holds N s t \<Longrightarrow> i \<le> length t \<Longrightarrow> str_at i s = Some (if i < length t then t ! i else 0)"
  by (auto simp: str_holds_def str_at_def nth_append)

lemma put_holds: "str_holds N s t \<Longrightarrow> i < length t \<Longrightarrow> \<exists>s'. str_put i c s = Some s' \<and> str_holds N s' (t[i := c])"
  by (auto simp: str_holds_def str_put_def list_update_append)

lemma equal_holds: "str_holds N s t \<Longrightarrow> str_holds N u z \<Longrightarrow> str_equal s u = Some (t = z) \<and> str_less s u = Some ((t, z) \<in> lexord byte_order)"
  using compare_some [of t z] compare_sign [of t z] by (auto simp: str_equal_def str_less_def str_compare_def holds_sizes(4))

text \<open>C28: a string refines the list of its characters. Every operation leaves it within its capacity and
  terminated and has the effect of its name on the list; what does not fit is refused as a whole, an assignment
  from a null pointer clears and an append of one changes nothing, and a construction from what does not fit is
  empty. Copies, comparisons and searches are those of the lists. The views read are outside the string.\<close>

theorem string_operations:
  assumes "str_holds N s t" and "str_holds N u y" and "view_ok v" and "c_text p z" and "length raw = Suc N"
  shows "leaves N (str_push_back c s) (if length t < N then status_ok else status_full) (if length t < N then t @ [c] else t) \<and>
    leaves N (str_pop_back s) (if t = [] then status_empty else status_ok) (butlast t) \<and>
    leaves N (str_assign v s) (if length (view_text v) \<le> N then status_ok else status_full)
      (if length (view_text v) \<le> N then view_text v else t) \<and>
    leaves N (str_assign_text p s) (if length z \<le> N then status_ok else status_full) (if length z \<le> N then z else t) \<and>
    leaves N (str_assign_text (Null 0) s) status_invalid_argument [] \<and>
    leaves N (str_append v s) (if length t + length (view_text v) \<le> N then status_ok else status_full)
      (if length t + length (view_text v) \<le> N then t @ view_text v else t) \<and>
    leaves N (str_append_text p s) (if length t + length z \<le> N then status_ok else status_full)
      (if length t + length z \<le> N then t @ z else t) \<and>
    leaves N (str_append_text (Null 0) s) status_invalid_argument t \<and>
    leaves N (str_append_string u s) (if length t + length y \<le> N then status_ok else status_full)
      (if length t + length y \<le> N then t @ y else t) \<and>
    leaves N (str_insert i v s)
      (if i > length t then status_out_of_range else if length t + length (view_text v) > N then status_full else status_ok)
      (if i > length t \<or> length t + length (view_text v) > N then t else take i t @ view_text v @ drop i t) \<and>
    leaves N (str_erase i (Some n) s) (if i > length t then status_out_of_range else status_ok)
      (if i > length t then t else take i t @ drop (i + min n (length t - i)) t) \<and>
    leaves N (str_erase i None s) (if i > length t then status_out_of_range else status_ok) (take i t) \<and>
    leaves N (str_resize n c s) (if n > N then status_full else status_ok)
      (if n > N then t else take n t @ replicate (n - length t) c) \<and>
    (\<exists>s'. str_clear s = Some s' \<and> str_holds N s' []) \<and>
    (\<exists>s'. str_init raw = Some s' \<and> str_holds N s' []) \<and>
    (\<exists>s'. str_of_view raw v = Some s' \<and> str_holds N s' (if length (view_text v) \<le> N then view_text v else [])) \<and>
    (\<exists>s'. str_of_text raw p = Some s' \<and> str_holds N s' (if length z \<le> N then z else [])) \<and>
    (\<exists>s'. str_of_text raw (Null 0) = Some s' \<and> str_holds N s' []) \<and>
    (\<exists>s'. str_copy raw u = Some s' \<and> str_holds N s' y) \<and> (\<exists>s'. str_copied u s = Some s' \<and> str_holds N s' y) \<and>
    str_view s = Mem t \<and> str_size s = length t \<and> str_capacity s = N \<and> str_available s = N - length t \<and>
    (str_empty s \<longleftrightarrow> t = []) \<and> (str_full s \<longleftrightarrow> length t = N) \<and> str_at (length t) s = Some 0 \<and>
    (i < length t \<longrightarrow> str_at i s = Some (t ! i) \<and> (\<exists>s'. str_put i c s = Some s' \<and> str_holds N s' (t[i := c]))) \<and>
    (\<exists>r. str_find_char c i s = Some r \<and> first_at (\<lambda>j. j < length t \<and> t ! j = c) i r) \<and>
    (\<exists>r. str_find (Mem xs) i s = Some r \<and> first_at (occurs xs t) i r) \<and>
    (\<exists>d. str_compare (Mem xs) s = Some d \<and> (d = 0 \<longleftrightarrow> t = xs) \<and> (d < 0 \<longleftrightarrow> (t, xs) \<in> lexord byte_order)) \<and>
    str_equal s u = Some (t = y) \<and> str_less s u = Some ((t, y) \<in> lexord byte_order)"
proof -
  note s = holds_sizes [OF assms(1)] and u = holds_sizes [OF assms(2)] and views = view_operations [of t xs i c]
  have string: "leaves N (str_append_string u s) (if length t + length y \<le> N then status_ok else status_full)
      (if length t + length y \<le> N then t @ y else t)"
    using append_leaves [OF assms(1), of "Mem y"] u(4) by (simp add: str_append_string_def split: if_splits)
  have tail: "leaves N (str_erase i None s) (if i > length t then status_out_of_range else status_ok) (take i t)"
    using erase_leaves [OF assms(1), of i None] by (cases "i > length t") simp_all
  have sizes: "str_available s = N - length t" "str_empty s \<longleftrightarrow> t = []" "str_full s \<longleftrightarrow> length t = N" "str_at (length t) s = Some 0"
    "i < length t \<longrightarrow> str_at i s = Some (t ! i) \<and> (\<exists>s'. str_put i c s = Some s' \<and> str_holds N s' (t[i := c]))"
    using s at_holds [OF assms(1)] put_holds [OF assms(1), of i c] by (simp_all add: str_available_def str_empty_def str_full_def)
  have answers: "\<exists>r. str_find_char c i s = Some r \<and> first_at (\<lambda>j. j < length t \<and> t ! j = c) i r"
    "\<exists>r. str_find (Mem xs) i s = Some r \<and> first_at (occurs xs t) i r"
    "\<exists>d. str_compare (Mem xs) s = Some d \<and> (d = 0 \<longleftrightarrow> t = xs) \<and> (d < 0 \<longleftrightarrow> (t, xs) \<in> lexord byte_order)"
    using views unfolding str_find_char_def str_find_def str_compare_def s(4) by blast+
  note same = equal_holds [OF assms(1,2)]
  show ?thesis
    by (intro conjI push_back_leaves [OF assms(1)] pop_back_leaves [OF assms(1)] assign_leaves [OF assms(1,3)]
      assign_text_leaves [OF assms(1,4)] assign_null [OF assms(1)] append_leaves [OF assms(1,3)] append_text_leaves [OF assms(1,4)]
      append_null [OF assms(1)] string insert_leaves [OF assms(1,3)] erase_leaves [OF assms(1), of i "Some n", unfolded option.case] tail
      resize_leaves [OF assms(1)] clear_holds [OF s(5)] init_holds [OF assms(5)] of_view_holds [OF assms(5,3)] of_text_holds [OF assms(5,4)]
      of_null_holds [OF assms(5)] copy_holds [OF assms(2,5)] copied_holds [OF assms(2) s(5)] s(1,2,4) sizes answers
      same [THEN conjunct1] same [THEN conjunct2])
qed

theorem string_operations_witness:
  "\<exists>s. str_holds 3 s [0x61, 0x62] \<and> leaves 3 (str_push_back 0x63 s) status_ok [0x61, 0x62, 0x63] \<and>
     leaves 3 (str_append (Mem [1, 2]) s) status_full [0x61, 0x62] \<and> leaves 3 (str_erase 0 (Some 1) s) status_ok [0x62] \<and>
     leaves 3 (str_erase 1 None s) status_ok [0x61] \<and> leaves 3 (str_assign_text (Null 0) s) status_invalid_argument [] \<and>
     str_at 2 s = Some 0 \<and> str_equal s s = Some True"
proof -
  define s where "s = \<lparr>str_data = [0x61, 0x62, 0, 9], str_size = 2\<rparr>"
  have s: "str_holds 3 s [0x61, 0x62]" by (auto simp: s_def str_holds_def)
  have p: "c_text (Mem [1, 0]) [1]" by (simp add: c_text_def)
  have v: "view_ok (Mem [1, 2])" and raw: "length [7, 7, 7, 7 :: u8] = Suc 3" by simp_all
  show ?thesis
    using s string_operations [OF s s v p raw, where c = "0x63" and i = 0 and n = 1]
      string_operations [OF s s v p raw, where i = 1] by (intro exI [of _ s]) (simp add: numeral_2_eq_2)
qed

end
