(* ===== verification/JsonText.thy ===== *)
theory JsonText
  imports Strings
begin

text \<open>
  The text level of \<open>castle_ext/serialization/json.hpp\<close>: character classes, string literals, numbers and
  integers.  A character is a byte; \<open>0x22\<close> is the quotation mark, \<open>0x5C\<close> the backslash.  A string literal
  is described by the relation \<open>literal\<close> between the bytes it stands for and its spelling, as the code reads it: an
  escape \<open>\uXXXX\<close> stands for one code point outside the surrogate range, so a surrogate pair is no part of a literal,
  and an unescaped byte from 0x20 on stands for itself, whether or not the bytes are UTF-8.  A number is described by
  the grammar of RFC 8259.
\<close>

section \<open>Results\<close>

datatype json_type = null_value | boolean_value | number_value | string_value | object_value | array_value

datatype json_error =
    no_error | unexpected_end | unexpected_token | invalid_string | invalid_escape | invalid_unicode_escape | invalid_number
  | invalid_literal | depth_exceeded | capacity_error | output_full | invalid_argument_error

record json_result =
  jr_status :: status
  jr_code :: json_error
  jr_offset :: nat
  jr_line :: nat
  jr_column :: nat

definition json_ok :: json_result where
  "json_ok = \<lparr>jr_status = status_ok, jr_code = no_error, jr_offset = 0, jr_line = 1, jr_column = 1\<rparr>"

definition json_error_at :: "status \<Rightarrow> json_error \<Rightarrow> nat \<Rightarrow> json_result" where
  "json_error_at s code offset = json_ok\<lparr>jr_status := s, jr_code := code, jr_offset := offset\<rparr>"

definition json_succeeded :: "json_result \<Rightarrow> bool" where
  "json_succeeded r \<longleftrightarrow> succeeded (jr_status r)"

section \<open>Characters\<close>

definition is_space :: "u8 \<Rightarrow> bool" where
  "is_space c \<longleftrightarrow> c = 0x20 \<or> c = 0x09 \<or> c = 0x0D \<or> c = 0x0A"

definition json_digit :: "u8 \<Rightarrow> bool" where
  "json_digit c \<longleftrightarrow> c \<ge> 0x30 \<and> c \<le> 0x39"

definition json_hex :: "u8 \<Rightarrow> bool" where
  "json_hex c \<longleftrightarrow> (c \<ge> 0x30 \<and> c \<le> 0x39) \<or> (c \<ge> 0x61 \<and> c \<le> 0x66) \<or> (c \<ge> 0x41 \<and> c \<le> 0x46)"

definition json_hex_value :: "u8 \<Rightarrow> u8" where
  "json_hex_value c =
     (if c \<ge> 0x30 \<and> c \<le> 0x39 then c - 0x30
      else if c \<ge> 0x61 \<and> c \<le> 0x66 then c - 0x61 + 10
      else c - 0x41 + 10)"

definition is_control :: "u8 \<Rightarrow> bool" where
  "is_control c \<longleftrightarrow> c < 0x20"

definition is_number_delimiter :: "u8 \<Rightarrow> bool" where
  "is_number_delimiter c \<longleftrightarrow> is_space c \<or> c = 0x2C \<or> c = 0x5D \<or> c = 0x7D"

section \<open>String literals\<close>

text \<open>Pushing characters until one does not fit, as the \<open>&&\<close> chains do.\<close>

fun push_all :: "u8 list \<Rightarrow> cstring \<Rightarrow> (bool \<times> cstring) option" where
  "push_all [] output = Some (True, output)"
| "push_all (c # cs) output = do {
     (r, output) \<leftarrow> str_push_back c output;
     if r = status_ok then push_all cs output else Some (False, output) }"

definition append_utf8 :: "u16 \<Rightarrow> cstring \<Rightarrow> (bool \<times> cstring) option" where
  "append_utf8 code output =
     (if code \<ge> 0xD800 \<and> code \<le> 0xDFFF then Some (False, output)
      else if code \<le> 0x007F then push_all [ucast code] output
      else if code \<le> 0x07FF then
        push_all [ucast (0xC0 OR drop_bit 6 code), ucast (0x80 OR (code AND 0x3F))] output
      else
        push_all [ucast (0xE0 OR drop_bit 12 code), ucast (0x80 OR (drop_bit 6 code AND 0x3F)), ucast (0x80 OR (code AND 0x3F))] output)"

text \<open>The four digits of an escape: the code unit, or the offset of what is no digit.\<close>

function hex_digits :: "u8 ptr \<Rightarrow> nat \<Rightarrow> nat \<Rightarrow> u16 \<Rightarrow> (nat + u16) option" where
  "hex_digits source position i code =
     (if i < 4 then do {
        c \<leftarrow> rd source (position + i);
        if \<not> json_hex c then Some (Inl (position + i))
        else hex_digits source position (i + 1) (push_bit 4 code OR ucast (json_hex_value c)) }
      else Some (Inr code))"
  by pat_completeness auto
termination by (relation "measure (\<lambda>(_, _, i, _). 4 - i)") auto

declare hex_digits.simps [simp del]

definition escape_value :: "u8 \<Rightarrow> u8 option" where
  "escape_value c =
     (if c = 0x22 then Some 0x22
      else if c = 0x5C then Some 0x5C
      else if c = 0x2F then Some 0x2F
      else if c = 0x62 then Some 0x08
      else if c = 0x66 then Some 0x0C
      else if c = 0x6E then Some 0x0A
      else if c = 0x72 then Some 0x0D
      else if c = 0x74 then Some 0x09
      else None)"

function decode_string_loop :: "u8 ptr \<Rightarrow> nat \<Rightarrow> cstring \<Rightarrow> (json_result \<times> nat \<times> cstring) option" where
  "decode_string_loop source position output =
     (if position < psize source then do {
        c \<leftarrow> rd source position;
        if c = 0x22 then Some (json_ok, position + 1, output)
        else if is_control c then Some (json_error_at status_invalid_argument invalid_string position, position + 1, output)
        else if c \<noteq> 0x5C then do {
          (r, output) \<leftarrow> str_push_back c output;
          if r \<noteq> status_ok then Some (json_error_at status_full capacity_error position, position + 1, output)
          else decode_string_loop source (position + 1) output }
        else if position + 1 \<ge> psize source then
          Some (json_error_at status_invalid_argument unexpected_end (position + 1), position + 1, output)
        else do {
          escape \<leftarrow> rd source (position + 1);
          if escape = 0x75 then
            if position + 2 + 4 > psize source then
              Some (json_error_at status_invalid_argument invalid_unicode_escape position, position + 2, output)
            else do {
              digits \<leftarrow> hex_digits source (position + 2) 0 0;
              case digits of
                Inl bad \<Rightarrow> Some (json_error_at status_invalid_argument invalid_unicode_escape bad, position + 2, output)
              | Inr code \<Rightarrow> do {
                  (appended, output) \<leftarrow> append_utf8 code output;
                  if \<not> appended then
                    Some (json_error_at status_invalid_argument invalid_unicode_escape (position + 2), position + 6, output)
                  else decode_string_loop source (position + 6) output } }
          else case escape_value escape of
            None \<Rightarrow> Some (json_error_at status_invalid_argument invalid_escape (position + 1), position + 2, output)
          | Some decoded \<Rightarrow> do {
              (r, output) \<leftarrow> str_push_back decoded output;
              if r \<noteq> status_ok then Some (json_error_at status_full capacity_error (position + 1), position + 2, output)
              else decode_string_loop source (position + 2) output } } }
      else Some (json_error_at status_invalid_argument unexpected_end position, position, output))"
  by pat_completeness auto
termination by (relation "measure (\<lambda>(source, position, _). psize source - position)") auto

declare decode_string_loop.simps [simp del]

definition decode_string :: "u8 ptr \<Rightarrow> nat \<Rightarrow> cstring \<Rightarrow> (json_result \<times> nat \<times> cstring) option" where
  "decode_string source position output = do {
     output \<leftarrow> str_clear output;
     bad \<leftarrow> (if position \<ge> psize source then Some True else do { c \<leftarrow> rd source position; Some (c \<noteq> 0x22) });
     if bad then Some (json_error_at status_invalid_argument invalid_string position, position, output)
     else decode_string_loop source (position + 1) output }"

definition escape_for :: "u8 \<Rightarrow> (u8 \<times> u8) option" where
  "escape_for c =
     (if c = 0x22 then Some (0x5C, 0x22)
      else if c = 0x5C then Some (0x5C, 0x5C)
      else if c = 0x08 then Some (0x5C, 0x62)
      else if c = 0x0C then Some (0x5C, 0x66)
      else if c = 0x0A then Some (0x5C, 0x6E)
      else if c = 0x0D then Some (0x5C, 0x72)
      else if c = 0x09 then Some (0x5C, 0x74)
      else None)"

function append_escaped_loop :: "u8 ptr \<Rightarrow> nat \<Rightarrow> cstring \<Rightarrow> (status \<times> cstring) option" where
  "append_escaped_loop v i output =
     (if i < psize v then do {
        c \<leftarrow> rd v i;
        case escape_for c of
          Some (a, b) \<Rightarrow> do {
            (r, output) \<leftarrow> str_append (Mem [a, b]) output;
            if r \<noteq> status_ok then Some (status_full, output) else append_escaped_loop v (i + 1) output }
        | None \<Rightarrow>
            if c < 0x20 then Some (status_invalid_argument, output)
            else do {
              (r, output) \<leftarrow> str_push_back c output;
              if r \<noteq> status_ok then Some (status_full, output) else append_escaped_loop v (i + 1) output } }
      else str_push_back 0x22 output)"
  by pat_completeness auto
termination by (relation "measure (\<lambda>(v, i, _). psize v - i)") auto

declare append_escaped_loop.simps [simp del]

definition append_escaped :: "u8 ptr \<Rightarrow> cstring \<Rightarrow> (status \<times> cstring) option" where
  "append_escaped v output = do {
     (r, output) \<leftarrow> str_push_back 0x22 output;
     if r \<noteq> status_ok then Some (status_full, output) else append_escaped_loop v 0 output }"

section \<open>Numbers\<close>

text \<open>The index of the first character from \<open>i\<close> on that is no digit.\<close>

function skip_digits :: "u8 ptr \<Rightarrow> nat \<Rightarrow> nat option" where
  "skip_digits text i =
     (if i < psize text then do { c \<leftarrow> rd text i; if json_digit c then skip_digits text (i + 1) else Some i } else Some i)"
  by pat_completeness auto
termination by (relation "measure (\<lambda>(text, i). psize text - i)") auto

declare skip_digits.simps [simp del]

text \<open>One or more digits, then the rest.\<close>

definition digits_then :: "u8 ptr \<Rightarrow> nat \<Rightarrow> (nat \<Rightarrow> bool option) \<Rightarrow> bool option" where
  "digits_then text i rest =
     (if i = psize text then Some False
      else do { c \<leftarrow> rd text i; if \<not> json_digit c then Some False else do { i \<leftarrow> skip_digits text i; rest i } })"

definition at_char :: "u8 ptr \<Rightarrow> nat \<Rightarrow> (u8 \<Rightarrow> bool) \<Rightarrow> bool option" where
  "at_char text i P = (if i < psize text then do { c \<leftarrow> rd text i; Some (P c) } else Some False)"

definition valid_exponent :: "u8 ptr \<Rightarrow> nat \<Rightarrow> bool option" where
  "valid_exponent text i = do {
     e \<leftarrow> at_char text i (\<lambda>c. c = 0x65 \<or> c = 0x45);
     if e then do {
       sign \<leftarrow> at_char text (i + 1) (\<lambda>c. c = 0x2B \<or> c = 0x2D);
       digits_then text (if sign then i + 2 else i + 1) (\<lambda>i. Some (i = psize text)) }
     else Some (i = psize text) }"

definition valid_fraction :: "u8 ptr \<Rightarrow> nat \<Rightarrow> bool option" where
  "valid_fraction text i = do {
     dot \<leftarrow> at_char text i (\<lambda>c. c = 0x2E);
     if dot then digits_then text (i + 1) (valid_exponent text) else valid_exponent text i }"

definition valid_number :: "u8 ptr \<Rightarrow> bool option" where
  "valid_number text =
     (if psize text = 0 then Some False
      else do {
        c \<leftarrow> rd text 0;
        let i = (if c = 0x2D then 1 else 0);
        if i = psize text then Some False
        else do {
          c \<leftarrow> rd text i;
          if c = 0x30 then do {
            another \<leftarrow> at_char text (i + 1) json_digit;
            if another then Some False else valid_fraction text (i + 1) }
          else if c < 0x31 \<or> c > 0x39 then Some False
          else do { i \<leftarrow> skip_digits text i; valid_fraction text i } } })"

section \<open>Integers\<close>

text \<open>\<open>parse_integer<T>\<close> for a type of width \<open>'w\<close>, signed or not; a value of a signed type is its two's complement.\<close>

function parse_digits :: "u8 ptr \<Rightarrow> nat \<Rightarrow> u64 \<Rightarrow> (status + u64) option" where
  "parse_digits text i magnitude =
     (if i < psize text then do {
        c \<leftarrow> rd text i;
        if \<not> json_digit c then Some (Inl status_invalid_argument)
        else do {
          let digit = ucast (c - 0x30);
          if magnitude > (0xFFFFFFFFFFFFFFFF - digit) div 10 then Some (Inl status_out_of_range)
          else parse_digits text (i + 1) (magnitude * 10 + digit) } }
      else Some (Inr magnitude))"
  by pat_completeness auto
termination by (relation "measure (\<lambda>(text, i, _). psize text - i)") auto

declare parse_digits.simps [simp del]

definition parse_integer :: "bool \<Rightarrow> u8 ptr \<Rightarrow> 'w::len word \<Rightarrow> (status \<times> 'w word) option" where
  "parse_integer is_signed text output =
     (if psize text = 0 then Some (status_invalid_argument, output)
      else do {
        c \<leftarrow> rd text 0;
        let negative = (c = 0x2D);
        let i = (if negative then 1 else 0);
        if c = 0x2B then Some (status_invalid_argument, output)
        else if i = psize text \<or> (negative \<and> \<not> is_signed) then Some (status_invalid_argument, output)
        else do {
          m \<leftarrow> parse_digits text i 0;
          case m of
            Inl r \<Rightarrow> Some (r, output)
          | Inr magnitude \<Rightarrow> do {
              let max_unsigned = (ucast (- 1 :: 'w word) :: u64);
              if \<not> negative then
                if magnitude > max_unsigned \<or> (is_signed \<and> magnitude > drop_bit 1 max_unsigned) then Some (status_out_of_range, output)
                else Some (status_ok, ucast magnitude)
              else do {
                let minimum_magnitude = drop_bit 1 max_unsigned + 1;
                if magnitude > minimum_magnitude then Some (status_out_of_range, output)
                else Some (status_ok,
                  (if magnitude = minimum_magnitude then - ucast (magnitude - 1) - 1 else - ucast magnitude)) } } } })"

text \<open>The digits of a magnitude, last one first, as the loop collects them.\<close>

function format_digits :: "'w::len word \<Rightarrow> u8 list" where
  "format_digits magnitude =
     (let d = (0x30 + ucast (magnitude mod 10)) in
      if magnitude div 10 \<noteq> 0 then d # format_digits (magnitude div 10) else [d])"
  by pat_completeness auto
termination
proof (relation "measure unat")
  fix m :: "'w::len word" and d :: u8
  assume d: "m div 10 \<noteq> 0"
  define k where "k = unat (10 :: 'w word)"
  have ten: "k = 10 mod 2 ^ LENGTH('w)" unfolding k_def using unat_of_nat [of 10, where 'a = 'w] by simp
  have "(2 :: nat) dvd 2 ^ LENGTH('w)" by (rule dvd_power) simp
  then have "2 dvd k" unfolding ten by (simp only: dvd_mod_iff) simp
  then have "k \<noteq> 1" by (rule contrapos_pn) simp
  have q: "unat m div k \<noteq> 0"
  proof
    assume z: "unat m div k = 0"
    have "m div 10 = of_nat (unat m div k)" unfolding k_def by (rule word_arith_nat_div)
    also have "\<dots> = 0" unfolding z by (rule semiring_1_class.of_nat_0)
    finally show False using d by contradiction
  qed
  have "k \<noteq> 0" using q by (rule contrapos_nn) (simp only: div_by_0)
  moreover have "unat m \<noteq> 0" using q by (rule contrapos_nn) (simp only: div_0)
  ultimately have "1 < k" "0 < unat m" using \<open>k \<noteq> 1\<close> by linarith+
  then have "unat m div k < unat m" by (rule div_less_dividend)
  then show "(m div 10, m) \<in> measure unat" by (simp only: in_measure unat_div k_def)
qed simp

declare format_digits.simps [simp del]

text \<open>The string it fills has 32 characters.\<close>

definition format_integer :: "bool \<Rightarrow> 'w::len word \<Rightarrow> cstring \<Rightarrow> (status \<times> cstring) option" where
  "format_integer is_signed v output = do {
     output \<leftarrow> str_clear output;
     let negative = (is_signed \<and> v <s 0);
     let magnitude = (if negative then - (v + 1) + 1 else v);
     let digits = format_digits magnitude;
     if length digits > 32 then None
     else do {
       (ok, output) \<leftarrow> push_all (if negative then [0x2D] else []) output;
       if \<not> ok then Some (status_full, output)
       else do { (ok, output) \<leftarrow> push_all (rev digits) output; Some (if ok then status_ok else status_full, output) } } }"

section \<open>What string literals mean\<close>

text \<open>One unit of a literal: the bytes it stands for and its spelling.\<close>

definition hex_number :: "u8 list \<Rightarrow> nat" where
  "hex_number = foldl (\<lambda>n c. 16 * n + unat (json_hex_value c)) 0"

inductive literal_unit :: "u8 list \<Rightarrow> u8 list \<Rightarrow> bool" where
  plain: "c \<noteq> 0x22 \<Longrightarrow> c \<noteq> 0x5C \<Longrightarrow> \<not> is_control c \<Longrightarrow> literal_unit [c] [c]"
| short: "escape_value e = Some c \<Longrightarrow> literal_unit [c] [0x5C, e]"
| unicode: "list_all json_hex ds \<Longrightarrow> length ds = 4 \<Longrightarrow> \<not> (0xD800 \<le> hex_number ds \<and> hex_number ds \<le> 0xDFFF) \<Longrightarrow>
    literal_unit (utf8_encode (hex_number ds)) (0x5C # 0x75 # ds)"

inductive literal :: "u8 list \<Rightarrow> u8 list \<Rightarrow> bool" where
  literal_Nil: "literal [] []"
| literal_unit: "literal_unit u w \<Longrightarrow> literal t s \<Longrightarrow> literal (u @ t) (w @ s)"

inductive_cases literal_unitE: "literal_unit u w"
inductive_cases literalE: "literal t s"

lemma push_all_holds: "str_holds N s t \<Longrightarrow> \<exists>s'. push_all cs s = Some (length t + length cs \<le> N, s') \<and> str_holds N s' (take N (t @ cs))"
proof (induction cs arbitrary: s t)
  case Nil
  then show ?case using holds_sizes(3) [OF Nil] by simp
next
  case (Cons c cs)
  show ?case
  proof (cases "length t < N")
    case True
    obtain s1 where s1: "str_push_back c s = Some (status_ok, s1)" "str_holds N s1 (t @ [c])"
      using push_back_leaves [OF Cons.prems, of c] True by (auto simp: leaves_def)
    with Cons.IH [OF s1(2)] show ?thesis by auto
  next
    case False
    obtain s1 where s1: "str_push_back c s = Some (status_full, s1)" "str_holds N s1 t"
      using push_back_leaves [OF Cons.prems, of c] False by (auto simp: leaves_def)
    with False holds_sizes(3) [OF Cons.prems] show ?thesis by auto
  qed
qed

lemma or_plus: "unat (push_bit k c OR x) = unat c * 2 ^ k + unat x"
  if "unat x < 2 ^ k" and "unat c * 2 ^ k + unat x < 2 ^ LENGTH('w)" for x c :: "'w::len word"
proof -
  have x: "\<not> bit x j" if "k \<le> j" for j
  proof -
    have "\<not> bit (unat x) j" using \<open>unat x < 2 ^ k\<close> that by (metis bit_take_bit_iff not_le take_bit_nat_eq_self)
    then show ?thesis by (simp add: bit_unsigned_iff)
  qed
  have "push_bit k c AND x = 0"
  proof (rule bit_word_eqI)
    fix j
    show "bit (push_bit k c AND x) j = bit 0 j"
      using x by (cases "k \<le> j") (simp_all add: bit_and_iff bit_push_bit_iff)
  qed
  then have "push_bit k c OR x = push_bit k c + x" using word_plus_and_or [of "push_bit k c" x] by simp
  moreover have p: "unat (push_bit k c) = unat c * 2 ^ k"
  proof -
    have "unat c * 2 ^ k < 2 ^ LENGTH('w)" using that(2) by linarith
    then show ?thesis by (simp only: unsigned_push_bit_eq push_bit_eq_mult [of k "unat c"] take_bit_nat_eq_self)
  qed
  moreover have "unat (push_bit k c + x) = unat (push_bit k c) + unat x"
    by (rule unat_add_lem [THEN iffD1]) (simp only: p that(2))
  ultimately show ?thesis by simp
qed

lemma low_six: "unat (code AND 0x3F) = unat code mod 64" for code :: u16
proof -
  have "(0x3F :: u16) = mask 6" by (simp add: mask_eq_exp_minus_1)
  then show ?thesis by (simp only: take_bit_eq_mask [symmetric] unsigned_take_bit_eq) (simp add: take_bit_eq_mod)
qed

lemma word16_less: "unat code < 65536" for code :: u16
  using unsigned_less [of code] by simp

lemma drop_nat: "unat (drop_bit k code) = unat code div 2 ^ k" for code :: u16
proof -
  have "take_bit 16 (unat code) = unat code" by (rule take_bit_nat_eq_self) (use word16_less [of code] in simp)
  then show ?thesis by (simp only: unsigned_drop_bit_eq) (simp add: drop_bit_eq_div)
qed

lemma byte_nat: "ucast w = (of_nat (unat w) :: u8)" for w :: u16
  by simp

lemma utf8_bytes:
  fixes code :: u16
  defines "n \<equiv> unat code"
  shows "code \<le> 0x007F \<Longrightarrow> [ucast code] = utf8_encode n"
    and "\<not> code \<le> 0x007F \<Longrightarrow> code \<le> 0x07FF \<Longrightarrow>
      [ucast (0xC0 OR drop_bit 6 code), ucast (0x80 OR (code AND 0x3F))] = utf8_encode n"
    and "\<not> code \<le> 0x007F \<Longrightarrow> \<not> code \<le> 0x07FF \<Longrightarrow>
      [ucast (0xE0 OR drop_bit 12 code), ucast (0x80 OR (drop_bit 6 code AND 0x3F)), ucast (0x80 OR (code AND 0x3F))] = utf8_encode n"
proof -
  have le: "code \<le> 0x007F \<longleftrightarrow> n < 0x80" "code \<le> 0x07FF \<longleftrightarrow> n < 0x800" unfolding n_def by (simp_all add: word_le_nat_alt) arith+
  have top: "n < 0x10000" unfolding n_def using unsigned_less [of code] by simp
  have prefixes: "(0xC0 :: u16) = push_bit 6 3" "(0x80 :: u16) = push_bit 6 2" "(0xE0 :: u16) = push_bit 5 7" by simp_all
  show "code \<le> 0x007F \<Longrightarrow> [ucast code] = utf8_encode n" unfolding le by (simp add: utf8_encode_def n_def)
  have two: "ucast (0x80 OR (code AND 0x3F)) = (of_nat (0x80 + n mod 64) :: u8)"
    unfolding byte_nat prefixes by (subst or_plus) (simp_all add: low_six n_def)
  have two': "ucast (0x80 OR (drop_bit 6 code AND 0x3F)) = (of_nat (0x80 + n div 64 mod 64) :: u8)"
    unfolding byte_nat prefixes by (subst or_plus) (simp_all add: low_six drop_nat n_def)
  show "\<not> code \<le> 0x007F \<Longrightarrow> code \<le> 0x07FF \<Longrightarrow>
      [ucast (0xC0 OR drop_bit 6 code), ucast (0x80 OR (code AND 0x3F))] = utf8_encode n"
  proof -
    assume "\<not> code \<le> 0x007F" and "code \<le> 0x07FF"
    then have n: "\<not> n < 0x80" "n < 0x800" unfolding le by simp_all
    have "ucast (0xC0 OR drop_bit 6 code) = (of_nat (0xC0 + n div 64) :: u8)"
      unfolding byte_nat prefixes by (subst or_plus) (use n in \<open>simp_all add: drop_nat n_def\<close>)
    then show ?thesis using two n by (simp add: utf8_encode_def)
  qed
  show "\<not> code \<le> 0x007F \<Longrightarrow> \<not> code \<le> 0x07FF \<Longrightarrow>
      [ucast (0xE0 OR drop_bit 12 code), ucast (0x80 OR (drop_bit 6 code AND 0x3F)), ucast (0x80 OR (code AND 0x3F))] = utf8_encode n"
  proof -
    assume "\<not> code \<le> 0x007F" and "\<not> code \<le> 0x07FF"
    then have n: "\<not> n < 0x80" "\<not> n < 0x800" unfolding le by simp_all
    have "ucast (0xE0 OR drop_bit 12 code) = (of_nat (0xE0 + n div 4096) :: u8)"
      unfolding byte_nat prefixes by (subst or_plus) (use top in \<open>simp_all add: drop_nat n_def\<close>)
    then show ?thesis using two two' n top by (simp add: utf8_encode_def)
  qed
qed

lemma append_utf8_holds:
  assumes "str_holds N s t"
  defines "u code \<equiv> utf8_encode (unat code)"
  shows "if 0xD800 \<le> unat code \<and> unat code \<le> 0xDFFF then append_utf8 code s = Some (False, s)
    else \<exists>s'. append_utf8 code s = Some (length t + length (u code) \<le> N, s') \<and> str_holds N s' (take N (t @ u code))"
proof -
  have surrogate: "code \<ge> 0xD800 \<and> code \<le> 0xDFFF \<longleftrightarrow> 0xD800 \<le> unat code \<and> unat code \<le> 0xDFFF" by (simp add: word_le_nat_alt)
  have "append_utf8 code s = push_all (u code) s" if "\<not> (code \<ge> 0xD800 \<and> code \<le> 0xDFFF)"
    unfolding append_utf8_def u_def using that utf8_bytes [of code] by presburger
  then show ?thesis using push_all_holds [OF assms(1), of "u code"] surrogate by (auto simp: append_utf8_def)
qed

lemma hex_value_small: "json_hex c \<Longrightarrow> unat (json_hex_value c) < 16"
proof -
  assume "json_hex c"
  then have "c \<in> set (map word_of_nat [48..<58]) \<or> c \<in> set (map word_of_nat [97..<103]) \<or> c \<in> set (map word_of_nat [65..<71])"
    using u8_range [of 48 c 57] u8_range [of 97 c 102] u8_range [of 65 c 70] by (auto simp: json_hex_def)
  then show ?thesis by (auto simp: upt_rec json_hex_value_def)
qed

lemma hex_step:
  assumes "json_hex c" and "unat code < 2 ^ 12"
  shows "unat (push_bit 4 code OR ucast (json_hex_value c) :: u16) = 16 * unat code + unat (json_hex_value c)"
  using or_plus [where k = 4 and x = "ucast (json_hex_value c) :: u16" and c = code] hex_value_small [OF assms(1)] assms(2)
  by (simp add: byte_unat)

lemma drop_next:
  assumes "drop i xs = c # zs"
  shows "i < length xs" "xs ! i = c" "drop (Suc i) xs = zs"
proof -
  show "i < length xs" using assms by (metis drop_all list.distinct(1) not_le)
  show "xs ! i = c" using assms by (rule nth_via_drop)
  show "drop (Suc i) xs = zs" using assms by (simp add: drop_Suc tl_drop [symmetric])
qed

lemma hex_digits_run:
  "i + length ds = 4 \<Longrightarrow> p + 4 \<le> length xs \<Longrightarrow> take (length ds) (drop (p + i) xs) = ds \<Longrightarrow> unat code < 16 ^ i \<Longrightarrow>
   \<exists>r. hex_digits (Mem xs) p i code = Some r \<and>
     (if list_all json_hex ds
      then \<exists>w. r = Inr w \<and> unat w = foldl (\<lambda>n c. 16 * n + unat (json_hex_value c)) (unat code) ds \<and> unat w < 16 ^ 4
      else \<exists>e. r = Inl e)"
proof (induction ds arbitrary: i code)
  case Nil
  then show ?case by (subst hex_digits.simps) simp
next
  case (Cons c ds)
  have "drop (p + i) xs \<noteq> []" using Cons.prems(1,2) by simp
  then obtain z zs where z: "drop (p + i) xs = z # zs" by (meson neq_Nil_conv)
  with Cons.prems(3) have c: "drop (p + i) xs = c # zs" "take (length ds) zs = ds" by simp_all
  then have at: "xs ! (p + i) = c" "drop (p + Suc i) xs = zs" "p + i < length xs" "i < 4"
    using Cons.prems(1) drop_next [OF c(1)] by simp_all
  show ?case
  proof (cases "json_hex c")
    case False
    then show ?thesis using at by (subst hex_digits.simps) simp
  next
    case True
    let ?code = "push_bit 4 code OR ucast (json_hex_value c) :: u16"
    have "unat code < 2 ^ 12" using Cons.prems(4) power_increasing [of i 3 "16 :: nat"] at(4) by simp
    then have code: "unat ?code = 16 * unat code + unat (json_hex_value c)" by (rule hex_step [OF True])
    then have "unat ?code < 16 ^ Suc i" using Cons.prems(4) hex_value_small [OF True] by simp
    then obtain r where r: "hex_digits (Mem xs) p (Suc i) ?code = Some r"
      "if list_all json_hex ds
       then \<exists>w. r = Inr w \<and> unat w = foldl (\<lambda>n c. 16 * n + unat (json_hex_value c)) (unat ?code) ds \<and> unat w < 16 ^ 4
       else \<exists>e. r = Inl e"
      using Cons.IH [of "Suc i" ?code] Cons.prems(1,2) at c(2) by auto
    have "hex_digits (Mem xs) p i code = Some r" using r(1) at True Cons.prems(2) by (subst hex_digits.simps) simp
    then show ?thesis using r(2) True code by (simp only: option.inject) (auto split: if_splits)
  qed
qed

lemma hex_digits_is:
  assumes "drop p xs = ds @ rest" and "length ds = 4"
  shows "\<exists>r. hex_digits (Mem xs) p 0 0 = Some r \<and>
    (if list_all json_hex ds then \<exists>w. r = Inr w \<and> unat w = hex_number ds else \<exists>e. r = Inl e)"
proof -
  have "p + 4 \<le> length xs" using arg_cong [OF assms(1), of length] assms(2) by simp
  then show ?thesis using hex_digits_run [of 0 ds p xs 0] assms unfolding hex_number_def by (auto split: if_splits)
qed

text \<open>A literal is read from its first character on.\<close>

lemma literal_first:
  assumes "literal u s" and "s @ 0x22 # rest = c # zs"
  obtains (stop) "u = []" "s = []" "c = 0x22" "zs = rest"
  | (plain) u' s' where "c \<noteq> 0x22" "c \<noteq> 0x5C" "\<not> is_control c" "literal u' s'" "u = c # u'" "s = c # s'" "zs = s' @ 0x22 # rest"
  | (short) e d u' s' where "c = 0x5C" "escape_value e = Some d" "literal u' s'" "u = d # u'" "s = 0x5C # e # s'" "zs = e # s' @ 0x22 # rest"
  | (unicode) ds u' s' where "c = 0x5C" "list_all json_hex ds" "length ds = 4" "\<not> (0xD800 \<le> hex_number ds \<and> hex_number ds \<le> 0xDFFF)"
      "literal u' s'" "u = utf8_encode (hex_number ds) @ u'" "s = 0x5C # 0x75 # ds @ s'" "zs = 0x75 # ds @ s' @ 0x22 # rest"
  using assms(1)
proof (cases rule: literal.cases)
  case literal_Nil
  then show ?thesis using stop assms(2) by simp
next
  case (literal_unit v w u' s')
  from literal_unit(3) show ?thesis
  proof (cases rule: literal_unit.cases)
    case (plain b)
    then show ?thesis using literal_unit that(2) [of u' s'] assms(2) by simp
  next
    case (short e b)
    then show ?thesis using literal_unit that(3) [of e b u' s'] assms(2) by simp
  next
    case (unicode ds)
    then show ?thesis using literal_unit that(4) [of ds u' s'] assms(2) by simp
  qed
qed

text \<open>What decoding from \<open>i\<close> on with \<open>t\<close> already decoded has to deliver: \<open>j\<close> and \<open>t'\<close> if a literal that
  fits starts there, and a failure otherwise.\<close>

definition decodes :: "nat \<Rightarrow> u8 list \<Rightarrow> nat \<Rightarrow> u8 list \<Rightarrow> json_result \<Rightarrow> nat \<Rightarrow> u8 list \<Rightarrow> bool" where
  "decodes N xs i t r j t' \<longleftrightarrow> i \<le> j \<and> j \<le> length xs \<and>
     (json_succeeded r \<longrightarrow> r = json_ok \<and> (\<exists>u s. drop i xs = s @ 0x22 # drop j xs \<and> literal u s \<and> t' = t @ u)) \<and>
     (\<forall>u s rest. drop i xs = s @ 0x22 # rest \<longrightarrow> literal u s \<longrightarrow> length t + length u \<le> N \<longrightarrow>
        r = json_ok \<and> t' = t @ u \<and> j = i + length s + 1)"

lemma json_succeeded_simps [simp]:
  "json_succeeded json_ok" "json_succeeded (json_error_at e c o') \<longleftrightarrow> e = status_ok" "json_error_at e c o' = json_ok \<Longrightarrow> e = status_ok"
  by (simp_all add: json_succeeded_def succeeded_def json_ok_def json_error_at_def)

lemma decodes_range: "decodes N xs i t r j t' \<Longrightarrow> i \<le> j \<and> j \<le> length xs"
  by (simp only: decodes_def)

lemma decodes_ok:
  "decodes N xs i t r j t' \<Longrightarrow> json_succeeded r \<Longrightarrow> r = json_ok \<and> (\<exists>u s. drop i xs = s @ 0x22 # drop j xs \<and> literal u s \<and> t' = t @ u)"
  by (simp only: decodes_def)

lemma decodes_literal:
  "decodes N xs i t r j t' \<Longrightarrow> drop i xs = s @ 0x22 # rest \<Longrightarrow> literal u s \<Longrightarrow> length t + length u \<le> N \<Longrightarrow>
   r = json_ok \<and> t' = t @ u \<and> j = i + length s + 1"
  unfolding decodes_def by blast

lemma decodes_fail:
  assumes "i \<le> j" and "j \<le> length xs" and "e \<noteq> status_ok"
    and "\<And>u s rest. drop i xs = s @ 0x22 # rest \<Longrightarrow> literal u s \<Longrightarrow> length t + length u \<le> N \<Longrightarrow> False"
  shows "decodes N xs i t (json_error_at e c k) j t'"
  using assms by (auto simp: decodes_def)

text \<open>One unit in front.\<close>

lemma decodes_unit:
  assumes "decodes N xs (i + length w) (t @ v) r j t'" and "drop i xs = w @ zs" and "literal_unit v w"
    and "\<And>u s rest. literal u s \<Longrightarrow> s @ 0x22 # rest = w @ zs \<Longrightarrow> length t + length u \<le> N \<Longrightarrow> \<exists>u' s'. literal u' s' \<and> u = v @ u' \<and> s = w @ s'"
  shows "decodes N xs i t r j t'"
proof -
  have zs: "drop (i + length w) xs = zs" using assms(2) by (metis add.commute append_eq_conv_conj drop_drop)
  show ?thesis unfolding decodes_def
  proof (intro conjI impI allI)
    assume "json_succeeded r"
    then obtain u s where u: "r = json_ok" "drop (i + length w) xs = s @ 0x22 # drop j xs" "literal u s" "t' = (t @ v) @ u"
      using decodes_ok [OF assms(1)] by blast
    then show "r = json_ok" by simp
    have "drop i xs = (w @ s) @ 0x22 # drop j xs" using assms(2) u(2) zs by simp
    moreover have "literal (v @ u) (w @ s)" using assms(3) u(3) by (rule literal_unit)
    moreover have "t' = t @ v @ u" using u(4) by simp
    ultimately show "\<exists>u s. drop i xs = s @ 0x22 # drop j xs \<and> literal u s \<and> t' = t @ u" by blast
  next
    fix u s rest assume s: "drop i xs = s @ 0x22 # rest" "literal u s" "length t + length u \<le> N"
    obtain u' s' where u': "literal u' s'" "u = v @ u'" "s = w @ s'" using assms(4) [OF s(2) _ s(3)] s(1) assms(2) by metis
    have "drop (i + length w) xs = s' @ 0x22 # rest" using s(1) assms(2) zs u'(3) by simp
    then have "r = json_ok \<and> t' = (t @ v) @ u' \<and> j = i + length w + length s' + 1"
      using u' s(3) by (intro decodes_literal [OF assms(1)]) simp_all
    then show "r = json_ok" "t' = t @ u" "j = i + length s + 1" using u' by simp_all
  qed (use decodes_range [OF assms(1)] in simp_all)
qed

lemma push_back_cases:
  assumes "str_holds N s t"
  obtains (fits) s' where "length t < N" "str_push_back c s = Some (status_ok, s')" "str_holds N s' (t @ [c])"
  | (full) s' where "N \<le> length t" "str_push_back c s = Some (status_full, s')" "str_holds N s' t"
  using push_back_leaves [OF assms, of c] by (auto simp: leaves_def split: if_splits)

text \<open>The escapes, with the rest of the text as induction hypothesis.\<close>

lemma literal_escape:
  assumes "literal u s" and "s @ 0x22 # rest = 0x5C # e # ws"
  obtains (short) d u' s' where "escape_value e = Some d" "literal u' s'" "u = d # u'" "s = 0x5C # e # s'"
  | (unicode) ds u' s' where "e = 0x75" "list_all json_hex ds" "length ds = 4" "\<not> (0xD800 \<le> hex_number ds \<and> hex_number ds \<le> 0xDFFF)"
      "literal u' s'" "u = utf8_encode (hex_number ds) @ u'" "s = 0x5C # 0x75 # ds @ s'" "ws = ds @ s' @ 0x22 # rest"
  using assms
proof (cases rule: literal_first)
  case (short e' d u' s')
  then show ?thesis using that(1) [of d u' s'] by simp
next
  case (unicode ds u' s')
  then show ?thesis using that(2) [of ds u' s'] by simp
qed simp_all

lemma escape_step:
  assumes "drop i xs = 0x5C # e # ws"
  shows "decode_string_loop (Mem xs) i out =
    (if e = 0x75 then
       if length ws < 4 then Some (json_error_at status_invalid_argument invalid_unicode_escape i, i + 2, out)
       else do {
         digits \<leftarrow> hex_digits (Mem xs) (i + 2) 0 0;
         case digits of
           Inl bad \<Rightarrow> Some (json_error_at status_invalid_argument invalid_unicode_escape bad, i + 2, out)
         | Inr code \<Rightarrow> do {
             (appended, out) \<leftarrow> append_utf8 code out;
             if \<not> appended then Some (json_error_at status_invalid_argument invalid_unicode_escape (i + 2), i + 6, out)
             else decode_string_loop (Mem xs) (i + 6) out } }
     else case escape_value e of
       None \<Rightarrow> Some (json_error_at status_invalid_argument invalid_escape (i + 1), i + 2, out)
     | Some d \<Rightarrow> do {
         (r, out) \<leftarrow> str_push_back d out;
         if r \<noteq> status_ok then Some (json_error_at status_full capacity_error (i + 1), i + 2, out)
         else decode_string_loop (Mem xs) (i + 2) out })"
proof -
  note c = drop_next [OF assms] drop_next [OF drop_next(3) [OF assms]]
  have len: "length xs = i + 2 + length ws" using arg_cong [OF c(6), of length] c(4) by simp
  then have "psize (Mem xs) < i + 2 + 4 \<longleftrightarrow> length ws < 4" "\<not> psize (Mem xs) \<le> i + 1" "i < psize (Mem xs)" by simp_all
  moreover have "rd (Mem xs) i = Some 0x5C" "rd (Mem xs) (i + 1) = Some e" using c by simp_all
  moreover have "\<not> is_control 0x5C" "(0x5C :: u8) \<noteq> 0x22" by (simp_all add: is_control_def)
  ultimately show ?thesis
    by (subst decode_string_loop.simps) (simp only: if_True if_False Option.bind.bind_lunit not_True_eq_False simp_thms)
qed

lemma decode_short:
  assumes "drop i xs = 0x5C # e # ws" and "e \<noteq> 0x75" and "str_holds N out t"
    and IH: "\<And>out t. str_holds N out t \<Longrightarrow>
      \<exists>r j out' t'. decode_string_loop (Mem xs) (i + 2) out = Some (r, j, out') \<and> str_holds N out' t' \<and> decodes N xs (i + 2) t r j t'"
  shows "\<exists>r j out' t'. decode_string_loop (Mem xs) i out = Some (r, j, out') \<and> str_holds N out' t' \<and> decodes N xs i t r j t'"
proof -
  note c = drop_next [OF assms(1)] drop_next [OF drop_next(3) [OF assms(1)]]
  note start = escape_step [OF assms(1), of out]
  show ?thesis
  proof (cases "escape_value e")
    case None
    have "decode_string_loop (Mem xs) i out = Some (json_error_at status_invalid_argument invalid_escape (i + 1), i + 2, out)"
      using start c None assms(2) by simp
    moreover have "decodes N xs i t (json_error_at status_invalid_argument invalid_escape (i + 1)) (i + 2) t"
    proof (rule decodes_fail)
      fix u s rest assume "drop i xs = s @ 0x22 # rest" "literal u s"
      with assms(1) have "s @ 0x22 # rest = 0x5C # e # ws" by simp
      with \<open>literal u s\<close> show False by (cases rule: literal_escape) (use None assms(2) in simp_all)
    qed (use c in simp_all)
    ultimately show ?thesis using assms(3) by blast
  next
    case (Some d)
    have step: "\<exists>u' s'. literal u' s' \<and> u = [d] @ u' \<and> s = [0x5C, e] @ s'" if "literal u s" "s @ 0x22 # rest = [0x5C, e] @ ws" for u s rest
    proof -
      from that have "literal u s" "s @ 0x22 # rest = 0x5C # e # ws" by simp_all
      then show ?thesis by (cases rule: literal_escape) (use Some assms(2) in auto)
    qed
    have unit: "literal_unit [d] [0x5C, e]" using Some by (rule literal_unit.short)
    from assms(3) show ?thesis
    proof (cases rule: push_back_cases [where c = d])
      case (fits out1)
      have next_: "decode_string_loop (Mem xs) i out = decode_string_loop (Mem xs) (i + 2) out1"
        using start c Some fits(2) assms(2) by simp
      obtain r j out' t' where IH: "decode_string_loop (Mem xs) (i + 2) out1 = Some (r, j, out')" "str_holds N out' t'" "decodes N xs (i + 2) (t @ [d]) r j t'"
        using IH [OF fits(3)] by auto
      have "decodes N xs i t r j t'"
        using decodes_unit [of N xs i "[0x5C, e]" t "[d]" r j t' ws] IH(3) assms(1) unit step by simp
      then show ?thesis using next_ IH(1,2) by auto
    next
      case (full out1)
      have "decode_string_loop (Mem xs) i out = Some (json_error_at status_full capacity_error (i + 1), i + 2, out1)"
        using start c Some full(2) assms(2) by simp
      moreover have "decodes N xs i t (json_error_at status_full capacity_error (i + 1)) (i + 2) t"
      proof (rule decodes_fail)
        fix u s rest assume s: "drop i xs = s @ 0x22 # rest" "literal u s" "length t + length u \<le> N"
        with assms(1) step [of u s rest] show False using full(1) by auto
      qed (use c in simp_all)
      ultimately show ?thesis using full(3) by blast
    qed
  qed
qed

lemma decode_unicode:
  assumes "drop i xs = 0x5C # 0x75 # ws" and "str_holds N out t"
    and IH: "\<And>out t. i + 6 \<le> length xs \<Longrightarrow> str_holds N out t \<Longrightarrow>
      \<exists>r j out' t'. decode_string_loop (Mem xs) (i + 6) out = Some (r, j, out') \<and> str_holds N out' t' \<and> decodes N xs (i + 6) t r j t'"
  shows "\<exists>r j out' t'. decode_string_loop (Mem xs) i out = Some (r, j, out') \<and> str_holds N out' t' \<and> decodes N xs i t r j t'"
proof -
  note c = drop_next [OF assms(1)] drop_next [OF drop_next(3) [OF assms(1)]]
  note start = escape_step [OF assms(1), of out]
  have len: "length xs = i + 2 + length ws" using arg_cong [OF c(6), of length] c(4) by simp
  have fail: "decodes N xs i t (json_error_at status_invalid_argument invalid_unicode_escape k) j t'"
    if "i \<le> j" "j \<le> length xs"
      and none: "\<And>ds u s rest. ws = ds @ s @ 0x22 # rest \<Longrightarrow> list_all json_hex ds \<Longrightarrow> length ds = 4 \<Longrightarrow>
        \<not> (0xD800 \<le> hex_number ds \<and> hex_number ds \<le> 0xDFFF) \<Longrightarrow> length t + length (utf8_encode (hex_number ds)) \<le> N \<Longrightarrow> False" for k j t'
  proof (rule decodes_fail [OF that(1,2)])
    fix u s rest assume s: "drop i xs = s @ 0x22 # rest" "literal u s" "length t + length u \<le> N"
    with assms(1) have "s @ 0x22 # rest = 0x5C # 0x75 # ws" by simp
    with s(2) show False
    proof (cases rule: literal_escape)
      case (unicode ds u' s')
      then show False using none s(3) by auto
    qed (simp add: escape_value_def)
  qed simp
  show ?thesis
  proof (cases "length ws < 4")
    case True
    then have "decode_string_loop (Mem xs) i out = Some (json_error_at status_invalid_argument invalid_unicode_escape i, i + 2, out)"
      using start c len by simp
    moreover have "decodes N xs i t (json_error_at status_invalid_argument invalid_unicode_escape i) (i + 2) t"
      using True len by (intro fail) auto
    ultimately show ?thesis using assms(2) by blast
  next
    case False
    define ds where "ds = take 4 ws"
    have ds: "drop (i + 2) xs = ds @ drop 4 ws" "length ds = 4" using c(6) False by (simp_all add: ds_def)
    have unique: "ds' = ds" if "ws = ds' @ zs" "length ds' = 4" for ds' zs using that by (simp add: ds_def)
    obtain h where h: "hex_digits (Mem xs) (i + 2) 0 0 = Some h"
      "if list_all json_hex ds then \<exists>w. h = Inr w \<and> unat w = hex_number ds else \<exists>e. h = Inl e"
      using hex_digits_is [OF ds] by blast
    have room: "i + 6 \<le> length xs" using False len by linarith
    show ?thesis
    proof (cases "list_all json_hex ds")
      case nohex: False
      then obtain e where "h = Inl e" using h(2) by auto
      then have "decode_string_loop (Mem xs) i out = Some (json_error_at status_invalid_argument invalid_unicode_escape e, i + 2, out)"
        using start c len False h(1) by simp
      moreover have "decodes N xs i t (json_error_at status_invalid_argument invalid_unicode_escape e) (i + 2) t"
        using nohex room unique by (intro fail) auto
      ultimately show ?thesis using assms(2) by blast
    next
      case True
      then obtain w where w: "h = Inr w" "unat w = hex_number ds" using h(2) by auto
      have step: "decode_string_loop (Mem xs) i out = do {
          (appended, output) \<leftarrow> append_utf8 w out;
          if \<not> appended then Some (json_error_at status_invalid_argument invalid_unicode_escape (i + 2), i + 6, output)
          else decode_string_loop (Mem xs) (i + 6) output }"
        using start c len False h(1) w(1) by simp
      note appended = append_utf8_holds [OF assms(2), of w, unfolded w(2)]
      show ?thesis
      proof (cases "0xD800 \<le> hex_number ds \<and> hex_number ds \<le> 0xDFFF")
        case True
        then have "decode_string_loop (Mem xs) i out = Some (json_error_at status_invalid_argument invalid_unicode_escape (i + 2), i + 6, out)"
          using step appended by simp
        moreover have "decodes N xs i t (json_error_at status_invalid_argument invalid_unicode_escape (i + 2)) (i + 6) t"
          using True room unique by (intro fail) auto
        ultimately show ?thesis using assms(2) by blast
      next
        case plane: False
        then obtain out1 where out1: "append_utf8 w out = Some (length t + length (utf8_encode (hex_number ds)) \<le> N, out1)"
          "str_holds N out1 (take N (t @ utf8_encode (hex_number ds)))" using appended by auto
        show ?thesis
        proof (cases "length t + length (utf8_encode (hex_number ds)) \<le> N")
          case full: False
          then have "decode_string_loop (Mem xs) i out = Some (json_error_at status_invalid_argument invalid_unicode_escape (i + 2), i + 6, out1)"
            using step out1(1) by simp
          moreover have "decodes N xs i t (json_error_at status_invalid_argument invalid_unicode_escape (i + 2)) (i + 6) t'" for t'
            using full room unique by (intro fail) auto
          ultimately show ?thesis using out1(2) by blast
        next
          case fits: True
          let ?v = "utf8_encode (hex_number ds)" and ?w = "0x5C # 0x75 # ds"
          have holds: "str_holds N out1 (t @ ?v)" using fits out1(2) by simp
          obtain r j out' t' where IH: "decode_string_loop (Mem xs) (i + 6) out1 = Some (r, j, out')" "str_holds N out' t'"
            "decodes N xs (i + 6) (t @ ?v) r j t'" using IH [OF room holds] by auto
          have "decodes N xs i t r j t'"
          proof (rule decodes_unit [of N xs i ?w t ?v r j t' "drop 4 ws"])
            show "decodes N xs (i + length ?w) (t @ ?v) r j t'" using IH(3) ds(2) by simp
            show "drop i xs = ?w @ drop 4 ws" using assms(1) by (simp add: ds_def)
            show "literal_unit ?v ?w" using True ds(2) plane by (rule literal_unit.unicode)
            fix u s rest assume "literal u s" "s @ 0x22 # rest = ?w @ drop 4 ws"
            then have "literal u s" "s @ 0x22 # rest = 0x5C # 0x75 # ws" by (simp_all add: ds_def)
            then show "\<exists>u' s'. literal u' s' \<and> u = ?v @ u' \<and> s = ?w @ s'"
              by (cases rule: literal_escape) (use unique in \<open>auto simp: escape_value_def\<close>)
          qed
          then show ?thesis using step out1(1) fits IH(1,2) by auto
        qed
      qed
    qed
  qed
qed

lemma decode_loop_is:
  "i \<le> length xs \<Longrightarrow> str_holds N out t \<Longrightarrow>
   \<exists>r j out' t'. decode_string_loop (Mem xs) i out = Some (r, j, out') \<and> str_holds N out' t' \<and> decodes N xs i t r j t'"
proof (induction "length xs - i" arbitrary: i out t rule: less_induct)
  case less
  note start = decode_string_loop.simps [of "Mem xs" i out]
  note IH = less.hyps [OF _ _ ]
  show ?case
  proof (cases "drop i xs")
    case Nil
    with less.prems(1) have i: "i = length xs" by simp
    have "decodes N xs i t (json_error_at status_invalid_argument unexpected_end i) i t"
      using Nil i by (intro decodes_fail) simp_all
    then show ?thesis using start i less.prems(2) by auto
  next
    case (Cons c zs)
    note c = drop_next [OF Cons]
    have i: "i < psize (Mem xs)" "rd (Mem xs) i = Some c" using c by simp_all
    consider "c = 0x22" | "c \<noteq> 0x22" "is_control c" | "c \<noteq> 0x22" "\<not> is_control c" "c \<noteq> 0x5C" | "c = 0x5C" by blast
    then show ?thesis
    proof cases
      case 1
      have "decode_string_loop (Mem xs) i out = Some (json_ok, i + 1, out)" using start i 1 by simp
      moreover have "decodes N xs i t json_ok (i + 1) t"
        unfolding decodes_def
      proof (intro conjI impI allI)
        show "\<exists>u s. drop i xs = s @ 0x22 # drop (i + 1) xs \<and> literal u s \<and> t = t @ u"
          using Cons c 1 by (intro exI [of _ "[]"]) (simp add: literal_Nil)
        fix u s rest assume s: "drop i xs = s @ 0x22 # rest" "literal u s"
        from s(1) Cons have "s @ 0x22 # rest = c # zs" by simp
        with s(2) have "u = [] \<and> s = []" by (cases rule: literal_first) (use 1 in simp_all)
        then show "t = t @ u" "i + 1 = i + length s + 1" by simp_all
      qed (use c in simp_all)
      ultimately show ?thesis using less.prems(2) by blast
    next
      case 2
      have "decode_string_loop (Mem xs) i out = Some (json_error_at status_invalid_argument invalid_string i, i + 1, out)"
        using start i 2 by simp
      moreover have "decodes N xs i t (json_error_at status_invalid_argument invalid_string i) (i + 1) t"
      proof (rule decodes_fail)
        fix u s rest assume "drop i xs = s @ 0x22 # rest" "literal u s"
        with Cons have "s @ 0x22 # rest = c # zs" by simp
        with \<open>literal u s\<close> show False by (cases rule: literal_first) (use 2 in \<open>simp_all add: is_control_def\<close>)
      qed (use c in simp_all)
      ultimately show ?thesis using less.prems(2) by blast
    next
      case 3
      have step: "literal u s \<Longrightarrow> s @ 0x22 # rest = [c] @ zs \<Longrightarrow> \<exists>u' s'. literal u' s' \<and> u = [c] @ u' \<and> s = [c] @ s'" for u s rest
      proof -
        assume "literal u s" and "s @ 0x22 # rest = [c] @ zs"
        then have "literal u s" "s @ 0x22 # rest = c # zs" by simp_all
        then show ?thesis by (cases rule: literal_first) (use 3 in auto)
      qed
      have unit: "literal_unit [c] [c]" using 3 by (intro literal_unit.plain) simp_all
      from less.prems(2) show ?thesis
      proof (cases rule: push_back_cases [where c = c])
        case (fits out1)
        have next_: "decode_string_loop (Mem xs) i out = decode_string_loop (Mem xs) (i + 1) out1" using start i 3 fits(2) by simp
        obtain r j out' t' where IH: "decode_string_loop (Mem xs) (i + 1) out1 = Some (r, j, out')" "str_holds N out' t'" "decodes N xs (i + 1) (t @ [c]) r j t'"
        proof -
          have "length xs - (i + 1) < length xs - i" "i + 1 \<le> length xs" using c(1) by linarith+
          with less.hyps [OF this fits(3)] that show ?thesis by blast
        qed
        have "decodes N xs i t r j t'"
          using decodes_unit [of N xs i "[c]" t "[c]" r j t' zs] IH(3) Cons unit step by simp
        then show ?thesis using next_ IH(1,2) by auto
      next
        case (full out1)
        have "decode_string_loop (Mem xs) i out = Some (json_error_at status_full capacity_error i, i + 1, out1)"
          using start i 3 full(2) by simp
        moreover have "decodes N xs i t (json_error_at status_full capacity_error i) (i + 1) t"
        proof (rule decodes_fail)
          fix u s rest assume s: "drop i xs = s @ 0x22 # rest" "literal u s" "length t + length u \<le> N"
          with Cons step [of u s rest] show False using full(1) by auto
        qed (use c in simp_all)
        ultimately show ?thesis using full(3) by blast
      qed
    next
      case 4
      show ?thesis
      proof (cases zs)
        case Nil
        then have "psize (Mem xs) \<le> i + 1" "\<not> is_control 0x5C" using c by (simp_all add: is_control_def)
        then have "decode_string_loop (Mem xs) i out = Some (json_error_at status_invalid_argument unexpected_end (i + 1), i + 1, out)"
          using start i 4 by simp
        moreover have "decodes N xs i t (json_error_at status_invalid_argument unexpected_end (i + 1)) (i + 1) t"
        proof (rule decodes_fail)
          fix u s rest assume "drop i xs = s @ 0x22 # rest" "literal u s"
          with Cons have "s @ 0x22 # rest = c # zs" by simp
          with \<open>literal u s\<close> show False by (cases rule: literal_first) (use 4 Nil in simp_all)
        qed (use c in simp_all)
        ultimately show ?thesis using less.prems(2) by blast
      next
        case zs: (Cons e ws)
        have escape: "drop i xs = 0x5C # e # ws" using Cons zs 4 by simp
        have less_i: "length xs - (i + n) < length xs - i" if "0 < n" for n using c(1) that by linarith
        show ?thesis
        proof (cases "e = 0x75")
          case True
          show ?thesis
            by (rule decode_unicode [OF escape [unfolded True] less.prems(2)]) (rule less.hyps [OF less_i]; simp)
        next
          case False
          have "i + 2 \<le> length xs" using drop_next(1) [OF c(3) [unfolded zs]] by simp
          then show ?thesis
            by (intro decode_short [OF escape False less.prems(2)]) (rule less.hyps [OF less_i]; simp)
        qed
      qed
    qed
  qed
qed

text \<open>A quoted string read from \<open>i\<close> on.\<close>

definition quoted :: "nat \<Rightarrow> u8 list \<Rightarrow> nat \<Rightarrow> json_result \<Rightarrow> nat \<Rightarrow> u8 list \<Rightarrow> bool" where
  "quoted N xs i r j t \<longleftrightarrow> i \<le> j \<and> j \<le> length xs \<and>
     (json_succeeded r \<longrightarrow> r = json_ok \<and> (\<exists>s. drop i xs = 0x22 # s @ 0x22 # drop j xs \<and> literal t s)) \<and>
     (\<forall>u s rest. drop i xs = 0x22 # s @ 0x22 # rest \<longrightarrow> literal u s \<longrightarrow> length u \<le> N \<longrightarrow>
        r = json_ok \<and> t = u \<and> j = i + length s + 2)"

lemma decode_string_is:
  assumes "i \<le> length xs" and "length (str_data out) = Suc N"
  shows "\<exists>r j out' t. decode_string (Mem xs) i out = Some (r, j, out') \<and> str_holds N out' t \<and> quoted N xs i r j t"
proof -
  obtain out0 where out0: "str_clear out = Some out0" "str_holds N out0 []" using clear_holds [OF assms(2)] by blast
  show ?thesis
  proof (cases "\<exists>zs. drop i xs = 0x22 # zs")
    case True
    then obtain zs where zs: "drop i xs = 0x22 # zs" by blast
    note c = drop_next [OF zs]
    obtain r j out' t where loop: "decode_string_loop (Mem xs) (i + 1) out0 = Some (r, j, out')" "str_holds N out' t" "decodes N xs (i + 1) [] r j t"
      using decode_loop_is [of "i + 1" xs N out0 "[]"] out0(2) c(1) by auto
    have "decode_string (Mem xs) i out = Some (r, j, out')" using out0(1) c(1,2) loop(1) by (simp add: decode_string_def)
    moreover have "quoted N xs i r j t"
      unfolding quoted_def
    proof (intro conjI impI allI)
      assume ok: "json_succeeded r"
      from decodes_ok [OF loop(3) this] obtain s where "r = json_ok" "drop (i + 1) xs = s @ 0x22 # drop j xs" "literal t s" by auto
      then show "r = json_ok" "\<exists>s. drop i xs = 0x22 # s @ 0x22 # drop j xs \<and> literal t s" using zs c(3) by auto
    next
      fix u s rest assume "drop i xs = 0x22 # s @ 0x22 # rest" "literal u s" "length u \<le> N"
      then have "drop (i + 1) xs = s @ 0x22 # rest" using zs c(3) by simp
      then have "r = json_ok \<and> t = [] @ u \<and> j = (i + 1) + length s + 1"
        using \<open>literal u s\<close> \<open>length u \<le> N\<close> by (intro decodes_literal [OF loop(3)]) simp_all
      then show "r = json_ok" "t = u" "j = i + length s + 2" by simp_all
    qed (use decodes_range [OF loop(3)] in simp_all)
    ultimately show ?thesis using loop(2) by blast
  next
    case False
    have "(if i \<ge> psize (Mem xs) then Some True else do { c \<leftarrow> rd (Mem xs) i; Some (c \<noteq> 0x22) }) = Some True"
    proof (cases "drop i xs")
      case (Cons c zs)
      then show ?thesis using False drop_next [OF Cons] by auto
    qed simp
    then have "decode_string (Mem xs) i out = Some (json_error_at status_invalid_argument invalid_string i, i, out0)"
      by (simp only: decode_string_def out0(1) Option.bind.bind_lunit if_True)
    moreover have "quoted N xs i (json_error_at status_invalid_argument invalid_string i) i []"
      using False assms(1) by (auto simp: quoted_def)
    ultimately show ?thesis using out0(2) by blast
  qed
qed

section \<open>Writing literals\<close>

definition spelled :: "u8 \<Rightarrow> u8 list" where
  "spelled c = (case escape_for c of Some (a, b) \<Rightarrow> [a, b] | None \<Rightarrow> [c])"

definition printable :: "u8 \<Rightarrow> bool" where
  "printable c \<longleftrightarrow> escape_for c \<noteq> None \<or> \<not> is_control c"

definition spelling :: "u8 list \<Rightarrow> u8 list" where
  "spelling t = concat (map spelled t)"

lemma spelled_unit: "printable c \<Longrightarrow> literal_unit [c] (spelled c)"
proof (cases "escape_for c")
  case None
  assume "printable c"
  then show ?thesis using None by (auto simp: spelled_def printable_def escape_for_def intro!: literal_unit.plain split: if_splits)
next
  case (Some p)
  then have "fst p = 0x5C \<and> escape_value (snd p) = Some c" by (auto simp: escape_for_def escape_value_def split: if_splits)
  then show ?thesis using Some literal_unit.short [of "snd p" c] by (cases p) (simp add: spelled_def)
qed

lemma spelling_literal: "list_all printable t \<Longrightarrow> literal t (spelling t)"
proof (induction t)
  case Nil
  then show ?case by (simp add: spelling_def literal_Nil)
next
  case (Cons c t)
  then have "literal ([c] @ t) (spelled c @ spelling t)" by (intro literal_unit spelled_unit) simp_all
  then show ?case by (simp add: spelling_def)
qed

lemma rd_view: "view_ok v \<Longrightarrow> i < psize v \<Longrightarrow> rd v i = Some (view_text v ! i)"
  by (cases v) simp_all

text \<open>The outcome of a writer: the text is appended as a whole, or the status is a failure.\<close>

definition appends :: "nat \<Rightarrow> u8 list \<Rightarrow> (status \<times> cstring) option \<Rightarrow> u8 list \<Rightarrow> bool \<Rightarrow> bool" where
  "appends N t x w possible \<longleftrightarrow> (\<exists>r s t'. x = Some (r, s) \<and> str_holds N s t' \<and>
     (if possible \<and> length t + length w \<le> N then r = status_ok \<and> t' = t @ w else r \<noteq> status_ok))"

lemma push_back_appends: "str_holds N s t \<Longrightarrow> appends N t (str_push_back c s) [c] True"
  using push_back_leaves [of N s t c] by (fastforce simp: appends_def leaves_def)

lemma append_appends: "str_holds N s t \<Longrightarrow> view_ok v \<Longrightarrow> appends N t (str_append v s) (view_text v) True"
  using append_leaves [of N s t v] by (cases "length t + length (view_text v) \<le> N") (auto simp: appends_def leaves_def)

lemma appends_bind:
  assumes "appends N t x w p" and "\<And>s. str_holds N s (t @ w) \<Longrightarrow> appends N (t @ w) (f s) v q"
    and "\<And>r s. r \<noteq> status_ok \<Longrightarrow> g r s = Some (k r, s)" and "\<And>r. r \<noteq> status_ok \<Longrightarrow> k r \<noteq> status_ok"
  shows "appends N t (do { (r, s) \<leftarrow> x; if r \<noteq> status_ok then g r s else f s }) (w @ v) (p \<and> q)"
proof -
  obtain r s t' where x: "x = Some (r, s)" "str_holds N s t'"
    "if p \<and> length t + length w \<le> N then r = status_ok \<and> t' = t @ w else r \<noteq> status_ok"
    using assms(1) by (auto simp: appends_def)
  show ?thesis
  proof (cases "p \<and> length t + length w \<le> N")
    case True
    then obtain r' s' t'' where "f s = Some (r', s')" "str_holds N s' t''"
      "if q \<and> length (t @ w) + length v \<le> N then r' = status_ok \<and> t'' = (t @ w) @ v else r' \<noteq> status_ok"
      using x assms(2) [of s] by (auto simp: appends_def)
    then show ?thesis using True x by (auto simp: appends_def)
  next
    case False
    then show ?thesis using x assms(3,4) by (auto simp: appends_def)
  qed
qed

lemma append_escaped_loop_appends:
  assumes "view_ok v"
  shows "i \<le> psize v \<Longrightarrow> str_holds N out t \<Longrightarrow>
    appends N t (append_escaped_loop v i out) (spelling (drop i (view_text v)) @ [0x22]) (list_all printable (drop i (view_text v)))"
proof (induction "psize v - i" arbitrary: i out t)
  case 0
  then have "i = psize v" by simp
  moreover have "drop i (view_text v) = []" using \<open>i = psize v\<close> assms by (simp add: psize_view)
  ultimately show ?case using push_back_appends [OF 0(3), where c = "0x22"] by (subst append_escaped_loop.simps) (simp add: spelling_def)
next
  case (Suc n)
  let ?c = "view_text v ! i"
  have i: "i < psize v" using Suc.hyps(2) by simp
  then have c: "drop i (view_text v) = ?c # drop (Suc i) (view_text v)" using assms by (simp add: Cons_nth_drop_Suc psize_view)
  have step: "append_escaped_loop v i out = (case escape_for ?c of
      Some (a, b) \<Rightarrow> do { (r, out) \<leftarrow> str_append (Mem [a, b]) out; if r \<noteq> status_ok then Some (status_full, out) else append_escaped_loop v (i + 1) out }
    | None \<Rightarrow> if ?c < 0x20 then Some (status_invalid_argument, out)
        else do { (r, out) \<leftarrow> str_push_back ?c out; if r \<noteq> status_ok then Some (status_full, out) else append_escaped_loop v (i + 1) out })"
    using i rd_view [OF assms i] by (subst append_escaped_loop.simps) simp
  have IH: "appends N t' (append_escaped_loop v (i + 1) out') (spelling (drop (Suc i) (view_text v)) @ [0x22])
      (list_all printable (drop (Suc i) (view_text v)))" if "str_holds N out' t'" for out' t'
    using Suc.hyps(1) [of "i + 1"] Suc.hyps(2) i that by simp
  show ?case
  proof (cases "escape_for ?c")
    case (Some p)
    obtain a b where p: "p = (a, b)" by (cases p)
    have "appends N t (append_escaped_loop v i out) ([a, b] @ spelling (drop (Suc i) (view_text v)) @ [0x22])
        (True \<and> list_all printable (drop (Suc i) (view_text v)))"
      unfolding step Some p option.case prod.case
      by (rule appends_bind [where k = "\<lambda>r. status_full"]) (use append_appends [OF Suc.prems(2), where v = "Mem [a, b]"] IH in simp_all)
    then show ?thesis using Some p by (simp add: c spelling_def spelled_def printable_def)
  next
    case None
    show ?thesis
    proof (cases "?c < 0x20")
      case True
      then show ?thesis using None step Suc.prems(2) c by (auto simp: appends_def printable_def is_control_def)
    next
      case False
      have "appends N t (append_escaped_loop v i out) ([?c] @ spelling (drop (Suc i) (view_text v)) @ [0x22])
          (True \<and> list_all printable (drop (Suc i) (view_text v)))"
        unfolding step None option.case if_not_P [OF False]
        by (rule appends_bind [where k = "\<lambda>r. status_full"]) (use push_back_appends [OF Suc.prems(2)] IH in simp_all)
      then show ?thesis using None False by (simp add: c spelling_def spelled_def printable_def is_control_def)
    qed
  qed
qed

definition literal_text :: "u8 list \<Rightarrow> u8 list" where
  "literal_text t = 0x22 # spelling t @ [0x22]"

lemma append_escaped_appends:
  assumes "view_ok v" and "str_holds N out t"
  shows "appends N t (append_escaped v out) (literal_text (view_text v)) (list_all printable (view_text v))"
proof -
  have "appends N t (append_escaped v out) ([0x22] @ spelling (drop 0 (view_text v)) @ [0x22]) (True \<and> list_all printable (drop 0 (view_text v)))"
    unfolding append_escaped_def
    by (rule appends_bind [where k = "\<lambda>r. status_full"])
      (use push_back_appends [OF assms(2)] append_escaped_loop_appends [OF assms(1), where i = 0] in simp_all)
  then show ?thesis by (simp add: literal_text_def)
qed

end
