(* ===== verification/JsonNumber.thy ===== *)
theory JsonNumber
  imports JsonText
begin

text \<open>The numbers of JSON: the grammar of RFC 8259 and the conversions of \<open>castle_ext/serialization/json.hpp\<close>
  between integers and their decimal text.\<close>


section \<open>The grammar of numbers\<close>

definition digit_text :: "u8 list \<Rightarrow> bool" where
  "digit_text ds \<longleftrightarrow> ds \<noteq> [] \<and> list_all json_digit ds"

definition exponent_text :: "u8 list \<Rightarrow> bool" where
  "exponent_text s \<longleftrightarrow> s = [] \<or>
     (\<exists>e ds. e \<in> {0x65, 0x45} \<and> digit_text ds \<and> (s = e # ds \<or> s = e # 0x2B # ds \<or> s = e # 0x2D # ds))"

definition fraction_text :: "u8 list \<Rightarrow> bool" where
  "fraction_text s \<longleftrightarrow> s = [] \<or> (\<exists>ds. s = 0x2E # ds \<and> digit_text ds)"

definition integer_text :: "u8 list \<Rightarrow> bool" where
  "integer_text s \<longleftrightarrow> s = [0x30] \<or> (digit_text s \<and> hd s \<noteq> 0x30)"

definition json_number :: "u8 list \<Rightarrow> bool" where
  "json_number s \<longleftrightarrow> (\<exists>int frac ex. integer_text int \<and> fraction_text frac \<and> exponent_text ex \<and>
     (s = int @ frac @ ex \<or> s = 0x2D # int @ frac @ ex))"

text \<open>A run of digits ends where no digit follows.\<close>

definition stops :: "u8 list \<Rightarrow> bool" where
  "stops s \<longleftrightarrow> s = [] \<or> \<not> json_digit (hd s)"

lemma run_of_digits: "list_all json_digit ds \<Longrightarrow> stops s \<Longrightarrow> takeWhile json_digit (ds @ s) = ds \<and> dropWhile json_digit (ds @ s) = s"
  by (induction ds) (cases s, auto simp: stops_def)+

lemma stops_simps: "exponent_text s \<Longrightarrow> stops s" "fraction_text f \<Longrightarrow> f \<noteq> [] \<Longrightarrow> stops (f @ s)"
  by (auto simp: stops_def exponent_text_def fraction_text_def json_digit_def)

lemma skip_digits_is: "i \<le> length xs \<Longrightarrow> skip_digits (Mem xs) i = Some (i + length (takeWhile json_digit (drop i xs)))"
proof (induction "length xs - i" arbitrary: i)
  case 0
  then show ?case by (subst skip_digits.simps) simp
next
  case (Suc n)
  then have "drop i xs = xs ! i # drop (Suc i) xs" "i < length xs" by (simp_all add: Cons_nth_drop_Suc)
  then show ?case using Suc.hyps(1) [of "Suc i"] Suc.hyps(2) by (subst skip_digits.simps) simp
qed

lemma digits_then_is:
  assumes "i \<le> length xs"
    and "rest (i + length (takeWhile json_digit (drop i xs))) = Some (Q (dropWhile json_digit (drop i xs)))"
  shows "digits_then (Mem xs) i rest = Some (takeWhile json_digit (drop i xs) \<noteq> [] \<and> Q (dropWhile json_digit (drop i xs)))"
proof (cases "drop i xs")
  case Nil
  then show ?thesis using assms(1) by (simp add: digits_then_def)
next
  case (Cons c zs)
  then show ?thesis using assms skip_digits_is [OF assms(1)] drop_next [OF Cons] by (auto simp: digits_then_def)
qed

lemma at_char_is: "at_char (Mem xs) i P = Some (case drop i xs of [] \<Rightarrow> False | c # zs \<Rightarrow> P c)"
proof (cases "drop i xs")
  case (Cons c zs)
  then show ?thesis using drop_next [OF Cons] by (simp add: at_char_def)
qed (simp add: at_char_def)

lemma drop_run: "drop (i + length (takeWhile P (drop i xs))) xs = dropWhile P (drop i xs)"
  by (metis add.commute append_eq_conv_conj drop_drop takeWhile_dropWhile_id)

lemma all_digits: "takeWhile json_digit s \<noteq> [] \<and> dropWhile json_digit s = [] \<longleftrightarrow> digit_text s"
  by (auto simp: digit_text_def dropWhile_eq_Nil_conv list_all_iff takeWhile_eq_all_conv [THEN iffD2])

lemma valid_exponent_is:
  assumes "i \<le> length xs"
  shows "valid_exponent (Mem xs) i = Some (exponent_text (drop i xs))"
proof (cases "drop i xs")
  case Nil
  then show ?thesis using assms by (simp add: valid_exponent_def at_char_is exponent_text_def)
next
  case (Cons e zs)
  note e = drop_next [OF Cons]
  show ?thesis
  proof (cases "e \<in> {0x65, 0x45}")
    case False
    then show ?thesis using e Cons by (auto simp: valid_exponent_def at_char_is exponent_text_def)
  next
    case True
    define g where "g = (case zs of [] \<Rightarrow> False | c # _ \<Rightarrow> c = 0x2B \<or> c = 0x2D)"
    define j where "j = (if g then i + 2 else i + 1)"
    have j: "j \<le> length xs" "drop j xs = (if g then tl zs else zs)"
      using e by (auto simp: j_def g_def split: list.splits dest: drop_next)
    have "valid_exponent (Mem xs) i = digits_then (Mem xs) j (\<lambda>i. Some (i = psize (Mem xs)))"
      using True Cons e by (simp add: valid_exponent_def at_char_is g_def [symmetric] j_def)
    also have "\<dots> = Some (digit_text (drop j xs))"
    proof -
      have "j + length (takeWhile json_digit (drop j xs)) = length xs \<longleftrightarrow> dropWhile json_digit (drop j xs) = []"
        using drop_run [of j json_digit xs] j(1) length_takeWhile_le [of json_digit "drop j xs"] by (metis add_diff_inverse_nat drop_all drop_eq_Nil le_antisym length_drop nat_add_left_cancel_le not_le order_refl)
      then show ?thesis using digits_then_is [OF j(1), where rest = "\<lambda>i. Some (i = psize (Mem xs))" and Q = "\<lambda>s. s = []"] all_digits by simp
    qed
    also have "digit_text (drop j xs) \<longleftrightarrow> exponent_text (drop i xs)"
      unfolding j(2) Cons exponent_text_def using True
      by (cases zs) (auto simp: g_def digit_text_def json_digit_def)
    finally show ?thesis .
  qed
qed

text \<open>A fraction and an exponent.\<close>

definition tail_text :: "u8 list \<Rightarrow> bool" where
  "tail_text s \<longleftrightarrow> (\<exists>frac ex. s = frac @ ex \<and> fraction_text frac \<and> exponent_text ex)"

lemma valid_fraction_is:
  assumes "i \<le> length xs"
  shows "valid_fraction (Mem xs) i = Some (tail_text (drop i xs))"
proof (cases "\<exists>zs. drop i xs = 0x2E # zs")
  case True
  then obtain zs where zs: "drop i xs = 0x2E # zs" by blast
  note d = drop_next [OF zs]
  let ?rest = "dropWhile json_digit zs"
  have run: "i + 1 + length (takeWhile json_digit zs) \<le> length xs"
  proof -
    have "length xs = i + 1 + length zs" using d(1) arg_cong [OF zs, of length] by simp
    then show ?thesis using length_takeWhile_le [of json_digit zs] by simp
  qed
  have "valid_fraction (Mem xs) i = digits_then (Mem xs) (i + 1) (valid_exponent (Mem xs))"
    using zs by (simp add: valid_fraction_def at_char_is)
  also have "\<dots> = Some (takeWhile json_digit zs \<noteq> [] \<and> exponent_text ?rest)"
    using digits_then_is [of "i + 1" xs "valid_exponent (Mem xs)" exponent_text] valid_exponent_is [OF run] drop_run [of "i + 1" json_digit xs] d(1,3) by simp
  also have "(takeWhile json_digit zs \<noteq> [] \<and> exponent_text ?rest) \<longleftrightarrow> tail_text (drop i xs)"
  proof
    assume r: "takeWhile json_digit zs \<noteq> [] \<and> exponent_text ?rest"
    have "list_all json_digit (takeWhile json_digit zs)" by (auto simp: list_all_iff dest: set_takeWhileD)
    with r have "fraction_text (0x2E # takeWhile json_digit zs)" by (simp add: fraction_text_def digit_text_def)
    moreover have "0x2E # zs = (0x2E # takeWhile json_digit zs) @ ?rest" by simp
    ultimately show "tail_text (drop i xs)" using r zs unfolding tail_text_def by metis
  next
    assume "tail_text (drop i xs)"
    then obtain frac ex where s: "0x2E # zs = frac @ ex" "fraction_text frac" "exponent_text ex" using zs by (auto simp: tail_text_def)
    then have "frac \<noteq> []" by (auto simp: exponent_text_def)
    then obtain ds where ds: "zs = ds @ ex" "digit_text ds" using s by (auto simp: fraction_text_def)
    then show "takeWhile json_digit zs \<noteq> [] \<and> exponent_text ?rest"
      using run_of_digits [of ds ex] s(3) stops_simps(1) by (simp add: digit_text_def)
  qed
  finally show ?thesis .
next
  case False
  then have "valid_fraction (Mem xs) i = valid_exponent (Mem xs) i"
    by (auto simp: valid_fraction_def at_char_is split: list.splits)
  also have "\<dots> = Some (exponent_text (drop i xs))" by (rule valid_exponent_is [OF assms])
  also have "exponent_text (drop i xs) \<longleftrightarrow> tail_text (drop i xs)"
    using False by (auto simp: tail_text_def fraction_text_def)
  finally show ?thesis .
qed

lemma tail_stops: "tail_text s \<Longrightarrow> stops s"
  by (auto simp: tail_text_def) (metis append_Nil stops_simps)

text \<open>The number without its sign.\<close>

definition unsigned_text :: "u8 list \<Rightarrow> bool" where
  "unsigned_text s \<longleftrightarrow> (\<exists>int t. s = int @ t \<and> integer_text int \<and> tail_text t)"

lemma unsigned_cases:
  "unsigned_text (c # zs) \<longleftrightarrow>
     (if c = 0x30 then stops zs \<and> tail_text zs
      else json_digit c \<and> tail_text (dropWhile json_digit (c # zs)))"
proof (cases "c = 0x30")
  case True
  have "unsigned_text (c # zs) \<longleftrightarrow> tail_text zs"
  proof
    assume "unsigned_text (c # zs)"
    then show "tail_text zs" using True by (auto simp: unsigned_text_def integer_text_def digit_text_def Cons_eq_append_conv)
  next
    assume "tail_text zs"
    then show "unsigned_text (c # zs)" using True unfolding unsigned_text_def integer_text_def
      by (intro exI [of _ "[0x30]"] exI [of _ zs]) simp
  qed
  then show ?thesis using True tail_stops by auto
next
  case False
  show ?thesis
  proof (cases "json_digit c")
    case True
    have "unsigned_text (c # zs) \<longleftrightarrow> tail_text (dropWhile json_digit (c # zs))"
    proof
      assume "unsigned_text (c # zs)"
      then obtain int t where s: "c # zs = int @ t" "integer_text int" "tail_text t" by (auto simp: unsigned_text_def)
      then have "list_all json_digit int" using False by (auto simp: integer_text_def digit_text_def)
      then show "tail_text (dropWhile json_digit (c # zs))" using run_of_digits [of int t] s tail_stops by simp
    next
      assume t: "tail_text (dropWhile json_digit (c # zs))"
      have "list_all json_digit (takeWhile json_digit (c # zs))" by (auto simp only: list_all_iff dest: set_takeWhileD)
      moreover have "takeWhile json_digit (c # zs) \<noteq> []" "hd (takeWhile json_digit (c # zs)) = c" using True by simp_all
      ultimately have "integer_text (takeWhile json_digit (c # zs))" using False by (simp only: integer_text_def digit_text_def) simp
      then show "unsigned_text (c # zs)" using t takeWhile_dropWhile_id [of json_digit "c # zs"] unfolding unsigned_text_def by metis
    qed
    then show ?thesis using False True by simp
  next
    case nodigit: False
    have "\<not> unsigned_text (c # zs)"
    proof
      assume "unsigned_text (c # zs)"
      then obtain int t where "c # zs = int @ t" "integer_text int" by (auto simp: unsigned_text_def)
      then show False using nodigit False by (cases int) (auto simp: integer_text_def digit_text_def)
    qed
    then show ?thesis using False nodigit by simp
  qed
qed

lemma json_number_sign: "json_number s \<longleftrightarrow> unsigned_text s \<or> (\<exists>t. s = 0x2D # t \<and> unsigned_text t)"
  by (fastforce simp: json_number_def unsigned_text_def tail_text_def)

lemma not_zero_digit: "c \<noteq> (0x30::u8) \<Longrightarrow> c < 0x31 \<or> c > 0x39 \<longleftrightarrow> \<not> json_digit c"
proof -
  assume "c \<noteq> 0x30"
  then have "unat c \<noteq> 48" by (simp add: word_unat_eq_iff)
  then show ?thesis by (auto simp: json_digit_def word_le_nat_alt word_less_nat_alt)
qed

text \<open>\<open>valid_number\<close> accepts exactly the numbers of RFC 8259.\<close>

lemma valid_number_is: "valid_number (Mem xs) = Some (json_number xs)"
proof (cases xs)
  case Nil
  then show ?thesis by (auto simp: valid_number_def json_number_def integer_text_def digit_text_def)
next
  case (Cons d ds)
  have body: "do { c \<leftarrow> rd (Mem xs) i;
      if c = 0x30 then do { another \<leftarrow> at_char (Mem xs) (i + 1) json_digit; if another then Some False else valid_fraction (Mem xs) (i + 1) }
      else if c < 0x31 \<or> c > 0x39 then Some False
      else do { i \<leftarrow> skip_digits (Mem xs) i; valid_fraction (Mem xs) i } } = Some (unsigned_text (drop i xs))"
    if "i < length xs" for i
  proof -
    have c: "drop i xs = xs ! i # drop (Suc i) xs" using that by (simp add: Cons_nth_drop_Suc)
    define c zs where "c = xs ! i" and "zs = drop (Suc i) xs"
    note c = c [folded c_def zs_def]
    note i = drop_next [OF c]
    have run: "i + length (takeWhile json_digit (drop i xs)) \<le> length xs"
      using length_takeWhile_le [of json_digit "drop i xs"] that by simp
    show ?thesis
    proof (cases "c = 0x30")
      case True
      then show ?thesis
        using i at_char_is [of xs "i + 1" json_digit] valid_fraction_is [of "i + 1" xs]
        by (cases zs) (simp_all add: c unsigned_cases stops_def)
    next
      case False
      have range: "c < 0x31 \<or> c > 0x39 \<longleftrightarrow> \<not> json_digit c" by (rule not_zero_digit [OF False])
      show ?thesis
      proof (cases "json_digit c")
        case True
        define j where "j = i + length (takeWhile json_digit (drop i xs))"
        have j: "skip_digits (Mem xs) i = Some j" "valid_fraction (Mem xs) j = Some (tail_text (drop j xs))"
          "drop j xs = dropWhile json_digit (c # zs)"
          unfolding j_def using skip_digits_is [of i xs] that valid_fraction_is [OF run] drop_run [of i json_digit xs] c by simp_all
        have "unsigned_text (drop i xs) \<longleftrightarrow> tail_text (drop j xs)"
          unfolding c unsigned_cases if_not_P [OF False] j(3) using True by simp
        then show ?thesis using i(1,2) False True range j(1,2) by simp
      next
        case noDigit: False
        have "\<not> unsigned_text (drop i xs)" unfolding c unsigned_cases if_not_P [OF False] using noDigit by simp
        then show ?thesis using i(1,2) False noDigit range by simp
      qed
    qed
  qed
  have sign: "\<not> unsigned_text (0x2D # ds)" by (simp add: unsigned_cases json_digit_def)
  have none: "\<not> unsigned_text []" by (auto simp: unsigned_text_def integer_text_def digit_text_def)
  have first: "rd (Mem xs) 0 = Some d" "psize (Mem xs) \<noteq> 0" and nonempty: "0 < length xs" using Cons by simp_all
  show ?thesis
  proof (cases "d = 0x2D")
    case False
    then have "valid_number (Mem xs) = Some (unsigned_text (drop 0 xs))"
      unfolding body [of 0, symmetric, OF nonempty]
      using first by (simp add: valid_number_def)
    then show ?thesis using False Cons by (simp add: json_number_sign)
  next
    case True
    then have n: "json_number xs \<longleftrightarrow> unsigned_text ds" using Cons sign by (simp add: json_number_sign)
    show ?thesis
    proof (cases "ds = []")
      case True
      then show ?thesis using n none Cons \<open>d = 0x2D\<close> by (simp add: valid_number_def)
    next
      case False
      then have "1 < length xs" using Cons by simp
      then have "valid_number (Mem xs) = Some (unsigned_text (drop 1 xs))"
        unfolding body [of 1, symmetric, OF \<open>1 < length xs\<close>]
        using first True by (simp add: valid_number_def del: One_nat_def)
      then show ?thesis using n Cons by simp
    qed
  qed
qed

section \<open>Reading integers\<close>

definition digit_of :: "u8 \<Rightarrow> nat" where
  "digit_of c = unat c - 48"

definition decimal :: "nat \<Rightarrow> u8 list \<Rightarrow> nat" where
  "decimal n ds = foldl (\<lambda>n c. 10 * n + digit_of c) n ds"

lemma decimal_simps [simp]: "decimal n [] = n" "decimal n (c # ds) = decimal (10 * n + digit_of c) ds"
  "decimal n (ds @ [c]) = 10 * decimal n ds + digit_of c"
  by (simp_all add: decimal_def)

lemma decimal_grows: "n \<le> decimal n ds"
proof (induction ds arbitrary: n)
  case (Cons c ds)
  have "n \<le> 10 * n + digit_of c" by simp
  also have "\<dots> \<le> decimal (10 * n + digit_of c) ds" by (rule Cons.IH)
  finally show ?case by simp
qed simp

lemma digit_value:
  assumes "json_digit c"
  shows "unat (ucast (c - 0x30) :: u64) = digit_of c" "digit_of c \<le> 9"
proof -
  have c: "48 \<le> unat c" "unat c \<le> 57" using assms by (simp_all add: json_digit_def word_le_nat_alt)
  then have "unat (c - 0x30) = unat c - 48" using assms by (subst unat_sub) (simp_all add: json_digit_def)
  then show "unat (ucast (c - 0x30) :: u64) = digit_of c" "digit_of c \<le> 9"
    using c by (simp_all add: byte_unat digit_of_def)
qed

lemma digit_step:
  assumes "d \<le> 9" and "unat (digit :: u64) = d"
  shows "m > (0xFFFFFFFFFFFFFFFF - digit) div 10 \<longleftrightarrow> 2 ^ 64 \<le> 10 * unat m + d"
    and "\<not> 2 ^ 64 \<le> 10 * unat m + d \<Longrightarrow> unat (m * 10 + digit) = 10 * unat m + d"
proof -
  have sub: "unat (0xFFFFFFFFFFFFFFFF - digit) = 2 ^ 64 - 1 - d"
    using assms by (subst unat_sub) (simp_all add: word_le_nat_alt)
  have "m > (0xFFFFFFFFFFFFFFFF - digit) div 10 \<longleftrightarrow> (2 ^ 64 - 1 - d) div 10 < unat m"
    by (simp add: word_less_nat_alt unat_div sub)
  also have "\<dots> \<longleftrightarrow> 2 ^ 64 - 1 - d < 10 * unat m" by (simp add: div_less_iff_less_mult mult.commute)
  also have "\<dots> \<longleftrightarrow> 2 ^ 64 \<le> 10 * unat m + d" using assms(1) by auto
  finally show "m > (0xFFFFFFFFFFFFFFFF - digit) div 10 \<longleftrightarrow> 2 ^ 64 \<le> 10 * unat m + d" .
next
  assume "\<not> 2 ^ 64 \<le> 10 * unat m + d"
  then show "unat (m * 10 + digit) = 10 * unat m + d"
    using assms by (simp add: unat_word_ariths mult.commute)
qed

lemma parse_digits_is:
  "i \<le> length xs \<Longrightarrow> list_all json_digit (drop i xs) \<Longrightarrow>
     parse_digits (Mem xs) i m =
       Some (if decimal (unat m) (drop i xs) < 2 ^ 64 then Inr (of_nat (decimal (unat m) (drop i xs))) else Inl status_out_of_range)"
proof (induction "length xs - i" arbitrary: i m)
  case 0
  then have "i = length xs" by simp
  moreover have "decimal (unat m) [] < 2 ^ 64" using unsigned_less [of m] by simp
  ultimately show ?case by (subst parse_digits.simps) simp
next
  case (Suc n)
  have i: "i < length xs" using Suc.hyps(2) by simp
  define c where "c = xs ! i"
  have c: "drop i xs = c # drop (Suc i) xs" using i by (simp add: Cons_nth_drop_Suc c_def)
  then have digit: "json_digit c" and rest: "list_all json_digit (drop (Suc i) xs)" using Suc.prems(2) by simp_all
  note step = digit_step [OF digit_value(2,1) [OF digit], of m]
  show ?case
  proof (cases "2 ^ 64 \<le> 10 * unat m + digit_of c")
    case True
    have "parse_digits (Mem xs) i m = Some (Inl status_out_of_range)"
      using i digit True step(1) by (subst parse_digits.simps) (simp add: c_def)
    moreover have "\<not> decimal (unat m) (drop i xs) < 2 ^ 64"
      using True decimal_grows [of "10 * unat m + digit_of c" "drop (Suc i) xs"] c by simp
    ultimately show ?thesis by simp
  next
    case False
    have "parse_digits (Mem xs) i m = parse_digits (Mem xs) (Suc i) (m * 10 + ucast (c - 0x30))"
      using i digit False step(1) by (subst parse_digits.simps) (simp add: c_def)
    then show ?thesis using Suc.hyps(1) [of "Suc i"] Suc.hyps(2) i rest step(2) [OF False] c by simp
  qed
qed

lemma parse_digits_refuses:
  "i \<le> length xs \<Longrightarrow> \<not> list_all json_digit (drop i xs) \<Longrightarrow> \<exists>r. parse_digits (Mem xs) i m = Some (Inl r) \<and> r \<noteq> status_ok"
proof (induction "length xs - i" arbitrary: i m)
  case (Suc n)
  have i: "i < length xs" using Suc.hyps(2) by simp
  then have c: "drop i xs = xs ! i # drop (Suc i) xs" by (simp add: Cons_nth_drop_Suc)
  have IH: "\<not> list_all json_digit (drop (Suc i) xs) \<Longrightarrow> \<exists>r. parse_digits (Mem xs) (Suc i) m = Some (Inl r) \<and> r \<noteq> status_ok" for m
    using Suc.hyps(1) [of "Suc i"] Suc.hyps(2) i by simp
  show ?case using i Suc.prems(2) c IH by (subst parse_digits.simps) (auto simp: Let_def)
qed simp

text \<open>The integer a text denotes: digits, with a minus sign before them or none.\<close>

definition integer_value :: "u8 list \<Rightarrow> int option" where
  "integer_value s = (case s of
     [] \<Rightarrow> None
   | c # ds \<Rightarrow>
       if c = 0x2D then if digit_text ds then Some (- int (decimal 0 ds)) else None
       else if digit_text s then Some (int (decimal 0 s)) else None)"

text \<open>The integers a type of \<open>n\<close> bits holds.\<close>

definition fits_integer :: "bool \<Rightarrow> nat \<Rightarrow> int \<Rightarrow> bool" where
  "fits_integer is_signed n k \<longleftrightarrow> (if is_signed then - (2 ^ (n - 1)) \<le> k \<and> k < 2 ^ (n - 1) else 0 \<le> k \<and> k < 2 ^ n)"

lemma widest:
  fixes M :: u64
  assumes "1 \<le> LENGTH('w::len)" and "LENGTH('w) \<le> 64" and M: "M = ucast (- 1 :: 'w word)"
  shows "unat M = 2 ^ LENGTH('w) - 1" "unat (drop_bit 1 M) = 2 ^ (LENGTH('w) - 1) - 1" "unat (drop_bit 1 M + 1) = 2 ^ (LENGTH('w) - 1)"
proof -
  obtain k where k: "LENGTH('w) = Suc k" "k \<le> 63" using assms(1,2) by (cases "LENGTH('w)") auto
  have p: "(2::nat) ^ k \<le> 2 ^ 63" by (rule power_increasing) (use k in simp_all)
  have "unat M = unat (- 1 :: 'w word)"
  proof -
    have "unat (- 1 :: 'w word) < 2 ^ LENGTH('w)" by (rule unsigned_less)
    also have "\<dots> \<le> 2 ^ 64" by (rule power_increasing) (use assms(2) in simp_all)
    finally show ?thesis unfolding M by (simp add: unsigned_ucast_eq take_bit_nat_eq_self_iff)
  qed
  then show M1: "unat M = 2 ^ LENGTH('w) - 1" by (simp add: unsigned_minus_1_eq_mask mask_eq_exp_minus_1)
  have "drop_bit 1 M = M div 2" by (simp add: drop_bit_eq_div)
  then have "unat (drop_bit 1 M) = (2 ^ LENGTH('w) - 1) div 2" using M1 by (simp add: unat_div)
  then show d: "unat (drop_bit 1 M) = 2 ^ (LENGTH('w) - 1) - 1" using k by simp
  have "(1::nat) \<le> 2 ^ k" by simp
  then have "unat (drop_bit 1 M) + 1 = 2 ^ (LENGTH('w) - 1)" using d k(1) by simp
  moreover have "unat (drop_bit 1 M + 1) = unat (drop_bit 1 M) + 1"
    using calculation p k(1) by (simp add: unat_word_ariths)
  ultimately show "unat (drop_bit 1 M + 1) = 2 ^ (LENGTH('w) - 1)" by simp
qed

lemma narrow_magnitude: "unat (m :: u64) = d \<Longrightarrow> (ucast m :: 'w::len word) = of_nat d"
  by (metis of_nat_unat)

text \<open>What a text yields: the number, the range error or a refusal; in the last two the output is \<open>kept\<close>.\<close>

definition integer_read :: "bool \<Rightarrow> nat \<Rightarrow> u8 list \<Rightarrow> status \<Rightarrow> 'w::len word \<Rightarrow> bool \<Rightarrow> bool" where
  "integer_read is_signed n xs r v kept \<longleftrightarrow>
     (case (if is_signed \<or> xs = [] \<or> hd xs \<noteq> 0x2D then integer_value xs else None) of
        None \<Rightarrow> r \<noteq> status_ok \<and> kept
      | Some k \<Rightarrow>
          if fits_integer is_signed n k then r = status_ok \<and> v = of_int k else r = status_out_of_range \<and> kept)"

lemma parse_negative:
  assumes "8 \<le> LENGTH('w::len)" and "LENGTH('w) \<le> 64" and Cons: "xs = c # ds" and minus: "c = 0x2D"
  shows "\<exists>r v. parse_integer is_signed (Mem xs) (out :: 'w word) = Some (r, v) \<and>
    integer_read is_signed LENGTH('w) xs r v (v = out)"
proof -
  define M where "M = (ucast (- 1 :: 'w word) :: u64)"
  have n: "1 \<le> LENGTH('w)" using assms(1) by simp
  note M = widest [OF n assms(2) M_def]
  let ?half = "2 ^ (LENGTH('w) - 1) :: nat"
  have half: "2 ^ LENGTH('w) = 2 * ?half" using n by (cases "LENGTH('w)") simp_all
  have first: "rd (Mem xs) 0 = Some c" "psize (Mem xs) \<noteq> 0" using Cons by simp_all
  show ?thesis
  proof (cases "is_signed \<and> digit_text ds")
    case True
    define D where "D = decimal 0 ds"
    have k: "integer_value xs = Some (- int D)" using True minus Cons by (simp add: integer_value_def D_def)
    have digits: "parse_digits (Mem xs) 1 0 = Some (if D < 2 ^ 64 then Inr (of_nat D) else Inl status_out_of_range)"
      using parse_digits_is [of 1 xs 0] True Cons by (simp add: digit_text_def D_def)
    have one: "1 \<noteq> psize (Mem xs)" using True Cons by (simp add: digit_text_def)
    have fits: "fits_integer is_signed LENGTH('w) (- int D) \<longleftrightarrow> D \<le> ?half"
      using True by (simp add: fits_integer_def) (smt (verit) int_ops(2) of_nat_power_le_of_nat_cancel_iff of_nat_numeral of_nat_0_le_iff zero_less_power)
    show ?thesis
    proof (cases "D < 2 ^ 64")
      case small: True
      then have u: "unat (of_nat D :: u64) = D" by (simp add: unat_of_nat)
      have cmp: "of_nat D > drop_bit 1 M + 1 \<longleftrightarrow> \<not> D \<le> ?half" "of_nat D = drop_bit 1 M + 1 \<longleftrightarrow> D = ?half"
        using u M(3) by (auto simp: word_less_nat_alt word_unat_eq_iff)
      have last: "- ucast (of_nat D - 1 :: u64) - 1 = (of_int (- int D) :: 'w word)" if "D = ?half"
      proof -
        have "1 \<le> D" using that by simp
        then have "unat (of_nat D - 1 :: u64) = D - 1" using u by (simp add: unat_sub word_le_nat_alt)
        then have "(ucast (of_nat D - 1 :: u64) :: 'w word) = of_nat (D - 1)" by (rule narrow_magnitude)
        then show ?thesis using \<open>1 \<le> D\<close> by (simp add: of_nat_diff)
      qed
      have "parse_integer is_signed (Mem xs) out =
          Some (if D \<le> ?half then (status_ok, of_int (- int D)) else (status_out_of_range, out))"
        unfolding parse_integer_def Let_def M_def [symmetric]
        using first one minus True digits small cmp last narrow_magnitude [OF u, where 'w = 'w] by auto
      then show ?thesis using True k fits by (simp add: integer_read_def)
    next
      case False
      moreover have "?half \<le> 2 ^ 63" by (rule power_increasing) (use assms(2) in simp_all)
      ultimately have "\<not> D \<le> ?half" by simp
      moreover have "parse_integer is_signed (Mem xs) out = Some (status_out_of_range, out)"
        unfolding parse_integer_def Let_def using first one minus True digits False by simp
      ultimately show ?thesis using True k fits by (simp add: integer_read_def)
    qed
  next
    case False
    have "\<exists>r. parse_integer is_signed (Mem xs) out = Some (r, out) \<and> r \<noteq> status_ok"
    proof (cases "ds = [] \<or> \<not> is_signed")
      case True
      then show ?thesis unfolding parse_integer_def Let_def using first minus Cons by auto
    next
      case ok: False
      then have "\<not> list_all json_digit (drop 1 xs)" using False Cons by (simp add: digit_text_def)
      then obtain r where "parse_digits (Mem xs) 1 0 = Some (Inl r)" "r \<noteq> status_ok"
        using parse_digits_refuses [of 1 xs 0] Cons by auto
      then show ?thesis unfolding parse_integer_def Let_def using first minus ok Cons by auto
    qed
    moreover have "is_signed \<Longrightarrow> integer_value xs = None" using False minus Cons by (simp add: integer_value_def)
    ultimately show ?thesis using minus Cons by (auto simp: integer_read_def)
  qed
qed

lemma parse_plain:
  assumes "8 \<le> LENGTH('w::len)" and "LENGTH('w) \<le> 64" and Cons: "xs = c # ds" and plain: "c \<noteq> 0x2D"
  shows "\<exists>r v. parse_integer is_signed (Mem xs) (out :: 'w word) = Some (r, v) \<and>
    integer_read is_signed LENGTH('w) xs r v (v = out)"
proof -
  define M where "M = (ucast (- 1 :: 'w word) :: u64)"
  have n: "1 \<le> LENGTH('w)" using assms(1) by simp
  note M = widest [OF n assms(2) M_def]
  let ?half = "2 ^ (LENGTH('w) - 1) :: nat"
  have half: "2 ^ LENGTH('w) = 2 * ?half" using n by (cases "LENGTH('w)") simp_all
  have first: "rd (Mem xs) 0 = Some c" "psize (Mem xs) \<noteq> 0" using Cons by simp_all
  show ?thesis
  proof (cases "list_all json_digit xs")
    case True
    define D where "D = decimal 0 xs"
    have k: "integer_value xs = Some (int D)" using True plain Cons by (simp add: integer_value_def digit_text_def D_def)
    have digits: "parse_digits (Mem xs) 0 0 = Some (if D < 2 ^ 64 then Inr (of_nat D) else Inl status_out_of_range)"
      using parse_digits_is [of 0 xs 0] True by (simp add: D_def)
    have noplus: "c \<noteq> 0x2B" using True Cons by (auto simp: json_digit_def)
    have fits: "fits_integer is_signed LENGTH('w) (int D) \<longleftrightarrow> \<not> (D > 2 ^ LENGTH('w) - 1 \<or> is_signed \<and> D > ?half - 1)"
    proof -
      have "int D < 2 ^ j \<longleftrightarrow> D < 2 ^ j" for j by (metis of_nat_less_iff of_nat_numeral of_nat_power)
      then have "fits_integer is_signed LENGTH('w) (int D) \<longleftrightarrow> (if is_signed then D < ?half else D < 2 * ?half)"
        using half order_trans [of "- (2 ^ (LENGTH('w) - 1)) :: int" 0 "int D"] by (simp add: fits_integer_def)
      moreover have "0 < ?half" by simp
      ultimately show ?thesis unfolding half by (cases is_signed; simp only: simp_thms if_True if_False; linarith)
    qed
    show ?thesis
    proof (cases "D < 2 ^ 64")
      case small: True
      then have u: "unat (of_nat D :: u64) = D" by (simp add: unat_of_nat)
      have cmp: "of_nat D > M \<longleftrightarrow> D > 2 ^ LENGTH('w) - 1" "of_nat D > drop_bit 1 M \<longleftrightarrow> D > ?half - 1"
        using u M by (simp_all add: word_less_nat_alt)
      have "parse_integer is_signed (Mem xs) out =
          Some (if fits_integer is_signed LENGTH('w) (int D) then (status_ok, of_int (int D)) else (status_out_of_range, out))"
        unfolding parse_integer_def Let_def M_def [symmetric] fits
        using first plain noplus digits small cmp narrow_magnitude [OF u, where 'w = 'w] by auto
      then show ?thesis using plain Cons k by (simp add: integer_read_def)
    next
      case False
      then have "\<not> fits_integer is_signed LENGTH('w) (int D)"
        using fits power_increasing [of "LENGTH('w)" 64 "2 :: nat"] assms(2) by auto
      moreover have "parse_integer is_signed (Mem xs) out = Some (status_out_of_range, out)"
        unfolding parse_integer_def Let_def using first plain noplus digits False by simp
      ultimately show ?thesis using plain Cons k by (simp add: integer_read_def)
    qed
  next
    case False
    obtain r where "parse_digits (Mem xs) 0 0 = Some (Inl r)" "r \<noteq> status_ok"
      using parse_digits_refuses [of 0 xs 0] False by auto
    then have "\<exists>r. parse_integer is_signed (Mem xs) out = Some (r, out) \<and> r \<noteq> status_ok"
      unfolding parse_integer_def Let_def using first plain by auto
    moreover have "integer_value xs = None" using False plain Cons by (simp add: integer_value_def digit_text_def)
    ultimately show ?thesis by (auto simp: integer_read_def)
  qed
qed

text \<open>\<open>parse_integer\<close> reads exactly the decimal integers its type holds.\<close>

lemma parse_integer_exact:
  assumes "8 \<le> LENGTH('w::len)" and "LENGTH('w) \<le> 64"
  shows "\<exists>r v. parse_integer is_signed (Mem xs) (out :: 'w word) = Some (r, v) \<and>
    integer_read is_signed LENGTH('w) xs r v (v = out)"
proof (cases xs)
  case Nil
  then show ?thesis by (simp add: parse_integer_def integer_value_def integer_read_def)
next
  case (Cons c ds)
  then show ?thesis using parse_negative [OF assms Cons] parse_plain [OF assms Cons] by blast
qed

section \<open>Writing integers\<close>

lemma format_step:
  fixes m :: "'w::len word"
  assumes "8 \<le> LENGTH('w)"
  defines "d \<equiv> (0x30 + ucast (m mod 10) :: u8)"
  shows "format_digits m = (if unat m div 10 \<noteq> 0 then d # format_digits (m div 10) else [d])"
    and "unat (m div 10) = unat m div 10" and "json_digit d" and "digit_of d = unat m mod 10"
proof -
  have "(2::nat) ^ 8 \<le> 2 ^ LENGTH('w)" by (rule power_increasing) (use assms(1) in simp_all)
  then have "unat (10 :: 'w word) = 10" using unat_of_nat [of 10, where 'a = 'w] by simp
  then have q: "unat (m div 10) = unat m div 10" and r: "unat (m mod 10) = unat m mod 10"
    by (simp_all add: unat_div unat_mod)
  show "unat (m div 10) = unat m div 10" by (rule q)
  have "m div 10 \<noteq> 0 \<longleftrightarrow> unat m div 10 \<noteq> 0" using q by (metis unat_eq_zero)
  then show "format_digits m = (if unat m div 10 \<noteq> 0 then d # format_digits (m div 10) else [d])"
    by (subst format_digits.simps) (simp add: d_def Let_def)
  have "ucast (m mod 10) = (of_nat (unat m mod 10) :: u8)" using r by (metis of_nat_unat)
  then have d: "unat d = 48 + unat m mod 10" by (simp add: d_def unat_word_ariths unat_of_nat)
  then show "json_digit d" "digit_of d = unat m mod 10"
    by (simp_all add: json_digit_def word_le_nat_alt digit_of_def)
qed

lemma format_digits_are:
  fixes m :: "'w::len word"
  assumes "8 \<le> LENGTH('w)"
  shows "digit_text (format_digits m) \<and> decimal 0 (rev (format_digits m)) = unat m \<and>
    (unat m \<noteq> 0 \<longrightarrow> digit_of (last (format_digits m)) \<noteq> 0) \<and> (0 < k \<longrightarrow> unat m < 10 ^ k \<longrightarrow> length (format_digits m) \<le> k)"
proof (induction "unat m" arbitrary: m k rule: less_induct)
  case less
  note step = format_step [OF assms, of m]
  show ?case
  proof (cases "unat m div 10 \<noteq> 0")
    case True
    then have "unat (m div 10) < unat m" unfolding step(2) by simp
    then have IH: "digit_text (format_digits (m div 10))" "decimal 0 (rev (format_digits (m div 10))) = unat m div 10"
      "digit_of (last (format_digits (m div 10))) \<noteq> 0"
      "0 < j \<Longrightarrow> unat m div 10 < 10 ^ j \<Longrightarrow> length (format_digits (m div 10)) \<le> j" for j
      using less [of "m div 10"] True step(2) by simp_all
    have "length (format_digits (m div 10)) \<le> k - 1" if "0 < k" "unat m < 10 ^ k"
    proof -
      obtain j where j: "k = Suc j" using \<open>0 < k\<close> by (cases k) auto
      then have "unat m div 10 < 10 ^ j" using that(2) by (simp add: div_less_iff_less_mult mult.commute)
      moreover have "0 < j" using True \<open>unat m div 10 < 10 ^ j\<close> by (cases j) auto
      ultimately show ?thesis using IH(4) [of j] j by simp
    qed
    then show ?thesis using True step(1,3,4) IH by (auto simp: digit_text_def)
  next
    case False
    then show ?thesis using step(1,3,4) by (auto simp: digit_text_def)
  qed
qed

lemma digits_integer_text:
  fixes m :: "'w::len word"
  assumes "8 \<le> LENGTH('w)"
  shows "integer_text (rev (format_digits m))"
proof (cases "unat m = 0")
  case True
  then have "m = 0" by (simp add: unat_eq_zero)
  then show ?thesis using format_step(1) [OF assms, of m] by (simp add: integer_text_def)
next
  case False
  then show ?thesis using format_digits_are [OF assms, of m]
    by (auto simp: integer_text_def digit_text_def digit_of_def hd_rev)
qed

text \<open>The value a machine integer stands for, and its spelling.\<close>

definition value_of :: "bool \<Rightarrow> 'w::len word \<Rightarrow> int" where
  "value_of is_signed v = (if is_signed then sint v else uint v)"

definition integer_spelling :: "bool \<Rightarrow> 'w::len word \<Rightarrow> u8 list" where
  "integer_spelling is_signed v =
     (if is_signed \<and> v <s 0 then 0x2D # rev (format_digits (- v)) else rev (format_digits v))"

lemma negative_magnitude:
  fixes v :: "'w::len word"
  assumes "v <s 0"
  shows "int (unat (- v)) = - sint v"
proof -
  have "sint v < 0" using assms by (simp add: word_sless_alt)
  moreover have "- (2 ^ (LENGTH('w) - 1)) \<le> sint v" by (rule sint_ge)
  moreover have "(2 :: int) ^ (LENGTH('w) - 1) < 2 ^ LENGTH('w)" by (rule power_strict_increasing) simp_all
  ultimately have "uint (of_int (- sint v) :: 'w word) = - sint v"
    by (simp only: uint_word_of_int_eq take_bit_int_eq_self_iff) linarith
  moreover have "(of_int (- sint v) :: 'w word) = - v" by simp
  ultimately show ?thesis by simp
qed

lemma value_fits:
  fixes v :: "'w::len word"
  shows "fits_integer is_signed LENGTH('w) (value_of is_signed v)" and "of_int (value_of is_signed v) = v"
  using sint_greater_eq [of v] sint_less [of v] uint_nonnegative [of v] uint_bounded [of v]
  by (simp_all add: fits_integer_def value_of_def)

lemma integer_spelling_value:
  fixes v :: "'w::len word"
  assumes "8 \<le> LENGTH('w)"
  shows "integer_value (integer_spelling is_signed v) = Some (value_of is_signed v)"
    and "json_number (integer_spelling is_signed v)"
    and "integer_spelling is_signed v \<noteq> []"
    and "is_signed \<or> hd (integer_spelling is_signed v) \<noteq> 0x2D"
proof -
  have digits: "digit_text (rev (format_digits m))" "decimal 0 (rev (format_digits m)) = unat m" "json_digit (hd (rev (format_digits m)))" for m :: "'w word"
    using format_digits_are [OF assms, of m] by (auto simp: digit_text_def list_all_iff hd_rev)
  have head: "hd (rev (format_digits m)) \<noteq> 0x2D" for m :: "'w word" using digits(3) [of m] by (auto simp: json_digit_def)
  have plain: "integer_value (rev (format_digits m)) = Some (uint m)" for m :: "'w word"
    using digits [of m] head [of m] by (cases "rev (format_digits m)") (simp_all add: integer_value_def digit_text_def)
  have nonneg: "uint v = sint v" if "\<not> v <s 0"
  proof -
    have "0 \<le> sint v" using that by (simp add: word_sless_alt)
    moreover have "sint v < 2 ^ LENGTH('w)"
      by (rule less_le_trans [OF sint_lt]) (simp add: power_increasing)
    ultimately show ?thesis by (simp only: uint_sint take_bit_int_eq_self_iff)
  qed
  show "integer_value (integer_spelling is_signed v) = Some (value_of is_signed v)"
  proof (cases "is_signed \<and> v <s 0")
    case True
    then show ?thesis using digits [of "- v"] negative_magnitude [of v] by (simp add: integer_spelling_def integer_value_def value_of_def)
  next
    case False
    then show ?thesis using plain [of v] nonneg by (auto simp: integer_spelling_def value_of_def)
  qed
  show "json_number (integer_spelling is_signed v)"
    using digits_integer_text [OF assms, of v] digits_integer_text [OF assms, of "- v"]
    by (auto simp: json_number_def integer_spelling_def fraction_text_def exponent_text_def)
  show "integer_spelling is_signed v \<noteq> []" "is_signed \<or> hd (integer_spelling is_signed v) \<noteq> 0x2D"
    using digits(1) [of v] head [of v] by (auto simp: integer_spelling_def digit_text_def)
qed

lemma spelling_length:
  fixes v :: "'w::len word"
  assumes "8 \<le> LENGTH('w)" and "LENGTH('w) \<le> 64"
  shows "length (integer_spelling is_signed v) \<le> 20" and "length (format_digits (m :: 'w word)) \<le> 20"
proof -
  have p: "(2::nat) ^ LENGTH('w) \<le> 2 ^ 64" by (rule power_increasing) (use assms(2) in simp_all)
  have all: "length (format_digits m) \<le> 20" for m :: "'w word"
  proof -
    have "unat m < 2 ^ LENGTH('w)" by (rule unsigned_less)
    also note p
    finally have "unat m < 10 ^ 20" by simp
    then show ?thesis using format_digits_are [OF assms(1), of m 20] by simp
  qed
  then show "length (format_digits m) \<le> 20" .
  have "length (format_digits (- v)) \<le> 19" if "v <s 0"
  proof -
    have "int (unat (- v)) \<le> 2 ^ (LENGTH('w) - 1)" using negative_magnitude [OF that] sint_ge [of v] by simp
    also have "\<dots> \<le> 2 ^ 63" by (rule power_increasing) (use assms(2) in simp_all)
    finally have "unat (- v) \<le> 2 ^ 63" by (metis of_nat_le_iff of_nat_numeral of_nat_power)
    then have "unat (- v) < 10 ^ 19" by simp
    then show ?thesis using format_digits_are [OF assms(1), of "- v" 19] by simp
  qed
  then show "length (integer_spelling is_signed v) \<le> 20" using all [of v] by (auto simp: integer_spelling_def)
qed

lemma format_integer_writes:
  fixes v :: "'w::len word" and is_signed :: bool
  assumes "8 \<le> LENGTH('w)" and "LENGTH('w) \<le> 64" and "str_holds N out t"
  defines "w \<equiv> integer_spelling is_signed v"
  shows "\<exists>out'. format_integer is_signed v out = Some (if length w \<le> N then status_ok else status_full, out') \<and>
    str_holds N out' (take N w)"
proof -
  define minus :: "u8 list" where "minus = (if is_signed \<and> v <s 0 then [0x2D] else [])"
  define ds where "ds = format_digits (if is_signed \<and> v <s 0 then - v else v)"
  have w: "w = minus @ rev ds" by (simp add: w_def minus_def ds_def integer_spelling_def)
  obtain s0 where s0: "str_clear out = Some s0" "str_holds N s0 []" using clear_holds [OF holds_sizes(5) [OF assms(3)]] by blast
  obtain s1 where s1: "push_all minus s0 = Some (length minus \<le> N, s1)" "str_holds N s1 (take N minus)"
    using push_all_holds [OF s0(2), of minus] by auto
  have "length ds \<le> 20" unfolding ds_def by (rule spelling_length(2) [OF assms(1,2)])
  then have ds: "\<not> 32 < length ds" by simp
  have magnitude: "- (v + 1) + 1 = - v" by simp
  have run: "format_integer is_signed v out = do {
       (ok, output) \<leftarrow> push_all minus s0;
       if \<not> ok then Some (status_full, output)
       else do { (ok, output) \<leftarrow> push_all (rev ds) output; Some (if ok then status_ok else status_full, output) } }"
    using ds s0(1) unfolding format_integer_def Let_def magnitude minus_def ds_def by simp
  show ?thesis
  proof (cases "length minus \<le> N")
    case True
    then obtain s2 where "push_all (rev ds) s1 = Some (length minus + length (rev ds) \<le> N, s2)" "str_holds N s2 (take N (minus @ rev ds))"
      using push_all_holds [OF s1(2), of "rev ds"] by auto
    then show ?thesis using True run s1(1) w by simp
  next
    case False
    then show ?thesis using run s1 w by simp
  qed
qed

text \<open>C37: An integer of any width is written as a JSON number of at most 20 characters, and reading it back yields it.\<close>

theorem json_integers_roundtrip:
  fixes v :: "'w::len word"
  assumes "8 \<le> LENGTH('w)" and "LENGTH('w) \<le> 64" and "str_holds N out t" and "20 \<le> N"
  shows "\<exists>out' w. format_integer is_signed v out = Some (status_ok, out') \<and> str_holds N out' w \<and>
    valid_number (Mem w) = Some True \<and> parse_integer is_signed (Mem w) other = Some (status_ok, v)"
proof -
  let ?w = "integer_spelling is_signed v"
  note spelled = integer_spelling_value [OF assms(1), of is_signed v]
  have short: "length ?w \<le> N" using spelling_length(1) [OF assms(1,2)] assms(4) by (rule order_trans)
  then obtain out' where out: "format_integer is_signed v out = Some (status_ok, out')" "str_holds N out' ?w"
    using format_integer_writes [OF assms(1-3), where v = v and is_signed = is_signed] by auto
  have "valid_number (Mem ?w) = Some True" unfolding valid_number_is using spelled(2) by simp
  moreover have "parse_integer is_signed (Mem ?w) other = Some (status_ok, v)"
    using parse_integer_exact [OF assms(1,2), of is_signed "?w" other] spelled value_fits(1) [of is_signed v] value_fits(2) [of is_signed v]
    by (auto simp: integer_read_def simp del: of_int_sint of_int_uint)
  ultimately show ?thesis using out by blast
qed

lemma json_integers_roundtrip_witness:
  "\<exists>out' w. format_integer True (- 128 :: 8 word) \<lparr>str_data = replicate 33 0, str_size = 0\<rparr> = Some (status_ok, out') \<and> str_holds 32 out' w \<and>
    valid_number (Mem w) = Some True \<and> parse_integer True (Mem w) (0 :: 8 word) = Some (status_ok, - 128)"
  by (rule json_integers_roundtrip [where t = "[]"])
    (auto simp: str_holds_def intro!: exI [of _ "replicate 32 0"] simp flip: replicate_Suc)

end
