(* ===== verification/JsonDoc.thy ===== *)
theory JsonDoc
  imports JsonNumber
begin

text \<open>
  The document of \<open>castle_ext/serialization/json.hpp\<close>: nodes in an array, linked by handles, with their keys and
  scalar texts in one byte arena.  A handle is an index or \<open>None\<close>, which is \<open>npos\<close>.  \<open>represents\<close> relates a
  document to the list of its nodes as a caller sees them, one \<open>entry\<close> per node.
\<close>

section \<open>Data\<close>

type_synonym node_id = "nat option"

record json_node =
  jn_kind :: json_type
  jn_parent :: node_id
  jn_first_child :: node_id
  jn_last_child :: node_id
  jn_next_sibling :: node_id
  jn_key_offset :: nat
  jn_key_size :: nat
  jn_value_offset :: nat
  jn_value_size :: nat

definition new_node :: json_node where
  "new_node = \<lparr>jn_kind = null_value, jn_parent = None, jn_first_child = None, jn_last_child = None, jn_next_sibling = None,
     jn_key_offset = 0, jn_key_size = 0, jn_value_offset = 0, jn_value_size = 0\<rparr>"

record json_doc =
  jd_nodes :: "json_node list"
  jd_count :: nat
  jd_storage :: "u8 list"
  jd_used :: nat

definition json_document :: "nat \<Rightarrow> u8 list \<Rightarrow> json_doc" where
  "json_document max_nodes bytes =
     \<lparr>jd_nodes = replicate max_nodes new_node, jd_count = 0, jd_storage = bytes, jd_used = 0\<rparr>"

definition json_clear :: "json_doc \<Rightarrow> json_doc" where
  "json_clear d = d\<lparr>jd_count := 0, jd_used := 0\<rparr>"

section \<open>Reading nodes\<close>

definition json_valid :: "json_doc \<Rightarrow> node_id \<Rightarrow> bool" where
  "json_valid d i \<longleftrightarrow> (case i of None \<Rightarrow> False | Some i \<Rightarrow> i < jd_count d)"

text \<open>The array access \<open>nodes_[id]\<close>.\<close>

definition node_at :: "json_doc \<Rightarrow> node_id \<Rightarrow> json_node option" where
  "node_at d i = (case i of None \<Rightarrow> None | Some i \<Rightarrow> if i < length (jd_nodes d) then Some (jd_nodes d ! i) else None)"

definition json_root :: "json_doc \<Rightarrow> node_id" where
  "json_root d = (if jd_count d = 0 then None else Some 0)"

definition json_kind :: "json_doc \<Rightarrow> node_id \<Rightarrow> json_type option" where
  "json_kind d i = (if json_valid d i then do { n \<leftarrow> node_at d i; Some (jn_kind n) } else Some null_value)"

definition json_parent :: "json_doc \<Rightarrow> node_id \<Rightarrow> node_id option" where
  "json_parent d i = (if json_valid d i then do { n \<leftarrow> node_at d i; Some (jn_parent n) } else Some None)"

definition json_first_child :: "json_doc \<Rightarrow> node_id \<Rightarrow> node_id option" where
  "json_first_child d i = (if json_valid d i then do { n \<leftarrow> node_at d i; Some (jn_first_child n) } else Some None)"

definition json_next_sibling :: "json_doc \<Rightarrow> node_id \<Rightarrow> node_id option" where
  "json_next_sibling d i = (if json_valid d i then do { n \<leftarrow> node_at d i; Some (jn_next_sibling n) } else Some None)"

definition json_view :: "json_doc \<Rightarrow> nat \<Rightarrow> nat \<Rightarrow> u8 ptr option" where
  "json_view d offset n =
     (if n = 0 then Some (Null 0)
      else if offset + n \<le> length (jd_storage d) then Some (Mem (take n (drop offset (jd_storage d)))) else None)"

definition json_key :: "json_doc \<Rightarrow> node_id \<Rightarrow> u8 ptr option" where
  "json_key d i = do { n \<leftarrow> node_at d i; json_view d (jn_key_offset n) (jn_key_size n) }"

definition json_scalar :: "json_doc \<Rightarrow> node_id \<Rightarrow> u8 ptr option" where
  "json_scalar d i = do { n \<leftarrow> node_at d i; json_view d (jn_value_offset n) (jn_value_size n) }"

definition json_string :: "json_doc \<Rightarrow> node_id \<Rightarrow> u8 ptr option" where
  "json_string d i = do { k \<leftarrow> json_kind d i; if k = string_value then json_scalar d i else Some (Null 0) }"

function text_equal_loop :: "u8 ptr \<Rightarrow> u8 ptr \<Rightarrow> nat \<Rightarrow> bool option" where
  "text_equal_loop a b i =
     (if i < psize a then do {
        x \<leftarrow> rd a i;
        y \<leftarrow> rd b i;
        if x \<noteq> y then Some False else text_equal_loop a b (i + 1) }
      else Some True)"
  by pat_completeness auto
termination by (relation "measure (\<lambda>(a, b, i). psize a - i)") auto

declare text_equal_loop.simps [simp del]

definition text_equal :: "u8 ptr \<Rightarrow> u8 ptr \<Rightarrow> bool option" where
  "text_equal a b = (if psize a \<noteq> psize b then Some False else text_equal_loop a b 0)"

text \<open>The walks along the siblings; in a document that is not well formed they need not end.\<close>

partial_function (option) json_find_loop :: "json_doc \<Rightarrow> u8 ptr \<Rightarrow> node_id \<Rightarrow> node_id option" where
  "json_find_loop d name child =
     (if child = None then Some None
      else do {
        k \<leftarrow> json_key d child;
        found \<leftarrow> text_equal k name;
        if found then Some child
        else do { next \<leftarrow> json_next_sibling d child; json_find_loop d name next } })"

definition json_find :: "json_doc \<Rightarrow> node_id \<Rightarrow> u8 ptr \<Rightarrow> node_id option" where
  "json_find d object name = do {
     k \<leftarrow> json_kind d object;
     if \<not> json_valid d object \<or> k \<noteq> object_value then Some None
     else do { child \<leftarrow> json_first_child d object; json_find_loop d name child } }"

partial_function (option) json_at_loop :: "json_doc \<Rightarrow> nat \<Rightarrow> nat \<Rightarrow> node_id \<Rightarrow> node_id option" where
  "json_at_loop d index i child =
     (if child = None then Some None
      else if i = index then Some child
      else do { next \<leftarrow> json_next_sibling d child; json_at_loop d index (i + 1) next })"

definition json_at :: "json_doc \<Rightarrow> node_id \<Rightarrow> nat \<Rightarrow> node_id option" where
  "json_at d array index = do {
     k \<leftarrow> json_kind d array;
     if \<not> json_valid d array \<or> k \<noteq> array_value then Some None
     else do { child \<leftarrow> json_first_child d array; json_at_loop d index 0 child } }"

definition json_get_integer :: "bool \<Rightarrow> json_doc \<Rightarrow> node_id \<Rightarrow> 'w::len word \<Rightarrow> (status \<times> 'w word) option" where
  "json_get_integer is_signed d i output = do {
     k \<leftarrow> json_kind d i;
     if \<not> json_valid d i \<or> k \<noteq> number_value then Some (status_invalid_argument, output)
     else do { t \<leftarrow> json_scalar d i; parse_integer is_signed t output } }"

definition true_text :: "u8 list" where "true_text = [0x74, 0x72, 0x75, 0x65]"
definition false_text :: "u8 list" where "false_text = [0x66, 0x61, 0x6C, 0x73, 0x65]"
definition null_text :: "u8 list" where "null_text = [0x6E, 0x75, 0x6C, 0x6C]"

definition json_get_bool :: "json_doc \<Rightarrow> node_id \<Rightarrow> bool \<Rightarrow> (status \<times> bool) option" where
  "json_get_bool d i output = do {
     k \<leftarrow> json_kind d i;
     if \<not> json_valid d i \<or> k \<noteq> boolean_value then Some (status_invalid_argument, output)
     else do { t \<leftarrow> json_scalar d i; e \<leftarrow> text_equal t (Mem true_text); Some (status_ok, e) } }"

definition json_get_string :: "json_doc \<Rightarrow> node_id \<Rightarrow> (status \<times> u8 ptr) option" where
  "json_get_string d i = do {
     k \<leftarrow> json_kind d i;
     if \<not> json_valid d i \<or> k \<noteq> string_value then Some (status_invalid_argument, Null 0)
     else do { t \<leftarrow> json_scalar d i; Some (status_ok, t) } }"

section \<open>Adding nodes\<close>

text \<open>\<open>store\<close>: the offset and the size of the copy.\<close>

function store_loop :: "u8 ptr \<Rightarrow> nat \<Rightarrow> json_doc \<Rightarrow> json_doc option" where
  "store_loop v i d =
     (if i < psize v then do {
        c \<leftarrow> rd v i;
        if jd_used d + i < length (jd_storage d) then store_loop v (i + 1) (d\<lparr>jd_storage := (jd_storage d)[jd_used d + i := c]\<rparr>)
        else None }
      else Some d)"
  by pat_completeness auto
termination by (relation "measure (\<lambda>(v, i, d). psize v - i)") auto

declare store_loop.simps [simp del]

definition json_store :: "u8 ptr \<Rightarrow> json_doc \<Rightarrow> (status \<times> nat \<times> nat \<times> json_doc) option" where
  "json_store v d =
     (if psize v > length (jd_storage d) - jd_used d then Some (status_full, 0, 0, d)
      else do {
        d' \<leftarrow> store_loop v 0 d;
        Some (status_ok, jd_used d, psize v, d'\<lparr>jd_used := jd_used d' + psize v\<rparr>) })"

definition set_node :: "nat \<Rightarrow> json_node \<Rightarrow> json_doc \<Rightarrow> json_doc option" where
  "set_node i n d = (if i < length (jd_nodes d) then Some (d\<lparr>jd_nodes := (jd_nodes d)[i := n]\<rparr>) else None)"

text \<open>The new node becomes the last child of its parent.\<close>

definition link_child :: "nat \<Rightarrow> nat \<Rightarrow> json_doc \<Rightarrow> json_doc option" where
  "link_child p out d = do {
     parent \<leftarrow> node_at d (Some p);
     d \<leftarrow> (if jn_first_child parent = None then set_node p (parent\<lparr>jn_first_child := Some out\<rparr>) d
           else do {
             l \<leftarrow> jn_last_child parent;
             last \<leftarrow> node_at d (Some l);
             set_node l (last\<lparr>jn_next_sibling := Some out\<rparr>) d });
     parent \<leftarrow> node_at d (Some p);
     set_node p (parent\<lparr>jn_last_child := Some out\<rparr>) d }"

definition add_node :: "node_id \<Rightarrow> json_type \<Rightarrow> node_id \<Rightarrow> u8 ptr \<Rightarrow> u8 ptr \<Rightarrow> json_doc \<Rightarrow> (status \<times> node_id \<times> json_doc) option" where
  "add_node out k parent key v d =
     (if parent \<noteq> None \<and> \<not> json_valid d parent then Some (status_invalid_argument, out, d)
      else do {
        let v = (if k = object_value \<or> k = array_value then Null 0 else v);
        pk \<leftarrow> json_kind d parent;
        if parent = None \<and> jd_count d \<noteq> 0 then Some (status_already_exists, out, d)
        else if parent \<noteq> None \<and> pk = object_value \<and> psize key = 0 then Some (status_invalid_argument, out, d)
        else if parent \<noteq> None \<and> pk = array_value \<and> psize key \<noteq> 0 then Some (status_invalid_argument, out, d)
        else if jd_count d = length (jd_nodes d) then Some (status_full, out, d)
        else do {
          (s, ko, ks, d) \<leftarrow> json_store key d;
          if s \<noteq> status_ok then Some (s, out, d)
          else do {
            (s, vo, vs, d) \<leftarrow> json_store v d;
            if s \<noteq> status_ok then Some (s, out, d\<lparr>jd_used := jd_used d - ks\<rparr>)
            else do {
              let i = jd_count d;
              let candidate = new_node\<lparr>jn_kind := k, jn_parent := parent, jn_key_offset := ko, jn_key_size := ks,
                jn_value_offset := vo, jn_value_size := vs\<rparr>;
              d \<leftarrow> set_node i candidate (d\<lparr>jd_count := i + 1\<rparr>);
              d \<leftarrow> (case parent of None \<Rightarrow> Some d | Some p \<Rightarrow> link_child p i d);
              Some (status_ok, Some i, d) } } } })"

definition set_null :: "node_id \<Rightarrow> node_id \<Rightarrow> u8 ptr \<Rightarrow> json_doc \<Rightarrow> (status \<times> node_id \<times> json_doc) option" where
  "set_null out parent key d = add_node out null_value parent key (Null 0) d"

definition set_bool :: "node_id \<Rightarrow> bool \<Rightarrow> node_id \<Rightarrow> u8 ptr \<Rightarrow> json_doc \<Rightarrow> (status \<times> node_id \<times> json_doc) option" where
  "set_bool out v parent key d = add_node out boolean_value parent key (Mem (if v then true_text else false_text)) d"

definition set_string :: "node_id \<Rightarrow> u8 ptr \<Rightarrow> node_id \<Rightarrow> u8 ptr \<Rightarrow> json_doc \<Rightarrow> (status \<times> node_id \<times> json_doc) option" where
  "set_string out v parent key d = add_node out string_value parent key v d"

definition set_number :: "node_id \<Rightarrow> u8 ptr \<Rightarrow> node_id \<Rightarrow> u8 ptr \<Rightarrow> json_doc \<Rightarrow> (status \<times> node_id \<times> json_doc) option" where
  "set_number out v parent key d = do {
     ok \<leftarrow> valid_number v;
     if \<not> ok then Some (status_invalid_argument, out, d) else add_node out number_value parent key v d }"

definition make_object :: "node_id \<Rightarrow> node_id \<Rightarrow> u8 ptr \<Rightarrow> json_doc \<Rightarrow> (status \<times> node_id \<times> json_doc) option" where
  "make_object out parent key d = add_node out object_value parent key (Null 0) d"

definition make_array :: "node_id \<Rightarrow> node_id \<Rightarrow> u8 ptr \<Rightarrow> json_doc \<Rightarrow> (status \<times> node_id \<times> json_doc) option" where
  "make_array out parent key d = add_node out array_value parent key (Null 0) d"

definition set_integer :: "bool \<Rightarrow> node_id \<Rightarrow> 'w::len word \<Rightarrow> node_id \<Rightarrow> u8 ptr \<Rightarrow> json_doc \<Rightarrow> (status \<times> node_id \<times> json_doc) option" where
  "set_integer is_signed out v parent key d = do {
     encoded \<leftarrow> str_init (replicate 33 0);
     (s, encoded) \<leftarrow> format_integer is_signed v encoded;
     if s \<noteq> status_ok then Some (s, out, d) else set_number out (str_view encoded) parent key d }"

definition json_append :: "node_id \<Rightarrow> node_id \<Rightarrow> json_type \<Rightarrow> u8 ptr \<Rightarrow> u8 ptr \<Rightarrow> json_doc \<Rightarrow> (status \<times> node_id \<times> json_doc) option" where
  "json_append parent out k v key d = do {
     pk \<leftarrow> json_kind d parent;
     if \<not> json_valid d parent \<or> (pk \<noteq> array_value \<and> pk \<noteq> object_value) then Some (status_invalid_argument, out, d)
     else if pk = object_value \<and> psize key = 0 then Some (status_invalid_argument, out, d)
     else add_node out k parent key v d }"

section \<open>What a document represents\<close>

record json_entry =
  en_kind :: json_type
  en_parent :: node_id
  en_key :: "u8 list"
  en_text :: "u8 list"

text \<open>The children of a node, in the order they were added.\<close>

definition children :: "json_entry list \<Rightarrow> nat \<Rightarrow> nat list" where
  "children es i = filter (\<lambda>j. en_parent (es ! j) = Some i) [0..<length es]"

definition first_handle :: "nat list \<Rightarrow> node_id" where
  "first_handle xs = (case xs of [] \<Rightarrow> None | x # _ \<Rightarrow> Some x)"

definition last_of :: "nat list \<Rightarrow> node_id" where
  "last_of xs = (if xs = [] then None else Some (last xs))"

definition next_of :: "json_entry list \<Rightarrow> nat \<Rightarrow> node_id" where
  "next_of es i = (case en_parent (es ! i) of None \<Rightarrow> None | Some p \<Rightarrow> first_handle (filter (\<lambda>j. i < j) (children es p)))"

definition stored :: "json_doc \<Rightarrow> nat \<Rightarrow> nat \<Rightarrow> u8 list \<Rightarrow> bool" where
  "stored d offset n t \<longleftrightarrow> n = length t \<and> offset + n \<le> jd_used d \<and> take n (drop offset (jd_storage d)) = t"

definition node_matches :: "json_doc \<Rightarrow> json_entry list \<Rightarrow> nat \<Rightarrow> bool" where
  "node_matches d es i \<longleftrightarrow> (let n = jd_nodes d ! i; e = es ! i in
     jn_kind n = en_kind e \<and> jn_parent n = en_parent e \<and> jn_first_child n = first_handle (children es i) \<and>
     jn_last_child n = last_of (children es i) \<and> jn_next_sibling n = next_of es i \<and>
     stored d (jn_key_offset n) (jn_key_size n) (en_key e) \<and> stored d (jn_value_offset n) (jn_value_size n) (en_text e))"

text \<open>The first node is the root, every other one follows its parent.\<close>

definition linked :: "json_entry list \<Rightarrow> bool" where
  "linked es \<longleftrightarrow> (\<forall>i<length es. case en_parent (es ! i) of None \<Rightarrow> i = 0 | Some p \<Rightarrow> p < i)"

definition entry_bytes :: "json_entry \<Rightarrow> nat" where
  "entry_bytes e = length (en_key e) + length (en_text e)"

definition text_bytes :: "json_entry list \<Rightarrow> nat" where
  "text_bytes es = sum_list (map entry_bytes es)"

definition represents :: "nat \<Rightarrow> nat \<Rightarrow> json_doc \<Rightarrow> json_entry list \<Rightarrow> bool" where
  "represents M S d es \<longleftrightarrow> length (jd_nodes d) = M \<and> length (jd_storage d) = S \<and> jd_count d = length es \<and> length es \<le> M \<and>
     jd_used d = text_bytes es \<and> jd_used d \<le> S \<and> linked es \<and> (\<forall>i<length es. node_matches d es i)"

lemma text_bytes_append [simp]: "text_bytes [] = 0" "text_bytes (e # es) = entry_bytes e + text_bytes es" "text_bytes (es @ fs) = text_bytes es + text_bytes fs"
  by (simp_all add: text_bytes_def)

lemma children_append: "children (es @ [e]) i = children es i @ (if en_parent e = Some i then [length es] else [])"
  by (auto simp: children_def nth_append intro: filter_cong)

lemma child_iff: "j \<in> set (children es i) \<longleftrightarrow> j < length es \<and> en_parent (es ! j) = Some i"
  by (auto simp: children_def)

lemma children_sorted: "sorted_wrt (<) (children es i)"
  unfolding children_def by (rule sorted_wrt_filter) simp

lemma children_new: "linked es \<Longrightarrow> length es \<le> i \<Longrightarrow> children es i = []"
  by (fastforce simp: linked_def children_def filter_empty_conv)

lemma after_last:
  assumes "sorted_wrt (<) xs" and "(i::nat) \<in> set xs"
  shows "filter (\<lambda>j. i < j) xs = [] \<longleftrightarrow> last_of xs = Some i"
  using assms
proof (induction xs)
  case (Cons x xs)
  show ?case
  proof (cases "i = x")
    case True
    then show ?thesis using Cons.prems(1) by (auto simp: last_of_def filter_empty_conv)
  next
    case False
    then have "i \<in> set xs" "x < i" using Cons.prems by auto
    then show ?thesis using Cons by (auto simp: last_of_def)
  qed
qed simp

lemma first_handle_simps [simp]: "first_handle [] = None" "first_handle (x # xs) = Some x"
  by (simp_all add: first_handle_def)

lemma first_handle_append: "first_handle (xs @ ys) = (case first_handle xs of None \<Rightarrow> first_handle ys | Some x \<Rightarrow> Some x)"
  by (cases xs) (simp_all add: first_handle_def)

lemma first_handle_None: "first_handle xs = None \<longleftrightarrow> xs = []"
  by (cases xs) (simp_all add: first_handle_def)

lemma next_of_append:
  assumes "i < length es" and "linked es"
  shows "next_of (es @ [e]) i =
    (case en_parent e of None \<Rightarrow> next_of es i | Some p \<Rightarrow> if last_of (children es p) = Some i then Some (length es) else next_of es i)"
proof (cases "en_parent (es ! i)")
  case None
  then have "\<not> last_of (children es p) = Some i" for p
    using child_iff [of i es p] last_in_set [of "children es p"] by (auto simp: last_of_def)
  then show ?thesis using None assms(1) by (simp add: next_of_def nth_append split: option.splits)
next
  case (Some q)
  have i: "i \<in> set (children es q)" using Some assms(1) by (simp add: child_iff)
  have last: "last_of (children es p) = Some i \<Longrightarrow> p = q" for p
    using Some child_iff [of i es p] last_in_set [of "children es p"] by (auto simp: last_of_def split: if_splits)
  show ?thesis
  proof (cases "en_parent e = Some q")
    case True
    then have "next_of (es @ [e]) i = (case next_of es i of None \<Rightarrow> Some (length es) | Some x \<Rightarrow> Some x)"
      using Some assms(1) by (simp add: next_of_def nth_append children_append first_handle_append split: option.split)
    moreover have "next_of es i = None \<longleftrightarrow> last_of (children es q) = Some i"
      using Some after_last [OF children_sorted i] by (simp add: next_of_def first_handle_None)
    ultimately show ?thesis using True by (auto split: option.splits)
  next
    case False
    then have "next_of (es @ [e]) i = next_of es i" using Some assms(1) by (simp add: next_of_def nth_append children_append)
    moreover have "last_of (children es p) \<noteq> Some i" if "en_parent e = Some p" for p using False last [of p] that by auto
    ultimately show ?thesis by (auto split: option.splits)
  qed
qed

section \<open>The operations on what a document represents\<close>

lemma store_loop_is:
  assumes "view_ok v" and "jd_used d + psize v \<le> length (jd_storage d)"
  shows "i \<le> psize v \<Longrightarrow> length st = length (jd_storage d) \<Longrightarrow>
    store_loop v i (d\<lparr>jd_storage := st\<rparr>) =
      Some (d\<lparr>jd_storage := take (jd_used d + i) st @ drop i (view_text v) @ drop (jd_used d + psize v) st\<rparr>)"
proof (induction "psize v - i" arbitrary: i st)
  case 0
  then have "i = psize v" by simp
  then show ?case using assms(1) by (subst store_loop.simps) (simp add: psize_view)
next
  case (Suc n)
  let ?u = "jd_used d + i" and ?c = "view_text v ! i"
  have i: "i < psize v" using Suc.hyps(2) by simp
  then have c: "drop i (view_text v) = ?c # drop (Suc i) (view_text v)" using assms(1) by (simp add: Cons_nth_drop_Suc psize_view)
  have u: "?u < length st" using assms(2) i Suc.prems(2) by simp
  have "store_loop v i (d\<lparr>jd_storage := st\<rparr>) = store_loop v (Suc i) (d\<lparr>jd_storage := st[?u := ?c]\<rparr>)"
    using i u rd_view [OF assms(1) i] by (subst store_loop.simps) simp
  also have "\<dots> = Some (d\<lparr>jd_storage := take (Suc ?u) (st[?u := ?c]) @ drop (Suc i) (view_text v) @ drop (jd_used d + psize v) (st[?u := ?c])\<rparr>)"
    using Suc.hyps(1) [of "Suc i" "st[?u := ?c]"] Suc.hyps(2) Suc.prems(2) i by simp
  also have "take (Suc ?u) (st[?u := ?c]) = take ?u st @ [?c]" using u by (simp add: take_Suc_conv_app_nth)
  also have "drop (jd_used d + psize v) (st[?u := ?c]) = drop (jd_used d + psize v) st" using i by simp
  finally show ?case by (simp add: c)
qed

lemma store_is:
  assumes "view_ok v" and "jd_used d \<le> length (jd_storage d)"
  shows "json_store v d =
    (if jd_used d + length (view_text v) \<le> length (jd_storage d)
     then Some (status_ok, jd_used d, length (view_text v),
       d\<lparr>jd_storage := take (jd_used d) (jd_storage d) @ view_text v @ drop (jd_used d + length (view_text v)) (jd_storage d),
         jd_used := jd_used d + length (view_text v)\<rparr>)
     else Some (status_full, 0, 0, d))"
  using store_loop_is [where d = d, OF assms(1), where i = 0 and st = "jd_storage d"] assms
  by (auto simp: json_store_def psize_view)

text \<open>Linking changes three links.\<close>

lemma link_child_is:
  assumes "p < length ns"
    and "jn_first_child (ns ! p) \<noteq> None \<Longrightarrow> \<exists>l. jn_last_child (ns ! p) = Some l \<and> l < length ns \<and> l \<noteq> p"
  shows "\<exists>ns'. link_child p out (d\<lparr>jd_nodes := ns\<rparr>) = Some (d\<lparr>jd_nodes := ns'\<rparr>) \<and> length ns' = length ns \<and>
    (\<forall>j<length ns. ns' ! j =
       (if j = p then (ns ! p)\<lparr>jn_first_child := (case jn_first_child (ns ! p) of None \<Rightarrow> Some out | Some c \<Rightarrow> Some c), jn_last_child := Some out\<rparr>
        else if jn_first_child (ns ! p) \<noteq> None \<and> jn_last_child (ns ! p) = Some j then (ns ! j)\<lparr>jn_next_sibling := Some out\<rparr>
        else ns ! j))"
proof (cases "jn_first_child (ns ! p)")
  case None
  then show ?thesis using assms(1) by (auto simp: link_child_def node_at_def set_node_def)
next
  case (Some c)
  then obtain l where l: "jn_last_child (ns ! p) = Some l" "l < length ns" "l \<noteq> p" using assms(2) by auto
  then show ?thesis using assms(1) Some by (auto simp: link_child_def node_at_def set_node_def)
qed

definition new_entry :: "json_type \<Rightarrow> node_id \<Rightarrow> u8 ptr \<Rightarrow> u8 ptr \<Rightarrow> json_entry" where
  "new_entry k parent key v =
     \<lparr>en_kind = k, en_parent = parent, en_key = view_text key,
      en_text = (if k = object_value \<or> k = array_value then [] else view_text v)\<rparr>"

text \<open>The verdict on adding an entry to a document of \<open>M\<close> nodes and \<open>S\<close> bytes.\<close>

definition add_status :: "nat \<Rightarrow> nat \<Rightarrow> json_entry list \<Rightarrow> json_entry \<Rightarrow> status" where
  "add_status M S es e =
     (case en_parent e of
        None \<Rightarrow> if es \<noteq> [] then status_already_exists else if M = 0 \<or> text_bytes es + entry_bytes e > S then status_full else status_ok
      | Some p \<Rightarrow>
          if length es \<le> p then status_invalid_argument
          else if en_kind (es ! p) = object_value \<and> en_key e = [] then status_invalid_argument
          else if en_kind (es ! p) = array_value \<and> en_key e \<noteq> [] then status_invalid_argument
          else if length es = M \<or> text_bytes es + entry_bytes e > S then status_full
          else status_ok)"

lemma stored_grows:
  assumes "stored d o1 n t" and "take (jd_used d) (jd_storage d') = take (jd_used d) (jd_storage d)" and "jd_used d \<le> jd_used d'"
  shows "stored d' o1 n t"
proof -
  have cut: "take n (drop o1 st) = drop o1 (take (o1 + n) (take (jd_used d) st))" for st :: "u8 list"
    using assms(1) by (simp add: stored_def take_drop min_absorb1 add.commute)
  have "take n (drop o1 (jd_storage d')) = take n (drop o1 (jd_storage d))"
    unfolding cut assms(2) by (rule refl)
  then show ?thesis using assms(1,3) by (auto simp: stored_def)
qed

lemma represents_kind:
  assumes "represents M S d es"
  shows "json_valid d i \<longleftrightarrow> (case i of None \<Rightarrow> False | Some i \<Rightarrow> i < length es)"
    and "json_kind d i = Some (case i of None \<Rightarrow> null_value | Some i \<Rightarrow> if i < length es then en_kind (es ! i) else null_value)"
proof -
  show valid: "json_valid d i \<longleftrightarrow> (case i of None \<Rightarrow> False | Some i \<Rightarrow> i < length es)"
    using assms by (simp add: json_valid_def represents_def split: option.splits)
  have "jn_kind (jd_nodes d ! j) = en_kind (es ! j)" if "j < length es" for j
    using assms that by (simp add: represents_def node_matches_def Let_def)
  then show "json_kind d i = Some (case i of None \<Rightarrow> null_value | Some i \<Rightarrow> if i < length es then en_kind (es ! i) else null_value)"
    using valid assms by (auto simp: json_kind_def node_at_def represents_def split: option.splits)
qed

text \<open>The storage and the counters may change as long as the bytes in use stay.\<close>

lemma represents_frame:
  assumes "represents M S d es" and "jd_nodes d' = jd_nodes d" and "jd_count d' = jd_count d" and "jd_used d' = jd_used d"
    and "length (jd_storage d') = length (jd_storage d)" and "take (jd_used d) (jd_storage d') = take (jd_used d) (jd_storage d)"
  shows "represents M S d' es"
  using assms(1-5) stored_grows [OF _ assms(6)]
  by (auto simp: represents_def node_matches_def Let_def)

lemma linked_append: "linked (es @ [e]) \<longleftrightarrow> linked es \<and> (case en_parent e of None \<Rightarrow> es = [] | Some p \<Rightarrow> p < length es)"
  by (auto simp: linked_def nth_append less_Suc_eq split: option.splits)

text \<open>The nodes of a document after one more has been stored and linked.\<close>

lemma place_node:
  assumes rep: "represents M S d es" and room: "length es < M"
    and parent: "case parent of None \<Rightarrow> es = [] | Some p \<Rightarrow> p < length es"
    and grown: "length st = S" "take (jd_used d) st = take (jd_used d) (jd_storage d)" "jd_used d \<le> u" "u \<le> S"
    and e: "en_kind e = k" "en_parent e = parent" "u = jd_used d + entry_bytes e"
    and key: "stored \<lparr>jd_nodes = ns, jd_count = c, jd_storage = st, jd_used = u\<rparr> ko ks (en_key e)"
    and val: "stored \<lparr>jd_nodes = ns, jd_count = c, jd_storage = st, jd_used = u\<rparr> vo vs (en_text e)"
  defines "n \<equiv> length es"
  defines "candidate \<equiv> new_node\<lparr>jn_kind := k, jn_parent := parent, jn_key_offset := ko, jn_key_size := ks, jn_value_offset := vo, jn_value_size := vs\<rparr>"
  defines "d1 \<equiv> \<lparr>jd_nodes = (jd_nodes d)[n := candidate], jd_count = n + 1, jd_storage = st, jd_used = u\<rparr>"
  shows "\<exists>d'. (case parent of None \<Rightarrow> Some d1 | Some p \<Rightarrow> link_child p n d1) = Some d' \<and> represents M S d' (es @ [e])"
proof -
  let ?ns = "(jd_nodes d)[n := candidate]"
  note r = rep [unfolded represents_def node_matches_def Let_def]
  have links: "linked es" "linked (es @ [e])" using r parent e(2) by (simp_all add: linked_append)
  define final where "final j = (case parent of None \<Rightarrow> ?ns ! j | Some p \<Rightarrow>
       if j = p then (?ns ! p)\<lparr>jn_first_child := (case jn_first_child (?ns ! p) of None \<Rightarrow> Some n | Some c \<Rightarrow> Some c), jn_last_child := Some n\<rparr>
       else if jn_first_child (?ns ! p) \<noteq> None \<and> jn_last_child (?ns ! p) = Some j then (?ns ! j)\<lparr>jn_next_sibling := Some n\<rparr>
       else ?ns ! j)" for j
  have "\<exists>ns'. (case parent of None \<Rightarrow> Some d1 | Some p \<Rightarrow> link_child p n d1) = Some (d1\<lparr>jd_nodes := ns'\<rparr>) \<and>
      length ns' = M \<and> (\<forall>j<M. ns' ! j = final j)"
  proof (cases parent)
    case None
    then show ?thesis using r by (auto simp: final_def d1_def)
  next
    case (Some p)
    have p: "p < n" using parent Some by (simp add: n_def)
    have old: "?ns ! p = jd_nodes d ! p" using p by simp
    have "\<exists>l. jn_last_child (?ns ! p) = Some l \<and> l < length ?ns \<and> l \<noteq> p" if "jn_first_child (?ns ! p) \<noteq> None"
    proof -
      have ne: "children es p \<noteq> []" using that r p old by (auto simp: n_def first_handle_None)
      then have l: "last (children es p) < length es" "en_parent (es ! last (children es p)) = Some p"
        using child_iff last_in_set [OF ne] by blast+
      then have "p < last (children es p)" using links(1) by (auto simp: linked_def split: option.splits)
      then show ?thesis using l ne r p old room by (auto simp: n_def last_of_def)
    qed
    moreover have "d1\<lparr>jd_nodes := ?ns\<rparr> = d1" by (simp add: d1_def)
    ultimately show ?thesis using link_child_is [of p ?ns n d1] Some p r room by (auto simp: final_def n_def d1_def)
  qed
  then obtain ns' where ns': "(case parent of None \<Rightarrow> Some d1 | Some p \<Rightarrow> link_child p n d1) = Some (d1\<lparr>jd_nodes := ns'\<rparr>)"
    "length ns' = M" "\<And>j. j < M \<Longrightarrow> ns' ! j = final j" by blast
  define d' where "d' = d1\<lparr>jd_nodes := ns'\<rparr>"
  have same: "stored d' off s t \<longleftrightarrow> stored \<lparr>jd_nodes = ns, jd_count = c, jd_storage = st, jd_used = u\<rparr> off s t" for off s t
    by (simp add: stored_def d'_def d1_def)
  have keep: "stored d off s t \<Longrightarrow> stored d' off s t" for off s t
    by (rule stored_grows) (use grown in \<open>simp_all add: d'_def d1_def\<close>)
  have "node_matches d' (es @ [e]) j" if "j < length (es @ [e])" for j
  proof (cases "j = n")
    case True
    have "last_of (children es p) \<noteq> Some n" for p
      using child_iff [of "last (children es p)" es p] last_in_set [of "children es p"] by (auto simp: last_of_def n_def)
    then have "final n = candidate" using parent r room by (auto simp: final_def n_def split: option.splits)
    moreover have "children (es @ [e]) n = []" using children_new [OF links(1), of n] parent e(2) by (auto simp: children_append n_def)
    moreover have "next_of (es @ [e]) n = None"
      by (auto simp: next_of_def n_def first_handle_None filter_empty_conv child_iff split: option.splits)
    ultimately show ?thesis
      using True ns' room e key val same by (auto simp: node_matches_def Let_def d'_def candidate_def n_def new_node_def last_of_def)
  next
    case False
    then have j: "j < n" using that by (simp add: n_def)
    have old: "?ns ! j = jd_nodes d ! j" using j by simp
    have m: "node_matches d es j" using rep j by (simp add: represents_def n_def)
    obtain p where p: "parent = Some p" "p < n" using parent j by (cases parent) (auto simp: n_def)
    have notlast: "last_of (children es p) \<noteq> Some p"
      using child_iff [of "last (children es p)" es p] last_in_set [of "children es p"] links(1)
      by (auto simp: last_of_def linked_def split: option.splits)
    have oldp: "?ns ! p = jd_nodes d ! p" using p by simp
    have first: "jn_first_child (jd_nodes d ! p) = first_handle (children es p)" "jn_last_child (jd_nodes d ! p) = last_of (children es p)"
      using r p by (simp_all add: n_def)
    have nonempty: "last_of (children es p) = Some j \<Longrightarrow> first_handle (children es p) \<noteq> None" by (simp add: first_handle_None last_of_def split: if_splits)
    have fin: "ns' ! j = (if j = p then (jd_nodes d ! p)\<lparr>jn_first_child := (case first_handle (children es p) of None \<Rightarrow> Some n | Some c \<Rightarrow> Some c), jn_last_child := Some n\<rparr>
       else if last_of (children es p) = Some j then (jd_nodes d ! j)\<lparr>jn_next_sibling := Some n\<rparr> else jd_nodes d ! j)"
      using ns'(3) [of j] j room old oldp first p nonempty by (simp add: final_def n_def)
    have nxt: "next_of (es @ [e]) j = (if last_of (children es p) = Some j then Some n else next_of es j)"
      using next_of_append [of j es e] j links(1) e(2) p by (simp add: n_def)
    have chi: "children (es @ [e]) j = children es j @ (if j = p then [n] else [])"
      using e(2) p by (auto simp: children_append n_def)
    have ent: "(es @ [e]) ! j = es ! j" using j by (simp add: nth_append n_def)
    show ?thesis
      unfolding node_matches_def Let_def ent nxt chi
      using m notlast keep by (auto simp: d'_def fin node_matches_def Let_def first_handle_append last_of_def split: option.splits)
  qed
  then have "represents M S d' (es @ [e])"
    using ns'(2) grown r room e links by (auto simp: represents_def d'_def d1_def n_def)
  then show ?thesis using ns'(1) by (auto simp: d'_def)
qed

text \<open>Adding a node: refused with the document's contents as they were, or appended.\<close>

lemma add_node_is:
  fixes k :: json_type and parent :: node_id
  assumes rep: "represents M S d es" and key: "view_ok key" and v: "view_ok v"
  defines "e \<equiv> new_entry k parent key v"
  shows "\<exists>out' d'. add_node out k parent key v d = Some (add_status M S es e, out', d') \<and>
    (if add_status M S es e = status_ok then out' = Some (length es) \<and> represents M S d' (es @ [e]) else out' = out \<and> represents M S d' es)"
proof -
  note r = rep [unfolded represents_def]
  define w where "w = (if k = object_value \<or> k = array_value then Null 0 else v)"
  have w: "view_ok w" "view_text w = en_text e" using v by (simp_all add: w_def e_def new_entry_def)
  have ent: "en_kind e = k" "en_parent e = parent" "en_key e = view_text key" "entry_bytes e = length (en_key e) + length (en_text e)"
    by (simp_all add: e_def new_entry_def entry_bytes_def)
  have key0: "psize key = 0 \<longleftrightarrow> en_key e = []" using key ent(3) by (simp add: psize_view)
  note kinds = represents_kind [OF rep, of parent]
  let ?d1 = "d\<lparr>jd_storage := take (jd_used d) (jd_storage d) @ en_key e @ drop (jd_used d + length (en_key e)) (jd_storage d),
     jd_used := jd_used d + length (en_key e)\<rparr>"
  have bytes: "text_bytes es = jd_used d" "length (jd_storage d) = S" "jd_used d \<le> S" "length (jd_nodes d) = M" "jd_count d = length es" "length es \<le> M"
    using r by simp_all
  show ?thesis
  proof (cases "add_status M S es e \<in> {status_invalid_argument, status_already_exists} \<or> length es = M")
    case True
    have "add_node out k parent key v d = Some (add_status M S es e, out, d)"
    proof (cases parent)
      case None
      then have "es \<noteq> [] \<or> M = 0" using True ent(2) by (auto simp: add_status_def split: if_splits)
      then show ?thesis using None kinds ent(2) bytes(4,5)
        by (cases "es = []") (simp_all add: add_node_def add_status_def Let_def)
    next
      case (Some p)
      then have kp: "json_valid d parent \<longleftrightarrow> p < length es" "p < length es \<Longrightarrow> json_kind d parent = Some (en_kind (es ! p))"
        using kinds by simp_all
      show ?thesis
      proof (cases "p < length es")
        case False
        then show ?thesis using kp(1) Some ent(2) by (simp add: add_node_def add_status_def)
      next
        case inside: True
        have "add_status M S es e = (if en_kind (es ! p) = object_value \<and> en_key e = [] then status_invalid_argument
            else if en_kind (es ! p) = array_value \<and> en_key e \<noteq> [] then status_invalid_argument
            else if length es = M \<or> text_bytes es + entry_bytes e > S then status_full else status_ok)"
          using inside Some ent(2) by (simp add: add_status_def)
        then show ?thesis using True inside kp Some key0 bytes(4,5) unfolding add_node_def Let_def
          by (simp split: if_split_asm)
      qed
    qed
    moreover have "add_status M S es e \<noteq> status_ok"
      using True by (auto simp: add_status_def split: option.splits if_splits)
    ultimately show ?thesis using rep by auto
  next
    case False
    then have parent: "case parent of None \<Rightarrow> es = [] | Some p \<Rightarrow> p < length es" and room: "length es < M"
      and status: "add_status M S es e = (if text_bytes es + entry_bytes e > S then status_full else status_ok)"
      using ent(2) bytes(6) by (auto simp: add_status_def split: option.splits if_splits)
    have start: "add_node out k parent key v d = do {
        (s, ko, ks, d) \<leftarrow> json_store key d;
        if s \<noteq> status_ok then Some (s, out, d)
        else do {
          (s, vo, vs, d) \<leftarrow> json_store w d;
          if s \<noteq> status_ok then Some (s, out, d\<lparr>jd_used := jd_used d - ks\<rparr>)
          else do {
            let i = jd_count d;
            let candidate = new_node\<lparr>jn_kind := k, jn_parent := parent, jn_key_offset := ko, jn_key_size := ks,
              jn_value_offset := vo, jn_value_size := vs\<rparr>;
            d \<leftarrow> set_node i candidate (d\<lparr>jd_count := i + 1\<rparr>);
            d \<leftarrow> (case parent of None \<Rightarrow> Some d | Some p \<Rightarrow> link_child p i d);
            Some (status_ok, Some i, d) } } }"
    proof (cases parent)
      case None
      then show ?thesis using parent kinds bytes(4,5) room unfolding add_node_def w_def [symmetric] Let_def by simp
    next
      case (Some p)
      then have p: "p < length es" and kp: "json_valid d parent" "json_kind d parent = Some (en_kind (es ! p))" using kinds parent by simp_all
      have "\<not> (en_kind (es ! p) = object_value \<and> en_key e = [])" "\<not> (en_kind (es ! p) = array_value \<and> en_key e \<noteq> [])"
        using False p Some ent(2) by (auto simp: add_status_def split: if_splits)
      then show ?thesis using p kp Some key0 bytes(4,5) room unfolding add_node_def w_def [symmetric] Let_def by auto
    qed
    show ?thesis
    proof (cases "text_bytes es + entry_bytes e > S")
      case True
      have "\<exists>d'. add_node out k parent key v d = Some (status_full, out, d') \<and> represents M S d' es"
      proof (cases "jd_used d + length (en_key e) \<le> S")
        case False
        then show ?thesis using rep bytes ent(3) unfolding start by (simp add: store_is [OF key])
      next
        case fits: True
        then have first: "json_store key d = Some (status_ok, jd_used d, length (en_key e), ?d1)"
          using bytes ent(3) by (simp add: store_is [OF key])
        have "json_store w ?d1 = Some (status_full, 0, 0, ?d1)"
          using True fits bytes w ent(4) by (simp add: store_is [OF w(1)])
        moreover have "represents M S (?d1\<lparr>jd_used := jd_used ?d1 - length (en_key e)\<rparr>) es"
          by (rule represents_frame [OF rep]) (use fits bytes in simp_all)
        ultimately show ?thesis unfolding start by (simp add: first)
      qed
      then show ?thesis using True status by auto
    next
      case False
      let ?u = "jd_used d + length (en_key e) + length (en_text e)"
      let ?st = "take (jd_used d) (jd_storage d) @ en_key e @ en_text e @ drop ?u (jd_storage d)"
      have u: "?u \<le> S" using False bytes ent(4) by simp
      then have first: "json_store key d = Some (status_ok, jd_used d, length (en_key e), ?d1)"
        using bytes ent(3) by (simp add: store_is [OF key])
      have second: "json_store w ?d1 = Some (status_ok, jd_used d + length (en_key e), length (en_text e), d\<lparr>jd_storage := ?st, jd_used := ?u\<rparr>)"
        using u bytes w by (simp add: store_is [OF w(1)] ac_simps)
      have all: "d\<lparr>jd_storage := a, jd_used := b, jd_count := c, jd_nodes := n\<rparr> = \<lparr>jd_nodes = n, jd_count = c, jd_storage = a, jd_used = b\<rparr>" for n c a b
        by (cases d) simp
      have run: "add_node out k parent key v d = do {
          d \<leftarrow> (case parent of None \<Rightarrow> Some d1 | Some p \<Rightarrow> link_child p (length es) d1);
          Some (status_ok, Some (length es), d) }"
        if "d1 = \<lparr>jd_nodes = (jd_nodes d)[length es := new_node\<lparr>jn_kind := k, jn_parent := parent, jn_key_offset := jd_used d, jn_key_size := length (en_key e),
          jn_value_offset := jd_used d + length (en_key e), jn_value_size := length (en_text e)\<rparr>], jd_count = length es + 1, jd_storage = ?st, jd_used = ?u\<rparr>" for d1
        unfolding start that all [symmetric] using bytes room by (simp add: first second Let_def set_node_def split: option.split)
      have "\<exists>d'. (case parent of None \<Rightarrow> Some d1 | Some p \<Rightarrow> link_child p (length es) d1) = Some d' \<and> represents M S d' (es @ [e])"
        if "d1 = \<lparr>jd_nodes = (jd_nodes d)[length es := new_node\<lparr>jn_kind := k, jn_parent := parent, jn_key_offset := jd_used d, jn_key_size := length (en_key e),
          jn_value_offset := jd_used d + length (en_key e), jn_value_size := length (en_text e)\<rparr>], jd_count = length es + 1, jd_storage = ?st, jd_used = ?u\<rparr>" for d1
        unfolding that
        by (rule place_node [where ns = "[]" and c = 0, OF rep room parent]) (use u bytes ent in \<open>simp_all add: stored_def\<close>)
      with run show ?thesis using False status by fastforce
    qed
  qed
qed

section \<open>Reading what a document represents\<close>

lemma text_equal_is:
  assumes "view_ok a" and "view_ok b"
  shows "text_equal a b = Some (view_text a = view_text b)"
proof -
  have "text_equal_loop a b i = Some (drop i (view_text a) = drop i (view_text b))"
    if "i \<le> psize a" and same: "length (view_text a) = length (view_text b)" for i
    using that(1)
  proof (induction "psize a - i" arbitrary: i)
    case 0
    then show ?case using assms same by (subst text_equal_loop.simps) (simp add: psize_view)
  next
    case (Suc n)
    have i: "i < psize a" "i < psize b" using Suc.hyps(2) same assms by (simp_all add: psize_view)
    then have "drop i (view_text a) = view_text a ! i # drop (Suc i) (view_text a)" "drop i (view_text b) = view_text b ! i # drop (Suc i) (view_text b)"
      using assms by (simp_all add: Cons_nth_drop_Suc psize_view)
    then show ?case using Suc i rd_view [OF assms(1) i(1)] rd_view [OF assms(2) i(2)] by (subst text_equal_loop.simps) simp
  qed
  from this [of 0] show ?thesis using assms by (auto simp: text_equal_def psize_view)
qed

lemma view_of_stored:
  assumes "stored d off n t" and "jd_used d \<le> length (jd_storage d)"
  shows "\<exists>v. json_view d off n = Some v \<and> view_ok v \<and> view_text v = t"
  using assms by (auto simp: json_view_def stored_def)

lemma represents_reads:
  assumes rep: "represents M S d es" and i: "i < length es"
  shows "\<exists>v. json_key d (Some i) = Some v \<and> view_ok v \<and> view_text v = en_key (es ! i)"
    and "\<exists>v. json_scalar d (Some i) = Some v \<and> view_ok v \<and> view_text v = en_text (es ! i)"
    and "json_first_child d (Some i) = Some (first_handle (children es i))"
    and "json_next_sibling d (Some i) = Some (next_of es i)"
    and "json_parent d (Some i) = Some (en_parent (es ! i))"
proof -
  have n: "node_at d (Some i) = Some (jd_nodes d ! i)" "json_valid d (Some i)"
    using rep i by (simp_all add: represents_def node_at_def json_valid_def)
  have m: "node_matches d es i" "jd_used d \<le> length (jd_storage d)" using rep i by (simp_all add: represents_def)
  note m1 = m(1) [unfolded node_matches_def Let_def]
  show "\<exists>v. json_key d (Some i) = Some v \<and> view_ok v \<and> view_text v = en_key (es ! i)"
    using view_of_stored [OF _ m(2)] m1 by (simp add: json_key_def n)
  show "\<exists>v. json_scalar d (Some i) = Some v \<and> view_ok v \<and> view_text v = en_text (es ! i)"
    using view_of_stored [OF _ m(2)] m1 by (simp add: json_scalar_def n)
  show "json_first_child d (Some i) = Some (first_handle (children es i))" "json_next_sibling d (Some i) = Some (next_of es i)"
    "json_parent d (Some i) = Some (en_parent (es ! i))"
    using m1 n by (simp_all add: json_first_child_def json_next_sibling_def json_parent_def)
qed

lemma next_in_children:
  assumes "children es p = xs @ c # ys"
  shows "next_of es c = first_handle ys" and "c < length es"
proof -
  have c: "en_parent (es ! c) = Some p" "c < length es" using child_iff [of c es p] assms by auto
  then show "c < length es" by simp
  have "sorted_wrt (<) (xs @ c # ys)" using children_sorted [of es p] assms by simp
  then have "filter (\<lambda>j. c < j) (xs @ c # ys) = ys" by (auto simp: sorted_wrt_append filter_empty_conv filter_id_conv)
  then show "next_of es c = first_handle ys" using c assms by (simp add: next_of_def)
qed

lemma find_loop_is:
  assumes rep: "represents M S d es" and name: "view_ok name"
  shows "children es p = xs @ ys \<Longrightarrow> json_find_loop d name (first_handle ys) = Some (first_handle (filter (\<lambda>j. en_key (es ! j) = view_text name) ys))"
proof (induction ys arbitrary: xs)
  case Nil
  then show ?case by (subst json_find_loop.simps) simp
next
  case (Cons c ys)
  note c = next_in_children [OF Cons.prems]
  obtain v where v: "json_key d (Some c) = Some v" "view_ok v" "view_text v = en_key (es ! c)"
    using represents_reads(1) [OF rep c(2)] by blast
  have "json_find_loop d name (first_handle ys) = Some (first_handle (filter (\<lambda>j. en_key (es ! j) = view_text name) ys))"
    using Cons.IH [of "xs @ [c]"] Cons.prems by simp
  then show ?case
    using v text_equal_is [OF v(2) name] represents_reads(4) [OF rep c(2)] c(1) by (subst json_find_loop.simps) simp
qed

lemma at_loop_is:
  assumes rep: "represents M S d es"
  shows "children es p = xs @ ys \<Longrightarrow> i \<le> index \<Longrightarrow>
    json_at_loop d index i (first_handle ys) = Some (if index - i < length ys then Some (ys ! (index - i)) else None)"
proof (induction ys arbitrary: xs i)
  case Nil
  then show ?case by (subst json_at_loop.simps) simp
next
  case (Cons c ys)
  note c = next_in_children [OF Cons.prems(1)]
  show ?case
  proof (cases "i = index")
    case True
    then show ?thesis by (subst json_at_loop.simps) simp
  next
    case False
    then obtain k where "index - i = Suc k" "index - Suc i = k" using Cons.prems(2) by (cases "index - i") auto
    then show ?thesis using False Cons.IH [of "xs @ [c]" "Suc i"] Cons.prems represents_reads(4) [OF rep c(2)] c(1)
      by (subst json_at_loop.simps) simp
  qed
qed

lemma find_is:
  assumes "represents M S d es" and "view_ok name"
  shows "json_find d (Some i) name =
    Some (if i < length es \<and> en_kind (es ! i) = object_value
      then first_handle (filter (\<lambda>j. en_key (es ! j) = view_text name) (children es i)) else None)"
  using represents_kind [OF assms(1), of "Some i"] represents_reads(3) [OF assms(1), of i]
    find_loop_is [OF assms, of i "[]" "children es i"]
  by (simp add: json_find_def)

lemma at_is:
  assumes "represents M S d es"
  shows "json_at d (Some i) n =
    Some (if i < length es \<and> en_kind (es ! i) = array_value \<and> n < length (children es i) then Some (children es i ! n) else None)"
  using represents_kind [OF assms(1), of "Some i"] represents_reads(3) [OF assms(1), of i]
    at_loop_is [OF assms, of i "[]" "children es i" 0 n]
  by (simp add: json_at_def)

lemma json_document_is:
  "represents M (length bytes) (json_document M bytes) []" "represents M S d es \<Longrightarrow> represents M S (json_clear d) []"
  by (simp_all add: represents_def json_document_def json_clear_def linked_def)

text \<open>C38: \<open>append\<close> adds an entry at the end of its parent's children, or refuses and leaves the entries as they
  were; \<open>find\<close> and \<open>at\<close> read the children by name and by position.\<close>

theorem json_document_operations:
  assumes "represents M S d es" and "view_ok key" and "view_ok v"
  shows "(\<exists>r out' d'. json_append (Some p) out k v key d = Some (r, out', d') \<and>
      (let e = new_entry k (Some p) key v in
       r = (if p < length es \<and> en_kind (es ! p) \<notin> {object_value, array_value} then status_invalid_argument else add_status M S es e) \<and>
       (if r = status_ok then out' = Some (length es) \<and> represents M S d' (es @ [e]) else out' = out \<and> represents M S d' es))) \<and>
    json_find d (Some i) key =
      Some (if i < length es \<and> en_kind (es ! i) = object_value
        then first_handle (filter (\<lambda>j. en_key (es ! j) = view_text key) (children es i)) else None) \<and>
    json_at d (Some i) n =
      Some (if i < length es \<and> en_kind (es ! i) = array_value \<and> n < length (children es i) then Some (children es i ! n) else None)"
proof -
  have key0: "psize key = 0 \<longleftrightarrow> view_text key = []" using assms(2) by (simp add: psize_view)
  let ?e = "new_entry k (Some p) key v"
  have e: "en_parent ?e = Some p" "en_key ?e = view_text key" by (simp_all add: new_entry_def)
  have append: "\<exists>r out' d'. json_append (Some p) out k v key d = Some (r, out', d') \<and>
      (let e = ?e in
       r = (if p < length es \<and> en_kind (es ! p) \<notin> {object_value, array_value} then status_invalid_argument else add_status M S es e) \<and>
       (if r = status_ok then out' = Some (length es) \<and> represents M S d' (es @ [e]) else out' = out \<and> represents M S d' es))"
  proof (cases "\<not> p < length es \<or> en_kind (es ! p) \<notin> {object_value, array_value} \<or> en_kind (es ! p) = object_value \<and> psize key = 0")
    case True
    then have "json_append (Some p) out k v key d = Some (status_invalid_argument, out, d)"
      using represents_kind [OF assms(1), of "Some p"] by (auto simp: json_append_def)
    moreover have "p < length es \<and> en_kind (es ! p) \<notin> {object_value, array_value} \<or> add_status M S es ?e = status_invalid_argument"
      using True e key0 by (auto simp: add_status_def)
    ultimately show ?thesis using assms(1) by (auto simp: Let_def)
  next
    case False
    then have "json_append (Some p) out k v key d = add_node out k (Some p) key v d"
      using represents_kind [OF assms(1), of "Some p"] by (auto simp: json_append_def)
    then show ?thesis using False add_node_is [OF assms, of out k "Some p"] by (auto simp: Let_def)
  qed
  then show ?thesis using find_is [OF assms(1,2)] at_is [OF assms(1)] by blast
qed

lemma json_document_operations_witness:
  "\<exists>r out' d'. json_append (Some 0) None number_value (Mem [0x31]) (Null 0)
       \<lparr>jd_nodes = [new_node\<lparr>jn_kind := array_value\<rparr>, new_node], jd_count = 1, jd_storage = [0, 0], jd_used = 0\<rparr> = Some (r, out', d') \<and>
     r = status_ok \<and> out' = Some 1 \<and>
     represents 2 2 d' [new_entry array_value None (Null 0) (Null 0), new_entry number_value (Some 0) (Null 0) (Mem [0x31])]"
  using json_document_operations [of 2 2 "\<lparr>jd_nodes = [new_node\<lparr>jn_kind := array_value\<rparr>, new_node], jd_count = 1, jd_storage = [0, 0], jd_used = 0\<rparr>"
      "[new_entry array_value None (Null 0) (Null 0)]" "Null 0" "Mem [0x31]" 0 None number_value]
  by (simp add: represents_def node_matches_def new_node_def new_entry_def linked_def children_def first_handle_def last_of_def next_of_def
      stored_def add_status_def entry_bytes_def numeral_2_eq_2)

end
