(* ===== verification/JsonParser.thy ===== *)
theory JsonParser
  imports JsonDoc
begin

text \<open>
  The parser of \<open>castle_ext/serialization/json.hpp\<close>: a recursive descent that adds a node for every value it reads.
  The recursion is bounded by the depth limit of the document, so \<open>parse_value\<close> takes the number of levels left;
  the two loops run while there is input.  The texts it accepts are the relation \<open>value_text\<close>, the nodes it adds the
  list \<open>entries\<close>.  The relation is the grammar of the code and differs from RFC 8259 in three points: a member name is
  not empty, a string has no escaped surrogate pair, and the bytes of a string need not be UTF-8.
\<close>

section \<open>The state of the parser\<close>

record json_parser =
  jp_doc :: json_doc
  jp_position :: nat
  jp_depth :: nat

definition leave :: "json_parser \<Rightarrow> json_parser" where
  "leave p = p\<lparr>jp_depth := jp_depth p - 1\<rparr>"

text \<open>Line and column of the position, counted from the start of the source.\<close>

function locate :: "u8 ptr \<Rightarrow> nat \<Rightarrow> nat \<Rightarrow> nat \<Rightarrow> nat \<Rightarrow> (nat \<times> nat) option" where
  "locate source position i line column =
     (if i < position \<and> i < psize source then do {
        c \<leftarrow> rd source i;
        if c = 0x0A then locate source position (i + 1) (line + 1) 1
        else locate source position (i + 1) line (column + 1) }
      else Some (line, column))"
  by pat_completeness auto
termination by (relation "measure (\<lambda>(source, position, i, _, _). psize source - i)") auto

declare locate.simps [simp del]

definition parser_fail :: "u8 ptr \<Rightarrow> json_parser \<Rightarrow> json_error \<Rightarrow> json_result option" where
  "parser_fail source p code = do {
     (line, column) \<leftarrow> locate source (jp_position p) 0 1 1;
     Some \<lparr>jr_status = status_invalid_argument, jr_code = code, jr_offset = jp_position p, jr_line = line, jr_column = column\<rparr> }"

definition capacity_result :: "status \<Rightarrow> json_parser \<Rightarrow> json_result" where
  "capacity_result s p = json_ok\<lparr>jr_status := s, jr_code := capacity_error, jr_offset := jp_position p\<rparr>"

function skip_loop :: "u8 ptr \<Rightarrow> nat \<Rightarrow> nat option" where
  "skip_loop source position =
     (if position < psize source then do {
        c \<leftarrow> rd source position;
        if is_space c then skip_loop source (position + 1) else Some position }
      else Some position)"
  by pat_completeness auto
termination by (relation "measure (\<lambda>(source, position). psize source - position)") auto

declare skip_loop.simps [simp del]

definition skip_space :: "u8 ptr \<Rightarrow> json_parser \<Rightarrow> json_parser option" where
  "skip_space source p = do { i \<leftarrow> skip_loop source (jp_position p); Some (p\<lparr>jp_position := i\<rparr>) }"

section \<open>Leaves\<close>

type_synonym parsed = "(json_result \<times> node_id \<times> json_parser) option"

text \<open>The status of an addition as the result of the parse.\<close>

definition added :: "json_parser \<Rightarrow> (status \<times> node_id \<times> json_doc) option \<Rightarrow> parsed" where
  "added p x = do {
     (s, out, d) \<leftarrow> x;
     Some (if s = status_ok then json_ok else capacity_result s p, out, p\<lparr>jp_doc := d\<rparr>) }"

definition scratch_string :: "json_parser \<Rightarrow> cstring option" where
  "scratch_string p = str_init (replicate (length (jd_storage (jp_doc p)) + 1) 0)"

definition parse_string_value :: "u8 ptr \<Rightarrow> node_id \<Rightarrow> node_id \<Rightarrow> u8 ptr \<Rightarrow> json_parser \<Rightarrow> parsed" where
  "parse_string_value source out parent key p = do {
     value \<leftarrow> scratch_string p;
     (r, i, value) \<leftarrow> decode_string source (jp_position p) value;
     let p = p\<lparr>jp_position := i\<rparr>;
     if \<not> json_succeeded r then Some (r, out, p)
     else added p (set_string out (str_view value) parent key (jp_doc p)) }"

fun literal_matches :: "u8 ptr \<Rightarrow> nat \<Rightarrow> u8 list \<Rightarrow> bool option" where
  "literal_matches source i [] = Some True"
| "literal_matches source i (l # ls) = do {
     c \<leftarrow> rd source i;
     if c \<noteq> l then Some False else literal_matches source (i + 1) ls }"

definition parse_literal :: "u8 ptr \<Rightarrow> u8 list \<Rightarrow> json_type \<Rightarrow> node_id \<Rightarrow> node_id \<Rightarrow> u8 ptr \<Rightarrow> json_parser \<Rightarrow> parsed" where
  "parse_literal source word kind out parent key p =
     (if jp_position p + length word > psize source then do { r \<leftarrow> parser_fail source p unexpected_end; Some (r, out, p) }
      else do {
        same \<leftarrow> literal_matches source (jp_position p) word;
        if \<not> same then do { r \<leftarrow> parser_fail source p invalid_literal; Some (r, out, p) }
        else do {
          let p = p\<lparr>jp_position := jp_position p + length word\<rparr>;
          added p (if kind = boolean_value then set_bool out (hd word = 0x74) parent key (jp_doc p)
                   else set_null out parent key (jp_doc p)) } })"

text \<open>The end of a number, or the character that cannot be part of one.\<close>

function number_loop :: "u8 ptr \<Rightarrow> nat \<Rightarrow> (nat + nat) option" where
  "number_loop source position =
     (if position < psize source then do {
        c \<leftarrow> rd source position;
        if is_number_delimiter c then Some (Inr position)
        else if \<not> (json_digit c \<or> c = 0x2D \<or> c = 0x2B \<or> c = 0x2E \<or> c = 0x65 \<or> c = 0x45) then Some (Inl position)
        else number_loop source (position + 1) }
      else Some (Inr position))"
  by pat_completeness auto
termination by (relation "measure (\<lambda>(source, position). psize source - position)") auto

declare number_loop.simps [simp del]

definition parse_number :: "u8 ptr \<Rightarrow> node_id \<Rightarrow> node_id \<Rightarrow> u8 ptr \<Rightarrow> json_parser \<Rightarrow> parsed" where
  "parse_number source out parent key p = do {
     let start = jp_position p;
     stop \<leftarrow> number_loop source start;
     case stop of
       Inl bad \<Rightarrow> do { let p = p\<lparr>jp_position := bad\<rparr>; r \<leftarrow> parser_fail source p invalid_number; Some (r, out, p) }
     | Inr i \<Rightarrow> do {
         let p = p\<lparr>jp_position := i\<rparr>;
         let number = view_substr source start (Some (i - start));
         ok \<leftarrow> valid_number number;
         if \<not> ok then do { r \<leftarrow> parser_fail source p invalid_number; Some (r, out, p) }
         else added p (set_number out number parent key (jp_doc p)) } }"

section \<open>Objects and arrays\<close>

text \<open>The parser of a member's value: what it fills, the parent and the key.\<close>

type_synonym value_parser = "node_id \<Rightarrow> node_id \<Rightarrow> u8 ptr \<Rightarrow> json_parser \<Rightarrow> parsed"

partial_function (option) object_loop :: "value_parser \<Rightarrow> u8 ptr \<Rightarrow> node_id \<Rightarrow> json_parser \<Rightarrow> (json_result \<times> json_parser) option" where
  "object_loop value source out p =
     (if jp_position p < psize source then do {
        c \<leftarrow> rd source (jp_position p);
        if c \<noteq> 0x22 then do { r \<leftarrow> parser_fail source p unexpected_token; Some (r, leave p) }
        else do {
          key \<leftarrow> scratch_string p;
          (kr, i, key) \<leftarrow> decode_string source (jp_position p) key;
          let p = p\<lparr>jp_position := i\<rparr>;
          if \<not> json_succeeded kr then Some (kr, leave p)
          else do {
            p \<leftarrow> skip_space source p;
            colon \<leftarrow> at_char source (jp_position p) (\<lambda>c. c = 0x3A);
            if \<not> colon then do { r \<leftarrow> parser_fail source p unexpected_token; Some (r, leave p) }
            else do {
              (vr, child, p) \<leftarrow> value None out (str_view key) (p\<lparr>jp_position := jp_position p + 1\<rparr>);
              if \<not> json_succeeded vr then Some (vr, leave p)
              else do {
                p \<leftarrow> skip_space source p;
                close \<leftarrow> at_char source (jp_position p) (\<lambda>c. c = 0x7D);
                if close then Some (json_ok, leave (p\<lparr>jp_position := jp_position p + 1\<rparr>))
                else do {
                  comma \<leftarrow> at_char source (jp_position p) (\<lambda>c. c = 0x2C);
                  if \<not> comma then do { r \<leftarrow> parser_fail source p unexpected_token; Some (r, leave p) }
                  else do {
                    p \<leftarrow> skip_space source (p\<lparr>jp_position := jp_position p + 1\<rparr>);
                    object_loop value source out p } } } } } } }
      else do { r \<leftarrow> parser_fail source p unexpected_end; Some (r, leave p) })"

partial_function (option) array_loop :: "value_parser \<Rightarrow> u8 ptr \<Rightarrow> node_id \<Rightarrow> json_parser \<Rightarrow> (json_result \<times> json_parser) option" where
  "array_loop value source out p =
     (if jp_position p < psize source then do {
        (vr, child, p) \<leftarrow> value None out (Null 0) p;
        if \<not> json_succeeded vr then Some (vr, leave p)
        else do {
          p \<leftarrow> skip_space source p;
          close \<leftarrow> at_char source (jp_position p) (\<lambda>c. c = 0x5D);
          if close then Some (json_ok, leave (p\<lparr>jp_position := jp_position p + 1\<rparr>))
          else do {
            comma \<leftarrow> at_char source (jp_position p) (\<lambda>c. c = 0x2C);
            if \<not> comma then do { r \<leftarrow> parser_fail source p unexpected_token; Some (r, leave p) }
            else do {
              p \<leftarrow> skip_space source (p\<lparr>jp_position := jp_position p + 1\<rparr>);
              array_loop value source out p } } } }
      else do { r \<leftarrow> parser_fail source p unexpected_end; Some (r, leave p) })"

definition parse_object :: "nat \<Rightarrow> value_parser \<Rightarrow> u8 ptr \<Rightarrow> node_id \<Rightarrow> node_id \<Rightarrow> u8 ptr \<Rightarrow> json_parser \<Rightarrow> parsed" where
  "parse_object max_depth value source out parent key p = do {
     let p = p\<lparr>jp_position := jp_position p + 1, jp_depth := jp_depth p + 1\<rparr>;
     if jp_depth p > max_depth then do { r \<leftarrow> parser_fail source p depth_exceeded; Some (r, out, leave p) }
     else do {
       (s, out, d) \<leftarrow> make_object out parent key (jp_doc p);
       let p = p\<lparr>jp_doc := d\<rparr>;
       if s \<noteq> status_ok then Some (capacity_result s p, out, leave p)
       else do {
         p \<leftarrow> skip_space source p;
         close \<leftarrow> at_char source (jp_position p) (\<lambda>c. c = 0x7D);
         if close then Some (json_ok, out, leave (p\<lparr>jp_position := jp_position p + 1\<rparr>))
         else do { (r, p) \<leftarrow> object_loop value source out p; Some (r, out, p) } } } }"

definition parse_array :: "nat \<Rightarrow> value_parser \<Rightarrow> u8 ptr \<Rightarrow> node_id \<Rightarrow> node_id \<Rightarrow> u8 ptr \<Rightarrow> json_parser \<Rightarrow> parsed" where
  "parse_array max_depth value source out parent key p = do {
     let p = p\<lparr>jp_position := jp_position p + 1, jp_depth := jp_depth p + 1\<rparr>;
     if jp_depth p > max_depth then do { r \<leftarrow> parser_fail source p depth_exceeded; Some (r, out, leave p) }
     else do {
       (s, out, d) \<leftarrow> make_array out parent key (jp_doc p);
       let p = p\<lparr>jp_doc := d\<rparr>;
       if s \<noteq> status_ok then Some (capacity_result s p, out, leave p)
       else do {
         p \<leftarrow> skip_space source p;
         close \<leftarrow> at_char source (jp_position p) (\<lambda>c. c = 0x5D);
         if close then Some (json_ok, out, leave (p\<lparr>jp_position := jp_position p + 1\<rparr>))
         else do { (r, p) \<leftarrow> array_loop value source out p; Some (r, out, p) } } } }"

section \<open>Values and texts\<close>

text \<open>With no level left it would recurse past the depth limit; \<open>parse_object\<close> and \<open>parse_array\<close> stop before that.\<close>

fun parse_value :: "nat \<Rightarrow> nat \<Rightarrow> u8 ptr \<Rightarrow> value_parser" where
  "parse_value 0 max_depth source out parent key p = None"
| "parse_value (Suc levels) max_depth source out parent key p = do {
     p \<leftarrow> skip_space source p;
     if jp_position p \<ge> psize source then do { r \<leftarrow> parser_fail source p unexpected_end; Some (r, out, p) }
     else do {
       c \<leftarrow> rd source (jp_position p);
       if c = 0x7B then parse_object max_depth (parse_value levels max_depth source) source out parent key p
       else if c = 0x5B then parse_array max_depth (parse_value levels max_depth source) source out parent key p
       else if c = 0x22 then parse_string_value source out parent key p
       else if c = 0x74 then parse_literal source true_text boolean_value out parent key p
       else if c = 0x66 then parse_literal source false_text boolean_value out parent key p
       else if c = 0x6E then parse_literal source null_text null_value out parent key p
       else if c = 0x2D \<or> json_digit c then parse_number source out parent key p
       else do { r \<leftarrow> parser_fail source p unexpected_token; Some (r, out, p) } } }"

definition parser_run :: "nat \<Rightarrow> u8 ptr \<Rightarrow> json_doc \<Rightarrow> (json_result \<times> json_doc) option" where
  "parser_run max_depth source d = do {
     p \<leftarrow> skip_space source \<lparr>jp_doc = json_clear d, jp_position = 0, jp_depth = 0\<rparr>;
     (r, root, p) \<leftarrow> parse_value (max_depth + 1) max_depth source None None (Null 0) p;
     if \<not> json_succeeded r then Some (r, json_clear (jp_doc p))
     else do {
       p \<leftarrow> skip_space source p;
       if jp_position p \<noteq> psize source then do { r \<leftarrow> parser_fail source p unexpected_token; Some (r, jp_doc p) }
       else Some (r, jp_doc p) } }"

text \<open>\<open>document::parse\<close>: the status alone.\<close>

definition document_parse :: "nat \<Rightarrow> u8 ptr \<Rightarrow> json_doc \<Rightarrow> (status \<times> json_doc) option" where
  "document_parse max_depth source d = do { (r, d) \<leftarrow> parser_run max_depth source d; Some (jr_status r, d) }"

section \<open>Texts and the nodes they stand for\<close>

datatype json_value = Leaf json_type "u8 list" | Branch json_type "(u8 list \<times> json_value) list"

definition spaces :: "u8 list \<Rightarrow> bool" where
  "spaces w \<longleftrightarrow> list_all is_space w"

definition open_bracket :: "json_type \<Rightarrow> u8" where "open_bracket k = (if k = object_value then 0x7B else 0x5B)"
definition close_bracket :: "json_type \<Rightarrow> u8" where "close_bracket k = (if k = object_value then 0x7D else 0x5D)"

text \<open>The texts of a value of at most \<open>n\<close> nested containers, of one member and of the members up to the closing bracket.
  Unlike JSON, the name of a member is not empty; the strings are those of \<open>literal\<close>.\<close>

inductive value_text :: "nat \<Rightarrow> json_value \<Rightarrow> u8 list \<Rightarrow> bool"
  and member_text :: "nat \<Rightarrow> json_type \<Rightarrow> u8 list \<Rightarrow> json_value \<Rightarrow> u8 list \<Rightarrow> bool"
  and members_text :: "nat \<Rightarrow> json_type \<Rightarrow> (u8 list \<times> json_value) list \<Rightarrow> u8 list \<Rightarrow> bool" where
  text_null: "value_text n (Leaf null_value []) null_text"
| text_bool: "t \<in> {true_text, false_text} \<Longrightarrow> value_text n (Leaf boolean_value t) t"
| text_number: "json_number s \<Longrightarrow> value_text n (Leaf number_value s) s"
| text_string: "literal t s \<Longrightarrow> value_text n (Leaf string_value t) (0x22 # s @ [0x22])"
| text_empty: "k \<in> {object_value, array_value} \<Longrightarrow> spaces w \<Longrightarrow> value_text (Suc n) (Branch k []) (open_bracket k # w @ [close_bracket k])"
| text_branch: "k \<in> {object_value, array_value} \<Longrightarrow> spaces w \<Longrightarrow> members_text n k ms s \<Longrightarrow>
    value_text (Suc n) (Branch k ms) (open_bracket k # w @ s)"
| text_element: "value_text n v s \<Longrightarrow> member_text n array_value [] v s"
| text_member: "key \<noteq> [] \<Longrightarrow> literal key q \<Longrightarrow> spaces w \<Longrightarrow> spaces w' \<Longrightarrow> value_text n v s \<Longrightarrow>
    member_text n object_value key v (0x22 # q @ 0x22 # w @ 0x3A # w' @ s)"
| text_last: "member_text n k key v s \<Longrightarrow> spaces w \<Longrightarrow> members_text n k [(key, v)] (s @ w @ [close_bracket k])"
| text_more: "member_text n k key v s \<Longrightarrow> spaces w \<Longrightarrow> spaces w' \<Longrightarrow> members_text n k ms t \<Longrightarrow>
    members_text n k ((key, v) # ms) (s @ w @ 0x2C # w' @ t)"

text \<open>The nodes of a value in the order they are added; \<open>i\<close> is the index of the first.\<close>

fun entries :: "nat \<Rightarrow> node_id \<Rightarrow> u8 list \<Rightarrow> json_value \<Rightarrow> json_entry list"
  and member_entries :: "nat \<Rightarrow> nat \<Rightarrow> (u8 list \<times> json_value) list \<Rightarrow> json_entry list" where
  "entries i parent key (Leaf k t) = [\<lparr>en_kind = k, en_parent = parent, en_key = key, en_text = t\<rparr>]"
| "entries i parent key (Branch k ms) =
     \<lparr>en_kind = k, en_parent = parent, en_key = key, en_text = []\<rparr> # member_entries (Suc i) i ms"
| "member_entries i p [] = []"
| "member_entries i p ((key, v) # ms) = (let es = entries i (Some p) key v in es @ member_entries (i + length es) p ms)"

section \<open>Positions\<close>

lemma locate_total: "\<exists>line column. locate (Mem xs) position i l c = Some (line, column)"
proof (induction "length xs - i" arbitrary: i l c)
  case 0
  then show ?case by (subst locate.simps) simp
next
  case (Suc n)
  then show ?case using Suc.hyps(1) [of "i + 1"] by (subst locate.simps) auto
qed

lemma fail_total: "\<exists>r. parser_fail (Mem xs) p code = Some r \<and> \<not> json_succeeded r"
  using locate_total [of xs "jp_position p" 0 1 1] by (auto simp: parser_fail_def json_succeeded_def succeeded_def)

lemma capacity_fails: "s \<noteq> status_ok \<Longrightarrow> \<not> json_succeeded (capacity_result s p)"
  by (simp add: capacity_result_def json_succeeded_def succeeded_def)

lemma ok_succeeds [simp]: "json_succeeded json_ok"
  by (simp add: json_ok_def json_succeeded_def succeeded_def)

lemma skip_loop_is: "i \<le> length xs \<Longrightarrow> skip_loop (Mem xs) i = Some (i + length (takeWhile is_space (drop i xs)))"
proof (induction "length xs - i" arbitrary: i)
  case 0
  then show ?case by (subst skip_loop.simps) simp
next
  case (Suc n)
  then have "drop i xs = xs ! i # drop (Suc i) xs" "i < length xs" by (simp_all add: Cons_nth_drop_Suc)
  then show ?case using Suc.hyps(1) [of "Suc i"] Suc.hyps(2) by (subst skip_loop.simps) simp
qed

lemma skip_total:
  assumes "jp_position p \<le> length xs"
  shows "\<exists>w i. skip_space (Mem xs) p = Some (p\<lparr>jp_position := i\<rparr>) \<and> jp_position p \<le> i \<and> i \<le> length xs \<and>
    drop (jp_position p) xs = w @ drop i xs \<and> spaces w"
proof -
  define w where "w = takeWhile is_space (drop (jp_position p) xs)"
  have "length w \<le> length xs - jp_position p" unfolding w_def using length_takeWhile_le [of is_space "drop (jp_position p) xs"] by simp
  moreover have "drop (jp_position p) xs = w @ drop (jp_position p + length w) xs"
    unfolding w_def drop_run by simp
  moreover have "spaces w" by (auto simp: w_def spaces_def list_all_iff dest: set_takeWhileD)
  ultimately show ?thesis using skip_loop_is [OF assms] assms unfolding skip_space_def w_def [symmetric]
    by (intro exI [of _ w] exI [of _ "jp_position p + length w"]) simp
qed

lemma skip_exact:
  assumes "drop (jp_position p) xs = w @ s" and "spaces w" and "s = [] \<or> \<not> is_space (hd s)" and "jp_position p \<le> length xs"
  shows "skip_space (Mem xs) p = Some (p\<lparr>jp_position := jp_position p + length w\<rparr>)"
    and "drop (jp_position p + length w) xs = s" and "jp_position p + length w \<le> length xs"
proof -
  have "takeWhile is_space (w @ s) = w @ takeWhile is_space s"
    using assms(2) by (intro takeWhile_append2) (simp add: spaces_def list_all_iff)
  moreover have "takeWhile is_space s = []" using assms(3) by (cases s) auto
  ultimately show "skip_space (Mem xs) p = Some (p\<lparr>jp_position := jp_position p + length w\<rparr>)"
    using skip_loop_is [OF assms(4)] assms(1) by (simp add: skip_space_def)
  show "drop (jp_position p + length w) xs = s" using assms(1) by (metis add.commute append_eq_conv_conj drop_drop)
  show "jp_position p + length w \<le> length xs" using arg_cong [OF assms(1), of length] assms(4) by simp
qed

section \<open>Parsing leaves\<close>

definition placeable :: "json_entry list \<Rightarrow> node_id \<Rightarrow> u8 list \<Rightarrow> bool" where
  "placeable es parent key \<longleftrightarrow>
     (case parent of
        None \<Rightarrow> es = []
      | Some p \<Rightarrow> p < length es \<and> (en_kind (es ! p) = object_value \<longrightarrow> key \<noteq> []) \<and> (en_kind (es ! p) = array_value \<longrightarrow> key = []))"

definition fits :: "nat \<Rightarrow> nat \<Rightarrow> json_entry list \<Rightarrow> bool" where
  "fits M S es \<longleftrightarrow> length es \<le> M \<and> text_bytes es \<le> S"

lemma fits_append: "fits M S (es @ fs) \<Longrightarrow> fits M S es"
  by (simp add: fits_def)

lemma represents_fits: "represents M S d es \<Longrightarrow> fits M S es"
  by (simp add: represents_def fits_def)

lemma add_status_ok:
  assumes "length es \<le> M"
  shows "add_status M S es e = status_ok \<longleftrightarrow> placeable es (en_parent e) (en_key e) \<and> fits M S (es @ [e])"
proof -
  have "fits M S (es @ [e]) \<longleftrightarrow> length es \<noteq> M \<and> \<not> text_bytes es + entry_bytes e > S" using assms by (auto simp: fits_def)
  then show ?thesis by (cases "en_parent e") (auto simp: add_status_def placeable_def)
qed

text \<open>What a parse that added nodes for \<open>v\<close> leaves.\<close>

definition built :: "nat \<Rightarrow> nat \<Rightarrow> json_entry list \<Rightarrow> node_id \<Rightarrow> u8 list \<Rightarrow> json_parser \<Rightarrow> nat \<Rightarrow> json_value \<Rightarrow> json_result \<times> node_id \<times> json_parser \<Rightarrow> bool" where
  "built M S es parent key p i v x \<longleftrightarrow> (case x of (r, out, p') \<Rightarrow>
     r = json_ok \<and> out = Some (length es) \<and> jp_position p' = i \<and> jp_depth p' = jp_depth p \<and>
     placeable es parent key \<and> represents M S (jp_doc p') (es @ entries (length es) parent key v))"

text \<open>Adding a leaf at the position reached.\<close>

lemma added_leaf:
  assumes rep: "represents M S (jp_doc p) es" and key: "view_ok key" and v: "view_ok v" and k: "k \<notin> {object_value, array_value}"
  shows "\<exists>r out' p'. added p (add_node out k parent key v (jp_doc p)) = Some (r, out', p') \<and>
    (if placeable es parent (view_text key) \<and> fits M S (es @ entries (length es) parent (view_text key) (Leaf k (view_text v)))
     then built M S es parent (view_text key) p (jp_position p) (Leaf k (view_text v)) (r, out', p') else \<not> json_succeeded r)"
proof -
  define e where "e = new_entry k parent key v"
  have e: "entries (length es) parent (view_text key) (Leaf k (view_text v)) = [e]" "en_parent e = parent" "en_key e = view_text key"
    using k by (simp_all add: e_def new_entry_def)
  have "length es \<le> M" using rep by (simp add: represents_def)
  note ok = add_status_ok [OF this, of S e, unfolded e(2,3)]
  obtain out' d' where a: "add_node out k parent key v (jp_doc p) = Some (add_status M S es e, out', d')"
    "if add_status M S es e = status_ok then out' = Some (length es) \<and> represents M S d' (es @ [e]) else out' = out \<and> represents M S d' es"
    using add_node_is [OF rep key v, of out k parent] by (auto simp: e_def)
  show ?thesis
    unfolding e(1) added_def a(1) using a(2) ok capacity_fails [of "add_status M S es e" p]
    by (auto simp: built_def e(1) simp del: entries.simps split: if_split_asm)
qed

fun is_number :: "json_value \<Rightarrow> bool" where
  "is_number (Leaf k t) \<longleftrightarrow> k = number_value"
| "is_number (Branch k ms) \<longleftrightarrow> False"

definition ends :: "u8 list \<Rightarrow> bool" where
  "ends s \<longleftrightarrow> s = [] \<or> is_number_delimiter (hd s)"

text \<open>A parse that ends, and succeeds only after the text of a value, with the nodes of that value.\<close>

definition sound_parse :: "u8 list \<Rightarrow> nat \<Rightarrow> nat \<Rightarrow> json_entry list \<Rightarrow> node_id \<Rightarrow> u8 list \<Rightarrow> nat \<Rightarrow> json_parser \<Rightarrow> parsed \<Rightarrow> bool" where
  "sound_parse xs M S es parent key n p x \<longleftrightarrow> (\<exists>r out' p'. x = Some (r, out', p') \<and>
     (json_succeeded r \<longrightarrow> (\<exists>v w s. jp_position p' \<le> length xs \<and> drop (jp_position p) xs = w @ s @ drop (jp_position p') xs \<and>
        spaces w \<and> value_text n v s \<and> (is_number v \<longrightarrow> ends (drop (jp_position p') xs)) \<and>
        built M S es parent key p (jp_position p') v (r, out', p'))))"

definition exact_parse :: "nat \<Rightarrow> nat \<Rightarrow> json_entry list \<Rightarrow> node_id \<Rightarrow> u8 list \<Rightarrow> json_parser \<Rightarrow> nat \<Rightarrow> json_value \<Rightarrow> parsed \<Rightarrow> bool" where
  "exact_parse M S es parent key p i v x \<longleftrightarrow>
     (\<exists>p'. x = Some (json_ok, Some (length es), p') \<and> built M S es parent key p i v (json_ok, Some (length es), p'))"

lemma sound_failure: "x = Some (r, out, p') \<Longrightarrow> \<not> json_succeeded r \<Longrightarrow> sound_parse xs M S es parent key n p x"
  by (simp add: sound_parse_def)

lemma built_position: "built M S es parent key (p\<lparr>jp_position := i\<rparr>) j v x \<longleftrightarrow> built M S es parent key p j v x"
  by (simp add: built_def)

text \<open>After the text of a leaf has been passed, adding the leaf decides.\<close>

lemma leaf_decides:
  assumes rep: "represents M S (jp_doc p) es" and key: "view_ok key" and v: "view_ok v" and k: "k \<notin> {object_value, array_value}"
    and i: "jp_position p \<le> length xs" "i \<le> length xs" "drop (jp_position p) xs = s @ drop i xs"
    and s: "value_text n (Leaf k (view_text v)) s" and num: "k = number_value \<longrightarrow> ends (drop i xs)"
  shows "sound_parse xs M S es parent (view_text key) n p (added (p\<lparr>jp_position := i\<rparr>) (add_node out k parent key v (jp_doc p)))"
    and "placeable es parent (view_text key) \<Longrightarrow> fits M S (es @ entries (length es) parent (view_text key) (Leaf k (view_text v))) \<Longrightarrow>
      exact_parse M S es parent (view_text key) p i (Leaf k (view_text v)) (added (p\<lparr>jp_position := i\<rparr>) (add_node out k parent key v (jp_doc p)))"
proof -
  have rep': "represents M S (jp_doc (p\<lparr>jp_position := i\<rparr>)) es" using rep by simp
  have upd: "jp_doc (p\<lparr>jp_position := i\<rparr>) = jp_doc p" "jp_position (p\<lparr>jp_position := i\<rparr>) = i" by simp_all
  have "\<exists>r out' p'. added (p\<lparr>jp_position := i\<rparr>) (add_node out k parent key v (jp_doc p)) = Some (r, out', p') \<and>
    (if placeable es parent (view_text key) \<and> fits M S (es @ entries (length es) parent (view_text key) (Leaf k (view_text v)))
     then built M S es parent (view_text key) p i (Leaf k (view_text v)) (r, out', p') else \<not> json_succeeded r)"
    using added_leaf [OF rep' key v k, of out parent] unfolding built_position upd .
  then obtain r out' p' where x: "added (p\<lparr>jp_position := i\<rparr>) (add_node out k parent key v (jp_doc p)) = Some (r, out', p')"
    "if placeable es parent (view_text key) \<and> fits M S (es @ entries (length es) parent (view_text key) (Leaf k (view_text v)))
     then built M S es parent (view_text key) p i (Leaf k (view_text v)) (r, out', p') else \<not> json_succeeded r"
    by blast
  show "sound_parse xs M S es parent (view_text key) n p (added (p\<lparr>jp_position := i\<rparr>) (add_node out k parent key v (jp_doc p)))"
  proof (cases "built M S es parent (view_text key) p i (Leaf k (view_text v)) (r, out', p')")
    case True
    then have "jp_position p' = i" by (simp add: built_def)
    then show ?thesis using True x(1) i s num unfolding sound_parse_def
      by (intro exI conjI impI) (assumption, auto simp: spaces_def)
  next
    case False
    then show ?thesis using x by (auto intro: sound_failure split: if_splits)
  qed
  show "exact_parse M S es parent (view_text key) p i (Leaf k (view_text v)) (added (p\<lparr>jp_position := i\<rparr>) (add_node out k parent key v (jp_doc p)))"
    if "placeable es parent (view_text key)" "fits M S (es @ entries (length es) parent (view_text key) (Leaf k (view_text v)))"
    using x that by (auto simp: exact_parse_def built_def)
qed

lemma scratch_is: "\<exists>s. scratch_string p = Some s \<and> length (str_data s) = Suc (length (jd_storage (jp_doc p)))"
proof -
  define N where "N = length (jd_storage (jp_doc p))"
  obtain s where s: "str_clear \<lparr>str_data = replicate (N + 1) 0, str_size = 0\<rparr> = Some s" "str_holds N s []"
    using clear_holds [of "\<lparr>str_data = replicate (N + 1) 0, str_size = 0\<rparr>" N] by auto
  then show ?thesis using holds_sizes(5) [OF s(2)] by (simp add: scratch_string_def str_init_def N_def)
qed

lemma string_value_is:
  assumes rep: "represents M S (jp_doc p) es" and key: "view_ok key" and i: "jp_position p \<le> length xs"
  shows "sound_parse xs M S es parent (view_text key) n p (parse_string_value (Mem xs) out parent key p)"
    and "drop (jp_position p) xs = 0x22 # s @ 0x22 # rest \<Longrightarrow> literal t s \<Longrightarrow> placeable es parent (view_text key) \<Longrightarrow>
      fits M S (es @ entries (length es) parent (view_text key) (Leaf string_value t)) \<Longrightarrow>
      exact_parse M S es parent (view_text key) p (jp_position p + length s + 2) (Leaf string_value t) (parse_string_value (Mem xs) out parent key p)"
proof -
  have S: "length (jd_storage (jp_doc p)) = S" using rep by (simp add: represents_def)
  obtain s0 where s0: "scratch_string p = Some s0" "length (str_data s0) = Suc S" using scratch_is [of p] S by auto
  obtain r j s1 t1 where d: "decode_string (Mem xs) (jp_position p) s0 = Some (r, j, s1)" "str_holds S s1 t1" "quoted S xs (jp_position p) r j t1"
    using decode_string_is [OF i s0(2)] by blast
  have view: "str_view s1 = Mem t1" by (rule holds_sizes(4) [OF d(2)])
  have run: "parse_string_value (Mem xs) out parent key p =
      (if \<not> json_succeeded r then Some (r, out, p\<lparr>jp_position := j\<rparr>)
       else added (p\<lparr>jp_position := j\<rparr>) (add_node out string_value parent key (Mem t1) (jp_doc p)))"
    by (simp add: parse_string_value_def s0(1) d(1) view set_string_def)
  have j: "j \<le> length xs" using d(3) by (simp add: quoted_def)
  show "sound_parse xs M S es parent (view_text key) n p (parse_string_value (Mem xs) out parent key p)"
  proof (cases "json_succeeded r")
    case True
    then obtain q where "drop (jp_position p) xs = 0x22 # q @ 0x22 # drop j xs" "literal t1 q" using d(3) unfolding quoted_def by blast
    then have q: "drop (jp_position p) xs = (0x22 # q @ [0x22]) @ drop j xs" "literal t1 q" by simp_all
    have t: "value_text n (Leaf string_value (view_text (Mem t1))) (0x22 # q @ [0x22])" using text_string [OF q(2)] by simp
    have "sound_parse xs M S es parent (view_text key) n p (added (p\<lparr>jp_position := j\<rparr>) (add_node out string_value parent key (Mem t1) (jp_doc p)))"
      by (rule leaf_decides(1) [OF rep key _ _ i j q(1) t]) simp_all
    then show ?thesis unfolding run using True by (simp only: simp_thms if_False)
  next
    case False
    then show ?thesis by (simp add: run sound_failure)
  qed
  assume s: "drop (jp_position p) xs = 0x22 # s @ 0x22 # rest" "literal t s" and room: "placeable es parent (view_text key)"
    "fits M S (es @ entries (length es) parent (view_text key) (Leaf string_value t))"
  have "length t \<le> S" using room(2) by (simp add: fits_def entry_bytes_def)
  then have q: "r = json_ok" "t1 = t" "j = jp_position p + length s + 2" using d(3) s unfolding quoted_def by blast+
  then have rest: "drop j xs = rest" using arg_cong [OF s(1), of "drop (length s + 2)"] by (simp add: add.commute)
  have "exact_parse M S es parent (view_text key) p j (Leaf string_value (view_text (Mem t1)))
      (added (p\<lparr>jp_position := j\<rparr>) (add_node out string_value parent key (Mem t1) (jp_doc p)))"
  proof (rule leaf_decides(2) [OF rep key _ _ i j])
    show "drop (jp_position p) xs = (0x22 # s @ [0x22]) @ drop j xs" using s(1) rest by simp
    show "value_text 0 (Leaf string_value (view_text (Mem t1))) (0x22 # s @ [0x22])" using text_string [OF s(2)] q by simp
  qed (use room q in simp_all)
  then show "exact_parse M S es parent (view_text key) p (jp_position p + length s + 2) (Leaf string_value t) (parse_string_value (Mem xs) out parent key p)"
    unfolding run using q by simp
qed

lemma literal_matches_is:
  "i + length ls \<le> length xs \<Longrightarrow> literal_matches (Mem xs) i ls = Some (take (length ls) (drop i xs) = ls)"
proof (induction ls arbitrary: i)
  case (Cons l ls)
  then have "drop i xs = xs ! i # drop (Suc i) xs" by (simp add: Cons_nth_drop_Suc)
  then show ?case using Cons by simp
qed simp

definition word_value :: "json_type \<Rightarrow> u8 list \<Rightarrow> u8 list \<Rightarrow> bool" where
  "word_value k word t \<longleftrightarrow> k = boolean_value \<and> word \<in> {true_text, false_text} \<and> t = word \<or> k = null_value \<and> word = null_text \<and> t = []"

lemma word_value_text: "word_value k word t \<Longrightarrow> value_text n (Leaf k t) word"
  using text_bool text_null by (auto simp: word_value_def)

lemma literal_is:
  assumes rep: "represents M S (jp_doc p) es" and key: "view_ok key" and i: "jp_position p \<le> length xs" and w: "word_value k word t"
  shows "sound_parse xs M S es parent (view_text key) n p (parse_literal (Mem xs) word k out parent key p)"
    and "drop (jp_position p) xs = word @ rest \<Longrightarrow> placeable es parent (view_text key) \<Longrightarrow>
      fits M S (es @ entries (length es) parent (view_text key) (Leaf k t)) \<Longrightarrow>
      exact_parse M S es parent (view_text key) p (jp_position p + length word) (Leaf k t) (parse_literal (Mem xs) word k out parent key p)"
proof -
  define v where "v = (if k = null_value then Null 0 else Mem word)"
  let ?j = "jp_position p + length word"
  have v: "view_ok v" "view_text v = t" "k \<notin> {object_value, array_value}" "k = number_value \<longrightarrow> ends (drop ?j xs)"
    using w by (auto simp: v_def word_value_def)
  have tv: "value_text n (Leaf k (view_text v)) word" for n unfolding v(2) by (rule word_value_text [OF w])
  have set: "(if k = boolean_value then set_bool out (hd word = 0x74) parent key (jp_doc p) else set_null out parent key (jp_doc p)) =
      add_node out k parent key v (jp_doc p)"
    using w by (auto simp: word_value_def v_def set_bool_def set_null_def true_text_def false_text_def)
  have run: "parse_literal (Mem xs) word k out parent key p = added (p\<lparr>jp_position := ?j\<rparr>) (add_node out k parent key v (jp_doc p))"
    if "drop (jp_position p) xs = word @ drop ?j xs" "?j \<le> length xs"
  proof -
    have "take (length word) (drop (jp_position p) xs) = word" using that(1) by (metis append_eq_conv_conj)
    then have "literal_matches (Mem xs) (jp_position p) word = Some True" using literal_matches_is [OF that(2)] by simp
    then show ?thesis using that(2) set unfolding parse_literal_def Let_def by (cases "k = boolean_value") simp_all
  qed
  have fails: "\<exists>r. parse_literal (Mem xs) word k out parent key p = Some (r, out, p) \<and> \<not> json_succeeded r"
    if "\<not> (drop (jp_position p) xs = word @ drop ?j xs \<and> ?j \<le> length xs)"
  proof (cases "?j \<le> length xs")
    case True
    have "take (length word) (drop (jp_position p) xs) \<noteq> word"
    proof
      assume "take (length word) (drop (jp_position p) xs) = word"
      then have "drop (jp_position p) xs = word @ drop ?j xs" by (metis append_take_drop_id drop_drop add.commute)
      then show False using that True by simp
    qed
    then have "literal_matches (Mem xs) (jp_position p) word = Some False" using literal_matches_is [OF True] by simp
    then show ?thesis using True fail_total [of xs p invalid_literal] by (auto simp: parse_literal_def)
  next
    case False
    then show ?thesis using fail_total [of xs p unexpected_end] by (auto simp: parse_literal_def)
  qed
  show "sound_parse xs M S es parent (view_text key) n p (parse_literal (Mem xs) word k out parent key p)"
  proof (cases "drop (jp_position p) xs = word @ drop ?j xs \<and> ?j \<le> length xs")
    case True
    show ?thesis unfolding run [OF conjunct1 [OF True] conjunct2 [OF True]]
      by (rule leaf_decides(1) [OF rep key v(1,3) i conjunct2 [OF True] conjunct1 [OF True] tv v(4)])
  next
    case False
    then show ?thesis using fails sound_failure by blast
  qed
  assume s: "drop (jp_position p) xs = word @ rest" and room: "placeable es parent (view_text key)"
    "fits M S (es @ entries (length es) parent (view_text key) (Leaf k t))"
  have "length xs - jp_position p = length word + length rest" using arg_cong [OF s, of length] by simp
  then have j: "drop ?j xs = rest" "?j \<le> length xs"
    using s i by (metis add.commute append_eq_conv_conj drop_drop, linarith)
  show "exact_parse M S es parent (view_text key) p ?j (Leaf k t) (parse_literal (Mem xs) word k out parent key p)"
    using leaf_decides(2) [OF rep key v(1,3) i j(2) _ tv v(4), where parent = parent and out = out] run s j room v(2) by simp
qed

definition number_char :: "u8 \<Rightarrow> bool" where
  "number_char c \<longleftrightarrow> json_digit c \<or> c = 0x2D \<or> c = 0x2B \<or> c = 0x2E \<or> c = 0x65 \<or> c = 0x45"

lemma number_char_inside: "number_char c \<Longrightarrow> \<not> is_number_delimiter c"
  by (auto simp: number_char_def json_digit_def is_number_delimiter_def is_space_def)

lemma json_number_chars: "json_number s \<Longrightarrow> list_all number_char s \<and> s \<noteq> [] \<and> (hd s = 0x2D \<or> json_digit (hd s))"
proof -
  assume "json_number s"
  then obtain a b c where s: "integer_text a" "fraction_text b" "exponent_text c" "s = a @ b @ c \<or> s = 0x2D # a @ b @ c"
    by (auto simp: json_number_def)
  have ds: "digit_text ds \<Longrightarrow> list_all number_char ds \<and> ds \<noteq> [] \<and> json_digit (hd ds)" for ds
    by (cases ds) (auto simp: digit_text_def list_all_iff number_char_def)
  have z: "list_all number_char [0x30]" "json_digit 0x30" by (simp_all add: number_char_def json_digit_def)
  have a: "list_all number_char a \<and> a \<noteq> [] \<and> json_digit (hd a)" using s(1) ds [of a] z by (auto simp: integer_text_def)
  have sym: "number_char 0x2D" "number_char 0x2B" "number_char 0x2E" "number_char 0x65" "number_char 0x45" by (simp_all add: number_char_def)
  have "list_all number_char b" using s(2) ds sym by (auto simp: fraction_text_def)
  moreover have "list_all number_char c" using s(3) ds sym by (auto simp: exponent_text_def)
  ultimately show ?thesis using a s(4) sym by (cases a) auto
qed

definition number_run :: "u8 list \<Rightarrow> u8 list" where
  "number_run s = takeWhile (\<lambda>c. \<not> is_number_delimiter c) s"

lemma number_loop_is: "i \<le> length xs \<Longrightarrow>
  (if list_all number_char (number_run (drop i xs)) then number_loop (Mem xs) i = Some (Inr (i + length (number_run (drop i xs))))
   else \<exists>bad. number_loop (Mem xs) i = Some (Inl bad))"
proof (induction "length xs - i" arbitrary: i)
  case 0
  then show ?case by (subst number_loop.simps) (simp add: number_run_def)
next
  case (Suc n)
  define c where "c = xs ! i"
  have c: "drop i xs = c # drop (Suc i) xs" "rd (Mem xs) i = Some c" "i < length xs" using Suc.hyps(2) by (simp_all add: Cons_nth_drop_Suc c_def)
  have step: "number_loop (Mem xs) i = (if is_number_delimiter c then Some (Inr i) else if \<not> number_char c then Some (Inl i) else number_loop (Mem xs) (Suc i))"
    using c by (subst number_loop.simps) (simp add: number_char_def)
  show ?case using Suc.hyps(1) [of "Suc i"] Suc.hyps(2) c(1,3) number_char_inside [of c]
    by (auto simp: step number_run_def)
qed

lemma number_run_exact: "list_all number_char s \<Longrightarrow> ends rest \<Longrightarrow> number_run (s @ rest) = s"
proof (induction s)
  case Nil
  then show ?case by (cases rest) (auto simp: number_run_def ends_def)
next
  case (Cons c s)
  then show ?case using number_char_inside [of c] by (simp add: number_run_def)
qed

lemma number_run_ends: "ends (dropWhile (\<lambda>c. \<not> is_number_delimiter c) s)"
  using hd_dropWhile [of "\<lambda>c. \<not> is_number_delimiter c" s] by (auto simp: ends_def)

lemma number_is:
  assumes rep: "represents M S (jp_doc p) es" and key: "view_ok key" and i: "jp_position p \<le> length xs"
  shows "sound_parse xs M S es parent (view_text key) n p (parse_number (Mem xs) out parent key p)"
    and "drop (jp_position p) xs = s @ rest \<Longrightarrow> json_number s \<Longrightarrow> ends rest \<Longrightarrow> placeable es parent (view_text key) \<Longrightarrow>
      fits M S (es @ entries (length es) parent (view_text key) (Leaf number_value s)) \<Longrightarrow>
      exact_parse M S es parent (view_text key) p (jp_position p + length s) (Leaf number_value s) (parse_number (Mem xs) out parent key p)"
proof -
  define t where "t = number_run (drop (jp_position p) xs)"
  let ?j = "jp_position p + length t"
  have "length t \<le> length xs - jp_position p"
    unfolding t_def number_run_def using length_takeWhile_le [of _ "drop (jp_position p) xs"] by (metis length_drop)
  then have j: "?j \<le> length xs" using i by simp
  have rest: "drop ?j xs = dropWhile (\<lambda>c. \<not> is_number_delimiter c) (drop (jp_position p) xs)"
    unfolding t_def number_run_def by (rule drop_run)
  have split: "drop (jp_position p) xs = t @ drop ?j xs" unfolding rest by (simp add: t_def number_run_def)
  have "take (length t) (drop (jp_position p) xs) = t" by (subst split) simp
  moreover have "\<not> length xs - jp_position p < length t" using i j by linarith
  ultimately have view: "view_substr (Mem xs) (jp_position p) (Some (length t)) = Mem t"
    using i by (simp add: view_substr_def Let_def)
  have run: "parse_number (Mem xs) out parent key p = added (p\<lparr>jp_position := ?j\<rparr>) (add_node out number_value parent key (Mem t) (jp_doc p))"
    if "json_number t"
  proof -
    have "number_loop (Mem xs) (jp_position p) = Some (Inr ?j)"
      using number_loop_is [OF i] json_number_chars [OF that] by (simp add: t_def)
    then show ?thesis using that view by (simp add: parse_number_def Let_def valid_number_is set_number_def)
  qed
  have fails: "\<exists>r p'. parse_number (Mem xs) out parent key p = Some (r, out, p') \<and> \<not> json_succeeded r" if "\<not> json_number t"
  proof (cases "list_all number_char t")
    case True
    then have "number_loop (Mem xs) (jp_position p) = Some (Inr ?j)" using number_loop_is [OF i] by (simp add: t_def)
    then show ?thesis using that view fail_total [of xs "p\<lparr>jp_position := ?j\<rparr>" invalid_number]
      by (auto simp: parse_number_def Let_def valid_number_is)
  next
    case False
    then obtain bad where "number_loop (Mem xs) (jp_position p) = Some (Inl bad)" using number_loop_is [OF i] by (auto simp: t_def)
    then show ?thesis using fail_total [of xs "p\<lparr>jp_position := bad\<rparr>" invalid_number] by (auto simp: parse_number_def Let_def)
  qed
  have num: "number_value = number_value \<longrightarrow> ends (drop ?j xs)" using number_run_ends by (simp add: rest)
  show "sound_parse xs M S es parent (view_text key) n p (parse_number (Mem xs) out parent key p)"
  proof (cases "json_number t")
    case True
    have "value_text n (Leaf number_value (view_text (Mem t))) t" using text_number [OF True] by simp
    then show ?thesis unfolding run [OF True] by (intro leaf_decides(1) [OF rep key _ _ i j split _ num]) simp_all
  next
    case False
    then show ?thesis using fails sound_failure by blast
  qed
  assume s: "drop (jp_position p) xs = s @ rest" "json_number s" "ends rest" and room: "placeable es parent (view_text key)"
    "fits M S (es @ entries (length es) parent (view_text key) (Leaf number_value s))"
  have t: "t = s" unfolding t_def s(1) using number_run_exact s(2,3) json_number_chars by blast
  have "value_text 0 (Leaf number_value (view_text (Mem t))) t" using text_number [OF s(2)] t by simp
  then have "exact_parse M S es parent (view_text key) p ?j (Leaf number_value (view_text (Mem t)))
      (added (p\<lparr>jp_position := ?j\<rparr>) (add_node out number_value parent key (Mem t) (jp_doc p)))"
    by (intro leaf_decides(2) [OF rep key _ _ i j split _ num]) (use room t in simp_all)
  then show "exact_parse M S es parent (view_text key) p (jp_position p + length s) (Leaf number_value s) (parse_number (Mem xs) out parent key p)"
    using run s(2) t by simp
qed

end
