(* ===== verification/JsonSound.thy ===== *)
theory JsonSound
  imports JsonParser
begin

text \<open>
  What \<open>parser::run\<close> accepts: the two loops and the two container functions are put into one shape, then the parser
  is shown to succeed exactly on the texts of \<open>value_text\<close> that fit the document, and to add their \<open>entries\<close>.
\<close>

section \<open>Objects and arrays in one shape\<close>

definition member_step :: "json_type \<Rightarrow> value_parser \<Rightarrow> u8 ptr \<Rightarrow> node_id \<Rightarrow> json_parser \<Rightarrow> (json_result \<times> json_parser) option" where
  "member_step k value source out p =
     (if k = object_value then do {
        c \<leftarrow> rd source (jp_position p);
        if c \<noteq> 0x22 then do { r \<leftarrow> parser_fail source p unexpected_token; Some (r, p) }
        else do {
          key \<leftarrow> scratch_string p;
          (kr, i, key) \<leftarrow> decode_string source (jp_position p) key;
          let p = p\<lparr>jp_position := i\<rparr>;
          if \<not> json_succeeded kr then Some (kr, p)
          else do {
            p \<leftarrow> skip_space source p;
            colon \<leftarrow> at_char source (jp_position p) (\<lambda>c. c = 0x3A);
            if \<not> colon then do { r \<leftarrow> parser_fail source p unexpected_token; Some (r, p) }
            else do {
              (vr, child, p) \<leftarrow> value None out (str_view key) (p\<lparr>jp_position := jp_position p + 1\<rparr>);
              Some (vr, p) } } } }
      else do { (vr, child, p) \<leftarrow> value None out (Null 0) p; Some (vr, p) })"

definition loop_tail :: "u8 \<Rightarrow> (json_parser \<Rightarrow> (json_result \<times> json_parser) option) \<Rightarrow> u8 ptr \<Rightarrow> json_parser \<Rightarrow> (json_result \<times> json_parser) option" where
  "loop_tail close cont source p = do {
     p \<leftarrow> skip_space source p;
     closed \<leftarrow> at_char source (jp_position p) (\<lambda>c. c = close);
     if closed then Some (json_ok, leave (p\<lparr>jp_position := jp_position p + 1\<rparr>))
     else do {
       comma \<leftarrow> at_char source (jp_position p) (\<lambda>c. c = 0x2C);
       if \<not> comma then do { r \<leftarrow> parser_fail source p unexpected_token; Some (r, leave p) }
       else do {
         p \<leftarrow> skip_space source (p\<lparr>jp_position := jp_position p + 1\<rparr>);
         cont p } } }"

definition members_loop :: "json_type \<Rightarrow> value_parser \<Rightarrow> u8 ptr \<Rightarrow> node_id \<Rightarrow> json_parser \<Rightarrow> (json_result \<times> json_parser) option" where
  "members_loop k value source out p = (if k = object_value then object_loop value source out p else array_loop value source out p)"

lemma fail_bind: "Option.bind (parser_fail (Mem xs) p c) (\<lambda>r. if \<not> json_succeeded r then F r else G r) = Option.bind (parser_fail (Mem xs) p c) F"
  using fail_total [of xs p c] by auto

lemma bind_if: "Option.bind (if b then x else y) f = (if b then Option.bind x f else Option.bind y f)"
  by simp

lemma bind_prod: "Option.bind (case z of (a, b) \<Rightarrow> F a b) f = (case z of (a, b) \<Rightarrow> Option.bind (F a b) f)"
  by (cases z) simp

lemma members_loop_unfold:
  "members_loop k value (Mem xs) out p =
     (if jp_position p < length xs then do {
        (r, p) \<leftarrow> member_step k value (Mem xs) out p;
        if \<not> json_succeeded r then Some (r, leave p)
        else loop_tail (close_bracket k) (members_loop k value (Mem xs) out) (Mem xs) p }
      else do { r \<leftarrow> parser_fail (Mem xs) p unexpected_end; Some (r, leave p) })"
proof (cases "k = object_value")
  case True
  have same: "members_loop object_value value (Mem xs) out = object_loop value (Mem xs) out" by (simp add: members_loop_def fun_eq_iff)
  show ?thesis
    unfolding True same
    by (subst (1) object_loop.simps)
      (simp only: member_step_def loop_tail_def close_bracket_def Let_def Option.bind_assoc bind_if bind_prod fail_bind
        Option.bind.bind_lunit prod.case simp_thms if_True if_False psize.simps cong: if_cong)
next
  case False
  then have same: "members_loop k value (Mem xs) out = array_loop value (Mem xs) out" by (simp add: members_loop_def fun_eq_iff)
  show ?thesis
    unfolding same
    by (subst (1) array_loop.simps)
      (simp only: member_step_def loop_tail_def close_bracket_def Let_def Option.bind_assoc bind_if bind_prod fail_bind False
        Option.bind.bind_lunit prod.case simp_thms if_False psize.simps)
qed

definition parse_branch :: "json_type \<Rightarrow> nat \<Rightarrow> value_parser \<Rightarrow> u8 ptr \<Rightarrow> node_id \<Rightarrow> node_id \<Rightarrow> u8 ptr \<Rightarrow> json_parser \<Rightarrow> parsed" where
  "parse_branch k max_depth value source out parent key p = do {
     let p = p\<lparr>jp_position := jp_position p + 1, jp_depth := jp_depth p + 1\<rparr>;
     if jp_depth p > max_depth then do { r \<leftarrow> parser_fail source p depth_exceeded; Some (r, out, leave p) }
     else do {
       (s, out, d) \<leftarrow> add_node out k parent key (Null 0) (jp_doc p);
       let p = p\<lparr>jp_doc := d\<rparr>;
       if s \<noteq> status_ok then Some (capacity_result s p, out, leave p)
       else do {
         p \<leftarrow> skip_space source p;
         closed \<leftarrow> at_char source (jp_position p) (\<lambda>c. c = close_bracket k);
         if closed then Some (json_ok, out, leave (p\<lparr>jp_position := jp_position p + 1\<rparr>))
         else do { (r, p) \<leftarrow> members_loop k value source out p; Some (r, out, p) } } } }"

lemma parse_branches:
  "parse_object max_depth value source out parent key p = parse_branch object_value max_depth value source out parent key p"
  "parse_array max_depth value source out parent key p = parse_branch array_value max_depth value source out parent key p"
  unfolding parse_object_def parse_array_def parse_branch_def make_object_def make_array_def close_bracket_def members_loop_def Let_def
  by (simp_all only: simp_thms if_True if_False json_type.distinct)

section \<open>Soundness\<close>

definition value_sound :: "u8 list \<Rightarrow> nat \<Rightarrow> nat \<Rightarrow> nat \<Rightarrow> nat \<Rightarrow> value_parser \<Rightarrow> bool" where
  "value_sound xs M S n m value \<longleftrightarrow> (\<forall>es parent key p out. represents M S (jp_doc p) es \<longrightarrow> view_ok key \<longrightarrow>
     jp_position p \<le> length xs \<longrightarrow> jp_depth p = m \<longrightarrow> sound_parse xs M S es parent (view_text key) n p (value out parent key p))"

lemma value_soundD:
  assumes "value_sound xs M S n m value" and "represents M S (jp_doc p) es" and "view_ok key" and "jp_position p \<le> length xs" and "jp_depth p = m"
  shows "sound_parse xs M S es parent (view_text key) n p (value out parent key p)"
  using assms unfolding value_sound_def by blast

definition sound_member :: "u8 list \<Rightarrow> nat \<Rightarrow> nat \<Rightarrow> json_entry list \<Rightarrow> nat \<Rightarrow> nat \<Rightarrow> json_type \<Rightarrow> json_parser \<Rightarrow> (json_result \<times> json_parser) option \<Rightarrow> bool" where
  "sound_member xs M S es q n k p x \<longleftrightarrow> (\<exists>r p'. x = Some (r, p') \<and>
     (json_succeeded r \<longrightarrow> (\<exists>w key v s. jp_position p' \<le> length xs \<and> drop (jp_position p) xs = w @ s @ drop (jp_position p') xs \<and>
        spaces w \<and> member_text n k key v s \<and> (is_number v \<longrightarrow> ends (drop (jp_position p') xs)) \<and>
        jp_depth p' = jp_depth p \<and> represents M S (jp_doc p') (es @ entries (length es) (Some q) key v))))"

definition sound_members :: "u8 list \<Rightarrow> nat \<Rightarrow> nat \<Rightarrow> json_entry list \<Rightarrow> nat \<Rightarrow> nat \<Rightarrow> json_type \<Rightarrow> json_parser \<Rightarrow> (json_result \<times> json_parser) option \<Rightarrow> bool" where
  "sound_members xs M S es q n k p x \<longleftrightarrow> (\<exists>r p'. x = Some (r, p') \<and>
     (json_succeeded r \<longrightarrow> (\<exists>w ms s. jp_position p' \<le> length xs \<and> drop (jp_position p) xs = w @ s @ drop (jp_position p') xs \<and>
        spaces w \<and> members_text n k ms s \<and> r = json_ok \<and>
        jp_depth p' = jp_depth p - 1 \<and> represents M S (jp_doc p') (es @ member_entries (length es) q ms))))"

lemma spaces_append [simp]: "spaces [] \<longleftrightarrow> True" "spaces (v @ w) \<longleftrightarrow> spaces v \<and> spaces w"
  by (simp_all add: spaces_def)

lemma drop_run_eq: "drop i xs = s @ drop j xs \<Longrightarrow> i \<le> length xs \<Longrightarrow> j \<le> length xs \<Longrightarrow> j = i + length s"
proof -
  assume "drop i xs = s @ drop j xs" and ij: "i \<le> length xs" "j \<le> length xs"
  then have "length xs - i = length s + (length xs - j)" by (metis length_append length_drop)
  then show ?thesis using ij by linarith
qed

lemma member_sound:
  assumes val: "value_sound xs M S n m value" and rep: "represents M S (jp_doc p) es" and q: "q < length es" "en_kind (es ! q) = k"
    and k: "k \<in> {object_value, array_value}" and i: "jp_position p < length xs" and m: "jp_depth p = m"
  shows "sound_member xs M S es q n k p (member_step k value (Mem xs) (Some q) p)"
proof (cases "k = object_value")
  case False
  have "sound_parse xs M S es (Some q) (view_text (Null 0)) n p (value None (Some q) (Null 0) p)"
    by (rule value_soundD [OF val rep]) (use i m in simp_all)
  then obtain r out' p' where x: "value None (Some q) (Null 0) p = Some (r, out', p')"
    "json_succeeded r \<longrightarrow> (\<exists>v w s. jp_position p' \<le> length xs \<and> drop (jp_position p) xs = w @ s @ drop (jp_position p') xs \<and>
        spaces w \<and> value_text n v s \<and> (is_number v \<longrightarrow> ends (drop (jp_position p') xs)) \<and>
        built M S es (Some q) [] p (jp_position p') v (r, out', p'))"
    unfolding sound_parse_def view_text.simps by blast
  have kk: "k = array_value" using False k by simp
  have "\<exists>w key v s. jp_position p' \<le> length xs \<and> drop (jp_position p) xs = w @ s @ drop (jp_position p') xs \<and>
        spaces w \<and> member_text n k key v s \<and> (is_number v \<longrightarrow> ends (drop (jp_position p') xs)) \<and>
        jp_depth p' = jp_depth p \<and> represents M S (jp_doc p') (es @ entries (length es) (Some q) key v)" if succ: "json_succeeded r"
  proof -
    obtain v w s where v: "jp_position p' \<le> length xs" "drop (jp_position p) xs = w @ s @ drop (jp_position p') xs"
        "spaces w" "value_text n v s" "is_number v \<longrightarrow> ends (drop (jp_position p') xs)"
        "built M S es (Some q) [] p (jp_position p') v (r, out', p')" using mp [OF x(2) succ] by blast
    then show ?thesis using text_element [OF v(4)] unfolding kk built_def by blast
  qed
  then show ?thesis using False x(1) by (simp add: sound_member_def member_step_def)
next
  case True
  obtain c where c: "rd (Mem xs) (jp_position p) = Some c" using i by simp
  show ?thesis
  proof (cases "c = 0x22")
    case False
    then show ?thesis using True c fail_total [of xs p unexpected_token] by (auto simp: sound_member_def member_step_def)
  next
    case quote: True
    have S: "length (jd_storage (jp_doc p)) = S" using rep by (simp add: represents_def)
    obtain s0 where s0: "scratch_string p = Some s0" "length (str_data s0) = Suc S" using scratch_is [of p] S by auto
    have ile: "jp_position p \<le> length xs" using i by simp
    obtain kr j s1 t where d: "decode_string (Mem xs) (jp_position p) s0 = Some (kr, j, s1)" "str_holds S s1 t" "quoted S xs (jp_position p) kr j t"
      using decode_string_is [OF ile s0(2)] by blast
    have view: "str_view s1 = Mem t" by (rule holds_sizes(4) [OF d(2)])
    show ?thesis
    proof (cases "json_succeeded kr")
      case False
      then show ?thesis using True c quote s0 d(1) by (simp add: sound_member_def member_step_def)
    next
      case key: True
      then obtain u where u: "drop (jp_position p) xs = 0x22 # u @ 0x22 # drop j xs" "literal t u" and j: "j \<le> length xs"
        using d(3) unfolding quoted_def by blast
      obtain w i1 where w: "skip_space (Mem xs) (p\<lparr>jp_position := j\<rparr>) = Some (p\<lparr>jp_position := i1\<rparr>)" "i1 \<le> length xs"
        "drop j xs = w @ drop i1 xs" "spaces w" using skip_total [of "p\<lparr>jp_position := j\<rparr>" xs] j by auto
      show ?thesis
      proof (cases "\<exists>zs. drop i1 xs = 0x3A # zs")
        case False
        then have "at_char (Mem xs) i1 (\<lambda>c. c = 0x3A) = Some False" by (auto simp: at_char_is split: list.splits)
        then show ?thesis using True c quote s0 d(1) key w(1) fail_total [of xs "p\<lparr>jp_position := i1\<rparr>" unexpected_token]
          by (auto simp: sound_member_def member_step_def Let_def)
      next
        case colon: True
        then obtain zs where zs: "drop i1 xs = 0x3A # zs" by blast
        note z = drop_next [OF zs]
        have at: "at_char (Mem xs) i1 (\<lambda>c. c = 0x3A) = Some True" using zs by (simp add: at_char_is)
        define p1 where "p1 = p\<lparr>jp_position := i1 + 1\<rparr>"
        have "sound_parse xs M S es (Some q) (view_text (Mem t)) n p1 (value None (Some q) (Mem t) p1)"
          by (rule value_soundD [OF val]) (use rep z(1) m in \<open>simp_all add: p1_def\<close>)
        then obtain r out' p' where x: "value None (Some q) (Mem t) p1 = Some (r, out', p')"
          "json_succeeded r \<longrightarrow> (\<exists>v w s. jp_position p' \<le> length xs \<and> drop (jp_position p1) xs = w @ s @ drop (jp_position p') xs \<and>
            spaces w \<and> value_text n v s \<and> (is_number v \<longrightarrow> ends (drop (jp_position p') xs)) \<and>
            built M S es (Some q) t p1 (jp_position p') v (r, out', p'))"
          unfolding sound_parse_def view_text.simps by blast
        have run: "member_step k value (Mem xs) (Some q) p = Some (r, p')"
          using True c quote s0 d(1) key w(1) at x(1) view by (simp add: member_step_def Let_def p1_def)
        have "\<exists>w key v s. jp_position p' \<le> length xs \<and> drop (jp_position p) xs = w @ s @ drop (jp_position p') xs \<and>
            spaces w \<and> member_text n k key v s \<and> (is_number v \<longrightarrow> ends (drop (jp_position p') xs)) \<and>
            jp_depth p' = jp_depth p \<and> represents M S (jp_doc p') (es @ entries (length es) (Some q) key v)" if succ: "json_succeeded r"
        proof -
          obtain v w' s where v: "jp_position p' \<le> length xs" "drop (jp_position p1) xs = w' @ s @ drop (jp_position p') xs"
            "spaces w'" "value_text n v s" "is_number v \<longrightarrow> ends (drop (jp_position p') xs)"
            "built M S es (Some q) t p1 (jp_position p') v (r, out', p')" using mp [OF x(2) succ] by blast
          have "t \<noteq> []" using v(6) q True by (simp add: built_def placeable_def)
          then have mt: "member_text n k t v (0x22 # u @ 0x22 # w @ 0x3A # w' @ s)" unfolding True using u(2) w(4) v(3,4) by (rule text_member)
          have "drop (jp_position p) xs = [] @ (0x22 # u @ 0x22 # w @ 0x3A # w' @ s) @ drop (jp_position p') xs"
            using u(1) w(3) zs z(3) v(2) by (simp add: p1_def)
          moreover have "jp_depth p' = jp_depth p" "represents M S (jp_doc p') (es @ entries (length es) (Some q) t v)"
            using v(6) by (simp_all add: built_def p1_def)
          ultimately show ?thesis using mt v(1,5) spaces_append(1) by blast
        qed
        then show ?thesis using run by (simp add: sound_member_def)
      qed
    qed
  qed
qed

text \<open>The end of a loop: a failure, the closing bracket, or a comma and the next member.\<close>

lemma loop_tail_cases:
  assumes i: "jp_position p \<le> length xs" and close: "close \<noteq> 0x2C"
  obtains (fails) r p' where "loop_tail close cont (Mem xs) p = Some (r, p')" "\<not> json_succeeded r"
    | (closes) w j where "drop (jp_position p) xs = w @ close # drop j xs" "spaces w" "j \<le> length xs"
        "loop_tail close cont (Mem xs) p = Some (json_ok, leave (p\<lparr>jp_position := j\<rparr>))"
    | (goes_on) w w' j where "drop (jp_position p) xs = w @ 0x2C # w' @ drop j xs" "spaces w" "spaces w'" "j \<le> length xs" "jp_position p < j"
        "loop_tail close cont (Mem xs) p = cont (p\<lparr>jp_position := j\<rparr>)"
proof -
  obtain w i1 where w: "skip_space (Mem xs) p = Some (p\<lparr>jp_position := i1\<rparr>)" "jp_position p \<le> i1" "i1 \<le> length xs"
    "drop (jp_position p) xs = w @ drop i1 xs" "spaces w" using skip_total [OF i] by blast
  note run = loop_tail_def [of close cont "Mem xs" p, unfolded w(1)]
  show ?thesis
  proof (cases "drop i1 xs")
    case Nil
    obtain r where "parser_fail (Mem xs) (p\<lparr>jp_position := i1\<rparr>) unexpected_token = Some r" "\<not> json_succeeded r" using fail_total by blast
    then show ?thesis using Nil by (intro fails [of r]) (simp_all add: run at_char_is)
  next
    case (Cons c zs)
    note z = drop_next [OF Cons]
    consider "c = close" | "c = 0x2C" | "c \<noteq> close" "c \<noteq> 0x2C" by blast
    then show ?thesis
    proof cases
      case 1
      show ?thesis by (rule closes [of w "i1 + 1"]) (use 1 Cons z w in \<open>simp_all add: run at_char_is\<close>)
    next
      case 2
      obtain w' j where w': "skip_space (Mem xs) (p\<lparr>jp_position := i1 + 1\<rparr>) = Some (p\<lparr>jp_position := j\<rparr>)" "i1 + 1 \<le> j" "j \<le> length xs"
        "drop (i1 + 1) xs = w' @ drop j xs" "spaces w'" using skip_total [of "p\<lparr>jp_position := i1 + 1\<rparr>" xs] z(1) by auto
      show ?thesis by (rule goes_on [of w w' j]) (use 2 close Cons z w w' in \<open>simp_all add: run at_char_is\<close>)
    next
      case 3
      obtain r where "parser_fail (Mem xs) (p\<lparr>jp_position := i1\<rparr>) unexpected_token = Some r" "\<not> json_succeeded r" using fail_total by blast
      then show ?thesis using 3 Cons by (intro fails [of r]) (simp_all add: run at_char_is)
    qed
  qed
qed

lemma text_starts:
  "value_text n v s \<Longrightarrow> s \<noteq> [] \<and> \<not> is_space (hd s)"
  "member_text n k key v s \<Longrightarrow> s \<noteq> [] \<and> \<not> is_space (hd s)"
  "members_text n k ms s \<Longrightarrow> s \<noteq> [] \<and> \<not> is_space (hd s)"
proof (induction rule: value_text_member_text_members_text.inducts)
  case (text_number s n)
  then show ?case using json_number_chars [of s] by (auto simp: is_space_def json_digit_def)
qed (auto simp: is_space_def null_text_def true_text_def false_text_def open_bracket_def)

lemma loop_sound:
  assumes val: "value_sound xs M S n m value" and k: "k \<in> {object_value, array_value}" and q: "q < length es" "en_kind (es ! q) = k"
  shows "represents M S (jp_doc p) es \<Longrightarrow> jp_position p \<le> length xs \<Longrightarrow> jp_depth p = m \<Longrightarrow>
    sound_members xs M S es q n k p (members_loop k value (Mem xs) (Some q) p)"
  using q
proof (induction "length xs - jp_position p" arbitrary: p es rule: less_induct)
  case less
  note rep = less.prems(1) and q = less.prems(4,5)
  show ?case
  proof (cases "jp_position p < length xs")
    case False
    then show ?thesis using fail_total [of xs p unexpected_end] by (auto simp: members_loop_unfold sound_members_def)
  next
    case True
    obtain r p1 where step: "member_step k value (Mem xs) (Some q) p = Some (r, p1)"
      "json_succeeded r \<longrightarrow> (\<exists>w key v s. jp_position p1 \<le> length xs \<and> drop (jp_position p) xs = w @ s @ drop (jp_position p1) xs \<and>
        spaces w \<and> member_text n k key v s \<and> (is_number v \<longrightarrow> ends (drop (jp_position p1) xs)) \<and>
        jp_depth p1 = jp_depth p \<and> represents M S (jp_doc p1) (es @ entries (length es) (Some q) key v))"
      using member_sound [OF val rep q k True less.prems(3)] unfolding sound_member_def by blast
    show ?thesis
    proof (cases "json_succeeded r")
      case False
      then show ?thesis using True step(1) by (simp add: members_loop_unfold [where p = p] sound_members_def)
    next
      case succ: True
      obtain w key v s where m: "jp_position p1 \<le> length xs" "drop (jp_position p) xs = w @ s @ drop (jp_position p1) xs"
        "spaces w" "member_text n k key v s" "is_number v \<longrightarrow> ends (drop (jp_position p1) xs)"
        "jp_depth p1 = jp_depth p" "represents M S (jp_doc p1) (es @ entries (length es) (Some q) key v)" using mp [OF step(2) succ] by blast
      define es1 where "es1 = es @ entries (length es) (Some q) key v"
      have forward: "jp_position p < jp_position p1"
        using drop_run_eq [of "jp_position p" xs "w @ s" "jp_position p1"] m(1,2) True text_starts(2) [OF m(4)] by auto
      have run: "members_loop k value (Mem xs) (Some q) p = loop_tail (close_bracket k) (members_loop k value (Mem xs) (Some q)) (Mem xs) p1"
        using True step(1) succ by (simp add: members_loop_unfold [where p = p])
      have close: "close_bracket k \<noteq> 0x2C" by (simp add: close_bracket_def)
      show ?thesis
      proof (cases rule: loop_tail_cases [OF m(1) close, where cont = "members_loop k value (Mem xs) (Some q)", case_names fails closes goes_on])
        case (fails r p')
        then show ?thesis by (simp add: run sound_members_def)
      next
        case (closes w1 j)
        have mt: "members_text n k [(key, v)] (s @ w1 @ [close_bracket k])" using m(4) closes(2) by (rule text_last)
        have "drop (jp_position p) xs = w @ (s @ w1 @ [close_bracket k]) @ drop j xs" using m(2) closes(1) by simp
        then have "\<exists>w' ms s'. j \<le> length xs \<and> drop (jp_position p) xs = w' @ s' @ drop j xs \<and> spaces w' \<and> members_text n k ms s' \<and>
            represents M S (jp_doc p1) (es @ member_entries (length es) q ms)"
          using closes(3) m(3,7) mt by (intro exI [of _ w] exI [of _ "[(key, v)]"] exI [of _ "s @ w1 @ [close_bracket k]"]) (simp add: Let_def)
        then show ?thesis unfolding run closes(4) sound_members_def using m(6) by (simp add: leave_def)
      next
        case (goes_on w1 w2 j)
        define p2 where "p2 = p1\<lparr>jp_position := j\<rparr>"
        have "sound_members xs M S es1 q n k p2 (members_loop k value (Mem xs) (Some q) p2)"
        proof (rule less.hyps)
          show "length xs - jp_position p2 < length xs - jp_position p" using forward goes_on(4,5) True by (simp add: p2_def)
          show "represents M S (jp_doc p2) es1" using m(7) by (simp add: p2_def es1_def)
          show "q < length es1" "en_kind (es1 ! q) = k" using q by (simp_all add: es1_def nth_append)
        qed (use goes_on less.prems(3) m(6) in \<open>simp_all add: p2_def\<close>)
        then obtain r2 p3 where t: "members_loop k value (Mem xs) (Some q) p2 = Some (r2, p3)"
          "json_succeeded r2 \<longrightarrow> (\<exists>w ms s. jp_position p3 \<le> length xs \<and> drop (jp_position p2) xs = w @ s @ drop (jp_position p3) xs \<and>
            spaces w \<and> members_text n k ms s \<and> r2 = json_ok \<and>
            jp_depth p3 = jp_depth p2 - 1 \<and> represents M S (jp_doc p3) (es1 @ member_entries (length es1) q ms))"
          unfolding sound_members_def by blast
        have "\<exists>w ms s. jp_position p3 \<le> length xs \<and> drop (jp_position p) xs = w @ s @ drop (jp_position p3) xs \<and>
            spaces w \<and> members_text n k ms s \<and> r2 = json_ok \<and>
            jp_depth p3 = jp_depth p - 1 \<and> represents M S (jp_doc p3) (es @ member_entries (length es) q ms)" if succ2: "json_succeeded r2"
        proof -
          obtain w3 ms s2 where u: "jp_position p3 \<le> length xs" "drop (jp_position p2) xs = w3 @ s2 @ drop (jp_position p3) xs"
            "spaces w3" "members_text n k ms s2" "r2 = json_ok" "jp_depth p3 = jp_depth p2 - 1"
            "represents M S (jp_doc p3) (es1 @ member_entries (length es1) q ms)" using mp [OF t(2) succ2] by blast
          have mt: "members_text n k ((key, v) # ms) (s @ w1 @ 0x2C # (w2 @ w3) @ s2)"
            using m(4) goes_on(2) _ u(4) by (rule text_more) (use goes_on(3) u(3) in simp)
          have "drop (jp_position p) xs = w @ (s @ w1 @ 0x2C # (w2 @ w3) @ s2) @ drop (jp_position p3) xs"
            using m(2) goes_on(1) u(2) by (simp add: p2_def)
          moreover have "es1 @ member_entries (length es1) q ms = es @ member_entries (length es) q ((key, v) # ms)"
            by (simp add: es1_def Let_def)
          moreover have "jp_depth p3 = jp_depth p - 1" using u(6) m(6) by (simp add: p2_def)
          ultimately show ?thesis using mt u(1,5,7) m(3) by metis
        qed
        then show ?thesis using t(1) goes_on(6) unfolding run by (simp add: sound_members_def p2_def)
      qed
    qed
  qed
qed

text \<open>Opening a container: its node is added, or the parse fails.\<close>

lemma branch_opens:
  fixes parent :: node_id
  assumes rep: "represents M S (jp_doc p) es" and key: "view_ok key" and k: "k \<in> {object_value, array_value}"
  defines "e \<equiv> \<lparr>en_kind = k, en_parent = parent, en_key = view_text key, en_text = []\<rparr>"
  shows "\<exists>out' d'. add_node out k parent key (Null 0) (jp_doc p) = Some (add_status M S es e, out', d') \<and>
    (add_status M S es e = status_ok \<longleftrightarrow> placeable es parent (view_text key) \<and> fits M S (es @ [e])) \<and>
    (add_status M S es e = status_ok \<longrightarrow> out' = Some (length es) \<and> represents M S d' (es @ [e]))"
proof -
  have e: "new_entry k parent key (Null 0) = e" using k by (auto simp: new_entry_def e_def)
  have "length es \<le> M" using rep by (simp add: represents_def)
  then have ok: "add_status M S es e = status_ok \<longleftrightarrow> placeable es parent (view_text key) \<and> fits M S (es @ [e])"
    using add_status_ok [of es M S e] by (simp add: e_def)
  show ?thesis using add_node_is [OF rep key, of "Null 0" out k parent] ok unfolding e by auto
qed

lemma branch_sound:
  assumes val: "\<And>n'. n = Suc n' \<Longrightarrow> value_sound xs M S n' (Suc m) value" and rep: "represents M S (jp_doc p) es" and key: "view_ok key"
    and k: "k \<in> {object_value, array_value}" and m: "jp_depth p = m" "m + n = max_depth"
    and i: "jp_position p < length xs" "xs ! jp_position p = open_bracket k"
  shows "sound_parse xs M S es parent (view_text key) n p (parse_branch k max_depth value (Mem xs) out parent key p)"
proof (cases n)
  case 0
  define p1 where "p1 = p\<lparr>jp_position := jp_position p + 1, jp_depth := jp_depth p + 1\<rparr>"
  obtain r where "parser_fail (Mem xs) p1 depth_exceeded = Some r" "\<not> json_succeeded r" using fail_total by blast
  then have "parse_branch k max_depth value (Mem xs) out parent key p = Some (r, out, leave p1)" "\<not> json_succeeded r"
    using 0 m by (simp_all add: parse_branch_def p1_def)
  then show ?thesis by (rule sound_failure)
next
  case (Suc n')
  define p1 where "p1 = p\<lparr>jp_position := jp_position p + 1, jp_depth := jp_depth p + 1\<rparr>"
  define e where "e = \<lparr>en_kind = k, en_parent = parent, en_key = view_text key, en_text = []\<rparr>"
  have p1: "jp_doc p1 = jp_doc p" "jp_depth p1 = Suc m" "jp_position p1 = jp_position p + 1" using m by (simp_all add: p1_def)
  have deep: "\<not> jp_depth p1 > max_depth" using m Suc p1 by simp
  have rep1: "represents M S (jp_doc p1) es" using rep p1 by simp
  obtain out' d' where a: "add_node out k parent key (Null 0) (jp_doc p1) = Some (add_status M S es e, out', d')"
    "add_status M S es e = status_ok \<longleftrightarrow> placeable es parent (view_text key) \<and> fits M S (es @ [e])"
    "add_status M S es e = status_ok \<longrightarrow> out' = Some (length es) \<and> represents M S d' (es @ [e])"
    using branch_opens [OF rep1 key k, of out parent] unfolding e_def by blast
  define p2 where "p2 = p1\<lparr>jp_doc := d'\<rparr>"
  show ?thesis
  proof (cases "add_status M S es e = status_ok")
    case False
    have "parse_branch k max_depth value (Mem xs) out parent key p = Some (capacity_result (add_status M S es e) p2, out', leave p2)"
      unfolding parse_branch_def Let_def p1_def [symmetric] using deep False a(1) by (simp add: p2_def)
    then show ?thesis using capacity_fails [OF False] by (rule sound_failure)
  next
    case True
    have a3: "out' = Some (length es)" "represents M S d' (es @ [e])" using a(3) True by blast+
    have placed: "placeable es parent (view_text key)" using a(2) True by blast
    have i2: "jp_position p2 \<le> length xs" using i(1) by (simp add: p2_def p1_def)
    obtain w i3 where w: "skip_space (Mem xs) p2 = Some (p2\<lparr>jp_position := i3\<rparr>)" "i3 \<le> length xs"
      "drop (jp_position p2) xs = w @ drop i3 xs" "spaces w" using skip_total [OF i2] by blast
    define p3 where "p3 = p2\<lparr>jp_position := i3\<rparr>"
    have head: "drop (jp_position p) xs = open_bracket k # w @ drop i3 xs"
      using i w(3) by (simp add: p2_def p1_def Cons_nth_drop_Suc [symmetric])
    have run: "parse_branch k max_depth value (Mem xs) out parent key p = do {
         closed \<leftarrow> at_char (Mem xs) i3 (\<lambda>c. c = close_bracket k);
         if closed then Some (json_ok, out', leave (p3\<lparr>jp_position := i3 + 1\<rparr>))
         else do { (r, p) \<leftarrow> members_loop k value (Mem xs) out' p3; Some (r, out', p) } }"
      unfolding parse_branch_def Let_def p1_def [symmetric] p3_def using deep True a(1) w(1) by (simp add: p2_def cong: if_cong)
    show ?thesis
    proof (cases "\<exists>zs. drop i3 xs = close_bracket k # zs")
      case closes: True
      then obtain zs where zs: "drop i3 xs = close_bracket k # zs" by blast
      note z = drop_next [OF zs]
      have "value_text n (Branch k []) (open_bracket k # w @ [close_bracket k])" unfolding Suc using k w(4) by (rule text_empty)
      moreover have "built M S es parent (view_text key) p (i3 + 1) (Branch k []) (json_ok, Some (length es), leave (p3\<lparr>jp_position := i3 + 1\<rparr>))"
        using a3 placed p1 m by (simp add: built_def leave_def p3_def p2_def e_def)
      moreover have "drop (jp_position p) xs = [] @ (open_bracket k # w @ [close_bracket k]) @ drop (i3 + 1) xs"
        using head zs z(3) by simp
      ultimately have "\<exists>v w s. i3 + 1 \<le> length xs \<and> drop (jp_position p) xs = w @ s @ drop (i3 + 1) xs \<and> spaces w \<and> value_text n v s \<and>
          (is_number v \<longrightarrow> ends (drop (i3 + 1) xs)) \<and> built M S es parent (view_text key) p (i3 + 1) v (json_ok, Some (length es), leave (p3\<lparr>jp_position := i3 + 1\<rparr>))"
        using z(1) by (intro exI [of _ "Branch k []"] exI [of _ "[]"] exI [of _ "open_bracket k # w @ [close_bracket k]"]) simp
      then show ?thesis unfolding run a3 sound_parse_def using zs by (simp add: at_char_is leave_def)
    next
      case inside: False
      then have at: "at_char (Mem xs) i3 (\<lambda>c. c = close_bracket k) = Some False" by (auto simp: at_char_is split: list.splits)
      have "sound_members xs M S (es @ [e]) (length es) n' k p3 (members_loop k value (Mem xs) (Some (length es)) p3)"
        by (rule loop_sound [OF val [OF Suc] k]) (use a3 w(2) p1 in \<open>simp_all add: p3_def p2_def e_def\<close>)
      then obtain r p' where t: "members_loop k value (Mem xs) (Some (length es)) p3 = Some (r, p')"
        "json_succeeded r \<longrightarrow> (\<exists>w ms s. jp_position p' \<le> length xs \<and> drop (jp_position p3) xs = w @ s @ drop (jp_position p') xs \<and>
          spaces w \<and> members_text n' k ms s \<and> r = json_ok \<and> jp_depth p' = jp_depth p3 - 1 \<and>
          represents M S (jp_doc p') ((es @ [e]) @ member_entries (length (es @ [e])) (length es) ms))"
        unfolding sound_members_def by blast
      have "\<exists>v w s. jp_position p' \<le> length xs \<and> drop (jp_position p) xs = w @ s @ drop (jp_position p') xs \<and> spaces w \<and> value_text n v s \<and>
          (is_number v \<longrightarrow> ends (drop (jp_position p') xs)) \<and> built M S es parent (view_text key) p (jp_position p') v (r, Some (length es), p')"
        if succ: "json_succeeded r"
      proof -
        obtain w2 ms s where u: "jp_position p' \<le> length xs" "drop (jp_position p3) xs = w2 @ s @ drop (jp_position p') xs"
          "spaces w2" "members_text n' k ms s" "r = json_ok" "jp_depth p' = jp_depth p3 - 1"
          "represents M S (jp_doc p') ((es @ [e]) @ member_entries (length (es @ [e])) (length es) ms)" using mp [OF t(2) succ] by blast
        have "spaces (w @ w2)" using w(4) u(3) by simp
        with k have vt: "value_text n (Branch k ms) (open_bracket k # (w @ w2) @ s)" unfolding Suc using u(4) by (rule text_branch)
        have "built M S es parent (view_text key) p (jp_position p') (Branch k ms) (r, Some (length es), p')"
          using u(5-7) placed p1 m by (simp add: built_def p3_def p2_def e_def)
        moreover have "drop (jp_position p) xs = [] @ (open_bracket k # (w @ w2) @ s) @ drop (jp_position p') xs"
          using head u(2) by (simp add: p3_def)
        ultimately show ?thesis using vt u(1) by (intro exI [of _ "Branch k ms"] exI [of _ "[]"] exI [of _ "open_bracket k # (w @ w2) @ s"]) simp
      qed
      then show ?thesis unfolding run a3 sound_parse_def using at t(1) by simp
    qed
  qed
qed

lemma sound_after_space:
  assumes "sound_parse xs M S es parent key n (p\<lparr>jp_position := i\<rparr>) x" and "drop (jp_position p) xs = w @ drop i xs" and "spaces w"
  shows "sound_parse xs M S es parent key n p x"
proof -
  have upd: "jp_position (p\<lparr>jp_position := i\<rparr>) = i" by simp
  obtain r out' p' where x: "x = Some (r, out', p')" "json_succeeded r \<longrightarrow> (\<exists>v w s. jp_position p' \<le> length xs \<and>
      drop i xs = w @ s @ drop (jp_position p') xs \<and> spaces w \<and> value_text n v s \<and> (is_number v \<longrightarrow> ends (drop (jp_position p') xs)) \<and>
      built M S es parent key p (jp_position p') v (r, out', p'))"
    using assms(1) unfolding sound_parse_def built_position upd by blast
  have "\<exists>v w s. jp_position p' \<le> length xs \<and>
      drop (jp_position p) xs = w @ s @ drop (jp_position p') xs \<and> spaces w \<and> value_text n v s \<and> (is_number v \<longrightarrow> ends (drop (jp_position p') xs)) \<and>
      built M S es parent key p (jp_position p') v (r, out', p')" if succ: "json_succeeded r"
  proof -
    obtain v w' s where u: "jp_position p' \<le> length xs" "drop i xs = w' @ s @ drop (jp_position p') xs" "spaces w'" "value_text n v s"
      "is_number v \<longrightarrow> ends (drop (jp_position p') xs)" "built M S es parent key p (jp_position p') v (r, out', p')"
      using mp [OF x(2) succ] by blast
    then show ?thesis using assms(2,3) by (intro exI [of _ v] exI [of _ "w @ w'"] exI [of _ s]) simp
  qed
  then show ?thesis using x(1) by (simp add: sound_parse_def)
qed

lemma parse_value_run:
  assumes "skip_space (Mem xs) p = Some p1" and "jp_position p1 < length xs" and "xs ! jp_position p1 = c"
  shows "parse_value (Suc n) max_depth (Mem xs) out parent key p =
     (if c = 0x7B then parse_branch object_value max_depth (parse_value n max_depth (Mem xs)) (Mem xs) out parent key p1
      else if c = 0x5B then parse_branch array_value max_depth (parse_value n max_depth (Mem xs)) (Mem xs) out parent key p1
      else if c = 0x22 then parse_string_value (Mem xs) out parent key p1
      else if c = 0x74 then parse_literal (Mem xs) true_text boolean_value out parent key p1
      else if c = 0x66 then parse_literal (Mem xs) false_text boolean_value out parent key p1
      else if c = 0x6E then parse_literal (Mem xs) null_text null_value out parent key p1
      else if c = 0x2D \<or> json_digit c then parse_number (Mem xs) out parent key p1
      else do { r \<leftarrow> parser_fail (Mem xs) p1 unexpected_token; Some (r, out, p1) })"
  using assms by (simp add: parse_branches)

lemma parse_value_step:
  assumes IH: "\<And>n'. n = Suc n' \<Longrightarrow> value_sound xs M S n' (Suc m) (parse_value n max_depth (Mem xs))" and mn: "m + n = max_depth"
  shows "value_sound xs M S n m (parse_value (Suc n) max_depth (Mem xs))"
  unfolding value_sound_def
proof (intro allI impI)
  fix es parent key out and p :: json_parser
  assume rep: "represents M S (jp_doc p) es" and key: "view_ok key" and i: "jp_position p \<le> length xs" and m: "jp_depth p = m"
  obtain w i1 where w: "skip_space (Mem xs) p = Some (p\<lparr>jp_position := i1\<rparr>)" "i1 \<le> length xs"
    "drop (jp_position p) xs = w @ drop i1 xs" "spaces w" using skip_total [OF i] by blast
  define p1 where "p1 = p\<lparr>jp_position := i1\<rparr>"
  have p1: "represents M S (jp_doc p1) es" "jp_position p1 \<le> length xs" "jp_depth p1 = m" "skip_space (Mem xs) p = Some p1"
    using rep w(1,2) m by (simp_all add: p1_def)
  have "sound_parse xs M S es parent (view_text key) n p1 (parse_value (Suc n) max_depth (Mem xs) out parent key p)"
  proof (cases "jp_position p1 < length xs")
    case False
    obtain r where "parser_fail (Mem xs) p1 unexpected_end = Some r" "\<not> json_succeeded r" using fail_total by blast
    then show ?thesis using False p1(4) by (intro sound_failure [of _ r out p1]) simp_all
  next
    case True
    define c where "c = xs ! jp_position p1"
    note bad = fail_total [of xs p1 unexpected_token]
    have c: "rd (Mem xs) (jp_position p1) = Some c" using True by (simp add: c_def)
    have objects: "sound_parse xs M S es parent (view_text key) n p1 (parse_branch k max_depth (parse_value n max_depth (Mem xs)) (Mem xs) out parent key p1)"
      if "k \<in> {object_value, array_value}" "c = open_bracket k" for k
      by (rule branch_sound [OF IH p1(1) key that(1) p1(3) mn True]) (use that(2) in \<open>simp_all add: c_def\<close>)
    have words: "sound_parse xs M S es parent (view_text key) n p1 (parse_literal (Mem xs) word k out parent key p1)"
      if "word_value k word t" for k word t by (rule literal_is(1) [OF p1(1) key p1(2) that])
    note run = parse_value_run [OF p1(4) True c_def [symmetric]]
    show ?thesis
      unfolding run
      using objects [of object_value] objects [of array_value] string_value_is(1) [OF p1(1) key p1(2), of parent n out]
        words [of boolean_value true_text true_text] words [of boolean_value false_text false_text] words [of null_value null_text "[]"]
        number_is(1) [OF p1(1) key p1(2), of parent n out] bad
      by (auto simp: open_bracket_def word_value_def intro: sound_failure)
  qed
  then show "sound_parse xs M S es parent (view_text key) n p (parse_value (Suc n) max_depth (Mem xs) out parent key p)"
    unfolding p1_def using w(3,4) by (rule sound_after_space)
qed

lemma parse_value_sound:
  "m + n = max_depth \<Longrightarrow> value_sound xs M S n m (parse_value (Suc n) max_depth (Mem xs))"
proof (induction n arbitrary: m)
  case 0
  show ?case by (rule parse_value_step) (use 0 in simp_all)
next
  case (Suc n)
  show ?case
  proof (rule parse_value_step)
    show "value_sound xs M S n' (Suc m) (parse_value (Suc n) max_depth (Mem xs))" if "Suc n = Suc n'" for n'
      using Suc.IH [of "Suc m"] Suc.prems that by (simp del: parse_value.simps)
  qed (rule Suc.prems)
qed

end
