(* ===== verification/JsonComplete.thy ===== *)
theory JsonComplete
  imports JsonSound
begin

text \<open>
  The other half of the correctness of \<open>parser::run\<close>: every text of \<open>value_text\<close> whose nodes fit the document is
  accepted, by induction on the text.  The section ends with the theorem on the whole parser.
\<close>

section \<open>Completeness\<close>

lemma drop_part: "drop i xs = v @ w \<Longrightarrow> i \<le> length xs \<Longrightarrow> drop (i + length v) xs = w \<and> i + length v \<le> length xs"
proof -
  assume d: "drop i xs = v @ w" and i: "i \<le> length xs"
  have "length xs - i = length v + length w" using arg_cong [OF d, of length] by simp
  moreover have "drop (i + length v) xs = w" using d by (metis add.commute append_eq_conv_conj drop_drop)
  ultimately show ?thesis using i by linarith
qed

lemma tail_closes:
  assumes "drop (jp_position p) xs = w @ close # rest" and "spaces w" and "\<not> is_space close" and "jp_position p \<le> length xs"
  shows "loop_tail close cont (Mem xs) p = Some (json_ok, leave (p\<lparr>jp_position := jp_position p + length w + 1\<rparr>))"
proof -
  have skip: "skip_space (Mem xs) p = Some (p\<lparr>jp_position := jp_position p + length w\<rparr>)" "drop (jp_position p + length w) xs = close # rest"
    using skip_exact [OF assms(1,2) _ assms(4)] assms(3) by simp_all
  then show ?thesis by (simp add: loop_tail_def at_char_is)
qed

lemma tail_goes_on:
  assumes "drop (jp_position p) xs = w @ 0x2C # w' @ t" and "spaces w" and "spaces w'" and "t \<noteq> []" and "\<not> is_space (hd t)"
    and "close \<noteq> 0x2C" and "jp_position p \<le> length xs"
  shows "loop_tail close cont (Mem xs) p = cont (p\<lparr>jp_position := jp_position p + length w + 1 + length w'\<rparr>)"
proof -
  have skip: "skip_space (Mem xs) p = Some (p\<lparr>jp_position := jp_position p + length w\<rparr>)" "drop (jp_position p + length w) xs = 0x2C # w' @ t"
    using skip_exact [OF assms(1,2) _ assms(7)] by (simp_all add: is_space_def)
  define p1 where "p1 = p\<lparr>jp_position := jp_position p + length w + 1\<rparr>"
  note z = drop_next [OF skip(2)]
  have "drop (jp_position p1) xs = w' @ t" "jp_position p1 \<le> length xs" using z by (simp_all add: p1_def)
  then have "skip_space (Mem xs) p1 = Some (p1\<lparr>jp_position := jp_position p1 + length w'\<rparr>)"
    using skip_exact(1) [of p1 xs w' t] assms(3,5) by simp
  then show ?thesis using skip assms(6) by (simp add: loop_tail_def at_char_is p1_def)
qed

text \<open>What the three kinds of text promise, for any number of levels that is enough.\<close>

definition exact_value :: "u8 list \<Rightarrow> nat \<Rightarrow> nat \<Rightarrow> nat \<Rightarrow> nat \<Rightarrow> json_value \<Rightarrow> u8 list \<Rightarrow> bool" where
  "exact_value xs M S max_depth n v s \<longleftrightarrow> (\<forall>l p parent key out es w rest.
     n \<le> l \<longrightarrow> jp_depth p + l = max_depth \<longrightarrow> drop (jp_position p) xs = w @ s @ rest \<longrightarrow> spaces w \<longrightarrow>
     (is_number v \<longrightarrow> ends rest) \<longrightarrow> represents M S (jp_doc p) es \<longrightarrow> view_ok key \<longrightarrow> placeable es parent (view_text key) \<longrightarrow>
     fits M S (es @ entries (length es) parent (view_text key) v) \<longrightarrow> jp_position p \<le> length xs \<longrightarrow>
     exact_parse M S es parent (view_text key) p (jp_position p + length w + length s) v
       (parse_value (Suc l) max_depth (Mem xs) out parent key p))"

definition exact_member :: "u8 list \<Rightarrow> nat \<Rightarrow> nat \<Rightarrow> nat \<Rightarrow> nat \<Rightarrow> json_type \<Rightarrow> u8 list \<Rightarrow> json_value \<Rightarrow> u8 list \<Rightarrow> bool" where
  "exact_member xs M S max_depth n k key v s \<longleftrightarrow> (\<forall>l p es q rest.
     n \<le> l \<longrightarrow> jp_depth p + l = max_depth \<longrightarrow> drop (jp_position p) xs = s @ rest \<longrightarrow> (is_number v \<longrightarrow> ends rest) \<longrightarrow>
     represents M S (jp_doc p) es \<longrightarrow> q < length es \<longrightarrow> en_kind (es ! q) = k \<longrightarrow>
     fits M S (es @ entries (length es) (Some q) key v) \<longrightarrow> jp_position p \<le> length xs \<longrightarrow>
     (\<exists>p'. member_step k (parse_value (Suc l) max_depth (Mem xs)) (Mem xs) (Some q) p = Some (json_ok, p') \<and>
        jp_position p' = jp_position p + length s \<and> jp_depth p' = jp_depth p \<and>
        represents M S (jp_doc p') (es @ entries (length es) (Some q) key v)))"

definition exact_members :: "u8 list \<Rightarrow> nat \<Rightarrow> nat \<Rightarrow> nat \<Rightarrow> nat \<Rightarrow> json_type \<Rightarrow> (u8 list \<times> json_value) list \<Rightarrow> u8 list \<Rightarrow> bool" where
  "exact_members xs M S max_depth n k ms s \<longleftrightarrow> (\<forall>l p es q rest.
     n \<le> l \<longrightarrow> jp_depth p + l = max_depth \<longrightarrow> drop (jp_position p) xs = s @ rest \<longrightarrow>
     represents M S (jp_doc p) es \<longrightarrow> q < length es \<longrightarrow> en_kind (es ! q) = k \<longrightarrow>
     fits M S (es @ member_entries (length es) q ms) \<longrightarrow> jp_position p \<le> length xs \<longrightarrow>
     (\<exists>p'. members_loop k (parse_value (Suc l) max_depth (Mem xs)) (Mem xs) (Some q) p = Some (json_ok, p') \<and>
        jp_position p' = jp_position p + length s \<and> jp_depth p' = jp_depth p - 1 \<and>
        represents M S (jp_doc p') (es @ member_entries (length es) q ms)))"

lemma exact_position: "exact_parse M S es parent key (p\<lparr>jp_position := i\<rparr>) j v x \<longleftrightarrow> exact_parse M S es parent key p j v x"
  by (simp add: exact_parse_def built_def)

text \<open>White space first, then the function the first character selects.\<close>

lemma exact_value_by:
  assumes start: "s = c # zs" "\<not> is_space c"
    and sel: "\<And>l p parent key out es rest. n \<le> l \<Longrightarrow> jp_depth p + l = max_depth \<Longrightarrow> drop (jp_position p) xs = s @ rest \<Longrightarrow>
      (is_number v \<longrightarrow> ends rest) \<Longrightarrow> represents M S (jp_doc p) es \<Longrightarrow> view_ok key \<Longrightarrow> placeable es parent (view_text key) \<Longrightarrow>
      fits M S (es @ entries (length es) parent (view_text key) v) \<Longrightarrow> jp_position p < length xs \<Longrightarrow> xs ! jp_position p = c \<Longrightarrow>
      exact_parse M S es parent (view_text key) p (jp_position p + length s) v
       (if c = 0x7B then parse_branch object_value max_depth (parse_value l max_depth (Mem xs)) (Mem xs) out parent key p
        else if c = 0x5B then parse_branch array_value max_depth (parse_value l max_depth (Mem xs)) (Mem xs) out parent key p
        else if c = 0x22 then parse_string_value (Mem xs) out parent key p
        else if c = 0x74 then parse_literal (Mem xs) true_text boolean_value out parent key p
        else if c = 0x66 then parse_literal (Mem xs) false_text boolean_value out parent key p
        else if c = 0x6E then parse_literal (Mem xs) null_text null_value out parent key p
        else if c = 0x2D \<or> json_digit c then parse_number (Mem xs) out parent key p
        else do { r \<leftarrow> parser_fail (Mem xs) p unexpected_token; Some (r, out, p) })"
  shows "exact_value xs M S max_depth n v s"
  unfolding exact_value_def
proof (intro allI impI)
  fix l parent key out es w rest and p :: json_parser
  assume n: "n \<le> l" and m: "jp_depth p + l = max_depth" and d: "drop (jp_position p) xs = w @ s @ rest" and w: "spaces w"
    and num: "is_number v \<longrightarrow> ends rest" and rep: "represents M S (jp_doc p) es" and key: "view_ok key"
    and room: "placeable es parent (view_text key)" "fits M S (es @ entries (length es) parent (view_text key) v)"
    and i: "jp_position p \<le> length xs"
  define p1 where "p1 = p\<lparr>jp_position := jp_position p + length w\<rparr>"
  have "s @ rest = [] \<or> \<not> is_space (hd (s @ rest))" using start by simp
  note skip = skip_exact [OF d w this i]
  have d1: "drop (jp_position p1) xs = c # zs @ rest" using skip(2) start(1) by (simp add: p1_def)
  note z = drop_next [OF d1]
  have run: "skip_space (Mem xs) p = Some p1" using skip(1) by (simp add: p1_def)
  have "exact_parse M S es parent (view_text key) p1 (jp_position p1 + length s) v (parse_value (Suc l) max_depth (Mem xs) out parent key p)"
    unfolding parse_value_run [OF run z(1,2)]
    by (rule sel [OF n _ _ num _ key room z(1,2)]) (use m d1 rep start(1) in \<open>simp_all add: p1_def\<close>)
  then show "exact_parse M S es parent (view_text key) p (jp_position p + length w + length s) v (parse_value (Suc l) max_depth (Mem xs) out parent key p)"
    by (simp add: p1_def exact_position del: parse_value.simps)
qed

lemma exact_words:
  assumes w: "word_value k word t" and c: "word = c # zs" "c \<in> {0x74, 0x66, 0x6E}"
    and sel: "c = 0x74 \<longrightarrow> word = true_text \<and> k = boolean_value" "c = 0x66 \<longrightarrow> word = false_text \<and> k = boolean_value"
      "c = 0x6E \<longrightarrow> word = null_text \<and> k = null_value"
  shows "exact_value xs M S max_depth n (Leaf k t) word"
  apply (rule exact_value_by [OF c(1)])
  subgoal using c(2) by (auto simp: is_space_def)
  subgoal premises prems for l p parent key out es rest
    using literal_is(2) [OF prems(5,6) less_imp_le [OF prems(9)] w prems(3,7,8), of out] c(2) sel by auto
  done

lemma exact_strings: "literal t s \<Longrightarrow> exact_value xs M S max_depth n (Leaf string_value t) (0x22 # s @ [0x22])"
  apply (rule exact_value_by [OF refl])
  subgoal by (simp add: is_space_def)
  subgoal premises prems for l p parent key out es rest
    using string_value_is(2) [OF prems(6,7) less_imp_le [OF prems(10)] _ prems(1,8,9), of rest out] prems(4) by simp
  done

lemma exact_numbers:
  assumes "json_number s"
  shows "exact_value xs M S max_depth n (Leaf number_value s) s"
proof -
  obtain c zs where c: "s = c # zs" "c = 0x2D \<or> json_digit c" using json_number_chars [OF assms] by (cases s) auto
  then have "\<not> is_space c" "c \<noteq> 0x7B" "c \<noteq> 0x5B" "c \<noteq> 0x22" "c \<noteq> 0x74" "c \<noteq> 0x66" "c \<noteq> 0x6E"
    by (auto simp: is_space_def json_digit_def)
  then show ?thesis
    apply (intro exact_value_by [OF c(1)])
    subgoal .
    subgoal premises prems for l p parent key out es rest
      using number_is(2) [OF prems(12,13) less_imp_le [OF prems(16)] prems(10) assms _ prems(14,15), of out] prems c(2) by simp
    done
qed

text \<open>Members.\<close>

lemma exact_valueD:
  assumes "exact_value xs M S max_depth n v s" and "n \<le> l" and "jp_depth p + l = max_depth" and "drop (jp_position p) xs = w @ s @ rest" and "spaces w"
    and "is_number v \<longrightarrow> ends rest" and "represents M S (jp_doc p) es" and "view_ok key" and "placeable es parent (view_text key)"
    and "fits M S (es @ entries (length es) parent (view_text key) v)" and "jp_position p \<le> length xs"
  shows "exact_parse M S es parent (view_text key) p (jp_position p + length w + length s) v
    (parse_value (Suc l) max_depth (Mem xs) out parent key p)"
  using assms unfolding exact_value_def by blast

lemma exact_element:
  assumes v: "exact_value xs M S max_depth n v s"
  shows "exact_member xs M S max_depth n array_value [] v s"
  unfolding exact_member_def
proof (intro allI impI)
  fix l es q rest and p :: json_parser
  assume a: "n \<le> l" "jp_depth p + l = max_depth" "drop (jp_position p) xs = s @ rest" "is_number v \<longrightarrow> ends rest"
    "represents M S (jp_doc p) es" "q < length es" "en_kind (es ! q) = array_value"
    "fits M S (es @ entries (length es) (Some q) [] v)" "jp_position p \<le> length xs"
  have "exact_parse M S es (Some q) (view_text (Null 0)) p (jp_position p + length ([] :: u8 list) + length s) v
      (parse_value (Suc l) max_depth (Mem xs) None (Some q) (Null 0) p)"
    by (rule exact_valueD [OF v a(1,2) _ _ a(4,5)]) (use a in \<open>simp_all add: placeable_def\<close>)
  then show "\<exists>p'. member_step array_value (parse_value (Suc l) max_depth (Mem xs)) (Mem xs) (Some q) p = Some (json_ok, p') \<and>
      jp_position p' = jp_position p + length s \<and> jp_depth p' = jp_depth p \<and> represents M S (jp_doc p') (es @ entries (length es) (Some q) [] v)"
    by (auto simp: exact_parse_def built_def member_step_def simp del: parse_value.simps)
qed

lemma fits_key: "fits M S (es @ entries i p key v) \<Longrightarrow> length key \<le> S"
  by (cases v) (auto simp: fits_def entry_bytes_def)

lemma exact_named:
  assumes v: "exact_value xs M S max_depth n v s" and key: "key \<noteq> []" "literal key u" and sp: "spaces w" "spaces w'"
    and start: "s \<noteq> []" "\<not> is_space (hd s)"
  shows "exact_member xs M S max_depth n object_value key v (0x22 # u @ 0x22 # w @ 0x3A # w' @ s)"
  unfolding exact_member_def
proof (intro allI impI)
  fix l es q rest and p :: json_parser
  assume a: "n \<le> l" "jp_depth p + l = max_depth" "drop (jp_position p) xs = (0x22 # u @ 0x22 # w @ 0x3A # w' @ s) @ rest" "is_number v \<longrightarrow> ends rest"
    "represents M S (jp_doc p) es" "q < length es" "en_kind (es ! q) = object_value"
    "fits M S (es @ entries (length es) (Some q) key v)" "jp_position p \<le> length xs"
  have d0: "drop (jp_position p) xs = 0x22 # u @ 0x22 # (w @ 0x3A # w' @ s @ rest)" using a(3) by simp
  have S: "length (jd_storage (jp_doc p)) = S" using a(5) by (simp add: represents_def)
  obtain s0 where s0: "scratch_string p = Some s0" "length (str_data s0) = Suc S" using scratch_is [of p] S by auto
  obtain kr j s1 t where d: "decode_string (Mem xs) (jp_position p) s0 = Some (kr, j, s1)" "str_holds S s1 t" "quoted S xs (jp_position p) kr j t"
    using decode_string_is [OF a(9) s0(2)] by blast
  have kr: "kr = json_ok" "t = key" "j = jp_position p + length u + 2"
    using d(3) d0 key(2) fits_key [OF a(8)] unfolding quoted_def by blast+
  have view: "str_view s1 = Mem key" using holds_sizes(4) [OF d(2)] kr by simp
  have dj: "drop j xs = w @ 0x3A # w' @ s @ rest" "j \<le> length xs"
    using drop_part [of "jp_position p" xs "0x22 # u @ [0x22]" "w @ 0x3A # w' @ s @ rest"] d0 a(9) kr(3) by simp_all
  define p1 where "p1 = p\<lparr>jp_position := j\<rparr>"
  have d1: "drop (jp_position p1) xs = w @ 0x3A # w' @ s @ rest" "jp_position p1 \<le> length xs" using dj by (simp_all add: p1_def)
  have skip: "skip_space (Mem xs) p1 = Some (p1\<lparr>jp_position := j + length w\<rparr>)" "drop (j + length w) xs = 0x3A # w' @ s @ rest"
    using skip_exact [OF d1(1) sp(1) _ d1(2)] by (simp_all add: p1_def is_space_def)
  note z = drop_next [OF skip(2)]
  define p2 where "p2 = p1\<lparr>jp_position := j + length w + 1\<rparr>"
  have "exact_parse M S es (Some q) (view_text (Mem key)) p2 (jp_position p2 + length w' + length s) v
      (parse_value (Suc l) max_depth (Mem xs) None (Some q) (Mem key) p2)"
    by (rule exact_valueD [OF v a(1) _ _ sp(2) a(4)]) (use a z key in \<open>simp_all add: placeable_def p2_def p1_def\<close>)
  then obtain p3 where p3: "parse_value (Suc l) max_depth (Mem xs) None (Some q) (Mem key) p2 = Some (json_ok, Some (length es), p3)"
    "jp_position p3 = jp_position p2 + length w' + length s" "jp_depth p3 = jp_depth p2" "represents M S (jp_doc p3) (es @ entries (length es) (Some q) key v)"
    by (auto simp: exact_parse_def built_def simp del: parse_value.simps)
  have c: "rd (Mem xs) (jp_position p) = Some 0x22" using drop_next(1,2) [OF d0] by simp
  have "member_step object_value (parse_value (Suc l) max_depth (Mem xs)) (Mem xs) (Some q) p = Some (json_ok, p3)"
    using c s0(1) d(1) kr(1) skip z p3(1) view
    by (simp add: member_step_def Let_def p1_def [symmetric] at_char_is p2_def del: parse_value.simps)
  then show "\<exists>p'. member_step object_value (parse_value (Suc l) max_depth (Mem xs)) (Mem xs) (Some q) p = Some (json_ok, p') \<and>
      jp_position p' = jp_position p + length (0x22 # u @ 0x22 # w @ 0x3A # w' @ s) \<and> jp_depth p' = jp_depth p \<and>
      represents M S (jp_doc p') (es @ entries (length es) (Some q) key v)"
    using p3 kr(3) by (intro exI [of _ p3]) (simp add: p2_def p1_def)
qed

text \<open>A member and what follows it, up to the end of the members.\<close>

lemma exact_last:
  assumes m: "exact_member xs M S max_depth n k key v s" and w: "spaces w" and start: "s \<noteq> []"
  shows "exact_members xs M S max_depth n k [(key, v)] (s @ w @ [close_bracket k])"
  unfolding exact_members_def
proof (intro allI impI)
  fix l es q rest and p :: json_parser
  assume a: "n \<le> l" "jp_depth p + l = max_depth" "drop (jp_position p) xs = (s @ w @ [close_bracket k]) @ rest"
    "represents M S (jp_doc p) es" "q < length es" "en_kind (es ! q) = k"
    "fits M S (es @ member_entries (length es) q [(key, v)])" "jp_position p \<le> length xs"
  have d: "drop (jp_position p) xs = s @ (w @ close_bracket k # rest)" using a(3) by simp
  have "ends (w @ close_bracket k # rest)" using w
    by (cases w) (auto simp: ends_def spaces_def close_bracket_def is_number_delimiter_def)
  then obtain p1 where p1: "member_step k (parse_value (Suc l) max_depth (Mem xs)) (Mem xs) (Some q) p = Some (json_ok, p1)"
    "jp_position p1 = jp_position p + length s" "jp_depth p1 = jp_depth p" "represents M S (jp_doc p1) (es @ entries (length es) (Some q) key v)"
    using m [unfolded exact_member_def, rule_format, OF a(1,2) d _ a(4,5,6) _ a(8)] a(7) by (auto simp: Let_def)
  have d1: "drop (jp_position p1) xs = w @ close_bracket k # rest" "jp_position p1 \<le> length xs" using drop_part [OF d a(8)] p1(2) by simp_all
  have inside: "jp_position p < length xs" using drop_next(1) [of "jp_position p" xs "hd s"] d start by (cases s) simp_all
  have "\<not> is_space (close_bracket k)" by (simp add: close_bracket_def is_space_def)
  note close = tail_closes [OF d1(1) w this d1(2)]
  have "members_loop k (parse_value (Suc l) max_depth (Mem xs)) (Mem xs) (Some q) p =
      Some (json_ok, leave (p1\<lparr>jp_position := jp_position p1 + length w + 1\<rparr>))"
    using inside p1(1) close by (simp add: members_loop_unfold [where p = p] del: parse_value.simps)
  then show "\<exists>p'. members_loop k (parse_value (Suc l) max_depth (Mem xs)) (Mem xs) (Some q) p = Some (json_ok, p') \<and>
      jp_position p' = jp_position p + length (s @ w @ [close_bracket k]) \<and> jp_depth p' = jp_depth p - 1 \<and>
      represents M S (jp_doc p') (es @ member_entries (length es) q [(key, v)])"
    using p1 by (simp add: leave_def Let_def del: parse_value.simps)
qed

lemma exact_more:
  assumes m: "exact_member xs M S max_depth n k key v s" and w: "spaces w" "spaces w'" and ms: "exact_members xs M S max_depth n k ms t"
    and start: "s \<noteq> []" "t \<noteq> []" "\<not> is_space (hd t)"
  shows "exact_members xs M S max_depth n k ((key, v) # ms) (s @ w @ 0x2C # w' @ t)"
  unfolding exact_members_def
proof (intro allI impI)
  fix l es q rest and p :: json_parser
  assume a: "n \<le> l" "jp_depth p + l = max_depth" "drop (jp_position p) xs = (s @ w @ 0x2C # w' @ t) @ rest"
    "represents M S (jp_doc p) es" "q < length es" "en_kind (es ! q) = k"
    "fits M S (es @ member_entries (length es) q ((key, v) # ms))" "jp_position p \<le> length xs"
  define es1 where "es1 = es @ entries (length es) (Some q) key v"
  have all: "es @ member_entries (length es) q ((key, v) # ms) = es1 @ member_entries (length es1) q ms" by (simp add: es1_def Let_def)
  have d: "drop (jp_position p) xs = s @ (w @ 0x2C # w' @ t @ rest)" using a(3) by simp
  have "ends (w @ 0x2C # w' @ t @ rest)" using w(1) by (cases w) (auto simp: ends_def spaces_def is_number_delimiter_def)
  moreover have "fits M S es1" using a(7) unfolding all by (rule fits_append)
  ultimately obtain p1 where p1: "member_step k (parse_value (Suc l) max_depth (Mem xs)) (Mem xs) (Some q) p = Some (json_ok, p1)"
    "jp_position p1 = jp_position p + length s" "jp_depth p1 = jp_depth p" "represents M S (jp_doc p1) es1"
    using m [unfolded exact_member_def, rule_format, OF a(1,2) d _ a(4,5,6) _ a(8)] unfolding es1_def by blast
  have d1: "drop (jp_position p1) xs = w @ 0x2C # w' @ (t @ rest)" "jp_position p1 \<le> length xs" using drop_part [OF d a(8)] p1(2) by simp_all
  have inside: "jp_position p < length xs" using drop_next(1) [of "jp_position p" xs "hd s"] d start(1) by (cases s) simp_all
  have "t @ rest \<noteq> []" "\<not> is_space (hd (t @ rest))" "close_bracket k \<noteq> 0x2C" using start(2,3) by (simp_all add: close_bracket_def)
  note goes_on = tail_goes_on [OF d1(1) w this d1(2)]
  define p2 where "p2 = p1\<lparr>jp_position := jp_position p1 + length w + 1 + length w'\<rparr>"
  have run: "members_loop k (parse_value (Suc l) max_depth (Mem xs)) (Mem xs) (Some q) p =
      members_loop k (parse_value (Suc l) max_depth (Mem xs)) (Mem xs) (Some q) p2"
    using inside p1(1) goes_on by (simp add: members_loop_unfold [where p = p] p2_def del: parse_value.simps)
  have d2: "drop (jp_position p2) xs = t @ rest" "jp_position p2 \<le> length xs"
    using drop_part [of "jp_position p1" xs "w @ 0x2C # w'" "t @ rest"] d1 by (simp_all add: p2_def add.assoc)
  have "\<exists>p'. members_loop k (parse_value (Suc l) max_depth (Mem xs)) (Mem xs) (Some q) p2 = Some (json_ok, p') \<and>
      jp_position p' = jp_position p2 + length t \<and> jp_depth p' = jp_depth p2 - 1 \<and> represents M S (jp_doc p') (es1 @ member_entries (length es1) q ms)"
    by (rule ms [unfolded exact_members_def, rule_format, OF a(1) _ d2(1)])
      (use a(2,5,6,7) p1 d2(2) all in \<open>simp_all add: p2_def es1_def nth_append\<close>)
  then show "\<exists>p'. members_loop k (parse_value (Suc l) max_depth (Mem xs)) (Mem xs) (Some q) p = Some (json_ok, p') \<and>
      jp_position p' = jp_position p + length (s @ w @ 0x2C # w' @ t) \<and> jp_depth p' = jp_depth p - 1 \<and>
      represents M S (jp_doc p') (es @ member_entries (length es) q ((key, v) # ms))"
    unfolding run all using p1 by (auto simp: p2_def simp del: parse_value.simps)
qed

text \<open>Containers.\<close>

lemma branch_entered:
  assumes rep: "represents M S (jp_doc p) es" and key: "view_ok key" and k: "k \<in> {object_value, array_value}"
    and room: "placeable es parent (view_text key)" "fits M S (es @ [e])" and deep: "jp_depth p < max_depth"
    and d: "drop (jp_position p) xs = open_bracket k # w @ t" "spaces w" "t \<noteq> []" "\<not> is_space (hd t)" "jp_position p < length xs"
    and e: "e = \<lparr>en_kind = k, en_parent = parent, en_key = view_text key, en_text = []\<rparr>"
  shows "\<exists>p'. jp_position p' = jp_position p + 1 + length w \<and> jp_position p' \<le> length xs \<and> drop (jp_position p') xs = t \<and> jp_depth p' = jp_depth p + 1 \<and>
    represents M S (jp_doc p') (es @ [e]) \<and>
    parse_branch k max_depth value (Mem xs) out parent key p =
      (if hd t = close_bracket k then Some (json_ok, Some (length es), leave (p'\<lparr>jp_position := jp_position p' + 1\<rparr>))
       else do { (r, p) \<leftarrow> members_loop k value (Mem xs) (Some (length es)) p'; Some (r, Some (length es), p) })"
proof -
  define p1 where "p1 = p\<lparr>jp_position := jp_position p + 1, jp_depth := jp_depth p + 1\<rparr>"
  have rep1: "represents M S (jp_doc p1) es" using rep by (simp add: p1_def)
  obtain d' where a: "add_node out k parent key (Null 0) (jp_doc p1) = Some (status_ok, Some (length es), d')" "represents M S d' (es @ [e])"
    using branch_opens [OF rep1 key k, of out parent] room unfolding e by auto
  define p2 where "p2 = p1\<lparr>jp_doc := d'\<rparr>"
  have d2: "drop (jp_position p2) xs = w @ t" "jp_position p2 \<le> length xs" using drop_next(1,3) [OF d(1)] by (simp_all add: p2_def p1_def)
  note skip = skip_exact [OF d2(1) d(2) _ d2(2)]
  define p3 where "p3 = p2\<lparr>jp_position := jp_position p2 + length w\<rparr>"
  have at: "at_char (Mem xs) (jp_position p3) (\<lambda>c. c = close_bracket k) = Some (hd t = close_bracket k)"
    using skip(2) d(3,4) by (cases t) (simp_all add: at_char_is p3_def)
  have "skip_space (Mem xs) p2 = Some p3" using skip(1) d(4) by (simp add: p3_def)
  then have "parse_branch k max_depth value (Mem xs) out parent key p =
      (if hd t = close_bracket k then Some (json_ok, Some (length es), leave (p3\<lparr>jp_position := jp_position p3 + 1\<rparr>))
       else do { (r, p) \<leftarrow> members_loop k value (Mem xs) (Some (length es)) p3; Some (r, Some (length es), p) })"
    unfolding parse_branch_def Let_def p1_def [symmetric] using deep a(1) at by (simp add: p2_def [symmetric]) (simp add: p1_def)
  then show ?thesis using a(2) skip d(4) by (intro exI [of _ p3]) (simp add: p3_def p2_def p1_def)
qed

lemma member_entries_fits: "fits M S (es @ e # member_entries (Suc (length es)) (length es) ms) \<Longrightarrow> fits M S (es @ [e])"
  by (simp add: fits_def)

lemma exact_empty:
  assumes k: "k \<in> {object_value, array_value}" and w: "spaces w"
  shows "exact_value xs M S max_depth (Suc n) (Branch k []) (open_bracket k # w @ [close_bracket k])"
  apply (rule exact_value_by [OF refl])
  subgoal using k by (auto simp: open_bracket_def is_space_def)
  subgoal premises prems for l p parent key out es rest
  proof -
    define e where "e = \<lparr>en_kind = k, en_parent = parent, en_key = view_text key, en_text = []\<rparr>"
    have d: "drop (jp_position p) xs = open_bracket k # w @ (close_bracket k # rest)" using prems(3) by simp
    have "fits M S (es @ [e])" "jp_depth p < max_depth" "\<not> is_space (close_bracket k)" using prems(1,2,8)
      by (simp_all add: e_def close_bracket_def is_space_def)
    then obtain p' where "jp_position p' = jp_position p + 1 + length w" "jp_depth p' = jp_depth p + 1" "represents M S (jp_doc p') (es @ [e])"
      "parse_branch k max_depth (parse_value l max_depth (Mem xs)) (Mem xs) out parent key p =
        Some (json_ok, Some (length es), leave (p'\<lparr>jp_position := jp_position p' + 1\<rparr>))"
      using branch_entered [OF prems(5,6) k prems(7) _ _ d w _ _ prems(9) e_def, of max_depth "parse_value l max_depth (Mem xs)" out] by auto
    then have "exact_parse M S es parent (view_text key) p (jp_position p + length (open_bracket k # w @ [close_bracket k])) (Branch k [])
        (parse_branch k max_depth (parse_value l max_depth (Mem xs)) (Mem xs) out parent key p)"
      using prems(7) by (simp add: exact_parse_def built_def leave_def e_def)
    then show ?thesis using k by (auto simp: open_bracket_def)
  qed
  done

lemma exact_branch:
  assumes k: "k \<in> {object_value, array_value}" and w: "spaces w" and ms: "exact_members xs M S max_depth n k ms s"
    and start: "s \<noteq> []" "\<not> is_space (hd s)" "hd s \<noteq> close_bracket k"
  shows "exact_value xs M S max_depth (Suc n) (Branch k ms) (open_bracket k # w @ s)"
  apply (rule exact_value_by [OF refl])
  subgoal using k by (auto simp: open_bracket_def is_space_def)
  subgoal premises prems for l p parent key out es rest
  proof -
    define e where "e = \<lparr>en_kind = k, en_parent = parent, en_key = view_text key, en_text = []\<rparr>"
    obtain l' where l: "l = Suc l'" using prems(1) by (cases l) auto
    have d: "drop (jp_position p) xs = open_bracket k # w @ (s @ rest)" using prems(3) by simp
    have "fits M S (es @ [e])" "jp_depth p < max_depth" "s @ rest \<noteq> []" "\<not> is_space (hd (s @ rest))" "hd (s @ rest) \<noteq> close_bracket k"
      using member_entries_fits [of M S es e ms] prems(1,2,8) start by (simp_all add: e_def)
    then obtain p' where p': "jp_position p' = jp_position p + 1 + length w" "jp_position p' \<le> length xs" "drop (jp_position p') xs = s @ rest"
      "jp_depth p' = jp_depth p + 1" "represents M S (jp_doc p') (es @ [e])"
      "parse_branch k max_depth (parse_value l max_depth (Mem xs)) (Mem xs) out parent key p =
        do { (r, p) \<leftarrow> members_loop k (parse_value l max_depth (Mem xs)) (Mem xs) (Some (length es)) p'; Some (r, Some (length es), p) }"
      using branch_entered [OF prems(5,6) k prems(7) _ _ d w _ _ prems(9) e_def, of max_depth "parse_value l max_depth (Mem xs)" out] by auto
    have "\<exists>p2. members_loop k (parse_value (Suc l') max_depth (Mem xs)) (Mem xs) (Some (length es)) p' = Some (json_ok, p2) \<and>
        jp_position p2 = jp_position p' + length s \<and> jp_depth p2 = jp_depth p' - 1 \<and>
        represents M S (jp_doc p2) ((es @ [e]) @ member_entries (length (es @ [e])) (length es) ms)"
      by (rule ms [unfolded exact_members_def, rule_format, OF _ _ p'(3,5)]) (use prems(1,2,8) p' l in \<open>simp_all add: e_def\<close>)
    then have "exact_parse M S es parent (view_text key) p (jp_position p + length (open_bracket k # w @ s)) (Branch k ms)
        (parse_branch k max_depth (parse_value l max_depth (Mem xs)) (Mem xs) out parent key p)"
      using prems(7) p'(1,4) unfolding p'(6) unfolding l by (auto simp: exact_parse_def built_def e_def simp del: parse_value.simps)
    then show ?thesis using k by (auto simp: open_bracket_def)
  qed
  done

lemma members_start:
  "member_text n k key v s \<Longrightarrow> hd s \<noteq> close_bracket k"
  "members_text n k ms s \<Longrightarrow> s \<noteq> [] \<and> \<not> is_space (hd s) \<and> hd s \<noteq> close_bracket k"
proof -
  have v: "value_text n v s \<Longrightarrow> hd s \<noteq> 0x5D" for n v s
    by (erule value_text.cases) (auto simp: null_text_def true_text_def false_text_def open_bracket_def json_digit_def dest!: json_number_chars)
  show m: "member_text n k key v s \<Longrightarrow> hd s \<noteq> close_bracket k" for n k key v s
    by (erule member_text.cases) (auto simp: close_bracket_def dest: v)
  show "members_text n k ms s \<Longrightarrow> s \<noteq> [] \<and> \<not> is_space (hd s) \<and> hd s \<noteq> close_bracket k"
    by (erule members_text.cases) (auto simp: hd_append dest: m text_starts(2))
qed

lemma texts_exact:
  "value_text n v s \<Longrightarrow> exact_value xs M S max_depth n v s"
  "member_text n k key v s \<Longrightarrow> exact_member xs M S max_depth n k key v s"
  "members_text n k ms s \<Longrightarrow> exact_members xs M S max_depth n k ms s"
proof (induction rule: value_text_member_text_members_text.inducts)
  case (text_null n)
  show ?case by (rule exact_words [where c = "0x6E" and zs = "tl null_text"]) (simp_all add: word_value_def null_text_def)
next
  case (text_bool t n)
  then have "t = hd t # tl t" "hd t \<in> {0x74, 0x66, 0x6E}" "hd t = 0x74 \<longrightarrow> t = true_text" "hd t = 0x66 \<longrightarrow> t = false_text" "hd t \<noteq> 0x6E"
    by (auto simp: true_text_def false_text_def)
  then show ?case using text_bool by (intro exact_words [where c = "hd t" and zs = "tl t"]) (auto simp: word_value_def)
next
  case (text_number s n)
  then show ?case by (rule exact_numbers)
next
  case (text_string t s n)
  then show ?case by (rule exact_strings)
next
  case (text_empty k w n)
  then show ?case by (rule exact_empty)
next
  case (text_branch k w n ms s)
  then show ?case using members_start(2) by (intro exact_branch) auto
next
  case (text_element n v s)
  then show ?case by (intro exact_element)
next
  case (text_member key q w w' n v s)
  then show ?case using text_starts(1) by (intro exact_named) auto
next
  case (text_last n k key v s w)
  then show ?case using text_starts(2) by (intro exact_last) auto
next
  case (text_more n k key v s w w' ms t)
  then show ?case using text_starts(2) members_start(2) by (intro exact_more) auto
qed

section \<open>The whole parser\<close>

text \<open>A text with white space around one value, whose nodes fit the document.\<close>

definition json_document_text :: "nat \<Rightarrow> nat \<Rightarrow> nat \<Rightarrow> json_value \<Rightarrow> u8 list \<Rightarrow> bool" where
  "json_document_text M S max_depth v xs \<longleftrightarrow> fits M S (entries 0 None [] v) \<and>
     (\<exists>w s w'. xs = w @ s @ w' \<and> spaces w \<and> spaces w' \<and> value_text max_depth v s)"

lemma run_complete:
  assumes rep: "represents M S d []" and t: "json_document_text M S max_depth v xs" and clear: "json_clear d = d"
  shows "\<exists>d'. parser_run max_depth (Mem xs) d = Some (json_ok, d') \<and> represents M S d' (entries 0 None [] v)"
proof -
  obtain w s w' where x: "xs = w @ s @ w'" "spaces w" "spaces w'" "value_text max_depth v s" and room: "fits M S (entries 0 None [] v)"
    using t by (auto simp: json_document_text_def)
  note start = text_starts(1) [OF x(4)]
  define p0 where "p0 = \<lparr>jp_doc = d, jp_position = 0, jp_depth = 0\<rparr>"
  have d0: "drop (jp_position p0) xs = w @ (s @ w')" "jp_position p0 \<le> length xs" using x(1) by (simp_all add: p0_def)
  have "s @ w' = [] \<or> \<not> is_space (hd (s @ w'))" using start by simp
  note skip = skip_exact [OF d0(1) x(2) this d0(2)]
  define p1 where "p1 = p0\<lparr>jp_position := jp_position p0 + length w\<rparr>"
  have p1: "skip_space (Mem xs) p0 = Some p1" "drop (jp_position p1) xs = [] @ s @ w'" "jp_position p1 \<le> length xs" "jp_position p1 = length w"
    using skip by (simp_all add: p1_def p0_def)
  have "ends w'" using x(3) by (cases w') (auto simp: ends_def spaces_def is_number_delimiter_def)
  then have "exact_parse M S [] None (view_text (Null 0)) p1 (jp_position p1 + length ([] :: u8 list) + length s) v
      (parse_value (Suc max_depth) max_depth (Mem xs) None None (Null 0) p1)"
    by (intro exact_valueD [OF texts_exact(1) [OF x(4)] order_refl _ p1(2)])
      (use rep room p1(3) in \<open>simp_all add: p1_def p0_def placeable_def\<close>)
  then obtain p2 where p2: "parse_value (Suc max_depth) max_depth (Mem xs) None None (Null 0) p1 = Some (json_ok, Some 0, p2)"
    "jp_position p2 = jp_position p1 + length s" "represents M S (jp_doc p2) (entries 0 None [] v)"
    by (auto simp: exact_parse_def built_def simp del: parse_value.simps)
  have d2: "drop (jp_position p2) xs = w' @ []" "jp_position p2 \<le> length xs" using p2(2) p1(4) x(1) by simp_all
  have "skip_space (Mem xs) p2 = Some (p2\<lparr>jp_position := jp_position p2 + length w'\<rparr>)" using skip_exact(1) [OF d2(1) x(3) _ d2(2)] by simp
  moreover have "jp_position p2 + length w' = length xs" using p2(2) p1(4) x(1) by simp
  ultimately have "parser_run max_depth (Mem xs) d = Some (json_ok, jp_doc p2)"
    using p1(1) p2(1) by (simp add: parser_run_def clear p0_def del: parse_value.simps)
  then show ?thesis using p2(3) by blast
qed

lemma run_sound:
  assumes rep: "represents M S d []" and clear: "json_clear d = d"
  shows "\<exists>r d'. parser_run max_depth (Mem xs) d = Some (r, d') \<and>
    (json_succeeded r \<longrightarrow> (\<exists>v. json_document_text M S max_depth v xs \<and> represents M S d' (entries 0 None [] v)))"
proof -
  define p0 where "p0 = \<lparr>jp_doc = d, jp_position = 0, jp_depth = 0\<rparr>"
  obtain w i1 where w: "skip_space (Mem xs) p0 = Some (p0\<lparr>jp_position := i1\<rparr>)" "i1 \<le> length xs" "drop (jp_position p0) xs = w @ drop i1 xs" "spaces w"
    using skip_total [of p0 xs] by (auto simp: p0_def)
  define p1 where "p1 = p0\<lparr>jp_position := i1\<rparr>"
  have "value_sound xs M S max_depth 0 (parse_value (Suc max_depth) max_depth (Mem xs))" by (rule parse_value_sound) simp
  then have "sound_parse xs M S [] None (view_text (Null 0)) max_depth p1 (parse_value (Suc max_depth) max_depth (Mem xs) None None (Null 0) p1)"
    by (rule value_soundD) (use rep w(2) in \<open>simp_all add: p1_def p0_def\<close>)
  then obtain r out p2 where t: "parse_value (Suc max_depth) max_depth (Mem xs) None None (Null 0) p1 = Some (r, out, p2)"
    "json_succeeded r \<longrightarrow> (\<exists>v w s. jp_position p2 \<le> length xs \<and> drop (jp_position p1) xs = w @ s @ drop (jp_position p2) xs \<and>
      spaces w \<and> value_text max_depth v s \<and> (is_number v \<longrightarrow> ends (drop (jp_position p2) xs)) \<and>
      built M S [] None (view_text (Null 0)) p1 (jp_position p2) v (r, out, p2))"
    unfolding sound_parse_def by blast
  have run: "parser_run max_depth (Mem xs) d =
      (if \<not> json_succeeded r then Some (r, json_clear (jp_doc p2))
       else do {
         p \<leftarrow> skip_space (Mem xs) p2;
         if jp_position p \<noteq> length xs then do { r \<leftarrow> parser_fail (Mem xs) p unexpected_token; Some (r, jp_doc p) }
         else Some (r, jp_doc p) })"
    using w(1) t(1) by (simp add: parser_run_def clear p0_def [symmetric] p1_def [symmetric] del: parse_value.simps)
  show ?thesis
  proof (cases "json_succeeded r")
    case False
    then show ?thesis using run by simp
  next
    case True
    obtain v w2 s where u: "jp_position p2 \<le> length xs" "drop (jp_position p1) xs = w2 @ s @ drop (jp_position p2) xs" "spaces w2"
      "value_text max_depth v s" "built M S [] None (view_text (Null 0)) p1 (jp_position p2) v (r, out, p2)"
      using mp [OF t(2) True] by blast
    obtain w3 i3 where w3: "skip_space (Mem xs) p2 = Some (p2\<lparr>jp_position := i3\<rparr>)" "drop (jp_position p2) xs = w3 @ drop i3 xs" "spaces w3"
      "i3 \<le> length xs" using skip_total [OF u(1)] by blast
    show ?thesis
    proof (cases "i3 = length xs")
      case False
      then show ?thesis using run True w3(1) fail_total [of xs "p2\<lparr>jp_position := i3\<rparr>" unexpected_token] by auto
    next
      case end_reached: True
      have rep2: "represents M S (jp_doc p2) (entries 0 None [] v)" using u(5) by (simp add: built_def)
      have "xs = (w @ w2) @ s @ w3" using w(3) u(2) w3(2) end_reached by (simp add: p1_def p0_def)
      then have "json_document_text M S max_depth v xs"
        using represents_fits [OF rep2] w(4) u(3,4) w3(3) unfolding json_document_text_def by (metis spaces_append(2))
      then show ?thesis using run True w3(1) end_reached rep2 by auto
    qed
  qed
qed

text \<open>C39: the parser returns on every text, without an access outside it, and succeeds exactly on the texts of the
  grammar \<open>value_text\<close>, with white space around, nested no deeper than the limit, whose nodes fit the document; then
  the document represents the value, and on every other text it returns an error. The grammar is that of JSON values
  except that a member name is not empty, that a string has no escaped surrogate pair, and that the bytes of a
  string are not checked to be UTF-8.\<close>

theorem json_parse_exact:
  assumes "represents M S d es"
  shows "\<exists>r d'. parser_run max_depth (Mem xs) d = Some (r, d') \<and>
    (json_succeeded r \<longleftrightarrow> (\<exists>v. json_document_text M S max_depth v xs)) \<and>
    (\<forall>v. json_document_text M S max_depth v xs \<longrightarrow> represents M S d' (entries 0 None [] v))"
proof -
  define d0 where "d0 = json_clear d"
  have d0: "represents M S d0 []" "json_clear d0 = d0" using json_document_is(2) [OF assms] by (simp_all add: d0_def json_clear_def)
  have same: "parser_run max_depth (Mem xs) d = parser_run max_depth (Mem xs) d0" by (simp add: parser_run_def d0_def json_clear_def)
  obtain r d' where run: "parser_run max_depth (Mem xs) d0 = Some (r, d')"
    "json_succeeded r \<longrightarrow> (\<exists>v. json_document_text M S max_depth v xs \<and> represents M S d' (entries 0 None [] v))"
    using run_sound [OF d0, of max_depth xs] by blast
  have "r = json_ok \<and> represents M S d' (entries 0 None [] v)" if "json_document_text M S max_depth v xs" for v
    using run_complete [OF d0(1) that d0(2)] run(1) by auto
  then show ?thesis unfolding same using run by (metis ok_succeeds)
qed

lemma json_parse_exact_witness:
  "\<exists>r d'. parser_run 2 (Mem [0x20, 0x37]) (json_document 4 [0, 0]) = Some (r, d') \<and> json_succeeded r \<and>
    represents 4 2 d' (entries 0 None [] (Leaf number_value [0x37]))"
proof -
  have "json_number [0x37]"
    unfolding json_number_def by (intro exI [of _ "[0x37]"] exI [of _ "[]"])
      (simp add: integer_text_def digit_text_def json_digit_def fraction_text_def exponent_text_def)
  then have "value_text 2 (Leaf number_value [0x37]) [0x37]" by (rule text_number)
  then have "json_document_text 4 2 2 (Leaf number_value [0x37]) [0x20, 0x37]"
    unfolding json_document_text_def
    by (intro conjI exI [of _ "[0x20]"] exI [of _ "[0x37]"] exI [of _ "[]"]) (simp_all add: fits_def entry_bytes_def spaces_def is_space_def)
  moreover have "represents 4 2 (json_document 4 [0, 0]) []" using json_document_is(1) [of 4 "[0, 0]"] by (simp add: numeral_2_eq_2)
  ultimately show ?thesis using json_parse_exact [of 4 2 "json_document 4 [0, 0]" "[]" 2 "[0x20, 0x37]"] by blast
qed

text \<open>Two legal JSON texts that the code refuses: an object with an empty member name, reported as exhausted
  capacity, and an escaped surrogate pair, reported as an invalid escape.\<close>

declare object_loop.simps [code]

lemma json_texts_refused:
  "map_option (jr_code \<circ> fst) (parser_run 2 (Mem [0x7B, 0x22, 0x22, 0x3A, 0x31, 0x7D]) (json_document 4 (replicate 8 0))) = Some capacity_error \<and>
   map_option (jr_code \<circ> fst) (parser_run 2 (Mem [0x22, 0x5C, 0x75, 0x44, 0x38, 0x33, 0x44, 0x5C, 0x75, 0x44, 0x45, 0x30, 0x30, 0x22])
     (json_document 4 (replicate 8 0))) = Some invalid_unicode_escape"
  by code_simp

end
