(* ===== verification/JsonWriter.thy ===== *)
theory JsonWriter
  imports JsonComplete
begin

text \<open>
  The serializer of \<open>castle_ext/serialization/json.hpp\<close>.  It walks the nodes from the root, compactly or with one
  member per line; a node's children have larger indices, so as many levels as there are nodes are enough.  The text it
  writes is \<open>layout\<close> of the value the document holds, and the parser reads it back.
\<close>

section \<open>Writing nodes\<close>

fun write_spaces :: "nat \<Rightarrow> cstring \<Rightarrow> (status \<times> cstring) option" where
  "write_spaces 0 out = Some (status_ok, out)"
| "write_spaces (Suc n) out = do {
     (r, out) \<leftarrow> str_push_back 0x20 out;
     if r \<noteq> status_ok then Some (status_full, out) else write_spaces n out }"

definition write_indent :: "nat \<Rightarrow> nat \<Rightarrow> cstring \<Rightarrow> (status \<times> cstring) option" where
  "write_indent depth indent out = write_spaces (depth * indent) out"

text \<open>\<open>condition && out.push_back(c) != ok\<close>, read as the status of the push.\<close>

definition push_if :: "bool \<Rightarrow> u8 \<Rightarrow> cstring \<Rightarrow> (status \<times> cstring) option" where
  "push_if condition c out = (if condition then str_push_back c out else Some (status_ok, out))"

type_synonym node_writer = "node_id \<Rightarrow> cstring \<Rightarrow> nat \<Rightarrow> (status \<times> cstring) option"

partial_function (option) write_children ::
  "node_writer \<Rightarrow> json_doc \<Rightarrow> bool \<Rightarrow> bool \<Rightarrow> nat \<Rightarrow> nat \<Rightarrow> bool \<Rightarrow> node_id \<Rightarrow> cstring \<Rightarrow> (status \<times> cstring) option" where
  "write_children node d object pretty depth indent first child out =
     (if child = None then do {
        (r, out) \<leftarrow> push_if pretty 0x0A out;
        if r \<noteq> status_ok then Some (status_full, out)
        else do {
          (r, out) \<leftarrow> (if pretty then write_indent depth indent out else Some (status_ok, out));
          if r \<noteq> status_ok then Some (status_full, out)
          else str_push_back (if object then 0x7D else 0x5D) out } }
      else do {
        (r, out) \<leftarrow> push_if (\<not> first) 0x2C out;
        if r \<noteq> status_ok then Some (status_full, out)
        else do {
          (r, out) \<leftarrow> push_if (\<not> first \<and> pretty) 0x0A out;
          if r \<noteq> status_ok then Some (status_full, out)
          else do {
            (r, out) \<leftarrow> (if pretty then write_indent (depth + 1) indent out else Some (status_ok, out));
            if r \<noteq> status_ok then Some (status_full, out)
            else do {
              (r, out) \<leftarrow> (if object then do {
                  key \<leftarrow> json_key d child;
                  (r, out) \<leftarrow> append_escaped key out;
                  if r \<noteq> status_ok then Some (status_full, out)
                  else do {
                    (r, out) \<leftarrow> str_push_back 0x3A out;
                    if r \<noteq> status_ok then Some (status_full, out) else push_if pretty 0x20 out } }
                else Some (status_ok, out));
              if r \<noteq> status_ok then Some (status_full, out)
              else do {
                (r, out) \<leftarrow> node child out (depth + 1);
                if r \<noteq> status_ok then Some (r, out)
                else do {
                  next \<leftarrow> json_next_sibling d child;
                  write_children node d object pretty depth indent False next out } } } } } })"

fun serialize_node :: "nat \<Rightarrow> json_doc \<Rightarrow> bool \<Rightarrow> nat \<Rightarrow> node_writer" where
  "serialize_node 0 d pretty indent i out depth = None"
| "serialize_node (Suc levels) d pretty indent i out depth = do {
     k \<leftarrow> json_kind d i;
     if k = null_value then str_append (Mem null_text) out
     else if k = boolean_value \<or> k = number_value then do { t \<leftarrow> json_scalar d i; str_append t out }
     else if k = string_value then do { t \<leftarrow> json_string d i; append_escaped t out }
     else do {
       let object = (k = object_value);
       (r, out) \<leftarrow> str_push_back (if object then 0x7B else 0x5B) out;
       if r \<noteq> status_ok then Some (status_full, out)
       else do {
         child \<leftarrow> json_first_child d i;
         if child = None then str_push_back (if object then 0x7D else 0x5D) out
         else do {
           (r, out) \<leftarrow> push_if pretty 0x0A out;
           if r \<noteq> status_ok then Some (status_full, out)
           else write_children (serialize_node levels d pretty indent) d object pretty depth indent True child out } } } }"

definition json_serialize :: "json_doc \<Rightarrow> cstring \<Rightarrow> bool \<Rightarrow> nat \<Rightarrow> (json_result \<times> cstring) option" where
  "json_serialize d out pretty indent = do {
     out \<leftarrow> str_clear out;
     if json_root d = None then Some (json_ok\<lparr>jr_status := status_empty\<rparr>, out)
     else do {
       (s, out) \<leftarrow> serialize_node (jd_count d) d pretty indent (json_root d) out 0;
       if s \<noteq> status_ok then do {
         out \<leftarrow> str_clear out;
         Some (json_ok\<lparr>jr_status := s, jr_code := output_full\<rparr>, out) }
       else Some (json_ok, out) } }"

section \<open>The value a document holds\<close>

fun node_is :: "json_entry list \<Rightarrow> nat \<Rightarrow> json_value \<Rightarrow> bool"
  and nodes_are :: "json_entry list \<Rightarrow> nat list \<Rightarrow> (u8 list \<times> json_value) list \<Rightarrow> bool" where
  "node_is es i (Leaf k t) \<longleftrightarrow> i < length es \<and> k \<notin> {object_value, array_value} \<and> en_kind (es ! i) = k \<and> en_text (es ! i) = t"
| "node_is es i (Branch k ms) \<longleftrightarrow> i < length es \<and> k \<in> {object_value, array_value} \<and> en_kind (es ! i) = k \<and> nodes_are es (children es i) ms"
| "nodes_are es [] [] \<longleftrightarrow> True"
| "nodes_are es (j # js) ((key, v) # ms) \<longleftrightarrow> en_key (es ! j) = key \<and> node_is es j v \<and> nodes_are es js ms"
| "nodes_are es [] (m # ms) \<longleftrightarrow> False"
| "nodes_are es (j # js) [] \<longleftrightarrow> False"

text \<open>Compact, or with \<open>indent\<close> blanks for every level.\<close>

definition line_break :: "bool \<Rightarrow> nat \<Rightarrow> nat \<Rightarrow> u8 list" where
  "line_break pretty indent depth = (if pretty then 0x0A # replicate (depth * indent) 0x20 else [])"

definition name_text :: "bool \<Rightarrow> json_type \<Rightarrow> u8 list \<Rightarrow> u8 list" where
  "name_text pretty k key = (if k = object_value then literal_text key @ 0x3A # (if pretty then [0x20] else []) else [])"

fun layout :: "bool \<Rightarrow> nat \<Rightarrow> nat \<Rightarrow> json_value \<Rightarrow> u8 list"
  and layout_members :: "bool \<Rightarrow> nat \<Rightarrow> nat \<Rightarrow> json_type \<Rightarrow> bool \<Rightarrow> (u8 list \<times> json_value) list \<Rightarrow> u8 list" where
  "layout pretty indent depth (Leaf k t) = (if k = null_value then null_text else if k = string_value then literal_text t else t)"
| "layout pretty indent depth (Branch k ms) =
     open_bracket k # (if ms = [] then [] else layout_members pretty indent depth k True ms @ line_break pretty indent depth) @ [close_bracket k]"
| "layout_members pretty indent depth k first [] = []"
| "layout_members pretty indent depth k first ((key, v) # ms) =
     (if first then [] else [0x2C]) @ line_break pretty indent (depth + 1) @ name_text pretty k key @
     layout pretty indent (depth + 1) v @ layout_members pretty indent depth k False ms"

text \<open>What the serializer can spell: strings and names without the control characters that have no short escape.\<close>

fun spellable :: "json_value \<Rightarrow> bool"
  and spellable_members :: "json_type \<Rightarrow> (u8 list \<times> json_value) list \<Rightarrow> bool" where
  "spellable (Leaf k t) \<longleftrightarrow> (k = string_value \<longrightarrow> list_all printable t)"
| "spellable (Branch k ms) \<longleftrightarrow> spellable_members k ms"
| "spellable_members k [] \<longleftrightarrow> True"
| "spellable_members k ((key, v) # ms) \<longleftrightarrow> (k = object_value \<longrightarrow> list_all printable key) \<and> spellable v \<and> spellable_members k ms"

section \<open>What the serializer writes\<close>

lemma nothing_appends: "str_holds N out t \<Longrightarrow> appends N t (Some (status_ok, out)) [] True"
  using holds_sizes(3) by (fastforce simp: appends_def)

lemma push_if_appends: "str_holds N out t \<Longrightarrow> appends N t (push_if b c out) (if b then [c] else []) True"
  using push_back_appends [of N out t c] nothing_appends [of N out t] by (simp add: push_if_def)

lemma spaces_appends: "str_holds N out t \<Longrightarrow> appends N t (write_spaces n out) (replicate n 0x20) True"
proof (induction n arbitrary: out t)
  case 0
  then show ?case using nothing_appends by simp
next
  case (Suc n)
  have "appends N t (write_spaces (Suc n) out) ([0x20] @ replicate n 0x20) (True \<and> True)"
    unfolding write_spaces.simps
    by (rule appends_bind [where k = "\<lambda>r. status_full"]) (use push_back_appends [OF Suc.prems] Suc.IH in simp_all)
  then show ?case by simp
qed

lemma indent_appends:
  "str_holds N out t \<Longrightarrow> appends N t (if b then write_indent depth indent out else Some (status_ok, out)) (if b then replicate (depth * indent) 0x20 else []) True"
  using spaces_appends [of N out t "depth * indent"] nothing_appends [of N out t] by (simp add: write_indent_def)

text \<open>The name of a member, as the loop writes it.\<close>

lemma name_appends:
  assumes key: "json_key d child = Some v" "view_ok v" and out: "str_holds N out t"
  shows "appends N t
    (if k = object_value then do {
       key \<leftarrow> json_key d child;
       (r, out) \<leftarrow> append_escaped key out;
       if r \<noteq> status_ok then Some (status_full, out)
       else do {
         (r, out) \<leftarrow> str_push_back 0x3A out;
         if r \<noteq> status_ok then Some (status_full, out) else push_if pretty 0x20 out } }
     else Some (status_ok, out)) (name_text pretty k (view_text v)) (k = object_value \<longrightarrow> list_all printable (view_text v))"
proof (cases "k = object_value")
  case False
  then show ?thesis using nothing_appends [OF out] by (simp add: name_text_def)
next
  case True
  have "appends N t
     (do { (r, out) \<leftarrow> append_escaped v out;
       if r \<noteq> status_ok then Some (status_full, out)
       else do {
         (r, out) \<leftarrow> str_push_back 0x3A out;
         if r \<noteq> status_ok then Some (status_full, out) else push_if pretty 0x20 out } })
     (literal_text (view_text v) @ [0x3A] @ (if pretty then [0x20] else [])) (list_all printable (view_text v) \<and> (True \<and> True))"
  proof (rule appends_bind [where k = "\<lambda>r. status_full"])
    show "appends N t (append_escaped v out) (literal_text (view_text v)) (list_all printable (view_text v))"
      by (rule append_escaped_appends [OF key(2) out])
    fix s assume s: "str_holds N s (t @ literal_text (view_text v))"
    show "appends N (t @ literal_text (view_text v)) (do {
         (r, out) \<leftarrow> str_push_back 0x3A s;
         if r \<noteq> status_ok then Some (status_full, out) else push_if pretty 0x20 out }) ([0x3A] @ (if pretty then [0x20] else [])) (True \<and> True)"
      by (rule appends_bind [where k = "\<lambda>r. status_full"]) (use push_back_appends [OF s] push_if_appends in simp_all)
  qed simp_all
  then show ?thesis using True key(1) by (simp add: name_text_def)
qed

text \<open>What the loop over the children writes; the break before the first one is already there.\<close>

definition gap :: "bool \<Rightarrow> nat \<Rightarrow> nat \<Rightarrow> bool \<Rightarrow> u8 list" where
  "gap pretty indent depth first =
     (if first then if pretty then replicate ((depth + 1) * indent) 0x20 else [] else 0x2C # line_break pretty indent (depth + 1))"

fun loop_text :: "bool \<Rightarrow> nat \<Rightarrow> nat \<Rightarrow> json_type \<Rightarrow> bool \<Rightarrow> (u8 list \<times> json_value) list \<Rightarrow> u8 list" where
  "loop_text pretty indent depth k first [] = line_break pretty indent depth @ [close_bracket k]"
| "loop_text pretty indent depth k first ((key, v) # ms) =
     gap pretty indent depth first @ name_text pretty k key @ layout pretty indent (depth + 1) v @ loop_text pretty indent depth k False ms"

lemma loop_text_members:
  "loop_text pretty indent depth k False ms = layout_members pretty indent depth k False ms @ line_break pretty indent depth @ [close_bracket k]"
proof (induction ms)
  case (Cons m ms)
  then show ?case by (cases m) (simp add: gap_def)
qed simp

lemma layout_branch:
  "ms \<noteq> [] \<Longrightarrow> layout pretty indent depth (Branch k ms) =
     [open_bracket k] @ (if pretty then [0x0A] else []) @ loop_text pretty indent depth k True ms"
  by (cases ms) (auto simp: loop_text_members gap_def line_break_def)

lemma children_end_appends:
  assumes "str_holds N out t"
  shows "appends N t (write_children node d (k = object_value) pretty depth indent first None out) (loop_text pretty indent depth k first []) True"
proof -
  have "appends N t (do {
        (r, out) \<leftarrow> push_if pretty 0x0A out;
        if r \<noteq> status_ok then Some (status_full, out)
        else do {
          (r, out) \<leftarrow> (if pretty then write_indent depth indent out else Some (status_ok, out));
          if r \<noteq> status_ok then Some (status_full, out)
          else str_push_back (if k = object_value then 0x7D else 0x5D) out } })
      ((if pretty then [0x0A] else []) @ (if pretty then replicate (depth * indent) 0x20 else []) @ [close_bracket k]) (True \<and> (True \<and> True))"
  proof (rule appends_bind [where k = "\<lambda>r. status_full"])
    show "appends N t (push_if pretty 0x0A out) (if pretty then [0x0A] else []) True" by (rule push_if_appends [OF assms])
    fix s assume s: "str_holds N s (t @ (if pretty then [0x0A] else []))"
    show "appends N (t @ (if pretty then [0x0A] else [])) (do {
          (r, out) \<leftarrow> (if pretty then write_indent depth indent s else Some (status_ok, s));
          if r \<noteq> status_ok then Some (status_full, out) else str_push_back (if k = object_value then 0x7D else 0x5D) out })
        ((if pretty then replicate (depth * indent) 0x20 else []) @ [close_bracket k]) (True \<and> True)"
      by (rule appends_bind [where k = "\<lambda>r. status_full", OF indent_appends [OF s]]) (use push_back_appends in \<open>simp_all add: close_bracket_def\<close>)
  qed simp_all
  moreover have "loop_text pretty indent depth k first [] =
      (if pretty then [0x0A] else []) @ (if pretty then replicate (depth * indent) 0x20 else []) @ [close_bracket k]"
    by (simp add: line_break_def)
  ultimately show ?thesis by (subst write_children.simps) (simp only: simp_thms if_True)
qed

lemma gap_appends:
  assumes "str_holds N out t"
    and rest: "\<And>out t. str_holds N out t \<Longrightarrow> appends N t (f out) w p"
  shows "appends N t (do {
      (r, out) \<leftarrow> push_if (\<not> first) 0x2C out;
      if r \<noteq> status_ok then Some (status_full, out)
      else do {
        (r, out) \<leftarrow> push_if (\<not> first \<and> pretty) 0x0A out;
        if r \<noteq> status_ok then Some (status_full, out)
        else do {
          (r, out) \<leftarrow> (if pretty then write_indent (depth + 1) indent out else Some (status_ok, out));
          if r \<noteq> status_ok then Some (status_full, out) else f out } } }) (gap pretty indent depth first @ w) p"
proof -
  let ?c = "if \<not> first then [0x2C] else [] :: u8 list" and ?n = "if \<not> first \<and> pretty then [0x0A] else [] :: u8 list"
    and ?i = "if pretty then replicate ((depth + 1) * indent) 0x20 else [] :: u8 list"
  have "appends N t (do {
      (r, out) \<leftarrow> push_if (\<not> first) 0x2C out;
      if r \<noteq> status_ok then Some (status_full, out)
      else do {
        (r, out) \<leftarrow> push_if (\<not> first \<and> pretty) 0x0A out;
        if r \<noteq> status_ok then Some (status_full, out)
        else do {
          (r, out) \<leftarrow> (if pretty then write_indent (depth + 1) indent out else Some (status_ok, out));
          if r \<noteq> status_ok then Some (status_full, out) else f out } } }) (?c @ ?n @ ?i @ w) (True \<and> (True \<and> (True \<and> p)))"
  proof (rule appends_bind [where k = "\<lambda>r. status_full", OF push_if_appends [OF assms(1)]])
    fix s1 assume s1: "str_holds N s1 (t @ ?c)"
    show "appends N (t @ ?c) (do {
        (r, out) \<leftarrow> push_if (\<not> first \<and> pretty) 0x0A s1;
        if r \<noteq> status_ok then Some (status_full, out)
        else do {
          (r, out) \<leftarrow> (if pretty then write_indent (depth + 1) indent out else Some (status_ok, out));
          if r \<noteq> status_ok then Some (status_full, out) else f out } }) (?n @ ?i @ w) (True \<and> (True \<and> p))"
    proof (rule appends_bind [where k = "\<lambda>r. status_full", OF push_if_appends [OF s1]])
      fix s2 assume s2: "str_holds N s2 ((t @ ?c) @ ?n)"
      show "appends N ((t @ ?c) @ ?n) (do {
          (r, out) \<leftarrow> (if pretty then write_indent (depth + 1) indent s2 else Some (status_ok, s2));
          if r \<noteq> status_ok then Some (status_full, out) else f out }) (?i @ w) (True \<and> p)"
        by (rule appends_bind [where k = "\<lambda>r. status_full", OF indent_appends [OF s2]]) (use rest in simp_all)
    qed simp_all
  qed simp_all
  moreover have "?c @ ?n @ ?i @ w = gap pretty indent depth first @ w" by (simp add: gap_def line_break_def)
  ultimately show ?thesis by (simp only: simp_thms)
qed

lemma children_appends:
  assumes rep: "represents M S d es"
    and node: "\<And>j v out t. j \<in> set (children es i) \<Longrightarrow> node_is es j v \<Longrightarrow> str_holds N out t \<Longrightarrow>
      appends N t (node (Some j) out (depth + 1)) (layout pretty indent (depth + 1) v) (spellable v)"
  shows "children es i = pre @ js \<Longrightarrow> nodes_are es js ms \<Longrightarrow> str_holds N out t \<Longrightarrow>
    appends N t (write_children node d (k = object_value) pretty depth indent first (first_handle js) out)
      (loop_text pretty indent depth k first ms) (spellable_members k ms)"
proof (induction js arbitrary: pre ms first out t)
  case Nil
  then have "ms = []" by (cases ms) simp_all
  then show ?case using children_end_appends [OF Nil.prems(3)] by simp
next
  case (Cons j js)
  obtain key v ms' where ms: "ms = (key, v) # ms'" "en_key (es ! j) = key" "node_is es j v" "nodes_are es js ms'"
    using Cons.prems(2) by (cases ms) auto
  note c = next_in_children [OF Cons.prems(1)]
  obtain kv where kv: "json_key d (Some j) = Some kv" "view_ok kv" "view_text kv = key" using represents_reads(1) [OF rep c(2)] ms(2) by auto
  have nxt: "json_next_sibling d (Some j) = Some (first_handle js)" using represents_reads(4) [OF rep c(2)] c(1) by simp
  have inside: "j \<in> set (children es i)" using Cons.prems(1) by simp
  let ?named = "k = object_value \<longrightarrow> list_all printable key"
  define rest where "rest out = do {
      (r, out) \<leftarrow> (if k = object_value then do {
          key \<leftarrow> json_key d (Some j);
          (r, out) \<leftarrow> append_escaped key out;
          if r \<noteq> status_ok then Some (status_full, out)
          else do {
            (r, out) \<leftarrow> str_push_back 0x3A out;
            if r \<noteq> status_ok then Some (status_full, out) else push_if pretty 0x20 out } }
        else Some (status_ok, out));
      if r \<noteq> status_ok then Some (status_full, out)
      else do {
        (r, out) \<leftarrow> node (Some j) out (depth + 1);
        if r \<noteq> status_ok then Some (r, out)
        else write_children node d (k = object_value) pretty depth indent False (first_handle js) out } }" for out
  have step: "appends N t (rest out) (name_text pretty k key @ layout pretty indent (depth + 1) v @ loop_text pretty indent depth k False ms')
      (?named \<and> (spellable v \<and> spellable_members k ms'))" if out: "str_holds N out t" for out t
    unfolding rest_def
  proof (rule appends_bind [where k = "\<lambda>r. status_full", OF name_appends [OF kv(1,2) out, where pretty = pretty and k = k, unfolded kv(3)]])
    fix s1 assume s1: "str_holds N s1 (t @ name_text pretty k key)"
    show "appends N (t @ name_text pretty k key) (do {
        (r, out) \<leftarrow> node (Some j) s1 (depth + 1);
        if r \<noteq> status_ok then Some (r, out)
        else write_children node d (k = object_value) pretty depth indent False (first_handle js) out })
      (layout pretty indent (depth + 1) v @ loop_text pretty indent depth k False ms') (spellable v \<and> spellable_members k ms')"
      by (rule appends_bind [where k = "\<lambda>r. r", OF node [OF inside ms(3) s1]])
        (use Cons.IH [of "pre @ [j]" ms'] Cons.prems(1) ms(4) in simp_all)
  qed simp_all
  have unfold: "write_children node d (k = object_value) pretty depth indent first (first_handle (j # js)) out = (do {
      (r, out) \<leftarrow> push_if (\<not> first) 0x2C out;
      if r \<noteq> status_ok then Some (status_full, out)
      else do {
        (r, out) \<leftarrow> push_if (\<not> first \<and> pretty) 0x0A out;
        if r \<noteq> status_ok then Some (status_full, out)
        else do {
          (r, out) \<leftarrow> (if pretty then write_indent (depth + 1) indent out else Some (status_ok, out));
          if r \<noteq> status_ok then Some (status_full, out) else rest out } } })"
    unfolding rest_def by (subst write_children.simps) (simp add: nxt cong: if_cong)
  show ?case
    unfolding unfold ms(1) loop_text.simps spellable_members.simps
    by (rule gap_appends [OF Cons.prems(3) step])
qed

lemma nodes_are_Nil: "nodes_are es js [] \<longleftrightarrow> js = []" "nodes_are es [] ms \<longleftrightarrow> ms = []"
  by (cases js; simp) (cases ms; simp)

lemma linked_child: "linked es \<Longrightarrow> j \<in> set (children es i) \<Longrightarrow> i < j \<and> j < length es"
  by (auto simp: linked_def child_iff split: option.splits)

lemma node_appends:
  assumes rep: "represents M S d es"
  shows "node_is es i v \<Longrightarrow> length es - i \<le> levels \<Longrightarrow> str_holds N out t \<Longrightarrow>
    appends N t (serialize_node levels d pretty indent (Some i) out depth) (layout pretty indent depth v) (spellable v)"
proof (induction levels arbitrary: i v depth out t)
  case 0
  then show ?case by (cases v) simp_all
next
  case (Suc levels)
  have i: "i < length es" using Suc.prems(1) by (cases v) simp_all
  have kind: "json_kind d (Some i) = Some (en_kind (es ! i))" using represents_kind(2) [OF rep, of "Some i"] i by simp
  obtain tv where tv: "json_scalar d (Some i) = Some tv" "view_ok tv" "view_text tv = en_text (es ! i)" using represents_reads(2) [OF rep i] by blast
  show ?case
  proof (cases v)
    case (Leaf k u)
    then have e: "k \<notin> {object_value, array_value}" "en_kind (es ! i) = k" "en_text (es ! i) = u" using Suc.prems(1) by simp_all
    have plain: "appends N t (str_append tv out) u True" using append_appends [OF Suc.prems(3) tv(2)] tv(3) e by simp
    have null: "appends N t (str_append (Mem null_text) out) null_text True" using append_appends [OF Suc.prems(3), of "Mem null_text"] by simp
    have quoted: "appends N t (append_escaped tv out) (literal_text u) (list_all printable u)"
      using append_escaped_appends [OF tv(2) Suc.prems(3)] tv(3) e by simp
    show ?thesis using Leaf e kind tv(1) plain null quoted by (cases k) (simp_all add: json_string_def)
  next
    case (Branch k ms)
    then have e: "k \<in> {object_value, array_value}" "en_kind (es ! i) = k" "nodes_are es (children es i) ms" using Suc.prems(1) by simp_all
    have first: "json_first_child d (Some i) = Some (first_handle (children es i))" by (rule represents_reads(3) [OF rep i])
    have run: "serialize_node (Suc levels) d pretty indent (Some i) out depth = do {
         (r, out) \<leftarrow> str_push_back (open_bracket k) out;
         if r \<noteq> status_ok then Some (status_full, out)
         else if children es i = [] then str_push_back (close_bracket k) out
         else do {
           (r, out) \<leftarrow> push_if pretty 0x0A out;
           if r \<noteq> status_ok then Some (status_full, out)
           else write_children (serialize_node levels d pretty indent) d (k = object_value) pretty depth indent True (first_handle (children es i)) out } }"
      using e(1,2) kind first by (auto simp: Let_def open_bracket_def close_bracket_def first_handle_None cong: if_cong)
    show ?thesis
    proof (cases "children es i = []")
      case True
      then have "ms = []" using e(3) by (simp add: nodes_are_Nil)
      have "appends N t (do {
         (r, out) \<leftarrow> str_push_back (open_bracket k) out;
         if r \<noteq> status_ok then Some (status_full, out) else str_push_back (close_bracket k) out }) ([open_bracket k] @ [close_bracket k]) (True \<and> True)"
        by (rule appends_bind [where k = "\<lambda>r. status_full", OF push_back_appends [OF Suc.prems(3)]]) (use push_back_appends in simp_all)
      then show ?thesis unfolding run using True Branch \<open>ms = []\<close> by (simp cong: if_cong)
    next
      case False
      then have ms: "ms \<noteq> []" using e(3) by (auto simp: nodes_are_Nil)
      have node: "appends N t (serialize_node levels d pretty indent (Some j) out (depth + 1)) (layout pretty indent (depth + 1) v) (spellable v)"
        if "j \<in> set (children es i)" "node_is es j v" "str_holds N out t" for j v out t
      proof (rule Suc.IH [OF that(2) _ that(3)])
        have "linked es" using rep by (simp add: represents_def)
        from linked_child [OF this that(1)] show "length es - j \<le> levels" using Suc.prems(2) by linarith
      qed
      have "appends N t (do {
         (r, out) \<leftarrow> str_push_back (open_bracket k) out;
         if r \<noteq> status_ok then Some (status_full, out)
         else do {
           (r, out) \<leftarrow> push_if pretty 0x0A out;
           if r \<noteq> status_ok then Some (status_full, out)
           else write_children (serialize_node levels d pretty indent) d (k = object_value) pretty depth indent True (first_handle (children es i)) out } })
         ([open_bracket k] @ (if pretty then [0x0A] else []) @ loop_text pretty indent depth k True ms) (True \<and> (True \<and> spellable_members k ms))"
      proof (rule appends_bind [where k = "\<lambda>r. status_full", OF push_back_appends [OF Suc.prems(3)]])
        fix s assume s: "str_holds N s (t @ [open_bracket k])"
        show "appends N (t @ [open_bracket k]) (do {
             (r, out) \<leftarrow> push_if pretty 0x0A s;
             if r \<noteq> status_ok then Some (status_full, out)
             else write_children (serialize_node levels d pretty indent) d (k = object_value) pretty depth indent True (first_handle (children es i)) out })
           ((if pretty then [0x0A] else []) @ loop_text pretty indent depth k True ms) (True \<and> spellable_members k ms)"
          by (rule appends_bind [where k = "\<lambda>r. status_full", OF push_if_appends [OF s]])
            (use children_appends [where node = "serialize_node levels d pretty indent" and i = i and depth = depth and pretty = pretty and indent = indent,
              OF rep node, where pre = "[]"] e(3) in simp_all)
      qed simp_all
      then show ?thesis unfolding run Branch layout_branch [OF ms] using False by (simp cong: if_cong)
    qed
  qed
qed

text \<open>Every node of a document is some value.\<close>

lemma node_value:
  assumes linked: "linked es"
  shows "i < length es \<Longrightarrow> \<exists>v. node_is es i v"
proof (induction "length es - i" arbitrary: i rule: less_induct)
  case less
  show ?case
  proof (cases "en_kind (es ! i) \<in> {object_value, array_value}")
    case False
    then show ?thesis using less.prems by (intro exI [of _ "Leaf (en_kind (es ! i)) (en_text (es ! i))"]) simp
  next
    case True
    have "\<exists>ms. nodes_are es js ms" if "\<forall>j\<in>set js. \<exists>v. node_is es j v" for js
      using that
    proof (induction js)
      case Nil
      show ?case by (intro exI [of _ "[]"]) simp
    next
      case (Cons j js)
      then obtain v ms where "node_is es j v" "nodes_are es js ms" by auto
      then show ?case by (intro exI [of _ "(en_key (es ! j), v) # ms"]) simp
    qed
    moreover have "\<exists>v. node_is es j v" if "j \<in> set (children es i)" for j
      by (rule less.hyps) (use linked_child [OF linked that] in \<open>simp_all add: diff_less_mono2\<close>)
    ultimately obtain ms where "nodes_are es (children es i) ms" by blast
    then show ?thesis using True less.prems by (intro exI [of _ "Branch (en_kind (es ! i)) ms"]) simp
  qed
qed

lemma serialize_is:
  assumes rep: "represents M S d es" and v: "node_is es 0 v" and out: "str_holds N out t"
  shows "\<exists>r out'. json_serialize d out pretty indent = Some (r, out') \<and>
    (if spellable v \<and> length (layout pretty indent 0 v) \<le> N then r = json_ok \<and> str_holds N out' (layout pretty indent 0 v)
     else \<not> json_succeeded r \<and> str_holds N out' [])"
proof -
  have count: "jd_count d = length es" "0 < length es" using rep v by (cases v; simp add: represents_def)+
  obtain s0 where s0: "str_clear out = Some s0" "str_holds N s0 []" using clear_holds [OF holds_sizes(5) [OF out]] by blast
  have "appends N [] (serialize_node (length es) d pretty indent (Some 0) s0 0) (layout pretty indent 0 v) (spellable v)"
    by (rule node_appends [OF rep v _ s0(2)]) simp
  then obtain r s1 t1 where w: "serialize_node (length es) d pretty indent (Some 0) s0 0 = Some (r, s1)" "str_holds N s1 t1"
    "if spellable v \<and> length (layout pretty indent 0 v) \<le> N then r = status_ok \<and> t1 = layout pretty indent 0 v else r \<noteq> status_ok"
    by (auto simp: appends_def)
  obtain s2 where s2: "str_clear s1 = Some s2" "str_holds N s2 []" using clear_holds [OF holds_sizes(5) [OF w(2)]] by blast
  have run: "json_serialize d out pretty indent =
      Some (if r \<noteq> status_ok then (json_ok\<lparr>jr_status := r, jr_code := output_full\<rparr>, s2) else (json_ok, s1))"
    using s0(1) w(1) s2(1) count by (simp add: json_serialize_def json_root_def)
  show ?thesis using run w(2,3) s2(2) by (auto simp: json_succeeded_def succeeded_def json_ok_def)
qed

section \<open>Reading back what was written\<close>

text \<open>Values whose leaves and names are well formed, of at most \<open>n\<close> nested containers.\<close>

fun value_ok :: "nat \<Rightarrow> json_value \<Rightarrow> bool"
  and members_ok :: "nat \<Rightarrow> json_type \<Rightarrow> (u8 list \<times> json_value) list \<Rightarrow> bool" where
  "value_ok n (Leaf k t) \<longleftrightarrow> k = null_value \<and> t = [] \<or> k = boolean_value \<and> t \<in> {true_text, false_text} \<or>
     k = number_value \<and> json_number t \<or> k = string_value \<and> list_all printable t"
| "value_ok n (Branch k ms) \<longleftrightarrow> k \<in> {object_value, array_value} \<and> 0 < n \<and> members_ok (n - 1) k ms"
| "members_ok n k [] \<longleftrightarrow> True"
| "members_ok n k ((key, v) # ms) \<longleftrightarrow>
     (if k = object_value then key \<noteq> [] \<and> list_all printable key else key = []) \<and> value_ok n v \<and> members_ok n k ms"

lemma ok_spellable: "value_ok n v \<Longrightarrow> spellable v" "members_ok n k ms \<Longrightarrow> spellable_members k ms"
  by (induction n v and n k ms rule: value_ok_members_ok.induct) (auto split: if_splits)

lemma break_spaces: "spaces (line_break pretty indent depth)" "spaces (gap pretty indent depth True)"
  by (auto simp: line_break_def gap_def spaces_def is_space_def list_all_iff)

lemma literal_text_is: "literal_text t = 0x22 # spelling t @ [0x22]"
  by (simp add: literal_text_def)

lemma layout_text:
  "value_ok n v \<Longrightarrow> value_text n v (layout pretty indent depth v)"
  "members_ok n k ms \<Longrightarrow> k \<in> {object_value, array_value} \<Longrightarrow> ms \<noteq> [] \<Longrightarrow>
     members_text n k ms (name_text pretty k (fst (hd ms)) @ layout pretty indent (depth + 1) (snd (hd ms)) @ loop_text pretty indent depth k False (tl ms))"
proof (induction n v and n k ms arbitrary: depth and depth rule: value_ok_members_ok.induct)
  case (1 n k t)
  then consider "k = null_value" "t = []" | "k = boolean_value" "t \<in> {true_text, false_text}" | "k = number_value" "json_number t"
    | "k = string_value" "list_all printable t" by auto
  then show ?case
  proof cases
    case 4
    then show ?thesis using text_string [OF spelling_literal [OF 4(2)]] by (simp add: literal_text_is)
  qed (use text_null text_bool text_number in auto)
next
  case (2 n k ms)
  then obtain m where n: "n = Suc m" by (cases n) auto
  have k: "k \<in> {object_value, array_value}" and ok: "members_ok m k ms" using "2.prems" n by simp_all
  show ?case
  proof (cases ms)
    case Nil
    then show ?thesis using text_empty [OF k, of "[]" m] n by simp
  next
    case (Cons a ms')
    obtain key v where a: "a = (key, v)" by (cases a)
    have "members_text m k ms (name_text pretty k key @ layout pretty indent (depth + 1) v @ loop_text pretty indent depth k False ms')"
      using "2.IH" [OF _ k] ok n Cons a by simp
    moreover have "spaces ((if pretty then [0x0A] else []) @ gap pretty indent depth True)"
      using break_spaces(2) [of pretty indent depth] by (simp add: spaces_def is_space_def)
    ultimately have "value_text (Suc m) (Branch k ms) (open_bracket k # ((if pretty then [0x0A] else []) @ gap pretty indent depth True) @
        name_text pretty k key @ layout pretty indent (depth + 1) v @ loop_text pretty indent depth k False ms')"
      by (intro text_branch [OF k])
    then show ?thesis using layout_branch [of ms pretty indent depth k] Cons a n by simp
  qed
next
  case (3 n k)
  then show ?case by simp
next
  case (4 n k key v ms)
  have vt: "value_text n v (layout pretty indent (depth + 1) v)" using 4 by (auto split: if_splits)
  have m: "member_text n k key v (name_text pretty k key @ layout pretty indent (depth + 1) v)"
  proof (cases "k = object_value")
    case True
    have "spaces (if pretty then [0x20] else [])" "spaces []" by (simp_all add: spaces_def is_space_def)
    moreover have "key \<noteq> []" "literal key (spelling key)" using "4.prems"(1) True spelling_literal by simp_all
    ultimately have "member_text n object_value key v (0x22 # spelling key @ 0x22 # [] @ 0x3A # (if pretty then [0x20] else []) @ layout pretty indent (depth + 1) v)"
      using vt by (intro text_member)
    then show ?thesis using True by (simp add: name_text_def literal_text_is)
  next
    case False
    then show ?thesis using text_element [OF vt] "4.prems" by (simp add: name_text_def)
  qed
  show ?case
  proof (cases ms)
    case Nil
    then show ?thesis using text_last [OF m break_spaces(1) [of pretty indent depth]] by simp
  next
    case (Cons a ms')
    obtain key2 v2 where a: "a = (key2, v2)" by (cases a)
    have "members_text n k ms (name_text pretty k key2 @ layout pretty indent (depth + 1) v2 @ loop_text pretty indent depth k False ms')"
      using 4 Cons a by (auto split: if_splits)
    from text_more [OF m _ break_spaces(1) this, of "[]" pretty indent "depth + 1"] show ?thesis
      using Cons a by (simp add: gap_def)
  qed
qed

text \<open>The nodes the parser adds hold the value they were added for, wherever they stand.\<close>

lemma entries_parents:
  "e \<in> set (entries i p key v) \<Longrightarrow> en_parent e = p \<or> (\<exists>x. en_parent e = Some x \<and> i \<le> x \<and> x < i + length (entries i p key v))"
  "e \<in> set (member_entries m q ms) \<Longrightarrow> en_parent e = Some q \<or> (\<exists>x. en_parent e = Some x \<and> m \<le> x \<and> x < m + length (member_entries m q ms))"
proof (induction i p key v and m q ms rule: entries_member_entries.induct)
  case (2 i parent key k ms)
  then show ?case by fastforce
next
  case (4 i p key v ms)
  then show ?case by (fastforce simp: Let_def)
qed simp_all

lemma children_split: "children (xs @ ys) q = children xs q @ map ((+) (length xs)) (children ys q)"
proof (induction ys rule: rev_induct)
  case (snoc y ys)
  have "children (xs @ (ys @ [y])) q = children ((xs @ ys) @ [y]) q" by simp
  then show ?case using snoc by (simp only: children_append) simp
qed (simp add: children_def)

lemma no_children: "(\<And>e. e \<in> set ys \<Longrightarrow> en_parent e \<noteq> Some q) \<Longrightarrow> children ys q = []"
  by (auto simp: children_def filter_empty_conv)

definition outside :: "nat \<Rightarrow> nat \<Rightarrow> json_entry list \<Rightarrow> bool" where
  "outside a b es \<longleftrightarrow> (\<forall>e\<in>set es. \<forall>x. en_parent e = Some x \<longrightarrow> x < a \<or> b \<le> x)"

lemma outside_append: "outside a b (xs @ ys) \<longleftrightarrow> outside a b xs \<and> outside a b ys"
  by (auto simp: outside_def)

lemma outside_mono: "outside a b es \<Longrightarrow> a \<le> a' \<Longrightarrow> b' \<le> b \<Longrightarrow> outside a' b' es"
  unfolding outside_def by (meson le_trans less_le_trans)

lemma outsideD: "outside a b es \<Longrightarrow> a \<le> q \<Longrightarrow> q < b \<Longrightarrow> children es q = []"
  by (intro no_children) (auto simp: outside_def)

lemma entries_nonempty: "\<exists>es. entries i p key v = \<lparr>en_kind = en_kind (hd (entries i p key v)), en_parent = p, en_key = key, en_text = en_text (hd (entries i p key v))\<rparr> # es"
  by (cases v) simp_all

lemma entries_key: "entries i p key v \<noteq> []" "en_key (entries i p key v ! 0) = key"
  by (cases v; simp)+

lemma entries_roots: "q < i \<Longrightarrow> children (entries i (Some q) key v) q = [0]"
proof -
  assume q: "q < i"
  obtain e es where es: "entries i (Some q) key v = e # es" "en_parent e = Some q" using entries_nonempty [of i "Some q" key v] by (metis json_entry.select_convs(2))
  have "en_parent f \<noteq> Some q" if "f \<in> set es" for f
  proof (cases v)
    case (Leaf k t)
    then show ?thesis using es(1) that by simp
  next
    case (Branch k ms)
    then have "f \<in> set (member_entries (Suc i) i ms)" using es(1) that by simp
    then show ?thesis using entries_parents(2) q by fastforce
  qed
  then have "children es q = []" by (rule no_children)
  then show ?thesis using children_split [of "[e]" es q] es by (simp add: children_def)
qed

lemma entries_hold:
  "length pre = i \<Longrightarrow> outside i (i + length (entries i p key v)) (pre @ post) \<Longrightarrow> (\<forall>x. p = Some x \<longrightarrow> x < i) \<Longrightarrow>
     value_ok n v \<Longrightarrow> node_is (pre @ entries i p key v @ post) i v"
  "length pre = m \<Longrightarrow> outside m (m + length (member_entries m q ms)) (pre @ post) \<Longrightarrow> q < m \<Longrightarrow> members_ok n k ms \<Longrightarrow>
     nodes_are (pre @ member_entries m q ms @ post) (map ((+) m) (children (member_entries m q ms) q)) ms"
proof (induction i p key v and m q ms arbitrary: pre post n and pre post n k rule: entries_member_entries.induct)
  case (1 i parent key k t)
  then show ?case by auto
next
  case (2 i parent key k ms)
  define e where "e = \<lparr>en_kind = k, en_parent = parent, en_key = key, en_text = []\<rparr>"
  define mem where "mem = member_entries (Suc i) i ms"
  have all: "pre @ entries i parent key (Branch k ms) @ post = (pre @ [e]) @ mem @ post" by (simp add: e_def mem_def)
  have ok: "k \<in> {object_value, array_value}" "members_ok (n - 1) k ms" using "2.prems"(4) by simp_all
  have out: "outside i (i + Suc (length mem)) (pre @ post)" using "2.prems"(2) by (simp add: mem_def)
  have "children pre i = []" "children post i = []"
    using out outsideD [of i "i + Suc (length mem)" _ i] by (simp_all add: outside_append)
  moreover have "children [e] i = []" using "2.prems"(3) by (intro no_children) (auto simp: e_def)
  ultimately have ch: "children ((pre @ [e]) @ mem @ post) i = map ((+) (Suc i)) (children mem i)"
    using "2.prems"(1) by (simp only: children_split [of "pre @ [e]"] children_split [of mem] children_split [of pre "[e]"]) simp
  have out1: "outside (Suc i) (Suc i + length (member_entries (Suc i) i ms)) ((pre @ [e]) @ post)"
    using outside_mono [OF out, of "Suc i" "Suc i + length mem"] "2.prems"(3) by (auto simp: outside_append outside_def e_def mem_def)
  have "nodes_are ((pre @ [e]) @ mem @ post) (map ((+) (Suc i)) (children mem i)) ms"
    unfolding mem_def by (rule "2.IH" [OF _ out1 _ ok(2)]) (use "2.prems"(1) in simp_all)
  then show ?case unfolding all using ok(1) "2.prems"(1) ch by (simp add: nth_append e_def)
next
  case (3 m q)
  then show ?case by (simp add: children_def)
next
  case (4 i p key v ms)
  define es where "es = entries i (Some p) key v"
  define rest where "rest = member_entries (i + length es) p ms"
  have all: "member_entries i p ((key, v) # ms) = es @ rest" by (simp add: es_def rest_def Let_def)
  have ok: "value_ok n v" "members_ok n k ms" using "4.prems"(4) by (auto split: if_splits)
  have out: "outside i (i + length es + length rest) (pre @ post)" using "4.prems"(2) unfolding all by (simp add: add.assoc)
  have inside_rest: "outside i (i + length es) rest"
    using entries_parents(2) [of _ "i + length es" p ms] "4.prems"(3) unfolding outside_def rest_def by fastforce
  have inside_es: "outside (i + length es) (i + length es + length rest) es"
    using entries_parents(1) [of _ i "Some p" key v] "4.prems"(3) unfolding outside_def es_def by fastforce
  have first: "node_is (pre @ es @ (rest @ post)) i v"
    unfolding es_def
  proof (rule "4.IH"(1) [OF "4.prems"(1) _ _ ok(1)])
    show "outside i (i + length (entries i (Some p) key v)) (pre @ rest @ post)"
      using outside_mono [OF out, of i "i + length es"] inside_rest unfolding es_def by (simp add: outside_append)
  qed (use "4.prems"(3) in simp)
  have others: "nodes_are ((pre @ es) @ rest @ post) (map ((+) (i + length es)) (children rest p)) ms"
    unfolding rest_def
  proof (rule "4.IH"(2) [OF refl, folded es_def, OF _ _ _ ok(2)])
    show "outside (i + length es) (i + length es + length (member_entries (i + length es) p ms)) ((pre @ es) @ post)"
      using outside_mono [OF out, of "i + length es" "i + length es + length rest"] inside_es unfolding rest_def by (simp add: outside_append)
  qed (use "4.prems"(1,3) in simp_all)
  have ch: "children (es @ rest) p = 0 # map ((+) (length es)) (children rest p)"
    using entries_roots [of p i key v] "4.prems"(3) by (simp add: children_split es_def)
  have name: "en_key ((pre @ es @ rest @ post) ! i) = key"
    using entries_key [of i "Some p" key v] "4.prems"(1) unfolding es_def by (simp add: nth_append)
  have idx: "map ((+) i) (children (es @ rest) p) = i # map ((+) (i + length es)) (children rest p)" unfolding ch by (simp add: o_def add.assoc)
  show ?case
    unfolding all idx using first others name by simp
qed

lemma entries_are: "value_ok n v \<Longrightarrow> node_is (entries 0 None [] v) 0 v"
  using entries_hold(1) [of "[]" 0 None "[]" v "[]" n] by (simp add: outside_def)

lemma parse_succeeds:
  assumes "represents M S d es" and "json_document_text M S max_depth v xs"
  shows "\<exists>d'. parser_run max_depth (Mem xs) d = Some (json_ok, d') \<and> represents M S d' (entries 0 None [] v)"
proof -
  have "represents M S (json_clear d) []" "json_clear (json_clear d) = json_clear d" using json_document_is(2) [OF assms(1)] by (simp_all add: json_clear_def)
  then obtain d' where "parser_run max_depth (Mem xs) (json_clear d) = Some (json_ok, d')" "represents M S d' (entries 0 None [] v)"
    using run_complete [OF _ assms(2)] by blast
  moreover have "parser_run max_depth (Mem xs) d = parser_run max_depth (Mem xs) (json_clear d)" by (simp add: parser_run_def json_clear_def)
  ultimately show ?thesis by auto
qed

text \<open>C40: Every document that is not empty holds one value.  The serializer writes exactly its text, or reports an error
  and leaves the output empty when the text does not fit or holds a control character without an escape.  If the value
  is one the parser can produce (its numbers follow the number grammar, its other scalars are the literals, its member
  names are not empty, its strings are printable or escaped, and it is nested no deeper than the limit), then a
  document with room for the nodes reads that text back as the same value. Without these conditions, which \<open>append\<close>
  does not check, the text is written but need not be read back.\<close>

theorem json_roundtrip:
  assumes "represents M S d es" and "es \<noteq> []" and "str_holds N out t" and "represents M' S' d' es'"
  shows "\<exists>v r out'. node_is es 0 v \<and> json_serialize d out pretty indent = Some (r, out') \<and>
    (if spellable v \<and> length (layout pretty indent 0 v) \<le> N then r = json_ok \<and> str_holds N out' (layout pretty indent 0 v)
     else \<not> json_succeeded r \<and> str_holds N out' []) \<and>
    (value_ok max_depth v \<and> fits M' S' (entries 0 None [] v) \<longrightarrow>
      (\<exists>d2 es2. parser_run max_depth (Mem (layout pretty indent 0 v)) d' = Some (json_ok, d2) \<and> represents M' S' d2 es2 \<and> node_is es2 0 v))"
proof -
  obtain v where v: "node_is es 0 v" using node_value [of es 0] assms(1,2) by (auto simp: represents_def)
  obtain r out' where s: "json_serialize d out pretty indent = Some (r, out')"
    "if spellable v \<and> length (layout pretty indent 0 v) \<le> N then r = json_ok \<and> str_holds N out' (layout pretty indent 0 v)
     else \<not> json_succeeded r \<and> str_holds N out' []" using serialize_is [OF assms(1) v assms(3)] by blast
  have "\<exists>d2 es2. parser_run max_depth (Mem (layout pretty indent 0 v)) d' = Some (json_ok, d2) \<and> represents M' S' d2 es2 \<and> node_is es2 0 v"
    if ok: "value_ok max_depth v" "fits M' S' (entries 0 None [] v)"
  proof -
    have "json_document_text M' S' max_depth v (layout pretty indent 0 v)"
      unfolding json_document_text_def using ok(2) layout_text(1) [OF ok(1)] spaces_append(1) by (metis append_Nil append_Nil2)
    from parse_succeeds [OF assms(4) this] entries_are [OF ok(1)] show ?thesis by blast
  qed
  then show ?thesis using v s by blast
qed

lemma json_roundtrip_witness:
  "\<exists>v r out'. node_is [new_entry boolean_value None (Null 0) (Mem true_text)] 0 v \<and>
    json_serialize \<lparr>jd_nodes = [new_node\<lparr>jn_kind := boolean_value, jn_value_size := 4\<rparr>], jd_count = 1, jd_storage = true_text, jd_used = 4\<rparr>
      \<lparr>str_data = replicate 9 0, str_size = 0\<rparr> False 2 = Some (r, out') \<and> r = json_ok \<and> str_holds 8 out' true_text \<and>
    (\<exists>d2 es2. parser_run 3 (Mem true_text) (json_document 2 [0, 0, 0, 0]) = Some (json_ok, d2) \<and> represents 2 4 d2 es2 \<and>
      node_is es2 0 (Leaf boolean_value true_text))"
proof -
  let ?d = "\<lparr>jd_nodes = [new_node\<lparr>jn_kind := boolean_value, jn_value_size := 4\<rparr>], jd_count = 1, jd_storage = true_text, jd_used = 4\<rparr>"
  let ?es = "[new_entry boolean_value None (Null 0) (Mem true_text)]" and ?v = "Leaf boolean_value true_text"
  have rep: "represents 1 4 ?d ?es"
    by (simp add: represents_def node_matches_def new_node_def new_entry_def linked_def children_def first_handle_def last_of_def next_of_def
        stored_def entry_bytes_def true_text_def)
  have out: "str_holds 8 \<lparr>str_data = replicate 9 0, str_size = 0\<rparr> []"
    by (auto simp: str_holds_def intro!: exI [of _ "replicate 8 0"] simp flip: replicate_Suc)
  have into: "represents 2 4 (json_document 2 [0, 0, 0, 0]) []" using json_document_is(1) [of 2 "[0, 0, 0, 0]"] by (simp add: eval_nat_numeral)
  have only: "node_is ?es 0 v \<Longrightarrow> v = ?v" for v by (cases v) (simp_all add: new_entry_def)
  have ok: "value_ok 3 ?v \<and> fits 2 4 (entries 0 None [] ?v)" by (simp add: fits_def entry_bytes_def true_text_def)
  have shown: "layout False 2 0 ?v = true_text" "spellable ?v" "length true_text \<le> 8" by (simp_all add: true_text_def)
  obtain v r out' where v: "node_is ?es 0 v" "v = ?v" "json_serialize ?d \<lparr>str_data = replicate 9 0, str_size = 0\<rparr> False 2 = Some (r, out')"
    "r = json_ok \<and> str_holds 8 out' (layout False 2 0 ?v)"
    "\<exists>d2 es2. parser_run 3 (Mem (layout False 2 0 ?v)) (json_document 2 [0, 0, 0, 0]) = Some (json_ok, d2) \<and> represents 2 4 d2 es2 \<and> node_is es2 0 ?v"
    using json_roundtrip [OF rep _ out into, of False 2 3] only ok shown by (metis list.distinct(1))
  then show ?thesis unfolding shown(1) by blast
qed

end
