(* ===== verification/Comparators.thy ===== *)
theory Comparators
  imports Prelude
begin

text \<open>
  What the ordered containers demand of their \<open>Compare\<close> template parameter: a strict weak order.  The
  comparators of \<open>utility/compare.hpp\<close> over a linear order are such.
\<close>

locale strict_weak_order =
  fixes lt :: "'a \<Rightarrow> 'a \<Rightarrow> bool"
  assumes asym: "lt x y \<Longrightarrow> \<not> lt y x"
    and weak: "lt x z \<Longrightarrow> lt x y \<or> lt y z"
begin

lemma irrefl: "\<not> lt x x"
  using asym by blast

lemma not_lt_trans: "\<not> lt y x \<Longrightarrow> \<not> lt z y \<Longrightarrow> \<not> lt z x"
  using weak by blast

lemma lt_not_lt: "lt x y \<Longrightarrow> \<not> lt z y \<Longrightarrow> lt x z"
  using weak by blast

end

definition castle_less :: "'a::linorder \<Rightarrow> 'a \<Rightarrow> bool" where
  "castle_less x y = (x < y)"

definition castle_greater :: "'a::linorder \<Rightarrow> 'a \<Rightarrow> bool" where
  "castle_greater x y = (x > y)"

text \<open>Keys neither of which precedes the other are the same key to a container.\<close>

definition same_key :: "('a \<Rightarrow> 'a \<Rightarrow> bool) \<Rightarrow> 'a \<Rightarrow> 'a \<Rightarrow> bool" where
  "same_key lt x y \<longleftrightarrow> \<not> lt x y \<and> \<not> lt y x"

interpretation min_order: strict_weak_order "castle_less :: 'a::linorder \<Rightarrow> 'a \<Rightarrow> bool"
  by unfold_locales (auto simp: castle_less_def)

interpretation max_order: strict_weak_order "castle_greater :: 'a::linorder \<Rightarrow> 'a \<Rightarrow> bool"
  by unfold_locales (auto simp: castle_greater_def)

end
