(* ===== verification/PriorityQueues.thy ===== *)
theory PriorityQueues
  imports Comparators "HOL-Library.Multiset"
begin

text \<open>
  The contract behind \<open>castle::container::basic_heap\<close>: what a bounded priority queue promises of its
  stored elements.  The client lemma is proved once: draining a queue
  delivers its elements in priority order, none lost and none invented.
\<close>

section \<open>Bounded priority queues\<close>

locale priority_queue = strict_weak_order lt for lt :: "'a \<Rightarrow> 'a \<Rightarrow> bool" +
  fixes inv :: "'q \<Rightarrow> bool" and items :: "'q \<Rightarrow> 'a multiset" and pop :: "'q \<Rightarrow> 'a option \<times> 'q"
  assumes pop_none: "inv q \<Longrightarrow> items q = {#} \<Longrightarrow> pop q = (None, q)"
    and pop_some: "inv q \<Longrightarrow> items q \<noteq> {#} \<Longrightarrow>
      \<exists>x q'. pop q = (Some x, q') \<and> inv q' \<and> items q = add_mset x (items q') \<and> (\<forall>y \<in># items q. \<not> lt y x)"
begin

fun drain :: "nat \<Rightarrow> 'q \<Rightarrow> 'a list \<times> 'q" where
  "drain 0 q = ([], q)"
| "drain (Suc n) q =
     (case pop q of (None, q) \<Rightarrow> ([], q) | (Some x, q) \<Rightarrow> (let (xs, q) = drain n q in (x # xs, q)))"

lemma drain_sorted:
  "inv q \<Longrightarrow> drain n q = (xs, q') \<Longrightarrow>
    inv q' \<and> items q = mset xs + items q' \<and> length xs = min n (size (items q)) \<and>
    sorted_wrt (\<lambda>x y. \<not> lt y x) xs \<and> (\<forall>x \<in> set xs. \<forall>y \<in># items q'. \<not> lt y x)"
proof (induction n arbitrary: q xs q')
  case 0
  then show ?case by simp
next
  case (Suc n)
  show ?case
  proof (cases "items q = {#}")
    case True
    with pop_none [OF Suc.prems(1)] Suc.prems show ?thesis by simp
  next
    case False
    from pop_some [OF Suc.prems(1) this] obtain x q1 where
      x: "pop q = (Some x, q1)" "inv q1" "items q = add_mset x (items q1)" "\<forall>y \<in># items q. \<not> lt y x" by blast
    obtain ys q2 where ys: "drain n q1 = (ys, q2)" by (cases "drain n q1")
    with Suc.prems(2) x have eq: "xs = x # ys" "q' = q2" by simp_all
    from Suc.IH [OF x(2) ys] have IH: "inv q2" "items q1 = mset ys + items q2"
      "sorted_wrt (\<lambda>x y. \<not> lt y x) ys" "\<forall>x \<in> set ys. \<forall>y \<in># items q2. \<not> lt y x"
      and len: "length ys = min n (size (items q1))" by blast+
    have min: "\<forall>y \<in># mset ys + items q2. \<not> lt y x"
      using x(3,4) IH(2) by simp
    then have "sorted_wrt (\<lambda>x y. \<not> lt y x) xs" and "\<forall>x \<in> set xs. \<forall>y \<in># items q2. \<not> lt y x"
      using IH(3,4) by (simp_all add: eq)
    moreover have "items q = mset xs + items q2" using IH(2) x(3) by (simp add: eq)
    moreover have "length xs = min (Suc n) (size (items q))" using len x(3) by (simp add: eq)
    ultimately show ?thesis using IH(1) eq(2) by simp
  qed
qed

end

end
