(* ===== verification/Heap.thy ===== *)
theory Heap
  imports PriorityQueues
begin

text \<open>
  \<open>castle::container::basic_heap\<close> (\<open>container/heap.hpp\<close>): a binary heap in a fixed array, its
  sifting loops, every operation of the class, and the proof that it implements a bounded priority
  queue for any strict weak order.  \<open>elems\<close> is the list of the live elements in slots 0 to
  \<open>size_\<close> - 1; constructing at \<open>size_\<close> appends to it and destroying the last slot removes its last
  element.  The comparator is the template parameter.  The copying and the moving overloads, and
  \<open>emplace\<close>, leave the same value in the slot.  \<open>None\<close> is an access outside the live elements.  No
  object is larger than half the address space, so \<open>left\<close> does not wrap.
\<close>

section \<open>State and index arithmetic\<close>

record 'a heap =
  elems :: "'a list"
  slots :: nat

definition heap_parent :: "nat \<Rightarrow> nat" where
  "heap_parent index = (index - 1) div 2"

definition heap_left :: "nat \<Rightarrow> nat" where
  "heap_left index = index * 2 + 1"

definition higher_priority :: "('a \<Rightarrow> 'a \<Rightarrow> bool) \<Rightarrow> 'a list \<Rightarrow> nat \<Rightarrow> nat \<Rightarrow> bool" where
  "higher_priority lt xs lhs rhs = lt (xs ! lhs) (xs ! rhs)"

definition swap_values :: "'a list \<Rightarrow> nat \<Rightarrow> nat \<Rightarrow> 'a list" where
  "swap_values xs lhs rhs = (let temp = xs ! lhs; xs = xs[lhs := xs ! rhs] in xs[rhs := temp])"

section \<open>Operations\<close>

function sift_up :: "('a \<Rightarrow> 'a \<Rightarrow> bool) \<Rightarrow> 'a list \<Rightarrow> nat \<Rightarrow> 'a list" where
  "sift_up lt xs index =
     (if index > 0
      then let p = heap_parent index
           in if \<not> higher_priority lt xs index p then xs
              else sift_up lt (swap_values xs index p) p
      else xs)"
  by pat_completeness auto
termination
  by (relation "measure (\<lambda>(_, _, index). index)") (auto simp: heap_parent_def)

function sift_down :: "('a \<Rightarrow> 'a \<Rightarrow> bool) \<Rightarrow> 'a list \<Rightarrow> nat \<Rightarrow> 'a list" where
  "sift_down lt xs index =
     (let child = heap_left index
      in if child \<ge> length xs then xs
         else let right = child + 1;
                  selected = (if right < length xs \<and> higher_priority lt xs right child then right else child)
              in if \<not> higher_priority lt xs selected index then xs
                 else sift_down lt (swap_values xs selected index) selected)"
  by pat_completeness auto
termination
  by (relation "measure (\<lambda>(_, xs, index). length xs - index)")
    (auto simp: heap_left_def swap_values_def Let_def)

declare sift_up.simps [simp del] sift_down.simps [simp del]

definition heap_init :: "nat \<Rightarrow> 'a heap" where
  "heap_init N = \<lparr>elems = [], slots = N\<rparr>"

definition heap_size :: "'a heap \<Rightarrow> nat" where
  "heap_size h = length (elems h)"

definition heap_empty :: "'a heap \<Rightarrow> bool" where
  "heap_empty h = (heap_size h = 0)"

definition heap_full :: "'a heap \<Rightarrow> bool" where
  "heap_full h = (heap_size h = slots h)"

definition heap_available :: "'a heap \<Rightarrow> nat" where
  "heap_available h = slots h - heap_size h"

definition heap_top :: "'a heap \<Rightarrow> 'a option" where
  "heap_top h = rd (Mem (elems h)) 0"

definition heap_push :: "('a \<Rightarrow> 'a \<Rightarrow> bool) \<Rightarrow> 'a \<Rightarrow> 'a heap \<Rightarrow> status \<times> 'a heap" where
  "heap_push lt v h =
     (if heap_full h then (status_full, h)
      else let h = h\<lparr>elems := elems h @ [v]\<rparr>
           in (status_ok, h\<lparr>elems := sift_up lt (elems h) (heap_size h - 1)\<rparr>))"

fun heap_push_list :: "('a \<Rightarrow> 'a \<Rightarrow> bool) \<Rightarrow> 'a list \<Rightarrow> 'a heap \<Rightarrow> 'a heap" where
  "heap_push_list lt [] h = h"
| "heap_push_list lt (v # vs) h = (if heap_full h then h else heap_push_list lt vs (snd (heap_push lt v h)))"

definition heap_of_list :: "('a \<Rightarrow> 'a \<Rightarrow> bool) \<Rightarrow> nat \<Rightarrow> 'a list \<Rightarrow> 'a heap" where
  "heap_of_list lt N vs = heap_push_list lt vs (heap_init N)"

definition heap_discard :: "('a \<Rightarrow> 'a \<Rightarrow> bool) \<Rightarrow> 'a heap \<Rightarrow> status \<times> 'a heap" where
  "heap_discard lt h =
     (if heap_empty h then (status_empty, h)
      else let last = heap_size h - 1;
               xs = (if last \<noteq> 0 then (elems h)[0 := elems h ! last] else elems h);
               h = h\<lparr>elems := butlast xs\<rparr>
           in (status_ok, if heap_size h > 0 then h\<lparr>elems := sift_down lt (elems h) 0\<rparr> else h))"

definition heap_pop :: "('a \<Rightarrow> 'a \<Rightarrow> bool) \<Rightarrow> 'a heap \<Rightarrow> status \<times> 'a option \<times> 'a heap" where
  "heap_pop lt h =
     (if heap_empty h then (status_empty, None, h)
      else let out = elems h ! 0; (s, h) = heap_discard lt h in (s, Some out, h))"

definition heap_remove_at :: "('a \<Rightarrow> 'a \<Rightarrow> bool) \<Rightarrow> nat \<Rightarrow> 'a heap \<Rightarrow> status \<times> 'a heap" where
  "heap_remove_at lt index h =
     (if index \<ge> heap_size h then (status_out_of_range, h)
      else let last = heap_size h - 1;
               xs = (if index \<noteq> last then (elems h)[index := elems h ! last] else elems h);
               h = h\<lparr>elems := butlast xs\<rparr>
           in (status_ok,
               if index < heap_size h
               then if index > 0 \<and> higher_priority lt (elems h) index (heap_parent index)
                    then h\<lparr>elems := sift_up lt (elems h) index\<rparr>
                    else h\<lparr>elems := sift_down lt (elems h) index\<rparr>
               else h))"

definition heap_replace_top :: "('a \<Rightarrow> 'a \<Rightarrow> bool) \<Rightarrow> 'a \<Rightarrow> 'a heap \<Rightarrow> status \<times> 'a heap" where
  "heap_replace_top lt v h =
     (if heap_empty h then (status_empty, h)
      else (status_ok, h\<lparr>elems := sift_down lt ((elems h)[0 := v]) 0\<rparr>))"

definition heap_clear :: "'a heap \<Rightarrow> 'a heap" where
  "heap_clear h = h\<lparr>elems := []\<rparr>"

section \<open>Sifting\<close>

definition heap_ordered :: "('a \<Rightarrow> 'a \<Rightarrow> bool) \<Rightarrow> 'a list \<Rightarrow> bool" where
  "heap_ordered lt xs \<longleftrightarrow> (\<forall>j < length xs. 0 < j \<longrightarrow> \<not> lt (xs ! j) (xs ! heap_parent j))"

text \<open>Ordered but for one element, which may be too low (its parents) or too high (its children).\<close>

definition up_hole :: "('a \<Rightarrow> 'a \<Rightarrow> bool) \<Rightarrow> 'a list \<Rightarrow> nat \<Rightarrow> bool" where
  "up_hole lt xs i \<longleftrightarrow> (\<forall>j < length xs. 0 < j \<longrightarrow>
     (j \<noteq> i \<longrightarrow> \<not> lt (xs ! j) (xs ! heap_parent j)) \<and>
     (heap_parent j = i \<longrightarrow> 0 < i \<longrightarrow> \<not> lt (xs ! j) (xs ! heap_parent i)))"

text \<open>Sifting down also works on a heap that is being built, ordered only below the parents from \<open>k\<close> on.\<close>

definition ordered_from :: "('a \<Rightarrow> 'a \<Rightarrow> bool) \<Rightarrow> nat \<Rightarrow> 'a list \<Rightarrow> bool" where
  "ordered_from lt k xs \<longleftrightarrow> (\<forall>j < length xs. 0 < j \<longrightarrow> k \<le> heap_parent j \<longrightarrow> \<not> lt (xs ! j) (xs ! heap_parent j))"

definition down_hole :: "('a \<Rightarrow> 'a \<Rightarrow> bool) \<Rightarrow> nat \<Rightarrow> 'a list \<Rightarrow> nat \<Rightarrow> bool" where
  "down_hole lt k xs i \<longleftrightarrow> (\<forall>j < length xs. 0 < j \<longrightarrow> k \<le> heap_parent j \<longrightarrow>
     (heap_parent j \<noteq> i \<longrightarrow> \<not> lt (xs ! j) (xs ! heap_parent j)) \<and>
     (heap_parent j = i \<longrightarrow> 0 < i \<longrightarrow> k \<le> heap_parent i \<longrightarrow> \<not> lt (xs ! j) (xs ! heap_parent i)))"

lemma heap_ordered_from: "heap_ordered lt xs = ordered_from lt 0 xs"
  by (simp add: heap_ordered_def ordered_from_def)

lemma parent_less [simp]: "0 < i \<Longrightarrow> heap_parent i < i"
  by (auto simp: heap_parent_def)

lemma parent_eq: "0 < j \<Longrightarrow> heap_parent j = i \<longleftrightarrow> j = heap_left i \<or> j = Suc (heap_left i)"
  by (auto simp: heap_parent_def heap_left_def)

lemma parent_left [simp]: "heap_parent (heap_left i) = i" "heap_parent (Suc (heap_left i)) = i"
  by (auto simp: heap_parent_def heap_left_def)

lemma length_swap [simp]: "length (swap_values xs a b) = length xs"
  by (simp add: swap_values_def Let_def)

lemma swap_nth:
  "a < length xs \<Longrightarrow> b < length xs \<Longrightarrow> j < length xs \<Longrightarrow>
    swap_values xs a b ! j = (if j = a then xs ! b else if j = b then xs ! a else xs ! j)"
  by (auto simp: swap_values_def Let_def nth_list_update)

lemma mset_swap_values: "a < length xs \<Longrightarrow> b < length xs \<Longrightarrow> mset (swap_values xs a b) = mset xs"
  using mset_swap [of b xs a] by (simp add: swap_values_def Let_def)

context strict_weak_order
begin

lemma up_hole_swap:
  assumes "up_hole lt xs i" "0 < i" "i < length xs" "lt (xs ! i) (xs ! heap_parent i)"
  shows "up_hole lt (swap_values xs i (heap_parent i)) (heap_parent i)"
  unfolding up_hole_def
proof (intro allI impI conjI)
  let ?p = "heap_parent i" and ?ys = "swap_values xs i (heap_parent i)"
  have p: "?p < i" "?p < length xs" using assms by (auto intro: less_trans [OF parent_less])
  fix j assume "j < length ?ys" and j0: "0 < j"
  then have j: "j < length xs" by simp
  have pj: "heap_parent j < length xs" using j j0 parent_less less_trans by blast
  note nth = swap_nth [OF assms(3) p(2)]
  have up: "j \<noteq> i \<Longrightarrow> \<not> lt (xs ! j) (xs ! heap_parent j)" "heap_parent j = i \<Longrightarrow> \<not> lt (xs ! j) (xs ! ?p)"
    using assms(1,2) j j0 by (auto simp: up_hole_def)
  have pi: "\<not> lt (xs ! ?p) (xs ! i)" using asym [OF assms(4)] .
  show "\<not> lt (?ys ! j) (?ys ! heap_parent j)" if "j \<noteq> ?p"
  proof (cases "j = i")
    case True
    then show ?thesis using pi p assms(3) by (simp add: nth)
  next
    case False
    with that j have yj: "?ys ! j = xs ! j" by (simp add: nth)
    consider "heap_parent j = i" | "heap_parent j = ?p" | "heap_parent j \<noteq> i" "heap_parent j \<noteq> ?p" by blast
    then show ?thesis
    proof cases
      case 1
      then show ?thesis using up(2) yj assms(3) by (simp add: nth)
    next
      case 2
      then have "\<not> lt (xs ! j) (xs ! ?p)" using up(1) [OF False] by simp
      then have "\<not> lt (xs ! j) (xs ! i)" using lt_not_lt pi by blast
      with 2 show ?thesis using yj p by (simp add: nth)
    next
      case 3
      then show ?thesis using up(1) [OF False] yj pj by (simp add: nth)
    qed
  qed
  assume hp: "heap_parent j = ?p" and p0: "0 < ?p"
  have "\<not> lt (xs ! ?p) (xs ! heap_parent ?p)" using assms(1) p p0 by (auto simp: up_hole_def)
  moreover have "heap_parent ?p < ?p" "heap_parent ?p < length xs" using p0 p by (auto intro: less_trans [OF parent_less])
  moreover have "j \<noteq> ?p" using hp j0 parent_less [OF p0] by auto
  ultimately show "\<not> lt (?ys ! j) (?ys ! heap_parent ?p)"
    using up(1) hp p by (auto simp: nth [OF j] swap_nth [OF assms(3) p(2)] dest: not_lt_trans)
qed

lemma hole_ordered: "up_hole lt xs 0 \<Longrightarrow> heap_ordered lt xs"
  by (simp add: up_hole_def heap_ordered_def)

lemma sift_up_ordered:
  "up_hole lt xs i \<Longrightarrow> i < length xs \<Longrightarrow>
    heap_ordered lt (sift_up lt xs i) \<and> mset (sift_up lt xs i) = mset xs"
proof (induction i arbitrary: xs rule: less_induct)
  case (less i)
  show ?case
  proof (cases "0 < i")
    case False
    with less.prems show ?thesis by (subst (1 2) sift_up.simps) (simp add: hole_ordered)
  next
    case True
    let ?p = "heap_parent i"
    have p: "?p < i" "?p < length xs" using less.prems True by (auto intro: less_trans [OF parent_less])
    show ?thesis
    proof (cases "lt (xs ! i) (xs ! ?p)")
      case False
      with less.prems True have "heap_ordered lt xs" by (auto simp: up_hole_def heap_ordered_def)
      with False True show ?thesis by (subst (1 2) sift_up.simps) (simp add: higher_priority_def)
    next
      case swap: True
      with less.IH [OF p(1) up_hole_swap [OF less.prems(1) True less.prems(2) swap]] p less.prems True
      show ?thesis by (subst (1 2) sift_up.simps) (simp add: Let_def higher_priority_def mset_swap_values)
    qed
  qed
qed

lemma down_hole_swap:
  assumes "down_hole lt k xs i" and "k \<le> i" and c: "c < length xs" "0 < c" "heap_parent c = i" "lt (xs ! c) (xs ! i)"
    and best: "\<And>j. j < length xs \<Longrightarrow> 0 < j \<Longrightarrow> heap_parent j = i \<Longrightarrow> \<not> lt (xs ! j) (xs ! c)"
  shows "down_hole lt k (swap_values xs c i) c"
  unfolding down_hole_def
proof (intro allI impI conjI)
  let ?ys = "swap_values xs c i"
  have i: "i < c" "i < length xs" using c parent_less [OF c(2)] by auto
  fix j assume "j < length ?ys" and j0: "0 < j" and k: "k \<le> heap_parent j"
  then have j: "j < length xs" by simp
  have pj: "heap_parent j < j" "heap_parent j < length xs" using j j0 parent_less [OF j0] by auto
  note nth = swap_nth [OF c(1) i(2)]
  have up: "heap_parent j \<noteq> i \<Longrightarrow> \<not> lt (xs ! j) (xs ! heap_parent j)"
    "heap_parent j = i \<Longrightarrow> 0 < i \<Longrightarrow> k \<le> heap_parent i \<Longrightarrow> \<not> lt (xs ! j) (xs ! heap_parent i)"
    using assms(1) j j0 k by (auto simp: down_hole_def)
  show "\<not> lt (?ys ! j) (?ys ! heap_parent j)" if "heap_parent j \<noteq> c"
  proof (cases "j = i")
    case True
    then have "\<not> lt (xs ! c) (xs ! heap_parent i)" using assms(1,2) c j0 k by (auto simp: down_hole_def)
    with True that pj i show ?thesis by (simp add: nth)
  next
    case False
    with that up best [OF j j0] c asym show ?thesis by (auto simp: nth [OF j] nth [OF pj(2)])
  qed
  assume "heap_parent j = c"
  moreover from this have "\<not> lt (xs ! j) (xs ! c)" using up(1) i by auto
  ultimately show "\<not> lt (?ys ! j) (?ys ! heap_parent c)"
    using c(3) i pj by (auto simp: nth [OF j] nth [OF i(2)])
qed

lemma sift_down_ordered:
  "down_hole lt k xs i \<Longrightarrow> k \<le> i \<Longrightarrow> i < length xs \<Longrightarrow>
    ordered_from lt k (sift_down lt xs i) \<and> mset (sift_down lt xs i) = mset xs"
proof (induction "length xs - i" arbitrary: xs i rule: less_induct)
  case less
  let ?c = "heap_left i"
  define s where "s = (if ?c + 1 < length xs \<and> higher_priority lt xs (?c + 1) ?c then ?c + 1 else ?c)"
  have s: "0 < s" "heap_parent s = i" "i < s" by (auto simp: s_def) (auto simp: heap_left_def)
  have unfold: "sift_down lt xs i = (if ?c \<ge> length xs then xs
      else if \<not> lt (xs ! s) (xs ! i) then xs else sift_down lt (swap_values xs s i) s)"
    by (subst sift_down.simps) (simp add: Let_def s_def higher_priority_def)
  have child: "\<And>j. j < length xs \<Longrightarrow> 0 < j \<Longrightarrow> heap_parent j = i \<Longrightarrow> ?c < length xs \<and> \<not> lt (xs ! j) (xs ! s)"
    using asym irrefl by (auto simp: parent_eq s_def higher_priority_def)
  show ?case
  proof (cases "?c < length xs \<and> lt (xs ! s) (xs ! i)")
    case False
    have "\<not> lt (xs ! j) (xs ! heap_parent j)" if "j < length xs" "0 < j" "k \<le> heap_parent j" for j
    proof (cases "heap_parent j = i")
      case True
      with child [OF that(1,2)] False have "\<not> lt (xs ! j) (xs ! s)" "\<not> lt (xs ! s) (xs ! i)" by auto
      with True show ?thesis using not_lt_trans by blast
    qed (use less.prems(1) that in \<open>auto simp: down_hole_def\<close>)
    then have "ordered_from lt k xs" by (simp add: ordered_from_def)
    with False show ?thesis by (auto simp: unfold)
  next
    case True
    then have sl: "s < length xs" by (auto simp: s_def)
    have "down_hole lt k (swap_values xs s i) s"
      by (rule down_hole_swap [OF less.prems(1,2) sl s(1,2)]) (use True child in auto)
    moreover have "length (swap_values xs s i) - s < length xs - i" using sl s(3) by simp
    ultimately show ?thesis
      using less.hyps [of "swap_values xs s i" s] True sl s(3) less.prems(2,3) by (simp add: unfold mset_swap_values)
  qed
qed

lemma ordered_top:
  assumes "heap_ordered lt xs" and "j < length xs"
  shows "\<not> lt (xs ! j) (xs ! 0)"
  using assms(2)
proof (induction j rule: less_induct)
  case (less j)
  show ?case
  proof (cases "0 < j")
    case True
    then have "\<not> lt (xs ! heap_parent j) (xs ! 0)" using less.IH [of "heap_parent j"] less.prems parent_less [OF True] by simp
    moreover have "\<not> lt (xs ! j) (xs ! heap_parent j)" using assms(1) less.prems True by (simp add: heap_ordered_def)
    ultimately show ?thesis using not_lt_trans by blast
  qed (simp add: irrefl)
qed

end

section \<open>The operations keep the order\<close>

definition heap_inv :: "('a \<Rightarrow> 'a \<Rightarrow> bool) \<Rightarrow> 'a heap \<Rightarrow> bool" where
  "heap_inv lt h \<longleftrightarrow> heap_ordered lt (elems h) \<and> length (elems h) \<le> slots h"

lemma heap_inv_init [simp]: "heap_inv lt (heap_init N)"
  by (simp add: heap_inv_def heap_init_def heap_ordered_def)

lemma hole_append:
  assumes "heap_ordered lt xs"
  shows "up_hole lt (xs @ [v]) (length xs)"
  unfolding up_hole_def
proof (intro allI impI conjI)
  fix j assume "j < length (xs @ [v])" and j0: "0 < j"
  then have pj: "heap_parent j < j" "j \<le> length xs" "heap_parent j < length xs" using parent_less [OF j0] by simp_all
  show "\<not> lt ((xs @ [v]) ! j) ((xs @ [v]) ! heap_parent j)" if "j \<noteq> length xs"
    using assms that pj j0 by (simp add: heap_ordered_def nth_append)
  show "\<not> lt ((xs @ [v]) ! j) ((xs @ [v]) ! heap_parent (length xs))" if "heap_parent j = length xs"
    using that pj by simp
qed

lemma mset_replace_by_last:
  assumes "i < length xs"
  shows "mset xs = add_mset (xs ! i) (mset (butlast (if i \<noteq> length xs - 1 then xs[i := xs ! (length xs - 1)] else xs)))"
proof (cases xs rule: rev_cases)
  case Nil
  then show ?thesis using assms by simp
next
  case (snoc ys y)
  then show ?thesis using assms
    by (auto simp: nth_append butlast_append list_update_append mset_update)
qed

text \<open>After an element was replaced by the last one, at most that position is out of order.\<close>

definition take_out :: "nat \<Rightarrow> 'a list \<Rightarrow> 'a list" where
  "take_out i xs = butlast (if i \<noteq> length xs - 1 then xs[i := xs ! (length xs - 1)] else xs)"

lemma length_take_out [simp]: "length (take_out i xs) = length xs - 1"
  by (simp add: take_out_def)

lemma take_out_nth:
  "j < length xs - 1 \<Longrightarrow> take_out i xs ! j = (if j = i then xs ! (length xs - 1) else xs ! j)"
  by (simp add: take_out_def nth_butlast)

context strict_weak_order
begin

lemma push_keeps:
  assumes "heap_inv lt h" and "\<not> heap_full h"
  shows "fst (heap_push lt v h) = status_ok" and "heap_inv lt (snd (heap_push lt v h))"
    and "mset (elems (snd (heap_push lt v h))) = add_mset v (mset (elems h))" and "slots (snd (heap_push lt v h)) = slots h"
proof -
  have "heap_ordered lt (sift_up lt (elems h @ [v]) (length (elems h))) \<and>
      mset (sift_up lt (elems h @ [v]) (length (elems h))) = mset (elems h @ [v])"
    using assms by (intro sift_up_ordered hole_append) (simp_all add: heap_inv_def)
  moreover from this have "length (sift_up lt (elems h @ [v]) (length (elems h))) = Suc (length (elems h))"
    by (metis length_append_singleton size_mset)
  ultimately show "fst (heap_push lt v h) = status_ok" "heap_inv lt (snd (heap_push lt v h))"
    "mset (elems (snd (heap_push lt v h))) = add_mset v (mset (elems h))" "slots (snd (heap_push lt v h)) = slots h"
    using assms by (simp_all add: heap_push_def heap_full_def heap_size_def heap_inv_def Let_def)
qed

lemma take_out_down:
  assumes "heap_ordered lt xs" and "i < length xs - 1"
    and "0 < i \<Longrightarrow> \<not> lt (take_out i xs ! i) (take_out i xs ! heap_parent i)"
  shows "down_hole lt 0 (take_out i xs) i"
  unfolding down_hole_def
proof (intro allI impI conjI)
  fix j assume "j < length (take_out i xs)" and j0: "0 < j"
  then have j: "j < length xs - 1" "heap_parent j < length xs - 1" using parent_less [OF j0] by simp_all
  have ord: "k < length xs \<Longrightarrow> 0 < k \<Longrightarrow> \<not> lt (xs ! k) (xs ! heap_parent k)" for k
    using assms(1) by (simp add: heap_ordered_def)
  show "\<not> lt (take_out i xs ! j) (take_out i xs ! heap_parent j)" if "heap_parent j \<noteq> i"
    using assms(3) j0 ord [of j] j that by (cases "j = i") (simp_all add: take_out_nth)
  assume "heap_parent j = i" "0 < i"
  moreover from this have "\<not> lt (xs ! j) (xs ! heap_parent i)"
    using not_lt_trans [of "xs ! i" _ "xs ! j"] ord [of i] ord [of j] j j0 assms(2) by auto
  moreover have "heap_parent i < i" "i < j" using parent_less [OF \<open>0 < i\<close>] parent_less [OF j0] \<open>heap_parent j = i\<close> by simp_all
  ultimately show "\<not> lt (take_out i xs ! j) (take_out i xs ! heap_parent i)"
    using j by (simp add: take_out_nth)
qed

lemma take_out_up:
  assumes "heap_ordered lt xs" and "i < length xs - 1" and "0 < i" and up: "lt (take_out i xs ! i) (take_out i xs ! heap_parent i)"
  shows "up_hole lt (take_out i xs) i"
  unfolding up_hole_def
proof (intro allI impI conjI)
  fix j assume "j < length (take_out i xs)" and j0: "0 < j"
  then have j: "j < length xs - 1" "heap_parent j < length xs - 1" using parent_less [OF j0] by simp_all
  have pi: "heap_parent i < i" using assms(3) by simp
  have ord: "k < length xs \<Longrightarrow> 0 < k \<Longrightarrow> \<not> lt (xs ! k) (xs ! heap_parent k)" for k
    using assms(1) by (simp add: heap_ordered_def)
  have i: "\<not> lt (xs ! i) (xs ! heap_parent i)" using ord [of i] assms(2,3) by simp
  show "\<not> lt (take_out i xs ! j) (take_out i xs ! heap_parent j)" if "j \<noteq> i"
  proof (cases "heap_parent j = i")
    case True
    have "\<not> lt (xs ! j) (xs ! heap_parent i)" using not_lt_trans [OF i, of "xs ! j"] ord [of j] True j j0 by simp
    moreover have "lt (xs ! (length xs - 1)) (xs ! heap_parent i)" using up pi assms(2) by (simp add: take_out_nth)
    ultimately show ?thesis using True that j weak asym by (simp add: take_out_nth) blast
  qed (use ord [of j] j j0 that in \<open>simp add: take_out_nth\<close>)
  assume "heap_parent j = i"
  moreover from this have "i < j" using parent_less [OF j0] by simp
  ultimately show "\<not> lt (take_out i xs ! j) (take_out i xs ! heap_parent i)"
    using ord [of j] i j j0 pi not_lt_trans by (auto simp: take_out_nth)
qed

lemma remove_keeps:
  assumes "heap_inv lt h" and "i < length (elems h)"
  shows "fst (heap_remove_at lt i h) = status_ok" and "heap_inv lt (snd (heap_remove_at lt i h))"
    and "mset (elems h) = add_mset (elems h ! i) (mset (elems (snd (heap_remove_at lt i h))))"
    and "slots (snd (heap_remove_at lt i h)) = slots h"
proof -
  let ?xs = "take_out i (elems h)"
  define ys where "ys = (if i < length ?xs then if i > 0 \<and> higher_priority lt ?xs i (heap_parent i)
      then sift_up lt ?xs i else sift_down lt ?xs i else ?xs)"
  have ord: "heap_ordered lt (elems h)" using assms(1) by (simp add: heap_inv_def)
  have ys: "heap_ordered lt ys \<and> mset ys = mset ?xs"
  proof (cases "i < length ?xs")
    case True
    then have i: "i < length (elems h) - 1" by simp
    show ?thesis using True sift_up_ordered [OF take_out_up [OF ord i]] sift_down_ordered [OF take_out_down [OF ord i], folded heap_ordered_from]
      by (auto simp: ys_def higher_priority_def)
  next
    case False
    with assms(2) have "i = length (elems h) - 1" by simp
    then have "heap_ordered lt (butlast (elems h))"
      using ord less_trans [OF parent_less] by (auto simp: heap_ordered_def nth_butlast)
    with \<open>i = length (elems h) - 1\<close> have "heap_ordered lt ?xs" by (simp add: take_out_def)
    with False show ?thesis by (simp add: ys_def)
  qed
  have eq: "heap_remove_at lt i h = (status_ok, h\<lparr>elems := ys\<rparr>)"
    using assms(2) by (auto simp: heap_remove_at_def heap_size_def Let_def ys_def take_out_def)
  have "length ys = length (elems h) - 1" using ys by (metis length_take_out size_mset)
  then have "length ys \<le> slots h" using assms(1) by (auto simp: heap_inv_def)
  then show "fst (heap_remove_at lt i h) = status_ok" "heap_inv lt (snd (heap_remove_at lt i h))"
    "mset (elems h) = add_mset (elems h ! i) (mset (elems (snd (heap_remove_at lt i h))))"
    "slots (snd (heap_remove_at lt i h)) = slots h"
    using ys assms mset_replace_by_last [OF assms(2)] by (simp_all add: eq heap_inv_def take_out_def)
qed

end

text \<open>Removing the top is removing at index 0.\<close>

lemma discard_remove: "0 < length (elems h) \<Longrightarrow> heap_discard lt h = heap_remove_at lt 0 h"
  by (auto simp: heap_discard_def heap_remove_at_def heap_empty_def heap_size_def Let_def)

context strict_weak_order
begin

lemma pop_keeps:
  assumes "heap_inv lt h" and "elems h \<noteq> []"
  shows "heap_pop lt h = (status_ok, Some (elems h ! 0), snd (heap_remove_at lt 0 h))"
  using assms remove_keeps(1) [OF assms(1), of 0]
  by (auto simp: heap_pop_def heap_empty_def heap_size_def discard_remove Let_def split: prod.splits)

lemma top_best:
  assumes "heap_inv lt h" and "y \<in># mset (elems h)"
  shows "\<not> lt y (elems h ! 0)"
  using assms ordered_top [of "elems h"] by (auto simp: heap_inv_def in_set_conv_nth)

lemma replace_keeps:
  assumes "heap_inv lt h" and "elems h \<noteq> []"
  shows "heap_inv lt (snd (heap_replace_top lt v h))"
    and "add_mset (elems h ! 0) (mset (elems (snd (heap_replace_top lt v h)))) = add_mset v (mset (elems h))"
    and "fst (heap_replace_top lt v h) = status_ok"
proof -
  obtain x xs where xs: "elems h = x # xs" using assms(2) by (cases "elems h") auto
  have "down_hole lt 0 (v # xs) 0"
    using assms(1) unfolding heap_inv_def xs down_hole_def heap_ordered_def
    by (auto simp: nth_Cons split: nat.splits)
  from sift_down_ordered [OF this, folded heap_ordered_from] have "heap_ordered lt (sift_down lt (v # xs) 0)"
    and m: "mset (sift_down lt (v # xs) 0) = mset (v # xs)" by simp_all
  moreover from m have "length (sift_down lt (v # xs) 0) = length (v # xs)" by (rule mset_eq_length)
  ultimately show "heap_inv lt (snd (heap_replace_top lt v h))"
    "add_mset (elems h ! 0) (mset (elems (snd (heap_replace_top lt v h)))) = add_mset v (mset (elems h))"
    "fst (heap_replace_top lt v h) = status_ok"
    using assms(1) by (simp_all add: heap_replace_top_def heap_empty_def heap_size_def xs heap_inv_def)
qed

end

sublocale strict_weak_order \<subseteq> heap: priority_queue lt "heap_inv lt" "\<lambda>h. mset (elems h)" "\<lambda>h. snd (heap_pop lt h)"
proof
  fix q assume q: "heap_inv lt q"
  show "snd (heap_pop lt q) = (None, q)" if "mset (elems q) = {#}"
    using that by (simp add: heap_pop_def heap_empty_def heap_size_def)
  show "\<exists>x q'. snd (heap_pop lt q) = (Some x, q') \<and> heap_inv lt q' \<and>
      mset (elems q) = add_mset x (mset (elems q')) \<and> (\<forall>y \<in># mset (elems q). \<not> lt y x)" if "mset (elems q) \<noteq> {#}"
    using that pop_keeps [OF q] remove_keeps [OF q, of 0] top_best [OF q] by auto
qed

section \<open>What the heap promises\<close>

context strict_weak_order
begin

lemma push_list_keeps:
  "heap_inv lt h \<Longrightarrow> heap_inv lt (heap_push_list lt vs h) \<and>
    mset (elems (heap_push_list lt vs h)) = mset (elems h) + mset (take (slots h - length (elems h)) vs)"
proof (induction vs arbitrary: h)
  case Nil
  then show ?case by simp
next
  case (Cons v vs)
  show ?case
  proof (cases "heap_full h")
    case True
    then show ?thesis using Cons.prems by (simp add: heap_full_def heap_size_def)
  next
    case False
    note p = push_keeps [OF Cons.prems False, of v]
    have "length (elems (snd (heap_push lt v h))) = Suc (length (elems h))"
      using mset_eq_length [of "elems (snd (heap_push lt v h))" "v # elems h"] p(3) by simp
    moreover have "slots h - length (elems h) = Suc (slots h - Suc (length (elems h)))"
      using False Cons.prems by (auto simp: heap_full_def heap_size_def heap_inv_def)
    ultimately show ?thesis using False Cons.IH [OF p(2)] p(3,4) by simp
  qed
qed

lemma of_list_keeps:
  "heap_inv lt (heap_of_list lt N vs)" "mset (elems (heap_of_list lt N vs)) = mset (take N vs)"
  using push_list_keeps [of "heap_init N" vs] by (simp_all add: heap_of_list_def) (simp_all add: heap_init_def)

end

lemma slots_push: "slots (snd (heap_push lt v h)) = slots h"
  by (simp add: heap_push_def Let_def)

lemma slots_of_list: "slots (heap_of_list lt N vs) = N"
proof -
  have "slots (heap_push_list lt vs h) = slots h" for h
    by (induction vs arbitrary: h) (simp_all add: slots_push)
  then show ?thesis by (simp add: heap_of_list_def heap_init_def)
qed

text \<open>C13: every operation of the heap, for any strict weak order.  \<open>push\<close> adds the value or reports a full heap;
  \<open>pop\<close> returns an element no other one precedes and removes it, the \<open>pop\<close> without a destination does the same
  to the heap; \<open>remove_at\<close> removes exactly the element at the index; \<open>replace_top\<close> exchanges the top for the
  value; \<open>clear\<close> removes all; the list constructor inserts the elements that fit.  An empty heap, a full one and an
  index out of range give their status and leave the heap as it is.  Each operation keeps the heap order and
  the capacity.\<close>

theorem heap_operations:
  assumes "strict_weak_order lt" and "heap_inv lt h"
  shows "(if length (elems h) = slots h then heap_push lt v h = (status_full, h)
      else \<exists>h'. heap_push lt v h = (status_ok, h') \<and> heap_inv lt h' \<and> slots h' = slots h \<and>
        mset (elems h') = add_mset v (mset (elems h))) \<and>
    (if elems h = []
     then heap_pop lt h = (status_empty, None, h) \<and> heap_discard lt h = (status_empty, h) \<and> heap_replace_top lt v h = (status_empty, h)
     else (\<exists>x h'. heap_pop lt h = (status_ok, Some x, h') \<and> heap_discard lt h = (status_ok, h') \<and> heap_top h = Some x \<and>
         heap_inv lt h' \<and> slots h' = slots h \<and>
         mset (elems h) = add_mset x (mset (elems h')) \<and> (\<forall>y \<in># mset (elems h). \<not> lt y x) \<and>
         (\<exists>h''. heap_replace_top lt v h = (status_ok, h'') \<and> heap_inv lt h'' \<and> slots h'' = slots h \<and>
           mset (elems h'') = add_mset v (mset (elems h'))))) \<and>
    (if i < length (elems h)
     then \<exists>h'. heap_remove_at lt i h = (status_ok, h') \<and> heap_inv lt h' \<and> slots h' = slots h \<and>
       mset (elems h) = add_mset (elems h ! i) (mset (elems h'))
     else heap_remove_at lt i h = (status_out_of_range, h)) \<and>
    heap_inv lt (heap_clear h) \<and> elems (heap_clear h) = [] \<and> slots (heap_clear h) = slots h \<and>
    heap_inv lt (heap_of_list lt N vs) \<and> slots (heap_of_list lt N vs) = N \<and>
    mset (elems (heap_of_list lt N vs)) = mset (take N vs)"
proof -
  note push = strict_weak_order.push_keeps [OF assms, of v] and remove = strict_weak_order.remove_keeps [OF assms]
    and replace = strict_weak_order.replace_keeps [OF assms, of v] and best = strict_weak_order.top_best [OF assms]
  have pushes: "if length (elems h) = slots h then heap_push lt v h = (status_full, h)
      else \<exists>h'. heap_push lt v h = (status_ok, h') \<and> heap_inv lt h' \<and> slots h' = slots h \<and>
        mset (elems h') = add_mset v (mset (elems h))"
    using push by (cases "heap_push lt v h") (auto simp: heap_push_def heap_full_def heap_size_def)
  have removes: "if i < length (elems h)
     then \<exists>h'. heap_remove_at lt i h = (status_ok, h') \<and> heap_inv lt h' \<and> slots h' = slots h \<and>
       mset (elems h) = add_mset (elems h ! i) (mset (elems h'))
     else heap_remove_at lt i h = (status_out_of_range, h)"
    using remove [of i] by (cases "heap_remove_at lt i h") (auto simp: heap_remove_at_def heap_size_def)
  have tops: "\<exists>x h'. heap_pop lt h = (status_ok, Some x, h') \<and> heap_discard lt h = (status_ok, h') \<and> heap_top h = Some x \<and>
         heap_inv lt h' \<and> slots h' = slots h \<and>
         mset (elems h) = add_mset x (mset (elems h')) \<and> (\<forall>y \<in># mset (elems h). \<not> lt y x) \<and>
         (\<exists>h''. heap_replace_top lt v h = (status_ok, h'') \<and> heap_inv lt h'' \<and> slots h'' = slots h \<and>
           mset (elems h'') = add_mset v (mset (elems h')))" if "elems h \<noteq> []"
  proof (intro exI conjI)
    have ne: "0 < length (elems h)" using that by simp
    show "heap_pop lt h = (status_ok, Some (elems h ! 0), snd (heap_remove_at lt 0 h))"
      by (rule strict_weak_order.pop_keeps [OF assms that])
    show "heap_discard lt h = (status_ok, snd (heap_remove_at lt 0 h))"
      using remove(1) [OF ne] by (simp add: discard_remove [OF ne] prod_eq_iff)
    show "heap_top h = Some (elems h ! 0)" using that by (simp add: heap_top_def)
    show "heap_inv lt (snd (heap_remove_at lt 0 h))" "slots (snd (heap_remove_at lt 0 h)) = slots h"
      and m: "mset (elems h) = add_mset (elems h ! 0) (mset (elems (snd (heap_remove_at lt 0 h))))"
      using remove [OF ne] by blast+
    show "\<forall>y \<in># mset (elems h). \<not> lt y (elems h ! 0)" using best by blast
    show "heap_replace_top lt v h = (status_ok, snd (heap_replace_top lt v h))" using replace(3) [OF that] by (simp add: prod_eq_iff)
    show "heap_inv lt (snd (heap_replace_top lt v h))" by (rule replace(1) [OF that])
    show "slots (snd (heap_replace_top lt v h)) = slots h" by (simp add: heap_replace_top_def)
    show "mset (elems (snd (heap_replace_top lt v h))) = add_mset v (mset (elems (snd (heap_remove_at lt 0 h))))"
      using replace(2) [OF that] by (simp add: m add_mset_commute)
  qed
  have empties: "heap_pop lt h = (status_empty, None, h) \<and> heap_discard lt h = (status_empty, h) \<and>
      heap_replace_top lt v h = (status_empty, h)" if "elems h = []"
    using that by (simp add: heap_pop_def heap_discard_def heap_replace_top_def heap_empty_def heap_size_def)
  have clear: "heap_inv lt (heap_clear h) \<and> elems (heap_clear h) = [] \<and> slots (heap_clear h) = slots h"
    by (simp add: heap_clear_def heap_inv_def heap_ordered_def)
  show ?thesis
    using pushes removes tops empties clear strict_weak_order.of_list_keeps [OF assms(1), of N vs] slots_of_list [of lt N vs]
    by (cases "elems h = []") simp_all
qed

theorem heap_operations_witness:
  "(\<exists>x h'. heap_pop castle_less (heap_of_list castle_less 4 [3, 1, 2 :: nat]) = (status_ok, Some x, h')) \<and>
   (\<exists>h'. heap_push castle_less 5 (heap_of_list castle_less 4 [3, 1, 2 :: nat]) = (status_ok, h') \<and> mset (elems h') = {#5, 3, 1, 2#})"
proof -
  let ?h = "heap_of_list castle_less 4 [3, 1, 2 :: nat]"
  have m: "mset (elems ?h) = {#3, 1, 2#}" by (simp add: min_order.of_list_keeps)
  then have "elems ?h \<noteq> []" by auto
  moreover have "length (elems ?h) = 3" using arg_cong [OF m, of size] by simp
  moreover note heap_operations [OF min_order.strict_weak_order_axioms min_order.of_list_keeps(1), of 4 "[3 :: nat, 1, 2]" 5 9 0 "[]"]
  ultimately have "(\<exists>x h'. heap_pop castle_less ?h = (status_ok, Some x, h')) \<and>
      (\<exists>h'. heap_push castle_less 5 ?h = (status_ok, h') \<and> mset (elems h') = add_mset 5 (mset (elems ?h)))"
    by (auto simp: slots_of_list)
  then show ?thesis unfolding m .
qed

lemma sorted_less: "sorted_wrt (\<lambda>x y. \<not> castle_less y x) xs = sorted xs"
  by (simp add: castle_less_def not_less)

text \<open>C14: a heap sorts: popping a \<open>min_heap\<close> built from a list until it is empty delivers the elements
  that were accepted, in ascending order.\<close>

theorem heap_sorts:
  "fst (min_order.heap.drain N (heap_of_list castle_less N vs)) = sort (take N vs)"
proof -
  let ?h = "heap_of_list castle_less N vs"
  obtain xs h' where d: "min_order.heap.drain N ?h = (xs, h')" by (cases "min_order.heap.drain N ?h")
  note s = min_order.heap.drain_sorted [OF min_order.of_list_keeps(1) d, unfolded min_order.of_list_keeps(2) sorted_less]
  then have split: "mset (take N vs) = mset xs + mset (elems h')" and "length xs = length (take N vs)" and "sorted xs"
    by (simp_all add: min.commute)
  moreover have "length (take N vs) = length xs + length (elems h')"
    using arg_cong [OF split, of size] unfolding size_union size_mset .
  ultimately have "length (elems h') = 0" by linarith
  then have "elems h' = []" by simp
  with split \<open>sorted xs\<close> show ?thesis by (simp add: d properties_for_sort)
qed

end
