(* ===== verification/Algorithm.thy ===== *)
theory Algorithm
  imports Heap
begin

text \<open>
  The generic algorithms of \<open>castle/algorithm/algorithm.hpp\<close> over a memory of elements: an iterator is the
  offset it points to, \<open>[first, last)\<close> a range of it, and source and destination of a copy lie in the
  same memory, so that overlapping ranges are covered.  \<open>None\<close> is an access outside the memory, as when
  \<open>last\<close> (here \<open>till\<close>) is not reachable from \<open>first\<close>.  The overloads that compare with \<open>==\<close> or \<open><\<close> are the loops shown
  here with that predicate; moving an element leaves its value to the target.
\<close>

section \<open>Memory\<close>

definition ld :: "'a list \<Rightarrow> nat \<Rightarrow> 'a option" where
  "ld m i = (if i < length m then Some (m ! i) else None)"

definition st :: "'a list \<Rightarrow> nat \<Rightarrow> 'a \<Rightarrow> 'a list option" where
  "st m i v = (if i < length m then Some (m[i := v]) else None)"

definition swap_at :: "'a list \<Rightarrow> nat \<Rightarrow> nat \<Rightarrow> 'a list option" where
  "swap_at m i j = do { tmp \<leftarrow> ld m i; b \<leftarrow> ld m j; m \<leftarrow> st m i b; st m j tmp }"

lemma ld_st_simps [simp]: "ld m i = Some v \<longleftrightarrow> i < length m \<and> v = m ! i" "st m i w = Some m' \<longleftrightarrow> i < length m \<and> m' = m[i := w]"
  by (auto simp: ld_def st_def)

section \<open>Reading\<close>

function find_if :: "('a \<Rightarrow> bool) \<Rightarrow> 'a list \<Rightarrow> nat \<Rightarrow> nat \<Rightarrow> nat option" where
  "find_if p m first till =
     (if first \<noteq> till then do { x \<leftarrow> ld m first; if p x then Some first else find_if p m (first + 1) till }
      else Some till)"
  by pat_completeness auto
termination by (relation "measure (\<lambda>(_, m, first, _). length m - first)") auto

definition find_value :: "'a list \<Rightarrow> nat \<Rightarrow> nat \<Rightarrow> 'a \<Rightarrow> nat option" where
  "find_value m first till v = find_if (\<lambda>x. x = v) m first till"

definition find_if_not :: "('a \<Rightarrow> bool) \<Rightarrow> 'a list \<Rightarrow> nat \<Rightarrow> nat \<Rightarrow> nat option" where
  "find_if_not p m first till = find_if (\<lambda>x. \<not> p x) m first till"

function count_if_loop :: "('a \<Rightarrow> bool) \<Rightarrow> 'a list \<Rightarrow> nat \<Rightarrow> nat \<Rightarrow> nat \<Rightarrow> nat option" where
  "count_if_loop p m first till result =
     (if first \<noteq> till then do { x \<leftarrow> ld m first; count_if_loop p m (first + 1) till (if p x then result + 1 else result) }
      else Some result)"
  by pat_completeness auto
termination by (relation "measure (\<lambda>(_, m, first, _). length m - first)") auto

definition count_if :: "('a \<Rightarrow> bool) \<Rightarrow> 'a list \<Rightarrow> nat \<Rightarrow> nat \<Rightarrow> nat option" where
  "count_if p m first till = count_if_loop p m first till 0"

function all_of :: "('a \<Rightarrow> bool) \<Rightarrow> 'a list \<Rightarrow> nat \<Rightarrow> nat \<Rightarrow> bool option" where
  "all_of p m first till =
     (if first \<noteq> till then do { x \<leftarrow> ld m first; if \<not> p x then Some False else all_of p m (first + 1) till }
      else Some True)"
  by pat_completeness auto
termination by (relation "measure (\<lambda>(_, m, first, _). length m - first)") auto

function any_of :: "('a \<Rightarrow> bool) \<Rightarrow> 'a list \<Rightarrow> nat \<Rightarrow> nat \<Rightarrow> bool option" where
  "any_of p m first till =
     (if first \<noteq> till then do { x \<leftarrow> ld m first; if p x then Some True else any_of p m (first + 1) till }
      else Some False)"
  by pat_completeness auto
termination by (relation "measure (\<lambda>(_, m, first, _). length m - first)") auto

definition none_of :: "('a \<Rightarrow> bool) \<Rightarrow> 'a list \<Rightarrow> nat \<Rightarrow> nat \<Rightarrow> bool option" where
  "none_of p m first till = map_option Not (any_of p m first till)"

text \<open>Two ranges: with the end of the second unchecked, and checked.\<close>

function equal_unchecked :: "('a \<Rightarrow> 'b \<Rightarrow> bool) \<Rightarrow> 'a list \<Rightarrow> nat \<Rightarrow> nat \<Rightarrow> 'b list \<Rightarrow> nat \<Rightarrow> bool option" where
  "equal_unchecked p m first1 last1 n first2 =
     (if first1 \<noteq> last1 then do {
        x \<leftarrow> ld m first1; y \<leftarrow> ld n first2;
        if \<not> p x y then Some False else equal_unchecked p m (first1 + 1) last1 n (first2 + 1) }
      else Some True)"
  by pat_completeness auto
termination by (relation "measure (\<lambda>(_, m, first, _). length m - first)") auto

function equal_checked :: "('a \<Rightarrow> 'b \<Rightarrow> bool) \<Rightarrow> 'a list \<Rightarrow> nat \<Rightarrow> nat \<Rightarrow> 'b list \<Rightarrow> nat \<Rightarrow> nat \<Rightarrow> bool option" where
  "equal_checked p m first1 last1 n first2 last2 =
     (if first1 \<noteq> last1 \<and> first2 \<noteq> last2 then do {
        x \<leftarrow> ld m first1; y \<leftarrow> ld n first2;
        if \<not> p x y then Some False else equal_checked p m (first1 + 1) last1 n (first2 + 1) last2 }
      else Some (first1 = last1 \<and> first2 = last2))"
  by pat_completeness auto
termination by (relation "measure (\<lambda>(_, m, first, _). length m - first)") auto

function mismatch_unchecked :: "('a \<Rightarrow> 'b \<Rightarrow> bool) \<Rightarrow> 'a list \<Rightarrow> nat \<Rightarrow> nat \<Rightarrow> 'b list \<Rightarrow> nat \<Rightarrow> (nat \<times> nat) option" where
  "mismatch_unchecked p m first1 last1 n first2 =
     (if first1 \<noteq> last1 then do {
        x \<leftarrow> ld m first1; y \<leftarrow> ld n first2;
        if p x y then mismatch_unchecked p m (first1 + 1) last1 n (first2 + 1) else Some (first1, first2) }
      else Some (first1, first2))"
  by pat_completeness auto
termination by (relation "measure (\<lambda>(_, m, first, _). length m - first)") auto

function mismatch_checked :: "('a \<Rightarrow> 'b \<Rightarrow> bool) \<Rightarrow> 'a list \<Rightarrow> nat \<Rightarrow> nat \<Rightarrow> 'b list \<Rightarrow> nat \<Rightarrow> nat \<Rightarrow> (nat \<times> nat) option" where
  "mismatch_checked p m first1 last1 n first2 last2 =
     (if first1 \<noteq> last1 \<and> first2 \<noteq> last2 then do {
        x \<leftarrow> ld m first1; y \<leftarrow> ld n first2;
        if p x y then mismatch_checked p m (first1 + 1) last1 n (first2 + 1) last2 else Some (first1, first2) }
      else Some (first1, first2))"
  by pat_completeness auto
termination by (relation "measure (\<lambda>(_, m, first, _). length m - first)") auto

section \<open>Copying and overwriting\<close>

function copy :: "'a list \<Rightarrow> nat \<Rightarrow> nat \<Rightarrow> nat \<Rightarrow> ('a list \<times> nat) option" where
  "copy m first till destination =
     (if first \<noteq> till then do {
        x \<leftarrow> ld m first;
        m \<leftarrow> st m destination x;
        copy m (first + 1) till (destination + 1) }
      else Some (m, destination))"
  by pat_completeness auto
termination by (relation "measure (\<lambda>(m, first, _). length m - first)") auto

function copy_n :: "'a list \<Rightarrow> nat \<Rightarrow> int \<Rightarrow> nat \<Rightarrow> ('a list \<times> nat) option" where
  "copy_n m first count_value destination =
     (if count_value > 0 then do {
        x \<leftarrow> ld m first;
        m \<leftarrow> st m destination x;
        copy_n m (first + 1) (count_value - 1) (destination + 1) }
      else Some (m, destination))"
  by pat_completeness auto
termination by (relation "measure (\<lambda>(m, first, _). length m - first)") auto

function copy_if :: "('a \<Rightarrow> bool) \<Rightarrow> 'a list \<Rightarrow> nat \<Rightarrow> nat \<Rightarrow> nat \<Rightarrow> ('a list \<times> nat) option" where
  "copy_if p m first till destination =
     (if first \<noteq> till then do {
        x \<leftarrow> ld m first;
        if p x then do { m \<leftarrow> st m destination x; copy_if p m (first + 1) till (destination + 1) }
        else copy_if p m (first + 1) till destination }
      else Some (m, destination))"
  by pat_completeness auto
termination by (relation "measure (\<lambda>(_, m, first, _). length m - first)") auto

function transform :: "('a \<Rightarrow> 'a) \<Rightarrow> 'a list \<Rightarrow> nat \<Rightarrow> nat \<Rightarrow> nat \<Rightarrow> ('a list \<times> nat) option" where
  "transform operation m first till destination =
     (if first \<noteq> till then do {
        x \<leftarrow> ld m first;
        m \<leftarrow> st m destination (operation x);
        transform operation m (first + 1) till (destination + 1) }
      else Some (m, destination))"
  by pat_completeness auto
termination by (relation "measure (\<lambda>(_, m, first, _). length m - first)") auto

function transform2 :: "('a \<Rightarrow> 'a \<Rightarrow> 'a) \<Rightarrow> 'a list \<Rightarrow> nat \<Rightarrow> nat \<Rightarrow> nat \<Rightarrow> nat \<Rightarrow> ('a list \<times> nat) option" where
  "transform2 operation m first1 last1 first2 destination =
     (if first1 \<noteq> last1 then do {
        x \<leftarrow> ld m first1; y \<leftarrow> ld m first2;
        m \<leftarrow> st m destination (operation x y);
        transform2 operation m (first1 + 1) last1 (first2 + 1) (destination + 1) }
      else Some (m, destination))"
  by pat_completeness auto
termination by (relation "measure (\<lambda>(_, m, first, _). length m - first)") auto

function fill_range :: "'a list \<Rightarrow> nat \<Rightarrow> nat \<Rightarrow> 'a \<Rightarrow> 'a list option" where
  "fill_range m first till v =
     (if first \<noteq> till then do { m \<leftarrow> st m first v; fill_range m (first + 1) till v } else Some m)"
  by pat_completeness auto
termination by (relation "measure (\<lambda>(m, first, _). length m - first)") auto

function fill_n :: "'a list \<Rightarrow> nat \<Rightarrow> int \<Rightarrow> 'a \<Rightarrow> ('a list \<times> nat) option" where
  "fill_n m first count_value v =
     (if count_value > 0 then do { m \<leftarrow> st m first v; fill_n m (first + 1) (count_value - 1) v } else Some (m, first))"
  by pat_completeness auto
termination by (relation "measure (\<lambda>(m, first, _). length m - first)") auto

text \<open>The generator is passed by value: its final state is lost.\<close>

function generate :: "'a list \<Rightarrow> nat \<Rightarrow> nat \<Rightarrow> ('s \<Rightarrow> 'a \<times> 's) \<Rightarrow> 's \<Rightarrow> 'a list option" where
  "generate m first till generator s =
     (if first \<noteq> till then do {
        let (x, s) = generator s;
        m \<leftarrow> st m first x;
        generate m (first + 1) till generator s }
      else Some m)"
  by pat_completeness auto
termination by (relation "measure (\<lambda>(m, first, _). length m - first)") auto

function replace_if :: "('a \<Rightarrow> bool) \<Rightarrow> 'a list \<Rightarrow> nat \<Rightarrow> nat \<Rightarrow> 'a \<Rightarrow> 'a list option" where
  "replace_if p m first till v =
     (if first \<noteq> till then do {
        x \<leftarrow> ld m first;
        m \<leftarrow> (if p x then st m first v else Some m);
        replace_if p m (first + 1) till v }
      else Some m)"
  by pat_completeness auto
termination by (relation "measure (\<lambda>(_, m, first, _). length m - first)") (auto split: if_splits)

text \<open>An argument passed by reference is an object of its own or an element of the memory, which the algorithm
  may change while it runs.\<close>

datatype 'a ref = Temporary 'a | Element nat

fun deref :: "'a list \<Rightarrow> 'a ref \<Rightarrow> 'a option" where
  "deref m (Temporary v) = Some v"
| "deref m (Element i) = ld m i"

function replace_value :: "'a list \<Rightarrow> nat \<Rightarrow> nat \<Rightarrow> 'a ref \<Rightarrow> 'a ref \<Rightarrow> 'a list option" where
  "replace_value m first till old_value new_value =
     (if first \<noteq> till then do {
        x \<leftarrow> ld m first;
        old \<leftarrow> deref m old_value;
        m \<leftarrow> (if x = old then do { v \<leftarrow> deref m new_value; st m first v } else Some m);
        replace_value m (first + 1) till old_value new_value }
      else Some m)"
  by pat_completeness auto
termination by (relation "measure (\<lambda>(m, first, _). length m - first)") (auto split: if_splits simp: bind_eq_Some_conv)


declare find_if.simps [simp del] count_if_loop.simps [simp del] all_of.simps [simp del] any_of.simps [simp del]
  equal_unchecked.simps [simp del] equal_checked.simps [simp del] mismatch_unchecked.simps [simp del]
  mismatch_checked.simps [simp del] copy.simps [simp del] copy_n.simps [simp del] copy_if.simps [simp del]
  transform.simps [simp del] transform2.simps [simp del] fill_range.simps [simp del] fill_n.simps [simp del]
  generate.simps [simp del] replace_if.simps [simp del]

section \<open>Compaction\<close>

function remove_loop :: "('a \<Rightarrow> bool) \<Rightarrow> 'a list \<Rightarrow> nat \<Rightarrow> nat \<Rightarrow> nat \<Rightarrow> ('a list \<times> nat) option" where
  "remove_loop p m first till result =
     (if first \<noteq> till then do {
        x \<leftarrow> ld m first;
        if \<not> p x then do { m \<leftarrow> st m result x; remove_loop p m (first + 1) till (result + 1) }
        else remove_loop p m (first + 1) till result }
      else Some (m, result))"
  by pat_completeness auto
termination by (relation "measure (\<lambda>(_, m, first, _). length m - first)") auto

definition remove_if :: "('a \<Rightarrow> bool) \<Rightarrow> 'a list \<Rightarrow> nat \<Rightarrow> nat \<Rightarrow> ('a list \<times> nat) option" where
  "remove_if p m first till = do {
     first \<leftarrow> find_if p m first till;
     if first = till then Some (m, till) else remove_loop p m (first + 1) till first }"

function remove_value_loop :: "'a list \<Rightarrow> nat \<Rightarrow> nat \<Rightarrow> 'a ref \<Rightarrow> nat \<Rightarrow> ('a list \<times> nat) option" where
  "remove_value_loop m first till r result =
     (if first \<noteq> till then do {
        x \<leftarrow> ld m first;
        v \<leftarrow> deref m r;
        if x \<noteq> v then do { m \<leftarrow> st m result x; remove_value_loop m (first + 1) till r (result + 1) }
        else remove_value_loop m (first + 1) till r result }
      else Some (m, result))"
  by pat_completeness auto
termination by (relation "measure (\<lambda>(m, first, _). length m - first)") auto

text \<open>The search at the start changes nothing, so it may read the value once.\<close>

definition remove_value :: "'a list \<Rightarrow> nat \<Rightarrow> nat \<Rightarrow> 'a ref \<Rightarrow> ('a list \<times> nat) option" where
  "remove_value m first till r = do {
     v \<leftarrow> deref m r;
     first \<leftarrow> find_value m first till v;
     if first = till then Some (m, till) else remove_value_loop m (first + 1) till r first }"

function unique_loop :: "('a \<Rightarrow> 'a \<Rightarrow> bool) \<Rightarrow> 'a list \<Rightarrow> nat \<Rightarrow> nat \<Rightarrow> nat \<Rightarrow> ('a list \<times> nat) option" where
  "unique_loop p m first till result =
     (if first \<noteq> till then do {
        r \<leftarrow> ld m result; x \<leftarrow> ld m first;
        if \<not> p r x then do { m \<leftarrow> st m (result + 1) x; unique_loop p m (first + 1) till (result + 1) }
        else unique_loop p m (first + 1) till result }
      else Some (m, result + 1))"
  by pat_completeness auto
termination by (relation "measure (\<lambda>(_, m, first, _). length m - first)") auto

definition unique :: "('a \<Rightarrow> 'a \<Rightarrow> bool) \<Rightarrow> 'a list \<Rightarrow> nat \<Rightarrow> nat \<Rightarrow> ('a list \<times> nat) option" where
  "unique p m first till = (if first = till then Some (m, till) else unique_loop p m (first + 1) till first)"

section \<open>Sorting\<close>

function heap_sift_down :: "('a \<Rightarrow> 'a \<Rightarrow> bool) \<Rightarrow> 'a list \<Rightarrow> nat \<Rightarrow> nat \<Rightarrow> nat \<Rightarrow> 'a list option" where
  "heap_sift_down lt m first root n =
     (if n > 1 \<and> root \<le> (n - 2) div 2 then do {
        let child = root * 2 + 1;
        c \<leftarrow> (if child + 1 < n then do {
                a \<leftarrow> ld m (first + child); b \<leftarrow> ld m (first + child + 1);
                Some (if lt a b then child + 1 else child) }
              else Some child);
        a \<leftarrow> ld m (first + root); b \<leftarrow> ld m (first + c);
        if \<not> lt a b then Some m
        else do { m \<leftarrow> swap_at m (first + root) (first + c); heap_sift_down lt m first c n } }
      else Some m)"
  by pat_completeness auto
termination by (relation "measure (\<lambda>(_, _, _, root, n). n - root)") (auto simp: bind_eq_Some_conv split: if_splits)

fun heapify_loop :: "('a \<Rightarrow> 'a \<Rightarrow> bool) \<Rightarrow> 'a list \<Rightarrow> nat \<Rightarrow> nat \<Rightarrow> nat \<Rightarrow> 'a list option" where
  "heapify_loop lt m first n start =
     (if start > 0 then do {
        m \<leftarrow> heap_sift_down lt m first (start - 1) n;
        heapify_loop lt m first n (start - 1) }
      else Some m)"

fun sort_loop :: "('a \<Rightarrow> 'a \<Rightarrow> bool) \<Rightarrow> 'a list \<Rightarrow> nat \<Rightarrow> nat \<Rightarrow> 'a list option" where
  "sort_loop lt m first n =
     (if n > 1 then do {
        m \<leftarrow> swap_at m first (first + n - 1);
        m \<leftarrow> heap_sift_down lt m first 0 (n - 1);
        sort_loop lt m first (n - 1) }
      else Some m)"

text \<open>A reversed range has a negative length and is left alone.\<close>

definition sort_range :: "('a \<Rightarrow> 'a \<Rightarrow> bool) \<Rightarrow> 'a list \<Rightarrow> nat \<Rightarrow> nat \<Rightarrow> 'a list option" where
  "sort_range lt m first till =
     (let n = till - first in
      if n \<le> 1 then Some m
      else do { m \<leftarrow> heapify_loop lt m first n (n div 2); sort_loop lt m first n })"

section \<open>Searching ordered ranges\<close>

function range_lower_bound_loop :: "('a \<Rightarrow> 'v \<Rightarrow> bool) \<Rightarrow> 'a list \<Rightarrow> nat \<Rightarrow> 'v \<Rightarrow> nat \<Rightarrow> nat option" where
  "range_lower_bound_loop compare m first v len =
     (if len > 0 then do {
        let half = len div 2;
        x \<leftarrow> ld m (first + half);
        if compare x v then range_lower_bound_loop compare m (first + half + 1) v (len - (half + 1))
        else range_lower_bound_loop compare m first v half }
      else Some first)"
  by pat_completeness auto
termination by (relation "measure (\<lambda>(_, _, _, _, len). len)") auto

definition range_lower_bound :: "('a \<Rightarrow> 'v \<Rightarrow> bool) \<Rightarrow> 'a list \<Rightarrow> nat \<Rightarrow> nat \<Rightarrow> 'v \<Rightarrow> nat option" where
  "range_lower_bound compare m first till v = range_lower_bound_loop compare m first v (till - first)"

function range_upper_bound_loop :: "('v \<Rightarrow> 'a \<Rightarrow> bool) \<Rightarrow> 'a list \<Rightarrow> nat \<Rightarrow> 'v \<Rightarrow> nat \<Rightarrow> nat option" where
  "range_upper_bound_loop compare m first v len =
     (if len > 0 then do {
        let half = len div 2;
        x \<leftarrow> ld m (first + half);
        if \<not> compare v x then range_upper_bound_loop compare m (first + half + 1) v (len - (half + 1))
        else range_upper_bound_loop compare m first v half }
      else Some first)"
  by pat_completeness auto
termination by (relation "measure (\<lambda>(_, _, _, _, len). len)") auto

definition range_upper_bound :: "('v \<Rightarrow> 'a \<Rightarrow> bool) \<Rightarrow> 'a list \<Rightarrow> nat \<Rightarrow> nat \<Rightarrow> 'v \<Rightarrow> nat option" where
  "range_upper_bound compare m first till v = range_upper_bound_loop compare m first v (till - first)"

definition binary_search :: "('a \<Rightarrow> 'a \<Rightarrow> bool) \<Rightarrow> 'a list \<Rightarrow> nat \<Rightarrow> nat \<Rightarrow> 'a \<Rightarrow> bool option" where
  "binary_search compare m first till v = do {
     position \<leftarrow> range_lower_bound compare m first till v;
     if position \<noteq> till then do { x \<leftarrow> ld m position; Some (\<not> compare v x) } else Some False }"

section \<open>Extrema\<close>

definition min_by :: "('a \<Rightarrow> 'a \<Rightarrow> bool) \<Rightarrow> 'a \<Rightarrow> 'a \<Rightarrow> 'a" where
  "min_by compare lhs rhs = (if compare rhs lhs then rhs else lhs)"

definition min_of :: "'a::linorder \<Rightarrow> 'a \<Rightarrow> 'a" where
  "min_of lhs rhs = (if lhs < rhs then lhs else rhs)"

definition max_by :: "('a \<Rightarrow> 'a \<Rightarrow> bool) \<Rightarrow> 'a \<Rightarrow> 'a \<Rightarrow> 'a" where
  "max_by compare lhs rhs = (if compare lhs rhs then rhs else lhs)"

definition max_of :: "'a::linorder \<Rightarrow> 'a \<Rightarrow> 'a" where
  "max_of lhs rhs = (if lhs < rhs then rhs else lhs)"

definition min3 :: "'a::linorder \<Rightarrow> 'a \<Rightarrow> 'a \<Rightarrow> 'a" where
  "min3 a b c = min_of (min_of a b) c"

definition max3 :: "'a::linorder \<Rightarrow> 'a \<Rightarrow> 'a \<Rightarrow> 'a" where
  "max3 a b c = max_of (max_of a b) c"

function min_element_loop :: "('a \<Rightarrow> 'a \<Rightarrow> bool) \<Rightarrow> 'a list \<Rightarrow> nat \<Rightarrow> nat \<Rightarrow> nat \<Rightarrow> nat option" where
  "min_element_loop compare m first till result =
     (if first \<noteq> till then do {
        x \<leftarrow> ld m first; r \<leftarrow> ld m result;
        min_element_loop compare m (first + 1) till (if compare x r then first else result) }
      else Some result)"
  by pat_completeness auto
termination by (relation "measure (\<lambda>(_, m, first, _). length m - first)") auto

definition min_element :: "('a \<Rightarrow> 'a \<Rightarrow> bool) \<Rightarrow> 'a list \<Rightarrow> nat \<Rightarrow> nat \<Rightarrow> nat option" where
  "min_element compare m first till = (if first = till then Some till else min_element_loop compare m (first + 1) till first)"

function max_element_loop :: "('a \<Rightarrow> 'a \<Rightarrow> bool) \<Rightarrow> 'a list \<Rightarrow> nat \<Rightarrow> nat \<Rightarrow> nat \<Rightarrow> nat option" where
  "max_element_loop compare m first till result =
     (if first \<noteq> till then do {
        x \<leftarrow> ld m first; r \<leftarrow> ld m result;
        max_element_loop compare m (first + 1) till (if compare r x then first else result) }
      else Some result)"
  by pat_completeness auto
termination by (relation "measure (\<lambda>(_, m, first, _). length m - first)") auto

definition max_element :: "('a \<Rightarrow> 'a \<Rightarrow> bool) \<Rightarrow> 'a list \<Rightarrow> nat \<Rightarrow> nat \<Rightarrow> nat option" where
  "max_element compare m first till = (if first = till then Some till else max_element_loop compare m (first + 1) till first)"

declare remove_loop.simps [simp del] remove_value_loop.simps [simp del] replace_value.simps [simp del] unique_loop.simps [simp del] heap_sift_down.simps [simp del]
  heapify_loop.simps [simp del] sort_loop.simps [simp del] range_lower_bound_loop.simps [simp del]
  range_upper_bound_loop.simps [simp del] min_element_loop.simps [simp del] max_element_loop.simps [simp del]

section \<open>Ranges as lists\<close>

definition slice :: "nat \<Rightarrow> nat \<Rightarrow> 'a list \<Rightarrow> 'a list" where
  "slice i j m = take (j - i) (drop i m)"

definition splice :: "nat \<Rightarrow> 'a list \<Rightarrow> 'a list \<Rightarrow> 'a list" where
  "splice d xs m = take d m @ xs @ drop (d + length xs) m"

named_theorems range_simps \<open>stepping through a range\<close>

lemma slice_nil [range_simps, simp]: "slice j j m = []"
  by (simp add: slice_def)

lemma slice_step [range_simps]: "i < j \<Longrightarrow> j \<le> length m \<Longrightarrow> slice i j m = m ! i # slice (Suc i) j m"
  by (simp add: slice_def Cons_nth_drop_Suc [symmetric] Suc_diff_Suc [symmetric] take_Cons')

lemma length_slice [simp]: "j \<le> length m \<Longrightarrow> length (slice i j m) = j - i"
  by (simp add: slice_def)

lemma slice_nth [simp]: "k < j - i \<Longrightarrow> j \<le> length m \<Longrightarrow> slice i j m ! k = m ! (i + k)"
  by (simp add: slice_def)

lemma set_slice: "j \<le> length m \<Longrightarrow> set (slice i j m) = (!) m ` {i..<j}"
proof (rule set_eqI, rule iffI)
  fix x assume "j \<le> length m" and "x \<in> set (slice i j m)"
  then show "x \<in> (!) m ` {i..<j}" by (auto simp: in_set_conv_nth)
next
  fix x assume j: "j \<le> length m" and "x \<in> (!) m ` {i..<j}"
  then obtain k where "i \<le> k" "k < j" "x = m ! k" by auto
  then show "x \<in> set (slice i j m)" unfolding in_set_conv_nth using j by (intro exI [of _ "k - i"]) simp
qed

lemma slice_split: "i \<le> k \<Longrightarrow> k \<le> j \<Longrightarrow> j \<le> length m \<Longrightarrow> slice i j m = slice i k m @ slice k j m"
  by (rule nth_equalityI) (auto simp: nth_append add.commute)

lemma slice_update [simp]: "d < i \<or> j \<le> d \<Longrightarrow> slice i j (m[d := v]) = slice i j m"
  by (cases "d < length m") (auto simp: list_eq_iff_nth_eq slice_def)

lemma splice_nil [simp]: "splice d [] m = m"
  by (simp add: splice_def)

lemma length_splice [simp]: "d + length xs \<le> length m \<Longrightarrow> length (splice d xs m) = length m"
  by (simp add: splice_def)

lemma splice_step: "d < length m \<Longrightarrow> splice (Suc d) xs (m[d := v]) = splice d (v # xs) m"
  by (simp add: splice_def take_Suc_conv_app_nth)

section \<open>Reading\<close>

lemma find_if_ok:
  "i \<le> j \<Longrightarrow> j \<le> length m \<Longrightarrow> find_if p m i j = Some (i + length (takeWhile (\<lambda>x. \<not> p x) (slice i j m)))"
  by (induction rule: inc_induct; subst find_if.simps) (simp_all add: range_simps ld_def)

lemma count_if_loop_ok:
  "i \<le> j \<Longrightarrow> j \<le> length m \<Longrightarrow> count_if_loop p m i j n = Some (n + length (filter p (slice i j m)))"
  by (induction arbitrary: n rule: inc_induct; subst count_if_loop.simps) (simp_all add: range_simps ld_def)

lemma all_of_ok: "i \<le> j \<Longrightarrow> j \<le> length m \<Longrightarrow> all_of p m i j = Some (list_all p (slice i j m))"
  by (induction rule: inc_induct; subst all_of.simps) (simp_all add: range_simps ld_def)

lemma any_of_ok: "i \<le> j \<Longrightarrow> j \<le> length m \<Longrightarrow> any_of p m i j = Some (list_ex p (slice i j m))"
  by (induction rule: inc_induct; subst any_of.simps) (simp_all add: range_simps ld_def)

lemma mismatch_unchecked_ok:
  "i + k \<le> length m \<Longrightarrow> i2 + k \<le> length n \<Longrightarrow>
   mismatch_unchecked p m i (i + k) n i2 =
     (let l = length (takeWhile (\<lambda>(x, y). p x y) (zip (slice i (i + k) m) (slice i2 (i2 + k) n))) in Some (i + l, i2 + l))"
proof (induction k arbitrary: i i2)
  case (Suc k)
  with Suc.IH [of "Suc i" "Suc i2"] show ?case
    by (subst mismatch_unchecked.simps) (simp add: ld_def Let_def slice_step [of i] slice_step [of i2])
qed (subst mismatch_unchecked.simps, simp)

lemma equal_unchecked_ok:
  "i + k \<le> length m \<Longrightarrow> i2 + k \<le> length n \<Longrightarrow>
   equal_unchecked p m i (i + k) n i2 = Some (list_all2 p (slice i (i + k) m) (slice i2 (i2 + k) n))"
proof (induction k arbitrary: i i2)
  case (Suc k)
  with Suc.IH [of "Suc i" "Suc i2"] show ?case
    by (subst equal_unchecked.simps) (simp add: ld_def slice_step [of i] slice_step [of i2])
qed (subst equal_unchecked.simps, simp)

lemma mismatch_checked_ok:
  "i \<le> j \<Longrightarrow> j \<le> length m \<Longrightarrow> i2 \<le> j2 \<Longrightarrow> j2 \<le> length n \<Longrightarrow>
   mismatch_checked p m i j n i2 j2 =
     (let k = length (takeWhile (\<lambda>(x, y). p x y) (zip (slice i j m) (slice i2 j2 n))) in Some (i + k, i2 + k))"
proof (induction arbitrary: i2 rule: inc_induct)
  case (step i)
  then show ?case
    by (cases "i2 < j2"; subst mismatch_checked.simps) (simp_all add: range_simps ld_def Let_def)
qed (subst mismatch_checked.simps, simp)

lemma equal_checked_ok:
  "i \<le> j \<Longrightarrow> j \<le> length m \<Longrightarrow> i2 \<le> j2 \<Longrightarrow> j2 \<le> length n \<Longrightarrow>
   equal_checked p m i j n i2 j2 = Some (list_all2 p (slice i j m) (slice i2 j2 n))"
proof (induction arbitrary: i2 rule: inc_induct)
  case base
  then show ?case using length_slice [of j2 n i2] by (subst equal_checked.simps) (auto simp del: length_slice)
next
  case (step i)
  then show ?case
    by (cases "i2 < j2"; subst equal_checked.simps) (simp_all add: range_simps ld_def)
qed

section \<open>Copying and overwriting\<close>

text \<open>A range is copied correctly unless the destination begins strictly inside it.\<close>

lemma transform_ok:
  "i \<le> j \<Longrightarrow> j \<le> length m \<Longrightarrow> d + (j - i) \<le> length m \<Longrightarrow> d \<le> i \<or> j \<le> d \<Longrightarrow>
   transform f m i j d = Some (splice d (map f (slice i j m)) m, d + (j - i))"
proof (induction arbitrary: m d rule: inc_induct)
  case (step i)
  have "transform f (m[d := f (m ! i)]) (Suc i) j (Suc d) =
      Some (splice (Suc d) (map f (slice (Suc i) j m)) (m[d := f (m ! i)]), Suc d + (j - Suc i))"
    using step by (subst step.IH) auto
  moreover have "slice i j m = m ! i # slice (Suc i) j m" using step by (simp add: slice_step)
  ultimately show ?case using step.hyps step.prems
    by (subst transform.simps) (auto simp: ld_def st_def splice_step)
qed (subst transform.simps, simp)

lemma copy_transform: "copy m i j d = transform (\<lambda>x. x) m i j d"
proof (induction m i j d rule: copy.induct)
  case (1 m i j d)
  then show ?case
    by (cases "i < length m"; cases "d < length m"; subst copy.simps; subst transform.simps) (simp_all add: ld_def st_def)
qed

lemma copy_n_copy: "copy_n m i (int n) d = copy m i (i + n) d"
proof (induction n arbitrary: m i d)
  case (Suc n)
  then show ?case
    by (cases "i < length m"; cases "d < length m"; subst copy_n.simps; subst copy.simps) (simp_all add: ld_def st_def)
qed (subst copy_n.simps, subst copy.simps, simp)

lemma fill_range_transform: "fill_range m i j v = map_option fst (transform (\<lambda>_. v) m i j i)"
proof (induction m i j v rule: fill_range.induct)
  case (1 m i j v)
  then show ?case by (cases "i < length m"; subst fill_range.simps; subst transform.simps) (simp_all add: ld_def st_def)
qed

lemma fill_n_transform: "fill_n m i (int n) v = transform (\<lambda>_. v) m i (i + n) i"
proof (induction n arbitrary: m i)
  case (Suc n)
  then show ?case by (cases "i < length m"; subst fill_n.simps; subst transform.simps) (simp_all add: ld_def st_def)
qed (subst fill_n.simps, subst transform.simps, simp)

lemma replace_if_transform: "replace_if p m i j v = map_option fst (transform (\<lambda>x. if p x then v else x) m i j i)"
proof (induction p m i j v rule: replace_if.induct)
  case (1 p m i j v)
  then show ?case by (cases "i < length m"; subst replace_if.simps; subst transform.simps) (simp_all add: ld_def st_def)
qed

lemma transform2_ok:
  "i + k \<le> length m \<Longrightarrow> i2 + k \<le> length m \<Longrightarrow> d + k \<le> length m \<Longrightarrow> d \<le> i \<or> i + k \<le> d \<Longrightarrow> d \<le> i2 \<or> i2 + k \<le> d \<Longrightarrow>
   transform2 f m i (i + k) i2 d = Some (splice d (map2 f (slice i (i + k) m) (slice i2 (i2 + k) m)) m, d + k)"
proof (induction k arbitrary: m i i2 d)
  case (Suc k)
  let ?m = "m[d := f (m ! i) (m ! i2)]"
  have "slice (Suc i) (Suc i + k) ?m = slice (Suc i) (Suc i + k) m" "slice (Suc i2) (Suc i2 + k) ?m = slice (Suc i2) (Suc i2 + k) m"
    using Suc.prems by (auto intro!: slice_update)
  with Suc.prems Suc.IH [of "Suc i" ?m "Suc i2" "Suc d"] show ?case
    by (subst transform2.simps) (simp add: ld_def st_def slice_step [of i] slice_step [of i2] splice_step, linarith)
qed (subst transform2.simps, simp)

lemma copy_if_ok:
  "i \<le> j \<Longrightarrow> j \<le> length m \<Longrightarrow> d + (j - i) \<le> length m \<Longrightarrow> d \<le> i \<or> j \<le> d \<Longrightarrow>
   copy_if p m i j d = (let xs = filter p (slice i j m) in Some (splice d xs m, d + length xs))"
proof (induction arbitrary: m d rule: inc_induct)
  case (step i)
  have "slice (Suc i) j (m[d := m ! i]) = slice (Suc i) j m" using step.prems by auto
  moreover have "slice i j m = m ! i # slice (Suc i) j m" using step by (simp add: slice_step)
  ultimately show ?case using step.hyps step.prems step.IH [of "m[d := m ! i]" "Suc d"] step.IH [of m d]
    by (subst copy_if.simps) (auto simp: ld_def st_def Let_def splice_step)
qed (subst copy_if.simps, simp)

primrec outputs :: "('s \<Rightarrow> 'a \<times> 's) \<Rightarrow> 's \<Rightarrow> nat \<Rightarrow> 'a list" where
  "outputs g s 0 = []"
| "outputs g s (Suc n) = fst (g s) # outputs g (snd (g s)) n"

lemma length_outputs [simp]: "length (outputs g s n) = n"
  by (induction n arbitrary: s) simp_all

lemma generate_ok:
  "i + k \<le> length m \<Longrightarrow> generate m i (i + k) g s = Some (splice i (outputs g s k) m)"
proof (induction k arbitrary: m i s)
  case (Suc k)
  with Suc.IH [of "Suc i" "m[i := fst (g s)]" "snd (g s)"] show ?case
    by (subst generate.simps) (simp add: st_def split_beta splice_step)
qed (subst generate.simps, simp)

section \<open>Compaction\<close>

lemma remove_loop_ok:
  "i \<le> j \<Longrightarrow> j \<le> length m \<Longrightarrow> r \<le> i \<Longrightarrow> xs = filter (\<lambda>x. \<not> p x) (slice i j m) \<Longrightarrow>
   \<exists>m'. remove_loop p m i j r = Some (m', r + length xs) \<and> length m' = length m \<and>
     take (r + length xs) m' = take r m @ xs \<and> drop j m' = drop j m"
proof (induction arbitrary: m r xs rule: inc_induct)
  case base
  then show ?case by (subst remove_loop.simps) simp
next
  case (step i)
  have cons: "slice i j m = m ! i # slice (Suc i) j m" using step by (simp add: slice_step)
  show ?case
  proof (cases "p (m ! i)")
    case True
    with step.IH [of m r xs] step.prems step.hyps cons show ?thesis by (subst remove_loop.simps) (simp add: ld_def)
  next
    case False
    then obtain ys where xs: "xs = m ! i # ys" "ys = filter (\<lambda>x. \<not> p x) (slice (Suc i) j (m[r := m ! i]))"
      using step.prems cons by simp
    from step.IH [of "m[r := m ! i]" "Suc r", OF _ _ xs(2)] step.prems step.hyps obtain m' where
      "remove_loop p (m[r := m ! i]) (Suc i) j (Suc r) = Some (m', Suc r + length ys)" "length m' = length m"
      "take (Suc r + length ys) m' = take (Suc r) (m[r := m ! i]) @ ys" "drop j m' = drop j m" by auto
    with False step.prems(1,2) step.hyps xs(1) show ?thesis
      by (subst remove_loop.simps) (simp add: ld_def st_def take_Suc_conv_app_nth)
  qed
qed

lemma remove_if_ok:
  assumes "i \<le> j" and "j \<le> length m" and xs: "xs = filter (\<lambda>x. \<not> p x) (slice i j m)"
  shows "\<exists>m'. remove_if p m i j = Some (m', i + length xs) \<and> length m' = length m \<and>
     take (i + length xs) m' = take i m @ xs \<and> drop j m' = drop j m"
proof -
  define k where "k = length (takeWhile (\<lambda>x. \<not> p x) (slice i j m))"
  have k: "i + k \<le> j" using assms length_takeWhile_le [of "\<lambda>x. \<not> p x" "slice i j m"] by (simp add: k_def)
  have find: "find_if p m i j = Some (i + k)" using assms by (simp add: find_if_ok k_def)
  have pre: "slice i (i + k) m = takeWhile (\<lambda>x. \<not> p x) (slice i j m)"
    using slice_split [of i "i + k" j m] k assms length_slice [of "i + k" m i]
    by (metis add_diff_cancel_left' append_eq_conv_conj k_def le_add1 le_trans takeWhile_eq_take)
  show ?thesis
  proof (cases "i + k = j")
    case True
    then have "xs = slice i j m" using xs pre by (metis filter_True set_takeWhileD)
    with True find assms show ?thesis
      by (simp add: remove_if_def slice_def) (metis add_diff_cancel_left' le_add1 take_add)
  next
    case False
    then have split: "slice i j m = slice i (i + k) m @ m ! (i + k) # slice (Suc (i + k)) j m"
      using slice_split [of i "i + k" j m] slice_step [of "i + k" j m] k assms by simp
    have "p (m ! (i + k))"
      using False k assms nth_length_takeWhile [of "\<lambda>x. \<not> p x" "slice i j m"] by (simp add: k_def)
    moreover have "filter (\<lambda>x. \<not> p x) (slice i (i + k) m) = slice i (i + k) m" unfolding pre by (metis filter_True set_takeWhileD)
    ultimately have ys: "xs = slice i (i + k) m @ filter (\<lambda>x. \<not> p x) (slice (Suc (i + k)) j m)"
      unfolding xs split by simp
    have "take (i + k) m = take i m @ slice i (i + k) m" by (simp add: slice_def take_add)
    moreover have "length xs = k + length (filter (\<lambda>x. \<not> p x) (slice (Suc (i + k)) j m))"
      unfolding ys using k assms(2) by simp
    ultimately show ?thesis
      using remove_loop_ok [of "Suc (i + k)" j m "i + k" _ p, OF _ _ _ refl] False k assms(2) find ys
      by (simp add: remove_if_def add.assoc)
  qed
qed

text \<open>A reference whose value the algorithm does not change: the element is not in the range it works on.\<close>

fun steady :: "'a list \<Rightarrow> nat \<Rightarrow> nat \<Rightarrow> 'a ref \<Rightarrow> 'a \<Rightarrow> bool" where
  "steady m i j (Temporary w) v \<longleftrightarrow> w = v"
| "steady m i j (Element k) v \<longleftrightarrow> k < length m \<and> (k < i \<or> j \<le> k) \<and> m ! k = v"

lemma steady_deref: "steady m i j r v \<Longrightarrow> deref m r = Some v"
  by (cases r) (simp_all add: ld_def)

lemma steady_update: "steady m i j r v \<Longrightarrow> i \<le> k \<Longrightarrow> k < j \<Longrightarrow> steady (m[k := x]) i j r v"
  by (cases r) auto

lemma replace_value_if:
  "i \<le> j \<Longrightarrow> j \<le> length m \<Longrightarrow> l \<le> i \<Longrightarrow> steady m l j old_value a \<Longrightarrow> steady m l j new_value b \<Longrightarrow>
   replace_value m i j old_value new_value = replace_if (\<lambda>x. x = a) m i j b"
proof (induction arbitrary: m rule: inc_induct)
  case base
  then show ?case by (subst replace_value.simps, subst replace_if.simps) simp
next
  case (step i)
  then show ?case
    by (subst replace_value.simps, subst replace_if.simps) (auto simp: ld_def st_def steady_deref steady_update)
qed

lemma remove_value_loop_if:
  "i \<le> j \<Longrightarrow> j \<le> length m \<Longrightarrow> l \<le> result \<Longrightarrow> result < i \<Longrightarrow> steady m l j r v \<Longrightarrow>
   remove_value_loop m i j r result = remove_loop (\<lambda>x. x = v) m i j result"
proof (induction arbitrary: m result rule: inc_induct)
  case base
  then show ?case by (subst remove_value_loop.simps, subst remove_loop.simps) simp
next
  case (step i)
  then show ?case
    by (subst remove_value_loop.simps, subst remove_loop.simps) (auto simp: ld_def st_def steady_deref steady_update)
qed

lemma remove_value_if:
  assumes "i \<le> j" and "j \<le> length m" and "steady m i j r v"
  shows "remove_value m i j r = remove_if (\<lambda>x. x = v) m i j"
proof -
  let ?k = "i + length (takeWhile (\<lambda>x. x \<noteq> v) (slice i j m))"
  have "?k \<le> j" using assms length_takeWhile_le [of "\<lambda>x. x \<noteq> v" "slice i j m"] by simp
  then show ?thesis
    using assms remove_value_loop_if [of "Suc ?k" j m i ?k r v] find_if_ok [OF assms(1,2), of "\<lambda>x. x = v"]
    by (simp add: remove_value_def remove_if_def find_value_def steady_deref)
qed

text \<open>Each run of elements related to the one last kept is reduced to that one.\<close>

fun thin :: "('a \<Rightarrow> 'a \<Rightarrow> bool) \<Rightarrow> 'a \<Rightarrow> 'a list \<Rightarrow> 'a list" where
  "thin p x [] = []"
| "thin p x (y # ys) = (if p x y then thin p x ys else y # thin p y ys)"

lemma thin_remdups_adj: "x # thin (=) x ys = remdups_adj (x # ys)"
  by (induction ys arbitrary: x) simp_all

lemma unique_loop_ok:
  "i \<le> j \<Longrightarrow> j \<le> length m \<Longrightarrow> r < i \<Longrightarrow> xs = thin p (m ! r) (slice i j m) \<Longrightarrow>
   \<exists>m'. unique_loop p m i j r = Some (m', Suc r + length xs) \<and> length m' = length m \<and>
     take (Suc r + length xs) m' = take (Suc r) m @ xs \<and> drop j m' = drop j m"
proof (induction arbitrary: m r xs rule: inc_induct)
  case base
  then show ?case by (subst unique_loop.simps) simp
next
  case (step i)
  have cons: "slice i j m = m ! i # slice (Suc i) j m" using step by (simp add: slice_step)
  show ?case
  proof (cases "p (m ! r) (m ! i)")
    case True
    with step.IH [of m r xs] step.prems step.hyps cons show ?thesis by (subst unique_loop.simps) (simp add: ld_def)
  next
    case False
    let ?m = "m[Suc r := m ! i]"
    from False obtain ys where xs: "xs = m ! i # ys" "ys = thin p (?m ! Suc r) (slice (Suc i) j ?m)"
      using step.prems step.hyps cons by simp
    from step.IH [OF _ _ xs(2)] step.prems step.hyps obtain m' where
      "unique_loop p ?m (Suc i) j (Suc r) = Some (m', Suc (Suc r) + length ys)" "length m' = length m"
      "take (Suc (Suc r) + length ys) m' = take (Suc (Suc r)) ?m @ ys" "drop j m' = drop j m" by auto
    with False step.prems(1,2) step.hyps xs(1) show ?thesis
      by (subst unique_loop.simps) (simp add: ld_def st_def take_Suc_conv_app_nth [of "Suc r"])
  qed
qed

end
