(* ===== verification/AlgorithmOrder.thy ===== *)
theory AlgorithmOrder
  imports Algorithm
begin

text \<open>
  Correctness of the ordering algorithms of \<open>castle/algorithm/algorithm.hpp\<close>: the heap sort (over the
  sifting lemmas of the container heap), the binary searches and the extrema, for any strict weak order,
  and the properties of the whole header.
\<close>

section \<open>Sorting\<close>

lemma swap_at_append:
  "i < length h \<Longrightarrow> j < length h \<Longrightarrow>
   swap_at (a @ h @ b) (length a + i) (length a + j) = Some (a @ swap_values h i j @ b)"
  by (simp add: swap_at_def ld_def st_def swap_values_def nth_append list_update_append)

lemma ld_append: "i < length h \<Longrightarrow> ld (a @ h @ b) (length a + i) = Some (h ! i)"
  by (simp add: ld_def nth_append)

lemma swap_values_commute: "swap_values xs i j = swap_values xs j i"
  by (cases "i = j") (simp_all add: swap_values_def list_update_swap)

text \<open>The loop is the \<open>sift_down\<close> of the container heap under the opposite order.\<close>

lemma heap_sift_down_ok:
  "heap_sift_down lt (a @ h @ b) (length a) r (length h) = Some (a @ sift_down (\<lambda>x y. lt y x) h r @ b)"
proof (induction "length h - r" arbitrary: h r rule: less_induct)
  case less
  show ?case
  proof (cases "2 * r + 1 < length h")
    case True
    define c where "c = (if r * 2 + 1 + 1 < length h \<and> lt (h ! (r * 2 + 1)) (h ! (r * 2 + 2)) then r * 2 + 2 else r * 2 + 1)"
    have c: "c < length h" "r < c" "r < length h" using True by (auto simp: c_def)
    have guard: "length h > 1 \<and> r \<le> (length h - 2) div 2" using True by linarith
    have pick: "(if r * 2 + 1 + 1 < length h then do {
                a' \<leftarrow> ld (a @ h @ b) (length a + (r * 2 + 1)); b' \<leftarrow> ld (a @ h @ b) (length a + (r * 2 + 1) + 1);
                Some (if lt a' b' then r * 2 + 1 + 1 else r * 2 + 1) }
              else Some (r * 2 + 1)) = Some c"
      using True by (simp add: c_def ld_def nth_append)
    have unfold: "heap_sift_down lt (a @ h @ b) (length a) r (length h) =
        (if \<not> lt (h ! r) (h ! c) then Some (a @ h @ b)
         else heap_sift_down lt (a @ swap_values h r c @ b) (length a) c (length h))"
      by (subst heap_sift_down.simps)
        (simp only: guard pick Let_def ld_append [OF c(1)] ld_append [OF c(3)] swap_at_append [OF c(3) c(1)] simp_thms if_True
          Option.bind.bind_lunit)
    have "sift_down (\<lambda>x y. lt y x) h r = (if \<not> lt (h ! r) (h ! c) then h else sift_down (\<lambda>x y. lt y x) (swap_values h c r) c)"
      by (subst sift_down.simps) (use True in \<open>simp add: Let_def higher_priority_def heap_left_def c_def\<close>)
    with unfold less [of "swap_values h c r" c] c show ?thesis by (simp add: swap_values_commute [of h r c])
  next
    case False
    then have "\<not> (length h > 1 \<and> r \<le> (length h - 2) div 2)" by linarith
    with False show ?thesis
      by (subst heap_sift_down.simps, subst sift_down.simps) (auto simp: Let_def heap_left_def)
  qed
qed

context strict_weak_order
begin

lemma flip: "strict_weak_order (\<lambda>x y. lt y x)"
  by unfold_locales (use asym weak in blast)+

lemmas sift_flipped = strict_weak_order.sift_down_ordered [OF flip]

lemma heapify_loop_ok:
  "ordered_from (\<lambda>x y. lt y x) start h \<Longrightarrow> start < length h \<Longrightarrow>
   \<exists>h'. heapify_loop lt (a @ h @ b) (length a) (length h) start = Some (a @ h' @ b) \<and>
     heap_ordered (\<lambda>x y. lt y x) h' \<and> mset h' = mset h"
proof (induction start arbitrary: h)
  case 0
  then show ?case by (subst heapify_loop.simps) (simp add: heap_ordered_from)
next
  case (Suc k)
  let ?h = "sift_down (\<lambda>x y. lt y x) h k"
  have "down_hole (\<lambda>x y. lt y x) k h k"
    unfolding down_hole_def using Suc.prems(1) parent_less [of k] by (auto simp: ordered_from_def dest: leD)
  from sift_flipped [OF this] Suc.prems(2) have h: "ordered_from (\<lambda>x y. lt y x) k ?h" "mset ?h = mset h" by simp_all
  have "length ?h = length h" using h(2) by (rule mset_eq_length)
  with h Suc.IH [of ?h] Suc.prems(2) show ?case
    by (subst heapify_loop.simps) (simp add: heap_sift_down_ok)
qed

lemma sort_loop_ok:
  "heap_ordered (\<lambda>x y. lt y x) h \<Longrightarrow> sorted_wrt (\<lambda>x y. \<not> lt y x) t \<Longrightarrow> \<forall>x \<in> set h. \<forall>y \<in> set t. \<not> lt y x \<Longrightarrow>
   \<exists>s. sort_loop lt (a @ h @ t @ b) (length a) (length h) = Some (a @ s @ b) \<and>
     sorted_wrt (\<lambda>x y. \<not> lt y x) s \<and> mset s = mset h + mset t"
proof (induction "length h" arbitrary: h t)
  case (Suc n)
  show ?case
  proof (cases "n = 0")
    case True
    with Suc.hyps(2) obtain x where "h = [x]" by (cases h) auto
    with Suc.prems show ?thesis by (subst sort_loop.simps) (simp add: sorted_wrt_append)
  next
    case False
    then obtain x mid z where h: "h = x # mid @ [z]" and n: "n = Suc (length mid)"
      using Suc.hyps(2) by (cases h; cases "tl h" rule: rev_cases) auto
    let ?h = "sift_down (\<lambda>x y. lt y x) (z # mid) 0"
    have top: "\<not> lt x y" if "y \<in> set h" for y
    proof -
      from that obtain k where "k < length h" "y = h ! k" by (auto simp: in_set_conv_nth)
      with strict_weak_order.ordered_top [OF flip Suc.prems(1), of k] show ?thesis by (simp add: h)
    qed
    have "z # mid = take_out 0 h" by (simp add: take_out_def h butlast_append)
    then have "down_hole (\<lambda>x y. lt y x) 0 (z # mid) 0"
      using strict_weak_order.take_out_down [OF flip Suc.prems(1), of 0] by (simp add: h)
    from sift_flipped [OF this] have s: "heap_ordered (\<lambda>x y. lt y x) ?h" "mset ?h = add_mset z (mset mid)"
      by (simp_all add: heap_ordered_from)
    have l: "length ?h = n" using mset_eq_length [of ?h "z # mid"] s(2) by (simp add: n)
    have set: "set ?h = set (z # mid)" using mset_eq_setD [of ?h "z # mid"] s(2) by simp
    have "swap_at (a @ h @ t @ b) (length a) (length a + length h - 1) = Some (a @ (z # mid) @ x # t @ b)"
      using swap_at_append [of 0 h "length mid + 1" a "t @ b"] by (simp add: h swap_values_def nth_append list_update_append)
    moreover have "heap_sift_down lt (a @ (z # mid) @ x # t @ b) (length a) 0 (length h - 1) = Some (a @ ?h @ x # t @ b)"
      using heap_sift_down_ok [of lt a "z # mid" "x # t @ b" 0] by (simp add: h)
    moreover have "length h > 1" "length h - 1 = length ?h" using l n Suc.hyps(2) by simp_all
    ultimately have unfold: "sort_loop lt (a @ h @ t @ b) (length a) (length h) = sort_loop lt (a @ ?h @ (x # t) @ b) (length a) (length ?h)"
      by (subst sort_loop.simps) simp
    have "sorted_wrt (\<lambda>x y. \<not> lt y x) (x # t)" using Suc.prems(2,3) by (simp add: h)
    moreover have "\<forall>u \<in> set ?h. \<forall>v \<in> set (x # t). \<not> lt v u" using top Suc.prems(3) by (auto simp: set h)
    ultimately have "\<exists>r. sort_loop lt (a @ h @ t @ b) (length a) (length h) = Some (a @ r @ b) \<and>
      sorted_wrt (\<lambda>x y. \<not> lt y x) r \<and> mset r = mset ?h + mset (x # t)"
      using Suc.hyps(1) [OF l [symmetric] s(1), of "x # t"] unfolding unfold by blast
    moreover have "mset ?h + mset (x # t) = mset h + mset t" unfolding s(2) h by simp
    ultimately show ?thesis by (simp only:)
  qed
qed (subst sort_loop.simps, simp)

lemma sort_range_ok:
  assumes "i \<le> j" and "j \<le> length m"
  shows "\<exists>s. sort_range lt m i j = Some (take i m @ s @ drop j m) \<and> sorted_wrt (\<lambda>x y. \<not> lt y x) s \<and> mset s = mset (slice i j m)"
proof -
  let ?a = "take i m" and ?h = "slice i j m" and ?b = "drop j m"
  have m: "m = ?a @ ?h @ ?b" and i: "length ?a = i" and n: "length ?h = j - i"
    using assms by (simp_all add: slice_def) (metis append_take_drop_id drop_drop le_add_diff_inverse2)
  show ?thesis
  proof (cases "j - i \<le> 1")
    case True
    then have "sorted_wrt (\<lambda>x y. \<not> lt y x) ?h" using n by (cases ?h; cases "tl ?h") auto
    with True m show ?thesis by (intro exI [of _ ?h]) (simp add: sort_range_def)
  next
    case False
    have "ordered_from (\<lambda>x y. lt y x) (length ?h div 2) ?h"
      by (auto simp: ordered_from_def heap_parent_def)
    from heapify_loop_ok [OF this, of ?a ?b] False n obtain h' where
      h: "heapify_loop lt m i (j - i) ((j - i) div 2) = Some (?a @ h' @ ?b)" "heap_ordered (\<lambda>x y. lt y x) h'" "mset h' = mset ?h"
      using i m by auto
    have "length h' = j - i" using mset_eq_length [OF h(3)] n by simp
    with sort_loop_ok [OF h(2), of "[]" ?a ?b] h i False show ?thesis by (auto simp: sort_range_def)
  qed
qed

end

section \<open>Searching\<close>

text \<open>The binary search finds the border of any range that its predicate divides in two.\<close>

lemma border_found:
  assumes "i + n \<le> length m" and "\<And>a b. i \<le> a \<Longrightarrow> a \<le> b \<Longrightarrow> b < i + n \<Longrightarrow> compare (m ! b) v \<Longrightarrow> compare (m ! a) v"
  shows "\<exists>r. range_lower_bound_loop compare m i v n = Some r \<and> i \<le> r \<and> r \<le> i + n \<and>
    (\<forall>k. i \<le> k \<and> k < i + n \<longrightarrow> (k < r \<longleftrightarrow> compare (m ! k) v))"
  using assms
proof (induction n arbitrary: i rule: less_induct)
  case (less n)
  show ?case
  proof (cases "n = 0")
    case False
    define h where "h = n div 2"
    have h: "h < n" using False by (simp add: h_def)
    have step: "range_lower_bound_loop compare m i v n =
        (if compare (m ! (i + h)) v then range_lower_bound_loop compare m (i + h + 1) v (n - (h + 1))
         else range_lower_bound_loop compare m i v h)"
      using False h less.prems(1) by (subst range_lower_bound_loop.simps) (simp add: ld_def h_def Let_def)
    show ?thesis
    proof (cases "compare (m ! (i + h)) v")
      case True
      have "\<exists>r. range_lower_bound_loop compare m (i + h + 1) v (n - (h + 1)) = Some r \<and> i + h + 1 \<le> r \<and> r \<le> i + h + 1 + (n - (h + 1)) \<and>
        (\<forall>k. i + h + 1 \<le> k \<and> k < i + h + 1 + (n - (h + 1)) \<longrightarrow> (k < r \<longleftrightarrow> compare (m ! k) v))"
      proof (rule less.IH)
        show "i + h + 1 + (n - (h + 1)) \<le> length m" using h less.prems(1) by simp
        show "i + h + 1 \<le> a \<Longrightarrow> a \<le> b \<Longrightarrow> b < i + h + 1 + (n - (h + 1)) \<Longrightarrow> compare (m ! b) v \<Longrightarrow> compare (m ! a) v" for a b
          using less.prems(2) [of a b] by simp
      qed (use h in simp)
      then obtain r where r: "range_lower_bound_loop compare m (i + h + 1) v (n - (h + 1)) = Some r" "i + h + 1 \<le> r" "r \<le> i + n"
          "\<And>k. i + h + 1 \<le> k \<Longrightarrow> k < i + n \<Longrightarrow> k < r \<longleftrightarrow> compare (m ! k) v"
        using h by auto
      have "k < r \<longleftrightarrow> compare (m ! k) v" if "i \<le> k" "k < i + n" for k
        using r(2) r(4) [of k] less.prems(2) [of k "i + h"] that True h by (cases "k \<le> i + h") auto
      with r step True show ?thesis by (intro exI [of _ r]) simp
    next
      case False
      have "\<exists>r. range_lower_bound_loop compare m i v h = Some r \<and> i \<le> r \<and> r \<le> i + h \<and>
        (\<forall>k. i \<le> k \<and> k < i + h \<longrightarrow> (k < r \<longleftrightarrow> compare (m ! k) v))"
      proof (rule less.IH [OF h])
        show "i + h \<le> length m" using h less.prems(1) by simp
        show "i \<le> a \<Longrightarrow> a \<le> b \<Longrightarrow> b < i + h \<Longrightarrow> compare (m ! b) v \<Longrightarrow> compare (m ! a) v" for a b
          using less.prems(2) [of a b] h by simp
      qed
      then obtain r where r: "range_lower_bound_loop compare m i v h = Some r" "i \<le> r" "r \<le> i + h"
          "\<And>k. i \<le> k \<Longrightarrow> k < i + h \<Longrightarrow> k < r \<longleftrightarrow> compare (m ! k) v"
        by auto
      have "k < r \<longleftrightarrow> compare (m ! k) v" if "i \<le> k" "k < i + n" for k
        using r(3) r(4) [of k] less.prems(2) [of "i + h" k] that False by (cases "k < i + h") auto
      with r step False h show ?thesis by (intro exI [of _ r]) simp
    qed
  qed (subst range_lower_bound_loop.simps, auto)
qed

lemma upper_bound_loop_lower: "range_upper_bound_loop compare m i v n = range_lower_bound_loop (\<lambda>x v. \<not> compare v x) m i v n"
proof (induction compare m i v n rule: range_upper_bound_loop.induct)
  case (1 compare m i v n)
  then show ?case
    by (cases "i + n div 2 < length m"; subst range_upper_bound_loop.simps; subst range_lower_bound_loop.simps) (simp_all add: ld_def Let_def)
qed

context strict_weak_order
begin

lemma ordered_slice:
  assumes "sorted_wrt (\<lambda>x y. \<not> lt y x) (slice i j m)" and "j \<le> length m" and "i \<le> a" "a \<le> b" "b < j"
  shows "\<not> lt (m ! b) (m ! a)"
proof (cases "a = b")
  case False
  with assms sorted_wrt_nth_less [OF assms(1), of "a - i" "b - i"] show ?thesis by simp
qed (simp add: irrefl)

lemma search_ok:
  assumes "i \<le> j" and "j \<le> length m" and ord: "sorted_wrt (\<lambda>x y. \<not> lt y x) (slice i j m)"
  shows "\<exists>lo hi. range_lower_bound lt m i j v = Some lo \<and> range_upper_bound lt m i j v = Some hi \<and> i \<le> lo \<and> lo \<le> hi \<and> hi \<le> j \<and>
    {k \<in> {i..<j}. lt (m ! k) v} = {i..<lo} \<and> {k \<in> {i..<j}. lt v (m ! k)} = {hi..<j} \<and>
    binary_search lt m i j v = Some (\<exists>x \<in> set (slice i j m). same_key lt x v)"
proof -
  note mono = ordered_slice [OF ord assms(2)]
  obtain lo where lo: "range_lower_bound lt m i j v = Some lo" "i \<le> lo" "lo \<le> j"
      "\<And>k. i \<le> k \<Longrightarrow> k < j \<Longrightarrow> k < lo \<longleftrightarrow> lt (m ! k) v"
    using border_found [of i "j - i" m lt v] assms mono weak by (auto simp: range_lower_bound_def) blast
  obtain hi where hi: "range_upper_bound lt m i j v = Some hi" "i \<le> hi" "hi \<le> j"
      "\<And>k. i \<le> k \<Longrightarrow> k < j \<Longrightarrow> k < hi \<longleftrightarrow> \<not> lt v (m ! k)"
    using border_found [of i "j - i" m "\<lambda>x v. \<not> lt v x" v] assms mono weak
    by (auto simp: range_upper_bound_def upper_bound_loop_lower) blast
  have le: "lo \<le> hi"
  proof (rule ccontr)
    assume "\<not> lo \<le> hi"
    with lo(3) lo(4) [of hi] hi(2) hi(4) [of hi] show False using asym by auto
  qed
  have search: "binary_search lt m i j v = Some (lo \<noteq> j \<and> \<not> lt v (m ! lo))"
    using lo(1,3) assms(2) by (auto simp: binary_search_def ld_def)
  have "(lo \<noteq> j \<and> \<not> lt v (m ! lo)) \<longleftrightarrow> (\<exists>x \<in> set (slice i j m). same_key lt x v)"
  proof
    assume a: "lo \<noteq> j \<and> \<not> lt v (m ! lo)"
    with lo(2,3) lo(4) [of lo] have "same_key lt (m ! lo) v" "lo \<in> {i..<j}" by (simp_all add: same_key_def)
    then show "\<exists>x \<in> set (slice i j m). same_key lt x v" unfolding set_slice [OF assms(2)] by blast
  next
    assume "\<exists>x \<in> set (slice i j m). same_key lt x v"
    then obtain k where k: "i \<le> k" "k < j" "same_key lt (m ! k) v" by (auto simp: set_slice [OF assms(2)])
    then have "lo \<le> k" using lo(4) [of k] by (simp add: same_key_def not_less [symmetric])
    with k lo(2) mono [of lo k] weak [of v "m ! lo" "m ! k"] show "lo \<noteq> j \<and> \<not> lt v (m ! lo)"
      by (auto simp: same_key_def)
  qed
  with search have "binary_search lt m i j v = Some (\<exists>x \<in> set (slice i j m). same_key lt x v)" by simp
  moreover have "{k \<in> {i..<j}. lt (m ! k) v} = {i..<lo}"
    using lo(3) by (auto simp: lo(4) [symmetric])
  moreover have "lt v (m ! k) \<longleftrightarrow> hi \<le> k" if "i \<le> k" "k < j" for k
    using hi(4) [OF that] by auto
  then have "{k \<in> {i..<j}. lt v (m ! k)} = {hi..<j}" using hi(2) by auto
  ultimately show ?thesis using lo(1,2) hi(1,3) le by blast
qed

end

section \<open>Extrema\<close>

text \<open>The first of the least elements.\<close>

definition first_best :: "('a \<Rightarrow> 'a \<Rightarrow> bool) \<Rightarrow> 'a list \<Rightarrow> nat \<Rightarrow> nat \<Rightarrow> nat \<Rightarrow> bool" where
  "first_best lt m i j r \<longleftrightarrow> i \<le> r \<and> r < j \<and> (\<forall>k \<in> {i..<j}. \<not> lt (m ! k) (m ! r)) \<and> (\<forall>k \<in> {i..<r}. lt (m ! r) (m ! k))"

context strict_weak_order
begin

lemma first_best_step:
  assumes b: "first_best lt m i j r"
  shows "first_best lt m i (Suc j) (if lt (m ! j) (m ! r) then j else r)"
proof (cases "lt (m ! j) (m ! r)")
  case True
  have "lt (m ! j) (m ! k)" if "i \<le> k" "k < j" for k
    using lt_not_lt [OF True, of "m ! k"] b that by (simp add: first_best_def)
  with True b irrefl asym show ?thesis by (auto simp: first_best_def less_Suc_eq)
next
  case False
  with b show ?thesis by (auto simp: first_best_def less_Suc_eq)
qed

lemma min_element_loop_ok:
  "k \<le> j \<Longrightarrow> j \<le> length m \<Longrightarrow> first_best lt m i k r \<Longrightarrow> \<exists>s. min_element_loop lt m k j r = Some s \<and> first_best lt m i j s"
proof (induction arbitrary: r rule: inc_induct)
  case (step k)
  have "r < length m" using step by (simp add: first_best_def)
  with step.hyps step.prems(1) step.IH [OF step.prems(1) first_best_step [OF step.prems(2)]] show ?case
    by (subst min_element_loop.simps) (simp add: ld_def)
qed (subst min_element_loop.simps, simp)

lemma min_element_ok:
  assumes "i < j" and "j \<le> length m"
  shows "\<exists>r. min_element lt m i j = Some r \<and> first_best lt m i j r"
  using min_element_loop_ok [of "Suc i" j m i i] assms irrefl by (auto simp: min_element_def first_best_def)

end

lemma max_element_min: "max_element lt m i j = min_element (\<lambda>x y. lt y x) m i j"
proof -
  have "max_element_loop lt m i j r = min_element_loop (\<lambda>x y. lt y x) m i j r" for i r
  proof (induction lt m i j r rule: max_element_loop.induct)
    case (1 lt m i j r)
    then show ?case
      by (cases "i < length m"; cases "r < length m"; subst max_element_loop.simps; subst min_element_loop.simps) (simp_all add: ld_def)
  qed
  then show ?thesis by (simp add: max_element_def min_element_def)
qed

section \<open>Properties of the header\<close>

text \<open>C20: \<open>sort\<close> leaves the range an ordered permutation of itself for any strict weak order, and touches
  nothing outside it.\<close>

theorem sort_sorts:
  assumes "strict_weak_order lt" and "i \<le> j" and "j \<le> length m"
  shows "\<exists>xs. sort_range lt m i j = Some (take i m @ xs @ drop j m) \<and>
    sorted_wrt (\<lambda>x y. \<not> lt y x) xs \<and> mset xs = mset (slice i j m)"
  by (rule strict_weak_order.sort_range_ok [OF assms])

theorem sort_sorts_witness:
  "\<exists>xs. sort_range castle_less [9, 3, 1, 2, 0 :: nat] 1 4 = Some ([9] @ xs @ [0]) \<and> sorted xs \<and> mset xs = {#3, 1, 2#}"
  using sort_sorts [OF min_order.strict_weak_order_axioms, of 1 4 "[9, 3, 1, 2, 0 :: nat]"]
  by (simp add: slice_def sorted_less add_mset_commute)

text \<open>C21: in an ordered range \<open>lower_bound\<close> returns the border between the elements before the value and the
  others, \<open>upper_bound\<close> the border before those after it, and \<open>binary_search\<close> tells whether a value
  equivalent to it is present.\<close>

theorem searches_locate:
  assumes "strict_weak_order lt" and "i \<le> j" and "j \<le> length m" and "sorted_wrt (\<lambda>x y. \<not> lt y x) (slice i j m)"
  shows "\<exists>lo hi. range_lower_bound lt m i j v = Some lo \<and> range_upper_bound lt m i j v = Some hi \<and> i \<le> lo \<and> lo \<le> hi \<and> hi \<le> j \<and>
    {k \<in> {i..<j}. lt (m ! k) v} = {i..<lo} \<and> {k \<in> {i..<j}. lt v (m ! k)} = {hi..<j} \<and>
    binary_search lt m i j v = Some (\<exists>x \<in> set (slice i j m). same_key lt x v)"
  by (rule strict_weak_order.search_ok [OF assms])

theorem searches_locate_witness:
  "\<exists>lo hi. range_lower_bound castle_less [1, 3, 3, 5 :: nat] 0 4 3 = Some lo \<and> range_upper_bound castle_less [1, 3, 3, 5 :: nat] 0 4 3 = Some hi"
  using searches_locate [OF min_order.strict_weak_order_axioms, of 0 4 "[1, 3, 3, 5 :: nat]" 3]
  by (auto simp: slice_def castle_less_def)

lemma unique_ok:
  assumes "i \<le> j" and "j \<le> length m"
  shows "\<exists>m'. unique (=) m i j = Some (m', i + length (remdups_adj (slice i j m))) \<and> length m' = length m \<and>
     take (i + length (remdups_adj (slice i j m))) m' = take i m @ remdups_adj (slice i j m) \<and> drop j m' = drop j m"
proof (cases "i = j")
  case False
  with assms have cons: "slice i j m = m ! i # slice (Suc i) j m" by (simp add: slice_step)
  from False assms unique_loop_ok [of "Suc i" j m i _ "(=)", OF _ _ _ refl] show ?thesis
    unfolding cons thin_remdups_adj [symmetric] by (simp add: unique_def take_Suc_conv_app_nth)
qed (simp add: unique_def)

text \<open>C22: the scanning, comparing, copying, filling and compacting algorithms compute the list functions of
  their names on the range \<open>[i, j)\<close>, return the position their loops end at, and change nothing outside their target.
  A copy may overlap its source as long as it does not begin after the source's start inside it, in which case
  a forward copy would overwrite what it has still to read.  A value given to \<open>replace\<close> or \<open>remove\<close> by reference
  is not an element of the range.\<close>

theorem range_algorithms:
  assumes "i \<le> j" and "j \<le> length m" and "i2 \<le> j2" and "j2 \<le> length n"
    and "d + (j - i) \<le> length m" and "d \<notin> {i<..<j}" and "steady m i j old_value a" and "steady m i j new_value b"
  shows "find_if p m i j = Some (i + length (takeWhile (\<lambda>x. \<not> p x) (slice i j m))) \<and>
    find_if_not p m i j = Some (i + length (takeWhile p (slice i j m))) \<and>
    find_value m i j v = Some (i + length (takeWhile (\<lambda>x. x \<noteq> v) (slice i j m))) \<and>
    count_if p m i j = Some (length (filter p (slice i j m))) \<and>
    all_of p m i j = Some (list_all p (slice i j m)) \<and>
    any_of p m i j = Some (list_ex p (slice i j m)) \<and>
    none_of p m i j = Some (\<not> list_ex p (slice i j m)) \<and>
    equal_checked q m i j n i2 j2 = Some (list_all2 q (slice i j m) (slice i2 j2 n)) \<and>
    mismatch_checked q m i j n i2 j2 =
      (let k = length (takeWhile (\<lambda>(x, y). q x y) (zip (slice i j m) (slice i2 j2 n))) in Some (i + k, i2 + k)) \<and>
    (i2 + (j - i) \<le> length n \<longrightarrow>
      equal_unchecked q m i j n i2 = Some (list_all2 q (slice i j m) (slice i2 (i2 + (j - i)) n)) \<and>
      mismatch_unchecked q m i j n i2 =
        (let k = length (takeWhile (\<lambda>(x, y). q x y) (zip (slice i j m) (slice i2 (i2 + (j - i)) n))) in Some (i + k, i2 + k))) \<and>
    copy m i j d = Some (splice d (slice i j m) m, d + (j - i)) \<and>
    copy_n m i (int (j - i)) d = Some (splice d (slice i j m) m, d + (j - i)) \<and>
    copy_if p m i j d =
      Some (splice d (filter p (slice i j m)) m, d + length (filter p (slice i j m))) \<and>
    transform f m i j d = Some (splice d (map f (slice i j m)) m, d + (j - i)) \<and>
    (i3 + (j - i) \<le> length m \<and> d \<notin> {i3<..<i3 + (j - i)} \<longrightarrow>
      transform2 g m i j i3 d = Some (splice d (map2 g (slice i j m) (slice i3 (i3 + (j - i)) m)) m, d + (j - i))) \<and>
    fill_range m i j v = Some (splice i (replicate (j - i) v) m) \<and>
    fill_n m i (int (j - i)) v = Some (splice i (replicate (j - i) v) m, j) \<and>
    generate m i j next_value s = Some (splice i (outputs next_value s (j - i)) m) \<and>
    replace_if p m i j v = Some (splice i (map (\<lambda>x. if p x then v else x) (slice i j m)) m) \<and>
    replace_value m i j old_value new_value = Some (splice i (map (\<lambda>x. if x = a then b else x) (slice i j m)) m) \<and>
    (\<exists>m'. remove_if p m i j = Some (m', i + length (filter (\<lambda>x. \<not> p x) (slice i j m))) \<and> length m' = length m \<and>
       take (i + length (filter (\<lambda>x. \<not> p x) (slice i j m))) m' = take i m @ filter (\<lambda>x. \<not> p x) (slice i j m) \<and>
       drop j m' = drop j m) \<and>
    (\<exists>m'. remove_value m i j old_value = Some (m', i + length (filter (\<lambda>x. x \<noteq> a) (slice i j m))) \<and> length m' = length m \<and>
       take (i + length (filter (\<lambda>x. x \<noteq> a) (slice i j m))) m' = take i m @ filter (\<lambda>x. x \<noteq> a) (slice i j m) \<and>
       drop j m' = drop j m) \<and>
    (\<exists>m'. unique (=) m i j = Some (m', i + length (remdups_adj (slice i j m))) \<and> length m' = length m \<and>
       take (i + length (remdups_adj (slice i j m))) m' = take i m @ remdups_adj (slice i j m) \<and> drop j m' = drop j m)"
proof -
  note len = assms(1,2)
  have d: "d \<le> i \<or> j \<le> d" using assms(6) by auto
  have own: "i + (j - i) \<le> length m" "i \<le> i \<or> j \<le> i" and ij: "i + (j - i) = j" using len by simp_all
  note moved = transform_ok [OF len assms(5) d] and same = transform_ok [OF len own]
  have other: "equal_unchecked q m i j n i2 = Some (list_all2 q (slice i j m) (slice i2 (i2 + (j - i)) n)) \<and>
      mismatch_unchecked q m i j n i2 =
        (let k = length (takeWhile (\<lambda>(x, y). q x y) (zip (slice i j m) (slice i2 (i2 + (j - i)) n))) in Some (i + k, i2 + k))"
    if "i2 + (j - i) \<le> length n"
    using equal_unchecked_ok [OF own(1) that, of q] mismatch_unchecked_ok [OF own(1) that, of q] by (simp add: ij)
  have two: "transform2 g m i j i3 d = Some (splice d (map2 g (slice i j m) (slice i3 (i3 + (j - i)) m)) m, d + (j - i))"
    if "i3 + (j - i) \<le> length m" "d \<notin> {i3<..<i3 + (j - i)}"
    using transform2_ok [OF own(1) that(1) assms(5), of g] d that(2) by (auto simp: ij)
  have removed: "\<exists>m'. remove_value m i j old_value = Some (m', i + length (filter (\<lambda>x. x \<noteq> a) (slice i j m))) \<and> length m' = length m \<and>
       take (i + length (filter (\<lambda>x. x \<noteq> a) (slice i j m))) m' = take i m @ filter (\<lambda>x. x \<noteq> a) (slice i j m) \<and>
       drop j m' = drop j m"
    using remove_if_ok [OF len refl, of "\<lambda>x. x = a"] by (simp add: remove_value_if [OF len assms(7)])
  have replaced: "replace_value m i j old_value new_value = Some (splice i (map (\<lambda>x. if x = a then b else x) (slice i j m)) m)"
    using same by (simp add: replace_value_if [OF len order_refl assms(7,8)] replace_if_transform)
  have filled: "fill_n m i (int (j - i)) v = Some (splice i (replicate (j - i) v) m, j)"
    using same unfolding fill_n_transform ij by (simp add: map_replicate_const len)
  have copied: "copy_n m i (int (j - i)) d = Some (splice d (slice i j m) m, d + (j - i))"
    using moved unfolding copy_n_copy ij copy_transform by simp
  show ?thesis
    using find_if_ok [OF len] count_if_loop_ok [OF len] all_of_ok [OF len] any_of_ok [OF len] equal_checked_ok [OF assms(1-4)]
      mismatch_checked_ok [OF assms(1-4)] generate_ok [OF own(1), of next_value s]
      moved copy_if_ok [OF len assms(5) d] remove_if_ok [OF len refl] unique_ok [OF len] same len other two removed replaced filled copied
    by (simp add: count_if_def none_of_def find_if_not_def find_value_def copy_transform replace_if_transform fill_range_transform
        map_replicate_const Let_def)
qed

theorem range_algorithms_witness:
  "copy [1, 2, 3, 4, 5 :: nat] 1 4 0 = Some ([2, 3, 4, 4, 5], 3) \<and> count_if even [1, 2, 3, 4, 5 :: nat] 1 4 = Some 2 \<and>
   replace_value [1, 2, 3, 4, 5 :: nat] 1 4 (Temporary 3) (Element 0) = Some [1, 2, 1, 4, 5]"
proof -
  let ?m = "[1, 2, 3, 4, 5 :: nat]"
  have pre: "(1 :: nat) \<le> 4" "4 \<le> length ?m" "(0 :: nat) \<le> 0" "0 \<le> length ([] :: nat list)" "0 + (4 - 1) \<le> length ?m"
    "(0 :: nat) \<notin> {1<..<4}" "steady ?m 1 4 (Temporary 3) 3" "steady ?m 1 4 (Element 0) 1" by simp_all
  note facts = range_algorithms [OF pre, where p = even and q = "\<lambda>_ _. True" and v = 0 and f = id and g = "\<lambda>x _. x" and ?i3.0 = 0
      and next_value = "\<lambda>s :: unit. (0, s)" and s = "()"]
  have "copy ?m 1 4 0 = Some (splice 0 (slice 1 4 ?m) ?m, 0 + (4 - 1))" using facts by blast
  moreover have "count_if even ?m 1 4 = Some (length (filter even (slice 1 4 ?m)))" using facts by blast
  moreover have "replace_value ?m 1 4 (Temporary 3) (Element 0) = Some (splice 1 (map (\<lambda>x. if x = 3 then 1 else x) (slice 1 4 ?m)) ?m)"
    using facts by blast
  ultimately show ?thesis by (simp add: slice_def splice_def)
qed

end
