(* ===== verification/Bits.thy ===== *)
theory Bits
  imports Prelude
begin

text \<open>
  The bit utilities of \<open>castle/bit\<close>.  A function template over the integer types works on the unsigned type
  of the same width, so it is a function on words; a signed argument is the same bits.  An undefined
  shift is \<open>None\<close>.  An operand narrower than 32 bits is promoted to \<open>int\<close>, so it may be shifted by less
  than 32 places, to the left only as long as its value fits 32 bits.
\<close>

section \<open>Single bits and masks\<close>

definition bit_test :: "'w::len word \<Rightarrow> u32 \<Rightarrow> bool" where
  "bit_test v index = (if unat index \<ge> LENGTH('w) then False else drop_bit (unat index) v AND 1 \<noteq> 0)"

definition bit_set :: "'w::len word \<Rightarrow> u32 \<Rightarrow> 'w word" where
  "bit_set v index = (if unat index \<ge> LENGTH('w) then v else v OR push_bit (unat index) 1)"

definition bit_clear :: "'w::len word \<Rightarrow> u32 \<Rightarrow> 'w word" where
  "bit_clear v index = (if unat index \<ge> LENGTH('w) then v else v AND NOT (push_bit (unat index) 1))"

definition bit_toggle :: "'w::len word \<Rightarrow> u32 \<Rightarrow> 'w word" where
  "bit_toggle v index = (if unat index \<ge> LENGTH('w) then v else v XOR push_bit (unat index) 1)"

definition shl :: "'w::len word \<Rightarrow> nat \<Rightarrow> 'w word option" where
  "shl v n = (if n < LENGTH('w) \<or> (n < 32 \<and> unat v * 2 ^ n < 2 ^ 32) then Some (push_bit n v) else None)"

definition shr :: "'w::len word \<Rightarrow> nat \<Rightarrow> 'w word option" where
  "shr v n = (if n < LENGTH('w) \<or> n < 32 then Some (drop_bit n v) else None)"

definition single_bit_mask :: "u32 \<Rightarrow> 'w::len word option" where
  "single_bit_mask index = shl 1 (unat index)"

definition low_bits_mask :: "u32 \<Rightarrow> 'w::len word option" where
  "low_bits_mask bits = (if unat bits \<ge> LENGTH('w) then Some (NOT 0) else do { v \<leftarrow> shl 1 (unat bits); Some (v - 1) })"

definition high_bits_mask :: "u32 \<Rightarrow> 'w::len word option" where
  "high_bits_mask bits =
     (if bits = 0 then Some 0
      else if unat bits \<ge> LENGTH('w) then Some (NOT 0)
      else shl (NOT 0) (LENGTH('w) - unat bits))"

definition range_mask :: "u32 \<Rightarrow> u32 \<Rightarrow> 'w::len word option" where
  "range_mask start bits = do { v \<leftarrow> low_bits_mask bits; shl v (unat start) }"

section \<open>Counting\<close>

definition popcount :: "u64 \<Rightarrow> u32" where
  "popcount v =
     (let x = v;
          x = x - (drop_bit 1 x AND 0x5555555555555555);
          x = (x AND 0x3333333333333333) + (drop_bit 2 x AND 0x3333333333333333);
          x = (x + drop_bit 4 x) AND 0x0F0F0F0F0F0F0F0F
      in ucast (drop_bit 56 (x * 0x0101010101010101)))"

definition count_ones :: "'w::len word \<Rightarrow> u32" where
  "count_ones v = popcount (ucast v)"

definition count_zeros :: "'w::len word \<Rightarrow> u32" where
  "count_zeros v = of_nat LENGTH('w) - popcount (ucast v)"

definition parity :: "'w::len word \<Rightarrow> u32" where
  "parity v = popcount (ucast v) AND 1"

function clz_loop :: "nat \<Rightarrow> 'w::len word \<Rightarrow> u32 \<Rightarrow> u32 option" where
  "clz_loop i v count =
     (if i > 0 then do {
        high \<leftarrow> shr v i;
        if high = 0 then clz_loop (i div 2) v (count + of_nat i) else clz_loop (i div 2) high count }
      else Some count)"
  by pat_completeness auto
termination by (relation "measure (\<lambda>(i, _, _). i)") auto

definition count_leading_zeros :: "'w::len word \<Rightarrow> u32 option" where
  "count_leading_zeros v = (if v = 0 then Some (of_nat LENGTH('w)) else clz_loop (LENGTH('w) div 2) v 0)"

function ctz_loop :: "nat \<Rightarrow> 'w::len word \<Rightarrow> u32 \<Rightarrow> u32 option" where
  "ctz_loop i v count =
     (if i > 0 then do {
        one \<leftarrow> shl 1 i;
        if v AND (one - 1) = 0 then do { high \<leftarrow> shr v i; ctz_loop (i div 2) high (count + of_nat i) }
        else ctz_loop (i div 2) v count }
      else Some count)"
  by pat_completeness auto
termination by (relation "measure (\<lambda>(i, _, _). i)") auto

definition count_trailing_zeros :: "'w::len word \<Rightarrow> u32 option" where
  "count_trailing_zeros v = (if v = 0 then Some (of_nat LENGTH('w)) else ctz_loop (LENGTH('w) div 2) v 0)"

definition bit_width :: "'w::len word \<Rightarrow> u32 option" where
  "bit_width v = (if v = 0 then Some 0 else do { n \<leftarrow> count_leading_zeros v; Some (of_nat LENGTH('w) - n) })"

definition log2_floor :: "'w::len word \<Rightarrow> u32 option" where
  "log2_floor v = (if v = 0 then Some 0 else do { n \<leftarrow> bit_width v; Some (n - 1) })"

section \<open>Fields, extreme bits and powers of two\<close>

definition extract_lowest_set_bit :: "'w::len word \<Rightarrow> 'w word" where
  "extract_lowest_set_bit v = v AND - v"

text \<open>The loop that copies the highest set bit into all bits below it.\<close>

function smear_loop :: "nat \<Rightarrow> 'w::len word \<Rightarrow> 'w word" where
  "smear_loop i v = (if 0 < i \<and> i < LENGTH('w) then smear_loop (i * 2) (v OR drop_bit i v) else v)"
  by pat_completeness auto
termination by (relation "measure (\<lambda>(i, _ :: 'w::len word). LENGTH('w) - i)") auto

definition extract_highest_set_bit :: "'w::len word \<Rightarrow> 'w word" where
  "extract_highest_set_bit v = (if v = 0 then 0 else let v = smear_loop 1 v in v - drop_bit 1 v)"

definition extract_field :: "'w::len word \<Rightarrow> u32 \<Rightarrow> u32 \<Rightarrow> 'w word option" where
  "extract_field v start width =
     (if width = 0 \<or> unat start \<ge> LENGTH('w) then Some 0
      else if unat width \<ge> LENGTH('w) then shr v (unat start)
      else do { one \<leftarrow> shl 1 (unat width); high \<leftarrow> shr v (unat start); Some (high AND (one - 1)) })"

definition insert_field :: "'w::len word \<Rightarrow> 'w word \<Rightarrow> u32 \<Rightarrow> u32 \<Rightarrow> 'w word option" where
  "insert_field dest field start width =
     (if width = 0 \<or> unat start \<ge> LENGTH('w) then Some dest
      else do {
        mask \<leftarrow> (if unat width \<ge> LENGTH('w) then Some (NOT 0) else do { one \<leftarrow> shl 1 (unat width); Some (one - 1) });
        hole \<leftarrow> shl mask (unat start);
        field \<leftarrow> shl (field AND mask) (unat start);
        Some (dest AND NOT hole OR field) })"

definition is_even :: "'w::len word \<Rightarrow> bool" where "is_even v = (v AND 1 = 0)"
definition is_odd :: "'w::len word \<Rightarrow> bool" where "is_odd v = (v AND 1 \<noteq> 0)"

text \<open>The function is generic in the integer type: \<open>is_signed\<close> says whether the type \<open>T\<close> of the value is a signed one,
  for which the guard \<open>v < 0\<close> can hold.\<close>

definition bit_is_power_of_two :: "bool \<Rightarrow> 'w::len word \<Rightarrow> bool" where
  "bit_is_power_of_two is_signed v = (if is_signed \<and> sint v < 0 then False else v \<noteq> 0 \<and> v AND (v - 1) = 0)"

definition next_power_of_two :: "'w::len word \<Rightarrow> 'w word" where
  "next_power_of_two v = (if v = 0 then 1 else smear_loop 1 (v - 1) + 1)"

definition previous_power_of_two :: "'w::len word \<Rightarrow> 'w word" where
  "previous_power_of_two v = (if v = 0 then 0 else let v = smear_loop 1 v in v - drop_bit 1 v)"

definition align_up :: "'w::len word \<Rightarrow> 'w word \<Rightarrow> 'w word" where
  "align_up v alignment = (let mask = alignment - 1 in (v + mask) AND NOT mask)"

definition align_down :: "'w::len word \<Rightarrow> 'w word \<Rightarrow> 'w word" where
  "align_down v alignment = (let mask = alignment - 1 in v AND NOT mask)"

definition is_aligned :: "'w::len word \<Rightarrow> 'w word \<Rightarrow> bool" where
  "is_aligned v alignment = (let mask = alignment - 1 in v AND mask = 0)"

section \<open>Rotation and reversal\<close>

definition bit_rotate_left :: "'w::len word \<Rightarrow> u32 \<Rightarrow> 'w word option" where
  "bit_rotate_left v shift =
     (let shift = unat shift mod LENGTH('w) in
      if shift = 0 then Some v
      else do { high \<leftarrow> shl v shift; low \<leftarrow> shr v (LENGTH('w) - shift); Some (high OR low) })"

definition bit_rotate_right :: "'w::len word \<Rightarrow> u32 \<Rightarrow> 'w word option" where
  "bit_rotate_right v shift =
     (let shift = unat shift mod LENGTH('w) in
      if shift = 0 then Some v
      else do { low \<leftarrow> shr v shift; high \<leftarrow> shl v (LENGTH('w) - shift); Some (low OR high) })"

text \<open>One line of the reversals: the bits under the mask move right by \<open>n\<close>, the others left.\<close>

definition swap_groups :: "nat \<Rightarrow> 'w::len word \<Rightarrow> 'w word \<Rightarrow> 'w word \<Rightarrow> 'w word" where
  "swap_groups n high low v = drop_bit n (v AND high) OR push_bit n (v AND low)"

definition reverse_bits8 :: "u8 \<Rightarrow> u8" where
  "reverse_bits8 n =
     (let n = swap_groups 4 0xF0 0x0F n; n = swap_groups 2 0xCC 0x33 n; n = swap_groups 1 0xAA 0x55 n in n)"

definition reverse_bits16 :: "u16 \<Rightarrow> u16" where
  "reverse_bits16 n =
     (let n = swap_groups 8 0xFF00 0x00FF n; n = swap_groups 4 0xF0F0 0x0F0F n; n = swap_groups 2 0xCCCC 0x3333 n;
          n = swap_groups 1 0xAAAA 0x5555 n in n)"

definition reverse_bits32 :: "u32 \<Rightarrow> u32" where
  "reverse_bits32 n =
     (let n = swap_groups 16 0xFFFF0000 0x0000FFFF n; n = swap_groups 8 0xFF00FF00 0x00FF00FF n;
          n = swap_groups 4 0xF0F0F0F0 0x0F0F0F0F n; n = swap_groups 2 0xCCCCCCCC 0x33333333 n;
          n = swap_groups 1 0xAAAAAAAA 0x55555555 n in n)"

definition reverse_bits64 :: "u64 \<Rightarrow> u64" where
  "reverse_bits64 n =
     (let n = swap_groups 32 0xFFFFFFFF00000000 0x00000000FFFFFFFF n; n = swap_groups 16 0xFFFF0000FFFF0000 0x0000FFFF0000FFFF n;
          n = swap_groups 8 0xFF00FF00FF00FF00 0x00FF00FF00FF00FF n; n = swap_groups 4 0xF0F0F0F0F0F0F0F0 0x0F0F0F0F0F0F0F0F n;
          n = swap_groups 2 0xCCCCCCCCCCCCCCCC 0x3333333333333333 n; n = swap_groups 1 0xAAAAAAAAAAAAAAAA 0x5555555555555555 n in n)"

definition byte_swap16 :: "u16 \<Rightarrow> u16" where
  "byte_swap16 v = push_bit 8 (v AND 0x00FF) OR drop_bit 8 (v AND 0xFF00)"

definition byte_swap32 :: "u32 \<Rightarrow> u32" where
  "byte_swap32 v =
     (let v = push_bit 8 (v AND 0x00FF00FF) OR drop_bit 8 (v AND 0xFF00FF00);
          v = push_bit 16 (v AND 0x0000FFFF) OR drop_bit 16 (v AND 0xFFFF0000) in v)"

definition byte_swap64 :: "u64 \<Rightarrow> u64" where
  "byte_swap64 v =
     (let v = push_bit 8 (v AND 0x00FF00FF00FF00FF) OR drop_bit 8 (v AND 0xFF00FF00FF00FF00);
          v = push_bit 16 (v AND 0x0000FFFF0000FFFF) OR drop_bit 16 (v AND 0xFFFF0000FFFF0000);
          v = push_bit 32 (v AND 0x00000000FFFFFFFF) OR drop_bit 32 (v AND 0xFFFFFFFF00000000) in v)"

declare clz_loop.simps [simp del] ctz_loop.simps [simp del] smear_loop.simps [simp del]

end
