(* ===== verification/BitsCount.thy ===== *)
theory BitsCount
  imports Bits
begin

text \<open>
  What the bit utilities compute: the population count, the searches for the extreme set bits, the powers
  of two, and the reversals.
\<close>

section \<open>The population count\<close>

text \<open>A number as its bytes, least significant first; the steps of \<open>popcount\<close> work byte by byte.\<close>

definition bytes_value :: "nat list \<Rightarrow> nat" where
  "bytes_value bs = foldr (\<lambda>b n. b + 256 * n) bs 0"

definition repeated :: "nat \<Rightarrow> nat \<Rightarrow> nat" where
  "repeated m c = bytes_value (replicate m c)"

lemma bytes_value_simps [simp]: "bytes_value [] = 0" "bytes_value (b # bs) = b + 256 * bytes_value bs"
  by (simp_all add: bytes_value_def)

lemma repeated_simps [simp]: "repeated 0 c = 0" "repeated (Suc m) c = c + 256 * repeated m c"
  by (simp_all add: repeated_def)

lemma less_exp_bits: "(x :: nat) < 2 ^ j \<longleftrightarrow> (\<forall>n \<ge> j. \<not> bit x n)"
proof
  assume "x < 2 ^ j"
  then have "take_bit j x = x" by (simp add: take_bit_nat_eq_self)
  then show "\<forall>n \<ge> j. \<not> bit x n" by (metis bit_take_bit_iff not_le)
next
  assume "\<forall>n \<ge> j. \<not> bit x n"
  then have "take_bit j x = x" by (intro bit_eqI) (metis bit_take_bit_iff not_le)
  then show "x < 2 ^ j" by (simp add: take_bit_nat_eq_self_iff)
qed

lemma and_less_exp: "(c :: nat) < 2 ^ j \<Longrightarrow> x AND c < 2 ^ j" "(c :: nat) < 2 ^ j \<Longrightarrow> c AND x < 2 ^ j"
  by (auto simp: less_exp_bits bit_and_iff)

lemma bit_byte:
  assumes "lo < 256"
  shows "bit (lo + 256 * hi :: nat) n \<longleftrightarrow> (if n < 8 then bit lo n else bit hi (n - 8))"
proof (cases "n < 8")
  case True
  define k where "k = 7 - n"
  have "(256 :: nat) = 2 ^ n * (2 * 2 ^ k)" using power_add [of "2 :: nat" n "Suc k"] True by (simp add: k_def)
  then have "256 * hi = 2 ^ n * (2 * (2 ^ k * hi))" by (simp only: mult.assoc)
  then have "(lo + 256 * hi) div 2 ^ n = lo div 2 ^ n + 2 * (2 ^ k * hi)"
    by (simp only: div_mult_self2 power_not_zero) simp
  with True show ?thesis by (simp add: bit_iff_odd)
next
  case False
  then have "2 ^ n = (256 :: nat) * 2 ^ (n - 8)" using power_add [of "2 :: nat" 8 "n - 8"] by simp
  then have "(lo + 256 * hi) div 2 ^ n = hi div 2 ^ (n - 8)" using assms by (simp only: div_mult2_eq) simp
  with False show ?thesis by (simp add: bit_iff_odd)
qed

lemma and_byte:
  assumes "lo < 256" and "c < 256"
  shows "(lo + 256 * hi) AND (c + 256 * m) = (lo AND c) + 256 * (hi AND m :: nat)"
proof (rule bit_eqI)
  fix n
  have "lo AND c < 256" using and_less_exp(2) [of lo 8 c] assms(1) by simp
  then show "bit ((lo + 256 * hi) AND (c + 256 * m)) n = bit ((lo AND c) + 256 * (hi AND m)) n"
    using assms by (simp add: bit_and_iff bit_byte)
qed

lemma div_byte_and:
  assumes "lo < 256" and "k + j = 8" and "c < 2 ^ j"
  shows "((lo + 256 * hi) div 2 ^ k) AND (c + 256 * m) = ((lo div 2 ^ k) AND c) + 256 * ((hi div 2 ^ k) AND m :: nat)"
proof (rule bit_eqI)
  fix n
  have c: "c < 256" using assms(2,3) power_increasing [of j 8 "2 :: nat"] by simp
  have "lo div 2 ^ k AND c < 256" using and_less_exp(1) [of c 8] c by simp
  moreover have "bit (x div 2 ^ k) n \<longleftrightarrow> bit x (n + k)" for x n :: nat by (simp add: bit_iff_odd div_mult2_eq [symmetric] power_add mult.commute)
  moreover have "bit c n \<Longrightarrow> n < j" using assms(3) unfolding less_exp_bits by (meson not_le)
  ultimately show "bit (((lo + 256 * hi) div 2 ^ k) AND (c + 256 * m)) n = bit (((lo div 2 ^ k) AND c) + 256 * ((hi div 2 ^ k) AND m)) n"
    using assms c by (auto simp: bit_and_iff bit_byte)
qed

text \<open>The three steps on bytes.\<close>

definition pairs :: "nat \<Rightarrow> nat \<Rightarrow> nat" where
  "pairs m x = x - ((x div 2 ^ 1) AND m)"

definition nibbles :: "nat \<Rightarrow> nat \<Rightarrow> nat" where
  "nibbles m x = (x AND m) + ((x div 2 ^ 2) AND m)"

definition octets :: "nat \<Rightarrow> nat \<Rightarrow> nat" where
  "octets m x = (x + x div 2 ^ 4) AND m"

lemma and_le: "x AND m \<le> (x :: nat)"
proof -
  have "int (x AND m) \<le> int x" by (simp add: of_nat_and_eq and_less_eq)
  then show ?thesis by simp
qed

lemma diff_bytes: "a \<le> b \<Longrightarrow> c \<le> d \<Longrightarrow> (b + 256 * d) - (a + 256 * c) = (b - a) + 256 * (d - c :: nat)"
  by simp

lemma pairs_bytes: "list_all (\<lambda>b. b < 256) bs \<Longrightarrow> pairs (repeated (length bs) 0x55) (bytes_value bs) = bytes_value (map (pairs 0x55) bs)"
proof (induction bs)
  case (Cons b bs)
  let ?m = "repeated (length bs) 0x55"
  have le: "b div 2 ^ 1 AND 0x55 \<le> b" "bytes_value bs div 2 ^ 1 AND ?m \<le> bytes_value bs"
    by (meson and_le div_le_dividend order_trans)+
  have "(b + 256 * bytes_value bs) div 2 ^ 1 AND (0x55 + 256 * ?m) = (b div 2 ^ 1 AND 0x55) + 256 * (bytes_value bs div 2 ^ 1 AND ?m)"
    using Cons.prems by (intro div_byte_and [where j = 7]) simp_all
  then have "pairs (0x55 + 256 * ?m) (b + 256 * bytes_value bs) = pairs 0x55 b + 256 * pairs ?m (bytes_value bs)"
    unfolding pairs_def by (simp only: diff_bytes [OF le])
  with Cons show ?case by simp
qed (simp add: pairs_def)

lemma nibbles_bytes: "list_all (\<lambda>b. b < 256) bs \<Longrightarrow> nibbles (repeated (length bs) 0x33) (bytes_value bs) = bytes_value (map (nibbles 0x33) bs)"
proof (induction bs)
  case (Cons b bs)
  let ?m = "repeated (length bs) 0x33"
  have "(b + 256 * bytes_value bs) div 2 ^ 2 AND (0x33 + 256 * ?m) = (b div 2 ^ 2 AND 0x33) + 256 * (bytes_value bs div 2 ^ 2 AND ?m)"
    using Cons.prems by (intro div_byte_and [where j = 6]) simp_all
  moreover have "(b + 256 * bytes_value bs) AND (0x33 + 256 * ?m) = (b AND 0x33) + 256 * (bytes_value bs AND ?m)"
    using Cons.prems by (intro and_byte) simp_all
  ultimately have "nibbles (0x33 + 256 * ?m) (b + 256 * bytes_value bs) = nibbles 0x33 b + 256 * nibbles ?m (bytes_value bs)"
    unfolding nibbles_def by (simp only: distrib_left ac_simps)
  with Cons show ?case by simp
qed (simp add: nibbles_def)

definition small_nibbles :: "nat \<Rightarrow> bool" where
  "small_nibbles b \<longleftrightarrow> b < 256 \<and> b mod 16 \<le> 4 \<and> b div 16 \<le> 4"

lemma and_15: "x AND 15 = x mod (16 :: nat)"
proof -
  have "mask 4 = (15 :: nat)" by (simp add: mask_eq_exp_minus_1)
  then show ?thesis using take_bit_eq_mask [of 4 x] by (simp add: take_bit_eq_mod)
qed

lemma octets_bytes: "list_all small_nibbles bs \<Longrightarrow> octets (repeated (length bs) 0x0F) (bytes_value bs) = bytes_value (map (octets 0x0F) bs)"
proof (induction bs)
  case (Cons b bs)
  let ?m = "repeated (length bs) 0x0F" and ?n = "bytes_value bs"
  define h where "h = ?n mod 16"
  have "(a + 256 * n) mod 16 = a mod 16" for a n :: nat using mod_mult_self2 [of a 16 "16 * n"] by simp
  then have h: "h \<le> 4" using Cons.prems by (cases bs) (auto simp: h_def small_nibbles_def)
  have b: "b < 256" "b mod 16 \<le> 4" "b div 16 \<le> 4" using Cons.prems by (simp_all add: small_nibbles_def)
  have "(b + 256 * n) + (b + 256 * n) div 2 ^ 4 = (b + b div 2 ^ 4 + 16 * (n mod 16)) + 256 * (n + n div 2 ^ 4)" for n :: nat
  proof -
    define q r z where "q = n div 16" and "r = n mod 16" and "z = b div 16"
    have d: "(b + 256 * n) div 16 = z + 16 * n" using div_mult_self2 [of 16 b "16 * n"] by (simp add: z_def)
    have n: "n = r + 16 * q" by (simp add: q_def r_def)
    have p: "2 ^ 4 = (16 :: nat)" by simp
    show ?thesis unfolding p d q_def [symmetric] r_def [symmetric] z_def [symmetric] by (simp add: n)
  qed
  then have "octets (0x0F + 256 * ?m) (b + 256 * ?n) = ((b + b div 2 ^ 4 + 16 * h) + 256 * (?n + ?n div 2 ^ 4)) AND (0x0F + 256 * ?m)"
    by (simp only: octets_def h_def)
  also have "\<dots> = (b + b div 2 ^ 4 + 16 * h AND 0x0F) + 256 * (?n + ?n div 2 ^ 4 AND ?m)"
  proof (rule and_byte)
    obtain z r where "b div 16 = z" "b mod 16 = r" "b = r + 16 * z" using mod_mult_div_eq [of b 16] by metis
    with b h have "b + b div 16 + 16 * h < 256" by simp
    then show "b + b div 2 ^ 4 + 16 * h < 256" by simp
  qed simp_all
  also have "(b + b div 2 ^ 4 + 16 * h) AND 0x0F = octets 0x0F b"
    unfolding octets_def and_15 by simp
  finally have "octets (0x0F + 256 * ?m) (b + 256 * ?n) = octets 0x0F b + 256 * octets ?m ?n" by (simp only: octets_def)
  with Cons show ?case by simp
qed (simp add: octets_def)

text \<open>The number of ones of a byte.\<close>

definition byte_ones :: "nat \<Rightarrow> nat" where
  "byte_ones b = b mod 2 + b div 2 mod 2 + b div 4 mod 2 + b div 8 mod 2 + b div 16 mod 2 + b div 32 mod 2 + b div 64 mod 2 + b div 128 mod 2"

lemma byte_steps:
  assumes "b < 256"
  shows "octets 0x0F (nibbles 0x33 (pairs 0x55 b)) = byte_ones b \<and> small_nibbles (nibbles 0x33 (pairs 0x55 b)) \<and> pairs 0x55 b < 256"
proof -
  have "list_all (\<lambda>b. octets 0x0F (nibbles 0x33 (pairs 0x55 b)) = byte_ones b \<and> small_nibbles (nibbles 0x33 (pairs 0x55 b)) \<and> pairs 0x55 b < 256) (map nat [0..255])"
    by (simp add: upto.simps numeral_2_eq_2 [symmetric] numeral_3_eq_3 [symmetric] octets_def nibbles_def pairs_def byte_ones_def small_nibbles_def)
  moreover have "b \<in> set (map nat [0..255])" using assms by (auto intro!: image_eqI [of _ _ "int b"])
  ultimately show ?thesis by (simp only: list_all_iff)
qed

lemma repeated_8: "repeated 8 c = c * 0x0101010101010101"
proof -
  have "(8 :: nat) = Suc (Suc (Suc (Suc (Suc (Suc (Suc (Suc 0)))))))" by simp
  then show ?thesis by (simp only: repeated_simps) simp
qed

text \<open>The product with the repeated one gathers the bytes at the top.\<close>

lemma gather:
  assumes "length cs = 8" and "sum_list cs < 256"
  shows "bytes_value cs * repeated 8 1 mod 2 ^ 64 div 2 ^ 56 = sum_list cs"
proof -
  obtain c0 c1 c2 c3 c4 c5 c6 c7 where cs: "cs = [c0, c1, c2, c3, c4, c5, c6, c7]"
    using assms(1) by (auto simp: length_Suc_conv numeral_eq_Suc)
  define low where "low = bytes_value [c0, c0 + c1, c0 + c1 + c2, c0 + c1 + c2 + c3, c0 + c1 + c2 + c3 + c4, c0 + c1 + c2 + c3 + c4 + c5,
     c0 + c1 + c2 + c3 + c4 + c5 + c6]"
  define high where "high = bytes_value [c1 + c2 + c3 + c4 + c5 + c6 + c7, c2 + c3 + c4 + c5 + c6 + c7, c3 + c4 + c5 + c6 + c7,
     c4 + c5 + c6 + c7, c5 + c6 + c7, c6 + c7, c7]"
  have product: "bytes_value cs * repeated 8 1 = (low + 2 ^ 56 * sum_list cs) + 2 ^ 64 * high"
    unfolding repeated_8 by (simp add: cs low_def high_def algebra_simps)
  have "low < 2 ^ 56" using assms(2) by (simp add: cs low_def)
  moreover from this have "low + 2 ^ 56 * sum_list cs < 2 ^ 64" using assms(2) by simp
  ultimately show ?thesis unfolding product by simp
qed

lemma ones_bytes:
  "list_all (\<lambda>b. b < 256) bs \<Longrightarrow> length (filter (bit (bytes_value bs)) [0..<8 * length bs]) = sum_list (map byte_ones bs)"
proof (induction bs)
  case (Cons b bs)
  have range: "[0..<8 * length (b # bs)] = [0..<8] @ map (\<lambda>i. i + 8) [0..<8 * length bs]"
    using map_add_upt [of 8 "8 * length bs"] upt_add_eq_append [of 0 8 "8 * length bs"] by (simp add: add.commute)
  have b: "b < 256" using Cons.prems by simp
  have "filter (bit (bytes_value (b # bs))) [0..<8] = filter (bit b) [0..<8]"
    by (rule filter_cong) (simp_all add: bit_byte [OF b])
  moreover have "filter (bit (bytes_value (b # bs))) (map (\<lambda>i. i + 8) [0..<8 * length bs]) =
      map (\<lambda>i. i + 8) (filter (bit (bytes_value bs)) [0..<8 * length bs])"
    by (simp add: filter_map o_def bit_byte [OF b])
  moreover have "length (filter (bit b) [0..<8]) = byte_ones b"
  proof -
    have "[0..<8] = [0, 1, 2, 3, 4, 5, 6, 7 :: nat]" by (simp add: upt_rec)
    moreover have "x mod 2 = (if odd x then 1 else 0)" for x :: nat by (simp add: odd_iff_mod_2_eq_one)
    ultimately show ?thesis by (simp add: bit_iff_odd byte_ones_def)
  qed
  ultimately show ?case using Cons unfolding range by simp
qed simp

lemma ex_bytes: "n < 256 ^ m \<Longrightarrow> \<exists>bs. length bs = m \<and> list_all (\<lambda>b. b < 256) bs \<and> bytes_value bs = n"
proof (induction m arbitrary: n)
  case (Suc m)
  then have "n div 256 < 256 ^ m" by (simp add: less_mult_imp_div_less mult.commute)
  from Suc.IH [OF this] obtain bs where "length bs = m" "list_all (\<lambda>b. b < 256) bs" "bytes_value bs = n div 256" by blast
  then show ?case by (intro exI [of _ "n mod 256 # bs"]) simp
qed simp

lemma bytes_value_le: "list_all (\<lambda>b. b \<le> c) bs \<Longrightarrow> bytes_value bs \<le> repeated (length bs) c"
  by (induction bs) auto

lemma popcount_ones: "unat (popcount v) = length (filter (bit v) [0..<64])"
proof -
  obtain bs where bs: "length bs = 8" "list_all (\<lambda>b. b < 256) bs" "bytes_value bs = unat v"
    using ex_bytes [of "unat v" 8] unsigned_less [of v] by auto
  define x1 where "x1 = v - (drop_bit 1 v AND 0x5555555555555555)"
  define x2 where "x2 = (x1 AND 0x3333333333333333) + (drop_bit 2 x1 AND 0x3333333333333333)"
  define x3 where "x3 = (x2 + drop_bit 4 x2) AND 0x0F0F0F0F0F0F0F0F"
  define bs1 where "bs1 = map (pairs 0x55) bs"
  define bs2 where "bs2 = map (nibbles 0x33) bs1"
  define bs3 where "bs3 = map (octets 0x0F) bs2"
  have small: "list_all (\<lambda>b. b < 256) bs1" "list_all small_nibbles bs2" "map byte_ones bs = bs3"
    using bs(2) byte_steps by (auto simp: bs1_def bs2_def bs3_def list_all_iff)
  have unat_drop: "unat (drop_bit n x) = unat x div 2 ^ n" for n and x :: u64
    unfolding unat_drop_bit_eq by (rule drop_bit_eq_div)
  have "unat x1 = pairs (repeated 8 0x55) (unat v)"
  proof -
    have "unat (drop_bit 1 v AND 0x5555555555555555) = unat v div 2 ^ 1 AND repeated 8 0x55"
      unfolding unsigned_and_eq unat_drop by (simp add: repeated_8)
    moreover from this have "unat (drop_bit 1 v AND 0x5555555555555555) \<le> unat v" by (metis and_le div_le_dividend order_trans)
    ultimately show ?thesis unfolding x1_def pairs_def by (simp only: unat_sub word_le_nat_alt)
  qed
  then have x1: "unat x1 = bytes_value bs1" using pairs_bytes [OF bs(2)] bs by (simp add: bs1_def)
  have "bytes_value bs2 \<le> repeated (length bs2) 0x44"
  proof (rule bytes_value_le)
    have "b \<le> 0x44" if "small_nibbles b" for b
      using that mod_mult_div_eq [of b 16] unfolding small_nibbles_def by linarith
    with small(2) show "list_all (\<lambda>b. b \<le> 0x44) bs2" by (auto simp: list_all_iff)
  qed
  then have le: "bytes_value bs2 \<le> 0x4444444444444444" using bs(1) by (simp add: bs2_def bs1_def repeated_8)
  have "unat (x1 AND 0x3333333333333333) + unat (drop_bit 2 x1 AND 0x3333333333333333) = nibbles (repeated 8 0x33) (unat x1)"
    unfolding unsigned_and_eq unat_drop nibbles_def by (simp add: repeated_8)
  also have "\<dots> = bytes_value bs2" using nibbles_bytes [OF small(1)] bs(1) by (simp add: x1 bs2_def bs1_def)
  finally have x2: "unat x2 = bytes_value bs2"
    using le unat_add_lem [of "x1 AND 0x3333333333333333" "drop_bit 2 x1 AND 0x3333333333333333"] by (simp add: x2_def)
  have "n + n div 16 < 2 ^ 64" if "n \<le> 0x4444444444444444" for n :: nat using that div_le_dividend [of n 16] by simp
  with le have "unat (x2 + drop_bit 4 x2) = unat x2 + unat x2 div 2 ^ 4"
    using unat_add_lem [of x2 "drop_bit 4 x2"] by (simp add: x2 unat_drop)
  then have "unat x3 = octets (repeated 8 0x0F) (unat x2)"
    unfolding x3_def unsigned_and_eq octets_def by (simp add: repeated_8)
  also have "\<dots> = bytes_value bs3" using octets_bytes [OF small(2)] bs(1) by (simp add: x2 bs3_def bs2_def bs1_def)
  finally have x3: "unat x3 = bytes_value bs3" .
  have ones: "sum_list bs3 = length (filter (bit v) [0..<64])"
  proof -
    have "bit (unat v) = bit v" by (rule ext) (auto simp: bit_unsigned_iff dest: bit_imp_le_length)
    then show ?thesis using ones_bytes [OF bs(2)] bs(1,3) small(3) by simp
  qed
  also have "\<dots> \<le> 64" using length_filter_le [of "bit v" "[0..<64]"] by simp
  finally have few: "sum_list bs3 \<le> 64" .
  have "unat (x3 * 0x0101010101010101) = bytes_value bs3 * repeated 8 1 mod 2 ^ 64"
    by (simp add: unat_word_ariths x3 repeated_8)
  then have "unat (drop_bit 56 (x3 * 0x0101010101010101)) = sum_list bs3"
    unfolding unat_drop using gather [of bs3] few bs(1) by (simp add: bs3_def bs2_def bs1_def)
  with few have "unat (popcount v) = sum_list bs3"
    unfolding popcount_def Let_def x1_def [symmetric] x2_def [symmetric] x3_def [symmetric]
    by (simp only: unsigned_ucast_eq) (simp add: take_bit_nat_eq_self)
  with ones show ?thesis by simp
qed

section \<open>The highest and the lowest set bit\<close>

definition highest_at :: "'w::len word \<Rightarrow> nat \<Rightarrow> bool" where
  "highest_at v n \<longleftrightarrow> bit v n \<and> (\<forall>m > n. \<not> bit v m)"

definition lowest_at :: "'w::len word \<Rightarrow> nat \<Rightarrow> bool" where
  "lowest_at v n \<longleftrightarrow> bit v n \<and> (\<forall>m < n. \<not> bit v m)"

lemma ex_bottom: "v \<noteq> 0 \<Longrightarrow> \<exists>n. lowest_at v n"
proof -
  assume "v \<noteq> 0"
  then obtain n where "bit v n" by (auto simp: bit_eq_iff)
  then show ?thesis unfolding lowest_at_def by (intro exI [of _ "LEAST n. bit v n"]) (metis LeastI not_less_Least)
qed

lemma ex_top: "v \<noteq> (0 :: 'w::len word) \<Longrightarrow> \<exists>n. highest_at v n"
proof -
  assume "v \<noteq> 0"
  then obtain n where "bit v n" by (auto simp: bit_eq_iff)
  moreover have "\<forall>m. bit v m \<longrightarrow> m \<le> LENGTH('w)" by (auto dest: bit_imp_le_length)
  ultimately show ?thesis unfolding highest_at_def by (metis (mono_tags, lifting) Greatest_le_nat GreatestI_nat not_less)
qed

lemma top_drop: "i \<le> n \<Longrightarrow> highest_at v n \<Longrightarrow> highest_at (drop_bit i v) (n - i)"
  by (auto simp: highest_at_def bit_drop_bit_eq)

lemma bottom_drop: "i \<le> n \<Longrightarrow> lowest_at v n \<Longrightarrow> lowest_at (drop_bit i v) (n - i)"
  by (auto simp: lowest_at_def bit_drop_bit_eq)

lemma drop_top:
  assumes "highest_at v n"
  shows "drop_bit i v = 0 \<longleftrightarrow> n < i"
proof
  assume "drop_bit i v = 0"
  then have "\<not> bit (drop_bit i v) (n - i)" by simp
  with assms show "n < i" by (cases "n < i") (auto simp: highest_at_def bit_drop_bit_eq)
next
  assume "n < i"
  with assms show "drop_bit i v = 0" by (auto simp: highest_at_def bit_eq_iff bit_drop_bit_eq)
qed

lemma mask_bottom:
  assumes "lowest_at v n"
  shows "v AND mask i = 0 \<longleftrightarrow> i \<le> n"
proof
  assume "v AND mask i = 0"
  then have "\<not> bit (v AND mask i) n" by simp
  moreover have "bit v n" "n < LENGTH('a)" using assms by (auto simp: lowest_at_def dest: bit_imp_le_length)
  ultimately show "i \<le> n" by (simp add: bit_and_iff bit_mask_iff)
next
  assume "i \<le> n"
  with assms show "v AND mask i = 0" by (auto simp: lowest_at_def bit_eq_iff bit_and_iff bit_mask_iff)
qed

lemma half_power: "2 ^ Suc j div 2 = (2 :: nat) ^ j"
  by simp

lemma clz_loop_top:
  "highest_at v n \<Longrightarrow> n < 2 * 2 ^ j \<Longrightarrow> 2 ^ j < LENGTH('w) \<Longrightarrow>
   clz_loop (2 ^ j) (v :: 'w::len word) c = Some (c + of_nat (2 * 2 ^ j - 1 - n))"
proof (induction j arbitrary: v n c)
  case 0
  then have "n = 0 \<or> n = 1" by auto
  with 0 show ?case
    by (subst clz_loop.simps) (auto simp: shr_def drop_top clz_loop.simps [of 0] simp del: drop_bit_Suc)
next
  case (Suc j)
  let ?i = "2 ^ Suc j :: nat"
  have step: "clz_loop ?i v c = (if n < ?i then clz_loop (2 ^ j) v (c + of_nat ?i) else clz_loop (2 ^ j) (drop_bit ?i v) c)"
  proof -
    have "0 < ?i" "?i div 2 = 2 ^ j" by simp_all
    then show ?thesis
      using Suc.prems(3) drop_top [OF Suc.prems(1), of ?i] by (subst clz_loop.simps) (simp only: shr_def if_True Option.bind.bind_lunit simp_thms)
  qed
  show ?case
  proof (cases "n < ?i")
    case True
    with Suc.prems have "clz_loop (2 ^ j) v (c + of_nat ?i) = Some (c + of_nat ?i + of_nat (2 * 2 ^ j - 1 - n))"
      by (intro Suc.IH) simp_all
    moreover have "of_nat ?i + of_nat (2 * 2 ^ j - 1 - n) = (of_nat (2 * ?i - 1 - n) :: u32)"
      using True by (subst of_nat_add [symmetric]) (rule arg_cong [where f = of_nat], simp)
    ultimately show ?thesis using True unfolding step by (simp only: if_True add.assoc)
  next
    case False
    with Suc.prems have "clz_loop (2 ^ j) (drop_bit ?i v) c = Some (c + of_nat (2 * 2 ^ j - 1 - (n - ?i)))"
      by (intro Suc.IH top_drop) simp_all
    moreover have "2 * 2 ^ j - 1 - (n - ?i) = 2 * ?i - 1 - n" using False Suc.prems(2) by simp
    ultimately show ?thesis using False unfolding step by (simp only: if_False)
  qed
qed

lemma ctz_loop_bottom:
  "lowest_at v n \<Longrightarrow> n < 2 * 2 ^ j \<Longrightarrow> 2 ^ j < LENGTH('w) \<Longrightarrow> ctz_loop (2 ^ j) (v :: 'w::len word) c = Some (c + of_nat n)"
proof (induction j arbitrary: v n c)
  case 0
  then have "n = 0 \<or> n = 1" by auto
  with 0 show ?case using mask_bottom [OF 0(1), of 1]
    by (subst ctz_loop.simps) (auto simp: shl_def shr_def mask_eq_exp_minus_1 ctz_loop.simps [of 0] simp del: drop_bit_Suc)
next
  case (Suc j)
  let ?i = "2 ^ Suc j :: nat"
  have step: "ctz_loop ?i v c = (if ?i \<le> n then ctz_loop (2 ^ j) (drop_bit ?i v) (c + of_nat ?i) else ctz_loop (2 ^ j) v c)"
  proof -
    have "0 < ?i" "?i div 2 = 2 ^ j" by simp_all
    then show ?thesis
      using Suc.prems(3) mask_bottom [OF Suc.prems(1), of ?i]
      by (subst ctz_loop.simps) (simp only: shl_def shr_def mask_eq_exp_minus_1 push_bit_of_1 if_True Option.bind.bind_lunit simp_thms)
  qed
  show ?case
  proof (cases "?i \<le> n")
    case True
    with Suc.prems have "ctz_loop (2 ^ j) (drop_bit ?i v) (c + of_nat ?i) = Some (c + of_nat ?i + of_nat (n - ?i))"
      by (intro Suc.IH bottom_drop) simp_all
    moreover have "of_nat ?i + of_nat (n - ?i) = (of_nat n :: u32)"
      using True by (subst of_nat_add [symmetric]) (rule arg_cong [where f = of_nat], simp)
    ultimately show ?thesis using True unfolding step by (simp only: if_True add.assoc)
  next
    case False
    with Suc.prems have "ctz_loop (2 ^ j) v c = Some (c + of_nat n)" by (intro Suc.IH) simp_all
    with False show ?thesis unfolding step by (simp only: if_False)
  qed
qed

lemma smear_loop_bits:
  "0 < i \<Longrightarrow> (\<And>b. bit v b \<longleftrightarrow> (\<exists>m < i. bit w (b + m))) \<Longrightarrow> bit (smear_loop i (v :: 'w::len word)) b \<longleftrightarrow> (\<exists>m. bit (w :: 'w word) (b + m))"
proof (induction i v arbitrary: b rule: smear_loop.induct)
  case (1 i v)
  show ?case
  proof (cases "i < LENGTH('w)")
    case True
    have "bit (v OR drop_bit i v) b \<longleftrightarrow> (\<exists>m < i * 2. bit w (b + m))" for b
    proof -
      have "bit (v OR drop_bit i v) b \<longleftrightarrow> (\<exists>m < i. bit w (b + m)) \<or> (\<exists>m < i. bit w (b + (i + m)))"
        by (simp add: bit_or_iff bit_drop_bit_eq 1(3) ac_simps)
      also have "\<dots> \<longleftrightarrow> (\<exists>m < i * 2. bit w (b + m))" (is "?l \<longleftrightarrow> ?r")
      proof
        assume ?r
        then obtain m where m: "m < i * 2" "bit w (b + m)" by blast
        show ?l
        proof (cases "m < i")
          case False
          with m have "m - i < i" "bit w (b + (i + (m - i)))" by simp_all
          then show ?thesis by blast
        qed (use m in blast)
      next
        assume ?l
        then obtain m where m: "m < i" "bit w (b + m) \<or> bit w (b + (i + m))" by blast
        then have "m < i * 2" "i + m < i * 2" by simp_all
        with m(2) show ?r by blast
      qed
      finally show ?thesis .
    qed
    with 1 True show ?thesis by (subst smear_loop.simps) simp
  next
    case False
    then have "bit w (b + m) \<Longrightarrow> m < i" for m by (auto dest: bit_imp_le_length)
    with 1(3) False show ?thesis by (subst smear_loop.simps) auto
  qed
qed

lemma smear_top: "highest_at v n \<Longrightarrow> smear_loop 1 (v :: 'w::len word) = mask (Suc n)"
proof (rule bit_word_eqI)
  fix b assume v: "highest_at v n" and b: "b < LENGTH('w)"
  have "(\<exists>m. bit v (b + m)) \<longleftrightarrow> b \<le> n"
  proof
    assume "\<exists>m. bit v (b + m)"
    with v show "b \<le> n" by (metis highest_at_def le_add1 not_le order_less_le_trans)
  next
    assume "b \<le> n"
    with v have "bit v (b + (n - b))" by (simp add: highest_at_def)
    then show "\<exists>m. bit v (b + m)" by blast
  qed
  with b show "bit (smear_loop 1 v) b = bit (mask (Suc n) :: 'w word) b"
    by (subst smear_loop_bits [of 1 v v]) (auto simp: bit_mask_iff less_Suc_eq_le)
qed

text \<open>The bits at and above a set bit with nothing below it.\<close>

lemma bottom_split:
  fixes v :: "'w::len word"
  assumes "lowest_at v n"
  defines "high \<equiv> v AND NOT (mask (Suc n))"
  shows "v = high OR push_bit n 1" and "v - 1 = high OR mask n" and "- v = NOT high AND NOT (mask n)"
proof -
  have n: "n < LENGTH('w)" using assms(1) by (auto simp: lowest_at_def dest: bit_imp_le_length)
  have above: "b < n \<or> n < b" if "b \<noteq> n" for b using that by auto
  show v: "v = high OR push_bit n 1"
    by (rule bit_word_eqI) (use assms(1) in \<open>auto simp: high_def lowest_at_def bit_simps less_Suc_eq_le dest: above\<close>)
  have "high AND push_bit n 1 = 0" "high AND mask n = 0"
    by (rule bit_word_eqI; auto simp: high_def bit_simps)+
  then have "v = high + push_bit n 1" "high OR mask n = high + mask n" using v by (simp_all add: disjunctive_add_eq_or)
  moreover have "(mask n :: 'w word) = push_bit n 1 - 1" by (simp add: mask_eq_exp_minus_1)
  ultimately show v1: "v - 1 = high OR mask n" by simp
  have "- v = NOT (v - 1)" by (simp add: not_eq_complement)
  then show "- v = NOT high AND NOT (mask n)" by (simp add: v1)
qed

lemma lowest_bottom: "lowest_at v n \<Longrightarrow> extract_lowest_set_bit v = push_bit n 1"
proof -
  assume v: "lowest_at v n"
  have "v AND - v = push_bit n 1"
    unfolding bottom_split(3) [OF v]
    by (rule bit_word_eqI) (use v in \<open>auto simp: lowest_at_def bit_simps less_Suc_eq_le le_less\<close>)
  then show ?thesis by (simp add: extract_lowest_set_bit_def)
qed

lemma power_bottom: "lowest_at v n \<Longrightarrow> bit_is_power_of_two is_signed v \<longleftrightarrow> \<not> (is_signed \<and> sint v < 0) \<and> v = push_bit n 1"
proof -
  assume v: "lowest_at v n"
  let ?high = "v AND NOT (mask (Suc n))"
  have "v \<noteq> 0" using v by (auto simp: lowest_at_def)
  have "v AND (v - 1) = ?high"
    unfolding bottom_split(2) [OF v]
    by (rule bit_word_eqI) (use v in \<open>auto simp: lowest_at_def bit_simps less_Suc_eq_le\<close>)
  moreover have "?high = 0 \<longleftrightarrow> v = push_bit n 1"
  proof
    assume "?high = 0"
    with bottom_split(1) [OF v] show "v = push_bit n 1" by simp
  next
    assume p: "v = push_bit n 1"
    show "?high = 0" unfolding p by (rule bit_word_eqI) (auto simp: bit_simps)
  qed
  ultimately show ?thesis using \<open>v \<noteq> 0\<close> by (simp add: bit_is_power_of_two_def)
qed

lemma top_range: "highest_at v n \<longleftrightarrow> 2 ^ n \<le> unat v \<and> unat v < 2 ^ Suc n"
proof -
  have bits: "bit (unat v) m \<longleftrightarrow> bit v m" for m by (auto simp: bit_unsigned_iff dest: bit_imp_le_length)
  show ?thesis unfolding not_less [symmetric] less_exp_bits highest_at_def bits by (metis Suc_leI Suc_le_lessD le_less not_less)
qed

end
