(* ===== verification/BitsScan.thy ===== *)
theory BitsScan
  imports BitsCount
begin

text \<open>
  The searches, powers of two, counts and reversals of \<open>castle/bit\<close>, stated by their results.
\<close>

section \<open>Reversals\<close>

text \<open>A bit position, as a choice the simplifier can go through.\<close>

lemma below_enum: "i < n \<Longrightarrow> i \<in> set (map nat [0..int n - 1])"
  by (auto intro!: image_eqI [of _ _ "int i"])

lemma swap_bit:
  "bit (swap_groups n high low v) i \<longleftrightarrow> bit (v :: 'w::len word) (i + n) \<and> bit high (i + n) \<or> n \<le> i \<and> i < LENGTH('w) \<and> bit v (i - n) \<and> bit low (i - n)"
  by (auto simp: swap_groups_def bit_simps ac_simps)

lemma reverse8: "i < 8 \<Longrightarrow> bit (reverse_bits8 a) i = bit a (7 - i)"
by (drule below_enum) (simp add: upto.simps, elim disjE; simp add: reverse_bits8_def Let_def swap_bit)

lemma reverse16: "i < 16 \<Longrightarrow> bit (reverse_bits16 a) i = bit a (15 - i)"
by (drule below_enum) (simp add: upto.simps, elim disjE; simp add: reverse_bits16_def Let_def swap_bit)

lemma reverse32: "i < 32 \<Longrightarrow> bit (reverse_bits32 a) i = bit a (31 - i)"
by (drule below_enum) (simp add: upto.simps, elim disjE; simp add: reverse_bits32_def Let_def swap_bit)

lemma reverse64: "i < 64 \<Longrightarrow> bit (reverse_bits64 a) i = bit a (63 - i)"
by (drule below_enum) (simp add: upto.simps, elim disjE; simp add: reverse_bits64_def Let_def swap_bit)

lemma swap32: "i < 32 \<Longrightarrow> bit (byte_swap32 a) i = bit a (8 * (3 - i div 8) + i mod 8)"
by (drule below_enum) (simp add: upto.simps, elim disjE; simp add: byte_swap32_def Let_def bit_simps numeral_2_eq_2 [symmetric])
lemma swap64: "i < 64 \<Longrightarrow> bit (byte_swap64 a) i = bit a (8 * (7 - i div 8) + i mod 8)"
by (drule below_enum) (simp add: upto.simps, elim disjE; simp add: byte_swap64_def Let_def bit_simps numeral_2_eq_2 [symmetric])


lemma swap16: "i < 16 \<Longrightarrow> bit (byte_swap16 a) i = bit a (8 * (1 - i div 8) + i mod 8)"
  by (drule below_enum) (simp add: upto.simps, elim disjE; simp add: byte_swap16_def Let_def bit_simps numeral_2_eq_2 [symmetric])

section \<open>Scans\<close>






text \<open>\<open>popcount\<close> is the number of set bits, the counts and the parity of narrower types follow from it,
  and the reversals move every bit to the mirrored position, or every byte with its bits in order.\<close>

theorem bit_counts:
  fixes v :: "'w::len word"
  assumes "LENGTH('w) \<le> 64"
  shows "unat (count_ones v) = length (filter (bit v) [0..<LENGTH('w)]) \<and>
    unat (count_zeros v) = length (filter (\<lambda>i. \<not> bit v i) [0..<LENGTH('w)]) \<and>
    (parity v = 1 \<longleftrightarrow> odd (length (filter (bit v) [0..<LENGTH('w)]))) \<and>
    (\<forall>i < 8. bit (reverse_bits8 a) i = bit a (7 - i)) \<and> (\<forall>i < 16. bit (reverse_bits16 b) i = bit b (15 - i)) \<and>
    (\<forall>i < 32. bit (reverse_bits32 c) i = bit c (31 - i)) \<and> (\<forall>i < 64. bit (reverse_bits64 d) i = bit d (63 - i)) \<and>
    (\<forall>i < 16. bit (byte_swap16 b) i = bit b (8 * (1 - i div 8) + i mod 8)) \<and>
    (\<forall>i < 32. bit (byte_swap32 c) i = bit c (8 * (3 - i div 8) + i mod 8)) \<and>
    (\<forall>i < 64. bit (byte_swap64 d) i = bit d (8 * (7 - i div 8) + i mod 8))"
proof -
  let ?n = "length (filter (bit v) [0..<LENGTH('w)])"
  have "[0..<64] = [0..<LENGTH('w)] @ [LENGTH('w)..<64]" using assms upt_add_eq_append [of 0 "LENGTH('w)" "64 - LENGTH('w)"] by simp
  moreover have "filter (bit (ucast v :: u64)) [0..<LENGTH('w)] = filter (bit v) [0..<LENGTH('w)]"
    by (rule filter_cong) (use assms in \<open>auto simp: bit_ucast_iff\<close>)
  moreover have "filter (bit (ucast v :: u64)) [LENGTH('w)..<64] = []" by (auto simp: filter_empty_conv bit_ucast_iff dest: bit_imp_le_length)
  ultimately have pop: "unat (popcount (ucast v)) = ?n" by (simp add: popcount_ones)
  have n: "?n \<le> LENGTH('w)" using length_filter_le [of "bit v" "[0..<LENGTH('w)]"] by simp
  have "unat (of_nat LENGTH('w) :: u32) = LENGTH('w)" using assms by (simp add: unat_of_nat)
  then have "unat (of_nat LENGTH('w) - popcount (ucast v)) = LENGTH('w) - ?n"
    using n pop by (subst unat_sub) (simp_all add: word_le_nat_alt)
  then have zeros: "unat (count_zeros v) = length (filter (\<lambda>i. \<not> bit v i) [0..<LENGTH('w)])"
    using sum_length_filter_compl [of "bit v" "[0..<LENGTH('w)]"] by (simp add: count_zeros_def)
  have "w AND 1 = 1 \<longleftrightarrow> odd (unat w)" for w :: u32
    using bit_unsigned_iff [of w 0, where 'a = nat] by (simp add: and_one_eq odd_iff_mod_2_eq_one [symmetric] bit_0)
  then have "parity v = 1 \<longleftrightarrow> odd ?n" by (simp add: parity_def pop)
  then show ?thesis
    using pop zeros reverse8 reverse16 reverse32 reverse64 swap16 swap32 swap64 by (simp only: count_ones_def simp_thms) blast
qed

theorem bit_counts_witness: "unat (count_ones (0x31 :: u8)) = 3"
  using bit_counts [of "0x31 :: u8" 0 0 0 0] by (simp add: upt_rec)

end
