(* ===== verification/Bytes.thy ===== *)
theory Bytes
  imports Prelude
begin

text \<open>
  The byte-order helpers of \<open>castle/utility/bytes.hpp\<close>: little- and big-endian reads and writes
  through a byte pointer at an offset, and the 32/64-bit rotations.  A signed read or write is
  the unsigned one on the same bits (\<open>static_cast\<close> between \<open>intN_t\<close> and \<open>uintN_t\<close>), so one
  word type serves both.
\<close>

section \<open>Reads\<close>

definition read_le16 :: "u8 ptr \<Rightarrow> nat \<Rightarrow> u16 option" where
  "read_le16 p i = do {
     b0 \<leftarrow> rd p i; b1 \<leftarrow> rd p (i + 1);
     Some (ucast b0 OR push_bit 8 (ucast b1)) }"

definition read_be16 :: "u8 ptr \<Rightarrow> nat \<Rightarrow> u16 option" where
  "read_be16 p i = do {
     b0 \<leftarrow> rd p i; b1 \<leftarrow> rd p (i + 1);
     Some (push_bit 8 (ucast b0) OR ucast b1) }"

definition read_le32 :: "u8 ptr \<Rightarrow> nat \<Rightarrow> u32 option" where
  "read_le32 p i = do {
     b0 \<leftarrow> rd p i; b1 \<leftarrow> rd p (i + 1); b2 \<leftarrow> rd p (i + 2); b3 \<leftarrow> rd p (i + 3);
     Some (ucast b0 OR push_bit 8 (ucast b1) OR push_bit 16 (ucast b2) OR push_bit 24 (ucast b3)) }"

definition read_be32 :: "u8 ptr \<Rightarrow> nat \<Rightarrow> u32 option" where
  "read_be32 p i = do {
     b0 \<leftarrow> rd p i; b1 \<leftarrow> rd p (i + 1); b2 \<leftarrow> rd p (i + 2); b3 \<leftarrow> rd p (i + 3);
     Some (push_bit 24 (ucast b0) OR push_bit 16 (ucast b1) OR push_bit 8 (ucast b2) OR ucast b3) }"

definition read_le64 :: "u8 ptr \<Rightarrow> nat \<Rightarrow> u64 option" where
  "read_le64 p i = do {
     b0 \<leftarrow> rd p i; b1 \<leftarrow> rd p (i + 1); b2 \<leftarrow> rd p (i + 2); b3 \<leftarrow> rd p (i + 3);
     b4 \<leftarrow> rd p (i + 4); b5 \<leftarrow> rd p (i + 5); b6 \<leftarrow> rd p (i + 6); b7 \<leftarrow> rd p (i + 7);
     Some (ucast b0 OR push_bit 8 (ucast b1) OR push_bit 16 (ucast b2) OR push_bit 24 (ucast b3) OR
           push_bit 32 (ucast b4) OR push_bit 40 (ucast b5) OR push_bit 48 (ucast b6) OR push_bit 56 (ucast b7)) }"

definition read_be64 :: "u8 ptr \<Rightarrow> nat \<Rightarrow> u64 option" where
  "read_be64 p i = do {
     b0 \<leftarrow> rd p i; b1 \<leftarrow> rd p (i + 1); b2 \<leftarrow> rd p (i + 2); b3 \<leftarrow> rd p (i + 3);
     b4 \<leftarrow> rd p (i + 4); b5 \<leftarrow> rd p (i + 5); b6 \<leftarrow> rd p (i + 6); b7 \<leftarrow> rd p (i + 7);
     Some (push_bit 56 (ucast b0) OR push_bit 48 (ucast b1) OR push_bit 40 (ucast b2) OR push_bit 32 (ucast b3) OR
           push_bit 24 (ucast b4) OR push_bit 16 (ucast b5) OR push_bit 8 (ucast b6) OR ucast b7) }"

section \<open>Writes\<close>

definition write_le16 :: "u8 ptr \<Rightarrow> nat \<Rightarrow> u16 \<Rightarrow> u8 ptr option" where
  "write_le16 p i v = do {
     p \<leftarrow> put p i (ucast v);
     put p (i + 1) (ucast (drop_bit 8 v)) }"

definition write_be16 :: "u8 ptr \<Rightarrow> nat \<Rightarrow> u16 \<Rightarrow> u8 ptr option" where
  "write_be16 p i v = do {
     p \<leftarrow> put p i (ucast (drop_bit 8 v));
     put p (i + 1) (ucast v) }"

definition write_le32 :: "u8 ptr \<Rightarrow> nat \<Rightarrow> u32 \<Rightarrow> u8 ptr option" where
  "write_le32 p i v = do {
     p \<leftarrow> put p i (ucast v);
     p \<leftarrow> put p (i + 1) (ucast (drop_bit 8 v));
     p \<leftarrow> put p (i + 2) (ucast (drop_bit 16 v));
     put p (i + 3) (ucast (drop_bit 24 v)) }"

definition write_be32 :: "u8 ptr \<Rightarrow> nat \<Rightarrow> u32 \<Rightarrow> u8 ptr option" where
  "write_be32 p i v = do {
     p \<leftarrow> put p i (ucast (drop_bit 24 v));
     p \<leftarrow> put p (i + 1) (ucast (drop_bit 16 v));
     p \<leftarrow> put p (i + 2) (ucast (drop_bit 8 v));
     put p (i + 3) (ucast v) }"

definition write_le64 :: "u8 ptr \<Rightarrow> nat \<Rightarrow> u64 \<Rightarrow> u8 ptr option" where
  "write_le64 p i v = do {
     p \<leftarrow> put p i (ucast v);
     p \<leftarrow> put p (i + 1) (ucast (drop_bit 8 v));
     p \<leftarrow> put p (i + 2) (ucast (drop_bit 16 v));
     p \<leftarrow> put p (i + 3) (ucast (drop_bit 24 v));
     p \<leftarrow> put p (i + 4) (ucast (drop_bit 32 v));
     p \<leftarrow> put p (i + 5) (ucast (drop_bit 40 v));
     p \<leftarrow> put p (i + 6) (ucast (drop_bit 48 v));
     put p (i + 7) (ucast (drop_bit 56 v)) }"

definition write_be64 :: "u8 ptr \<Rightarrow> nat \<Rightarrow> u64 \<Rightarrow> u8 ptr option" where
  "write_be64 p i v = do {
     p \<leftarrow> put p i (ucast (drop_bit 56 v));
     p \<leftarrow> put p (i + 1) (ucast (drop_bit 48 v));
     p \<leftarrow> put p (i + 2) (ucast (drop_bit 40 v));
     p \<leftarrow> put p (i + 3) (ucast (drop_bit 32 v));
     p \<leftarrow> put p (i + 4) (ucast (drop_bit 24 v));
     p \<leftarrow> put p (i + 5) (ucast (drop_bit 16 v));
     p \<leftarrow> put p (i + 6) (ucast (drop_bit 8 v));
     put p (i + 7) (ucast v) }"

section \<open>Rotations\<close>

definition rotl32 :: "u32 \<Rightarrow> nat \<Rightarrow> u32" where
  "rotl32 v count = push_bit count v OR drop_bit (32 - count) v"

definition rotr32 :: "u32 \<Rightarrow> nat \<Rightarrow> u32" where
  "rotr32 v count = drop_bit count v OR push_bit (32 - count) v"

definition rotr64 :: "u64 \<Rightarrow> nat \<Rightarrow> u64" where
  "rotr64 v count = drop_bit count v OR push_bit (64 - count) v"

section \<open>Byte strings of a word\<close>

definition le_bytes :: "nat \<Rightarrow> 'a::len word \<Rightarrow> u8 list" where
  "le_bytes n v = map (\<lambda>i. ucast (drop_bit (8 * i) v)) [0..<n]"

lemma length_le_bytes [simp]: "length (le_bytes n v) = n"
  by (simp add: le_bytes_def)

lemma le_bytes_16: "le_bytes 2 v = [ucast v, ucast (drop_bit 8 v)]"
  and le_bytes_32: "le_bytes 4 v = [ucast v, ucast (drop_bit 8 v), ucast (drop_bit 16 v), ucast (drop_bit 24 v)]"
  and le_bytes_64: "le_bytes 8 v = [ucast v, ucast (drop_bit 8 v), ucast (drop_bit 16 v), ucast (drop_bit 24 v),
        ucast (drop_bit 32 v), ucast (drop_bit 40 v), ucast (drop_bit 48 v), ucast (drop_bit 56 v)]"
  by (simp_all add: le_bytes_def upt_rec)

lemma writes_store:
  "write_le16 p i v16 = store p i (le_bytes 2 v16)"
  "write_le32 p i v32 = store p i (le_bytes 4 v32)"
  "write_le64 p i v64 = store p i (le_bytes 8 v64)"
  "write_be16 p i v16 = store p i (rev (le_bytes 2 v16))"
  "write_be32 p i v32 = store p i (rev (le_bytes 4 v32))"
  "write_be64 p i v64 = store p i (rev (le_bytes 8 v64))"
  by (simp_all add: write_le16_def write_le32_def write_le64_def write_be16_def write_be32_def
      write_be64_def le_bytes_16 le_bytes_32 le_bytes_64 writer_simps)

lemma words_from_bytes:
  "ucast (ucast v16 :: u8) OR push_bit 8 (ucast (ucast (drop_bit 8 v16) :: u8)) = (v16 :: u16)"
  "ucast (ucast v32 :: u8) OR push_bit 8 (ucast (ucast (drop_bit 8 v32) :: u8)) OR
   push_bit 16 (ucast (ucast (drop_bit 16 v32) :: u8)) OR push_bit 24 (ucast (ucast (drop_bit 24 v32) :: u8)) = (v32 :: u32)"
  "ucast (ucast v64 :: u8) OR push_bit 8 (ucast (ucast (drop_bit 8 v64) :: u8)) OR
   push_bit 16 (ucast (ucast (drop_bit 16 v64) :: u8)) OR push_bit 24 (ucast (ucast (drop_bit 24 v64) :: u8)) OR
   push_bit 32 (ucast (ucast (drop_bit 32 v64) :: u8)) OR push_bit 40 (ucast (ucast (drop_bit 40 v64) :: u8)) OR
   push_bit 48 (ucast (ucast (drop_bit 48 v64) :: u8)) OR push_bit 56 (ucast (ucast (drop_bit 56 v64) :: u8)) = (v64 :: u64)"
  subgoal by (rule bit_word_eqI) (auto simp: bit_simps)
  subgoal
    apply (rule bit_word_eqI)
    subgoal for n by (cases "n < 8"; cases "n < 16"; cases "n < 24") (auto simp: bit_simps not_less less_diff_conv2)
    done
  subgoal
    apply (rule bit_word_eqI)
    subgoal for n
      by (cases "n < 8"; cases "n < 16"; cases "n < 24"; cases "n < 32"; cases "n < 40"; cases "n < 48"; cases "n < 56")
        (auto simp: bit_simps not_less less_diff_conv2)
    done
  done

lemma store_read:
  assumes "store p i vs = Some q" and "k < length vs"
  shows "rd q (i + k) = Some (vs ! k)"
  using assms by (cases p) (auto simp: nth_append split: if_splits)

lemma read_le16_store:
  assumes "store p i (le_bytes 2 v) = Some q"
  shows "read_le16 q i = Some (v :: u16)"
  using store_read [OF assms, of 0] store_read [OF assms, of 1]
  by (simp add: read_le16_def le_bytes_16 words_from_bytes)

lemma read_le32_store:
  assumes "store p i (le_bytes 4 v) = Some q"
  shows "read_le32 q i = Some (v :: u32)"
  using store_read [OF assms, of 0] store_read [OF assms, of 1] store_read [OF assms, of 2] store_read [OF assms, of 3]
  by (simp add: read_le32_def le_bytes_32 words_from_bytes)

lemma read_le64_store:
  assumes "store p i (le_bytes 8 v) = Some q"
  shows "read_le64 q i = Some (v :: u64)"
  using store_read [OF assms, of 0] store_read [OF assms, of 1] store_read [OF assms, of 2] store_read [OF assms, of 3] store_read [OF assms, of 4] store_read [OF assms, of 5] store_read [OF assms, of 6] store_read [OF assms, of 7]
  by (simp add: read_le64_def le_bytes_64 words_from_bytes)

lemma words_from_bytes_be:
  "push_bit 8 (ucast (ucast (drop_bit 8 v16) :: u8)) OR ucast (ucast v16 :: u8) = (v16 :: u16)"
  "push_bit 24 (ucast (ucast (drop_bit 24 v32) :: u8)) OR push_bit 16 (ucast (ucast (drop_bit 16 v32) :: u8)) OR
   push_bit 8 (ucast (ucast (drop_bit 8 v32) :: u8)) OR ucast (ucast v32 :: u8) = (v32 :: u32)"
  "push_bit 56 (ucast (ucast (drop_bit 56 v64) :: u8)) OR push_bit 48 (ucast (ucast (drop_bit 48 v64) :: u8)) OR
   push_bit 40 (ucast (ucast (drop_bit 40 v64) :: u8)) OR push_bit 32 (ucast (ucast (drop_bit 32 v64) :: u8)) OR
   push_bit 24 (ucast (ucast (drop_bit 24 v64) :: u8)) OR push_bit 16 (ucast (ucast (drop_bit 16 v64) :: u8)) OR
   push_bit 8 (ucast (ucast (drop_bit 8 v64) :: u8)) OR ucast (ucast v64 :: u8) = (v64 :: u64)"
  using words_from_bytes(1) [of v16] words_from_bytes(2) [of v32] words_from_bytes(3) [of v64]
  by (simp_all only: or.assoc or.commute or.left_commute)

lemma read_be16_store:
  assumes "store p i (rev (le_bytes 2 v)) = Some q"
  shows "read_be16 q i = Some (v :: u16)"
  using store_read [OF assms, of 0] store_read [OF assms, of 1]
  by (simp add: read_be16_def le_bytes_16 words_from_bytes_be)

lemma read_be32_store:
  assumes "store p i (rev (le_bytes 4 v)) = Some q"
  shows "read_be32 q i = Some (v :: u32)"
  using store_read [OF assms, of 0] store_read [OF assms, of 1] store_read [OF assms, of 2] store_read [OF assms, of 3]
  by (simp add: read_be32_def le_bytes_32 words_from_bytes_be)

lemma read_be64_store:
  assumes "store p i (rev (le_bytes 8 v)) = Some q"
  shows "read_be64 q i = Some (v :: u64)"
  using store_read [OF assms, of 0] store_read [OF assms, of 1] store_read [OF assms, of 2] store_read [OF assms, of 3] store_read [OF assms, of 4] store_read [OF assms, of 5] store_read [OF assms, of 6] store_read [OF assms, of 7]
  by (simp add: read_be64_def le_bytes_64 words_from_bytes_be)

lemma store_then:
  assumes "i + length vs \<le> length xs" and "\<And>q. store (Mem xs) i vs = Some q \<Longrightarrow> P q"
  shows "\<exists>q. store (Mem xs) i vs = Some q \<and> P q"
  using assms(2) [OF store_fits [OF assms(1)]] store_fits [OF assms(1)] by blast

text \<open>Whatever word is written at an offset of a buffer is read back from it, in both byte
  orders and at all three widths.\<close>

theorem bytes_roundtrip:
  fixes v16 :: u16 and v32 :: u32 and v64 :: u64
  assumes "i + 8 \<le> length xs"
  shows "(\<exists>q. write_le16 (Mem xs) i v16 = Some q \<and> read_le16 q i = Some v16) \<and>
    (\<exists>q. write_be16 (Mem xs) i v16 = Some q \<and> read_be16 q i = Some v16) \<and>
    (\<exists>q. write_le32 (Mem xs) i v32 = Some q \<and> read_le32 q i = Some v32) \<and>
    (\<exists>q. write_be32 (Mem xs) i v32 = Some q \<and> read_be32 q i = Some v32) \<and>
    (\<exists>q. write_le64 (Mem xs) i v64 = Some q \<and> read_le64 q i = Some v64) \<and>
    (\<exists>q. write_be64 (Mem xs) i v64 = Some q \<and> read_be64 q i = Some v64)"
  by (insert assms, unfold writes_store, intro conjI store_then;
      (erule read_le16_store read_be16_store read_le32_store read_be32_store read_le64_store read_be64_store | simp))

theorem bytes_roundtrip_witness:
  "(\<exists>q. write_le16 (Mem (replicate 9 0)) 1 0x1234 = Some q \<and> read_le16 q 1 = Some 0x1234) \<and>
    (\<exists>q. write_be16 (Mem (replicate 9 0)) 1 0x1234 = Some q \<and> read_be16 q 1 = Some 0x1234) \<and>
    (\<exists>q. write_le32 (Mem (replicate 9 0)) 1 0xDEADBEEF = Some q \<and> read_le32 q 1 = Some 0xDEADBEEF) \<and>
    (\<exists>q. write_be32 (Mem (replicate 9 0)) 1 0xDEADBEEF = Some q \<and> read_be32 q 1 = Some 0xDEADBEEF) \<and>
    (\<exists>q. write_le64 (Mem (replicate 9 0)) 1 7 = Some q \<and> read_le64 q 1 = Some 7) \<and>
    (\<exists>q. write_be64 (Mem (replicate 9 0)) 1 7 = Some q \<and> read_be64 q 1 = Some 7)"
  by (rule bytes_roundtrip) simp

end
