(* ===== verification/Crc.thy ===== *)
theory Crc
  imports Prelude
begin

text \<open>
  The cyclic redundancy checks of \<open>castle_ext/checksums\<close>: the bitwise engine of \<open>crc_common.hpp\<close> with its
  template parameters in a record, and the five algorithms that are instances of it.  A message range
  is read from its first byte to its last, so the loop over it is a \<open>foldl\<close>; a null pointer is ignored.
\<close>

section \<open>The engine\<close>

record 'uint crc_model =
  crc_polynomial :: 'uint
  crc_initial :: 'uint
  crc_final_xor :: 'uint
  crc_reflect_input :: bool
  crc_reflect_output :: bool
  crc_width :: nat

definition crc_mask :: "'w::len word crc_model \<Rightarrow> 'w word" where
  "crc_mask p = drop_bit (LENGTH('w) - crc_width p) (NOT 0)"

text \<open>The static assertions on the template parameters.\<close>

definition crc_parameters_ok :: "'w::len word crc_model \<Rightarrow> bool" where
  "crc_parameters_ok p = (8 \<le> crc_width p \<and> crc_width p \<le> LENGTH('w) \<and>
     crc_polynomial p AND crc_mask p = crc_polynomial p \<and> crc_initial p AND crc_mask p = crc_initial p \<and>
     crc_final_xor p AND crc_mask p = crc_final_xor p)"

fun reflect_loop :: "nat \<Rightarrow> 'w::len word \<Rightarrow> 'w word \<Rightarrow> 'w word" where
  "reflect_loop 0 result value = result"
| "reflect_loop (Suc n) result value = reflect_loop n (push_bit 1 result OR (value AND 1)) (drop_bit 1 value)"

definition reflect :: "'w::len word crc_model \<Rightarrow> 'w word \<Rightarrow> 'w word" where
  "reflect p value = reflect_loop (crc_width p) 0 value"

definition reflected_polynomial :: "'w::len word crc_model \<Rightarrow> 'w word" where
  "reflected_polynomial p = reflect p (crc_polynomial p)"

text \<open>The body of the two bit loops.\<close>

definition shift_right :: "'w::len word \<Rightarrow> 'w word \<Rightarrow> 'w word" where
  "shift_right polynomial crc = (if crc AND 1 \<noteq> 0 then drop_bit 1 crc XOR polynomial else drop_bit 1 crc)"

definition shift_left :: "'w::len word crc_model \<Rightarrow> 'w word \<Rightarrow> 'w word" where
  "shift_left p crc =
     (if crc AND push_bit (crc_width p - 1) 1 \<noteq> 0 then (push_bit 1 crc XOR crc_polynomial p) AND crc_mask p
      else push_bit 1 crc AND crc_mask p)"

definition update_byte :: "'w::len word crc_model \<Rightarrow> 'w word \<Rightarrow> u8 \<Rightarrow> 'w word" where
  "update_byte p crc value =
     (if crc_reflect_input p then (shift_right (reflected_polynomial p) ^^ 8) (crc XOR ucast value)
      else (shift_left p ^^ 8) (crc XOR push_bit (crc_width p - 8) (ucast value)))"

definition crc_finalize :: "'w::len word crc_model \<Rightarrow> 'w word \<Rightarrow> 'w word" where
  "crc_finalize p crc =
     (let crc = (if crc_reflect_input p \<noteq> crc_reflect_output p then reflect p crc else crc) in crc XOR crc_final_xor p)"

text \<open>The object holds the register only.\<close>

definition crc_reset :: "'w::len word crc_model \<Rightarrow> 'w word" where
  "crc_reset p = crc_initial p"

fun crc_update :: "'w::len word crc_model \<Rightarrow> u8 ptr \<Rightarrow> 'w word \<Rightarrow> 'w word" where
  "crc_update p (Null n) crc = crc"
| "crc_update p (Mem data) crc = foldl (update_byte p) crc data"

definition crc_value :: "'w::len word crc_model \<Rightarrow> 'w word \<Rightarrow> 'w word" where
  "crc_value p crc = crc_finalize p crc"

definition crc_calculate :: "'w::len word crc_model \<Rightarrow> u8 ptr \<Rightarrow> 'w word" where
  "crc_calculate p data = crc_value p (crc_update p data (crc_reset p))"

section \<open>The algorithms\<close>

definition crc8 :: "8 word crc_model" where
  "crc8 = \<lparr>crc_polynomial = 0x07, crc_initial = 0, crc_final_xor = 0, crc_reflect_input = False, crc_reflect_output = False, crc_width = 8\<rparr>"

definition crc16 :: "16 word crc_model" where
  "crc16 = \<lparr>crc_polynomial = 0x1021, crc_initial = 0xFFFF, crc_final_xor = 0, crc_reflect_input = False, crc_reflect_output = False, crc_width = 16\<rparr>"

definition crc24q :: "32 word crc_model" where
  "crc24q = \<lparr>crc_polynomial = 0x864CFB, crc_initial = 0, crc_final_xor = 0, crc_reflect_input = False, crc_reflect_output = False, crc_width = 24\<rparr>"

definition crc32 :: "32 word crc_model" where
  "crc32 = \<lparr>crc_polynomial = 0x04C11DB7, crc_initial = 0xFFFFFFFF, crc_final_xor = 0xFFFFFFFF, crc_reflect_input = True, crc_reflect_output = True, crc_width = 32\<rparr>"

definition crc64 :: "64 word crc_model" where
  "crc64 = \<lparr>crc_polynomial = 0x42F0E1EBA9EA3693, crc_initial = 0, crc_final_xor = 0, crc_reflect_input = False, crc_reflect_output = False, crc_width = 64\<rparr>"

section \<open>Bits\<close>

text \<open>Words whose bits from \<open>w\<close> on are zero.\<close>

definition within :: "nat \<Rightarrow> 'w::len word \<Rightarrow> bool" where
  "within w x \<longleftrightarrow> (\<forall>j. bit x j \<longrightarrow> j < w)"

lemma within_xor [intro]: "within w x \<Longrightarrow> within w y \<Longrightarrow> within w (x XOR y)"
  by (auto simp: within_def bit_simps)

lemma bit_crc_mask: "crc_width p \<le> LENGTH('w) \<Longrightarrow> bit (crc_mask (p :: 'w::len word crc_model)) j \<longleftrightarrow> j < crc_width p"
  by (auto simp: crc_mask_def bit_simps)

lemma masked_within:
  assumes "crc_width p \<le> LENGTH('w)" and "x AND crc_mask p = x"
  shows "within (crc_width p) (x :: 'w::len word)"
  using assms(1) by (subst assms(2) [symmetric]) (auto simp: within_def bit_and_iff bit_crc_mask)

lemma bit_shift_right:
  "bit (shift_right q x) j \<longleftrightarrow> bit (x :: 'w::len word) (Suc j) \<noteq> (bit x 0 \<and> bit q j)"
proof -
  have "x AND 1 \<noteq> 0 \<longleftrightarrow> bit x 0" by (simp add: and_one_eq bit_0 odd_iff_mod_2_eq_one)
  then show ?thesis by (auto simp: shift_right_def bit_simps)
qed

lemma and_single: "x AND push_bit n 1 \<noteq> 0 \<longleftrightarrow> bit (x :: 'w::len word) n"
proof -
  have "x AND push_bit n 1 = (if bit x n then push_bit n 1 else 0)"
    by (rule bit_word_eqI) (auto simp: bit_simps dest: bit_imp_le_length)
  moreover have "bit x n \<Longrightarrow> push_bit n (1 :: 'w word) \<noteq> 0" by (auto dest: bit_imp_le_length simp: push_bit_eq_mult)
  ultimately show ?thesis by simp
qed

lemma bit_shift_left:
  fixes p :: "'w::len word crc_model"
  assumes "crc_width p \<le> LENGTH('w)"
  shows "bit (shift_left p x) j \<longleftrightarrow> j < crc_width p \<and> ((0 < j \<and> bit x (j - 1)) \<noteq> (bit x (crc_width p - 1) \<and> bit (crc_polynomial p) j))"
  using assms
  by (cases "bit x (crc_width p - 1)")
    (simp_all only: shift_left_def and_single if_True if_False bit_and_iff bit_xor_iff bit_push_bit_iff bit_crc_mask [OF assms], auto dest: bit_imp_le_length)

lemma bit_reflect_loop:
  "n + k \<le> LENGTH('w) \<Longrightarrow> within k result \<Longrightarrow>
   bit (reflect_loop n result (value :: 'w::len word)) j \<longleftrightarrow> (if j < n then bit value (n - 1 - j) else bit result (j - n))"
proof (induction n arbitrary: result "value" k)
  case (Suc n)
  let ?result = "push_bit 1 result OR (value AND 1)"
  have one: "bit (value AND 1) i \<longleftrightarrow> i = 0 \<and> bit value 0" for i by (auto simp: bit_simps)
  have double: "bit ?result i \<longleftrightarrow> i < LENGTH('w) \<and> 0 < i \<and> bit result (i - 1) \<or> i = 0 \<and> bit value 0" for i
    unfolding bit_or_iff one by (auto simp: bit_push_bit_iff simp del: push_bit_Suc One_nat_def)
  have "within (Suc k) ?result" using Suc.prems(2) unfolding within_def double by auto
  with Suc.IH [of "Suc k" ?result "drop_bit 1 value"] Suc.prems
  have "bit (reflect_loop (Suc n) result value) j \<longleftrightarrow> (if j < n then bit value (n - j) else bit ?result (j - n))"
    by (simp add: bit_drop_bit_eq Suc_diff_Suc)
  moreover have "bit ?result (j - n) \<longleftrightarrow> (if j = n then bit value 0 else bit result (j - Suc n))" if "n \<le> j"
    using that Suc.prems unfolding double by (auto simp: within_def)
  ultimately show ?case by (auto simp del: reflect_loop.simps)
qed simp

lemma bit_reflect:
  fixes p :: "'w::len word crc_model"
  assumes "crc_width p \<le> LENGTH('w)"
  shows "bit (reflect p x) j \<longleftrightarrow> j < crc_width p \<and> bit x (crc_width p - 1 - j)"
  using bit_reflect_loop [of "crc_width p" 0 0 x j] assms by (simp add: reflect_def within_def)

section \<open>Linear shift registers\<close>

text \<open>What both directions of the engine are: a register that is shifted linearly and without loss eight
  times a byte, and into which the bytes of a message are mixed at its far end.  \<open>place i b\<close> is the byte
  that \<open>i\<close> more shifts by eight bring to that end, \<open>pick i\<close> reads it off.\<close>

locale byte_register =
  fixes shift :: "'w::len word \<Rightarrow> 'w word"
    and place :: "nat \<Rightarrow> u8 \<Rightarrow> 'w word"
    and pick :: "nat \<Rightarrow> 'w word \<Rightarrow> u8"
    and fits :: "'w word \<Rightarrow> bool"
    and depth :: nat
  assumes shift_xor: "shift (x XOR y) = shift x XOR shift y"
    and shift_eq_0: "fits x \<Longrightarrow> shift x = 0 \<Longrightarrow> x = 0"
    and fits_shift: "fits x \<Longrightarrow> fits (shift x)"
    and fits_xor: "fits x \<Longrightarrow> fits y \<Longrightarrow> fits (x XOR y)"
    and fits_place: "i < depth \<Longrightarrow> fits (place i b)"
    and advance_place: "Suc i < depth \<Longrightarrow> (shift ^^ 8) (place (Suc i) b) = place i b"
    and place_xor: "place i (a XOR b) = place i a XOR place i b"
    and pick_xor: "pick i (x XOR y) = pick i x XOR pick i y"
    and pick_place: "i < depth \<Longrightarrow> j < depth \<Longrightarrow> pick i (place j b) = (if i = j then b else 0)"
    and depth_pos: "0 < depth"

definition absorb :: "('w::len word \<Rightarrow> 'w word) \<Rightarrow> (nat \<Rightarrow> u8 \<Rightarrow> 'w word) \<Rightarrow> 'w word \<Rightarrow> u8 \<Rightarrow> 'w word" where
  "absorb shift place crc b = (shift ^^ 8) (crc XOR place 0 b)"

primrec assemble :: "(nat \<Rightarrow> u8 \<Rightarrow> 'w::len word) \<Rightarrow> nat \<Rightarrow> u8 list \<Rightarrow> 'w word" where
  "assemble place i [] = 0"
| "assemble place i (b # bs) = place i b XOR assemble place (Suc i) bs"

context byte_register
begin

lemma shifts_xor: "(shift ^^ n) (x XOR y) = (shift ^^ n) x XOR (shift ^^ n) y"
  by (induction n) (simp_all add: shift_xor)

lemma shift_0: "shift 0 = 0"
  using shift_xor [of 0 0] by simp

lemma shifts_0: "(shift ^^ n) 0 = 0"
  by (induction n) (simp_all add: shift_0)

lemma fits_shifts: "fits x \<Longrightarrow> fits ((shift ^^ n) x)"
  by (induction n) (simp_all add: fits_shift)

lemma shifts_eq_0: "fits x \<Longrightarrow> (shift ^^ n) x = 0 \<Longrightarrow> x = 0"
  by (induction n) (use fits_shifts shift_eq_0 in auto)

lemma place_0: "place i 0 = 0"
  using place_xor [of i 0 0] by simp

lemma fits_absorb: "fits crc \<Longrightarrow> fits (absorb shift place crc b)"
  using fits_shifts fits_xor fits_place [OF depth_pos] by (simp add: absorb_def)

lemma fits_absorbs: "fits crc \<Longrightarrow> fits (foldl (absorb shift place) crc bs)"
  by (induction bs arbitrary: crc) (simp_all add: fits_absorb)

lemma fits_assemble: "i + length bs \<le> depth \<Longrightarrow> fits x \<Longrightarrow> fits (x XOR assemble place i bs)"
proof (induction bs arbitrary: i x)
  case (Cons b bs)
  then show ?case using Cons.IH [of "Suc i" "x XOR place i b"] fits_xor fits_place by (simp add: xor.assoc)
qed simp

lemma advance_assemble: "Suc i + length bs \<le> depth \<Longrightarrow> (shift ^^ 8) (assemble place (Suc i) bs) = assemble place i bs"
proof (induction bs arbitrary: i)
  case (Cons b bs)
  then have "(shift ^^ 8) (place (Suc i) b) = place i b" "(shift ^^ 8) (assemble place (Suc (Suc i)) bs) = assemble place (Suc i) bs"
    using advance_place [of i b] by simp_all
  then show ?case by (simp only: assemble.simps shifts_xor)
qed (simp only: assemble.simps shifts_0)

text \<open>Bytes absorbed one by one, or all at once and shifted through.\<close>

lemma absorb_all: "length bs \<le> depth \<Longrightarrow> foldl (absorb shift place) crc bs = ((shift ^^ 8) ^^ length bs) (crc XOR assemble place 0 bs)"
proof (induction bs arbitrary: crc)
  case (Cons b bs)
  have "foldl (absorb shift place) crc (b # bs) = ((shift ^^ 8) ^^ length bs) (absorb shift place crc b XOR assemble place 0 bs)"
    using Cons by simp
  also have "\<dots> = ((shift ^^ 8) ^^ length bs) ((shift ^^ 8) (crc XOR place 0 b) XOR (shift ^^ 8) (assemble place (Suc 0) bs))"
    using Cons.prems advance_assemble [of 0 bs] by (simp only: absorb_def) simp
  also have "\<dots> = ((shift ^^ 8) ^^ length (b # bs)) (crc XOR assemble place 0 (b # bs))"
    by (simp only: shifts_xor [symmetric] xor.assoc assemble.simps length_Cons funpow_Suc_right o_apply)
  finally show ?case .
qed simp

lemma absorb_xor:
  "length xs = length ys \<Longrightarrow> foldl (absorb shift place) x xs XOR foldl (absorb shift place) y ys =
   foldl (absorb shift place) (x XOR y) (map2 (XOR) xs ys)"
proof (induction xs ys arbitrary: x y rule: list_induct2)
  case (Cons a xs b ys)
  have "absorb shift place x a XOR absorb shift place y b = absorb shift place (x XOR y) (a XOR b)"
    by (simp only: absorb_def shifts_xor [symmetric] place_xor ac_simps)
  with Cons show ?case by simp
qed simp

lemma absorb_zeros: "foldl (absorb shift place) crc (map2 (XOR) bs bs) = ((shift ^^ 8) ^^ length bs) crc"
  by (induction bs arbitrary: crc) (simp_all add: absorb_def place_0 funpow_swap1)

lemma pick_assemble:
  "i + length bs \<le> depth \<Longrightarrow> k < depth \<Longrightarrow>
   pick k (assemble place i bs) = (if i \<le> k \<and> k < i + length bs then bs ! (k - i) else 0)"
proof (induction bs arbitrary: i)
  case Nil
  then show ?case using pick_xor [of k 0 0] by auto
next
  case (Cons b bs)
  then show ?case by (auto simp: pick_xor pick_place nth_Cons' not_le Suc_le_eq)
qed

lemma assemble_eq_0: "length bs \<le> depth \<Longrightarrow> assemble place 0 bs = 0 \<Longrightarrow> b \<in> set bs \<Longrightarrow> b = 0"
proof -
  assume *: "length bs \<le> depth" "assemble place 0 bs = 0" "b \<in> set bs"
  then obtain k where "k < length bs" "b = bs ! k" by (auto simp: in_set_conv_nth)
  with * pick_assemble [of 0 bs k] pick_xor [of k 0 0] show ?thesis by simp
qed

text \<open>A message is followed by its own register exactly when the register ends as zero.\<close>

lemma residue:
  assumes "length bs \<le> depth" and "fits crc"
  shows "foldl (absorb shift place) crc bs = 0 \<longleftrightarrow> assemble place 0 bs = crc"
proof -
  have "fits (crc XOR assemble place 0 bs)" using fits_assemble [of 0 bs crc] assms by simp
  then have "((shift ^^ 8) ^^ length bs) (crc XOR assemble place 0 bs) = 0 \<longleftrightarrow> crc XOR assemble place 0 bs = 0"
    using shifts_eq_0 shifts_0 by (metis funpow_mult)
  also have "\<dots> \<longleftrightarrow> assemble place 0 bs = crc" by (auto simp: bit_eq_iff bit_xor_iff)
  finally show ?thesis by (simp only: absorb_all [OF assms(1)])
qed

lemma bursts_differ:
  assumes "fits crc" and "length a = length b" and "a \<noteq> b" and "length a \<le> depth"
  shows "foldl (absorb shift place) crc (pre @ a @ post) \<noteq> foldl (absorb shift place) crc (pre @ b @ post)"
proof
  assume same: "foldl (absorb shift place) crc (pre @ a @ post) = foldl (absorb shift place) crc (pre @ b @ post)"
  define d where "d = map2 (XOR) a b"
  let ?s = "foldl (absorb shift place) crc pre"
  have "foldl (absorb shift place) (foldl (absorb shift place) ?s a XOR foldl (absorb shift place) ?s b) (map2 (XOR) post post) = 0"
    by (subst absorb_xor [OF refl, symmetric]) (use same in simp)
  moreover have d: "foldl (absorb shift place) ?s a XOR foldl (absorb shift place) ?s b = ((shift ^^ 8) ^^ length d) (assemble place 0 d)"
    using absorb_xor [OF assms(2)] absorb_all [of d 0] assms(2,4) by (simp add: d_def)
  ultimately have "((shift ^^ 8) ^^ length post) (((shift ^^ 8) ^^ length d) (assemble place 0 d)) = 0"
    by (simp only: absorb_zeros)
  moreover have "fits (assemble place 0 d)" using fits_assemble [of 0 d 0] fits_xor [OF assms(1) assms(1)] assms(2,4) by (simp add: d_def)
  ultimately have "assemble place 0 d = 0" using fits_shifts shifts_eq_0 by (metis funpow_mult)
  then have zero: "x = 0" if "x \<in> set d" for x using assemble_eq_0 [of d x] that assms(2,4) by (simp add: d_def)
  have "a = b"
  proof (rule nth_equalityI [OF assms(2)])
    fix i assume i: "i < length a"
    then have "d ! i \<in> set d" using assms(2) by (intro nth_mem) (simp add: d_def)
    with i assms(2) zero have "a ! i XOR b ! i = 0" by (simp add: d_def)
    then show "a ! i = b ! i" by (simp add: bit_eq_iff bit_xor_iff)
  qed
  with assms(3) show False by blast
qed

end

section \<open>The two directions\<close>

text \<open>Every polynomial of use has a constant term; without one the register would lose bits.\<close>

definition crc_detecting :: "'w::len word crc_model \<Rightarrow> bool" where
  "crc_detecting p = (crc_parameters_ok p \<and> bit (crc_polynomial p) 0)"

lemma crc_detecting_simps:
  assumes "crc_detecting (p :: 'w::len word crc_model)"
  shows "crc_width p \<le> LENGTH('w)" "8 \<le> crc_width p" "bit (crc_polynomial p) 0" "within (crc_width p) (crc_polynomial p)"
    "within (crc_width p) (crc_initial p)"
  using assms masked_within by (auto simp: crc_detecting_def crc_parameters_ok_def)

lemma shift_left_clear:
  "crc_width p \<le> LENGTH('w) \<Longrightarrow> k \<le> crc_width p \<Longrightarrow> within (crc_width p - k) (x :: 'w::len word) \<Longrightarrow> (shift_left p ^^ k) x = push_bit k x"
proof (induction k)
  case (Suc k)
  then have "within (crc_width p - k) x" by (fastforce simp: within_def)
  with Suc have IH: "(shift_left p ^^ k) x = push_bit k x" by simp
  show ?case
    unfolding funpow.simps o_apply IH
    by (rule bit_word_eqI) (use Suc.prems in \<open>auto simp: bit_shift_left bit_push_bit_iff within_def Suc_diff_le simp del: push_bit_Suc\<close>)
qed simp

lemma shift_right_clear: "(\<And>j. j < k \<Longrightarrow> \<not> bit (x :: 'w::len word) j) \<Longrightarrow> (shift_right q ^^ k) x = drop_bit k x"
proof (induction k)
  case (Suc k)
  then have IH: "(shift_right q ^^ k) x = drop_bit k x" by simp
  show ?case
    unfolding funpow.simps o_apply IH
    by (rule bit_word_eqI) (use Suc.prems in \<open>simp add: bit_shift_right bit_drop_bit_eq\<close>)
qed simp

lemma left_register:
  fixes p :: "'w::len word crc_model"
  assumes "crc_detecting p"
  shows "byte_register (shift_left p) (\<lambda>i b. push_bit (crc_width p - 8 * Suc i) (ucast b))
    (\<lambda>i x. ucast (drop_bit (crc_width p - 8 * Suc i) x)) (within (crc_width p)) (crc_width p div 8)"
proof
  note p = crc_detecting_simps [OF assms]
  fix i j :: nat and a b :: u8 and x y :: "'w word"
  have i: "8 * Suc i \<le> crc_width p" if "i < crc_width p div 8" for i using that by presburger
  show "shift_left p (x XOR y) = shift_left p x XOR shift_left p y"
    by (rule bit_word_eqI) (auto simp: bit_shift_left [OF p(1)] bit_xor_iff)
  show "x = 0" if "within (crc_width p) x" "shift_left p x = 0"
  proof (rule bit_word_eqI)
    fix k assume "k < LENGTH('w)"
    have no: "\<not> bit (shift_left p x) j" for j using that(2) by simp
    from no [of 0] p(2,3) have "\<not> bit x (crc_width p - 1)" by (simp add: bit_shift_left [OF p(1)])
    with no [of "Suc k"] that(1) show "bit x k = bit 0 k"
      by (cases "k = crc_width p - 1") (auto simp: bit_shift_left [OF p(1)] within_def)
  qed
  show "within (crc_width p) (shift_left p x)" by (simp add: within_def bit_shift_left [OF p(1)])
  show "within (crc_width p) (push_bit (crc_width p - 8 * Suc i) (ucast b) :: 'w word)" if "i < crc_width p div 8"
    using i [OF that] by (auto simp: within_def bit_push_bit_iff bit_ucast_iff dest: bit_imp_le_length)
  show "(shift_left p ^^ 8) (push_bit (crc_width p - 8 * Suc (Suc i)) (ucast b)) = push_bit (crc_width p - 8 * Suc i) (ucast b)"
    if "Suc i < crc_width p div 8"
  proof -
    have w: "8 * Suc (Suc i) \<le> crc_width p" using i [OF that] by simp
    then have "within (crc_width p - 8) (push_bit (crc_width p - 8 * Suc (Suc i)) (ucast b) :: 'w word)"
      by (auto simp: within_def bit_push_bit_iff bit_ucast_iff dest!: bit_imp_le_length [where 'a = 8])
    with shift_left_clear [OF p(1,2)] w show ?thesis by simp
  qed
  show "(ucast (drop_bit (crc_width p - 8 * Suc i) (push_bit (crc_width p - 8 * Suc j) (ucast b) :: 'w word)) :: u8) = (if i = j then b else 0)"
    if "i < crc_width p div 8" "j < crc_width p div 8"
    using i [OF that(1)] i [OF that(2)] p(1)
    by (intro bit_word_eqI) (auto simp: bit_ucast_iff bit_drop_bit_eq bit_push_bit_iff dest: bit_imp_le_length [where 'a = 8])
  show "0 < crc_width p div 8" using p(2) by presburger
qed (auto intro!: bit_word_eqI simp: bit_xor_iff bit_push_bit_iff bit_ucast_iff bit_drop_bit_eq)

lemma right_register:
  fixes p :: "'w::len word crc_model"
  assumes "crc_detecting p"
  shows "byte_register (shift_right (reflected_polynomial p)) (\<lambda>i b. push_bit (8 * i) (ucast b))
    (\<lambda>i x. ucast (drop_bit (8 * i) x)) (within (crc_width p)) (crc_width p div 8)"
proof
  note p = crc_detecting_simps [OF assms]
  let ?q = "reflected_polynomial p"
  have q: "bit ?q k \<longleftrightarrow> k < crc_width p \<and> bit (crc_polynomial p) (crc_width p - 1 - k)" for k
    by (simp add: reflected_polynomial_def bit_reflect [OF p(1)])
  fix i j :: nat and a b :: u8 and x y :: "'w word"
  have i: "8 * Suc i \<le> crc_width p" if "i < crc_width p div 8" for i using that by presburger
  show "shift_right ?q (x XOR y) = shift_right ?q x XOR shift_right ?q y"
    by (rule bit_word_eqI) (auto simp: bit_shift_right bit_xor_iff)
  show "x = 0" if "within (crc_width p) x" "shift_right ?q x = 0"
  proof (rule bit_word_eqI)
    fix k assume "k < LENGTH('w)"
    have no: "\<not> bit (shift_right ?q x) j" for j using that(2) by simp
    have "\<not> bit x (Suc (crc_width p - 1))" using that(1) p(2) by (auto simp: within_def)
    with no [of "crc_width p - 1"] p(2,3) have "\<not> bit x 0" by (simp add: bit_shift_right q)
    with no [of "k - 1"] show "bit x k = bit 0 k" by (cases k) (simp_all add: bit_shift_right)
  qed
  show "within (crc_width p) (shift_right ?q x)" if "within (crc_width p) x"
    using that by (auto simp: within_def bit_shift_right q dest: Suc_lessD)
  show "within (crc_width p) (push_bit (8 * i) (ucast b) :: 'w word)" if "i < crc_width p div 8"
    using i [OF that] by (auto simp: within_def bit_push_bit_iff bit_ucast_iff dest!: bit_imp_le_length [where 'a = 8])
  show "(shift_right ?q ^^ 8) (push_bit (8 * Suc i) (ucast b)) = push_bit (8 * i) (ucast b)" if "Suc i < crc_width p div 8"
  proof -
    have w: "8 * Suc (Suc i) \<le> LENGTH('w)" using i [OF that] p(1) by simp
    have "(shift_right ?q ^^ 8) (push_bit (8 * Suc i) (ucast b)) = drop_bit 8 (push_bit (8 * Suc i) (ucast b) :: 'w word)"
      by (rule shift_right_clear) (simp add: bit_push_bit_iff)
    also have "\<dots> = push_bit (8 * i) (ucast b)"
      by (rule bit_word_eqI) (use w in \<open>auto simp: bit_drop_bit_eq bit_push_bit_iff bit_ucast_iff dest: bit_imp_le_length [where 'a = 8]\<close>)
    finally show ?thesis .
  qed
  show "(ucast (drop_bit (8 * i) (push_bit (8 * j) (ucast b) :: 'w word)) :: u8) = (if i = j then b else 0)"
    if "i < crc_width p div 8" "j < crc_width p div 8"
    using i [OF that(1)] i [OF that(2)] p(1)
    by (intro bit_word_eqI) (auto simp: bit_ucast_iff bit_drop_bit_eq bit_push_bit_iff dest!: bit_imp_le_length [where 'a = 8])
  show "0 < crc_width p div 8" using p(2) by presburger
qed (auto intro!: bit_word_eqI simp: bit_xor_iff bit_push_bit_iff bit_ucast_iff bit_drop_bit_eq)

lemma crc_models_detecting:
  "crc_detecting crc8" "crc_detecting crc16" "crc_detecting crc24q" "crc_detecting crc32" "crc_detecting crc64"
  by (simp_all add: crc_detecting_def crc_parameters_ok_def crc_mask_def crc8_def crc16_def crc24q_def crc32_def crc64_def mask_eq_exp_minus_1)

lemma crc_widths: "crc_width crc8 = 8" "crc_width crc16 = 16" "crc_width crc24q = 24" "crc_width crc32 = 32" "crc_width crc64 = 64"
  by (simp_all add: crc8_def crc16_def crc24q_def crc32_def crc64_def)

interpretation crc8: byte_register "shift_left crc8" "\<lambda>i b. push_bit (8 - 8 * Suc i) (ucast b)"
    "\<lambda>i x. ucast (drop_bit (8 - 8 * Suc i) x)" "within 8" "1"
  using left_register [of crc8] by (simp add: crc_models_detecting crc_widths)

interpretation crc16: byte_register "shift_left crc16" "\<lambda>i b. push_bit (16 - 8 * Suc i) (ucast b)"
    "\<lambda>i x. ucast (drop_bit (16 - 8 * Suc i) x)" "within 16" "2"
  using left_register [of crc16] by (simp add: crc_models_detecting crc_widths)

interpretation crc24q: byte_register "shift_left crc24q" "\<lambda>i b. push_bit (24 - 8 * Suc i) (ucast b)"
    "\<lambda>i x. ucast (drop_bit (24 - 8 * Suc i) x)" "within 24" "3"
  using left_register [of crc24q] by (simp add: crc_models_detecting crc_widths)

interpretation crc32: byte_register "shift_right (reflected_polynomial crc32)" "\<lambda>i b. push_bit (8 * i) (ucast b)"
    "\<lambda>i x. ucast (drop_bit (8 * i) x)" "within 32" "4"
  using right_register [of crc32] by (simp add: crc_models_detecting crc_widths)

interpretation crc64: byte_register "shift_left crc64" "\<lambda>i b. push_bit (64 - 8 * Suc i) (ucast b)"
    "\<lambda>i x. ucast (drop_bit (64 - 8 * Suc i) x)" "within 64" "8"
  using left_register [of crc64] by (simp add: crc_models_detecting crc_widths)

section \<open>Bursts are detected\<close>

lemma update_absorb:
  "update_byte p = (if crc_reflect_input p then absorb (shift_right (reflected_polynomial p)) (\<lambda>i b. push_bit (8 * i) (ucast b))
     else absorb (shift_left p) (\<lambda>i b. push_bit (crc_width p - 8 * Suc i) (ucast b)))"
  by (simp add: fun_eq_iff update_byte_def absorb_def)

lemma updates_within:
  assumes "crc_detecting p" and "within (crc_width p) crc"
  shows "within (crc_width p) (foldl (update_byte p) crc bs)"
  using byte_register.fits_absorbs [OF left_register [OF assms(1)] assms(2)]
    byte_register.fits_absorbs [OF right_register [OF assms(1)] assms(2)] by (simp add: update_absorb)

lemma reflect_inj:
  assumes "crc_width p \<le> LENGTH('w)" and "within (crc_width p) x" and "within (crc_width p) y" and "reflect p x = reflect p y"
  shows "x = (y :: 'w::len word)"
proof (rule bit_word_eqI)
  fix k assume "k < LENGTH('w)"
  show "bit x k = bit y k"
  proof (cases "k < crc_width p")
    case True
    then have "bit (reflect p x) (crc_width p - 1 - k) = bit x k" "bit (reflect p y) (crc_width p - 1 - k) = bit y k"
      by (simp_all add: bit_reflect [OF assms(1)])
    with assms(4) show ?thesis by simp
  qed (use assms(2,3) in \<open>auto simp: within_def\<close>)
qed

lemma finalize_inj:
  assumes "crc_detecting p" and "within (crc_width p) x" and "within (crc_width p) y" and "crc_finalize p x = crc_finalize p y"
  shows "x = y"
proof -
  have "a XOR c = b XOR c \<longleftrightarrow> a = b" for a b c :: "'a word" by (auto simp: bit_eq_iff bit_xor_iff)
  with assms(4) have "x = y \<or> reflect p x = reflect p y" by (simp add: crc_finalize_def Let_def split: if_splits)
  then show ?thesis using reflect_inj [OF crc_detecting_simps(1) assms(2,3)] assms(1) by blast
qed

text \<open>C30: two messages of the same length that differ only inside a window of as many bytes as the CRC has
  have different checksums, for every choice of the parameters whose polynomial has a constant term; each of
  the library's five algorithms is such a choice.\<close>

theorem crc_detects_bursts:
  assumes "crc_detecting p" and "length a = length b" and "a \<noteq> b" and "8 * length a \<le> crc_width p"
  shows "crc_calculate p (Mem (pre @ a @ post)) \<noteq> crc_calculate p (Mem (pre @ b @ post)) \<and>
    crc_detecting crc8 \<and> crc_detecting crc16 \<and> crc_detecting crc24q \<and> crc_detecting crc32 \<and> crc_detecting crc64"
proof -
  have "length a \<le> crc_width p div 8" using assms(4) by presburger
  with crc_detecting_simps(5) [OF assms(1)] assms(2,3)
  have "foldl (update_byte p) (crc_initial p) (pre @ a @ post) \<noteq> foldl (update_byte p) (crc_initial p) (pre @ b @ post)"
    using byte_register.bursts_differ [OF left_register [OF assms(1)]] byte_register.bursts_differ [OF right_register [OF assms(1)]]
    by (simp add: update_absorb del: foldl_append)
  moreover have "within (crc_width p) (foldl (update_byte p) (crc_initial p) bs)" for bs
    using updates_within assms(1) crc_detecting_simps(5) by blast
  ultimately show ?thesis
    using finalize_inj [OF assms(1)]
    by (auto simp: crc_calculate_def crc_value_def crc_reset_def crc_models_detecting simp del: foldl_append)
qed

theorem crc_detects_bursts_witness:
  "crc_calculate crc32 (Mem ([1] @ [2, 3, 4, 5] @ [6])) \<noteq> crc_calculate crc32 (Mem ([1] @ [2, 0, 4, 0] @ [6]))"
  using crc_detects_bursts [of crc32 "[2, 3, 4, 5]" "[2, 0, 4, 0]" "[1]" "[6]"]
  by (simp add: crc_models_detecting crc_widths)

end
