(* ===== verification/Rtcm.thy ===== *)
theory Rtcm
  imports Bytes Crc
begin

text \<open>
  RTCM 3 transport: the frame of \<open>castle_ext/protocols/rtcm/rtcm.hpp\<close> and the bit writer of
  \<open>bit_writer.hpp\<close>.  A data field of a message is a value of \<open>data_field\<close>, one constructor per overload
  of \<open>field\<close> and per other verb of the writer; a message's \<open>encode\<close> is the list of its fields.
  \<open>position & 7\<close> and \<open>position >> 3\<close> of a natural position are its remainder and quotient by eight.
\<close>

section \<open>Frames\<close>

definition RTCM_PREAMBLE :: u8 where "RTCM_PREAMBLE = 0xD3"
definition RTCM_FRAME_INDEX_LENGTH :: nat where "RTCM_FRAME_INDEX_LENGTH = 1"
definition RTCM_FRAME_INDEX_PAYLOAD :: nat where "RTCM_FRAME_INDEX_PAYLOAD = 3"
definition RTCM_CRC_SIZE :: nat where "RTCM_CRC_SIZE = 3"
definition RTCM_FRAME_OVERHEAD :: nat where "RTCM_FRAME_OVERHEAD = RTCM_FRAME_INDEX_PAYLOAD + RTCM_CRC_SIZE"
definition RTCM_MAX_PAYLOAD_LEN :: nat where "RTCM_MAX_PAYLOAD_LEN = 1023"

lemmas rtcm_constants = RTCM_PREAMBLE_def RTCM_FRAME_INDEX_LENGTH_def RTCM_FRAME_INDEX_PAYLOAD_def RTCM_CRC_SIZE_def
  RTCM_FRAME_OVERHEAD_def RTCM_MAX_PAYLOAD_LEN_def

definition rtcm_frame_size :: "nat \<Rightarrow> nat" where
  "rtcm_frame_size n = n + RTCM_FRAME_OVERHEAD"

text \<open>The first bytes of a range, as the checksum reads them.\<close>

fun prefix_of :: "u8 ptr \<Rightarrow> nat \<Rightarrow> u8 ptr option" where
  "prefix_of (Null m) n = Some (Null n)"
| "prefix_of (Mem xs) n = (if n \<le> length xs then Some (Mem (take n xs)) else None)"

definition finish_frame :: "u8 ptr \<Rightarrow> nat \<Rightarrow> (u8 ptr \<times> nat) option" where
  "finish_frame frame payload_length = do {
     frame \<leftarrow> put frame 0 RTCM_PREAMBLE;
     frame \<leftarrow> write_be16 frame RTCM_FRAME_INDEX_LENGTH (of_nat payload_length);
     let covered = RTCM_FRAME_INDEX_PAYLOAD + payload_length;
     checked \<leftarrow> prefix_of frame covered;
     let crc = crc_calculate crc24q checked;
     frame \<leftarrow> put frame covered (ucast (drop_bit 16 crc));
     frame \<leftarrow> put frame (covered + 1) (ucast (drop_bit 8 crc));
     frame \<leftarrow> put frame (covered + 2) (ucast crc);
     Some (frame, covered + RTCM_CRC_SIZE) }"

function payload_loop :: "u8 ptr \<Rightarrow> nat \<Rightarrow> u8 ptr \<Rightarrow> u8 ptr option" where
  "payload_loop payload index output =
     (if index < psize payload then do {
        b \<leftarrow> rd payload index;
        output \<leftarrow> put output (RTCM_FRAME_INDEX_PAYLOAD + index) b;
        payload_loop payload (index + 1) output }
      else Some output)"
  by pat_completeness auto
termination by (relation "measure (\<lambda>(payload, index, _). psize payload - index)") auto

declare payload_loop.simps [simp del]

definition rtcm_encode_frame :: "u8 ptr \<Rightarrow> u8 ptr \<Rightarrow> (status \<times> u8 ptr \<times> nat) option" where
  "rtcm_encode_frame payload output =
     (if is_null output \<or> (psize payload > 0 \<and> is_null payload) then Some (status_invalid_argument, output, 0)
      else if psize payload > RTCM_MAX_PAYLOAD_LEN then Some (status_out_of_range, output, 0)
      else if psize output < rtcm_frame_size (psize payload) then Some (status_full, output, 0)
      else do {
        output \<leftarrow> payload_loop payload 0 output;
        (output, written) \<leftarrow> finish_frame output (psize payload);
        Some (status_ok, output, written) })"

section \<open>The bit writer\<close>

record bit_writer =
  bw_payload :: "u8 ptr"
  bw_position :: nat
  bw_status :: status

definition bit_writer_init :: "u8 ptr \<Rightarrow> bit_writer" where
  "bit_writer_init p = \<lparr>bw_payload = (if is_null p then Mem [] else p), bw_position = 0, bw_status = status_ok\<rparr>"

definition bw_size :: "bit_writer \<Rightarrow> nat" where
  "bw_size w = (bw_position w + 7) div 8"

definition remaining_bits :: "bit_writer \<Rightarrow> nat" where
  "remaining_bits w = psize (bw_payload w) * 8 - bw_position w"

definition bw_fail :: "status \<Rightarrow> bit_writer \<Rightarrow> bit_writer" where
  "bw_fail reason w = (if bw_status w = status_ok then w\<lparr>bw_status := reason\<rparr> else w)"

function write_loop :: "u64 \<Rightarrow> nat \<Rightarrow> bit_writer \<Rightarrow> bit_writer option" where
  "write_loop v width w =
     (if width > 0 then do {
        let offset = bw_position w mod 8;
        let room = 8 - offset;
        let take = (if width < room then width else room);
        let chunk = (ucast (drop_bit (width - take) v AND (push_bit take 1 - 1)) :: u8);
        let at = bw_position w div 8;
        p \<leftarrow> (if offset = 0 then put (bw_payload w) at 0 else Some (bw_payload w));
        target \<leftarrow> rd p at;
        p \<leftarrow> put p at (target OR push_bit (room - take) chunk);
        write_loop v (width - take) (w\<lparr>bw_payload := p, bw_position := bw_position w + take\<rparr>) }
      else Some w)"
  by pat_completeness auto
termination by (relation "measure (\<lambda>(_, width, _). width)") (auto split: if_splits)

declare write_loop.simps [simp del]

definition write_bits :: "u64 \<Rightarrow> nat \<Rightarrow> bit_writer \<Rightarrow> bit_writer option" where
  "write_bits v width w =
     (if bw_status w \<noteq> status_ok then Some w
      else if width > 64 \<or> (width < 64 \<and> drop_bit width v \<noteq> 0) then Some (w\<lparr>bw_status := status_out_of_range\<rparr>)
      else if width > remaining_bits w then Some (w\<lparr>bw_status := status_full\<rparr>)
      else write_loop v width w)"

text \<open>The overloads of \<open>field\<close>: the signed one gets its value sign-extended to 64 bits.\<close>

definition field_signed :: "u64 \<Rightarrow> nat \<Rightarrow> bit_writer \<Rightarrow> bit_writer option" where
  "field_signed v bits w =
     (if bits = 0 \<or> bits > 64 then Some (bw_fail status_out_of_range w)
      else if bits < 64 \<and> (sint v < - (2 ^ (bits - 1)) \<or> sint v \<ge> 2 ^ (bits - 1)) then Some (bw_fail status_out_of_range w)
      else write_bits (v AND (if bits = 64 then NOT 0 else push_bit bits 1 - 1)) bits w)"

definition field_bool :: "bool \<Rightarrow> bit_writer \<Rightarrow> bit_writer option" where
  "field_bool v w = write_bits (if v then 1 else 0) 1 w"

function reserved_bits :: "nat \<Rightarrow> bit_writer \<Rightarrow> bit_writer option" where
  "reserved_bits bits w =
     (if bits > 64 then do { w \<leftarrow> write_bits 0 64 w; reserved_bits (bits - 64) w } else write_bits 0 bits w)"
  by pat_completeness auto
termination by (relation "measure fst") auto

declare reserved_bits.simps [simp del]

fun rtcm_text_loop :: "u8 list \<Rightarrow> bit_writer \<Rightarrow> bit_writer option" where
  "rtcm_text_loop [] w = Some w"
| "rtcm_text_loop (c # cs) w = do { w \<leftarrow> write_bits (ucast c) 8 w; rtcm_text_loop cs w }"

definition text_field :: "u8 list \<Rightarrow> bit_writer \<Rightarrow> bit_writer option" where
  "text_field s w = do { w \<leftarrow> write_bits (ucast (of_nat (length s) :: u8)) 8 w; rtcm_text_loop s w }"

datatype data_field =
    Unsigned u64 nat
  | Signed u64 nat
  | Flag bool
  | Reserved nat
  | Text "u8 list"
  | Fail status

fun write_field :: "data_field \<Rightarrow> bit_writer \<Rightarrow> bit_writer option" where
  "write_field (Unsigned v n) w = write_bits v n w"
| "write_field (Signed v n) w = field_signed v n w"
| "write_field (Flag b) w = field_bool b w"
| "write_field (Reserved n) w = reserved_bits n w"
| "write_field (Text s) w = text_field s w"
| "write_field (Fail e) w = Some (bw_fail e w)"

fun write_fields :: "data_field list \<Rightarrow> bit_writer \<Rightarrow> bit_writer option" where
  "write_fields [] w = Some w"
| "write_fields (f # fs) w = do { w \<leftarrow> write_field f w; write_fields fs w }"

text \<open>The payload of the writer is the part of the output after the frame header.\<close>

fun payload_view :: "u8 ptr \<Rightarrow> nat \<Rightarrow> u8 ptr option" where
  "payload_view (Null m) n = None"
| "payload_view (Mem xs) n = (if 3 + n \<le> length xs then Some (Mem (take n (drop 3 xs))) else None)"

definition rtcm_encode_message :: "data_field list \<Rightarrow> u8 ptr \<Rightarrow> (status \<times> u8 ptr \<times> nat) option" where
  "rtcm_encode_message fs output =
     (if is_null output then Some (status_invalid_argument, output, 0)
      else if psize output < RTCM_FRAME_OVERHEAD then Some (status_full, output, 0)
      else do {
        let capacity = psize output - RTCM_FRAME_OVERHEAD;
        let capacity = (if capacity > RTCM_MAX_PAYLOAD_LEN then RTCM_MAX_PAYLOAD_LEN else capacity);
        view \<leftarrow> payload_view output capacity;
        w \<leftarrow> write_fields fs (bit_writer_init view);
        output \<leftarrow> (case bw_payload w of Mem xs \<Rightarrow> store output 3 xs | Null n \<Rightarrow> None);
        if bw_status w \<noteq> status_ok then Some (bw_status w, output, 0)
        else do { (output, written) \<leftarrow> finish_frame output (bw_size w); Some (status_ok, output, written) } })"

end
