(* ===== verification/RtcmFrame.thy ===== *)
theory RtcmFrame
  imports Rtcm
begin

text \<open>
  What the RTCM encoder puts on the wire: the bits of the fields in order, in a frame whose checksum
  betrays damage.
\<close>

section \<open>Bits on the wire\<close>

text \<open>The low bits of a word, most significant first, and a bit string cut into bytes, the last one padded
  with zero bits.\<close>

definition msb_bits :: "nat \<Rightarrow> 'w::len word \<Rightarrow> bool list" where
  "msb_bits n v = map (\<lambda>k. bit v (n - 1 - k)) [0..<n]"

definition byte_of :: "bool list \<Rightarrow> u8" where
  "byte_of bs = horner_sum of_bool 2 (map (\<lambda>k. 7 - k < length bs \<and> bs ! (7 - k)) [0..<8])"

definition pack :: "bool list \<Rightarrow> u8 list" where
  "pack bs = map (\<lambda>i. byte_of (take 8 (drop (8 * i) bs))) [0..<(length bs + 7) div 8]"

lemma length_msb_bits [simp]: "length (msb_bits n v) = n"
  by (simp add: msb_bits_def)

lemma length_pack [simp]: "length (pack bs) = (length bs + 7) div 8"
  by (simp add: pack_def)

lemma bit_byte_of: "bit (byte_of bs) j \<longleftrightarrow> j < 8 \<and> 7 - j < length bs \<and> bs ! (7 - j)"
  by (simp add: byte_of_def bit_horner_sum_bit_word_iff cong: conj_cong)

lemma byte_of_Nil: "byte_of [] = 0"
  by (rule bit_word_eqI) (simp add: bit_byte_of)

lemma msb_bits_split:
  assumes "t \<le> n"
  shows "msb_bits n v = msb_bits t (drop_bit (n - t) v) @ msb_bits (n - t) v"
proof (rule nth_equalityI)
  fix k assume "k < length (msb_bits n v)"
  with assms show "msb_bits n v ! k = (msb_bits t (drop_bit (n - t) v) @ msb_bits (n - t) v) ! k"
    by (auto simp: msb_bits_def nth_append bit_drop_bit_eq)
qed (use assms in simp)

lemma div8_up: "(n + 7) div 8 = Suc q" if "n = 8 * q + r" and "0 < r" and "r \<le> 8" for n q r :: nat
  by (intro div_nat_eqI) (use that in simp_all)

text \<open>Appending up to the rest of a byte: the bytes before stay, the last one gets the new bits.\<close>

lemma pack_append:
  assumes "length cs \<le> 8 - length bs mod 8" and "cs \<noteq> []"
  shows "pack (bs @ cs) = take (length bs div 8) (pack bs) @ [byte_of (drop (8 * (length bs div 8)) bs @ cs)]"
proof -
  let ?q = "length bs div 8"
  have n: "length bs = 8 * ?q + length bs mod 8" by simp
  have "0 < length cs" using assms(2) by simp
  moreover have "length bs mod 8 + length cs \<le> 8" using assms(1) \<open>0 < length cs\<close> by linarith
  ultimately have "(length bs + length cs + 7) div 8 = Suc ?q"
    using div8_up [of "length bs + length cs" ?q "length bs mod 8 + length cs"] n by linarith
  moreover have "take 8 (drop (8 * i) (bs @ cs)) = take 8 (drop (8 * i) bs)" if "i < ?q" for i
  proof -
    have "8 * i + 8 \<le> length bs" using that n by linarith
    then show ?thesis by simp
  qed
  moreover have "take 8 (drop (8 * ?q) (bs @ cs)) = drop (8 * ?q) bs @ cs"
    using \<open>length bs mod 8 + length cs \<le> 8\<close> n by (simp add: minus_mult_div_eq_mod)
  moreover have "?q \<le> (length bs + 7) div 8" by (simp add: div_le_mono)
  ultimately show ?thesis by (simp add: pack_def take_map)
qed

lemma pack_partial:
  assumes "length bs mod 8 \<noteq> 0"
  shows "pack bs = take (length bs div 8) (pack bs) @ [byte_of (drop (8 * (length bs div 8)) bs)]"
proof -
  let ?q = "length bs div 8"
  have n: "length bs = 8 * ?q + length bs mod 8" "length bs mod 8 < 8" "0 < length bs mod 8" using assms by simp_all
  have "(length bs + 7) div 8 = Suc ?q" using div8_up [OF n(1,3)] n(2) by simp
  moreover have "take 8 (drop (8 * ?q) bs) = drop (8 * ?q) bs" by (simp add: minus_mult_div_eq_mod less_imp_le)
  ultimately show ?thesis by (simp add: pack_def take_map)
qed

lemma pack_full: "length bs mod 8 = 0 \<Longrightarrow> length (pack bs) = length bs div 8"
  by simp presburger

lemma byte_of_append:
  assumes "length bs + length cs \<le> 8"
  shows "byte_of (bs @ cs) = byte_of bs OR push_bit (8 - length bs - length cs) (byte_of (replicate (8 - length cs) False @ cs))"
  by (rule bit_word_eqI) (use assms in \<open>auto simp: bit_or_iff bit_push_bit_iff bit_byte_of nth_append\<close>)

lemma chunk_byte:
  assumes "t \<le> n" and "n \<le> 64" and "t \<le> 8"
  shows "(ucast (drop_bit (n - t) (v :: u64) AND (push_bit t 1 - 1)) :: u8) = byte_of (replicate (8 - t) False @ msb_bits t (drop_bit (n - t) v))"
proof -
  have "push_bit t 1 - 1 = (mask t :: u64)" by (simp add: mask_eq_exp_minus_1)
  then show ?thesis
    by (intro bit_word_eqI) (use assms in \<open>auto simp: bit_ucast_iff bit_and_iff bit_mask_iff bit_byte_of msb_bits_def nth_append bit_drop_bit_eq\<close>)
qed

section \<open>The writer appends bits\<close>

text \<open>The writer over \<open>buf\<close> that has written \<open>bs\<close>.\<close>

definition writer_at :: "u8 list \<Rightarrow> bool list \<Rightarrow> bit_writer" where
  "writer_at buf bs = \<lparr>bw_payload = Mem (pack bs @ drop (length (pack bs)) buf), bw_position = length bs, bw_status = status_ok\<rparr>"

lemma write_loop_appends:
  assumes "width \<le> 64" and "length bs + width \<le> 8 * length buf"
  shows "write_loop v width (writer_at buf bs) = Some (writer_at buf (bs @ msb_bits width v))"
  using assms
proof (induction width arbitrary: bs rule: less_induct)
  case (less width)
  show ?case
  proof (cases "width = 0")
    case True
    then show ?thesis by (subst write_loop.simps) (simp add: msb_bits_def)
  next
    case False
    define offset where "offset = length bs mod 8"
    define t where "t = (if width < 8 - offset then width else 8 - offset)"
    define q where "q = length bs div 8"
    define cs where "cs = msb_bits t (drop_bit (width - t) v)"
    have t: "0 < t" "t \<le> width" "offset + t \<le> 8" "length cs = t" "cs \<noteq> []" "t \<le> 8 - offset"
      using False by (auto simp: t_def offset_def cs_def msb_bits_def)
    have n: "length bs = 8 * q + offset" by (simp add: q_def offset_def)
    have q: "q < length buf" using less.prems(2) n t(1,2) by linarith
    have qp: "q \<le> length (pack bs)" unfolding length_pack q_def by presburger
    have part: "length (drop (8 * q) bs) = offset" using n by simp
    define chunk where "chunk = (ucast (drop_bit (width - t) v AND (push_bit t 1 - 1)) :: u8)"
    have chunk: "byte_of (drop (8 * q) bs @ cs) = byte_of (drop (8 * q) bs) OR push_bit (8 - offset - t) chunk"
      using byte_of_append [of "drop (8 * q) bs" cs] chunk_byte [of t width v] t less.prems(1) part by (simp add: chunk_def cs_def)
    have packed: "pack (bs @ cs) = take q (pack bs) @ [byte_of (drop (8 * q) bs @ cs)]"
      using pack_append [of cs bs] t(4-6) by (simp add: q_def offset_def del: length_pack)
    let ?mem = "take q (pack bs) @ byte_of (drop (8 * q) bs) # drop (Suc q) buf"
    have clear: "(if offset = 0 then put (Mem (pack bs @ drop (length (pack bs)) buf)) q 0 else Some (Mem (pack bs @ drop (length (pack bs)) buf))) = Some (Mem ?mem)"
    proof (cases "offset = 0")
      case True
      then have "length (pack bs) = q" using pack_full [of bs] by (simp add: offset_def q_def)
      moreover have "byte_of (drop (8 * q) bs) = 0" using part True by (simp add: byte_of_Nil)
      ultimately show ?thesis using True q by (simp add: list_update_append Cons_nth_drop_Suc [symmetric] del: length_pack)
    next
      case False
      have p: "pack bs = take q (pack bs) @ [byte_of (drop (8 * q) bs)]"
        using pack_partial [of bs] False unfolding offset_def q_def by blast
      have "pack bs @ d = take q (pack bs) @ byte_of (drop (8 * q) bs) # d" for d by (subst p) simp
      moreover have "length (pack bs) = Suc q" using False unfolding length_pack offset_def q_def by presburger
      ultimately show ?thesis using False by (simp only: if_False)
    qed
    have len: "length (take q (pack bs)) = q" using qp by (simp del: length_pack)
    have "put (Mem ?mem) q (byte_of (drop (8 * q) bs @ cs)) = Some (Mem (pack (bs @ cs) @ drop (length (pack (bs @ cs))) buf))"
      unfolding packed using len q by (simp add: list_update_append del: length_take)
    moreover have "rd (Mem ?mem) q = Some (byte_of (drop (8 * q) bs))" using len q by (simp add: nth_append del: length_take)
    ultimately have "write_loop v width (writer_at buf bs) = write_loop v (width - t) (writer_at buf (bs @ cs))"
      unfolding chunk using False
      by (subst write_loop.simps)
        (simp only: writer_at_def bit_writer.select_convs bit_writer.update_convs offset_def [symmetric] q_def [symmetric] Let_def
          t_def [symmetric] chunk_def [symmetric] clear length_append t(4) neq0_conv if_True Option.bind.bind_lunit)
    also have "\<dots> = Some (writer_at buf ((bs @ cs) @ msb_bits (width - t) v))"
      using less.prems t by (intro less.IH) simp_all
    also have "(bs @ cs) @ msb_bits (width - t) v = bs @ msb_bits width v"
      using msb_bits_split [OF t(2), of v] by (simp add: cs_def)
    finally show ?thesis .
  qed
qed

section \<open>The outcome of a list of fields\<close>

text \<open>Appending bits to a payload of \<open>cap\<close> bits, and the fields of a message: the first field that does not
  fit its width or the payload decides.\<close>

definition put_bits :: "nat \<Rightarrow> bool list \<Rightarrow> bool list \<Rightarrow> status + bool list" where
  "put_bits cap bs new = (if length bs + length new \<le> cap then Inr (bs @ new) else Inl status_full)"

fun append_field :: "nat \<Rightarrow> bool list \<Rightarrow> data_field \<Rightarrow> status + bool list" where
  "append_field cap bs (Unsigned v n) =
     (if n > 64 \<or> unat v \<ge> 2 ^ n then Inl status_out_of_range else put_bits cap bs (msb_bits n v))"
| "append_field cap bs (Signed v n) =
     (if n = 0 \<or> n > 64 \<or> sint v < - (2 ^ (n - 1)) \<or> sint v \<ge> 2 ^ (n - 1) then Inl status_out_of_range
      else put_bits cap bs (msb_bits n v))"
| "append_field cap bs (Flag b) = put_bits cap bs [b]"
| "append_field cap bs (Reserved n) = put_bits cap bs (replicate n False)"
| "append_field cap bs (Text s) = put_bits cap bs (concat (map (msb_bits 8) (of_nat (length s) # s)))"
| "append_field cap bs (Fail e) = (if e = status_ok then Inr bs else Inl e)"

fun append_fields :: "nat \<Rightarrow> bool list \<Rightarrow> data_field list \<Rightarrow> status + bool list" where
  "append_fields cap bs [] = Inr bs"
| "append_fields cap bs (f # fs) = (case append_field cap bs f of Inl e \<Rightarrow> Inl e | Inr bs \<Rightarrow> append_fields cap bs fs)"

text \<open>A writer in the state that an outcome describes.\<close>

fun writer_is :: "u8 list \<Rightarrow> status + bool list \<Rightarrow> bit_writer \<Rightarrow> bool" where
  "writer_is buf (Inr bs) w \<longleftrightarrow> w = writer_at buf bs \<and> length bs \<le> 8 * length buf"
| "writer_is buf (Inl e) w \<longleftrightarrow> bw_status w = e \<and> e \<noteq> status_ok \<and> (\<exists>xs. bw_payload w = Mem xs \<and> length xs = length buf)"

lemma write_bits_latched: "bw_status w \<noteq> status_ok \<Longrightarrow> write_bits v n w = Some w"
  by (simp add: write_bits_def)

lemma payload_length: "length bs \<le> 8 * length buf \<Longrightarrow> (length bs + 7) div 8 \<le> length buf"
  by presburger

lemma write_bits_is:
  assumes "length bs \<le> 8 * length buf"
  shows "\<exists>w. write_bits v n (writer_at buf bs) = Some w \<and> writer_is buf (append_field (8 * length buf) bs (Unsigned v n)) w"
proof -
  have range: "n < 64 \<and> drop_bit n v \<noteq> 0 \<longleftrightarrow> n < 64 \<and> unat v \<ge> 2 ^ n"
  proof -
    have "drop_bit n v = 0 \<longleftrightarrow> unat (drop_bit n v) = 0" by (simp add: unat_eq_0)
    also have "\<dots> \<longleftrightarrow> unat v < 2 ^ n" using drop_bit_eq_div [of n "unat v"] by (simp only: unat_drop_bit_eq div_eq_0_iff) simp
    finally show ?thesis by (auto simp: not_less)
  qed
  have top: "unat v < 2 ^ 64" using unsigned_less [of v] by simp
  have room: "remaining_bits (writer_at buf bs) = 8 * length buf - length bs"
    using payload_length [OF assms] by (simp add: remaining_bits_def writer_at_def)
  show ?thesis
    using assms room range top write_loop_appends [of n bs buf v] payload_length [OF assms]
    by (cases "n = 64") (auto simp: write_bits_def put_bits_def writer_at_def)
qed

text \<open>Writes compose: the next one sees the state left by the last, and a failure stays.\<close>

lemma writer_is_bind:
  assumes "\<exists>w. x = Some w \<and> writer_is buf r w"
    and "\<And>bs. r = Inr bs \<Longrightarrow> length bs \<le> 8 * length buf \<Longrightarrow> \<exists>w. f (writer_at buf bs) = Some w \<and> writer_is buf (g bs) w"
    and "\<And>w. bw_status w \<noteq> status_ok \<Longrightarrow> f w = Some w"
  shows "\<exists>w. Option.bind x f = Some w \<and> writer_is buf (case r of Inl e \<Rightarrow> Inl e | Inr bs \<Rightarrow> g bs) w"
  using assms by (cases r) fastforce+

lemma put_bits_append:
  "(case put_bits cap bs xs of Inl e \<Rightarrow> Inl e | Inr bs \<Rightarrow> put_bits cap bs ys) = put_bits cap bs (xs @ ys)"
  by (simp add: put_bits_def)

lemma append_byte: "append_field cap bs (Unsigned (ucast (c :: u8)) 8) = put_bits cap bs (msb_bits 8 c)"
proof -
  have "unat (ucast c :: u64) < 2 ^ 8" using byte_less [of c] by (simp add: byte_unat)
  moreover have "msb_bits 8 (ucast c :: u64) = msb_bits 8 c" by (auto simp: msb_bits_def bit_ucast_iff)
  ultimately show ?thesis by simp
qed

lemma text_loop_latched: "bw_status w \<noteq> status_ok \<Longrightarrow> rtcm_text_loop s w = Some w"
  by (induction s) (simp_all add: write_bits_latched)

lemma text_loop_is:
  "length bs \<le> 8 * length buf \<Longrightarrow>
   \<exists>w. rtcm_text_loop s (writer_at buf bs) = Some w \<and> writer_is buf (put_bits (8 * length buf) bs (concat (map (msb_bits 8) s))) w"
proof (induction s arbitrary: bs)
  case (Cons c s)
  have "\<exists>w. rtcm_text_loop (c # s) (writer_at buf bs) = Some w \<and>
      writer_is buf (case put_bits (8 * length buf) bs (msb_bits 8 c) of Inl e \<Rightarrow> Inl e
        | Inr bs \<Rightarrow> put_bits (8 * length buf) bs (concat (map (msb_bits 8) s))) w"
    unfolding rtcm_text_loop.simps
    using write_bits_is [OF Cons.prems, of "ucast c" 8, unfolded append_byte] Cons.IH text_loop_latched by (intro writer_is_bind) auto
  then show ?case by (simp only: put_bits_append list.map concat.simps)
qed (simp add: put_bits_def)

lemma reserved_latched: "bw_status w \<noteq> status_ok \<Longrightarrow> reserved_bits n w = Some w"
  by (induction n rule: less_induct) (subst reserved_bits.simps, simp add: write_bits_latched)

lemma append_zeros: "n \<le> 64 \<Longrightarrow> append_field cap bs (Unsigned 0 n) = put_bits cap bs (replicate n False)"
  by (simp add: msb_bits_def map_replicate_const)

lemma reserved_is:
  "length bs \<le> 8 * length buf \<Longrightarrow>
   \<exists>w. reserved_bits n (writer_at buf bs) = Some w \<and> writer_is buf (put_bits (8 * length buf) bs (replicate n False)) w"
proof (induction n arbitrary: bs rule: less_induct)
  case (less n)
  show ?case
  proof (cases "n > 64")
    case True
    have "\<exists>w. reserved_bits n (writer_at buf bs) = Some w \<and>
        writer_is buf (case put_bits (8 * length buf) bs (replicate 64 False) of Inl e \<Rightarrow> Inl e
          | Inr bs \<Rightarrow> put_bits (8 * length buf) bs (replicate (n - 64) False)) w"
      unfolding reserved_bits.simps [of n] if_P [OF True]
      using write_bits_is [OF less.prems, of 0 64, unfolded append_zeros [OF order_refl]] less.IH True reserved_latched by (intro writer_is_bind) auto
    then show ?thesis using True by (simp only: put_bits_append replicate_add [symmetric]) simp
  next
    case False
    with write_bits_is [OF less.prems, of 0 n] show ?thesis by (subst reserved_bits.simps) (simp add: append_zeros del: append_field.simps)
  qed
qed

lemma write_field_latched: "bw_status w \<noteq> status_ok \<Longrightarrow> write_field f w = Some w"
  by (cases f) (simp_all add: write_bits_latched field_signed_def bw_fail_def field_bool_def reserved_latched text_field_def text_loop_latched)

lemma write_fields_latched: "bw_status w \<noteq> status_ok \<Longrightarrow> write_fields fs w = Some w"
  by (induction fs) (simp_all add: write_field_latched)

lemma signed_fits:
  assumes "0 < n" and "n \<le> 64"
  shows "append_field cap bs (Unsigned (v AND (if n = 64 then NOT 0 else push_bit n 1 - 1)) n) = put_bits cap bs (msb_bits n v)"
proof -
  have mask: "v AND (if n = 64 then NOT 0 else push_bit n 1 - 1) = take_bit n v" for v :: u64
  proof (cases "n = 64")
    case True
    then show ?thesis using take_bit_length_eq [of v] by (simp only: if_True bit.compl_zero and.right_neutral) simp
  qed (simp add: take_bit_eq_mask mask_eq_exp_minus_1)
  have "unat (take_bit n v) < 2 ^ n" by (simp add: unsigned_take_bit_eq)
  moreover have "msb_bits n (take_bit n v) = msb_bits n v" using assms by (auto simp: msb_bits_def bit_take_bit_iff)
  ultimately show ?thesis using assms(2) unfolding mask by simp
qed

lemma bw_fail_is: "length bs \<le> 8 * length buf \<Longrightarrow> e \<noteq> status_ok \<Longrightarrow> writer_is buf (Inl e) (bw_fail e (writer_at buf bs))"
  using payload_length [of bs buf] by (simp add: bw_fail_def writer_at_def)

lemma write_field_is:
  assumes "length bs \<le> 8 * length buf"
  shows "\<exists>w. write_field f (writer_at buf bs) = Some w \<and> writer_is buf (append_field (8 * length buf) bs f) w"
proof (cases f)
  case (Unsigned v n)
  with write_bits_is [OF assms] show ?thesis by simp
next
  case (Signed v n)
  show ?thesis
  proof (cases "n = 0 \<or> n > 64 \<or> sint v < - (2 ^ (n - 1)) \<or> sint v \<ge> 2 ^ (n - 1)")
    case True
    have "- (2 ^ 63) \<le> sint v" "sint v < 2 ^ 63" using sint_ge [of v] sint_less [of v] by simp_all
    then have "field_signed v n (writer_at buf bs) = Some (bw_fail status_out_of_range (writer_at buf bs))"
      using True by (cases "n = 64") (auto simp: field_signed_def)
    with True Signed bw_fail_is [OF assms, of status_out_of_range] show ?thesis by (auto simp del: writer_is.simps)
  next
    case False
    then have "field_signed v n (writer_at buf bs) = write_bits (v AND (if n = 64 then NOT 0 else push_bit n 1 - 1)) n (writer_at buf bs)"
      unfolding field_signed_def by (auto simp del: push_bit_of_1)
    with False Signed write_bits_is [OF assms, of "v AND (if n = 64 then NOT 0 else push_bit n 1 - 1)" n] show ?thesis
      by (simp add: signed_fits del: push_bit_of_1 append_field.simps(1))
  qed
next
  case (Flag b)
  have "append_field (8 * length buf) bs (Unsigned (if b then 1 else 0) 1) = put_bits (8 * length buf) bs [b]"
    by (simp add: msb_bits_def)
  with Flag write_bits_is [OF assms, of "if b then 1 else 0" 1] show ?thesis by (simp add: field_bool_def del: append_field.simps(1))
next
  case (Reserved n)
  with reserved_is [OF assms] show ?thesis by simp
next
  case (Text s)
  have "\<exists>w. text_field s (writer_at buf bs) = Some w \<and>
      writer_is buf (case put_bits (8 * length buf) bs (msb_bits 8 (of_nat (length s) :: u8)) of Inl e \<Rightarrow> Inl e
        | Inr bs \<Rightarrow> put_bits (8 * length buf) bs (concat (map (msb_bits 8) s))) w"
    unfolding text_field_def
    using write_bits_is [OF assms, of "ucast (of_nat (length s) :: u8)" 8, unfolded append_byte] text_loop_is text_loop_latched
    by (intro writer_is_bind) auto
  with Text show ?thesis by (simp add: put_bits_append)
next
  case (Fail e)
  with bw_fail_is [OF assms, of e] assms show ?thesis by (cases "e = status_ok") (auto simp: bw_fail_def writer_at_def)
qed

lemma write_fields_is:
  "length bs \<le> 8 * length buf \<Longrightarrow>
   \<exists>w. write_fields fs (writer_at buf bs) = Some w \<and> writer_is buf (append_fields (8 * length buf) bs fs) w"
proof (induction fs arbitrary: bs)
  case (Cons f fs)
  then show ?case
    unfolding write_fields.simps append_fields.simps
    using write_field_is [OF Cons.prems] write_fields_latched by (intro writer_is_bind) auto
qed simp

section \<open>Frames\<close>

definition crc_bytes :: "u32 \<Rightarrow> u8 list" where
  "crc_bytes c = [ucast (drop_bit 16 c), ucast (drop_bit 8 c), ucast c]"

definition frame_head :: "u8 list \<Rightarrow> u8 list" where
  "frame_head p = RTCM_PREAMBLE # rev (le_bytes 2 (of_nat (length p) :: u16)) @ p"

definition rtcm_frame :: "u8 list \<Rightarrow> u8 list" where
  "rtcm_frame p = frame_head p @ crc_bytes (crc_calculate crc24q (Mem (frame_head p)))"

lemma length_frame [simp]: "length (frame_head p) = length p + 3" "length (rtcm_frame p) = length p + 6"
  by (simp_all add: frame_head_def rtcm_frame_def crc_bytes_def)

lemma finish_frame_is:
  assumes "length p + 6 \<le> length xs"
  shows "finish_frame (Mem (take 3 xs @ p @ drop (3 + length p) xs)) (length p) = Some (Mem (rtcm_frame p @ drop (length p + 6) xs), length p + 6)"
proof -
  have "length xs \<ge> 3" using assms by simp
  then obtain a b c ys where xs: "xs = a # b # c # ys" by (metis One_nat_def Suc_le_length_iff numeral_3_eq_3)
  have ys: "length p + 3 \<le> length ys" using assms by (simp add: xs)
  then obtain d e f zs where zs: "drop (length p) ys = d # e # f # zs"
    by (metis (no_types, opaque_lifting) Suc_le_length_iff add_le_imp_le_diff add.commute length_drop numeral_3_eq_3)
  have "write_be16 (Mem (RTCM_PREAMBLE # b # c # p @ d # e # f # zs)) 1 (of_nat (length p)) = Some (Mem (frame_head p @ d # e # f # zs))"
    unfolding writes_store by (simp add: frame_head_def)
  moreover have "take 3 xs @ p @ drop (3 + length p) xs = a # b # c # p @ d # e # f # zs"
    by (simp add: xs numeral_3_eq_3 zs [symmetric])
  moreover have "drop (length p + 6) xs = drop 3 (drop (length p) ys)"
    by (simp add: xs eval_nat_numeral ac_simps)
  then have "drop (length p + 6) xs = zs" by (simp only: zs) simp
  ultimately show ?thesis
    by (simp add: finish_frame_def Let_def rtcm_constants rtcm_frame_def crc_bytes_def list_update_append nth_append)
qed

lemma pack_Nil [simp]: "pack [] = []"
  by (simp add: pack_def)

lemma writer_at_Nil: "bit_writer_init (Mem buf) = writer_at buf []"
  by (simp add: bit_writer_init_def writer_at_def)

lemma encode_message_is:
  assumes "6 \<le> length xs"
  defines "cap \<equiv> min 1023 (length xs - 6)"
  shows "case append_fields (8 * cap) [] fs of
      Inl e \<Rightarrow> e \<noteq> status_ok \<and> (\<exists>ys. rtcm_encode_message fs (Mem xs) = Some (e, Mem ys, 0) \<and> length ys = length xs)
    | Inr bs \<Rightarrow> length bs \<le> 8 * cap \<and> rtcm_encode_message fs (Mem xs) =
        Some (status_ok, Mem (rtcm_frame (pack bs) @ drop (length (pack bs) + 6) xs), length (pack bs) + 6)"
proof -
  define buf where "buf = take cap (drop 3 xs)"
  have cap: "cap \<le> length xs - 6" "cap \<le> 1023" "length buf = cap" using assms(1) by (auto simp: cap_def buf_def)
  obtain w where w: "write_fields fs (writer_at buf []) = Some w" "writer_is buf (append_fields (8 * cap) [] fs) w"
    using write_fields_is [of "[]" buf fs] cap(3) by auto
  have step: "rtcm_encode_message fs (Mem xs) = do {
      output \<leftarrow> (case bw_payload w of Mem ys \<Rightarrow> store (Mem xs) 3 ys | Null n \<Rightarrow> None);
      if bw_status w \<noteq> status_ok then Some (bw_status w, output, 0)
      else do { (output, written) \<leftarrow> finish_frame output (bw_size w); Some (status_ok, output, written) } }"
  proof -
    have capacity: "(if length xs - (3 + 3) > 1023 then 1023 else length xs - (3 + 3)) = cap" "\<not> length xs < 3 + 3"
      using assms(1) by (simp_all add: cap_def)
    have view: "payload_view (Mem xs) cap = Some (Mem buf)" using assms(1) cap(1) by (simp add: buf_def)
    show ?thesis
      by (simp only: rtcm_encode_message_def rtcm_constants is_null.simps psize.simps Let_def capacity view writer_at_Nil w(1) if_False Option.bind.bind_lunit)
  qed
  show ?thesis
  proof (cases "append_fields (8 * cap) [] fs")
    case (Inl e)
    with w(2) cap assms(1) show ?thesis unfolding step by auto
  next
    case (Inr bs)
    then have bs: "w = writer_at buf bs" "length bs \<le> 8 * cap" using w(2) cap(3) by simp_all
    then have fits: "length (pack bs) \<le> cap" using payload_length [of bs buf] cap(3) by simp
    have "bw_payload w = Mem (pack bs @ drop (length (pack bs)) buf)" "bw_status w = status_ok" "bw_size w = length (pack bs)"
      by (simp_all add: bs(1) writer_at_def bw_size_def)
    moreover have "store (Mem xs) 3 (pack bs @ drop (length (pack bs)) buf) = Some (Mem (take 3 xs @ pack bs @ drop (3 + length (pack bs)) xs))"
    proof -
      have "length (pack bs @ drop (length (pack bs)) buf) = cap" using fits cap(3) by (simp del: length_pack)
      moreover have "drop (length (pack bs)) buf @ drop (3 + cap) xs = drop (3 + length (pack bs)) xs"
      proof -
        have "drop 3 xs = buf @ drop cap (drop 3 xs)" unfolding buf_def by (rule append_take_drop_id [symmetric])
        then have "drop (length (pack bs)) (drop 3 xs) = drop (length (pack bs)) buf @ drop cap (drop 3 xs)"
          using fits cap(3) by (metis append_Nil2 drop_append drop_0 diff_is_0_eq)
        then show ?thesis by (simp add: add.commute del: length_pack)
      qed
      moreover have "3 + cap \<le> length xs" using assms(1) cap(1) by simp
      ultimately show ?thesis by simp
    qed
    moreover have "finish_frame (Mem (take 3 xs @ pack bs @ drop (3 + length (pack bs)) xs)) (length (pack bs)) =
        Some (Mem (rtcm_frame (pack bs) @ drop (length (pack bs) + 6) xs), length (pack bs) + 6)"
      using fits cap(1) assms(1) by (intro finish_frame_is) linarith
    ultimately show ?thesis using Inr bs(2) unfolding step by (simp del: length_pack store.simps)
  qed
qed

lemma payload_loop_is:
  "length payload + 3 \<le> length xs \<Longrightarrow> i \<le> length payload \<Longrightarrow>
   payload_loop (Mem payload) i (Mem xs) = store (Mem xs) (3 + i) (drop i payload)"
proof (induction "length payload - i" arbitrary: i xs)
  case 0
  then show ?case by (subst payload_loop.simps) simp
next
  case (Suc k)
  then have i: "i < length payload" by simp
  have "payload_loop (Mem payload) i (Mem xs) = Option.bind (put (Mem xs) (3 + i) (payload ! i)) (\<lambda>q. store q (Suc (3 + i)) (drop (Suc i) payload))"
    using Suc.hyps(2) Suc.hyps(1) [of "Suc i"] Suc.prems i
    by (subst payload_loop.simps) (simp add: RTCM_FRAME_INDEX_PAYLOAD_def)
  then show ?case using i by (simp only: store_Cons Cons_nth_drop_Suc)
qed

text \<open>C31: a message whose fields fit is encoded as one frame: preamble, length, the fields' bits in order with
  zero padding to a byte, and the checksum of all that; the rest of the buffer is untouched.  Otherwise the
  status is the first failure, nothing is reported as written, and in no case is memory outside the buffer
  accessed.  Framing a finished payload gives the same frame.\<close>

theorem rtcm_messages_are_framed:
  "(case xs of
      Null n \<Rightarrow> rtcm_encode_message fs (Null n) = Some (status_invalid_argument, Null n, 0)
    | Mem buf \<Rightarrow> if length buf < 6 then rtcm_encode_message fs (Mem buf) = Some (status_full, Mem buf, 0)
        else case append_fields (8 * min 1023 (length buf - 6)) [] fs of
          Inl e \<Rightarrow> e \<noteq> status_ok \<and> (\<exists>ys. rtcm_encode_message fs (Mem buf) = Some (e, Mem ys, 0) \<and> length ys = length buf)
        | Inr bs \<Rightarrow> rtcm_encode_message fs (Mem buf) =
            Some (status_ok, Mem (rtcm_frame (pack bs) @ drop (length (rtcm_frame (pack bs))) buf), length (rtcm_frame (pack bs)))) \<and>
   (if length payload > 1023 then rtcm_encode_frame (Mem payload) (Mem ys) = Some (status_out_of_range, Mem ys, 0)
    else if length ys < length payload + 6 then rtcm_encode_frame (Mem payload) (Mem ys) = Some (status_full, Mem ys, 0)
    else rtcm_encode_frame (Mem payload) (Mem ys) =
      Some (status_ok, Mem (rtcm_frame payload @ drop (length (rtcm_frame payload)) ys), length (rtcm_frame payload)))"
proof (intro conjI)
  show "case xs of
      Null n \<Rightarrow> rtcm_encode_message fs (Null n) = Some (status_invalid_argument, Null n, 0)
    | Mem buf \<Rightarrow> if length buf < 6 then rtcm_encode_message fs (Mem buf) = Some (status_full, Mem buf, 0)
        else case append_fields (8 * min 1023 (length buf - 6)) [] fs of
          Inl e \<Rightarrow> e \<noteq> status_ok \<and> (\<exists>ys. rtcm_encode_message fs (Mem buf) = Some (e, Mem ys, 0) \<and> length ys = length buf)
        | Inr bs \<Rightarrow> rtcm_encode_message fs (Mem buf) =
            Some (status_ok, Mem (rtcm_frame (pack bs) @ drop (length (rtcm_frame (pack bs))) buf), length (rtcm_frame (pack bs)))"
  proof (cases xs)
    case (Mem buf)
    show ?thesis
    proof (cases "length buf < 6")
      case False
      with encode_message_is [of buf fs] Mem show ?thesis by (simp split: sum.splits)
    qed (simp add: Mem rtcm_encode_message_def rtcm_constants)
  qed (simp add: rtcm_encode_message_def)
next
  show "if length payload > 1023 then rtcm_encode_frame (Mem payload) (Mem ys) = Some (status_out_of_range, Mem ys, 0)
    else if length ys < length payload + 6 then rtcm_encode_frame (Mem payload) (Mem ys) = Some (status_full, Mem ys, 0)
    else rtcm_encode_frame (Mem payload) (Mem ys) =
      Some (status_ok, Mem (rtcm_frame payload @ drop (length (rtcm_frame payload)) ys), length (rtcm_frame payload))"
  proof (cases "length payload > 1023 \<or> length ys < length payload + 6")
    case False
    then show ?thesis
      using payload_loop_is [of payload ys 0] finish_frame_is [of payload ys]
      by (simp add: rtcm_encode_frame_def rtcm_frame_size_def rtcm_constants ac_simps)
  qed (auto simp: rtcm_encode_frame_def rtcm_frame_size_def rtcm_constants)
qed

section \<open>Damage is visible\<close>

lemma crc24q_word: "within 24 c \<Longrightarrow> assemble (\<lambda>i b. push_bit (24 - 8 * Suc i) (ucast b)) 0 t = c \<longleftrightarrow> t = crc_bytes c" if "length t = 3"
proof -
  from that obtain t0 t1 t2 where t: "t = [t0, t1, t2]" by (auto simp: length_Suc_conv numeral_3_eq_3)
  assume c: "within 24 c"
  show ?thesis
  proof
    assume a: "assemble (\<lambda>i b. push_bit (24 - 8 * Suc i) (ucast b)) 0 t = c"
    have "t0 = ucast (drop_bit 16 c)" "t1 = ucast (drop_bit 8 c)" "t2 = ucast c"
      unfolding a [symmetric] t by (auto intro!: bit_word_eqI simp: bit_simps)
    then show "t = crc_bytes c" by (simp add: t crc_bytes_def)
  next
    assume "t = crc_bytes c"
    then have "t0 = ucast (drop_bit 16 c)" "t1 = ucast (drop_bit 8 c)" "t2 = ucast c" by (simp_all add: t crc_bytes_def)
    then show "assemble (\<lambda>i b. push_bit (24 - 8 * Suc i) (ucast b)) 0 t = c"
      unfolding t using c by (intro bit_word_eqI) (auto simp: bit_simps within_def not_less)
  qed
qed

text \<open>C32: in a frame any damage confined to three consecutive bytes, wherever they are, leaves a frame whose
  last three bytes are not the checksum of the bytes before them.\<close>

theorem rtcm_damage_is_visible:
  assumes "rtcm_frame p = pre @ a @ post" and "length b = length a" and "length a \<le> 3" and "b \<noteq> a"
    and "damaged = pre @ b @ post"
  shows "drop (length damaged - 3) damaged \<noteq> crc_bytes (crc_calculate crc24q (Mem (take (length damaged - 3) damaged)))"
proof -
  let ?crc = "\<lambda>m. foldl (update_byte crc24q) 0 m"
  have crc: "crc_calculate crc24q (Mem m) = ?crc m" for m
    by (simp add: crc_calculate_def crc_value_def crc_finalize_def crc_reset_def crc24q_def)
  have absorb: "update_byte crc24q = absorb (shift_left crc24q) (\<lambda>i b. push_bit (24 - 8 * Suc i) (ucast b))"
    by (simp add: update_absorb) (simp add: crc24q_def)
  have w: "within 24 (?crc m)" for m
    using updates_within [of crc24q 0 m] crc_models_detecting crc_widths by (simp add: within_def)
  have residue: "?crc (m @ t) = 0 \<longleftrightarrow> t = crc_bytes (?crc m)" if "length t = 3" for m t
    using crc24q.residue [of t "?crc m"] w [of m] that crc24q_word [OF that w] by (simp add: absorb)
  have "?crc (rtcm_frame p) = 0" using residue [of "crc_bytes (?crc (frame_head p))" "frame_head p"]
    by (simp only: rtcm_frame_def crc) (simp add: crc_bytes_def)
  moreover have "?crc (pre @ a @ post) \<noteq> ?crc (pre @ b @ post)"
    using crc24q.bursts_differ [of 0 a b pre post] assms(2-4) by (simp only: absorb) (simp add: within_def)
  ultimately have "?crc damaged \<noteq> 0" using assms(1,5) by metis
  moreover have "3 \<le> length damaged" using arg_cong [OF assms(1), of length] assms(2,5) by simp
  then have "damaged = take (length damaged - 3) damaged @ drop (length damaged - 3) damaged" "length (drop (length damaged - 3) damaged) = 3"
    by simp_all
  ultimately show ?thesis using residue crc by metis
qed

theorem rtcm_damage_is_visible_witness:
  "(let f = rtcm_frame [0x3E, 0xD0]; g = take 4 f @ [f ! 4 XOR 1] @ drop 5 f in
    drop (length g - 3) g \<noteq> crc_bytes (crc_calculate crc24q (Mem (take (length g - 3) g))))"
proof -
  define f where "f = rtcm_frame [0x3E, 0xD0]"
  define x where "x = f ! 4"
  have "bit (x XOR 1) 0 \<noteq> bit x 0" by (simp only: bit_xor_iff) simp
  then have "x XOR 1 \<noteq> x" by metis
  moreover have "length f = 8" by (simp add: f_def)
  then have "f = take 4 f @ x # drop 5 f" using id_take_nth_drop [of 4 f] by (simp add: x_def)
  ultimately show ?thesis
    unfolding Let_def f_def [symmetric] x_def [symmetric]
    using rtcm_damage_is_visible [of "[0x3E, 0xD0]" "take 4 f" "[x]" "drop 5 f" "[x XOR 1]"] by (simp only: f_def [symmetric]) simp
qed

end
