(* ===== verification/RtcmMessages.thy ===== *)
theory RtcmMessages
  imports RtcmFrame Bits
begin

text \<open>
  The RTCM 3 messages of \<open>castle_ext/protocols/rtcm/messages\<close>: a record per struct and the fields its
  \<open>encode\<close> writes.  The template parameters (message number, system and level) are arguments, a vector
  is a list and a string its characters.  The conversions from and to floating point are left out.
\<close>

section \<open>Descriptors and station\<close>

definition RTCM_MAX_DESCRIPTOR_LEN :: nat where "RTCM_MAX_DESCRIPTOR_LEN = 31"

text \<open>The message number and the station that start every message.\<close>

definition number_and_station :: "u16 \<Rightarrow> u16 \<Rightarrow> data_field list" where
  "number_and_station type station = [Unsigned (ucast type) 12, Unsigned (ucast station) 12]"

record antenna_descriptor =
  ad_station_id :: u16
  ad_descriptor :: "u8 list"
  ad_setup_id :: u8

definition antenna_descriptor_fields :: "antenna_descriptor \<Rightarrow> data_field list" where
  "antenna_descriptor_fields m = number_and_station 1007 (ad_station_id m) @ [Text (ad_descriptor m), Unsigned (ucast (ad_setup_id m)) 8]"

record receiver_antenna_descriptor =
  rd_station_id :: u16
  rd_antenna :: "u8 list"
  rd_antenna_setup_id :: u8
  rd_antenna_serial :: "u8 list"
  rd_receiver_type :: "u8 list"
  rd_firmware :: "u8 list"
  rd_receiver_serial :: "u8 list"

definition receiver_antenna_descriptor_fields :: "receiver_antenna_descriptor \<Rightarrow> data_field list" where
  "receiver_antenna_descriptor_fields m =
     number_and_station 1033 (rd_station_id m) @
     [Text (rd_antenna m), Unsigned (ucast (rd_antenna_setup_id m)) 8, Text (rd_antenna_serial m), Text (rd_receiver_type m),
      Text (rd_firmware m), Text (rd_receiver_serial m)]"

record station_arp =
  arp_station_id :: u16
  arp_itrf_year :: u8
  arp_gps :: bool
  arp_glonass :: bool
  arp_galileo :: bool
  arp_reference_station_indicator :: bool
  arp_ecef_x :: u64
  arp_single_receiver_oscillator :: bool
  arp_ecef_y :: u64
  arp_quarter_cycle_indicator :: u8
  arp_ecef_z :: u64
  arp_antenna_height :: u16

definition station_arp_fields :: "u16 \<Rightarrow> station_arp \<Rightarrow> data_field list" where
  "station_arp_fields type m =
     number_and_station type (arp_station_id m) @
     [Unsigned (ucast (arp_itrf_year m)) 6, Flag (arp_gps m), Flag (arp_glonass m), Flag (arp_galileo m),
      Flag (arp_reference_station_indicator m), Signed (arp_ecef_x m) 38, Flag (arp_single_receiver_oscillator m), Reserved 1,
      Signed (arp_ecef_y m) 38, Unsigned (ucast (arp_quarter_cycle_indicator m)) 2, Signed (arp_ecef_z m) 38] @
     (if type = 1006 then [Unsigned (ucast (arp_antenna_height m)) 16] else [])"

record glonass_code_phase_biases =
  cpb_station_id :: u16
  cpb_code_phase_bias_indicator :: bool
  cpb_signals_mask :: u8
  cpb_l1_ca_bias :: u16
  cpb_l1_p_bias :: u16
  cpb_l2_ca_bias :: u16
  cpb_l2_p_bias :: u16

definition glonass_code_phase_biases_fields :: "glonass_code_phase_biases \<Rightarrow> data_field list" where
  "glonass_code_phase_biases_fields m =
     number_and_station 1230 (cpb_station_id m) @
     [Flag (cpb_code_phase_bias_indicator m), Reserved 3, Unsigned (ucast (cpb_signals_mask m)) 4] @
     (if cpb_signals_mask m AND 0x08 \<noteq> 0 then [Signed (scast (cpb_l1_ca_bias m)) 16] else []) @
     (if cpb_signals_mask m AND 0x04 \<noteq> 0 then [Signed (scast (cpb_l1_p_bias m)) 16] else []) @
     (if cpb_signals_mask m AND 0x02 \<noteq> 0 then [Signed (scast (cpb_l2_ca_bias m)) 16] else []) @
     (if cpb_signals_mask m AND 0x01 \<noteq> 0 then [Signed (scast (cpb_l2_p_bias m)) 16] else [])"

section \<open>Legacy observables\<close>

text \<open>The optional parts of the four consecutive numbers of a family.\<close>

definition is_extended :: "u16 \<Rightarrow> u16 \<Rightarrow> bool" where
  "is_extended first type = ((type - first) AND 1 \<noteq> 0)"

definition has_l2 :: "u16 \<Rightarrow> u16 \<Rightarrow> bool" where
  "has_l2 first type = (type - first \<ge> 2)"

record gps_rtk_satellite =
  gs_satellite_id :: u8
  gs_l1_code :: u8
  gs_l1_pseudorange :: u32
  gs_l1_phase_minus_pseudorange :: u32
  gs_l1_lock_time :: u8
  gs_l1_ambiguity :: u8
  gs_l1_cnr :: u8
  gs_l2_code :: u8
  gs_l2_pseudorange_difference :: u16
  gs_l2_phase_minus_l1_pseudorange :: u32
  gs_l2_lock_time :: u8
  gs_l2_cnr :: u8

record gps_rtk_observables =
  go_station_id :: u16
  go_tow_ms :: u32
  go_synchronous :: bool
  go_divergence_free :: bool
  go_smoothing_interval :: u8
  go_satellites :: "gps_rtk_satellite list"

definition gps_satellite_fields :: "u16 \<Rightarrow> gps_rtk_satellite \<Rightarrow> data_field list" where
  "gps_satellite_fields type s =
     [Unsigned (ucast (gs_satellite_id s)) 6, Unsigned (ucast (gs_l1_code s)) 1, Unsigned (ucast (gs_l1_pseudorange s)) 24,
      Signed (scast (gs_l1_phase_minus_pseudorange s)) 20, Unsigned (ucast (gs_l1_lock_time s)) 7] @
     (if is_extended 1001 type then [Unsigned (ucast (gs_l1_ambiguity s)) 8, Unsigned (ucast (gs_l1_cnr s)) 8] else []) @
     (if has_l2 1001 type then
        [Unsigned (ucast (gs_l2_code s)) 2, Signed (scast (gs_l2_pseudorange_difference s)) 14,
         Signed (scast (gs_l2_phase_minus_l1_pseudorange s)) 20, Unsigned (ucast (gs_l2_lock_time s)) 7] @
        (if is_extended 1001 type then [Unsigned (ucast (gs_l2_cnr s)) 8] else [])
      else [])"

definition gps_rtk_observables_fields :: "u16 \<Rightarrow> gps_rtk_observables \<Rightarrow> data_field list" where
  "gps_rtk_observables_fields type m =
     number_and_station type (go_station_id m) @
     [Unsigned (ucast (go_tow_ms m)) 30, Flag (go_synchronous m), Unsigned (of_nat (length (go_satellites m))) 5,
      Flag (go_divergence_free m), Unsigned (ucast (go_smoothing_interval m)) 3] @
     concat (map (gps_satellite_fields type) (go_satellites m))"

record glonass_rtk_satellite =
  rs_satellite_id :: u8
  rs_l1_code :: u8
  rs_frequency_channel :: u8
  rs_l1_pseudorange :: u32
  rs_l1_phase_minus_pseudorange :: u32
  rs_l1_lock_time :: u8
  rs_l1_ambiguity :: u8
  rs_l1_cnr :: u8
  rs_l2_code :: u8
  rs_l2_pseudorange_difference :: u16
  rs_l2_phase_minus_l1_pseudorange :: u32
  rs_l2_lock_time :: u8
  rs_l2_cnr :: u8

record glonass_rtk_observables =
  ro_station_id :: u16
  ro_time_of_day_ms :: u32
  ro_synchronous :: bool
  ro_divergence_free :: bool
  ro_smoothing_interval :: u8
  ro_satellites :: "glonass_rtk_satellite list"

definition glonass_satellite_fields :: "u16 \<Rightarrow> glonass_rtk_satellite \<Rightarrow> data_field list" where
  "glonass_satellite_fields type s =
     [Unsigned (ucast (rs_satellite_id s)) 6, Unsigned (ucast (rs_l1_code s)) 1, Unsigned (ucast (rs_frequency_channel s)) 5,
      Unsigned (ucast (rs_l1_pseudorange s)) 25, Signed (scast (rs_l1_phase_minus_pseudorange s)) 20,
      Unsigned (ucast (rs_l1_lock_time s)) 7] @
     (if is_extended 1009 type then [Unsigned (ucast (rs_l1_ambiguity s)) 7, Unsigned (ucast (rs_l1_cnr s)) 8] else []) @
     (if has_l2 1009 type then
        [Unsigned (ucast (rs_l2_code s)) 2, Signed (scast (rs_l2_pseudorange_difference s)) 14,
         Signed (scast (rs_l2_phase_minus_l1_pseudorange s)) 20, Unsigned (ucast (rs_l2_lock_time s)) 7] @
        (if is_extended 1009 type then [Unsigned (ucast (rs_l2_cnr s)) 8] else [])
      else [])"

definition glonass_rtk_observables_fields :: "u16 \<Rightarrow> glonass_rtk_observables \<Rightarrow> data_field list" where
  "glonass_rtk_observables_fields type m =
     number_and_station type (ro_station_id m) @
     [Unsigned (ucast (ro_time_of_day_ms m)) 27, Flag (ro_synchronous m), Unsigned (of_nat (length (ro_satellites m))) 5,
      Flag (ro_divergence_free m), Unsigned (ucast (ro_smoothing_interval m)) 3] @
     concat (map (glonass_satellite_fields type) (ro_satellites m))"

section \<open>Multiple signal messages\<close>

datatype msm_system = msm_gps | msm_glonass | msm_galileo | msm_sbas | msm_qzss | msm_beidou

fun msm_system_value :: "msm_system \<Rightarrow> u16" where
  "msm_system_value msm_gps = 1070"
| "msm_system_value msm_glonass = 1080"
| "msm_system_value msm_galileo = 1090"
| "msm_system_value msm_sbas = 1100"
| "msm_system_value msm_qzss = 1110"
| "msm_system_value msm_beidou = 1120"

record msm_satellite =
  ms_rough_range_ms :: u8
  ms_extended_info :: u8
  ms_rough_range_mod :: u16
  ms_rough_phase_range_rate :: u16

record msm_signal =
  mg_fine_pseudorange :: u32
  mg_fine_phase_range :: u32
  mg_lock_time :: u16
  mg_half_cycle :: bool
  mg_cnr :: u16
  mg_fine_phase_range_rate :: u16

record msm_message =
  mm_station_id :: u16
  mm_epoch_time :: u32
  mm_multiple_message :: bool
  mm_iods :: u8
  mm_clock_steering :: u8
  mm_external_clock :: u8
  mm_divergence_free :: bool
  mm_smoothing_interval :: u8
  mm_satellite_mask :: u64
  mm_signal_mask :: u32
  mm_cell_mask :: u64
  mm_satellites :: "msm_satellite list"
  mm_signals :: "msm_signal list"

definition satellite_bit :: "nat \<Rightarrow> u64" where
  "satellite_bit ident = (if 1 \<le> ident \<and> ident \<le> 64 then push_bit (64 - ident) 1 else 0)"

definition signal_bit :: "nat \<Rightarrow> u32" where
  "signal_bit ident = (if 1 \<le> ident \<and> ident \<le> 32 then push_bit (32 - ident) 1 else 0)"

definition cell_bit :: "nat \<Rightarrow> nat \<Rightarrow> nat \<Rightarrow> nat \<Rightarrow> u64" where
  "cell_bit satellite_index signal_index satellite_count signal_count =
     (if satellite_index < satellite_count \<and> signal_index < signal_count \<and> satellite_count * signal_count \<le> 64
      then push_bit (satellite_count * signal_count - 1 - (satellite_index * signal_count + signal_index)) 1 else 0)"

definition set_glonass_epoch :: "u8 \<Rightarrow> u32 \<Rightarrow> msm_message \<Rightarrow> msm_message" where
  "set_glonass_epoch day time m = m\<lparr>mm_epoch_time := push_bit 27 (ucast (day AND 0x07)) OR (time AND 0x07FFFFFF)\<rparr>"

definition msm_fields :: "msm_system \<Rightarrow> u8 \<Rightarrow> msm_message \<Rightarrow> data_field list" where
  "msm_fields system level m =
     (let satellite_count = unat (popcount (mm_satellite_mask m));
          signal_count = unat (popcount (ucast (mm_signal_mask m)));
          cell_bits = satellite_count * signal_count;
          has_rate = (level \<ge> 5);
          pseudorange_bits = (if level = 7 then 20 else 15);
          phase_range_bits = (if level = 7 then 24 else 22);
          lock_time_bits = (if level = 7 then 10 else 4);
          cnr_bits = (if level = 7 then 10 else 6)
      in if cell_bits > 64 \<or> length (mm_satellites m) \<noteq> satellite_count \<or> length (mm_signals m) \<noteq> unat (popcount (mm_cell_mask m))
         then [Fail status_invalid_argument]
         else
           number_and_station (msm_system_value system + ucast level) (mm_station_id m) @
           [Unsigned (ucast (mm_epoch_time m)) 30, Flag (mm_multiple_message m), Unsigned (ucast (mm_iods m)) 3, Reserved 7,
            Unsigned (ucast (mm_clock_steering m)) 2, Unsigned (ucast (mm_external_clock m)) 2, Flag (mm_divergence_free m),
            Unsigned (ucast (mm_smoothing_interval m)) 3, Unsigned (mm_satellite_mask m) 64, Unsigned (ucast (mm_signal_mask m)) 32,
            Unsigned (mm_cell_mask m) cell_bits] @
           map (\<lambda>s. Unsigned (ucast (ms_rough_range_ms s)) 8) (mm_satellites m) @
           (if has_rate then map (\<lambda>s. Unsigned (ucast (ms_extended_info s)) 4) (mm_satellites m) else []) @
           map (\<lambda>s. Unsigned (ucast (ms_rough_range_mod s)) 10) (mm_satellites m) @
           (if has_rate then map (\<lambda>s. Signed (scast (ms_rough_phase_range_rate s)) 14) (mm_satellites m) else []) @
           map (\<lambda>c. Signed (scast (mg_fine_pseudorange c)) pseudorange_bits) (mm_signals m) @
           map (\<lambda>c. Signed (scast (mg_fine_phase_range c)) phase_range_bits) (mm_signals m) @
           map (\<lambda>c. Unsigned (ucast (mg_lock_time c)) lock_time_bits) (mm_signals m) @
           map (\<lambda>c. Flag (mg_half_cycle c)) (mm_signals m) @
           map (\<lambda>c. Unsigned (ucast (mg_cnr c)) cnr_bits) (mm_signals m) @
           (if has_rate then map (\<lambda>c. Signed (scast (mg_fine_phase_range_rate c)) 15) (mm_signals m) else []))"

section \<open>All messages\<close>

text \<open>A message with its template arguments; \<open>message_ok\<close> holds the static assertions and the capacities of
  the containers.\<close>

datatype rtcm_message =
    Antenna antenna_descriptor
  | Receiver receiver_antenna_descriptor
  | Station u16 station_arp
  | Biases glonass_code_phase_biases
  | Gps u16 gps_rtk_observables
  | Glonass u16 glonass_rtk_observables
  | Msm msm_system u8 msm_message

fun message_fields :: "rtcm_message \<Rightarrow> data_field list" where
  "message_fields (Antenna m) = antenna_descriptor_fields m"
| "message_fields (Receiver m) = receiver_antenna_descriptor_fields m"
| "message_fields (Station t m) = station_arp_fields t m"
| "message_fields (Biases m) = glonass_code_phase_biases_fields m"
| "message_fields (Gps t m) = gps_rtk_observables_fields t m"
| "message_fields (Glonass t m) = glonass_rtk_observables_fields t m"
| "message_fields (Msm sys l m) = msm_fields sys l m"

definition descriptor_ok :: "u8 list \<Rightarrow> bool" where
  "descriptor_ok s \<longleftrightarrow> length s \<le> RTCM_MAX_DESCRIPTOR_LEN"

fun message_ok :: "rtcm_message \<Rightarrow> bool" where
  "message_ok (Antenna m) \<longleftrightarrow> descriptor_ok (ad_descriptor m)"
| "message_ok (Receiver m) \<longleftrightarrow>
     list_all descriptor_ok [rd_antenna m, rd_antenna_serial m, rd_receiver_type m, rd_firmware m, rd_receiver_serial m]"
| "message_ok (Station t m) \<longleftrightarrow> t \<in> {1005, 1006}"
| "message_ok (Biases m) \<longleftrightarrow> True"
| "message_ok (Gps t m) \<longleftrightarrow> t \<in> {1001, 1002, 1003, 1004} \<and> length (go_satellites m) \<le> 31"
| "message_ok (Glonass t m) \<longleftrightarrow> t \<in> {1009, 1010, 1011, 1012} \<and> length (ro_satellites m) \<le> 31"
| "message_ok (Msm sys l m) \<longleftrightarrow> l \<in> {4, 5, 7} \<and> length (mm_satellites m) \<le> 64 \<and> length (mm_signals m) \<le> 64"

section \<open>Sizes\<close>

fun field_width :: "data_field \<Rightarrow> nat" where
  "field_width (Unsigned v n) = n"
| "field_width (Signed v n) = n"
| "field_width (Flag b) = 1"
| "field_width (Reserved n) = n"
| "field_width (Text s) = 8 + 8 * length s"
| "field_width (Fail e) = 0"

fun field_fits :: "data_field \<Rightarrow> bool" where
  "field_fits (Unsigned v n) \<longleftrightarrow> n \<le> 64 \<and> unat v < 2 ^ n"
| "field_fits (Signed v n) \<longleftrightarrow> 0 < n \<and> n \<le> 64 \<and> - (2 ^ (n - 1)) \<le> sint v \<and> sint v < 2 ^ (n - 1)"
| "field_fits (Fail e) \<longleftrightarrow> False"
| "field_fits _ \<longleftrightarrow> True"

abbreviation total_width :: "data_field list \<Rightarrow> nat" where
  "total_width fs \<equiv> sum_list (map field_width fs)"

fun is_fail :: "data_field \<Rightarrow> bool" where
  "is_fail (Fail e) \<longleftrightarrow> True"
| "is_fail _ \<longleftrightarrow> False"

lemma length_text_bits [simp]: "length (concat (map (msb_bits 8) s)) = 8 * length (s :: u8 list)"
  by (induction s) simp_all

lemma append_field_outcome:
  assumes "length bs + field_width f \<le> cap" and "\<not> is_fail f"
  shows "if field_fits f then \<exists>new. append_field cap bs f = Inr (bs @ new) \<and> length new = field_width f
    else append_field cap bs f = Inl status_out_of_range"
  using assms by (cases f) (auto simp: put_bits_def)

lemma append_fields_outcome:
  "length bs + total_width fs \<le> cap \<Longrightarrow> list_all (\<lambda>f. \<not> is_fail f) fs \<Longrightarrow>
   (if list_all field_fits fs then \<exists>new. append_fields cap bs fs = Inr (bs @ new) \<and> length new = total_width fs
    else append_fields cap bs fs = Inl status_out_of_range)"
proof (induction fs arbitrary: bs)
  case (Cons f fs)
  then have f: "if field_fits f then \<exists>new. append_field cap bs f = Inr (bs @ new) \<and> length new = field_width f
    else append_field cap bs f = Inl status_out_of_range"
    using append_field_outcome [of bs f cap] by simp
  show ?case
  proof (cases "field_fits f")
    case True
    with f obtain new where new: "append_field cap bs f = Inr (bs @ new)" "length new = field_width f" by auto
    then show ?thesis using Cons.IH [of "bs @ new"] Cons.prems True by (cases "list_all field_fits fs") auto
  next
    case False
    then show ?thesis using f by simp
  qed
qed simp

text \<open>The sizes the headers document.\<close>

fun msm_consistent :: "msm_message \<Rightarrow> bool" where
  "msm_consistent m \<longleftrightarrow>
     unat (count_ones (mm_satellite_mask m)) * unat (count_ones (mm_signal_mask m)) \<le> 64 \<and>
     length (mm_satellites m) = unat (count_ones (mm_satellite_mask m)) \<and>
     length (mm_signals m) = unat (count_ones (mm_cell_mask m))"

fun message_bits :: "rtcm_message \<Rightarrow> nat" where
  "message_bits (Antenna m) = 40 + 8 * length (ad_descriptor m)"
| "message_bits (Receiver m) = 72 + 8 * (length (rd_antenna m) + length (rd_antenna_serial m) + length (rd_receiver_type m) +
     length (rd_firmware m) + length (rd_receiver_serial m))"
| "message_bits (Station t m) = (if t = 1006 then 168 else 152)"
| "message_bits (Biases m) = 32 + 16 * length (filter (bit (cpb_signals_mask m)) [0..<4])"
| "message_bits (Gps t m) =
     64 + length (go_satellites m) * (if t = 1001 then 58 else if t = 1002 then 74 else if t = 1003 then 101 else 125)"
| "message_bits (Glonass t m) =
     61 + length (ro_satellites m) * (if t = 1009 then 64 else if t = 1010 then 79 else if t = 1011 then 107 else 130)"
| "message_bits (Msm sys l m) =
     169 + unat (count_ones (mm_satellite_mask m)) * unat (count_ones (mm_signal_mask m)) +
     length (mm_satellites m) * (if l = 4 then 18 else 36) +
     length (mm_signals m) * (if l = 4 then 48 else if l = 5 then 63 else 80)"

lemma width_map: "(\<And>x. x \<in> set xs \<Longrightarrow> field_width (f x) = k) \<Longrightarrow> total_width (map f xs) = length xs * k"
  by (induction xs) auto

lemma width_concat: "(\<And>x. x \<in> set xs \<Longrightarrow> total_width (f x) = k) \<Longrightarrow> total_width (concat (map f xs)) = length xs * k"
  by (induction xs) auto

lemma gps_satellite_width:
  "t \<in> {1001, 1002, 1003, 1004} \<Longrightarrow>
   total_width (gps_satellite_fields t s) = (if t = 1001 then 58 else if t = 1002 then 74 else if t = 1003 then 101 else 125)"
  by (auto simp: gps_satellite_fields_def is_extended_def has_l2_def word_le_nat_alt)

lemma glonass_satellite_width:
  "t \<in> {1009, 1010, 1011, 1012} \<Longrightarrow>
   total_width (glonass_satellite_fields t s) = (if t = 1009 then 64 else if t = 1010 then 79 else if t = 1011 then 107 else 130)"
  by (auto simp: glonass_satellite_fields_def is_extended_def has_l2_def word_le_nat_alt)

definition mismatched :: "rtcm_message \<Rightarrow> bool" where
  "mismatched m \<longleftrightarrow> (case m of Msm sys l x \<Rightarrow> \<not> msm_consistent x | _ \<Rightarrow> False)"

lemma biases_width: "total_width (glonass_code_phase_biases_fields m) = 32 + 16 * length (filter (bit (cpb_signals_mask m)) [0..<4])"
proof -
  have single: "cpb_signals_mask m AND push_bit n 1 \<noteq> 0 \<longleftrightarrow> bit (cpb_signals_mask m) n" for n by (rule and_single)
  have upto: "[0..<4] = [0, 1, 2, 3 :: nat]" by (simp add: upt_rec)
  show ?thesis
    using single [of 0] single [of 1] single [of 2] single [of 3]
    by (simp add: glonass_code_phase_biases_fields_def number_and_station_def upto)
qed

lemma fields_width:
  assumes "message_ok m" and "\<not> mismatched m"
  shows "total_width (message_fields m) = message_bits m"
proof (cases m)
  case (Antenna x)
  then show ?thesis by (simp add: antenna_descriptor_fields_def number_and_station_def)
next
  case (Receiver x)
  then show ?thesis by (simp add: receiver_antenna_descriptor_fields_def number_and_station_def)
next
  case (Station t x)
  then show ?thesis by (simp add: station_arp_fields_def number_and_station_def)
next
  case (Biases x)
  then show ?thesis by (simp add: biases_width)
next
  case (Gps t x)
  then have "total_width (concat (map (gps_satellite_fields t) (go_satellites x))) =
    length (go_satellites x) * (if t = 1001 then 58 else if t = 1002 then 74 else if t = 1003 then 101 else 125)"
    using assms(1) by (intro width_concat gps_satellite_width) simp
  with Gps show ?thesis by (simp only: message_fields.simps message_bits.simps gps_rtk_observables_fields_def map_append sum_list_append)
    (simp add: number_and_station_def)
next
  case (Glonass t x)
  then have "total_width (concat (map (glonass_satellite_fields t) (ro_satellites x))) =
    length (ro_satellites x) * (if t = 1009 then 64 else if t = 1010 then 79 else if t = 1011 then 107 else 130)"
    using assms(1) by (intro width_concat glonass_satellite_width) simp
  with Glonass show ?thesis by (simp only: message_fields.simps message_bits.simps glonass_rtk_observables_fields_def map_append sum_list_append)
    (simp add: number_and_station_def)
next
  case (Msm sys l x)
  have "msm_consistent x" using assms(2) Msm by (simp add: mismatched_def)
  with Msm assms(1) show ?thesis
    by (auto simp: msm_fields_def Let_def number_and_station_def count_ones_def width_map comp_def sum_list_triv)
qed

lemma fields_not_fail: "\<not> mismatched m \<Longrightarrow> list_all (\<lambda>f. \<not> is_fail f) (message_fields m)"
  by (cases m)
    (auto simp: mismatched_def antenna_descriptor_fields_def receiver_antenna_descriptor_fields_def station_arp_fields_def
      glonass_code_phase_biases_fields_def gps_rtk_observables_fields_def gps_satellite_fields_def glonass_rtk_observables_fields_def
      glonass_satellite_fields_def msm_fields_def Let_def number_and_station_def count_ones_def list_all_iff)

lemma message_bits_bound:
  assumes "message_ok m" and "\<not> mismatched m"
  shows "message_bits m \<le> 8184"
proof (cases m)
  case (Receiver x)
  then show ?thesis using assms(1) by (simp add: descriptor_ok_def RTCM_MAX_DESCRIPTOR_LEN_def)
next
  case (Biases x)
  have "length (filter (bit (cpb_signals_mask x)) [0..<4]) \<le> 4" by (rule order_trans [OF length_filter_le]) simp
  with Biases show ?thesis by simp
next
  case (Gps t x)
  then have "length (go_satellites x) * k \<le> 31 * k" for k using assms(1) by (intro mult_le_mono1) simp
  from this [of 58] this [of 74] this [of 101] this [of 125] Gps show ?thesis by simp
next
  case (Glonass t x)
  then have "length (ro_satellites x) * k \<le> 31 * k" for k using assms(1) by (intro mult_le_mono1) simp
  from this [of 64] this [of 79] this [of 107] this [of 130] Glonass show ?thesis by simp
next
  case (Msm sys l x)
  then have "length (mm_satellites x) * k \<le> 64 * k" "length (mm_signals x) * k \<le> 64 * k" for k
    using assms(1) by (intro mult_le_mono1; simp)+
  from this(1) [of 18] this(1) [of 36] this(2) [of 48] this(2) [of 63] this(2) [of 80] Msm assms(2)
  show ?thesis by (simp add: mismatched_def)
qed (use assms(1) in \<open>simp_all add: descriptor_ok_def RTCM_MAX_DESCRIPTOR_LEN_def\<close>)

lemma mismatched_fields: "mismatched m \<Longrightarrow> message_fields m = [Fail status_invalid_argument]"
  by (cases m) (auto simp: mismatched_def msm_fields_def Let_def count_ones_def)

text \<open>C33: whatever the values of a message of the library, a buffer of 1029 bytes is large enough: it is encoded
  with the size its header documents, unless a value exceeds its field (\<open>out_of_range\<close>) or the masks of a
  multiple signal message do not describe its lists (\<open>invalid_argument\<close>).\<close>

theorem rtcm_messages_fit:
  assumes "message_ok m" and "1029 \<le> length buf"
  shows "\<exists>ys. length ys = length buf \<and> rtcm_encode_message (message_fields m) (Mem buf) = Some
    (if mismatched m then (status_invalid_argument, Mem ys, 0)
     else if list_all field_fits (message_fields m) then (status_ok, Mem ys, (message_bits m + 7) div 8 + 6)
     else (status_out_of_range, Mem ys, 0))"
proof -
  have cap: "8 * min 1023 (length buf - 6) = 8184" using assms(2) by simp
  have framed: "case append_fields 8184 [] (message_fields m) of
      Inl e \<Rightarrow> e \<noteq> status_ok \<and> (\<exists>ys. rtcm_encode_message (message_fields m) (Mem buf) = Some (e, Mem ys, 0) \<and> length ys = length buf)
    | Inr bs \<Rightarrow> length bs \<le> 8184 \<and> rtcm_encode_message (message_fields m) (Mem buf) =
        Some (status_ok, Mem (rtcm_frame (pack bs) @ drop (length (pack bs) + 6) buf), length (pack bs) + 6)"
    using encode_message_is [of buf "message_fields m"] assms(2) unfolding cap by simp
  show ?thesis
  proof (cases "mismatched m")
    case True
    then show ?thesis using framed by (auto simp: mismatched_fields)
  next
    case False
    note outcome = append_fields_outcome [of "[]" "message_fields m" 8184, OF _ fields_not_fail [OF False]]
    have "total_width (message_fields m) \<le> 8184" using fields_width message_bits_bound assms(1) False by simp
    with outcome have outcome: "if list_all field_fits (message_fields m)
      then \<exists>new. append_fields 8184 [] (message_fields m) = Inr new \<and> length new = message_bits m
      else append_fields 8184 [] (message_fields m) = Inl status_out_of_range"
      using fields_width [OF assms(1) False] by (cases "list_all field_fits (message_fields m)") simp_all
    show ?thesis
    proof (cases "list_all field_fits (message_fields m)")
      case True
      then obtain new where new: "append_fields 8184 [] (message_fields m) = Inr new" "length new = message_bits m"
        using outcome by auto
      then show ?thesis using framed False True assms(2) message_bits_bound [OF assms(1) False]
        by (auto intro!: exI [of _ "rtcm_frame (pack new) @ drop (length (pack new) + 6) buf"])
    next
      case False
      then show ?thesis using framed outcome \<open>\<not> mismatched m\<close> by auto
    qed
  qed
qed

text \<open>A stationary reference station at the origin.\<close>

theorem rtcm_messages_fit_witness:
  "(let m = Station 1005 \<lparr>arp_station_id = 7, arp_itrf_year = 0, arp_gps = True, arp_glonass = False, arp_galileo = False,
        arp_reference_station_indicator = False, arp_ecef_x = 5, arp_single_receiver_oscillator = False, arp_ecef_y = - 5,
        arp_quarter_cycle_indicator = 1, arp_ecef_z = 0, arp_antenna_height = 0\<rparr> in
    \<exists>ys. length ys = 1029 \<and> rtcm_encode_message (message_fields m) (Mem (replicate 1029 0)) = Some (status_ok, Mem ys, 25))"
proof -
  let ?m = "Station 1005 \<lparr>arp_station_id = 7, arp_itrf_year = 0, arp_gps = True, arp_glonass = False, arp_galileo = False,
        arp_reference_station_indicator = False, arp_ecef_x = 5, arp_single_receiver_oscillator = False, arp_ecef_y = - 5,
        arp_quarter_cycle_indicator = 1, arp_ecef_z = 0, arp_antenna_height = 0\<rparr>"
  have "list_all field_fits (message_fields ?m)" by (simp add: station_arp_fields_def number_and_station_def)
  moreover have "\<not> mismatched ?m" by (simp add: mismatched_def)
  ultimately show ?thesis using rtcm_messages_fit [of ?m "replicate 1029 0"] by (simp only: Let_def) simp
qed

end
