(* ===== verification/Dns.thy ===== *)
theory Dns
  imports Bytes
begin

text \<open>
  The DNS message codec (\<open>castle_ext/protocols/dns/message.hpp\<close>, \<open>types.hpp\<close>, and the endpoint value of
  \<open>net/endpoint.hpp\<close>).  An enumeration field that the decoder fills from the wire by \<open>static_cast\<close> holds any
  value of its underlying type, so it is that word.  A \<open>char\<close> array is its list of bytes.  Reading or writing
  outside a buffer is \<open>None\<close>, and so is a loop that does not end.
\<close>

section \<open>Types\<close>

definition type_a :: u16 where "type_a = 1"
definition type_ns :: u16 where "type_ns = 2"
definition type_cname :: u16 where "type_cname = 5"
definition type_mx :: u16 where "type_mx = 15"
definition type_aaaa :: u16 where "type_aaaa = 28"
definition class_internet :: u16 where "class_internet = 1"

datatype dns_section = in_answer | in_authority | in_additional

datatype address_family = ipv4_family | ipv6_family

record endpoint =
  ep_address :: "u8 list"
  ep_family :: address_family
  ep_port :: u16
  ep_scope :: u32

definition endpoint_init :: endpoint where
  "endpoint_init = \<lparr>ep_address = replicate 16 0, ep_family = ipv4_family, ep_port = 0, ep_scope = 0\<rparr>"

definition endpoint_ipv4 :: "u8 \<Rightarrow> u8 \<Rightarrow> u8 \<Rightarrow> u8 \<Rightarrow> u16 \<Rightarrow> endpoint" where
  "endpoint_ipv4 a b c d port = endpoint_init\<lparr>ep_address := a # b # c # d # replicate 12 0, ep_port := port\<rparr>"

fun ipv6_loop :: "u8 ptr \<Rightarrow> nat \<Rightarrow> nat \<Rightarrow> u8 list \<Rightarrow> u8 list option" where
  "ipv6_loop bytes at 0 address = Some address"
| "ipv6_loop bytes at (Suc n) address = do {
     b \<leftarrow> rd bytes (at + (15 - n));
     ipv6_loop bytes at n (address[15 - n := b]) }"

definition endpoint_ipv6 :: "u8 ptr \<Rightarrow> nat \<Rightarrow> u16 \<Rightarrow> u32 \<Rightarrow> endpoint option" where
  "endpoint_ipv6 bytes at port scope = do {
     let result = endpoint_init\<lparr>ep_family := ipv6_family, ep_port := port, ep_scope := scope\<rparr>;
     if is_null bytes then Some result
     else do { address \<leftarrow> ipv6_loop bytes at 16 (ep_address result); Some (result\<lparr>ep_address := address\<rparr>) } }"

record dns_record =
  rec_type :: u16
  rec_class :: u16
  rec_section :: dns_section
  rec_ttl :: u32
  rec_address :: endpoint
  rec_owner :: "u8 list"
  rec_target :: "u8 list"
  rec_preference :: u16

definition dns_record_init :: dns_record where
  "dns_record_init = \<lparr>rec_type = type_a, rec_class = class_internet, rec_section = in_answer, rec_ttl = 0,
     rec_address = endpoint_init, rec_owner = replicate 256 0, rec_target = replicate 256 0, rec_preference = 0\<rparr>"

record dns_response =
  resp_id :: u16
  resp_flags :: u16
  resp_question_count :: u16
  resp_answer_count :: u16
  resp_authority_count :: u16
  resp_additional_count :: u16
  resp_question_type :: u16
  resp_question_class :: u16
  resp_rcode :: u8
  resp_authoritative :: bool
  resp_truncated :: bool
  resp_recursion_desired :: bool
  resp_recursion_available :: bool
  resp_question_name :: "u8 list"
  resp_records :: "dns_record list"
  resp_record_count :: nat

definition response_init :: "nat \<Rightarrow> dns_response" where
  "response_init n = \<lparr>resp_id = 0, resp_flags = 0, resp_question_count = 0, resp_answer_count = 0,
     resp_authority_count = 0, resp_additional_count = 0, resp_question_type = type_a,
     resp_question_class = class_internet, resp_rcode = 0, resp_authoritative = False, resp_truncated = False,
     resp_recursion_desired = False, resp_recursion_available = False, resp_question_name = replicate 256 0,
     resp_records = replicate n dns_record_init, resp_record_count = 0\<rparr>"

text \<open>\<open>clear\<close> leaves the records as they are.\<close>

definition response_clear :: "dns_response \<Rightarrow> dns_response" where
  "response_clear r = r\<lparr>resp_id := 0, resp_flags := 0, resp_question_count := 0, resp_answer_count := 0,
     resp_authority_count := 0, resp_additional_count := 0, resp_question_type := type_a,
     resp_question_class := class_internet, resp_rcode := 0, resp_authoritative := False, resp_truncated := False,
     resp_recursion_desired := False, resp_recursion_available := False,
     resp_question_name := (resp_question_name r)[0 := 0], resp_record_count := 0\<rparr>"

section \<open>Encoding a query\<close>

definition header_size :: nat where "header_size = 12"
definition max_message_size :: nat where "max_message_size = 65535"
definition dot :: u8 where "dot = 0x2E"

definition valid_query_type :: "u16 \<Rightarrow> bool" where
  "valid_query_type t = (t = type_a \<or> t = type_aaaa \<or> t = type_cname \<or> t = type_ns \<or> t = type_mx)"

text \<open>The labels before the last: their lengths and characters are checked, \<open>wire\<close> counts the octets.\<close>

function check_loop :: "u8 ptr \<Rightarrow> nat \<Rightarrow> nat \<Rightarrow> nat \<Rightarrow> nat \<Rightarrow> (status + nat \<times> nat) option" where
  "check_loop name stop i begin wire =
     (if i < stop then do {
        c \<leftarrow> rd name i;
        if c = dot then
          let label = i - begin in
          if label = 0 \<or> label > 63 then Some (Inl status_invalid_argument)
          else if wire > 255 - (label + 1) then Some (Inl status_out_of_range)
          else check_loop name stop (i + 1) (i + 1) (wire + label + 1)
        else if c = 0 \<or> c > 127 then Some (Inl status_invalid_argument)
        else check_loop name stop (i + 1) begin wire }
      else Some (Inr (begin, wire)))"
  by pat_completeness auto
termination by (relation "measure (\<lambda>(_, stop, i, _, _). stop - i)") auto

function copy_label :: "u8 ptr \<Rightarrow> nat \<Rightarrow> nat \<Rightarrow> u8 ptr \<Rightarrow> nat \<Rightarrow> (u8 ptr \<times> nat) option" where
  "copy_label name j i output at =
     (if j < i then do { c \<leftarrow> rd name j; output \<leftarrow> put output at c; copy_label name (j + 1) i output (at + 1) }
      else Some (output, at))"
  by pat_completeness auto
termination by (relation "measure (\<lambda>(_, j, i, _, _). i - j)") auto

function label_loop :: "u8 ptr \<Rightarrow> nat \<Rightarrow> nat \<Rightarrow> nat \<Rightarrow> u8 ptr \<Rightarrow> nat \<Rightarrow> (u8 ptr \<times> nat) option" where
  "label_loop name stop i begin output at =
     (if i \<le> stop then do {
        ends \<leftarrow> (if i = stop then Some True else do { c \<leftarrow> rd name i; Some (c = dot) });
        if ends then do {
          output \<leftarrow> put output at (of_nat (i - begin));
          (output, at) \<leftarrow> copy_label name begin i output (at + 1);
          label_loop name stop (i + 1) (i + 1) output at }
        else label_loop name stop (i + 1) begin output at }
      else Some (output, at))"
  by pat_completeness auto
termination by (relation "measure (\<lambda>(_, stop, i, _, _, _). Suc stop - i)") auto

declare check_loop.simps [simp del] copy_label.simps [simp del] label_loop.simps [simp del]

definition finish_query :: "u16 \<Rightarrow> u8 ptr \<Rightarrow> nat \<Rightarrow> (status \<times> u8 ptr \<times> nat) option" where
  "finish_query type output at = do {
     output \<leftarrow> write_be16 output at type;
     output \<leftarrow> write_be16 output (at + 2) class_internet;
     Some (status_ok, output, at + 4) }"

definition encode_query :: "u8 ptr \<Rightarrow> u16 \<Rightarrow> u16 \<Rightarrow> u8 ptr \<Rightarrow> (status \<times> u8 ptr \<times> nat) option" where
  "encode_query name type ident output =
     (if is_null output \<or> psize output < header_size then
        Some (if is_null output then status_invalid_argument else status_full, output, 0)
      else if \<not> valid_query_type type \<or> is_null name \<or> psize name = 0 then Some (status_invalid_argument, output, 0)
      else do {
        output \<leftarrow> write_be16 output 0 ident;
        output \<leftarrow> store output 2 [0x01, 0x00, 0x00, 0x01, 0, 0, 0, 0, 0, 0];
        first \<leftarrow> rd name 0;
        if psize name = 1 \<and> first = dot then
          if header_size + 1 + 4 > psize output then Some (status_full, output, 0)
          else do { output \<leftarrow> put output header_size 0; finish_query type output (header_size + 1) }
        else do {
          c \<leftarrow> rd name (psize name - 1);
          let stop = (if c = dot then psize name - 1 else psize name);
          if stop = 0 then Some (status_invalid_argument, output, 0)
          else do {
            checked \<leftarrow> check_loop name stop 0 0 1;
            case checked of
              Inl e \<Rightarrow> Some (e, output, 0)
            | Inr (begin, wire) \<Rightarrow>
                let last_label = stop - begin in
                if last_label = 0 \<or> last_label > 63 \<or> wire > 255 - (last_label + 1) then Some (status_invalid_argument, output, 0)
                else if header_size + (wire + last_label + 1) + 4 > psize output then Some (status_full, output, 0)
                else do {
                  (output, at) \<leftarrow> label_loop name stop 0 0 output header_size;
                  output \<leftarrow> put output at 0;
                  finish_query type output (at + 1) } } } })"

definition is_truncated_packet :: "u8 ptr \<Rightarrow> bool option" where
  "is_truncated_packet data =
     (if \<not> is_null data \<and> psize data \<ge> 4 then do { flags \<leftarrow> read_be16 data 2; Some (flags AND 0x0200 \<noteq> 0) }
      else Some False)"

section \<open>Decoding a name\<close>

text \<open>The characters of one label; the flag tells that all were acceptable.\<close>

function label_chars :: "u8 ptr \<Rightarrow> nat \<Rightarrow> nat \<Rightarrow> nat \<Rightarrow> u8 ptr \<Rightarrow> nat \<Rightarrow> (bool \<times> u8 ptr \<times> nat) option" where
  "label_chars data cursor len i output output_size =
     (if i < len then do {
        c \<leftarrow> rd data (cursor + i);
        if c = 0 \<or> c > 127 then Some (False, output, output_size)
        else do { output \<leftarrow> put output output_size c; label_chars data cursor len (i + 1) output (output_size + 1) } }
      else Some (True, output, output_size))"
  by pat_completeness auto
termination by (relation "measure (\<lambda>(_, _, len, i, _, _). len - i)") auto

declare label_chars.simps [simp del]

text \<open>\<open>output_size\<close> stays below the capacity, so the subtraction from it does not wrap.\<close>

partial_function (option) name_loop :: "u8 ptr \<Rightarrow> nat \<Rightarrow> u8 ptr \<Rightarrow> nat \<Rightarrow> nat \<Rightarrow> nat \<Rightarrow> nat \<Rightarrow> bool
    \<Rightarrow> (status \<times> u8 ptr \<times> nat) option" where
  "name_loop data cursor output output_size hops expanded consumed jumped =
     (if cursor \<ge> psize data \<or> hops + 1 > 128 then Some (status_invalid_argument, output, consumed)
      else do {
        len \<leftarrow> rd data cursor;
        if len AND 0xC0 = 0xC0 then
          if cursor + 1 \<ge> psize data then Some (status_invalid_argument, output, consumed)
          else do {
            low \<leftarrow> rd data (cursor + 1);
            let pointer = (push_bit 8 (ucast (len AND 0x3F)) OR ucast low :: u16);
            if unat pointer \<ge> psize data \<or> unat pointer \<ge> cursor then Some (status_invalid_argument, output, consumed)
            else name_loop data (unat pointer) output output_size (hops + 1) expanded
                   (if jumped then consumed else consumed + 2) True }
        else if len AND 0xC0 \<noteq> 0 \<or> len > 63 then Some (status_invalid_argument, output, consumed)
        else do {
          let cursor = cursor + 1;
          let consumed = (if jumped then consumed else consumed + 1);
          if expanded \<ge> 255 then Some (status_invalid_argument, output, consumed)
          else do {
            let expanded = expanded + 1;
            if len = 0 then do { output \<leftarrow> put output output_size 0; Some (status_ok, output, consumed) }
            else if cursor > psize data \<or> unat len > psize data - cursor \<or> expanded + unat len > 255 then
              Some (status_invalid_argument, output, consumed)
            else do {
              let expanded = expanded + unat len;
              if output_size \<noteq> 0 \<and> output_size + 1 \<ge> psize output then Some (status_full, output, consumed)
              else do {
                output \<leftarrow> (if output_size \<noteq> 0 then put output output_size dot else Some output);
                let output_size = (if output_size \<noteq> 0 then output_size + 1 else output_size);
                if unat len > psize output - 1 - output_size then Some (status_full, output, consumed)
                else do {
                  (good, output, output_size) \<leftarrow> label_chars data cursor (unat len) 0 output output_size;
                  if \<not> good then Some (status_invalid_argument, output, consumed)
                  else name_loop data (cursor + unat len) output output_size (hops + 1) expanded
                         (if jumped then consumed else consumed + unat len) jumped } } } } } })"

declare name_loop.simps [code]

definition decode_name :: "u8 ptr \<Rightarrow> nat \<Rightarrow> u8 ptr \<Rightarrow> (status \<times> u8 ptr \<times> nat) option" where
  "decode_name data offset output =
     (if is_null data \<or> is_null output \<or> psize output = 0 \<or> offset \<ge> psize data then Some (status_invalid_argument, output, 0)
      else name_loop data offset output 0 0 0 0 False)"

section \<open>Parsing a response\<close>

function copy_text_loop :: "u8 list \<Rightarrow> nat \<Rightarrow> u8 list \<Rightarrow> (bool \<times> u8 list) option" where
  "copy_text_loop source i dest = do {
     c \<leftarrow> rd (Mem source) i;
     if c \<noteq> 0 then
       if i + 1 \<ge> length dest then Some (False, dest) else copy_text_loop source (i + 1) (dest[i := c])
     else if i < length dest then Some (True, dest[i := 0]) else None }"
  by pat_completeness auto
termination by (relation "measure (\<lambda>(source, i, _). length source - i)") (auto split: if_splits)

declare copy_text_loop.simps [simp del]

definition copy_text :: "u8 list \<Rightarrow> u8 list \<Rightarrow> (bool \<times> u8 list) option" where
  "copy_text source dest = copy_text_loop source 0 dest"

text \<open>A name decoded into a \<open>char\<close> array of a record.\<close>

definition decode_into :: "u8 ptr \<Rightarrow> nat \<Rightarrow> u8 list \<Rightarrow> (status \<times> u8 list \<times> nat) option" where
  "decode_into data offset text = do {
     (result, output, consumed) \<leftarrow> decode_name data offset (Mem text);
     case output of Mem text \<Rightarrow> Some (result, text, consumed) | Null _ \<Rightarrow> None }"

text \<open>The record data: addresses, mail exchanges, and the names of the other types.\<close>

definition parse_rdata :: "u8 ptr \<Rightarrow> nat \<Rightarrow> u16 \<Rightarrow> dns_record \<Rightarrow> (status \<times> dns_record) option" where
  "parse_rdata data rdata rdlength r =
     (if rec_type r = type_a then
        if rdlength \<noteq> 4 then Some (status_invalid_argument, r)
        else do {
          b0 \<leftarrow> rd data rdata; b1 \<leftarrow> rd data (rdata + 1); b2 \<leftarrow> rd data (rdata + 2); b3 \<leftarrow> rd data (rdata + 3);
          Some (status_ok, r\<lparr>rec_address := endpoint_ipv4 b0 b1 b2 b3 0\<rparr>) }
      else if rec_type r = type_aaaa then
        if rdlength \<noteq> 16 then Some (status_invalid_argument, r)
        else do { address \<leftarrow> endpoint_ipv6 data rdata 0 0; Some (status_ok, r\<lparr>rec_address := address\<rparr>) }
      else if rec_type r = type_mx then
        if rdlength < 3 then Some (status_invalid_argument, r)
        else do {
          preference \<leftarrow> read_be16 data rdata;
          (result, target, consumed) \<leftarrow> decode_into data (rdata + 2) (rec_target r);
          Some (if \<not> succeeded result \<or> consumed + 2 \<noteq> unat rdlength then status_invalid_argument else status_ok,
                r\<lparr>rec_preference := preference, rec_target := target\<rparr>) }
      else do {
        (result, target, consumed) \<leftarrow> decode_into data rdata (rec_target r);
        Some (if \<not> succeeded result \<or> consumed \<noteq> unat rdlength then status_invalid_argument else status_ok,
              r\<lparr>rec_target := target\<rparr>) })"

definition set_record :: "dns_record \<Rightarrow> dns_response \<Rightarrow> dns_response" where
  "set_record r resp = resp\<lparr>resp_records := (resp_records resp)[resp_record_count resp := r]\<rparr>"

text \<open>The record of one retained answer: the branch of the loop body after the type filter.\<close>

definition keep_record :: "u8 ptr \<Rightarrow> dns_section \<Rightarrow> u8 list \<Rightarrow> u16 \<Rightarrow> u32 \<Rightarrow> u16 \<Rightarrow> nat \<Rightarrow> dns_response
    \<Rightarrow> (status \<times> dns_response) option" where
  "keep_record data source owner type ttl rdlength rdata resp =
     (if resp_record_count resp \<ge> length (resp_records resp) then Some (status_full, resp)
      else do {
        let r = resp_records resp ! resp_record_count resp;
        let r = r\<lparr>rec_type := type, rec_class := class_internet, rec_section := source, rec_ttl := ttl\<rparr>;
        (fitted, text) \<leftarrow> copy_text owner (rec_owner r);
        let r = r\<lparr>rec_owner := text\<rparr>;
        if \<not> fitted then Some (status_out_of_range, set_record r resp)
        else do {
          (result, r) \<leftarrow> parse_rdata data rdata rdlength r;
          let resp = set_record r resp;
          Some (result, if succeeded result then resp\<lparr>resp_record_count := resp_record_count resp + 1\<rparr> else resp) } })"

function records_loop :: "u8 ptr \<Rightarrow> nat \<Rightarrow> nat \<Rightarrow> nat \<Rightarrow> dns_response \<Rightarrow> (status \<times> dns_response) option" where
  "records_loop data record_total index at resp =
     (if index < record_total then do {
        let source = (if index \<ge> unat (resp_answer_count resp) + unat (resp_authority_count resp) then in_additional
                      else if index \<ge> unat (resp_answer_count resp) then in_authority else in_answer);
        (result, owner, consumed) \<leftarrow> decode_into data at (replicate 256 0);
        if \<not> succeeded result then Some (result, resp)
        else do {
          let at = at + consumed;
          if at > psize data \<or> psize data - at < 10 then Some (status_invalid_argument, resp)
          else do {
            type \<leftarrow> read_be16 data at; class \<leftarrow> read_be16 data (at + 2);
            ttl \<leftarrow> read_be32 data (at + 4); rdlength \<leftarrow> read_be16 data (at + 8);
            let rdata = at + 10;
            if rdata > psize data \<or> unat rdlength > psize data - rdata then Some (status_invalid_argument, resp)
            else do {
              let at = rdata + unat rdlength;
              if class \<noteq> class_internet \<or>
                 (type \<noteq> type_a \<and> type \<noteq> type_aaaa \<and> type \<noteq> type_cname \<and> type \<noteq> type_ns \<and> type \<noteq> type_mx)
              then records_loop data record_total (index + 1) at resp
              else do {
                (result, resp) \<leftarrow> keep_record data source owner type ttl rdlength rdata resp;
                if \<not> succeeded result then Some (result, resp)
                else records_loop data record_total (index + 1) at resp } } } } }
      else Some (if at = psize data then status_ok else status_invalid_argument, resp))"
  by pat_completeness auto
termination by (relation "measure (\<lambda>(_, record_total, index, _, _). record_total - index)") auto

declare records_loop.simps [simp del]

definition parse_response :: "u8 ptr \<Rightarrow> u16 \<Rightarrow> dns_response \<Rightarrow> (status \<times> dns_response) option" where
  "parse_response data expected resp =
     (let resp = response_clear resp in
      if is_null data \<or> psize data < header_size \<or> psize data > max_message_size then Some (status_invalid_argument, resp)
      else do {
        ident \<leftarrow> read_be16 data 0;
        let resp = resp\<lparr>resp_id := ident\<rparr>;
        if ident \<noteq> expected then Some (status_invalid_argument, resp)
        else do {
          flags \<leftarrow> read_be16 data 2;
          let resp = resp\<lparr>resp_flags := flags\<rparr>;
          if flags AND 0x8000 = 0 \<or> flags AND 0x7800 \<noteq> 0 \<or> flags AND 0x0070 \<noteq> 0 then Some (status_invalid_argument, resp)
          else do {
            questions \<leftarrow> read_be16 data 4; answers \<leftarrow> read_be16 data 6;
            authorities \<leftarrow> read_be16 data 8; additionals \<leftarrow> read_be16 data 10;
            let resp = resp\<lparr>resp_authoritative := flags AND 0x0400 \<noteq> 0, resp_truncated := flags AND 0x0200 \<noteq> 0,
              resp_recursion_desired := flags AND 0x0100 \<noteq> 0, resp_recursion_available := flags AND 0x0080 \<noteq> 0,
              resp_rcode := ucast (flags AND 0x000F), resp_question_count := questions, resp_answer_count := answers,
              resp_authority_count := authorities, resp_additional_count := additionals\<rparr>;
            if questions \<noteq> 1 then Some (status_invalid_argument, resp)
            else do {
              (result, text, consumed) \<leftarrow> decode_into data header_size (resp_question_name resp);
              let resp = resp\<lparr>resp_question_name := text\<rparr>;
              if \<not> succeeded result then Some (result, resp)
              else do {
                let at = header_size + consumed;
                if at > psize data \<or> psize data - at < 4 then Some (status_invalid_argument, resp)
                else do {
                  type \<leftarrow> read_be16 data at; class \<leftarrow> read_be16 data (at + 2);
                  records_loop data (unat answers + unat authorities + unat additionals) 0 (at + 4)
                    (resp\<lparr>resp_question_type := type, resp_question_class := class\<rparr>) } } } } } })"

end
