(* ===== verification/DnsName.thy ===== *)
theory DnsName
  imports Dns
begin

text \<open>
  What the DNS decoder promises whatever the packet: decoding a name ends and stays inside its buffers, and
  every string of a parsed response is terminated inside its array.
\<close>

section \<open>Decoding is total and safe\<close>

definition text_upto :: "nat \<Rightarrow> u8 list \<Rightarrow> bool" where
  "text_upto n buf \<longleftrightarrow> (\<forall>k < n. buf ! k \<noteq> 0 \<and> buf ! k \<le> 127)"

text \<open>A terminated ASCII string, and an array that keeps its last byte for the terminator.\<close>

definition c_text :: "u8 list \<Rightarrow> bool" where
  "c_text buf \<longleftrightarrow> (\<exists>n < length buf. buf ! n = 0 \<and> text_upto n buf)"

definition closed :: "u8 list \<Rightarrow> bool" where
  "closed buf \<longleftrightarrow> buf \<noteq> [] \<and> last buf = 0"

lemma closed_nth: "closed buf \<longleftrightarrow> 0 < length buf \<and> buf ! (length buf - 1) = 0"
  by (cases "buf = []") (simp_all add: closed_def last_conv_nth)

lemma text_upto_put: "text_upto n buf \<Longrightarrow> n < length buf \<Longrightarrow> c \<noteq> 0 \<Longrightarrow> c \<le> 127 \<Longrightarrow> text_upto (Suc n) (buf[n := c])"
  by (simp add: text_upto_def nth_list_update less_Suc_eq)

lemma closed_put: "closed buf \<Longrightarrow> n + 1 < length buf \<Longrightarrow> closed (buf[n := c])"
  by (simp add: closed_nth)

lemma label_chars_ok:
  assumes "cursor + len \<le> length xs" and "n + (len - i) < length buf" and "text_upto n buf"
  shows "\<exists>good buf' n'. label_chars (Mem xs) cursor len i (Mem buf) n = Some (good, Mem buf', n') \<and>
    length buf' = length buf \<and> n' \<le> n + (len - i) \<and> text_upto n' buf' \<and> (closed buf \<longrightarrow> closed buf')"
  using assms
proof (induction "len - i" arbitrary: i buf n)
  case 0
  then show ?case by (subst label_chars.simps) auto
next
  case (Suc m)
  then have i: "i < len" by simp
  let ?c = "xs ! (cursor + i)"
  show ?case
  proof (cases "?c = 0 \<or> ?c > 127")
    case True
    with i Suc.prems show ?thesis by (subst label_chars.simps) auto
  next
    case False
    have "\<exists>good buf' n'. label_chars (Mem xs) cursor len (Suc i) (Mem (buf[n := ?c])) (Suc n) = Some (good, Mem buf', n') \<and>
        length buf' = length (buf[n := ?c]) \<and> n' \<le> Suc n + (len - Suc i) \<and> text_upto n' buf' \<and> (closed (buf[n := ?c]) \<longrightarrow> closed buf')"
      using Suc.hyps(2) Suc.prems i False by (intro Suc.hyps(1) text_upto_put) auto
    moreover have "closed buf \<longrightarrow> closed (buf[n := ?c])" using Suc.prems i by (auto intro: closed_put)
    ultimately show ?thesis using i Suc.prems False by (subst label_chars.simps) auto
  qed
qed

text \<open>The outcome of decoding a name that starts at \<open>from\<close> into \<open>buf\<close>.\<close>

definition decoded :: "nat \<Rightarrow> nat \<Rightarrow> u8 list \<Rightarrow> status \<Rightarrow> u8 list \<Rightarrow> nat \<Rightarrow> bool" where
  "decoded psz from buf st buf' c \<longleftrightarrow> length buf' = length buf \<and> (closed buf \<longrightarrow> closed buf') \<and>
     (if succeeded st then from + c \<le> psz \<and> c_text buf' else st \<in> {status_invalid_argument, status_full})"

lemma decoded_failure:
  "st \<in> {status_invalid_argument, status_full} \<Longrightarrow> decoded psz from buf st buf c"
  by (auto simp: decoded_def succeeded_def)

lemma decoded_chain: "decoded psz from buf1 st buf2 c \<Longrightarrow> length buf1 = length buf \<Longrightarrow> (closed buf \<longrightarrow> closed buf1) \<Longrightarrow> decoded psz from buf st buf2 c"
  by (auto simp: decoded_def)

lemma name_loop_total:
  assumes "hops \<le> 128" and "n < length buf" and "text_upto n buf"
    and "if jumped then from + consumed \<le> length xs else cursor = from + consumed"
  shows "\<exists>st buf' c. name_loop (Mem xs) cursor (Mem buf) n hops expanded consumed jumped = Some (st, Mem buf', c) \<and>
    decoded (length xs) from buf st buf' c"
  using assms
proof (induction "128 - hops" arbitrary: cursor buf n hops expanded consumed jumped)
  case 0
  then show ?case by (subst name_loop.simps) (simp add: decoded_failure)
next
  case (Suc m)
  show ?case
  proof (cases "cursor < length xs")
    case False
    then show ?thesis by (subst name_loop.simps) (simp add: decoded_failure)
  next
    case cur: True
    define len where "len = xs ! cursor"
    have hops: "m = 128 - (hops + 1)" "hops + 1 \<le> 128" using Suc.hyps(2) by auto
    consider (pointer) "len AND 0xC0 = 0xC0" | (bad) "len AND 0xC0 \<noteq> 0xC0" "len AND 0xC0 \<noteq> 0 \<or> len > 63"
      | (label) "len AND 0xC0 \<noteq> 0xC0" "\<not> (len AND 0xC0 \<noteq> 0 \<or> len > 63)" by blast
    then show ?thesis
    proof cases
      case pointer
      let ?p = "unat (push_bit 8 (ucast (len AND 0x3F)) OR ucast (xs ! (cursor + 1)) :: u16)"
      show ?thesis
      proof (cases "cursor + 1 \<ge> length xs \<or> ?p \<ge> length xs \<or> ?p \<ge> cursor")
        case True
        then show ?thesis using cur pointer hops
          by (subst name_loop.simps) (auto simp: decoded_failure len_def Let_def)
      next
        case False
        with Suc.hyps(1) [OF hops, of n buf True "if jumped then consumed else consumed + 2" ?p expanded] Suc.prems cur hops pointer
        show ?thesis by (subst name_loop.simps) (auto simp: len_def Let_def)
      qed
    next
      case bad
      then show ?thesis using cur hops by (subst name_loop.simps) (auto simp: decoded_failure len_def Let_def)
    next
      case label
      let ?consumed = "if jumped then consumed else consumed + 1"
      let ?buf = "if n \<noteq> 0 then buf[n := dot] else buf" and ?n = "if n \<noteq> 0 then n + 1 else n"
      have step: "name_loop (Mem xs) cursor (Mem buf) n hops expanded consumed jumped =
          (if expanded \<ge> 255 then Some (status_invalid_argument, Mem buf, ?consumed)
           else if len = 0 then Some (status_ok, Mem (buf[n := 0]), ?consumed)
           else if cursor + 1 > length xs \<or> unat len > length xs - (cursor + 1) \<or> expanded + 1 + unat len > 255 then
             Some (status_invalid_argument, Mem buf, ?consumed)
           else if n \<noteq> 0 \<and> n + 1 \<ge> length buf then Some (status_full, Mem buf, ?consumed)
           else if unat len > length buf - 1 - ?n then Some (status_full, Mem ?buf, ?consumed)
           else do {
             (good, output, n') \<leftarrow> label_chars (Mem xs) (cursor + 1) (unat len) 0 (Mem ?buf) ?n;
             if \<not> good then Some (status_invalid_argument, output, ?consumed)
             else name_loop (Mem xs) (cursor + 1 + unat len) output n' (hops + 1) (expanded + 1 + unat len)
               (if jumped then ?consumed else ?consumed + unat len) jumped })"
        using cur hops label Suc.prems(2) by (subst name_loop.simps) (simp add: len_def [symmetric] Let_def case_prod_unfold cong: Option.bind_cong if_cong)
      have ok: "?n < length buf" "text_upto ?n ?buf" "length ?buf = length buf" "closed buf \<longrightarrow> closed ?buf"
        if "\<not> (n \<noteq> 0 \<and> n + 1 \<ge> length buf)"
        using that Suc.prems(2,3) by (auto simp: dot_def intro!: text_upto_put closed_put)
      show ?thesis
      proof (cases "expanded \<ge> 255 \<or> len = 0 \<or> cursor + 1 > length xs \<or> unat len > length xs - (cursor + 1) \<or>
          expanded + 1 + unat len > 255 \<or> n \<noteq> 0 \<and> n + 1 \<ge> length buf \<or> unat len > length buf - 1 - ?n")
        case True
        have "decoded (length xs) from buf status_ok (buf[n := 0]) ?consumed"
          using Suc.prems cur by (auto simp: decoded_def succeeded_def c_text_def text_upto_def closed_nth nth_list_update split: if_splits)
        moreover have "decoded (length xs) from buf status_full ?buf ?consumed" if "\<not> (n \<noteq> 0 \<and> n + 1 \<ge> length buf)"
          using decoded_chain [OF decoded_failure ok(3,4)] that by blast
        ultimately show ?thesis using True by (auto simp: step decoded_failure)
      next
        case False
        then have fits: "cursor + 1 + unat len \<le> length xs" "?n + (unat len - 0) < length ?buf"
          using Suc.prems(2) by (auto simp: neq_Nil_conv)
        have guard: "\<not> (n \<noteq> 0 \<and> n + 1 \<ge> length buf)" using False by blast
        obtain good buf' n' where chars: "label_chars (Mem xs) (cursor + 1) (unat len) 0 (Mem ?buf) ?n = Some (good, Mem buf', n')"
            "length buf' = length buf" "n' \<le> ?n + unat len" "text_upto n' buf'" "closed buf \<longrightarrow> closed buf'"
          using label_chars_ok [OF fits ok(2) [OF guard]] ok(3,4) [OF guard] by auto
        have "\<exists>st buf'' c. name_loop (Mem xs) (cursor + 1 + unat len) (Mem buf') n' (hops + 1) (expanded + 1 + unat len)
               (if jumped then ?consumed else ?consumed + unat len) jumped = Some (st, Mem buf'', c) \<and>
             decoded (length xs) from buf' st buf'' c"
          using Suc.prems(4) fits chars ok(3) [OF guard] by (intro Suc.hyps(1) [OF hops]) auto
        with False chars decoded_chain [OF _ chars(2,5)] decoded_chain [OF decoded_failure chars(2,5)] show ?thesis
          by (cases good) (auto simp: step)
      qed
    qed
  qed
qed

text \<open>C34: decoding a name always ends, whatever loops the compression pointers of the packet form, and never
  reads outside the packet or writes outside the output; on success the output is a terminated ASCII
  string and the octets consumed lie inside the packet, otherwise the status says why.\<close>

theorem decode_name_terminates:
  "case output of
     Null n \<Rightarrow> decode_name data offset output = Some (status_invalid_argument, Null n, 0)
   | Mem buf \<Rightarrow> \<exists>st buf' c. decode_name data offset output = Some (st, Mem buf', c) \<and>
       decoded (psize data) offset buf st buf' c"
proof (cases "output")
  case (Mem buf)
  show ?thesis
  proof (cases "is_null data \<or> buf = [] \<or> offset \<ge> psize data")
    case True
    with Mem show ?thesis by (auto simp: decode_name_def decoded_failure)
  next
    case False
    then obtain xs where "data = Mem xs" by (cases data) auto
    with False Mem name_loop_total [of 0 0 buf False offset 0 xs offset 0] show ?thesis
      by (simp add: decode_name_def text_upto_def)
  qed
qed (simp add: decode_name_def)

section \<open>A response is well-formed whatever the packet\<close>

lemma decode_into_total:
  "\<exists>st text c. decode_into data offset buf = Some (st, text, c) \<and> decoded (psize data) offset buf st text c"
proof -
  have "\<exists>st text c. decode_name data offset (Mem buf) = Some (st, Mem text, c) \<and> decoded (psize data) offset buf st text c"
  proof (cases "is_null data \<or> buf = [] \<or> offset \<ge> psize data")
    case False
    then obtain xs where "data = Mem xs" by (cases data) auto
    with False name_loop_total [of 0 0 buf False offset 0 xs offset 0] show ?thesis
      by (simp add: decode_name_def text_upto_def)
  qed (auto simp: decode_name_def decoded_failure)
  then show ?thesis by (auto simp: decode_into_def)
qed

text \<open>The arrays of a record and of a response: as long as declared, with the last byte left to the terminator.\<close>

definition text_array :: "u8 list \<Rightarrow> bool" where
  "text_array buf \<longleftrightarrow> length buf = 256 \<and> buf ! 255 = 0"

definition record_shape :: "dns_record \<Rightarrow> bool" where
  "record_shape r \<longleftrightarrow> text_array (rec_owner r) \<and> text_array (rec_target r) \<and> length (ep_address (rec_address r)) = 16"

definition response_shape :: "nat \<Rightarrow> dns_response \<Rightarrow> bool" where
  "response_shape n r \<longleftrightarrow> text_array (resp_question_name r) \<and> length (resp_records r) = n \<and> resp_record_count r \<le> n \<and>
     (\<forall>x \<in> set (resp_records r). record_shape x)"

lemma text_array_closed: "text_array buf \<longleftrightarrow> length buf = 256 \<and> closed buf"
  by (auto simp: text_array_def closed_nth)

lemma decoded_array: "decoded psz from buf st buf' c \<Longrightarrow> text_array buf \<Longrightarrow> text_array buf'"
  by (simp add: decoded_def text_array_closed)

lemma copy_text_loop_ok:
  assumes "i \<le> n" and "n < length source" and "source ! n = 0" and "n < length dest" and "closed dest"
  shows "\<exists>dest'. copy_text_loop source i dest = Some (True, dest') \<and> length dest' = length dest \<and> closed dest'"
  using assms
proof (induction "n - i" arbitrary: i dest rule: less_induct)
  case less
  show ?case
  proof (cases "source ! i = 0")
    case True
    with less.prems have "closed (dest[i := 0])" by (simp add: closed_nth nth_list_update)
    with True less.prems show ?thesis by (subst copy_text_loop.simps) simp
  next
    case False
    with less.prems have "i < n" by (metis le_neq_implies_less)
    with False less.prems less.hyps [of "i + 1" "dest[i := source ! i]"] closed_put [of dest i "source ! i"] show ?thesis
      by (subst copy_text_loop.simps) simp
  qed
qed

lemma copy_text_ok:
  assumes "text_array source" and "text_array dest"
  shows "\<exists>dest'. copy_text source dest = Some (True, dest') \<and> text_array dest'"
  using copy_text_loop_ok [of 0 255 source dest] assms by (auto simp: copy_text_def text_array_closed closed_nth)

lemma reads_ok:
  "i + 2 \<le> length xs \<Longrightarrow> \<exists>v. read_be16 (Mem xs) i = Some v"
  "i + 4 \<le> length xs \<Longrightarrow> \<exists>v. read_be32 (Mem xs) i = Some v"
  by (simp_all add: read_be16_def read_be32_def)

lemma ipv6_loop_ok:
  "n \<le> 16 \<Longrightarrow> at + 16 \<le> length xs \<Longrightarrow> \<exists>address'. ipv6_loop (Mem xs) at n address = Some address' \<and> length address' = length address"
proof (induction n arbitrary: address)
  case (Suc n)
  with Suc.IH [of "address[15 - n := xs ! (at + (15 - n))]"] show ?case by simp
qed simp

lemma parse_rdata_total:
  assumes "record_shape r" and "rdata + unat rdlength \<le> length xs"
  shows "\<exists>st r'. parse_rdata (Mem xs) rdata rdlength r = Some (st, r') \<and> record_shape r'"
proof -
  have mx: "\<exists>v. read_be16 (Mem xs) rdata = Some v" if "\<not> rdlength < 3"
    using reads_ok(1) [of rdata xs] assms(2) that by (simp add: word_less_nat_alt)
  have a: "rdata + 3 < length xs" if "rdlength = 4" using assms(2) that by simp
  have aaaa: "\<exists>address. ipv6_loop (Mem xs) rdata 16 (ep_address endpoint_init) = Some address \<and> length address = 16" if "rdlength = 16"
    using ipv6_loop_ok [of 16 rdata xs "ep_address endpoint_init"] assms(2) that by (simp add: endpoint_init_def)
  obtain st1 t1 c1 where d1: "decode_into (Mem xs) (rdata + 2) (rec_target r) = Some (st1, t1, c1)" "text_array t1"
    using decode_into_total decoded_array assms(1) unfolding record_shape_def by metis
  obtain st2 t2 c2 where d2: "decode_into (Mem xs) rdata (rec_target r) = Some (st2, t2, c2)" "text_array t2"
    using decode_into_total decoded_array assms(1) unfolding record_shape_def by metis
  show ?thesis
  proof (cases "rec_type r = type_a \<or> rec_type r = type_aaaa")
    case True
    then show ?thesis using a aaaa assms(1)
      by (auto simp: parse_rdata_def record_shape_def endpoint_ipv4_def endpoint_ipv6_def Let_def endpoint_init_def)
  next
    case False
    with mx d1 d2 assms(1) show ?thesis by (auto simp: parse_rdata_def record_shape_def)
  qed
qed

lemma keep_record_total:
  assumes "response_shape n resp" and "text_array owner" and "rdata + unat rdlength \<le> length xs"
  shows "\<exists>st resp'. keep_record (Mem xs) source owner type ttl rdlength rdata resp = Some (st, resp') \<and> response_shape n resp'"
proof (cases "resp_record_count resp \<ge> length (resp_records resp)")
  case False
  define r where "r = (resp_records resp ! resp_record_count resp)\<lparr>rec_type := type, rec_class := class_internet, rec_section := source, rec_ttl := ttl\<rparr>"
  have r: "record_shape r" using assms(1) False by (simp add: response_shape_def record_shape_def r_def)
  obtain t where t: "copy_text owner (rec_owner r) = Some (True, t)" "text_array t"
    using copy_text_ok [OF assms(2)] r by (auto simp: record_shape_def)
  have "record_shape (r\<lparr>rec_owner := t\<rparr>)" using r t by (simp add: record_shape_def)
  from parse_rdata_total [OF this assms(3)] obtain st r' where
    p: "parse_rdata (Mem xs) rdata rdlength (r\<lparr>rec_owner := t\<rparr>) = Some (st, r')" "record_shape r'" by blast
  have "keep_record (Mem xs) source owner type ttl rdlength rdata resp = Some (st,
      if succeeded st then (set_record r' resp)\<lparr>resp_record_count := resp_record_count (set_record r' resp) + 1\<rparr> else set_record r' resp)"
    unfolding keep_record_def Let_def r_def [symmetric] using False t(1) p(1) by simp
  with False p(2) assms(1) show ?thesis
    using set_update_subset_insert [of "resp_records resp" "resp_record_count resp" r']
    by (auto simp: set_record_def response_shape_def)
qed (use assms in \<open>simp add: keep_record_def\<close>)

lemma records_loop_total:
  assumes "response_shape n resp"
  shows "\<exists>st resp'. records_loop (Mem xs) m i at resp = Some (st, resp') \<and> response_shape n resp'"
  using assms
proof (induction "m - i" arbitrary: i at resp)
  case 0
  then show ?case by (subst records_loop.simps) simp
next
  case (Suc k)
  have owner: "text_array (replicate 256 0)" by (simp add: text_array_def)
  obtain st tx c where d: "decode_into (Mem xs) at (replicate 256 0) = Some (st, tx, c)" and tx: "text_array tx"
    using decode_into_total decoded_array owner by metis
  note unfold = records_loop.simps [of "Mem xs" m i at resp]
  show ?case
  proof (cases "succeeded st \<and> at + c + 10 \<le> length xs")
    case False
    with Suc.prems Suc.hyps(2) d show ?thesis by (subst unfold) (auto simp: Let_def)
  next
    case True
    have room: "at + c + 2 \<le> length xs" "at + c + 2 + 2 \<le> length xs" "at + c + 8 + 2 \<le> length xs" "at + c + 4 + 4 \<le> length xs"
      using True by simp_all
    obtain ty cl rdlength ttl where rds: "read_be16 (Mem xs) (at + c) = Some ty" "read_be16 (Mem xs) (at + c + 2) = Some cl"
        "read_be16 (Mem xs) (at + c + 8) = Some rdlength" "read_be32 (Mem xs) (at + c + 4) = Some ttl"
      using room(1-3) [THEN reads_ok(1)] reads_ok(2) [OF room(4)] by blast
    let ?source = "if i \<ge> unat (resp_answer_count resp) + unat (resp_authority_count resp) then in_additional
                      else if i \<ge> unat (resp_answer_count resp) then in_authority else in_answer"
    let ?next = "at + c + 10 + unat rdlength"
    have i: "i < m" "k = m - (i + 1)" using Suc.hyps(2) by simp_all
    have step: "records_loop (Mem xs) m i at resp =
        (if unat rdlength > length xs - (at + c + 10) then Some (status_invalid_argument, resp)
         else if cl \<noteq> class_internet \<or> (ty \<noteq> type_a \<and> ty \<noteq> type_aaaa \<and> ty \<noteq> type_cname \<and> ty \<noteq> type_ns \<and> ty \<noteq> type_mx)
         then records_loop (Mem xs) m (i + 1) ?next resp
         else do {
           (result, resp) \<leftarrow> keep_record (Mem xs) ?source tx ty ttl rdlength (at + c + 10) resp;
           if \<not> succeeded result then Some (result, resp) else records_loop (Mem xs) m (i + 1) ?next resp })"
    proof -
      have guard: "\<not> (at + c > psize (Mem xs) \<or> psize (Mem xs) - (at + c) < 10)"
        "at + c + 10 > psize (Mem xs) \<or> unat rdlength > psize (Mem xs) - (at + c + 10) \<longleftrightarrow> unat rdlength > length xs - (at + c + 10)"
        using True by auto
      show ?thesis
        by (subst unfold) (simp only: i(1) True d rds guard Let_def if_True if_False Option.bind.bind_lunit prod.case simp_thms)
    qed
    show ?thesis
    proof (cases "unat rdlength > length xs - (at + c + 10)")
      case True
      with step Suc.prems show ?thesis by simp
    next
      case False
      then have "at + c + 10 + unat rdlength \<le> length xs" using room by simp
      from keep_record_total [OF Suc.prems tx this] obtain st' resp' where
        "keep_record (Mem xs) ?source tx ty ttl rdlength (at + c + 10) resp = Some (st', resp')" "response_shape n resp'" by blast
      with False Suc.hyps(1) [OF i(2)] Suc.prems show ?thesis unfolding step by (cases "succeeded st'") auto
    qed
  qed
qed

text \<open>A parser step that yields a well-formed response; reads inside the packet succeed.\<close>

definition yields :: "nat \<Rightarrow> (status \<times> dns_response) option \<Rightarrow> bool" where
  "yields n x \<longleftrightarrow> (\<exists>st resp. x = Some (st, resp) \<and> response_shape n resp)"

lemma yields_if: "(c \<Longrightarrow> yields n x) \<Longrightarrow> (\<not> c \<Longrightarrow> yields n y) \<Longrightarrow> yields n (if c then x else y)"
  by simp

lemma yields_return: "response_shape n resp \<Longrightarrow> yields n (Some (st, resp))"
  by (simp add: yields_def)

lemma yields_read: "i + 2 \<le> length xs \<Longrightarrow> (\<And>v. yields n (f v)) \<Longrightarrow> yields n (Option.bind (read_be16 (Mem xs) i) f)"
  using reads_ok(1) [of i xs] by auto

lemma yields_name:
  assumes "text_array buf"
    and "\<And>st t c. text_array t \<Longrightarrow> decoded (psize data) offset buf st t c \<Longrightarrow> yields n (f st t c)"
  shows "yields n (Option.bind (decode_into data offset buf) (\<lambda>(st, t, c). f st t c))"
  using decode_into_total [of data offset buf] decoded_array [OF _ assms(1)] assms(2) by fastforce

lemma yields_records: "response_shape n resp \<Longrightarrow> yields n (records_loop (Mem xs) m i at resp)"
  using records_loop_total by (simp add: yields_def)

text \<open>C35: whatever the packet, parsing it ends without an access outside the packet or the response, and every
  name of the response (question, owners and targets, kept or not) remains a terminated string in its array,
  with at most as many records as the response holds.\<close>

theorem parse_response_typed:
  assumes "response_shape n resp"
  shows "\<exists>st resp'. parse_response data expected resp = Some (st, resp') \<and> response_shape n resp'"
proof -
  have clear: "response_shape n (response_clear resp)"
    using assms by (simp add: response_shape_def response_clear_def text_array_def nth_list_update)
  have "yields n (parse_response data expected resp)"
  proof (cases data)
    case (Null k)
    with clear show ?thesis by (simp add: parse_response_def Let_def yields_return)
  next
    case (Mem xs)
    show ?thesis
      using clear unfolding parse_response_def Let_def Mem psize.simps
      by (intro yields_if yields_return yields_read yields_name yields_records)
        (auto simp: response_shape_def header_size_def)
  qed
  then show ?thesis by (simp add: yields_def)
qed

theorem parse_response_typed_witness:
  "\<exists>st resp. parse_response (Mem (0x12 # 0x34 # 0x81 # 0x80 # 0 # 1 # replicate 6 0 @ [0xC0, 0xC0])) 0x1234 (response_init 2) = Some (st, resp) \<and>
     response_shape 2 resp"
proof -
  have "response_shape 2 (response_init 2)"
    by (simp add: response_shape_def response_init_def record_shape_def dns_record_init_def text_array_def endpoint_init_def)
  then show ?thesis by (rule parse_response_typed)
qed

end
