(* ===== verification/DnsQuery.thy ===== *)
theory DnsQuery
  imports DnsName
begin

text \<open>
  Encoding a DNS question and decoding it again: the octets of a query, and what a receiver reads from them.
\<close>

section \<open>Names on paper and on the wire\<close>

definition label_ok :: "u8 list \<Rightarrow> bool" where
  "label_ok l \<longleftrightarrow> 0 < length l \<and> length l \<le> 63 \<and> (\<forall>c \<in> set l. c \<noteq> 0 \<and> c \<le> 127 \<and> c \<noteq> dot)"

definition dotted :: "u8 list list \<Rightarrow> u8 list" where
  "dotted ls = concat (map ((#) dot) ls)"

definition domain_text :: "u8 list list \<Rightarrow> u8 list" where
  "domain_text ls = tl (dotted ls)"

definition wire_labels :: "u8 list list \<Rightarrow> u8 list" where
  "wire_labels ls = concat (map (\<lambda>l. of_nat (length l) # l) ls)"

definition query_bytes :: "u16 \<Rightarrow> u16 \<Rightarrow> u8 list list \<Rightarrow> u8 list" where
  "query_bytes ident type ls = rev (le_bytes 2 ident) @ [1, 0, 0, 1, 0, 0, 0, 0, 0, 0] @ wire_labels ls @ [0] @
     rev (le_bytes 2 type) @ rev (le_bytes 2 class_internet)"

lemma dotted_simps [simp]: "dotted [] = []" "dotted (l # ls) = dot # l @ dotted ls" "domain_text [] = []"
    "domain_text (l # ls) = l @ dotted ls" "wire_labels [] = []" "wire_labels (l # ls) = of_nat (length l) # l @ wire_labels ls"
  by (simp_all add: dotted_def domain_text_def wire_labels_def)

lemma length_wire_labels: "length (wire_labels ls) = length (dotted ls)"
  by (induction ls) simp_all

section \<open>Decoding\<close>

lemma psize_put: "put p i c = Some q \<Longrightarrow> psize q = psize p"
  by (cases p) (auto split: if_splits)

lemma psize_store: "store p i vs = Some q \<Longrightarrow> psize q = psize p"
  by (cases p) (auto split: if_splits)

lemma label_chars_store:
  assumes "i \<le> length l" and "\<forall>c \<in> set l. c \<noteq> 0 \<and> c \<le> 127"
  shows "label_chars (Mem (pre @ l @ post)) (length pre) (length l) i out n =
    map_option (\<lambda>q. (True, q, n + (length l - i))) (store out n (drop i l))"
  using assms
proof (induction "length l - i" arbitrary: i out n)
  case 0
  then show ?case by (subst label_chars.simps) simp
next
  case (Suc k)
  then have i: "i < length l" and c: "l ! i \<noteq> 0" "\<not> l ! i > 127" by (auto simp: not_less)
  have "label_chars (Mem (pre @ l @ post)) (length pre) (length l) i out n =
      Option.bind (put out n (l ! i)) (\<lambda>q. map_option (\<lambda>q. (True, q, n + (length l - i))) (store q (Suc n) (drop (Suc i) l)))"
    using Suc.hyps Suc.prems i c by (subst label_chars.simps) (simp add: nth_append)
  then show ?case using i by (simp only: bind_map_option_right store_Cons Cons_nth_drop_Suc)
qed

lemma small_label:
  assumes "label_ok l"
  shows "(of_nat (length l) :: u8) AND 0xC0 = 0" "unat (of_nat (length l) :: u8) = length l" "(of_nat (length l) :: u8) \<noteq> 0"
    "\<not> (of_nat (length l) :: u8) > 63"
proof -
  have l: "length l \<le> 63" "0 < length l" using assms by (simp_all add: label_ok_def)
  then show u: "unat (of_nat (length l) :: u8) = length l" by (simp add: unat_of_nat)
  then show "(of_nat (length l) :: u8) \<noteq> 0" using l by (metis less_irrefl unat_eq_zero)
  show "\<not> (of_nat (length l) :: u8) > 63" using u l by (simp add: word_less_nat_alt)
  have "length l \<in> set [0..<64]" using l by simp
  then show "(of_nat (length l) :: u8) AND 0xC0 = 0" by (simp add: upt_rec del: upt_Suc) (elim disjE; simp)
qed

text \<open>What the decoder still has to write: a separator comes before every label but the first.\<close>

definition rest_text :: "nat \<Rightarrow> u8 list list \<Rightarrow> u8 list" where
  "rest_text n ls = (if n = 0 then domain_text ls else dotted ls)"

lemma name_loop_labels:
  assumes "list_all label_ok ls" and "hops + length ls < 128" and "expanded + length (wire_labels ls) < 255"
    and "n + length (rest_text n ls) < length buf"
  shows "name_loop (Mem (pre @ wire_labels ls @ 0 # post)) (length pre) (Mem buf) n hops expanded consumed False =
    Some (status_ok, Mem (take n buf @ rest_text n ls @ 0 # drop (n + length (rest_text n ls) + 1) buf),
      consumed + length (wire_labels ls) + 1)"
  using assms
proof (induction ls arbitrary: pre buf n hops expanded consumed)
  case Nil
  then show ?case
    by (subst name_loop.simps) (simp add: rest_text_def Let_def nth_append take_update_drop)
next
  case (Cons l ls)
  note small = small_label [of l]
  have l: "label_ok l" "list_all label_ok ls" using Cons.prems(1) by simp_all
  define n1 where "n1 = (if n \<noteq> 0 then n + 1 else n)"
  define buf1 where "buf1 = (if n \<noteq> 0 then buf[n := dot] else buf)"
  define buf2 where "buf2 = take n1 buf1 @ l @ drop (n1 + length l) buf1"
  define pfx where "pfx = (if n \<noteq> 0 then [dot] else [])"
  have tx: "rest_text n (l # ls) = pfx @ l @ dotted ls" by (simp add: rest_text_def pfx_def)
  have room: "n1 + length l + length (dotted ls) < length buf" and n: "n < length buf" "n + length pfx = n1"
    using Cons.prems(4) unfolding tx by (auto simp: n1_def pfx_def)
  have buf1: "length buf1 = length buf" "take n1 buf1 = take n buf @ pfx" "\<And>k. n1 \<le> k \<Longrightarrow> drop k buf1 = drop k buf"
    using n by (auto simp: n1_def buf1_def pfx_def take_Suc_conv_app_nth)
  have buf2: "length buf2 = length buf" "take (n1 + length l) buf2 = take n buf @ pfx @ l"
    using room buf1 n by (auto simp: buf2_def)
  have drop2: "drop (n1 + length l + k) buf2 = drop (n1 + length l + k) buf" for k
    using room buf1(1,3) by (simp add: buf2_def ac_simps)
  have chars: "label_chars (Mem (pre @ wire_labels (l # ls) @ 0 # post)) (length pre + 1) (length l) 0 (Mem buf1) n1 =
      Some (True, Mem buf2, n1 + length l)"
    using label_chars_store [of 0 l "pre @ [of_nat (length l)]" "wire_labels ls @ 0 # post" "Mem buf1" n1] l(1) room
    by (simp add: label_ok_def buf1(1) buf2_def)
  have "name_loop (Mem (pre @ wire_labels (l # ls) @ 0 # post)) (length pre) (Mem buf) n hops expanded consumed False =
      name_loop (Mem (pre @ wire_labels (l # ls) @ 0 # post)) (length pre + 1 + length l) (Mem buf2) (n1 + length l)
        (hops + 1) (expanded + 1 + length l) (consumed + 1 + length l) False"
  proof -
    let ?xs = "pre @ wire_labels (l # ls) @ 0 # post"
    have "rd (Mem ?xs) (length pre) = Some (of_nat (length l))" by (simp add: nth_append)
    moreover have "\<not> (length pre \<ge> psize (Mem ?xs) \<or> hops + 1 > 128)" "\<not> expanded \<ge> 255"
      "\<not> (length pre + 1 > psize (Mem ?xs) \<or> length l > psize (Mem ?xs) - (length pre + 1) \<or> expanded + 1 + length l > 255)"
      using Cons.prems(2,3) by simp_all
    moreover have "\<not> (n \<noteq> 0 \<and> n + 1 \<ge> psize (Mem buf))" "\<not> length l > psize (Mem buf1) - 1 - n1"
      "(if n \<noteq> 0 then put (Mem buf) n dot else Some (Mem buf)) = Some (Mem buf1)"
      "(if n \<noteq> 0 then n + 1 else n) = n1"
      using room n buf1(1) by (auto simp: n1_def buf1_def)
    moreover have "(of_nat (length l) :: u8) AND 0xC0 \<noteq> 0xC0" "\<not> ((of_nat (length l) :: u8) AND 0xC0 \<noteq> 0 \<or> (of_nat (length l) :: u8) > 63)"
      using small(1,4) [OF l(1)] by simp_all
    ultimately show ?thesis
      by (subst name_loop.simps)
        (simp only: small(2,3) [OF l(1)] chars Let_def if_True if_False Option.bind.bind_lunit prod.case simp_thms)
  qed
  also have "\<dots> = Some (status_ok, Mem (take (n1 + length l) buf2 @ rest_text (n1 + length l) ls @
      0 # drop (n1 + length l + length (rest_text (n1 + length l) ls) + 1) buf2),
      consumed + 1 + length l + length (wire_labels ls) + 1)"
  proof -
    have "pre @ wire_labels (l # ls) @ 0 # post = (pre @ of_nat (length l) # l) @ wire_labels ls @ 0 # post"
      "length pre + 1 + length l = length (pre @ of_nat (length l) # l)" by simp_all
    moreover have "n1 + length l + length (rest_text (n1 + length l) ls) < length buf2"
      unfolding buf2(1) using room l(1) by (simp add: rest_text_def label_ok_def)
    ultimately show ?thesis
      using Cons.IH [OF l(2), of "hops + 1" "expanded + 1 + length l" "n1 + length l" buf2 "pre @ of_nat (length l) # l" "consumed + 1 + length l"]
        Cons.prems(2,3) by (simp only:) simp
  qed
  also have "rest_text (n1 + length l) ls = dotted ls" using l(1) by (simp add: rest_text_def label_ok_def)
  finally show ?case unfolding tx buf2(2) using drop2 [of "length (dotted ls) + 1"] by (simp add: ac_simps n(2) [symmetric])
qed

section \<open>Encoding\<close>

text \<open>Scanning over the characters of a label, in the check and in the copy.\<close>

lemma scan_label:
  assumes "i \<le> length l" and "\<forall>c \<in> set l. c \<noteq> 0 \<and> c \<le> 127 \<and> c \<noteq> dot" and "length pre + length l \<le> stop"
  shows "check_loop (Mem (pre @ l @ post)) stop (length pre + i) begin wire = check_loop (Mem (pre @ l @ post)) stop (length pre + length l) begin wire"
    and "label_loop (Mem (pre @ l @ post)) stop (length pre + i) begin out at = label_loop (Mem (pre @ l @ post)) stop (length pre + length l) begin out at"
  using assms
proof (induction "length l - i" arbitrary: i)
  case (Suc k)
  {
    case 1
    with Suc.hyps have i: "i < length l" and c: "l ! i \<noteq> 0" "\<not> l ! i > 127" "l ! i \<noteq> dot" by (auto simp: not_less)
    with 1 Suc.hyps(1) [of "Suc i"] Suc.hyps(3) show ?case by (subst check_loop.simps) (simp add: nth_append)
  next
    case 2
    with Suc.hyps have i: "i < length l" and c: "l ! i \<noteq> dot" by auto
    with 2 Suc.hyps(2) [of "Suc i"] Suc.hyps(3) show ?case by (subst label_loop.simps) (simp add: nth_append)
  }
qed simp_all

lemma check_labels:
  assumes "label_ok l" and "list_all label_ok ls" and "wire + length l + length (dotted ls) < 255"
    and "stop = length pre + length l + length (dotted ls)"
  shows "check_loop (Mem (pre @ l @ dotted ls @ post)) stop (length pre) (length pre) wire =
    Some (Inr (stop - length (last (l # ls)), wire + length l + length (dotted ls) - length (last (l # ls))))"
  using assms
proof (induction ls arbitrary: pre l wire)
  case Nil
  then have "check_loop (Mem (pre @ l @ post)) stop (length pre) (length pre) wire =
      check_loop (Mem (pre @ l @ post)) stop (length pre + length l) (length pre) wire"
    using scan_label(1) [of 0 l pre stop post "length pre" wire] by (simp add: label_ok_def)
  also have "\<dots> = Some (Inr (length pre, wire))" using Nil.prems by (subst check_loop.simps) simp
  finally show ?case using Nil.prems by simp
next
  case (Cons l' ls)
  have l: "0 < length l" "length l \<le> 63" "\<forall>c \<in> set l. c \<noteq> 0 \<and> c \<le> 127 \<and> c \<noteq> dot" using Cons.prems(1) by (simp_all add: label_ok_def)
  have "check_loop (Mem (pre @ l @ dotted (l' # ls) @ post)) stop (length pre) (length pre) wire =
      check_loop (Mem (pre @ l @ dotted (l' # ls) @ post)) stop (length pre + length l) (length pre) wire"
    using scan_label(1) [of 0 l pre stop "dotted (l' # ls) @ post" "length pre" wire] l Cons.prems(4) by simp
  also have "\<dots> = check_loop (Mem ((pre @ l @ [dot]) @ l' @ dotted ls @ post)) stop (length (pre @ l @ [dot])) (length (pre @ l @ [dot])) (wire + length l + 1)"
  proof -
    have "\<not> wire > 255 - (length l + 1)" using Cons.prems(3) by auto
    with l Cons.prems(4) show ?thesis by (subst check_loop.simps) (simp add: nth_append Let_def add.assoc)
  qed
  finally show ?case
    using Cons.IH [of l' "wire + length l + 1" "pre @ l @ [dot]"] Cons.prems by simp
qed

lemma copy_label_store:
  assumes "i \<le> length l"
  shows "copy_label (Mem (pre @ l @ post)) (length pre + i) (length pre + length l) out at =
    map_option (\<lambda>q. (q, at + (length l - i))) (store out at (drop i l))"
  using assms
proof (induction "length l - i" arbitrary: i out at)
  case 0
  then show ?case by (subst copy_label.simps) simp
next
  case (Suc k)
  then have i: "i < length l" by simp
  have "copy_label (Mem (pre @ l @ post)) (length pre + i) (length pre + length l) out at =
      Option.bind (put out at (l ! i)) (\<lambda>q. map_option (\<lambda>q. (q, at + (length l - i))) (store q (Suc at) (drop (Suc i) l)))"
    using Suc.hyps(2) Suc.hyps(1) [of "Suc i"] i by (subst copy_label.simps) (simp add: nth_append)
  then show ?case using i by (simp only: bind_map_option_right store_Cons Cons_nth_drop_Suc)
qed

lemma label_step:
  assumes "length pre + length l \<le> stop" and "\<forall>c \<in> set l. c \<noteq> 0 \<and> c \<le> 127 \<and> c \<noteq> dot"
    and "length pre + length l < stop \<Longrightarrow> \<exists>post'. post = dot # post'"
  shows "label_loop (Mem (pre @ l @ post)) stop (length pre) (length pre) out at =
    Option.bind (store out at (of_nat (length l) # l))
      (\<lambda>q. label_loop (Mem (pre @ l @ post)) stop (length pre + length l + 1) (length pre + length l + 1) q (at + 1 + length l))"
    (is "?lhs = Option.bind _ ?rest")
proof -
  have ends: "(if length pre + length l = stop then Some True else do { c \<leftarrow> rd (Mem (pre @ l @ post)) (length pre + length l); Some (c = dot) }) = Some True"
    using assms(1,3) by (cases "length pre + length l = stop") (auto simp: nth_append)
  have "?lhs = label_loop (Mem (pre @ l @ post)) stop (length pre + length l) (length pre) out at"
    using scan_label(2) [OF _ assms(2,1), of 0 post "length pre" out at] by simp
  also have "\<dots> = Option.bind (put out at (of_nat (length l))) (\<lambda>q. Option.bind (store q (Suc at) l) ?rest)"
    using assms(1) copy_label_store [of 0 l pre post _ "at + 1"]
    by (subst label_loop.simps) (simp add: ends del: rd.simps, simp add: bind_map_option comp_def)
  also have "\<dots> = Option.bind (store out at (of_nat (length l) # l)) ?rest"
    by (simp only: store_Cons [symmetric] bind_assoc)
  finally show ?thesis .
qed

lemma label_loop_labels:
  assumes "label_ok l" and "list_all label_ok ls" and "stop = length pre + length l + length (dotted ls)"
  shows "label_loop (Mem (pre @ l @ dotted ls @ post)) stop (length pre) (length pre) out at =
    map_option (\<lambda>q. (q, at + length (wire_labels (l # ls)))) (store out at (wire_labels (l # ls)))"
  using assms
proof (induction ls arbitrary: pre l out at)
  case Nil
  then have "label_loop (Mem (pre @ l @ post)) stop (Suc stop) (Suc stop) q n = Some (q, n)" for q n
    by (subst label_loop.simps) simp
  with Nil show ?case
    using label_step [of pre l stop post out at] by (simp add: label_ok_def bind_return)
next
  case (Cons l' ls)
  let ?pre = "pre @ l @ [dot]"
  have "label_loop (Mem (pre @ l @ dotted (l' # ls) @ post)) stop (length pre) (length pre) out at =
      Option.bind (store out at (of_nat (length l) # l)) (\<lambda>q. label_loop (Mem (?pre @ l' @ dotted ls @ post)) stop (length ?pre) (length ?pre) q (at + 1 + length l))"
    using label_step [of pre l stop "dotted (l' # ls) @ post" out at] Cons.prems by (simp add: label_ok_def)
  also have "\<dots> = Option.bind (store out at (of_nat (length l) # l)) (\<lambda>q. map_option (\<lambda>q. (q, at + length (wire_labels (l # l' # ls))))
      (store q (at + length (of_nat (length l) # l)) (wire_labels (l' # ls))))"
    using Cons.IH [of l' ?pre _ "at + 1 + length l"] Cons.prems by (simp add: ac_simps)
  also have "\<dots> = map_option (\<lambda>q. (q, at + length (wire_labels (l # l' # ls)))) (store out at (wire_labels (l # l' # ls)))"
    unfolding bind_map_option_right store_append by simp
  finally show ?case .
qed

section \<open>A question survives the wire\<close>

lemma wire_bound: "list_all label_ok ls \<Longrightarrow> 2 * length ls \<le> length (wire_labels ls)"
proof (induction ls)
  case (Cons l ls)
  then have "0 < length l" by (simp add: label_ok_def)
  with Cons show ?case by (simp del: length_greater_0_conv)
qed simp

lemma last_label:
  "label_ok l \<Longrightarrow> list_all label_ok ls \<Longrightarrow> length (last (l # ls)) \<le> length l + length (dotted ls) \<and> label_ok (last (l # ls)) \<and>
   last (l @ dotted ls) \<noteq> dot"
proof (induction ls arbitrary: l)
  case Nil
  then have "l \<noteq> []" "\<forall>c \<in> set l. c \<noteq> dot" by (simp_all add: label_ok_def)
  then have "last l \<noteq> dot" using last_in_set by blast
  with Nil show ?case by simp
next
  case (Cons l' ls)
  have "l' \<noteq> []" using Cons.prems(2) by (simp add: label_ok_def)
  with Cons.IH [of l'] Cons.prems show ?case by simp
qed

text \<open>Writing into a buffer front to back: what was written, then the rest of the old contents.\<close>

lemma store_tail:
  "length pfx = k \<Longrightarrow> k + length vs \<le> length buf \<Longrightarrow>
   store (Mem (pfx @ drop k buf)) k vs = Some (Mem ((pfx @ vs) @ drop (k + length vs) buf))"
  by (simp add: ac_simps)

definition query_head :: "u16 \<Rightarrow> u8 list" where
  "query_head ident = rev (le_bytes 2 ident) @ [1, 0, 0, 1, 0, 0, 0, 0, 0, 0]"

text \<open>The writes of \<open>encode_query\<close> into a large enough buffer, of which \<open>front pfx\<close> has been overwritten with \<open>pfx\<close>.\<close>

definition front :: "u8 list \<Rightarrow> u8 list \<Rightarrow> u8 ptr" where
  "front buf pfx = Mem (pfx @ drop (length pfx) buf)"

lemma store_front:
  "length pfx = k \<Longrightarrow> k + length vs \<le> length buf \<Longrightarrow> w = pfx @ vs \<Longrightarrow> store (front buf pfx) k vs = Some (front buf w)"
  using store_tail [of pfx k vs buf] by (simp add: front_def)

lemma write_query:
  assumes "label_ok l" and "list_all label_ok ls" and "length (query_bytes ident type (l # ls)) \<le> length buf"
  defines "wire \<equiv> wire_labels (l # ls)"
  shows "write_be16 (Mem buf) 0 ident = Some (front buf (rev (le_bytes 2 ident)))"
    and "store (front buf (rev (le_bytes 2 ident))) 2 [1, 0, 0, 1, 0, 0, 0, 0, 0, 0] = Some (front buf (query_head ident))"
    and "label_loop (Mem (l @ dotted ls @ post)) (length l + length (dotted ls)) 0 0 (front buf (query_head ident)) 12 =
      Some (front buf (query_head ident @ wire), 12 + length wire)"
    and "put (front buf (query_head ident @ wire)) (12 + length wire) 0 = Some (front buf (query_head ident @ wire @ [0]))"
    and "finish_query type (front buf (query_head ident @ wire @ [0])) (12 + length wire + 1) =
      Some (status_ok, front buf (query_bytes ident type (l # ls)), length (query_bytes ident type (l # ls)))"
proof -
  have room: "12 + length wire + 5 \<le> length buf" using assms(3) by (simp add: query_bytes_def wire_def)
  note head = query_head_def
  have "Mem buf = front buf []" by (simp add: front_def)
  then show "write_be16 (Mem buf) 0 ident = Some (front buf (rev (le_bytes 2 ident)))"
    using room by (simp only: writes_store) (intro store_front; simp)
  show "store (front buf (rev (le_bytes 2 ident))) 2 [1, 0, 0, 1, 0, 0, 0, 0, 0, 0] = Some (front buf (query_head ident))"
    using room by (intro store_front) (simp_all add: head)
  have "store (front buf (query_head ident)) 12 wire = Some (front buf (query_head ident @ wire))"
    using room by (intro store_front) (simp_all add: head)
  then show "label_loop (Mem (l @ dotted ls @ post)) (length l + length (dotted ls)) 0 0 (front buf (query_head ident)) 12 =
      Some (front buf (query_head ident @ wire), 12 + length wire)"
    using label_loop_labels [OF assms(1,2), of "length l + length (dotted ls)" "[]" post] by (simp add: wire_def)
  have "store (front buf (query_head ident @ wire)) (12 + length wire) [0] = Some (front buf (query_head ident @ wire @ [0]))"
    using room by (intro store_front) (simp_all add: head)
  then show "put (front buf (query_head ident @ wire)) (12 + length wire) 0 = Some (front buf (query_head ident @ wire @ [0]))"
    by (simp only: store_single)
  have "store (front buf (query_head ident @ wire @ [0])) (12 + length wire + 1) (rev (le_bytes 2 type)) =
      Some (front buf (query_head ident @ wire @ [0] @ rev (le_bytes 2 type)))"
    using room by (intro store_front) (simp_all add: head)
  moreover have "store (front buf (query_head ident @ wire @ [0] @ rev (le_bytes 2 type))) (12 + length wire + 1 + 2) (rev (le_bytes 2 class_internet)) =
      Some (front buf (query_bytes ident type (l # ls)))"
    using room by (intro store_front) (simp_all add: query_bytes_def head wire_def)
  ultimately show "finish_query type (front buf (query_head ident @ wire @ [0])) (12 + length wire + 1) =
      Some (status_ok, front buf (query_bytes ident type (l # ls)), length (query_bytes ident type (l # ls)))"
    unfolding finish_query_def writes_store by (simp only: Option.bind.bind_lunit) (simp add: query_bytes_def wire_def)
qed

lemma encode_query_bytes:
  assumes l: "label_ok l" "list_all label_ok ls'" and "length (wire_labels ls) < 255" and "valid_query_type type"
    and "length (query_bytes ident type ls) \<le> length buf" and "name \<in> {domain_text ls, domain_text ls @ [dot]}" and ls: "ls = l # ls'"
  shows "encode_query (Mem name) type ident (Mem buf) =
      Some (status_ok, Mem (query_bytes ident type ls @ drop (length (query_bytes ident type ls)) buf), length (query_bytes ident type ls))"
proof -
  let ?wire = "wire_labels ls" and ?text = "domain_text ls"
  let ?stop = "length ?text" and ?last = "length (last ls)"
  have tx: "?text = l @ dotted ls'" and wire: "length ?wire = length ?text + 1" by (simp_all add: ls length_wire_labels)
  note last = last_label [OF l]
  obtain post where name: "name = l @ dotted ls' @ post" "post = [] \<or> post = [dot]" using assms(6) by (auto simp: ls)
  note writes = write_query [OF l assms(5) [unfolded ls], folded ls]
  have labels: "label_loop (Mem name) ?stop 0 0 (front buf (query_head ident)) 12 = Some (front buf (query_head ident @ ?wire), 12 + length ?wire)"
    using write_query(3) [OF l assms(5) [unfolded ls], of post] by (simp add: name tx) (simp add: ls)
  have check: "check_loop (Mem name) ?stop 0 0 1 = Some (Inr (?stop - ?last, 1 + ?stop - ?last))"
    using check_labels [OF l, of 1 ?stop "[]" post] assms(3) by (simp add: name tx wire ls length_wire_labels del: last.simps)
  have nm: "name = ?text @ post" "?text \<noteq> []" using l(1) by (auto simp: name tx label_ok_def)
  then have "name ! 0 = hd ?text" "name ! (length ?text - 1) = last ?text"
    unfolding nm(1) by (simp_all add: nth_append hd_conv_nth last_conv_nth)
  moreover have "hd ?text \<noteq> dot" "last ?text \<noteq> dot" "0 < ?stop" using l(1) last by (auto simp: tx label_ok_def hd_append)
  ultimately have stop: "(if name ! (length name - 1) = dot then length name - 1 else length name) = ?stop" "?stop \<noteq> 0"
    and first: "\<not> (length name = 1 \<and> name ! 0 = dot)"
    using name(2) nm by auto
  have guards: "\<not> length buf < 12" "length name \<noteq> 0"
    "rd (Mem name) 0 = Some (name ! 0)" "rd (Mem name) (length name - 1) = Some (name ! (length name - 1))"
    using assms(5) l(1) by (simp_all add: name label_ok_def query_bytes_def)
  have last_len: "?stop - (?stop - ?last) = ?last" "\<not> (?last = 0 \<or> ?last > 63 \<or> 1 + ?stop - ?last > 255 - (?last + 1))"
    "1 + ?stop - ?last + ?last + 1 = length ?wire + 1"
    using last assms(3) wire by (auto simp: tx ls label_ok_def simp del: last.simps)
  have fits: "\<not> 12 + (length ?wire + 1) + 4 > psize (front buf (query_head ident))"
    using assms(5) by (simp add: query_bytes_def query_head_def front_def)
  show ?thesis
    unfolding encode_query_def header_size_def psize.simps is_null.simps
    by (simp only: assms(4) guards writes(1,2,4,5) labels first stop check
        last_len fits Let_def if_False if_True Option.bind.bind_lunit prod.case sum.case simp_thms)
      (simp add: front_def)
qed

lemma decode_query_name:
  assumes "list_all label_ok ls" and "length (wire_labels ls) < 255" and "length (domain_text ls) < length out"
  shows "decode_name (Mem (query_bytes ident type ls @ rest)) header_size (Mem out) =
      Some (status_ok, Mem (domain_text ls @ 0 # drop (length (domain_text ls) + 1) out), length (wire_labels ls) + 1)"
proof -
  let ?head = "rev (le_bytes 2 ident) @ [1, 0, 0, 1, 0, 0, 0, 0, 0, 0]"
  have "name_loop (Mem (?head @ wire_labels ls @ 0 # (rev (le_bytes 2 type) @ rev (le_bytes 2 class_internet) @ rest))) (length ?head) (Mem out) 0 0 0 0 False =
      Some (status_ok, Mem (take 0 out @ rest_text 0 ls @ 0 # drop (0 + length (rest_text 0 ls) + 1) out), 0 + length (wire_labels ls) + 1)"
    using wire_bound [OF assms(1)] assms by (intro name_loop_labels) (simp_all add: rest_text_def)
  moreover have "out \<noteq> []" using assms(3) by auto
  ultimately show ?thesis by (simp add: decode_name_def query_bytes_def header_size_def rest_text_def)
qed

text \<open>C36: a question is encoded as the octets RFC 1035 prescribes for its labels, with or without a trailing
  dot on the name, and the receiver of any packet that begins with them reads the same name back and
  consumes exactly its octets.\<close>

theorem query_roundtrip:
  assumes "ls \<noteq> []" and "list_all label_ok ls" and "length (wire_labels ls) < 255" and "valid_query_type type"
    and "length (query_bytes ident type ls) \<le> length buf" and "name \<in> {domain_text ls, domain_text ls @ [dot]}"
    and "length (domain_text ls) < length out"
  shows "encode_query (Mem name) type ident (Mem buf) =
      Some (status_ok, Mem (query_bytes ident type ls @ drop (length (query_bytes ident type ls)) buf), length (query_bytes ident type ls)) \<and>
    decode_name (Mem (query_bytes ident type ls @ rest)) header_size (Mem out) =
      Some (status_ok, Mem (domain_text ls @ 0 # drop (length (domain_text ls) + 1) out), length (wire_labels ls) + 1)"
proof -
  obtain l ls' where ls: "ls = l # ls'" using assms(1) by (cases ls) auto
  then have "label_ok l" "list_all label_ok ls'" using assms(2) by simp_all
  from encode_query_bytes [OF this assms(3-6) ls] decode_query_name [OF assms(2,3,7)] show ?thesis by blast
qed

theorem query_roundtrip_witness:
  "decode_name (Mem (query_bytes 7 type_a [[0x61], [0x62, 0x63]] @ [])) header_size (Mem [0, 0, 0, 0, 0, 0, 0]) =
     Some (status_ok, Mem [0x61, 0x2E, 0x62, 0x63, 0, 0, 0], 6)"
  using query_roundtrip [of "[[0x61], [0x62, 0x63]]" type_a 7 "replicate 24 0" "[0x61, 0x2E, 0x62, 0x63]" "[0, 0, 0, 0, 0, 0, 0]" "[]"]
  by (simp add: label_ok_def dot_def valid_query_type_def query_bytes_def)

end
