(* ===== verification/Maps.thy ===== *)
theory Maps
  imports Comparators
begin

text \<open>
  The contract of a bounded map, as \<open>castle::container::map\<close>, \<open>hash_map\<close> and their clients rely on
  it: what an insertion, an erasure and a lookup do to the finite function a container represents, the
  status each returns, and that none has undefined behaviour.  The client lemma is proved once: any
  sequence of operations returns what the same sequence returns on the function.
\<close>

section \<open>The abstract map\<close>

datatype ('k, 'v) map_op = Insert 'k 'v | Erase 'k | Get 'k

datatype 'v map_result = Status status | Value "'v option"

definition map_spec :: "('k \<Rightarrow> 'k \<Rightarrow> bool) \<Rightarrow> nat \<Rightarrow> ('k, 'v) map_op \<Rightarrow> ('k \<Rightarrow> 'v option) \<times> nat
    \<Rightarrow> 'v map_result \<times> ('k \<Rightarrow> 'v option) \<times> nat" where
  "map_spec eqv cap op = (\<lambda>(f, n).
     case op of
       Insert k v \<Rightarrow>
         if f k \<noteq> None then (Status status_already_exists, f, n)
         else if n = cap then (Status status_full, f, n)
         else (Status status_ok, \<lambda>k'. if eqv k k' then Some v else f k', n + 1)
     | Erase k \<Rightarrow>
         if f k = None then (Status status_not_found, f, n)
         else (Status status_ok, \<lambda>k'. if eqv k k' then None else f k', n - 1)
     | Get k \<Rightarrow> (Value (f k), f, n))"

fun map_spec_run :: "('k \<Rightarrow> 'k \<Rightarrow> bool) \<Rightarrow> nat \<Rightarrow> ('k, 'v) map_op list \<Rightarrow> ('k \<Rightarrow> 'v option) \<times> nat
    \<Rightarrow> 'v map_result list" where
  "map_spec_run eqv cap [] s = []"
| "map_spec_run eqv cap (op # ops) s = (let (r, s) = map_spec eqv cap op s in r # map_spec_run eqv cap ops s)"

section \<open>The contract\<close>

locale bounded_map =
  fixes eqv :: "'k \<Rightarrow> 'k \<Rightarrow> bool" and inv :: "'m \<Rightarrow> bool" and look :: "'m \<Rightarrow> 'k \<Rightarrow> 'v option"
    and count :: "'m \<Rightarrow> nat" and cap :: "'m \<Rightarrow> nat"
    and insert :: "'k \<Rightarrow> 'v \<Rightarrow> 'm \<Rightarrow> (status \<times> 'm) option" and erase :: "'k \<Rightarrow> 'm \<Rightarrow> (status \<times> 'm) option"
    and get :: "'k \<Rightarrow> 'm \<Rightarrow> 'v option option"
  assumes get_ok: "inv m \<Longrightarrow> get k m = Some (look m k)"
    and insert_present: "inv m \<Longrightarrow> look m k \<noteq> None \<Longrightarrow> insert k v m = Some (status_already_exists, m)"
    and insert_full: "inv m \<Longrightarrow> look m k = None \<Longrightarrow> count m = cap m \<Longrightarrow> insert k v m = Some (status_full, m)"
    and insert_ok: "inv m \<Longrightarrow> look m k = None \<Longrightarrow> count m \<noteq> cap m \<Longrightarrow>
      \<exists>m'. insert k v m = Some (status_ok, m') \<and> inv m' \<and> look m' = (\<lambda>k'. if eqv k k' then Some v else look m k') \<and>
        count m' = count m + 1 \<and> cap m' = cap m"
    and erase_absent: "inv m \<Longrightarrow> look m k = None \<Longrightarrow> erase k m = Some (status_not_found, m)"
    and erase_ok: "inv m \<Longrightarrow> look m k \<noteq> None \<Longrightarrow>
      \<exists>m'. erase k m = Some (status_ok, m') \<and> inv m' \<and> look m' = (\<lambda>k'. if eqv k k' then None else look m k') \<and>
        count m' = count m - 1 \<and> cap m' = cap m"
begin

definition step :: "('k, 'v) map_op \<Rightarrow> 'm \<Rightarrow> ('v map_result \<times> 'm) option" where
  "step op m =
     (case op of
        Insert k v \<Rightarrow> map_option (\<lambda>(s, m). (Status s, m)) (insert k v m)
      | Erase k \<Rightarrow> map_option (\<lambda>(s, m). (Status s, m)) (erase k m)
      | Get k \<Rightarrow> map_option (\<lambda>v. (Value v, m)) (get k m))"

fun run :: "('k, 'v) map_op list \<Rightarrow> 'm \<Rightarrow> ('v map_result list \<times> 'm) option" where
  "run [] m = Some ([], m)"
| "run (op # ops) m = do { (r, m) \<leftarrow> step op m; (rs, m) \<leftarrow> run ops m; Some (r # rs, m) }"

lemma step_spec:
  assumes "inv m"
  shows "\<exists>m'. step op m = Some (fst (map_spec eqv (cap m) op (look m, count m)), m') \<and> inv m' \<and>
    snd (map_spec eqv (cap m) op (look m, count m)) = (look m', count m') \<and> cap m' = cap m"
proof (cases op)
  case (Insert k v)
  consider "look m k \<noteq> None" | "look m k = None" "count m = cap m" | "look m k = None" "count m \<noteq> cap m" by blast
  then show ?thesis
  proof cases
    case 1
    then show ?thesis using insert_present [OF assms 1, of v] assms by (simp add: Insert step_def map_spec_def)
  next
    case 2
    then show ?thesis using insert_full [OF assms 2, of v] assms by (simp add: Insert step_def map_spec_def)
  next
    case 3
    then show ?thesis using insert_ok [OF assms 3, of v] by (auto simp: Insert step_def map_spec_def)
  qed
next
  case (Erase k)
  then show ?thesis
    using erase_absent [OF assms, of k] erase_ok [OF assms, of k] assms
    by (cases "look m k") (auto simp: step_def map_spec_def)
next
  case (Get k)
  then show ?thesis using get_ok [OF assms] assms by (simp add: step_def map_spec_def)
qed

lemma run_spec:
  "inv m \<Longrightarrow> \<exists>m'. run ops m = Some (map_spec_run eqv (cap m) ops (look m, count m), m') \<and> inv m' \<and> cap m' = cap m"
proof (induction ops arbitrary: m)
  case Nil
  then show ?case by simp
next
  case (Cons op ops)
  from step_spec [OF Cons.prems, of op] obtain m' where m': "inv m'" "cap m' = cap m"
    "step op m = Some (fst (map_spec eqv (cap m) op (look m, count m)), m')"
    "snd (map_spec eqv (cap m) op (look m, count m)) = (look m', count m')" by blast
  with Cons.IH [OF m'(1)] show ?case by (auto simp: split_beta)
qed

end

end
