(* ===== verification/AvlTree.thy ===== *)
theory AvlTree
  imports Maps
begin

text \<open>
  \<open>castle::container::avl_tree\<close> (\<open>container/avl_tree.hpp\<close>), the pool-allocated balanced tree below
  \<open>map\<close> and \<open>set\<close>: the node array with its left, right and parent links, stored heights and free
  list, and every operation on it, written over the store as the code is.  A node pointer is an index
  into \<open>nodes_\<close> or null.  Dereferencing null, reading a slot that holds no object and destroying one
  twice are undefined behaviour and the value \<open>None\<close>; the loops are \<open>partial_function\<close>s, so that a
  loop that does not end is \<open>None\<close> as well.
\<close>

section \<open>State\<close>

type_synonym node_ptr = "nat option"

record ('k, 'v) avl_node =
  left :: node_ptr
  right :: node_ptr
  parent :: node_ptr
  height :: nat
  used :: bool
  entry :: "('k \<times> 'v) option"

record ('k, 'v) avl =
  nodes :: "('k, 'v) avl_node list"
  root :: node_ptr
  free_head :: node_ptr
  stored :: nat

definition node_init :: "('k, 'v) avl_node" where
  "node_init = \<lparr>left = None, right = None, parent = None, height = 1, used = False, entry = None\<rparr>"

text \<open>Access through a pointer.\<close>

definition at :: "node_ptr \<Rightarrow> ('k, 'v) avl \<Rightarrow> ('k, 'v) avl_node option" where
  "at p s = (case p of None \<Rightarrow> None | Some i \<Rightarrow> if i < length (nodes s) then Some (nodes s ! i) else None)"

definition modify :: "node_ptr \<Rightarrow> (('k, 'v) avl_node \<Rightarrow> ('k, 'v) avl_node) \<Rightarrow> ('k, 'v) avl \<Rightarrow> ('k, 'v) avl option" where
  "modify p f s =
     (case p of None \<Rightarrow> None
      | Some i \<Rightarrow> if i < length (nodes s) then Some (s\<lparr>nodes := (nodes s)[i := f (nodes s ! i)]\<rparr>) else None)"

definition node_value :: "node_ptr \<Rightarrow> ('k, 'v) avl \<Rightarrow> ('k \<times> 'v) option" where
  "node_value p s = Option.bind (at p s) entry"

section \<open>Pool\<close>

text \<open>The loop runs over the indices N - 1, \<dots>, 0.\<close>

fun initialise_pool_loop :: "nat \<Rightarrow> ('k, 'v) avl \<Rightarrow> ('k, 'v) avl" where
  "initialise_pool_loop 0 s = s"
| "initialise_pool_loop (Suc i) s =
     (let item = (nodes s ! i)\<lparr>left := free_head s, right := None, parent := None, height := 0, used := False\<rparr>
      in initialise_pool_loop i (s\<lparr>nodes := (nodes s)[i := item], free_head := Some i\<rparr>))"

definition initialise_pool :: "('k, 'v) avl \<Rightarrow> ('k, 'v) avl" where
  "initialise_pool s = initialise_pool_loop (length (nodes s)) (s\<lparr>free_head := None\<rparr>)"

definition avl_init :: "nat \<Rightarrow> ('k, 'v) avl" where
  "avl_init N = initialise_pool \<lparr>nodes = replicate N node_init, root = None, free_head = None, stored = 0\<rparr>"

definition allocate_node :: "('k, 'v) avl \<Rightarrow> (node_ptr \<times> ('k, 'v) avl) option" where
  "allocate_node s =
     (if free_head s = None then Some (None, s)
      else do {
        let result = free_head s;
        n \<leftarrow> at result s;
        s \<leftarrow> modify result (\<lambda>n. n\<lparr>left := None, right := None, parent := None, height := 1, used := True\<rparr>)
          (s\<lparr>free_head := left n\<rparr>);
        Some (result, s)
      })"

definition construct_at :: "node_ptr \<Rightarrow> 'k \<times> 'v \<Rightarrow> ('k, 'v) avl \<Rightarrow> ('k, 'v) avl option" where
  "construct_at p v s = modify p (\<lambda>n. n\<lparr>entry := Some v\<rparr>) s"

definition destroy_at :: "node_ptr \<Rightarrow> ('k, 'v) avl \<Rightarrow> ('k, 'v) avl option" where
  "destroy_at p s = do { _ \<leftarrow> node_value p s; modify p (\<lambda>n. n\<lparr>entry := None\<rparr>) s }"

definition release_node :: "node_ptr \<Rightarrow> ('k, 'v) avl \<Rightarrow> ('k, 'v) avl option" where
  "release_node item s = do {
     s \<leftarrow> destroy_at item s;
     s \<leftarrow> modify item (\<lambda>n. n\<lparr>used := False, left := free_head s, right := None, parent := None, height := 0\<rparr>) s;
     let s = s\<lparr>free_head := item\<rparr>;
     Some (if stored s > 0 then s\<lparr>stored := stored s - 1\<rparr> else s)
   }"

section \<open>Rotations and rebalancing\<close>

definition node_height :: "node_ptr \<Rightarrow> ('k, 'v) avl \<Rightarrow> nat option" where
  "node_height p s = (case p of None \<Rightarrow> Some 0 | Some _ \<Rightarrow> map_option height (at p s))"

definition balance_factor :: "node_ptr \<Rightarrow> ('k, 'v) avl \<Rightarrow> int option" where
  "balance_factor p s = do {
     n \<leftarrow> at p s;
     l \<leftarrow> node_height (left n) s;
     r \<leftarrow> node_height (right n) s;
     Some (int l - int r)
   }"

text \<open>\<open>height\<close> is a \<open>uint8_t\<close>.\<close>

definition update_height :: "node_ptr \<Rightarrow> ('k, 'v) avl \<Rightarrow> ('k, 'v) avl option" where
  "update_height p s = do {
     n \<leftarrow> at p s;
     l \<leftarrow> node_height (left n) s;
     r \<leftarrow> node_height (right n) s;
     modify p (\<lambda>n. n\<lparr>height := ((if l > r then l else r) + 1) mod 256\<rparr>) s
   }"

text \<open>The if-chain of \<open>transplant\<close> and of both rotations.\<close>

definition replace_child :: "node_ptr \<Rightarrow> node_ptr \<Rightarrow> node_ptr \<Rightarrow> ('k, 'v) avl \<Rightarrow> ('k, 'v) avl option" where
  "replace_child par old new s =
     (if par = None then Some (s\<lparr>root := new\<rparr>)
      else do {
        n \<leftarrow> at par s;
        if old = left n then modify par (\<lambda>n. n\<lparr>left := new\<rparr>) s else modify par (\<lambda>n. n\<lparr>right := new\<rparr>) s
      })"

definition transplant :: "node_ptr \<Rightarrow> node_ptr \<Rightarrow> ('k, 'v) avl \<Rightarrow> ('k, 'v) avl option" where
  "transplant old_node new_node s = do {
     n \<leftarrow> at old_node s;
     s \<leftarrow> replace_child (parent n) old_node new_node s;
     if new_node \<noteq> None then do {
       n \<leftarrow> at old_node s;
       modify new_node (\<lambda>m. m\<lparr>parent := parent n\<rparr>) s
     } else Some s
   }"

definition rotate_left :: "node_ptr \<Rightarrow> ('k, 'v) avl \<Rightarrow> ('k, 'v) avl option" where
  "rotate_left pivot s = do {
     p \<leftarrow> at pivot s;
     let child = right p;
     c \<leftarrow> at child s;
     s \<leftarrow> modify pivot (\<lambda>n. n\<lparr>right := left c\<rparr>) s;
     c \<leftarrow> at child s;
     s \<leftarrow> (if left c \<noteq> None then modify (left c) (\<lambda>n. n\<lparr>parent := pivot\<rparr>) s else Some s);
     p \<leftarrow> at pivot s;
     s \<leftarrow> modify child (\<lambda>n. n\<lparr>parent := parent p\<rparr>) s;
     p \<leftarrow> at pivot s;
     s \<leftarrow> replace_child (parent p) pivot child s;
     s \<leftarrow> modify child (\<lambda>n. n\<lparr>left := pivot\<rparr>) s;
     s \<leftarrow> modify pivot (\<lambda>n. n\<lparr>parent := child\<rparr>) s;
     s \<leftarrow> update_height pivot s;
     update_height child s
   }"

definition rotate_right :: "node_ptr \<Rightarrow> ('k, 'v) avl \<Rightarrow> ('k, 'v) avl option" where
  "rotate_right pivot s = do {
     p \<leftarrow> at pivot s;
     let child = left p;
     c \<leftarrow> at child s;
     s \<leftarrow> modify pivot (\<lambda>n. n\<lparr>left := right c\<rparr>) s;
     c \<leftarrow> at child s;
     s \<leftarrow> (if right c \<noteq> None then modify (right c) (\<lambda>n. n\<lparr>parent := pivot\<rparr>) s else Some s);
     p \<leftarrow> at pivot s;
     s \<leftarrow> modify child (\<lambda>n. n\<lparr>parent := parent p\<rparr>) s;
     p \<leftarrow> at pivot s;
     s \<leftarrow> replace_child (parent p) pivot child s;
     s \<leftarrow> modify child (\<lambda>n. n\<lparr>right := pivot\<rparr>) s;
     s \<leftarrow> modify pivot (\<lambda>n. n\<lparr>parent := child\<rparr>) s;
     s \<leftarrow> update_height pivot s;
     update_height child s
   }"

definition rebalance_step :: "node_ptr \<Rightarrow> ('k, 'v) avl \<Rightarrow> ('k, 'v) avl option" where
  "rebalance_step current s = do {
     s \<leftarrow> update_height current s;
     balance \<leftarrow> balance_factor current s;
     if balance > 1 then do {
       n \<leftarrow> at current s;
       b \<leftarrow> balance_factor (left n) s;
       s \<leftarrow> (if b < 0 then rotate_left (left n) s else Some s);
       rotate_right current s
     }
     else if balance < -1 then do {
       n \<leftarrow> at current s;
       b \<leftarrow> balance_factor (right n) s;
       s \<leftarrow> (if b > 0 then rotate_right (right n) s else Some s);
       rotate_left current s
     }
     else Some s
   }"

partial_function (option) rebalance :: "node_ptr \<Rightarrow> ('k, 'v) avl \<Rightarrow> ('k, 'v) avl option" where
  "rebalance current s =
     (if current = None then Some s
      else do {
        s \<leftarrow> rebalance_step current s;
        n \<leftarrow> at current s;
        rebalance (parent n) s
      })"

section \<open>Navigation\<close>

partial_function (option) minimum_loop :: "node_ptr \<Rightarrow> ('k, 'v) avl \<Rightarrow> node_ptr option" where
  "minimum_loop item s = do {
     n \<leftarrow> at item s;
     if left n \<noteq> None then minimum_loop (left n) s else Some item
   }"

definition minimum :: "node_ptr \<Rightarrow> ('k, 'v) avl \<Rightarrow> node_ptr option" where
  "minimum item s = (if item = None then Some None else minimum_loop item s)"

partial_function (option) maximum_loop :: "node_ptr \<Rightarrow> ('k, 'v) avl \<Rightarrow> node_ptr option" where
  "maximum_loop item s = do {
     n \<leftarrow> at item s;
     if right n \<noteq> None then maximum_loop (right n) s else Some item
   }"

partial_function (option) climb_right :: "node_ptr \<Rightarrow> node_ptr \<Rightarrow> ('k, 'v) avl \<Rightarrow> node_ptr option" where
  "climb_right item par s =
     (if par = None then Some None
      else do {
        n \<leftarrow> at par s;
        if item = right n then climb_right par (parent n) s else Some par
      })"

partial_function (option) climb_left :: "node_ptr \<Rightarrow> node_ptr \<Rightarrow> ('k, 'v) avl \<Rightarrow> node_ptr option" where
  "climb_left item par s =
     (if par = None then Some None
      else do {
        n \<leftarrow> at par s;
        if item = left n then climb_left par (parent n) s else Some par
      })"

definition successor :: "node_ptr \<Rightarrow> ('k, 'v) avl \<Rightarrow> node_ptr option" where
  "successor item s =
     (if item = None then Some None
      else do {
        n \<leftarrow> at item s;
        if right n \<noteq> None then minimum_loop (right n) s else climb_right item (parent n) s
      })"

definition predecessor :: "node_ptr \<Rightarrow> ('k, 'v) avl \<Rightarrow> node_ptr option" where
  "predecessor item s =
     (if item = None then Some None
      else do {
        n \<leftarrow> at item s;
        if left n \<noteq> None then maximum_loop (left n) s else climb_left item (parent n) s
      })"

section \<open>Lookup\<close>

partial_function (option) find_node_loop :: "('k \<Rightarrow> 'k \<Rightarrow> bool) \<Rightarrow> 'k \<Rightarrow> node_ptr \<Rightarrow> ('k, 'v) avl \<Rightarrow> node_ptr option" where
  "find_node_loop lt key current s =
     (if current = None then Some None
      else do {
        n \<leftarrow> at current s;
        (current_key, _) \<leftarrow> entry n;
        if lt key current_key then find_node_loop lt key (left n) s
        else if lt current_key key then find_node_loop lt key (right n) s
        else Some current
      })"

definition find_node :: "('k \<Rightarrow> 'k \<Rightarrow> bool) \<Rightarrow> 'k \<Rightarrow> ('k, 'v) avl \<Rightarrow> node_ptr option" where
  "find_node lt key s = find_node_loop lt key (root s) s"

definition avl_contains :: "('k \<Rightarrow> 'k \<Rightarrow> bool) \<Rightarrow> 'k \<Rightarrow> ('k, 'v) avl \<Rightarrow> bool option" where
  "avl_contains lt key s = do { item \<leftarrow> find_node lt key s; Some (item \<noteq> None) }"

definition mapped :: "('k \<Rightarrow> 'k \<Rightarrow> bool) \<Rightarrow> 'k \<Rightarrow> ('k, 'v) avl \<Rightarrow> 'v option option" where
  "mapped lt key s = do {
     item \<leftarrow> find_node lt key s;
     if item = None then Some None else do { (_, v) \<leftarrow> node_value item s; Some (Some v) }
   }"

partial_function (option) lower_bound_loop ::
  "('k \<Rightarrow> 'k \<Rightarrow> bool) \<Rightarrow> 'k \<Rightarrow> node_ptr \<Rightarrow> node_ptr \<Rightarrow> ('k, 'v) avl \<Rightarrow> node_ptr option" where
  "lower_bound_loop lt key current result s =
     (if current = None then Some result
      else do {
        n \<leftarrow> at current s;
        (current_key, _) \<leftarrow> entry n;
        if lt current_key key then lower_bound_loop lt key (right n) result s
        else lower_bound_loop lt key (left n) current s
      })"

definition lower_bound :: "('k \<Rightarrow> 'k \<Rightarrow> bool) \<Rightarrow> 'k \<Rightarrow> ('k, 'v) avl \<Rightarrow> node_ptr option" where
  "lower_bound lt key s = lower_bound_loop lt key (root s) None s"

partial_function (option) upper_bound_loop ::
  "('k \<Rightarrow> 'k \<Rightarrow> bool) \<Rightarrow> 'k \<Rightarrow> node_ptr \<Rightarrow> node_ptr \<Rightarrow> ('k, 'v) avl \<Rightarrow> node_ptr option" where
  "upper_bound_loop lt key current result s =
     (if current = None then Some result
      else do {
        n \<leftarrow> at current s;
        (current_key, _) \<leftarrow> entry n;
        if lt key current_key then upper_bound_loop lt key (left n) current s
        else upper_bound_loop lt key (right n) result s
      })"

definition upper_bound :: "('k \<Rightarrow> 'k \<Rightarrow> bool) \<Rightarrow> 'k \<Rightarrow> ('k, 'v) avl \<Rightarrow> node_ptr option" where
  "upper_bound lt key s = upper_bound_loop lt key (root s) None s"

section \<open>Insertion\<close>

text \<open>The descent returns \<open>None\<close> for a key that is present, otherwise the parent and the side.\<close>

partial_function (option) emplace_loop ::
  "('k \<Rightarrow> 'k \<Rightarrow> bool) \<Rightarrow> 'k \<Rightarrow> node_ptr \<Rightarrow> node_ptr \<Rightarrow> bool \<Rightarrow> ('k, 'v) avl \<Rightarrow> (node_ptr \<times> bool) option option" where
  "emplace_loop lt key current par insert_left s =
     (if current = None then Some (Some (par, insert_left))
      else do {
        n \<leftarrow> at current s;
        (current_key, _) \<leftarrow> entry n;
        if lt key current_key then emplace_loop lt key (left n) current True s
        else if lt current_key key then emplace_loop lt key (right n) current False s
        else Some None
      })"

text \<open>The rest of \<open>emplace_value\<close>, from the allocation on.\<close>

definition emplace_at :: "node_ptr \<Rightarrow> bool \<Rightarrow> 'k \<times> 'v \<Rightarrow> ('k, 'v) avl \<Rightarrow> (status \<times> ('k, 'v) avl) option" where
  "emplace_at par insert_left kv s = do {
     (item, s) \<leftarrow> allocate_node s;
     if item = None then Some (status_full, s)
     else do {
       s \<leftarrow> construct_at item kv s;
       s \<leftarrow> modify item (\<lambda>n. n\<lparr>parent := par\<rparr>) s;
       s \<leftarrow> (if par = None then Some (s\<lparr>root := item\<rparr>)
            else if insert_left then modify par (\<lambda>n. n\<lparr>left := item\<rparr>) s
            else modify par (\<lambda>n. n\<lparr>right := item\<rparr>) s);
       s \<leftarrow> rebalance par (s\<lparr>stored := stored s + 1\<rparr>);
       Some (status_ok, s)
     }
   }"

definition emplace_value :: "('k \<Rightarrow> 'k \<Rightarrow> bool) \<Rightarrow> 'k \<Rightarrow> 'v \<Rightarrow> ('k, 'v) avl \<Rightarrow> (status \<times> ('k, 'v) avl) option" where
  "emplace_value lt key v s = do {
     place \<leftarrow> emplace_loop lt key (root s) None False s;
     case place of
       None \<Rightarrow> Some (status_already_exists, s)
     | Some (par, insert_left) \<Rightarrow> emplace_at par insert_left (key, v) s
   }"

definition avl_insert :: "('k \<Rightarrow> 'k \<Rightarrow> bool) \<Rightarrow> 'k \<Rightarrow> 'v \<Rightarrow> ('k, 'v) avl \<Rightarrow> (status \<times> ('k, 'v) avl) option" where
  "avl_insert lt key v s = emplace_value lt key v s"

definition avl_emplace :: "('k \<Rightarrow> 'k \<Rightarrow> bool) \<Rightarrow> 'k \<Rightarrow> 'v \<Rightarrow> ('k, 'v) avl \<Rightarrow> (status \<times> ('k, 'v) avl) option" where
  "avl_emplace lt key v s = do {
     item \<leftarrow> find_node lt key s;
     if item \<noteq> None then Some (status_already_exists, s) else emplace_value lt key v s
   }"

section \<open>Erasure\<close>

text \<open>The two blocks of \<open>erase_node\<close> for a node with two children: take the successor out of its place below
  the right child, then link it in the place of the node.\<close>

definition detach_successor :: "node_ptr \<Rightarrow> node_ptr \<Rightarrow> ('k, 'v) avl \<Rightarrow> ('k, 'v) avl option" where
  "detach_successor item successor_node s = do {
     m \<leftarrow> at successor_node s;
     s \<leftarrow> transplant successor_node (right m) s;
     n \<leftarrow> at item s;
     s \<leftarrow> modify successor_node (\<lambda>m. m\<lparr>right := right n\<rparr>) s;
     m \<leftarrow> at successor_node s;
     modify (right m) (\<lambda>m. m\<lparr>parent := successor_node\<rparr>) s
   }"

definition link_successor :: "node_ptr \<Rightarrow> node_ptr \<Rightarrow> ('k, 'v) avl \<Rightarrow> ('k, 'v) avl option" where
  "link_successor item successor_node s = do {
     s \<leftarrow> transplant item successor_node s;
     n \<leftarrow> at item s;
     s \<leftarrow> modify successor_node (\<lambda>m. m\<lparr>left := left n\<rparr>) s;
     m \<leftarrow> at successor_node s;
     s \<leftarrow> modify (left m) (\<lambda>m. m\<lparr>parent := successor_node\<rparr>) s;
     update_height successor_node s
   }"

definition erase_node :: "node_ptr \<Rightarrow> ('k, 'v) avl \<Rightarrow> ('k, 'v) avl option" where
  "erase_node item s = do {
     n \<leftarrow> at item s;
     let rebalance_from = parent n;
     if left n = None \<or> right n = None then do {
       let child = (if left n \<noteq> None then left n else right n);
       s \<leftarrow> transplant item child s;
       s \<leftarrow> release_node item s;
       rebalance (if rebalance_from \<noteq> None then rebalance_from else child) s
     }
     else do {
       successor_node \<leftarrow> minimum (right n) s;
       m \<leftarrow> at successor_node s;
       let successor_parent = parent m;
       s \<leftarrow> (if successor_parent \<noteq> item then detach_successor item successor_node s else Some s);
       let rebalance_from = (if successor_parent \<noteq> item then successor_parent else successor_node);
       s \<leftarrow> link_successor item successor_node s;
       s \<leftarrow> release_node item s;
       rebalance rebalance_from s
     }
   }"

definition avl_erase :: "('k \<Rightarrow> 'k \<Rightarrow> bool) \<Rightarrow> 'k \<Rightarrow> ('k, 'v) avl \<Rightarrow> (status \<times> ('k, 'v) avl) option" where
  "avl_erase lt key s = do {
     item \<leftarrow> find_node lt key s;
     if item = None then Some (status_not_found, s)
     else do { s \<leftarrow> erase_node item s; Some (status_ok, s) }
   }"

definition avl_erase_at :: "node_ptr \<Rightarrow> ('k, 'v) avl \<Rightarrow> (node_ptr \<times> ('k, 'v) avl) option" where
  "avl_erase_at position s =
     (if position = None then Some (None, s)
      else do { after \<leftarrow> successor position s; s \<leftarrow> erase_node position s; Some (after, s) })"

partial_function (option) clear_loop :: "node_ptr \<Rightarrow> ('k, 'v) avl \<Rightarrow> ('k, 'v) avl option" where
  "clear_loop current s =
     (if current = None then Some s
      else do {
        after \<leftarrow> successor current s;
        s \<leftarrow> release_node current s;
        clear_loop after s
      })"

definition avl_clear :: "('k, 'v) avl \<Rightarrow> ('k, 'v) avl option" where
  "avl_clear s = do {
     current \<leftarrow> minimum (root s) s;
     s \<leftarrow> clear_loop current s;
     Some (initialise_pool (s\<lparr>root := None, stored := 0\<rparr>))
   }"

section \<open>Observers\<close>

definition avl_size :: "('k, 'v) avl \<Rightarrow> nat" where
  "avl_size s = stored s"

definition avl_capacity :: "('k, 'v) avl \<Rightarrow> nat" where
  "avl_capacity s = length (nodes s)"

definition avl_available :: "('k, 'v) avl \<Rightarrow> nat" where
  "avl_available s = avl_capacity s - stored s"

definition avl_empty :: "('k, 'v) avl \<Rightarrow> bool" where
  "avl_empty s = (stored s = 0)"

definition avl_full :: "('k, 'v) avl \<Rightarrow> bool" where
  "avl_full s = (stored s = avl_capacity s)"

definition avl_begin :: "('k, 'v) avl \<Rightarrow> node_ptr option" where
  "avl_begin s = minimum (root s) s"

text \<open>The loops run as code.\<close>

declare rebalance.simps [code] minimum_loop.simps [code] maximum_loop.simps [code] climb_right.simps [code]
  climb_left.simps [code] find_node_loop.simps [code] lower_bound_loop.simps [code] upper_bound_loop.simps [code]
  emplace_loop.simps [code] clear_loop.simps [code]

end
