(* ===== verification/AvlShape.thy ===== *)
theory AvlShape
  imports Prelude
begin

text \<open>
  The trees a node store represents, as values: shapes over node indices, contexts (the path from a
  subtree up to the root), and the rebalancing of a subtree and of a whole path on them.  What is
  proved here is free of the store: rebalancing keeps the in-order sequence, restores the balance a
  change of depth by one disturbed, and a balanced tree is logarithmically deep.
\<close>

datatype shape = Tip | Bin shape nat shape

datatype frame = LeftOf nat shape | RightOf shape nat

fun ids :: "shape \<Rightarrow> nat list" where
  "ids Tip = []"
| "ids (Bin l i r) = ids l @ i # ids r"

fun depth :: "shape \<Rightarrow> nat" where
  "depth Tip = 0"
| "depth (Bin l i r) = 1 + max (depth l) (depth r)"

fun apex :: "shape \<Rightarrow> nat option" where
  "apex Tip = None"
| "apex (Bin l i r) = Some i"

fun balanced :: "shape \<Rightarrow> bool" where
  "balanced Tip = True"
| "balanced (Bin l i r) \<longleftrightarrow> balanced l \<and> balanced r \<and> depth l \<le> depth r + 1 \<and> depth r \<le> depth l + 1"

text \<open>A context is read from the hole upwards.\<close>

fun plug :: "frame list \<Rightarrow> shape \<Rightarrow> shape" where
  "plug [] t = t"
| "plug (LeftOf i r # C) t = plug C (Bin t i r)"
| "plug (RightOf l i # C) t = plug C (Bin l i t)"

fun before :: "frame list \<Rightarrow> nat list" where
  "before [] = []"
| "before (LeftOf i r # C) = before C"
| "before (RightOf l i # C) = before C @ ids l @ [i]"

fun after :: "frame list \<Rightarrow> nat list" where
  "after [] = []"
| "after (LeftOf i r # C) = i # ids r @ after C"
| "after (RightOf l i # C) = after C"

lemma ids_plug: "ids (plug C t) = before C @ ids t @ after C"
  by (induction C t rule: plug.induct) simp_all

lemma ids_Nil [simp]: "ids t = [] \<longleftrightarrow> t = Tip"
  by (cases t) simp_all

lemma depth_0 [simp]: "depth t = 0 \<longleftrightarrow> t = Tip"
  by (cases t) simp_all

lemma apex_None [simp]: "apex t = None \<longleftrightarrow> t = Tip" "None = apex t \<longleftrightarrow> t = Tip"
  by (cases t; simp)+

lemma apex_ids: "apex t = Some i \<Longrightarrow> i \<in> set (ids t)"
  by (cases t) simp_all

section \<open>A balanced tree is shallow\<close>

lemma balanced_depth: "balanced t \<Longrightarrow> 2 ^ (depth t div 2) \<le> length (ids t) + 1"
proof (induction t)
  case Tip
  then show ?case by simp
next
  case (Bin l i r)
  let ?d = "max (depth l) (depth r)"
  have "(2 :: nat) ^ (Suc ?d div 2) \<le> 2 ^ (depth l div 2) + 2 ^ (depth r div 2) \<or> ?d = 0"
  proof (cases ?d)
    case (Suc d)
    then have "d div 2 \<le> depth l div 2" "d div 2 \<le> depth r div 2"
      using Bin.prems by (auto intro!: div_le_mono)
    then have "(2 :: nat) ^ (d div 2) \<le> 2 ^ (depth l div 2)" "(2 :: nat) ^ (d div 2) \<le> 2 ^ (depth r div 2)"
      by (auto intro: power_increasing)
    moreover have "(2 :: nat) ^ (Suc ?d div 2) = 2 * 2 ^ (d div 2)" by (simp add: Suc)
    ultimately show ?thesis by linarith
  qed simp
  then show ?case using Bin by auto
qed

lemma balanced_depth_bound:
  assumes "balanced t" and "length (ids t) < 2 ^ 32"
  shows "depth t \<le> 65"
proof (rule ccontr)
  assume "\<not> depth t \<le> 65"
  then have "33 \<le> depth t div 2" by linarith
  then have "(2 :: nat) ^ 33 \<le> 2 ^ (depth t div 2)" by (rule power_increasing) simp
  with balanced_depth [OF assms(1)] assms(2) show False by simp
qed

section \<open>Rebalancing a subtree\<close>

text \<open>The double rotations are two single ones, as in the code.\<close>

fun rot_left :: "shape \<Rightarrow> shape" where
  "rot_left (Bin a i (Bin b j c)) = Bin (Bin a i b) j c"
| "rot_left t = t"

fun rot_right :: "shape \<Rightarrow> shape" where
  "rot_right (Bin (Bin a j b) i c) = Bin a j (Bin b i c)"
| "rot_right t = t"

fun lean_left :: "shape \<Rightarrow> bool" where
  "lean_left Tip = False"
| "lean_left (Bin l i r) \<longleftrightarrow> depth r < depth l"

fun lean_right :: "shape \<Rightarrow> bool" where
  "lean_right Tip = False"
| "lean_right (Bin l i r) \<longleftrightarrow> depth l < depth r"

definition fix_node :: "shape \<Rightarrow> nat \<Rightarrow> shape \<Rightarrow> shape" where
  "fix_node l i r =
     (if depth l > depth r + 1 then rot_right (Bin (if lean_right l then rot_left l else l) i r)
      else if depth r > depth l + 1 then rot_left (Bin l i (if lean_left r then rot_right r else r))
      else Bin l i r)"

lemma ids_rot [simp]: "ids (rot_left t) = ids t" "ids (rot_right t) = ids t"
  by (cases t rule: rot_left.cases; simp) (cases t rule: rot_right.cases; simp)

lemma ids_fix_node [simp]: "ids (fix_node l i r) = ids l @ i # ids r"
  by (simp add: fix_node_def)

lemma fix_node_ok:
  assumes "balanced l" "balanced r" "depth l \<le> depth r + 2" "depth r \<le> depth l + 2"
  shows "balanced (fix_node l i r) \<and>
    (depth (fix_node l i r) = max (depth l) (depth r) \<or> depth (fix_node l i r) = 1 + max (depth l) (depth r)) \<and>
    (depth l \<le> depth r + 1 \<and> depth r \<le> depth l + 1 \<longrightarrow> fix_node l i r = Bin l i r)"
proof -
  consider "depth l = depth r + 2" | "depth r = depth l + 2" | "depth l \<le> depth r + 1" "depth r \<le> depth l + 1"
    using assms(3,4) by linarith
  then show ?thesis
  proof cases
    case 1
    then obtain a j b where l: "l = Bin a j b" by (cases l) auto
    show ?thesis
    proof (cases "depth a < depth b")
      case True
      then obtain c k d where b: "b = Bin c k d" by (cases b) auto
      show ?thesis using 1 assms True by (auto simp: fix_node_def l b)
    next
      case False
      then show ?thesis using 1 assms by (auto simp: fix_node_def l)
    qed
  next
    case 2
    then obtain a j b where r: "r = Bin a j b" by (cases r) auto
    show ?thesis
    proof (cases "depth b < depth a")
      case True
      then obtain c k d where a: "a = Bin c k d" by (cases a) auto
      show ?thesis using 2 assms True by (auto simp: fix_node_def r a)
    next
      case False
      then show ?thesis using 2 assms by (auto simp: fix_node_def r)
    qed
  next
    case 3
    then show ?thesis using assms by (auto simp: fix_node_def)
  qed
qed

text \<open>A rotated pivot is a child of the new root.\<close>

lemma fix_node_pivot:
  "fix_node l i r = Bin l i r \<or> (\<exists>a j b. fix_node l i r = Bin a j (Bin b i r)) \<or> (\<exists>a j b. fix_node l i r = Bin (Bin l i a) j b)"
proof -
  have "fix_node l i r = Bin l i r" if "depth l \<le> depth r + 1" "depth r \<le> depth l + 1"
    using that by (simp add: fix_node_def)
  then consider "depth l > depth r + 1" | "depth r > depth l + 1" | "fix_node l i r = Bin l i r" by linarith
  then show ?thesis
  proof cases
    case 1
    then obtain a j b where "l = Bin a j b" by (cases l) auto
    with 1 show ?thesis by (cases b) (auto simp: fix_node_def)
  next
    case 2
    then obtain a j b where "r = Bin a j b" by (cases r) auto
    with 2 show ?thesis by (cases a) (auto simp: fix_node_def)
  qed simp
qed

section \<open>Rebalancing a path\<close>

fun fixup :: "frame list \<Rightarrow> shape \<Rightarrow> shape" where
  "fixup [] t = t"
| "fixup (LeftOf i r # C) t = fixup C (fix_node t i r)"
| "fixup (RightOf l i # C) t = fixup C (fix_node l i t)"

lemma ids_fixup: "ids (fixup C t) = before C @ ids t @ after C"
  by (induction C t rule: fixup.induct) simp_all

text \<open>The path is balanced for a subtree of depth \<open>d\<close>.\<close>

fun path_ok :: "frame list \<Rightarrow> nat \<Rightarrow> bool" where
  "path_ok [] d = True"
| "path_ok (LeftOf i r # C) d \<longleftrightarrow>
     balanced r \<and> d \<le> depth r + 1 \<and> depth r \<le> d + 1 \<and> path_ok C (1 + max d (depth r))"
| "path_ok (RightOf l i # C) d \<longleftrightarrow>
     balanced l \<and> d \<le> depth l + 1 \<and> depth l \<le> d + 1 \<and> path_ok C (1 + max (depth l) d)"

lemma balanced_plug: "balanced (plug C t) \<longleftrightarrow> balanced t \<and> path_ok C (depth t)"
  by (induction C t rule: plug.induct) auto

definition near :: "nat \<Rightarrow> nat \<Rightarrow> bool" where
  "near d e \<longleftrightarrow> d \<le> e + 1 \<and> e \<le> d + 1"

lemma near_refl [simp]: "near d d"
  by (simp add: near_def)

lemma fix_node_near:
  assumes "balanced l" "balanced r" "depth l \<le> depth r + 2" "depth r \<le> depth l + 2"
  shows "near d (depth r) \<Longrightarrow> near (depth l) d \<Longrightarrow> near (depth (fix_node l i r)) (1 + max d (depth r))"
    and "near d (depth l) \<Longrightarrow> near (depth r) d \<Longrightarrow> near (depth (fix_node l i r)) (1 + max (depth l) d)"
proof -
  consider "depth (fix_node l i r) = 1 + max (depth l) (depth r)"
    | "depth (fix_node l i r) = max (depth l) (depth r)" "depth l > depth r + 1 \<or> depth r > depth l + 1"
    using fix_node_ok [OF assms, of i] by force
  note cases = this
  show "near d (depth r) \<Longrightarrow> near (depth l) d \<Longrightarrow> near (depth (fix_node l i r)) (1 + max d (depth r))"
    using cases by cases (auto simp: near_def)
  show "near d (depth l) \<Longrightarrow> near (depth r) d \<Longrightarrow> near (depth (fix_node l i r)) (1 + max (depth l) d)"
    using cases by cases (auto simp: near_def)
qed

lemma balanced_fixup: "path_ok C d \<Longrightarrow> balanced t \<Longrightarrow> near (depth t) d \<Longrightarrow> balanced (fixup C t)"
proof (induction C t arbitrary: d rule: fixup.induct)
  case (1 t)
  then show ?case by simp
next
  case (2 i r C t)
  then have pre: "balanced t" "balanced r" "depth t \<le> depth r + 2" "depth r \<le> depth t + 2" by (auto simp: near_def)
  from 2 have "near (depth (fix_node t i r)) (1 + max d (depth r))"
    by (intro fix_node_near(1) [OF pre]) (auto simp: near_def)
  with 2 fix_node_ok [OF pre, of i] show ?case by auto
next
  case (3 l i C t)
  then have pre: "balanced l" "balanced t" "depth l \<le> depth t + 2" "depth t \<le> depth l + 2" by (auto simp: near_def)
  from 3 have "near (depth (fix_node l i t)) (1 + max (depth l) d)"
    by (intro fix_node_near(2) [OF pre]) (auto simp: near_def)
  with 3 fix_node_ok [OF pre, of i] show ?case by auto
qed

text \<open>Every frame of the path meets a subtree whose depth differs by at most two.\<close>

fun path_near :: "frame list \<Rightarrow> shape \<Rightarrow> bool" where
  "path_near [] t = True"
| "path_near (LeftOf i r # C) t \<longleftrightarrow> balanced t \<and> balanced r \<and> depth t \<le> depth r + 2 \<and> depth r \<le> depth t + 2 \<and>
     path_near C (fix_node t i r)"
| "path_near (RightOf l i # C) t \<longleftrightarrow> balanced l \<and> balanced t \<and> depth l \<le> depth t + 2 \<and> depth t \<le> depth l + 2 \<and>
     path_near C (fix_node l i t)"

lemma path_ok_near: "path_ok C d \<Longrightarrow> balanced t \<Longrightarrow> near (depth t) d \<Longrightarrow> path_near C t"
proof (induction C t arbitrary: d rule: path_near.induct)
  case (1 t)
  then show ?case by simp
next
  case (2 i r C t)
  then have pre: "balanced t" "balanced r" "depth t \<le> depth r + 2" "depth r \<le> depth t + 2" by (auto simp: near_def)
  from 2 have "near (depth (fix_node t i r)) (1 + max d (depth r))"
    by (intro fix_node_near(1) [OF pre]) (auto simp: near_def)
  with 2 fix_node_ok [OF pre, of i] pre show ?case by auto
next
  case (3 l i C t)
  then have pre: "balanced l" "balanced t" "depth l \<le> depth t + 2" "depth t \<le> depth l + 2" by (auto simp: near_def)
  from 3 have "near (depth (fix_node l i t)) (1 + max (depth l) d)"
    by (intro fix_node_near(2) [OF pre]) (auto simp: near_def)
  with 3 fix_node_ok [OF pre, of i] pre show ?case by auto
qed

end
