(* ===== verification/AvlStore.thy ===== *)
theory AvlStore
  imports AvlTree AvlShape
begin

text \<open>
  The pointer structure of \<open>avl_tree\<close> against the shapes it represents: what it means for a subtree
  and for the path above it to be in the store, and that linking, rotating and rebalancing in the
  store are the functions of \<open>AvlShape\<close>, for stores of any content elsewhere.
\<close>

section \<open>Reading and writing one node\<close>

definition nd :: "('k, 'v) avl \<Rightarrow> nat \<Rightarrow> ('k, 'v) avl_node" where
  "nd s i = nodes s ! i"

definition upd :: "nat \<Rightarrow> (('k, 'v) avl_node \<Rightarrow> ('k, 'v) avl_node) \<Rightarrow> ('k, 'v) avl \<Rightarrow> ('k, 'v) avl" where
  "upd i f s = s\<lparr>nodes := (nodes s)[i := f (nodes s ! i)]\<rparr>"

abbreviation live :: "('k, 'v) avl \<Rightarrow> nat \<Rightarrow> bool" where
  "live s i \<equiv> i < length (nodes s)"

named_theorems store_rules \<open>stepping through the store\<close>

lemma at_live [store_rules]: "live s i \<Longrightarrow> at (Some i) s = Some (nd s i)"
  by (simp add: at_def nd_def)

lemma modify_live [store_rules]: "live s i \<Longrightarrow> modify (Some i) f s = Some (upd i f s)"
  by (simp add: modify_def upd_def)

lemma upd_sel [store_rules]:
  "length (nodes (upd i f s)) = length (nodes s)" "root (upd i f s) = root s"
  "free_head (upd i f s) = free_head s" "stored (upd i f s) = stored s"
  by (simp_all add: upd_def)

lemma nd_upd [store_rules]: "live s i \<Longrightarrow> nd (upd i f s) k = (if k = i then f (nd s i) else nd s k)"
  by (simp add: nd_def upd_def)

lemma nd_other [store_rules]:
  "nd (s\<lparr>root := p\<rparr>) k = nd s k" "nd (s\<lparr>free_head := p\<rparr>) k = nd s k" "nd (s\<lparr>stored := n\<rparr>) k = nd s k"
  by (simp_all add: nd_def)

section \<open>Trees and paths in the store\<close>

fun tree_at :: "('k, 'v) avl \<Rightarrow> node_ptr \<Rightarrow> shape \<Rightarrow> bool" where
  "tree_at s par Tip = True"
| "tree_at s par (Bin l i r) \<longleftrightarrow> live s i \<and> parent (nd s i) = par \<and> left (nd s i) = apex l \<and> right (nd s i) = apex r \<and>
     height (nd s i) = depth (Bin l i r) \<and> tree_at s (Some i) l \<and> tree_at s (Some i) r"

fun hole :: "frame list \<Rightarrow> node_ptr" where
  "hole [] = None"
| "hole (LeftOf i r # C) = Some i"
| "hole (RightOf l i # C) = Some i"

text \<open>The heights on the path are not claimed: they are stale until the path is rebalanced.\<close>

fun path_at :: "('k, 'v) avl \<Rightarrow> frame list \<Rightarrow> node_ptr \<Rightarrow> bool" where
  "path_at s [] p \<longleftrightarrow> root s = p"
| "path_at s (LeftOf i r # C) p \<longleftrightarrow> live s i \<and> parent (nd s i) = hole C \<and> left (nd s i) = p \<and> right (nd s i) = apex r \<and>
     tree_at s (Some i) r \<and> path_at s C (Some i)"
| "path_at s (RightOf l i # C) p \<longleftrightarrow> live s i \<and> parent (nd s i) = hole C \<and> left (nd s i) = apex l \<and> right (nd s i) = p \<and>
     tree_at s (Some i) l \<and> path_at s C (Some i)"

abbreviation path_ids :: "frame list \<Rightarrow> nat list" where
  "path_ids C \<equiv> before C @ after C"

lemma tree_at_cong:
  "length (nodes s') = length (nodes s) \<Longrightarrow> (\<And>i. i \<in> set (ids t) \<Longrightarrow> nd s' i = nd s i) \<Longrightarrow> tree_at s' par t = tree_at s par t"
  by (induction t arbitrary: par) simp_all

lemma path_at_cong:
  "length (nodes s') = length (nodes s) \<Longrightarrow> root s' = root s \<Longrightarrow> (\<And>i. i \<in> set (path_ids C) \<Longrightarrow> nd s' i = nd s i) \<Longrightarrow>
    path_at s' C p = path_at s C p"
proof (induction s C p rule: path_at.induct)
  case (2 s i r C p)
  have "path_at s' C (Some i) = path_at s C (Some i)" by (rule 2(1)) (use 2(2-) in auto)
  moreover have "tree_at s' (Some i) r = tree_at s (Some i) r" by (rule tree_at_cong) (use 2(2-) in auto)
  ultimately show ?case using 2(2-) by simp
next
  case (3 s l i C p)
  have "path_at s' C (Some i) = path_at s C (Some i)" by (rule 3(1)) (use 3(2-) in auto)
  moreover have "tree_at s' (Some i) l = tree_at s (Some i) l" by (rule tree_at_cong) (use 3(2-) in auto)
  ultimately show ?case using 3(2-) by simp
qed simp

lemma tree_at_live: "tree_at s par t \<Longrightarrow> i \<in> set (ids t) \<Longrightarrow> live s i"
  by (induction t arbitrary: par) auto

lemma path_at_live: "path_at s C p \<Longrightarrow> i \<in> set (path_ids C) \<Longrightarrow> live s i"
  by (induction s C p rule: path_at.induct) (auto dest: tree_at_live)

lemma hole_ids: "hole C = Some i \<Longrightarrow> i \<in> set (path_ids C)"
  by (cases C rule: hole.cases) auto

lemma tree_at_reparent:
  assumes "tree_at s par t" and "distinct (ids t)" and "length (nodes s') = length (nodes s)"
    and "\<And>i. i \<in> set (ids t) \<Longrightarrow> nd s' i = (if Some i = apex t then (nd s i)\<lparr>parent := q\<rparr> else nd s i)"
  shows "tree_at s' q t"
proof (cases t)
  case (Bin l i r)
  have "tree_at s' (Some i) l = tree_at s (Some i) l" "tree_at s' (Some i) r = tree_at s (Some i) r"
    using assms(2,3,4) by (auto simp: Bin intro!: tree_at_cong)
  with assms show ?thesis by (simp add: Bin)
qed simp

section \<open>Plugging\<close>

lemma tree_at_plug:
  "tree_at s None (plug C t) \<Longrightarrow> root s = apex (plug C t) \<Longrightarrow> path_at s C (apex t) \<and> tree_at s (hole C) t"
  by (induction C t rule: plug.induct) auto

section \<open>Linking a subtree under its parent\<close>

fun relink :: "frame list \<Rightarrow> node_ptr \<Rightarrow> ('k, 'v) avl \<Rightarrow> ('k, 'v) avl" where
  "relink [] q s = s\<lparr>root := q\<rparr>"
| "relink (LeftOf i r # C) q s = upd i (\<lambda>n. n\<lparr>left := q\<rparr>) s"
| "relink (RightOf l i # C) q s = upd i (\<lambda>n. n\<lparr>right := q\<rparr>) s"

lemma relink_sel [store_rules]:
  "length (nodes (relink C q s)) = length (nodes s)" "free_head (relink C q s) = free_head s" "stored (relink C q s) = stored s"
  by (cases C rule: hole.cases; simp add: store_rules)+

lemma replace_child_relink:
  assumes "path_at s C (Some i)" and "i \<notin> set (path_ids C)"
  shows "replace_child (hole C) (Some i) q s = Some (relink C q s)"
  using assms apex_ids by (cases C rule: hole.cases) (auto simp: replace_child_def store_rules)

lemma nd_relink:
  "path_at s C p \<Longrightarrow> hole C \<noteq> Some k \<Longrightarrow> nd (relink C q s) k = nd s k"
  by (cases C rule: hole.cases) (auto simp: store_rules)

lemma relink_fields:
  "path_at s C p \<Longrightarrow> entry (nd (relink C q s) k) = entry (nd s k) \<and> used (nd (relink C q s) k) = used (nd s k) \<and>
    parent (nd (relink C q s) k) = parent (nd s k) \<and> height (nd (relink C q s) k) = height (nd s k)"
  by (cases C rule: hole.cases) (auto simp: store_rules)

lemma path_at_relink:
  assumes "path_at s C p" and "distinct (path_ids C)"
  shows "path_at (relink C q s) C q"
proof (cases C rule: hole.cases)
  case 1
  then show ?thesis by simp
next
  case (2 i r C')
  have "tree_at (relink C q s) (Some i) r = tree_at s (Some i) r"
    using assms by (intro tree_at_cong) (auto simp: 2 store_rules)
  moreover have "path_at (relink C q s) C' (Some i) = path_at s C' (Some i)"
    using assms by (intro path_at_cong) (auto simp: 2 store_rules)
  ultimately show ?thesis using assms by (auto simp: 2 store_rules)
next
  case (3 l i C')
  have "tree_at (relink C q s) (Some i) l = tree_at s (Some i) l"
    using assms by (intro tree_at_cong) (auto simp: 3 store_rules)
  moreover have "path_at (relink C q s) C' (Some i) = path_at s C' (Some i)"
    using assms by (intro path_at_cong) (auto simp: 3 store_rules)
  ultimately show ?thesis using assms by (auto simp: 3 store_rules)
qed

text \<open>A node outside the path does not matter to it.\<close>

lemma path_at_upd:
  "path_at s C p \<Longrightarrow> k \<notin> set (path_ids C) \<Longrightarrow> live s k \<Longrightarrow> path_at (upd k f s) C p"
  by (subst path_at_cong [of _ s]) (auto simp: store_rules)

section \<open>Heights\<close>

lemma node_height_apex:
  "tree_at s par t \<Longrightarrow> node_height (apex t) s = Some (depth t)"
  by (cases t) (simp_all add: node_height_def store_rules)

lemma update_height_ok:
  assumes "live s i" "left (nd s i) = apex l" "right (nd s i) = apex r" "tree_at s (Some i) l" "tree_at s (Some i) r"
    and "depth (Bin l i r) < 256"
  shows "update_height (Some i) s = Some (upd i (\<lambda>n. n\<lparr>height := depth (Bin l i r)\<rparr>) s)"
  using assms by (auto simp: update_height_def store_rules node_height_apex max_def)

lemma balance_factor_ok:
  assumes "live s i" "left (nd s i) = apex l" "right (nd s i) = apex r" "tree_at s (Some i) l" "tree_at s (Some i) r"
  shows "balance_factor (Some i) s = Some (int (depth l) - int (depth r))"
  using assms by (simp add: balance_factor_def store_rules node_height_apex)

section \<open>Rotations\<close>

text \<open>What an operation on a subtree and its path leaves alone: the objects in the nodes, the nodes
  elsewhere, the free list and the element count.\<close>

definition keeps :: "nat set \<Rightarrow> ('k, 'v) avl \<Rightarrow> ('k, 'v) avl \<Rightarrow> bool" where
  "keeps X s s' \<longleftrightarrow> length (nodes s') = length (nodes s) \<and> free_head s' = free_head s \<and> stored s' = stored s \<and>
     (\<forall>k. entry (nd s' k) = entry (nd s k) \<and> used (nd s' k) = used (nd s k)) \<and> (\<forall>k. k \<notin> X \<longrightarrow> nd s' k = nd s k)"

lemma keeps_refl [simp]: "keeps X s s"
  by (simp add: keeps_def)

lemma keeps_trans: "keeps X s s' \<Longrightarrow> keeps Y s' s'' \<Longrightarrow> X \<subseteq> Z \<Longrightarrow> Y \<subseteq> Z \<Longrightarrow> keeps Z s s''"
  unfolding keeps_def by (metis subsetD)

lemmas keeps_join = keeps_trans [OF _ _ order_refl order_refl]

lemma keeps_upd:
  "live s i \<Longrightarrow> i \<in> X \<Longrightarrow> (\<And>n. entry (f n) = entry n) \<Longrightarrow> (\<And>n. used (f n) = used n) \<Longrightarrow> keeps X s (upd i f s)"
  by (auto simp: keeps_def store_rules)

text \<open>The pivot may carry a stale height; everything else of the subtree is in order.\<close>

definition pivot_at :: "('k, 'v) avl \<Rightarrow> node_ptr \<Rightarrow> shape \<Rightarrow> nat \<Rightarrow> shape \<Rightarrow> bool" where
  "pivot_at s par l i r \<longleftrightarrow> live s i \<and> parent (nd s i) = par \<and> left (nd s i) = apex l \<and> right (nd s i) = apex r \<and>
     tree_at s (Some i) l \<and> tree_at s (Some i) r"

lemma tree_at_pivot: "tree_at s par (Bin l i r) \<Longrightarrow> pivot_at s par l i r"
  by (simp add: pivot_at_def)

lemma rotate_right_ok:
  assumes pivot: "pivot_at s (hole C) (Bin a j b) i c" and path: "path_at s C (Some i)"
    and dist: "distinct (before C @ ids a @ j # ids b @ i # ids c @ after C)"
    and small: "depth (Bin (Bin a j b) i c) < 255"
  shows "\<exists>s'. rotate_right (Some i) s = Some s' \<and> tree_at s' (hole C) (Bin a j (Bin b i c)) \<and> path_at s' C (Some j) \<and>
    keeps (set (before C @ ids a @ j # ids b @ i # ids c @ after C)) s s'"
proof -
  let ?link = "\<lambda>s. case apex b of None \<Rightarrow> s | Some k \<Rightarrow> upd k (\<lambda>n. n\<lparr>parent := Some i\<rparr>) s"
  define s1 where "s1 = upd j (\<lambda>n. n\<lparr>parent := hole C\<rparr>) (?link (upd i (\<lambda>n. n\<lparr>left := apex b\<rparr>) s))"
  define s2 where "s2 = relink C (Some j) s1"
  define s3 where "s3 = upd i (\<lambda>n. n\<lparr>parent := Some j\<rparr>) (upd j (\<lambda>n. n\<lparr>right := Some i\<rparr>) s2)"
  have live: "live s i" "live s j" "\<And>k. apex b = Some k \<Longrightarrow> live s k"
    using pivot apex_ids [of b] tree_at_live by (auto simp: pivot_at_def)
  have sep: "i \<noteq> j" "\<And>k. apex b = Some k \<Longrightarrow> k \<noteq> i \<and> k \<noteq> j" using dist apex_ids by fastforce+
  have nodes1: "length (nodes s1) = length (nodes s)" "root s1 = root s" "free_head s1 = free_head s" "stored s1 = stored s"
    by (auto simp: s1_def store_rules split: option.split)
  have nd1: "nd s1 k = (if k = i then (nd s i)\<lparr>left := apex b\<rparr> else if k = j then (nd s j)\<lparr>parent := hole C\<rparr>
      else if Some k = apex b then (nd s k)\<lparr>parent := Some i\<rparr> else nd s k)" for k
    using live sep by (auto simp: s1_def store_rules split: option.split)
  have ids: "i \<notin> set (path_ids C)" "j \<notin> set (path_ids C)" "\<And>k. apex b = Some k \<Longrightarrow> k \<notin> set (path_ids C)"
    using dist apex_ids by fastforce+
  have path1: "path_at s1 C (Some i)"
    using path ids by (subst path_at_cong [of _ s]) (auto simp: nodes1 nd1)
  have h: "hole C \<noteq> Some i" "hole C \<noteq> Some j" "\<And>k. k \<in> set (ids a @ ids b @ ids c) \<Longrightarrow> hole C \<noteq> Some k"
    using hole_ids [of C] dist by fastforce+
  have hb: "Some k = apex b \<Longrightarrow> hole C \<noteq> Some k" for k using h(3) [of k] apex_ids [of b k] by auto
  have path2: "path_at s2 C (Some j)" unfolding s2_def by (rule path_at_relink [OF path1]) (use dist in auto)
  have nodes2: "length (nodes s2) = length (nodes s)" "free_head s2 = free_head s" "stored s2 = stored s"
    by (simp_all add: s2_def store_rules nodes1)
  have nd2: "hole C \<noteq> Some k \<Longrightarrow> nd s2 k = nd s1 k" for k
    unfolding s2_def by (rule nd_relink [OF path1])
  have nodes3: "length (nodes s3) = length (nodes s)" "root s3 = root s2" "free_head s3 = free_head s" "stored s3 = stored s"
    by (simp_all add: s3_def store_rules nodes2)
  have nd3: "nd s3 k = (if k = i then (nd s i)\<lparr>left := apex b, parent := Some j\<rparr>
      else if k = j then (nd s j)\<lparr>parent := hole C, right := Some i\<rparr>
      else if Some k = apex b then (nd s k)\<lparr>parent := Some i\<rparr> else nd s2 k)" for k
    using live sep
    by (cases "Some k = apex b") (auto simp: s3_def store_rules nodes2 nd2 [OF h(1)] nd2 [OF h(2)] nd2 [OF hb] nd1)
  have run: "rotate_right (Some i) s = do { s \<leftarrow> update_height (Some i) s3; update_height (Some j) s }"
  proof -
    have "rotate_right (Some i) s = do {
        s \<leftarrow> replace_child (hole C) (Some i) (Some j) s1;
        s \<leftarrow> modify (Some j) (\<lambda>n. n\<lparr>right := Some i\<rparr>) s;
        s \<leftarrow> modify (Some i) (\<lambda>n. n\<lparr>parent := Some j\<rparr>) s;
        s \<leftarrow> update_height (Some i) s; update_height (Some j) s }"
      using pivot live sep
      by (cases "apex b") (simp_all add: rotate_right_def Let_def pivot_at_def store_rules s1_def)
    also have "\<dots> = do { s \<leftarrow> update_height (Some i) s3; update_height (Some j) s }"
      using live by (simp add: replace_child_relink [OF path1 ids(1)] s2_def [symmetric] store_rules nodes2 s3_def)
    finally show ?thesis .
  qed
  have same: "k \<in> set (ids a @ ids b @ ids c) \<Longrightarrow> Some k \<noteq> apex b \<Longrightarrow> nd s3 k = nd s k" for k
    using dist nd2 [of k] nd1 [of k] h(3) [of k] by (auto simp: nd3)
  have "tree_at s (Some j) b" "tree_at s (Some j) a" "tree_at s (Some i) c" using pivot by (auto simp: pivot_at_def)
  moreover have "k \<in> set (ids a) \<union> set (ids c) \<Longrightarrow> Some k \<noteq> apex b" for k using dist apex_ids [of b k] by auto
  ultimately have t3: "tree_at s3 (Some i) b" "tree_at s3 (Some j) a" "tree_at s3 (Some i) c"
    using same dist nd3 by (auto simp: nodes3 tree_at_cong [of s3 s] intro!: tree_at_reparent [of s "Some j" b s3])
  define s4 where "s4 = upd i (\<lambda>n. n\<lparr>height := depth (Bin b i c)\<rparr>) s3"
  define s5 where "s5 = upd j (\<lambda>n. n\<lparr>height := depth (Bin a j (Bin b i c))\<rparr>) s4"
  have "update_height (Some i) s3 = Some s4" unfolding s4_def
    by (rule update_height_ok) (use live small t3 pivot sep in \<open>auto simp: nodes3 nd3 pivot_at_def\<close>)
  moreover have u4: "length (nodes s4) = length (nodes s)" "root s4 = root s2" "free_head s4 = free_head s" "stored s4 = stored s"
    "nd s4 k = (if k = i then (nd s3 i)\<lparr>height := depth (Bin b i c)\<rparr> else nd s3 k)" for k
    using live by (simp_all add: s4_def store_rules nodes3)
  have t4: "tree_at s4 (Some j) (Bin b i c)" "tree_at s4 (Some j) a"
    using t3 live dist sep pivot by (simp_all add: u4 nd3 pivot_at_def) (subst tree_at_cong [of s4 s3]; auto simp: u4 nodes3)+
  have "update_height (Some j) s4 = Some s5" unfolding s5_def
    by (rule update_height_ok) (use live small t4 pivot sep in \<open>auto simp: u4 nodes3 nd3 pivot_at_def\<close>)
  moreover have u5: "length (nodes s5) = length (nodes s)" "root s5 = root s2" "free_head s5 = free_head s" "stored s5 = stored s"
    "nd s5 k = (if k = j then (nd s4 j)\<lparr>height := depth (Bin a j (Bin b i c))\<rparr> else nd s4 k)" for k
    using live by (simp_all add: s5_def store_rules u4)
  have "tree_at s5 (Some j) (Bin b i c)" "tree_at s5 (Some j) a"
    using t4 dist by (subst tree_at_cong [of s5 s4]; auto simp: u5 u4)+
  then have "tree_at s5 (hole C) (Bin a j (Bin b i c))"
    using live sep pivot by (simp add: u5 u4 nd3 pivot_at_def)
  moreover have "path_at s5 C (Some j)"
    using path2 ids by (subst path_at_cong [of _ s2]) (auto simp: u5 u4 nd3 nodes2)
  moreover have "keeps (set (before C @ ids a @ j # ids b @ i # ids c @ after C)) s s5"
    unfolding keeps_def
  proof (intro conjI allI impI)
    have "entry (nd s2 k) = entry (nd s1 k) \<and> used (nd s2 k) = used (nd s1 k)" for k
      unfolding s2_def using relink_fields [OF path1] by blast
    then show "entry (nd s5 k) = entry (nd s k)" "used (nd s5 k) = used (nd s k)" for k
      by (auto simp: u5 u4 nd3 nd1)
    fix k assume k: "k \<notin> set (before C @ ids a @ j # ids b @ i # ids c @ after C)"
    then have "hole C \<noteq> Some k" "Some k \<noteq> apex b" using hole_ids [of C k] apex_ids [of b k] by auto
    with k show "nd s5 k = nd s k" by (simp add: u5 u4 nd3 nd1 nd2)
  qed (simp_all add: u5)
  ultimately show ?thesis by (auto simp: run)
qed

lemma rotate_left_ok:
  assumes pivot: "pivot_at s (hole C) c i (Bin b j a)" and path: "path_at s C (Some i)"
    and dist: "distinct (before C @ ids c @ i # ids b @ j # ids a @ after C)"
    and small: "depth (Bin c i (Bin b j a)) < 255"
  shows "\<exists>s'. rotate_left (Some i) s = Some s' \<and> tree_at s' (hole C) (Bin (Bin c i b) j a) \<and> path_at s' C (Some j) \<and>
    keeps (set (before C @ ids c @ i # ids b @ j # ids a @ after C)) s s'"
proof -
  let ?link = "\<lambda>s. case apex b of None \<Rightarrow> s | Some k \<Rightarrow> upd k (\<lambda>n. n\<lparr>parent := Some i\<rparr>) s"
  define s1 where "s1 = upd j (\<lambda>n. n\<lparr>parent := hole C\<rparr>) (?link (upd i (\<lambda>n. n\<lparr>right := apex b\<rparr>) s))"
  define s2 where "s2 = relink C (Some j) s1"
  define s3 where "s3 = upd i (\<lambda>n. n\<lparr>parent := Some j\<rparr>) (upd j (\<lambda>n. n\<lparr>left := Some i\<rparr>) s2)"
  have live: "live s i" "live s j" "\<And>k. apex b = Some k \<Longrightarrow> live s k"
    using pivot apex_ids [of b] tree_at_live by (auto simp: pivot_at_def)
  have sep: "i \<noteq> j" "\<And>k. apex b = Some k \<Longrightarrow> k \<noteq> i \<and> k \<noteq> j" using dist apex_ids by fastforce+
  have nodes1: "length (nodes s1) = length (nodes s)" "root s1 = root s" "free_head s1 = free_head s" "stored s1 = stored s"
    by (auto simp: s1_def store_rules split: option.split)
  have nd1: "nd s1 k = (if k = i then (nd s i)\<lparr>right := apex b\<rparr> else if k = j then (nd s j)\<lparr>parent := hole C\<rparr>
      else if Some k = apex b then (nd s k)\<lparr>parent := Some i\<rparr> else nd s k)" for k
    using live sep by (auto simp: s1_def store_rules split: option.split)
  have ids: "i \<notin> set (path_ids C)" "j \<notin> set (path_ids C)" "\<And>k. apex b = Some k \<Longrightarrow> k \<notin> set (path_ids C)"
    using dist apex_ids by fastforce+
  have path1: "path_at s1 C (Some i)"
    using path ids by (subst path_at_cong [of _ s]) (auto simp: nodes1 nd1)
  have h: "hole C \<noteq> Some i" "hole C \<noteq> Some j" "\<And>k. k \<in> set (ids a @ ids b @ ids c) \<Longrightarrow> hole C \<noteq> Some k"
    using hole_ids [of C] dist by fastforce+
  have hb: "Some k = apex b \<Longrightarrow> hole C \<noteq> Some k" for k using h(3) [of k] apex_ids [of b k] by auto
  have path2: "path_at s2 C (Some j)" unfolding s2_def by (rule path_at_relink [OF path1]) (use dist in auto)
  have nodes2: "length (nodes s2) = length (nodes s)" "free_head s2 = free_head s" "stored s2 = stored s"
    by (simp_all add: s2_def store_rules nodes1)
  have nd2: "hole C \<noteq> Some k \<Longrightarrow> nd s2 k = nd s1 k" for k
    unfolding s2_def by (rule nd_relink [OF path1])
  have nodes3: "length (nodes s3) = length (nodes s)" "root s3 = root s2" "free_head s3 = free_head s" "stored s3 = stored s"
    by (simp_all add: s3_def store_rules nodes2)
  have nd3: "nd s3 k = (if k = i then (nd s i)\<lparr>right := apex b, parent := Some j\<rparr>
      else if k = j then (nd s j)\<lparr>parent := hole C, left := Some i\<rparr>
      else if Some k = apex b then (nd s k)\<lparr>parent := Some i\<rparr> else nd s2 k)" for k
    using live sep
    by (cases "Some k = apex b") (auto simp: s3_def store_rules nodes2 nd2 [OF h(1)] nd2 [OF h(2)] nd2 [OF hb] nd1)
  have run: "rotate_left (Some i) s = do { s \<leftarrow> update_height (Some i) s3; update_height (Some j) s }"
  proof -
    have "rotate_left (Some i) s = do {
        s \<leftarrow> replace_child (hole C) (Some i) (Some j) s1;
        s \<leftarrow> modify (Some j) (\<lambda>n. n\<lparr>left := Some i\<rparr>) s;
        s \<leftarrow> modify (Some i) (\<lambda>n. n\<lparr>parent := Some j\<rparr>) s;
        s \<leftarrow> update_height (Some i) s; update_height (Some j) s }"
      using pivot live sep
      by (cases "apex b") (simp_all add: rotate_left_def Let_def pivot_at_def store_rules s1_def)
    also have "\<dots> = do { s \<leftarrow> update_height (Some i) s3; update_height (Some j) s }"
      using live by (simp add: replace_child_relink [OF path1 ids(1)] s2_def [symmetric] store_rules nodes2 s3_def)
    finally show ?thesis .
  qed
  have same: "k \<in> set (ids a @ ids b @ ids c) \<Longrightarrow> Some k \<noteq> apex b \<Longrightarrow> nd s3 k = nd s k" for k
    using dist nd2 [of k] nd1 [of k] h(3) [of k] by (auto simp: nd3)
  have "tree_at s (Some j) b" "tree_at s (Some j) a" "tree_at s (Some i) c" using pivot by (auto simp: pivot_at_def)
  moreover have "k \<in> set (ids a) \<union> set (ids c) \<Longrightarrow> Some k \<noteq> apex b" for k using dist apex_ids [of b k] by auto
  ultimately have t3: "tree_at s3 (Some i) b" "tree_at s3 (Some j) a" "tree_at s3 (Some i) c"
    using same dist nd3 by (auto simp: nodes3 tree_at_cong [of s3 s] intro!: tree_at_reparent [of s "Some j" b s3])
  define s4 where "s4 = upd i (\<lambda>n. n\<lparr>height := depth (Bin c i b)\<rparr>) s3"
  define s5 where "s5 = upd j (\<lambda>n. n\<lparr>height := depth (Bin (Bin c i b) j a)\<rparr>) s4"
  have "update_height (Some i) s3 = Some s4" unfolding s4_def
    by (rule update_height_ok) (use live small t3 pivot sep in \<open>auto simp: nodes3 nd3 pivot_at_def\<close>)
  moreover have u4: "length (nodes s4) = length (nodes s)" "root s4 = root s2" "free_head s4 = free_head s" "stored s4 = stored s"
    "nd s4 k = (if k = i then (nd s3 i)\<lparr>height := depth (Bin c i b)\<rparr> else nd s3 k)" for k
    using live by (simp_all add: s4_def store_rules nodes3)
  have t4: "tree_at s4 (Some j) (Bin c i b)" "tree_at s4 (Some j) a"
    using t3 live dist sep pivot by (simp_all add: u4 nd3 pivot_at_def) (subst tree_at_cong [of s4 s3]; auto simp: u4 nodes3)+
  have "update_height (Some j) s4 = Some s5" unfolding s5_def
    by (rule update_height_ok) (use live small t4 pivot sep in \<open>auto simp: u4 nodes3 nd3 pivot_at_def\<close>)
  moreover have u5: "length (nodes s5) = length (nodes s)" "root s5 = root s2" "free_head s5 = free_head s" "stored s5 = stored s"
    "nd s5 k = (if k = j then (nd s4 j)\<lparr>height := depth (Bin (Bin c i b) j a)\<rparr> else nd s4 k)" for k
    using live by (simp_all add: s5_def store_rules u4)
  have "tree_at s5 (Some j) (Bin c i b)" "tree_at s5 (Some j) a"
    using t4 dist by (subst tree_at_cong [of s5 s4]; auto simp: u5 u4)+
  then have "tree_at s5 (hole C) (Bin (Bin c i b) j a)"
    using live sep pivot by (simp add: u5 u4 nd3 pivot_at_def)
  moreover have "path_at s5 C (Some j)"
    using path2 ids by (subst path_at_cong [of _ s2]) (auto simp: u5 u4 nd3 nodes2)
  moreover have "keeps (set (before C @ ids c @ i # ids b @ j # ids a @ after C)) s s5"
    unfolding keeps_def
  proof (intro conjI allI impI)
    have "entry (nd s2 k) = entry (nd s1 k) \<and> used (nd s2 k) = used (nd s1 k)" for k
      unfolding s2_def using relink_fields [OF path1] by blast
    then show "entry (nd s5 k) = entry (nd s k)" "used (nd s5 k) = used (nd s k)" for k
      by (auto simp: u5 u4 nd3 nd1)
    fix k assume k: "k \<notin> set (before C @ ids c @ i # ids b @ j # ids a @ after C)"
    then have "hole C \<noteq> Some k" "Some k \<noteq> apex b" using hole_ids [of C k] apex_ids [of b k] by auto
    with k show "nd s5 k = nd s k" by (simp add: u5 u4 nd3 nd1 nd2)
  qed (simp_all add: u5)
  ultimately show ?thesis by (auto simp: run)
qed

end
