(* ===== verification/AvlBalance.thy ===== *)
theory AvlBalance
  imports AvlStore
begin

text \<open>
  The rebalancing loop of \<open>avl_tree\<close>: one step on a subtree in the store is \<open>fix_node\<close> on its shape,
  and the loop up the parent links, which visits a rotated subtree a second time, is \<open>fixup\<close> and ends.
\<close>

lemma upd_same: "f (nd s i) = nd s i \<Longrightarrow> upd i f s = s"
  by (simp add: upd_def nd_def)

lemma rebalance_step_id:
  assumes "tree_at s par (Bin l i r)" and "balanced (Bin l i r)" and "depth (Bin l i r) < 256"
  shows "rebalance_step (Some i) s = Some s"
proof -
  have p: "live s i" "left (nd s i) = apex l" "right (nd s i) = apex r" "tree_at s (Some i) l" "tree_at s (Some i) r"
    and h: "height (nd s i) = depth (Bin l i r)" using assms(1) by simp_all
  have "update_height (Some i) s = Some s"
    unfolding update_height_ok [OF p assms(3)] using h by (subst upd_same) simp_all
  then show ?thesis using balance_factor_ok [OF p] assms(2) by (simp add: rebalance_step_def)
qed

text \<open>A pivot with a fresh height is a tree.\<close>

lemma pivot_fresh:
  assumes "pivot_at s (hole C) l i r" and "path_at s C (Some i)" and "distinct (before C @ ids l @ i # ids r @ after C)"
    and "depth (Bin l i r) < 256"
  defines "s' \<equiv> upd i (\<lambda>n. n\<lparr>height := depth (Bin l i r)\<rparr>) s"
  shows "update_height (Some i) s = Some s'" and "tree_at s' (hole C) (Bin l i r)" and "path_at s' C (Some i)"
    and "keeps (set (before C @ ids l @ i # ids r @ after C)) s s'"
    and "balance_factor (Some i) s' = Some (int (depth l) - int (depth r))"
proof -
  have p: "live s i" "left (nd s i) = apex l" "right (nd s i) = apex r" "tree_at s (Some i) l" "tree_at s (Some i) r"
    using assms(1) by (simp_all add: pivot_at_def)
  show "update_height (Some i) s = Some s'" unfolding s'_def by (rule update_height_ok [OF p assms(4)])
  have "tree_at s' (Some i) l" "tree_at s' (Some i) r"
    using p assms(3) by (subst tree_at_cong [of s' s]; auto simp: s'_def store_rules)+
  then show t: "tree_at s' (hole C) (Bin l i r)" using assms(1) p by (simp add: s'_def store_rules pivot_at_def)
  show "path_at s' C (Some i)" unfolding s'_def by (rule path_at_upd) (use assms p in auto)
  show "keeps (set (before C @ ids l @ i # ids r @ after C)) s s'" unfolding s'_def by (rule keeps_upd) (use p in auto)
  show "balance_factor (Some i) s' = Some (int (depth l) - int (depth r))"
    by (rule balance_factor_ok) (use t in auto)
qed

lemma lean_factor:
  assumes "tree_at s par t" and "t \<noteq> Tip"
  shows "\<exists>b. balance_factor (apex t) s = Some b \<and> (b < 0) = lean_right t \<and> (b > 0) = lean_left t"
proof (cases t)
  case (Bin l i r)
  have "balance_factor (Some i) s = Some (int (depth l) - int (depth r))"
    by (rule balance_factor_ok) (use assms(1) in \<open>auto simp: Bin\<close>)
  then show ?thesis by (simp add: Bin)
qed (use assms in simp)

lemma rebalance_left:
  assumes pivot: "tree_at s (hole C) (Bin l i r)" and path: "path_at s C (Some i)"
    and dist: "distinct (before C @ ids l @ i # ids r @ after C)" and small: "depth (Bin l i r) < 250"
    and deep: "depth l > depth r + 1"
  shows "\<exists>s'. do { n \<leftarrow> at (Some i) s; b \<leftarrow> balance_factor (left n) s;
        s \<leftarrow> (if b < 0 then rotate_left (left n) s else Some s); rotate_right (Some i) s } = Some s' \<and>
    tree_at s' (hole C) (fix_node l i r) \<and> path_at s' C (apex (fix_node l i r)) \<and>
    keeps (set (before C @ ids l @ i # ids r @ after C)) s s'"
proof -
  obtain a j b where l: "l = Bin a j b" using deep by (cases l) auto
  have live: "at (Some i) s = Some (nd s i)" "left (nd s i) = Some j" using pivot by (simp_all add: l store_rules)
  have tl: "tree_at s (Some i) l" using pivot by simp
  from lean_factor [OF tl] obtain f where f: "balance_factor (Some j) s = Some f" "(f < 0) = lean_right l" by (auto simp: l)
  show ?thesis
  proof (cases "lean_right l")
    case False
    have "pivot_at s (hole C) (Bin a j b) i r" using pivot by (intro tree_at_pivot) (simp add: l)
    from rotate_right_ok [OF this path] dist small obtain s' where
      "rotate_right (Some i) s = Some s'" "tree_at s' (hole C) (Bin a j (Bin b i r))" "path_at s' C (Some j)"
      "keeps (set (before C @ ids a @ j # ids b @ i # ids r @ after C)) s s'" by (auto simp: l)
    then show ?thesis using False deep by (auto simp: live f fix_node_def l)
  next
    case True
    then obtain c k d where b: "b = Bin c k d" by (cases b) (auto simp: l)
    let ?D = "LeftOf i r # C"
    have "pivot_at s (hole ?D) a j (Bin c k d)" using tl by (intro tree_at_pivot [of _ _ a j "Bin c k d"]) (simp add: l b)
    moreover have "path_at s ?D (Some j)" using pivot path by (simp add: l)
    ultimately obtain s1 where s1: "rotate_left (Some j) s = Some s1" "tree_at s1 (Some i) (Bin (Bin a j c) k d)"
      "path_at s1 ?D (Some k)" "keeps (set (before C @ ids l @ i # ids r @ after C)) s s1"
      using rotate_left_ok [of s ?D a j c k d] dist small by (auto simp: l b insert_commute)
    have "pivot_at s1 (hole C) (Bin (Bin a j c) k d) i r" using s1(2,3) by (simp add: pivot_at_def)
    moreover have "path_at s1 C (Some i)" using s1(3) by simp
    moreover have "depth (Bin (Bin (Bin a j c) k d) i r) < 255" using small by (simp add: l b)
    ultimately obtain s2 where s2: "rotate_right (Some i) s1 = Some s2" "tree_at s2 (hole C) (Bin (Bin a j c) k (Bin d i r))"
      "path_at s2 C (Some k)" "keeps (set (before C @ ids l @ i # ids r @ after C)) s1 s2"
      using rotate_right_ok [of s1 C "Bin a j c" k d i r] dist by (auto simp: l b insert_commute)
    have "keeps (set (before C @ ids l @ i # ids r @ after C)) s s2" by (rule keeps_join [OF s1(4) s2(4)])
    then show ?thesis using True deep s1 s2 f by (auto simp: live fix_node_def l b)
  qed
qed

lemma rebalance_right:
  assumes pivot: "tree_at s (hole C) (Bin l i r)" and path: "path_at s C (Some i)"
    and dist: "distinct (before C @ ids l @ i # ids r @ after C)" and small: "depth (Bin l i r) < 250"
    and deep: "depth r > depth l + 1"
  shows "\<exists>s'. do { n \<leftarrow> at (Some i) s; b \<leftarrow> balance_factor (right n) s;
        s \<leftarrow> (if b > 0 then rotate_right (right n) s else Some s); rotate_left (Some i) s } = Some s' \<and>
    tree_at s' (hole C) (fix_node l i r) \<and> path_at s' C (apex (fix_node l i r)) \<and>
    keeps (set (before C @ ids l @ i # ids r @ after C)) s s'"
proof -
  obtain a j b where r: "r = Bin a j b" using deep by (cases r) auto
  have live: "at (Some i) s = Some (nd s i)" "right (nd s i) = Some j" using pivot by (simp_all add: r store_rules)
  have tr: "tree_at s (Some i) r" using pivot by simp
  from lean_factor [OF tr] obtain f where f: "balance_factor (Some j) s = Some f" "(f > 0) = lean_left r" by (auto simp: r)
  show ?thesis
  proof (cases "lean_left r")
    case False
    have "pivot_at s (hole C) l i (Bin a j b)" using pivot by (intro tree_at_pivot) (simp add: r)
    from rotate_left_ok [OF this path] dist small obtain s' where
      "rotate_left (Some i) s = Some s'" "tree_at s' (hole C) (Bin (Bin l i a) j b)" "path_at s' C (Some j)"
      "keeps (set (before C @ ids l @ i # ids a @ j # ids b @ after C)) s s'" by (auto simp: r)
    then show ?thesis using False deep by (auto simp: live f fix_node_def r)
  next
    case True
    then obtain c k d where a: "a = Bin c k d" by (cases a) (auto simp: r)
    let ?D = "RightOf l i # C"
    have "pivot_at s (hole ?D) (Bin c k d) j b" using tr by (intro tree_at_pivot [of _ _ "Bin c k d" j b]) (simp add: r a)
    moreover have "path_at s ?D (Some j)" using pivot path by (simp add: r)
    ultimately obtain s1 where s1: "rotate_right (Some j) s = Some s1" "tree_at s1 (Some i) (Bin c k (Bin d j b))"
      "path_at s1 ?D (Some k)" "keeps (set (before C @ ids l @ i # ids r @ after C)) s s1"
      using rotate_right_ok [of s ?D c k d j b] dist small by (auto simp: r a insert_commute)
    have "pivot_at s1 (hole C) l i (Bin c k (Bin d j b))" using s1(2,3) by (simp add: pivot_at_def)
    moreover have "path_at s1 C (Some i)" using s1(3) by simp
    moreover have "depth (Bin l i (Bin c k (Bin d j b))) < 255" using small by (simp add: r a)
    ultimately obtain s2 where s2: "rotate_left (Some i) s1 = Some s2" "tree_at s2 (hole C) (Bin (Bin l i c) k (Bin d j b))"
      "path_at s2 C (Some k)" "keeps (set (before C @ ids l @ i # ids r @ after C)) s1 s2"
      using rotate_left_ok [of s1 C l i c k "Bin d j b"] dist by (auto simp: r a insert_commute)
    have "keeps (set (before C @ ids l @ i # ids r @ after C)) s s2" by (rule keeps_join [OF s1(4) s2(4)])
    then show ?thesis using True deep s1 s2 f by (auto simp: live fix_node_def r a)
  qed
qed

lemma rebalance_step_ok:
  assumes pivot: "pivot_at s (hole C) l i r" and path: "path_at s C (Some i)"
    and dist: "distinct (before C @ ids l @ i # ids r @ after C)" and small: "depth (Bin l i r) < 250"
  shows "\<exists>s'. rebalance_step (Some i) s = Some s' \<and> tree_at s' (hole C) (fix_node l i r) \<and>
    path_at s' C (apex (fix_node l i r)) \<and> keeps (set (before C @ ids l @ i # ids r @ after C)) s s'"
proof -
  define s1 where "s1 = upd i (\<lambda>n. n\<lparr>height := depth (Bin l i r)\<rparr>) s"
  have "depth (Bin l i r) < 256" using small by simp
  note s1 = pivot_fresh [OF pivot path dist this, folded s1_def]
  consider "depth l > depth r + 1" | "depth r > depth l + 1" | "depth l \<le> depth r + 1" "depth r \<le> depth l + 1" by linarith
  then show ?thesis
  proof cases
    case 1
    from rebalance_left [OF s1(2,3) dist small 1] obtain s2 where s2:
      "rebalance_step (Some i) s = Some s2" "tree_at s2 (hole C) (fix_node l i r)" "path_at s2 C (apex (fix_node l i r))"
      and k: "keeps (set (before C @ ids l @ i # ids r @ after C)) s1 s2"
      using s1(1,5) 1 by (auto simp: rebalance_step_def)
    with keeps_join [OF s1(4) k] show ?thesis by blast
  next
    case 2
    from rebalance_right [OF s1(2,3) dist small 2] obtain s2 where s2:
      "rebalance_step (Some i) s = Some s2" "tree_at s2 (hole C) (fix_node l i r)" "path_at s2 C (apex (fix_node l i r))"
      and k: "keeps (set (before C @ ids l @ i # ids r @ after C)) s1 s2"
      using s1(1,5) 2 by (auto simp: rebalance_step_def)
    with keeps_join [OF s1(4) k] show ?thesis by blast
  next
    case 3
    then have "fix_node l i r = Bin l i r" by (simp add: fix_node_def)
    with 3 s1 show ?thesis by (simp add: rebalance_step_def)
  qed
qed

section \<open>The loop\<close>

text \<open>After a rotation the loop continues at the pivot's new parent, the root of the rotated subtree: there it
  changes nothing and goes on above.\<close>

lemma rebalance_node:
  assumes pivot: "pivot_at s (hole C) l i r" and path: "path_at s C (Some i)"
    and dist: "distinct (before C @ ids l @ i # ids r @ after C)" and small: "depth (Bin l i r) < 250"
    and bal: "balanced l" "balanced r" "depth l \<le> depth r + 2" "depth r \<le> depth l + 2"
  shows "\<exists>s'. rebalance (Some i) s = rebalance (hole C) s' \<and> tree_at s' (hole C) (fix_node l i r) \<and>
    path_at s' C (apex (fix_node l i r)) \<and> keeps (set (before C @ ids l @ i # ids r @ after C)) s s'"
proof -
  from rebalance_step_ok [OF pivot path dist small] obtain s1 where s1:
    "rebalance_step (Some i) s = Some s1" "tree_at s1 (hole C) (fix_node l i r)" "path_at s1 C (apex (fix_node l i r))"
    "keeps (set (before C @ ids l @ i # ids r @ after C)) s s1" by blast
  note ok = fix_node_ok [OF bal, of i]
  have live: "live s1 i" using pivot s1(4) by (simp add: pivot_at_def keeps_def)
  have up: "rebalance (Some i) s = rebalance (parent (nd s1 i)) s1"
    using live s1(1) by (subst rebalance.simps) (simp add: store_rules)
  have "rebalance (parent (nd s1 i)) s1 = rebalance (hole C) s1"
  proof (cases "apex (fix_node l i r) = Some i")
    case True
    then obtain a b where "fix_node l i r = Bin a i b" by (cases "fix_node l i r") auto
    with s1(2) show ?thesis by simp
  next
    case False
    then obtain a j b where f: "fix_node l i r = Bin a j b" and "j \<noteq> i"
      using ids_fix_node [of l i r] by (cases "fix_node l i r") auto
    have "parent (nd s1 i) = Some j"
      using fix_node_pivot [of l i r] s1(2) \<open>j \<noteq> i\<close> unfolding f by auto
    moreover have "depth (Bin a j b) < 256" using ok small unfolding f by auto
    then have "rebalance_step (Some j) s1 = Some s1"
      using s1(2) ok unfolding f by (intro rebalance_step_id) auto
    moreover have "live s1 j" "parent (nd s1 j) = hole C" using s1(2) unfolding f by auto
    ultimately show ?thesis by (subst rebalance.simps) (simp add: store_rules)
  qed
  with up s1 show ?thesis by auto
qed

text \<open>A balanced subtree of a 32-bit address space is at most 65 levels deep, so no height wraps.\<close>

lemma rebalance_path:
  "path_near C t \<Longrightarrow> tree_at s (hole C) t \<Longrightarrow> path_at s C (apex t) \<Longrightarrow> distinct (ids (plug C t)) \<Longrightarrow>
    length (ids (plug C t)) < 2 ^ 32 \<Longrightarrow>
    \<exists>s'. rebalance (hole C) s = Some s' \<and> tree_at s' None (fixup C t) \<and> root s' = apex (fixup C t) \<and>
      keeps (set (ids (plug C t))) s s'"
proof (induction C t arbitrary: s rule: path_near.induct)
  case (1 t)
  then show ?case by (subst rebalance.simps) auto
next
  case (2 i r C t)
  have bal: "balanced t" "balanced r" "depth t \<le> depth r + 2" "depth r \<le> depth t + 2" using 2(2) by simp_all
  have "length (ids t) < 2 ^ 32" "length (ids r) < 2 ^ 32" using 2(6) by (simp_all add: ids_plug)
  with balanced_depth_bound bal have "depth t \<le> 65" "depth r \<le> 65" by blast+
  then have small: "depth (Bin t i r) < 250" by simp
  have "pivot_at s (hole C) t i r" "path_at s C (Some i)" using 2(3,4) by (simp_all add: pivot_at_def)
  from rebalance_node [OF this _ small bal] 2(5) obtain s1 where s1: "rebalance (Some i) s = rebalance (hole C) s1"
    "tree_at s1 (hole C) (fix_node t i r)" "path_at s1 C (apex (fix_node t i r))"
    "keeps (set (ids (plug C (Bin t i r)))) s s1" by (auto simp: ids_plug)
  from 2(1) [OF _ s1(2,3)] 2(2,5,6) obtain s2 where s2: "rebalance (hole C) s1 = Some s2"
    "tree_at s2 None (fixup C (fix_node t i r))" "root s2 = apex (fixup C (fix_node t i r))"
    "keeps (set (ids (plug C (Bin t i r)))) s1 s2" by (auto simp: ids_plug)
  with s1 keeps_join [OF s1(4) s2(4)] show ?case by simp
next
  case (3 l i C t)
  have bal: "balanced l" "balanced t" "depth l \<le> depth t + 2" "depth t \<le> depth l + 2" using 3(2) by simp_all
  have "length (ids t) < 2 ^ 32" "length (ids l) < 2 ^ 32" using 3(6) by (simp_all add: ids_plug)
  with balanced_depth_bound bal have "depth t \<le> 65" "depth l \<le> 65" by blast+
  then have small: "depth (Bin l i t) < 250" by simp
  have "pivot_at s (hole C) l i t" "path_at s C (Some i)" using 3(3,4) by (simp_all add: pivot_at_def)
  from rebalance_node [OF this _ small bal] 3(5) obtain s1 where s1: "rebalance (Some i) s = rebalance (hole C) s1"
    "tree_at s1 (hole C) (fix_node l i t)" "path_at s1 C (apex (fix_node l i t))"
    "keeps (set (ids (plug C (Bin l i t)))) s s1" by (auto simp: ids_plug)
  from 3(1) [OF _ s1(2,3)] 3(2,5,6) obtain s2 where s2: "rebalance (hole C) s1 = Some s2"
    "tree_at s2 None (fixup C (fix_node l i t))" "root s2 = apex (fixup C (fix_node l i t))"
    "keeps (set (ids (plug C (Bin l i t)))) s1 s2" by (auto simp: ids_plug)
  with s1 keeps_join [OF s1(4) s2(4)] show ?case by simp
qed

end
