(* ===== verification/AvlUpdate.thy ===== *)
theory AvlUpdate
  imports AvlBalance
begin

text \<open>
  Insertion and erasure of \<open>avl_tree\<close> on the store: the free list, the representation invariant, and
  that linking a fresh node at a leaf position and unlinking a node (with no, one or two children)
  followed by the rebalancing loop yield the balanced tree with that node added to or removed from
  the in-order sequence.
\<close>

section \<open>The representation invariant\<close>

fun free_at :: "('k, 'v) avl \<Rightarrow> node_ptr \<Rightarrow> nat list \<Rightarrow> bool" where
  "free_at s p [] \<longleftrightarrow> p = None"
| "free_at s p (i # fl) \<longleftrightarrow> p = Some i \<and> live s i \<and> free_at s (left (nd s i)) fl"

definition avl_repr :: "('k, 'v) avl \<Rightarrow> shape \<Rightarrow> nat list \<Rightarrow> bool" where
  "avl_repr s t fl \<longleftrightarrow> tree_at s None t \<and> root s = apex t \<and> balanced t \<and> free_at s (free_head s) fl \<and>
     distinct (ids t @ fl) \<and> set (ids t) \<union> set fl = {..<length (nodes s)} \<and> stored s = length (ids t) \<and>
     (\<forall>i \<in> set (ids t). entry (nd s i) \<noteq> None) \<and> (\<forall>i \<in> set fl. entry (nd s i) = None) \<and> length (nodes s) < 2 ^ 32"

lemma free_at_cong:
  "length (nodes s') = length (nodes s) \<Longrightarrow> (\<And>i. i \<in> set fl \<Longrightarrow> nd s' i = nd s i) \<Longrightarrow> free_at s' p fl = free_at s p fl"
  by (induction fl arbitrary: p) auto

lemma free_at_live: "free_at s p fl \<Longrightarrow> i \<in> set fl \<Longrightarrow> live s i"
  by (induction fl arbitrary: p) auto

lemma repr_length:
  assumes "avl_repr s t fl"
  shows "length (ids t) + length fl = length (nodes s)"
proof -
  have "card (set (ids t @ fl)) = length (nodes s)" using assms by (simp add: avl_repr_def)
  moreover have "card (set (ids t @ fl)) = length (ids t @ fl)"
    using assms by (intro distinct_card) (simp add: avl_repr_def)
  ultimately show ?thesis by simp
qed

section \<open>Framing\<close>

named_theorems frame_rules \<open>a write elsewhere does not matter\<close>

lemma tree_at_upd [frame_rules]:
  "live s k \<Longrightarrow> k \<notin> set (ids t) \<Longrightarrow> tree_at (upd k f s) par t = tree_at s par t"
  by (rule tree_at_cong) (auto simp: store_rules)

lemma path_at_upd_iff [frame_rules]:
  "live s k \<Longrightarrow> k \<notin> set (before C) \<Longrightarrow> k \<notin> set (after C) \<Longrightarrow> path_at (upd k f s) C p = path_at s C p"
  by (rule path_at_cong) (auto simp: store_rules)

lemma free_at_upd [frame_rules]:
  "live s k \<Longrightarrow> k \<notin> set fl \<Longrightarrow> free_at (upd k f s) p fl = free_at s p fl"
  by (rule free_at_cong) (auto simp: store_rules)

lemma tree_at_fields [frame_rules]:
  "tree_at (s\<lparr>root := p\<rparr>) par t = tree_at s par t" "tree_at (s\<lparr>free_head := p\<rparr>) par t = tree_at s par t"
  "tree_at (s\<lparr>stored := n\<rparr>) par t = tree_at s par t"
  by (rule tree_at_cong; simp add: store_rules)+

lemma path_at_fields [frame_rules]:
  "path_at (s\<lparr>free_head := q\<rparr>) C p = path_at s C p" "path_at (s\<lparr>stored := n\<rparr>) C p = path_at s C p"
  by (rule path_at_cong; simp add: store_rules)+

lemma free_at_fields [frame_rules]:
  "free_at (s\<lparr>root := q\<rparr>) p fl = free_at s p fl" "free_at (s\<lparr>free_head := q\<rparr>) p fl = free_at s p fl"
  "free_at (s\<lparr>stored := n\<rparr>) p fl = free_at s p fl"
  by (rule free_at_cong; simp add: store_rules)+

lemma tree_at_relink:
  assumes "path_at s C p" and "set (ids t) \<inter> set (path_ids C) = {}"
  shows "tree_at (relink C q s) par t = tree_at s par t"
proof (rule tree_at_cong)
  fix i assume "i \<in> set (ids t)"
  with assms hole_ids [of C i] have "hole C \<noteq> Some i" by auto
  then show "nd (relink C q s) i = nd s i" by (rule nd_relink [OF assms(1)])
qed (simp add: store_rules)

lemma free_at_relink:
  assumes "path_at s C p" and "set fl \<inter> set (path_ids C) = {}"
  shows "free_at (relink C q s) r fl = free_at s r fl"
proof (rule free_at_cong)
  fix i assume "i \<in> set fl"
  with assms hole_ids [of C i] have "hole C \<noteq> Some i" by auto
  then show "nd (relink C q s) i = nd s i" by (rule nd_relink [OF assms(1)])
qed (simp add: store_rules)

lemma tree_at_apex_parent:
  assumes "tree_at s par t" and "distinct (ids t)" and "apex t = Some k"
  shows "tree_at (upd k (\<lambda>n. n\<lparr>parent := q\<rparr>) s) q t"
  using assms tree_at_live [OF assms(1)] apex_ids [OF assms(3)]
  by (intro tree_at_reparent [OF assms(1,2)]) (auto simp: store_rules)

section \<open>Allocation and release\<close>

lemma allocate_ok:
  assumes "free_at s (free_head s) (n # fl)" and "distinct (n # fl)"
  shows "\<exists>f. allocate_node s = Some (Some n, upd n f (s\<lparr>free_head := left (nd s n)\<rparr>)) \<and>
    (\<forall>m. f m = m\<lparr>left := None, right := None, parent := None, height := 1, used := True\<rparr>)"
  using assms by (auto simp: allocate_node_def Let_def store_rules)

lemma allocate_full: "free_at s (free_head s) [] \<Longrightarrow> allocate_node s = Some (None, s)"
  by (simp add: allocate_node_def)

definition released :: "nat \<Rightarrow> ('k, 'v) avl \<Rightarrow> ('k, 'v) avl" where
  "released i s =
     (upd i (\<lambda>n. n\<lparr>entry := None, used := False, left := free_head s, right := None, parent := None, height := 0\<rparr>) s)
       \<lparr>free_head := Some i, stored := stored s - 1\<rparr>"

lemma release_ok:
  assumes "live s i" and "entry (nd s i) \<noteq> None"
  shows "release_node (Some i) s = Some (released i s)"
  using assms
  by (auto simp: release_node_def destroy_at_def node_value_def store_rules Let_def released_def)
    (simp_all add: upd_def)

section \<open>Linking a new node at a leaf\<close>

fun is_left :: "frame list \<Rightarrow> bool" where
  "is_left (LeftOf i r # C) = True"
| "is_left C = False"

lemma link_relink:
  assumes "path_at s C p"
  shows "(if hole C = None then Some (s\<lparr>root := q\<rparr>)
          else if is_left C then modify (hole C) (\<lambda>n. n\<lparr>left := q\<rparr>) s else modify (hole C) (\<lambda>n. n\<lparr>right := q\<rparr>) s)
         = Some (relink C q s)"
  using assms by (cases C rule: hole.cases) (auto simp: store_rules)

lemma emplace_at_ok:
  assumes repr: "avl_repr s t (n # fl)" and plug: "plug C Tip = t"
  shows "\<exists>s'. emplace_at (hole C) (is_left C) kv s = Some (status_ok, s') \<and> avl_repr s' (fixup C (Bin Tip n Tip)) fl \<and>
    (\<forall>k. entry (nd s' k) = (if k = n then Some kv else entry (nd s k))) \<and> length (nodes s') = length (nodes s)"
proof -
  define s0 where "s0 = s\<lparr>free_head := left (nd s n)\<rparr>"
  define s1 where "s1 = upd n (\<lambda>m. m\<lparr>left := None, right := None, parent := hole C, height := 1, used := True, entry := Some kv\<rparr>) s0"
  define s2 where "s2 = (relink C (Some n) s1)\<lparr>stored := stored s + 1\<rparr>"
  have live: "live s n" and free: "free_at s (free_head s) (n # fl)" and dist: "distinct (n # path_ids C @ fl)"
    using repr by (auto simp: avl_repr_def plug [symmetric] ids_plug dest: free_at_live)
  have fl: "set fl \<inter> set (path_ids C) = {}" "n \<notin> set (path_ids C)" "n \<notin> set fl" using dist by auto
  have path: "path_at s C None" "tree_at s (hole C) Tip"
    using tree_at_plug [of s C Tip] repr by (auto simp: avl_repr_def plug)
  have path1: "path_at s1 C None" using path live fl by (simp add: s1_def s0_def frame_rules store_rules)
  have sel1: "length (nodes s1) = length (nodes s)" "free_head s1 = left (nd s n)" "stored s1 = stored s"
    by (simp_all add: s1_def s0_def store_rules)
  have nd1: "nd s1 k = (if k = n then (nd s n)\<lparr>left := None, right := None, parent := hole C, height := 1, used := True, entry := Some kv\<rparr> else nd s k)" for k
    using live by (simp add: s1_def s0_def store_rules)
  have path2: "path_at s2 C (Some n)" unfolding s2_def
    using path_at_relink [OF path1, of "Some n"] dist by (auto simp: frame_rules)
  have hn: "hole C \<noteq> Some n" using fl(2) hole_ids by blast
  have tree2: "tree_at s2 (hole C) (Bin Tip n Tip)"
    using live nd_relink [OF path1 hn] by (simp add: s2_def store_rules sel1 nd1)
  have free2: "free_at s2 (left (nd s n)) fl"
    using free fl live free_at_relink [OF path1 fl(1)] by (simp add: s2_def frame_rules s1_def s0_def store_rules)
  have run: "emplace_at (hole C) (is_left C) kv s = do { s \<leftarrow> rebalance (hole C) s2; Some (status_ok, s) }"
  proof -
    obtain f where f: "allocate_node s = Some (Some n, upd n f s0)"
      "\<And>m. f m = m\<lparr>left := None, right := None, parent := None, height := 1, used := True\<rparr>"
      using allocate_ok [OF free] dist by (auto simp: s0_def)
    have "upd n (\<lambda>m. m\<lparr>parent := hole C\<rparr>) (upd n (\<lambda>m. m\<lparr>entry := Some kv\<rparr>) (upd n f s0)) = s1"
      using live by (cases "nodes s ! n") (simp add: s1_def s0_def upd_def f)
    moreover have "live s0 n" using live by (simp add: s0_def)
    ultimately show ?thesis
      by (simp add: emplace_at_def f(1) construct_at_def store_rules link_relink [OF path1] s2_def sel1)
  qed
  have bal: "path_ok C 0" using repr balanced_plug [of C Tip] by (simp add: avl_repr_def plug)
  then have "path_near C (Bin Tip n Tip)" by (rule path_ok_near) (simp_all add: near_def)
  moreover have "distinct (ids (plug C (Bin Tip n Tip)))" using dist by (auto simp: ids_plug)
  moreover have "length (ids (plug C (Bin Tip n Tip))) < 2 ^ 32"
    using repr_length [OF repr] repr by (simp add: ids_plug plug [symmetric] avl_repr_def)
  ultimately obtain s3 where s3: "rebalance (hole C) s2 = Some s3" "tree_at s3 None (fixup C (Bin Tip n Tip))"
    "root s3 = apex (fixup C (Bin Tip n Tip))" "keeps (set (ids (plug C (Bin Tip n Tip)))) s2 s3"
    using rebalance_path [of C "Bin Tip n Tip" s2] tree2 path2 by auto
  have sel3: "length (nodes s3) = length (nodes s)" "free_head s3 = left (nd s n)" "stored s3 = stored s + 1"
    using s3(4) by (simp_all add: keeps_def s2_def store_rules sel1)
  have entry3: "entry (nd s3 k) = (if k = n then Some kv else entry (nd s k))" for k
    using s3(4) relink_fields [OF path1, of "Some n" k] by (simp add: keeps_def s2_def store_rules nd1)
  have "free_at s3 (left (nd s n)) fl"
    using free2 s3(4) dist by (subst free_at_cong [of _ s2]) (auto simp: keeps_def ids_plug)
  moreover have "balanced (fixup C (Bin Tip n Tip))" by (rule balanced_fixup [OF bal]) (simp_all add: near_def)
  moreover have "set (ids (fixup C (Bin Tip n Tip))) \<union> set fl = {..<length (nodes s)}"
    using repr by (auto simp: avl_repr_def ids_fixup plug [symmetric] ids_plug)
  ultimately have "avl_repr s3 (fixup C (Bin Tip n Tip)) fl"
    using s3 repr dist
    by (auto simp: avl_repr_def sel3 entry3 ids_fixup plug [symmetric] ids_plug)
  then show ?thesis using s3(1) entry3 sel3 by (auto simp: run)
qed

lemma emplace_at_full: "free_at s (free_head s) [] \<Longrightarrow> emplace_at par side kv s = Some (status_full, s)"
  by (simp add: emplace_at_def allocate_full)

section \<open>Unlinking a node\<close>

lemma ids_split: "i \<in> set (ids t) \<Longrightarrow> \<exists>C l r. plug C (Bin l i r) = plug D t"
proof (induction t arbitrary: D)
  case (Bin l j r)
  then consider "i = j" | "i \<in> set (ids l)" | "i \<in> set (ids r)" by auto
  then show ?case
  proof cases
    case 1
    then show ?thesis by blast
  next
    case 2
    from Bin.IH(1) [OF this, of "LeftOf j r # D"] show ?thesis by simp
  next
    case 3
    from Bin.IH(2) [OF this, of "RightOf l j # D"] show ?thesis by simp
  qed
qed simp

definition put_parent :: "node_ptr \<Rightarrow> node_ptr \<Rightarrow> ('k, 'v) avl \<Rightarrow> ('k, 'v) avl" where
  "put_parent q par s = (case q of None \<Rightarrow> s | Some k \<Rightarrow> upd k (\<lambda>n. n\<lparr>parent := par\<rparr>) s)"

lemma put_parent_sel [store_rules]:
  "length (nodes (put_parent q par s)) = length (nodes s)" "root (put_parent q par s) = root s"
  "free_head (put_parent q par s) = free_head s" "stored (put_parent q par s) = stored s"
  by (simp_all add: put_parent_def store_rules split: option.split)

lemma nd_put_parent [store_rules]:
  "(\<And>k. q = Some k \<Longrightarrow> live s k) \<Longrightarrow> nd (put_parent q par s) k = (if q = Some k then (nd s k)\<lparr>parent := par\<rparr> else nd s k)"
  by (auto simp: put_parent_def store_rules split: option.split)

lemma transplant_eq:
  assumes "path_at s C (Some x)" and "x \<notin> set (path_ids C)" and "live s x" and "parent (nd s x) = hole C"
    and "\<And>k. q = Some k \<Longrightarrow> live s k"
  shows "transplant (Some x) q s = Some (put_parent q (hole C) (relink C q s))"
  using assms relink_fields [OF assms(1), of q x]
  by (auto simp: transplant_def store_rules replace_child_relink put_parent_def split: option.split)

lemma rebalance_whole:
  assumes "tree_at s None t" and "balanced t" and "depth t < 256"
  shows "rebalance (apex t) s = Some s"
proof (cases t)
  case (Bin l i r)
  then have "rebalance_step (Some i) s = Some s" using assms by (intro rebalance_step_id) auto
  moreover have "rebalance None s = Some s" by (subst rebalance.simps) simp
  ultimately show ?thesis using assms(1) by (subst rebalance.simps) (simp add: Bin store_rules)
qed (subst rebalance.simps, simp)

text \<open>The last steps of an erasure: release the node, rebalance from the hole.\<close>

lemma erase_finish:
  assumes tree: "tree_at s (hole C) u" and path: "path_at s C (apex u)" and free: "free_at s (free_head s) fl"
    and live: "live s i" "entry (nd s i) \<noteq> None"
    and dist: "distinct (i # ids (plug C u) @ fl)" and all: "set (i # ids (plug C u) @ fl) = {..<length (nodes s)}"
    and size: "stored s = Suc (length (ids (plug C u)))" "length (nodes s) < 2 ^ 32"
    and ent: "\<forall>k \<in> set (ids (plug C u)). entry (nd s k) \<noteq> None" "\<forall>k \<in> set fl. entry (nd s k) = None"
    and bal: "path_ok C d" "balanced u" "near (depth u) d"
  shows "\<exists>s'. do { s \<leftarrow> release_node (Some i) s; rebalance (if hole C \<noteq> None then hole C else apex u) s } = Some s' \<and>
    avl_repr s' (fixup C u) (i # fl) \<and> (\<forall>k. entry (nd s' k) = (if k = i then None else entry (nd s k))) \<and>
    length (nodes s') = length (nodes s)"
proof -
  define s1 where "s1 = released i s"
  have i: "i \<notin> set (ids u)" "i \<notin> set (before C)" "i \<notin> set (after C)" "i \<notin> set fl" using dist by (auto simp: ids_plug)
  have sel1: "length (nodes s1) = length (nodes s)" "free_head s1 = Some i" "stored s1 = length (ids (plug C u))" "root s1 = root s"
    using size by (simp_all add: s1_def released_def store_rules)
  have nd1: "nd s1 k = (if k = i then (nd s i)\<lparr>entry := None, used := False, left := free_head s, right := None, parent := None, height := 0\<rparr> else nd s k)" for k
    using live by (simp add: s1_def released_def store_rules)
  have tree1: "tree_at s1 (hole C) u" using tree live i by (subst tree_at_cong [of _ s]) (auto simp: sel1 nd1)
  have path1: "path_at s1 C (apex u)" using path live i by (subst path_at_cong [of _ s]) (auto simp: sel1 nd1)
  have free1: "free_at s1 (Some i) (i # fl)"
    using free live i by (simp add: sel1 nd1) (subst free_at_cong [of _ s]; auto simp: sel1 nd1)
  have "length (ids (plug C u)) \<le> length (nodes s)"
    using distinct_card [of "ids (plug C u)"] dist all card_mono [of "{..<length (nodes s)}" "set (ids (plug C u))"] by auto
  then have small: "length (ids (plug C u)) < 2 ^ 32" using size by simp
  have "\<exists>s2. rebalance (if hole C \<noteq> None then hole C else apex u) s1 = Some s2 \<and> tree_at s2 None (fixup C u) \<and>
      root s2 = apex (fixup C u) \<and> keeps (set (ids (plug C u))) s1 s2"
  proof (cases "C = []")
    case True
    have "depth u < 256" using balanced_depth_bound [OF bal(2)] small by (simp add: True)
    then show ?thesis using rebalance_whole [of s1 u] tree1 path1 bal(2) by (simp add: True)
  next
    case False
    then have "hole C \<noteq> None" by (cases C rule: hole.cases) auto
    then show ?thesis using rebalance_path [OF path_ok_near [OF bal] tree1 path1] dist small by simp
  qed
  then obtain s2 where s2: "rebalance (if hole C \<noteq> None then hole C else apex u) s1 = Some s2" "tree_at s2 None (fixup C u)"
    "root s2 = apex (fixup C u)" "keeps (set (ids (plug C u))) s1 s2" by blast
  have sel2: "length (nodes s2) = length (nodes s)" "free_head s2 = Some i" "stored s2 = length (ids (plug C u))"
    using s2(4) by (simp_all add: keeps_def sel1)
  have entry2: "entry (nd s2 k) = (if k = i then None else entry (nd s k))" for k
    using s2(4) by (simp add: keeps_def nd1)
  have free2: "free_at s2 (Some i) (i # fl)"
    using free1 s2(4) dist by (subst free_at_cong [of _ s1]) (auto simp: keeps_def)
  have ids: "ids (fixup C u) = ids (plug C u)" by (simp add: ids_fixup ids_plug)
  have "avl_repr s2 (fixup C u) (i # fl)"
    unfolding avl_repr_def ids sel2 entry2
    using s2(2,3) free2 balanced_fixup [OF bal] dist all size ent i by (auto simp: ids_plug)
  then show ?thesis using release_ok [OF live] s2(1) entry2 sel2 by (auto simp: s1_def)
qed

lemma put_parent_tree:
  "tree_at s par t \<Longrightarrow> distinct (ids t) \<Longrightarrow> tree_at (put_parent (apex t) q s) q t"
  by (cases "apex t") (auto simp: put_parent_def tree_at_apex_parent)

lemma put_parent_path:
  assumes "path_at s C p" and "\<And>k. q = Some k \<Longrightarrow> live s k \<and> k \<notin> set (path_ids C)"
  shows "path_at (put_parent q par s) C p"
  using assms by (cases q) (auto simp: put_parent_def frame_rules)

lemma put_parent_free:
  assumes "free_at s p fl" and "\<And>k. q = Some k \<Longrightarrow> live s k \<and> k \<notin> set fl"
  shows "free_at (put_parent q par s) p fl"
  using assms by (cases q) (auto simp: put_parent_def frame_rules)

lemma erase_one_child:
  assumes repr: "avl_repr s t fl" and plug: "plug C (Bin l i r) = t" and one: "l = Tip \<or> r = Tip"
  defines "u \<equiv> if l = Tip then r else l"
  shows "\<exists>s'. erase_node (Some i) s = Some s' \<and> avl_repr s' (fixup C u) (i # fl) \<and>
    (\<forall>k. entry (nd s' k) = (if k = i then None else entry (nd s k))) \<and> length (nodes s') = length (nodes s)"
proof -
  have ids: "set (ids u) = set (ids l) \<union> set (ids r)" "distinct (ids u) = (distinct (ids l) \<and> distinct (ids r))"
    "length (ids u) = length (ids l) + length (ids r)" using one by (auto simp: u_def)
  have "distinct (before C @ ids l @ i # ids r @ after C @ fl)" using repr by (simp add: avl_repr_def plug [symmetric] ids_plug)
  then have dist: "distinct (i # ids (plug C u) @ fl)" by (auto simp: ids_plug ids)
  have path: "path_at s C (Some i)" "tree_at s (hole C) (Bin l i r)"
    using tree_at_plug [of s C "Bin l i r"] repr by (auto simp: avl_repr_def plug)
  have u: "tree_at s (Some i) u" using path(2) by (simp add: u_def)
  have ul: "\<And>k. apex u = Some k \<Longrightarrow> live s k" using tree_at_live [OF u] apex_ids by blast
  have n: "live s i" "parent (nd s i) = hole C" "left (nd s i) = apex l" "right (nd s i) = apex r" using path(2) by simp_all
  have i: "i \<notin> set (ids u)" "i \<notin> set (before C)" "i \<notin> set (after C)" "i \<notin> set fl"
    and du: "distinct (ids u)" "distinct (path_ids C)" "set (ids u) \<inter> set (path_ids C) = {}" "set fl \<inter> set (path_ids C) = {}"
      "set fl \<inter> set (ids u) = {}"
    using dist by (auto simp: ids_plug)
  define s0 where "s0 = relink C (apex u) s"
  define s1 where "s1 = put_parent (apex u) (hole C) s0"
  have s0: "path_at s0 C (apex u)" "tree_at s0 (Some i) u" "free_at s0 (free_head s) fl" "length (nodes s0) = length (nodes s)"
    "free_head s0 = free_head s" "stored s0 = stored s"
    using path_at_relink [OF path(1)] du tree_at_relink [OF path(1)] u free_at_relink [OF path(1)] repr
    by (simp_all add: s0_def store_rules avl_repr_def)
  have ak: "\<And>k. apex u = Some k \<Longrightarrow> k \<notin> set (path_ids C) \<and> k \<notin> set fl" using apex_ids du by blast
  have s1: "path_at s1 C (apex u)" "tree_at s1 (hole C) u" "free_at s1 (free_head s1) fl"
    "length (nodes s1) = length (nodes s)" "stored s1 = stored s"
    using put_parent_path [OF s0(1)] put_parent_tree [OF s0(2) du(1)] put_parent_free [OF s0(3)] ul ak
    by (auto simp: s1_def s0 store_rules)
  have entry1: "entry (nd s1 k) = entry (nd s k)" for k
    using relink_fields [OF path(1), of "apex u" k] ul by (simp add: s1_def store_rules s0) (simp add: s0_def)
  have run: "erase_node (Some i) s =
      do { s \<leftarrow> release_node (Some i) s1; rebalance (if hole C \<noteq> None then hole C else apex u) s }"
  proof -
    have "transplant (Some i) (apex u) s = Some s1" unfolding s1_def s0_def
      by (rule transplant_eq [OF path(1)]) (use i n ul in auto)
    then show ?thesis using one n by (cases "l = Tip") (simp_all add: erase_node_def store_rules Let_def u_def)
  qed
  have bal: "path_ok C (depth (Bin l i r))" "balanced u" "near (depth u) (depth (Bin l i r))"
    using repr balanced_plug [of C "Bin l i r"] one by (auto simp: avl_repr_def plug u_def near_def)
  have perm: "set (ids t) = insert i (set (ids (plug C u)))" "length (ids t) = Suc (length (ids (plug C u)))"
    by (auto simp: plug [symmetric] ids_plug ids)
  show ?thesis unfolding run
    using erase_finish [OF s1(2,1,3) _ _ dist _ _ _ _ _ bal] repr perm n(1) i by (auto simp: avl_repr_def s1 entry1)
qed

end
