(* ===== verification/AvlErase.thy ===== *)
theory AvlErase
  imports AvlUpdate
begin

text \<open>
  Erasing a node with two children from \<open>avl_tree\<close>: its in-order successor, the leftmost node of its
  right subtree, is taken out of its place and linked in the place of the erased node, and the loop
  rebalances from where the successor was.
\<close>

section \<open>Left spines\<close>

text \<open>The part of a path from a leftmost node up to, but without, the node whose right subtree it is in.\<close>

fun seg_at :: "('k, 'v) avl \<Rightarrow> frame list \<Rightarrow> node_ptr \<Rightarrow> node_ptr \<Rightarrow> bool" where
  "seg_at s [] par p = True"
| "seg_at s (LeftOf i r # D) par p \<longleftrightarrow> live s i \<and> parent (nd s i) = (if D = [] then par else hole D) \<and>
     left (nd s i) = p \<and> right (nd s i) = apex r \<and> tree_at s (Some i) r \<and> seg_at s D par (Some i)"
| "seg_at s (RightOf l i # D) par p = False"

fun base :: "frame list \<Rightarrow> node_ptr \<Rightarrow> node_ptr" where
  "base [] p = p"
| "base (LeftOf i r # D) p = base D (Some i)"
| "base (RightOf l i # D) p = base D (Some i)"

lemma before_append [simp]: "before (D @ E) = before E @ before D"
  by (induction D rule: before.induct) simp_all

lemma after_append [simp]: "after (D @ E) = after D @ after E"
  by (induction D rule: after.induct) simp_all

lemma plug_append: "plug (D @ E) t = plug E (plug D t)"
  by (induction D t rule: plug.induct) simp_all

lemma hole_path_append: "hole (D @ E) = (if D = [] then hole E else hole D)"
  by (cases D rule: hole.cases) simp_all

lemma path_at_append:
  "before D = [] \<Longrightarrow> path_at s (D @ E) p \<longleftrightarrow> seg_at s D (hole E) p \<and> path_at s E (base D p)"
proof (induction D arbitrary: p)
  case (Cons F D)
  then show ?case by (cases F) (auto simp: hole_path_append)
qed simp

lemma path_ok_rename: "path_ok (D @ RightOf l m # C) d = path_ok (D @ RightOf l i # C) d"
proof (induction D arbitrary: d)
  case (Cons F D)
  then show ?case by (cases F) simp_all
qed simp

lemma base_ids: "base D p = Some q \<Longrightarrow> D \<noteq> [] \<Longrightarrow> before D = [] \<Longrightarrow> q \<in> set (after D)"
proof (induction D arbitrary: p)
  case (Cons F D)
  then show ?case by (cases F; cases "D = []") auto
qed simp

lemma base_some: "D \<noteq> [] \<Longrightarrow> \<exists>q. \<forall>p. base D p = Some q"
proof (induction D)
  case (Cons F D)
  then show ?case by (cases F; cases "D = []") auto
qed simp

lemma seg_at_cong:
  "length (nodes s') = length (nodes s) \<Longrightarrow> (\<And>i. i \<in> set (after D) \<Longrightarrow> nd s' i = nd s i) \<Longrightarrow> seg_at s' D par p = seg_at s D par p"
proof (induction s D par p rule: seg_at.induct)
  case (2 s i r D par p)
  have "seg_at s' D par (Some i) = seg_at s D par (Some i)" by (rule 2(1)) (use 2(2-) in auto)
  moreover have "tree_at s' (Some i) r = tree_at s (Some i) r" by (rule tree_at_cong) (use 2(2-) in auto)
  ultimately show ?case using 2(2-) by simp
qed simp_all

lemma seg_at_live: "seg_at s D par p \<Longrightarrow> i \<in> set (after D) \<Longrightarrow> live s i"
  by (induction s D par p rule: seg_at.induct) (auto dest: tree_at_live)

lemma seg_at_upd [frame_rules]:
  "live s k \<Longrightarrow> k \<notin> set (after D) \<Longrightarrow> seg_at (upd k f s) D par p = seg_at s D par p"
  by (rule seg_at_cong) (auto simp: store_rules)

lemma seg_at_reparent:
  assumes "seg_at s D par p" and "distinct (after D)" and "base D p = Some q" and "D \<noteq> []"
  shows "seg_at (upd q (\<lambda>n. n\<lparr>parent := par'\<rparr>) s) D par' p"
  using assms
proof (induction s D par p rule: seg_at.induct)
  case (2 s i r D par p)
  show ?case
  proof (cases "D = []")
    case True
    then show ?thesis using 2(2-) by (auto simp: store_rules frame_rules)
  next
    case False
    have "before D = []" if "seg_at s D par p" for p using that by (induction s D par p rule: seg_at.induct) auto
    then have "q \<in> set (after D)" using 2(2,4) False base_ids by auto
    moreover from this have "live s q" "q \<notin> set (ids r)" using seg_at_live 2(2,3) by auto
    ultimately show ?thesis using 2 False by (auto simp: store_rules frame_rules)
  qed
qed simp_all

lemma minimum_loop_ok:
  "tree_at s par (Bin l i r) \<Longrightarrow>
    \<exists>D m rr. Bin l i r = plug D (Bin Tip m rr) \<and> before D = [] \<and> minimum_loop (Some i) s = Some (Some m)"
proof (induction l arbitrary: i r par)
  case Tip
  then have "Bin Tip i r = plug [] (Bin Tip i r) \<and> before [] = [] \<and> minimum_loop (Some i) s = Some (Some i)"
    by (subst minimum_loop.simps) (simp add: store_rules)
  then show ?case by blast
next
  case (Bin l j r')
  have "tree_at s (Some i) (Bin l j r')" using Bin.prems by simp
  from Bin.IH(1) [OF this] obtain D m rr where
    "Bin l j r' = plug D (Bin Tip m rr)" "before D = []" "minimum_loop (Some j) s = Some (Some m)" by blast
  moreover have "minimum_loop (Some i) s = minimum_loop (Some j) s"
    using Bin.prems by (subst minimum_loop.simps) (simp add: store_rules)
  ultimately have "Bin (Bin l j r') i r = plug (D @ [LeftOf i r]) (Bin Tip m rr) \<and> before (D @ [LeftOf i r]) = [] \<and>
      minimum_loop (Some i) s = Some (Some m)" by (simp add: plug_append)
  then show ?case by blast
qed

section \<open>Taking the successor out\<close>

lemma seg_at_relink:
  assumes "path_at s C p" and "set (after D) \<inter> set (path_ids C) = {}"
  shows "seg_at (relink C q s) D par r = seg_at s D par r"
proof (rule seg_at_cong)
  fix i assume "i \<in> set (after D)"
  with assms hole_ids [of C i] have "hole C \<noteq> Some i" by auto
  then show "nd (relink C q s) i = nd s i" by (rule nd_relink [OF assms(1)])
qed (simp add: store_rules)

text \<open>The state between the two halves of the unlinking.\<close>

definition detached :: "('k, 'v) avl \<Rightarrow> ('k, 'v) avl \<Rightarrow> frame list \<Rightarrow> nat \<Rightarrow> shape \<Rightarrow> shape \<Rightarrow> nat \<Rightarrow> frame list \<Rightarrow> nat list \<Rightarrow> bool" where
  "detached s s' D m rr l i C fl \<longleftrightarrow>
     live s m \<and> right (nd s' m) = base D (apex rr) \<and> seg_at s' D (Some m) (apex rr) \<and>
     tree_at s' (if D = [] then Some m else hole D) rr \<and>
     live s i \<and> parent (nd s' i) = hole C \<and> left (nd s' i) = apex l \<and> tree_at s' (Some i) l \<and> path_at s' C (Some i) \<and>
     free_at s' (free_head s) fl \<and> length (nodes s') = length (nodes s) \<and> free_head s' = free_head s \<and> stored s' = stored s \<and>
     (\<forall>k. entry (nd s' k) = entry (nd s k))"

lemma detach_ok:
  assumes path: "path_at s (D @ RightOf l i # C) (Some m)" and tree: "tree_at s (hole (D @ RightOf l i # C)) (Bin Tip m rr)"
    and spine: "before D = []" "D \<noteq> []"
    and dist: "distinct (before C @ ids l @ i # m # ids rr @ after D @ after C @ fl)"
    and free: "free_at s (free_head s) fl"
  shows "\<exists>s'. detach_successor (Some i) (Some m) s = Some s' \<and> detached s s' D m rr l i C fl"
proof -
  let ?E = "RightOf l i # C"
  let ?DE = "D @ ?E"
  define s0 where "s0 = relink ?DE (apex rr) s"
  define s1 where "s1 = put_parent (apex rr) (hole D) s0"
  have hd: "hole ?DE = hole D" using spine by (simp add: hole_path_append)
  have m: "live s m" "parent (nd s m) = hole D" "right (nd s m) = apex rr" "tree_at s (Some m) rr" using tree hd by simp_all
  have rl: "\<And>k. apex rr = Some k \<Longrightarrow> live s k" using tree_at_live [OF m(4)] apex_ids by blast
  have dDE: "distinct (path_ids ?DE)" "m \<notin> set (path_ids ?DE)" "set (ids rr) \<inter> set (path_ids ?DE) = {}"
    "set fl \<inter> set (path_ids ?DE) = {}"
    using dist spine by auto
  have drr: "distinct (ids rr)" "m \<notin> set (ids rr)" "set fl \<inter> set (ids rr) = {}" "m \<notin> set fl" "i \<notin> set (ids rr)" "m \<noteq> i"
    "set (ids l) \<inter> set (ids rr) = {}" using dist by auto
  have trans: "transplant (Some m) (apex rr) s = Some s1" unfolding s1_def s0_def hd [symmetric]
    by (rule transplant_eq [OF path]) (use dDE m hd rl in auto)
  have s0: "path_at s0 ?DE (apex rr)" "tree_at s0 (Some m) rr" "free_at s0 (free_head s) fl"
    "length (nodes s0) = length (nodes s)" "free_head s0 = free_head s" "stored s0 = stored s"
    using path_at_relink [OF path dDE(1)] tree_at_relink [OF path dDE(3)] m(4) free_at_relink [OF path dDE(4)] free
    by (simp_all add: s0_def store_rules)
  have ak: "\<And>k. apex rr = Some k \<Longrightarrow> k \<notin> set (path_ids ?DE) \<and> k \<notin> set fl" using apex_ids dDE drr by blast
  have s1: "path_at s1 ?DE (apex rr)" "tree_at s1 (hole D) rr" "free_at s1 (free_head s) fl"
    "length (nodes s1) = length (nodes s)" "free_head s1 = free_head s" "stored s1 = stored s"
    using put_parent_path [OF s0(1)] put_parent_tree [OF s0(2) drr(1)] put_parent_free [OF s0(3)] rl ak
    by (auto simp: s1_def s0 store_rules)
  have entry1: "entry (nd s1 k) = entry (nd s k)" for k
    using relink_fields [OF path, of "apex rr" k] rl by (simp add: s1_def store_rules s0) (simp add: s0_def)
  obtain q where q: "\<And>p. base D p = Some q" using base_some [OF spine(2)] by blast
  have qd: "q \<in> set (after D)" using base_ids [of D None q] q spine by simp
  have seg1: "seg_at s1 D (Some i) (apex rr)" and up1: "live s1 i" "parent (nd s1 i) = hole C" "left (nd s1 i) = apex l"
    "right (nd s1 i) = Some q" "tree_at s1 (Some i) l" "path_at s1 C (Some i)"
    using s1(1) by (simp_all add: path_at_append [OF spine(1)] q)
  define s2 where "s2 = upd m (\<lambda>m. m\<lparr>right := Some q\<rparr>) s1"
  define s3 where "s3 = upd q (\<lambda>k. k\<lparr>parent := Some m\<rparr>) s2"
  have ql: "live s1 q" using seg_at_live [OF seg1 qd] .
  have sep: "q \<noteq> m" "q \<noteq> i" "q \<notin> set (ids l)" "q \<notin> set (ids rr)" "q \<notin> set (path_ids C)" "q \<notin> set fl"
    "m \<notin> set (after D)" "m \<notin> set (ids l)" "m \<notin> set (path_ids C)" "distinct (after D)"
    using qd dist by auto
  have seg2: "seg_at s2 D (Some i) (apex rr)" using seg1 m sep by (simp add: s2_def frame_rules s1)
  have seg3: "seg_at s3 D (Some m) (apex rr)" unfolding s3_def
    by (rule seg_at_reparent [OF seg2 sep(10)]) (use q spine in auto)
  have run: "detach_successor (Some i) (Some m) s = Some s3"
    using m ql up1 by (simp add: detach_successor_def trans store_rules s1 s2_def s3_def)
  have nd3: "nd s3 k = (if k = q then (nd s1 q)\<lparr>parent := Some m\<rparr> else if k = m then (nd s1 m)\<lparr>right := Some q\<rparr> else nd s1 k)" for k
    using m ql sep by (simp add: s3_def s2_def store_rules s1)
  have "detached s s3 D m rr l i C fl"
    unfolding detached_def
    using m seg3 up1 s1 ql sep spine drr entry1 q
    by (simp add: nd3) (simp add: s3_def s2_def frame_rules store_rules)
  then show ?thesis using run by blast
qed

text \<open>A successor that is the right child itself stays where it is.\<close>

lemma detached_child:
  assumes "path_at s (RightOf l i # C) (Some m)" and "tree_at s (Some i) (Bin Tip m rr)" and "free_at s (free_head s) fl"
  shows "detached s s [] m rr l i C fl"
  using assms by (simp add: detached_def)

section \<open>Linking the successor in\<close>

lemma update_height_link:
  assumes "live s m" and "left (nd s m) = apex l" "tree_at s (Some m) l" and "\<And>q. right (nd s m) = Some q \<Longrightarrow> live s q"
  shows "\<exists>h. update_height (Some m) s = Some (upd m (\<lambda>n. n\<lparr>height := h\<rparr>) s)"
proof -
  obtain r where "node_height (right (nd s m)) s = Some r"
    using assms(4) by (cases "right (nd s m)") (auto simp: node_height_def store_rules)
  then show ?thesis using assms(1,2) node_height_apex [OF assms(3)] by (auto simp: update_height_def store_rules)
qed

lemma replace_ok:
  assumes det: "detached s s3 D m rr l i C fl" and spine: "before D = []" and l: "apex l = Some j"
    and dist: "distinct (before C @ ids l @ i # m # ids rr @ after D @ after C @ fl)"
  shows "\<exists>s'. link_successor (Some i) (Some m) s3 = Some s' \<and>
    path_at s' (D @ RightOf l m # C) (apex rr) \<and> tree_at s' (hole (D @ RightOf l m # C)) rr \<and>
    free_at s' (free_head s) fl \<and> length (nodes s') = length (nodes s) \<and> free_head s' = free_head s \<and> stored s' = stored s \<and>
    (\<forall>k. entry (nd s' k) = entry (nd s k))"
proof -
  have d: "live s3 m" "right (nd s3 m) = base D (apex rr)" "seg_at s3 D (Some m) (apex rr)"
    "tree_at s3 (if D = [] then Some m else hole D) rr"
    "live s3 i" "parent (nd s3 i) = hole C" "left (nd s3 i) = apex l" "tree_at s3 (Some i) l" "path_at s3 C (Some i)"
    "free_at s3 (free_head s) fl" "length (nodes s3) = length (nodes s)" "free_head s3 = free_head s" "stored s3 = stored s"
    "\<And>k. entry (nd s3 k) = entry (nd s k)"
    using det by (simp_all add: detached_def)
  have dC: "distinct (path_ids C)" "m \<notin> set (path_ids C)" "i \<notin> set (path_ids C)" "j \<notin> set (path_ids C)" "m \<noteq> i" "j \<noteq> m"
    "set (ids rr) \<inter> set (path_ids C) = {}" "set (ids l) \<inter> set (path_ids C) = {}" "set (after D) \<inter> set (path_ids C) = {}"
    "set fl \<inter> set (path_ids C) = {}"
    using dist apex_ids [OF l] by auto
  have dm: "m \<notin> set (ids rr)" "m \<notin> set (ids l)" "m \<notin> set (after D)" "m \<notin> set fl" "distinct (ids l)"
    "j \<notin> set (ids rr)" "j \<notin> set (after D)" "j \<notin> set fl"
    using dist apex_ids [OF l] by auto
  have jl: "live s3 j" using tree_at_live [OF d(8) apex_ids [OF l]] .
  define s4 where "s4 = upd m (\<lambda>n. n\<lparr>parent := hole C\<rparr>) (relink C (Some m) s3)"
  have trans: "transplant (Some i) (Some m) s3 = Some s4"
    using transplant_eq [OF d(9) dC(3) d(5,6), of "Some m"] d(1) by (simp add: s4_def put_parent_def)
  have h: "hole C \<noteq> Some m" "hole C \<noteq> Some i" "hole C \<noteq> Some j" using hole_ids dC by blast+
  have s4: "path_at s4 C (Some m)" "tree_at s4 (Some i) l" "tree_at s4 (if D = [] then Some m else hole D) rr"
    "seg_at s4 D (Some m) (apex rr)" "free_at s4 (free_head s) fl" "length (nodes s4) = length (nodes s3)"
    "free_head s4 = free_head s" "stored s4 = stored s"
    using path_at_relink [OF d(9) dC(1)] tree_at_relink [OF d(9)] seg_at_relink [OF d(9) dC(9)] free_at_relink [OF d(9) dC(10)] dC dm d
    by (simp_all add: s4_def store_rules frame_rules)
  have nd4: "nd s4 k = (if k = m then (nd s3 m)\<lparr>parent := hole C\<rparr> else nd (relink C (Some m) s3) k)" for k
    using d(1) nd_relink [OF d(9) h(1)] by (simp add: s4_def store_rules)
  have entry4: "entry (nd s4 k) = entry (nd s k)" for k
    using relink_fields [OF d(9), of "Some m" k] d(14) by (auto simp: nd4)
  define s5 where "s5 = upd j (\<lambda>n. n\<lparr>parent := Some m\<rparr>) (upd m (\<lambda>n. n\<lparr>left := apex l\<rparr>) s4)"
  have nd5: "nd s5 k = (if k = m then (nd s4 m)\<lparr>left := apex l\<rparr> else if k = j then (nd s4 j)\<lparr>parent := Some m\<rparr> else nd s4 k)" for k
    using d(1) jl dC by (simp add: s5_def store_rules s4)
  have s5: "path_at s5 C (Some m)" "tree_at s5 (if D = [] then Some m else hole D) rr" "seg_at s5 D (Some m) (apex rr)"
    "free_at s5 (free_head s) fl" "length (nodes s5) = length (nodes s3)" "free_head s5 = free_head s" "stored s5 = stored s"
    using d(1) jl s4 dC dm by (simp_all add: s5_def store_rules frame_rules)
  have t5: "tree_at s5 (Some m) l" unfolding s5_def
    by (rule tree_at_apex_parent [of _ "Some i"]) (use s4 d(1) dm l in \<open>auto simp: frame_rules\<close>)
  have "\<And>q. base D (apex rr) = Some q \<Longrightarrow> live s3 q"
    using seg_at_live [OF d(3)] base_ids [OF _ _ spine] tree_at_live [OF d(4)] apex_ids [of rr]
    by (metis base.simps(1))
  then obtain g where g: "update_height (Some m) s5 = Some (upd m (\<lambda>n. n\<lparr>height := g\<rparr>) s5)"
    using update_height_link [OF _ _ t5] d(1,2) by (auto simp: s5 nd5 nd4)
  define s6 where "s6 = upd m (\<lambda>n. n\<lparr>height := g\<rparr>) s5"
  have m6: "nd s6 m = (nd s3 m)\<lparr>parent := hole C, left := apex l, height := g\<rparr>" "live s6 m"
    using d(1) by (simp_all add: s6_def store_rules s5 nd5 nd4)
  have s6: "path_at s6 C (Some m)" "tree_at s6 (if D = [] then Some m else hole D) rr" "seg_at s6 D (Some m) (apex rr)"
    "free_at s6 (free_head s) fl" "length (nodes s6) = length (nodes s)" "free_head s6 = free_head s" "stored s6 = stored s"
    "tree_at s6 (Some m) l" and entry6: "entry (nd s6 k) = entry (nd s k)" for k
    using d(1,11) s5 t5 dC dm entry4 by (simp_all add: s6_def store_rules frame_rules nd5)
  have "path_at s6 (D @ RightOf l m # C) (apex rr)"
    using s6 m6 d(2) by (simp add: path_at_append [OF spine])
  moreover have "tree_at s6 (hole (D @ RightOf l m # C)) rr" using s6(2) by (cases "D = []") (simp_all add: hole_path_append)
  moreover have "link_successor (Some i) (Some m) s3 = Some s6"
  proof -
    have "nd s4 i = nd s3 i" using nd_relink [OF d(9) h(2)] dC(5) by (simp add: nd4)
    moreover have "upd j (\<lambda>n. n\<lparr>parent := Some m\<rparr>) (upd m (\<lambda>n. n\<lparr>left := Some j\<rparr>) s4) = s5" by (simp add: s5_def l)
    ultimately show ?thesis using d(1,5,7) jl l by (simp add: link_successor_def trans store_rules s4 g s6_def)
  qed
  ultimately show ?thesis using s6 entry6 by blast
qed

section \<open>Erasure\<close>

lemma erase_two_children:
  assumes repr: "avl_repr s t fl" and plug: "plug C (Bin l i r) = t" and two: "l \<noteq> Tip" "r \<noteq> Tip"
  shows "\<exists>s' u. erase_node (Some i) s = Some s' \<and> avl_repr s' u (i # fl) \<and> ids u = before C @ ids l @ ids r @ after C \<and>
    (\<forall>k. entry (nd s' k) = (if k = i then None else entry (nd s k))) \<and> length (nodes s') = length (nodes s)"
proof -
  have path: "path_at s C (Some i)" "tree_at s (hole C) (Bin l i r)"
    using tree_at_plug [of s C "Bin l i r"] repr by (auto simp: avl_repr_def plug)
  obtain j where l: "apex l = Some j" using two(1) by (cases l) auto
  have n: "live s i" "left (nd s i) = Some j" "right (nd s i) = apex r" "parent (nd s i) = hole C" using path(2) l by simp_all
  obtain ra ri rb where r: "r = Bin ra ri rb" using two(2) by (cases r) auto
  have "tree_at s (Some i) (Bin ra ri rb)" using path(2) r by simp
  from minimum_loop_ok [OF this] obtain D m rr where
    D: "Bin ra ri rb = plug D (Bin Tip m rr)" "before D = []" and loop: "minimum_loop (Some ri) s = Some (Some m)" by blast
  from loop have "minimum (apex r) s = Some (Some m)" by (simp add: minimum_def r)
  with D r have m: "r = plug D (Bin Tip m rr)" "before D = []" "minimum (apex r) s = Some (Some m)" by simp_all
  have ids: "ids r = m # ids rr @ after D" using m by (simp add: ids_plug)
  have dist: "distinct (before C @ ids l @ i # m # ids rr @ after D @ after C @ fl)"
    using repr by (simp add: avl_repr_def plug [symmetric] ids_plug ids)
  let ?D = "\<lambda>k. D @ RightOf l k # C"
  have t: "plug (?D i) (Bin Tip m rr) = t" using m plug by (simp add: plug_append)
  have spath: "path_at s (?D i) (Some m)" "tree_at s (hole (?D i)) (Bin Tip m rr)"
    using tree_at_plug [of s "?D i" "Bin Tip m rr"] repr by (auto simp: avl_repr_def t)
  have mm: "live s m" "parent (nd s m) = (if D = [] then Some i else hole D)" "right (nd s m) = apex rr"
    using spath(2) by (auto simp: hole_path_append)
  have hD: "D \<noteq> [] \<Longrightarrow> hole D \<noteq> Some i" using hole_ids [of D i] m(2) dist by auto
  have free: "free_at s (free_head s) fl" using repr by (simp add: avl_repr_def)
  have "\<exists>s3. (if D \<noteq> [] then detach_successor (Some i) (Some m) s else Some s) = Some s3 \<and> detached s s3 D m rr l i C fl"
  proof (cases "D = []")
    case True
    then show ?thesis using detached_child spath free by simp
  next
    case False
    then show ?thesis using detach_ok [OF spath m(2) False dist free] by simp
  qed
  then obtain s3 where s3: "(if D \<noteq> [] then detach_successor (Some i) (Some m) s else Some s) = Some s3"
    "detached s s3 D m rr l i C fl" by blast
  from replace_ok [OF s3(2) m(2) l dist] obtain s6 where link: "link_successor (Some i) (Some m) s3 = Some s6"
    and s6: "path_at s6 (?D m) (apex rr)" "tree_at s6 (hole (?D m)) rr" "free_at s6 (free_head s) fl"
      "length (nodes s6) = length (nodes s)" "free_head s6 = free_head s" "stored s6 = stored s"
      "\<And>k. entry (nd s6 k) = entry (nd s k)" by blast
  have run: "erase_node (Some i) s =
      do { s \<leftarrow> release_node (Some i) s6; rebalance (if hole (?D m) \<noteq> None then hole (?D m) else apex rr) s }"
  proof -
    have "(parent (nd s m) \<noteq> Some i) = (D \<noteq> [])" using mm(2) hD by auto
    moreover have "hole (?D m) = (if parent (nd s m) \<noteq> Some i then parent (nd s m) else Some m)"
      using mm(2) hD by (auto simp: hole_path_append)
    moreover have "hole (?D m) \<noteq> None" by (cases D rule: hole.cases) (auto simp: hole_path_append)
    ultimately show ?thesis
      using n m(3) mm(1) s3(1) link r by (simp add: erase_node_def store_rules Let_def)
  qed
  have bal: "path_ok (?D m) (depth (Bin Tip m rr))" "balanced rr" "near (depth rr) (depth (Bin Tip m rr))"
    using repr balanced_plug [of "?D i" "Bin Tip m rr"] path_ok_rename [of D l m C _ i]
    by (auto simp: avl_repr_def t near_def)
  have perm: "set (ids t) = insert i (set (ids (plug (?D m) rr)))" "length (ids t) = Suc (length (ids (plug (?D m) rr)))"
    and out: "ids (fixup (?D m) rr) = before C @ ids l @ ids r @ after C"
    by (auto simp: plug [symmetric] ids_plug ids m(2) ids_fixup)
  have dist': "distinct (i # ids (plug (?D m) rr) @ fl)" using dist m(2) by (auto simp: ids_plug)
  have "i \<notin> set (ids (plug (?D m) rr))" "i \<notin> set fl" using dist' by auto
  then have "\<exists>s'. erase_node (Some i) s = Some s' \<and> avl_repr s' (fixup (?D m) rr) (i # fl) \<and>
      (\<forall>k. entry (nd s' k) = (if k = i then None else entry (nd s6 k))) \<and> length (nodes s') = length (nodes s6)"
    unfolding run
    by (intro erase_finish [OF s6(2,1) _ _ _ dist' _ _ _ _ _ bal]) (use repr perm n(1) s6 in \<open>auto simp: avl_repr_def\<close>)
  then show ?thesis using out s6 by auto
qed

lemma erase_node_ok:
  assumes repr: "avl_repr s t fl" and split: "ids t = xs @ i # ys"
  shows "\<exists>s' u. erase_node (Some i) s = Some s' \<and> avl_repr s' u (i # fl) \<and> ids u = xs @ ys \<and>
    (\<forall>k. entry (nd s' k) = (if k = i then None else entry (nd s k))) \<and> length (nodes s') = length (nodes s)"
proof -
  obtain C l r where plug: "plug C (Bin l i r) = t" using ids_split [of i t "[]"] split by auto
  have "distinct (ids t)" using repr by (simp add: avl_repr_def)
  moreover have "ids t = (before C @ ids l) @ i # (ids r @ after C)" by (simp add: plug [symmetric] ids_plug)
  ultimately have eq: "xs = before C @ ids l" "ys = ids r @ after C"
    using split by (metis append_Cons_eq_iff distinct.simps(2) distinct_append not_distinct_conv_prefix)+
  show ?thesis
  proof (cases "l = Tip \<or> r = Tip")
    case True
    have "ids (fixup C (if l = Tip then r else l)) = xs @ ys" using True eq by (auto simp: ids_fixup)
    then show ?thesis using erase_one_child [OF repr plug True] by blast
  next
    case False
    then show ?thesis using erase_two_children [OF repr plug] eq by auto
  qed
qed

end
