(* ===== verification/AvlIterate.thy ===== *)
theory AvlIterate
  imports AvlMap
begin

text \<open>
  Construction and traversal of \<open>avl_tree\<close>: the pool constructor establishes the invariant; the
  iterators, which follow child and parent links, visit the nodes in order in both directions; the
  bound searches return the first node not below, or above, a key.
\<close>

section \<open>The empty tree\<close>

lemma initialise_pool_loop_ok:
  "n \<le> length (nodes s) \<Longrightarrow> free_at s (free_head s) fl \<Longrightarrow> \<forall>i \<in> set fl. n \<le> i \<Longrightarrow> s' = initialise_pool_loop n s \<Longrightarrow>
    free_at s' (free_head s') ([0..<n] @ fl) \<and> length (nodes s') = length (nodes s) \<and> root s' = root s \<and>
    stored s' = stored s \<and> (\<forall>i. entry (nd s' i) = entry (nd s i))"
proof (induction n s arbitrary: fl rule: initialise_pool_loop.induct)
  case (1 s)
  then show ?case by simp
next
  case (2 i s)
  define s1 where "s1 = (upd i (\<lambda>n. n\<lparr>left := free_head s, right := None, parent := None, height := 0, used := False\<rparr>) s)
      \<lparr>free_head := Some i\<rparr>"
  have live: "live s i" using 2(2) by simp
  have step: "initialise_pool_loop (Suc i) s = initialise_pool_loop i s1"
    by (simp add: s1_def upd_def Let_def)
  have "nd s1 k = (if k = i then (nd s i)\<lparr>left := free_head s, right := None, parent := None, height := 0, used := False\<rparr> else nd s k)" for k
    using live by (simp add: s1_def store_rules)
  note nd1 = this
  have sel1: "length (nodes s1) = length (nodes s)" "root s1 = root s" "stored s1 = stored s" "free_head s1 = Some i"
    by (simp_all add: s1_def store_rules)
  have "free_at s1 (free_head s) fl" using 2(3,4) by (subst free_at_cong [of _ s]) (auto simp: sel1 nd1)
  then have free1: "free_at s1 (free_head s1) (i # fl)" using live by (simp add: sel1 nd1)
  have ge: "\<forall>j \<in> set (i # fl). i \<le> j" using 2(4) by auto
  have s1': "(let item = (nodes s ! i)\<lparr>left := free_head s, right := None, parent := None, height := 0, used := False\<rparr>
      in s\<lparr>nodes := (nodes s)[i := item], free_head := Some i\<rparr>) = s1" by (simp add: s1_def upd_def)
  have "free_at s' (free_head s') ([0..<i] @ i # fl) \<and> length (nodes s') = length (nodes s1) \<and> root s' = root s1 \<and>
      stored s' = stored s1 \<and> (\<forall>k. entry (nd s' k) = entry (nd s1 k))"
    using 2(1) [OF refl, of "i # fl"] live free1 ge 2(5) unfolding step by (simp add: s1_def upd_def)
  then show ?case by (simp add: sel1 nd1)
qed

lemma avl_init_repr:
  assumes "N < 2 ^ 32"
  shows "avl_repr (avl_init N :: ('a, 'b) avl) Tip [0..<N]" and "length (nodes (avl_init N :: ('a, 'b) avl)) = N"
proof -
  let ?s = "\<lparr>nodes = replicate N node_init, root = None, free_head = None, stored = 0\<rparr> :: ('a, 'b) avl"
  have "free_at (avl_init N :: ('a, 'b) avl) (free_head (avl_init N :: ('a, 'b) avl)) ([0..<N] @ []) \<and>
      length (nodes (avl_init N :: ('a, 'b) avl)) = length (nodes ?s) \<and> root (avl_init N :: ('a, 'b) avl) = root ?s \<and>
      stored (avl_init N :: ('a, 'b) avl) = stored ?s \<and> (\<forall>i. entry (nd (avl_init N :: ('a, 'b) avl) i) = entry (nd ?s i))"
    by (rule initialise_pool_loop_ok) (simp_all add: avl_init_def initialise_pool_def)
  then show "avl_repr (avl_init N :: ('a, 'b) avl) Tip [0..<N]" "length (nodes (avl_init N :: ('a, 'b) avl)) = N"
    using assms by (auto simp: avl_repr_def nd_def node_init_def)
qed

lemma avl_inv_init: "N < 2 ^ 32 \<Longrightarrow> avl_inv lt (avl_init N)"
  using avl_init_repr [of N] by (auto simp: avl_inv_def ordered_def intro!: exI)

lemma look_init:
  assumes "N < 2 ^ 32"
  shows "avl_look lt (avl_init N :: ('a, 'b) avl) = (\<lambda>_. None)"
proof -
  have "e \<notin> set (pool_entries (avl_init N :: ('a, 'b) avl))" for e
    using pool_set [OF avl_init_repr(1) [OF assms], of e] by simp
  then have "pool_entries (avl_init N :: ('a, 'b) avl) = []" by (metis list.set_intros(1) neq_Nil_conv)
  then show ?thesis by (simp add: avl_look_def fun_eq_iff)
qed

lemma size_init: "N < 2 ^ 32 \<Longrightarrow> avl_size (avl_init N) = 0 \<and> avl_capacity (avl_init N) = N"
  using avl_init_repr [of N] by (auto simp: avl_size_def avl_capacity_def avl_repr_def)

section \<open>Iterators\<close>

lemma climb_right_ok:
  "path_at s C (Some i) \<Longrightarrow> i \<notin> set (path_ids C) \<Longrightarrow> distinct (path_ids C) \<Longrightarrow>
    climb_right (Some i) (hole C) s = Some (case after C of [] \<Rightarrow> None | j # _ \<Rightarrow> Some j)"
proof (induction C arbitrary: i rule: before.induct)
  case 1
  then show ?case by (subst climb_right.simps) simp
next
  case (2 j r C)
  then have "apex r \<noteq> Some i" using apex_ids by auto
  with 2 show ?case by (subst climb_right.simps) (auto simp: store_rules)
next
  case (3 l j C)
  then have "climb_right (Some j) (hole C) s = Some (case after C of [] \<Rightarrow> None | j # _ \<Rightarrow> Some j)" by auto
  with 3 show ?case by (subst climb_right.simps) (simp add: store_rules)
qed

lemma successor_ok:
  assumes repr: "avl_repr s t fl" and split: "ids t = xs @ i # ys"
  shows "successor (Some i) s = Some (case ys of [] \<Rightarrow> None | j # _ \<Rightarrow> Some j)"
proof -
  obtain C l r where plug: "plug C (Bin l i r) = t" using ids_split [of i t "[]"] split by auto
  have dist: "distinct (ids t)" using repr by (simp add: avl_repr_def)
  have idt: "ids t = (before C @ ids l) @ i # (ids r @ after C)" by (simp add: plug [symmetric] ids_plug)
  have ys: "ys = ids r @ after C"
    using split dist idt by (metis append_Cons_eq_iff distinct.simps(2) distinct_append not_distinct_conv_prefix)
  have path: "path_at s C (Some i)" "tree_at s (hole C) (Bin l i r)"
    using tree_at_plug [of s C "Bin l i r"] repr by (auto simp: avl_repr_def plug)
  show ?thesis
  proof (cases r)
    case Tip
    have "i \<notin> set (path_ids C)" "distinct (path_ids C)" using dist by (auto simp: idt)
    from climb_right_ok [OF path(1) this] show ?thesis
      using path(2) by (simp add: successor_def store_rules Tip ys)
  next
    case (Bin rl j rr)
    then have "tree_at s (Some i) (Bin rl j rr)" using path(2) by simp
    from minimum_loop_ok [OF this] obtain D m u where
      m: "Bin rl j rr = plug D (Bin Tip m u)" "before D = []" "minimum_loop (Some j) s = Some (Some m)" by blast
    then have "ids r = m # ids u @ after D" unfolding Bin m(1) by (simp add: ids_plug)
    then show ?thesis using path(2) m(3) by (simp add: successor_def store_rules Bin ys)
  qed
qed

lemma climb_left_ok:
  "path_at s C (Some i) \<Longrightarrow> i \<notin> set (path_ids C) \<Longrightarrow> distinct (path_ids C) \<Longrightarrow>
    climb_left (Some i) (hole C) s = Some (if before C = [] then None else Some (last (before C)))"
proof (induction C arbitrary: i rule: before.induct)
  case 1
  then show ?case by (subst climb_left.simps) simp
next
  case (2 j r C)
  have "climb_left (Some j) (hole C) s = Some (if before C = [] then None else Some (last (before C)))"
    by (rule 2(1)) (use 2(2-) in auto)
  with 2 show ?case by (subst climb_left.simps) (simp add: store_rules)
next
  case (3 l j C)
  then have "apex l \<noteq> Some i" using apex_ids by auto
  with 3 show ?case by (subst climb_left.simps) (auto simp: store_rules)
qed

lemma maximum_loop_ok:
  "tree_at s par (Bin l i r) \<Longrightarrow> maximum_loop (Some i) s = Some (Some (last (ids (Bin l i r))))"
proof (induction r arbitrary: l i par)
  case Tip
  then show ?case by (subst maximum_loop.simps) (simp add: store_rules)
next
  case (Bin l' j r)
  have "tree_at s (Some i) (Bin l' j r)" using Bin.prems by simp
  from Bin.IH(2) [OF this] Bin.prems show ?case by (subst maximum_loop.simps) (simp add: store_rules)
qed

lemma predecessor_ok:
  assumes repr: "avl_repr s t fl" and split: "ids t = xs @ i # ys"
  shows "predecessor (Some i) s = Some (if xs = [] then None else Some (last xs))"
proof -
  obtain C l r where plug: "plug C (Bin l i r) = t" using ids_split [of i t "[]"] split by auto
  have dist: "distinct (ids t)" using repr by (simp add: avl_repr_def)
  have idt: "ids t = (before C @ ids l) @ i # (ids r @ after C)" by (simp add: plug [symmetric] ids_plug)
  have xs: "xs = before C @ ids l"
    using split dist idt by (metis append_Cons_eq_iff distinct.simps(2) distinct_append not_distinct_conv_prefix)
  have path: "path_at s C (Some i)" "tree_at s (hole C) (Bin l i r)"
    using tree_at_plug [of s C "Bin l i r"] repr by (auto simp: avl_repr_def plug)
  show ?thesis
  proof (cases l)
    case Tip
    have "i \<notin> set (path_ids C)" "distinct (path_ids C)" using dist by (auto simp: idt)
    from climb_left_ok [OF path(1) this] show ?thesis
      using path(2) by (simp add: predecessor_def store_rules Tip xs)
  next
    case (Bin ll j lr)
    then have "tree_at s (Some i) (Bin ll j lr)" using path(2) by simp
    from maximum_loop_ok [OF this] show ?thesis
      using path(2) by (simp add: predecessor_def store_rules Bin xs)
  qed
qed

text \<open>The loop \<open>for (it = begin(); it != end(); ++it)\<close>, collecting what the iterator refers to.\<close>

partial_function (option) traverse :: "node_ptr \<Rightarrow> ('k, 'v) avl \<Rightarrow> ('k \<times> 'v) list option" where
  "traverse it s =
     (if it = None then Some []
      else do { e \<leftarrow> node_value it s; it \<leftarrow> successor it s; es \<leftarrow> traverse it s; Some (e # es) })"

lemma traverse_ok:
  "avl_repr s t fl \<Longrightarrow> ids t = xs @ ys \<Longrightarrow>
    traverse (case ys of [] \<Rightarrow> None | i # _ \<Rightarrow> Some i) s = Some (map (\<lambda>i. the (entry (nd s i))) ys)"
proof (induction ys arbitrary: xs)
  case Nil
  then show ?case by (subst traverse.simps) simp
next
  case (Cons i ys)
  have "successor (Some i) s = Some (case ys of [] \<Rightarrow> None | j # _ \<Rightarrow> Some j)" by (rule successor_ok) (use Cons.prems in auto)
  moreover have "i \<in> set (ids t)" using Cons.prems(2) by simp
  then have "entry (nd s i) \<noteq> None" "live s i" using Cons.prems(1) tree_at_live by (auto simp: avl_repr_def)
  then obtain e where "entry (nd s i) = Some e" "live s i" by blast
  moreover have "traverse (case ys of [] \<Rightarrow> None | j # _ \<Rightarrow> Some j) s = Some (map (\<lambda>i. the (entry (nd s i))) ys)"
    using Cons.IH [of "xs @ [i]"] Cons.prems by simp
  ultimately show ?case by (subst traverse.simps) (simp add: node_value_def store_rules)
qed

lemma begin_ok:
  assumes "avl_repr s t fl"
  shows "avl_begin s = Some (case ids t of [] \<Rightarrow> None | i # _ \<Rightarrow> Some i)"
proof (cases t)
  case Tip
  then show ?thesis using assms by (simp add: avl_begin_def minimum_def avl_repr_def)
next
  case (Bin l i r)
  then have "tree_at s None (Bin l i r)" using assms by (simp add: avl_repr_def)
  from minimum_loop_ok [OF this] obtain D m u where
    m: "Bin l i r = plug D (Bin Tip m u)" "before D = []" "minimum_loop (Some i) s = Some (Some m)" by blast
  then have "ids t = m # ids u @ after D" unfolding Bin m(1) by (simp add: ids_plug)
  then show ?thesis using assms m(3) by (simp add: avl_begin_def minimum_def avl_repr_def Bin)
qed

section \<open>Bounds\<close>

definition first_of :: "('a \<Rightarrow> bool) \<Rightarrow> 'a list \<Rightarrow> 'a option \<Rightarrow> 'a option" where
  "first_of P xs d = (case dropWhile (\<lambda>x. \<not> P x) xs of [] \<Rightarrow> d | x # _ \<Rightarrow> Some x)"

lemma first_of_append: "first_of P (xs @ ys) d = first_of P xs (first_of P ys d)"
  by (induction xs) (auto simp: first_of_def)

lemma first_of_none: "\<forall>x \<in> set xs. \<not> P x \<Longrightarrow> first_of P xs d = d"
  by (induction xs) (auto simp: first_of_def)

lemma first_of_Cons: "first_of P (x # xs) d = (if P x then Some x else first_of P xs d)"
  by (simp add: first_of_def)

context strict_weak_order
begin

lemma lower_bound_loop_ok:
  "tree_at s par t \<Longrightarrow> \<forall>i \<in> set (ids t). entry (nd s i) \<noteq> None \<Longrightarrow> ordered lt s (ids t) \<Longrightarrow>
    lower_bound_loop lt k (apex t) result s = Some (first_of (\<lambda>i. \<not> lt (key_of s i) k) (ids t) result)"
proof (induction t arbitrary: par result)
  case Tip
  then show ?case by (subst lower_bound_loop.simps) (simp add: first_of_def)
next
  case (Bin l i r)
  obtain ki v where e: "entry (nd s i) = Some (ki, v)" using Bin.prems(2) by auto
  then have ki: "ki = key_of s i" by (simp add: key_of_def)
  have ord: "ordered lt s (ids l)" "ordered lt s (ids r)" "\<forall>a \<in> set (ids l). lt (key_of s a) ki"
    using Bin.prems(3) unfolding ordered_Bin ki by blast+
  have pre: "tree_at s (Some i) l" "\<forall>j \<in> set (ids l). entry (nd s j) \<noteq> None"
    "tree_at s (Some i) r" "\<forall>j \<in> set (ids r). entry (nd s j) \<noteq> None" using Bin.prems(1,2) by simp_all
  have step: "lower_bound_loop lt k (Some i) result s = (if lt ki k then lower_bound_loop lt k (apex r) result s
      else lower_bound_loop lt k (apex l) (Some i) s)"
    using Bin.prems(1) e by (subst lower_bound_loop.simps) (simp add: store_rules)
  show ?case
  proof (cases "lt ki k")
    case True
    then have "\<forall>a \<in> set (ids l). \<not> \<not> lt (key_of s a) k" using ord(3) lt_trans by blast
    then show ?thesis
      using True Bin.IH(2) [OF pre(3,4) ord(2)] by (simp add: step first_of_append first_of_Cons first_of_none ki [symmetric])
  next
    case False
    then show ?thesis
      using Bin.IH(1) [OF pre(1,2) ord(1)] by (simp add: step first_of_append first_of_Cons ki [symmetric])
  qed
qed

lemma upper_bound_loop_ok:
  "tree_at s par t \<Longrightarrow> \<forall>i \<in> set (ids t). entry (nd s i) \<noteq> None \<Longrightarrow> ordered lt s (ids t) \<Longrightarrow>
    upper_bound_loop lt k (apex t) result s = Some (first_of (\<lambda>i. lt k (key_of s i)) (ids t) result)"
proof (induction t arbitrary: par result)
  case Tip
  then show ?case by (subst upper_bound_loop.simps) (simp add: first_of_def)
next
  case (Bin l i r)
  obtain ki v where e: "entry (nd s i) = Some (ki, v)" using Bin.prems(2) by auto
  then have ki: "ki = key_of s i" by (simp add: key_of_def)
  have ord: "ordered lt s (ids l)" "ordered lt s (ids r)" "\<forall>a \<in> set (ids l). lt (key_of s a) ki"
    using Bin.prems(3) unfolding ordered_Bin ki by blast+
  have pre: "tree_at s (Some i) l" "\<forall>j \<in> set (ids l). entry (nd s j) \<noteq> None"
    "tree_at s (Some i) r" "\<forall>j \<in> set (ids r). entry (nd s j) \<noteq> None" using Bin.prems(1,2) by simp_all
  have step: "upper_bound_loop lt k (Some i) result s = (if lt k ki then upper_bound_loop lt k (apex l) (Some i) s
      else upper_bound_loop lt k (apex r) result s)"
    using Bin.prems(1) e by (subst upper_bound_loop.simps) (simp add: store_rules)
  show ?case
  proof (cases "lt k ki")
    case True
    then show ?thesis
      using Bin.IH(1) [OF pre(1,2) ord(1)] by (simp add: step first_of_append first_of_Cons ki [symmetric])
  next
    case False
    then have "\<forall>a \<in> set (ids l). \<not> lt k (key_of s a)" using ord(3) lt_trans by blast
    then show ?thesis
      using False Bin.IH(2) [OF pre(3,4) ord(2)] by (simp add: step first_of_append first_of_Cons first_of_none ki [symmetric])
  qed
qed

end

end
