(* ===== verification/AvlClear.thy ===== *)
theory AvlClear
  imports AvlIterate
begin

text \<open>
  \<open>avl_tree::clear\<close>.  The loop walks the tree with the iterator while it releases the nodes behind it.  Releasing
  a node resets its \<open>right\<close> link, so the climb out of a right subtree no longer recognises the child it comes
  from and returns to the released parent: the loop works exactly on the trees without a right child, and meets an
  object it has destroyed already on all others.
\<close>

section \<open>Iterations of the loop\<close>

text \<open>The position and the store after \<open>k\<close> iterations.\<close>

fun clear_steps :: "nat \<Rightarrow> node_ptr \<Rightarrow> ('k, 'v) avl \<Rightarrow> (node_ptr \<times> ('k, 'v) avl) option" where
  "clear_steps 0 current s = Some (current, s)"
| "clear_steps (Suc k) current s =
     (if current = None then None
      else do { after \<leftarrow> successor current s; s \<leftarrow> release_node current s; clear_steps k after s })"

lemma clear_steps_append:
  "clear_steps k p s = Some (q, s') \<Longrightarrow> clear_steps (k + n) p s = clear_steps n q s'"
  by (induction k arbitrary: p s) (auto simp: bind_eq_Some_conv split: if_splits)

lemma clear_loop_steps: "clear_steps k p s = Some (q, s') \<Longrightarrow> clear_loop p s = clear_loop q s'"
proof (induction k arbitrary: p s)
  case (Suc k)
  then show ?case by (subst clear_loop.simps) (auto simp: bind_eq_Some_conv split: if_splits)
qed simp

lemma clear_loop_destroyed:
  assumes "live s i" and "entry (nd s i) = None"
  shows "clear_loop (Some i) s = None"
proof -
  have "release_node (Some i) s = None"
    using assms by (simp add: release_node_def destroy_at_def node_value_def store_rules)
  then show ?thesis by (subst clear_loop.simps) (simp split: option.splits add: bind_eq_None_conv)
qed

section \<open>Walking one subtree\<close>

fun left_only :: "shape \<Rightarrow> bool" where
  "left_only Tip = True"
| "left_only (Bin l i r) \<longleftrightarrow> left_only l \<and> r = Tip"

text \<open>The stores agree but on the nodes of a set.\<close>

definition agrees :: "nat set \<Rightarrow> ('k, 'v) avl \<Rightarrow> ('k, 'v) avl \<Rightarrow> bool" where
  "agrees A s s' \<longleftrightarrow> length (nodes s') = length (nodes s) \<and> (\<forall>j. j \<notin> A \<longrightarrow> nd s' j = nd s j)"

lemma agrees_trans: "agrees A s s1 \<Longrightarrow> agrees B s1 s2 \<Longrightarrow> A \<union> B \<subseteq> D \<Longrightarrow> agrees D s s2"
  unfolding agrees_def by (metis UnCI subsetD)

lemma agrees_released: "live s i \<Longrightarrow> agrees {i} s (released i s)"
  by (auto simp: agrees_def released_def store_rules)

lemma nd_released:
  "live s i \<Longrightarrow> right (nd (released i s) i) = None \<and> entry (nd (released i s) i) = None"
  by (simp add: released_def store_rules)

lemma step_released:
  assumes "live s i" and "entry (nd s i) \<noteq> None" and "successor (Some i) s = Some q"
  shows "clear_steps (Suc 0) (Some i) s = Some (q, released i s)"
  using release_ok [OF assms(1,2)] assms(3) by simp

text \<open>Where the loop is when it has walked a subtree: on the way up with all its objects destroyed, or, as soon as
  the subtree has a right child, at a node whose object is gone.\<close>

definition walks :: "shape \<Rightarrow> node_ptr \<Rightarrow> ('k, 'v) avl \<Rightarrow> bool" where
  "walks t q s \<longleftrightarrow> (\<exists>k p s'. clear_steps k (Some (hd (ids t))) s = Some (p, s') \<and> agrees (set (ids t)) s s' \<and>
     (if left_only t then p = q \<and> (\<forall>j \<in> set (ids t). entry (nd s' j) = None)
      else \<exists>i \<in> set (ids t). p = Some i \<and> entry (nd s' i) = None))"

lemma ids_not_Nil: "t \<noteq> Tip \<Longrightarrow> ids t \<noteq> []"
  by (cases t) auto

lemma minimum_loop_first:
  "tree_at s par t \<Longrightarrow> t \<noteq> Tip \<Longrightarrow> minimum_loop (apex t) s = Some (Some (hd (ids t)))"
proof (cases t)
  case (Bin l i r)
  assume "tree_at s par t"
  from minimum_loop_ok [OF this [unfolded Bin]] obtain D m u where
    m: "Bin l i r = plug D (Bin Tip m u)" "before D = []" "minimum_loop (Some i) s = Some (Some m)" by blast
  then have "ids t = m # ids u @ after D" unfolding Bin m(1) by (simp add: ids_plug)
  then show ?thesis using m(3) by (simp add: Bin)
qed simp

lemma walks_subtree:
  assumes "tree_at s par t" "t \<noteq> Tip" "distinct (ids t)" "\<forall>i \<in> set (ids t). entry (nd s i) \<noteq> None"
    and "\<And>s'. agrees (set (ids t)) s s' \<Longrightarrow> climb_right (apex t) par s' = Some q"
  shows "walks t q s"
  using assms
proof (induction t arbitrary: par q s)
  case Tip
  then show ?case by simp
next
  case (Bin l i r)
  have i: "live s i" "right (nd s i) = apex r" "entry (nd s i) \<noteq> None" "parent (nd s i) = par"
    and l: "tree_at s (Some i) l" and r: "tree_at s (Some i) r" using Bin.prems by simp_all
  have dist: "distinct (ids l)" "distinct (ids r)" "i \<notin> set (ids l)" "i \<notin> set (ids r)" "set (ids l) \<inter> set (ids r) = {}"
    using Bin.prems(3) by auto
  have "\<exists>k p s1. clear_steps k (Some (hd (ids (Bin l i r)))) s = Some (p, s1) \<and> agrees (set (ids l)) s s1 \<and>
      (if left_only l then p = Some i \<and> (\<forall>j \<in> set (ids l). entry (nd s1 j) = None)
       else \<exists>j \<in> set (ids l). p = Some j \<and> entry (nd s1 j) = None)"
  proof (cases "l = Tip")
    case True
    then show ?thesis by (intro exI [of _ 0] exI [of _ "Some i"] exI [of _ s]) (simp add: agrees_def)
  next
    case False
    have "walks l (Some i) s"
    proof (rule Bin.IH(1) [OF l False dist(1)])
      fix s' assume "agrees (set (ids l)) s s'"
      then have "live s' i" "nd s' i = nd s i" using i dist(3) by (simp_all add: agrees_def)
      moreover have "apex l \<noteq> apex r" using dist(5) apex_ids [of l] apex_ids [of r] False by (cases l) auto
      ultimately show "climb_right (apex l) (Some i) s' = Some (Some i)"
        using i by (subst climb_right.simps) (simp add: store_rules)
    qed (use Bin.prems(4) in simp)
    moreover have "hd (ids (Bin l i r)) = hd (ids l)" using ids_not_Nil [OF False] by simp
    ultimately show ?thesis by (simp add: walks_def)
  qed
  then obtain k p s1 where k: "clear_steps k (Some (hd (ids (Bin l i r)))) s = Some (p, s1)" and s1: "agrees (set (ids l)) s s1"
    and p: "if left_only l then p = Some i \<and> (\<forall>j \<in> set (ids l). entry (nd s1 j) = None)
       else \<exists>j \<in> set (ids l). p = Some j \<and> entry (nd s1 j) = None" by blast
  have i1: "live s1 i" "nd s1 i = nd s i" using s1 i dist(3) by (simp_all add: agrees_def)
  show ?case
  proof (cases "left_only l")
    case False
    with k p s1 show ?thesis unfolding walks_def
      by (intro exI [of _ k] exI [of _ p] exI [of _ s1]) (auto simp: agrees_def)
  next
    case left: True
    then have kp: "clear_steps k (Some (hd (ids (Bin l i r)))) s = Some (Some i, s1)" using k p by simp
    have gone: "\<forall>j \<in> set (ids l). entry (nd s1 j) = None" using left p by simp
    let ?s2 = "released i s1"
    have s2: "agrees (insert i (set (ids l))) s ?s2"
      by (rule agrees_trans [OF s1 agrees_released]) (use i1 in auto)
    show ?thesis
    proof (cases "r = Tip")
      case True
      have "climb_right (Some i) par s1 = Some q" using Bin.prems(5) [of s1] s1 by (auto simp: agrees_def)
      then have "successor (Some i) s1 = Some q" using i i1 True by (simp add: successor_def store_rules)
      from step_released [OF i1(1) _ this] have "clear_steps (Suc 0) (Some i) s1 = Some (q, ?s2)" using i1 i by simp
      with clear_steps_append [OF kp, of "Suc 0"]
      have "clear_steps (k + Suc 0) (Some (hd (ids (Bin l i r)))) s = Some (q, ?s2)" by simp
      moreover have "entry (nd ?s2 j) = None" if "j \<in> set (ids (Bin l i r))" for j
        using that gone agrees_released [OF i1(1)] nd_released [OF i1(1)] dist True by (auto simp: agrees_def)
      ultimately show ?thesis unfolding walks_def using left True s2
        by (intro exI [of _ "k + Suc 0"] exI [of _ q] exI [of _ ?s2]) simp
    next
      case False
      have "tree_at s1 (Some i) r = tree_at s (Some i) r" "tree_at ?s2 (Some i) r = tree_at s (Some i) r"
        using s1 s2 dist by (auto simp: agrees_def intro!: tree_at_cong)
      with r have r12: "tree_at s1 (Some i) r" "tree_at ?s2 (Some i) r" by simp_all
      have "right (nd s1 i) \<noteq> None" using i i1 False by (cases r) simp_all
      then have "successor (Some i) s1 = Some (Some (hd (ids r)))"
        using i i1 minimum_loop_first [OF r12(1) False] by (simp add: successor_def store_rules)
      from step_released [OF i1(1) _ this] have step: "clear_steps (Suc 0) (Some i) s1 = Some (Some (hd (ids r)), ?s2)"
        using i1 i by simp
      have "walks r (Some i) ?s2"
      proof (rule Bin.IH(2) [OF r12(2) False dist(2)])
        show "\<forall>j \<in> set (ids r). entry (nd ?s2 j) \<noteq> None" using s2 dist Bin.prems(4) by (auto simp: agrees_def)
        fix s' assume a: "agrees (set (ids r)) ?s2 s'"
        then have "live s' i" "nd s' i = nd ?s2 i" using i1 dist(4) s2 by (simp_all add: agrees_def released_def store_rules)
        moreover have "apex r \<noteq> None" using False by (cases r) simp_all
        ultimately show "climb_right (apex r) (Some i) s' = Some (Some i)"
          using nd_released [OF i1(1)] by (subst climb_right.simps) (simp add: store_rules)
      qed
      then obtain k' p' s3 where k': "clear_steps k' (Some (hd (ids r))) ?s2 = Some (p', s3)" "agrees (set (ids r)) ?s2 s3"
        and p'': "if left_only r then p' = Some i \<and> (\<forall>j \<in> set (ids r). entry (nd s3 j) = None)
          else \<exists>j \<in> set (ids r). p' = Some j \<and> entry (nd s3 j) = None"
        unfolding walks_def by blast
      then have p': "p' = Some i \<or> (\<exists>j \<in> set (ids r). p' = Some j \<and> entry (nd s3 j) = None)" by (auto split: if_splits)
      have "clear_steps (k + Suc k') (Some (hd (ids (Bin l i r)))) s = Some (p', s3)"
        using clear_steps_append [OF kp, of "Suc k'"] clear_steps_append [OF step, of k'] k'(1) by simp
      moreover have "agrees (set (ids (Bin l i r))) s s3" by (rule agrees_trans [OF s2 k'(2)]) auto
      moreover have "entry (nd s3 i) = None" using k'(2) dist(4) nd_released [OF i1(1)] by (simp add: agrees_def)
      ultimately show ?thesis unfolding walks_def using False p'
        by (intro exI [of _ "k + Suc k'"] exI [of _ p'] exI [of _ s3]) (auto split: if_splits)
    qed
  qed
qed

section \<open>The whole tree\<close>

lemma left_only_iff: "tree_at s par t \<Longrightarrow> left_only t \<longleftrightarrow> (\<forall>i \<in> set (ids t). right (nd s i) = None)"
proof (induction t arbitrary: par)
  case (Bin l i r)
  then show ?case by (cases r) auto
qed simp

lemma left_only_small: "balanced t \<Longrightarrow> left_only t \<Longrightarrow> length (ids t) \<le> 2"
proof (cases t)
  case (Bin l i r)
  moreover assume "balanced t" "left_only t"
  ultimately show ?thesis by (cases l; cases "case l of Bin l' j r' \<Rightarrow> l'") auto
qed simp

lemma repr_walks:
  assumes "avl_repr s t fl" and "t \<noteq> Tip"
  shows "walks t None s"
proof (rule walks_subtree [OF _ assms(2)])
  show "tree_at s None t" "distinct (ids t)" "\<forall>i \<in> set (ids t). entry (nd s i) \<noteq> None"
    using assms(1) by (simp_all add: avl_repr_def)
  show "climb_right (apex t) None s' = Some None" for s' :: "('a, 'b) avl" by (subst climb_right.simps) simp
qed

lemma initialised_repr:
  assumes "\<forall>i < length (nodes s). entry (nd s i) = None" and "length (nodes s) < 2 ^ 32"
  shows "avl_repr (initialise_pool (s\<lparr>root := None, stored := 0\<rparr>)) Tip [0..<length (nodes s)]"
proof -
  let ?s = "s\<lparr>root := None, stored := 0, free_head := None\<rparr>"
  have "free_at (initialise_pool_loop (length (nodes s)) ?s) (free_head (initialise_pool_loop (length (nodes s)) ?s))
        ([0..<length (nodes s)] @ []) \<and>
      length (nodes (initialise_pool_loop (length (nodes s)) ?s)) = length (nodes ?s) \<and>
      root (initialise_pool_loop (length (nodes s)) ?s) = root ?s \<and>
      stored (initialise_pool_loop (length (nodes s)) ?s) = stored ?s \<and>
      (\<forall>i. entry (nd (initialise_pool_loop (length (nodes s)) ?s) i) = entry (nd ?s i))"
    by (rule initialise_pool_loop_ok) simp_all
  then show ?thesis using assms by (auto simp: avl_repr_def initialise_pool_def store_rules)
qed

lemma empty_repr:
  assumes "avl_repr s Tip fl"
  shows "avl_inv lt s" and "avl_look lt s = (\<lambda>_. None)" and "avl_size s = 0"
proof -
  show "avl_inv lt s" "avl_size s = 0" using assms by (auto simp: avl_inv_def avl_size_def avl_repr_def ordered_def)
  have "e \<notin> set (pool_entries s)" for e using pool_set [OF assms, of e] by simp
  then have "pool_entries s = []" by (metis list.set_intros(1) neq_Nil_conv)
  then show "avl_look lt s = (\<lambda>_. None)" by (simp add: avl_look_def fun_eq_iff)
qed

lemma clear_ok:
  assumes "avl_repr s t fl" and "left_only t"
  shows "\<exists>s' fl'. avl_clear s = Some s' \<and> avl_repr s' Tip fl' \<and> length (nodes s') = length (nodes s)"
proof -
  have "\<exists>p s1. minimum (root s) s = Some p \<and> clear_loop p s = Some s1 \<and> length (nodes s1) = length (nodes s) \<and>
      (\<forall>i < length (nodes s). entry (nd s1 i) = None)"
  proof (cases "t = Tip")
    case True
    with assms(1) have "root s = None" "\<forall>i < length (nodes s). entry (nd s i) = None" by (auto simp: avl_repr_def)
    then show ?thesis by (intro exI [of _ None] exI [of _ s]) (simp add: minimum_def clear_loop.simps)
  next
    case False
    from repr_walks [OF assms(1) False] assms(2) obtain k s1 where
      k: "clear_steps k (Some (hd (ids t))) s = Some (None, s1)" and s1: "agrees (set (ids t)) s s1" "\<forall>j \<in> set (ids t). entry (nd s1 j) = None"
      unfolding walks_def by auto
    have "tree_at s None t" "root s = apex t" "apex t \<noteq> None" using assms(1) False by (cases t; simp add: avl_repr_def)+
    with minimum_loop_first [OF _ False] have "minimum (root s) s = Some (Some (hd (ids t)))" by (auto simp: minimum_def)
    moreover have "clear_loop (Some (hd (ids t))) s = Some s1" using clear_loop_steps [OF k] by (simp add: clear_loop.simps)
    moreover have "entry (nd s1 i) = None" if "i < length (nodes s)" for i
    proof (cases "i \<in> set (ids t)")
      case no: False
      with that assms(1) have "i \<in> set fl" by (auto simp: avl_repr_def)
      with assms(1) no s1(1) show ?thesis by (simp add: avl_repr_def agrees_def)
    qed (use s1 in blast)
    ultimately show ?thesis using s1(1) by (auto simp: agrees_def)
  qed
  then obtain p s1 where p: "minimum (root s) s = Some p" "clear_loop p s = Some s1"
    and s1: "length (nodes s1) = length (nodes s)" "\<forall>i < length (nodes s). entry (nd s1 i) = None" by blast
  have "avl_repr (initialise_pool (s1\<lparr>root := None, stored := 0\<rparr>)) Tip [0..<length (nodes s1)]"
    by (rule initialised_repr) (use s1 assms(1) in \<open>simp_all add: avl_repr_def\<close>)
  moreover from repr_length [OF this] have "length (nodes (initialise_pool (s1\<lparr>root := None, stored := 0\<rparr>))) = length (nodes s)"
    using s1 by simp
  ultimately show ?thesis using p by (auto simp: avl_clear_def)
qed

lemma clear_fails:
  assumes "avl_repr s t fl" and "\<not> left_only t"
  shows "avl_clear s = None" and "\<exists>p k i s'. avl_begin s = Some p \<and> clear_steps k p s = Some (Some i, s') \<and>
      i \<in> set (ids t) \<and> entry (nd s' i) = None"
proof -
  have ne: "t \<noteq> Tip" using assms(2) by auto
  from repr_walks [OF assms(1) ne] assms(2) obtain k i s1 where
    k: "clear_steps k (Some (hd (ids t))) s = Some (Some i, s1)" and s1: "agrees (set (ids t)) s s1" "i \<in> set (ids t)" "entry (nd s1 i) = None"
    unfolding walks_def by auto
  have t: "tree_at s None t" "root s = apex t" "apex t \<noteq> None" using assms(1) ne by (cases t; simp add: avl_repr_def)+
  with minimum_loop_first [OF _ ne] have m: "minimum (root s) s = Some (Some (hd (ids t)))" by (auto simp: minimum_def)
  have "live s1 i" using tree_at_live [OF t(1) s1(2)] s1(1) by (simp add: agrees_def)
  then have "clear_loop (Some (hd (ids t))) s = None" using clear_loop_steps [OF k] clear_loop_destroyed s1(3) by simp
  with m show "avl_clear s = None" by (simp add: avl_clear_def)
  show "\<exists>p k i s'. avl_begin s = Some p \<and> clear_steps k p s = Some (Some i, s') \<and> i \<in> set (ids t) \<and> entry (nd s' i) = None"
    using k s1 m by (auto simp: avl_begin_def)
qed

end
