(* ===== verification/OrderedMap.thy ===== *)
theory OrderedMap
  imports AvlClear
begin

text \<open>
  \<open>castle::container::map\<close> (\<open>container/map.hpp\<close>) and \<open>castle::container::set\<close> (\<open>container/set.hpp\<close>): the
  classes that delegate to \<open>avl_tree\<close>, and what the whole stack promises.  The default comparator and
  every strict weak order are covered; a set is a map to the empty struct.
\<close>

section \<open>Operations\<close>

definition map_init :: "nat \<Rightarrow> ('k, 'v) avl" where
  "map_init N = avl_init N"

definition map_insert :: "('k \<Rightarrow> 'k \<Rightarrow> bool) \<Rightarrow> 'k \<Rightarrow> 'v \<Rightarrow> ('k, 'v) avl \<Rightarrow> (status \<times> ('k, 'v) avl) option" where
  "map_insert lt key v m = avl_insert lt key v m"

definition map_try_emplace :: "('k \<Rightarrow> 'k \<Rightarrow> bool) \<Rightarrow> 'k \<Rightarrow> 'v \<Rightarrow> ('k, 'v) avl \<Rightarrow> (status \<times> ('k, 'v) avl) option" where
  "map_try_emplace lt key v m = avl_emplace lt key v m"

definition map_get :: "('k \<Rightarrow> 'k \<Rightarrow> bool) \<Rightarrow> 'k \<Rightarrow> ('k, 'v) avl \<Rightarrow> 'v option option" where
  "map_get lt key m = mapped lt key m"

definition map_contains :: "('k \<Rightarrow> 'k \<Rightarrow> bool) \<Rightarrow> 'k \<Rightarrow> ('k, 'v) avl \<Rightarrow> bool option" where
  "map_contains lt key m = avl_contains lt key m"

definition map_erase :: "('k \<Rightarrow> 'k \<Rightarrow> bool) \<Rightarrow> 'k \<Rightarrow> ('k, 'v) avl \<Rightarrow> (status \<times> ('k, 'v) avl) option" where
  "map_erase lt key m = avl_erase lt key m"

definition map_erase_at :: "node_ptr \<Rightarrow> ('k, 'v) avl \<Rightarrow> (node_ptr \<times> ('k, 'v) avl) option" where
  "map_erase_at position m = avl_erase_at position m"

definition map_lower_bound :: "('k \<Rightarrow> 'k \<Rightarrow> bool) \<Rightarrow> 'k \<Rightarrow> ('k, 'v) avl \<Rightarrow> node_ptr option" where
  "map_lower_bound lt key m = lower_bound lt key m"

definition map_upper_bound :: "('k \<Rightarrow> 'k \<Rightarrow> bool) \<Rightarrow> 'k \<Rightarrow> ('k, 'v) avl \<Rightarrow> node_ptr option" where
  "map_upper_bound lt key m = upper_bound lt key m"

definition map_begin :: "('k, 'v) avl \<Rightarrow> node_ptr option" where
  "map_begin m = avl_begin m"

definition map_clear :: "('k, 'v) avl \<Rightarrow> ('k, 'v) avl option" where
  "map_clear m = avl_clear m"

fun map_of_list_loop :: "('k \<Rightarrow> 'k \<Rightarrow> bool) \<Rightarrow> ('k \<times> 'v) list \<Rightarrow> ('k, 'v) avl \<Rightarrow> ('k, 'v) avl option" where
  "map_of_list_loop lt [] m = Some m"
| "map_of_list_loop lt ((k, v) # es) m =
     (if avl_full m then Some m else do { (_, m) \<leftarrow> map_insert lt k v m; map_of_list_loop lt es m })"

definition map_of_list :: "('k \<Rightarrow> 'k \<Rightarrow> bool) \<Rightarrow> nat \<Rightarrow> ('k \<times> 'v) list \<Rightarrow> ('k, 'v) avl option" where
  "map_of_list lt N es = map_of_list_loop lt es (map_init N)"

definition set_insert :: "('k \<Rightarrow> 'k \<Rightarrow> bool) \<Rightarrow> 'k \<Rightarrow> ('k, unit) avl \<Rightarrow> (status \<times> ('k, unit) avl) option" where
  "set_insert lt key m = avl_insert lt key () m"

definition set_erase :: "('k \<Rightarrow> 'k \<Rightarrow> bool) \<Rightarrow> 'k \<Rightarrow> ('k, unit) avl \<Rightarrow> (status \<times> ('k, unit) avl) option" where
  "set_erase lt key m = avl_erase lt key m"

definition set_contains :: "('k \<Rightarrow> 'k \<Rightarrow> bool) \<Rightarrow> 'k \<Rightarrow> ('k, unit) avl \<Rightarrow> bool option" where
  "set_contains lt key m = avl_contains lt key m"

fun set_of_list_loop :: "('k \<Rightarrow> 'k \<Rightarrow> bool) \<Rightarrow> 'k list \<Rightarrow> ('k, unit) avl \<Rightarrow> ('k, unit) avl option" where
  "set_of_list_loop lt [] m = Some m"
| "set_of_list_loop lt (k # ks) m =
     (if avl_full m then Some m else do { (_, m) \<leftarrow> set_insert lt k m; set_of_list_loop lt ks m })"

section \<open>The contract\<close>

sublocale strict_weak_order \<subseteq> tree: bounded_map "same_key lt" "avl_inv lt" "avl_look lt" avl_size avl_capacity
  "map_insert lt" "map_erase lt" "map_get lt"
proof
  fix s :: "('a, 'b) avl" and k :: 'a and v :: 'b
  assume inv: "avl_inv lt s"
  show "map_get lt k s = Some (avl_look lt s k)" using mapped_look [OF inv] by (simp add: map_get_def)
  show "map_insert lt k v s = Some (status_already_exists, s)" if "avl_look lt s k \<noteq> None"
    using insert_present [OF inv that] by (simp add: map_insert_def)
  show "map_insert lt k v s = Some (status_full, s)" if "avl_look lt s k = None" "avl_size s = avl_capacity s"
    using insert_keeps [OF inv that(1), of v] that(2) by (simp add: map_insert_def)
  show "\<exists>m'. map_insert lt k v s = Some (status_ok, m') \<and> avl_inv lt m' \<and>
      avl_look lt m' = (\<lambda>k'. if same_key lt k k' then Some v else avl_look lt s k') \<and>
      avl_size m' = avl_size s + 1 \<and> avl_capacity m' = avl_capacity s" if "avl_look lt s k = None" "avl_size s \<noteq> avl_capacity s"
    using insert_keeps [OF inv that(1), of v] that(2) by (simp add: map_insert_def)
  show "map_erase lt k s = Some (status_not_found, s)" if "avl_look lt s k = None"
    using erase_keeps [OF inv, of k] that by (simp add: map_erase_def)
  show "\<exists>m'. map_erase lt k s = Some (status_ok, m') \<and> avl_inv lt m' \<and>
      avl_look lt m' = (\<lambda>k'. if same_key lt k k' then None else avl_look lt s k') \<and>
      avl_size m' = avl_size s - 1 \<and> avl_capacity m' = avl_capacity s" if "avl_look lt s k \<noteq> None"
    using erase_keeps [OF inv, of k] that by (simp add: map_erase_def)
qed

context strict_weak_order
begin

lemma map_of_list_loop_inv: "avl_inv lt m \<Longrightarrow> \<exists>m'. map_of_list_loop lt es m = Some m' \<and> avl_inv lt m'"
proof (induction es arbitrary: m)
  case (Cons e es)
  obtain k v where e: "e = (k, v)" by (cases e)
  obtain st m1 where "map_insert lt k v m = Some (st, m1)" "avl_inv lt m1"
    using insert_present [OF Cons.prems, of k v] insert_keeps [OF Cons.prems, of k v] Cons.prems
    by (cases "avl_look lt m k") (auto simp: map_insert_def split: if_splits)
  with Cons show ?case by (simp add: e)
qed simp

lemma map_of_list_inv: "N < 2 ^ 32 \<Longrightarrow> \<exists>m. map_of_list lt N es = Some m \<and> avl_inv lt m"
  unfolding map_of_list_def map_init_def by (rule map_of_list_loop_inv [OF avl_inv_init])

lemmas map_run_spec = tree.run_spec

end

section \<open>What a map promises\<close>

text \<open>C15: a \<open>map\<close> is a map: any sequence of insertions, erasures and lookups on a fresh map of capacity \<open>N\<close>
  returns, status by status and value by value, what the finite function with that capacity returns;
  no operation has undefined behaviour and every loop in it ends.\<close>

theorem map_is_map:
  assumes "strict_weak_order lt" and "N < 2 ^ 32"
  shows "map_option fst (bounded_map.run (map_insert lt) (map_erase lt) (map_get lt) ops (map_init N)) =
    Some (map_spec_run (same_key lt) N ops (\<lambda>_. None, 0))"
  using strict_weak_order.map_run_spec [OF assms(1) avl_inv_init [OF assms(2)], of ops]
  by (auto simp: map_init_def look_init [OF assms(2)] size_init [OF assms(2)])

theorem map_is_map_witness:
  "map_option fst (bounded_map.run (map_insert castle_less) (map_erase castle_less) (map_get castle_less)
      [Insert 5 50, Insert 3 30, Insert 5 51, Erase 5, Insert 8 80, Insert 9 90, Get 3, Get (5 :: nat)] (map_init 2)) =
    Some [Status status_ok, Status status_ok, Status status_already_exists, Status status_ok, Status status_ok,
      Status status_full, Value (Some 30), Value (None :: nat option)]"
  by (subst map_is_map [OF min_order.strict_weak_order_axioms])
    (simp_all add: map_spec_def same_key_def castle_less_def)

text \<open>C16: the iterators and the bound searches: from \<open>begin()\<close> to \<open>end()\<close> the iterator visits every stored
  entry once, in strictly increasing key order; from \<open>lower_bound(k)\<close> it visits exactly the entries not
  below \<open>k\<close> and from \<open>upper_bound(k)\<close> exactly those above it.\<close>

theorem map_iterates_in_order:
  assumes "strict_weak_order lt" and "avl_inv lt m"
  shows "\<exists>es. do { it \<leftarrow> map_begin m; traverse it m } = Some es \<and> sorted_wrt (\<lambda>a b. lt (fst a) (fst b)) es \<and>
    set es = set (pool_entries m) \<and> length es = avl_size m \<and>
    do { it \<leftarrow> map_lower_bound lt k m; traverse it m } = Some (dropWhile (\<lambda>e. lt (fst e) k) es) \<and>
    do { it \<leftarrow> map_upper_bound lt k m; traverse it m } = Some (dropWhile (\<lambda>e. \<not> lt k (fst e)) es)"
proof -
  obtain t fl where repr: "avl_repr m t fl" and ord: "ordered lt m (ids t)" using assms(2) by (auto simp: avl_inv_def)
  define f where "f = (\<lambda>i. the (entry (nd m i)))"
  have t: "tree_at m None t" "root m = apex t" "\<forall>i \<in> set (ids t). entry (nd m i) \<noteq> None" "avl_size m = length (ids t)"
    using repr by (auto simp: avl_repr_def avl_size_def)
  have walk: "traverse (case ys of [] \<Rightarrow> None | i # _ \<Rightarrow> Some i) m = Some (map f ys)" if "ids t = xs @ ys" for xs ys
    using traverse_ok [OF repr that] by (simp add: f_def)
  have drop: "traverse (first_of (\<lambda>i. \<not> P (f i)) (ids t) None) m = Some (dropWhile P (map f (ids t)))" for P
    using walk [of "takeWhile (P \<circ> f) (ids t)" "dropWhile (P \<circ> f) (ids t)"]
    by (simp add: first_of_def dropWhile_map comp_def)
  have "set (map f (ids t)) = set (pool_entries m)"
    using pool_set [OF repr] t(3) by (force simp: f_def)
  moreover have "do { it \<leftarrow> map_begin m; traverse it m } = Some (map f (ids t))"
    using walk [of "[]" "ids t"] by (simp add: map_begin_def begin_ok [OF repr])
  moreover have "sorted_wrt (\<lambda>a b. lt (fst a) (fst b)) (map f (ids t))"
    using ord by (simp add: ordered_def sorted_wrt_map f_def key_of_def)
  moreover have "do { it \<leftarrow> map_lower_bound lt k m; traverse it m } = Some (dropWhile (\<lambda>e. lt (fst e) k) (map f (ids t)))"
    using strict_weak_order.lower_bound_loop_ok [OF assms(1) t(1,3) ord, of k None] drop [of "\<lambda>e. lt (fst e) k"]
    by (simp add: map_lower_bound_def lower_bound_def t(2) key_of_def f_def)
  moreover have "do { it \<leftarrow> map_upper_bound lt k m; traverse it m } = Some (dropWhile (\<lambda>e. \<not> lt k (fst e)) (map f (ids t)))"
    using strict_weak_order.upper_bound_loop_ok [OF assms(1) t(1,3) ord, of k None] drop [of "\<lambda>e. \<not> lt k (fst e)"]
    by (simp add: map_upper_bound_def upper_bound_def t(2) key_of_def f_def)
  ultimately show ?thesis using t(4) by (intro exI [of _ "map f (ids t)"]) simp
qed

theorem map_iterates_in_order_witness:
  "\<exists>m es. map_of_list castle_less 4 [(2 :: nat, 20 :: nat), (1, 10), (3, 30)] = Some m \<and>
    do { it \<leftarrow> map_begin m; traverse it m } = Some es \<and> sorted_wrt (\<lambda>a b. castle_less (fst a) (fst b)) es \<and> length es = avl_size m"
proof -
  obtain m where m: "map_of_list castle_less 4 [(2 :: nat, 20 :: nat), (1, 10), (3, 30)] = Some m" "avl_inv castle_less m"
    using min_order.map_of_list_inv [of 4 "[(2 :: nat, 20 :: nat), (1, 10), (3, 30)]"] by auto
  from map_iterates_in_order [OF min_order.strict_weak_order_axioms m(2), of 0] m(1) show ?thesis by auto
qed

lemma used_nodes:
  assumes "avl_repr m t fl"
  shows "n \<in> set (nodes m) \<and> entry n \<noteq> None \<longleftrightarrow> (\<exists>i \<in> set (ids t). n = nd m i)"
proof
  assume n: "n \<in> set (nodes m) \<and> entry n \<noteq> None"
  then obtain i where i: "i < length (nodes m)" "n = nd m i" by (auto simp: in_set_conv_nth nd_def)
  then have "i \<in> set (ids t) \<union> set fl" "i \<notin> set fl" using assms n by (auto simp: avl_repr_def)
  with i show "\<exists>i \<in> set (ids t). n = nd m i" by blast
next
  assume "\<exists>i \<in> set (ids t). n = nd m i"
  then obtain i where i: "i \<in> set (ids t)" "n = nd m i" by blast
  then have "i < length (nodes m)" "entry n \<noteq> None" using assms by (auto simp: avl_repr_def)
  with i show "n \<in> set (nodes m) \<and> entry n \<noteq> None" by (simp add: nd_def)
qed

lemma tree_heights:
  assumes "tree_at s par t" and "balanced t" and "i \<in> set (ids t)"
  shows "\<exists>l r. node_height (left (nd s i)) s = Some l \<and> node_height (right (nd s i)) s = Some r \<and>
    height (nd s i) = 1 + max l r \<and> l \<le> r + 1 \<and> r \<le> l + 1 \<and> height (nd s i) \<le> depth t"
  using assms
proof (induction t arbitrary: par)
  case (Bin l j r)
  show ?case
  proof (cases "i = j")
    case True
    then show ?thesis using Bin.prems node_height_apex [of s "Some j" l] node_height_apex [of s "Some j" r] by simp
  next
    case False
    with Bin show ?thesis by (fastforce simp: max.coboundedI1 max.coboundedI2)
  qed
qed simp

text \<open>C17: the tree stays shallow and its stored heights are true.  On the map that any sequence of insertions,
  erasures and lookups leaves, every node stores one more than the larger height of its children, computed without
  the wrap-around of the \<open>uint8_t\<close> field, and these two differ by at most one; the height of the root is at most
  65 and twice the binary logarithm of the number of elements plus one, so that every search is logarithmic.\<close>

theorem map_stays_shallow:
  assumes "strict_weak_order lt" and "N < 2 ^ 32"
  shows "\<exists>results m. bounded_map.run (map_insert lt) (map_erase lt) (map_get lt) ops (map_init N) = Some (results, m) \<and>
    (\<exists>h. node_height (root m) m = Some h \<and> h \<le> 65 \<and> 2 ^ (h div 2) \<le> avl_size m + 1) \<and>
    (\<forall>n \<in> set (nodes m). entry n \<noteq> None \<longrightarrow>
      (\<exists>l r. node_height (left n) m = Some l \<and> node_height (right n) m = Some r \<and>
        height n = 1 + max l r \<and> height n \<le> 65 \<and> l \<le> r + 1 \<and> r \<le> l + 1))"
proof -
  obtain results m where run: "bounded_map.run (map_insert lt) (map_erase lt) (map_get lt) ops (map_init N) = Some (results, m)"
    and "avl_inv lt m"
    using strict_weak_order.map_run_spec [OF assms(1) avl_inv_init [OF assms(2)], of ops] by (auto simp: map_init_def)
  then obtain t fl where repr: "avl_repr m t fl" by (auto simp: avl_inv_def)
  then have t: "tree_at m None t" "balanced t" "root m = apex t" by (simp_all add: avl_repr_def)
  have "length (ids t) < 2 ^ 32" using repr_length [OF repr] repr by (simp add: avl_repr_def)
  then have d: "depth t \<le> 65" by (rule balanced_depth_bound [OF t(2)])
  have "node_height (root m) m = Some (depth t) \<and> depth t \<le> 65 \<and> 2 ^ (depth t div 2) \<le> avl_size m + 1"
    using node_height_apex [of m None t] t balanced_depth [OF t(2)] d repr by (simp add: avl_repr_def avl_size_def)
  moreover have "\<exists>l r. node_height (left n) m = Some l \<and> node_height (right n) m = Some r \<and>
        height n = 1 + max l r \<and> height n \<le> 65 \<and> l \<le> r + 1 \<and> r \<le> l + 1"
    if n: "n \<in> set (nodes m)" "entry n \<noteq> None" for n
  proof -
    obtain i where i: "i \<in> set (ids t)" "n = nd m i" using used_nodes [OF repr, of n] n by blast
    from tree_heights [OF t(1,2) i(1)] d show ?thesis unfolding i(2) by fastforce
  qed
  ultimately show ?thesis using run by blast
qed

theorem map_stays_shallow_witness:
  "\<exists>results m h. bounded_map.run (map_insert castle_less) (map_erase castle_less) (map_get castle_less)
      [Insert 1 10, Insert 2 20, Insert 3 30, Insert 4 40, Insert 5 50, Erase 1, Insert (6 :: nat) (60 :: nat)] (map_init 7) =
        Some (results, m) \<and>
    node_height (root m) m = Some h \<and> h \<le> 65 \<and> 2 ^ (h div 2) \<le> avl_size m + 1"
proof -
  have "(7 :: nat) < 2 ^ 32" by simp
  from map_stays_shallow [OF min_order.strict_weak_order_axioms this, of
      "[Insert 1 10, Insert 2 20, Insert 3 30, Insert 4 40, Insert 5 50, Erase 1, Insert (6 :: nat) (60 :: nat)]"]
  show ?thesis by blast
qed

text \<open>C18: \<open>clear()\<close>, and with it the destructor, works on the maps none of whose nodes has a right child, and leaves
  an empty map.  On every other map, and so on every map of three or more elements, it runs into undefined
  behaviour: after some iterations the loop is back at a node of the map whose object it has destroyed already.
  Releasing a node resets its \<open>right\<close> link, and the climb out of its right subtree then stops at it again.\<close>

theorem map_clear_destroys_twice:
  assumes "avl_inv lt m"
  shows "(if \<forall>n \<in> set (nodes m). entry n \<noteq> None \<longrightarrow> right n = None
     then \<exists>m'. map_clear m = Some m' \<and> avl_inv lt m' \<and> avl_look lt m' = (\<lambda>_. None) \<and> avl_size m' = 0 \<and>
       avl_capacity m' = avl_capacity m
     else map_clear m = None \<and>
       (\<exists>p k i s. map_begin m = Some p \<and> clear_steps k p m = Some (Some i, s) \<and>
         i < length (nodes m) \<and> entry (nodes m ! i) \<noteq> None \<and> entry (nodes s ! i) = None)) \<and>
    (3 \<le> avl_size m \<longrightarrow> map_clear m = None)"
proof -
  obtain t fl where repr: "avl_repr m t fl" using assms by (auto simp: avl_inv_def)
  then have t: "tree_at m None t" "balanced t" "stored m = length (ids t)" by (simp_all add: avl_repr_def)
  have "(\<forall>n \<in> set (nodes m). entry n \<noteq> None \<longrightarrow> right n = None) \<longleftrightarrow> (\<forall>i \<in> set (ids t). right (nd m i) = None)"
    using used_nodes [OF repr] by (metis (no_types, lifting))
  then have left: "(\<forall>n \<in> set (nodes m). entry n \<noteq> None \<longrightarrow> right n = None) \<longleftrightarrow> left_only t"
    using left_only_iff [OF t(1)] by simp
  have small: "\<not> left_only t" if "3 \<le> avl_size m" using left_only_small [OF t(2)] that t(3) by (auto simp: avl_size_def)
  show ?thesis
  proof (cases "left_only t")
    case True
    obtain m' fl' where m': "avl_clear m = Some m'" "avl_repr m' Tip fl'" "length (nodes m') = length (nodes m)"
      using clear_ok [OF repr True] by blast
    then show ?thesis using empty_repr [OF m'(2)] left True small by (auto simp: map_clear_def avl_capacity_def)
  next
    case False
    obtain p k i s where "avl_begin m = Some p" "clear_steps k p m = Some (Some i, s)" "i \<in> set (ids t)" "entry (nd s i) = None"
      using clear_fails(2) [OF repr False] by blast
    moreover from this(3) have "i < length (nodes m)" "entry (nodes m ! i) \<noteq> None" using repr by (auto simp: avl_repr_def nd_def)
    ultimately have "\<exists>p k i s. map_begin m = Some p \<and> clear_steps k p m = Some (Some i, s) \<and>
        i < length (nodes m) \<and> entry (nodes m ! i) \<noteq> None \<and> entry (nodes s ! i) = None"
      unfolding map_begin_def nd_def by blast
    then show ?thesis using clear_fails(1) [OF repr False] left False by (simp only: map_clear_def if_False simp_thms)
  qed
qed

theorem map_clear_destroys_twice_witness:
  "\<exists>m. map_of_list castle_less 4 [(1 :: nat, 10 :: nat), (2, 20), (3, 30)] = Some m \<and> map_clear m = None"
proof -
  obtain m where m: "map_of_list castle_less 4 [(1 :: nat, 10 :: nat), (2, 20), (3, 30)] = Some m" "avl_inv castle_less m"
    using min_order.map_of_list_inv [of 4 "[(1 :: nat, 10 :: nat), (2, 20), (3, 30)]"] by auto
  have "map_option stored (map_of_list castle_less 4 [(1 :: nat, 10 :: nat), (2, 20), (3, 30)]) = Some 3" by code_simp
  with m have "3 \<le> avl_size m" by (simp add: avl_size_def)
  with map_clear_destroys_twice [OF m(2)] m(1) show ?thesis by blast
qed

end
