(* ===== verification/HashTable.thy ===== *)
theory HashTable
  imports Maps
begin

text \<open>
  \<open>castle::container::hash_table\<close> (\<open>container/hash_table.hpp\<close>), with \<open>hash_map\<close>, its alias, and
  \<open>hash_set\<close> (\<open>container/hash_set.hpp\<close>): open addressing with linear probing and tombstones in embedded
  slots; and the hash functors of \<open>utility/hash.hpp\<close>.  A slot is the object it holds or \<open>None\<close> when
  its lifetime has not begun or has ended; reading or destroying such an object is \<open>None\<close>.
\<close>

section \<open>Hash functors\<close>

definition hash_mix64 :: "u64 \<Rightarrow> u64" where
  "hash_mix64 value0 =
     (let value1 = value0 XOR drop_bit 30 value0;
          value2 = value1 * 0xBF58476D1CE4E5B;
          value3 = value2 XOR drop_bit 27 value2;
          value4 = value3 * 0x94D049BB133111EB
      in value4 XOR drop_bit 31 value4)"

definition hash_integral :: "u64 \<Rightarrow> nat" where
  "hash_integral v = usz (unat (hash_mix64 v))"

fun hash_bytes_loop :: "u8 list \<Rightarrow> u64 \<Rightarrow> u64" where
  "hash_bytes_loop [] state = state"
| "hash_bytes_loop (c # cs) state = hash_bytes_loop cs ((state XOR ucast c) * 1099511628211)"

text \<open>\<open>char\<close> is unsigned on the target, so a character is its byte.\<close>

definition hash_string :: "u8 list \<Rightarrow> nat" where
  "hash_string cs = usz (unat (hash_mix64 (hash_bytes_loop cs 1469598103934665603)))"

definition equal_to :: "'a \<Rightarrow> 'a \<Rightarrow> bool" where
  "equal_to x y = (x = y)"

section \<open>State\<close>

definition empty_state :: u8 where "empty_state = 0"
definition occupied_state :: u8 where "occupied_state = 1"
definition deleted_state :: u8 where "deleted_state = 2"

record ('k, 'v) table =
  table_size :: nat
  states :: "u8 list"
  slots :: "('k \<times> 'v) option list"

definition table_capacity :: "('k, 'v) table \<Rightarrow> nat" where
  "table_capacity t = length (states t)"

definition table_init :: "nat \<Rightarrow> ('k, 'v) table" where
  "table_init N = \<lparr>table_size = 0, states = replicate N empty_state, slots = replicate N None\<rparr>"

definition table_available :: "('k, 'v) table \<Rightarrow> nat" where
  "table_available t = table_capacity t - table_size t"

definition table_empty :: "('k, 'v) table \<Rightarrow> bool" where
  "table_empty t = (table_size t = 0)"

definition table_full :: "('k, 'v) table \<Rightarrow> bool" where
  "table_full t = (table_size t = table_capacity t)"

definition state_at :: "nat \<Rightarrow> ('k, 'v) table \<Rightarrow> u8 option" where
  "state_at i t = (if i < length (states t) then Some (states t ! i) else None)"

definition entry_at :: "nat \<Rightarrow> ('k, 'v) table \<Rightarrow> ('k \<times> 'v) option" where
  "entry_at i t = (if i < length (slots t) then slots t ! i else None)"

definition construct_entry :: "nat \<Rightarrow> 'k \<Rightarrow> 'v \<Rightarrow> ('k, 'v) table \<Rightarrow> ('k, 'v) table option" where
  "construct_entry i k v t =
     (if i < length (slots t) then Some (t\<lparr>slots := (slots t)[i := Some (k, v)]\<rparr>) else None)"

definition destroy_entry :: "nat \<Rightarrow> ('k, 'v) table \<Rightarrow> ('k, 'v) table option" where
  "destroy_entry i t = do { _ \<leftarrow> entry_at i t; Some (t\<lparr>slots := (slots t)[i := None]\<rparr>) }"

definition set_state :: "nat \<Rightarrow> u8 \<Rightarrow> ('k, 'v) table \<Rightarrow> ('k, 'v) table option" where
  "set_state i s t = (if i < length (states t) then Some (t\<lparr>states := (states t)[i := s]\<rparr>) else None)"

section \<open>Probing\<close>

definition bucket :: "('k \<Rightarrow> nat) \<Rightarrow> 'k \<Rightarrow> ('k, 'v) table \<Rightarrow> nat" where
  "bucket hash key t = hash key mod table_capacity t"

function find_index_loop :: "('k \<Rightarrow> 'k \<Rightarrow> bool) \<Rightarrow> 'k \<Rightarrow> ('k, 'v) table \<Rightarrow> nat \<Rightarrow> nat \<Rightarrow> nat option" where
  "find_index_loop eqv key t start step =
     (if step < table_capacity t then
        let index = usz (start + step) mod table_capacity t in
        do { s \<leftarrow> state_at index t;
             if s = empty_state then Some (table_capacity t)
             else if s = occupied_state then
               do { e \<leftarrow> entry_at index t;
                    if eqv (fst e) key then Some index else find_index_loop eqv key t start (step + 1) }
             else find_index_loop eqv key t start (step + 1) }
      else Some (table_capacity t))"
  by pat_completeness auto
termination by (relation "measure (\<lambda>(_, _, t, _, step). table_capacity t - step)") auto

declare find_index_loop.simps [simp del]

definition find_index :: "('k \<Rightarrow> nat) \<Rightarrow> ('k \<Rightarrow> 'k \<Rightarrow> bool) \<Rightarrow> 'k \<Rightarrow> ('k, 'v) table \<Rightarrow> nat option" where
  "find_index hash eqv key t = find_index_loop eqv key t (bucket hash key t) 0"

definition place :: "nat \<Rightarrow> 'k \<Rightarrow> 'v \<Rightarrow> ('k, 'v) table \<Rightarrow> (status \<times> ('k, 'v) table) option" where
  "place target key v t = do {
     t \<leftarrow> construct_entry target key v t;
     t \<leftarrow> set_state target occupied_state t;
     Some (status_ok, t\<lparr>table_size := usz (table_size t + 1)\<rparr>) }"

function insert_value_loop :: "('k \<Rightarrow> 'k \<Rightarrow> bool) \<Rightarrow> 'k \<Rightarrow> 'v \<Rightarrow> ('k, 'v) table \<Rightarrow> nat \<Rightarrow> nat \<Rightarrow> nat
    \<Rightarrow> (status \<times> ('k, 'v) table) option" where
  "insert_value_loop eqv key v t start first_deleted step =
     (if step < table_capacity t then
        let index = usz (start + step) mod table_capacity t in
        do { s \<leftarrow> state_at index t;
             if s = occupied_state then
               do { e \<leftarrow> entry_at index t;
                    if eqv (fst e) key then Some (status_already_exists, t)
                    else insert_value_loop eqv key v t start first_deleted (step + 1) }
             else if s = deleted_state then
               insert_value_loop eqv key v t start
                 (if first_deleted = table_capacity t then index else first_deleted) (step + 1)
             else place (if first_deleted = table_capacity t then index else first_deleted) key v t }
      else if first_deleted \<noteq> table_capacity t then place first_deleted key v t
      else Some (status_full, t))"
  by pat_completeness auto
termination by (relation "measure (\<lambda>(_, _, _, t, _, _, step). table_capacity t - step)") auto

declare insert_value_loop.simps [simp del]

definition insert_value :: "('k \<Rightarrow> nat) \<Rightarrow> ('k \<Rightarrow> 'k \<Rightarrow> bool) \<Rightarrow> 'k \<Rightarrow> 'v \<Rightarrow> ('k, 'v) table
    \<Rightarrow> (status \<times> ('k, 'v) table) option" where
  "insert_value hash eqv key v t = insert_value_loop eqv key v t (bucket hash key t) (table_capacity t) 0"

section \<open>Operations\<close>

definition table_insert :: "('k \<Rightarrow> nat) \<Rightarrow> ('k \<Rightarrow> 'k \<Rightarrow> bool) \<Rightarrow> 'k \<Rightarrow> 'v \<Rightarrow> ('k, 'v) table
    \<Rightarrow> (status \<times> ('k, 'v) table) option" where
  "table_insert hash eqv key v t = insert_value hash eqv key v t"

definition table_emplace :: "('k \<Rightarrow> nat) \<Rightarrow> ('k \<Rightarrow> 'k \<Rightarrow> bool) \<Rightarrow> 'k \<Rightarrow> 'v \<Rightarrow> ('k, 'v) table
    \<Rightarrow> (status \<times> ('k, 'v) table) option" where
  "table_emplace hash eqv key v t = do {
     i \<leftarrow> find_index hash eqv key t;
     if i \<noteq> table_capacity t then Some (status_already_exists, t) else insert_value hash eqv key v t }"

definition table_try_emplace :: "('k \<Rightarrow> nat) \<Rightarrow> ('k \<Rightarrow> 'k \<Rightarrow> bool) \<Rightarrow> 'k \<Rightarrow> 'v \<Rightarrow> ('k, 'v) table
    \<Rightarrow> (status \<times> ('k, 'v) table) option" where
  "table_try_emplace hash eqv key v t = table_emplace hash eqv key v t"

definition table_insert_or_assign :: "('k \<Rightarrow> nat) \<Rightarrow> ('k \<Rightarrow> 'k \<Rightarrow> bool) \<Rightarrow> 'k \<Rightarrow> 'v \<Rightarrow> ('k, 'v) table
    \<Rightarrow> (status \<times> ('k, 'v) table) option" where
  "table_insert_or_assign hash eqv key v t = do {
     existing \<leftarrow> find_index hash eqv key t;
     if existing \<noteq> table_capacity t then
       do { e \<leftarrow> entry_at existing t; Some (status_ok, t\<lparr>slots := (slots t)[existing := Some (fst e, v)]\<rparr>) }
     else table_insert hash eqv key v t }"

definition table_contains :: "('k \<Rightarrow> nat) \<Rightarrow> ('k \<Rightarrow> 'k \<Rightarrow> bool) \<Rightarrow> 'k \<Rightarrow> ('k, 'v) table \<Rightarrow> bool option" where
  "table_contains hash eqv key t = do { i \<leftarrow> find_index hash eqv key t; Some (i \<noteq> table_capacity t) }"

definition table_get :: "('k \<Rightarrow> nat) \<Rightarrow> ('k \<Rightarrow> 'k \<Rightarrow> bool) \<Rightarrow> 'k \<Rightarrow> ('k, 'v) table \<Rightarrow> 'v option option" where
  "table_get hash eqv key t = do {
     i \<leftarrow> find_index hash eqv key t;
     if i = table_capacity t then Some None else do { e \<leftarrow> entry_at i t; Some (Some (snd e)) } }"

definition table_erase :: "('k \<Rightarrow> nat) \<Rightarrow> ('k \<Rightarrow> 'k \<Rightarrow> bool) \<Rightarrow> 'k \<Rightarrow> ('k, 'v) table
    \<Rightarrow> (status \<times> ('k, 'v) table) option" where
  "table_erase hash eqv key t = do {
     i \<leftarrow> find_index hash eqv key t;
     if i = table_capacity t then Some (status_not_found, t)
     else do { t \<leftarrow> destroy_entry i t; t \<leftarrow> set_state i deleted_state t;
               Some (status_ok, t\<lparr>table_size := usz_sub (table_size t) 1\<rparr>) } }"

function table_clear_loop :: "nat \<Rightarrow> nat \<Rightarrow> ('k, 'v) table \<Rightarrow> ('k, 'v) table option" where
  "table_clear_loop N i t =
     (if i < N then
        do { s \<leftarrow> state_at i t;
             t \<leftarrow> (if s = occupied_state then destroy_entry i t else Some t);
             t \<leftarrow> set_state i empty_state t;
             table_clear_loop N (i + 1) t }
      else Some t)"
  by pat_completeness auto
termination by (relation "measure (\<lambda>(N, i, _). N - i)") auto

declare table_clear_loop.simps [simp del]

definition table_clear :: "('k, 'v) table \<Rightarrow> ('k, 'v) table option" where
  "table_clear t = do { t \<leftarrow> table_clear_loop (table_capacity t) 0 t; Some (t\<lparr>table_size := 0\<rparr>) }"

fun table_of_list_loop :: "('k \<Rightarrow> nat) \<Rightarrow> ('k \<Rightarrow> 'k \<Rightarrow> bool) \<Rightarrow> ('k \<times> 'v) list \<Rightarrow> ('k, 'v) table
    \<Rightarrow> ('k, 'v) table option" where
  "table_of_list_loop hash eqv [] t = Some t"
| "table_of_list_loop hash eqv ((k, v) # es) t =
     (if table_full t then Some t
      else do { (_, t) \<leftarrow> table_insert hash eqv k v t; table_of_list_loop hash eqv es t })"

definition table_of_list :: "('k \<Rightarrow> nat) \<Rightarrow> ('k \<Rightarrow> 'k \<Rightarrow> bool) \<Rightarrow> nat \<Rightarrow> ('k \<times> 'v) list \<Rightarrow> ('k, 'v) table option" where
  "table_of_list hash eqv N es = table_of_list_loop hash eqv es (table_init N)"

section \<open>Iterators\<close>

function first_occupied_loop :: "nat \<Rightarrow> ('k, 'v) table \<Rightarrow> nat" where
  "first_occupied_loop i t =
     (if i < table_capacity t then
        if states t ! i = occupied_state then i else first_occupied_loop (i + 1) t
      else table_capacity t)"
  by pat_completeness auto
termination by (relation "measure (\<lambda>(i, t). table_capacity t - i)") auto

declare first_occupied_loop.simps [simp del]

definition first_occupied :: "('k, 'v) table \<Rightarrow> nat" where
  "first_occupied t = first_occupied_loop 0 t"

function advance_index_loop :: "nat \<Rightarrow> ('k, 'v) table \<Rightarrow> nat" where
  "advance_index_loop index t =
     (if index < table_capacity t \<and> states t ! index \<noteq> occupied_state then advance_index_loop (index + 1) t else index)"
  by pat_completeness auto
termination by (relation "measure (\<lambda>(i, t). table_capacity t - i)") auto

declare advance_index_loop.simps [simp del]

definition advance_index :: "nat \<Rightarrow> ('k, 'v) table \<Rightarrow> nat" where
  "advance_index index t = (if index \<ge> table_capacity t then index else advance_index_loop (index + 1) t)"

definition table_begin :: "('k, 'v) table \<Rightarrow> nat" where
  "table_begin t = first_occupied t"

definition table_end :: "('k, 'v) table \<Rightarrow> nat" where
  "table_end t = table_capacity t"

text \<open>The loop \<open>for (auto it = t.begin(); it != t.end(); ++it)\<close> of a client.\<close>

lemma advance_index_less: "i < table_capacity t \<Longrightarrow> i < advance_index i t"
proof -
  have "j \<le> advance_index_loop j t" for j
    by (induction j t rule: advance_index_loop.induct) (subst advance_index_loop.simps, force)
  then show "i < table_capacity t \<Longrightarrow> i < advance_index i t"
    by (simp add: advance_index_def Suc_le_eq [symmetric])
qed

function table_visit :: "nat \<Rightarrow> ('k, 'v) table \<Rightarrow> ('k \<times> 'v) list option" where
  "table_visit i t =
     (if i = table_end t then Some []
      else if i < table_end t then
        do { e \<leftarrow> entry_at i t; es \<leftarrow> table_visit (advance_index i t) t; Some (e # es) }
      else None)"
  by pat_completeness auto
termination
  by (relation "measure (\<lambda>(i, t). table_capacity t - i)")
    (auto simp: table_end_def intro!: diff_less_mono2 advance_index_less)

declare table_visit.simps [simp del]

section \<open>Hash sets\<close>

definition hash_set_insert :: "('k \<Rightarrow> nat) \<Rightarrow> ('k \<Rightarrow> 'k \<Rightarrow> bool) \<Rightarrow> 'k \<Rightarrow> ('k, unit) table
    \<Rightarrow> (status \<times> ('k, unit) table) option" where
  "hash_set_insert hash eqv key t = table_insert hash eqv key () t"

definition hash_set_contains :: "('k \<Rightarrow> nat) \<Rightarrow> ('k \<Rightarrow> 'k \<Rightarrow> bool) \<Rightarrow> 'k \<Rightarrow> ('k, unit) table \<Rightarrow> bool option" where
  "hash_set_contains hash eqv key t = table_contains hash eqv key t"

definition hash_set_find :: "('k \<Rightarrow> nat) \<Rightarrow> ('k \<Rightarrow> 'k \<Rightarrow> bool) \<Rightarrow> 'k \<Rightarrow> ('k, unit) table \<Rightarrow> nat option" where
  "hash_set_find hash eqv key t = find_index hash eqv key t"

definition hash_set_erase :: "('k \<Rightarrow> nat) \<Rightarrow> ('k \<Rightarrow> 'k \<Rightarrow> bool) \<Rightarrow> 'k \<Rightarrow> ('k, unit) table
    \<Rightarrow> (status \<times> ('k, unit) table) option" where
  "hash_set_erase hash eqv key t = table_erase hash eqv key t"

definition hash_set_clear :: "('k, unit) table \<Rightarrow> ('k, unit) table option" where
  "hash_set_clear t = table_clear t"

fun hash_set_of_list_loop :: "('k \<Rightarrow> nat) \<Rightarrow> ('k \<Rightarrow> 'k \<Rightarrow> bool) \<Rightarrow> 'k list \<Rightarrow> ('k, unit) table
    \<Rightarrow> ('k, unit) table option" where
  "hash_set_of_list_loop hash eqv [] t = Some t"
| "hash_set_of_list_loop hash eqv (k # ks) t =
     (if table_full t then Some t
      else do { (_, t) \<leftarrow> hash_set_insert hash eqv k t; hash_set_of_list_loop hash eqv ks t })"

definition hash_set_of_list :: "('k \<Rightarrow> nat) \<Rightarrow> ('k \<Rightarrow> 'k \<Rightarrow> bool) \<Rightarrow> nat \<Rightarrow> 'k list \<Rightarrow> ('k, unit) table option" where
  "hash_set_of_list hash eqv N ks = hash_set_of_list_loop hash eqv ks (table_init N)"

section \<open>Invariant\<close>

text \<open>The table as the function it represents, and the slot a probe sequence visits at a step.\<close>

fun live :: "'a option \<Rightarrow> 'a list" where
  "live None = []"
| "live (Some e) = [e]"

definition entries :: "('k, 'v) table \<Rightarrow> ('k \<times> 'v) list" where
  "entries t = concat (map live (slots t))"

definition table_look :: "('k \<Rightarrow> 'k \<Rightarrow> bool) \<Rightarrow> ('k, 'v) table \<Rightarrow> 'k \<Rightarrow> 'v option" where
  "table_look eqv t k = map_option snd (find (\<lambda>e. eqv (fst e) k) (entries t))"

definition probe :: "('k \<Rightarrow> nat) \<Rightarrow> 'k \<Rightarrow> ('k, 'v) table \<Rightarrow> nat \<Rightarrow> nat" where
  "probe hash k t d = (bucket hash k t + d) mod table_capacity t"

definition used :: "nat \<Rightarrow> ('k, 'v) table \<Rightarrow> bool" where
  "used i t = (states t ! i \<noteq> empty_state)"

definition table_inv :: "('k \<Rightarrow> nat) \<Rightarrow> ('k \<Rightarrow> 'k \<Rightarrow> bool) \<Rightarrow> ('k, 'v) table \<Rightarrow> bool" where
  "table_inv hash eqv t \<longleftrightarrow>
     0 < table_capacity t \<and> 2 * table_capacity t \<le> size_mod \<and> length (slots t) = table_capacity t \<and>
     table_size t = length (entries t) \<and>
     (\<forall>i < table_capacity t. (states t ! i = occupied_state) = (slots t ! i \<noteq> None) \<and>
        states t ! i \<in> {empty_state, occupied_state, deleted_state}) \<and>
     (\<forall>i < table_capacity t. \<forall>j < table_capacity t. \<forall>a b. slots t ! i = Some a \<longrightarrow> slots t ! j = Some b \<longrightarrow>
        eqv (fst a) (fst b) \<longrightarrow> i = j) \<and>
     (\<forall>i < table_capacity t. \<forall>a. slots t ! i = Some a \<longrightarrow>
        (\<exists>d < table_capacity t. i = probe hash (fst a) t d \<and> (\<forall>d' < d. used (probe hash (fst a) t d') t)))"

lemma state_distinct [simp]:
  "empty_state \<noteq> occupied_state" "occupied_state \<noteq> empty_state" "deleted_state \<noteq> occupied_state"
  "occupied_state \<noteq> deleted_state" "deleted_state \<noteq> empty_state" "empty_state \<noteq> deleted_state"
  by (simp_all add: empty_state_def occupied_state_def deleted_state_def)

lemma table_capacity_update [simp]:
  "table_capacity (t\<lparr>slots := a\<rparr>) = table_capacity t" "table_capacity (t\<lparr>table_size := n\<rparr>) = table_capacity t"
  "table_capacity (t\<lparr>states := (states t)[i := s]\<rparr>) = table_capacity t"
  by (simp_all add: table_capacity_def)

lemma set_live [simp]: "a \<in> set (live e) \<longleftrightarrow> e = Some a"
  by (cases e) auto

lemma set_entries: "a \<in> set (entries t) \<longleftrightarrow> (\<exists>i < length (slots t). slots t ! i = Some a)"
  unfolding entries_def by (simp, metis in_set_conv_nth)

lemma length_entries_update:
  assumes "i < length (slots t)"
  shows "length (entries (t\<lparr>slots := (slots t)[i := e]\<rparr>)) + length (live (slots t ! i)) = length (entries t) + length (live e)"
proof -
  have "entries t = concat (map live (take i (slots t))) @ live (slots t ! i) @ concat (map live (drop (Suc i) (slots t)))"
    unfolding entries_def by (subst id_take_nth_drop [OF assms]) (simp del: append_take_drop_id)
  moreover have "entries (t\<lparr>slots := (slots t)[i := e]\<rparr>) =
      concat (map live (take i (slots t))) @ live e @ concat (map live (drop (Suc i) (slots t)))"
    using assms by (simp add: entries_def upd_conv_take_nth_drop)
  ultimately show ?thesis by simp
qed

lemma length_live: "length (concat (map live xs)) \<le> length xs \<and>
  (length (concat (map live xs)) = length xs \<longleftrightarrow> None \<notin> set xs)"
proof (induction xs)
  case (Cons x xs)
  then show ?case by (cases x) auto
qed simp

lemma entries_full: "length (entries t) = length (slots t) \<longleftrightarrow> (\<forall>i < length (slots t). slots t ! i \<noteq> None)"
  using length_live [of "slots t"] by (auto simp: entries_def in_set_conv_nth)

lemma table_inv_sizes:
  assumes "table_inv hash eqv t"
  shows "0 < table_capacity t" "2 * table_capacity t \<le> size_mod" "length (slots t) = table_capacity t"
    "table_size t = length (entries t)"
  using assms unfolding table_inv_def by blast+

lemma table_init_simps [simp]:
  "entries (table_init N) = []" "table_look eqv (table_init N) = (\<lambda>_. None)" "table_size (table_init N) = 0"
  "table_capacity (table_init N) = N"
  by (simp_all add: fun_eq_iff table_look_def entries_def table_init_def table_capacity_def)

section \<open>Hash functors and equalities that agree\<close>

text \<open>The demand on the template parameters: \<open>KeyEqual\<close> is an equivalence that \<open>Hash\<close> respects.\<close>

locale hashing =
  fixes hash :: "'k \<Rightarrow> nat" and eqv :: "'k \<Rightarrow> 'k \<Rightarrow> bool"
  assumes eqv_refl: "eqv x x" and eqv_sym: "eqv x y \<Longrightarrow> eqv y x" and eqv_trans: "eqv x y \<Longrightarrow> eqv y z \<Longrightarrow> eqv x z"
    and hash_eqv: "eqv x y \<Longrightarrow> hash x = hash y"
begin

definition matches :: "('k, 'v) table \<Rightarrow> 'k \<Rightarrow> nat \<Rightarrow> bool" where
  "matches t k i \<longleftrightarrow> i < table_capacity t \<and> (\<exists>a. slots t ! i = Some a \<and> eqv (fst a) k)"

lemma probe_less: "table_inv hash eqv t \<Longrightarrow> probe hash k t d < table_capacity t"
  using table_inv_sizes(1) [of hash eqv t] by (simp add: probe_def)

lemma bucket_less: "table_inv hash eqv t \<Longrightarrow> bucket hash k t < table_capacity t"
  using table_inv_sizes(1) [of hash eqv t] by (simp add: bucket_def)

lemma probe_index:
  assumes "table_inv hash eqv t" and "d < table_capacity t"
  shows "usz (bucket hash k t + d) mod table_capacity t = probe hash k t d"
  using bucket_less [OF assms(1), of k] table_inv_sizes(2) [OF assms(1)] assms(2) by (simp add: probe_def)

lemma probe_eqv: "eqv k k' \<Longrightarrow> probe hash k t d = probe hash k' t d"
  by (simp add: probe_def bucket_def hash_eqv)

lemma probe_cover:
  assumes "table_inv hash eqv t" and "i < table_capacity t"
  shows "\<exists>d < table_capacity t. probe hash k t d = i"
proof (cases "bucket hash k t \<le> i")
  case True
  with assms(2) show ?thesis by (intro exI [of _ "i - bucket hash k t"]) (simp add: probe_def)
next
  case False
  then show ?thesis using bucket_less [OF assms(1), of k] assms(2)
    by (intro exI [of _ "i + table_capacity t - bucket hash k t"]) (simp add: probe_def)
qed

lemma matches_path:
  assumes "table_inv hash eqv t" and "matches t k i"
  shows "\<exists>d < table_capacity t. i = probe hash k t d \<and> (\<forall>d' < d. used (probe hash k t d') t)"
proof -
  obtain a where a: "i < table_capacity t" "slots t ! i = Some a" "eqv (fst a) k" using assms(2) by (auto simp: matches_def)
  with assms(1) obtain d where "d < table_capacity t" "i = probe hash (fst a) t d" "\<forall>d' < d. used (probe hash (fst a) t d') t"
    unfolding table_inv_def by blast
  then show ?thesis unfolding probe_eqv [OF a(3)] by blast
qed

lemma matches_unique:
  assumes "table_inv hash eqv t" and "matches t k i" and "matches t k j"
  shows "i = j"
proof -
  obtain a b where "slots t ! i = Some a" "eqv (fst a) k" "slots t ! j = Some b" "eqv (fst b) k"
    "i < table_capacity t" "j < table_capacity t" using assms(2,3) by (auto simp: matches_def)
  moreover from this have "eqv (fst a) (fst b)" using eqv_sym eqv_trans by blast
  ultimately show ?thesis using assms(1) unfolding table_inv_def by blast
qed

lemma occupied_slot: "table_inv hash eqv t \<Longrightarrow> i < table_capacity t \<Longrightarrow> states t ! i = occupied_state \<longleftrightarrow> slots t ! i \<noteq> None"
  unfolding table_inv_def by blast

lemma state_cases:
  "table_inv hash eqv t \<Longrightarrow> i < table_capacity t \<Longrightarrow> states t ! i = empty_state \<or> states t ! i = occupied_state \<or> states t ! i = deleted_state"
  unfolding table_inv_def by blast

lemma state_at_probe: "table_inv hash eqv t \<Longrightarrow> state_at (probe hash k t d) t = Some (states t ! probe hash k t d)"
  using probe_less by (simp add: state_at_def table_capacity_def)

lemma entry_at_slot: "table_inv hash eqv t \<Longrightarrow> i < table_capacity t \<Longrightarrow> entry_at i t = slots t ! i"
  by (simp add: entry_at_def table_inv_sizes(3))

lemma look_iff:
  assumes "table_inv hash eqv t"
  shows "table_look eqv t k = Some v \<longleftrightarrow> (\<exists>i < table_capacity t. \<exists>k'. slots t ! i = Some (k', v) \<and> eqv k' k)"
proof
  assume "table_look eqv t k = Some v"
  then obtain e where e: "find (\<lambda>e. eqv (fst e) k) (entries t) = Some e" "v = snd e" by (auto simp: table_look_def)
  have "e \<in> set (entries t) \<and> eqv (fst e) k" using e(1) by (auto simp: find_Some_iff)
  then obtain i where "i < table_capacity t" "slots t ! i = Some e" "eqv (fst e) k"
    unfolding set_entries table_inv_sizes(3) [OF assms] by blast
  with e(2) show "\<exists>i < table_capacity t. \<exists>k'. slots t ! i = Some (k', v) \<and> eqv k' k" by (cases e) auto
next
  assume "\<exists>i < table_capacity t. \<exists>k'. slots t ! i = Some (k', v) \<and> eqv k' k"
  then obtain i k' where i: "i < table_capacity t" "slots t ! i = Some (k', v)" "eqv k' k" by blast
  then have "(k', v) \<in> set (entries t)" by (auto simp: set_entries table_inv_sizes(3) [OF assms])
  then obtain e where e: "find (\<lambda>e. eqv (fst e) k) (entries t) = Some e"
    using i(3) by (cases "find (\<lambda>e. eqv (fst e) k) (entries t)") (auto simp: find_None_iff)
  then have "e \<in> set (entries t)" "eqv (fst e) k" by (auto simp: find_Some_iff)
  then obtain j where j: "j < table_capacity t" "slots t ! j = Some e" by (auto simp: set_entries table_inv_sizes(3) [OF assms])
  have "i = j" using matches_unique [OF assms, of k i j] i j \<open>eqv (fst e) k\<close> by (auto simp: matches_def)
  with i(2) j(2) e show "table_look eqv t k = Some v" by (simp add: table_look_def)
qed

lemma look_None: "table_inv hash eqv t \<Longrightarrow> table_look eqv t k = None \<longleftrightarrow> (\<forall>i. \<not> matches t k i)"
  using look_iff [of t k "the (table_look eqv t k)"] look_iff [of t k] by (cases "table_look eqv t k") (fastforce simp: matches_def)+

lemma find_index_loop_ok:
  assumes inv: "table_inv hash eqv t"
  shows "(\<forall>d < step. used (probe hash k t d) t \<and> \<not> matches t k (probe hash k t d)) \<Longrightarrow> step \<le> table_capacity t \<Longrightarrow>
    \<exists>r. find_index_loop eqv k t (bucket hash k t) step = Some r \<and>
      (if r = table_capacity t then \<forall>i. \<not> matches t k i else matches t k r)"
proof (induction "table_capacity t - step" arbitrary: step)
  case 0
  then have "\<not> matches t k i" for i using matches_path [OF inv, of k i] by auto
  with 0 show ?case by (simp add: find_index_loop.simps)
next
  case (Suc n)
  then have step: "step < table_capacity t" by simp
  let ?i = "probe hash k t step"
  have i: "?i < table_capacity t" using probe_less [OF inv] .
  have eq: "find_index_loop eqv k t (bucket hash k t) step =
     (if states t ! ?i = empty_state then Some (table_capacity t)
      else if states t ! ?i = occupied_state then
        do { e \<leftarrow> slots t ! ?i; if eqv (fst e) k then Some ?i else find_index_loop eqv k t (bucket hash k t) (step + 1) }
      else find_index_loop eqv k t (bucket hash k t) (step + 1))"
    by (subst find_index_loop.simps) (simp add: Let_def step probe_index [OF inv step] state_at_probe [OF inv] entry_at_slot [OF inv i])
  have next_step: ?case if "used ?i t" "\<not> matches t k ?i"
      "find_index_loop eqv k t (bucket hash k t) step = find_index_loop eqv k t (bucket hash k t) (step + 1)"
    using Suc.hyps(1) [of "step + 1"] Suc.hyps(2) Suc.prems step that by (auto simp: less_Suc_eq)
  from state_cases [OF inv i] show ?case
  proof (elim disjE)
    assume e: "states t ! ?i = empty_state"
    have "\<not> matches t k j" for j
    proof
      assume "matches t k j"
      then obtain d where d: "j = probe hash k t d" "\<forall>d' < d. used (probe hash k t d') t" "matches t k j"
        using matches_path [OF inv] by blast
      moreover have "d \<le> step" using d(2) e by (metis not_less used_def)
      moreover have "d \<noteq> step" using d e occupied_slot [OF inv i] by (auto simp: matches_def)
      ultimately show False using Suc.prems(1) by auto
    qed
    with e eq show ?case by simp
  next
    assume o: "states t ! ?i = occupied_state"
    then obtain a where a: "slots t ! ?i = Some a" using occupied_slot [OF inv i] by auto
    show ?case
    proof (cases "eqv (fst a) k")
      case True
      with o a eq i show ?thesis by (auto simp: matches_def)
    next
      case False
      with o a eq show ?thesis by (intro next_step) (simp_all add: matches_def used_def)
    qed
  next
    assume d: "states t ! ?i = deleted_state"
    then have "slots t ! ?i = None" using occupied_slot [OF inv i] by (cases "slots t ! ?i") auto
    with d eq show ?case by (intro next_step) (simp_all add: matches_def used_def)
  qed
qed

lemma find_index_ok:
  assumes "table_inv hash eqv t"
  shows "\<exists>r. find_index hash eqv k t = Some r \<and>
    (if r = table_capacity t then \<forall>i. \<not> matches t k i else matches t k r)"
  unfolding find_index_def by (rule find_index_loop_ok [OF assms]) simp_all

lemma insert_value_loop_present:
  assumes inv: "table_inv hash eqv t" and m: "matches t k (probe hash k t n)" "n < table_capacity t"
    and path: "\<forall>d < n. used (probe hash k t d) t"
  shows "step \<le> n \<Longrightarrow> insert_value_loop eqv k v t (bucket hash k t) fd step = Some (status_already_exists, t)"
proof (induction "n - step" arbitrary: step fd)
  case 0
  then have "step = n" by simp
  moreover obtain a where "slots t ! probe hash k t n = Some a" "eqv (fst a) k" using m(1) by (auto simp: matches_def)
  ultimately show ?case
    using m(2) occupied_slot [OF inv probe_less [OF inv, of k n]]
    by (subst insert_value_loop.simps)
      (simp add: Let_def probe_index [OF inv] state_at_probe [OF inv] entry_at_slot [OF inv probe_less [OF inv]])
next
  case (Suc j)
  then have step: "step < n" by simp
  let ?i = "probe hash k t step"
  have i: "?i < table_capacity t" using probe_less [OF inv] .
  have IH: "insert_value_loop eqv k v t (bucket hash k t) fd' (step + 1) = Some (status_already_exists, t)" for fd'
    using Suc.hyps step by simp
  show ?case
    using state_cases [OF inv i] path step m(2) occupied_slot [OF inv i]
    by (subst insert_value_loop.simps)
      (auto simp: Let_def probe_index [OF inv] state_at_probe [OF inv] entry_at_slot [OF inv i] IH IH [simplified] used_def)
qed

lemma insert_value_loop_absent:
  assumes inv: "table_inv hash eqv t" and absent: "\<forall>i. \<not> matches t k i"
  shows "step \<le> table_capacity t \<Longrightarrow> \<forall>d < step. used (probe hash k t d) t \<Longrightarrow>
    (if fd = table_capacity t then \<forall>d < step. slots t ! probe hash k t d \<noteq> None
     else \<exists>d < step. fd = probe hash k t d \<and> slots t ! fd = None) \<Longrightarrow>
    (\<exists>d < table_capacity t. slots t ! probe hash k t d = None \<and> (\<forall>d' < d. used (probe hash k t d') t) \<and>
       insert_value_loop eqv k v t (bucket hash k t) fd step = place (probe hash k t d) k v t) \<or>
    ((\<forall>d < table_capacity t. slots t ! probe hash k t d \<noteq> None) \<and>
       insert_value_loop eqv k v t (bucket hash k t) fd step = Some (status_full, t))"
    (is "_ \<Longrightarrow> _ \<Longrightarrow> _ \<Longrightarrow> ?goal fd step")
proof (induction "table_capacity t - step" arbitrary: step fd)
  case 0
  then have "step = table_capacity t" by simp
  with 0 show ?case
    by (subst (1 2) insert_value_loop.simps) (auto split: if_splits intro: less_trans)
next
  case (Suc n)
  then have step: "step < table_capacity t" by simp
  let ?i = "probe hash k t step"
  have i: "?i < table_capacity t" using probe_less [OF inv] .
  have eq: "insert_value_loop eqv k v t (bucket hash k t) fd step =
     (if states t ! ?i = occupied_state then
        do { e \<leftarrow> slots t ! ?i;
             if eqv (fst e) k then Some (status_already_exists, t)
             else insert_value_loop eqv k v t (bucket hash k t) fd (step + 1) }
      else if states t ! ?i = deleted_state then
        insert_value_loop eqv k v t (bucket hash k t) (if fd = table_capacity t then ?i else fd) (step + 1)
      else place (if fd = table_capacity t then ?i else fd) k v t)"
    by (subst insert_value_loop.simps) (simp add: Let_def step probe_index [OF inv step] state_at_probe [OF inv] entry_at_slot [OF inv i])
  note IH = Suc.hyps(1) [of "step + 1"]
  from state_cases [OF inv i] show ?case
  proof (elim disjE)
    assume e: "states t ! ?i = empty_state"
    then have free: "slots t ! ?i = None" using occupied_slot [OF inv i] by (cases "slots t ! ?i") auto
    show ?case
    proof (cases "fd = table_capacity t")
      case True
      with e eq free step Suc.prems(2) show ?thesis by auto
    next
      case False
      with Suc.prems(3) obtain d where "d < step" "fd = probe hash k t d" "slots t ! fd = None" by auto
      with e eq False step Suc.prems(2) show ?thesis by (auto intro: less_trans intro!: exI [of _ d])
    qed
  next
    assume o: "states t ! ?i = occupied_state"
    then obtain a where a: "slots t ! ?i = Some a" using occupied_slot [OF inv i] by auto
    have "\<not> eqv (fst a) k" using absent a i by (cases a) (auto simp: matches_def)
    then have "insert_value_loop eqv k v t (bucket hash k t) fd step = insert_value_loop eqv k v t (bucket hash k t) fd (step + 1)"
      using eq o a by simp
    moreover have "?goal fd (step + 1)"
      using Suc.hyps(2) step Suc.prems o a by (intro IH) (auto simp: less_Suc_eq used_def)
    ultimately show ?case by simp
  next
    assume d: "states t ! ?i = deleted_state"
    then have free: "slots t ! ?i = None" using occupied_slot [OF inv i] by (cases "slots t ! ?i") auto
    have "?goal (if fd = table_capacity t then ?i else fd) (step + 1)"
      using Suc.hyps(2) step Suc.prems d free i by (intro IH) (auto simp: less_Suc_eq used_def split: if_splits)
    moreover have "insert_value_loop eqv k v t (bucket hash k t) fd step =
        insert_value_loop eqv k v t (bucket hash k t) (if fd = table_capacity t then ?i else fd) (step + 1)"
      using eq d by simp
    ultimately show ?case by simp
  qed
qed

lemma update_inv:
  assumes inv: "table_inv hash eqv t" and i: "i < table_capacity t" and s: "s = (case e of None \<Rightarrow> deleted_state | Some _ \<Rightarrow> occupied_state)"
    and n: "n = length (entries (t\<lparr>slots := (slots t)[i := e]\<rparr>))"
    and new: "\<And>a. e = Some a \<Longrightarrow> (\<forall>j. matches t (fst a) j \<longrightarrow> j = i) \<and>
      (\<exists>d < table_capacity t. i = probe hash (fst a) t d \<and> (\<forall>d' < d. used (probe hash (fst a) t d') t))"
  shows "table_inv hash eqv \<lparr>table_size = n, states = (states t)[i := s], slots = (slots t)[i := e]\<rparr>" (is "table_inv hash eqv ?t")
proof -
  have N: "table_capacity ?t = table_capacity t" "length (states t) = table_capacity t" "length (slots t) = table_capacity t"
    using table_inv_sizes(3) [OF inv] by (simp_all add: table_capacity_def)
  have u: "used j t \<Longrightarrow> used j ?t" for j
    using s i by (cases "j = i") (auto simp: used_def N split: option.splits)
  have pr: "probe hash k ?t d = probe hash k t d" for k d by (simp add: probe_def bucket_def N)
  have slot: "j < table_capacity t \<Longrightarrow> (slots t)[i := e'] ! j = (if j = i then e' else slots t ! j)" for j e' by (simp add: N nth_list_update)
  have state: "j < table_capacity t \<Longrightarrow> (states t)[i := s'] ! j = (if j = i then s' else states t ! j)" for j s' by (simp add: N nth_list_update)
  have ent: "entries ?t = entries (t\<lparr>slots := (slots t)[i := e]\<rparr>)" by (simp add: entries_def)
  show ?thesis unfolding table_inv_def
  proof (intro conjI allI impI)
    show "0 < table_capacity ?t" "2 * table_capacity ?t \<le> size_mod" using table_inv_sizes [OF inv] by (simp_all add: N)
    show "length (slots ?t) = table_capacity ?t" by (simp add: N)
    show "table_size ?t = length (entries ?t)" using n ent by simp
  next
    fix j assume "j < table_capacity ?t"
    then show "(states ?t ! j = occupied_state) = (slots ?t ! j \<noteq> None)" "states ?t ! j \<in> {empty_state, occupied_state, deleted_state}"
      unfolding N using occupied_slot [OF inv, of j] state_cases [OF inv, of j] s
      by (auto simp: slot state simp del: not_None_eq split: option.splits)
  next
    fix j l a b
    assume jl: "j < table_capacity ?t" "l < table_capacity ?t" "slots ?t ! j = Some a" "slots ?t ! l = Some b" "eqv (fst a) (fst b)"
    have "l = i" if "j = i" using that jl(2,3,4) eqv_sym [OF jl(5)] new [of a] i unfolding N by (cases b) (auto simp: slot matches_def split: if_splits)
    moreover have "j = i" if "l = i" using that jl(1,3,4,5) new [of b] i unfolding N by (cases a) (auto simp: slot matches_def split: if_splits)
    moreover have "j = l" if "j \<noteq> i" "l \<noteq> i"
      using matches_unique [OF inv, of "fst b" j l] that jl eqv_refl unfolding N by (cases a; cases b) (auto simp: slot matches_def)
    ultimately show "j = l" by blast
  next
    fix j a assume j: "j < table_capacity ?t" "slots ?t ! j = Some a"
    show "\<exists>d < table_capacity ?t. j = probe hash (fst a) ?t d \<and> (\<forall>d' < d. used (probe hash (fst a) ?t d') ?t)"
    proof (cases "j = i")
      case True
      with j new [of a] u show ?thesis unfolding pr N by (auto simp: slot)
    next
      case False
      with j have "matches t (fst a) j" unfolding N by (auto simp: slot matches_def eqv_refl)
      from matches_path [OF inv this] u show ?thesis unfolding pr N by auto
    qed
  qed
qed

lemma look_update:
  assumes inv: "table_inv hash eqv t" and inv': "table_inv hash eqv t'" and i: "i < table_capacity t"
    and t': "slots t' = (slots t)[i := e]" "table_capacity t' = table_capacity t"
    and old: "\<forall>b. slots t ! i = Some b \<longrightarrow> eqv (fst b) k" and new: "\<forall>a. e = Some a \<longrightarrow> eqv (fst a) k"
    and other: "\<forall>j. matches t k j \<longrightarrow> j = i"
  shows "table_look eqv t' = (\<lambda>k'. if eqv k k' then map_option snd e else table_look eqv t k')"
proof
  fix k'
  have slot: "j < table_capacity t \<Longrightarrow> slots t' ! j = (if j = i then e else slots t ! j)" for j
    using table_inv_sizes(3) [OF inv] by (simp add: t' nth_list_update)
  have "table_look eqv t' k' = Some v \<longleftrightarrow> (if eqv k k' then map_option snd e else table_look eqv t k') = Some v" for v
  proof (cases "eqv k k'")
    case True
    have "eqv a k \<longleftrightarrow> eqv a k'" for a using True eqv_trans eqv_sym by blast
    with True show ?thesis
      using i new other unfolding look_iff [OF inv'] t'(2) by (auto simp: slot matches_def split: if_splits)
  next
    case False
    then have "\<not> eqv a k'" if "eqv a k" for a using that eqv_trans eqv_sym by blast
    with False show ?thesis
      using i new old unfolding look_iff [OF inv'] t'(2) look_iff [OF inv] if_not_P [OF False]
      by (metis (no_types, lifting) fst_conv slot)
  qed
  then show "table_look eqv t' k' = (if eqv k k' then map_option snd e else table_look eqv t k')"
    by (metis not_None_eq)
qed

lemma place_ok:
  assumes inv: "table_inv hash eqv t" and absent: "\<forall>i. \<not> matches t k i" and d: "d < table_capacity t"
    and free: "slots t ! probe hash k t d = None" and path: "\<forall>d' < d. used (probe hash k t d') t"
  shows "\<exists>t'. place (probe hash k t d) k v t = Some (status_ok, t') \<and> table_inv hash eqv t' \<and>
    table_look eqv t' = (\<lambda>k'. if eqv k k' then Some v else table_look eqv t k') \<and>
    table_size t' = table_size t + 1 \<and> table_capacity t' = table_capacity t"
proof -
  let ?i = "probe hash k t d"
  let ?t = "\<lparr>table_size = table_size t + 1, states = (states t)[?i := occupied_state], slots = (slots t)[?i := Some (k, v)]\<rparr>"
  have i: "?i < table_capacity t" using probe_less [OF inv] .
  note sizes = table_inv_sizes [OF inv]
  have "table_size t \<le> table_capacity t" using length_live [of "slots t"] sizes by (simp add: entries_def)
  then have small: "table_size t + 1 < size_mod" using sizes(2) by (simp add: size_mod_def)
  then have "place ?i k v t = Some (status_ok, ?t)"
    using i sizes(3) by (simp add: place_def construct_entry_def set_state_def table_capacity_def)
  moreover have inv': "table_inv hash eqv ?t"
    using length_entries_update [of ?i t "Some (k, v)"] i sizes free absent d path
    by (intro update_inv [OF inv i]) auto
  moreover have "table_look eqv ?t = (\<lambda>k'. if eqv k k' then Some v else table_look eqv t k')"
    using look_update [OF inv inv' i, of "Some (k, v)" k] free absent eqv_refl by (simp add: table_capacity_def fun_eq_iff)
  ultimately show ?thesis by (simp add: table_capacity_def)
qed

lemma insert_present:
  assumes "table_inv hash eqv t" and "table_look eqv t k \<noteq> None"
  shows "insert_value hash eqv k v t = Some (status_already_exists, t)"
proof -
  obtain i where i: "matches t k i" using assms(2) look_None [OF assms(1), of k] by metis
  then obtain d where "d < table_capacity t" "i = probe hash k t d" "\<forall>d' < d. used (probe hash k t d') t"
    using matches_path [OF assms(1)] by blast
  with i insert_value_loop_present [OF assms(1), of k d 0] show ?thesis by (simp add: insert_value_def)
qed

lemma insert_absent:
  assumes inv: "table_inv hash eqv t" and "table_look eqv t k = None"
  shows "if table_size t = table_capacity t then insert_value hash eqv k v t = Some (status_full, t)
    else \<exists>t'. insert_value hash eqv k v t = Some (status_ok, t') \<and> table_inv hash eqv t' \<and>
      table_look eqv t' = (\<lambda>k'. if eqv k k' then Some v else table_look eqv t k') \<and>
      table_size t' = table_size t + 1 \<and> table_capacity t' = table_capacity t"
proof -
  have absent: "\<forall>i. \<not> matches t k i" using assms look_None by blast
  have full: "table_size t = table_capacity t \<longleftrightarrow> (\<forall>d < table_capacity t. slots t ! probe hash k t d \<noteq> None)"
    using entries_full [of t] table_inv_sizes [OF inv] probe_less [OF inv] probe_cover [OF inv] by metis
  from insert_value_loop_absent [OF inv absent, of 0 "table_capacity t" v]
  consider d where "d < table_capacity t" "slots t ! probe hash k t d = None" "\<forall>d' < d. used (probe hash k t d') t"
      "insert_value hash eqv k v t = place (probe hash k t d) k v t"
    | "\<forall>d < table_capacity t. slots t ! probe hash k t d \<noteq> None" "insert_value hash eqv k v t = Some (status_full, t)"
    by (auto simp: insert_value_def)
  then show ?thesis
  proof cases
    case 1
    with full place_ok [OF inv absent 1(1-3)] show ?thesis by auto
  next
    case 2
    with full show ?thesis by simp
  qed
qed

lemma erase_present:
  assumes inv: "table_inv hash eqv t" and "table_look eqv t k \<noteq> None"
  shows "\<exists>t'. table_erase hash eqv k t = Some (status_ok, t') \<and> table_inv hash eqv t' \<and>
      table_look eqv t' = (\<lambda>k'. if eqv k k' then None else table_look eqv t k') \<and>
      table_size t' = table_size t - 1 \<and> table_capacity t' = table_capacity t"
proof -
  obtain i where i: "find_index hash eqv k t = Some i" "matches t k i" "i < table_capacity t" "i \<noteq> table_capacity t"
    using find_index_ok [OF inv, of k] assms(2) look_None [OF inv] unfolding matches_def by (metis nat_less_le)
  then obtain a where a: "slots t ! i = Some a" "eqv (fst a) k" by (auto simp: matches_def)
  let ?t = "\<lparr>table_size = table_size t - 1, states = (states t)[i := deleted_state], slots = (slots t)[i := None]\<rparr>"
  note sizes = table_inv_sizes [OF inv]
  have n: "length (entries (t\<lparr>slots := (slots t)[i := None]\<rparr>)) + 1 = table_size t"
    using length_entries_update [of i t None] i(3) sizes a by simp
  have "table_size t \<le> table_capacity t" using length_live [of "slots t"] sizes by (simp add: entries_def)
  then have "usz_sub (table_size t) 1 = table_size t - 1" using n sizes(1,2) by (intro usz_sub_ge) auto
  then have "table_erase hash eqv k t = Some (status_ok, ?t)"
    using i a sizes(3) by (simp add: table_erase_def destroy_entry_def entry_at_def set_state_def table_capacity_def)
  moreover have inv': "table_inv hash eqv ?t"
    using n by (intro update_inv [OF inv i(3)]) auto
  moreover have "table_look eqv ?t = (\<lambda>k'. if eqv k k' then None else table_look eqv t k')"
    using look_update [OF inv inv' i(3), of None k] a matches_unique [OF inv _ i(2)] by (simp add: table_capacity_def fun_eq_iff)
  ultimately show ?thesis by (simp add: table_capacity_def)
qed

lemma erase_absent: "table_inv hash eqv t \<Longrightarrow> table_look eqv t k = None \<Longrightarrow>
    table_erase hash eqv k t = Some (status_not_found, t)"
  using find_index_ok [of t k] look_None [of t k] by (auto simp: table_erase_def split: if_splits)

lemma get_look:
  assumes inv: "table_inv hash eqv t"
  shows "table_get hash eqv k t = Some (table_look eqv t k)"
proof (cases "table_look eqv t k")
  case None
  with find_index_ok [OF inv, of k] look_None [OF inv, of k] show ?thesis
    by (auto simp: table_get_def split: if_splits)
next
  case (Some v)
  obtain i where i: "find_index hash eqv k t = Some i" "matches t k i" "i < table_capacity t"
    using find_index_ok [OF inv, of k] Some look_None [OF inv, of k] unfolding matches_def
    by (metis nat_less_le option.distinct(1))
  then obtain a where a: "slots t ! i = Some a" "eqv (fst a) k" by (auto simp: matches_def)
  have "table_look eqv t k = Some (snd a)" using look_iff [OF inv] i(3) a by (cases a) auto
  with i a show ?thesis by (simp add: table_get_def entry_at_slot [OF inv])
qed

lemma find_index_present:
  assumes inv: "table_inv hash eqv t" and "table_look eqv t k \<noteq> None"
  shows "\<exists>i. find_index hash eqv k t = Some i \<and> matches t k i \<and> i < table_capacity t"
  using find_index_ok [OF inv, of k] assms(2) look_None [OF inv, of k] by (metis matches_def)

lemma find_index_absent:
  "table_inv hash eqv t \<Longrightarrow> table_look eqv t k = None \<Longrightarrow> find_index hash eqv k t = Some (table_capacity t)"
  using find_index_ok [of t k] look_None [of t k] by (auto split: if_splits)

lemma contains_look: "table_inv hash eqv t \<Longrightarrow> table_contains hash eqv k t = Some (table_look eqv t k \<noteq> None)"
  using find_index_present [of t k] find_index_absent [of t k]
  by (cases "table_look eqv t k") (auto simp: table_contains_def)

lemma emplace_insert: "table_inv hash eqv t \<Longrightarrow> table_emplace hash eqv k v t = table_insert hash eqv k v t"
  using find_index_present [of t k] find_index_absent [of t k] insert_present [of t k v]
  by (cases "table_look eqv t k") (auto simp: table_emplace_def table_insert_def)

lemma assign_present:
  assumes inv: "table_inv hash eqv t" and present: "table_look eqv t k \<noteq> None"
  shows "\<exists>t'. table_insert_or_assign hash eqv k v t = Some (status_ok, t') \<and> table_inv hash eqv t' \<and>
      table_look eqv t' = (\<lambda>k'. if eqv k k' then Some v else table_look eqv t k') \<and>
      table_size t' = table_size t \<and> table_capacity t' = table_capacity t"
proof -
  obtain i where i: "find_index hash eqv k t = Some i" "matches t k i" "i < table_capacity t"
    using find_index_present [OF inv present] by blast
  then obtain a where a: "slots t ! i = Some a" "eqv (fst a) k" by (auto simp: matches_def)
  let ?e = "Some (fst a, v)"
  let ?t = "\<lparr>table_size = table_size t, states = (states t)[i := occupied_state], slots = (slots t)[i := ?e]\<rparr>"
  note sizes = table_inv_sizes [OF inv]
  have "states t ! i = occupied_state" using occupied_slot [OF inv i(3)] a by simp
  then have same: "(states t)[i := occupied_state] = states t" by (metis list_update_id)
  have "table_insert_or_assign hash eqv k v t = Some (status_ok, ?t)"
    using i a by (simp add: table_insert_or_assign_def entry_at_slot [OF inv i(3)] same)
  moreover have inv': "table_inv hash eqv ?t"
  proof (rule update_inv [OF inv i(3)])
    show "table_size t = length (entries (t\<lparr>slots := (slots t)[i := ?e]\<rparr>))"
      using length_entries_update [of i t ?e] i(3) sizes a by simp
    have "matches t (fst a) i" using a(1) i(3) eqv_refl by (cases a) (auto simp: matches_def)
    then show "(\<forall>j. matches t (fst b) j \<longrightarrow> j = i) \<and>
        (\<exists>d < table_capacity t. i = probe hash (fst b) t d \<and> (\<forall>d' < d. used (probe hash (fst b) t d') t))" if "?e = Some b" for b
      using that matches_unique [OF inv] matches_path [OF inv, of "fst a" i] by auto
  qed simp
  moreover have "table_look eqv ?t = (\<lambda>k'. if eqv k k' then Some v else table_look eqv t k')"
    using look_update [OF inv inv' i(3), of ?e k] a matches_unique [OF inv _ i(2)] by (simp add: table_capacity_def fun_eq_iff)
  ultimately show ?thesis by (simp add: table_capacity_def)
qed

lemma assign_absent: "table_inv hash eqv t \<Longrightarrow> table_look eqv t k = None \<Longrightarrow>
    table_insert_or_assign hash eqv k v t = table_insert hash eqv k v t"
  using find_index_absent [of t k] by (simp add: table_insert_or_assign_def)

lemma table_init_inv: "0 < N \<Longrightarrow> 2 * N \<le> size_mod \<Longrightarrow> table_inv hash eqv (table_init N)"
  unfolding table_inv_def by (simp, simp add: table_init_def)

end

text \<open>\<open>clear()\<close>: the slots before the loop index are dead and empty, the others as before.\<close>

lemma table_clear_loop_ok:
  "length (slots t) = N \<Longrightarrow> length (states t) = N \<Longrightarrow> i \<le> N \<Longrightarrow>
   \<forall>j. i \<le> j \<longrightarrow> j < N \<longrightarrow> (states t ! j = occupied_state \<longleftrightarrow> slots t ! j \<noteq> None) \<Longrightarrow>
   \<forall>j < i. slots t ! j = None \<and> states t ! j = empty_state \<Longrightarrow>
   table_clear_loop N i t = Some (t\<lparr>states := replicate N empty_state, slots := replicate N None\<rparr>)"
proof (induction "N - i" arbitrary: i t)
  case 0
  then have "states t = replicate N empty_state" "slots t = replicate N None"
    by (auto intro: nth_equalityI)
  with 0 show ?case by (simp add: table_clear_loop.simps)
next
  case (Suc n)
  then have i: "i < N" by simp
  define t' where "t' = t\<lparr>slots := (slots t)[i := None], states := (states t)[i := empty_state]\<rparr>"
  have "table_clear_loop N i t = table_clear_loop N (i + 1) t'"
  proof (cases "slots t ! i")
    case None
    then have "(slots t)[i := None] = slots t" using i Suc.prems(1) by (metis list_update_id)
    with None i Suc.prems show ?thesis
      by (subst table_clear_loop.simps) (simp add: state_at_def set_state_def t'_def)
  next
    case (Some a)
    with i Suc.prems show ?thesis
      by (subst table_clear_loop.simps) (simp add: state_at_def set_state_def destroy_entry_def entry_at_def t'_def)
  qed
  also have "\<dots> = Some (t'\<lparr>states := replicate N empty_state, slots := replicate N None\<rparr>)"
    using Suc.hyps(2) Suc.prems i by (intro Suc.hyps(1)) (auto simp: t'_def nth_list_update less_Suc_eq)
  finally show ?case by (simp add: t'_def)
qed

lemma table_clear_ok: "table_inv hash eqv t \<Longrightarrow> table_clear t = Some (table_init (table_capacity t))"
  using table_inv_sizes(3) [of hash eqv t]
  by (subst table_clear_def, subst table_clear_loop_ok)
    (auto simp: table_inv_def table_capacity_def table_init_def)

text \<open>Iteration: the index skips slots that hold nothing.\<close>

lemma skip_live:
  assumes "i < length xs" and "xs ! i = None"
  shows "concat (map live (drop i xs)) = concat (map live (drop (Suc i) xs))"
  using assms by (simp add: Cons_nth_drop_Suc [symmetric])

lemma advance_index_loop_ok:
  assumes inv: "table_inv hash eqv t"
  shows "i \<le> table_capacity t \<Longrightarrow> advance_index_loop i t \<le> table_capacity t \<and>
    (advance_index_loop i t < table_capacity t \<longrightarrow> slots t ! advance_index_loop i t \<noteq> None) \<and>
    concat (map live (drop (advance_index_loop i t) (slots t))) = concat (map live (drop i (slots t)))"
  using inv
proof (induction i t rule: advance_index_loop.induct)
  case (1 i t)
  have occ: "i < table_capacity t \<Longrightarrow> (states t ! i = occupied_state) = (slots t ! i \<noteq> None)"
    and len: "length (slots t) = table_capacity t"
    using "1.prems"(2) unfolding table_inv_def by blast+
  show ?case
  proof (cases "i < table_capacity t \<and> states t ! i \<noteq> occupied_state")
    case True
    then have "slots t ! i = None" using occ by blast
    with True show ?thesis
      using "1.IH" [OF True] "1.prems" skip_live [of i "slots t"] len by (simp add: advance_index_loop.simps [of i])
  next
    case False
    then have "advance_index_loop i t = i" by (subst advance_index_loop.simps) (rule if_not_P)
    with False occ show ?thesis using "1.prems"(1) by auto
  qed
qed

lemma first_occupied_loop_advance: "i \<le> table_capacity t \<Longrightarrow> first_occupied_loop i t = advance_index_loop i t"
  by (induction i t rule: first_occupied_loop.induct)
    (subst first_occupied_loop.simps, subst advance_index_loop.simps, auto)

lemma table_visit_ok:
  assumes inv: "table_inv hash eqv t"
  shows "i \<le> table_capacity t \<Longrightarrow> (i < table_capacity t \<longrightarrow> slots t ! i \<noteq> None) \<Longrightarrow>
    table_visit i t = Some (concat (map live (drop i (slots t))))"
  using inv
proof (induction i t rule: table_visit.induct)
  case (1 i t)
  have len: "length (slots t) = table_capacity t" using table_inv_sizes(3) [OF "1.prems"(3)] .
  show ?case
  proof (cases "i < table_capacity t")
    case False
    then show ?thesis using "1.prems"(1) len by (subst table_visit.simps) (simp add: table_end_def)
  next
    case True
    then obtain e where e: "slots t ! i = Some e" using "1.prems"(2) by auto
    have d: "drop i (slots t) = Some e # drop (Suc i) (slots t)" using True len e by (simp add: Cons_nth_drop_Suc [symmetric])
    have "table_visit (advance_index i t) t = Some (concat (map live (drop (Suc i) (slots t))))"
      using True advance_index_loop_ok [OF "1.prems"(3), of "Suc i"] "1.IH" [of e] "1.prems"(3) e len
      by (simp add: table_end_def advance_index_def entry_at_def)
    with True e len show ?thesis by (subst table_visit.simps) (simp add: table_end_def entry_at_def d)
  qed
qed

lemma table_begin_ok: "table_inv hash eqv t \<Longrightarrow> table_visit (table_begin t) t = Some (entries t)"
  using advance_index_loop_ok [of hash eqv t 0] table_visit_ok [of hash eqv t]
  by (simp add: table_begin_def first_occupied_def first_occupied_loop_advance entries_def)

section \<open>The contract\<close>

sublocale hashing \<subseteq> table: bounded_map eqv "table_inv hash eqv" "table_look eqv" table_size table_capacity
  "table_insert hash eqv" "table_erase hash eqv" "table_get hash eqv"
proof
  fix t :: "('k, 'v) table" and k v
  assume inv: "table_inv hash eqv t"
  show "table_get hash eqv k t = Some (table_look eqv t k)" by (rule get_look [OF inv])
  show "table_insert hash eqv k v t = Some (status_already_exists, t)" if "table_look eqv t k \<noteq> None"
    using insert_present [OF inv that] by (simp add: table_insert_def)
  show "table_insert hash eqv k v t = Some (status_full, t)" if "table_look eqv t k = None" "table_size t = table_capacity t"
    using insert_absent [OF inv that(1), of v] that(2) by (simp add: table_insert_def)
  show "\<exists>t'. table_insert hash eqv k v t = Some (status_ok, t') \<and> table_inv hash eqv t' \<and>
      table_look eqv t' = (\<lambda>k'. if eqv k k' then Some v else table_look eqv t k') \<and>
      table_size t' = table_size t + 1 \<and> table_capacity t' = table_capacity t"
    if "table_look eqv t k = None" "table_size t \<noteq> table_capacity t"
    using insert_absent [OF inv that(1), of v] that(2) by (simp add: table_insert_def)
  show "table_erase hash eqv k t = Some (status_not_found, t)" if "table_look eqv t k = None"
    by (rule erase_absent [OF inv that])
  show "\<exists>t'. table_erase hash eqv k t = Some (status_ok, t') \<and> table_inv hash eqv t' \<and>
      table_look eqv t' = (\<lambda>k'. if eqv k k' then None else table_look eqv t k') \<and>
      table_size t' = table_size t - 1 \<and> table_capacity t' = table_capacity t" if "table_look eqv t k \<noteq> None"
    by (rule erase_present [OF inv that])
qed

context hashing
begin

lemmas table_run_spec = table.run_spec

end

interpretation integral_keys: hashing hash_integral equal_to
  by unfold_locales (simp_all add: equal_to_def)

interpretation string_keys: hashing hash_string equal_to
  by unfold_locales (simp_all add: equal_to_def)

section \<open>What a hash table promises\<close>

text \<open>C19: a \<open>hash_map\<close> is a map: whatever the collisions and however many tombstones erasures have left,
  any sequence of insertions, erasures and lookups on a fresh table of \<open>N\<close> slots returns what the finite
  function of capacity \<open>N\<close> returns; every probe ends, no operation has undefined behaviour.  The hash may
  be any that agrees with the equality.\<close>

theorem hash_table_is_map:
  assumes "hashing hash eqv" and "0 < N" and "2 * N \<le> size_mod"
  shows "map_option fst (bounded_map.run (table_insert hash eqv) (table_erase hash eqv) (table_get hash eqv) ops (table_init N)) =
    Some (map_spec_run eqv N ops (\<lambda>_. None, 0))"
  using hashing.table_run_spec [OF assms(1) hashing.table_init_inv [OF assms], of ops] by auto

theorem hash_table_is_map_witness:
  "map_option fst (bounded_map.run (table_insert hash_integral equal_to) (table_erase hash_integral equal_to)
      (table_get hash_integral equal_to)
      [Insert 5 50, Insert 3 30, Insert 5 51, Erase 5, Insert 8 80, Insert 9 90, Get 3, Get (5 :: u64)] (table_init 2)) =
    Some [Status status_ok, Status status_ok, Status status_already_exists, Status status_ok, Status status_ok,
      Status status_full, Value (Some 30), Value (None :: nat option)]"
  by (subst hash_table_is_map [OF integral_keys.hashing_axioms])
    (simp_all add: map_spec_def equal_to_def size_mod_def)

text \<open>The other operations of the table: iteration visits \<open>size()\<close> entries, exactly those a lookup finds;
  \<open>contains\<close> agrees with \<open>get\<close>; \<open>insert_or_assign\<close> replaces the value of a key that is there and inserts
  it otherwise; \<open>clear()\<close> ends the lifetime of every entry once and leaves a fresh table.\<close>

theorem hash_table_operations:
  assumes "hashing hash eqv" and "table_inv hash eqv t"
  shows "(\<exists>es. table_visit (table_begin t) t = Some es \<and> length es = table_size t \<and>
      (\<forall>k v. table_get hash eqv k t = Some (Some v) \<longleftrightarrow> (\<exists>k'. (k', v) \<in> set es \<and> eqv k' k))) \<and>
    (\<exists>f. table_get hash eqv k t = Some f \<and> table_contains hash eqv k t = Some (f \<noteq> None) \<and>
      (if f = None then table_insert_or_assign hash eqv k v t = table_insert hash eqv k v t
       else \<exists>t'. table_insert_or_assign hash eqv k v t = Some (status_ok, t') \<and> table_inv hash eqv t' \<and>
         (\<forall>k'. table_get hash eqv k' t' = (if eqv k k' then Some (Some v) else table_get hash eqv k' t)))) \<and>
    table_clear t = Some (table_init (table_capacity t))"
proof -
  note look = hashing.get_look [OF assms] and sizes = table_inv_sizes [OF assms(2)]
  have "table_get hash eqv k t = Some (Some v) \<longleftrightarrow> (\<exists>k'. (k', v) \<in> set (entries t) \<and> eqv k' k)" for k v
    by (auto simp: look hashing.look_iff [OF assms] set_entries sizes(3))
  moreover have "if table_look eqv t k = None then table_insert_or_assign hash eqv k v t = table_insert hash eqv k v t
      else \<exists>t'. table_insert_or_assign hash eqv k v t = Some (status_ok, t') \<and> table_inv hash eqv t' \<and>
         (\<forall>k'. table_get hash eqv k' t' = (if eqv k k' then Some (Some v) else table_get hash eqv k' t))"
    using hashing.assign_absent [OF assms, of k v] hashing.assign_present [OF assms, of k v]
    by (auto simp: look hashing.get_look [OF assms(1)])
  ultimately show ?thesis
    using table_begin_ok [OF assms(2)] table_clear_ok [OF assms(2)] sizes(4) look hashing.contains_look [OF assms] by simp
qed

theorem hash_table_operations_witness:
  "\<exists>t. table_insert hash_integral equal_to (7 :: u64) (70 :: nat) (table_init 3) = Some (status_ok, t) \<and>
    table_visit (table_begin t) t = Some [(7, 70)] \<and> table_clear t = Some (table_init 3)"
proof -
  obtain t where t: "table_insert hash_integral equal_to (7 :: u64) (70 :: nat) (table_init 3) = Some (status_ok, t)"
    "table_inv hash_integral equal_to t" "table_size t = 1" "table_capacity t = 3" "table_look equal_to t 7 = Some 70"
    using integral_keys.insert_absent [OF integral_keys.table_init_inv [of 3], of 7 "70 :: nat"]
    by (auto simp: size_mod_def table_insert_def equal_to_def)
  obtain es where es: "table_visit (table_begin t) t = Some es" "length es = 1" "\<exists>k'. (k', 70) \<in> set es \<and> k' = 7"
    and clear: "table_clear t = Some (table_init 3)"
    using hash_table_operations [OF integral_keys.hashing_axioms t(2), of 7 70] t(3-5) integral_keys.get_look [OF t(2)]
    by (auto simp: equal_to_def)
  then have "es = [(7, 70)]" by (cases es) auto
  with es(1) t(1) clear show ?thesis by blast
qed

end

