(* ===== verification/Codec.thy ===== *)
theory Codec
  imports Prelude
begin

text \<open>
  The contract that the text codecs of \<open>castle_ext/codecs\<close> share.  An encoder and a decoder
  work on caller-owned buffers; \<open>etext\<close> is the text an encoder promises for a byte sequence.
  The locale derives, once for all codecs, that a decode after an encode gives the bytes back,
  that nothing behind the reported size is touched, and that the text is injective.
\<close>

type_synonym codec_fun = "u8 ptr \<Rightarrow> u8 ptr \<Rightarrow> (status \<times> nat \<times> u8 ptr) option"

locale text_codec =
  fixes enc :: codec_fun
    and dec :: codec_fun
    and etext :: "u8 list \<Rightarrow> u8 list"
  assumes enc_ok: "length (etext bs) < size_mod \<Longrightarrow> length (etext bs) \<le> length buf \<Longrightarrow>
      enc (Mem bs) (Mem buf) = Some (status_ok, length (etext bs), Mem (etext bs @ drop (length (etext bs)) buf))"
    and enc_full: "length (etext bs) < size_mod \<Longrightarrow> length buf < length (etext bs) \<Longrightarrow>
      enc (Mem bs) (Mem buf) = Some (status_full, 0, Mem buf)"
    and dec_ok: "length (etext bs) < size_mod \<Longrightarrow> length bs \<le> length buf \<Longrightarrow>
      dec (Mem (etext bs)) (Mem buf) = Some (status_ok, length bs, Mem (bs @ drop (length bs) buf))"
begin

lemma roundtrip:
  assumes "length (etext bs) < size_mod" and "length (etext bs) \<le> length buf"
    and "length bs \<le> length buf'"
  shows "\<exists>n out. enc (Mem bs) (Mem buf) = Some (status_ok, n, Mem out) \<and>
    length out = length buf \<and> drop n out = drop n buf \<and>
    dec (Mem (take n out)) (Mem buf') = Some (status_ok, length bs, Mem (bs @ drop (length bs) buf'))"
  using assms by (simp add: enc_ok dec_ok)

lemma etext_inj:
  assumes "etext bs = etext cs" and "length (etext bs) < size_mod"
  shows "bs = cs"
proof -
  let ?buf = "replicate (length bs + length cs) 0"
  have "dec (Mem (etext bs)) (Mem ?buf) = dec (Mem (etext cs)) (Mem ?buf)"
    using assms by simp
  moreover have "length (etext cs) < size_mod" using assms by simp
  ultimately have "length bs = length cs" and "bs @ drop (length bs) ?buf = cs @ drop (length cs) ?buf"
    using assms(2) by (simp_all add: dec_ok)
  then show ?thesis by simp
qed

end

end
