(* ===== verification/Hex.thy ===== *)
theory Hex
  imports Codec
begin

text \<open>
  The hexadecimal codec of \<open>castle_ext/codecs/hex.hpp\<close>: \<open>hex_encode\<close> and \<open>hex_decode\<close> over
  caller-owned buffers.  A result \<open>None\<close> is an access outside a buffer.  The lemmas show that
  neither function ever makes one, what each writes, and that decoding inverts encoding in
  either letter case.
\<close>

section \<open>Definitions\<close>

definition hex_encoded_size :: "nat \<Rightarrow> nat" where
  "hex_encoded_size input_size = usz (input_size * 2)"

definition hex_value :: "u8 \<Rightarrow> u8" where
  "hex_value c =
     (if c \<ge> 0x30 \<and> c \<le> 0x39 then c - 0x30
      else if c \<ge> 0x41 \<and> c \<le> 0x46 then c - 0x41 + 10
      else if c \<ge> 0x61 \<and> c \<le> 0x66 then c - 0x61 + 10
      else 0xFF)"

definition hex_alphabet :: "bool \<Rightarrow> u8 list" where
  "hex_alphabet uppercase = map of_char (if uppercase then ''0123456789ABCDEF'' else ''0123456789abcdef'')"

function hex_encode_loop :: "bool \<Rightarrow> u8 ptr \<Rightarrow> nat \<Rightarrow> nat \<Rightarrow> u8 ptr \<Rightarrow> u8 ptr option" where
  "hex_encode_loop uppercase input input_size i output =
     (if i < input_size
      then do {
        b \<leftarrow> rd input i;
        output \<leftarrow> put output (2 * i) (hex_alphabet uppercase ! unat (drop_bit 4 b AND 0x0F));
        output \<leftarrow> put output (2 * i + 1) (hex_alphabet uppercase ! unat (b AND 0x0F));
        hex_encode_loop uppercase input input_size (Suc i) output }
      else Some output)"
  by pat_completeness auto
termination
  by (relation "measure (\<lambda>(_, _, n, i, _). n - i)") auto

declare hex_encode_loop.simps [simp del]

definition hex_encode :: "u8 ptr \<Rightarrow> u8 ptr \<Rightarrow> bool \<Rightarrow> (status \<times> nat \<times> u8 ptr) option" where
  "hex_encode input output uppercase =
     (if is_null input \<and> psize input \<noteq> 0 then Some (status_invalid_argument, 0, output)
      else if is_null output \<and> psize output \<noteq> 0 then Some (status_invalid_argument, 0, output)
      else
        let required = hex_encoded_size (psize input) in
        if required > psize output then Some (status_full, 0, output)
        else if required \<noteq> 0 \<and> is_null output then Some (status_invalid_argument, 0, output)
        else do {
          output \<leftarrow> hex_encode_loop uppercase input (psize input) 0 output;
          Some (status_ok, required, output) })"

function hex_decode_loop :: "u8 ptr \<Rightarrow> nat \<Rightarrow> nat \<Rightarrow> u8 ptr \<Rightarrow> (status \<times> u8 ptr) option" where
  "hex_decode_loop input required i output =
     (if i < required
      then do {
        h \<leftarrow> rd input (2 * i);
        l \<leftarrow> rd input (2 * i + 1);
        let high = hex_value h; low = hex_value l in
        if high = 0xFF \<or> low = 0xFF then Some (status_invalid_argument, output)
        else do {
          output \<leftarrow> put output i (push_bit 4 high OR low);
          hex_decode_loop input required (Suc i) output } }
      else Some (status_ok, output))"
  by pat_completeness auto
termination
  by (relation "measure (\<lambda>(_, n, i, _). n - i)") auto

declare hex_decode_loop.simps [simp del]

definition hex_decode :: "u8 ptr \<Rightarrow> u8 ptr \<Rightarrow> (status \<times> nat \<times> u8 ptr) option" where
  "hex_decode input output =
     (if is_null input \<and> psize input \<noteq> 0 then Some (status_invalid_argument, 0, output)
      else if is_null output \<and> psize output \<noteq> 0 then Some (status_invalid_argument, 0, output)
      else if odd (psize input) then Some (status_invalid_argument, 0, output)
      else
        let required = psize input div 2 in
        if required > psize output then Some (status_full, 0, output)
        else if required \<noteq> 0 \<and> is_null output then Some (status_invalid_argument, 0, output)
        else do {
          (s, output) \<leftarrow> hex_decode_loop input required 0 output;
          Some (s, if s = status_ok then required else 0, output) })"

section \<open>What the loops write\<close>

definition hex_digit :: "bool \<Rightarrow> u8 \<Rightarrow> u8" where
  "hex_digit uppercase v = hex_alphabet uppercase ! unat v"

definition hex_pair :: "bool \<Rightarrow> u8 \<Rightarrow> u8 list" where
  "hex_pair uppercase b = [hex_digit uppercase (drop_bit 4 b AND 0x0F), hex_digit uppercase (b AND 0x0F)]"

definition hex_text :: "bool \<Rightarrow> u8 list \<Rightarrow> u8 list" where
  "hex_text uppercase bs = concat (map (hex_pair uppercase) bs)"

lemma hex_text_simps [simp]:
  "hex_text up [] = []"
  "hex_text up (b # bs) = hex_pair up b @ hex_text up bs"
  by (simp_all add: hex_text_def)

lemma length_hex_text [simp]: "length (hex_text up bs) = 2 * length bs"
  by (induction bs) (simp_all add: hex_pair_def)

lemma hex_encode_loop_store:
  "i \<le> length xs \<Longrightarrow>
   hex_encode_loop up (Mem xs) (length xs) i out = store out (2 * i) (hex_text up (drop i xs))"
proof (induction "length xs - i" arbitrary: i out)
  case 0
  then show ?case by (simp add: hex_encode_loop.simps)
next
  case (Suc d)
  then have i: "i < length xs" by simp
  with Suc have IH: "hex_encode_loop up (Mem xs) (length xs) (Suc i)
      = (\<lambda>q. store q (Suc (Suc (2 * i))) (hex_text up (drop (Suc i) xs)))"
    by (simp add: fun_eq_iff)
  from i have "drop i xs = xs ! i # drop (Suc i) xs"
    by (simp add: Cons_nth_drop_Suc)
  with i show ?case
    by (simp add: hex_encode_loop.simps [of up "Mem xs" "length xs" i] IH store_Cons
        hex_pair_def hex_digit_def)
qed

lemma hex_value_digits:
  "\<forall>v \<in> set (map word_of_nat [0..<16]). \<forall>up.
     hex_value (hex_digit up v) = v \<and> v \<noteq> 0xFF"
  by (simp add: upt_rec hex_value_def hex_digit_def hex_alphabet_def all_bool_eq)

lemma low_nibble_range: "(w AND 0x0F :: u8) \<in> set (map word_of_nat [0..<16])"
proof -
  have "w AND 0x0F \<le> (0x0F :: u8)" by (rule word_and_le1)
  then have "unat (w AND 0x0F) < 16" by (simp add: word_le_nat_alt)
  moreover have "w AND 0x0F = word_of_nat (unat (w AND 0x0F))" by simp
  ultimately show ?thesis by (metis atLeastLessThan_iff imageI set_map set_upt zero_le)
qed

lemma hex_value_digit [simp]:
  "hex_value (hex_digit up (w AND 0x0F)) = w AND 0x0F" "(w AND 0x0F :: u8) \<noteq> 0xFF"
  using hex_value_digits low_nibble_range [of w] by blast+

lemma nibbles_join [simp]: "(push_bit 4 (drop_bit 4 b) AND 0xF0) OR (b AND 0x0F) = (b :: u8)"
  by (rule u8_eqI) (simp_all add: bit_simps)

lemma hex_text_nth:
  "i < length bs \<Longrightarrow> hex_text up bs ! (2 * i) = hex_digit up (drop_bit 4 (bs ! i) AND 0x0F)"
  "i < length bs \<Longrightarrow> hex_text up bs ! Suc (2 * i) = hex_digit up (bs ! i AND 0x0F)"
  by (induction bs arbitrary: i) (auto simp: hex_pair_def nth_Cons split: nat.split)

lemma hex_decode_loop_text:
  "i \<le> length bs \<Longrightarrow>
   hex_decode_loop (Mem (hex_text up bs)) (length bs) i out
     = map_option (\<lambda>q. (status_ok, q)) (store out i (drop i bs))"
proof (induction "length bs - i" arbitrary: i out)
  case 0
  then show ?case by (simp add: hex_decode_loop.simps)
next
  case (Suc d)
  then have i: "i < length bs" by simp
  with Suc have IH: "hex_decode_loop (Mem (hex_text up bs)) (length bs) (Suc i)
      = (\<lambda>q. map_option (\<lambda>q. (status_ok, q)) (store q (Suc i) (drop (Suc i) bs)))"
    by (simp add: fun_eq_iff)
  from i have d: "drop i bs = bs ! i # drop (Suc i) bs"
    by (simp add: Cons_nth_drop_Suc)
  show ?case
    using i
    by (simp add: hex_decode_loop.simps [of "Mem (hex_text up bs)" "length bs" i] IH d
        hex_text_nth Let_def store_Cons [symmetric] map_option_bind comp_def)
qed

section \<open>The codec contract\<close>

lemma hex_encode_mem:
  assumes "2 * length bs < size_mod"
  shows "hex_encode (Mem bs) (Mem buf) up =
    (if 2 * length bs \<le> length buf
     then Some (status_ok, 2 * length bs, Mem (hex_text up bs @ drop (2 * length bs) buf))
     else Some (status_full, 0, Mem buf))"
  using assms hex_encode_loop_store [of 0 bs up "Mem buf"]
  by (auto simp: hex_encode_def hex_encoded_size_def Let_def mult.commute)

lemma hex_decode_text:
  assumes "length bs \<le> length buf"
  shows "hex_decode (Mem (hex_text up bs)) (Mem buf) =
    Some (status_ok, length bs, Mem (bs @ drop (length bs) buf))"
  using assms hex_decode_loop_text [of 0 bs up "Mem buf"]
  by (simp add: hex_decode_def Let_def)

interpretation hex: text_codec "\<lambda>i q. hex_encode i q up" hex_decode "hex_text up" for up
  by unfold_locales (auto simp: hex_encode_mem hex_decode_text)

text \<open>Encoding to hexadecimal and decoding the produced text, in either letter case, gives
  the input bytes back; the encoder leaves every buffer cell behind the text untouched.\<close>

theorem hex_roundtrip:
  assumes "2 * length bs < size_mod" and "2 * length bs \<le> length buf" and "length bs \<le> length buf'"
  shows "\<exists>n out. hex_encode (Mem bs) (Mem buf) up = Some (status_ok, n, Mem out) \<and>
    length out = length buf \<and> drop n out = drop n buf \<and>
    hex_decode (Mem (take n out)) (Mem buf') = Some (status_ok, length bs, Mem (bs @ drop (length bs) buf'))"
  using assms by (intro hex.roundtrip) simp_all

theorem hex_roundtrip_witness:
  "\<exists>n out. hex_encode (Mem [0xDE, 0xAD]) (Mem [0, 0, 0, 0, 7]) True = Some (status_ok, n, Mem out) \<and>
    length out = length [0, 0, 0, 0, 7 :: u8] \<and> drop n out = drop n [0, 0, 0, 0, 7] \<and>
    hex_decode (Mem (take n out)) (Mem [1, 1]) =
      Some (status_ok, length [0xDE, 0xAD :: u8], Mem ([0xDE, 0xAD] @ drop (length [0xDE, 0xAD :: u8]) [1, 1]))"
  by (rule hex_roundtrip) (simp_all add: size_mod_def)

text \<open>The decoder accepts either letter case and never leaves its buffers, whatever the input.\<close>

lemma hex_decode_loop_safe:
  assumes "2 * r \<le> length xs" and "r \<le> length ys"
  shows "\<exists>s zs. hex_decode_loop (Mem xs) r i (Mem ys) = Some (s, Mem zs) \<and> length zs = length ys"
  using assms
proof (induction "r - i" arbitrary: i ys)
  case 0
  then show ?case by (simp add: hex_decode_loop.simps)
next
  case (Suc d)
  then have i: "i < r" by simp
  have IH: "\<exists>s zs. hex_decode_loop (Mem xs) r (Suc i) (Mem (ys[i := v])) = Some (s, Mem zs) \<and> length zs = length ys" for v
    using Suc.hyps(1) [of "Suc i" "ys[i := v]"] Suc.hyps(2) Suc.prems by simp
  with i Suc.prems show ?case
    by (auto simp: hex_decode_loop.simps [of "Mem xs" r i] Let_def)
qed

text \<open>\<open>hex_decode\<close> is memory safe for every pair of arguments, null pointers included: it
  returns a status, and on any status but \<open>ok\<close> it reports zero bytes.\<close>

theorem hex_decode_total:
  "\<exists>s n out. hex_decode input output = Some (s, n, out) \<and> psize out = psize output \<and>
    (if s = status_ok then 2 * n = psize input else n = 0)"
proof (cases "input"; cases "output")
  fix xs ys assume [simp]: "input = Mem xs" "output = Mem ys"
  show ?thesis
  proof (cases "even (length xs) \<and> length xs div 2 \<le> length ys")
    case True
    then obtain s zs where "hex_decode_loop (Mem xs) (length xs div 2) 0 (Mem ys) = Some (s, Mem zs)"
      and "length zs = length ys"
      using hex_decode_loop_safe [of "length xs div 2" xs ys 0] by auto
    with True show ?thesis by (auto simp: hex_decode_def Let_def)
  qed (auto simp: hex_decode_def Let_def)
qed (auto simp: hex_decode_def Let_def hex_decode_loop.simps)

end
