(* ===== verification/Base64.thy ===== *)
theory Base64
  imports Codec
begin

text \<open>
  The Base64 codec of \<open>castle_ext/codecs/base64.hpp\<close>, with both alphabets and optional padding.
  The encoder is refined to the text \<open>b64_text\<close>; the decoder is shown to invert it, to accept
  nothing else, and to stay inside its buffers.
\<close>

section \<open>Definitions\<close>

definition base64_encoded_size :: "nat \<Rightarrow> bool \<Rightarrow> nat" where
  "base64_encoded_size input_size padding =
     (let groups = input_size div 3; remainder = input_size mod 3 in
      if remainder = 0 then usz (groups * 4)
      else usz (groups * 4 + (if padding then 4 else remainder + 1)))"

definition base64_decoded_size :: "nat \<Rightarrow> nat" where
  "base64_decoded_size input_size =
     (input_size div 4) * 3 + (if input_size mod 4 = 0 then 0 else input_size mod 4 - 1)"

definition base64_value :: "u8 \<Rightarrow> bool \<Rightarrow> int" where
  "base64_value c url_safe =
     (if c \<ge> 0x41 \<and> c \<le> 0x5A then uint (c - 0x41)
      else if c \<ge> 0x61 \<and> c \<le> 0x7A then uint (c - 0x61) + 26
      else if c \<ge> 0x30 \<and> c \<le> 0x39 then uint (c - 0x30) + 52
      else if c = 0x2B then (if url_safe then -1 else 62)
      else if c = 0x2D then (if url_safe then 62 else -1)
      else if c = 0x2F then (if url_safe then -1 else 63)
      else if c = 0x5F then (if url_safe then 63 else -1)
      else -1)"

definition base64_char :: "u8 \<Rightarrow> bool \<Rightarrow> u8" where
  "base64_char v url_safe =
     (if v < 26 then 0x41 + v
      else if v < 52 then 0x61 + (v - 26)
      else if v < 62 then 0x30 + (v - 52)
      else if v = 62 then (if url_safe then 0x2D else 0x2B)
      else (if url_safe then 0x5F else 0x2F))"

definition base64_block :: "u8 \<Rightarrow> u8 \<Rightarrow> u8 \<Rightarrow> u32" where
  "base64_block a b c = push_bit 16 (ucast a) OR push_bit 8 (ucast b) OR ucast c"

function base64_encode_loop ::
  "bool \<Rightarrow> u8 ptr \<Rightarrow> nat \<Rightarrow> nat \<Rightarrow> nat \<Rightarrow> u8 ptr \<Rightarrow> (nat \<times> nat \<times> u8 ptr) option" where
  "base64_encode_loop url_safe input input_size input_index output_index output =
     (if input_index + 3 \<le> input_size
      then do {
        a \<leftarrow> rd input input_index;
        b \<leftarrow> rd input (input_index + 1);
        c \<leftarrow> rd input (input_index + 2);
        let block = base64_block a b c in do {
        output \<leftarrow> put output output_index (base64_char (ucast (drop_bit 18 block AND 0x3F)) url_safe);
        output \<leftarrow> put output (output_index + 1) (base64_char (ucast (drop_bit 12 block AND 0x3F)) url_safe);
        output \<leftarrow> put output (output_index + 2) (base64_char (ucast (drop_bit 6 block AND 0x3F)) url_safe);
        output \<leftarrow> put output (output_index + 3) (base64_char (ucast (block AND 0x3F)) url_safe);
        base64_encode_loop url_safe input input_size (input_index + 3) (output_index + 4) output } }
      else Some (input_index, output_index, output))"
  by pat_completeness auto
termination
  by (relation "measure (\<lambda>(_, _, n, i, _). n - i)") auto

declare base64_encode_loop.simps [simp del]

definition base64_encode_tail ::
  "bool \<Rightarrow> bool \<Rightarrow> u8 ptr \<Rightarrow> nat \<Rightarrow> nat \<Rightarrow> nat \<Rightarrow> u8 ptr \<Rightarrow> (nat \<times> u8 ptr) option" where
  "base64_encode_tail padding url_safe input input_size input_index output_index output =
     (let remaining = input_size - input_index in
      if remaining \<noteq> 0
      then do {
        b0 \<leftarrow> rd input input_index;
        b1 \<leftarrow> (if remaining = 2 then rd input (input_index + 1) else Some 0);
        output \<leftarrow> put output output_index (base64_char (drop_bit 2 b0) url_safe);
        output \<leftarrow> put output (output_index + 1)
          (base64_char (push_bit 4 (b0 AND 0x03) OR drop_bit 4 b1) url_safe);
        if remaining = 2
        then do {
          output \<leftarrow> put output (output_index + 2) (base64_char (push_bit 2 (b1 AND 0x0F)) url_safe);
          if padding
          then do {
            output \<leftarrow> put output (output_index + 3) 0x3D;
            Some (output_index + 4, output) }
          else Some (output_index + 3, output) }
        else if padding
        then do {
          output \<leftarrow> put output (output_index + 2) 0x3D;
          output \<leftarrow> put output (output_index + 3) 0x3D;
          Some (output_index + 4, output) }
        else Some (output_index + 2, output) }
      else Some (output_index, output))"

definition base64_encode ::
  "u8 ptr \<Rightarrow> u8 ptr \<Rightarrow> bool \<Rightarrow> bool \<Rightarrow> (status \<times> nat \<times> u8 ptr) option" where
  "base64_encode input output padding url_safe =
     (if is_null input \<and> psize input \<noteq> 0 then Some (status_invalid_argument, 0, output)
      else if is_null output \<and> psize output \<noteq> 0 then Some (status_invalid_argument, 0, output)
      else
        let required = base64_encoded_size (psize input) padding in
        if required > psize output then Some (status_full, 0, output)
        else if required \<noteq> 0 \<and> is_null output then Some (status_invalid_argument, 0, output)
        else do {
          (input_index, output_index, output) \<leftarrow>
            base64_encode_loop url_safe input (psize input) 0 0 output;
          (output_index, output) \<leftarrow>
            base64_encode_tail padding url_safe input (psize input) input_index output_index output;
          Some (status_ok, output_index, output) })"

text \<open>
  One pass of the decoder's group loop: \<open>Inl\<close> is a \<open>return\<close> with its status, \<open>Inr\<close> the input and
  output indices for the next pass.  The tail is the branch for a final unpadded group of two.
\<close>

type_synonym b64_flow = "((status \<times> u8 ptr) + (nat \<times> nat \<times> u8 ptr)) option"

definition base64_decode_pair_tail ::
  "nat \<Rightarrow> nat \<Rightarrow> nat \<Rightarrow> bool \<Rightarrow> bool \<Rightarrow> nat \<Rightarrow> int \<Rightarrow> int \<Rightarrow> nat \<Rightarrow> nat \<Rightarrow> u8 ptr \<Rightarrow> b64_flow" where
  "base64_decode_pair_tail remaining grp padded_groups has_partial allow_unpadded output_capacity
     v0 v1 input_index output_index output =
     (if remaining \<noteq> 2 \<or> grp + 1 \<noteq> padded_groups \<or> \<not> has_partial \<or> \<not> allow_unpadded
      then Some (Inl (status_invalid_argument, output))
      else if v1 AND 0x0F \<noteq> 0 then Some (Inl (status_invalid_argument, output))
      else if output_index + 1 > output_capacity then Some (Inl (status_full, output))
      else do {
        output \<leftarrow> put output output_index (word_of_int (push_bit 2 v0 OR drop_bit 4 v1));
        Some (Inr (input_index, output_index + 1, output)) })"

definition base64_decode_group ::
  "u8 ptr \<Rightarrow> nat \<Rightarrow> nat \<Rightarrow> nat \<Rightarrow> bool \<Rightarrow> bool \<Rightarrow> bool \<Rightarrow> nat \<Rightarrow> nat \<Rightarrow> nat \<Rightarrow> u8 ptr \<Rightarrow> b64_flow" where
  "base64_decode_group input input_size output_capacity padded_groups has_partial url_safe
     allow_unpadded grp input_index output_index output =
     (let remaining = input_size - input_index in
      if remaining < 2 then Some (Inl (status_invalid_argument, output))
      else do {
        c0 \<leftarrow> rd input input_index;
        c1 \<leftarrow> rd input (input_index + 1);
        let v0 = base64_value c0 url_safe; v1 = base64_value c1 url_safe in
        if v0 < 0 \<or> v1 < 0 then Some (Inl (status_invalid_argument, output))
        else if remaining > 2
        then do {
          c2 \<leftarrow> rd input (input_index + 2);
          if c2 \<noteq> 0x3D
          then
            let v2 = base64_value c2 url_safe in
            if v2 < 0 then Some (Inl (status_invalid_argument, output))
            else do {
              c3 \<leftarrow> (if remaining > 3 then rd input (input_index + 3) else Some 0);
              let p3 = (remaining > 3 \<and> c3 = 0x3D); v3 = base64_value c3 url_safe;
                  input_index = (if remaining > 3 then input_index + 4 else input_index + 3) in
              if remaining > 3 \<and> \<not> p3
              then
                if v3 < 0 then Some (Inl (status_invalid_argument, output))
                else if output_index + 3 > output_capacity then Some (Inl (status_full, output))
                else do {
                  output \<leftarrow> put output output_index (word_of_int (push_bit 2 v0 OR drop_bit 4 v1));
                  output \<leftarrow> put output (output_index + 1) (word_of_int (push_bit 4 v1 OR drop_bit 2 v2));
                  output \<leftarrow> put output (output_index + 2) (word_of_int (push_bit 6 v2 OR v3));
                  Some (Inr (input_index, output_index + 3, output)) }
              else if p3 \<or> remaining = 3
              then
                if v2 AND 0x03 \<noteq> 0 then Some (Inl (status_invalid_argument, output))
                else if output_index + 2 > output_capacity then Some (Inl (status_full, output))
                else do {
                  output \<leftarrow> put output output_index (word_of_int (push_bit 2 v0 OR drop_bit 4 v1));
                  output \<leftarrow> put output (output_index + 1) (word_of_int (push_bit 4 v1 OR drop_bit 2 v2));
                  if p3 \<and> input_index < input_size then Some (Inl (status_invalid_argument, output))
                  else Some (Inr (input_index, output_index + 2, output)) }
              else base64_decode_pair_tail remaining grp padded_groups has_partial allow_unpadded
                output_capacity v0 v1 input_index output_index output }
          else if remaining \<noteq> 4 \<or> input_index + 3 \<ge> input_size
          then Some (Inl (status_invalid_argument, output))
          else do {
            c3 \<leftarrow> rd input (input_index + 3);
            if c3 \<noteq> 0x3D then Some (Inl (status_invalid_argument, output))
            else if v1 AND 0x0F \<noteq> 0 then Some (Inl (status_invalid_argument, output))
            else if output_index + 1 > output_capacity then Some (Inl (status_full, output))
            else do {
              output \<leftarrow> put output output_index (word_of_int (push_bit 2 v0 OR drop_bit 4 v1));
              Some (Inr (input_index + 4, output_index + 1, output)) } } }
        else base64_decode_pair_tail remaining grp padded_groups has_partial allow_unpadded
          output_capacity v0 v1 (input_index + 2) output_index output })"

function base64_decode_loop ::
  "u8 ptr \<Rightarrow> nat \<Rightarrow> nat \<Rightarrow> nat \<Rightarrow> bool \<Rightarrow> bool \<Rightarrow> bool \<Rightarrow> nat \<Rightarrow> nat \<Rightarrow> nat \<Rightarrow> u8 ptr
     \<Rightarrow> (status \<times> nat \<times> u8 ptr) option" where
  "base64_decode_loop input input_size output_capacity padded_groups has_partial url_safe
     allow_unpadded grp input_index output_index output =
     (if grp < padded_groups
      then do {
        r \<leftarrow> base64_decode_group input input_size output_capacity padded_groups has_partial url_safe
               allow_unpadded grp input_index output_index output;
        (case r of
           Inl (s, output) \<Rightarrow> Some (s, 0, output)
         | Inr (input_index, output_index, output) \<Rightarrow>
             base64_decode_loop input input_size output_capacity padded_groups has_partial url_safe
               allow_unpadded (Suc grp) input_index output_index output) }
      else Some (status_ok, output_index, output))"
  by pat_completeness auto
termination
  by (relation "measure (\<lambda>(_, _, _, n, _, _, _, g, _). n - g)") auto

declare base64_decode_loop.simps [simp del]

definition base64_decode_capacity :: "u8 ptr \<Rightarrow> nat \<Rightarrow> nat option" where
  "base64_decode_capacity input input_size = do {
     last \<leftarrow> (if input_size \<ge> 1 then rd input (input_size - 1) else Some 0);
     prev \<leftarrow> (if input_size \<ge> 2 then rd input (input_size - 2) else Some 0);
     Some (if input_size \<ge> 2 \<and> last = 0x3D \<and> prev = 0x3D then usz_sub (input_size div 4 * 3) 2
           else if input_size \<ge> 1 \<and> last = 0x3D then usz_sub (input_size div 4 * 3) 1
           else base64_decoded_size input_size) }"

definition base64_decode ::
  "u8 ptr \<Rightarrow> u8 ptr \<Rightarrow> bool \<Rightarrow> bool \<Rightarrow> (status \<times> nat \<times> u8 ptr) option" where
  "base64_decode input output url_safe allow_unpadded =
     (if is_null input \<and> psize input \<noteq> 0 then Some (status_invalid_argument, 0, output)
      else if is_null output \<and> psize output \<noteq> 0 then Some (status_invalid_argument, 0, output)
      else if psize input = 0 then Some (status_ok, 0, output)
      else
        let groups = psize input div 4; remainder = psize input mod 4; has_partial = (remainder \<noteq> 0) in
        if has_partial \<and> (\<not> allow_unpadded \<or> remainder = 1) then Some (status_invalid_argument, 0, output)
        else
          let padded_groups = (if has_partial then groups + 1 else groups) in do {
          needed \<leftarrow> base64_decode_capacity input (psize input);
          if needed > psize output then Some (status_full, 0, output)
          else if needed \<noteq> 0 \<and> is_null output then Some (status_invalid_argument, 0, output)
          else base64_decode_loop input (psize input) (psize output) padded_groups has_partial url_safe
            allow_unpadded 0 0 0 output })"

section \<open>The text the encoder writes\<close>

definition b64_s0 :: "u8 \<Rightarrow> u8" where
  "b64_s0 a = drop_bit 2 a"

definition b64_s1 :: "u8 \<Rightarrow> u8 \<Rightarrow> u8" where
  "b64_s1 a b = push_bit 4 (a AND 0x03) OR drop_bit 4 b"

definition b64_s2 :: "u8 \<Rightarrow> u8 \<Rightarrow> u8" where
  "b64_s2 b c = push_bit 2 (b AND 0x0F) OR drop_bit 6 c"

definition b64_s3 :: "u8 \<Rightarrow> u8" where
  "b64_s3 c = c AND 0x3F"

lemmas b64_s_defs = b64_s0_def b64_s1_def b64_s2_def b64_s3_def

definition b64_quad :: "bool \<Rightarrow> u8 \<Rightarrow> u8 \<Rightarrow> u8 \<Rightarrow> u8 list" where
  "b64_quad url_safe a b c =
     [base64_char (b64_s0 a) url_safe, base64_char (b64_s1 a b) url_safe,
      base64_char (b64_s2 b c) url_safe, base64_char (b64_s3 c) url_safe]"

fun b64_text :: "bool \<Rightarrow> bool \<Rightarrow> u8 list \<Rightarrow> u8 list" where
  "b64_text padding url_safe [] = []"
| "b64_text padding url_safe [a] =
     take 2 (b64_quad url_safe a 0 0) @ (if padding then [0x3D, 0x3D] else [])"
| "b64_text padding url_safe [a, b] =
     take 3 (b64_quad url_safe a b 0) @ (if padding then [0x3D] else [])"
| "b64_text padding url_safe (a # b # c # r) = b64_quad url_safe a b c @ b64_text padding url_safe r"

lemma sextets_of_block:
  "ucast (drop_bit 18 (base64_block a b c) AND 0x3F) = b64_s0 a"
  "ucast (drop_bit 12 (base64_block a b c) AND 0x3F) = b64_s1 a b"
  "ucast (drop_bit 6 (base64_block a b c) AND 0x3F) = b64_s2 b c"
  "ucast (base64_block a b c AND 0x3F) = b64_s3 c"
  unfolding base64_block_def b64_s_defs by (rule u8_eqI; simp add: bit_simps; fail)+

lemma div_mod_3_step [simp]:
  "Suc (Suc (Suc n)) div 3 = Suc (n div 3)" "Suc (Suc (Suc n)) mod 3 = n mod 3"
  "(3 + n) div 3 = Suc (n div 3)" "(3 + n) mod 3 = (n mod 3 :: nat)"
  by arith+

lemma length_b64_text:
  "length (b64_text padding url bs) =
     (length bs div 3) * 4 + (if length bs mod 3 = 0 then 0 else if padding then 4 else length bs mod 3 + 1)"
  by (induction padding url bs rule: b64_text.induct) (auto simp: b64_quad_def)

lemma base64_encode_loop_short [simp]:
  "length bs < 3 \<Longrightarrow>
   base64_encode_loop url (Mem (pre @ bs)) (length pre + length bs) (length pre) oi out
     = Some (length pre, oi, out)"
  by (simp add: base64_encode_loop.simps)

lemma base64_encode_loop_quad:
  "base64_encode_loop url (Mem (pre @ a # b # c # r)) (length pre + Suc (Suc (Suc (length r)))) (length pre) oi out =
   Option.bind (store out oi (b64_quad url a b c))
     (base64_encode_loop url (Mem ((pre @ [a, b, c]) @ r)) (length (pre @ [a, b, c]) + length r)
        (length (pre @ [a, b, c])) (oi + 4))"
  apply (subst base64_encode_loop.simps)
  unfolding sextets_of_block Let_def
  by (simp add: nth_append b64_quad_def store_Cons [symmetric] eval_nat_numeral)

lemma base64_encode_refines:
  "Option.bind (base64_encode_loop url (Mem (pre @ bs)) (length pre + length bs) (length pre) oi out)
     (\<lambda>(ii, oi, out). base64_encode_tail padding url (Mem (pre @ bs)) (length pre + length bs) ii oi out)
   = map_option (\<lambda>q. (oi + length (b64_text padding url bs), q)) (store out oi (b64_text padding url bs))"
proof (induction padding url bs arbitrary: pre oi out rule: b64_text.induct)
  case (1 padding url)
  show ?case using base64_encode_loop_short [of "[]" url pre]
    by (simp add: base64_encode_tail_def)
next
  case (2 padding url a)
  show ?case using base64_encode_loop_short [of "[a]" url pre]
    by (simp add: base64_encode_tail_def b64_quad_def b64_s_defs store_Cons [symmetric]
        bind_map_option_right bind_Some_pair eval_nat_numeral)
next
  case (3 padding url a b)
  show ?case using base64_encode_loop_short [of "[a, b]" url pre]
    by (simp add: base64_encode_tail_def b64_quad_def b64_s_defs store_Cons [symmetric]
        bind_map_option_right bind_Some_pair eval_nat_numeral nth_append)
next
  case (4 padding url a b c r)
  have "length (b64_quad url a b c) = 4" by (simp add: b64_quad_def)
  with "4.IH" [of "pre @ [a, b, c]" "oi + 4"] show ?case
    by (simp add: base64_encode_loop_quad [simplified] store_append [symmetric]
        bind_map_option_right ac_simps)
qed

lemma base64_encode_mem:
  assumes "length (b64_text padding url bs) < size_mod"
  shows "base64_encode (Mem bs) (Mem buf) padding url =
    (if length (b64_text padding url bs) \<le> length buf
     then Some (status_ok, length (b64_text padding url bs),
       Mem (b64_text padding url bs @ drop (length (b64_text padding url bs)) buf))
     else Some (status_full, 0, Mem buf))"
proof -
  have "base64_encoded_size (length bs) padding = length (b64_text padding url bs)"
    using assms by (simp add: base64_encoded_size_def length_b64_text Let_def split: if_splits)
  then show ?thesis
    using base64_encode_refines [of url "[]" bs 0 "Mem buf" padding]
    by (auto simp: base64_encode_def Let_def bind_eq_Some_conv split: prod.splits)
qed

section \<open>The decoder on the encoder's text\<close>

lemma base64_value_char_all:
  "\<forall>v \<in> set (map word_of_nat [0..<64]). \<forall>url.
     base64_value (base64_char v url) url = uint v \<and> base64_char v url \<noteq> 0x3D"
  by (simp add: upt_rec base64_value_def base64_char_def all_bool_eq)

lemma base64_value_char:
  assumes "s AND 0x3F = s"
  shows "base64_value (base64_char s url) url = uint s" and "base64_char s url \<noteq> 0x3D"
proof -
  have "s \<le> 0x3F" using assms by (metis word_and_le1)
  then have "unat s < 64" by (simp add: word_le_nat_alt)
  moreover have "s = word_of_nat (unat s)" by simp
  ultimately have "s \<in> set (map word_of_nat [0..<64])"
    by (metis atLeastLessThan_iff imageI set_map set_upt zero_le)
  then show "base64_value (base64_char s url) url = uint s" and "base64_char s url \<noteq> 0x3D"
    using base64_value_char_all by blast+
qed

lemma sextet_ranges:
  "b64_s0 a AND 0x3F = b64_s0 a"
  "b64_s1 a b AND 0x3F = b64_s1 a b"
  "b64_s2 b c AND 0x3F = b64_s2 b c"
  "b64_s3 c AND 0x3F = b64_s3 c"
  unfolding b64_s_defs by (rule u8_eqI; simp add: bit_simps; fail)+

lemmas sextet_decoded [simp] =
  sextet_ranges [THEN base64_value_char(1)] sextet_ranges [THEN base64_value_char(2)]

lemma sextets_join [simp]:
  "word_of_int (push_bit 2 (uint (b64_s0 a)) OR drop_bit 4 (uint (b64_s1 a b))) = a"
  "word_of_int (push_bit 4 (uint (b64_s1 a b)) OR drop_bit 2 (uint (b64_s2 b c))) = b"
  "word_of_int (push_bit 6 (uint (b64_s2 b c)) OR uint (b64_s3 c)) = c"
  unfolding b64_s_defs by (rule u8_eqI; simp add: bit_simps; fail)+

lemma sextets_spare [simp]:
  "uint (b64_s1 a 0) AND 0x0F = 0"
  "uint (b64_s2 b 0) AND 0x03 = 0"
  unfolding b64_s_defs
  by (rule bit_eqI; simp add: bit_simps; auto simp: numeral_eq_Suc less_Suc_eq)+

lemma decode_group_quad:
  "oi + 3 \<le> cap \<Longrightarrow>
   base64_decode_group (Mem (pre @ b64_quad url a b c @ r)) (length pre + (4 + length r)) cap pg hp url al g (length pre) oi out
     = map_option (\<lambda>q. Inr (length pre + 4, oi + 3, q)) (store out oi [a, b, c])"
  by (simp add: base64_decode_group_def b64_quad_def nth_append writer_simps)

lemma decode_group_two:
  assumes "oi + 2 \<le> cap"
  shows "base64_decode_group (Mem (pre @ b64_text True url [a, b])) (length pre + 4) cap pg hp url al g (length pre) oi out
      = map_option (\<lambda>q. Inr (length pre + 4, oi + 2, q)) (store out oi [a, b])"
    and "base64_decode_group (Mem (pre @ b64_text False url [a, b])) (length pre + 3) cap pg hp url al g (length pre) oi out
      = map_option (\<lambda>q. Inr (length pre + 3, oi + 2, q)) (store out oi [a, b])"
  using assms by (simp_all add: base64_decode_group_def b64_quad_def nth_append writer_simps)

lemma decode_group_one:
  assumes "oi + 1 \<le> cap"
  shows "base64_decode_group (Mem (pre @ b64_text True url [a])) (length pre + 4) cap pg hp url al g (length pre) oi out
      = map_option (\<lambda>q. Inr (length pre + 4, oi + 1, q)) (store out oi [a])"
    and "base64_decode_group (Mem (pre @ b64_text False url [a])) (length pre + 2) cap (Suc g) True url True g (length pre) oi out
      = map_option (\<lambda>q. Inr (length pre + 2, oi + 1, q)) (store out oi [a])"
  using assms
  by (simp_all add: base64_decode_group_def base64_decode_pair_tail_def b64_quad_def nth_append writer_simps)

lemma base64_decode_loop_step:
  assumes "g < pg"
    and "base64_decode_group inp n cap pg hp url al g ii oi out = map_option (\<lambda>q. Inr (ii', oi', q)) x"
  shows "base64_decode_loop inp n cap pg hp url al g ii oi out =
    Option.bind x (base64_decode_loop inp n cap pg hp url al (Suc g) ii' oi')"
  using assms by (subst base64_decode_loop.simps) (simp add: bind_map_option comp_def)

lemma base64_decode_loop_end:
  "\<not> g < pg \<Longrightarrow> base64_decode_loop inp n cap pg hp url al g ii oi = (\<lambda>out. Some (status_ok, oi, out))"
  by (simp add: base64_decode_loop.simps fun_eq_iff)

lemma base64_decode_loop_text:
  assumes "oi + length bs \<le> cap" and "(hp \<and> al) \<or> padding \<or> length bs mod 3 = 0"
    and "pg = g + (length bs + 2) div 3"
  shows "base64_decode_loop (Mem (pre @ b64_text padding url bs)) (length pre + length (b64_text padding url bs))
      cap pg hp url al g (length pre) oi out
    = map_option (\<lambda>q. (status_ok, oi + length bs, q)) (store out oi bs)"
  using assms
proof (induction padding url bs arbitrary: pre oi out g rule: b64_text.induct)
  case (1 padding url)
  then show ?case by (simp add: base64_decode_loop_end)
next
  case (2 padding url a)
  then have pg: "pg = Suc g" and cap: "oi + 1 \<le> cap" by simp_all
  have "length (b64_text padding url [a]) = (if padding then 4 else 2)" by (simp add: b64_quad_def)
  moreover have "padding \<or> hp \<and> al" using "2.prems" by auto
  ultimately show ?case
    using pg decode_group_one [OF cap, of pre url a] base64_decode_loop_step [of g pg]
    by (cases padding) (auto simp: base64_decode_loop_end bind_return simp del: b64_text.simps)
next
  case (3 padding url a b)
  then have pg: "pg = Suc g" and cap: "oi + 2 \<le> cap" by simp_all
  have "length (b64_text padding url [a, b]) = (if padding then 4 else 3)" by (simp add: b64_quad_def)
  then show ?case
    using pg decode_group_two [OF cap, of pre url a b] base64_decode_loop_step [of g pg]
    by (cases padding) (auto simp: base64_decode_loop_end bind_return simp del: b64_text.simps)
next
  case (4 padding url a b c r)
  have len: "length (b64_quad url a b c) = 4" by (simp add: b64_quad_def)
  have cap: "oi + 3 + length r \<le> cap" and cap3: "oi + 3 \<le> cap"
    using "4.prems"(1) by simp_all
  have m: "(hp \<and> al) \<or> padding \<or> length r mod 3 = 0"
    using "4.prems"(2) by simp
  have "(length (a # b # c # r) + 2) div 3 = Suc ((length r + 2) div 3)"
    by (simp only: list.size)
  then have pg: "pg = Suc g + (length r + 2) div 3"
    using "4.prems"(3) by simp
  let ?t = "b64_text padding url (a # b # c # r)"
  have B: "base64_decode_loop (Mem (pre @ ?t)) (length pre + length ?t) cap pg hp url al (Suc g) (length pre + 4) (oi + 3)
      = (\<lambda>q. map_option (\<lambda>q. (status_ok, oi + (3 + length r), q)) (store q (oi + 3) r))"
    using "4.IH" [of "oi + 3" "Suc g" "pre @ b64_quad url a b c", OF cap m pg] len
    by (simp add: fun_eq_iff add.assoc)
  have "g < pg" using pg by simp
  from base64_decode_loop_step [OF this decode_group_quad [OF cap3]]
  have A: "base64_decode_loop (Mem (pre @ ?t)) (length pre + length ?t) cap pg hp url al g (length pre) oi out
      = Option.bind (store out oi [a, b, c])
          (base64_decode_loop (Mem (pre @ ?t)) (length pre + length ?t) cap pg hp url al (Suc g) (length pre + 4) (oi + 3))"
    using len by simp
  show ?case
    unfolding A B bind_map_option_right
    using store_append [of out oi "[a, b, c]" r] by (simp add: numeral_3_eq_3)
qed

text \<open>The capacity check reads the padding off the last two characters.\<close>

lemma b64_text_Nil_iff [simp]: "b64_text padding url bs = [] \<longleftrightarrow> bs = []"
  by (cases "(padding, url, bs)" rule: b64_text.cases) (simp_all add: b64_quad_def)

lemma b64_text_len2: "bs \<noteq> [] \<Longrightarrow> 2 \<le> length (b64_text padding url bs)"
  by (cases "(padding, url, bs)" rule: b64_text.cases) (simp_all add: b64_quad_def)

lemma b64_text_butlast [simp]: "bs \<noteq> [] \<Longrightarrow> butlast (b64_text padding url bs) \<noteq> []"
  using b64_text_len2 [of bs padding url] by (cases "b64_text padding url bs") auto

lemma b64_text_last:
  "bs \<noteq> [] \<Longrightarrow> last (b64_text padding url bs) = 0x3D \<longleftrightarrow> padding \<and> length bs mod 3 \<noteq> 0"
  "bs \<noteq> [] \<Longrightarrow> last (butlast (b64_text padding url bs)) = 0x3D \<longleftrightarrow> padding \<and> length bs mod 3 = 1"
  by (induction padding url bs rule: b64_text.induct)
    (auto simp: b64_quad_def butlast_append)

lemma base64_decode_capacity_text:
  assumes "bs \<noteq> []" and "length (b64_text padding url bs) < size_mod"
  shows "base64_decode_capacity (Mem (b64_text padding url bs)) (length (b64_text padding url bs)) = Some (length bs)"
proof -
  let ?t = "b64_text padding url bs"
  have ne: "?t \<noteq> []" using assms by simp
  have len: "2 \<le> length ?t" using assms(1) by (rule b64_text_len2)
  have last: "rd (Mem ?t) (length ?t - 1) = Some (last ?t)"
    using ne by (simp add: last_conv_nth)
  have prev: "rd (Mem ?t) (length ?t - 2) = Some (last (butlast ?t))"
    using len by (subst last_conv_nth) (auto simp: nth_butlast numeral_2_eq_2 simp flip: length_greater_0_conv)
  show ?thesis
    using last prev len assms b64_text_last [OF assms(1), of padding url]
    apply (simp add: base64_decode_capacity_def del: rd.simps)
    apply (auto simp: length_b64_text base64_decoded_size_def usz_sub_ge split: if_splits)
     apply presburger+
    done
qed

lemma b64_group_count:
  fixes m :: nat
  shows "(if \<not> padding \<and> m mod 3 \<noteq> 0
      then (m div 3 * 4 + (if m mod 3 = 0 then 0 else if padding then 4 else m mod 3 + 1)) div 4 + 1
      else (m div 3 * 4 + (if m mod 3 = 0 then 0 else if padding then 4 else m mod 3 + 1)) div 4) = (m + 2) div 3"
proof -
  have m: "m = 3 * (m div 3) + m mod 3" by simp
  have q: "(3 * k + 2) div 3 = k" "(3 * k + 1) div 3 = k" "(3 * k + 1) mod 3 = 1" "(3 * k + 2) mod 3 = 2"
    "(3 * k + 3) div 3 = k + 1" "(3 * k + 4) div 3 = k + 1" "(k * 4 + 2) div 4 = k" "(k * 4 + 3) div 4 = k"
    "(k * 4 + 4) div 4 = k + 1" "Suc (3 * k) div 3 = k" "Suc (Suc (3 * k)) div 3 = k" "Suc (Suc (3 * k)) mod 3 = 2" for k :: nat
    by presburger+
  have "m mod 3 = 0 \<or> m mod 3 = 1 \<or> m mod 3 = 2" by arith
  then consider k where "m = 3 * k" | k where "m = 3 * k + 1" | k where "m = 3 * k + 2"
    using m by (metis add.right_neutral)
  then show ?thesis
  proof cases
    case (1 k)
    then show ?thesis by (simp add: q)
  next
    case (2 k)
    then have "m + 2 = 3 * k + 3" by simp
    with 2 show ?thesis by (simp add: q del: add_2_eq_Suc' add_Suc_right One_nat_def)
  next
    case (3 k)
    then have "m + 2 = 3 * k + 4" by simp
    with 3 show ?thesis by (simp add: q del: add_2_eq_Suc' add_Suc_right One_nat_def)
  qed
qed

lemma base64_decode_text:
  assumes "length (b64_text padding url bs) < size_mod" and "length bs \<le> length buf" and "padding \<or> al"
  shows "base64_decode (Mem (b64_text padding url bs)) (Mem buf) url al =
    Some (status_ok, length bs, Mem (bs @ drop (length bs) buf))"
proof (cases "bs = []")
  case True
  then show ?thesis by (simp add: base64_decode_def)
next
  case False
  let ?t = "b64_text padding url bs"
  have hp: "(length ?t mod 4 \<noteq> 0) = (\<not> padding \<and> length bs mod 3 \<noteq> 0)" and r1: "length ?t mod 4 \<noteq> 1"
    by (auto simp: length_b64_text)
  have pg: "(if length ?t mod 4 \<noteq> 0 then length ?t div 4 + 1 else length ?t div 4) = (length bs + 2) div 3"
    unfolding hp unfolding length_b64_text by (rule b64_group_count)
  have "base64_decode_loop (Mem ?t) (length ?t) (length buf) ((length bs + 2) div 3) (length ?t mod 4 \<noteq> 0) url al 0 0 0 (Mem buf)
      = Some (status_ok, length bs, Mem (bs @ drop (length bs) buf))"
  proof -
    have "(length ?t mod 4 \<noteq> 0) \<and> al \<or> padding \<or> length bs mod 3 = 0" using hp assms(3) by blast
    moreover have "0 + length bs \<le> length buf" using assms(2) by simp
    ultimately have "base64_decode_loop (Mem ([] @ ?t)) (length ([] :: u8 list) + length ?t) (length buf)
        ((length bs + 2) div 3) (length ?t mod 4 \<noteq> 0) url al 0 (length ([] :: u8 list)) 0 (Mem buf)
      = map_option (\<lambda>q. (status_ok, 0 + length bs, q)) (store (Mem buf) 0 bs)"
      by (intro base64_decode_loop_text) simp_all
    with assms(2) show ?thesis by simp
  qed
  moreover have "\<not> (length ?t mod 4 \<noteq> 0 \<and> (\<not> al \<or> length ?t mod 4 = 1))"
    using hp r1 assms(3) by auto
  moreover have "?t \<noteq> []" using False by simp
  ultimately show ?thesis
    using assms(2) pg False base64_decode_capacity_text [OF False assms(1)]
    unfolding base64_decode_def Let_def by (simp add: hp split: if_splits)
qed

interpretation base64: text_codec "\<lambda>i q. base64_encode i q padding url" "\<lambda>i q. base64_decode i q url True" "b64_text padding url"
  for padding url
  by unfold_locales (auto simp: base64_encode_mem base64_decode_text)

section \<open>The decoder accepts nothing else\<close>

lemma base64_alphabet_chars:
  "\<not> base64_value c url < 0 \<Longrightarrow>
   c \<in> set (map word_of_nat ([0x41..<0x5B] @ [0x61..<0x7B] @ [0x30..<0x3A] @ [0x2B, 0x2D, 0x2F, 0x5F]))"
  using u8_range [of "0x41" c "0x5A"] u8_range [of "0x61" c "0x7A"] u8_range [of "0x30" c "0x39"]
  by (auto simp: base64_value_def split: if_splits)

lemma base64_value_inverse_all:
  "\<forall>c \<in> set (map word_of_nat ([0x41..<0x5B] @ [0x61..<0x7B] @ [0x30..<0x3A] @ [0x2B, 0x2D, 0x2F, 0x5F])).
   \<forall>url. \<not> base64_value c url < 0 \<longrightarrow>
     base64_value c url = uint (word_of_int (base64_value c url) :: u8) \<and>
     base64_char (word_of_int (base64_value c url)) url = c \<and>
     word_of_int (base64_value c url) AND 0xC0 = (0 :: u8)"
  by (simp add: upt_rec base64_value_def base64_char_def all_bool_eq)

lemma base64_value_inverse:
  assumes "\<not> base64_value c url < 0"
  obtains w :: u8 where "base64_value c url = uint w" "\<not> bit w 6" "\<not> bit w 7" "c = base64_char w url"
proof
  let ?w = "word_of_int (base64_value c url) :: u8"
  note all = base64_value_inverse_all [rule_format, OF base64_alphabet_chars [OF assms] assms]
  show "base64_value c url = uint ?w" and "c = base64_char ?w url"
    using all by simp_all
  have "bit (?w AND 0xC0) 6 = bit ?w 6" "bit (?w AND 0xC0) 7 = bit ?w 7"
    by (simp_all add: bit_and_iff)
  then show "\<not> bit ?w 6" and "\<not> bit ?w 7" using all by simp_all
qed

lemma sextets_split:
  fixes w0 w1 w2 w3 :: u8
  assumes "\<not> bit w0 6" "\<not> bit w0 7" "\<not> bit w1 6" "\<not> bit w1 7" "\<not> bit w2 6" "\<not> bit w2 7" "\<not> bit w3 6" "\<not> bit w3 7"
  shows "b64_s0 (word_of_int (push_bit 2 (uint w0) OR drop_bit 4 (uint w1))) = w0"
    and "b64_s1 (word_of_int (push_bit 2 (uint w0) OR drop_bit 4 (uint w1)))
           (word_of_int (push_bit 4 (uint w1) OR drop_bit 2 (uint w2))) = w1"
    and "b64_s2 (word_of_int (push_bit 4 (uint w1) OR drop_bit 2 (uint w2)))
           (word_of_int (push_bit 6 (uint w2) OR uint w3)) = w2"
    and "b64_s3 (word_of_int (push_bit 6 (uint w2) OR uint w3)) = w3"
  unfolding b64_s_defs using assms by (rule_tac [!] u8_eqI) (simp_all add: bit_simps)

lemma uint_and_0_bits:
  "uint (w :: u8) AND 0x0F = 0 \<Longrightarrow> \<not> bit w 0 \<and> \<not> bit w 1 \<and> \<not> bit w 2 \<and> \<not> bit w 3"
  "uint (w :: u8) AND 0x03 = 0 \<Longrightarrow> \<not> bit w 0 \<and> \<not> bit w 1"
proof -
  assume a: "uint w AND 0x0F = 0"
  have "bit (uint w AND 0x0F) k = bit w k" if "k \<in> {0, 1, 2, 3}" for k
    using that by (auto simp: bit_simps)
  then show "\<not> bit w 0 \<and> \<not> bit w 1 \<and> \<not> bit w 2 \<and> \<not> bit w 3" using a by auto
next
  assume a: "uint w AND 0x03 = 0"
  have "bit (uint w AND 0x03) k = bit w k" if "k \<in> {0, 1}" for k
    using that by (auto simp: bit_simps)
  then show "\<not> bit w 0 \<and> \<not> bit w 1" using a by auto
qed

lemma sextets_split_tail:
  fixes w0 w1 w2 :: u8
  assumes "\<not> bit w0 6" "\<not> bit w0 7" "\<not> bit w1 6" "\<not> bit w1 7" "\<not> bit w2 6" "\<not> bit w2 7"
  shows "uint w1 AND 0x0F = 0 \<Longrightarrow> b64_s1 (word_of_int (push_bit 2 (uint w0) OR drop_bit 4 (uint w1))) 0 = w1"
    and "uint w2 AND 0x03 = 0 \<Longrightarrow> b64_s2 (word_of_int (push_bit 4 (uint w1) OR drop_bit 2 (uint w2))) 0 = w2"
  unfolding b64_s_defs using assms
  by (auto dest!: uint_and_0_bits intro!: u8_eqI simp: bit_simps)

definition b64_taken :: "bool \<Rightarrow> u8 list \<Rightarrow> u8 list \<Rightarrow> nat \<Rightarrow> u8 ptr \<Rightarrow> nat \<Rightarrow> u8 ptr \<Rightarrow> bool" where
  "b64_taken url xs rest oi out oi' out' \<longleftrightarrow>
     (\<exists>bs p. bs \<noteq> [] \<and> length bs \<le> 3 \<and> xs = b64_text p url bs @ rest \<and> (length bs < 3 \<longrightarrow> rest = []) \<and>
        store out oi bs = Some out' \<and> oi' = oi + length bs)"

lemma decode_group_full_inv:
  assumes "base64_decode_group (Mem (pre @ [c0, c1, c2, c3] @ r)) (length pre + (4 + length r)) cap pg hp url al g (length pre) oi out
      = Some (Inr (ii', oi', out'))"
  shows "ii' = length pre + 4 \<and> b64_taken url ([c0, c1, c2, c3] @ r) r oi out oi' out'"
proof -
  have v0: "\<not> base64_value c0 url < 0" and v1: "\<not> base64_value c1 url < 0"
    using assms by (auto simp: base64_decode_group_def Let_def nth_append split: if_splits)
  then obtain w0 w1 where w0: "base64_value c0 url = uint w0" "\<not> bit w0 6" "\<not> bit w0 7" "c0 = base64_char w0 url"
    and w1: "base64_value c1 url = uint w1" "\<not> bit w1 6" "\<not> bit w1 7" "c1 = base64_char w1 url"
    by (metis base64_value_inverse)
  let ?b0 = "word_of_int (push_bit 2 (uint w0) OR drop_bit 4 (uint w1)) :: u8"
  show ?thesis
  proof (cases "c2 = 0x3D")
    case True
    with assms w0(1) w1(1) have "r = []" "c3 = 0x3D" "uint w1 AND 0x0F = 0" "ii' = length pre + 4"
      "store out oi [?b0] = Some out'" "oi' = oi + 1"
      by (auto simp: base64_decode_group_def Let_def nth_append store_single bind_eq_Some_conv split: if_splits)
    moreover from this have "[c0, c1, c2, c3] @ r = b64_text True url [?b0] @ r"
      using True w0 w1 sextets_split(1) [OF w0(2,3) w1(2,3) w1(2,3) w1(2,3)]
        sextets_split_tail(1) [OF w0(2,3) w1(2,3) w1(2,3)]
      by (simp add: b64_quad_def)
    ultimately show ?thesis
      unfolding b64_taken_def by (intro conjI exI [of _ "[?b0]"] exI [of _ True]) simp_all
  next
    case c2: False
    with assms have "\<not> base64_value c2 url < 0"
      by (auto simp: base64_decode_group_def Let_def nth_append split: if_splits)
    then obtain w2 where w2: "base64_value c2 url = uint w2" "\<not> bit w2 6" "\<not> bit w2 7" "c2 = base64_char w2 url"
      by (metis base64_value_inverse)
    let ?b1 = "word_of_int (push_bit 4 (uint w1) OR drop_bit 2 (uint w2)) :: u8"
    show ?thesis
    proof (cases "c3 = 0x3D")
      case True
      with assms c2 w0(1) w1(1) w2(1) have "r = []" "uint w2 AND 0x03 = 0" "ii' = length pre + 4"
        "store out oi [?b0, ?b1] = Some out'" "oi' = oi + 2"
        by (auto simp: base64_decode_group_def Let_def nth_append writer_simps bind_eq_Some_conv split: if_splits)
      moreover from this have "[c0, c1, c2, c3] @ r = b64_text True url [?b0, ?b1] @ r"
        using True w0 w1 w2 sextets_split(1,2) [OF w0(2,3) w1(2,3) w2(2,3) w2(2,3)]
          sextets_split_tail(2) [OF w0(2,3) w1(2,3) w2(2,3)]
        by (simp add: b64_quad_def)
      ultimately show ?thesis
        unfolding b64_taken_def by (intro conjI exI [of _ "[?b0, ?b1]"] exI [of _ True]) simp_all
    next
      case False
      with assms c2 have "\<not> base64_value c3 url < 0"
        by (auto simp: base64_decode_group_def Let_def nth_append split: if_splits)
      then obtain w3 where w3: "base64_value c3 url = uint w3" "\<not> bit w3 6" "\<not> bit w3 7" "c3 = base64_char w3 url"
        by (metis base64_value_inverse)
      let ?b2 = "word_of_int (push_bit 6 (uint w2) OR uint w3) :: u8"
      from assms c2 False w0(1) w1(1) w2(1) w3(1) have "ii' = length pre + 4"
        "store out oi [?b0, ?b1, ?b2] = Some out'" "oi' = oi + 3"
        by (auto simp: base64_decode_group_def Let_def nth_append writer_simps bind_eq_Some_conv split: if_splits)
      moreover have "[c0, c1, c2, c3] @ r = b64_text True url [?b0, ?b1, ?b2] @ r"
        using w0 w1 w2 w3 sextets_split [OF w0(2,3) w1(2,3) w2(2,3) w3(2,3)]
        by (simp add: b64_quad_def)
      ultimately show ?thesis
        unfolding b64_taken_def by (intro conjI exI [of _ "[?b0, ?b1, ?b2]"] exI [of _ True]) simp_all
    qed
  qed
qed

lemma decode_group_three_inv:
  assumes "base64_decode_group (Mem (pre @ [c0, c1, c2])) (length pre + 3) cap pg hp url al g (length pre) oi out
      = Some (Inr (ii', oi', out'))"
  shows "ii' = length pre + 3 \<and> b64_taken url [c0, c1, c2] [] oi out oi' out'"
proof -
  have "\<not> base64_value c0 url < 0" and "\<not> base64_value c1 url < 0" and "\<not> base64_value c2 url < 0"
    using assms by (auto simp: base64_decode_group_def Let_def nth_append split: if_splits)
  then obtain w0 w1 w2 where w0: "base64_value c0 url = uint w0" "\<not> bit w0 6" "\<not> bit w0 7" "c0 = base64_char w0 url"
    and w1: "base64_value c1 url = uint w1" "\<not> bit w1 6" "\<not> bit w1 7" "c1 = base64_char w1 url"
    and w2: "base64_value c2 url = uint w2" "\<not> bit w2 6" "\<not> bit w2 7" "c2 = base64_char w2 url"
    by (metis base64_value_inverse)
  let ?b0 = "word_of_int (push_bit 2 (uint w0) OR drop_bit 4 (uint w1)) :: u8"
  let ?b1 = "word_of_int (push_bit 4 (uint w1) OR drop_bit 2 (uint w2)) :: u8"
  from assms w0(1) w1(1) w2(1) have "uint w2 AND 0x03 = 0" "ii' = length pre + 3"
    "store out oi [?b0, ?b1] = Some out'" "oi' = oi + 2"
    by (auto simp: base64_decode_group_def Let_def nth_append writer_simps bind_eq_Some_conv split: if_splits)
  moreover from this have "[c0, c1, c2] = b64_text False url [?b0, ?b1] @ []"
    using w0 w1 w2 sextets_split(1,2) [OF w0(2,3) w1(2,3) w2(2,3) w2(2,3)]
      sextets_split_tail(2) [OF w0(2,3) w1(2,3) w2(2,3)]
    by (simp add: b64_quad_def)
  ultimately show ?thesis
    unfolding b64_taken_def by (intro conjI exI [of _ "[?b0, ?b1]"] exI [of _ False]) simp_all
qed

lemma decode_group_pair_inv:
  assumes "base64_decode_group (Mem (pre @ [c0, c1])) (length pre + 2) cap pg hp url al g (length pre) oi out
      = Some (Inr (ii', oi', out'))"
  shows "ii' = length pre + 2 \<and> b64_taken url [c0, c1] [] oi out oi' out'"
proof -
  have "\<not> base64_value c0 url < 0" and "\<not> base64_value c1 url < 0"
    using assms by (auto simp: base64_decode_group_def Let_def nth_append split: if_splits)
  then obtain w0 w1 where w0: "base64_value c0 url = uint w0" "\<not> bit w0 6" "\<not> bit w0 7" "c0 = base64_char w0 url"
    and w1: "base64_value c1 url = uint w1" "\<not> bit w1 6" "\<not> bit w1 7" "c1 = base64_char w1 url"
    by (metis base64_value_inverse)
  let ?b0 = "word_of_int (push_bit 2 (uint w0) OR drop_bit 4 (uint w1)) :: u8"
  from assms w0(1) w1(1) have "uint w1 AND 0x0F = 0" "ii' = length pre + 2"
    "store out oi [?b0] = Some out'" "oi' = oi + 1"
    by (auto simp: base64_decode_group_def base64_decode_pair_tail_def Let_def nth_append store_single bind_eq_Some_conv split: if_splits)
  moreover from this have "[c0, c1] = b64_text False url [?b0] @ []"
    using w0 w1 sextets_split(1) [OF w0(2,3) w1(2,3) w1(2,3) w1(2,3)]
      sextets_split_tail(1) [OF w0(2,3) w1(2,3) w1(2,3)]
    by (simp add: b64_quad_def)
  ultimately show ?thesis
    unfolding b64_taken_def by (intro conjI exI [of _ "[?b0]"] exI [of _ False]) simp_all
qed

lemma decode_group_inv:
  assumes "base64_decode_group (Mem (pre @ xs)) (length pre + length xs) cap pg hp url al g (length pre) oi out
      = Some (Inr (ii', oi', out'))"
  shows "\<exists>rest. ii' + length rest = length pre + length xs \<and> b64_taken url xs rest oi out oi' out'"
proof -
  consider "length xs < 2" | c0 c1 where "xs = [c0, c1]" | c0 c1 c2 where "xs = [c0, c1, c2]"
    | c0 c1 c2 c3 r where "xs = [c0, c1, c2, c3] @ r"
  proof (cases xs)
    case (Cons c0 xs1)
    with that show thesis by (cases xs1; cases "tl xs1"; cases "tl (tl xs1)") auto
  qed (use that in auto)
  then show ?thesis
  proof cases
    case 1
    with assms show ?thesis by (simp add: base64_decode_group_def)
  next
    case 2
    with assms show ?thesis using decode_group_pair_inv [of pre c0 c1]
      by (intro exI [of _ "[]"]) (auto simp: eval_nat_numeral)
  next
    case 3
    with assms show ?thesis using decode_group_three_inv [of pre c0 c1 c2]
      by (intro exI [of _ "[]"]) (auto simp: eval_nat_numeral)
  next
    case 4
    with assms show ?thesis using decode_group_full_inv [of pre c0 c1 c2 c3 r]
      by (intro exI [of _ r]) (auto simp: eval_nat_numeral)
  qed
qed

lemma decode_group_error:
  assumes "base64_decode_group inp n cap pg hp url al g ii oi out = Some (Inl (s, out'))"
  shows "s \<noteq> status_ok"
  using assms
  by (auto simp: base64_decode_group_def base64_decode_pair_tail_def Let_def bind_eq_Some_conv split: if_splits)

lemma base64_decode_loop_ok_step:
  assumes "base64_decode_loop inp n cap pg hp url al g ii oi out = Some (status_ok, oi', out')" and "g < pg"
  shows "\<exists>ii1 oi1 out1. base64_decode_group inp n cap pg hp url al g ii oi out = Some (Inr (ii1, oi1, out1)) \<and>
    base64_decode_loop inp n cap pg hp url al (Suc g) ii1 oi1 out1 = Some (status_ok, oi', out')"
proof (cases "base64_decode_group inp n cap pg hp url al g ii oi out")
  case None
  with assms show ?thesis by (simp add: base64_decode_loop.simps [of inp n cap pg hp url al g])
next
  case (Some r)
  with assms show ?thesis
    by (cases r) (auto simp: base64_decode_loop.simps [of inp n cap pg hp url al g] dest: decode_group_error)
qed

lemma b64_text_append:
  "length bs = 3 \<Longrightarrow> b64_text p url (bs @ cs) = b64_text q url bs @ b64_text p url cs"
  by (cases "(p, url, bs)" rule: b64_text.cases) auto

lemma base64_decode_loop_inv:
  assumes "base64_decode_loop (Mem (pre @ xs)) (length pre + length xs) cap pg hp url al g (length pre) oi out
      = Some (status_ok, oi', out')"
    and "pg = g + (length xs + 3) div 4"
  shows "\<exists>bs p. xs = b64_text p url bs \<and> store out oi bs = Some out' \<and> oi' = oi + length bs"
  using assms
proof (induction "length xs" arbitrary: pre xs g oi out rule: less_induct)
  case less
  show ?case
  proof (cases "xs = []")
    case True
    with less.prems show ?thesis
      by (intro exI [of _ "[]"]) (simp add: base64_decode_loop_end)
  next
    case False
    then have g: "g < pg" using less.prems(2) by (cases xs) simp_all
    with less.prems(1) obtain ii1 oi1 out1 where
      grp: "base64_decode_group (Mem (pre @ xs)) (length pre + length xs) cap pg hp url al g (length pre) oi out
        = Some (Inr (ii1, oi1, out1))"
      and loop: "base64_decode_loop (Mem (pre @ xs)) (length pre + length xs) cap pg hp url al (Suc g) ii1 oi1 out1
        = Some (status_ok, oi', out')"
      by (metis base64_decode_loop_ok_step)
    from decode_group_inv [OF grp] obtain rest bs p where
      ii1: "ii1 + length rest = length pre + length xs"
      and bs: "bs \<noteq> []" "length bs \<le> 3" "xs = b64_text p url bs @ rest" "length bs < 3 \<longrightarrow> rest = []"
        "store out oi bs = Some out1" "oi1 = oi + length bs"
      unfolding b64_taken_def by blast
    let ?pre = "pre @ b64_text p url bs"
    have lt: "length (b64_text p url bs) \<le> 4" "length bs = 3 \<longrightarrow> length (b64_text p url bs) = 4"
    proof -
      have "length bs = 0 \<or> length bs = 1 \<or> length bs = 2 \<or> length bs = 3" using bs(2) by arith
      then show "length (b64_text p url bs) \<le> 4" "length bs = 3 \<longrightarrow> length (b64_text p url bs) = 4"
        by (auto simp: length_b64_text)
    qed
    have "ii1 = length ?pre" using ii1 bs(3) by simp
    moreover have "pg = Suc g + (length rest + 3) div 4"
      using less.prems(2) bs lt b64_text_len2 [OF bs(1), of p url] by (cases "rest = []") auto
    moreover have "length rest < length xs" using bs by (cases rest) auto
    ultimately obtain bs' p' where rest: "rest = b64_text p' url bs'" "store out1 oi1 bs' = Some out'" "oi' = oi1 + length bs'"
      using less.hyps [of rest ?pre "Suc g" oi1 out1] loop bs(3) by (auto simp: add.assoc)
    have "xs = b64_text (if rest = [] then p else p') url (bs @ bs')"
      using rest(1) [symmetric] bs b64_text_append [of bs p' url bs' p]
      by (cases "length bs = 3") auto
    moreover have "store out oi (bs @ bs') = Some out'"
      using store_append [of out oi bs bs'] bs(5,6) rest(2) by simp
    ultimately show ?thesis using rest(3) bs(6) by auto
  qed
qed

section \<open>Properties\<close>

text \<open>C1: for both alphabets, with or without padding, encoding succeeds exactly when the text fits,
  and decoding the produced text gives the input bytes back.\<close>

theorem base64_roundtrip:
  assumes "length (b64_text padding url bs) < size_mod" and "length (b64_text padding url bs) \<le> length buf"
    and "length bs \<le> length buf'"
  shows "\<exists>n out. base64_encode (Mem bs) (Mem buf) padding url = Some (status_ok, n, Mem out) \<and>
    length out = length buf \<and> drop n out = drop n buf \<and>
    base64_decode (Mem (take n out)) (Mem buf') url True = Some (status_ok, length bs, Mem (bs @ drop (length bs) buf'))"
  using assms by (rule base64.roundtrip)

theorem base64_roundtrip_witness:
  "\<exists>n out. base64_encode (Mem [0x4D, 0x61]) (Mem [9, 9, 9, 9, 9]) True False = Some (status_ok, n, Mem out) \<and>
    length out = length [9, 9, 9, 9, 9 :: u8] \<and> drop n out = drop n [9, 9, 9, 9, 9] \<and>
    base64_decode (Mem (take n out)) (Mem [7, 7, 7]) False True =
      Some (status_ok, length [0x4D, 0x61 :: u8], Mem ([0x4D, 0x61] @ drop (length [0x4D, 0x61 :: u8]) [7, 7, 7]))"
  by (rule base64_roundtrip) (simp_all add: size_mod_def b64_quad_def)

text \<open>C2: the decoder is canonical.  Whatever it accepts is the text the encoder produces for the
  decoded bytes, padded, or unpadded when unpadded input is allowed; so stray bits, misplaced
  padding and foreign characters are all rejected.\<close>

theorem base64_decode_canonical:
  assumes "base64_decode (Mem cs) (Mem buf) url al = Some (status_ok, n, Mem out)"
  shows "\<exists>bs. n = length bs \<and> out = bs @ drop n buf \<and>
    (cs = b64_text True url bs \<or> al \<and> cs = b64_text False url bs)"
proof (cases "cs = []")
  case True
  with assms show ?thesis by (intro exI [of _ "[]"]) (simp add: base64_decode_def)
next
  case False
  let ?pg = "if length cs mod 4 \<noteq> 0 then length cs div 4 + 1 else length cs div 4"
  have al: "length cs mod 4 \<noteq> 0 \<longrightarrow> al"
    and loop: "base64_decode_loop (Mem cs) (length cs) (length buf) ?pg (length cs mod 4 \<noteq> 0) url al 0 0 0 (Mem buf)
      = Some (status_ok, n, Mem out)"
    using assms False by (auto simp: base64_decode_def Let_def bind_eq_Some_conv split: if_splits)
  have "?pg = (length cs + 3) div 4" by presburger
  from base64_decode_loop_inv [where pre = "[]" and xs = cs and g = 0 and oi = 0,
      unfolded append_Nil list.size add_0, OF loop this]
  obtain bs p where bs: "cs = b64_text p url bs" "store (Mem buf) 0 bs = Some (Mem out)" "n = length bs"
    by auto
  have "p \<or> al \<or> cs = b64_text True url bs"
  proof (cases "length bs mod 3 = 0")
    case True
    have "b64_text q url bs = b64_text True url bs" for q
      using True by (induction q url bs rule: b64_text.induct) simp_all
    with bs(1) show ?thesis by simp
  next
    case False
    with bs(1) al show ?thesis by (cases p) (auto simp: length_b64_text)
  qed
  with bs show ?thesis by (cases p) (auto split: if_splits)
qed

theorem base64_decode_canonical_witness:
  "\<exists>bs. (1::nat) = length bs \<and> [0x4D, 8] = bs @ drop 1 [7, 8 :: u8] \<and>
    ([0x54, 0x51] = b64_text True False bs \<or> True \<and> [0x54, 0x51] = b64_text False False bs)"
proof (rule base64_decode_canonical)
  show "base64_decode (Mem [0x54, 0x51]) (Mem [7, 8]) False True = Some (status_ok, 1, Mem [0x4D, 8])"
    by code_simp
qed

end
