(* ===== verification/Mqtt.thy ===== *)
theory Mqtt
  imports Bytes
begin

text \<open>
  The framing layer of MQTT (\<open>castle_ext/protocols/mqtt/codec.hpp\<close>): the Remaining Length code, the
  fixed header, encoding a control packet and finding one at the front of a byte stream.  A pointer
  into the input is the offset it points to; \<open>None\<close> is the null pointer.
\<close>

section \<open>Types\<close>

datatype packet_type =
    packet_reserved | packet_connect | packet_connack | packet_publish | packet_puback | packet_pubrec
  | packet_pubrel | packet_pubcomp | packet_subscribe | packet_suback | packet_unsubscribe | packet_unsuback
  | packet_pingreq | packet_pingresp | packet_disconnect | packet_auth

primrec packet_type_value :: "packet_type \<Rightarrow> u8" where
  "packet_type_value packet_reserved = 0"
| "packet_type_value packet_connect = 1"
| "packet_type_value packet_connack = 2"
| "packet_type_value packet_publish = 3"
| "packet_type_value packet_puback = 4"
| "packet_type_value packet_pubrec = 5"
| "packet_type_value packet_pubrel = 6"
| "packet_type_value packet_pubcomp = 7"
| "packet_type_value packet_subscribe = 8"
| "packet_type_value packet_suback = 9"
| "packet_type_value packet_unsubscribe = 10"
| "packet_type_value packet_unsuback = 11"
| "packet_type_value packet_pingreq = 12"
| "packet_type_value packet_pingresp = 13"
| "packet_type_value packet_disconnect = 14"
| "packet_type_value packet_auth = 15"

text \<open>\<open>static_cast<packet_type>\<close> of a four-bit value.\<close>

definition packet_types :: "packet_type list" where
  "packet_types = [packet_reserved, packet_connect, packet_connack, packet_publish, packet_puback, packet_pubrec,
     packet_pubrel, packet_pubcomp, packet_subscribe, packet_suback, packet_unsubscribe, packet_unsuback,
     packet_pingreq, packet_pingresp, packet_disconnect, packet_auth]"

definition to_packet_type :: "u8 \<Rightarrow> packet_type" where
  "to_packet_type v = packet_types ! unat v"

record packet_view =
  pv_type :: packet_type
  pv_flags :: u8
  pv_remaining_length :: u32
  pv_header_size :: nat
  pv_packet_size :: nat
  pv_body :: "nat option"

definition empty_view :: packet_view where
  "empty_view = \<lparr>pv_type = packet_reserved, pv_flags = 0, pv_remaining_length = 0, pv_header_size = 0,
     pv_packet_size = 0, pv_body = None\<rparr>"

definition maximum_remaining_length :: u32 where
  "maximum_remaining_length = 268435455"

section \<open>Remaining Length\<close>

function encode_length_loop :: "u32 \<Rightarrow> u8 ptr \<Rightarrow> nat \<Rightarrow> (u8 ptr \<times> nat) option" where
  "encode_length_loop value output written =
     (let digit = ucast (value mod 128);
          value = value div 128;
          digit = (if value \<noteq> 0 then digit OR 0x80 else digit)
      in do {
        output \<leftarrow> put output written digit;
        if value \<noteq> 0 \<and> written + 1 < 4 then encode_length_loop value output (written + 1)
        else Some (output, written + 1) })"
  by pat_completeness auto
termination by (relation "measure (\<lambda>(_, _, written). 4 - written)") auto

declare encode_length_loop.simps [simp del]

definition encode_remaining_length :: "u32 \<Rightarrow> u8 ptr \<Rightarrow> (status \<times> u8 ptr \<times> nat) option" where
  "encode_remaining_length value output =
     (if is_null output then Some (status_invalid_argument, output, 0)
      else if value > maximum_remaining_length then Some (status_out_of_range, output, 0)
      else do { (output, written) \<leftarrow> encode_length_loop value output 0; Some (status_ok, output, written) })"

fun length_minimum_loop :: "nat \<Rightarrow> u32 \<Rightarrow> u32" where
  "length_minimum_loop 0 minimum = minimum"
| "length_minimum_loop (Suc i) minimum = length_minimum_loop i (minimum * 128)"

function decode_length_loop :: "u8 ptr \<Rightarrow> nat \<Rightarrow> u32 \<Rightarrow> u32 \<Rightarrow> (status \<times> u32 \<times> nat) option" where
  "decode_length_loop input i value multiplier =
     (if i < 4 then
        if i \<ge> psize input then Some (status_empty, value, i)
        else do {
          digit \<leftarrow> rd input i;
          let value = value + ucast (digit AND 0x7F) * multiplier;
          if digit AND 0x80 = 0 then
            if value > maximum_remaining_length then Some (status_out_of_range, value, i + 1)
            else if i \<noteq> 0 \<and> value < length_minimum_loop i 1 then Some (status_invalid_argument, value, i + 1)
            else Some (status_ok, value, i + 1)
          else decode_length_loop input (i + 1) value (multiplier * 128) }
      else Some (status_invalid_argument, value, i))"
  by pat_completeness auto
termination by (relation "measure (\<lambda>(_, i, _, _). 4 - i)") auto

declare decode_length_loop.simps [simp del]

definition decode_remaining_length :: "u8 ptr \<Rightarrow> (status \<times> u32 \<times> nat) option" where
  "decode_remaining_length input =
     (if is_null input \<and> psize input \<noteq> 0 then Some (status_invalid_argument, 0, 0)
      else decode_length_loop input 0 0 1)"

section \<open>Packets\<close>

definition valid_fixed_header :: "packet_type \<Rightarrow> u8 \<Rightarrow> bool" where
  "valid_fixed_header t flags =
     (if t = packet_publish then
        let quality = drop_bit 1 flags AND 3 in quality \<noteq> 3 \<and> \<not> (quality = 0 \<and> flags AND 8 \<noteq> 0)
      else if t = packet_pubrel \<or> t = packet_subscribe \<or> t = packet_unsubscribe then flags = 0x02 \<or> flags = 0x0A
      else flags = 0)"

text \<open>The pointer \<open>input + n\<close>.\<close>

fun ptr_add :: "'a ptr \<Rightarrow> nat \<Rightarrow> 'a ptr" where
  "ptr_add (Null m) n = Null (m - n)"
| "ptr_add (Mem xs) n = Mem (drop n xs)"

definition inspect_packet :: "u8 ptr \<Rightarrow> nat \<Rightarrow> (status \<times> packet_view) option" where
  "inspect_packet input maximum_packet_size =
     (if is_null input \<or> maximum_packet_size < 2 then Some (status_invalid_argument, empty_view)
      else if psize input < 2 then Some (status_empty, empty_view)
      else do {
        first \<leftarrow> rd input 0;
        let type_value = drop_bit 4 first;
        let flags = first AND 0x0F;
        if type_value = 0 \<or> \<not> valid_fixed_header (to_packet_type type_value) flags then
          Some (status_invalid_argument, empty_view)
        else do {
          (result, remaining, length_bytes) \<leftarrow> decode_remaining_length (ptr_add input 1);
          if \<not> succeeded result then Some (result, empty_view)
          else
            let header_size = 1 + length_bytes in
            if unat remaining > maximum_packet_size \<or> header_size > maximum_packet_size - unat remaining then
              Some (status_out_of_range, empty_view)
            else
              let packet_size = header_size + unat remaining in
              if psize input < packet_size then Some (status_empty, empty_view)
              else Some (status_ok, \<lparr>pv_type = to_packet_type type_value, pv_flags = flags,
                pv_remaining_length = remaining, pv_header_size = header_size, pv_packet_size = packet_size,
                pv_body = Some header_size\<rparr>) } })"

function copy_bytes_loop :: "u8 ptr \<Rightarrow> nat \<Rightarrow> nat \<Rightarrow> nat \<Rightarrow> u8 ptr \<Rightarrow> u8 ptr option" where
  "copy_bytes_loop source count i at output =
     (if i < count then do {
        v \<leftarrow> rd source i;
        output \<leftarrow> put output (at + i) v;
        copy_bytes_loop source count (i + 1) at output }
      else Some output)"
  by pat_completeness auto
termination by (relation "measure (\<lambda>(_, count, i, _, _). count - i)") auto

declare copy_bytes_loop.simps [simp del]

definition encode_packet :: "packet_type \<Rightarrow> u8 \<Rightarrow> u8 ptr \<Rightarrow> u8 ptr \<Rightarrow> (status \<times> u8 ptr \<times> nat) option" where
  "encode_packet t flags body output =
     (let body_size = psize body; capacity = psize output in
      if is_null output \<or> (is_null body \<and> body_size \<noteq> 0) then Some (status_invalid_argument, output, 0)
      else if \<not> valid_fixed_header t flags then Some (status_invalid_argument, output, 0)
      else if body_size > unat maximum_remaining_length then Some (status_out_of_range, output, 0)
      else do {
        (result, length, length_size) \<leftarrow> encode_remaining_length (of_nat body_size) (Mem (replicate 4 0));
        if \<not> succeeded result then Some (result, output, 0)
        else if capacity < 1 + length_size \<or> body_size > capacity - 1 - length_size then Some (status_full, output, 0)
        else do {
          output \<leftarrow> put output 0 (push_bit 4 (packet_type_value t) OR flags);
          output \<leftarrow> copy_bytes_loop length length_size 0 1 output;
          output \<leftarrow> copy_bytes_loop body body_size 0 (1 + length_size) output;
          Some (status_ok, output, 1 + length_size + body_size) } })"

section \<open>The wire format\<close>

text \<open>The base-128 code of a number, and a packet as the bytes it is sent as.\<close>

fun varint :: "nat \<Rightarrow> u8 list" where
  "varint n = (if n < 128 then [of_nat n] else of_nat (n mod 128 + 128) # varint (n div 128))"

declare varint.simps [simp del]

definition packet_bytes :: "packet_type \<Rightarrow> u8 \<Rightarrow> u8 list \<Rightarrow> u8 list" where
  "packet_bytes t flags body = (push_bit 4 (packet_type_value t) OR flags) # varint (length body) @ body"

lemma copy_bytes_loop_store:
  "i \<le> length xs \<Longrightarrow> copy_bytes_loop (Mem (xs @ zs)) (length xs) i at output = store output (at + i) (drop i xs)"
proof (induction "length xs - i" arbitrary: i "output")
  case 0
  then show ?case by (simp add: copy_bytes_loop.simps)
next
  case (Suc n)
  then have i: "i < length xs" by simp
  have "copy_bytes_loop (Mem (xs @ zs)) (length xs) (Suc i) at = (\<lambda>q. store q (Suc (at + i)) (drop (Suc i) xs))"
    using Suc.hyps i by (intro ext) simp
  with i show ?case
    by (subst copy_bytes_loop.simps) (simp add: nth_append store_Cons [symmetric] Cons_nth_drop_Suc [symmetric])
qed

lemma seven_bits: "unat (b AND 0x7F :: u8) = unat b mod 128"
proof -
  have "b AND 0x7F = take_bit 7 b" by (simp add: take_bit_eq_mask mask_eq_exp_minus_1)
  then show ?thesis by (simp add: take_bit_eq_mod unat_mod_distrib)
qed

lemma top_bit: "(b AND 0x80 :: u8) = 0 \<longleftrightarrow> unat b < 128"
proof -
  have "unat b < 256" using unsigned_less [of b] by simp
  then have "odd (unat b div 128) \<longleftrightarrow> \<not> unat b < 128" by (cases "unat b < 128") (auto simp: div_if)
  then have "bit (unat b) 7 \<longleftrightarrow> \<not> unat b < 128" by (simp add: bit_iff_odd del: bit_unsigned_iff)
  moreover have "bit (unat b) 7 = bit b 7" by (simp add: bit_unsigned_iff)
  ultimately show ?thesis using and_exp_eq_0_iff_not_bit [of b 7] by simp
qed

text \<open>The two kinds of length byte: \<open>d\<close> below 128 ends the code, \<open>d + 128\<close> continues it.\<close>

lemma length_byte:
  assumes "d < 128"
  shows "unat (of_nat d :: u8) = d" and "unat (of_nat (d + 128) :: u8) = d + 128"
    and "(of_nat d AND 0x80 :: u8) = 0" and "(of_nat (d + 128) AND 0x80 :: u8) \<noteq> 0"
    and "(ucast (of_nat d AND 0x7F :: u8) :: u32) = of_nat d"
    and "(ucast (of_nat (d + 128) AND 0x7F :: u8) :: u32) = of_nat d"
proof -
  show u: "unat (of_nat d :: u8) = d" "unat (of_nat (d + 128) :: u8) = d + 128"
    using assms by (simp_all only: unat_of_nat) simp_all
  show "(of_nat d AND 0x80 :: u8) = 0" "(of_nat (d + 128) AND 0x80 :: u8) \<noteq> 0"
    unfolding top_bit u using assms by simp_all
  have ucast_unat: "(ucast b :: u32) = of_nat (unat b)" for b :: u8 by simp
  show "(ucast (of_nat d AND 0x7F :: u8) :: u32) = of_nat d" "(ucast (of_nat (d + 128) AND 0x7F :: u8) :: u32) = of_nat d"
    unfolding ucast_unat seven_bits u using assms by simp_all
qed

lemma byte_digit:
  obtains d where "d < 128" "b = (of_nat d :: u8)" | d where "d < 128" "b = (of_nat (d + 128) :: u8)"
proof (cases "unat b < 128")
  case True
  then show ?thesis using that(1) [of "unat b"] by simp
next
  case False
  moreover have "unat b < 256" using unsigned_less [of b] by simp
  ultimately show ?thesis using that(2) [of "unat b - 128"] by simp
qed

lemma length_minimum_loop_power: "length_minimum_loop i m = m * 128 ^ i"
  by (induction i arbitrary: m) (simp_all add: ac_simps)

lemma power_128_bound: "i < 4 \<Longrightarrow> (128 :: nat) ^ i \<le> 128 ^ 3"
  by (rule power_increasing) simp_all

lemma small_word: "n < 128 ^ 4 \<Longrightarrow> unat (of_nat n :: u32) = n"
  by (simp only: unat_of_nat) simp

lemma digits_left:
  fixes n :: nat
  assumes "i < 4" and "128 \<le> n" and "n < 128 ^ (4 - i)"
  shows "i + 1 < 4" and "n div 128 < 128 ^ (4 - (i + 1))"
proof -
  have "i \<noteq> 3" using assms(2,3) by auto
  then show i: "i + 1 < 4" using assms(1) by simp
  then have "4 - i = Suc (4 - (i + 1))" by simp
  with assms(3) have "n < 128 ^ (4 - (i + 1)) * 128" by (simp only: power_Suc mult.commute)
  then show "n div 128 < 128 ^ (4 - (i + 1))" by (simp only: div_less_iff_less_mult)
qed

lemma encode_length_loop_varint:
  assumes "n < 128 ^ (4 - written)" and "written < 4"
  shows "encode_length_loop (of_nat n) q written =
    map_option (\<lambda>q. (q, written + length (varint n))) (store q written (varint n))"
  using assms
proof (induction "4 - written" arbitrary: written n q)
  case (Suc j)
  have n: "n < 128 ^ 4"
    using Suc.prems(1) power_increasing [of "4 - written" 4 "128 :: nat"] by simp
  have div: "(of_nat n :: u32) div 128 = of_nat (n div 128)" and mod: "(of_nat n :: u32) mod 128 = of_nat (n mod 128)"
    using small_word [OF n] by (simp_all add: word_arith_nat_div word_arith_nat_mod)
  have zero: "(of_nat (n div 128) :: u32) = 0 \<longleftrightarrow> n < 128"
    using small_word [of "n div 128"] n by (auto simp: div_eq_0_iff dest!: arg_cong [of _ _ unat])
  have digit: "(ucast (of_nat (n mod 128) :: u32) :: u8) = of_nat (n mod 128)"
  proof -
    have uc: "(ucast w :: u8) = of_nat (unat w)" for w :: u32 by simp
    have "n mod 128 < 128 ^ 4" by (rule less_trans [of _ 128]) simp_all
    then show ?thesis unfolding uc by (simp only: small_word)
  qed
  have more: "(of_nat (n mod 128) OR 0x80 :: u8) = of_nat (n mod 128 + 128)"
    using disjunctive_add_eq_or [OF length_byte(3) [of "n mod 128"]] by simp
  show ?case
  proof (cases "n < 128")
    case True
    then have "(ucast (of_nat n :: u32) :: u8) = of_nat n" using digit by simp
    with True show ?thesis
      by (subst encode_length_loop.simps) (simp add: Let_def div mod zero varint.simps [of n] store_simps)
  next
    case False
    then have n128: "128 \<le> n" by simp
    note w = digits_left [OF Suc.prems(2) n128 Suc.prems(1)]
    have IH: "(\<lambda>q. encode_length_loop (of_nat (n div 128)) q (Suc written)) =
        (\<lambda>q. map_option (\<lambda>q. (q, Suc (written + length (varint (n div 128))))) (store q (Suc written) (varint (n div 128))))"
      using Suc.hyps(1) [OF _ w(2,1)] Suc.hyps(2) by simp
    show ?thesis using False w(1)
      by (subst encode_length_loop.simps)
        (simp add: Let_def div mod zero digit more IH varint.simps [of n] store_Cons [symmetric] bind_map_option_right)
  qed
qed simp

lemma length_varint: "n < 128 ^ k \<Longrightarrow> 0 < k \<Longrightarrow> length (varint n) \<le> k"
proof (induction k arbitrary: n)
  case (Suc k)
  show ?case
  proof (cases "n < 128")
    case False
    then have "0 < k" using Suc.prems by (cases k) auto
    moreover have "n div 128 < 128 ^ k" using Suc.prems by (simp add: div_less_iff_less_mult mult.commute)
    ultimately show ?thesis using Suc.IH False by (subst varint.simps) simp
  qed (subst varint.simps, simp)
qed simp

lemma varint_nonempty [simp]: "varint n \<noteq> []" "0 < length (varint n)"
  by (subst varint.simps, simp)+

lemma maximum_nat: "unat maximum_remaining_length = 128 ^ 4 - 1"
  by (simp add: maximum_remaining_length_def)

lemma encode_remaining_length_varint:
  assumes "n < 128 ^ 4" and "4 \<le> length xs"
  shows "encode_remaining_length (of_nat n) (Mem xs) =
    Some (status_ok, Mem (varint n @ drop (length (varint n)) xs), length (varint n))"
proof -
  have "\<not> maximum_remaining_length < of_nat n"
    using assms small_word [of n] by (simp add: word_less_nat_alt maximum_nat)
  moreover have "length (varint n) \<le> length xs" using length_varint [OF assms(1)] assms(2) by simp
  ultimately show ?thesis
    using encode_length_loop_varint [of n 0 "Mem xs"] assms(1) by (simp add: encode_remaining_length_def)
qed

text \<open>Decoding from the middle of a code: \<open>a\<close> is the value of the digits read so far.\<close>

lemma decode_step:
  assumes "i < 4" and "i < length xs" and "a < 128 ^ i" and "d < 128"
  shows "xs ! i = of_nat (d + 128) \<Longrightarrow>
      decode_length_loop (Mem xs) i (of_nat a) (of_nat (128 ^ i)) =
      decode_length_loop (Mem xs) (i + 1) (of_nat (a + d * 128 ^ i)) (of_nat (128 ^ (i + 1)))"
    and "xs ! i = of_nat d \<Longrightarrow>
      decode_length_loop (Mem xs) i (of_nat a) (of_nat (128 ^ i)) =
      Some (if i \<noteq> 0 \<and> d = 0 then status_invalid_argument else status_ok, of_nat (a + d * 128 ^ i), i + 1)"
proof -
  have v: "(of_nat a :: u32) + of_nat d * of_nat (128 ^ i) = of_nat (a + d * 128 ^ i)" by simp
  have "(d + 1) * 128 ^ i \<le> 128 * 128 ^ i" using assms(4) by (intro mult_right_mono) simp_all
  also have "\<dots> \<le> 128 ^ 4" using power_increasing [of "Suc i" 4 "128 :: nat"] assms(1) by simp
  finally have bound: "a + d * 128 ^ i < 128 ^ 4" using assms(3) by (simp add: algebra_simps)
  have m: "length_minimum_loop i 1 = of_nat (128 ^ i)" by (simp add: length_minimum_loop_power)
  have "unat (of_nat (128 ^ i) :: u32) = 128 ^ i"
    using power_128_bound [OF assms(1)] by (intro small_word) simp
  then have low: "(of_nat (a + d * 128 ^ i) < (of_nat (128 ^ i) :: u32)) \<longleftrightarrow> d = 0"
    unfolding word_less_nat_alt small_word [OF bound] using assms(3) by (cases d) auto
  have high: "\<not> maximum_remaining_length < of_nat (a + d * 128 ^ i)"
    unfolding word_less_nat_alt small_word [OF bound] maximum_nat using bound by simp
  show "decode_length_loop (Mem xs) i (of_nat a) (of_nat (128 ^ i)) =
      decode_length_loop (Mem xs) (i + 1) (of_nat (a + d * 128 ^ i)) (of_nat (128 ^ (i + 1)))"
    if "xs ! i = of_nat (d + 128)"
    by (subst decode_length_loop.simps)
      (use assms length_byte(4,6) [OF assms(4)] that v in \<open>simp add: Let_def ac_simps\<close>)
  show "decode_length_loop (Mem xs) i (of_nat a) (of_nat (128 ^ i)) =
      Some (if i \<noteq> 0 \<and> d = 0 then status_invalid_argument else status_ok, of_nat (a + d * 128 ^ i), i + 1)"
    if "xs ! i = of_nat d"
    unfolding decode_length_loop.simps [of _ i]
    using assms(1,2) length_byte(3,5) [OF assms(4)] that low high
    by (simp only: Let_def v m) (simp add: not_le)
qed

lemma varint_Cons: "128 \<le> n \<Longrightarrow> varint n = of_nat (n mod 128 + 128) # varint (n div 128)"
  by (subst varint.simps) simp

lemma varint_one: "n < 128 \<Longrightarrow> varint n = [of_nat n]"
  by (subst varint.simps) simp

lemma digit_bound: "a < 128 ^ i \<Longrightarrow> d < 128 \<Longrightarrow> a + d * 128 ^ i < 128 ^ (i + 1)" for a d :: nat
proof -
  assume a: "a < 128 ^ i" and d: "d < 128"
  have "a + d * 128 ^ i < (d + 1) * 128 ^ i" using a by simp
  also have "\<dots> \<le> 128 * 128 ^ i" using d by (intro mult_right_mono) simp_all
  finally show ?thesis by simp
qed

lemma digit_sum: "a + n mod 128 * 128 ^ i + n div 128 * 128 ^ (i + 1) = a + n * 128 ^ i" for a n i :: nat
proof -
  have "a + r * 128 ^ i + q * 128 ^ (i + 1) = a + (q * 128 + r) * 128 ^ i" for q r :: nat by (simp add: algebra_simps)
  from this [of "n mod 128" "n div 128"] show ?thesis by (simp only: div_mult_mod_eq)
qed

lemma decode_varint:
  assumes "i < 4" and "a < 128 ^ i" and "n < 128 ^ (4 - i)" and "i \<noteq> 0 \<Longrightarrow> n \<noteq> 0" and "drop i xs = varint n @ rest"
  shows "decode_length_loop (Mem xs) i (of_nat a) (of_nat (128 ^ i)) =
    Some (status_ok, of_nat (a + n * 128 ^ i), i + length (varint n))"
  using assms
proof (induction "4 - i" arbitrary: i a n)
  case (Suc j)
  have len: "i < length xs" using Suc.prems(5) by (metis append_is_Nil_conv drop_all not_less varint_nonempty(1))
  show ?case
  proof (cases "n < 128")
    case True
    have "xs ! i = of_nat n" using Suc.prems(5) True len by (simp add: varint_one Cons_nth_drop_Suc [symmetric])
    from decode_step(2) [OF Suc.prems(1) len Suc.prems(2) True this] show ?thesis
      using Suc.prems(4) True by (auto simp: varint_one)
  next
    case False
    then have n: "128 \<le> n" by simp
    let ?a = "a + n mod 128 * 128 ^ i"
    have x: "xs ! i = of_nat (n mod 128 + 128)" "drop (i + 1) xs = varint (n div 128) @ rest"
      using Suc.prems(5) n len by (simp_all add: varint_Cons Cons_nth_drop_Suc [symmetric])
    have "decode_length_loop (Mem xs) (i + 1) (of_nat ?a) (of_nat (128 ^ (i + 1))) =
        Some (status_ok, of_nat (?a + n div 128 * 128 ^ (i + 1)), i + 1 + length (varint (n div 128)))"
      using Suc.hyps(2) digits_left [OF Suc.prems(1) n Suc.prems(3)] digit_bound [OF Suc.prems(2), of "n mod 128"] n x(2)
      by (intro Suc.hyps(1)) (auto simp: div_eq_0_iff)
    with decode_step(1) [OF Suc.prems(1) len Suc.prems(2) _ x(1)] show ?thesis
      unfolding digit_sum using n by (simp add: varint_Cons)
  qed
qed simp

lemma decode_prefix:
  assumes "i < 4" and "a < 128 ^ i" and "n < 128 ^ (4 - i)" and "i \<le> length xs" and "drop i xs = take k (varint n)" and "k < length (varint n)"
  shows "\<exists>v c. decode_length_loop (Mem xs) i (of_nat a) (of_nat (128 ^ i)) = Some (status_empty, v, c)"
  using assms
proof (induction "4 - i" arbitrary: i a n k)
  case (Suc j)
  show ?case
  proof (cases k)
    case 0
    then show ?thesis using Suc.prems(1,4,5) by (subst decode_length_loop.simps) simp
  next
    case (Suc k')
    then have n: "128 \<le> n" using Suc.prems(6) by (cases "n < 128") (auto simp: varint_one)
    have d: "drop i xs = of_nat (n mod 128 + 128) # take k' (varint (n div 128))"
      using Suc.prems(5) Suc n by (simp add: varint_Cons)
    then have len: "i < length xs" by (metis drop_all list.distinct(1) not_less)
    have x: "xs ! i = of_nat (n mod 128 + 128)" "drop (i + 1) xs = take k' (varint (n div 128))"
      using d len by (simp_all add: Cons_nth_drop_Suc [symmetric])
    have "\<exists>v c. decode_length_loop (Mem xs) (i + 1) (of_nat (a + n mod 128 * 128 ^ i)) (of_nat (128 ^ (i + 1))) = Some (status_empty, v, c)"
      using Suc.hyps(2) digits_left [OF Suc.prems(1) n Suc.prems(3)] digit_bound [OF Suc.prems(2), of "n mod 128"] x(2) len Suc.prems(6) Suc n
      by (intro Suc.hyps(1)) (auto simp: varint_Cons)
    with decode_step(1) [OF Suc.prems(1) len Suc.prems(2) _ x(1)] show ?thesis by simp
  qed
qed simp

lemma decode_total:
  assumes "i \<le> 4" and "a < 128 ^ i"
  shows "\<exists>st v c. decode_length_loop (Mem xs) i (of_nat a) (of_nat (128 ^ i)) = Some (st, v, c) \<and>
    (st = status_ok \<longrightarrow> (\<exists>n. n < 128 ^ (4 - i) \<and> (i \<noteq> 0 \<longrightarrow> n \<noteq> 0) \<and> v = of_nat (a + n * 128 ^ i) \<and>
       (\<exists>rest. drop i xs = varint n @ rest) \<and> c = i + length (varint n)))"
  using assms
proof (induction "4 - i" arbitrary: i a)
  case 0
  then show ?case by (subst decode_length_loop.simps) simp
next
  case (Suc j)
  then have i: "i < 4" by simp
  show ?case
  proof (cases "i < length xs")
    case False
    with i show ?thesis by (subst decode_length_loop.simps) simp
  next
    case True
    have d: "drop i xs = xs ! i # drop (i + 1) xs" using True by (simp add: Cons_nth_drop_Suc)
    show ?thesis
    proof (rule byte_digit [of "xs ! i"])
      fix e assume e: "e < 128" "xs ! i = of_nat e"
      have "e < 128 ^ (4 - i)" using less_le_trans [OF e(1)] power_increasing [of 1 "4 - i" "128 :: nat"] i by simp
      show ?thesis
      proof (rule exI, rule exI, rule exI, rule conjI, rule decode_step(2) [OF i True Suc.prems(2) e], rule impI,
          rule exI [of _ e], intro conjI exI [of _ "drop (i + 1) xs"])
        assume "(if i \<noteq> 0 \<and> e = 0 then status_invalid_argument else status_ok) = status_ok"
        then show "i \<noteq> 0 \<longrightarrow> e \<noteq> 0" by (cases "i \<noteq> 0 \<and> e = 0") auto
        show "drop i xs = varint e @ drop (i + 1) xs" unfolding d e(2) varint_one [OF e(1)] by simp
        show "i + 1 = i + length (varint e)" unfolding varint_one [OF e(1)] by simp
      qed (rule \<open>e < 128 ^ (4 - i)\<close>, rule refl)
    next
      fix e assume e: "e < 128" "xs ! i = of_nat (e + 128)"
      let ?a = "a + e * 128 ^ i"
      have j: "j = 4 - (i + 1)" and i1: "i + 1 \<le> 4" using Suc.hyps(2) by simp_all
      obtain st v c where r: "decode_length_loop (Mem xs) (i + 1) (of_nat ?a) (of_nat (128 ^ (i + 1))) = Some (st, v, c)"
        "st = status_ok \<longrightarrow> (\<exists>n. n < 128 ^ (4 - (i + 1)) \<and> (i + 1 \<noteq> 0 \<longrightarrow> n \<noteq> 0) \<and> v = of_nat (?a + n * 128 ^ (i + 1)) \<and>
          (\<exists>rest. drop (i + 1) xs = varint n @ rest) \<and> c = i + 1 + length (varint n))"
        using Suc.hyps(1) [OF j i1 digit_bound [OF Suc.prems(2) e(1)]] by (elim exE conjE) (rule that)
      have "\<exists>n. n < 128 ^ (4 - i) \<and> (i \<noteq> 0 \<longrightarrow> n \<noteq> 0) \<and> v = of_nat (a + n * 128 ^ i) \<and>
          (\<exists>rest. drop i xs = varint n @ rest) \<and> c = i + length (varint n)" if ok: "st = status_ok"
      proof -
        obtain n rest where n: "n < 128 ^ (4 - (i + 1))" "n \<noteq> 0" "v = of_nat (?a + n * 128 ^ (i + 1))"
          "drop (i + 1) xs = varint n @ rest" "c = i + 1 + length (varint n)" using r(2) ok by auto
        let ?n = "e + 128 * n"
        have parts: "?n mod 128 = e" "?n div 128 = n" "128 \<le> ?n" using e(1) n(2) by simp_all
        have "?n div 128 < 128 ^ (4 - (i + 1))" unfolding parts by (rule n(1))
        then have "?n < 128 ^ (4 - (i + 1)) * 128" by (simp only: div_less_iff_less_mult)
        moreover have "4 - i = Suc (4 - (i + 1))" using i by simp
        ultimately have "?n < 128 ^ (4 - i)" by (simp only: power_Suc mult.commute)
        moreover have "v = of_nat (a + ?n * 128 ^ i)" using n(3) digit_sum [of a ?n i] by (simp only: parts)
        moreover have code: "varint ?n = of_nat (e + 128) # varint n" using varint_Cons [OF parts(3)] unfolding parts .
        moreover have "drop i xs = varint ?n @ rest" unfolding d code e(2) n(4) by simp
        moreover have "c = i + length (varint ?n)" unfolding code n(5) by simp
        moreover have "?n \<noteq> 0" using n(2) by simp
        ultimately show ?thesis by blast
      qed
      moreover have "decode_length_loop (Mem xs) i (of_nat a) (of_nat (128 ^ i)) = Some (st, v, c)"
        using decode_step(1) [OF i True Suc.prems(2) e] r(1) by (simp only:)
      ultimately show ?thesis by blast
    qed
  qed
qed

section \<open>The fixed header\<close>

lemma packet_type_small: "packet_type_value t < 16"
  by (cases t) simp_all

lemma to_packet_type_value [simp]: "to_packet_type (packet_type_value t) = t"
  by (cases t) (simp_all add: to_packet_type_def packet_types_def)

lemma packet_type_value_to: "v < 16 \<Longrightarrow> packet_type_value (to_packet_type v) = v"
proof -
  assume "v < 16"
  then have "unat v \<in> set [0..<16]" by (simp add: word_less_nat_alt)
  moreover have "\<forall>n \<in> set [0..<16]. packet_type_value (packet_types ! n) = of_nat n"
    by (simp add: upt_rec packet_types_def)
  ultimately show ?thesis unfolding to_packet_type_def by fastforce
qed

lemma nibble_bits: "v < 16 \<Longrightarrow> bit (v :: u8) n \<Longrightarrow> n < 4"
proof -
  assume "v < 16" and b: "bit v n"
  then have "take_bit 4 v = v" by (simp add: take_bit_eq_mod word_unat_eq_iff unat_mod_distrib word_less_nat_alt)
  with b show "n < 4" by (metis bit_take_bit_iff)
qed

lemma header_byte:
  assumes "v < 16" and "f < 16"
  shows "drop_bit 4 (push_bit 4 v OR f :: u8) = v" and "(push_bit 4 v OR f :: u8) AND 0x0F = f"
proof -
  have m: "(0x0F :: u8) = mask 4" by (simp add: mask_eq_exp_minus_1)
  show "drop_bit 4 (push_bit 4 v OR f :: u8) = v"
    by (rule bit_word_eqI) (use nibble_bits [OF assms(1)] nibble_bits [OF assms(2)] in \<open>auto simp: bit_simps\<close>)
  show "(push_bit 4 v OR f :: u8) AND 0x0F = f"
    unfolding m by (rule bit_word_eqI) (use nibble_bits [OF assms(2)] in \<open>auto simp: bit_simps\<close>)
qed

lemma split_header: "push_bit 4 (drop_bit 4 b) OR (b AND 0x0F) = (b :: u8)"
proof -
  have m: "(0x0F :: u8) = mask 4" by (simp add: mask_eq_exp_minus_1)
  show ?thesis unfolding m by (rule bit_word_eqI) (auto simp: bit_simps not_less)
qed

lemma nibbles_small: "drop_bit 4 (b :: u8) < 16" "b AND 0x0F < (16 :: u8)"
proof -
  have m: "(0x0F :: u8) = mask 4" by (simp add: mask_eq_exp_minus_1)
  have "unat b < 256" using unsigned_less [of b] by simp
  then show "drop_bit 4 b < 16" by (simp add: drop_bit_eq_div word_less_nat_alt unat_div_distrib div_less_iff_less_mult)
  have "b AND 0x0F = take_bit 4 b" unfolding m by (simp add: take_bit_eq_mask)
  then show "b AND 0x0F < 16" by (simp add: take_bit_eq_mod word_less_nat_alt unat_mod_distrib)
qed

lemma packet_type_zero: "packet_type_value t = 0 \<longleftrightarrow> t = packet_reserved"
  by (cases t) simp_all

lemma inspect_Cons:
  assumes "ys \<noteq> []" and "2 \<le> ms"
  shows "inspect_packet (Mem (c # ys)) ms =
    (if drop_bit 4 c = 0 \<or> \<not> valid_fixed_header (to_packet_type (drop_bit 4 c)) (c AND 0x0F) then
       Some (status_invalid_argument, empty_view)
     else do {
       (result, remaining, n) \<leftarrow> decode_length_loop (Mem ys) 0 0 1;
       if result \<noteq> status_ok then Some (result, empty_view)
       else if unat remaining > ms \<or> n + 1 > ms - unat remaining then Some (status_out_of_range, empty_view)
       else if length ys < n + unat remaining then Some (status_empty, empty_view)
       else Some (status_ok, \<lparr>pv_type = to_packet_type (drop_bit 4 c), pv_flags = c AND 0x0F,
         pv_remaining_length = remaining, pv_header_size = n + 1, pv_packet_size = n + 1 + unat remaining,
         pv_body = Some (n + 1)\<rparr>) })"
proof -
  have "\<not> length (c # ys) < 2" "\<not> ms < 2" using assms by (cases ys; simp)+
  then show ?thesis
    unfolding inspect_packet_def Let_def decode_remaining_length_def succeeded_def
    by (simp cong: if_cong)
qed

section \<open>What the framing promises\<close>

lemma inspect_reports:
  assumes "inspect_packet (Mem xs) ms = Some (status_ok, v)"
  shows "pv_type v \<noteq> packet_reserved" and "pv_flags v < 16"
proof -
  have "\<not> (length xs < 2 \<or> ms < 2)" using assms by (auto simp: inspect_packet_def split: if_splits)
  then obtain c ys where xs: "xs = c # ys" "ys \<noteq> []" "2 \<le> ms" by (cases xs; cases "tl xs") auto
  have low: "c AND 0x0F < 16" using word_and_le1 [of c "0x0F"] by (simp add: word_le_nat_alt word_less_nat_alt)
  let ?v = "\<lambda>remaining n. \<lparr>pv_type = to_packet_type (drop_bit 4 c), pv_flags = c AND 0x0F, pv_remaining_length = remaining,
      pv_header_size = n + 1, pv_packet_size = n + 1 + unat remaining, pv_body = Some (n + 1)\<rparr>"
  have "drop_bit 4 c \<noteq> 0 \<and> (\<exists>remaining n. v = ?v remaining n)"
    using assms unfolding xs(1) inspect_Cons [OF xs(2,3)]
    by (auto split: if_splits simp: bind_eq_Some_conv) metis
  then have "drop_bit 4 c \<noteq> 0 \<and> pv_type v = to_packet_type (drop_bit 4 c) \<and> pv_flags v = c AND 0x0F" by auto
  then show "pv_type v \<noteq> packet_reserved" "pv_flags v < 16"
    using low packet_type_value_to [of "drop_bit 4 c"] nibbles_small(1) [of c] by auto
qed

text \<open>C23: what \<open>encode_packet\<close> writes, and who finds it again.  With room for it, a packet whose flags the check on
  the fixed header accepts is written as its wire format.  If its type is not the reserved one and its flags
  have four bits, a receiver with that size limit finds it at the front of any stream, whole, with its type, flags
  and body, and on every proper prefix of it asks for more bytes.  The other packets the encoder accepts (the reserved
  type, and flags of \<open>publish\<close> above four bits, which spill into the type) no receiver reports as sent.\<close>

theorem packet_roundtrip:
  assumes "valid_fixed_header t flags" and "length body < 128 ^ 4" and "length (packet_bytes t flags body) \<le> length buf"
    and "length (packet_bytes t flags body) \<le> max_size"
  shows "encode_packet t flags (Mem body) (Mem buf) =
      Some (status_ok, Mem (packet_bytes t flags body @ drop (length (packet_bytes t flags body)) buf), length (packet_bytes t flags body)) \<and>
    (if t \<noteq> packet_reserved \<and> flags < 16
     then (\<exists>v. inspect_packet (Mem (packet_bytes t flags body @ rest)) max_size = Some (status_ok, v) \<and>
        pv_type v = t \<and> pv_flags v = flags \<and> pv_packet_size v = length (packet_bytes t flags body) \<and>
        (\<exists>h. pv_body v = Some h \<and> drop h (packet_bytes t flags body) = body)) \<and>
      (\<forall>k < length (packet_bytes t flags body).
        inspect_packet (Mem (take k (packet_bytes t flags body))) max_size = Some (status_empty, empty_view))
     else \<nexists>v. inspect_packet (Mem (packet_bytes t flags body @ rest)) max_size = Some (status_ok, v) \<and>
        pv_type v = t \<and> pv_flags v = flags)"
proof -
  define n where "n = length body"
  define L where "L = varint n"
  have n: "n < 128 ^ 4" "unat (of_nat n :: u32) = n" using assms(2) small_word by (simp_all add: n_def)
  obtain c where c: "c = push_bit 4 (packet_type_value t) OR flags" by simp
  have header: "drop_bit 4 c = packet_type_value t" "c AND 0x0F = flags" if "flags < 16"
    unfolding c using header_byte packet_type_small that by blast+
  have p: "packet_bytes t flags body = c # L @ body" by (simp add: packet_bytes_def n_def L_def c)
  have L: "L \<noteq> []" "0 < length L" by (simp_all add: L_def)
  have len: "1 + length L + n \<le> length buf" "1 + length L + n \<le> max_size" using assms(3,4) by (simp_all add: p n_def)
  then have max: "2 \<le> max_size" using L(2) by linarith
  have "encode_remaining_length (of_nat n) (Mem (replicate 4 0)) = Some (status_ok, Mem (L @ drop (length L) (replicate 4 0)), length L)"
    unfolding L_def by (rule encode_remaining_length_varint [OF n(1)]) simp
  moreover have "copy_bytes_loop (Mem (L @ zs)) (length L) 0 1 q = store q 1 L" for zs q
    using copy_bytes_loop_store [of 0 L zs 1 q] by simp
  moreover have "copy_bytes_loop (Mem body) n 0 (1 + length L) = (\<lambda>q. store q (1 + length L) body)"
    using copy_bytes_loop_store [of 0 body "[]" "1 + length L"] by (simp add: n_def fun_eq_iff)
  moreover have "do { q \<leftarrow> put (Mem buf) 0 c; q \<leftarrow> store q 1 L; store q (1 + length L) body } = store (Mem buf) 0 (c # L @ body)"
    using store_append [of _ 1 L body] store_Cons [of "Mem buf" 0 c "L @ body"] by simp
  ultimately have encoded: "encode_packet t flags (Mem body) (Mem buf) =
      Some (status_ok, Mem (packet_bytes t flags body @ drop (length (packet_bytes t flags body)) buf), length (packet_bytes t flags body))"
    using assms(1,2) len unfolding p
    by (cases buf) (auto simp: encode_packet_def Let_def succeeded_def n_def [symmetric] c [symmetric] maximum_nat add.commute)
  have decode: "decode_length_loop (Mem (L @ body @ rest)) 0 0 1 = Some (status_ok, of_nat n, length L)"
    using decode_varint [of 0 0 n "L @ body @ rest" "body @ rest"] n(1) by (simp add: L_def)
  have found: "\<exists>v. inspect_packet (Mem (packet_bytes t flags body @ rest)) max_size = Some (status_ok, v) \<and>
      pv_type v = t \<and> pv_flags v = flags \<and> pv_packet_size v = length (packet_bytes t flags body) \<and>
      (\<exists>h. pv_body v = Some h \<and> drop h (packet_bytes t flags body) = body)"
    if "t \<noteq> packet_reserved" "flags < 16"
    unfolding p using len max L(1) assms(1) n(2) that header [OF that(2)]
    by (simp add: inspect_Cons decode n_def [symmetric] packet_type_zero)
  have more: "inspect_packet (Mem (take k (packet_bytes t flags body))) max_size = Some (status_empty, empty_view)"
    if k: "k < length (packet_bytes t flags body)" and known: "t \<noteq> packet_reserved" "flags < 16" for k
  proof (cases "k < 2")
    case True
    then show ?thesis using max by (simp add: inspect_packet_def p)
  next
    case False
    have header: "drop_bit 4 c = packet_type_value t" "c AND 0x0F = flags" and nonzero: "packet_type_value t \<noteq> 0"
      using header known by (simp_all add: packet_type_zero)
    obtain k' where k': "k = Suc k'" "0 < k'" using False by (cases k) auto
    let ?ys = "take k' (L @ body)"
    have ys: "?ys \<noteq> []" "length ?ys = k'" using k' k L by (auto simp: p)
    have "inspect_packet (Mem (c # ?ys)) max_size = Some (status_empty, empty_view)"
    proof (cases "k' < length L")
      case True
      then obtain v m where "decode_length_loop (Mem ?ys) 0 0 1 = Some (status_empty, v, m)"
        using decode_prefix [of 0 0 n ?ys k'] n(1) by (auto simp: L_def)
      with ys(1) max assms(1) nonzero show ?thesis by (simp add: inspect_Cons header)
    next
      case False
      then have "decode_length_loop (Mem ?ys) 0 0 1 = Some (status_ok, of_nat n, length L)"
        using decode_varint [of 0 0 n ?ys "take (k' - length L) body"] n(1) by (simp add: L_def)
      with ys max assms(1) nonzero n(2) len k k' show ?thesis by (simp add: inspect_Cons header p n_def)
    qed
    then show ?thesis by (simp add: p k')
  qed
  show ?thesis
  proof (cases "t \<noteq> packet_reserved \<and> flags < 16")
    case True
    with encoded found more show ?thesis by simp
  next
    case False
    then have "\<nexists>v. inspect_packet (Mem (packet_bytes t flags body @ rest)) max_size = Some (status_ok, v) \<and>
        pv_type v = t \<and> pv_flags v = flags"
      using inspect_reports by blast
    with encoded show ?thesis unfolding if_not_P [OF False] by (rule conjI)
  qed
qed

theorem packet_roundtrip_witness:
  "encode_packet packet_publish 2 (Mem [0, 1, 65, 9]) (Mem (replicate 8 0)) = Some (status_ok, Mem [0x32, 4, 0, 1, 65, 9, 0, 0], 6) \<and>
    inspect_packet (Mem [0x32, 4, 0, 1, 65]) 64 = Some (status_empty, empty_view)"
proof -
  have b: "packet_bytes packet_publish 2 [0, 1, 65, 9] = [0x32, 4, 0, 1, 65, 9]"
    by (simp add: packet_bytes_def varint_one)
  have h: "valid_fixed_header packet_publish 2" by (simp add: valid_fixed_header_def)
  have "encode_packet packet_publish 2 (Mem [0, 1, 65, 9]) (Mem (replicate 8 0)) =
      Some (status_ok, Mem ([0x32, 4, 0, 1, 65, 9] @ drop 6 (replicate 8 0)), 6) \<and>
    (\<forall>k < 6. inspect_packet (Mem (take k [0x32, 4, 0, 1, 65, 9])) 64 = Some (status_empty, empty_view))"
    using packet_roundtrip [of packet_publish 2 "[0, 1, 65, 9]" "replicate 8 0" 64 "[]"] h unfolding b by simp
  moreover have "drop 6 (replicate 8 0) = [0, 0 :: u8]" by (simp add: numeral_eq_Suc)
  moreover have "take 5 [0x32, 4, 0, 1, 65, 9 :: u8] = [0x32, 4, 0, 1, 65]" by simp
  ultimately show ?thesis by (auto dest: spec [of _ 5])
qed

text \<open>C24: on any input the receiver neither reads outside it nor hangs, and what it accepts is exactly a packet:
  the bytes it consumes are the wire format of the type, flags and body it reports (so the Remaining
  Length is in its shortest form), within the input and the size limit.\<close>

theorem inspect_exact:
  "\<exists>st v. inspect_packet (Mem xs) max_size = Some (st, v) \<and>
    (if st = status_ok then
       pv_packet_size v \<le> length xs \<and> pv_packet_size v \<le> max_size \<and> pv_type v \<noteq> packet_reserved \<and>
       valid_fixed_header (pv_type v) (pv_flags v) \<and>
       (\<exists>h. pv_body v = Some h \<and>
          take (pv_packet_size v) xs = packet_bytes (pv_type v) (pv_flags v) (drop h (take (pv_packet_size v) xs)))
     else v = empty_view)"
proof (cases "length xs < 2 \<or> max_size < 2")
  case True
  then show ?thesis by (auto simp: inspect_packet_def)
next
  case False
  then obtain c ys where xs: "xs = c # ys" "ys \<noteq> []" and max: "2 \<le> max_size" by (cases xs; cases "tl xs") auto
  show ?thesis
  proof (cases "drop_bit 4 c = 0 \<or> \<not> valid_fixed_header (to_packet_type (drop_bit 4 c)) (c AND 0x0F)")
    case True
    then show ?thesis by (simp add: xs inspect_Cons max)
  next
    case valid: False
    have "\<exists>st v n. decode_length_loop (Mem ys) 0 0 1 = Some (st, v, n) \<and>
      (st = status_ok \<longrightarrow> (\<exists>m. m < 128 ^ 4 \<and> v = of_nat m \<and> (\<exists>rest. ys = varint m @ rest) \<and> n = length (varint m)))"
      using decode_total [of 0 0 ys] by simp
    then obtain st v n where d: "decode_length_loop (Mem ys) 0 0 1 = Some (st, v, n)"
      "st = status_ok \<longrightarrow> (\<exists>m. m < 128 ^ 4 \<and> v = of_nat m \<and> (\<exists>rest. ys = varint m @ rest) \<and> n = length (varint m))"
      by (elim exE conjE) (rule that)
    show ?thesis
    proof (cases "st = status_ok")
      case False
      then show ?thesis using valid by (simp add: xs inspect_Cons max d(1))
    next
      case True
      then obtain m rest where m: "m < 128 ^ 4" "v = of_nat m" "ys = varint m @ rest" "n = length (varint m)"
        using d(2) by auto
      have unat: "unat v = m" using small_word m(1,2) by simp
      have t: "packet_type_value (to_packet_type (drop_bit 4 c)) = drop_bit 4 c"
        by (rule packet_type_value_to [OF nibbles_small(1)])
      then have "to_packet_type (drop_bit 4 c) \<noteq> packet_reserved" using valid packet_type_zero by metis
      moreover have "packet_bytes (to_packet_type (drop_bit 4 c)) (c AND 0x0F) (take m rest) = c # varint m @ take m rest"
        if "m \<le> length rest" using that by (simp add: packet_bytes_def t split_header)
      moreover have "inspect_packet (Mem xs) max_size =
          (if m > max_size \<or> n + 1 > max_size - m then Some (status_out_of_range, empty_view)
           else if length rest < m then Some (status_empty, empty_view)
           else Some (status_ok, \<lparr>pv_type = to_packet_type (drop_bit 4 c), pv_flags = c AND 0x0F,
             pv_remaining_length = v, pv_header_size = n + 1, pv_packet_size = n + 1 + m, pv_body = Some (n + 1)\<rparr>))"
        unfolding xs(1) inspect_Cons [OF xs(2) max] d(1) using valid True unat m(3,4) by simp
      ultimately show ?thesis using valid xs(1) m(3,4)
        by (cases "m > max_size \<or> n + 1 > max_size - m"; cases "length rest < m") auto
    qed
  qed
qed

text \<open>Two inputs outside the precondition: flags above four bits change the type of the packet, and the
  reserved type is encoded although no receiver accepts it.\<close>

lemma encode_packet_unchecked:
  "encode_packet packet_publish 0x40 (Mem []) (Mem [0, 0]) = Some (status_ok, Mem [0x70, 0], 2)"
  "encode_packet packet_reserved 0 (Mem []) (Mem [0, 0]) = Some (status_ok, Mem [0, 0], 2)"
  by (simp_all add: encode_packet_def Let_def valid_fixed_header_def encode_remaining_length_varint [of 0, simplified]
      varint_one copy_bytes_loop.simps succeeded_def)

end
