(* ===== verification/MqttProperties.thy ===== *)
theory MqttProperties
  imports Mqtt
begin

text \<open>
  The bounds-checked cursors of MQTT packet bodies and the MQTT 5 property section
  (\<open>castle_ext/protocols/mqtt/codec.hpp\<close>, \<open>types.hpp\<close>).  A cursor operation returns the new cursor; the
  status it returns in the code is always the cursor's stored result.
\<close>

section \<open>Writer\<close>

record packet_writer =
  w_output :: "u8 ptr"
  w_size :: nat
  w_result :: status

definition w_capacity :: "packet_writer \<Rightarrow> nat" where
  "w_capacity w = psize (w_output w)"

definition packet_writer_init :: "u8 ptr \<Rightarrow> packet_writer" where
  "packet_writer_init p = \<lparr>w_output = p, w_size = 0,
     w_result = (if is_null p \<and> psize p \<noteq> 0 then status_invalid_argument else status_ok)\<rparr>"

definition put_u8 :: "u8 \<Rightarrow> packet_writer \<Rightarrow> packet_writer option" where
  "put_u8 v w =
     (if \<not> succeeded (w_result w) then Some w
      else if w_size w \<ge> w_capacity w then Some (w\<lparr>w_result := status_full\<rparr>)
      else do { q \<leftarrow> put (w_output w) (w_size w) v; Some (w\<lparr>w_output := q, w_size := w_size w + 1\<rparr>) })"

definition put_u16 :: "u16 \<Rightarrow> packet_writer \<Rightarrow> packet_writer option" where
  "put_u16 v w =
     (if usz_sub (w_capacity w) (w_size w) < 2 then Some (w\<lparr>w_result := status_full\<rparr>)
      else do { q \<leftarrow> write_be16 (w_output w) (w_size w) v; Some (w\<lparr>w_output := q, w_size := w_size w + 2\<rparr>) })"

definition put_u32 :: "u32 \<Rightarrow> packet_writer \<Rightarrow> packet_writer option" where
  "put_u32 v w =
     (if usz_sub (w_capacity w) (w_size w) < 4 then Some (w\<lparr>w_result := status_full\<rparr>)
      else do { q \<leftarrow> write_be32 (w_output w) (w_size w) v; Some (w\<lparr>w_output := q, w_size := w_size w + 4\<rparr>) })"

definition put_bytes :: "u8 ptr \<Rightarrow> nat \<Rightarrow> packet_writer \<Rightarrow> packet_writer option" where
  "put_bytes bytes count w =
     (if is_null bytes \<and> count \<noteq> 0 then Some (w\<lparr>w_result := status_invalid_argument\<rparr>)
      else if count > usz_sub (w_capacity w) (w_size w) then Some (w\<lparr>w_result := status_full\<rparr>)
      else do {
        q \<leftarrow> copy_bytes_loop bytes count 0 (w_size w) (w_output w);
        Some (w\<lparr>w_output := q, w_size := w_size w + count\<rparr>) })"

text \<open>\<open>string_view(char const*)\<close>: the characters before the terminator, which must be in the array.\<close>

definition c_string :: "u8 list \<Rightarrow> u8 list option" where
  "c_string xs = (if 0 \<in> set xs then Some (takeWhile (\<lambda>c. c \<noteq> 0) xs) else None)"

definition put_utf8 :: "u8 ptr \<Rightarrow> packet_writer \<Rightarrow> packet_writer option" where
  "put_utf8 value w =
     (if psize value > 65535 then Some (w\<lparr>w_result := status_out_of_range\<rparr>)
      else do { w \<leftarrow> put_u16 (of_nat (psize value)) w;
                if succeeded (w_result w) then put_bytes value (psize value) w else Some w })"

definition put_binary :: "u8 ptr \<Rightarrow> nat \<Rightarrow> packet_writer \<Rightarrow> packet_writer option" where
  "put_binary value count w =
     (if count > 65535 then Some (w\<lparr>w_result := status_out_of_range\<rparr>)
      else do { w \<leftarrow> put_u16 (of_nat count) w;
                if succeeded (w_result w) then put_bytes value count w else Some w })"

definition put_varint :: "u32 \<Rightarrow> packet_writer \<Rightarrow> packet_writer option" where
  "put_varint v w = do {
     (st, encoded, count) \<leftarrow> encode_remaining_length v (Mem (replicate 4 0));
     if succeeded st then put_bytes encoded count w else Some (w\<lparr>w_result := st\<rparr>) }"

definition w_set_size :: "nat \<Rightarrow> packet_writer \<Rightarrow> packet_writer" where
  "w_set_size n w = (if n \<le> w_capacity w then w\<lparr>w_size := n\<rparr> else w)"

section \<open>Reader\<close>

record packet_reader =
  r_input :: "u8 ptr"
  r_position :: nat
  r_result :: status

definition packet_reader_init :: "u8 ptr \<Rightarrow> packet_reader" where
  "packet_reader_init p = \<lparr>r_input = p, r_position = 0,
     r_result = (if is_null p \<and> psize p \<noteq> 0 then status_invalid_argument else status_ok)\<rparr>"

definition r_remaining :: "packet_reader \<Rightarrow> nat" where
  "r_remaining r = (if r_position r \<le> psize (r_input r) then psize (r_input r) - r_position r else 0)"

text \<open>The value an out parameter keeps when the operation fails is passed in.\<close>

definition get_u8 :: "u8 \<Rightarrow> packet_reader \<Rightarrow> (u8 \<times> packet_reader) option" where
  "get_u8 old r =
     (if r_remaining r < 1 then Some (old, r\<lparr>r_result := status_invalid_argument\<rparr>)
      else do { v \<leftarrow> rd (r_input r) (r_position r); Some (v, r\<lparr>r_position := r_position r + 1\<rparr>) })"

definition get_u16 :: "u16 \<Rightarrow> packet_reader \<Rightarrow> (u16 \<times> packet_reader) option" where
  "get_u16 old r =
     (if r_remaining r < 2 then Some (old, r\<lparr>r_result := status_invalid_argument\<rparr>)
      else do { v \<leftarrow> read_be16 (r_input r) (r_position r); Some (v, r\<lparr>r_position := r_position r + 2\<rparr>) })"

definition get_u32 :: "u32 \<Rightarrow> packet_reader \<Rightarrow> (u32 \<times> packet_reader) option" where
  "get_u32 old r =
     (if r_remaining r < 4 then Some (old, r\<lparr>r_result := status_invalid_argument\<rparr>)
      else do { v \<leftarrow> read_be32 (r_input r) (r_position r); Some (v, r\<lparr>r_position := r_position r + 4\<rparr>) })"

definition get_utf8 :: "u8 ptr \<Rightarrow> packet_reader \<Rightarrow> (u8 ptr \<times> nat \<times> packet_reader) option" where
  "get_utf8 dest r = do {
     (n, r) \<leftarrow> get_u16 0 r;
     let count = unat n;
     let capacity = psize dest;
     if \<not> succeeded (r_result r) then Some (dest, 0, r)
     else if count \<ge> capacity \<or> r_remaining r < count \<or> (is_null dest \<and> capacity \<noteq> 0) then
       Some (dest, 0, r\<lparr>r_result := (if count \<ge> capacity then status_out_of_range else status_invalid_argument)\<rparr>)
     else do {
       dest \<leftarrow> copy_bytes_loop (ptr_add (r_input r) (r_position r)) count 0 0 dest;
       dest \<leftarrow> put dest count 0;
       Some (dest, count, r\<lparr>r_position := r_position r + count\<rparr>) } }"

definition get_binary :: "u8 ptr \<Rightarrow> packet_reader \<Rightarrow> (u8 ptr \<times> nat \<times> packet_reader) option" where
  "get_binary dest r = do {
     (n, r) \<leftarrow> get_u16 0 r;
     let count = unat n;
     let capacity = psize dest;
     if \<not> succeeded (r_result r) then Some (dest, 0, r)
     else if count > capacity \<or> r_remaining r < count \<or> (is_null dest \<and> count \<noteq> 0) then
       Some (dest, 0, r\<lparr>r_result := (if count > capacity then status_out_of_range else status_invalid_argument)\<rparr>)
     else do {
       dest \<leftarrow> copy_bytes_loop (ptr_add (r_input r) (r_position r)) count 0 0 dest;
       Some (dest, count, r\<lparr>r_position := r_position r + count\<rparr>) } }"

definition get_varint :: "packet_reader \<Rightarrow> (u32 \<times> packet_reader) option" where
  "get_varint r = do {
     (st, v, used) \<leftarrow> decode_remaining_length (ptr_add (r_input r) (r_position r));
     if \<not> succeeded st then Some (v, r\<lparr>r_result := st\<rparr>)
     else Some (v, r\<lparr>r_position := r_position r + used\<rparr>) }"

definition r_skip :: "nat \<Rightarrow> packet_reader \<Rightarrow> packet_reader" where
  "r_skip count r =
     (if count > r_remaining r then r\<lparr>r_result := status_invalid_argument\<rparr> else r\<lparr>r_position := r_position r + count\<rparr>)"

section \<open>Property identifiers\<close>

datatype property_id =
    payload_format_indicator | message_expiry_interval | content_type | response_topic | correlation_data
  | subscription_identifier | session_expiry_interval | assigned_client_identifier | server_keep_alive
  | authentication_method | authentication_data | request_problem_information | will_delay_interval
  | request_response_information | response_information | server_reference | reason_string | receive_maximum
  | topic_alias_maximum | topic_alias | maximum_qos | retain_available | user_property | maximum_packet_size
  | wildcard_subscription_available | subscription_identifier_available | shared_subscription_available

primrec property_code :: "property_id \<Rightarrow> u8" where
  "property_code payload_format_indicator = 0x01"
| "property_code message_expiry_interval = 0x02"
| "property_code content_type = 0x03"
| "property_code response_topic = 0x08"
| "property_code correlation_data = 0x09"
| "property_code subscription_identifier = 0x0B"
| "property_code session_expiry_interval = 0x11"
| "property_code assigned_client_identifier = 0x12"
| "property_code server_keep_alive = 0x13"
| "property_code authentication_method = 0x15"
| "property_code authentication_data = 0x16"
| "property_code request_problem_information = 0x17"
| "property_code will_delay_interval = 0x18"
| "property_code request_response_information = 0x19"
| "property_code response_information = 0x1A"
| "property_code server_reference = 0x1C"
| "property_code reason_string = 0x1F"
| "property_code receive_maximum = 0x21"
| "property_code topic_alias_maximum = 0x22"
| "property_code topic_alias = 0x23"
| "property_code maximum_qos = 0x24"
| "property_code retain_available = 0x25"
| "property_code user_property = 0x26"
| "property_code maximum_packet_size = 0x27"
| "property_code wildcard_subscription_available = 0x28"
| "property_code subscription_identifier_available = 0x29"
| "property_code shared_subscription_available = 0x2A"

text \<open>\<open>static_cast<property_id>\<close> first converts to the underlying \<open>uint8_t\<close>; a value that names no enumerator is \<open>None\<close>.\<close>

definition property_ids :: "property_id list" where
  "property_ids = [payload_format_indicator, message_expiry_interval, content_type, response_topic, correlation_data,
     subscription_identifier, session_expiry_interval, assigned_client_identifier, server_keep_alive,
     authentication_method, authentication_data, request_problem_information, will_delay_interval,
     request_response_information, response_information, server_reference, reason_string, receive_maximum,
     topic_alias_maximum, topic_alias, maximum_qos, retain_available, user_property, maximum_packet_size,
     wildcard_subscription_available, subscription_identifier_available, shared_subscription_available]"

definition to_property_id :: "u32 \<Rightarrow> property_id option" where
  "to_property_id v = find (\<lambda>p. property_code p = ucast v) property_ids"

definition property_known :: "u32 \<Rightarrow> bool" where
  "property_known v = (to_property_id v \<noteq> None)"

definition property_is_byte :: "property_id \<Rightarrow> bool" where
  "property_is_byte p = (p = payload_format_indicator \<or> p = request_problem_information \<or>
     p = request_response_information \<or> p = maximum_qos \<or> p = retain_available \<or> p = wildcard_subscription_available \<or>
     p = subscription_identifier_available \<or> p = shared_subscription_available)"

definition property_is_u16 :: "property_id \<Rightarrow> bool" where
  "property_is_u16 p = (p = receive_maximum \<or> p = topic_alias_maximum \<or> p = topic_alias \<or> p = server_keep_alive)"

definition property_is_u32 :: "property_id \<Rightarrow> bool" where
  "property_is_u32 p = (p = message_expiry_interval \<or> p = session_expiry_interval \<or> p = will_delay_interval \<or>
     p = maximum_packet_size)"

definition property_is_varint :: "property_id \<Rightarrow> bool" where
  "property_is_varint p = (p = subscription_identifier)"

definition property_is_binary :: "property_id \<Rightarrow> bool" where
  "property_is_binary p = (p = correlation_data \<or> p = authentication_data)"

definition property_is_string :: "property_id \<Rightarrow> bool" where
  "property_is_string p = (p = content_type \<or> p = response_topic \<or> p = assigned_client_identifier \<or>
     p = authentication_method \<or> p = response_information \<or> p = server_reference \<or> p = reason_string)"

definition property_is_pair :: "property_id \<Rightarrow> bool" where
  "property_is_pair p = (p = user_property)"

section \<open>Property lists\<close>

record mqtt_property =
  prop_id :: property_id
  prop_integer :: u32
  prop_string :: "u8 list"
  prop_binary :: "u8 list"
  prop_binary_size :: nat
  prop_user :: "u8 list"

record property_list =
  pl_entries :: "mqtt_property list"
  pl_count :: nat

definition property_init :: "nat \<Rightarrow> nat \<Rightarrow> mqtt_property" where
  "property_init strcap bincap = \<lparr>prop_id = reason_string, prop_integer = 0, prop_string = replicate strcap 0,
     prop_binary = replicate bincap 0, prop_binary_size = 0, prop_user = replicate strcap 0\<rparr>"

definition property_list_init :: "nat \<Rightarrow> nat \<Rightarrow> nat \<Rightarrow> property_list" where
  "property_list_init n strcap bincap = \<lparr>pl_entries = replicate n (property_init strcap bincap), pl_count = 0\<rparr>"

definition pl_full :: "property_list \<Rightarrow> bool" where
  "pl_full ps = (pl_count ps = length (pl_entries ps))"

definition pl_clear :: "property_list \<Rightarrow> property_list" where
  "pl_clear ps = ps\<lparr>pl_count := 0\<rparr>"

definition pl_entry :: "nat \<Rightarrow> property_list \<Rightarrow> mqtt_property option" where
  "pl_entry i ps = (if i < length (pl_entries ps) then Some (pl_entries ps ! i) else None)"

definition pl_append :: "(mqtt_property \<Rightarrow> mqtt_property option) \<Rightarrow> property_list \<Rightarrow> property_list option" where
  "pl_append f ps = do {
     e \<leftarrow> pl_entry (pl_count ps) ps;
     e \<leftarrow> f e;
     Some (ps\<lparr>pl_entries := (pl_entries ps)[pl_count ps := e], pl_count := pl_count ps + 1\<rparr>) }"

text \<open>Copying \<open>n\<close> elements into the front of an array field.\<close>

definition fill :: "u8 ptr \<Rightarrow> nat \<Rightarrow> u8 list \<Rightarrow> u8 list option" where
  "fill source n dest = do {
     q \<leftarrow> copy_bytes_loop source n 0 0 (Mem dest);
     case q of Mem xs \<Rightarrow> Some xs | Null _ \<Rightarrow> None }"

definition terminate :: "nat \<Rightarrow> u8 list \<Rightarrow> u8 list option" where
  "terminate n xs = (if n < length xs then Some (xs[n := 0]) else None)"

definition add_integer :: "property_id \<Rightarrow> u32 \<Rightarrow> property_list \<Rightarrow> (status \<times> property_list) option" where
  "add_integer pid v ps =
     (if pl_full ps then Some (status_full, ps)
      else do { ps \<leftarrow> pl_append (\<lambda>e. Some (e\<lparr>prop_id := pid, prop_integer := v\<rparr>)) ps; Some (status_ok, ps) })"

definition add_string :: "nat \<Rightarrow> property_id \<Rightarrow> u8 ptr \<Rightarrow> property_list \<Rightarrow> (status \<times> property_list) option" where
  "add_string strcap pid value ps =
     (if pl_full ps then Some (status_full, ps)
      else if is_null value \<or> psize value \<ge> strcap then Some (status_out_of_range, ps)
      else do {
        ps \<leftarrow> pl_append (\<lambda>e. do {
          s \<leftarrow> fill value (psize value) (prop_string e);
          s \<leftarrow> terminate (psize value) s;
          Some (e\<lparr>prop_id := pid, prop_string := s\<rparr>) }) ps;
        Some (status_ok, ps) })"

definition add_binary :: "nat \<Rightarrow> property_id \<Rightarrow> u8 ptr \<Rightarrow> property_list \<Rightarrow> (status \<times> property_list) option" where
  "add_binary bincap pid value ps =
     (if pl_full ps then Some (status_full, ps)
      else if (is_null value \<and> psize value \<noteq> 0) \<or> psize value > bincap then Some (status_out_of_range, ps)
      else do {
        ps \<leftarrow> pl_append (\<lambda>e. do {
          s \<leftarrow> fill value (psize value) (prop_binary e);
          Some (e\<lparr>prop_id := pid, prop_binary_size := psize value, prop_binary := s\<rparr>) }) ps;
        Some (status_ok, ps) })"

definition add_user_property :: "nat \<Rightarrow> u8 ptr \<Rightarrow> u8 ptr \<Rightarrow> property_list \<Rightarrow> (status \<times> property_list) option" where
  "add_user_property strcap key value ps =
     (if pl_full ps then Some (status_full, ps)
      else if is_null key \<or> is_null value \<or> psize key \<ge> strcap \<or> psize value \<ge> strcap then Some (status_out_of_range, ps)
      else do {
        ps \<leftarrow> pl_append (\<lambda>e. do {
          k \<leftarrow> fill key (psize key) (prop_string e);
          k \<leftarrow> terminate (psize key) k;
          v \<leftarrow> fill value (psize value) (prop_user e);
          v \<leftarrow> terminate (psize value) v;
          Some (e\<lparr>prop_id := user_property, prop_string := k, prop_user := v\<rparr>) }) ps;
        Some (status_ok, ps) })"

text \<open>\<open>find\<close> returns a pointer to the first entry with the identifier: its index.\<close>

function pl_find_loop :: "nat \<Rightarrow> property_id \<Rightarrow> property_list \<Rightarrow> nat option option" where
  "pl_find_loop i pid ps =
     (if i < pl_count ps then do {
        e \<leftarrow> pl_entry i ps;
        if prop_id e = pid then Some (Some i) else pl_find_loop (i + 1) pid ps }
      else Some None)"
  by pat_completeness auto
termination by (relation "measure (\<lambda>(i, _, ps). pl_count ps - i)") auto

declare pl_find_loop.simps [simp del]

definition pl_find :: "property_id \<Rightarrow> property_list \<Rightarrow> nat option option" where
  "pl_find pid ps = pl_find_loop 0 pid ps"

section \<open>Encoding\<close>

text \<open>The branches of the loop body of \<open>encode_properties\<close>; the identifier has been written.\<close>

definition encode_value :: "mqtt_property \<Rightarrow> packet_writer \<Rightarrow> (status \<times> packet_writer) option" where
  "encode_value e w =
     (let p = prop_id e; result = map_option (\<lambda>w. (w_result w, w)) in
      if property_is_byte p then result (put_u8 (ucast (prop_integer e)) w)
      else if property_is_u16 p then result (put_u16 (ucast (prop_integer e)) w)
      else if property_is_u32 p then result (put_u32 (prop_integer e) w)
      else if property_is_varint p then result (put_varint (prop_integer e) w)
      else if property_is_binary p then result (put_binary (Mem (prop_binary e)) (prop_binary_size e) w)
      else if property_is_pair p then do {
        s \<leftarrow> c_string (prop_string e);
        w \<leftarrow> put_utf8 (Mem s) w;
        if succeeded (w_result w) then do { u \<leftarrow> c_string (prop_user e); result (put_utf8 (Mem u) w) }
        else Some (w_result w, w) }
      else if property_is_string p then do { s \<leftarrow> c_string (prop_string e); result (put_utf8 (Mem s) w) }
      else Some (status_invalid_argument, w))"

function encode_properties_loop :: "nat \<Rightarrow> property_list \<Rightarrow> packet_writer \<Rightarrow> (status \<times> packet_writer) option" where
  "encode_properties_loop i ps w =
     (if i < pl_count ps then do {
        e \<leftarrow> pl_entry i ps;
        w \<leftarrow> put_varint (ucast (property_code (prop_id e))) w;
        if \<not> succeeded (w_result w) then Some (w_result w, w)
        else do {
          (result, w) \<leftarrow> encode_value e w;
          if \<not> succeeded result then Some (result, w) else encode_properties_loop (i + 1) ps w } }
      else Some (status_ok, w))"
  by pat_completeness auto
termination by (relation "measure (\<lambda>(i, ps, _). pl_count ps - i)") auto

declare encode_properties_loop.simps [simp del]

definition encode_properties :: "nat \<Rightarrow> nat \<Rightarrow> property_list \<Rightarrow> u8 ptr \<Rightarrow> (status \<times> u8 ptr \<times> nat) option" where
  "encode_properties strcap bincap ps output =
     (if is_null output then Some (status_invalid_argument, output, 0)
      else if pl_count ps > length (pl_entries ps) then Some (status_invalid_argument, output, 0)
      else if psize output < 4 then Some (status_full, output, 0)
      else do {
        (result, w) \<leftarrow> encode_properties_loop 0 ps
          (packet_writer_init (Mem (replicate (length (pl_entries ps) * (strcap * 2 + bincap + 12) + 1) 0)));
        if \<not> succeeded result then Some (result, output, 0)
        else do {
          target \<leftarrow> put_varint (of_nat (w_size w)) (packet_writer_init output);
          target \<leftarrow> (if succeeded (w_result target) then put_bytes (w_output w) (w_size w) target else Some target);
          Some (w_result target, w_output target, if succeeded (w_result target) then w_size target else 0) } })"

section \<open>Decoding\<close>

text \<open>The branches of the loop body of \<open>decode_properties\<close>; the early returns of \<open>invalid_argument\<close> and the
  failed reads leave the function the same way.\<close>

definition array_of :: "u8 ptr \<Rightarrow> u8 list" where
  "array_of p = (case p of Mem xs \<Rightarrow> xs | Null _ \<Rightarrow> [])"

definition decode_value :: "property_id \<Rightarrow> mqtt_property \<Rightarrow> packet_reader
    \<Rightarrow> (status \<times> mqtt_property \<times> packet_reader) option" where
  "decode_value p e r =
     (if property_is_byte p then do {
        (v, r) \<leftarrow> get_u8 0 r;
        let e = e\<lparr>prop_integer := ucast v\<rparr>;
        Some (if succeeded (r_result r) \<and> v > 1 then status_invalid_argument else r_result r, e, r) }
      else if property_is_u16 p then do {
        (v, r) \<leftarrow> get_u16 0 r;
        let e = e\<lparr>prop_integer := ucast v\<rparr>;
        Some (if succeeded (r_result r) \<and> v = 0 \<and> (p = receive_maximum \<or> p = topic_alias)
              then status_invalid_argument else r_result r, e, r) }
      else if property_is_u32 p then do {
        (v, r) \<leftarrow> get_u32 (prop_integer e) r;
        Some (r_result r, e\<lparr>prop_integer := v\<rparr>, r) }
      else if property_is_varint p then do {
        (v, r) \<leftarrow> get_varint r;
        Some (if succeeded (r_result r) \<and> v = 0 then status_invalid_argument else r_result r, e\<lparr>prop_integer := v\<rparr>, r) }
      else if property_is_binary p then do {
        (q, n, r) \<leftarrow> get_binary (Mem (prop_binary e)) r;
        Some (r_result r, e\<lparr>prop_binary := array_of q, prop_binary_size := n\<rparr>, r) }
      else do {
        (q, n, r) \<leftarrow> get_utf8 (Mem (prop_string e)) r;
        let e = e\<lparr>prop_string := array_of q\<rparr>;
        if succeeded (r_result r) \<and> property_is_pair p then do {
          (q, n, r) \<leftarrow> get_utf8 (Mem (prop_user e)) r;
          Some (r_result r, e\<lparr>prop_user := array_of q\<rparr>, r) }
        else Some (r_result r, e, r) })"

text \<open>The sub-reader over the section and the list decoded so far are threaded; leaving the loop, the flag tells
  whether an identifier was bad or the section is finished.\<close>

partial_function (option) decode_properties_loop :: "packet_reader \<Rightarrow> property_list
    \<Rightarrow> (status \<times> bool \<times> property_list) option" where
  "decode_properties_loop r ps =
     (if r_remaining r = 0 then Some (status_ok, False, ps)
      else do {
        (raw, r) \<leftarrow> get_varint r;
        if \<not> succeeded (r_result r) \<or> \<not> property_known raw then Some (status_ok, True, ps)
        else if pl_full ps then Some (status_full, False, ps)
        else do {
          e \<leftarrow> pl_entry (pl_count ps) ps;
          p \<leftarrow> to_property_id raw;
          (result, e, r) \<leftarrow> decode_value p (e\<lparr>prop_id := p\<rparr>) r;
          let ps = ps\<lparr>pl_entries := (pl_entries ps)[pl_count ps := e]\<rparr>;
          if \<not> succeeded result then Some (result, False, ps)
          else decode_properties_loop r (ps\<lparr>pl_count := pl_count ps + 1\<rparr>) } })"

declare decode_properties_loop.simps [code]

definition decode_properties :: "bool \<Rightarrow> packet_reader \<Rightarrow> property_list
    \<Rightarrow> (status \<times> packet_reader \<times> property_list) option" where
  "decode_properties ignore_unknown r ps = do {
     let ps = pl_clear ps;
     (len, r) \<leftarrow> get_varint r;
     if \<not> succeeded (r_result r) then Some (r_result r, r, ps)
     else if unat len > r_remaining r then Some (status_invalid_argument, r, ps)
     else do {
       let start = ptr_add (r_input r) (r_position r);
       view \<leftarrow> (case start of Mem xs \<Rightarrow> Some (Mem (take (unat len) xs)) | Null _ \<Rightarrow> Some (Null (unat len)));
       (result, bad_id, ps) \<leftarrow> decode_properties_loop (packet_reader_init view) ps;
       if bad_id \<and> \<not> ignore_unknown then Some (status_invalid_argument, r, ps)
       else if \<not> succeeded result then Some (result, r, ps)
       else let r = r_skip (unat len) r in Some (r_result r, r, ps) } }"

section \<open>The wire format\<close>

definition be16 :: "u16 \<Rightarrow> u8 list" where "be16 v = rev (le_bytes 2 v)"
definition be32 :: "u32 \<Rightarrow> u8 list" where "be32 v = rev (le_bytes 4 v)"

definition counted :: "u8 list \<Rightarrow> u8 list" where
  "counted s = be16 (of_nat (length s)) @ s"

definition text_of :: "u8 list \<Rightarrow> u8 list" where
  "text_of xs = takeWhile (\<lambda>c. c \<noteq> 0) xs"

definition value_wire :: "mqtt_property \<Rightarrow> u8 list" where
  "value_wire e =
     (let p = prop_id e in
      if property_is_byte p then [ucast (prop_integer e)]
      else if property_is_u16 p then be16 (ucast (prop_integer e))
      else if property_is_u32 p then be32 (prop_integer e)
      else if property_is_varint p then varint (unat (prop_integer e))
      else if property_is_binary p then counted (take (prop_binary_size e) (prop_binary e))
      else if property_is_pair p then counted (text_of (prop_string e)) @ counted (text_of (prop_user e))
      else counted (text_of (prop_string e)))"

definition property_wire :: "mqtt_property \<Rightarrow> u8 list" where
  "property_wire e = varint (unat (property_code (prop_id e))) @ value_wire e"

definition section_wire :: "mqtt_property list \<Rightarrow> u8 list" where
  "section_wire es = varint (length (concat (map property_wire es))) @ concat (map property_wire es)"

text \<open>The entries that MQTT allows to be sent, and the part of an entry that is sent.\<close>

definition text_ok :: "nat \<Rightarrow> u8 list \<Rightarrow> bool" where
  "text_ok cap xs \<longleftrightarrow> length xs = cap \<and> 0 \<in> set xs \<and> length (text_of xs) \<le> 65535"

definition shape_ok :: "nat \<Rightarrow> nat \<Rightarrow> mqtt_property \<Rightarrow> bool" where
  "shape_ok strcap bincap e \<longleftrightarrow> length (prop_string e) = strcap \<and> length (prop_user e) = strcap \<and> length (prop_binary e) = bincap"

definition property_ok :: "nat \<Rightarrow> nat \<Rightarrow> mqtt_property \<Rightarrow> bool" where
  "property_ok strcap bincap e \<longleftrightarrow> shape_ok strcap bincap e \<and>
     (let p = prop_id e in
      if property_is_byte p then prop_integer e \<le> 1
      else if property_is_u16 p then prop_integer e < 65536 \<and> (p = receive_maximum \<or> p = topic_alias \<longrightarrow> prop_integer e \<noteq> 0)
      else if property_is_u32 p then True
      else if property_is_varint p then prop_integer e \<noteq> 0 \<and> prop_integer e \<le> maximum_remaining_length
      else if property_is_binary p then prop_binary_size e \<le> bincap \<and> prop_binary_size e \<le> 65535
      else if property_is_pair p then text_ok strcap (prop_string e) \<and> text_ok strcap (prop_user e)
      else text_ok strcap (prop_string e))"

definition same_property :: "mqtt_property \<Rightarrow> mqtt_property \<Rightarrow> bool" where
  "same_property a b \<longleftrightarrow> prop_id a = prop_id b \<and>
     (let p = prop_id a in
      if property_is_byte p \<or> property_is_u16 p \<or> property_is_u32 p \<or> property_is_varint p then prop_integer a = prop_integer b
      else if property_is_binary p then
        take (prop_binary_size a) (prop_binary a) = take (prop_binary_size b) (prop_binary b) \<and> prop_binary_size a = prop_binary_size b
      else text_of (prop_string a) = text_of (prop_string b) \<and>
        (property_is_pair p \<longrightarrow> text_of (prop_user a) = text_of (prop_user b)))"

lemma length_be [simp]: "length (be16 v) = 2" "length (be32 w) = 4"
  by (simp_all add: be16_def be32_def)

section \<open>Writing\<close>

definition emit :: "u8 list \<Rightarrow> packet_writer \<Rightarrow> packet_writer option" where
  "emit bs w = do { q \<leftarrow> store (w_output w) (w_size w) bs; Some (w\<lparr>w_output := q, w_size := w_size w + length bs\<rparr>) }"

definition fits :: "nat \<Rightarrow> packet_writer \<Rightarrow> bool" where
  "fits n w \<longleftrightarrow> w_result w = status_ok \<and> w_size w + n \<le> w_capacity w \<and> w_capacity w < size_mod \<and> \<not> is_null (w_output w)"

lemma emit_append: "do { w \<leftarrow> emit as w; emit bs w } = emit (as @ bs) w"
  by (simp add: emit_def store_append [symmetric] bind_assoc add.assoc)

lemma emit_fits:
  assumes "fits (length bs + n) w"
  shows "\<exists>w'. emit bs w = Some w' \<and> fits n w'"
proof -
  obtain xs where xs: "w_output w = Mem xs" using assms by (cases "w_output w") (auto simp: fits_def)
  moreover have "w_size w + length bs \<le> length xs" using assms xs by (simp add: fits_def w_capacity_def)
  ultimately show ?thesis using assms by (auto simp: emit_def fits_def w_capacity_def)
qed

lemma fits_space: "fits n w \<Longrightarrow> n \<le> usz_sub (w_capacity w) (w_size w)"
  unfolding fits_def by (subst usz_sub_ge) linarith+

lemma put_u8_emit: "fits 1 w \<Longrightarrow> put_u8 v w = emit [v] w"
  by (simp add: put_u8_def emit_def fits_def succeeded_def store_single [symmetric])

lemma put_u16_emit: "fits 2 w \<Longrightarrow> put_u16 v w = emit (be16 v) w"
  using fits_space [of 2 w] by (simp add: put_u16_def emit_def writes_store be16_def)

lemma put_u32_emit: "fits 4 w \<Longrightarrow> put_u32 v w = emit (be32 v) w"
  using fits_space [of 4 w] by (simp add: put_u32_def emit_def writes_store be32_def)

lemma put_bytes_emit: "fits (length bs) w \<Longrightarrow> put_bytes (Mem (bs @ zs)) (length bs) w = emit bs w"
  using fits_space [of "length bs" w] by (simp add: put_bytes_def emit_def copy_bytes_loop_store)

lemma put_varint_emit:
  assumes "n < 128 ^ 4" and "fits (length (varint n)) w"
  shows "put_varint (of_nat n) w = emit (varint n) w"
  using encode_remaining_length_varint [OF assms(1), of "replicate 4 0"] put_bytes_emit [OF assms(2)]
  by (simp add: put_varint_def succeeded_def)

lemma put_counted_emit:
  assumes "length s \<le> 65535" and "fits (length (counted s)) w"
  shows "put_binary (Mem (s @ zs)) (length s) w = emit (counted s) w" and "put_utf8 (Mem s) w = emit (counted s) w"
proof -
  obtain w' where w': "emit (be16 (of_nat (length s))) w = Some w'" "fits (length s) w'"
    using emit_fits [of "be16 (of_nat (length s))" "length s" w] assms(2) by (auto simp: counted_def)
  have u16: "put_u16 (of_nat (length s)) w = Some w'"
    using put_u16_emit [of w "of_nat (length s)"] assms(2) w'(1) by (simp add: counted_def fits_def)
  have "emit (counted s) w = emit s w'"
    using emit_append [of "be16 (of_nat (length s))" w s] w'(1) by (simp add: counted_def)
  moreover have "put_bytes (Mem (s @ zs)) (length s) w' = emit s w'" for zs by (rule put_bytes_emit [OF w'(2)])
  moreover from this [of "[]"] have "put_bytes (Mem s) (length s) w' = emit s w'" by simp
  ultimately show "put_binary (Mem (s @ zs)) (length s) w = emit (counted s) w" "put_utf8 (Mem s) w = emit (counted s) w"
    using assms(1) u16 w'(2) by (simp_all add: put_binary_def put_utf8_def succeeded_def fits_def)
qed

lemma c_string_text: "text_ok cap xs \<Longrightarrow> c_string xs = Some (text_of xs)"
  by (simp add: c_string_def text_of_def text_ok_def)

lemma property_code_small: "unat (property_code p) < 128"
  by (cases p) simp_all

lemma small_maximum: "v \<le> maximum_remaining_length \<Longrightarrow> unat v < 128 ^ 4"
  by (simp add: word_le_nat_alt maximum_remaining_length_def)

lemma encode_value_emit:
  assumes ok: "property_ok strcap bincap e" and w: "fits (length (value_wire e)) w"
  shows "encode_value e w = map_option (Pair status_ok) (emit (value_wire e) w)"
proof -
  obtain w' where w': "emit (value_wire e) w = Some w'" "fits 0 w'" using emit_fits [of "value_wire e" 0 w] w by auto
  then have res: "w_result w' = status_ok" by (simp add: fits_def)
  show ?thesis
  proof (cases "property_is_pair (prop_id e)")
    case True
    let ?s = "text_of (prop_string e)" and ?u = "text_of (prop_user e)"
    have p: "value_wire e = counted ?s @ counted ?u" "text_ok strcap (prop_string e)" "text_ok strcap (prop_user e)"
      "\<not> property_is_byte (prop_id e)" "\<not> property_is_u16 (prop_id e)" "\<not> property_is_u32 (prop_id e)"
      "\<not> property_is_varint (prop_id e)" "\<not> property_is_binary (prop_id e)"
      using True ok by (simp_all add: value_wire_def property_ok_def property_is_pair_def property_is_byte_def
          property_is_u16_def property_is_u32_def property_is_varint_def property_is_binary_def)
    obtain w1 where w1: "emit (counted ?s) w = Some w1" "fits (length (counted ?u)) w1"
      using emit_fits [of "counted ?s" "length (counted ?u)" w] w p(1) by auto
    have "put_utf8 (Mem ?s) w = Some w1"
      using put_counted_emit(2) [of ?s w] p(2) w w1(1) by (simp add: text_ok_def p(1) fits_def)
    moreover have "put_utf8 (Mem ?u) w1 = Some w'"
      using put_counted_emit(2) [of ?u w1] p(3) w1 w'(1) emit_append [of "counted ?s" w "counted ?u"] by (simp add: text_ok_def p(1))
    ultimately show ?thesis
      using True w'(1) res w1(2) p c_string_text [OF p(2)] c_string_text [OF p(3)]
      by (simp add: encode_value_def Let_def succeeded_def fits_def)
  next
    case False
    have v: "of_nat (unat (prop_integer e)) = prop_integer e" by simp
    have s: "put_utf8 (Mem (text_of (prop_string e))) w = Some w'"
      if "text_ok strcap (prop_string e)" "value_wire e = counted (text_of (prop_string e))"
      using put_counted_emit(2) [of "text_of (prop_string e)" w] w w'(1) that by (simp add: text_ok_def)
    have b: "put_binary (Mem (prop_binary e)) (prop_binary_size e) w = Some w'"
      if "prop_binary_size e \<le> length (prop_binary e)" "prop_binary_size e \<le> 65535"
        "value_wire e = counted (take (prop_binary_size e) (prop_binary e))"
      using put_counted_emit(1) [of "take (prop_binary_size e) (prop_binary e)" w "drop (prop_binary_size e) (prop_binary e)"]
        w w'(1) that by simp
    show ?thesis
      using False ok w w' res s b c_string_text [of strcap "prop_string e"]
        put_u8_emit [of w "ucast (prop_integer e)"] put_u16_emit [of w "ucast (prop_integer e)"] put_u32_emit [of w "prop_integer e"]
        put_varint_emit [of "unat (prop_integer e)" w, unfolded v] small_maximum [of "prop_integer e"]
      by (cases "prop_id e") (simp_all add: encode_value_def value_wire_def property_ok_def shape_ok_def property_is_byte_def
          property_is_u16_def property_is_u32_def property_is_varint_def property_is_binary_def property_is_pair_def
          property_is_string_def)
  qed
qed

definition entries_of :: "property_list \<Rightarrow> mqtt_property list" where
  "entries_of ps = take (pl_count ps) (pl_entries ps)"

lemma encode_properties_loop_emit:
  assumes "pl_count ps \<le> length (pl_entries ps)" and "\<forall>e \<in> set (entries_of ps). property_ok strcap bincap e"
    and "i \<le> pl_count ps" and "fits (length (concat (map property_wire (drop i (entries_of ps))))) w"
  shows "encode_properties_loop i ps w = map_option (Pair status_ok) (emit (concat (map property_wire (drop i (entries_of ps)))) w)"
  using assms(3,4)
proof (induction "pl_count ps - i" arbitrary: i w)
  case 0
  then show ?case using assms(1) by (subst encode_properties_loop.simps) (simp add: entries_of_def emit_def)
next
  case (Suc n)
  then have i: "i < pl_count ps" by simp
  let ?e = "pl_entries ps ! i" and ?rest = "concat (map property_wire (drop (i + 1) (entries_of ps)))"
  have e: "entries_of ps ! i = ?e" "i < length (entries_of ps)" using i assms(1) by (simp_all add: entries_of_def)
  have d: "concat (map property_wire (drop i (entries_of ps))) = varint (unat (property_code (prop_id ?e))) @ value_wire ?e @ ?rest"
    using e by (simp add: Cons_nth_drop_Suc [symmetric] property_wire_def)
  have ok: "property_ok strcap bincap ?e" using assms(2) e by (metis nth_mem)
  obtain w1 where w1: "emit (varint (unat (property_code (prop_id ?e)))) w = Some w1" "fits (length (value_wire ?e @ ?rest)) w1"
    using emit_fits [of "varint (unat (property_code (prop_id ?e)))" "length (value_wire ?e @ ?rest)" w] Suc.prems(2) by (auto simp: d)
  have "(ucast (property_code (prop_id ?e)) :: u32) = of_nat (unat (property_code (prop_id ?e)))" by simp
  then have put: "put_varint (ucast (property_code (prop_id ?e))) w = Some w1"
    using put_varint_emit [of "unat (property_code (prop_id ?e))" w] property_code_small [of "prop_id ?e"] Suc.prems(2) w1(1)
    by (simp add: d fits_def)
  obtain w2 where w2: "emit (value_wire ?e) w1 = Some w2" "fits (length ?rest) w2"
    using emit_fits [of "value_wire ?e" "length ?rest" w1] w1(2) by auto
  have val: "encode_value ?e w1 = Some (status_ok, w2)"
    using encode_value_emit [OF ok, of w1] w1(2) w2(1) by (simp add: fits_def)
  have "encode_properties_loop (i + 1) ps w2 = map_option (Pair status_ok) (emit ?rest w2)"
    using Suc.hyps i w2(2) by simp
  moreover have "emit (concat (map property_wire (drop i (entries_of ps)))) w = emit ?rest w2"
    using emit_append [of "varint (unat (property_code (prop_id ?e)))" w "value_wire ?e @ ?rest"] emit_append [of "value_wire ?e" w1 ?rest]
      w1(1) w2(1) by (simp add: d)
  ultimately show ?case using i assms(1) w1(2)
    by (subst encode_properties_loop.simps) (simp add: pl_entry_def put val succeeded_def fits_def)
qed

lemma length_counted [simp]: "length (counted s) = length s + 2"
  by (simp add: counted_def)

lemma text_of_shorter: "text_ok cap xs \<Longrightarrow> length (text_of xs) < cap"
proof -
  assume ok: "text_ok cap xs"
  then obtain as bs where "xs = as @ 0 # bs" "0 \<notin> set as" unfolding text_ok_def by (metis split_list_first)
  then have "text_of xs = as" unfolding text_of_def by (subst \<open>xs = _\<close>, subst takeWhile_append2) auto
  with ok \<open>xs = as @ 0 # bs\<close> show ?thesis by (simp add: text_ok_def)
qed

lemma property_wire_length: "property_ok strcap bincap e \<Longrightarrow> length (property_wire e) \<le> strcap * 2 + bincap + 12"
  using property_code_small [of "prop_id e"] text_of_shorter [of strcap "prop_string e"] text_of_shorter [of strcap "prop_user e"]
    length_varint [of "unat (prop_integer e)" 4] small_maximum [of "prop_integer e"]
  by (auto simp: property_wire_def value_wire_def property_ok_def Let_def varint_one shape_ok_def)

lemma section_length:
  "\<forall>e \<in> set es. property_ok strcap bincap e \<Longrightarrow> length (concat (map property_wire es)) \<le> length es * (strcap * 2 + bincap + 12)"
proof (induction es)
  case (Cons e es)
  then have "length (concat (map property_wire es)) \<le> length es * (strcap * 2 + bincap + 12)"
    and "length (property_wire e) \<le> strcap * 2 + bincap + 12"
    using property_wire_length by auto
  then show ?case by simp
qed simp

lemma encode_properties_bytes:
  assumes "pl_count ps \<le> length (pl_entries ps)" and "\<forall>e \<in> set (entries_of ps). property_ok strcap bincap e"
    and "length (pl_entries ps) * (strcap * 2 + bincap + 12) + 1 < 128 ^ 4"
    and "4 \<le> length buf" and "length (section_wire (entries_of ps)) \<le> length buf" and "length buf < size_mod"
  shows "encode_properties strcap bincap ps (Mem buf) = Some (status_ok,
      Mem (section_wire (entries_of ps) @ drop (length (section_wire (entries_of ps))) buf), length (section_wire (entries_of ps)))"
proof -
  let ?body = "concat (map property_wire (entries_of ps))" 
  obtain N where N: "N = length (pl_entries ps) * (strcap * 2 + bincap + 12) + 1" by blast
  have len: "length ?body \<le> length (entries_of ps) * (strcap * 2 + bincap + 12)" by (rule section_length [OF assms(2)])
  also have "\<dots> \<le> length (pl_entries ps) * (strcap * 2 + bincap + 12)"
    by (intro mult_right_mono) (simp_all add: entries_of_def)
  finally have len: "length ?body < N" by (simp add: N)
  have "fits (length ?body) (packet_writer_init (Mem (replicate N 0)))"
    using len assms(3) by (simp add: N fits_def packet_writer_init_def w_capacity_def size_mod_def)
  then have loop: "encode_properties_loop 0 ps (packet_writer_init (Mem (replicate N 0))) =
      map_option (Pair status_ok) (emit ?body (packet_writer_init (Mem (replicate N 0))))"
    using encode_properties_loop_emit [OF assms(1,2), of 0] by simp
  obtain w where w: "emit ?body (packet_writer_init (Mem (replicate N 0))) = Some w"
    "w_size w = length ?body" "w_output w = Mem (?body @ replicate (N - length ?body) 0)"
    using len by (auto simp: emit_def packet_writer_init_def)
  let ?t = "packet_writer_init (Mem buf)"
  have "fits (length (varint (length ?body)) + length ?body) ?t"
    using assms(5,6) by (simp add: fits_def packet_writer_init_def w_capacity_def section_wire_def)
  from emit_fits [OF this] obtain t1 where t1: "emit (varint (length ?body)) ?t = Some t1" "fits (length ?body) t1" by blast
  have put: "put_varint (of_nat (length ?body)) ?t = Some t1"
    using put_varint_emit [of "length ?body" ?t] \<open>fits (length (varint (length ?body)) + length ?body) ?t\<close> t1(1) len assms(3)
    by (simp add: N fits_def)
  obtain t2 where t2: "emit ?body t1 = Some t2" "fits 0 t2" using emit_fits [of ?body 0 t1] t1(2) by auto
  have "put_bytes (w_output w) (w_size w) t1 = Some t2"
    using put_bytes_emit [OF t1(2), of "replicate (N - length ?body) 0"] t2(1) by (simp add: w)
  moreover have "emit (section_wire (entries_of ps)) ?t = Some t2"
    using emit_append [of "varint (length ?body)" ?t ?body] t1(1) t2(1) by (simp add: section_wire_def)
  then have "w_output t2 = Mem (section_wire (entries_of ps) @ drop (length (section_wire (entries_of ps))) buf)"
    "w_size t2 = length (section_wire (entries_of ps))"
    using assms(5) by (auto simp: emit_def packet_writer_init_def)
  ultimately show ?thesis
    using assms(1,4) t1(2) t2(2) put
    unfolding encode_properties_def N [symmetric] loop w(1)
    by (simp add: w(2) succeeded_def fits_def not_less)
qed

section \<open>Reading\<close>

definition r_ahead :: "packet_reader \<Rightarrow> u8 list \<Rightarrow> u8 list \<Rightarrow> bool" where
  "r_ahead r bs rest \<longleftrightarrow> r_result r = status_ok \<and> (\<exists>pre. r_input r = Mem (pre @ bs @ rest) \<and> r_position r = length pre)"

definition r_moved :: "nat \<Rightarrow> packet_reader \<Rightarrow> packet_reader" where
  "r_moved n r = r\<lparr>r_position := r_position r + n\<rparr>"

lemma r_ahead_moved: "r_ahead r (as @ bs) rest \<Longrightarrow> n = length as \<Longrightarrow> r_ahead (r_moved n r) bs rest"
proof -
  assume "r_ahead r (as @ bs) rest" and n: "n = length as"
  then obtain pre where "r_result r = status_ok" "r_input r = Mem (pre @ (as @ bs) @ rest)" "r_position r = length pre"
    by (auto simp: r_ahead_def)
  with n show ?thesis unfolding r_ahead_def r_moved_def by (auto intro: exI [of _ "pre @ as"])
qed

lemma r_ahead_append: "r_ahead r as (bs @ rest) \<longleftrightarrow> r_ahead r (as @ bs) rest"
  by (simp add: r_ahead_def)

lemma r_ahead_result: "r_ahead r bs rest \<Longrightarrow> r_result r = status_ok"
  by (simp add: r_ahead_def)

lemma r_moved_result [simp]: "r_result (r_moved n r) = r_result r"
  by (simp add: r_moved_def)

lemma r_ahead_remaining: "r_ahead r bs rest \<Longrightarrow> r_remaining r = length bs + length rest"
  by (auto simp: r_ahead_def r_remaining_def)

lemma r_moved_moved: "r_moved m (r_moved n r) = r_moved (n + m) r"
  by (simp add: r_moved_def)

lemma r_ahead_rd:
  assumes "r_ahead r bs rest" and "i < length bs"
  shows "rd (r_input r) (r_position r + i) = Some (bs ! i)"
  using assms by (auto simp: r_ahead_def nth_append)

lemma r_ahead_ptr: "r_ahead r bs rest \<Longrightarrow> ptr_add (r_input r) (r_position r) = Mem (bs @ rest)"
  by (auto simp: r_ahead_def)

lemma get_u8_ahead: "r_ahead r [v] rest \<Longrightarrow> get_u8 old r = Some (v, r_moved 1 r)"
  using r_ahead_rd [of r "[v]" rest 0] r_ahead_remaining [of r "[v]" rest] by (simp add: get_u8_def r_moved_def)

lemma get_u16_ahead: "r_ahead r (be16 v) rest \<Longrightarrow> get_u16 old r = Some (v, r_moved 2 r)"
  using r_ahead_rd [of r "be16 v" rest 0] r_ahead_rd [of r "be16 v" rest 1] r_ahead_remaining [of r "be16 v" rest]
  by (simp add: get_u16_def read_be16_def r_moved_def be16_def le_bytes_16 words_from_bytes_be)

lemma get_u32_ahead: "r_ahead r (be32 v) rest \<Longrightarrow> get_u32 old r = Some (v, r_moved 4 r)"
  using r_ahead_rd [of r "be32 v" rest 0] r_ahead_rd [of r "be32 v" rest 1] r_ahead_rd [of r "be32 v" rest 2]
    r_ahead_rd [of r "be32 v" rest 3] r_ahead_remaining [of r "be32 v" rest]
  by (simp add: get_u32_def read_be32_def r_moved_def be32_def le_bytes_32 words_from_bytes_be)

lemma get_varint_ahead:
  assumes "r_ahead r (varint n) rest" and "n < 128 ^ 4"
  shows "get_varint r = Some (of_nat n, r_moved (length (varint n)) r)"
  using decode_varint [of 0 0 n "varint n @ rest" rest] assms r_ahead_ptr [OF assms(1)]
  by (simp add: get_varint_def decode_remaining_length_def succeeded_def r_moved_def)

lemma counted_copy:
  assumes "length s \<le> length dest"
  shows "copy_bytes_loop (Mem (s @ rest)) (length s) 0 0 (Mem dest) = Some (Mem (s @ drop (length s) dest))"
  using copy_bytes_loop_store [of 0 s rest 0 "Mem dest"] assms by simp

lemma counted_length: "length s \<le> 65535 \<Longrightarrow> unat (of_nat (length s) :: u16) = length s"
  by (simp only: unat_of_nat) simp

lemma get_utf8_ahead:
  assumes a: "r_ahead r (counted s) rest" and s: "length s \<le> 65535" "length s < length dest"
  shows "get_utf8 (Mem dest) r = Some (Mem (s @ 0 # drop (Suc (length s)) dest), length s, r_moved (length (counted s)) r)"
proof -
  have h: "r_ahead r (be16 (of_nat (length s))) (s @ rest)" using a by (simp add: counted_def r_ahead_append)
  have b: "r_ahead (r_moved 2 r) s rest" using r_ahead_moved [of r "be16 (of_nat (length s))" s rest 2] a by (simp add: counted_def)
  have "(s @ drop (length s) dest)[length s := 0] = s @ 0 # drop (Suc (length s)) dest"
    using s(2) by (simp add: list_update_append Cons_nth_drop_Suc [symmetric])
  then show ?thesis
    using get_u16_ahead [OF h, of 0] r_ahead_result [OF h] r_ahead_remaining [OF b] r_ahead_ptr [OF b] counted_copy [of s dest rest] s
    by (simp add: get_utf8_def Let_def counted_length succeeded_def) (simp add: r_moved_def add.commute)
qed

lemma get_binary_ahead:
  assumes a: "r_ahead r (counted s) rest" and s: "length s \<le> 65535" "length s \<le> length dest"
  shows "get_binary (Mem dest) r = Some (Mem (s @ drop (length s) dest), length s, r_moved (length (counted s)) r)"
proof -
  have h: "r_ahead r (be16 (of_nat (length s))) (s @ rest)" using a by (simp add: counted_def r_ahead_append)
  have b: "r_ahead (r_moved 2 r) s rest" using r_ahead_moved [of r "be16 (of_nat (length s))" s rest 2] a by (simp add: counted_def)
  show ?thesis
    using get_u16_ahead [OF h, of 0] r_ahead_result [OF h] r_ahead_remaining [OF b] r_ahead_ptr [OF b] counted_copy [of s dest rest] s
    by (simp add: get_binary_def Let_def counted_length succeeded_def) (simp add: r_moved_def add.commute)
qed

lemma to_property_id_code [simp]: "to_property_id (ucast (property_code p)) = Some p"
  by (cases p) (simp_all add: to_property_id_def property_ids_def)

lemma text_of_append: "0 \<notin> set s \<Longrightarrow> text_of (s @ 0 # xs) = s"
  unfolding text_of_def by (subst takeWhile_append2) auto

lemma zero_free_text: "0 \<notin> set (text_of xs)"
  unfolding text_of_def by (metis set_takeWhileD)

lemma narrow: "unat v < 2 ^ LENGTH('a) \<Longrightarrow> unat (ucast (v :: u32) :: 'a::len word) = unat v"
  by (simp add: unat_of_nat take_bit_nat_eq_self unsigned_ucast_eq)

lemma widen: "unat (ucast v :: 'a::len word) = unat v \<Longrightarrow> ucast (ucast v :: 'a word) = (v :: u32)"
proof -
  assume u: "unat (ucast v :: 'a word) = unat v"
  have "(ucast w :: u32) = of_nat (unat w)" for w :: "'a word" by simp
  from this [of "ucast v"] show ?thesis unfolding u by (simp only: of_nat_unat id_apply ucast_id)
qed

lemma decode_value_ahead:
  assumes ok: "property_ok strcap bincap e" and d: "shape_ok strcap bincap d" "prop_id d = prop_id e"
    and a: "r_ahead r (value_wire e) rest"
  shows "\<exists>d'. decode_value (prop_id e) d r = Some (status_ok, d', r_moved (length (value_wire e)) r) \<and>
    same_property e d' \<and> shape_ok strcap bincap d'"
proof (cases "property_is_byte (prop_id e) \<or> property_is_u16 (prop_id e) \<or> property_is_u32 (prop_id e) \<or>
    property_is_varint (prop_id e) \<or> property_is_binary (prop_id e)")
  case True
  note res = r_ahead_result [OF a]
  consider (byte) "property_is_byte (prop_id e)" | (u16) "\<not> property_is_byte (prop_id e)" "property_is_u16 (prop_id e)"
    | (u32) "\<not> property_is_byte (prop_id e)" "\<not> property_is_u16 (prop_id e)" "property_is_u32 (prop_id e)"
    | (var) "\<not> property_is_byte (prop_id e)" "\<not> property_is_u16 (prop_id e)" "\<not> property_is_u32 (prop_id e)" "property_is_varint (prop_id e)"
    | (bin) "\<not> property_is_byte (prop_id e)" "\<not> property_is_u16 (prop_id e)" "\<not> property_is_u32 (prop_id e)" "\<not> property_is_varint (prop_id e)"
        "property_is_binary (prop_id e)" using True by blast
  then show ?thesis
  proof cases
    case byte
    then have v: "unat (prop_integer e) \<le> 1" and w: "value_wire e = [ucast (prop_integer e)]"
      using ok by (simp_all add: property_ok_def value_wire_def word_le_nat_alt)
    have u: "unat (ucast (prop_integer e) :: u8) = unat (prop_integer e)" using v by (intro narrow) simp
    have "\<not> (ucast (prop_integer e) :: u8) > 1" using v u by (simp add: word_less_nat_alt)
    moreover have "(ucast (ucast (prop_integer e) :: u8) :: u32) = prop_integer e" using u by (intro widen)
    ultimately show ?thesis
      using byte d res get_u8_ahead [of r "ucast (prop_integer e)" rest 0] a
      by (simp add: decode_value_def w succeeded_def same_property_def shape_ok_def)
  next
    case u16
    then have v: "unat (prop_integer e) < 65536" and w: "value_wire e = be16 (ucast (prop_integer e))"
      and nz: "prop_id e = receive_maximum \<or> prop_id e = topic_alias \<longrightarrow> prop_integer e \<noteq> 0"
      using ok by (simp_all add: property_ok_def value_wire_def word_less_nat_alt Let_def)
    have u: "unat (ucast (prop_integer e) :: u16) = unat (prop_integer e)" using v by (intro narrow) simp
    have "(ucast (ucast (prop_integer e) :: u16) :: u32) = prop_integer e" using u by (intro widen)
    moreover have "(ucast (prop_integer e) :: u16) = 0 \<longleftrightarrow> prop_integer e = 0" using u by (simp add: word_unat_eq_iff)
    ultimately show ?thesis
      using u16 d res nz get_u16_ahead [of r "ucast (prop_integer e)" rest 0] a
      by (auto simp: decode_value_def w succeeded_def same_property_def shape_ok_def)
  next
    case u32
    then have w: "value_wire e = be32 (prop_integer e)" by (simp add: value_wire_def)
    show ?thesis using u32 d res get_u32_ahead [of r "prop_integer e" rest "prop_integer d"] a
      by (simp add: decode_value_def w same_property_def shape_ok_def)
  next
    case var
    then have w: "value_wire e = varint (unat (prop_integer e))" and v: "prop_integer e \<noteq> 0" "unat (prop_integer e) < 128 ^ 4"
      using ok small_maximum by (simp_all add: value_wire_def property_ok_def)
    show ?thesis using var d res get_varint_ahead [of r "unat (prop_integer e)" rest] a v
      by (simp add: decode_value_def w succeeded_def same_property_def shape_ok_def)
  next
    case bin
    let ?s = "take (prop_binary_size e) (prop_binary e)"
    have w: "value_wire e = counted ?s" and s: "length ?s = prop_binary_size e" "prop_binary_size e \<le> 65535" "prop_binary_size e \<le> bincap"
      using ok bin by (simp_all add: value_wire_def property_ok_def shape_ok_def)
    show ?thesis using bin d res get_binary_ahead [of r ?s rest "prop_binary d"] a s
      by (simp add: decode_value_def w array_of_def same_property_def shape_ok_def)
  qed
next
  case False
  let ?s = "text_of (prop_string e)" and ?u = "text_of (prop_user e)"
  have s: "text_ok strcap (prop_string e)" "length ?s < strcap" "length ?s \<le> 65535"
    using ok False text_of_shorter by (auto simp: property_ok_def Let_def text_ok_def split: if_splits)
  have dl: "length (prop_string d) = strcap" "length (prop_user d) = strcap" using d by (simp_all add: shape_ok_def)
  show ?thesis
  proof (cases "property_is_pair (prop_id e)")
    case True
    have u: "length ?u < strcap" "length ?u \<le> 65535"
      using ok False True text_of_shorter [of strcap "prop_user e"] by (simp_all add: property_ok_def text_ok_def)
    have w: "value_wire e = counted ?s @ counted ?u" using False True by (simp add: value_wire_def)
    have a1: "r_ahead r (counted ?s) (counted ?u @ rest)" using a by (simp add: w r_ahead_append)
    have a2: "r_ahead (r_moved (length (counted ?s)) r) (counted ?u) rest" using r_ahead_moved [of r "counted ?s" "counted ?u" rest] a by (simp add: w)
    show ?thesis
      using False True d s u dl get_utf8_ahead [OF a1, of "prop_string d"] get_utf8_ahead [OF a2, of "prop_user d"] r_ahead_result [OF a]
      by (simp add: decode_value_def Let_def array_of_def w succeeded_def same_property_def shape_ok_def text_of_append zero_free_text r_moved_moved)
  next
    case pair: False
    have w: "value_wire e = counted ?s" using False pair by (simp add: value_wire_def)
    show ?thesis
      using False pair d s dl get_utf8_ahead [of r ?s rest "prop_string d"] r_ahead_result [OF a] a
      by (simp add: decode_value_def Let_def array_of_def w succeeded_def same_property_def shape_ok_def text_of_append zero_free_text)
  qed
qed

lemma decode_properties_loop_ahead:
  assumes "\<forall>e \<in> set es. property_ok strcap bincap e" and "r_ahead r (concat (map property_wire es)) []"
    and "pl_count ps + length es \<le> length (pl_entries ps)" and "\<forall>d \<in> set (pl_entries ps). shape_ok strcap bincap d"
  shows "\<exists>ps'. decode_properties_loop r ps = Some (status_ok, False, ps') \<and> pl_count ps' = pl_count ps + length es \<and>
    length (pl_entries ps') = length (pl_entries ps) \<and> take (pl_count ps) (pl_entries ps') = take (pl_count ps) (pl_entries ps) \<and>
    list_all2 same_property es (drop (pl_count ps) (entries_of ps'))"
  using assms
proof (induction es arbitrary: r ps)
  case Nil
  then show ?case using r_ahead_remaining [of r "[]" "[]"]
    by (subst decode_properties_loop.simps) (simp add: entries_of_def)
next
  case (Cons e es)
  let ?id = "unat (property_code (prop_id e))" and ?rest = "concat (map property_wire es)"
  let ?d = "pl_entries ps ! pl_count ps" and ?c = "pl_count ps"
  have c: "?c < length (pl_entries ps)" using Cons.prems(3) by simp
  have id: "?id < 128 ^ 4" using property_code_small [of "prop_id e"] by simp
  have a: "r_ahead r (varint ?id @ value_wire e @ ?rest) []" using Cons.prems(2) by (simp add: property_wire_def [of e])
  have a1: "r_ahead r (varint ?id) (value_wire e @ ?rest)" using a r_ahead_append [of r "varint ?id" "value_wire e @ ?rest" "[]"] by simp
  have a2: "r_ahead (r_moved (length (varint ?id)) r) (value_wire e @ ?rest) []" by (rule r_ahead_moved [OF a]) simp
  have a3: "r_ahead (r_moved (length (varint ?id)) r) (value_wire e) ?rest"
    using a2 r_ahead_append [of _ "value_wire e" ?rest "[]"] by simp
  obtain d' where d': "decode_value (prop_id e) (?d\<lparr>prop_id := prop_id e\<rparr>) (r_moved (length (varint ?id)) r) =
      Some (status_ok, d', r_moved (length (property_wire e)) r)" "same_property e d'" "shape_ok strcap bincap d'"
    using decode_value_ahead [of strcap bincap e "?d\<lparr>prop_id := prop_id e\<rparr>", OF _ _ _ a3] Cons.prems(1,4) c
    by (auto simp: shape_ok_def property_wire_def r_moved_moved)
  let ?ps = "ps\<lparr>pl_entries := (pl_entries ps)[?c := d'], pl_count := ?c + 1\<rparr>"
  have "r_ahead (r_moved (length (property_wire e)) r) ?rest []"
    using r_ahead_moved [OF a2, of "length (value_wire e)"] by (simp add: r_moved_moved property_wire_def)
  moreover have "\<forall>d \<in> set (pl_entries ?ps). shape_ok strcap bincap d"
    using Cons.prems(4) d'(3) by (auto dest: set_update_subset_insert [THEN subsetD])
  ultimately obtain ps' where ps': "decode_properties_loop (r_moved (length (property_wire e)) r) ?ps = Some (status_ok, False, ps')"
    "pl_count ps' = ?c + 1 + length es" "length (pl_entries ps') = length (pl_entries ps)"
    "take (?c + 1) (pl_entries ps') = take (?c + 1) ((pl_entries ps)[?c := d'])"
    "list_all2 same_property es (drop (?c + 1) (entries_of ps'))"
    using Cons.IH [of "r_moved (length (property_wire e)) r" ?ps] Cons.prems(1,3) by auto
  have r: "decode_properties_loop r ps = decode_properties_loop (r_moved (length (property_wire e)) r) ?ps"
    using r_ahead_remaining [OF a1] get_varint_ahead [OF a1 id] r_ahead_result [OF a1] c d'(1) Cons.prems(3)
    by (subst decode_properties_loop.simps)
      (simp add: succeeded_def property_known_def pl_full_def pl_entry_def Let_def)
  have n1: "pl_entries ps' ! ?c = d'"
  proof -
    have "pl_entries ps' ! ?c = take (?c + 1) (pl_entries ps') ! ?c" by simp
    then show ?thesis unfolding ps'(4) using c by simp
  qed
  have n2: "take ?c (pl_entries ps') = take ?c (pl_entries ps)"
  proof -
    have "take ?c (pl_entries ps') = take ?c (take (?c + 1) (pl_entries ps'))" by (simp add: min_def)
    then show ?thesis unfolding ps'(4) by (simp add: min_def)
  qed
  have "drop ?c (entries_of ps') = d' # drop (?c + 1) (entries_of ps')"
    using c ps'(2,3) n1 Cons.prems(3) by (simp add: entries_of_def drop_take Cons_nth_drop_Suc [symmetric])
  with r ps' n2 d'(2) show ?case by simp
qed

section \<open>What the property codec promises\<close>

text \<open>C25: a property list whose values MQTT allows is encoded, into a buffer with room, as exactly the bytes
  \<open>section_wire\<close> gives: the length of the section as a variable byte integer and then, for each property in order,
  its identifier and its value in the form its type has (one byte, big-endian 16 or 32 bits, a variable byte integer,
  or a string or binary behind its big-endian length). The buffer behind them is untouched. Decoding that section
  out of any packet body yields the same properties in the same order and leaves the reader directly behind it.\<close>

theorem properties_roundtrip:
  assumes "pl_count ps \<le> length (pl_entries ps)" and "\<forall>e \<in> set (entries_of ps). property_ok strcap bincap e"
    and "length (pl_entries ps) * (strcap * 2 + bincap + 12) + 1 < 128 ^ 4"
    and "4 \<le> length buf" and "length (section_wire (entries_of ps)) \<le> length buf" and "length buf < size_mod"
    and "pl_count ps \<le> length (pl_entries out)" and "\<forall>d \<in> set (pl_entries out). shape_ok strcap bincap d"
  shows "encode_properties strcap bincap ps (Mem buf) =
      Some (status_ok, Mem (section_wire (entries_of ps) @ drop (length (section_wire (entries_of ps))) buf), length (section_wire (entries_of ps))) \<and>
    (\<exists>out'. decode_properties strict
        \<lparr>r_input = Mem (before @ section_wire (entries_of ps) @ after), r_position = length before, r_result = status_ok\<rparr> out =
      Some (status_ok, \<lparr>r_input = Mem (before @ section_wire (entries_of ps) @ after),
        r_position = length before + length (section_wire (entries_of ps)), r_result = status_ok\<rparr>, out') \<and>
      list_all2 same_property (entries_of ps) (entries_of out'))"
proof -
  let ?es = "entries_of ps" and ?body = "concat (map property_wire (entries_of ps))"
  let ?r = "\<lparr>r_input = Mem (before @ section_wire ?es @ after), r_position = length before, r_result = status_ok\<rparr>"
  have len: "length ?body < 128 ^ 4"
  proof -
    have "length ?es * (strcap * 2 + bincap + 12) \<le> length (pl_entries ps) * (strcap * 2 + bincap + 12)"
      by (intro mult_right_mono) (simp_all add: entries_of_def)
    with section_length [OF assms(2)] assms(3) show ?thesis by linarith
  qed
  have a: "r_ahead ?r (varint (length ?body)) (?body @ after)" by (simp add: r_ahead_def section_wire_def)
  let ?r1 = "r_moved (length (varint (length ?body))) ?r"
  have a1: "r_ahead ?r1 ?body after" using r_ahead_moved [of ?r "varint (length ?body)" ?body after] by (simp add: r_ahead_def section_wire_def)
  have v: "r_ahead (packet_reader_init (Mem ?body)) ?body []" by (simp add: r_ahead_def packet_reader_init_def)
  obtain out' where out': "decode_properties_loop (packet_reader_init (Mem ?body)) (pl_clear out) = Some (status_ok, False, out')"
    "list_all2 same_property ?es (entries_of out')"
    using decode_properties_loop_ahead [OF assms(2) v, of "pl_clear out"] assms(1,7,8) by (auto simp: pl_clear_def entries_of_def)
  have u: "unat (of_nat (length ?body) :: u32) = length ?body" by (rule small_word [OF len])
  have "decode_properties strict ?r out = Some (status_ok, r_moved (length (section_wire ?es)) ?r, out')"
    using get_varint_ahead [OF a len] r_ahead_result [OF a] r_ahead_remaining [OF a1] r_ahead_ptr [OF a1] out'(1) u
    by (simp add: decode_properties_def Let_def succeeded_def r_skip_def) (simp add: r_moved_def section_wire_def)
  with encode_properties_bytes [OF assms(1-6)] out'(2) show ?thesis
    by (simp add: r_moved_def)
qed

theorem properties_roundtrip_witness:
  "encode_properties 4 4 \<lparr>pl_entries = [(property_init 4 4)\<lparr>prop_id := topic_alias, prop_integer := 5\<rparr>,
        (property_init 4 4)\<lparr>prop_id := content_type, prop_string := [97, 98, 0, 0]\<rparr>], pl_count = 2\<rparr> (Mem [7, 7, 7, 7, 7, 7, 7, 7, 7, 7, 7, 7]) =
      Some (status_ok, Mem [8, 35, 0, 5, 3, 0, 2, 97, 98, 7, 7, 7], 9) \<and>
    (\<exists>out'. decode_properties False \<lparr>r_input = Mem [7, 8, 35, 0, 5, 3, 0, 2, 97, 98, 9], r_position = 1, r_result = status_ok\<rparr> (property_list_init 3 4 4) =
      Some (status_ok, \<lparr>r_input = Mem [7, 8, 35, 0, 5, 3, 0, 2, 97, 98, 9], r_position = 10, r_result = status_ok\<rparr>, out') \<and>
    list_all2 same_property (entries_of \<lparr>pl_entries = [(property_init 4 4)\<lparr>prop_id := topic_alias, prop_integer := 5\<rparr>,
        (property_init 4 4)\<lparr>prop_id := content_type, prop_string := [97, 98, 0, 0]\<rparr>], pl_count = 2\<rparr>) (entries_of out'))"
proof -
  let ?ps = "\<lparr>pl_entries = [(property_init 4 4)\<lparr>prop_id := topic_alias, prop_integer := 5\<rparr>,
        (property_init 4 4)\<lparr>prop_id := content_type, prop_string := [97, 98, 0, 0]\<rparr>], pl_count = 2\<rparr>"
  have s: "section_wire (entries_of ?ps) = [8, 35, 0, 5, 3, 0, 2, 97, 98]" by code_simp
  let ?out = "property_list_init 3 4 4" and ?buf = "[7, 7, 7, 7, 7, 7, 7, 7, 7, 7, 7, 7] :: u8 list"
  have ok: "pl_count ?ps \<le> length (pl_entries ?ps)" "\<forall>e \<in> set (entries_of ?ps). property_ok 4 4 e"
    "length (pl_entries ?ps) * (4 * 2 + 4 + 12) + 1 < 128 ^ 4" "4 \<le> length ?buf" "length (section_wire (entries_of ?ps)) \<le> length ?buf"
    "length ?buf < size_mod" "pl_count ?ps \<le> length (pl_entries ?out)" "\<forall>d \<in> set (pl_entries ?out). shape_ok 4 4 d"
    unfolding s
    by (simp_all add: entries_of_def property_ok_def shape_ok_def property_init_def property_list_init_def text_ok_def text_of_def
      size_mod_def property_is_byte_def property_is_u16_def property_is_u32_def property_is_varint_def property_is_binary_def
      property_is_pair_def)
  show ?thesis using properties_roundtrip [OF ok, of False "[7]" "[9]"] unfolding s by (simp add: eval_nat_numeral)
qed

text \<open>A property identifier is a variable byte integer, but \<open>property_known\<close> and the decoder look only at its low
  eight bits: identifier 257 is decoded as the payload format indicator, identifier 1.\<close>

lemma property_id_aliases:
  "property_known 257 \<and>
   map_option (\<lambda>(st, r, ps). (st, map prop_id (entries_of ps)))
     (decode_properties False (packet_reader_init (Mem [3, 0x81, 0x02, 1])) (property_list_init 1 4 4)) =
   Some (status_ok, [payload_format_indicator])"
  by code_simp

end
