(* ===== verification/MqttTopic.thy ===== *)
theory MqttTopic
  imports Prelude
begin

text \<open>
  MQTT topic names and filters (\<open>castle_ext/protocols/mqtt/topic.hpp\<close>): UTF-8 validation, the two
  validators, and matching a name against a filter.  A \<open>string_view\<close> is a range of bytes, null or not.
\<close>

section \<open>UTF-8\<close>

fun utf8_tail :: "u8 ptr \<Rightarrow> nat \<Rightarrow> nat \<Rightarrow> u32 \<Rightarrow> u32 option option" where
  "utf8_tail s 0 i cp = Some (Some cp)"
| "utf8_tail s (Suc n) i cp = do {
     c \<leftarrow> rd s i;
     if c AND 0xC0 \<noteq> 0x80 then Some None else utf8_tail s n (i + 1) (push_bit 6 cp OR ucast (c AND 0x3F)) }"

text \<open>The three leads: the payload bits of the first byte, the number of continuation bytes and the least code point.\<close>

definition utf8_lead :: "u32 \<Rightarrow> (u32 \<times> nat \<times> u32) option" where
  "utf8_lead cp =
     (if cp AND 0xE0 = 0xC0 then Some (cp AND 0x1F, 1, 0x80)
      else if cp AND 0xF0 = 0xE0 then Some (cp AND 0x0F, 2, 0x800)
      else if cp AND 0xF8 = 0xF0 then Some (cp AND 0x07, 3, 0x10000)
      else None)"

definition code_point_refused :: "u32 \<Rightarrow> u32 \<Rightarrow> bool" where
  "code_point_refused minimum cp \<longleftrightarrow> cp < minimum \<or> cp > 0x10FFFF \<or> (cp \<ge> 0xD800 \<and> cp \<le> 0xDFFF) \<or>
     (cp \<ge> 0xFDD0 \<and> cp \<le> 0xFDEF) \<or> cp AND 0xFFFF = 0xFFFE \<or> cp AND 0xFFFF = 0xFFFF"

function valid_utf8_loop :: "u8 ptr \<Rightarrow> nat \<Rightarrow> bool option" where
  "valid_utf8_loop s i =
     (if i < psize s then do {
        b \<leftarrow> rd s i;
        let cp = (ucast b :: u32) in
        if cp = 0 \<or> cp = 0xFFFF \<or> cp = 0xFFFE then Some False
        else if cp < 0x80 then valid_utf8_loop s (i + 1)
        else case utf8_lead cp of
          None \<Rightarrow> Some False
        | Some (cp, continuation, minimum) \<Rightarrow>
            if i + 1 + continuation > psize s then Some False
            else do {
              r \<leftarrow> utf8_tail s continuation (i + 1) cp;
              case r of
                None \<Rightarrow> Some False
              | Some cp \<Rightarrow> if code_point_refused minimum cp then Some False else valid_utf8_loop s (i + 1 + continuation) } }
      else Some True)"
  by pat_completeness auto
termination by (relation "measure (\<lambda>(s, i). psize s - i)") auto

declare valid_utf8_loop.simps [simp del]

definition valid_utf8 :: "u8 ptr \<Rightarrow> bool option" where
  "valid_utf8 s = (if is_null s \<and> psize s \<noteq> 0 then Some False else valid_utf8_loop s 0)"

section \<open>Topic names\<close>

definition slash :: u8 where "slash = 0x2F"
definition plus_sign :: u8 where "plus_sign = 0x2B"
definition hash_sign :: u8 where "hash_sign = 0x23"
definition dollar :: u8 where "dollar = 0x24"

function wildcard_loop :: "u8 ptr \<Rightarrow> nat \<Rightarrow> status option" where
  "wildcard_loop topic i =
     (if i < psize topic then do {
        c \<leftarrow> rd topic i;
        if c = plus_sign \<or> c = hash_sign then Some status_invalid_argument else wildcard_loop topic (i + 1) }
      else Some status_ok)"
  by pat_completeness auto
termination by (relation "measure (\<lambda>(s, i). psize s - i)") auto

declare wildcard_loop.simps [simp del]

definition validate_topic_name :: "u8 ptr \<Rightarrow> status option" where
  "validate_topic_name topic =
     (if psize topic = 0 then Some status_invalid_argument
      else do {
        v \<leftarrow> valid_utf8 topic;
        if \<not> v then Some status_invalid_argument else wildcard_loop topic 0 })"

section \<open>Topic filters\<close>

text \<open>The checks on the characters of one level, from \<open>j\<close> to its end at \<open>i\<close>.\<close>

function level_loop :: "u8 ptr \<Rightarrow> nat \<Rightarrow> nat \<Rightarrow> nat \<Rightarrow> bool option" where
  "level_loop s level_size i j =
     (if j < i then do {
        c \<leftarrow> rd s j;
        if c = plus_sign \<and> \<not> level_size = 1 then Some False
        else if c = hash_sign \<and> \<not> (level_size = 1 \<and> i = psize s) then Some False
        else level_loop s level_size i (j + 1) }
      else Some True)"
  by pat_completeness auto
termination by (relation "measure (\<lambda>(s, n, i, j). i - j)") auto

declare level_loop.simps [simp del]

function filter_loop :: "u8 ptr \<Rightarrow> nat \<Rightarrow> nat \<Rightarrow> status option" where
  "filter_loop s i level_start =
     (if i \<le> psize s then do {
        at_end \<leftarrow> (if i = psize s then Some True else do { c \<leftarrow> rd s i; Some (c = slash) });
        if at_end then do {
          ok \<leftarrow> level_loop s (i - level_start) i level_start;
          if \<not> ok then Some status_invalid_argument else filter_loop s (i + 1) (i + 1) }
        else filter_loop s (i + 1) level_start }
      else Some status_ok)"
  by pat_completeness auto
termination by (relation "measure (\<lambda>(s, i, _). psize s + 1 - i)") auto

declare filter_loop.simps [simp del]

definition validate_topic_filter :: "u8 ptr \<Rightarrow> status option" where
  "validate_topic_filter s =
     (if psize s = 0 then Some status_invalid_argument
      else do {
        v \<leftarrow> valid_utf8 s;
        if \<not> v then Some status_invalid_argument else filter_loop s 0 0 })"

section \<open>Matching\<close>

function level_end :: "u8 ptr \<Rightarrow> nat \<Rightarrow> nat option" where
  "level_end s e =
     (if e < psize s then do { c \<leftarrow> rd s e; if c \<noteq> slash then level_end s (e + 1) else Some e } else Some e)"
  by pat_completeness auto
termination by (relation "measure (\<lambda>(s, i). psize s - i)") auto

declare level_end.simps [simp del]

lemma level_end_le: "level_end s i = Some e \<Longrightarrow> i \<le> e"
proof (induction s i rule: level_end.induct)
  case (1 s i)
  then show ?case
    by (cases "rd s i") (subst (asm) (2) level_end.simps, auto simp: level_end.simps [of s i] split: if_splits)
qed

function equal_loop :: "u8 ptr \<Rightarrow> nat \<Rightarrow> u8 ptr \<Rightarrow> nat \<Rightarrow> nat \<Rightarrow> nat \<Rightarrow> bool option" where
  "equal_loop f fi t ti k n =
     (if k < n then do {
        a \<leftarrow> rd f (fi + k); b \<leftarrow> rd t (ti + k);
        if a \<noteq> b then Some False else equal_loop f fi t ti (k + 1) n }
      else Some True)"
  by pat_completeness auto
termination by (relation "measure (\<lambda>(_, _, _, _, k, n). n - k)") auto

declare equal_loop.simps [simp del]

function topic_loop :: "u8 ptr \<Rightarrow> u8 ptr \<Rightarrow> nat \<Rightarrow> nat \<Rightarrow> bool option" where
  "topic_loop f t fi ti =
     (if fi < psize f then do {
        c \<leftarrow> rd f fi;
        if c = hash_sign then Some True
        else do {
          f_end \<leftarrow> level_end f fi;
          t_end \<leftarrow> level_end t ti;
          let f_len = f_end - fi; t_len = t_end - ti; any = (f_len = 1 \<and> c = plus_sign) in do {
            same \<leftarrow> (if any then Some True
                     else if f_len \<noteq> t_len then Some False
                     else equal_loop f fi t ti 0 f_len);
            if \<not> same then Some False
            else if \<not> f_end < psize f then Some (\<not> t_end < psize t)
            else if \<not> t_end < psize t then
              (if f_end + 2 = psize f then do { d \<leftarrow> rd f (f_end + 1); Some (d = hash_sign) } else Some False)
            else topic_loop f t (f_end + 1) (t_end + 1) } } }
      else Some (ti = psize t))"
  by pat_completeness auto
termination by (relation "measure (\<lambda>(f, _, fi, _). psize f - fi)") (auto dest: level_end_le)

declare topic_loop.simps [simp del]

definition topic_matches :: "u8 ptr \<Rightarrow> u8 ptr \<Rightarrow> bool option" where
  "topic_matches f t = do {
     vf \<leftarrow> validate_topic_filter f;
     if \<not> succeeded vf then Some False
     else do {
       vt \<leftarrow> validate_topic_name t;
       if \<not> succeeded vt then Some False
       else do {
         t0 \<leftarrow> rd t 0; f0 \<leftarrow> rd f 0;
         if t0 = dollar \<and> f0 \<noteq> dollar then Some False else topic_loop f t 0 0 } } }"

section \<open>What UTF-8 is\<close>

text \<open>The code points a topic may contain: no NUL, no surrogate, no noncharacter.\<close>

definition topic_char :: "nat \<Rightarrow> bool" where
  "topic_char c \<longleftrightarrow> 0 < c \<and> c \<le> 0x10FFFF \<and> \<not> (0xD800 \<le> c \<and> c \<le> 0xDFFF) \<and> \<not> (0xFDD0 \<le> c \<and> c \<le> 0xFDEF) \<and>
     c mod 65536 \<noteq> 0xFFFE \<and> c mod 65536 \<noteq> 0xFFFF"

definition utf8_text :: "u8 list \<Rightarrow> bool" where
  "utf8_text xs \<longleftrightarrow> (\<exists>cs. (\<forall>c \<in> set cs. topic_char c) \<and> xs = concat (map utf8_encode cs))"

text \<open>The decoder over a list of bytes, on natural numbers.\<close>

definition cont :: "u8 \<Rightarrow> bool" where "cont c \<longleftrightarrow> unat c div 64 = 2"
definition low6 :: "u8 \<Rightarrow> nat" where "low6 c = unat c mod 64"

fun utf8_ok :: "u8 list \<Rightarrow> bool" where
  "utf8_ok [] = True"
| "utf8_ok (b # bs) =
     (let n = unat b in
      if n < 128 then 0 < n \<and> utf8_ok bs
      else if n div 32 = 6 then
        (case bs of c1 # bs \<Rightarrow>
           let v = n mod 32 * 64 + low6 c1 in cont c1 \<and> 0x80 \<le> v \<and> topic_char v \<and> utf8_ok bs | _ \<Rightarrow> False)
      else if n div 16 = 14 then
        (case bs of c1 # c2 # bs \<Rightarrow>
           let v = (n mod 16 * 64 + low6 c1) * 64 + low6 c2 in cont c1 \<and> cont c2 \<and> 0x800 \<le> v \<and> topic_char v \<and> utf8_ok bs | _ \<Rightarrow> False)
      else if n div 8 = 30 then
        (case bs of c1 # c2 # c3 # bs \<Rightarrow>
           let v = ((n mod 8 * 64 + low6 c1) * 64 + low6 c2) * 64 + low6 c3 in
           cont c1 \<and> cont c2 \<and> cont c3 \<and> 0x10000 \<le> v \<and> topic_char v \<and> utf8_ok bs | _ \<Rightarrow> False)
      else False)"

lemma byte_masks: "(0xE0 :: u32) = push_bit 5 (mask 3)" "(0xF0 :: u32) = push_bit 4 (mask 4)" "(0xF8 :: u32) = push_bit 3 (mask 5)"
  "(0x1F :: u32) = mask 5" "(0x0F :: u32) = mask 4" "(0x07 :: u32) = mask 3" "(0x3F :: u8) = mask 6" "(0xC0 :: u8) = push_bit 6 (mask 2)"
  by (simp_all add: mask_eq_exp_minus_1)

lemma lead_bits:
  "((ucast (b :: u8) :: u32) AND 0xE0 = 0xC0) = (unat b div 32 = 6)"
  "((ucast b :: u32) AND 0xF0 = 0xE0) = (unat b div 16 = 14)"
  "((ucast b :: u32) AND 0xF8 = 0xF0) = (unat b div 8 = 30)"
  "unat ((ucast b :: u32) AND 0x1F) = unat b mod 32"
  "unat ((ucast b :: u32) AND 0x0F) = unat b mod 16"
  "unat ((ucast b :: u32) AND 0x07) = unat b mod 8"
  "(b AND 0xC0 = 0x80) = cont b"
  "unat (b AND 0x3F) = low6 b"
  using byte_high [of 5 3 b, where ?'a = 32, folded byte_masks] byte_high [of 4 4 b, where ?'a = 32, folded byte_masks]
    byte_high [of 3 5 b, where ?'a = 32, folded byte_masks] byte_low [of b 5, where ?'a = 32, folded byte_masks]
    byte_low [of b 4, where ?'a = 32, folded byte_masks] byte_low [of b 3, where ?'a = 32, folded byte_masks]
    byte_high [of 6 2 b, where ?'a = 8, folded byte_masks] byte_low [of b 6, where ?'a = 8, folded byte_masks]
  by (simp_all add: word_unat_eq_iff cont_def low6_def)

lemma low6_less: "low6 c < 64"
  by (simp add: low6_def)

text \<open>One continuation byte.\<close>

lemma utf8_step:
  assumes "unat cp < 2 ^ 26"
  shows "unat (push_bit 6 cp OR ucast (c AND 0x3F) :: u32) = unat cp * 64 + low6 c"
proof -
  have l: "unat (ucast (c AND 0x3F) :: u32) = low6 c" by (simp add: byte_unat lead_bits)
  have p: "unat (push_bit 6 cp) = unat cp * 64"
    unfolding unsigned_push_bit_eq using assms by (simp add: push_bit_eq_mult take_bit_nat_eq_self_iff)
  have "push_bit 6 cp AND ucast (c AND 0x3F) = 0"
    unfolding byte_masks by (rule bit_word_eqI) (auto simp: bit_simps)
  then have "push_bit 6 cp OR ucast (c AND 0x3F) = push_bit 6 cp + ucast (c AND 0x3F)" by (simp add: disjunctive_add_eq_or)
  moreover have "unat cp * 64 + low6 c < 2 ^ 32" using assms low6_less [of c] by simp
  ultimately show ?thesis by (simp add: unat_word_ariths l p)
qed

lemma refused_iff: "\<not> code_point_refused (of_nat m) cp \<longleftrightarrow> m \<le> unat cp \<and> topic_char (unat cp)" if "0 < m" "m < 2 ^ 32"
proof -
  have low: "unat (cp AND 0xFFFF) = unat cp mod 65536"
  proof -
    have m: "(0xFFFF :: u32) = mask 16" by (simp add: mask_eq_exp_minus_1)
    show ?thesis unfolding m take_bit_eq_mask [symmetric] unsigned_take_bit_eq by (simp add: take_bit_eq_mod)
  qed
  have "unat (of_nat m :: u32) = m" using that by (simp add: unat_of_nat)
  with that show ?thesis
    by (auto simp: code_point_refused_def topic_char_def word_less_nat_alt word_le_nat_alt word_unat_eq_iff low)
qed

lemma utf8_lead_nat:
  "utf8_lead (ucast (b :: u8)) =
    (if unat b div 32 = 6 then Some (ucast b AND 0x1F, 1, 0x80)
     else if unat b div 16 = 14 then Some (ucast b AND 0x0F, 2, 0x800)
     else if unat b div 8 = 30 then Some (ucast b AND 0x07, 3, 0x10000) else None)"
  unfolding utf8_lead_def lead_bits by (rule refl)

lemma drop_Cons: "drop i xs = c # cs \<Longrightarrow> i < length xs \<and> xs ! i = c \<and> drop (Suc i) xs = cs"
  by (metis Cons_nth_drop_Suc drop_all list.inject list.simps(3) not_le_imp_less)

fun tail_nat :: "nat \<Rightarrow> u8 list \<Rightarrow> nat \<Rightarrow> nat option" where
  "tail_nat 0 cs v = Some v"
| "tail_nat (Suc n) [] v = None"
| "tail_nat (Suc n) (c # cs) v = (if cont c then tail_nat n cs (v * 64 + low6 c) else None)"

lemma utf8_tail_nat:
  "n \<le> length (drop i xs) \<Longrightarrow> (unat cp + 1) * 64 ^ n \<le> 2 ^ 32 \<Longrightarrow>
   \<exists>r. utf8_tail (Mem xs) n i cp = Some r \<and> map_option unat r = tail_nat n (drop i xs) (unat cp)"
proof (induction n arbitrary: i cp)
  case (Suc n)
  obtain c cs where c: "drop i xs = c # cs" using Suc.prems(1) by (cases "drop i xs") auto
  note d = drop_Cons [OF c]
  have "(64 :: nat) \<le> 64 ^ Suc n" by simp
  then have "(unat cp + 1) * 64 \<le> (unat cp + 1) * 64 ^ Suc n" by (intro mult_left_mono) simp_all
  then have "unat cp < 2 ^ 26" using Suc.prems(2) by simp
  note step = utf8_step [OF this, of c]
  have "unat cp * 64 + low6 c + 1 \<le> (unat cp + 1) * 64" using low6_less [of c] by simp
  then have "(unat cp * 64 + low6 c + 1) * 64 ^ n \<le> (unat cp + 1) * 64 * 64 ^ n" by (rule mult_right_mono) simp
  also have "\<dots> \<le> 2 ^ 32" using Suc.prems(2) by (simp only: power_Suc mult.assoc)
  finally have "\<exists>r. utf8_tail (Mem xs) n (Suc i) (push_bit 6 cp OR ucast (c AND 0x3F)) = Some r \<and>
      map_option unat r = tail_nat n cs (unat cp * 64 + low6 c)"
    using Suc.IH [of "Suc i" "push_bit 6 cp OR ucast (c AND 0x3F)"] Suc.prems(1) d by (simp add: step c)
  with d show ?case by (auto simp: c lead_bits)
qed simp

lemma utf8_ok_tail:
  "\<not> unat b < 128 \<Longrightarrow> utf8_ok (b # bs) =
     (case (if unat b div 32 = 6 then Some (unat b mod 32, 1, 0x80)
            else if unat b div 16 = 14 then Some (unat b mod 16, 2, 0x800)
            else if unat b div 8 = 30 then Some (unat b mod 8, 3, 0x10000) else None) of
        None \<Rightarrow> False
      | Some (v, n, m) \<Rightarrow> (case tail_nat n bs v of None \<Rightarrow> False
          | Some v \<Rightarrow> n \<le> length bs \<and> m \<le> v \<and> topic_char v \<and> utf8_ok (drop n bs)))"
  by (simp add: Let_def numeral_2_eq_2 numeral_3_eq_3 split: list.split)

lemma valid_utf8_loop_ok: "i \<le> length xs \<Longrightarrow> valid_utf8_loop (Mem xs) i = Some (utf8_ok (drop i xs))"
proof (induction "length xs - i" arbitrary: i rule: less_induct)
  case less
  show ?case
  proof (cases "drop i xs")
    case Nil
    then show ?thesis by (subst valid_utf8_loop.simps) simp
  next
    case (Cons b bs)
    have i: "rd (Mem xs) i = Some b" "i < length xs" "drop (Suc i) xs = bs" using drop_Cons [OF Cons] by simp_all
    have IH: "valid_utf8_loop (Mem xs) j = Some (utf8_ok (drop j xs))" if "i < j" "j \<le> length xs" for j
      using less.hyps [of j] that i(2) by simp
    have len: "length bs = length xs - (i + 1)" using i(3) by auto
    have cp: "unat (ucast b :: u32) = unat b" by (simp add: byte_unat)
    have e: "((ucast b :: u32) = 0) = (unat b = 0)" "(ucast b :: u32) \<noteq> 0xFFFF" "(ucast b :: u32) \<noteq> 0xFFFE" "((ucast b :: u32) < 0x80) = (unat b < 128)"
      using byte_less [of b] by (auto simp: word_less_nat_alt word_unat_eq_iff cp)
    define continue where "continue cp n m =
       (if length bs < n then Some False
        else do {
          r \<leftarrow> utf8_tail (Mem xs) n (i + 1) cp;
          case r of
            None \<Rightarrow> Some False
          | Some cp \<Rightarrow> if code_point_refused m cp then Some False else valid_utf8_loop (Mem xs) (i + 1 + n) })" for cp n m
    have start: "valid_utf8_loop (Mem xs) i =
       (if unat b = 0 then Some False
        else if unat b < 128 then valid_utf8_loop (Mem xs) (i + 1)
        else case utf8_lead (ucast b) of
          None \<Rightarrow> Some False
        | Some (cp, n, m) \<Rightarrow> continue cp n m)"
      using i len by (subst valid_utf8_loop.simps) (auto simp: continue_def e Let_def not_less split: option.splits)
    have tail: "continue cp n (of_nat m) =
        Some (case tail_nat n bs (unat cp) of None \<Rightarrow> False
              | Some v \<Rightarrow> n \<le> length bs \<and> m \<le> v \<and> topic_char v \<and> utf8_ok (drop n bs))"
      if cp: "(unat cp + 1) * 64 ^ n \<le> 2 ^ 32" and m: "0 < m" "m < 2 ^ 32" for n cp m
    proof (cases "length bs < n")
      case True
      then show ?thesis by (simp add: continue_def split: option.split)
    next
      case False
      then obtain r where r: "utf8_tail (Mem xs) n (i + 1) cp = Some r" "map_option unat r = tail_nat n bs (unat cp)"
        using utf8_tail_nat [of n "i + 1" xs cp] cp i(3) len by auto
      have "valid_utf8_loop (Mem xs) (i + 1 + n) = Some (utf8_ok (drop n bs))"
      proof -
        have "drop (i + 1 + n) xs = drop n bs" unfolding i(3) [symmetric] drop_drop by (simp add: add.commute)
        then show ?thesis using IH [of "i + 1 + n"] False len i(2) by simp
      qed
      moreover have refused: "code_point_refused (of_nat m) a = (\<not> (m \<le> unat a \<and> topic_char (unat a)))" for a
        using refused_iff [OF m] by blast
      ultimately show ?thesis unfolding continue_def r(2) [symmetric] r(1) using False
        by (cases r) (auto simp: refused)
    qed
    have next_ok: "valid_utf8_loop (Mem xs) (i + 1) = Some (utf8_ok bs)" using IH [of "i + 1"] i by simp
    have v: "unat ((ucast b :: u32) AND 0x1F) = unat b mod 32" "unat ((ucast b :: u32) AND 0x0F) = unat b mod 16"
      "unat ((ucast b :: u32) AND 0x07) = unat b mod 8" by (rule lead_bits)+
    have m: "unat b mod 32 < 32" "unat b mod 16 < 16" "unat b mod 8 < 8" by simp_all
    have t1: "valid_utf8_loop (Mem xs) i = Some (utf8_ok (b # bs))" if "\<not> unat b < 128" "unat b div 32 = 6"
      using start tail [where cp = "ucast b AND 0x1F" and n = 1 and m = 128] m(1) that by (simp add: utf8_ok_tail utf8_lead_nat v del: utf8_ok.simps cong: option.case_cong)
    have t2: "valid_utf8_loop (Mem xs) i = Some (utf8_ok (b # bs))" if "\<not> unat b < 128" "unat b div 32 \<noteq> 6" "unat b div 16 = 14"
      using start tail [where cp = "ucast b AND 0x0F" and n = 2 and m = 2048] m(2) that by (simp add: utf8_ok_tail utf8_lead_nat v del: utf8_ok.simps cong: option.case_cong)
    have t3: "valid_utf8_loop (Mem xs) i = Some (utf8_ok (b # bs))"
      if "\<not> unat b < 128" "unat b div 32 \<noteq> 6" "unat b div 16 \<noteq> 14" "unat b div 8 = 30"
      using start tail [where cp = "ucast b AND 0x07" and n = 3 and m = 65536] m(3) that by (simp add: utf8_ok_tail utf8_lead_nat v del: utf8_ok.simps cong: option.case_cong)
    have t4: "valid_utf8_loop (Mem xs) i = Some (utf8_ok (b # bs))"
      if "\<not> unat b < 128" "unat b div 32 \<noteq> 6" "unat b div 16 \<noteq> 14" "unat b div 8 \<noteq> 30"
      using start that by (simp add: utf8_ok_tail utf8_lead_nat del: utf8_ok.simps)
    show ?thesis unfolding Cons
    proof (cases "unat b < 128")
      case True
      then show "valid_utf8_loop (Mem xs) i = Some (utf8_ok (b # bs))" using start next_ok by simp
    qed (use t1 t2 t3 t4 in blast)
  qed
qed

text \<open>The decoder accepts exactly the encodings of sequences of admissible code points.\<close>

lemma lead_byte: "n < 256 \<Longrightarrow> unat (of_nat n :: u8) = n"
  by (simp only: unat_of_nat) simp

lemma lead_digits: "q < m \<Longrightarrow> (k * m + q) div m = k \<and> (k * m + q) mod m = q" for q m k :: nat
  by simp

lemma cont_byte: "d < 64 \<Longrightarrow> cont (of_nat (0x80 + d)) \<and> low6 (of_nat (0x80 + d)) = d"
  using lead_digits [of d 64 2] lead_byte [of "0x80 + d"] by (simp only: cont_def low6_def) simp

lemma div_64:
  "c div 4096 = c div 64 div 64" "c div 262144 = c div 64 div 64 div 64" "c div 4096 mod 64 = c div 64 div 64 mod 64" for c :: nat
  by (simp_all add: div_mult2_eq [symmetric])

lemma digits_64:
  "(c div 4096 * 64 + c div 64 mod 64) * 64 + c mod 64 = c"
  "((c div 262144 * 64 + c div 4096 mod 64) * 64 + c div 64 mod 64) * 64 + c mod 64 = c" for c :: nat
  by (simp_all only: div_64 div_mult_mod_eq)

lemma utf8_ok_encode:
  assumes "topic_char c"
  shows "utf8_ok (utf8_encode c @ rest) = utf8_ok rest"
proof -
  have c: "0 < c" "c \<le> 0x10FFFF" using assms by (simp_all add: topic_char_def)
  consider "c < 0x80" | "0x80 \<le> c" "c < 0x800" | "0x800 \<le> c" "c < 0x10000" | "0x10000 \<le> c" by linarith
  then show ?thesis
  proof cases
    case 1
    then show ?thesis using c lead_byte [of c] by (simp add: utf8_encode_def)
  next
    case 2
    then have d: "c div 64 < 32" by (simp add: div_less_iff_less_mult)
    have n: "unat (of_nat (0xC0 + c div 64) :: u8) = 0xC0 + c div 64" using d by (intro lead_byte) simp
    have "(0xC0 + c div 64) div 32 = 6" "(0xC0 + c div 64) mod 32 = c div 64" using lead_digits [OF d, of 6] by simp_all
    with 2 assms show ?thesis using cont_byte [of "c mod 64"]
      by (simp add: utf8_encode_def n Let_def del: of_nat_add)
  next
    case 3
    then have d: "c div 4096 < 16" by (simp add: div_less_iff_less_mult)
    have n: "unat (of_nat (0xE0 + c div 4096) :: u8) = 0xE0 + c div 4096" using d by (intro lead_byte) simp
    have "(0xE0 + c div 4096) div 32 = 7" "(0xE0 + c div 4096) div 16 = 14" "(0xE0 + c div 4096) mod 16 = c div 4096"
      using lead_digits [of "c div 4096" 32 7] lead_digits [OF d, of 14] d by simp_all
    with 3 assms show ?thesis using digits_64 [of c] cont_byte [of "c mod 64"] cont_byte [of "c div 64 mod 64"]
      by (simp add: utf8_encode_def n Let_def del: of_nat_add)
  next
    case 4
    have d: "c div 262144 < 8" using c by (simp add: div_less_iff_less_mult)
    have n: "unat (of_nat (0xF0 + c div 262144) :: u8) = 0xF0 + c div 262144" using d by (intro lead_byte) simp
    have "(0xF0 + c div 262144) div 32 = 7" "(0xF0 + c div 262144) div 16 = 15" "(0xF0 + c div 262144) div 8 = 30"
      "(0xF0 + c div 262144) mod 8 = c div 262144"
      using lead_digits [of "c div 262144" 32 7] lead_digits [of "c div 262144" 16 15] lead_digits [OF d, of 30] d by simp_all
    with 4 assms show ?thesis using digits_64 [of c] cont_byte [of "c mod 64"] cont_byte [of "c div 64 mod 64"] cont_byte [of "c div 4096 mod 64"]
      by (simp add: utf8_encode_def n Let_def del: of_nat_add)
  qed
qed

lemma utf8_text_append: "topic_char c \<Longrightarrow> utf8_encode c = us \<Longrightarrow> utf8_text ys \<Longrightarrow> utf8_text (us @ ys)"
proof -
  assume c: "topic_char c" "utf8_encode c = us" and "utf8_text ys"
  then obtain cs where "\<forall>c \<in> set cs. topic_char c" "ys = concat (map utf8_encode cs)" by (auto simp: utf8_text_def)
  with c show ?thesis unfolding utf8_text_def by (intro exI [of _ "c # cs"]) simp
qed

lemma cont_digit: "cont c \<Longrightarrow> of_nat (0x80 + low6 c) = c"
  and lead_digit: "unat b div m = k \<Longrightarrow> of_nat (k * m + unat b mod m) = b"
proof -
  assume "cont c"
  then have "0x80 + low6 c = unat c" using div_mult_mod_eq [of "unat c" 64] by (simp add: cont_def low6_def)
  then show "of_nat (0x80 + low6 c) = c" by (metis of_nat_unat ucast_id)
next
  assume "unat b div m = k"
  then show "of_nat (k * m + unat b mod m) = b" by (metis div_mult_mod_eq of_nat_unat ucast_id)
qed

lemma digit_parts: "d < 64 \<Longrightarrow> (a * 64 + d) div 64 = a \<and> (a * 64 + d) mod 64 = d" for a d :: nat
  by simp

lemma three_digits: "a < 16 \<Longrightarrow> l < 64 \<Longrightarrow> m < 64 \<Longrightarrow> (a * 64 + l) * 64 + m < 65536" for a l m :: nat
  by simp

lemma utf8_ok_sound: "utf8_ok xs \<Longrightarrow> utf8_text xs"
proof (induction "length xs" arbitrary: xs rule: less_induct)
  case less
  show ?case
  proof (cases xs)
    case Nil
    then show ?thesis by (auto simp: utf8_text_def intro: exI [of _ "[]"])
  next
    case (Cons b bs)
    let ?n = "unat b"
    note ok = less.prems [unfolded Cons]
    consider "?n < 128" | "\<not> ?n < 128" "?n div 32 = 6" | "\<not> ?n < 128" "?n div 32 \<noteq> 6" "?n div 16 = 14"
      | "\<not> ?n < 128" "?n div 32 \<noteq> 6" "?n div 16 \<noteq> 14" "?n div 8 = 30" using ok by (auto simp: Let_def split: if_splits)
    then show ?thesis
    proof cases
      case 1
      then have "utf8_text bs" "topic_char ?n" using ok less.hyps [of bs] by (auto simp: Cons topic_char_def Let_def)
      moreover have "utf8_encode ?n = [b]" using 1 by (simp add: utf8_encode_def)
      ultimately show ?thesis using utf8_text_append [of ?n "[b]" bs] by (simp add: Cons)
    next
      case 2
      then obtain c1 cs where bs: "bs = c1 # cs" "cont c1" "utf8_ok cs" using ok by (auto simp: Let_def split: list.splits)
      let ?v = "?n mod 32 * 64 + low6 c1"
      have v: "0x80 \<le> ?v" "topic_char ?v" using ok 2 bs(1) by (simp_all add: Let_def)
      have parts: "?v div 64 = ?n mod 32" "?v mod 64 = low6 c1" using digit_parts [OF low6_less] by blast+
      have "?n mod 32 < 32" by simp
      then have "?v < 0x800" using low6_less [of c1] by linarith
      with v(1) have "utf8_encode ?v = [b, c1]"
        using cont_digit [OF bs(2)] lead_digit [OF 2(2)] unfolding utf8_encode_def parts by simp
      moreover have "utf8_text cs" using less.hyps [of cs] bs by (simp add: Cons)
      ultimately show ?thesis using utf8_text_append [OF v(2), of "[b, c1]" cs] by (simp add: Cons bs(1))
    next
      case 3
      then obtain c1 c2 cs where bs: "bs = c1 # c2 # cs" "cont c1" "cont c2" "utf8_ok cs" using ok by (auto simp: Let_def split: list.splits)
      let ?u = "?n mod 16 * 64 + low6 c1"
      let ?v = "?u * 64 + low6 c2"
      have v: "0x800 \<le> ?v" "topic_char ?v" using ok 3 bs(1) by (simp_all add: Let_def)
      have parts: "?v div 64 = ?u" "?v mod 64 = low6 c2" "?u div 64 = ?n mod 16" "?u mod 64 = low6 c1"
        using digit_parts [OF low6_less] by blast+
      have "?v < 0x10000" using three_digits [of "?n mod 16" "low6 c1" "low6 c2"] low6_less by simp
      with v(1) have "utf8_encode ?v = [b, c1, c2]"
        using cont_digit [OF bs(2)] cont_digit [OF bs(3)] lead_digit [OF 3(3)] unfolding utf8_encode_def div_64 parts by simp
      moreover have "utf8_text cs" using less.hyps [of cs] bs by (simp add: Cons)
      ultimately show ?thesis using utf8_text_append [OF v(2), of "[b, c1, c2]" cs] by (simp add: Cons bs(1))
    next
      case 4
      then obtain c1 c2 c3 cs where bs: "bs = c1 # c2 # c3 # cs" "cont c1" "cont c2" "cont c3" "utf8_ok cs"
        using ok by (auto simp: Let_def split: list.splits)
      let ?t = "?n mod 8 * 64 + low6 c1"
      let ?u = "?t * 64 + low6 c2"
      let ?v = "?u * 64 + low6 c3"
      have v: "0x10000 \<le> ?v" "topic_char ?v" using ok 4 bs(1) by (simp_all add: Let_def)
      have parts: "?v div 64 = ?u" "?v mod 64 = low6 c3" "?u div 64 = ?t" "?u mod 64 = low6 c2" "?t div 64 = ?n mod 8" "?t mod 64 = low6 c1"
        using digit_parts [OF low6_less] by blast+
      have "utf8_encode ?v = [b, c1, c2, c3]"
        using v(1) cont_digit [OF bs(2)] cont_digit [OF bs(3)] cont_digit [OF bs(4)] lead_digit [OF 4(4)]
        unfolding utf8_encode_def div_64 parts by simp
      moreover have "utf8_text cs" using less.hyps [of cs] bs by (simp add: Cons)
      ultimately show ?thesis using utf8_text_append [OF v(2), of "[b, c1, c2, c3]" cs] by (simp add: Cons bs(1))
    qed
  qed
qed

lemma utf8_ok_iff: "utf8_ok xs = utf8_text xs"
proof
  assume "utf8_text xs"
  then obtain cs where "\<forall>c \<in> set cs. topic_char c" "xs = concat (map utf8_encode cs)" by (auto simp: utf8_text_def)
  then show "utf8_ok xs" by (induction cs arbitrary: xs) (auto simp: utf8_ok_encode)
qed (rule utf8_ok_sound)

section \<open>What filters mean\<close>

text \<open>A topic is the list of its levels; a filter level is \<open>+\<close>, any one level, a final \<open>#\<close>, any further levels
  and also none, or itself.\<close>

fun levels :: "u8 list \<Rightarrow> u8 list list" where
  "levels [] = [[]]"
| "levels (c # cs) = (if c = slash then [] # levels cs else (c # hd (levels cs)) # tl (levels cs))"

fun levels_match :: "u8 list list \<Rightarrow> u8 list list \<Rightarrow> bool" where
  "levels_match [] ts = (ts = [])"
| "levels_match (f # fs) ts =
     (f = [hash_sign] \<or> (case ts of [] \<Rightarrow> False | t # ts \<Rightarrow> (f = [plus_sign] \<or> f = t) \<and> levels_match fs ts))"

fun levels_valid :: "u8 list list \<Rightarrow> bool" where
  "levels_valid [] = True"
| "levels_valid (l # ls) = ((plus_sign \<in> set l \<longrightarrow> l = [plus_sign]) \<and> (hash_sign \<in> set l \<longrightarrow> l = [hash_sign] \<and> ls = []) \<and> levels_valid ls)"

lemma levels_last: "slash \<notin> set l \<Longrightarrow> levels l = [l]"
  by (induction l) auto

lemma levels_append: "slash \<notin> set l \<Longrightarrow> levels (l @ slash # r) = l # levels r"
  by (induction l) auto

lemma levels_first: "levels xs = takeWhile (\<lambda>c. c \<noteq> slash) xs #
    (case dropWhile (\<lambda>c. c \<noteq> slash) xs of [] \<Rightarrow> [] | _ # r \<Rightarrow> levels r)"
  by (induction xs) auto

lemma levels_nonempty [simp]: "levels xs \<noteq> []"
  by (subst levels_first) simp

lemma levels_single: "levels xs = [l] \<Longrightarrow> xs = l"
proof -
  assume a: "levels xs = [l]"
  then have "dropWhile (\<lambda>c. c \<noteq> slash) xs = []" by (subst (asm) levels_first) (auto split: list.splits)
  then have "takeWhile (\<lambda>c. c \<noteq> slash) xs = xs" by (metis append_Nil2 takeWhile_dropWhile_id)
  with a show "xs = l" by (subst (asm) levels_first) (auto split: list.splits)
qed

lemma wildcard_loop_ok: "i \<le> length xs \<Longrightarrow> wildcard_loop (Mem xs) i =
    Some (if plus_sign \<in> set (drop i xs) \<or> hash_sign \<in> set (drop i xs) then status_invalid_argument else status_ok)"
proof (induction "length xs - i" arbitrary: i)
  case 0
  then show ?case by (subst wildcard_loop.simps) simp
next
  case (Suc n)
  then have i: "i < length xs" by simp
  have "wildcard_loop (Mem xs) (i + 1) =
      Some (if plus_sign \<in> set (drop (i + 1) xs) \<or> hash_sign \<in> set (drop (i + 1) xs) then status_invalid_argument else status_ok)"
    using Suc.hyps i by simp
  then show ?case using i by (subst wildcard_loop.simps) (auto simp: Cons_nth_drop_Suc [symmetric])
qed

lemma level_loop_ok: "j \<le> i \<Longrightarrow> i \<le> length xs \<Longrightarrow> level_loop (Mem xs) n i j =
    Some (\<forall>c \<in> set (take (i - j) (drop j xs)). (c = plus_sign \<longrightarrow> n = 1) \<and> (c = hash_sign \<longrightarrow> n = 1 \<and> i = length xs))"
proof (induction "i - j" arbitrary: j)
  case 0
  then show ?case by (subst level_loop.simps) simp
next
  case (Suc m)
  then have j: "j < i" "j < length xs" by simp_all
  have IH: "level_loop (Mem xs) n i (Suc j) =
      Some (\<forall>c \<in> set (take (i - Suc j) (drop (Suc j) xs)). (c = plus_sign \<longrightarrow> n = 1) \<and> (c = hash_sign \<longrightarrow> n = 1 \<and> i = length xs))"
    using Suc.hyps(1) [of "Suc j"] Suc.hyps(2) Suc.prems(2) j by simp
  have "take (i - j) (drop j xs) = xs ! j # take (i - Suc j) (drop (Suc j) xs)"
    using j by (simp add: Cons_nth_drop_Suc [symmetric] Suc_diff_Suc [symmetric] del: Suc_diff_Suc)
  with j IH show ?case by (subst level_loop.simps) auto
qed

lemma level_check: "(\<forall>c \<in> set l. (c = plus_sign \<longrightarrow> length l = 1) \<and> (c = hash_sign \<longrightarrow> length l = 1 \<and> e)) =
    ((plus_sign \<in> set l \<longrightarrow> l = [plus_sign]) \<and> (hash_sign \<in> set l \<longrightarrow> l = [hash_sign] \<and> e))"
proof (cases l)
  case (Cons a as)
  then show ?thesis by (cases as) auto
qed simp

lemma filter_loop_ok:
  assumes "start \<le> i" and "i \<le> length xs" and "slash \<notin> set (take (i - start) (drop start xs))"
  shows "filter_loop (Mem xs) i start =
    Some (if levels_valid (levels (drop start xs)) then status_ok else status_invalid_argument)"
  using assms
proof (induction "length xs - i" arbitrary: i start)
  case 0
  then have i: "i = length xs" and l: "take (i - start) (drop start xs) = drop start xs" by simp_all
  let ?l = "drop start xs"
  have lev: "levels ?l = [?l]" using 0 by (simp add: levels_last)
  have "level_loop (Mem xs) (i - start) i start = Some (levels_valid [?l])"
    using level_loop_ok [of start i xs "i - start"] level_check [of ?l True] l i "0.prems"(1) by simp
  moreover have "filter_loop (Mem xs) (Suc i) (Suc i) = Some status_ok" using i by (subst filter_loop.simps) simp
  ultimately show ?case using i by (subst filter_loop.simps) (simp add: lev)
next
  case (Suc n)
  then have i: "i < length xs" by simp
  let ?l = "take (i - start) (drop start xs)"
  have split: "drop start xs = ?l @ xs ! i # drop (Suc i) xs"
  proof -
    have "drop (i - start) (drop start xs) = xs ! i # drop (Suc i) xs" using i Suc.prems(1) by (simp add: Cons_nth_drop_Suc)
    then show ?thesis using append_take_drop_id [of "i - start" "drop start xs"] by simp
  qed
  have len: "length ?l = i - start" using i Suc.prems(1) by simp
  show ?case
  proof (cases "xs ! i = slash")
    case True
    have lev: "levels (drop start xs) = ?l # levels (drop (Suc i) xs)"
      using levels_append [OF Suc.prems(3)] by (subst split) (simp add: True)
    have chk: "level_loop (Mem xs) (i - start) i start = Some ((plus_sign \<in> set ?l \<longrightarrow> ?l = [plus_sign]) \<and> hash_sign \<notin> set ?l)"
      using level_loop_ok [of start i xs "i - start"] level_check [of ?l False] len i Suc.prems(1) by simp
    have "filter_loop (Mem xs) (i + 1) (i + 1) =
        Some (if levels_valid (levels (drop (Suc i) xs)) then status_ok else status_invalid_argument)"
      using Suc.hyps(1) [of "i + 1" "i + 1"] Suc.hyps(2) i by simp
    then show ?thesis
      using i True unfolding lev by (subst filter_loop.simps) (auto simp: chk)
  next
    case False
    have "take (Suc i - start) (drop start xs) = ?l @ [xs ! i]"
      using i Suc.prems(1) by (simp add: Suc_diff_le take_Suc_conv_app_nth)
    then show ?thesis using Suc.hyps(1) [of "i + 1" start] Suc.hyps(2) Suc.prems i False
      by (subst filter_loop.simps) simp
  qed
qed

lemma level_end_ok: "i \<le> length xs \<Longrightarrow> level_end (Mem xs) i = Some (i + length (takeWhile (\<lambda>c. c \<noteq> slash) (drop i xs)))"
proof (induction "length xs - i" arbitrary: i)
  case 0
  then show ?case by (subst level_end.simps) simp
next
  case (Suc n)
  then have i: "i < length xs" by simp
  have "level_end (Mem xs) (i + 1) = Some (i + 1 + length (takeWhile (\<lambda>c. c \<noteq> slash) (drop (i + 1) xs)))"
    using Suc.hyps i by simp
  then show ?case using i by (subst level_end.simps) (simp add: Cons_nth_drop_Suc [symmetric])
qed

lemma equal_loop_ok:
  assumes "fi + n \<le> length f" and "ti + n \<le> length t"
  shows "k \<le> n \<Longrightarrow> equal_loop (Mem f) fi (Mem t) ti k n = Some (take (n - k) (drop (fi + k) f) = take (n - k) (drop (ti + k) t))"
proof (induction "n - k" arbitrary: k)
  case 0
  then show ?case by (subst equal_loop.simps) simp
next
  case (Suc m)
  then have k: "k < n" by simp
  have IH: "equal_loop (Mem f) fi (Mem t) ti (Suc k) n =
      Some (take (n - Suc k) (drop (fi + Suc k) f) = take (n - Suc k) (drop (ti + Suc k) t))"
    using Suc.hyps(1) [of "Suc k"] Suc.hyps(2) k by simp
  have "n - k = Suc (n - Suc k)" using k by simp
  moreover have "drop (fi + k) f = f ! (fi + k) # drop (fi + Suc k) f" "drop (ti + k) t = t ! (ti + k) # drop (ti + Suc k) t"
    using k assms by (simp_all add: Cons_nth_drop_Suc)
  ultimately show ?case using k assms IH by (subst equal_loop.simps) auto
qed

lemma level_split:
  assumes "drop i xs \<noteq> []"
  defines "e \<equiv> i + length (takeWhile (\<lambda>c. c \<noteq> slash) (drop i xs))"
  shows "e \<le> length xs" and "takeWhile (\<lambda>c. c \<noteq> slash) (drop i xs) = take (e - i) (drop i xs)"
    and "levels (drop i xs) = take (e - i) (drop i xs) # (if e < length xs then levels (drop (e + 1) xs) else [])"
proof -
  let ?l = "takeWhile (\<lambda>c. c \<noteq> slash) (drop i xs)"
  have len: "length ?l \<le> length xs - i" using length_takeWhile_le [of "\<lambda>c. c \<noteq> slash" "drop i xs"] by simp
  then show e: "e \<le> length xs" using assms by simp
  show t: "?l = take (e - i) (drop i xs)" using takeWhile_eq_take [of "\<lambda>c. c \<noteq> slash" "drop i xs"] by (simp add: e_def)
  have d: "dropWhile (\<lambda>c. c \<noteq> slash) (drop i xs) = drop e xs"
    by (simp add: dropWhile_eq_drop e_def add.commute)
  have "(case drop e xs of [] \<Rightarrow> [] | _ # r \<Rightarrow> levels r) = (if e < length xs then levels (drop (e + 1) xs) else [])"
    by (cases "drop e xs") (auto dest: drop_Cons)
  then show "levels (drop i xs) = take (e - i) (drop i xs) # (if e < length xs then levels (drop (e + 1) xs) else [])"
    using levels_first [of "drop i xs"] t d by simp
qed

lemma levels_Nil_iff: "levels xs = [[]] \<longleftrightarrow> xs = []"
  using levels_single [of xs "[]"] by auto

lemma match_single_empty: "levels_match [[]] (levels xs) \<longleftrightarrow> xs = []"
  using levels_Nil_iff [of xs] by (cases "levels xs") auto

lemma topic_loop_ok:
  "fi \<le> length f \<Longrightarrow> ti \<le> length t \<Longrightarrow> levels_valid (levels (drop fi f)) \<Longrightarrow>
   topic_loop (Mem f) (Mem t) fi ti = Some (levels_match (levels (drop fi f)) (levels (drop ti t)))"
proof (induction "length f - fi" arbitrary: fi ti rule: less_induct)
  case less
  show ?case
  proof (cases "fi < length f")
    case False
    then show ?thesis using less.prems(1,2) match_single_empty [of "drop ti t"] by (subst topic_loop.simps) auto
  next
    case True
    define c where "c = f ! fi"
    define fe te where "fe = fi + length (takeWhile (\<lambda>c. c \<noteq> slash) (drop fi f))"
      and "te = ti + length (takeWhile (\<lambda>c. c \<noteq> slash) (drop ti t))"
    define a b where "a = take (fe - fi) (drop fi f)" and "b = take (te - ti) (drop ti t)"
    have ne: "drop fi f \<noteq> []" using True by simp
    have F1: "levels (drop fi f) = a # (if fe < length f then levels (drop (fe + 1) f) else [])"
      unfolding a_def by (rule level_split(3) [OF ne, folded fe_def])
    have F2: "fe \<le> length f" by (rule level_split(1) [OF ne, folded fe_def])
    have F3: "fi \<le> fe" by (simp add: fe_def)
    note F = F1 F2 F3
    have T: "levels (drop ti t) = b # (if te < length t then levels (drop (te + 1) t) else [])" "te \<le> length t" "ti \<le> te"
    proof -
      show "ti \<le> te" by (simp add: te_def)
      show "te \<le> length t" using length_takeWhile_le [of "\<lambda>c. c \<noteq> slash" "drop ti t"] less.prems(2) by (simp add: te_def)
      show "levels (drop ti t) = b # (if te < length t then levels (drop (te + 1) t) else [])"
      proof (cases "ti = length t")
        case True
        then have "te = ti" by (simp add: te_def)
        with True show ?thesis by (simp add: b_def)
      next
        case False
        then have "drop ti t \<noteq> []" using less.prems(2) by simp
        from level_split(3) [OF this, folded te_def] show ?thesis unfolding b_def .
      qed
    qed
    have la: "length a = fe - fi" and lb: "length b = te - ti" using F(2,3) T(2,3) by (simp_all add: a_def b_def)
    have ends: "level_end (Mem f) fi = Some fe" "level_end (Mem t) ti = Some te"
      using level_end_ok less.prems(1,2) by (simp_all add: fe_def te_def)
    have head: "drop fi f = c # drop (Suc fi) f" using True by (simp add: c_def Cons_nth_drop_Suc)
    show ?thesis
    proof (cases "c = hash_sign")
      case True
      have "hash_sign \<noteq> slash" by (simp add: hash_sign_def slash_def)
      then have "hash_sign \<in> set (takeWhile (\<lambda>c. c \<noteq> slash) (drop fi f))" using True head by simp
      then have "hash_sign \<in> set a" using level_split(2) [OF ne, folded fe_def] by (simp add: a_def)
      then have "a = [hash_sign]" using less.prems(3) F(1) by simp
      then show ?thesis using True \<open>fi < length f\<close> F(1) by (subst topic_loop.simps) (simp add: c_def)
    next
      case False
      have ahd: "a = [x] \<Longrightarrow> x = c" for x using head la by (auto simp: a_def take_Cons split: nat.splits)
      have any: "(fe - fi = 1 \<and> c = plus_sign) = (a = [plus_sign])"
        using ahd la by (cases a; cases "tl a") auto
      have nohash: "a \<noteq> [hash_sign]" using ahd False by auto
      have eq: "equal_loop (Mem f) fi (Mem t) ti 0 (fe - fi) = Some (a = b)" if "fe - fi = te - ti"
        using equal_loop_ok [of fi "fe - fi" f ti t 0] F(2,3) T(2,3) that by (simp add: a_def b_def)
      have same: "(if fe - fi = 1 \<and> c = plus_sign then Some True else if fe - fi \<noteq> te - ti then Some False
          else equal_loop (Mem f) fi (Mem t) ti 0 (fe - fi)) = Some (a = [plus_sign] \<or> a = b)"
        unfolding any using eq la lb by auto
      have start: "topic_loop (Mem f) (Mem t) fi ti =
         (if \<not> (a = [plus_sign] \<or> a = b) then Some False
          else if \<not> fe < length f then Some (\<not> te < length t)
          else if \<not> te < length t then
            (if fe + 2 = length f then do { d \<leftarrow> rd (Mem f) (fe + 1); Some (d = hash_sign) } else Some False)
          else topic_loop (Mem f) (Mem t) (fe + 1) (te + 1))"
        using \<open>fi < length f\<close> False same by (subst topic_loop.simps) (simp add: Let_def c_def [symmetric] ends)
      show ?thesis
      proof (cases "fe < length f")
        case False
        then show ?thesis using start F(1) T(1) nohash by (cases "te < length t") auto
      next
        case fe: True
        have valid: "levels_valid (levels (drop (fe + 1) f))" using less.prems(3) F(1) fe by simp
        show ?thesis
        proof (cases "te < length t")
          case True
          have "topic_loop (Mem f) (Mem t) (fe + 1) (te + 1) =
              Some (levels_match (levels (drop (fe + 1) f)) (levels (drop (te + 1) t)))"
            using less.hyps [of "fe + 1" "te + 1"] fe True F(3) valid by simp
          then show ?thesis using start F(1) T(1) nohash fe True by auto
        next
          case te: False
          obtain l ls where l: "levels (drop (fe + 1) f) = l # ls" by (cases "levels (drop (fe + 1) f)") auto
          have "levels_match (l # ls) [] = (l = [hash_sign])" by simp
          also have "\<dots> = (drop (fe + 1) f = [hash_sign])"
          proof
            assume "l = [hash_sign]"
            with l valid have "levels (drop (fe + 1) f) = [[hash_sign]]" by simp
            then show "drop (fe + 1) f = [hash_sign]" by (rule levels_single)
          next
            assume h: "drop (fe + 1) f = [hash_sign]"
            have "levels [hash_sign] = [[hash_sign]]" by (rule levels_last) (simp add: hash_sign_def slash_def)
            then show "l = [hash_sign]" using l unfolding h by simp
          qed
          also have "\<dots> = (fe + 2 = length f \<and> f ! (fe + 1) = hash_sign)"
          proof
            assume h: "drop (fe + 1) f = [hash_sign]"
            then have "length (drop (fe + 1) f) = 1" by simp
            then show "fe + 2 = length f \<and> f ! (fe + 1) = hash_sign" using drop_Cons [OF h] by simp
          next
            assume "fe + 2 = length f \<and> f ! (fe + 1) = hash_sign"
            then show "drop (fe + 1) f = [hash_sign]" by (subst Cons_nth_drop_Suc [symmetric]) auto
          qed
          finally show ?thesis using start F(1) T(1) nohash fe te l by auto
        qed
      qed
    qed
  qed
qed

section \<open>What topics promise\<close>

text \<open>C26: the UTF-8 validator never reads outside the string, ends, and accepts exactly the encodings of
  sequences of code points that a topic may contain: every encoding in its shortest form, no NUL, no
  surrogate, no noncharacter, nothing above U+10FFFF.\<close>

theorem valid_utf8_exact: "valid_utf8 (Mem xs) = Some (utf8_text xs)"
  using valid_utf8_loop_ok [of 0 xs] by (simp add: valid_utf8_def utf8_ok_iff)

text \<open>Names that begin with \<open>$\<close> are hidden from filters that do not.\<close>

definition system_topic_hidden :: "u8 list \<Rightarrow> u8 list \<Rightarrow> bool" where
  "system_topic_hidden f t \<longleftrightarrow> hd t = dollar \<and> hd f \<noteq> dollar"

text \<open>C27: a topic name matches a filter exactly when both are well-formed, a name that begins with \<open>$\<close> is not
  reached by a wildcard, and the levels agree: \<open>+\<close> stands for one level, a final \<open>#\<close> for all that follow
  and for none.\<close>

theorem topic_matches_levels:
  "topic_matches (Mem f) (Mem t) = Some (
     f \<noteq> [] \<and> utf8_text f \<and> levels_valid (levels f) \<and>
     t \<noteq> [] \<and> utf8_text t \<and> plus_sign \<notin> set t \<and> hash_sign \<notin> set t \<and>
     \<not> system_topic_hidden f t \<and> levels_match (levels f) (levels t))"
proof -
  have utf8: "valid_utf8 (Mem xs) = Some (utf8_text xs)" for xs
    using valid_utf8_loop_ok [of 0 xs] by (simp add: valid_utf8_def utf8_ok_iff)
  have f: "validate_topic_filter (Mem f) =
      Some (if f \<noteq> [] \<and> utf8_text f \<and> levels_valid (levels f) then status_ok else status_invalid_argument)"
    using filter_loop_ok [of 0 0 f] by (simp add: validate_topic_filter_def utf8)
  have t: "validate_topic_name (Mem t) =
      Some (if t \<noteq> [] \<and> utf8_text t \<and> plus_sign \<notin> set t \<and> hash_sign \<notin> set t then status_ok else status_invalid_argument)"
    using wildcard_loop_ok [of 0 t] by (simp add: validate_topic_name_def utf8)
  show ?thesis
  proof (cases "f \<noteq> [] \<and> utf8_text f \<and> levels_valid (levels f)")
    case False
    then show ?thesis by (auto simp: topic_matches_def f succeeded_def)
  next
    case True
    then have loop: "topic_loop (Mem f) (Mem t) 0 0 = Some (levels_match (levels f) (levels t))"
      using topic_loop_ok [of 0 f 0 t] by simp
    show ?thesis
    proof (cases "t \<noteq> [] \<and> utf8_text t \<and> plus_sign \<notin> set t \<and> hash_sign \<notin> set t")
      case False
      then show ?thesis using True by (auto simp: topic_matches_def f t succeeded_def)
    next
      case name: True
      have "rd (Mem f) 0 = Some (hd f)" "rd (Mem t) 0 = Some (hd t)" using True name by (simp_all add: hd_conv_nth)
      with True name show ?thesis by (simp add: topic_matches_def f t succeeded_def loop system_topic_hidden_def del: rd.simps)
    qed
  qed
qed

end
