(* ===== verification/Ubx.thy ===== *)
theory Ubx
  imports Bytes
begin

text \<open>
  The framing layer of \<open>castle_ext/protocols/ubx/ubx.hpp\<close>: message header, Fletcher-8 checksum
  accumulator, non-owning message view, \<open>encode_frame\<close> and \<open>decode_frame\<close>.  A payload view is a
  pointer with its size (\<open>Null 0\<close> is the default-constructed view); a view over part of the frame
  buffer is the list of the bytes it covers.  The outer \<open>None\<close> is an access outside a buffer.
\<close>

section \<open>Data\<close>

definition UBX_SYNC_CHAR_1 :: u8 where "UBX_SYNC_CHAR_1 = 0xB5"
definition UBX_SYNC_CHAR_2 :: u8 where "UBX_SYNC_CHAR_2 = 0x62"
definition UBX_MAX_PAYLOAD_LEN :: u16 where "UBX_MAX_PAYLOAD_LEN = 0xFFFF"
definition UBX_FRAME_OVERHEAD :: nat where "UBX_FRAME_OVERHEAD = 8"
definition UBX_FRAME_INDEX_PAYLOAD :: nat where "UBX_FRAME_INDEX_PAYLOAD = 6"

record message_header =
  msg_class :: u8
  msg_id :: u8
  payload_length :: u16

record checksum =
  ck_a :: u8
  ck_b :: u8

record message_view =
  header :: message_header
  payload :: "u8 ptr"
  check :: checksum

definition message_header_init :: message_header where
  "message_header_init = \<lparr>msg_class = 0, msg_id = 0, payload_length = 0\<rparr>"

definition message_view_init :: message_view where
  "message_view_init = \<lparr>header = message_header_init, payload = Null 0, check = \<lparr>ck_a = 0, ck_b = 0\<rparr>\<rparr>"

definition message_view_is :: "message_view \<Rightarrow> u8 \<Rightarrow> u8 \<Rightarrow> bool" where
  "message_view_is m c i = (msg_class (header m) = c \<and> msg_id (header m) = i)"

definition message_view_key :: "message_view \<Rightarrow> u16" where
  "message_view_key m = push_bit 8 (ucast (msg_class (header m))) OR ucast (msg_id (header m))"

section \<open>Checksum\<close>

record checksum_accumulator =
  acc_a :: u8
  acc_b :: u8

definition checksum_reset :: checksum_accumulator where
  "checksum_reset = \<lparr>acc_a = 0, acc_b = 0\<rparr>"

definition checksum_update :: "u8 \<Rightarrow> checksum_accumulator \<Rightarrow> checksum_accumulator" where
  "checksum_update v acc = (let a = acc_a acc + v in \<lparr>acc_a = a, acc_b = acc_b acc + a\<rparr>)"

definition checksum_value :: "checksum_accumulator \<Rightarrow> checksum" where
  "checksum_value acc = \<lparr>ck_a = acc_a acc, ck_b = acc_b acc\<rparr>"

function checksum_loop :: "u8 ptr \<Rightarrow> nat \<Rightarrow> nat \<Rightarrow> checksum_accumulator \<Rightarrow> checksum_accumulator option" where
  "checksum_loop data n i acc =
     (if i < n then do { b \<leftarrow> rd data i; checksum_loop data n (Suc i) (checksum_update b acc) }
      else Some acc)"
  by pat_completeness auto
termination
  by (relation "measure (\<lambda>(_, n, i, _). n - i)") auto

declare checksum_loop.simps [simp del]

definition compute_checksum :: "u8 ptr \<Rightarrow> checksum option" where
  "compute_checksum data = map_option checksum_value (checksum_loop data (psize data) 0 checksum_reset)"

definition compute_frame_checksum :: "u8 \<Rightarrow> u8 \<Rightarrow> u16 \<Rightarrow> u8 ptr \<Rightarrow> checksum option" where
  "compute_frame_checksum c i len pl =
     (let acc = checksum_update c checksum_reset;
          acc = checksum_update i acc;
          acc = checksum_update (ucast (len AND 0xFF)) acc;
          acc = checksum_update (ucast (drop_bit 8 len AND 0xFF)) acc
      in map_option checksum_value (checksum_loop pl (psize pl) 0 acc))"

section \<open>Frames\<close>

definition frame_size :: "nat \<Rightarrow> nat" where
  "frame_size n = usz (n + UBX_FRAME_OVERHEAD)"

function copy_loop :: "u8 ptr \<Rightarrow> nat \<Rightarrow> nat \<Rightarrow> nat \<Rightarrow> u8 ptr \<Rightarrow> u8 ptr option" where
  "copy_loop src n off i dst =
     (if i < n then do { b \<leftarrow> rd src i; dst \<leftarrow> put dst (off + i) b; copy_loop src n off (Suc i) dst }
      else Some dst)"
  by pat_completeness auto
termination
  by (relation "measure (\<lambda>(_, n, _, i, _). n - i)") auto

declare copy_loop.simps [simp del]

definition encode_frame :: "u8 \<Rightarrow> u8 \<Rightarrow> u8 ptr \<Rightarrow> u8 ptr \<Rightarrow> (status \<times> nat \<times> u8 ptr) option" where
  "encode_frame c mid pl out =
     (if psize pl > unat UBX_MAX_PAYLOAD_LEN then Some (status_out_of_range, 0, out)
      else if psize pl > 0 \<and> is_null pl then Some (status_invalid_argument, 0, out)
      else if is_null out then Some (status_invalid_argument, 0, out)
      else
        let required = frame_size (psize pl) in
        if psize out < required then Some (status_full, 0, out)
        else do {
          out \<leftarrow> put out 0 UBX_SYNC_CHAR_1;
          out \<leftarrow> put out 1 UBX_SYNC_CHAR_2;
          out \<leftarrow> put out 2 c;
          out \<leftarrow> put out 3 mid;
          out \<leftarrow> write_le16 out 4 (word_of_nat (psize pl));
          out \<leftarrow> copy_loop pl (psize pl) UBX_FRAME_INDEX_PAYLOAD 0 out;
          ck \<leftarrow> compute_frame_checksum c mid (word_of_nat (psize pl)) pl;
          let ck_a_index = UBX_FRAME_INDEX_PAYLOAD + psize pl in do {
          out \<leftarrow> put out ck_a_index (ck_a ck);
          out \<leftarrow> put out (ck_a_index + 1) (ck_b ck);
          Some (status_ok, required, out) } })"

text \<open>The view over \<open>n\<close> elements from an offset of the same storage.\<close>

fun sub_ptr :: "'a ptr \<Rightarrow> nat \<Rightarrow> nat \<Rightarrow> 'a ptr" where
  "sub_ptr (Null k) off n = Null n"
| "sub_ptr (Mem xs) off n = Mem (take n (drop off xs))"

definition decode_frame :: "u8 ptr \<Rightarrow> (bool \<times> message_view) option" where
  "decode_frame frame =
     (if psize frame < UBX_FRAME_OVERHEAD then Some (False, message_view_init)
      else do {
        s1 \<leftarrow> rd frame 0;
        s2 \<leftarrow> rd frame 1;
        if s1 \<noteq> UBX_SYNC_CHAR_1 \<or> s2 \<noteq> UBX_SYNC_CHAR_2 then Some (False, message_view_init)
        else do {
          len \<leftarrow> read_le16 frame 4;
          if psize frame \<noteq> frame_size (unat len) then Some (False, message_view_init)
          else
            let pl = (if len = 0 then Null 0 else sub_ptr frame UBX_FRAME_INDEX_PAYLOAD (unat len)) in do {
            c \<leftarrow> rd frame 2;
            mid \<leftarrow> rd frame 3;
            expected \<leftarrow> compute_frame_checksum c mid len pl;
            a \<leftarrow> rd frame (UBX_FRAME_INDEX_PAYLOAD + unat len);
            b \<leftarrow> rd frame (UBX_FRAME_INDEX_PAYLOAD + unat len + 1);
            if a \<noteq> ck_a expected \<or> b \<noteq> ck_b expected then Some (False, message_view_init)
            else Some (True, \<lparr>header = \<lparr>msg_class = c, msg_id = mid, payload_length = len\<rparr>,
                             payload = pl, check = \<lparr>ck_a = a, ck_b = b\<rparr>\<rparr>) } } })"

definition value_byte_size :: "u32 \<Rightarrow> u8" where
  "value_byte_size key_id =
     (let code = drop_bit 28 key_id AND 0x0F in
      if code = 1 \<or> code = 2 then 1
      else if code = 3 then 2
      else if code = 4 then 4
      else if code = 5 then 8
      else 0)"

section \<open>The frame a message has on the wire\<close>

fun bytes :: "'a ptr \<Rightarrow> 'a list" where
  "bytes (Null n) = []"
| "bytes (Mem xs) = xs"

definition fletcher :: "u8 list \<Rightarrow> checksum" where
  "fletcher bs = checksum_value (fold checksum_update bs checksum_reset)"

definition ubx_body :: "u8 \<Rightarrow> u8 \<Rightarrow> u8 list \<Rightarrow> u8 list" where
  "ubx_body c mid pl = c # mid # le_bytes 2 (word_of_nat (length pl) :: u16) @ pl"

definition ubx_frame :: "u8 \<Rightarrow> u8 \<Rightarrow> u8 list \<Rightarrow> u8 list" where
  "ubx_frame c mid pl =
     [UBX_SYNC_CHAR_1, UBX_SYNC_CHAR_2] @ ubx_body c mid pl @
     [ck_a (fletcher (ubx_body c mid pl)), ck_b (fletcher (ubx_body c mid pl))]"

text \<open>The view that decoding such a frame yields.\<close>

definition ubx_view :: "u8 \<Rightarrow> u8 \<Rightarrow> u8 list \<Rightarrow> message_view" where
  "ubx_view c mid pl =
     \<lparr>header = \<lparr>msg_class = c, msg_id = mid, payload_length = word_of_nat (length pl)\<rparr>,
      payload = (if pl = [] then Null 0 else Mem pl),
      check = fletcher (ubx_body c mid pl)\<rparr>"

lemma length_ubx_frame [simp]: "length (ubx_frame c mid pl) = length pl + 8"
  by (simp add: ubx_frame_def ubx_body_def)

lemma checksum_loop_fold:
  "i \<le> length xs \<Longrightarrow> checksum_loop (Mem xs) (length xs) i acc = Some (fold checksum_update (drop i xs) acc)"
proof (induction "length xs - i" arbitrary: i acc)
  case 0
  then show ?case by (simp add: checksum_loop.simps)
next
  case (Suc d)
  then have "drop i xs = xs ! i # drop (Suc i) xs" by (simp add: Cons_nth_drop_Suc)
  with Suc show ?case by (simp add: checksum_loop.simps [of "Mem xs" "length xs" i])
qed

lemma compute_checksum_fletcher: "compute_checksum (Mem xs) = Some (fletcher xs)"
  by (simp add: compute_checksum_def checksum_loop_fold fletcher_def)

lemma byte_mask [simp]: "ucast (w AND 0xFF :: u16) = (ucast w :: u8)"
  by (rule bit_word_eqI) (auto simp: bit_simps bit_numeral_rec less_Suc_eq numeral_eq_Suc)

lemma byte_mask_high [simp]: "ucast (drop_bit 8 w AND 0xFF :: u16) = (ucast (drop_bit 8 w) :: u8)"
  by simp

lemma compute_frame_checksum_Mem [simp]:
  "compute_frame_checksum c mid len (Mem pl) = Some (fletcher (c # mid # le_bytes 2 len @ pl))"
  by (simp add: compute_frame_checksum_def checksum_loop_fold fletcher_def le_bytes_16)

lemma compute_frame_checksum_empty [simp]:
  "compute_frame_checksum c mid len (Null 0) = Some (fletcher (c # mid # le_bytes 2 len))"
  by (simp add: compute_frame_checksum_def checksum_loop.simps fletcher_def le_bytes_16)

lemma copy_loop_store:
  "i \<le> length xs \<Longrightarrow> copy_loop (Mem xs) (length xs) off i out = store out (off + i) (drop i xs)"
proof (induction "length xs - i" arbitrary: i out)
  case 0
  then show ?case by (simp add: copy_loop.simps)
next
  case (Suc d)
  then have i: "i < length xs" by simp
  then have d: "drop i xs = xs ! i # drop (Suc i) xs" by (simp add: Cons_nth_drop_Suc)
  from Suc i have "copy_loop (Mem xs) (length xs) off (Suc i) = (\<lambda>q. store q (Suc (off + i)) (drop (Suc i) xs))"
    by (simp add: fun_eq_iff)
  with i show ?case
    by (simp add: copy_loop.simps [of "Mem xs" "length xs" off i] d store_Cons)
qed


section \<open>Encoding\<close>

lemma frame_size_small [simp]: "n \<le> 0xFFFF \<Longrightarrow> frame_size n = n + 8"
  by (simp add: frame_size_def UBX_FRAME_OVERHEAD_def size_mod_def)

lemma store_put:
  "Option.bind (store p i us) (\<lambda>q. put q (i + length us) v) = store p i (us @ [v])"
  by (simp add: store_single store_append)

lemma encode_frame_null [simp]:
  "encode_frame c mid (Null 0) (Mem os) = encode_frame c mid (Mem []) (Mem os)"
  by (simp add: encode_frame_def copy_loop.simps le_bytes_16)

lemma max_payload_len [simp]: "unat UBX_MAX_PAYLOAD_LEN = 0xFFFF"
  by (simp add: UBX_MAX_PAYLOAD_LEN_def)

lemma encode_frame_ok:
  assumes len: "length pl \<le> 0xFFFF" and cap: "length pl + 8 \<le> length os"
  shows "encode_frame c mid (Mem pl) (Mem os) =
    Some (status_ok, length pl + 8, Mem (ubx_frame c mid pl @ drop (length pl + 8) os))"
  using assms
  by (simp add: encode_frame_def UBX_FRAME_INDEX_PAYLOAD_def writes_store copy_loop_store
      store_single store_chain ubx_frame_def ubx_body_def del: store.simps)
    (rule arg_cong2 [where f = drop]; simp)

lemma encode_frame_errors:
  "encode_frame c mid pl out =
     (if psize pl > 0xFFFF then Some (status_out_of_range, 0, out)
      else if psize pl > 0 \<and> is_null pl \<or> is_null out then Some (status_invalid_argument, 0, out)
      else if psize out < psize pl + 8 then Some (status_full, 0, out)
      else Some (status_ok, psize pl + 8,
        Mem (ubx_frame c mid (bytes pl) @ drop (psize pl + 8) (bytes out))))"
proof (cases "out")
  case (Null n)
  then show ?thesis by (simp add: encode_frame_def)
next
  case (Mem os)
  show ?thesis
  proof (cases pl)
    case (Mem xs)
    with \<open>out = Mem os\<close> show ?thesis
      by (simp add: encode_frame_ok) (simp add: encode_frame_def)
  next
    case (Null n)
    show ?thesis
    proof (cases "n = 0")
      case True
      with Null \<open>out = Mem os\<close> show ?thesis
        using encode_frame_ok [of "[]" os c mid]
        by (cases "length os < 8") (simp_all, simp_all add: encode_frame_def)
    qed (simp add: encode_frame_def Null)
  qed
qed

section \<open>Decoding\<close>

lemma read_le16_bytes: "read_le16 (Mem xs) i =
  (if i + 1 < length xs then Some (ucast (xs ! i) OR push_bit 8 (ucast (xs ! (i + 1)))) else None)"
  by (simp add: read_le16_def)

definition le16 :: "u8 \<Rightarrow> u8 \<Rightarrow> u16" where
  "le16 lo hi = ucast lo OR push_bit 8 (ucast hi)"

lemma le16_bytes [simp]: "le_bytes 2 (le16 lo hi) = [lo, hi]"
  unfolding le16_def le_bytes_16
  by (simp, intro conjI; rule bit_word_eqI) (auto simp: bit_simps)

lemma le16_of_bytes [simp]: "le16 (ucast v) (ucast (drop_bit 8 v)) = v"
  by (simp add: le16_def words_from_bytes)

lemma le16_length [simp]: "n \<le> 0xFFFF \<Longrightarrow> unat (word_of_nat n :: u16) = n"
  by (simp add: unat_of_nat)

lemma unat_le16: "unat (le16 lo hi) \<le> 0xFFFF"
proof -
  have "unat (le16 lo hi) < 2 ^ LENGTH(16)" by (rule unsigned_less)
  then show ?thesis by simp
qed

lemma frame_checksum_view [simp]:
  "length pl = unat (le16 lo hi) \<Longrightarrow>
   compute_frame_checksum c mid (le16 lo hi) (if le16 lo hi = 0 then Null 0 else Mem pl)
   = Some (fletcher (c # mid # lo # hi # pl))"
proof (cases "le16 lo hi = 0")
  case True
  moreover assume "length pl = unat (le16 lo hi)"
  ultimately have "pl = []" by simp
  moreover have "le_bytes 2 (0 :: u16) = [lo, hi]" using True le16_bytes [of lo hi] by simp
  ultimately show ?thesis using True by simp
qed simp

lemma checksum_eq_iff: "x = \<lparr>ck_a = a, ck_b = b\<rparr> \<longleftrightarrow> a = ck_a x \<and> b = ck_b x"
  by (cases x) auto

lemma decode_frame_layout:
  "decode_frame (Mem (s1 # s2 # c # mid # lo # hi # pl @ [a, b])) =
    (if s1 = UBX_SYNC_CHAR_1 \<and> s2 = UBX_SYNC_CHAR_2 \<and> length pl = unat (le16 lo hi) \<and>
        fletcher (c # mid # lo # hi # pl) = \<lparr>ck_a = a, ck_b = b\<rparr>
     then Some (True, \<lparr>header = \<lparr>msg_class = c, msg_id = mid, payload_length = le16 lo hi\<rparr>,
                       payload = (if le16 lo hi = 0 then Null 0 else Mem pl), check = \<lparr>ck_a = a, ck_b = b\<rparr>\<rparr>)
     else Some (False, message_view_init))"
proof (cases "s1 = UBX_SYNC_CHAR_1 \<and> s2 = UBX_SYNC_CHAR_2 \<and> length pl = unat (le16 lo hi)")
  case False
  have "unat (le16 lo hi) \<le> 0xFFFF" by (rule unat_le16)
  with False show ?thesis
    by (auto simp: decode_frame_def read_le16_bytes le16_def [symmetric] UBX_FRAME_OVERHEAD_def)
next
  case True
  have "unat (le16 lo hi) \<le> 0xFFFF" by (rule unat_le16)
  moreover from True have "sub_ptr (Mem (s1 # s2 # c # mid # lo # hi # pl @ [a, b])) 6 (unat (le16 lo hi)) = Mem pl"
    by simp
  moreover have "le16 lo hi = 0 \<Longrightarrow> pl = []" using True by simp
  moreover have "le16 lo hi = 0 \<Longrightarrow> le_bytes 2 (0 :: u16) = [lo, hi]" using le16_bytes [of lo hi] by simp
  ultimately show ?thesis using True
    by (cases "le16 lo hi = 0")
      (simp_all add: decode_frame_def read_le16_bytes le16_def [symmetric] UBX_FRAME_OVERHEAD_def
        UBX_FRAME_INDEX_PAYLOAD_def nth_append checksum_eq_iff del: sub_ptr.simps)
qed


text \<open>The decoder accepts exactly the frames the format describes, and reports what they hold.\<close>

lemma split_two: "2 \<le> length xs \<Longrightarrow> \<exists>ys a b. xs = ys @ [a, b]"
  by (metis append.assoc append_Cons append_Nil append_butlast_last_id diff_is_0_eq length_0_conv
      length_butlast list.size(3) not_less_eq_eq numeral_2_eq_2 one_le_numeral le_numeral_extra(3) Suc_n_not_le_n zero_le le_trans diff_Suc_1)

lemma ubx_frame_iff:
  "s1 # s2 # c # mid # lo # hi # pl @ [a, b] = ubx_frame c' mid' pl' \<longleftrightarrow>
   s1 = UBX_SYNC_CHAR_1 \<and> s2 = UBX_SYNC_CHAR_2 \<and> c = c' \<and> mid = mid' \<and> pl = pl' \<and>
   [lo, hi] = le_bytes 2 (word_of_nat (length pl) :: u16) \<and>
   fletcher (c # mid # lo # hi # pl) = \<lparr>ck_a = a, ck_b = b\<rparr>"
  by (auto simp: ubx_frame_def ubx_body_def checksum_eq_iff le_bytes_16)

lemma le16_unique: "[lo, hi] = le_bytes 2 v \<longleftrightarrow> v = le16 lo hi"
  by (metis le16_bytes le_bytes_16 le16_of_bytes list.inject)

lemma decode_frame_spec:
  "decode_frame (Mem xs) =
    (if \<exists>c mid pl. length pl \<le> 0xFFFF \<and> xs = ubx_frame c mid pl
     then Some (True, ubx_view (xs ! 2) (xs ! 3) (take (length xs - 8) (drop 6 xs)))
     else Some (False, message_view_init))"
proof (cases "length xs < 8")
  case True
  then show ?thesis by (auto simp: decode_frame_def UBX_FRAME_OVERHEAD_def)
next
  case False
  then obtain s1 s2 c mid lo hi ys where xs: "xs = s1 # s2 # c # mid # lo # hi # ys" and "2 \<le> length ys"
    by (auto simp: not_less numeral_eq_Suc Suc_le_length_iff)
  then obtain pl a b where ys: "ys = pl @ [a, b]" using split_two by blast
  have len: "length pl \<le> 0xFFFF \<and> le16 lo hi = word_of_nat (length pl) \<longleftrightarrow> length pl = unat (le16 lo hi)"
    using unat_le16 [of lo hi] by auto
  have "(\<exists>c' mid' pl'. length pl' \<le> 0xFFFF \<and> xs = ubx_frame c' mid' pl') \<longleftrightarrow>
      length pl \<le> 0xFFFF \<and> s1 = UBX_SYNC_CHAR_1 \<and> s2 = UBX_SYNC_CHAR_2 \<and>
      [lo, hi] = le_bytes 2 (word_of_nat (length pl) :: u16) \<and> fletcher (c # mid # lo # hi # pl) = \<lparr>ck_a = a, ck_b = b\<rparr>"
    unfolding xs ys ubx_frame_iff by blast
  also have "\<dots> \<longleftrightarrow> s1 = UBX_SYNC_CHAR_1 \<and> s2 = UBX_SYNC_CHAR_2 \<and> length pl = unat (le16 lo hi) \<and>
      fletcher (c # mid # lo # hi # pl) = \<lparr>ck_a = a, ck_b = b\<rparr>"
    unfolding le16_unique using len by metis
  finally have ex: "(\<exists>c' mid' pl'. length pl' \<le> 0xFFFF \<and> xs = ubx_frame c' mid' pl') \<longleftrightarrow>
      s1 = UBX_SYNC_CHAR_1 \<and> s2 = UBX_SYNC_CHAR_2 \<and> length pl = unat (le16 lo hi) \<and>
      fletcher (c # mid # lo # hi # pl) = \<lparr>ck_a = a, ck_b = b\<rparr>" .
  have v: "length pl = unat (le16 lo hi) \<Longrightarrow> fletcher (c # mid # lo # hi # pl) = \<lparr>ck_a = a, ck_b = b\<rparr> \<Longrightarrow>
      ubx_view c mid pl = \<lparr>header = \<lparr>msg_class = c, msg_id = mid, payload_length = le16 lo hi\<rparr>,
        payload = (if le16 lo hi = 0 then Null 0 else Mem pl), check = \<lparr>ck_a = a, ck_b = b\<rparr>\<rparr>"
    using le16_unique [of lo hi "le16 lo hi"] by (auto simp: ubx_view_def ubx_body_def unsigned_eq_0_iff)
  have "xs ! 2 = c" "xs ! 3 = mid" "take (length xs - 8) (drop 6 xs) = pl"
    by (simp_all add: xs ys)
  then show ?thesis
    unfolding ex unfolding xs ys decode_frame_layout by (auto simp: v)
qed

lemma ubx_view_of_frame:
  "ubx_view (ubx_frame c mid pl ! 2) (ubx_frame c mid pl ! 3)
     (take (length (ubx_frame c mid pl) - 8) (drop 6 (ubx_frame c mid pl))) = ubx_view c mid pl"
  by (simp add: ubx_frame_def ubx_body_def le_bytes_16)

lemma decode_frame_ubx_frame:
  "length pl \<le> 0xFFFF \<Longrightarrow> decode_frame (Mem (ubx_frame c mid pl)) = Some (True, ubx_view c mid pl)"
  using decode_frame_spec [of "ubx_frame c mid pl"] unfolding ubx_view_of_frame by auto

lemma decode_frame_not_frame:
  "(\<And>c mid pl. length pl \<le> 0xFFFF \<Longrightarrow> xs \<noteq> ubx_frame c mid pl) \<Longrightarrow>
   decode_frame (Mem xs) = Some (False, message_view_init)"
  using decode_frame_spec [of xs] by auto

lemma decode_frame_True:
  "decode_frame (Mem xs) = Some (True, v) \<Longrightarrow>
   \<exists>c mid pl. length pl \<le> 0xFFFF \<and> xs = ubx_frame c mid pl \<and> v = ubx_view c mid pl"
  by (metis decode_frame_not_frame decode_frame_ubx_frame option.inject prod.inject)

section \<open>What the frame codec promises\<close>

text \<open>C3: \<open>encode_frame\<close> on every input: an oversized payload is \<open>out_of_range\<close>, a null payload with
  a size or a null output is \<open>invalid_argument\<close>, a short output is \<open>full\<close> (no byte written in any of
  these cases), and otherwise exactly the frame of the message is written at the front of the output
  and its length reported; the bytes behind it keep their values.\<close>

theorem encode_frame_contract:
  "encode_frame c mid pl out =
     (if psize pl > 0xFFFF then Some (status_out_of_range, 0, out)
      else if psize pl > 0 \<and> is_null pl \<or> is_null out then Some (status_invalid_argument, 0, out)
      else if psize out < psize pl + 8 then Some (status_full, 0, out)
      else Some (status_ok, psize pl + 8,
        Mem (ubx_frame c mid (bytes pl) @ drop (psize pl + 8) (bytes out))))"
  by (rule encode_frame_errors)

text \<open>C4: \<open>decode_frame\<close> accepts a buffer exactly when it is the encoding of a message, and the view
  it returns then carries that message's class, ID, length, payload and checksum.\<close>

theorem decode_frame_accepts_exactly_frames:
  "decode_frame (Mem xs) = Some (True, v) \<longleftrightarrow>
   (\<exists>c mid pl. length pl \<le> 0xFFFF \<and> xs = ubx_frame c mid pl \<and> v = ubx_view c mid pl)"
  using decode_frame_True decode_frame_ubx_frame by blast

lemma fold_checksum_sum: "acc_a (fold checksum_update bs acc) = acc_a acc + sum_list bs"
  by (induction bs arbitrary: acc) (simp_all add: checksum_update_def Let_def add.assoc)

lemma fletcher_sum: "ck_a (fletcher bs) = sum_list bs"
  by (simp add: fletcher_def checksum_value_def fold_checksum_sum checksum_reset_def)

lemma one_change_sum:
  "i < length xs \<Longrightarrow> xs ! i \<noteq> w \<Longrightarrow> sum_list (xs[i := w]) \<noteq> sum_list (xs :: u8 list)"
  by (induction xs arbitrary: i) (auto split: nat.splits)

text \<open>C5: the checksum and the framing rules together detect every single-byte corruption: whichever
  byte of a valid frame is changed, the decoder rejects the result.\<close>

theorem decode_frame_detects_single_byte_corruption:
  assumes "decode_frame (Mem xs) = Some (True, v)" and "i < length xs" and "w \<noteq> xs ! i"
  shows "decode_frame (Mem (xs[i := w])) = Some (False, message_view_init)"
proof -
  obtain c m pl where len: "length pl \<le> 0xFFFF" and xs: "xs = ubx_frame c m pl"
    using decode_frame_True [OF assms(1)] by blast
  have False if ys: "xs[i := w] = ubx_frame c' m' pl'" and len': "length pl' \<le> 0xFFFF" for c' m' pl'
  proof -
    let ?b = "ubx_body c m pl" and ?b' = "ubx_body c' m' pl'"
    have lb: "length ?b = length ?b'"
      using arg_cong [OF ys, of length] by (simp add: xs ubx_body_def)
    show False
    proof (cases "i < 2")
      case True
      with ys assms(3) show False by (auto simp: xs ubx_frame_def less_Suc_eq numeral_2_eq_2)
    next
      case False
      then obtain j where j: "i = Suc (Suc j)" by (metis add_2_eq_Suc le_add_diff_inverse not_less)
      show False
      proof (cases "j < length ?b")
        case True
        with ys lb have "?b[j := w] = ?b'" and "ck_a (fletcher ?b) = ck_a (fletcher ?b')"
          by (auto simp: xs ubx_frame_def j list_update_append)
        moreover have "?b ! j \<noteq> w" using assms(3) True by (simp add: xs ubx_frame_def j nth_append)
        ultimately show False using one_change_sum [OF True] by (metis fletcher_sum)
      next
        case False
        with ys lb have "?b = ?b'" by (auto simp: xs ubx_frame_def j list_update_append)
        with ys have "xs[i := w] = xs" by (simp add: xs ubx_frame_def)
        with assms(2,3) show False by (metis nth_list_update_eq)
      qed
    qed
  qed
  then show ?thesis by (intro decode_frame_not_frame) blast
qed

lemma ubx_frame_example: "ubx_frame 5 1 [6, 0x8A] = [0xB5, 0x62, 5, 1, 2, 0, 6, 0x8A, 0x98, 0xC1]"
  by (simp add: ubx_frame_def ubx_body_def le_bytes_16 fletcher_def checksum_update_def checksum_value_def
      checksum_reset_def UBX_SYNC_CHAR_1_def UBX_SYNC_CHAR_2_def)

theorem decode_frame_detects_single_byte_corruption_witness:
  "decode_frame (Mem ([0xB5, 0x62, 5, 1, 2, 0, 6, 0x8A, 0x98, 0xC1][6 := 7])) = Some (False, message_view_init)"
proof (rule decode_frame_detects_single_byte_corruption)
  show "decode_frame (Mem [0xB5, 0x62, 5, 1, 2, 0, 6, 0x8A, 0x98, 0xC1]) = Some (True, ubx_view 5 1 [6, 0x8A])"
    using decode_frame_ubx_frame [of "[6, 0x8A]" 5 1] unfolding ubx_frame_example by simp
qed simp_all

text \<open>Encoding then decoding: whenever \<open>encode_frame\<close> reports success, the bytes it reports
  as written decode to a view of the same class, ID and payload.\<close>

theorem frame_roundtrip:
  assumes "encode_frame c mid pl out = Some (status_ok, n, out')"
  shows "decode_frame (Mem (take n (bytes out'))) = Some (True, ubx_view c mid (bytes pl))"
proof -
  have n: "n = psize pl + 8" and o: "out' = Mem (ubx_frame c mid (bytes pl) @ drop n (bytes out))"
    and len: "psize pl \<le> 0xFFFF" and "psize pl = length (bytes pl)"
    using assms by (cases pl; auto simp: encode_frame_errors split: if_splits)+
  then have "take n (bytes out') = ubx_frame c mid (bytes pl)" by simp
  moreover have "decode_frame (Mem (ubx_frame c mid (bytes pl))) = Some (True, ubx_view c mid (bytes pl))"
    using len \<open>psize pl = length (bytes pl)\<close> by (simp add: decode_frame_ubx_frame)
  ultimately show ?thesis by simp
qed

theorem frame_roundtrip_witness:
  "decode_frame (Mem (take 10 (bytes (Mem [0xB5, 0x62, 5, 1, 2, 0, 6, 0x8A, 0x98, 0xC1, 0, 0]))))
   = Some (True, ubx_view 5 1 (bytes (Mem [6, 0x8A])))"
proof (rule frame_roundtrip)
  show "encode_frame 5 1 (Mem [6, 0x8A]) (Mem (replicate 12 0)) =
    Some (status_ok, 10, Mem [0xB5, 0x62, 5, 1, 2, 0, 6, 0x8A, 0x98, 0xC1, 0, 0])"
    using encode_frame_ok [of "[6, 0x8A]" "replicate 12 0" 5 1] unfolding ubx_frame_example
    by (simp add: numeral_2_eq_2)
qed

end
