(* ===== verification/UbxParser.thy ===== *)
theory UbxParser
  imports Ubx
begin

text \<open>
  The streaming parser of \<open>castle_ext/parsers/ubx_parser/ubx_parser.hpp\<close>: its nine-state machine,
  \<open>process_byte\<close>, \<open>emit_error\<close>, \<open>on_frame_complete\<close>, the \<open>feed\<close> overloads and \<open>reset\<close>.  The
  template parameter \<open>MaxPayload\<close> is the length of the inline payload array.  A callback invocation
  is an event of the output; what an installed callback does with it is outside the model (the class
  is documented non-reentrant).  The outer \<open>None\<close> is a store outside the payload array.  The
  reference for the machine is \<open>ubx_scan\<close>, a function from the whole input to the events, and the
  two are proved equal.
\<close>

section \<open>State\<close>

datatype parse_state =
    wait_sync_1
  | wait_sync_2
  | wait_class
  | wait_id
  | wait_length_low
  | wait_length_high
  | read_payload
  | wait_checksum_a
  | wait_checksum_b

datatype parser_error_code =
    error_none
  | invalid_sync
  | payload_too_large
  | checksum_mismatch
  | invalid_argument

record parse_error =
  code :: parser_error_code
  err_class :: u8
  err_id :: u8
  err_length :: u16

datatype event = Message message_view | Error parse_error

record ubx_parser =
  state :: parse_state
  hdr :: message_header
  acc :: checksum_accumulator
  buffer :: "u8 list"
  payload_size :: nat
  received_ck_a :: u8
  received_ck_b :: u8
  frames_decoded :: nat
  frames_discarded :: nat
  has_message_callback :: bool
  has_error_callback :: bool

definition ubx_parser_init :: "nat \<Rightarrow> ubx_parser" where
  "ubx_parser_init max_payload =
     \<lparr>state = wait_sync_1, hdr = message_header_init, acc = checksum_reset,
      buffer = replicate max_payload 0, payload_size = 0, received_ck_a = 0, received_ck_b = 0,
      frames_decoded = 0, frames_discarded = 0, has_message_callback = False, has_error_callback = False\<rparr>"

definition set_message_callback :: "bool \<Rightarrow> ubx_parser \<Rightarrow> ubx_parser" where
  "set_message_callback callback p = p\<lparr>has_message_callback := callback\<rparr>"

definition set_error_callback :: "bool \<Rightarrow> ubx_parser \<Rightarrow> ubx_parser" where
  "set_error_callback callback p = p\<lparr>has_error_callback := callback\<rparr>"

section \<open>Operations\<close>

definition error_message :: "parser_error_code \<Rightarrow> string" where
  "error_message c = (case c of
     error_none \<Rightarrow> ''no error''
   | invalid_sync \<Rightarrow> ''invalid UBX synchronization sequence''
   | payload_too_large \<Rightarrow> ''UBX payload exceeds parser capacity''
   | checksum_mismatch \<Rightarrow> ''UBX checksum mismatch''
   | invalid_argument \<Rightarrow> ''invalid parser input'')"

definition reset_frame :: "ubx_parser \<Rightarrow> ubx_parser" where
  "reset_frame p = p\<lparr>state := wait_sync_1, hdr := message_header_init, acc := checksum_reset, payload_size := 0\<rparr>"

definition parser_reset :: "ubx_parser \<Rightarrow> ubx_parser" where
  "parser_reset p =
     p\<lparr>state := wait_sync_1, hdr := message_header_init, acc := checksum_reset, payload_size := 0,
       frames_decoded := 0, frames_discarded := 0\<rparr>"

definition emit_error :: "parser_error_code \<Rightarrow> ubx_parser \<Rightarrow> ubx_parser \<times> event list" where
  "emit_error c p =
     (let e = \<lparr>code = c, err_class = msg_class (hdr p), err_id = msg_id (hdr p), err_length = payload_length (hdr p)\<rparr>;
          p = p\<lparr>frames_discarded := usz (frames_discarded p + 1)\<rparr>;
          p = reset_frame p
      in (p, if has_error_callback p then [Error e] else []))"

definition on_frame_complete :: "ubx_parser \<Rightarrow> ubx_parser \<times> event list" where
  "on_frame_complete p =
     (let m = \<lparr>header = hdr p, payload = Mem (take (payload_size p) (buffer p)),
               check = \<lparr>ck_a = received_ck_a p, ck_b = received_ck_b p\<rparr>\<rparr>;
          p = p\<lparr>frames_decoded := usz (frames_decoded p + 1)\<rparr>;
          p = p\<lparr>state := wait_sync_1, hdr := message_header_init, acc := checksum_reset, payload_size := 0\<rparr>
      in (p, if has_message_callback p then [Message m] else []))"

definition process_byte :: "u8 \<Rightarrow> ubx_parser \<Rightarrow> (ubx_parser \<times> event list) option" where
  "process_byte b p = (case state p of
     wait_sync_1 \<Rightarrow>
       Some (if b = UBX_SYNC_CHAR_1 then p\<lparr>state := wait_sync_2\<rparr> else p, [])
   | wait_sync_2 \<Rightarrow>
       Some (if b = UBX_SYNC_CHAR_2 then p\<lparr>state := wait_class, acc := checksum_reset\<rparr>
             else if b = UBX_SYNC_CHAR_1 then p\<lparr>state := wait_sync_2\<rparr>
             else p\<lparr>state := wait_sync_1\<rparr>, [])
   | wait_class \<Rightarrow>
       Some (p\<lparr>hdr := (hdr p)\<lparr>msg_class := b\<rparr>, acc := checksum_update b (acc p), state := wait_id\<rparr>, [])
   | wait_id \<Rightarrow>
       Some (p\<lparr>hdr := (hdr p)\<lparr>msg_id := b\<rparr>, acc := checksum_update b (acc p), state := wait_length_low\<rparr>, [])
   | wait_length_low \<Rightarrow>
       Some (p\<lparr>hdr := (hdr p)\<lparr>payload_length := ucast b\<rparr>, acc := checksum_update b (acc p),
               state := wait_length_high\<rparr>, [])
   | wait_length_high \<Rightarrow>
       let p = p\<lparr>hdr := (hdr p)\<lparr>payload_length := payload_length (hdr p) OR push_bit 8 (ucast b)\<rparr>,
                 acc := checksum_update b (acc p)\<rparr> in
       if payload_length (hdr p) > word_of_nat (length (buffer p)) then Some (emit_error payload_too_large p)
       else
         let p = p\<lparr>payload_size := 0\<rparr> in
         Some (p\<lparr>state := if payload_length (hdr p) = 0 then wait_checksum_a else read_payload\<rparr>, [])
   | read_payload \<Rightarrow>
       if payload_size p < length (buffer p) then
         let p = p\<lparr>buffer := (buffer p)[payload_size p := b]\<rparr>;
             p = p\<lparr>payload_size := payload_size p + 1, acc := checksum_update b (acc p)\<rparr> in
         Some (if payload_size p = unat (payload_length (hdr p)) then p\<lparr>state := wait_checksum_a\<rparr> else p, [])
       else None
   | wait_checksum_a \<Rightarrow>
       Some (p\<lparr>received_ck_a := b, state := wait_checksum_b\<rparr>, [])
   | wait_checksum_b \<Rightarrow>
       let p = p\<lparr>received_ck_b := b\<rparr> in
       Some (if ck_a (checksum_value (acc p)) \<noteq> received_ck_a p \<or> ck_b (checksum_value (acc p)) \<noteq> received_ck_b p
             then emit_error checksum_mismatch p
             else on_frame_complete p))"

function feed_loop :: "u8 ptr \<Rightarrow> nat \<Rightarrow> nat \<Rightarrow> ubx_parser \<Rightarrow> (ubx_parser \<times> event list) option" where
  "feed_loop data n i p =
     (if i < n
      then do {
        b \<leftarrow> rd data i;
        (p, es) \<leftarrow> process_byte b p;
        (p, es') \<leftarrow> feed_loop data n (Suc i) p;
        Some (p, es @ es') }
      else Some (p, []))"
  by pat_completeness auto
termination
  by (relation "measure (\<lambda>(_, n, i, _). n - i)") auto

declare feed_loop.simps [simp del]

definition feed :: "u8 ptr \<Rightarrow> ubx_parser \<Rightarrow> (ubx_parser \<times> event list) option" where
  "feed data p =
     (if is_null data \<and> psize data \<noteq> 0 then Some (emit_error invalid_argument p)
      else feed_loop data (psize data) 0 p)"

section \<open>Feeding a list of bytes\<close>

fun feed_bytes :: "u8 list \<Rightarrow> ubx_parser \<Rightarrow> (ubx_parser \<times> event list) option" where
  "feed_bytes [] p = Some (p, [])"
| "feed_bytes (b # bs) p = do {
     (p, es) \<leftarrow> process_byte b p;
     (p, es') \<leftarrow> feed_bytes bs p;
     Some (p, es @ es') }"

lemma feed_loop_bytes:
  "i \<le> length xs \<Longrightarrow> feed_loop (Mem xs) (length xs) i p = feed_bytes (drop i xs) p"
proof (induction "length xs - i" arbitrary: i p)
  case 0
  then show ?case by (simp add: feed_loop.simps)
next
  case (Suc d)
  then have "i < length xs" by simp
  moreover from this have "drop i xs = xs ! i # drop (Suc i) xs" by (simp add: Cons_nth_drop_Suc)
  ultimately show ?case using Suc by (simp add: feed_loop.simps [of "Mem xs" "length xs" i] case_prod_beta)
qed

lemma feed_Mem [simp]: "feed (Mem xs) p = feed_bytes xs p"
  by (simp add: feed_def feed_loop_bytes)

lemma feed_bytes_append:
  "feed_bytes (xs @ ys) p = do {
     (p, es) \<leftarrow> feed_bytes xs p;
     (p, es') \<leftarrow> feed_bytes ys p;
     Some (p, es @ es') }"
proof (induction xs arbitrary: p)
  case Nil
  show ?case by (cases "feed_bytes ys p") auto
next
  case (Cons x xs)
  then show ?case by (cases "process_byte x p") (auto simp: case_prod_beta bind_assoc)
qed

section \<open>The invariant\<close>

definition parser_inv :: "ubx_parser \<Rightarrow> bool" where
  "parser_inv p \<longleftrightarrow>
     length (buffer p) \<le> 0xFFFF \<and> frames_decoded p < size_mod \<and> frames_discarded p < size_mod \<and>
     (case state p of
        read_payload \<Rightarrow> payload_size p < unat (payload_length (hdr p)) \<and> unat (payload_length (hdr p)) \<le> length (buffer p)
      | wait_checksum_a \<Rightarrow> payload_size p = unat (payload_length (hdr p)) \<and> unat (payload_length (hdr p)) \<le> length (buffer p)
      | wait_checksum_b \<Rightarrow> payload_size p = unat (payload_length (hdr p)) \<and> unat (payload_length (hdr p)) \<le> length (buffer p)
      | _ \<Rightarrow> payload_size p = 0)"

lemma parser_inv_init: "max_payload \<le> 0xFFFF \<Longrightarrow> parser_inv (ubx_parser_init max_payload)"
  by (simp add: parser_inv_def ubx_parser_init_def size_mod_def)

lemma parser_inv_emit_error: "parser_inv p \<Longrightarrow> parser_inv (fst (emit_error c p))"
  by (simp add: parser_inv_def emit_error_def reset_frame_def Let_def)

lemma parser_inv_complete: "parser_inv p \<Longrightarrow> parser_inv (fst (on_frame_complete p))"
  by (simp add: parser_inv_def on_frame_complete_def Let_def)

lemma length_limit [simp]:
  "n \<le> 0xFFFF \<Longrightarrow> (word_of_nat n :: u16) < v \<longleftrightarrow> n < unat v"
  by (simp add: word_less_nat_alt unat_of_nat)

lemma process_byte_inv:
  assumes "parser_inv p"
  shows "\<exists>q es. process_byte b p = Some (q, es) \<and> parser_inv q \<and> length (buffer q) = length (buffer p)"
proof (cases "state p")
  case wait_checksum_b
  with assms show ?thesis
    by (auto simp: process_byte_def Let_def parser_inv_def emit_error_def reset_frame_def on_frame_complete_def)
qed (use assms in \<open>auto simp: process_byte_def Let_def parser_inv_def emit_error_def reset_frame_def not_less
      unat_gt_0 split: if_splits\<close>)


section \<open>The reference: a scanner over the whole input\<close>

text \<open>What a stream contains, read without any state: bytes before a sync pair are skipped, an
  oversized frame is reported right after its length field, a frame with a wrong checksum after its
  last byte, a frame cut off by the end of the input is silent.\<close>

function ubx_scan :: "nat \<Rightarrow> u8 list \<Rightarrow> event list" where
  "ubx_scan limit (b1 # b2 # rest) =
     (if b1 \<noteq> UBX_SYNC_CHAR_1 \<or> b2 \<noteq> UBX_SYNC_CHAR_2 then ubx_scan limit (b2 # rest)
      else case rest of
        c # mid # lo # hi # body \<Rightarrow>
          let n = unat (le16 lo hi); ck = fletcher (c # mid # lo # hi # take n body) in
          if n > limit
          then Error \<lparr>code = payload_too_large, err_class = c, err_id = mid, err_length = le16 lo hi\<rparr>
               # ubx_scan limit body
          else if length body < n + 2 then []
          else if ck = \<lparr>ck_a = body ! n, ck_b = body ! (n + 1)\<rparr>
          then Message \<lparr>header = \<lparr>msg_class = c, msg_id = mid, payload_length = le16 lo hi\<rparr>,
                        payload = Mem (take n body), check = ck\<rparr>
               # ubx_scan limit (drop (n + 2) body)
          else Error \<lparr>code = checksum_mismatch, err_class = c, err_id = mid, err_length = le16 lo hi\<rparr>
               # ubx_scan limit (drop (n + 2) body)
      | _ \<Rightarrow> [])"
| "ubx_scan limit [b] = []"
| "ubx_scan limit [] = []"
  by pat_completeness auto
termination
  by (relation "measure (\<lambda>(_, bs). length bs)") auto

declare ubx_scan.simps [simp del]

definition idle :: "ubx_parser \<Rightarrow> bool" where
  "idle p \<longleftrightarrow> state p = wait_sync_1 \<and> hdr p = message_header_init \<and> acc p = checksum_reset \<and> payload_size p = 0"

lemmas parser_simps = process_byte_def Let_def emit_error_def reset_frame_def on_frame_complete_def

lemma read_payload_feed:
  assumes "parser_inv p" and "state p = read_payload" and "payload_size p + length xs \<le> unat (payload_length (hdr p))"
    and "xs \<noteq> []"
  shows "\<exists>q. feed_bytes xs p = Some (q, []) \<and>
    q = p\<lparr>buffer := take (payload_size p) (buffer p) @ xs @ drop (payload_size p + length xs) (buffer p),
          payload_size := payload_size p + length xs, acc := fold checksum_update xs (acc p),
          state := if payload_size p + length xs = unat (payload_length (hdr p)) then wait_checksum_a else read_payload\<rparr>"
  using assms
proof (induction xs arbitrary: p)
  case (Cons x xs)
  then have room: "payload_size p < length (buffer p)" by (simp add: parser_inv_def)
  let ?n = "unat (payload_length (hdr p))"
  define r where "r = p\<lparr>buffer := (buffer p)[payload_size p := x], payload_size := Suc (payload_size p),
     acc := checksum_update x (acc p), state := if Suc (payload_size p) = ?n then wait_checksum_a else read_payload\<rparr>"
  have step: "process_byte x p = Some (r, [])"
    using Cons.prems(2) room by (simp add: parser_simps r_def)
  show ?case
  proof (cases "xs = []")
    case True
    with step room show ?thesis by (simp add: r_def upd_conv_take_nth_drop)
  next
    case False
    with Cons.prems(3) have more: "Suc (payload_size p) < ?n" by (cases xs) auto
    with Cons.prems have "parser_inv r \<and> state r = read_payload \<and> payload_size r + length xs \<le> unat (payload_length (hdr r))"
      using process_byte_inv [OF Cons.prems(1), of x] step more by (auto simp: r_def)
    with Cons.IH [of r] False more step room Cons.prems(3) show ?thesis
      by (auto simp: r_def take_update_drop add.commute [of "length xs"])
  qed
qed simp


text \<open>The parser once a header has been read, and the two ways its frame can end.\<close>

definition after_header :: "u8 \<Rightarrow> u8 \<Rightarrow> u8 \<Rightarrow> u8 \<Rightarrow> ubx_parser \<Rightarrow> ubx_parser" where
  "after_header c mid lo hi p =
     p\<lparr>hdr := \<lparr>msg_class = c, msg_id = mid, payload_length = le16 lo hi\<rparr>,
       acc := fold checksum_update [c, mid, lo, hi] checksum_reset,
       state := if le16 lo hi = 0 then wait_checksum_a else read_payload\<rparr>"

lemma feed_header:
  assumes "idle p" and "parser_inv p"
  shows "feed_bytes [UBX_SYNC_CHAR_1, UBX_SYNC_CHAR_2, c, mid, lo, hi] p =
    Some (if length (buffer p) < unat (le16 lo hi) then emit_error payload_too_large (after_header c mid lo hi p)
          else (after_header c mid lo hi p, []))"
  using assms
  by (auto simp: parser_simps idle_def message_header_init_def parser_inv_def after_header_def le16_def [symmetric])

lemma feed_payload:
  assumes "idle p" and "parser_inv p" and "unat (le16 lo hi) \<le> length (buffer p)" and "length pl \<le> unat (le16 lo hi)"
  shows "\<exists>buf. feed_bytes pl (after_header c mid lo hi p) = Some ((after_header c mid lo hi p)
     \<lparr>buffer := buf, payload_size := length pl, acc := fold checksum_update (c # mid # lo # hi # pl) checksum_reset,
      state := if length pl = unat (le16 lo hi) then wait_checksum_a else read_payload\<rparr>, []) \<and>
     length buf = length (buffer p) \<and> take (length pl) buf = pl"
proof (cases "pl = []")
  case True
  then show ?thesis using assms(1)
    by (intro exI [of _ "buffer p"]) (auto simp: after_header_def idle_def unat_0_iff)
next
  case False
  with assms(4) have nz: "le16 lo hi \<noteq> 0" by auto
  let ?r = "after_header c mid lo hi p"
  have "parser_inv ?r" and "state ?r = read_payload" and "payload_size ?r = 0"
    using assms nz by (auto simp: parser_inv_def after_header_def idle_def unat_gt_0)
  moreover from this have "\<exists>q. feed_bytes pl ?r = Some (q, []) \<and>
    q = ?r\<lparr>buffer := take (payload_size ?r) (buffer ?r) @ pl @ drop (payload_size ?r + length pl) (buffer ?r),
          payload_size := payload_size ?r + length pl, acc := fold checksum_update pl (acc ?r),
          state := if payload_size ?r + length pl = unat (payload_length (hdr ?r)) then wait_checksum_a else read_payload\<rparr>"
    using False assms(4) by (intro read_payload_feed) (auto simp: after_header_def)
  ultimately show ?thesis using assms(3,4)
    by (intro exI [of _ "pl @ drop (length pl) (buffer p)"]) (auto simp: after_header_def)
qed

definition end_of_frame :: "ubx_parser \<Rightarrow> nat \<Rightarrow> nat \<Rightarrow> u8 list \<Rightarrow> u8 \<Rightarrow> u8 \<Rightarrow> ubx_parser" where
  "end_of_frame p ok bad buf a b =
     (reset_frame p)\<lparr>buffer := buf, received_ck_a := a, received_ck_b := b,
        frames_decoded := usz (frames_decoded p + ok), frames_discarded := usz (frames_discarded p + bad)\<rparr>"

lemma feed_checksum:
  assumes "state p = wait_checksum_a" and "acc p = fold checksum_update bs checksum_reset" and "parser_inv p"
    and "has_message_callback p" and "has_error_callback p"
  shows "feed_bytes [a, b] p =
    (if fletcher bs = \<lparr>ck_a = a, ck_b = b\<rparr>
     then Some (end_of_frame p 1 0 (buffer p) a b,
       [Message \<lparr>header = hdr p, payload = Mem (take (payload_size p) (buffer p)), check = fletcher bs\<rparr>])
     else Some (end_of_frame p 0 1 (buffer p) a b,
       [Error \<lparr>code = checksum_mismatch, err_class = msg_class (hdr p), err_id = msg_id (hdr p),
               err_length = payload_length (hdr p)\<rparr>]))"
  using assms
  by (auto simp: parser_simps end_of_frame_def checksum_eq_iff fletcher_def parser_inv_def)


section \<open>The machine computes the scan\<close>

fun messages :: "event list \<Rightarrow> nat" where
  "messages [] = 0"
| "messages (Message m # es) = Suc (messages es)"
| "messages (Error e # es) = messages es"

fun errors :: "event list \<Rightarrow> nat" where
  "errors [] = 0"
| "errors (Message m # es) = errors es"
| "errors (Error e # es) = Suc (errors es)"

definition ready :: "ubx_parser \<Rightarrow> bool" where
  "ready p \<longleftrightarrow> idle p \<and> parser_inv p \<and> has_message_callback p \<and> has_error_callback p"

text \<open>\<open>runs p xs es\<close>: feeding \<open>xs\<close> delivers \<open>es\<close> and counts its messages and errors.\<close>

definition runs :: "ubx_parser \<Rightarrow> u8 list \<Rightarrow> event list \<Rightarrow> bool" where
  "runs p xs es \<longleftrightarrow> (\<exists>q. feed_bytes xs p = Some (q, es) \<and>
     frames_decoded q = usz (frames_decoded p + messages es) \<and>
     frames_discarded q = usz (frames_discarded p + errors es))"

lemma usz_add [simp]: "usz (usz a + b) = usz (a + b)" "usz (Suc (usz a)) = usz (Suc a)"
  by (simp_all add: usz_def mod_simps)

lemma runs_event:
  assumes "feed_bytes xs p = Some (q, [e])" and "runs q ys es"
    and "frames_decoded q = usz (frames_decoded p + messages [e])"
    and "frames_discarded q = usz (frames_discarded p + errors [e])"
  shows "runs p (xs @ ys) (e # es)"
  using assms by (cases e) (auto simp: runs_def feed_bytes_append)

lemma runs_silent:
  "feed_bytes xs p = Some (q, []) \<Longrightarrow> parser_inv p \<Longrightarrow> frames_decoded q = frames_decoded p \<Longrightarrow>
   frames_discarded q = frames_discarded p \<Longrightarrow> runs p xs []"
  by (auto simp: runs_def parser_inv_def)

lemma feed_no_sync:
  assumes "idle p" and "b1 \<noteq> UBX_SYNC_CHAR_1 \<or> b2 \<noteq> UBX_SYNC_CHAR_2"
  shows "feed_bytes (b1 # b2 # rest) p = feed_bytes (b2 # rest) p"
proof -
  have "p\<lparr>state := wait_sync_1\<rparr> = p" using assms(1) by (simp add: idle_def)
  then have p: "feed_bytes rest (p\<lparr>state := wait_sync_1\<rparr>) = feed_bytes rest p" by (rule arg_cong)
  show ?thesis
    using assms p by (auto simp: process_byte_def idle_def case_prod_beta UBX_SYNC_CHAR_1_def UBX_SYNC_CHAR_2_def)
qed

lemma feed_whole_frame:
  assumes "ready p" and n: "unat (le16 lo hi) \<le> length (buffer p)" and "length pl = unat (le16 lo hi)"
  shows "\<exists>q. feed_bytes (UBX_SYNC_CHAR_1 # UBX_SYNC_CHAR_2 # c # mid # lo # hi # pl @ [a, b]) p = Some (q,
      [if fletcher (c # mid # lo # hi # pl) = \<lparr>ck_a = a, ck_b = b\<rparr>
       then Message \<lparr>header = \<lparr>msg_class = c, msg_id = mid, payload_length = le16 lo hi\<rparr>, payload = Mem pl,
                     check = fletcher (c # mid # lo # hi # pl)\<rparr>
       else Error \<lparr>code = checksum_mismatch, err_class = c, err_id = mid, err_length = le16 lo hi\<rparr>]) \<and>
    ready q \<and> length (buffer q) = length (buffer p) \<and>
    (let ok = (if fletcher (c # mid # lo # hi # pl) = \<lparr>ck_a = a, ck_b = b\<rparr> then 1 else 0) in
     frames_decoded q = usz (frames_decoded p + ok) \<and> frames_discarded q = usz (frames_discarded p + (1 - ok)))"
proof -
  have p: "idle p" "parser_inv p" using assms(1) by (auto simp: ready_def)
  obtain buf where buf: "feed_bytes pl (after_header c mid lo hi p) = Some ((after_header c mid lo hi p)
     \<lparr>buffer := buf, payload_size := length pl, acc := fold checksum_update (c # mid # lo # hi # pl) checksum_reset,
      state := wait_checksum_a\<rparr>, [])" "length buf = length (buffer p)" "take (length pl) buf = pl"
    using feed_payload [OF p n, of pl c mid] assms(3) by auto
  let ?s = "(after_header c mid lo hi p)
     \<lparr>buffer := buf, payload_size := length pl, acc := fold checksum_update (c # mid # lo # hi # pl) checksum_reset,
      state := wait_checksum_a\<rparr>"
  have s: "parser_inv ?s" "has_message_callback ?s" "has_error_callback ?s"
    using assms buf by (auto simp: ready_def parser_inv_def after_header_def)
  have "feed_bytes (UBX_SYNC_CHAR_1 # UBX_SYNC_CHAR_2 # c # mid # lo # hi # pl @ [a, b]) p
      = feed_bytes ([UBX_SYNC_CHAR_1, UBX_SYNC_CHAR_2, c, mid, lo, hi] @ pl @ [a, b]) p" by simp
  also have "\<dots> = feed_bytes [a, b] ?s"
    unfolding feed_bytes_append feed_header [OF p] using n buf(1) by (simp add: case_prod_beta del: feed_bytes.simps)
  finally have run: "feed_bytes (UBX_SYNC_CHAR_1 # UBX_SYNC_CHAR_2 # c # mid # lo # hi # pl @ [a, b]) p = feed_bytes [a, b] ?s" .
  have st: "state ?s = wait_checksum_a" "acc ?s = fold checksum_update (c # mid # lo # hi # pl) checksum_reset" by simp_all
  show ?thesis
    unfolding run feed_checksum [OF st s]
    using assms(1) buf(2,3)
    by (auto simp: ready_def idle_def parser_inv_def end_of_frame_def reset_frame_def after_header_def)
qed


text \<open>The two frames that end early: one with an oversized length, one cut off by the end of input.\<close>

lemma feed_oversized:
  assumes "ready p" and "length (buffer p) < unat (le16 lo hi)"
  shows "\<exists>q. feed_bytes [UBX_SYNC_CHAR_1, UBX_SYNC_CHAR_2, c, mid, lo, hi] p = Some (q,
      [Error \<lparr>code = payload_too_large, err_class = c, err_id = mid, err_length = le16 lo hi\<rparr>]) \<and>
    ready q \<and> length (buffer q) = length (buffer p) \<and>
    frames_decoded q = frames_decoded p \<and> frames_discarded q = usz (frames_discarded p + 1)"
proof -
  have p: "idle p" "parser_inv p" using assms(1) by (auto simp: ready_def)
  show ?thesis
    unfolding feed_header [OF p] using assms
    by (auto simp: ready_def idle_def parser_inv_def emit_error_def reset_frame_def after_header_def Let_def)
qed

lemma feed_short_header:
  assumes "ready p" and "\<And>c mid lo hi body. rest \<noteq> c # mid # lo # hi # body"
  shows "runs p (UBX_SYNC_CHAR_1 # UBX_SYNC_CHAR_2 # rest) []"
proof -
  have "length rest < 4"
  proof (rule ccontr)
    assume "\<not> length rest < 4"
    then obtain c mid lo hi body where "rest = c # mid # lo # hi # body"
      by (auto simp: not_less numeral_eq_Suc Suc_le_length_iff)
    with assms(2) show False by blast
  qed
  then consider "rest = []" | c where "rest = [c]" | c m where "rest = [c, m]" | c m lo where "rest = [c, m, lo]"
    by (auto simp: numeral_eq_Suc less_Suc_eq length_Suc_conv)
  then show ?thesis
    using assms(1)
    by cases (auto simp: runs_def ready_def idle_def process_byte_def parser_inv_def UBX_SYNC_CHAR_1_def UBX_SYNC_CHAR_2_def)
qed

lemma feed_short_body:
  assumes "ready p" and n: "unat (le16 lo hi) \<le> length (buffer p)" and "length body < unat (le16 lo hi) + 2"
  shows "runs p (UBX_SYNC_CHAR_1 # UBX_SYNC_CHAR_2 # c # mid # lo # hi # body) []"
proof -
  have p: "idle p" "parser_inv p" using assms(1) by (auto simp: ready_def)
  let ?n = "unat (le16 lo hi)" and ?r = "after_header c mid lo hi p"
  have hdr: "feed_bytes (UBX_SYNC_CHAR_1 # UBX_SYNC_CHAR_2 # c # mid # lo # hi # body) p = feed_bytes body ?r"
    using feed_bytes_append [of "[UBX_SYNC_CHAR_1, UBX_SYNC_CHAR_2, c, mid, lo, hi]" body p] n
    unfolding feed_header [OF p] by (cases "feed_bytes body ?r") (auto simp del: feed_bytes.simps)
  obtain buf where pl: "feed_bytes (take ?n body) ?r = Some (?r
     \<lparr>buffer := buf, payload_size := length (take ?n body), acc := fold checksum_update (c # mid # lo # hi # take ?n body) checksum_reset,
      state := if length (take ?n body) = ?n then wait_checksum_a else read_payload\<rparr>, [])"
    using feed_payload [OF p n, of "take ?n body" c mid] by auto
  have "\<exists>q. feed_bytes body ?r = Some (q, []) \<and> frames_decoded q = frames_decoded p \<and> frames_discarded q = frames_discarded p"
  proof (cases "length body \<le> ?n")
    case True
    with pl show ?thesis by (auto simp: after_header_def)
  next
    case False
    with assms(3) have "length (drop ?n body) = 1" by simp
    then obtain a where "drop ?n body = [a]"
      by (metis One_nat_def length_0_conv length_Suc_conv)
    then have "body = take ?n body @ [a]" by (metis append_take_drop_id)
    with pl False show ?thesis
      using feed_bytes_append [of "take ?n body" "[a]" ?r] by (auto simp: process_byte_def after_header_def)
  qed
  with p(2) hdr show ?thesis by (auto simp: runs_def parser_inv_def)
qed

lemma runs_append_event:
  assumes "\<exists>q. feed_bytes xs p = Some (q, [e]) \<and> ready q \<and> length (buffer q) = length (buffer p) \<and>
      frames_decoded q = usz (frames_decoded p + messages [e]) \<and> frames_discarded q = usz (frames_discarded p + errors [e])"
    and "\<And>q. ready q \<Longrightarrow> length (buffer q) = length (buffer p) \<Longrightarrow> runs q ys es"
  shows "runs p (xs @ ys) (e # es)"
  using assms runs_event by blast

lemma split_frame_tail:
  assumes "n + 2 \<le> length xs"
  shows "\<exists>a b post. xs = take n xs @ a # b # post \<and> length (take n xs) = n"
proof -
  have "2 \<le> length (drop n xs)" using assms by simp
  then obtain a b post where "drop n xs = a # b # post"
    by (cases "drop n xs" rule: remdups_adj.cases) simp_all
  with assms show ?thesis by (metis add_leD1 append_take_drop_id length_take min.absorb2)
qed

lemma ubx_scan_frame:
  "ubx_scan limit (UBX_SYNC_CHAR_1 # UBX_SYNC_CHAR_2 # c # mid # lo # hi # pl @ a # b # rest) =
    (if length pl = unat (le16 lo hi) \<and> length pl \<le> limit
     then (if fletcher (c # mid # lo # hi # pl) = \<lparr>ck_a = a, ck_b = b\<rparr>
           then Message \<lparr>header = \<lparr>msg_class = c, msg_id = mid, payload_length = le16 lo hi\<rparr>, payload = Mem pl,
                         check = fletcher (c # mid # lo # hi # pl)\<rparr>
           else Error \<lparr>code = checksum_mismatch, err_class = c, err_id = mid, err_length = le16 lo hi\<rparr>)
          # ubx_scan limit rest
     else ubx_scan limit (UBX_SYNC_CHAR_1 # UBX_SYNC_CHAR_2 # c # mid # lo # hi # pl @ a # b # rest))"
  by (auto simp: ubx_scan.simps(1) [of limit UBX_SYNC_CHAR_1] Let_def nth_append)

lemma feed_scan: "ready p \<Longrightarrow> runs p xs (ubx_scan (length (buffer p)) xs)"
proof (induction xs arbitrary: p rule: measure_induct_rule [of length])
  case (less xs)
  let ?L = "length (buffer p)"
  note ready = less.prems
  have IH: "\<And>q ys. ready q \<Longrightarrow> length (buffer q) = ?L \<Longrightarrow> length ys < length xs \<Longrightarrow> runs q ys (ubx_scan ?L ys)"
    using less.IH by metis
  consider "xs = []" | b where "xs = [b]" | b1 b2 rest where "xs = b1 # b2 # rest"
    by (metis neq_Nil_conv)
  then show ?case
  proof cases
    case 1
    with ready show ?thesis by (auto simp: ubx_scan.simps runs_def ready_def parser_inv_def)
  next
    case 2
    with ready show ?thesis
      by (auto simp: ubx_scan.simps runs_def process_byte_def ready_def idle_def parser_inv_def)
  next
    case (3 b1 b2 rest)
    show ?thesis
    proof (cases "b1 \<noteq> UBX_SYNC_CHAR_1 \<or> b2 \<noteq> UBX_SYNC_CHAR_2")
      case True
      have "runs p (b2 # rest) (ubx_scan ?L (b2 # rest))" using 3 ready by (intro IH) auto
      with True feed_no_sync [OF _ True, of p rest] ready 3 show ?thesis
        by (simp add: ubx_scan.simps(1) runs_def ready_def)
    next
      case False
      then have sync: "xs = UBX_SYNC_CHAR_1 # UBX_SYNC_CHAR_2 # rest" using 3 by simp
      show ?thesis
      proof (cases "\<exists>c mid lo hi body. rest = c # mid # lo # hi # body")
        case False
        then have "ubx_scan ?L xs = []" by (auto simp: sync ubx_scan.simps(1) split: list.splits)
        with False feed_short_header [OF ready, of rest] show ?thesis by (auto simp: sync)
      next
        case True
        then obtain c mid lo hi body where r: "rest = c # mid # lo # hi # body" by blast
        let ?n = "unat (le16 lo hi)"
        consider "?L < ?n" | "?n \<le> ?L" "length body < ?n + 2" | "?n \<le> ?L" "?n + 2 \<le> length body"
          by linarith
        then show ?thesis
        proof cases
          case 1
          have "runs p ([UBX_SYNC_CHAR_1, UBX_SYNC_CHAR_2, c, mid, lo, hi] @ body) (Error \<lparr>code = payload_too_large,
              err_class = c, err_id = mid, err_length = le16 lo hi\<rparr> # ubx_scan ?L body)"
            using feed_oversized [OF ready 1, of c mid] ready IH [of _ body]
            by (intro runs_append_event) (auto simp: sync r ready_def parser_inv_def simp del: feed_bytes.simps)
          with 1 show ?thesis by (simp add: sync r ubx_scan.simps(1))
        next
          case 2
          then have "ubx_scan ?L xs = []" by (simp add: sync r ubx_scan.simps(1) Let_def)
          with feed_short_body [OF ready 2] show ?thesis by (simp add: sync r)
        next
          case 3
          define pl where "pl = take ?n body"
          obtain a b post where body: "body = pl @ a # b # post" and len: "length pl = ?n"
            using split_frame_tail [OF 3(2)] by (auto simp: pl_def)
          let ?frame = "UBX_SYNC_CHAR_1 # UBX_SYNC_CHAR_2 # c # mid # lo # hi # pl @ [a, b]"
          have "runs p (?frame @ post) ((if fletcher (c # mid # lo # hi # pl) = \<lparr>ck_a = a, ck_b = b\<rparr>
              then Message \<lparr>header = \<lparr>msg_class = c, msg_id = mid, payload_length = le16 lo hi\<rparr>, payload = Mem pl,
                         check = fletcher (c # mid # lo # hi # pl)\<rparr>
              else Error \<lparr>code = checksum_mismatch, err_class = c, err_id = mid, err_length = le16 lo hi\<rparr>)
              # ubx_scan ?L post)"
            using feed_whole_frame [OF ready 3(1) len, of c mid a b] IH [of _ post]
            by (intro runs_append_event) (auto simp: sync r body Let_def simp del: feed_bytes.simps)
          moreover have "xs = ?frame @ post" by (simp add: sync r body)
          moreover have "length pl \<le> ?L" using len 3(1) by simp
          ultimately show ?thesis using ubx_scan_frame [of ?L c mid lo hi pl a b post] len
            by (simp add: sync r body)
        qed
      qed
    qed
  qed
qed


section \<open>What the parser promises\<close>

text \<open>C6: the byte-at-a-time machine computes the scan: fed any input while idle, with both
  callbacks installed, it returns and its callbacks are invoked with exactly the events of the
  scanner over the whole input, in order; the counters advance by the messages and the errors
  among them (modulo the width of \<open>size_t\<close>).\<close>

theorem parser_computes_scan:
  assumes "ready p"
  shows "\<exists>q. feed (Mem xs) p = Some (q, ubx_scan (length (buffer p)) xs) \<and>
    frames_decoded q = usz (frames_decoded p + messages (ubx_scan (length (buffer p)) xs)) \<and>
    frames_discarded q = usz (frames_discarded p + errors (ubx_scan (length (buffer p)) xs))"
  using feed_scan [OF assms, of xs] by (simp add: runs_def)

lemma ready_init:
  "n \<le> 0xFFFF \<Longrightarrow> ready (set_message_callback True (set_error_callback True (ubx_parser_init n)))"
  by (simp add: ready_def idle_def parser_inv_def ubx_parser_init_def set_message_callback_def
      set_error_callback_def size_mod_def)

theorem parser_computes_scan_witness:
  "\<exists>p q. feed (Mem [0x24, 0xB5, 0x62, 5, 1, 2, 0, 6, 0x8A, 0x98, 0xC1, 0xB5, 0x62, 1, 7, 9, 0]) p = Some (q,
     [Message \<lparr>header = \<lparr>msg_class = 5, msg_id = 1, payload_length = 2\<rparr>, payload = Mem [6, 0x8A],
               check = \<lparr>ck_a = 0x98, ck_b = 0xC1\<rparr>\<rparr>,
      Error \<lparr>code = payload_too_large, err_class = 1, err_id = 7, err_length = 9\<rparr>]) \<and>
     frames_decoded q = 1 \<and> frames_discarded q = 1"
proof -
  have "ubx_scan 8 [0x24, 0xB5, 0x62, 5, 1, 2, 0, 6, 0x8A, 0x98, 0xC1, 0xB5, 0x62, 1, 7, 9, 0] =
     [Message \<lparr>header = \<lparr>msg_class = 5, msg_id = 1, payload_length = 2\<rparr>, payload = Mem [6, 0x8A],
               check = \<lparr>ck_a = 0x98, ck_b = 0xC1\<rparr>\<rparr>,
      Error \<lparr>code = payload_too_large, err_class = 1, err_id = 7, err_length = 9\<rparr>]"
    by (simp add: ubx_scan.simps UBX_SYNC_CHAR_1_def UBX_SYNC_CHAR_2_def le16_def fletcher_def
        checksum_update_def checksum_value_def checksum_reset_def Let_def)
  then show ?thesis
    using parser_computes_scan [OF ready_init [of 8],
        of "[0x24, 0xB5, 0x62, 5, 1, 2, 0, 6, 0x8A, 0x98, 0xC1, 0xB5, 0x62, 1, 7, 9, 0]"]
    by (auto simp: set_message_callback_def set_error_callback_def ubx_parser_init_def size_mod_def simp del: feed_Mem)
qed

lemma feed_bytes_inv:
  "parser_inv p \<Longrightarrow> \<exists>q es. feed_bytes xs p = Some (q, es) \<and> parser_inv q \<and> length (buffer q) = length (buffer p)"
proof (induction xs arbitrary: p)
  case (Cons x xs)
  obtain q es where q: "process_byte x p = Some (q, es)" "parser_inv q" "length (buffer q) = length (buffer p)"
    using process_byte_inv [OF Cons.prems] by blast
  with Cons.IH [OF q(2)] show ?case by auto
qed simp

text \<open>C7: safety of the machine from every reachable state, not only the idle one: whatever is
  fed (a null pointer included), no byte is stored outside the payload array, the call returns and
  the invariant on the payload cursor, the header and the counters is kept.\<close>

theorem parser_never_overruns:
  assumes "parser_inv p"
  shows "\<exists>q es. feed data p = Some (q, es) \<and> parser_inv q \<and> length (buffer q) = length (buffer p)"
proof (cases data)
  case (Null n)
  with assms parser_inv_emit_error [OF assms, of invalid_argument] show ?thesis
    by (cases "emit_error invalid_argument p")
      (auto simp: feed_def feed_loop.simps emit_error_def reset_frame_def Let_def)
next
  case (Mem xs)
  with assms feed_bytes_inv show ?thesis by simp
qed

theorem parser_never_overruns_witness:
  "\<exists>q es. feed (Mem [0xB5, 0x62, 1, 2, 3]) (ubx_parser_init 4) = Some (q, es) \<and> parser_inv q \<and>
     length (buffer q) = length (buffer (ubx_parser_init 4))"
  by (rule parser_never_overruns) (simp add: parser_inv_init)

lemma ubx_scan_cases:
  obtains (stop) "ubx_scan limit xs = []"
    | (skip) ys zs where "xs = ys @ zs" "ys \<noteq> []" "ubx_scan limit xs = ubx_scan limit zs"
    | (reject) e ys zs where "xs = ys @ zs" "ys \<noteq> []" "ubx_scan limit xs = Error e # ubx_scan limit zs"
    | (accept) c mid pl zs where "xs = ubx_frame c mid pl @ zs" "length pl \<le> limit" "length pl \<le> 0xFFFF"
        "ubx_scan limit xs = Message ((ubx_view c mid pl)\<lparr>payload := Mem pl\<rparr>) # ubx_scan limit zs"
proof -
  consider "xs = []" | b where "xs = [b]" | b1 b2 rest where "xs = b1 # b2 # rest"
    by (metis neq_Nil_conv)
  then show thesis
  proof cases
    case (3 b1 b2 rest)
    consider "b1 \<noteq> UBX_SYNC_CHAR_1 \<or> b2 \<noteq> UBX_SYNC_CHAR_2"
      | "b1 = UBX_SYNC_CHAR_1" "b2 = UBX_SYNC_CHAR_2" "\<nexists>c mid lo hi body. rest = c # mid # lo # hi # body"
      | c mid lo hi body where "b1 = UBX_SYNC_CHAR_1" "b2 = UBX_SYNC_CHAR_2" "rest = c # mid # lo # hi # body"
      by blast
    then show thesis
    proof cases
      case 1
      with 3 skip [of "[b1]" "b2 # rest"] show thesis by (simp add: ubx_scan.simps(1))
    next
      case 2
      with 3 stop show thesis by (auto simp: ubx_scan.simps(1) split: list.splits)
    next
      case (3 c mid lo hi body)
      note xs = \<open>xs = b1 # b2 # rest\<close> [unfolded 3]
      let ?n = "unat (le16 lo hi)"
      consider "limit < ?n" | "?n \<le> limit" "length body < ?n + 2" | "?n \<le> limit" "?n + 2 \<le> length body"
        by linarith
      then show thesis
      proof cases
        case 1
        with reject [of "[b1, b2, c, mid, lo, hi]" body] show thesis by (simp add: xs 3 ubx_scan.simps(1))
      next
        case 2
        with stop show thesis by (simp add: xs ubx_scan.simps(1) Let_def)
      next
        case fits: 3
        obtain a b post where body: "body = take ?n body @ a # b # post" and len: "length (take ?n body) = ?n"
          using split_frame_tail [OF fits(2)] by auto
        define pl where "pl = take ?n body"
        have body: "body = pl @ a # b # post" and len: "length pl = ?n" using body len by (simp_all add: pl_def)
        have whole: "xs = (UBX_SYNC_CHAR_1 # UBX_SYNC_CHAR_2 # c # mid # lo # hi # pl @ [a, b]) @ post"
          by (simp add: xs body)
        show thesis
        proof (cases "fletcher (c # mid # lo # hi # pl) = \<lparr>ck_a = a, ck_b = b\<rparr>")
          case True
          have lohi: "le16 lo hi = word_of_nat (length pl)" by (simp add: len)
          then have frame: "UBX_SYNC_CHAR_1 # UBX_SYNC_CHAR_2 # c # mid # lo # hi # pl @ [a, b] = ubx_frame c mid pl"
            unfolding ubx_frame_iff le16_unique using True by simp
          have "ubx_body c mid pl = c # mid # lo # hi # pl"
            unfolding ubx_body_def lohi [symmetric] le16_bytes by simp
          then have view: "(ubx_view c mid pl)\<lparr>payload := Mem pl\<rparr> = \<lparr>header = \<lparr>msg_class = c, msg_id = mid,
              payload_length = le16 lo hi\<rparr>, payload = Mem pl, check = fletcher (c # mid # lo # hi # pl)\<rparr>"
            using True lohi by (simp add: ubx_view_def)
          have "xs = ubx_frame c mid pl @ post" using whole unfolding frame .
          moreover have "ubx_scan limit xs = Message ((ubx_view c mid pl)\<lparr>payload := Mem pl\<rparr>) # ubx_scan limit post"
            unfolding view using whole ubx_scan_frame [of limit c mid lo hi pl a b post] len fits(1) True by simp
          moreover have "length pl \<le> limit" "length pl \<le> 0xFFFF" using len fits(1) unat_le16 [of lo hi] by auto
          ultimately show thesis by (intro accept)
        next
          case False
          with reject [of "UBX_SYNC_CHAR_1 # UBX_SYNC_CHAR_2 # c # mid # lo # hi # pl @ [a, b]" post]
          show thesis using whole ubx_scan_frame [of limit c mid lo hi pl a b post] len fits(1) by simp
        qed
      qed
    qed
  qed (use stop in \<open>simp_all add: ubx_scan.simps\<close>)
qed

lemma scan_sound:
  "Message m \<in> set (ubx_scan limit xs) \<Longrightarrow>
   \<exists>pre c mid pl post. xs = pre @ ubx_frame c mid pl @ post \<and> length pl \<le> limit \<and>
     m = (ubx_view c mid pl)\<lparr>payload := Mem pl\<rparr>"
proof (induction xs rule: measure_induct_rule [of length])
  case (less xs)
  show ?case
  proof (cases limit xs rule: ubx_scan_cases)
    case stop
    with less.prems show ?thesis by simp
  next
    case (skip ys zs)
    with less.prems less.IH [of zs] show ?thesis by (metis append.assoc length_append length_greater_0_conv less_add_same_cancel2)
  next
    case (reject e ys zs)
    with less.prems less.IH [of zs] show ?thesis
      by simp (metis append.assoc)
  next
    case (accept c mid pl zs)
    then show ?thesis
    proof (cases "Message m \<in> set (ubx_scan limit zs)")
      case True
      with less.IH [of zs] accept(1) show ?thesis by simp (metis append.assoc)
    next
      case False
      with accept less.prems show ?thesis by simp (metis append_Nil)
    qed
  qed
qed

text \<open>Soundness of delivery: a message handed to the callback is a frame of the input, byte for
  byte with a correct checksum, and its payload fits the parser.\<close>

theorem delivered_messages_are_frames:
  assumes "ready p" and "feed (Mem xs) p = Some (q, es)" and "Message m \<in> set es"
  shows "\<exists>pre c mid pl post. xs = pre @ ubx_frame c mid pl @ post \<and> length pl \<le> length (buffer p) \<and>
    m = (ubx_view c mid pl)\<lparr>payload := Mem pl\<rparr>"
  using feed_scan [OF assms(1), of xs] assms(2,3) scan_sound by (auto simp: runs_def)


theorem delivered_messages_are_frames_witness:
  "\<exists>pre c mid pl post. [0xB5, 0xB5, 0x62, 5, 1, 2, 0, 6, 0x8A, 0x98, 0xC1] = pre @ ubx_frame c mid pl @ post \<and>
    length pl \<le> length (buffer (set_message_callback True (set_error_callback True (ubx_parser_init 8)))) \<and>
    \<lparr>header = \<lparr>msg_class = 5, msg_id = 1, payload_length = 2\<rparr>, payload = Mem [6, 0x8A],
     check = \<lparr>ck_a = 0x98, ck_b = 0xC1\<rparr>\<rparr> = (ubx_view c mid pl)\<lparr>payload := Mem pl\<rparr>"
proof -
  let ?p = "set_message_callback True (set_error_callback True (ubx_parser_init 8))"
  let ?xs = "[0xB5, 0xB5, 0x62, 5, 1, 2, 0, 6, 0x8A, 0x98, 0xC1]"
  have "length (buffer ?p) = 8"
    by (simp add: set_message_callback_def set_error_callback_def ubx_parser_init_def)
  moreover have "ubx_scan 8 ?xs = [Message \<lparr>header = \<lparr>msg_class = 5, msg_id = 1, payload_length = 2\<rparr>,
      payload = Mem [6, 0x8A], check = \<lparr>ck_a = 0x98, ck_b = 0xC1\<rparr>\<rparr>]"
    by (simp add: ubx_scan.simps UBX_SYNC_CHAR_1_def UBX_SYNC_CHAR_2_def le16_def fletcher_def
        checksum_update_def checksum_value_def checksum_reset_def Let_def)
  ultimately obtain q where "feed (Mem ?xs) ?p = Some (q, [Message \<lparr>header = \<lparr>msg_class = 5, msg_id = 1,
      payload_length = 2\<rparr>, payload = Mem [6, 0x8A], check = \<lparr>ck_a = 0x98, ck_b = 0xC1\<rparr>\<rparr>])"
    using feed_scan [OF ready_init [of 8], of ?xs] by (auto simp: runs_def simp del: feed_bytes.simps)
  from delivered_messages_are_frames [OF ready_init this] show ?thesis by simp
qed

definition ubx_stream :: "(u8 \<times> u8 \<times> u8 list) list \<Rightarrow> u8 list" where
  "ubx_stream ms = concat (map (\<lambda>(c, mid, pl). ubx_frame c mid pl) ms)"

definition ubx_events :: "(u8 \<times> u8 \<times> u8 list) list \<Rightarrow> event list" where
  "ubx_events ms = map (\<lambda>(c, mid, pl). Message ((ubx_view c mid pl)\<lparr>payload := Mem pl\<rparr>)) ms"

lemma feed_frame:
  assumes "ready p" and "length pl \<le> length (buffer p)"
  shows "\<exists>q. feed_bytes (ubx_frame c mid pl) p = Some (q, [Message ((ubx_view c mid pl)\<lparr>payload := Mem pl\<rparr>)]) \<and>
    ready q \<and> length (buffer q) = length (buffer p)"
proof -
  define ck where "ck = fletcher (ubx_body c mid pl)"
  have len: "length pl \<le> 0xFFFF" using assms by (simp add: ready_def parser_inv_def)
  obtain lo hi where lh: "le_bytes 2 (word_of_nat (length pl) :: u16) = [lo, hi]" by (simp add: le_bytes_16)
  then have w: "le16 lo hi = word_of_nat (length pl)" using le16_unique by metis
  with len have n: "unat (le16 lo hi) = length pl" by simp
  have body: "ubx_body c mid pl = c # mid # lo # hi # pl" by (simp add: ubx_body_def lh)
  have frame: "ubx_frame c mid pl = UBX_SYNC_CHAR_1 # UBX_SYNC_CHAR_2 # c # mid # lo # hi # pl @ [ck_a ck, ck_b ck]"
    by (simp add: ubx_frame_def body ck_def)
  have view: "(ubx_view c mid pl)\<lparr>payload := Mem pl\<rparr> =
      \<lparr>header = \<lparr>msg_class = c, msg_id = mid, payload_length = le16 lo hi\<rparr>, payload = Mem pl, check = ck\<rparr>"
    by (simp add: ubx_view_def w ck_def)
  have ck: "fletcher (c # mid # lo # hi # pl) = ck" by (simp add: ck_def body)
  have "(ck = \<lparr>ck_a = ck_a ck, ck_b = ck_b ck\<rparr>) = True" by simp
  from feed_whole_frame [OF assms(1) _ n [symmetric], of c mid "ck_a ck" "ck_b ck", unfolded ck n this if_True]
    assms(2) show ?thesis unfolding frame view by blast
qed

text \<open>C8: completeness of delivery: any sequence of encoded messages that fit the parser, sent back
  to back, is delivered in order, none lost, none duplicated, no error reported, and leaves the
  parser idle again.\<close>

theorem frames_are_delivered:
  assumes "ready p" and "\<forall>(c, mid, pl) \<in> set ms. length pl \<le> length (buffer p)"
  shows "\<exists>q. feed (Mem (ubx_stream ms)) p = Some (q, ubx_events ms) \<and> ready q"
  using assms
proof (induction ms arbitrary: p)
  case Nil
  then show ?case by (simp add: ubx_stream_def ubx_events_def)
next
  case (Cons m ms)
  obtain c mid pl where m: "m = (c, mid, pl)" by (cases m)
  with Cons.prems obtain q where q: "feed_bytes (ubx_frame c mid pl) p =
      Some (q, [Message ((ubx_view c mid pl)\<lparr>payload := Mem pl\<rparr>)])" "ready q" "length (buffer q) = length (buffer p)"
    using feed_frame [of p pl c mid] by auto
  with Cons.IH [of q] Cons.prems m show ?case
    by (auto simp: ubx_stream_def ubx_events_def feed_bytes_append)
qed

theorem frames_are_delivered_witness:
  "\<exists>q. feed (Mem (ubx_stream [(5, 1, [6, 0x8A]), (1, 7, [])]))
     (set_message_callback True (set_error_callback True (ubx_parser_init 8)))
   = Some (q, ubx_events [(5, 1, [6, 0x8A]), (1, 7, [])]) \<and> ready q"
  by (rule frames_are_delivered [OF ready_init])
    (simp_all add: set_message_callback_def set_error_callback_def ubx_parser_init_def)

text \<open>The result does not depend on how the stream is cut: feeding two pieces in turn has the
  state and the events of feeding them joined, from any state.\<close>

theorem feed_chunks:
  "feed (Mem (xs @ ys)) p = do {
     (p, es) \<leftarrow> feed (Mem xs) p;
     (p, es') \<leftarrow> feed (Mem ys) p;
     Some (p, es @ es') }"
  by (simp add: feed_bytes_append)

end
