(* ===== verification/UbxPayload.thy ===== *)
theory UbxPayload
  imports Ubx
begin

text \<open>
  Payload cursors and message layouts: \<open>payload_reader\<close>, \<open>payload_writer\<close>, \<open>encode_message\<close> and
  \<open>encode_poll\<close> (\<open>payload_reader.hpp\<close>, \<open>payload_writer.hpp\<close>), \<open>fixed_message\<close>, \<open>typed_message\<close> and the
  repeated groups (\<open>messages/detail\<close>).  A message's \<open>layout(Self&, Stream&)\<close> template is a list of
  verbs; the two streams interpret the same list.  A signed, enumeration or floating-point field is
  the word of its bits.  The outer \<open>None\<close> of a result is an access outside the payload view.
\<close>

section \<open>Layout verbs\<close>

datatype 'm verb =
    Field8 "'m \<Rightarrow> u8" "u8 \<Rightarrow> 'm \<Rightarrow> 'm"
  | Field16 "'m \<Rightarrow> u16" "u16 \<Rightarrow> 'm \<Rightarrow> 'm"
  | Field32 "'m \<Rightarrow> u32" "u32 \<Rightarrow> 'm \<Rightarrow> 'm"
  | Field64 "'m \<Rightarrow> u64" "u64 \<Rightarrow> 'm \<Rightarrow> 'm"
  | Array8 nat "'m \<Rightarrow> u8 list" "u8 list \<Rightarrow> 'm \<Rightarrow> 'm"
  | Array16 nat "'m \<Rightarrow> u16 list" "u16 list \<Rightarrow> 'm \<Rightarrow> 'm"
  | Text nat "'m \<Rightarrow> u8 list" "u8 list \<Rightarrow> 'm \<Rightarrow> 'm"
  | Reserved nat
  | Constant u8

section \<open>Reader\<close>

record payload_reader =
  r_payload :: "u8 ptr"
  r_position :: nat
  r_ok :: bool

definition payload_reader_init :: "u8 ptr \<Rightarrow> payload_reader" where
  "payload_reader_init p =
     \<lparr>r_payload = (if is_null p then Null 0 else p), r_position = 0, r_ok = (\<not> is_null p)\<rparr>"

definition reader_fail :: "payload_reader \<Rightarrow> payload_reader" where
  "reader_fail r = r\<lparr>r_ok := False\<rparr>"

definition reader_remaining :: "payload_reader \<Rightarrow> nat" where
  "reader_remaining r =
     (if r_position r \<le> psize (r_payload r) then psize (r_payload r) - r_position r else 0)"

text \<open>\<open>advance\<close> returns the offset of the bytes it hands out, or \<open>None\<close> for a null pointer.\<close>

definition reader_advance :: "nat \<Rightarrow> payload_reader \<Rightarrow> nat option \<times> payload_reader" where
  "reader_advance count r =
     (if \<not> r_ok r \<or> count > reader_remaining r then (None, r\<lparr>r_ok := False\<rparr>)
      else (Some (r_position r), r\<lparr>r_position := r_position r + count\<rparr>))"

definition reader_skip :: "nat \<Rightarrow> payload_reader \<Rightarrow> bool \<times> payload_reader" where
  "reader_skip count r = (let (d, r) = reader_advance count r in (d \<noteq> None, r))"

definition read_u8 :: "payload_reader \<Rightarrow> (u8 \<times> payload_reader) option" where
  "read_u8 r = (case reader_advance 1 r of
     (None, r) \<Rightarrow> Some (0, r)
   | (Some i, r) \<Rightarrow> do { v \<leftarrow> rd (r_payload r) i; Some (v, r) })"

definition read_u16 :: "payload_reader \<Rightarrow> (u16 \<times> payload_reader) option" where
  "read_u16 r = (case reader_advance 2 r of
     (None, r) \<Rightarrow> Some (0, r)
   | (Some i, r) \<Rightarrow> do { v \<leftarrow> read_le16 (r_payload r) i; Some (v, r) })"

definition read_u32 :: "payload_reader \<Rightarrow> (u32 \<times> payload_reader) option" where
  "read_u32 r = (case reader_advance 4 r of
     (None, r) \<Rightarrow> Some (0, r)
   | (Some i, r) \<Rightarrow> do { v \<leftarrow> read_le32 (r_payload r) i; Some (v, r) })"

definition read_u64 :: "payload_reader \<Rightarrow> (u64 \<times> payload_reader) option" where
  "read_u64 r = (case reader_advance 8 r of
     (None, r) \<Rightarrow> Some (0, r)
   | (Some i, r) \<Rightarrow> do { v \<leftarrow> read_le64 (r_payload r) i; Some (v, r) })"

fun read_array :: "(payload_reader \<Rightarrow> ('w \<times> payload_reader) option) \<Rightarrow> nat \<Rightarrow> payload_reader
    \<Rightarrow> ('w list \<times> payload_reader) option" where
  "read_array read 0 r = Some ([], r)"
| "read_array read (Suc n) r = do {
     (v, r) \<leftarrow> read r;
     (vs, r) \<leftarrow> read_array read n r;
     Some (v # vs, r) }"

definition reader_reserved :: "nat \<Rightarrow> payload_reader \<Rightarrow> payload_reader" where
  "reader_reserved count r = snd (reader_skip count r)"

definition reader_constant :: "u8 \<Rightarrow> payload_reader \<Rightarrow> payload_reader option" where
  "reader_constant expected r = do {
     (v, r) \<leftarrow> read_u8 r;
     Some (if v \<noteq> expected then reader_fail r else r) }"

fun text_loop :: "u8 ptr \<Rightarrow> nat \<Rightarrow> nat \<Rightarrow> u8 list option" where
  "text_loop p i 0 = Some []"
| "text_loop p i (Suc n) = do {
     c \<leftarrow> rd p i;
     if c \<noteq> 0 then map_option (\<lambda>cs. c # cs) (text_loop p (Suc i) n) else Some [] }"

definition reader_text :: "nat \<Rightarrow> payload_reader \<Rightarrow> (u8 list \<times> payload_reader) option" where
  "reader_text width r = (case reader_advance width r of
     (None, r) \<Rightarrow> Some ([], r)
   | (Some i, r) \<Rightarrow> do { cs \<leftarrow> text_loop (r_payload r) i width; Some (cs, r) })"

fun read_verb :: "'m verb \<Rightarrow> 'm \<times> payload_reader \<Rightarrow> ('m \<times> payload_reader) option" where
  "read_verb (Field8 g s) (m, r) = do { (v, r) \<leftarrow> read_u8 r; Some (s v m, r) }"
| "read_verb (Field16 g s) (m, r) = do { (v, r) \<leftarrow> read_u16 r; Some (s v m, r) }"
| "read_verb (Field32 g s) (m, r) = do { (v, r) \<leftarrow> read_u32 r; Some (s v m, r) }"
| "read_verb (Field64 g s) (m, r) = do { (v, r) \<leftarrow> read_u64 r; Some (s v m, r) }"
| "read_verb (Array8 n g s) (m, r) = do { (vs, r) \<leftarrow> read_array read_u8 n r; Some (s vs m, r) }"
| "read_verb (Array16 n g s) (m, r) = do { (vs, r) \<leftarrow> read_array read_u16 n r; Some (s vs m, r) }"
| "read_verb (Text n g s) (m, r) = do { (cs, r) \<leftarrow> reader_text n r; Some (s cs m, r) }"
| "read_verb (Reserved n) (m, r) = Some (m, reader_reserved n r)"
| "read_verb (Constant c) (m, r) = do { r \<leftarrow> reader_constant c r; Some (m, r) }"

fun read_layout :: "'m verb list \<Rightarrow> 'm \<times> payload_reader \<Rightarrow> ('m \<times> payload_reader) option" where
  "read_layout [] mr = Some mr"
| "read_layout (v # vs) mr = do { mr \<leftarrow> read_verb v mr; read_layout vs mr }"

section \<open>Writer\<close>

text \<open>The writer's view is a range of a larger buffer: storage, offset of its first byte, size.\<close>

record payload_writer =
  w_mem :: "u8 ptr"
  w_base :: nat
  w_size :: nat
  w_position :: nat
  w_status :: status

definition payload_writer_init :: "u8 ptr \<Rightarrow> nat \<Rightarrow> nat \<Rightarrow> payload_writer" where
  "payload_writer_init p base n =
     \<lparr>w_mem = p, w_base = base, w_size = (if is_null p then 0 else n), w_position = 0, w_status = status_ok\<rparr>"

definition writer_remaining :: "payload_writer \<Rightarrow> nat" where
  "writer_remaining w = w_size w - w_position w"

definition writer_fail :: "status \<Rightarrow> payload_writer \<Rightarrow> payload_writer" where
  "writer_fail reason w = (if w_status w = status_ok then w\<lparr>w_status := reason\<rparr> else w)"

definition writer_advance :: "nat \<Rightarrow> payload_writer \<Rightarrow> nat option \<times> payload_writer" where
  "writer_advance count w =
     (if w_status w \<noteq> status_ok then (None, w)
      else if count > writer_remaining w then (None, w\<lparr>w_status := status_full\<rparr>)
      else (Some (w_base w + w_position w), w\<lparr>w_position := w_position w + count\<rparr>))"

fun put_loop :: "(nat \<Rightarrow> u8) \<Rightarrow> nat \<Rightarrow> nat \<Rightarrow> nat \<Rightarrow> u8 ptr \<Rightarrow> u8 ptr option" where
  "put_loop f target i 0 p = Some p"
| "put_loop f target i (Suc n) p = do { p \<leftarrow> put p (target + i) (f i); put_loop f target (Suc i) n p }"

definition write_with :: "(nat \<Rightarrow> u8) \<Rightarrow> nat \<Rightarrow> payload_writer \<Rightarrow> payload_writer option" where
  "write_with f count w = (case writer_advance count w of
     (None, w) \<Rightarrow> Some w
   | (Some target, w) \<Rightarrow> do { p \<leftarrow> put_loop f target 0 count (w_mem w); Some (w\<lparr>w_mem := p\<rparr>) })"

definition write_zeros :: "nat \<Rightarrow> payload_writer \<Rightarrow> payload_writer option" where
  "write_zeros count = write_with (\<lambda>_. 0) count"

definition write_bytes :: "u8 ptr \<Rightarrow> nat \<Rightarrow> payload_writer \<Rightarrow> payload_writer option" where
  "write_bytes data count w = (case writer_advance count w of
     (None, w) \<Rightarrow> Some w
   | (Some target, w) \<Rightarrow> do { p \<leftarrow> copy_loop data count target 0 (w_mem w); Some (w\<lparr>w_mem := p\<rparr>) })"

definition write_uint :: "u64 \<Rightarrow> nat \<Rightarrow> payload_writer \<Rightarrow> payload_writer option" where
  "write_uint v width = write_with (\<lambda>i. ucast (drop_bit (i * 8) v)) width"

fun write_array :: "('w \<Rightarrow> payload_writer \<Rightarrow> payload_writer option) \<Rightarrow> 'w list \<Rightarrow> payload_writer \<Rightarrow> payload_writer option" where
  "write_array write [] w = Some w"
| "write_array write (v # vs) w = do { w \<leftarrow> write v w; write_array write vs w }"

definition write_u8 :: "u8 \<Rightarrow> payload_writer \<Rightarrow> payload_writer option" where
  "write_u8 v = write_uint (ucast v) 1"

definition write_u16 :: "u16 \<Rightarrow> payload_writer \<Rightarrow> payload_writer option" where
  "write_u16 v = write_uint (ucast v) 2"

definition write_u32 :: "u32 \<Rightarrow> payload_writer \<Rightarrow> payload_writer option" where
  "write_u32 v = write_uint (ucast v) 4"

definition write_u64 :: "u64 \<Rightarrow> payload_writer \<Rightarrow> payload_writer option" where
  "write_u64 v = write_uint v 8"

definition writer_text :: "nat \<Rightarrow> u8 list \<Rightarrow> payload_writer \<Rightarrow> payload_writer option" where
  "writer_text width cs w = do { w \<leftarrow> write_array write_u8 cs w; write_zeros (width - length cs) w }"

fun write_verb :: "'m \<Rightarrow> 'm verb \<Rightarrow> payload_writer \<Rightarrow> payload_writer option" where
  "write_verb m (Field8 g s) = write_u8 (g m)"
| "write_verb m (Field16 g s) = write_u16 (g m)"
| "write_verb m (Field32 g s) = write_u32 (g m)"
| "write_verb m (Field64 g s) = write_u64 (g m)"
| "write_verb m (Array8 n g s) = write_array write_u8 (g m)"
| "write_verb m (Array16 n g s) = write_array write_u16 (g m)"
| "write_verb m (Text n g s) = writer_text n (g m)"
| "write_verb m (Reserved n) = write_zeros n"
| "write_verb m (Constant c) = write_u8 c"

fun write_layout :: "'m verb list \<Rightarrow> 'm \<Rightarrow> payload_writer \<Rightarrow> payload_writer option" where
  "write_layout [] m w = Some w"
| "write_layout (v # vs) m w = do { w \<leftarrow> write_verb m v w; write_layout vs m w }"


section \<open>Encoding and decoding a message\<close>

definition encode_message :: "u8 \<Rightarrow> u8 \<Rightarrow> (payload_writer \<Rightarrow> payload_writer option) \<Rightarrow> u8 ptr
    \<Rightarrow> (status \<times> nat \<times> u8 ptr) option" where
  "encode_message c mid encode out =
     (if is_null out then Some (status_invalid_argument, 0, out)
      else if psize out < UBX_FRAME_OVERHEAD then Some (status_full, 0, out)
      else
        let payload_capacity = psize out - UBX_FRAME_OVERHEAD;
            payload_capacity = (if payload_capacity > unat UBX_MAX_PAYLOAD_LEN then unat UBX_MAX_PAYLOAD_LEN
                                else payload_capacity) in do {
        w \<leftarrow> encode (payload_writer_init out UBX_FRAME_INDEX_PAYLOAD payload_capacity);
        if w_status w \<noteq> status_ok then Some (w_status w, 0, w_mem w)
        else
          let len = word_of_nat (w_position w) :: u16 in do {
          out \<leftarrow> put (w_mem w) 0 UBX_SYNC_CHAR_1;
          out \<leftarrow> put out 1 UBX_SYNC_CHAR_2;
          out \<leftarrow> put out 2 c;
          out \<leftarrow> put out 3 mid;
          out \<leftarrow> write_le16 out 4 len;
          ck \<leftarrow> compute_frame_checksum c mid len (sub_ptr out UBX_FRAME_INDEX_PAYLOAD (unat len));
          let ck_a_index = UBX_FRAME_INDEX_PAYLOAD + unat len in do {
          out \<leftarrow> put out ck_a_index (ck_a ck);
          out \<leftarrow> put out (ck_a_index + 1) (ck_b ck);
          Some (status_ok, frame_size (unat len), out) } } })"

definition encode_poll :: "u8 \<Rightarrow> u8 \<Rightarrow> u8 ptr \<Rightarrow> (status \<times> nat \<times> u8 ptr) option" where
  "encode_poll c mid out = encode_frame c mid (Null 0) out"

text \<open>A fixed message is its class, ID, payload length, initial value and layout.\<close>

record 'm message_type =
  mt_class :: u8
  mt_id :: u8
  mt_length :: nat
  mt_init :: 'm
  mt_layout :: "'m verb list"

definition fixed_matches :: "'m message_type \<Rightarrow> message_view \<Rightarrow> bool" where
  "fixed_matches t raw = message_view_is raw (mt_class t) (mt_id t)"

definition fixed_decode :: "'m message_type \<Rightarrow> message_view \<Rightarrow> (bool \<times> 'm) option" where
  "fixed_decode t raw =
     (if \<not> fixed_matches t raw \<or> unat (payload_length (header raw)) \<noteq> mt_length t then Some (False, mt_init t)
      else do {
        (out, r) \<leftarrow> read_layout (mt_layout t) (mt_init t, payload_reader_init (payload raw));
        Some (if \<not> r_ok r then (False, mt_init t) else (True, out)) })"

definition fixed_encode :: "'m message_type \<Rightarrow> 'm \<Rightarrow> payload_writer \<Rightarrow> payload_writer option" where
  "fixed_encode t m = write_layout (mt_layout t) m"

definition typed_matches :: "'m message_type \<Rightarrow> u8 \<Rightarrow> message_view \<Rightarrow> bool option" where
  "typed_matches t type raw =
     (if message_view_is raw (mt_class t) (mt_id t) \<and> unat (payload_length (header raw)) = mt_length t
      then map_option (\<lambda>b. b = type) (rd (payload raw) 0)
      else Some False)"

text \<open>\<open>typed_message\<close> inherits \<open>decode\<close> and \<open>encode\<close> from \<open>fixed_message\<close>, whose \<open>matches\<close> is the
  statically resolved one.\<close>

definition encode_fixed_message :: "'m message_type \<Rightarrow> 'm \<Rightarrow> u8 ptr \<Rightarrow> (status \<times> nat \<times> u8 ptr) option" where
  "encode_fixed_message t m out = encode_message (mt_class t) (mt_id t) (fixed_encode t m) out"

section \<open>Repeated groups\<close>

definition has_group_length :: "nat \<Rightarrow> nat \<Rightarrow> nat \<Rightarrow> nat \<Rightarrow> bool" where
  "has_group_length payload_len header_len count block_size =
     (payload_len = usz (header_len + usz (count * block_size)))"

definition implied_group_count :: "nat \<Rightarrow> nat \<Rightarrow> nat \<Rightarrow> bool \<times> nat" where
  "implied_group_count payload_len header_len block_size =
     (if payload_len < header_len \<or> (payload_len - header_len) mod block_size \<noteq> 0 then (False, 0)
      else (True, (payload_len - header_len) div block_size))"

text \<open>\<open>capacity\<close> is that of the destination vector; \<open>n\<close> counts the blocks still on the wire.\<close>

fun read_group_loop :: "'b verb list \<Rightarrow> 'b \<Rightarrow> nat \<Rightarrow> nat \<Rightarrow> nat \<Rightarrow> 'b list \<times> payload_reader
    \<Rightarrow> ('b list \<times> payload_reader) option" where
  "read_group_loop layout b0 wire_size capacity 0 (out, r) = Some (out, r)"
| "read_group_loop layout b0 wire_size capacity (Suc n) (out, r) =
     (if length out = capacity then Some (out, snd (reader_skip (usz (Suc n * wire_size)) r))
      else do {
        (b, r) \<leftarrow> read_layout layout (b0, r);
        read_group_loop layout b0 wire_size capacity n (out @ [b], r) })"

definition read_group :: "'b verb list \<Rightarrow> 'b \<Rightarrow> nat \<Rightarrow> nat \<Rightarrow> nat \<Rightarrow> payload_reader
    \<Rightarrow> ('b list \<times> payload_reader) option" where
  "read_group layout b0 wire_size capacity wire_count r =
     read_group_loop layout b0 wire_size capacity wire_count ([], r)"

fun write_group :: "'b verb list \<Rightarrow> 'b list \<Rightarrow> payload_writer \<Rightarrow> payload_writer option" where
  "write_group layout [] w = Some w"
| "write_group layout (b # bs) w = do { w \<leftarrow> write_layout layout b w; write_group layout bs w }"

function read_tail_loop :: "nat \<Rightarrow> u8 list \<times> payload_reader \<Rightarrow> (u8 list \<times> payload_reader) option" where
  "read_tail_loop capacity (out, r) =
     (if reader_remaining r > 0 \<and> length out < capacity
      then do { (v, r) \<leftarrow> read_u8 r; read_tail_loop capacity (out @ [v], r) }
      else Some (out, r))"
  by pat_completeness auto
termination
  by (relation "measure (\<lambda>(capacity, out, r). capacity - length out)") auto

declare read_tail_loop.simps [simp del]

definition read_tail :: "nat \<Rightarrow> payload_reader \<Rightarrow> (u8 list \<times> payload_reader) option" where
  "read_tail capacity r = do {
     (out, r) \<leftarrow> read_tail_loop capacity ([], r);
     Some (out, snd (reader_skip (reader_remaining r) r)) }"

definition write_tail :: "u8 list \<Rightarrow> payload_writer \<Rightarrow> payload_writer option" where
  "write_tail data w = write_array write_u8 data w"

section \<open>The bytes of a layout\<close>

fun verb_bytes :: "'m \<Rightarrow> 'm verb \<Rightarrow> u8 list" where
  "verb_bytes m (Field8 g s) = [g m]"
| "verb_bytes m (Field16 g s) = le_bytes 2 (g m)"
| "verb_bytes m (Field32 g s) = le_bytes 4 (g m)"
| "verb_bytes m (Field64 g s) = le_bytes 8 (g m)"
| "verb_bytes m (Array8 n g s) = g m"
| "verb_bytes m (Array16 n g s) = concat (map (le_bytes 2) (g m))"
| "verb_bytes m (Text n g s) = g m @ replicate (n - length (g m)) 0"
| "verb_bytes m (Reserved n) = replicate n 0"
| "verb_bytes m (Constant c) = [c]"

fun verb_size :: "'m verb \<Rightarrow> nat" where
  "verb_size (Field8 g s) = 1"
| "verb_size (Field16 g s) = 2"
| "verb_size (Field32 g s) = 4"
| "verb_size (Field64 g s) = 8"
| "verb_size (Array8 n g s) = n"
| "verb_size (Array16 n g s) = 2 * n"
| "verb_size (Text n g s) = n"
| "verb_size (Reserved n) = n"
| "verb_size (Constant c) = 1"

text \<open>A value the C++ type can hold: arrays have their length, a text fits its width and has no NUL.\<close>

fun verb_ok :: "'m \<Rightarrow> 'm verb \<Rightarrow> bool" where
  "verb_ok m (Array8 n g s) = (length (g m) = n)"
| "verb_ok m (Array16 n g s) = (length (g m) = n)"
| "verb_ok m (Text n g s) = (length (g m) \<le> n \<and> 0 \<notin> set (g m))"
| "verb_ok m _ = True"

fun assign :: "'m \<Rightarrow> 'm verb \<Rightarrow> 'm \<Rightarrow> 'm" where
  "assign m (Field8 g s) = s (g m)"
| "assign m (Field16 g s) = s (g m)"
| "assign m (Field32 g s) = s (g m)"
| "assign m (Field64 g s) = s (g m)"
| "assign m (Array8 n g s) = s (g m)"
| "assign m (Array16 n g s) = s (g m)"
| "assign m (Text n g s) = s (g m)"
| "assign m (Reserved n) = id"
| "assign m (Constant c) = id"

definition layout_bytes :: "'m verb list \<Rightarrow> 'm \<Rightarrow> u8 list" where
  "layout_bytes vs m = concat (map (verb_bytes m) vs)"

definition layout_size :: "'m verb list \<Rightarrow> nat" where
  "layout_size vs = sum_list (map verb_size vs)"

definition layout_ok :: "'m verb list \<Rightarrow> 'm \<Rightarrow> bool" where
  "layout_ok vs m = list_all (verb_ok m) vs"

lemma length_verb_bytes: "verb_ok m v \<Longrightarrow> length (verb_bytes m v) = verb_size v"
  by (cases v) (auto simp: length_concat o_def sum_list_triv)

lemma length_layout_bytes: "layout_ok vs m \<Longrightarrow> length (layout_bytes vs m) = layout_size vs"
  by (induction vs) (simp_all add: layout_ok_def layout_bytes_def layout_size_def length_verb_bytes)


section \<open>Reading what a layout wrote\<close>

definition ahead :: "payload_reader \<Rightarrow> u8 list \<Rightarrow> bool" where
  "ahead r bs \<longleftrightarrow> r_ok r \<and> (\<exists>pre. r_payload r = Mem (pre @ bs) \<and> r_position r = length pre)"

definition moved :: "nat \<Rightarrow> payload_reader \<Rightarrow> payload_reader" where
  "moved n r = r\<lparr>r_position := r_position r + n\<rparr>"

text \<open>\<open>reads\<close>: with \<open>bs\<close> ahead, the operation yields \<open>v\<close> and moves past \<open>bs\<close>.\<close>

definition reads :: "(payload_reader \<Rightarrow> ('v \<times> payload_reader) option) \<Rightarrow> u8 list \<Rightarrow> 'v \<Rightarrow> bool" where
  "reads f bs v \<longleftrightarrow> (\<forall>r rest. ahead r (bs @ rest) \<longrightarrow> f r = Some (v, moved (length bs) r))"

lemma readsD: "reads f bs v \<Longrightarrow> ahead r (bs @ rest) \<Longrightarrow> f r = Some (v, moved (length bs) r)"
  unfolding reads_def by blast

lemma ahead_moved:
  assumes "ahead r (bs @ rest)"
  shows "ahead (moved (length bs) r) rest"
proof -
  obtain pre where "r_ok r" "r_payload r = Mem (pre @ bs @ rest)" "r_position r = length pre"
    using assms by (auto simp: ahead_def)
  then show ?thesis by (auto simp: ahead_def moved_def intro!: exI [of _ "pre @ bs"])
qed

lemma ahead_advance:
  "ahead r (bs @ rest) \<Longrightarrow> reader_advance (length bs) r = (Some (r_position r), moved (length bs) r)"
  by (auto simp: reader_advance_def reader_remaining_def ahead_def moved_def)

lemma ahead_mem:
  "ahead r (bs @ rest) \<Longrightarrow> \<exists>pre. r_payload r = Mem (pre @ bs @ rest) \<and> r_position r = length pre"
  by (auto simp: ahead_def)

lemma rd_append [simp]: "rd (Mem (pre @ b # rest)) (length pre) = Some b"
  by simp

lemma store_self: "store (Mem (pre @ vs @ rest)) (length pre) vs = Some (Mem (pre @ vs @ rest))"
  by simp

lemma reads_u8: "reads read_u8 [b] b"
  unfolding reads_def
proof (intro allI impI)
  fix r rest assume a: "ahead r ([b] @ rest)"
  obtain pre where "r_payload r = Mem (pre @ [b] @ rest)" "r_position r = length pre"
    using ahead_mem [OF a] by blast
  with ahead_advance [OF a] show "read_u8 r = Some (b, moved (length [b]) r)"
    by (simp add: read_u8_def moved_def)
qed

lemma reads_words:
  "reads read_u16 (le_bytes 2 v16) v16" "reads read_u32 (le_bytes 4 v32) v32" "reads read_u64 (le_bytes 8 v64) v64"
proof -
  have pos: "\<exists>pre. r_payload r = Mem (pre @ bs @ rest) \<and> r_position r = length pre \<and>
      reader_advance (length bs) r = (Some (length pre), moved (length bs) r)" if "ahead r (bs @ rest)" for r bs rest
    using ahead_mem [OF that] ahead_advance [OF that] by auto
  show "reads read_u16 (le_bytes 2 v16) v16"
    using pos [of _ "le_bytes 2 v16"] read_le16_store [OF store_self]
    by (fastforce simp: reads_def read_u16_def moved_def)
  show "reads read_u32 (le_bytes 4 v32) v32"
    using pos [of _ "le_bytes 4 v32"] read_le32_store [OF store_self]
    by (fastforce simp: reads_def read_u32_def moved_def)
  show "reads read_u64 (le_bytes 8 v64) v64"
    using pos [of _ "le_bytes 8 v64"] read_le64_store [OF store_self]
    by (fastforce simp: reads_def read_u64_def moved_def)
qed

lemma moved_moved [simp]: "moved n (moved m r) = moved (m + n) r"
  by (simp add: moved_def add.assoc)

lemma moved_0 [simp]: "moved 0 r = r"
  by (simp add: moved_def)

lemma reads_array:
  assumes "\<And>v. reads f (enc v) v"
  shows "reads (read_array f (length vs)) (concat (map enc vs)) vs"
proof (induction vs)
  case Nil
  show ?case by (simp add: reads_def)
next
  case (Cons v vs)
  show ?case unfolding reads_def
  proof (intro allI impI)
    fix r rest assume a: "ahead r (concat (map enc (v # vs)) @ rest)"
    then have a1: "ahead r (enc v @ (concat (map enc vs) @ rest))" by simp
    from readsD [OF assms a1] readsD [OF Cons.IH ahead_moved [OF a1]]
    show "read_array f (length (v # vs)) r = Some (v # vs, moved (length (concat (map enc (v # vs)))) r)"
      by simp
  qed
qed

lemma text_loop_text:
  "0 \<notin> set cs \<Longrightarrow> length cs \<le> n \<Longrightarrow>
   text_loop (Mem (pre @ cs @ replicate (n - length cs) 0 @ rest)) (length pre) n = Some cs"
proof (induction cs arbitrary: pre n)
  case Nil
  then show ?case by (cases n) auto
next
  case (Cons c cs)
  then obtain k where n: "n = Suc k" by (cases n) auto
  from Cons n have "text_loop (Mem ((pre @ [c]) @ cs @ replicate (k - length cs) 0 @ rest)) (length (pre @ [c])) k = Some cs"
    by (intro Cons.IH) auto
  with Cons n show ?case by (auto simp: nth_append)
qed

lemma reads_text:
  assumes "0 \<notin> set cs" and "length cs \<le> n"
  shows "reads (reader_text n) (cs @ replicate (n - length cs) 0) cs"
  unfolding reads_def
proof (intro allI impI)
  fix r rest assume a: "ahead r ((cs @ replicate (n - length cs) 0) @ rest)"
  obtain pre where "r_payload r = Mem (pre @ (cs @ replicate (n - length cs) 0) @ rest)" "r_position r = length pre"
    using ahead_mem [OF a] by blast
  with ahead_advance [OF a] assms text_loop_text [OF assms, of pre rest]
  show "reader_text n r = Some (cs, moved (length (cs @ replicate (n - length cs) 0)) r)"
    by (simp add: reader_text_def moved_def)
qed

lemma read_verb_bytes:
  assumes "ahead r (verb_bytes m v @ rest)" and "verb_ok m v"
  shows "read_verb v (m0, r) = Some (assign m v m0, moved (verb_size v) r)"
proof (cases v)
  case (Reserved n)
  with assms have "ahead r (replicate n 0 @ rest)" by simp
  from ahead_advance [OF this] show ?thesis
    by (simp add: Reserved reader_reserved_def reader_skip_def)
next
  case (Constant c)
  with assms have "ahead r ([c] @ rest)" by simp
  from readsD [OF reads_u8 this] show ?thesis by (simp add: Constant reader_constant_def)
next
  case (Array8 n g s)
  have "reads (read_array read_u8 (length (g m))) (concat (map (\<lambda>b. [b]) (g m))) (g m)"
    by (intro reads_array reads_u8)
  with assms readsD [OF this] show ?thesis by (simp add: Array8)
next
  case (Array16 n g s)
  have "reads (read_array read_u16 (length (g m))) (concat (map (le_bytes 2) (g m))) (g m)"
    by (intro reads_array reads_words)
  with assms readsD [OF this] show ?thesis by (simp add: Array16 length_concat o_def sum_list_triv mult.commute)
next
  case (Text n g s)
  with assms readsD [OF reads_text] show ?thesis by fastforce
next
  case (Field8 g s)
  with assms readsD [OF reads_u8, of r "g m" rest] show ?thesis by simp
next
  case (Field16 g s)
  with assms readsD [OF reads_words(1), of r "g m" rest] show ?thesis by simp
next
  case (Field32 g s)
  with assms readsD [OF reads_words(2), of r "g m" rest] show ?thesis by simp
next
  case (Field64 g s)
  with assms readsD [OF reads_words(3), of r "g m" rest] show ?thesis by simp
qed

lemma read_layout_bytes:
  "ahead r (layout_bytes vs m @ rest) \<Longrightarrow> layout_ok vs m \<Longrightarrow>
   read_layout vs (m0, r) = Some (fold (assign m) vs m0, moved (layout_size vs) r)"
proof (induction vs arbitrary: m0 r)
  case Nil
  then show ?case by (simp add: layout_size_def)
next
  case (Cons v vs)
  then have a: "ahead r (verb_bytes m v @ (layout_bytes vs m @ rest))" and ok: "verb_ok m v" "layout_ok vs m"
    by (simp_all add: layout_bytes_def layout_ok_def)
  have "ahead (moved (verb_size v) r) (layout_bytes vs m @ rest)"
    using ahead_moved [OF a] length_verb_bytes [OF ok(1)] by simp
  with Cons.IH [OF this ok(2)] read_verb_bytes [OF a ok(1), of m0] show ?case
    by (simp add: layout_size_def)
qed


section \<open>What the writer stores\<close>

lemma put_loop_store: "put_loop f t i n p = store p (t + i) (map f [i..<i + n])"
proof (induction n arbitrary: i p)
  case (Suc n)
  have "map f [i..<i + Suc n] = f i # map f [Suc i..<Suc i + n]"
    by (simp add: upt_conv_Cons del: upt_Suc)
  moreover have "put_loop f t (Suc i) n = (\<lambda>q. store q (Suc (t + i)) (map f [Suc i..<Suc i + n]))"
    by (rule ext) (simp add: Suc.IH del: upt_Suc)
  ultimately show ?case by (simp add: store_Cons del: upt_Suc)
qed simp

text \<open>\<open>writes\<close>: with room for \<open>bs\<close>, the operation stores them at the cursor and moves past them.\<close>

definition stored :: "u8 list \<Rightarrow> payload_writer \<Rightarrow> payload_writer option" where
  "stored bs w = map_option (\<lambda>p. w\<lparr>w_mem := p, w_position := w_position w + length bs\<rparr>)
     (store (w_mem w) (w_base w + w_position w) bs)"

definition writes :: "(payload_writer \<Rightarrow> payload_writer option) \<Rightarrow> u8 list \<Rightarrow> bool" where
  "writes f bs \<longleftrightarrow> (\<forall>w. w_status w = status_ok \<longrightarrow> w_position w + length bs \<le> w_size w \<longrightarrow> f w = stored bs w)"

lemma stored_Nil [simp]: "stored [] w = Some w"
  by (simp add: stored_def)

lemma stored_append: "Option.bind (stored us w) (stored vs) = stored (us @ vs) w"
  by (cases "store (w_mem w) (w_base w + w_position w) us")
    (auto simp: stored_def store_append [symmetric] add.assoc option.map_comp o_def)

lemma writesD:
  "writes f bs \<Longrightarrow> w_status w = status_ok \<Longrightarrow> w_position w + length bs \<le> w_size w \<Longrightarrow> f w = stored bs w"
  by (simp add: writes_def)

lemma stored_status: "stored bs w = Some w' \<Longrightarrow>
   w_status w' = w_status w \<and> w_size w' = w_size w \<and> w_position w' = w_position w + length bs"
  by (auto simp: stored_def)

lemma writes_seq:
  assumes "writes f us" and "writes g vs"
  shows "writes (\<lambda>w. Option.bind (f w) g) (us @ vs)"
  unfolding writes_def
proof (intro allI impI)
  fix w :: payload_writer
  assume w: "w_status w = status_ok" "w_position w + length (us @ vs) \<le> w_size w"
  then have "f w = stored us w" using assms(1) by (auto intro: writesD)
  moreover have "g w' = stored vs w'" if "stored us w = Some w'" for w'
    using stored_status [OF that] w assms(2) by (auto intro: writesD)
  ultimately show "Option.bind (f w) g = stored (us @ vs) w"
    by (cases "stored us w") (simp_all add: stored_append [symmetric])
qed

lemma writes_with: "writes (write_with f n) (map f [0..<n])"
  by (auto simp: writes_def write_with_def writer_advance_def writer_remaining_def put_loop_store stored_def
      map_option_case bind_eq_Some_conv split: option.splits)

lemma writes_cong: "writes f bs \<Longrightarrow> bs = cs \<Longrightarrow> writes f cs"
  by simp

lemma writes_zeros: "writes (write_zeros n) (replicate n 0)"
  using writes_with [of "\<lambda>_. 0" n] by (simp add: write_zeros_def map_replicate_const)

lemma ucast_drop: "k + 8 \<le> LENGTH('a::len) \<Longrightarrow> LENGTH('a) \<le> 64 \<Longrightarrow>
   ucast (drop_bit k (ucast (v :: 'a word) :: u64)) = (ucast (drop_bit k v) :: u8)"
  by (rule bit_word_eqI) (auto simp: bit_simps)

lemma ucast_up_down: "LENGTH('a::len) \<le> 64 \<Longrightarrow> 8 \<le> LENGTH('a) \<Longrightarrow>
   ucast (ucast (v :: 'a word) :: u64) = (ucast v :: u8)"
  by (rule bit_word_eqI) (auto simp: bit_simps)

lemma writes_u8: "writes (write_u8 b) [b]"
  using writes_with [of "\<lambda>i. ucast (drop_bit (i * 8) (ucast b :: u64))" 1]
  by (simp add: write_u8_def [abs_def] write_uint_def [abs_def] ucast_up_down)

lemma writes_words: "writes (write_u16 v16) (le_bytes 2 v16)" "writes (write_u32 v32) (le_bytes 4 v32)"
  "writes (write_u64 v64) (le_bytes 8 v64)"
  using writes_with [of "\<lambda>i. ucast (drop_bit (i * 8) (ucast v16 :: u64))" 2]
    writes_with [of "\<lambda>i. ucast (drop_bit (i * 8) (ucast v32 :: u64))" 4]
    writes_with [of "\<lambda>i. ucast (drop_bit (i * 8) v64)" 8]
  by (simp_all add: write_u16_def [abs_def] write_u32_def [abs_def] write_u64_def [abs_def] write_uint_def [abs_def]
      le_bytes_def ucast_drop ucast_up_down upt_rec)

lemma writes_array:
  assumes "\<And>v. writes (f v) (enc v)"
  shows "writes (write_array f vs) (concat (map enc vs))"
proof (induction vs)
  case (Cons v vs)
  have "write_array f (v # vs) = (\<lambda>w. Option.bind (f v w) (write_array f vs))" by (simp add: fun_eq_iff)
  then show ?case using writes_seq [OF assms Cons.IH, of v] by simp
qed (simp add: writes_def)

lemma writes_verb: "verb_ok m v \<Longrightarrow> writes (write_verb m v) (verb_bytes m v)"
proof (cases v)
  case (Array8 n g s)
  have "writes (write_array write_u8 (g m)) (concat (map (\<lambda>b. [b]) (g m)))" by (intro writes_array writes_u8)
  then show ?thesis by (simp add: Array8)
next
  case (Array16 n g s)
  show ?thesis by (simp add: Array16 writes_array writes_words)
next
  case (Text n g s)
  have "writes (write_array write_u8 (g m)) (concat (map (\<lambda>b. [b]) (g m)))" by (intro writes_array writes_u8)
  then show ?thesis using writes_seq [OF _ writes_zeros, of "write_array write_u8 (g m)" "g m" "n - length (g m)"]
    by (simp add: Text writer_text_def [abs_def])
qed (simp_all add: writes_u8 writes_words writes_zeros)

lemma writes_layout: "layout_ok vs m \<Longrightarrow> writes (write_layout vs m) (layout_bytes vs m)"
proof (induction vs)
  case Nil
  then show ?case by (simp add: layout_bytes_def writes_def)
next
  case (Cons v vs)
  then have "writes (write_verb m v) (verb_bytes m v)" "writes (write_layout vs m) (layout_bytes vs m)"
    by (simp_all add: layout_ok_def writes_verb)
  moreover have "write_layout (v # vs) m = (\<lambda>w. Option.bind (write_verb m v w) (write_layout vs m))"
    by (simp add: fun_eq_iff)
  ultimately show ?case using writes_seq by (simp add: layout_bytes_def)
qed


text \<open>A writer whose view lies inside its buffer; no operation leaves it, and one that does not fit
  latches \<open>full\<close>, which every later operation keeps.\<close>

definition writer_inv :: "payload_writer \<Rightarrow> bool" where
  "writer_inv w \<longleftrightarrow> \<not> is_null (w_mem w) \<and> w_base w + w_size w \<le> psize (w_mem w) \<and> w_position w \<le> w_size w"

definition limits :: "(payload_writer \<Rightarrow> payload_writer option) \<Rightarrow> nat \<Rightarrow> bool" where
  "limits f n \<longleftrightarrow> (\<forall>w. writer_inv w \<longrightarrow> (\<exists>w'. f w = Some w' \<and> writer_inv w' \<and> w_size w' = w_size w \<and>
     w_base w' = w_base w \<and> psize (w_mem w') = psize (w_mem w) \<and>
     w_status w' = (if w_status w \<noteq> status_ok then w_status w
                    else if w_position w + n \<le> w_size w then status_ok else status_full) \<and>
     (w_status w = status_ok \<and> w_position w + n \<le> w_size w \<longrightarrow> w_position w' = w_position w + n)))"

lemma limitsD: "limits f n \<Longrightarrow> writer_inv w \<Longrightarrow> \<exists>w'. f w = Some w' \<and> writer_inv w' \<and> w_size w' = w_size w \<and>
     w_base w' = w_base w \<and> psize (w_mem w') = psize (w_mem w) \<and>
     w_status w' = (if w_status w \<noteq> status_ok then w_status w
                    else if w_position w + n \<le> w_size w then status_ok else status_full) \<and>
     (w_status w = status_ok \<and> w_position w + n \<le> w_size w \<longrightarrow> w_position w' = w_position w + n)"
  unfolding limits_def by blast

lemma limits_seq:
  assumes "limits f n" and "limits g k"
  shows "limits (\<lambda>w. Option.bind (f w) g) (n + k)"
  unfolding limits_def
proof (intro allI impI)
  fix w :: payload_writer assume "writer_inv w"
  from limitsD [OF assms(1) this] obtain w1 where w1: "f w = Some w1" "writer_inv w1" "w_size w1 = w_size w"
    "w_base w1 = w_base w" "psize (w_mem w1) = psize (w_mem w)"
    "w_status w1 = (if w_status w \<noteq> status_ok then w_status w
                    else if w_position w + n \<le> w_size w then status_ok else status_full)"
    "w_status w = status_ok \<and> w_position w + n \<le> w_size w \<longrightarrow> w_position w1 = w_position w + n" by blast
  from limitsD [OF assms(2) w1(2)] obtain w2 where w2: "g w1 = Some w2" "writer_inv w2" "w_size w2 = w_size w1"
    "w_base w2 = w_base w1" "psize (w_mem w2) = psize (w_mem w1)"
    "w_status w2 = (if w_status w1 \<noteq> status_ok then w_status w1
                    else if w_position w1 + k \<le> w_size w1 then status_ok else status_full)"
    "w_status w1 = status_ok \<and> w_position w1 + k \<le> w_size w1 \<longrightarrow> w_position w2 = w_position w1 + k" by blast
  show "\<exists>w'. Option.bind (f w) g = Some w' \<and> writer_inv w' \<and> w_size w' = w_size w \<and>
     w_base w' = w_base w \<and> psize (w_mem w') = psize (w_mem w) \<and>
     w_status w' = (if w_status w \<noteq> status_ok then w_status w
                    else if w_position w + (n + k) \<le> w_size w then status_ok else status_full) \<and>
     (w_status w = status_ok \<and> w_position w + (n + k) \<le> w_size w \<longrightarrow> w_position w' = w_position w + (n + k))"
    using w1 w2 by (auto split: if_splits)
qed

lemma limits_with: "limits (write_with f n) n"
  unfolding limits_def
proof (intro allI impI)
  fix w :: payload_writer assume w: "writer_inv w"
  then obtain xs where xs: "w_mem w = Mem xs" by (cases "w_mem w") (auto simp: writer_inv_def)
  show "\<exists>w'. write_with f n w = Some w' \<and> writer_inv w' \<and> w_size w' = w_size w \<and>
     w_base w' = w_base w \<and> psize (w_mem w') = psize (w_mem w) \<and>
     w_status w' = (if w_status w \<noteq> status_ok then w_status w
                    else if w_position w + n \<le> w_size w then status_ok else status_full) \<and>
     (w_status w = status_ok \<and> w_position w + n \<le> w_size w \<longrightarrow> w_position w' = w_position w + n)"
    using w xs
    by (auto simp: write_with_def writer_advance_def writer_remaining_def put_loop_store writer_inv_def)
qed

lemma limits_cong: "limits f n \<Longrightarrow> n = k \<Longrightarrow> limits f k"
  by simp

lemma limits_word: "limits (write_u8 b) 1" "limits (write_u16 v16) 2" "limits (write_u32 v32) 4" "limits (write_u64 v64) 8"
  by (simp_all add: write_u8_def [abs_def] write_u16_def [abs_def] write_u32_def [abs_def] write_u64_def [abs_def]
      write_uint_def [abs_def] limits_with)

lemma limits_zeros: "limits (write_zeros n) n"
  by (simp add: write_zeros_def [abs_def] limits_with)

lemma limits_array:
  assumes "\<And>v. limits (f v) k"
  shows "limits (write_array f vs) (k * length vs)"
proof (induction vs)
  case (Cons v vs)
  have "write_array f (v # vs) = (\<lambda>w. Option.bind (f v w) (write_array f vs))" by (simp add: fun_eq_iff)
  then show ?case using limits_seq [OF assms Cons.IH, of v] by simp
qed (auto simp: limits_def writer_inv_def)

lemma limits_verb: "verb_ok m v \<Longrightarrow> limits (write_verb m v) (verb_size v)"
proof (cases v)
  case (Text n g s)
  assume "verb_ok m v"
  moreover have "limits (writer_text n (g m)) (1 * length (g m) + (n - length (g m)))"
    unfolding writer_text_def [abs_def] by (intro limits_seq limits_array limits_word limits_zeros)
  ultimately show ?thesis by (simp add: Text)
next
  case (Array8 n g s)
  assume "verb_ok m v"
  with limits_array [of write_u8 1 "g m"] limits_word(1) show ?thesis by (simp add: Array8)
next
  case (Array16 n g s)
  assume "verb_ok m v"
  with limits_array [of write_u16 2 "g m"] limits_word(2) show ?thesis by (simp add: Array16)
qed (use limits_word(1) in \<open>simp_all add: limits_word limits_zeros\<close>)

lemma limits_layout: "layout_ok vs m \<Longrightarrow> limits (write_layout vs m) (layout_size vs)"
proof (induction vs)
  case Nil
  then show ?case by (auto simp: limits_def layout_size_def writer_inv_def)
next
  case (Cons v vs)
  then have "limits (write_verb m v) (verb_size v)" "limits (write_layout vs m) (layout_size vs)"
    by (simp_all add: layout_ok_def limits_verb)
  moreover have "write_layout (v # vs) m = (\<lambda>w. Option.bind (write_verb m v w) (write_layout vs m))"
    by (simp add: fun_eq_iff)
  ultimately show ?case using limits_seq by (simp add: layout_size_def)
qed

section \<open>A message in a frame\<close>

lemma store_at_end:
  "length vs \<le> length rest \<Longrightarrow>
   store (Mem (pre @ rest)) (length pre) vs = Some (Mem (pre @ vs @ drop (length vs) rest))"
  by simp

lemma encode_message_writes:
  assumes w: "writes encode pl" and l: "limits encode (length pl)" and max: "length pl \<le> 0xFFFF"
  shows "if length pl + 8 \<le> length os
    then encode_message c mid encode (Mem os) =
      Some (status_ok, length pl + 8, Mem (ubx_frame c mid pl @ drop (length pl + 8) os))
    else \<exists>os'. encode_message c mid encode (Mem os) = Some (status_full, 0, Mem os') \<and> length os' = length os"
proof (cases "length os < 8")
  case True
  then show ?thesis by (simp add: encode_message_def UBX_FRAME_OVERHEAD_def)
next
  case False
  define cap where "cap = min (length os - 8) 0xFFFF"
  let ?w = "payload_writer_init (Mem os) 6 cap"
  have cap: "(if length os - 8 > 0xFFFF then 0xFFFF else length os - 8) = cap" by (simp add: cap_def)
  have inv: "writer_inv ?w" using False by (simp add: writer_inv_def payload_writer_init_def cap_def)
  show ?thesis
  proof (cases "length pl + 8 \<le> length os")
    case True
    let ?os = "take 6 os @ pl @ drop (6 + length pl) os"
    have fits: "length pl \<le> cap" using True max by (simp add: cap_def)
    then have "encode ?w = stored pl ?w" by (intro writesD [OF w]) (auto simp: payload_writer_init_def)
    also have "\<dots> = Some (?w\<lparr>w_mem := Mem ?os, w_position := length pl\<rparr>)"
      using True by (simp add: stored_def payload_writer_init_def)
    finally have enc: "encode ?w = Some (?w\<lparr>w_mem := Mem ?os, w_position := length pl\<rparr>)" .
    let ?n = "word_of_nat (length pl) :: u16" and ?rest = "drop (6 + length pl) os"
    let ?h = "UBX_SYNC_CHAR_1 # UBX_SYNC_CHAR_2 # c # mid # le_bytes 2 ?n"
    define ck where "ck = fletcher (ubx_body c mid pl)"
    have hdr: "store (Mem ?os) 0 ?h = Some (Mem (?h @ pl @ ?rest))" using False True by simp
    have view: "sub_ptr (Mem (UBX_SYNC_CHAR_1 # UBX_SYNC_CHAR_2 # c # mid # le_bytes 2 ?n @ pl @ ?rest)) 6 (length pl) = Mem pl"
      by simp
    have ck: "fletcher (c # mid # le_bytes 2 ?n @ pl) = ck" by (simp add: ck_def ubx_body_def)
    have tail: "store (Mem (?h @ pl @ ?rest)) (6 + length pl) [ck_a ck, ck_b ck]
        = Some (Mem (ubx_frame c mid pl @ drop (length pl + 8) os))"
    proof -
      have "store (Mem ((?h @ pl) @ ?rest)) (length (?h @ pl)) [ck_a ck, ck_b ck]
          = Some (Mem ((?h @ pl) @ [ck_a ck, ck_b ck] @ drop (length [ck_a ck, ck_b ck]) ?rest))"
        using True by (intro store_at_end) simp
      moreover have "(?h @ pl) @ [ck_a ck, ck_b ck] @ drop (length [ck_a ck, ck_b ck]) ?rest
          = ubx_frame c mid pl @ drop (length pl + 8) os"
        by (simp add: ubx_frame_def ubx_body_def ck_def add.commute)
      moreover have "length (?h @ pl) = 6 + length pl" by simp
      ultimately show ?thesis by (simp only: append_assoc)
    qed
    have n: "unat ?n = length pl" using max by simp
    have "encode_message c mid encode (Mem os) = Some (status_ok, frame_size (length pl), Mem (ubx_frame c mid pl @ drop (length pl + 8) os))"
      unfolding encode_message_def UBX_FRAME_INDEX_PAYLOAD_def UBX_FRAME_OVERHEAD_def max_payload_len Let_def psize.simps cap enc
      using hdr tail False
      by (simp add: store_single store_chain writes_store n view ck payload_writer_init_def del: store.simps sub_ptr.simps)
    with True max show ?thesis by simp
  next
    case no: False
    have "\<not> length pl \<le> cap" using no False max by (simp add: cap_def)
    then have big: "\<not> w_position ?w + length pl \<le> w_size ?w" "w_status ?w = status_ok" "psize (w_mem ?w) = length os"
      by (simp_all add: payload_writer_init_def)
    with limitsD [OF l inv] obtain w' where "encode ?w = Some w'" "writer_inv w'"
      "psize (w_mem w') = length os" "w_status w' = status_full" by metis
    then have "encode_message c mid encode (Mem os) = Some (status_full, 0, w_mem w')"
      unfolding encode_message_def UBX_FRAME_INDEX_PAYLOAD_def UBX_FRAME_OVERHEAD_def max_payload_len Let_def psize.simps cap
      using False by simp
    with \<open>psize (w_mem w') = length os\<close> \<open>writer_inv w'\<close> no show ?thesis
      by (cases "w_mem w'") (auto simp: writer_inv_def)
  qed
qed


locale fixed_message =
  fixes t :: "'m message_type" and wf :: "'m \<Rightarrow> bool"
  assumes size: "layout_size (mt_layout t) = mt_length t"
    and length_pos: "0 < mt_length t"
    and length_max: "mt_length t \<le> 0xFFFF"
    and ok: "wf m \<Longrightarrow> layout_ok (mt_layout t) m"
    and complete: "wf m \<Longrightarrow> fold (assign m) (mt_layout t) (mt_init t) = m"
begin

definition wire :: "'m \<Rightarrow> u8 list" where
  "wire m = layout_bytes (mt_layout t) m"

lemma length_wire: "wf m \<Longrightarrow> length (wire m) = mt_length t"
  by (simp add: wire_def length_layout_bytes ok size)

lemma encode_frame_of:
  assumes "wf m"
  shows "if mt_length t + 8 \<le> length os
    then encode_fixed_message t m (Mem os) =
      Some (status_ok, mt_length t + 8, Mem (ubx_frame (mt_class t) (mt_id t) (wire m) @ drop (mt_length t + 8) os))
    else \<exists>os'. encode_fixed_message t m (Mem os) = Some (status_full, 0, Mem os') \<and> length os' = length os"
proof -
  have "writes (fixed_encode t m) (wire m)" and "limits (fixed_encode t m) (length (wire m))"
    using ok [OF assms] by (simp_all add: fixed_encode_def [abs_def] wire_def writes_layout limits_layout length_layout_bytes)
  from encode_message_writes [OF this, of os "mt_class t" "mt_id t"] show ?thesis
    using length_wire [OF assms] length_max by (simp add: encode_fixed_message_def)
qed

lemma decode_wire:
  assumes "wf m"
  shows "fixed_decode t (ubx_view (mt_class t) (mt_id t) (wire m)) = Some (True, m)"
proof -
  have len: "length (wire m) = mt_length t" by (rule length_wire [OF assms])
  then have "wire m \<noteq> []" using length_pos by auto
  then have r: "payload_reader_init (payload (ubx_view (mt_class t) (mt_id t) (wire m))) =
      \<lparr>r_payload = Mem (wire m), r_position = 0, r_ok = True\<rparr>"
    by (simp add: ubx_view_def payload_reader_init_def)
  have "ahead \<lparr>r_payload = Mem (wire m), r_position = 0, r_ok = True\<rparr> (layout_bytes (mt_layout t) m @ [])"
    by (simp add: ahead_def wire_def)
  from read_layout_bytes [OF this ok [OF assms], of "mt_init t"]
  have "read_layout (mt_layout t) (mt_init t, \<lparr>r_payload = Mem (wire m), r_position = 0, r_ok = True\<rparr>)
      = Some (m, moved (mt_length t) \<lparr>r_payload = Mem (wire m), r_position = 0, r_ok = True\<rparr>)"
    by (simp add: complete [OF assms] size)
  then show ?thesis
    unfolding fixed_decode_def r using len length_max
    by (simp add: fixed_matches_def message_view_is_def ubx_view_def moved_def)
qed

lemma roundtrip:
  assumes "wf m" and "encode_fixed_message t m (Mem os) = Some (status_ok, n, Mem os')"
  shows "\<exists>v. decode_frame (Mem (take n os')) = Some (True, v) \<and> fixed_decode t v = Some (True, m)"
proof -
  have "take n os' = ubx_frame (mt_class t) (mt_id t) (wire m)"
    using encode_frame_of [OF assms(1), of os] assms(2) length_wire [OF assms(1)] by (auto split: if_splits)
  then have "decode_frame (Mem (take n os')) = Some (True, ubx_view (mt_class t) (mt_id t) (wire m))"
    using decode_frame_ubx_frame length_wire [OF assms(1)] length_max by simp
  with decode_wire [OF assms(1)] show ?thesis by blast
qed

lemma transmitted:
  assumes "wf m" and "mt_length t + 8 \<le> length os"
  shows "\<exists>os' v. encode_fixed_message t m (Mem os) = Some (status_ok, mt_length t + 8, Mem os') \<and>
    decode_frame (Mem (take (mt_length t + 8) os')) = Some (True, v) \<and> fixed_decode t v = Some (True, m)"
  using encode_frame_of [OF assms(1), of os] assms(2) roundtrip [OF assms(1)] by fastforce

end

text \<open>The value survives the wire: any buffer with room for the frame takes it, the frame decodes, and
  the message decoded from it is the value.\<close>

definition carries :: "'m message_type \<Rightarrow> 'm \<Rightarrow> bool" where
  "carries t m \<longleftrightarrow> (\<forall>os. mt_length t + 8 \<le> length os \<longrightarrow>
     (\<exists>os' v. encode_fixed_message t m (Mem os) = Some (status_ok, mt_length t + 8, Mem os') \<and>
       decode_frame (Mem (take (mt_length t + 8) os')) = Some (True, v) \<and> fixed_decode t v = Some (True, m)))"

lemma carriesI:
  "(\<And>os. mt_length t + 8 \<le> length os \<Longrightarrow>
     \<exists>os' v. encode_fixed_message t m (Mem os) = Some (status_ok, mt_length t + 8, Mem os') \<and>
       decode_frame (Mem (take (mt_length t + 8) os')) = Some (True, v) \<and> fixed_decode t v = Some (True, m)) \<Longrightarrow>
   carries t m"
  by (simp add: carries_def)

lemmas layout_rules = layout_size_def layout_ok_def

section \<open>Decoding is total\<close>

definition reader_inv :: "payload_reader \<Rightarrow> bool" where
  "reader_inv r \<longleftrightarrow> r_position r \<le> length (bytes (r_payload r)) \<and> (is_null (r_payload r) \<longrightarrow> \<not> r_ok r)"

text \<open>An operation that never leaves the payload view.\<close>

definition safe :: "(payload_reader \<Rightarrow> ('v \<times> payload_reader) option) \<Rightarrow> bool" where
  "safe f \<longleftrightarrow> (\<forall>r. reader_inv r \<longrightarrow> (\<exists>v r'. f r = Some (v, r') \<and> reader_inv r'))"

lemma advance_cases:
  assumes "reader_inv r"
  obtains (null) r' where "reader_advance n r = (None, r')" "reader_inv r'"
    | (some) xs i where "r_payload r = Mem xs" "r_position r = i" "i + n \<le> length xs"
        "reader_advance n r = (Some i, moved n r)" "reader_inv (moved n r)"
proof (cases "r_payload r")
  case (Null k)
  with assms null show thesis by (auto simp: reader_advance_def reader_inv_def)
next
  case (Mem xs)
  then show thesis
    using assms null some [of xs "r_position r"]
    by (cases "\<not> r_ok r \<or> n > reader_remaining r")
      (auto simp: reader_advance_def reader_inv_def reader_remaining_def moved_def split: if_splits)
qed

lemma safe_advance:
  assumes "\<And>xs i. i + n \<le> length xs \<Longrightarrow> \<exists>v. get (Mem xs) i = Some v"
  shows "safe (\<lambda>r. case reader_advance n r of
     (None, r) \<Rightarrow> Some (z, r)
   | (Some i, r) \<Rightarrow> do { v \<leftarrow> get (r_payload r) i; Some (v, r) })"
  unfolding safe_def
proof (intro allI impI)
  fix r :: payload_reader assume "reader_inv r"
  then show "\<exists>v r'. (case reader_advance n r of (None, r) \<Rightarrow> Some (z, r)
      | (Some i, r) \<Rightarrow> do { v \<leftarrow> get (r_payload r) i; Some (v, r) }) = Some (v, r') \<and> reader_inv r'"
  proof (cases rule: advance_cases [of r n])
    case (null r')
    then show ?thesis by simp
  next
    case (some xs i)
    obtain v where "get (Mem xs) i = Some v" using assms some(3) by blast
    with some show ?thesis by (auto simp: moved_def)
  qed
qed

lemma safe_words: "safe read_u8" "safe read_u16" "safe read_u32" "safe read_u64"
  unfolding read_u8_def [abs_def] read_u16_def [abs_def] read_u32_def [abs_def] read_u64_def [abs_def]
  by (intro safe_advance; simp add: read_le16_def read_le32_def read_le64_def)+

lemma text_loop_safe: "i + n \<le> length xs \<Longrightarrow> \<exists>cs. text_loop (Mem xs) i n = Some cs"
  by (induction n arbitrary: i) auto

lemma safe_text: "safe (reader_text n)"
  unfolding reader_text_def [abs_def] by (intro safe_advance text_loop_safe)

lemma safe_array: "safe f \<Longrightarrow> safe (read_array f n)"
proof (induction n)
  case (Suc n)
  show ?case unfolding safe_def
  proof (intro allI impI)
    fix r :: payload_reader assume "reader_inv r"
    with Suc.prems obtain v r1 where "f r = Some (v, r1)" "reader_inv r1" unfolding safe_def by blast
    moreover from this Suc obtain vs r2 where "read_array f n r1 = Some (vs, r2)" "reader_inv r2" unfolding safe_def by blast
    ultimately show "\<exists>v r'. read_array f (Suc n) r = Some (v, r') \<and> reader_inv r'" by auto
  qed
qed (simp add: safe_def)

lemma safeD: "safe f \<Longrightarrow> reader_inv r \<Longrightarrow> \<exists>v r'. f r = Some (v, r') \<and> reader_inv r'"
  unfolding safe_def by blast

lemma reader_inv_fail [simp]: "reader_inv r \<Longrightarrow> reader_inv (reader_fail r)"
  by (simp add: reader_inv_def reader_fail_def)

lemma skip_inv: "reader_inv r \<Longrightarrow> reader_inv (snd (reader_skip n r))"
  by (cases rule: advance_cases [of r n]) (auto simp: reader_skip_def)

lemma read_verb_safe:
  assumes "reader_inv r"
  shows "\<exists>m' r'. read_verb v (m, r) = Some (m', r') \<and> reader_inv r'"
proof (cases v)
  case (Reserved n)
  with assms skip_inv show ?thesis by (simp add: reader_reserved_def)
next
  case (Constant c)
  with safeD [OF safe_words(1) assms] show ?thesis by (auto simp: reader_constant_def)
next
  case (Array8 n g s)
  with safeD [OF safe_array [OF safe_words(1)] assms, of n] show ?thesis by auto
next
  case (Array16 n g s)
  with safeD [OF safe_array [OF safe_words(2)] assms, of n] show ?thesis by auto
next
  case (Text n g s)
  with safeD [OF safe_text assms, of n] show ?thesis by auto
qed (use safeD [OF safe_words(1) assms] safeD [OF safe_words(2) assms] safeD [OF safe_words(3) assms]
      safeD [OF safe_words(4) assms] in auto)

lemma read_layout_safe:
  "reader_inv r \<Longrightarrow> \<exists>m' r'. read_layout vs (m, r) = Some (m', r') \<and> reader_inv r'"
proof (induction vs arbitrary: m r)
  case (Cons v vs)
  from read_verb_safe [OF Cons.prems, of v m] obtain m1 r1 where "read_verb v (m, r) = Some (m1, r1)" "reader_inv r1" by blast
  with Cons.IH [of r1 m1] show ?case by auto
qed simp

lemma reader_init_inv [simp]: "reader_inv (payload_reader_init p)"
  by (cases p) (simp_all add: reader_inv_def payload_reader_init_def)

text \<open>C9: decoding a fixed message never reads outside the payload view, whatever the view and the
  layout (null data, or a header length that disagrees with the view, included), and a failed
  decode hands back the initial value.\<close>

theorem fixed_decode_safe:
  "\<exists>b m. fixed_decode t raw = Some (b, m) \<and> (b \<or> m = mt_init t)"
  using read_layout_safe [OF reader_init_inv [of "payload raw"], of "mt_layout t" "mt_init t"]
  by (auto simp: fixed_decode_def)


section \<open>Groups\<close>

text \<open>A block type: its layout has a fixed size and recovers every field of a block.\<close>

locale group_block =
  fixes layout :: "'b verb list" and b0 :: 'b and wire_size :: nat and wf :: "'b \<Rightarrow> bool"
  assumes size: "layout_size layout = wire_size"
    and ok: "wf b \<Longrightarrow> layout_ok layout b"
    and complete: "wf b \<Longrightarrow> fold (assign b) layout b0 = b"
begin

definition blocks_bytes :: "'b list \<Rightarrow> u8 list" where
  "blocks_bytes bs = concat (map (layout_bytes layout) bs)"

lemma length_blocks_bytes: "list_all wf bs \<Longrightarrow> length (blocks_bytes bs) = length bs * wire_size"
  by (induction bs) (simp_all add: blocks_bytes_def length_layout_bytes ok size)

lemma read_group_loop_blocks:
  "ahead r (blocks_bytes bs @ rest) \<Longrightarrow> list_all wf bs \<Longrightarrow> length bs * wire_size < size_mod \<Longrightarrow>
   length out \<le> capacity \<Longrightarrow>
   read_group_loop layout b0 wire_size capacity (length bs) (out, r) =
     Some (out @ take (capacity - length out) bs, moved (length bs * wire_size) r)"
proof (induction bs arbitrary: out r)
  case (Cons b bs)
  show ?case
  proof (cases "length out = capacity")
    case True
    have "length (blocks_bytes (b # bs)) = Suc (length bs) * wire_size"
      using length_blocks_bytes [OF Cons.prems(2)] by simp
    with ahead_advance [OF Cons.prems(1)] have "reader_advance (Suc (length bs) * wire_size) r
        = (Some (r_position r), moved (Suc (length bs) * wire_size) r)" by metis
    with True Cons.prems(3) show ?thesis by (simp add: reader_skip_def)
  next
    case False
    from Cons.prems have a: "ahead r (layout_bytes layout b @ (blocks_bytes bs @ rest))" and wf: "wf b"
      by (simp_all add: blocks_bytes_def)
    have "ahead (moved wire_size r) (blocks_bytes bs @ rest)"
      using ahead_moved [OF a] length_layout_bytes [OF ok [OF wf]] size by simp
    moreover have "read_layout layout (b0, r) = Some (b, moved wire_size r)"
      using read_layout_bytes [OF a ok [OF wf], of b0] complete [OF wf] size by simp
    moreover have "length (out @ [b]) \<le> capacity" using False Cons.prems(4) by simp
    moreover have "length bs * wire_size < size_mod" using Cons.prems(3) by simp
    moreover have "capacity - length out = Suc (capacity - Suc (length out))" using False Cons.prems(4) by simp
    ultimately show ?thesis
      using Cons.IH [of "moved wire_size r" "out @ [b]"] Cons.prems(2) False by simp
  qed
qed simp

lemma read_group_blocks:
  assumes "ahead r (blocks_bytes bs @ rest)" and "list_all wf bs" and "length bs * wire_size < size_mod"
  shows "read_group layout b0 wire_size capacity (length bs) r =
    Some (take capacity bs, moved (length bs * wire_size) r)"
  using read_group_loop_blocks [OF assms, of "[]" capacity] by (simp add: read_group_def)

lemma writes_group: "list_all wf bs \<Longrightarrow> writes (write_group layout bs) (blocks_bytes bs)"
proof (induction bs)
  case Nil
  then show ?case by (simp add: blocks_bytes_def writes_def)
next
  case (Cons b bs)
  then have "writes (write_layout layout b) (layout_bytes layout b)" "writes (write_group layout bs) (blocks_bytes bs)"
    by (simp_all add: writes_layout ok)
  moreover have "write_group layout (b # bs) = (\<lambda>w. Option.bind (write_layout layout b w) (write_group layout bs))"
    by (simp add: fun_eq_iff)
  ultimately show ?case using writes_seq by (simp add: blocks_bytes_def)
qed

lemma limits_group: "list_all wf bs \<Longrightarrow> limits (write_group layout bs) (length bs * wire_size)"
proof (induction bs)
  case Nil
  then show ?case by (auto simp: limits_def writer_inv_def)
next
  case (Cons b bs)
  then have "limits (write_layout layout b) wire_size" "limits (write_group layout bs) (length bs * wire_size)"
    using limits_layout [of layout b] by (simp_all add: ok size)
  moreover have "write_group layout (b # bs) = (\<lambda>w. Option.bind (write_layout layout b w) (write_group layout bs))"
    by (simp add: fun_eq_iff)
  ultimately show ?case using limits_seq by simp
qed

end

lemma read_tail_loop_bytes:
  "ahead r bs \<Longrightarrow> length out \<le> capacity \<Longrightarrow>
   read_tail_loop capacity (out, r) =
     Some (out @ take (capacity - length out) bs, moved (min (capacity - length out) (length bs)) r)"
proof (induction bs arbitrary: out r)
  case Nil
  then have "reader_remaining r = 0" by (auto simp: ahead_def reader_remaining_def)
  then show ?case by (simp add: read_tail_loop.simps)
next
  case (Cons b bs)
  then have rem: "0 < reader_remaining r" by (auto simp: ahead_def reader_remaining_def)
  have a: "ahead r ([b] @ bs)" using Cons.prems(1) by simp
  show ?case
  proof (cases "length out < capacity")
    case True
    have "ahead (moved 1 r) bs" using ahead_moved [OF a] by simp
    moreover have "length (out @ [b]) \<le> capacity" using True by simp
    moreover have "capacity - length out = Suc (capacity - Suc (length out))" using True by simp
    ultimately show ?thesis
      using Cons.IH [of "moved 1 r" "out @ [b]"] readsD [OF reads_u8 a] rem True
      by (simp add: read_tail_loop.simps [of capacity out r])
  next
    case False
    with Cons.prems(2) show ?thesis by (simp add: read_tail_loop.simps)
  qed
qed

lemma read_tail_bytes:
  assumes "ahead r bs"
  shows "read_tail capacity r = Some (take capacity bs, moved (length bs) r)"
proof -
  let ?k = "min capacity (length bs)"
  have a: "ahead (moved ?k r) (drop ?k bs @ [])"
    using ahead_moved [of r "take ?k bs" "drop ?k bs"] assms by simp
  have "reader_remaining (moved ?k r) = length (drop ?k bs)"
    using a by (auto simp: ahead_def reader_remaining_def)
  with ahead_advance [OF a] have "snd (reader_skip (reader_remaining (moved ?k r)) (moved ?k r)) = moved (length bs) r"
    by (simp add: reader_skip_def)
  with read_tail_loop_bytes [OF assms, of "[]" capacity] show ?thesis by (simp add: read_tail_def)
qed

lemma writes_tail: "writes (write_tail bs) bs"
proof -
  have "writes (write_array write_u8 bs) (concat (map (\<lambda>b. [b]) bs))" by (intro writes_array writes_u8)
  then show ?thesis by (simp add: write_tail_def [abs_def])
qed


section \<open>Messages with a counted group\<close>

text \<open>The struct templates with a header, a one-byte count in it and a vector of blocks behind it
  (\<open>nav_sat\<close>, \<open>nav_orb\<close>, \<open>mon_rf\<close>, ...): \<open>layout_header\<close> takes the count as an argument, which is
  the decoded field on a read and the vector's size on a write.\<close>

record ('h, 'b) group_type =
  gt_class :: u8
  gt_id :: u8
  gt_header_length :: nat
  gt_block_length :: nat
  gt_capacity :: nat
  gt_init :: 'h
  gt_header :: "'h verb list"
  gt_count :: "'h \<Rightarrow> u8"
  gt_set_count :: "u8 \<Rightarrow> 'h \<Rightarrow> 'h"
  gt_block_init :: 'b
  gt_block :: "'b verb list"

definition group_decode :: "('h, 'b) group_type \<Rightarrow> message_view \<Rightarrow> (bool \<times> 'h \<times> 'b list) option" where
  "group_decode g raw =
     (if \<not> message_view_is raw (gt_class g) (gt_id g) \<or> unat (payload_length (header raw)) < gt_header_length g
      then Some (False, gt_init g, [])
      else do {
        (h, r) \<leftarrow> read_layout (gt_header g) (gt_init g, payload_reader_init (payload raw));
        if \<not> has_group_length (unat (payload_length (header raw))) (gt_header_length g) (unat (gt_count g h)) (gt_block_length g)
        then Some (False, gt_init g, [])
        else do {
          (bs, r) \<leftarrow> read_group (gt_block g) (gt_block_init g) (gt_block_length g) (gt_capacity g) (unat (gt_count g h)) r;
          Some (r_ok r, h, bs) } })"

definition group_encode :: "('h, 'b) group_type \<Rightarrow> 'h \<times> 'b list \<Rightarrow> payload_writer \<Rightarrow> payload_writer option" where
  "group_encode g m w =
     (let count = word_of_nat (length (snd m)) in do {
      w \<leftarrow> write_layout (gt_header g) (gt_set_count g count (fst m)) w;
      write_group (gt_block g) (snd m) w })"

locale counted_message =
  fixes g :: "('h, 'b) group_type" and wf_header :: "'h \<Rightarrow> bool" and wf_block :: "'b \<Rightarrow> bool"
  assumes header_size: "layout_size (gt_header g) = gt_header_length g"
    and header_pos: "0 < gt_header_length g"
    and header_ok: "wf_header h \<Longrightarrow> layout_ok (gt_header g) h"
    and header_complete: "wf_header h \<Longrightarrow> fold (assign h) (gt_header g) (gt_init g) = h"
    and block_size: "layout_size (gt_block g) = gt_block_length g"
    and block_ok: "wf_block b \<Longrightarrow> layout_ok (gt_block g) b"
    and block_complete: "wf_block b \<Longrightarrow> fold (assign b) (gt_block g) (gt_block_init g) = b"
    and count_set: "gt_count g (gt_set_count g c h) = c"
    and wf_set: "wf_header h \<Longrightarrow> wf_header (gt_set_count g c h)"

sublocale counted_message \<subseteq> block: group_block "gt_block g" "gt_block_init g" "gt_block_length g" wf_block
  by unfold_locales (rule block_size block_ok block_complete; assumption?)+

context counted_message
begin

definition with_count :: "'h \<Rightarrow> 'b list \<Rightarrow> 'h" where
  "with_count h bs = gt_set_count g (word_of_nat (length bs)) h"

definition wire :: "'h \<Rightarrow> 'b list \<Rightarrow> u8 list" where
  "wire h bs = layout_bytes (gt_header g) (with_count h bs) @ block.blocks_bytes bs"

lemma length_wire:
  "wf_header h \<Longrightarrow> list_all wf_block bs \<Longrightarrow> length (wire h bs) = gt_header_length g + length bs * gt_block_length g"
  by (simp add: wire_def length_layout_bytes header_ok wf_set header_size block.length_blocks_bytes with_count_def)

lemma writes_encode:
  assumes "wf_header h" and "list_all wf_block bs"
  shows "writes (group_encode g (h, bs)) (wire h bs)"
proof -
  have "writes (write_layout (gt_header g) (with_count h bs)) (layout_bytes (gt_header g) (with_count h bs))"
    by (intro writes_layout header_ok) (simp add: with_count_def wf_set assms)
  from writes_seq [OF this block.writes_group [OF assms(2)]] show ?thesis
    by (simp add: group_encode_def [abs_def] wire_def with_count_def Let_def)
qed

lemma decode_wire:
  assumes wf: "wf_header h" "list_all wf_block bs" and n: "length bs \<le> 0xFF" and max: "length (wire h bs) \<le> 0xFFFF"
  shows "group_decode g (ubx_view (gt_class g) (gt_id g) (wire h bs)) = Some (True, with_count h bs, take (gt_capacity g) bs)"
proof -
  let ?h = "with_count h bs" and ?w = "wire h bs"
  let ?r = "\<lparr>r_payload = Mem ?w, r_position = 0, r_ok = True\<rparr>"
  have wfh: "wf_header ?h" by (simp add: with_count_def wf_set wf)
  have len: "length ?w = gt_header_length g + length bs * gt_block_length g" by (rule length_wire [OF wf])
  then have "?w \<noteq> []" using header_pos by auto
  then have r: "payload_reader_init (payload (ubx_view (gt_class g) (gt_id g) ?w)) = ?r"
    by (simp add: ubx_view_def payload_reader_init_def)
  have a: "ahead ?r (layout_bytes (gt_header g) ?h @ block.blocks_bytes bs)" by (simp add: ahead_def wire_def)
  have hl: "length (layout_bytes (gt_header g) ?h) = gt_header_length g"
    by (simp add: length_layout_bytes header_ok wfh header_size)
  have head: "read_layout (gt_header g) (gt_init g, ?r) = Some (?h, moved (gt_header_length g) ?r)"
    using read_layout_bytes [OF a header_ok [OF wfh], of "gt_init g"] header_complete [OF wfh] by (simp add: header_size)
  have a': "ahead (moved (gt_header_length g) ?r) (block.blocks_bytes bs @ [])" using ahead_moved [OF a] hl by simp
  have small: "length bs * gt_block_length g < size_mod" using len max by (simp add: size_mod_def)
  have cnt: "unat (gt_count g ?h) = length bs" using n by (simp add: with_count_def count_set unat_of_nat)
  have group: "has_group_length (gt_header_length g + length bs * gt_block_length g) (gt_header_length g) (length bs) (gt_block_length g)"
    using len max by (simp add: has_group_length_def size_mod_def)
  have view: "message_view_is (ubx_view (gt_class g) (gt_id g) ?w) (gt_class g) (gt_id g)"
    "unat (payload_length (header (ubx_view (gt_class g) (gt_id g) ?w))) = length ?w"
    using max by (simp_all add: message_view_is_def ubx_view_def)
  show ?thesis
    unfolding group_decode_def r view
    using block.read_group_blocks [OF a' wf(2) small, of "gt_capacity g"] len
    by (simp add: head cnt group view(1) moved_def)
qed

lemma limits_encode:
  assumes "wf_header h" and "list_all wf_block bs"
  shows "limits (group_encode g (h, bs)) (length (wire h bs))"
proof -
  have "limits (write_layout (gt_header g) (with_count h bs)) (gt_header_length g)"
    unfolding header_size [symmetric] by (intro limits_layout header_ok) (simp add: with_count_def wf_set assms)
  from limits_seq [OF this block.limits_group [OF assms(2)]] show ?thesis
    by (simp add: group_encode_def [abs_def] length_wire assms with_count_def Let_def)
qed

lemma roundtrip:
  assumes wf: "wf_header h" "list_all wf_block bs" and n: "length bs \<le> 0xFF"
    and max: "gt_header_length g + length bs * gt_block_length g \<le> 0xFFFF"
    and enc: "encode_message (gt_class g) (gt_id g) (group_encode g (h, bs)) (Mem os) = Some (status_ok, k, Mem os')"
  shows "\<exists>v. decode_frame (Mem (take k os')) = Some (True, v) \<and>
    group_decode g v = Some (True, with_count h bs, take (gt_capacity g) bs)"
proof -
  let ?w = "wire h bs"
  have len: "length ?w \<le> 0xFFFF" using max length_wire [OF wf] by simp
  have "take k os' = ubx_frame (gt_class g) (gt_id g) ?w"
    using encode_message_writes [OF writes_encode [OF wf] limits_encode [OF wf] len, of os "gt_class g" "gt_id g"] enc
    by (auto split: if_splits)
  then have "decode_frame (Mem (take k os')) = Some (True, ubx_view (gt_class g) (gt_id g) ?w)"
    using decode_frame_ubx_frame len by simp
  with decode_wire [OF wf n len] show ?thesis by blast
qed

lemma transmitted:
  assumes wf: "wf_header h" "list_all wf_block bs" and n: "length bs \<le> 0xFF"
    and max: "gt_header_length g + length bs * gt_block_length g \<le> 0xFFFF"
    and cap: "gt_header_length g + length bs * gt_block_length g + 8 \<le> length os"
  shows "\<exists>k os' v. encode_message (gt_class g) (gt_id g) (group_encode g (h, bs)) (Mem os) = Some (status_ok, k, Mem os') \<and>
    decode_frame (Mem (take k os')) = Some (True, v) \<and>
    group_decode g v = Some (True, with_count h bs, take (gt_capacity g) bs)"
proof -
  have len: "length (wire h bs) \<le> 0xFFFF" using max length_wire [OF wf] by simp
  obtain k os' where enc: "encode_message (gt_class g) (gt_id g) (group_encode g (h, bs)) (Mem os) = Some (status_ok, k, Mem os')"
    using encode_message_writes [OF writes_encode [OF wf] limits_encode [OF wf] len, of os "gt_class g" "gt_id g"] cap
      length_wire [OF wf] by simp
  with roundtrip [OF wf n max enc] show ?thesis by blast
qed

end

text \<open>The counted group survives the wire: the header comes back with the number of blocks sent, and
  the blocks up to the capacity of the receiving vector, in order.\<close>

definition carries_group :: "('h, 'b) group_type \<Rightarrow> 'h \<Rightarrow> 'b list \<Rightarrow> bool" where
  "carries_group g h bs \<longleftrightarrow> (\<forall>os. gt_header_length g + length bs * gt_block_length g + 8 \<le> length os \<longrightarrow>
     (\<exists>k os' v. encode_message (gt_class g) (gt_id g) (group_encode g (h, bs)) (Mem os) = Some (status_ok, k, Mem os') \<and>
       decode_frame (Mem (take k os')) = Some (True, v) \<and>
       group_decode g v = Some (True, gt_set_count g (word_of_nat (length bs)) h, take (gt_capacity g) bs)))"

context counted_message
begin

lemma carries:
  "wf_header h \<Longrightarrow> list_all wf_block bs \<Longrightarrow> length bs \<le> 0xFF \<Longrightarrow>
   gt_header_length g + length bs * gt_block_length g \<le> 0xFFFF \<Longrightarrow> carries_group g h bs"
  using transmitted unfolding carries_group_def with_count_def by blast

end

end
