(* ===== verification/UbxNav.thy ===== *)
theory UbxNav
  imports UbxPayload
begin

text \<open>
  The fixed-length UBX-NAV and UBX-NAV2 messages (\<open>castle_ext/protocols/ubx/messages/nav_*.hpp\<close>): for each,
  its struct as a record, its initial value, its layout and its message type, with the \<open>fixed_message\<close>
  contract discharged for it.  Their double-valued convenience accessors are not modelled.
\<close>

section \<open>\<open>nav_att\<close> (\<open>nav_att.hpp\<close>)\<close>

record nav_att =
  i_tow :: u32
  version :: u8
  roll :: u32
  pitch :: u32
  heading :: u32
  acc_roll :: u32
  acc_pitch :: u32
  acc_heading :: u32

definition nav_att_init :: nav_att where
  "nav_att_init =
     \<lparr>nav_att.i_tow = 0, nav_att.version = 0, nav_att.roll = 0, nav_att.pitch = 0,
      nav_att.heading = 0, nav_att.acc_roll = 0, nav_att.acc_pitch = 0, nav_att.acc_heading = 0\<rparr>"

definition nav_att_layout :: "nav_att verb list" where
  "nav_att_layout =
     [Field32 nav_att.i_tow (\<lambda>v. nav_att.i_tow_update (\<lambda>_. v)),
      Field8 nav_att.version (\<lambda>v. nav_att.version_update (\<lambda>_. v)),
      Reserved 3,
      Field32 nav_att.roll (\<lambda>v. nav_att.roll_update (\<lambda>_. v)),
      Field32 nav_att.pitch (\<lambda>v. nav_att.pitch_update (\<lambda>_. v)),
      Field32 nav_att.heading (\<lambda>v. nav_att.heading_update (\<lambda>_. v)),
      Field32 nav_att.acc_roll (\<lambda>v. nav_att.acc_roll_update (\<lambda>_. v)),
      Field32 nav_att.acc_pitch (\<lambda>v. nav_att.acc_pitch_update (\<lambda>_. v)),
      Field32 nav_att.acc_heading (\<lambda>v. nav_att.acc_heading_update (\<lambda>_. v))]"

definition nav_att_message :: "nav_att message_type" where
  "nav_att_message = \<lparr>mt_class = 0x1, mt_id = 0x5, mt_length = 32, mt_init = nav_att_init, mt_layout = nav_att_layout\<rparr>"

interpretation nav_att_msg: fixed_message nav_att_message "\<lambda>_. True"
  by unfold_locales (simp_all add: nav_att_message_def nav_att_layout_def nav_att_init_def layout_rules)

section \<open>\<open>nav_clock\<close> (\<open>nav_clock.hpp\<close>)\<close>

record nav_clock =
  i_tow :: u32
  clk_b :: u32
  clk_d :: u32
  t_acc :: u32
  f_acc :: u32

definition nav_clock_init :: nav_clock where
  "nav_clock_init =
     \<lparr>nav_clock.i_tow = 0, nav_clock.clk_b = 0, nav_clock.clk_d = 0, nav_clock.t_acc = 0,
      nav_clock.f_acc = 0\<rparr>"

definition nav_clock_layout :: "nav_clock verb list" where
  "nav_clock_layout =
     [Field32 nav_clock.i_tow (\<lambda>v. nav_clock.i_tow_update (\<lambda>_. v)),
      Field32 nav_clock.clk_b (\<lambda>v. nav_clock.clk_b_update (\<lambda>_. v)),
      Field32 nav_clock.clk_d (\<lambda>v. nav_clock.clk_d_update (\<lambda>_. v)),
      Field32 nav_clock.t_acc (\<lambda>v. nav_clock.t_acc_update (\<lambda>_. v)),
      Field32 nav_clock.f_acc (\<lambda>v. nav_clock.f_acc_update (\<lambda>_. v))]"

definition nav_clock_message :: "nav_clock message_type" where
  "nav_clock_message = \<lparr>mt_class = 0x1, mt_id = 0x22, mt_length = 20, mt_init = nav_clock_init, mt_layout = nav_clock_layout\<rparr>"

interpretation nav_clock_msg: fixed_message nav_clock_message "\<lambda>_. True"
  by unfold_locales (simp_all add: nav_clock_message_def nav_clock_layout_def nav_clock_init_def layout_rules)

section \<open>\<open>nav_cov\<close> (\<open>nav_cov.hpp\<close>)\<close>

record nav_cov =
  i_tow :: u32
  version :: u8
  pos_cov_valid :: u8
  vel_cov_valid :: u8
  pos_cov_nn :: u32
  pos_cov_ne :: u32
  pos_cov_nd :: u32
  pos_cov_ee :: u32
  pos_cov_ed :: u32
  pos_cov_dd :: u32
  vel_cov_nn :: u32
  vel_cov_ne :: u32
  vel_cov_nd :: u32
  vel_cov_ee :: u32
  vel_cov_ed :: u32
  vel_cov_dd :: u32

definition nav_cov_init :: nav_cov where
  "nav_cov_init =
     \<lparr>nav_cov.i_tow = 0, nav_cov.version = 0, nav_cov.pos_cov_valid = 0, nav_cov.vel_cov_valid = 0,
      nav_cov.pos_cov_nn = 0, nav_cov.pos_cov_ne = 0, nav_cov.pos_cov_nd = 0, nav_cov.pos_cov_ee = 0,
      nav_cov.pos_cov_ed = 0, nav_cov.pos_cov_dd = 0, nav_cov.vel_cov_nn = 0, nav_cov.vel_cov_ne = 0,
      nav_cov.vel_cov_nd = 0, nav_cov.vel_cov_ee = 0, nav_cov.vel_cov_ed = 0, nav_cov.vel_cov_dd = 0\<rparr>"

definition nav_cov_layout :: "nav_cov verb list" where
  "nav_cov_layout =
     [Field32 nav_cov.i_tow (\<lambda>v. nav_cov.i_tow_update (\<lambda>_. v)),
      Field8 nav_cov.version (\<lambda>v. nav_cov.version_update (\<lambda>_. v)),
      Field8 nav_cov.pos_cov_valid (\<lambda>v. nav_cov.pos_cov_valid_update (\<lambda>_. v)),
      Field8 nav_cov.vel_cov_valid (\<lambda>v. nav_cov.vel_cov_valid_update (\<lambda>_. v)),
      Reserved 9,
      Field32 nav_cov.pos_cov_nn (\<lambda>v. nav_cov.pos_cov_nn_update (\<lambda>_. v)),
      Field32 nav_cov.pos_cov_ne (\<lambda>v. nav_cov.pos_cov_ne_update (\<lambda>_. v)),
      Field32 nav_cov.pos_cov_nd (\<lambda>v. nav_cov.pos_cov_nd_update (\<lambda>_. v)),
      Field32 nav_cov.pos_cov_ee (\<lambda>v. nav_cov.pos_cov_ee_update (\<lambda>_. v)),
      Field32 nav_cov.pos_cov_ed (\<lambda>v. nav_cov.pos_cov_ed_update (\<lambda>_. v)),
      Field32 nav_cov.pos_cov_dd (\<lambda>v. nav_cov.pos_cov_dd_update (\<lambda>_. v)),
      Field32 nav_cov.vel_cov_nn (\<lambda>v. nav_cov.vel_cov_nn_update (\<lambda>_. v)),
      Field32 nav_cov.vel_cov_ne (\<lambda>v. nav_cov.vel_cov_ne_update (\<lambda>_. v)),
      Field32 nav_cov.vel_cov_nd (\<lambda>v. nav_cov.vel_cov_nd_update (\<lambda>_. v)),
      Field32 nav_cov.vel_cov_ee (\<lambda>v. nav_cov.vel_cov_ee_update (\<lambda>_. v)),
      Field32 nav_cov.vel_cov_ed (\<lambda>v. nav_cov.vel_cov_ed_update (\<lambda>_. v)),
      Field32 nav_cov.vel_cov_dd (\<lambda>v. nav_cov.vel_cov_dd_update (\<lambda>_. v))]"

definition nav_cov_message :: "nav_cov message_type" where
  "nav_cov_message = \<lparr>mt_class = 0x1, mt_id = 0x36, mt_length = 64, mt_init = nav_cov_init, mt_layout = nav_cov_layout\<rparr>"

interpretation nav_cov_msg: fixed_message nav_cov_message "\<lambda>_. True"
  by unfold_locales (simp_all add: nav_cov_message_def nav_cov_layout_def nav_cov_init_def layout_rules)

section \<open>\<open>basic_nav_dop\<close> (\<open>nav_dop.hpp\<close>)\<close>

record basic_nav_dop =
  i_tow :: u32
  g_dop :: u16
  p_dop :: u16
  t_dop :: u16
  v_dop :: u16
  h_dop :: u16
  n_dop :: u16
  e_dop :: u16

definition basic_nav_dop_init :: basic_nav_dop where
  "basic_nav_dop_init =
     \<lparr>basic_nav_dop.i_tow = 0, basic_nav_dop.g_dop = 0, basic_nav_dop.p_dop = 0,
      basic_nav_dop.t_dop = 0, basic_nav_dop.v_dop = 0, basic_nav_dop.h_dop = 0,
      basic_nav_dop.n_dop = 0, basic_nav_dop.e_dop = 0\<rparr>"

definition basic_nav_dop_layout :: "basic_nav_dop verb list" where
  "basic_nav_dop_layout =
     [Field32 basic_nav_dop.i_tow (\<lambda>v. basic_nav_dop.i_tow_update (\<lambda>_. v)),
      Field16 basic_nav_dop.g_dop (\<lambda>v. basic_nav_dop.g_dop_update (\<lambda>_. v)),
      Field16 basic_nav_dop.p_dop (\<lambda>v. basic_nav_dop.p_dop_update (\<lambda>_. v)),
      Field16 basic_nav_dop.t_dop (\<lambda>v. basic_nav_dop.t_dop_update (\<lambda>_. v)),
      Field16 basic_nav_dop.v_dop (\<lambda>v. basic_nav_dop.v_dop_update (\<lambda>_. v)),
      Field16 basic_nav_dop.h_dop (\<lambda>v. basic_nav_dop.h_dop_update (\<lambda>_. v)),
      Field16 basic_nav_dop.n_dop (\<lambda>v. basic_nav_dop.n_dop_update (\<lambda>_. v)),
      Field16 basic_nav_dop.e_dop (\<lambda>v. basic_nav_dop.e_dop_update (\<lambda>_. v))]"

definition nav2_dop_message :: "basic_nav_dop message_type" where
  "nav2_dop_message = \<lparr>mt_class = 0x29, mt_id = 0x4, mt_length = 18, mt_init = basic_nav_dop_init, mt_layout = basic_nav_dop_layout\<rparr>"

interpretation nav2_dop_msg: fixed_message nav2_dop_message "\<lambda>_. True"
  by unfold_locales (simp_all add: nav2_dop_message_def basic_nav_dop_layout_def basic_nav_dop_init_def layout_rules)

definition nav_dop_message :: "basic_nav_dop message_type" where
  "nav_dop_message = \<lparr>mt_class = 0x1, mt_id = 0x4, mt_length = 18, mt_init = basic_nav_dop_init, mt_layout = basic_nav_dop_layout\<rparr>"

interpretation nav_dop_msg: fixed_message nav_dop_message "\<lambda>_. True"
  by unfold_locales (simp_all add: nav_dop_message_def basic_nav_dop_layout_def basic_nav_dop_init_def layout_rules)

section \<open>\<open>basic_nav_eell\<close> (\<open>nav_eell.hpp\<close>)\<close>

record basic_nav_eell =
  i_tow :: u32
  version :: u8
  err_orient :: u16
  err_maj :: u32
  err_min :: u32

definition basic_nav_eell_init :: basic_nav_eell where
  "basic_nav_eell_init =
     \<lparr>basic_nav_eell.i_tow = 0, basic_nav_eell.version = 0, basic_nav_eell.err_orient = 0,
      basic_nav_eell.err_maj = 0, basic_nav_eell.err_min = 0\<rparr>"

definition basic_nav_eell_layout :: "basic_nav_eell verb list" where
  "basic_nav_eell_layout =
     [Field32 basic_nav_eell.i_tow (\<lambda>v. basic_nav_eell.i_tow_update (\<lambda>_. v)),
      Field8 basic_nav_eell.version (\<lambda>v. basic_nav_eell.version_update (\<lambda>_. v)),
      Reserved 1,
      Field16 basic_nav_eell.err_orient (\<lambda>v. basic_nav_eell.err_orient_update (\<lambda>_. v)),
      Field32 basic_nav_eell.err_maj (\<lambda>v. basic_nav_eell.err_maj_update (\<lambda>_. v)),
      Field32 basic_nav_eell.err_min (\<lambda>v. basic_nav_eell.err_min_update (\<lambda>_. v))]"

definition nav_eell_message :: "basic_nav_eell message_type" where
  "nav_eell_message = \<lparr>mt_class = 0x1, mt_id = 0x3d, mt_length = 16, mt_init = basic_nav_eell_init, mt_layout = basic_nav_eell_layout\<rparr>"

interpretation nav_eell_msg: fixed_message nav_eell_message "\<lambda>_. True"
  by unfold_locales (simp_all add: nav_eell_message_def basic_nav_eell_layout_def basic_nav_eell_init_def layout_rules)

definition nav2_eell_message :: "basic_nav_eell message_type" where
  "nav2_eell_message = \<lparr>mt_class = 0x29, mt_id = 0x3d, mt_length = 16, mt_init = basic_nav_eell_init, mt_layout = basic_nav_eell_layout\<rparr>"

interpretation nav2_eell_msg: fixed_message nav2_eell_message "\<lambda>_. True"
  by unfold_locales (simp_all add: nav2_eell_message_def basic_nav_eell_layout_def basic_nav_eell_init_def layout_rules)

section \<open>\<open>nav_eoe\<close> (\<open>nav_eoe.hpp\<close>)\<close>

record nav_eoe =
  i_tow :: u32

definition nav_eoe_init :: nav_eoe where
  "nav_eoe_init =
     \<lparr>nav_eoe.i_tow = 0\<rparr>"

definition nav_eoe_layout :: "nav_eoe verb list" where
  "nav_eoe_layout =
     [Field32 nav_eoe.i_tow (\<lambda>v. nav_eoe.i_tow_update (\<lambda>_. v))]"

definition nav_eoe_message :: "nav_eoe message_type" where
  "nav_eoe_message = \<lparr>mt_class = 0x1, mt_id = 0x61, mt_length = 4, mt_init = nav_eoe_init, mt_layout = nav_eoe_layout\<rparr>"

interpretation nav_eoe_msg: fixed_message nav_eoe_message "\<lambda>_. True"
  by unfold_locales (simp_all add: nav_eoe_message_def nav_eoe_layout_def nav_eoe_init_def layout_rules)

section \<open>\<open>nav_hpposecef\<close> (\<open>nav_hpposecef.hpp\<close>)\<close>

record nav_hpposecef =
  version :: u8
  i_tow :: u32
  ecef_x :: u32
  ecef_y :: u32
  ecef_z :: u32
  ecef_x_hp :: u8
  ecef_y_hp :: u8
  ecef_z_hp :: u8
  flags :: u8
  p_acc :: u32

definition nav_hpposecef_init :: nav_hpposecef where
  "nav_hpposecef_init =
     \<lparr>nav_hpposecef.version = 0, nav_hpposecef.i_tow = 0, nav_hpposecef.ecef_x = 0,
      nav_hpposecef.ecef_y = 0, nav_hpposecef.ecef_z = 0, nav_hpposecef.ecef_x_hp = 0,
      nav_hpposecef.ecef_y_hp = 0, nav_hpposecef.ecef_z_hp = 0, nav_hpposecef.flags = 0,
      nav_hpposecef.p_acc = 0\<rparr>"

definition nav_hpposecef_layout :: "nav_hpposecef verb list" where
  "nav_hpposecef_layout =
     [Field8 nav_hpposecef.version (\<lambda>v. nav_hpposecef.version_update (\<lambda>_. v)),
      Reserved 3,
      Field32 nav_hpposecef.i_tow (\<lambda>v. nav_hpposecef.i_tow_update (\<lambda>_. v)),
      Field32 nav_hpposecef.ecef_x (\<lambda>v. nav_hpposecef.ecef_x_update (\<lambda>_. v)),
      Field32 nav_hpposecef.ecef_y (\<lambda>v. nav_hpposecef.ecef_y_update (\<lambda>_. v)),
      Field32 nav_hpposecef.ecef_z (\<lambda>v. nav_hpposecef.ecef_z_update (\<lambda>_. v)),
      Field8 nav_hpposecef.ecef_x_hp (\<lambda>v. nav_hpposecef.ecef_x_hp_update (\<lambda>_. v)),
      Field8 nav_hpposecef.ecef_y_hp (\<lambda>v. nav_hpposecef.ecef_y_hp_update (\<lambda>_. v)),
      Field8 nav_hpposecef.ecef_z_hp (\<lambda>v. nav_hpposecef.ecef_z_hp_update (\<lambda>_. v)),
      Field8 nav_hpposecef.flags (\<lambda>v. nav_hpposecef.flags_update (\<lambda>_. v)),
      Field32 nav_hpposecef.p_acc (\<lambda>v. nav_hpposecef.p_acc_update (\<lambda>_. v))]"

definition nav_hpposecef_message :: "nav_hpposecef message_type" where
  "nav_hpposecef_message = \<lparr>mt_class = 0x1, mt_id = 0x13, mt_length = 28, mt_init = nav_hpposecef_init, mt_layout = nav_hpposecef_layout\<rparr>"

interpretation nav_hpposecef_msg: fixed_message nav_hpposecef_message "\<lambda>_. True"
  by unfold_locales (simp_all add: nav_hpposecef_message_def nav_hpposecef_layout_def nav_hpposecef_init_def layout_rules)

section \<open>\<open>nav_hpposllh\<close> (\<open>nav_hpposllh.hpp\<close>)\<close>

record nav_hpposllh =
  version :: u8
  flags :: u8
  i_tow :: u32
  lon :: u32
  lat :: u32
  height :: u32
  h_msl :: u32
  lon_hp :: u8
  lat_hp :: u8
  height_hp :: u8
  h_msl_hp :: u8
  h_acc :: u32
  v_acc :: u32

definition nav_hpposllh_init :: nav_hpposllh where
  "nav_hpposllh_init =
     \<lparr>nav_hpposllh.version = 0, nav_hpposllh.flags = 0, nav_hpposllh.i_tow = 0, nav_hpposllh.lon = 0,
      nav_hpposllh.lat = 0, nav_hpposllh.height = 0, nav_hpposllh.h_msl = 0, nav_hpposllh.lon_hp = 0,
      nav_hpposllh.lat_hp = 0, nav_hpposllh.height_hp = 0, nav_hpposllh.h_msl_hp = 0,
      nav_hpposllh.h_acc = 0, nav_hpposllh.v_acc = 0\<rparr>"

definition nav_hpposllh_layout :: "nav_hpposllh verb list" where
  "nav_hpposllh_layout =
     [Field8 nav_hpposllh.version (\<lambda>v. nav_hpposllh.version_update (\<lambda>_. v)),
      Reserved 2,
      Field8 nav_hpposllh.flags (\<lambda>v. nav_hpposllh.flags_update (\<lambda>_. v)),
      Field32 nav_hpposllh.i_tow (\<lambda>v. nav_hpposllh.i_tow_update (\<lambda>_. v)),
      Field32 nav_hpposllh.lon (\<lambda>v. nav_hpposllh.lon_update (\<lambda>_. v)),
      Field32 nav_hpposllh.lat (\<lambda>v. nav_hpposllh.lat_update (\<lambda>_. v)),
      Field32 nav_hpposllh.height (\<lambda>v. nav_hpposllh.height_update (\<lambda>_. v)),
      Field32 nav_hpposllh.h_msl (\<lambda>v. nav_hpposllh.h_msl_update (\<lambda>_. v)),
      Field8 nav_hpposllh.lon_hp (\<lambda>v. nav_hpposllh.lon_hp_update (\<lambda>_. v)),
      Field8 nav_hpposllh.lat_hp (\<lambda>v. nav_hpposllh.lat_hp_update (\<lambda>_. v)),
      Field8 nav_hpposllh.height_hp (\<lambda>v. nav_hpposllh.height_hp_update (\<lambda>_. v)),
      Field8 nav_hpposllh.h_msl_hp (\<lambda>v. nav_hpposllh.h_msl_hp_update (\<lambda>_. v)),
      Field32 nav_hpposllh.h_acc (\<lambda>v. nav_hpposllh.h_acc_update (\<lambda>_. v)),
      Field32 nav_hpposllh.v_acc (\<lambda>v. nav_hpposllh.v_acc_update (\<lambda>_. v))]"

definition nav_hpposllh_message :: "nav_hpposllh message_type" where
  "nav_hpposllh_message = \<lparr>mt_class = 0x1, mt_id = 0x14, mt_length = 36, mt_init = nav_hpposllh_init, mt_layout = nav_hpposllh_layout\<rparr>"

interpretation nav_hpposllh_msg: fixed_message nav_hpposllh_message "\<lambda>_. True"
  by unfold_locales (simp_all add: nav_hpposllh_message_def nav_hpposllh_layout_def nav_hpposllh_init_def layout_rules)

section \<open>\<open>nav_odo\<close> (\<open>nav_odo.hpp\<close>)\<close>

record nav_odo =
  version :: u8
  i_tow :: u32
  distance :: u32
  total_distance :: u32
  distance_std :: u32

definition nav_odo_init :: nav_odo where
  "nav_odo_init =
     \<lparr>nav_odo.version = 0, nav_odo.i_tow = 0, nav_odo.distance = 0, nav_odo.total_distance = 0,
      nav_odo.distance_std = 0\<rparr>"

definition nav_odo_layout :: "nav_odo verb list" where
  "nav_odo_layout =
     [Field8 nav_odo.version (\<lambda>v. nav_odo.version_update (\<lambda>_. v)),
      Reserved 3,
      Field32 nav_odo.i_tow (\<lambda>v. nav_odo.i_tow_update (\<lambda>_. v)),
      Field32 nav_odo.distance (\<lambda>v. nav_odo.distance_update (\<lambda>_. v)),
      Field32 nav_odo.total_distance (\<lambda>v. nav_odo.total_distance_update (\<lambda>_. v)),
      Field32 nav_odo.distance_std (\<lambda>v. nav_odo.distance_std_update (\<lambda>_. v))]"

definition nav_odo_message :: "nav_odo message_type" where
  "nav_odo_message = \<lparr>mt_class = 0x1, mt_id = 0x9, mt_length = 20, mt_init = nav_odo_init, mt_layout = nav_odo_layout\<rparr>"

interpretation nav_odo_msg: fixed_message nav_odo_message "\<lambda>_. True"
  by unfold_locales (simp_all add: nav_odo_message_def nav_odo_layout_def nav_odo_init_def layout_rules)

section \<open>\<open>nav_posecef\<close> (\<open>nav_posecef.hpp\<close>)\<close>

record nav_posecef =
  i_tow :: u32
  ecef_x :: u32
  ecef_y :: u32
  ecef_z :: u32
  p_acc :: u32

definition nav_posecef_init :: nav_posecef where
  "nav_posecef_init =
     \<lparr>nav_posecef.i_tow = 0, nav_posecef.ecef_x = 0, nav_posecef.ecef_y = 0, nav_posecef.ecef_z = 0,
      nav_posecef.p_acc = 0\<rparr>"

definition nav_posecef_layout :: "nav_posecef verb list" where
  "nav_posecef_layout =
     [Field32 nav_posecef.i_tow (\<lambda>v. nav_posecef.i_tow_update (\<lambda>_. v)),
      Field32 nav_posecef.ecef_x (\<lambda>v. nav_posecef.ecef_x_update (\<lambda>_. v)),
      Field32 nav_posecef.ecef_y (\<lambda>v. nav_posecef.ecef_y_update (\<lambda>_. v)),
      Field32 nav_posecef.ecef_z (\<lambda>v. nav_posecef.ecef_z_update (\<lambda>_. v)),
      Field32 nav_posecef.p_acc (\<lambda>v. nav_posecef.p_acc_update (\<lambda>_. v))]"

definition nav_posecef_message :: "nav_posecef message_type" where
  "nav_posecef_message = \<lparr>mt_class = 0x1, mt_id = 0x1, mt_length = 20, mt_init = nav_posecef_init, mt_layout = nav_posecef_layout\<rparr>"

interpretation nav_posecef_msg: fixed_message nav_posecef_message "\<lambda>_. True"
  by unfold_locales (simp_all add: nav_posecef_message_def nav_posecef_layout_def nav_posecef_init_def layout_rules)

section \<open>\<open>nav_posllh\<close> (\<open>nav_posllh.hpp\<close>)\<close>

record nav_posllh =
  i_tow :: u32
  lon :: u32
  lat :: u32
  height :: u32
  h_msl :: u32
  h_acc :: u32
  v_acc :: u32

definition nav_posllh_init :: nav_posllh where
  "nav_posllh_init =
     \<lparr>nav_posllh.i_tow = 0, nav_posllh.lon = 0, nav_posllh.lat = 0, nav_posllh.height = 0,
      nav_posllh.h_msl = 0, nav_posllh.h_acc = 0, nav_posllh.v_acc = 0\<rparr>"

definition nav_posllh_layout :: "nav_posllh verb list" where
  "nav_posllh_layout =
     [Field32 nav_posllh.i_tow (\<lambda>v. nav_posllh.i_tow_update (\<lambda>_. v)),
      Field32 nav_posllh.lon (\<lambda>v. nav_posllh.lon_update (\<lambda>_. v)),
      Field32 nav_posllh.lat (\<lambda>v. nav_posllh.lat_update (\<lambda>_. v)),
      Field32 nav_posllh.height (\<lambda>v. nav_posllh.height_update (\<lambda>_. v)),
      Field32 nav_posllh.h_msl (\<lambda>v. nav_posllh.h_msl_update (\<lambda>_. v)),
      Field32 nav_posllh.h_acc (\<lambda>v. nav_posllh.h_acc_update (\<lambda>_. v)),
      Field32 nav_posllh.v_acc (\<lambda>v. nav_posllh.v_acc_update (\<lambda>_. v))]"

definition nav_posllh_message :: "nav_posllh message_type" where
  "nav_posllh_message = \<lparr>mt_class = 0x1, mt_id = 0x2, mt_length = 28, mt_init = nav_posllh_init, mt_layout = nav_posllh_layout\<rparr>"

interpretation nav_posllh_msg: fixed_message nav_posllh_message "\<lambda>_. True"
  by unfold_locales (simp_all add: nav_posllh_message_def nav_posllh_layout_def nav_posllh_init_def layout_rules)

section \<open>\<open>basic_nav_pvt\<close> (\<open>nav_pvt.hpp\<close>)\<close>

record basic_nav_pvt =
  i_tow :: u32
  year :: u16
  month :: u8
  day :: u8
  hour :: u8
  minute :: u8
  second :: u8
  valid :: u8
  t_acc :: u32
  nano :: u32
  fix_type :: u8
  flags :: u8
  flags2 :: u8
  num_sv :: u8
  lon :: u32
  lat :: u32
  height :: u32
  h_msl :: u32
  h_acc :: u32
  v_acc :: u32
  vel_n :: u32
  vel_e :: u32
  vel_d :: u32
  g_speed :: u32
  head_mot :: u32
  s_acc :: u32
  head_acc :: u32
  p_dop :: u16
  flags3 :: u8
  head_veh :: u32
  mag_dec :: u16
  mag_acc :: u16

definition basic_nav_pvt_init :: basic_nav_pvt where
  "basic_nav_pvt_init =
     \<lparr>basic_nav_pvt.i_tow = 0, basic_nav_pvt.year = 0, basic_nav_pvt.month = 0,
      basic_nav_pvt.day = 0, basic_nav_pvt.hour = 0, basic_nav_pvt.minute = 0,
      basic_nav_pvt.second = 0, basic_nav_pvt.valid = 0, basic_nav_pvt.t_acc = 0,
      basic_nav_pvt.nano = 0, basic_nav_pvt.fix_type = 0, basic_nav_pvt.flags = 0,
      basic_nav_pvt.flags2 = 0, basic_nav_pvt.num_sv = 0, basic_nav_pvt.lon = 0,
      basic_nav_pvt.lat = 0, basic_nav_pvt.height = 0, basic_nav_pvt.h_msl = 0,
      basic_nav_pvt.h_acc = 0, basic_nav_pvt.v_acc = 0, basic_nav_pvt.vel_n = 0,
      basic_nav_pvt.vel_e = 0, basic_nav_pvt.vel_d = 0, basic_nav_pvt.g_speed = 0,
      basic_nav_pvt.head_mot = 0, basic_nav_pvt.s_acc = 0, basic_nav_pvt.head_acc = 0,
      basic_nav_pvt.p_dop = 0, basic_nav_pvt.flags3 = 0, basic_nav_pvt.head_veh = 0,
      basic_nav_pvt.mag_dec = 0, basic_nav_pvt.mag_acc = 0\<rparr>"

definition basic_nav_pvt_layout :: "basic_nav_pvt verb list" where
  "basic_nav_pvt_layout =
     [Field32 basic_nav_pvt.i_tow (\<lambda>v. basic_nav_pvt.i_tow_update (\<lambda>_. v)),
      Field16 basic_nav_pvt.year (\<lambda>v. basic_nav_pvt.year_update (\<lambda>_. v)),
      Field8 basic_nav_pvt.month (\<lambda>v. basic_nav_pvt.month_update (\<lambda>_. v)),
      Field8 basic_nav_pvt.day (\<lambda>v. basic_nav_pvt.day_update (\<lambda>_. v)),
      Field8 basic_nav_pvt.hour (\<lambda>v. basic_nav_pvt.hour_update (\<lambda>_. v)),
      Field8 basic_nav_pvt.minute (\<lambda>v. basic_nav_pvt.minute_update (\<lambda>_. v)),
      Field8 basic_nav_pvt.second (\<lambda>v. basic_nav_pvt.second_update (\<lambda>_. v)),
      Field8 basic_nav_pvt.valid (\<lambda>v. basic_nav_pvt.valid_update (\<lambda>_. v)),
      Field32 basic_nav_pvt.t_acc (\<lambda>v. basic_nav_pvt.t_acc_update (\<lambda>_. v)),
      Field32 basic_nav_pvt.nano (\<lambda>v. basic_nav_pvt.nano_update (\<lambda>_. v)),
      Field8 basic_nav_pvt.fix_type (\<lambda>v. basic_nav_pvt.fix_type_update (\<lambda>_. v)),
      Field8 basic_nav_pvt.flags (\<lambda>v. basic_nav_pvt.flags_update (\<lambda>_. v)),
      Field8 basic_nav_pvt.flags2 (\<lambda>v. basic_nav_pvt.flags2_update (\<lambda>_. v)),
      Field8 basic_nav_pvt.num_sv (\<lambda>v. basic_nav_pvt.num_sv_update (\<lambda>_. v)),
      Field32 basic_nav_pvt.lon (\<lambda>v. basic_nav_pvt.lon_update (\<lambda>_. v)),
      Field32 basic_nav_pvt.lat (\<lambda>v. basic_nav_pvt.lat_update (\<lambda>_. v)),
      Field32 basic_nav_pvt.height (\<lambda>v. basic_nav_pvt.height_update (\<lambda>_. v)),
      Field32 basic_nav_pvt.h_msl (\<lambda>v. basic_nav_pvt.h_msl_update (\<lambda>_. v)),
      Field32 basic_nav_pvt.h_acc (\<lambda>v. basic_nav_pvt.h_acc_update (\<lambda>_. v)),
      Field32 basic_nav_pvt.v_acc (\<lambda>v. basic_nav_pvt.v_acc_update (\<lambda>_. v)),
      Field32 basic_nav_pvt.vel_n (\<lambda>v. basic_nav_pvt.vel_n_update (\<lambda>_. v)),
      Field32 basic_nav_pvt.vel_e (\<lambda>v. basic_nav_pvt.vel_e_update (\<lambda>_. v)),
      Field32 basic_nav_pvt.vel_d (\<lambda>v. basic_nav_pvt.vel_d_update (\<lambda>_. v)),
      Field32 basic_nav_pvt.g_speed (\<lambda>v. basic_nav_pvt.g_speed_update (\<lambda>_. v)),
      Field32 basic_nav_pvt.head_mot (\<lambda>v. basic_nav_pvt.head_mot_update (\<lambda>_. v)),
      Field32 basic_nav_pvt.s_acc (\<lambda>v. basic_nav_pvt.s_acc_update (\<lambda>_. v)),
      Field32 basic_nav_pvt.head_acc (\<lambda>v. basic_nav_pvt.head_acc_update (\<lambda>_. v)),
      Field16 basic_nav_pvt.p_dop (\<lambda>v. basic_nav_pvt.p_dop_update (\<lambda>_. v)),
      Field8 basic_nav_pvt.flags3 (\<lambda>v. basic_nav_pvt.flags3_update (\<lambda>_. v)),
      Reserved 5,
      Field32 basic_nav_pvt.head_veh (\<lambda>v. basic_nav_pvt.head_veh_update (\<lambda>_. v)),
      Field16 basic_nav_pvt.mag_dec (\<lambda>v. basic_nav_pvt.mag_dec_update (\<lambda>_. v)),
      Field16 basic_nav_pvt.mag_acc (\<lambda>v. basic_nav_pvt.mag_acc_update (\<lambda>_. v))]"

definition nav2_pvt_message :: "basic_nav_pvt message_type" where
  "nav2_pvt_message = \<lparr>mt_class = 0x29, mt_id = 0x7, mt_length = 92, mt_init = basic_nav_pvt_init, mt_layout = basic_nav_pvt_layout\<rparr>"

interpretation nav2_pvt_msg: fixed_message nav2_pvt_message "\<lambda>_. True"
  by unfold_locales (simp_all add: nav2_pvt_message_def basic_nav_pvt_layout_def basic_nav_pvt_init_def layout_rules)

definition nav_pvt_message :: "basic_nav_pvt message_type" where
  "nav_pvt_message = \<lparr>mt_class = 0x1, mt_id = 0x7, mt_length = 92, mt_init = basic_nav_pvt_init, mt_layout = basic_nav_pvt_layout\<rparr>"

interpretation nav_pvt_msg: fixed_message nav_pvt_message "\<lambda>_. True"
  by unfold_locales (simp_all add: nav_pvt_message_def basic_nav_pvt_layout_def basic_nav_pvt_init_def layout_rules)

section \<open>\<open>nav_relposned\<close> (\<open>nav_relposned.hpp\<close>)\<close>

record nav_relposned =
  version :: u8
  ref_station_id :: u16
  i_tow :: u32
  rel_pos_n :: u32
  rel_pos_e :: u32
  rel_pos_d :: u32
  rel_pos_length :: u32
  rel_pos_heading :: u32
  rel_pos_hp_n :: u8
  rel_pos_hp_e :: u8
  rel_pos_hp_d :: u8
  rel_pos_hp_length :: u8
  acc_n :: u32
  acc_e :: u32
  acc_d :: u32
  acc_length :: u32
  acc_heading :: u32
  flags :: u32

definition nav_relposned_init :: nav_relposned where
  "nav_relposned_init =
     \<lparr>nav_relposned.version = 0, nav_relposned.ref_station_id = 0, nav_relposned.i_tow = 0,
      nav_relposned.rel_pos_n = 0, nav_relposned.rel_pos_e = 0, nav_relposned.rel_pos_d = 0,
      nav_relposned.rel_pos_length = 0, nav_relposned.rel_pos_heading = 0,
      nav_relposned.rel_pos_hp_n = 0, nav_relposned.rel_pos_hp_e = 0, nav_relposned.rel_pos_hp_d = 0,
      nav_relposned.rel_pos_hp_length = 0, nav_relposned.acc_n = 0, nav_relposned.acc_e = 0,
      nav_relposned.acc_d = 0, nav_relposned.acc_length = 0, nav_relposned.acc_heading = 0,
      nav_relposned.flags = 0\<rparr>"

definition nav_relposned_layout :: "nav_relposned verb list" where
  "nav_relposned_layout =
     [Field8 nav_relposned.version (\<lambda>v. nav_relposned.version_update (\<lambda>_. v)),
      Reserved 1,
      Field16 nav_relposned.ref_station_id (\<lambda>v. nav_relposned.ref_station_id_update (\<lambda>_. v)),
      Field32 nav_relposned.i_tow (\<lambda>v. nav_relposned.i_tow_update (\<lambda>_. v)),
      Field32 nav_relposned.rel_pos_n (\<lambda>v. nav_relposned.rel_pos_n_update (\<lambda>_. v)),
      Field32 nav_relposned.rel_pos_e (\<lambda>v. nav_relposned.rel_pos_e_update (\<lambda>_. v)),
      Field32 nav_relposned.rel_pos_d (\<lambda>v. nav_relposned.rel_pos_d_update (\<lambda>_. v)),
      Field32 nav_relposned.rel_pos_length (\<lambda>v. nav_relposned.rel_pos_length_update (\<lambda>_. v)),
      Field32 nav_relposned.rel_pos_heading (\<lambda>v. nav_relposned.rel_pos_heading_update (\<lambda>_. v)),
      Reserved 4,
      Field8 nav_relposned.rel_pos_hp_n (\<lambda>v. nav_relposned.rel_pos_hp_n_update (\<lambda>_. v)),
      Field8 nav_relposned.rel_pos_hp_e (\<lambda>v. nav_relposned.rel_pos_hp_e_update (\<lambda>_. v)),
      Field8 nav_relposned.rel_pos_hp_d (\<lambda>v. nav_relposned.rel_pos_hp_d_update (\<lambda>_. v)),
      Field8 nav_relposned.rel_pos_hp_length (\<lambda>v. nav_relposned.rel_pos_hp_length_update (\<lambda>_. v)),
      Field32 nav_relposned.acc_n (\<lambda>v. nav_relposned.acc_n_update (\<lambda>_. v)),
      Field32 nav_relposned.acc_e (\<lambda>v. nav_relposned.acc_e_update (\<lambda>_. v)),
      Field32 nav_relposned.acc_d (\<lambda>v. nav_relposned.acc_d_update (\<lambda>_. v)),
      Field32 nav_relposned.acc_length (\<lambda>v. nav_relposned.acc_length_update (\<lambda>_. v)),
      Field32 nav_relposned.acc_heading (\<lambda>v. nav_relposned.acc_heading_update (\<lambda>_. v)),
      Reserved 4,
      Field32 nav_relposned.flags (\<lambda>v. nav_relposned.flags_update (\<lambda>_. v))]"

definition nav_relposned_message :: "nav_relposned message_type" where
  "nav_relposned_message = \<lparr>mt_class = 0x1, mt_id = 0x3c, mt_length = 64, mt_init = nav_relposned_init, mt_layout = nav_relposned_layout\<rparr>"

interpretation nav_relposned_msg: fixed_message nav_relposned_message "\<lambda>_. True"
  by unfold_locales (simp_all add: nav_relposned_message_def nav_relposned_layout_def nav_relposned_init_def layout_rules)

section \<open>\<open>nav_status\<close> (\<open>nav_status.hpp\<close>)\<close>

record nav_status =
  i_tow :: u32
  gps_fix :: u8
  flags :: u8
  fix_stat :: u8
  flags2 :: u8
  ttff :: u32
  msss :: u32

definition nav_status_init :: nav_status where
  "nav_status_init =
     \<lparr>nav_status.i_tow = 0, nav_status.gps_fix = 0, nav_status.flags = 0, nav_status.fix_stat = 0,
      nav_status.flags2 = 0, nav_status.ttff = 0, nav_status.msss = 0\<rparr>"

definition nav_status_layout :: "nav_status verb list" where
  "nav_status_layout =
     [Field32 nav_status.i_tow (\<lambda>v. nav_status.i_tow_update (\<lambda>_. v)),
      Field8 nav_status.gps_fix (\<lambda>v. nav_status.gps_fix_update (\<lambda>_. v)),
      Field8 nav_status.flags (\<lambda>v. nav_status.flags_update (\<lambda>_. v)),
      Field8 nav_status.fix_stat (\<lambda>v. nav_status.fix_stat_update (\<lambda>_. v)),
      Field8 nav_status.flags2 (\<lambda>v. nav_status.flags2_update (\<lambda>_. v)),
      Field32 nav_status.ttff (\<lambda>v. nav_status.ttff_update (\<lambda>_. v)),
      Field32 nav_status.msss (\<lambda>v. nav_status.msss_update (\<lambda>_. v))]"

definition nav_status_message :: "nav_status message_type" where
  "nav_status_message = \<lparr>mt_class = 0x1, mt_id = 0x3, mt_length = 16, mt_init = nav_status_init, mt_layout = nav_status_layout\<rparr>"

interpretation nav_status_msg: fixed_message nav_status_message "\<lambda>_. True"
  by unfold_locales (simp_all add: nav_status_message_def nav_status_layout_def nav_status_init_def layout_rules)

section \<open>\<open>nav_timeglo\<close> (\<open>nav_timeglo.hpp\<close>)\<close>

record nav_timeglo =
  i_tow :: u32
  tod :: u32
  f_tod :: u32
  nt :: u16
  n4 :: u8
  valid :: u8
  t_acc :: u32

definition nav_timeglo_init :: nav_timeglo where
  "nav_timeglo_init =
     \<lparr>nav_timeglo.i_tow = 0, nav_timeglo.tod = 0, nav_timeglo.f_tod = 0, nav_timeglo.nt = 0,
      nav_timeglo.n4 = 0, nav_timeglo.valid = 0, nav_timeglo.t_acc = 0\<rparr>"

definition nav_timeglo_layout :: "nav_timeglo verb list" where
  "nav_timeglo_layout =
     [Field32 nav_timeglo.i_tow (\<lambda>v. nav_timeglo.i_tow_update (\<lambda>_. v)),
      Field32 nav_timeglo.tod (\<lambda>v. nav_timeglo.tod_update (\<lambda>_. v)),
      Field32 nav_timeglo.f_tod (\<lambda>v. nav_timeglo.f_tod_update (\<lambda>_. v)),
      Field16 nav_timeglo.nt (\<lambda>v. nav_timeglo.nt_update (\<lambda>_. v)),
      Field8 nav_timeglo.n4 (\<lambda>v. nav_timeglo.n4_update (\<lambda>_. v)),
      Field8 nav_timeglo.valid (\<lambda>v. nav_timeglo.valid_update (\<lambda>_. v)),
      Field32 nav_timeglo.t_acc (\<lambda>v. nav_timeglo.t_acc_update (\<lambda>_. v))]"

definition nav_timeglo_message :: "nav_timeglo message_type" where
  "nav_timeglo_message = \<lparr>mt_class = 0x1, mt_id = 0x23, mt_length = 20, mt_init = nav_timeglo_init, mt_layout = nav_timeglo_layout\<rparr>"

interpretation nav_timeglo_msg: fixed_message nav_timeglo_message "\<lambda>_. True"
  by unfold_locales (simp_all add: nav_timeglo_message_def nav_timeglo_layout_def nav_timeglo_init_def layout_rules)

section \<open>\<open>basic_nav_timegps\<close> (\<open>nav_timegps.hpp\<close>)\<close>

record basic_nav_timegps =
  i_tow :: u32
  f_tow :: u32
  week :: u16
  leap_s :: u8
  valid :: u8
  t_acc :: u32

definition basic_nav_timegps_init :: basic_nav_timegps where
  "basic_nav_timegps_init =
     \<lparr>basic_nav_timegps.i_tow = 0, basic_nav_timegps.f_tow = 0, basic_nav_timegps.week = 0,
      basic_nav_timegps.leap_s = 0, basic_nav_timegps.valid = 0, basic_nav_timegps.t_acc = 0\<rparr>"

definition basic_nav_timegps_layout :: "basic_nav_timegps verb list" where
  "basic_nav_timegps_layout =
     [Field32 basic_nav_timegps.i_tow (\<lambda>v. basic_nav_timegps.i_tow_update (\<lambda>_. v)),
      Field32 basic_nav_timegps.f_tow (\<lambda>v. basic_nav_timegps.f_tow_update (\<lambda>_. v)),
      Field16 basic_nav_timegps.week (\<lambda>v. basic_nav_timegps.week_update (\<lambda>_. v)),
      Field8 basic_nav_timegps.leap_s (\<lambda>v. basic_nav_timegps.leap_s_update (\<lambda>_. v)),
      Field8 basic_nav_timegps.valid (\<lambda>v. basic_nav_timegps.valid_update (\<lambda>_. v)),
      Field32 basic_nav_timegps.t_acc (\<lambda>v. basic_nav_timegps.t_acc_update (\<lambda>_. v))]"

definition nav2_timegps_message :: "basic_nav_timegps message_type" where
  "nav2_timegps_message = \<lparr>mt_class = 0x29, mt_id = 0x20, mt_length = 16, mt_init = basic_nav_timegps_init, mt_layout = basic_nav_timegps_layout\<rparr>"

interpretation nav2_timegps_msg: fixed_message nav2_timegps_message "\<lambda>_. True"
  by unfold_locales (simp_all add: nav2_timegps_message_def basic_nav_timegps_layout_def basic_nav_timegps_init_def layout_rules)

definition nav_timegps_message :: "basic_nav_timegps message_type" where
  "nav_timegps_message = \<lparr>mt_class = 0x1, mt_id = 0x20, mt_length = 16, mt_init = basic_nav_timegps_init, mt_layout = basic_nav_timegps_layout\<rparr>"

interpretation nav_timegps_msg: fixed_message nav_timegps_message "\<lambda>_. True"
  by unfold_locales (simp_all add: nav_timegps_message_def basic_nav_timegps_layout_def basic_nav_timegps_init_def layout_rules)

section \<open>\<open>nav_timels\<close> (\<open>nav_timels.hpp\<close>)\<close>

record nav_timels =
  i_tow :: u32
  version :: u8
  src_of_curr_ls :: u8
  curr_ls :: u8
  src_of_ls_change :: u8
  ls_change :: u8
  time_to_ls_event :: u32
  date_of_ls_gps_wn :: u16
  date_of_ls_gps_dn :: u16
  valid :: u8

definition nav_timels_init :: nav_timels where
  "nav_timels_init =
     \<lparr>nav_timels.i_tow = 0, nav_timels.version = 0, nav_timels.src_of_curr_ls = 0,
      nav_timels.curr_ls = 0, nav_timels.src_of_ls_change = 0, nav_timels.ls_change = 0,
      nav_timels.time_to_ls_event = 0, nav_timels.date_of_ls_gps_wn = 0,
      nav_timels.date_of_ls_gps_dn = 0, nav_timels.valid = 0\<rparr>"

definition nav_timels_layout :: "nav_timels verb list" where
  "nav_timels_layout =
     [Field32 nav_timels.i_tow (\<lambda>v. nav_timels.i_tow_update (\<lambda>_. v)),
      Field8 nav_timels.version (\<lambda>v. nav_timels.version_update (\<lambda>_. v)),
      Reserved 3,
      Field8 nav_timels.src_of_curr_ls (\<lambda>v. nav_timels.src_of_curr_ls_update (\<lambda>_. v)),
      Field8 nav_timels.curr_ls (\<lambda>v. nav_timels.curr_ls_update (\<lambda>_. v)),
      Field8 nav_timels.src_of_ls_change (\<lambda>v. nav_timels.src_of_ls_change_update (\<lambda>_. v)),
      Field8 nav_timels.ls_change (\<lambda>v. nav_timels.ls_change_update (\<lambda>_. v)),
      Field32 nav_timels.time_to_ls_event (\<lambda>v. nav_timels.time_to_ls_event_update (\<lambda>_. v)),
      Field16 nav_timels.date_of_ls_gps_wn (\<lambda>v. nav_timels.date_of_ls_gps_wn_update (\<lambda>_. v)),
      Field16 nav_timels.date_of_ls_gps_dn (\<lambda>v. nav_timels.date_of_ls_gps_dn_update (\<lambda>_. v)),
      Reserved 3,
      Field8 nav_timels.valid (\<lambda>v. nav_timels.valid_update (\<lambda>_. v))]"

definition nav_timels_message :: "nav_timels message_type" where
  "nav_timels_message = \<lparr>mt_class = 0x1, mt_id = 0x26, mt_length = 24, mt_init = nav_timels_init, mt_layout = nav_timels_layout\<rparr>"

interpretation nav_timels_msg: fixed_message nav_timels_message "\<lambda>_. True"
  by unfold_locales (simp_all add: nav_timels_message_def nav_timels_layout_def nav_timels_init_def layout_rules)

section \<open>\<open>nav_timeutc\<close> (\<open>nav_timeutc.hpp\<close>)\<close>

record nav_timeutc =
  i_tow :: u32
  t_acc :: u32
  nano :: u32
  year :: u16
  month :: u8
  day :: u8
  hour :: u8
  min :: u8
  sec :: u8
  valid :: u8

definition nav_timeutc_init :: nav_timeutc where
  "nav_timeutc_init =
     \<lparr>nav_timeutc.i_tow = 0, nav_timeutc.t_acc = 0, nav_timeutc.nano = 0, nav_timeutc.year = 0,
      nav_timeutc.month = 0, nav_timeutc.day = 0, nav_timeutc.hour = 0, nav_timeutc.min = 0,
      nav_timeutc.sec = 0, nav_timeutc.valid = 0\<rparr>"

definition nav_timeutc_layout :: "nav_timeutc verb list" where
  "nav_timeutc_layout =
     [Field32 nav_timeutc.i_tow (\<lambda>v. nav_timeutc.i_tow_update (\<lambda>_. v)),
      Field32 nav_timeutc.t_acc (\<lambda>v. nav_timeutc.t_acc_update (\<lambda>_. v)),
      Field32 nav_timeutc.nano (\<lambda>v. nav_timeutc.nano_update (\<lambda>_. v)),
      Field16 nav_timeutc.year (\<lambda>v. nav_timeutc.year_update (\<lambda>_. v)),
      Field8 nav_timeutc.month (\<lambda>v. nav_timeutc.month_update (\<lambda>_. v)),
      Field8 nav_timeutc.day (\<lambda>v. nav_timeutc.day_update (\<lambda>_. v)),
      Field8 nav_timeutc.hour (\<lambda>v. nav_timeutc.hour_update (\<lambda>_. v)),
      Field8 nav_timeutc.min (\<lambda>v. nav_timeutc.min_update (\<lambda>_. v)),
      Field8 nav_timeutc.sec (\<lambda>v. nav_timeutc.sec_update (\<lambda>_. v)),
      Field8 nav_timeutc.valid (\<lambda>v. nav_timeutc.valid_update (\<lambda>_. v))]"

definition nav_timeutc_message :: "nav_timeutc message_type" where
  "nav_timeutc_message = \<lparr>mt_class = 0x1, mt_id = 0x21, mt_length = 20, mt_init = nav_timeutc_init, mt_layout = nav_timeutc_layout\<rparr>"

interpretation nav_timeutc_msg: fixed_message nav_timeutc_message "\<lambda>_. True"
  by unfold_locales (simp_all add: nav_timeutc_message_def nav_timeutc_layout_def nav_timeutc_init_def layout_rules)

section \<open>\<open>nav_velecef\<close> (\<open>nav_velecef.hpp\<close>)\<close>

record nav_velecef =
  i_tow :: u32
  ecef_vx :: u32
  ecef_vy :: u32
  ecef_vz :: u32
  s_acc :: u32

definition nav_velecef_init :: nav_velecef where
  "nav_velecef_init =
     \<lparr>nav_velecef.i_tow = 0, nav_velecef.ecef_vx = 0, nav_velecef.ecef_vy = 0,
      nav_velecef.ecef_vz = 0, nav_velecef.s_acc = 0\<rparr>"

definition nav_velecef_layout :: "nav_velecef verb list" where
  "nav_velecef_layout =
     [Field32 nav_velecef.i_tow (\<lambda>v. nav_velecef.i_tow_update (\<lambda>_. v)),
      Field32 nav_velecef.ecef_vx (\<lambda>v. nav_velecef.ecef_vx_update (\<lambda>_. v)),
      Field32 nav_velecef.ecef_vy (\<lambda>v. nav_velecef.ecef_vy_update (\<lambda>_. v)),
      Field32 nav_velecef.ecef_vz (\<lambda>v. nav_velecef.ecef_vz_update (\<lambda>_. v)),
      Field32 nav_velecef.s_acc (\<lambda>v. nav_velecef.s_acc_update (\<lambda>_. v))]"

definition nav_velecef_message :: "nav_velecef message_type" where
  "nav_velecef_message = \<lparr>mt_class = 0x1, mt_id = 0x11, mt_length = 20, mt_init = nav_velecef_init, mt_layout = nav_velecef_layout\<rparr>"

interpretation nav_velecef_msg: fixed_message nav_velecef_message "\<lambda>_. True"
  by unfold_locales (simp_all add: nav_velecef_message_def nav_velecef_layout_def nav_velecef_init_def layout_rules)

section \<open>\<open>nav_velned\<close> (\<open>nav_velned.hpp\<close>)\<close>

record nav_velned =
  i_tow :: u32
  vel_n :: u32
  vel_e :: u32
  vel_d :: u32
  speed :: u32
  g_speed :: u32
  heading :: u32
  s_acc :: u32
  c_acc :: u32

definition nav_velned_init :: nav_velned where
  "nav_velned_init =
     \<lparr>nav_velned.i_tow = 0, nav_velned.vel_n = 0, nav_velned.vel_e = 0, nav_velned.vel_d = 0,
      nav_velned.speed = 0, nav_velned.g_speed = 0, nav_velned.heading = 0, nav_velned.s_acc = 0,
      nav_velned.c_acc = 0\<rparr>"

definition nav_velned_layout :: "nav_velned verb list" where
  "nav_velned_layout =
     [Field32 nav_velned.i_tow (\<lambda>v. nav_velned.i_tow_update (\<lambda>_. v)),
      Field32 nav_velned.vel_n (\<lambda>v. nav_velned.vel_n_update (\<lambda>_. v)),
      Field32 nav_velned.vel_e (\<lambda>v. nav_velned.vel_e_update (\<lambda>_. v)),
      Field32 nav_velned.vel_d (\<lambda>v. nav_velned.vel_d_update (\<lambda>_. v)),
      Field32 nav_velned.speed (\<lambda>v. nav_velned.speed_update (\<lambda>_. v)),
      Field32 nav_velned.g_speed (\<lambda>v. nav_velned.g_speed_update (\<lambda>_. v)),
      Field32 nav_velned.heading (\<lambda>v. nav_velned.heading_update (\<lambda>_. v)),
      Field32 nav_velned.s_acc (\<lambda>v. nav_velned.s_acc_update (\<lambda>_. v)),
      Field32 nav_velned.c_acc (\<lambda>v. nav_velned.c_acc_update (\<lambda>_. v))]"

definition nav_velned_message :: "nav_velned message_type" where
  "nav_velned_message = \<lparr>mt_class = 0x1, mt_id = 0x12, mt_length = 36, mt_init = nav_velned_init, mt_layout = nav_velned_layout\<rparr>"

interpretation nav_velned_msg: fixed_message nav_velned_message "\<lambda>_. True"
  by unfold_locales (simp_all add: nav_velned_message_def nav_velned_layout_def nav_velned_init_def layout_rules)
section \<open>What the family promises\<close>

text \<open>The messages without array fields survive the wire.\<close>

lemma nav_messages_roundtrip:
  "carries nav_att_message msg0 \<and>
    carries nav_clock_message msg1 \<and>
    carries nav_cov_message msg2 \<and>
    carries nav2_dop_message msg3 \<and>
    carries nav_dop_message msg4 \<and>
    carries nav_eell_message msg5 \<and>
    carries nav2_eell_message msg6 \<and>
    carries nav_eoe_message msg7 \<and>
    carries nav_hpposecef_message msg8 \<and>
    carries nav_hpposllh_message msg9 \<and>
    carries nav_odo_message msg10 \<and>
    carries nav_posecef_message msg11 \<and>
    carries nav_posllh_message msg12 \<and>
    carries nav2_pvt_message msg13 \<and>
    carries nav_pvt_message msg14 \<and>
    carries nav_relposned_message msg15 \<and>
    carries nav_status_message msg16 \<and>
    carries nav_timeglo_message msg17 \<and>
    carries nav2_timegps_message msg18 \<and>
    carries nav_timegps_message msg19 \<and>
    carries nav_timels_message msg20 \<and>
    carries nav_timeutc_message msg21 \<and>
    carries nav_velecef_message msg22 \<and>
    carries nav_velned_message msg23"
  by (intro conjI carriesI; (rule nav_att_msg.transmitted nav_clock_msg.transmitted nav_cov_msg.transmitted nav2_dop_msg.transmitted nav_dop_msg.transmitted nav_eell_msg.transmitted nav2_eell_msg.transmitted nav_eoe_msg.transmitted nav_hpposecef_msg.transmitted nav_hpposllh_msg.transmitted nav_odo_msg.transmitted nav_posecef_msg.transmitted nav_posllh_msg.transmitted nav2_pvt_msg.transmitted nav_pvt_msg.transmitted nav_relposned_msg.transmitted nav_status_msg.transmitted nav_timeglo_msg.transmitted nav2_timegps_msg.transmitted nav_timegps_msg.transmitted nav_timels_msg.transmitted nav_timeutc_msg.transmitted nav_velecef_msg.transmitted nav_velned_msg.transmitted; simp))

end
