(* ===== verification/UbxMga.thy ===== *)
theory UbxMga
  imports UbxPayload
begin

text \<open>
  The fixed-length UBX-MGA assistance messages (\<open>castle_ext/protocols/ubx/messages/mga_*.hpp\<close>), one record, layout
  and message type each, with the \<open>fixed_message\<close> contract discharged for it.
\<close>

section \<open>\<open>mga_ack\<close> (\<open>mga_ack.hpp\<close>)\<close>

record mga_ack =
  type_f :: u8
  info_code :: u8
  acked_msg_id :: u8
  msg_payload_start :: "u8 list"

definition mga_ack_init :: mga_ack where
  "mga_ack_init =
     \<lparr>mga_ack.type_f = 0, mga_ack.info_code = 0, mga_ack.acked_msg_id = 0,
      mga_ack.msg_payload_start = replicate 4 0\<rparr>"

definition mga_ack_layout :: "mga_ack verb list" where
  "mga_ack_layout =
     [Field8 mga_ack.type_f (\<lambda>v. mga_ack.type_f_update (\<lambda>_. v)),
      Constant 0x0,
      Field8 mga_ack.info_code (\<lambda>v. mga_ack.info_code_update (\<lambda>_. v)),
      Field8 mga_ack.acked_msg_id (\<lambda>v. mga_ack.acked_msg_id_update (\<lambda>_. v)),
      Array8 4 mga_ack.msg_payload_start (\<lambda>v. mga_ack.msg_payload_start_update (\<lambda>_. v))]"

definition mga_ack_message :: "mga_ack message_type" where
  "mga_ack_message = \<lparr>mt_class = 0x13, mt_id = 0x60, mt_length = 8, mt_init = mga_ack_init, mt_layout = mga_ack_layout\<rparr>"

definition mga_ack_wf :: "mga_ack \<Rightarrow> bool" where
  "mga_ack_wf msg \<longleftrightarrow> length (mga_ack.msg_payload_start msg) = 4"

interpretation mga_ack_msg: fixed_message mga_ack_message mga_ack_wf
  by unfold_locales (simp_all add: mga_ack_message_def mga_ack_layout_def mga_ack_init_def mga_ack_wf_def layout_rules)

section \<open>\<open>mga_bds_eph\<close> (\<open>mga_bds.hpp\<close>)\<close>

record mga_bds_eph =
  sv_id :: u8
  sat_h1 :: u8
  iodc :: u8
  a2 :: u16
  a1 :: u32
  a0 :: u32
  toc :: u32
  tgd1 :: u16
  urai :: u8
  iode :: u8
  toe :: u32
  sqrt_a :: u32
  e :: u32
  omega :: u32
  delta_n :: u16
  idot :: u16
  m0 :: u32
  omega0 :: u32
  omega_dot :: u32
  i0 :: u32
  cuc :: u32
  cus :: u32
  crc :: u32
  crs :: u32
  cic :: u32
  cis :: u32

definition mga_bds_eph_init :: mga_bds_eph where
  "mga_bds_eph_init =
     \<lparr>mga_bds_eph.sv_id = 0, mga_bds_eph.sat_h1 = 0, mga_bds_eph.iodc = 0, mga_bds_eph.a2 = 0,
      mga_bds_eph.a1 = 0, mga_bds_eph.a0 = 0, mga_bds_eph.toc = 0, mga_bds_eph.tgd1 = 0,
      mga_bds_eph.urai = 0, mga_bds_eph.iode = 0, mga_bds_eph.toe = 0, mga_bds_eph.sqrt_a = 0,
      mga_bds_eph.e = 0, mga_bds_eph.omega = 0, mga_bds_eph.delta_n = 0, mga_bds_eph.idot = 0,
      mga_bds_eph.m0 = 0, mga_bds_eph.omega0 = 0, mga_bds_eph.omega_dot = 0, mga_bds_eph.i0 = 0,
      mga_bds_eph.cuc = 0, mga_bds_eph.cus = 0, mga_bds_eph.crc = 0, mga_bds_eph.crs = 0,
      mga_bds_eph.cic = 0, mga_bds_eph.cis = 0\<rparr>"

definition mga_bds_eph_layout :: "mga_bds_eph verb list" where
  "mga_bds_eph_layout =
     [Constant 0x1,
      Constant 0x0,
      Field8 mga_bds_eph.sv_id (\<lambda>v. mga_bds_eph.sv_id_update (\<lambda>_. v)),
      Reserved 1,
      Field8 mga_bds_eph.sat_h1 (\<lambda>v. mga_bds_eph.sat_h1_update (\<lambda>_. v)),
      Field8 mga_bds_eph.iodc (\<lambda>v. mga_bds_eph.iodc_update (\<lambda>_. v)),
      Field16 mga_bds_eph.a2 (\<lambda>v. mga_bds_eph.a2_update (\<lambda>_. v)),
      Field32 mga_bds_eph.a1 (\<lambda>v. mga_bds_eph.a1_update (\<lambda>_. v)),
      Field32 mga_bds_eph.a0 (\<lambda>v. mga_bds_eph.a0_update (\<lambda>_. v)),
      Field32 mga_bds_eph.toc (\<lambda>v. mga_bds_eph.toc_update (\<lambda>_. v)),
      Field16 mga_bds_eph.tgd1 (\<lambda>v. mga_bds_eph.tgd1_update (\<lambda>_. v)),
      Field8 mga_bds_eph.urai (\<lambda>v. mga_bds_eph.urai_update (\<lambda>_. v)),
      Field8 mga_bds_eph.iode (\<lambda>v. mga_bds_eph.iode_update (\<lambda>_. v)),
      Field32 mga_bds_eph.toe (\<lambda>v. mga_bds_eph.toe_update (\<lambda>_. v)),
      Field32 mga_bds_eph.sqrt_a (\<lambda>v. mga_bds_eph.sqrt_a_update (\<lambda>_. v)),
      Field32 mga_bds_eph.e (\<lambda>v. mga_bds_eph.e_update (\<lambda>_. v)),
      Field32 mga_bds_eph.omega (\<lambda>v. mga_bds_eph.omega_update (\<lambda>_. v)),
      Field16 mga_bds_eph.delta_n (\<lambda>v. mga_bds_eph.delta_n_update (\<lambda>_. v)),
      Field16 mga_bds_eph.idot (\<lambda>v. mga_bds_eph.idot_update (\<lambda>_. v)),
      Field32 mga_bds_eph.m0 (\<lambda>v. mga_bds_eph.m0_update (\<lambda>_. v)),
      Field32 mga_bds_eph.omega0 (\<lambda>v. mga_bds_eph.omega0_update (\<lambda>_. v)),
      Field32 mga_bds_eph.omega_dot (\<lambda>v. mga_bds_eph.omega_dot_update (\<lambda>_. v)),
      Field32 mga_bds_eph.i0 (\<lambda>v. mga_bds_eph.i0_update (\<lambda>_. v)),
      Field32 mga_bds_eph.cuc (\<lambda>v. mga_bds_eph.cuc_update (\<lambda>_. v)),
      Field32 mga_bds_eph.cus (\<lambda>v. mga_bds_eph.cus_update (\<lambda>_. v)),
      Field32 mga_bds_eph.crc (\<lambda>v. mga_bds_eph.crc_update (\<lambda>_. v)),
      Field32 mga_bds_eph.crs (\<lambda>v. mga_bds_eph.crs_update (\<lambda>_. v)),
      Field32 mga_bds_eph.cic (\<lambda>v. mga_bds_eph.cic_update (\<lambda>_. v)),
      Field32 mga_bds_eph.cis (\<lambda>v. mga_bds_eph.cis_update (\<lambda>_. v)),
      Reserved 4]"

definition mga_bds_eph_message :: "mga_bds_eph message_type" where
  "mga_bds_eph_message = \<lparr>mt_class = 0x13, mt_id = 0x3, mt_length = 88, mt_init = mga_bds_eph_init, mt_layout = mga_bds_eph_layout\<rparr>"

interpretation mga_bds_eph_msg: fixed_message mga_bds_eph_message "\<lambda>_. True"
  by unfold_locales (simp_all add: mga_bds_eph_message_def mga_bds_eph_layout_def mga_bds_eph_init_def layout_rules)

section \<open>\<open>mga_bds_alm\<close> (\<open>mga_bds.hpp\<close>)\<close>

record mga_bds_alm =
  sv_id :: u8
  wna :: u8
  toa :: u8
  delta_i :: u16
  sqrt_a :: u32
  e :: u32
  omega :: u32
  m0 :: u32
  omega0 :: u32
  omega_dot :: u32
  a0 :: u16
  a1 :: u16

definition mga_bds_alm_init :: mga_bds_alm where
  "mga_bds_alm_init =
     \<lparr>mga_bds_alm.sv_id = 0, mga_bds_alm.wna = 0, mga_bds_alm.toa = 0, mga_bds_alm.delta_i = 0,
      mga_bds_alm.sqrt_a = 0, mga_bds_alm.e = 0, mga_bds_alm.omega = 0, mga_bds_alm.m0 = 0,
      mga_bds_alm.omega0 = 0, mga_bds_alm.omega_dot = 0, mga_bds_alm.a0 = 0, mga_bds_alm.a1 = 0\<rparr>"

definition mga_bds_alm_layout :: "mga_bds_alm verb list" where
  "mga_bds_alm_layout =
     [Constant 0x2,
      Constant 0x0,
      Field8 mga_bds_alm.sv_id (\<lambda>v. mga_bds_alm.sv_id_update (\<lambda>_. v)),
      Reserved 1,
      Field8 mga_bds_alm.wna (\<lambda>v. mga_bds_alm.wna_update (\<lambda>_. v)),
      Field8 mga_bds_alm.toa (\<lambda>v. mga_bds_alm.toa_update (\<lambda>_. v)),
      Field16 mga_bds_alm.delta_i (\<lambda>v. mga_bds_alm.delta_i_update (\<lambda>_. v)),
      Field32 mga_bds_alm.sqrt_a (\<lambda>v. mga_bds_alm.sqrt_a_update (\<lambda>_. v)),
      Field32 mga_bds_alm.e (\<lambda>v. mga_bds_alm.e_update (\<lambda>_. v)),
      Field32 mga_bds_alm.omega (\<lambda>v. mga_bds_alm.omega_update (\<lambda>_. v)),
      Field32 mga_bds_alm.m0 (\<lambda>v. mga_bds_alm.m0_update (\<lambda>_. v)),
      Field32 mga_bds_alm.omega0 (\<lambda>v. mga_bds_alm.omega0_update (\<lambda>_. v)),
      Field32 mga_bds_alm.omega_dot (\<lambda>v. mga_bds_alm.omega_dot_update (\<lambda>_. v)),
      Field16 mga_bds_alm.a0 (\<lambda>v. mga_bds_alm.a0_update (\<lambda>_. v)),
      Field16 mga_bds_alm.a1 (\<lambda>v. mga_bds_alm.a1_update (\<lambda>_. v)),
      Reserved 4]"

definition mga_bds_alm_message :: "mga_bds_alm message_type" where
  "mga_bds_alm_message = \<lparr>mt_class = 0x13, mt_id = 0x3, mt_length = 40, mt_init = mga_bds_alm_init, mt_layout = mga_bds_alm_layout\<rparr>"

interpretation mga_bds_alm_msg: fixed_message mga_bds_alm_message "\<lambda>_. True"
  by unfold_locales (simp_all add: mga_bds_alm_message_def mga_bds_alm_layout_def mga_bds_alm_init_def layout_rules)

section \<open>\<open>mga_bds_health\<close> (\<open>mga_bds.hpp\<close>)\<close>

record mga_bds_health =
  health_code :: "u16 list"

definition mga_bds_health_init :: mga_bds_health where
  "mga_bds_health_init =
     \<lparr>mga_bds_health.health_code = replicate 30 0\<rparr>"

definition mga_bds_health_layout :: "mga_bds_health verb list" where
  "mga_bds_health_layout =
     [Constant 0x4,
      Constant 0x0,
      Reserved 2,
      Array16 30 mga_bds_health.health_code (\<lambda>v. mga_bds_health.health_code_update (\<lambda>_. v)),
      Reserved 4]"

definition mga_bds_health_message :: "mga_bds_health message_type" where
  "mga_bds_health_message = \<lparr>mt_class = 0x13, mt_id = 0x3, mt_length = 68, mt_init = mga_bds_health_init, mt_layout = mga_bds_health_layout\<rparr>"

definition mga_bds_health_wf :: "mga_bds_health \<Rightarrow> bool" where
  "mga_bds_health_wf msg \<longleftrightarrow> length (mga_bds_health.health_code msg) = 30"

interpretation mga_bds_health_msg: fixed_message mga_bds_health_message mga_bds_health_wf
  by unfold_locales (simp_all add: mga_bds_health_message_def mga_bds_health_layout_def mga_bds_health_init_def mga_bds_health_wf_def layout_rules)

section \<open>\<open>mga_bds_utc\<close> (\<open>mga_bds.hpp\<close>)\<close>

record mga_bds_utc =
  a0_utc :: u32
  a1_utc :: u32
  dt_ls :: u8
  wn_rec :: u8
  wn_lsf :: u8
  dn :: u8
  dt_lsf :: u8

definition mga_bds_utc_init :: mga_bds_utc where
  "mga_bds_utc_init =
     \<lparr>mga_bds_utc.a0_utc = 0, mga_bds_utc.a1_utc = 0, mga_bds_utc.dt_ls = 0, mga_bds_utc.wn_rec = 0,
      mga_bds_utc.wn_lsf = 0, mga_bds_utc.dn = 0, mga_bds_utc.dt_lsf = 0\<rparr>"

definition mga_bds_utc_layout :: "mga_bds_utc verb list" where
  "mga_bds_utc_layout =
     [Constant 0x5,
      Constant 0x0,
      Reserved 2,
      Field32 mga_bds_utc.a0_utc (\<lambda>v. mga_bds_utc.a0_utc_update (\<lambda>_. v)),
      Field32 mga_bds_utc.a1_utc (\<lambda>v. mga_bds_utc.a1_utc_update (\<lambda>_. v)),
      Field8 mga_bds_utc.dt_ls (\<lambda>v. mga_bds_utc.dt_ls_update (\<lambda>_. v)),
      Reserved 1,
      Field8 mga_bds_utc.wn_rec (\<lambda>v. mga_bds_utc.wn_rec_update (\<lambda>_. v)),
      Field8 mga_bds_utc.wn_lsf (\<lambda>v. mga_bds_utc.wn_lsf_update (\<lambda>_. v)),
      Field8 mga_bds_utc.dn (\<lambda>v. mga_bds_utc.dn_update (\<lambda>_. v)),
      Field8 mga_bds_utc.dt_lsf (\<lambda>v. mga_bds_utc.dt_lsf_update (\<lambda>_. v)),
      Reserved 2]"

definition mga_bds_utc_message :: "mga_bds_utc message_type" where
  "mga_bds_utc_message = \<lparr>mt_class = 0x13, mt_id = 0x3, mt_length = 20, mt_init = mga_bds_utc_init, mt_layout = mga_bds_utc_layout\<rparr>"

interpretation mga_bds_utc_msg: fixed_message mga_bds_utc_message "\<lambda>_. True"
  by unfold_locales (simp_all add: mga_bds_utc_message_def mga_bds_utc_layout_def mga_bds_utc_init_def layout_rules)

section \<open>\<open>mga_bds_iono\<close> (\<open>mga_bds.hpp\<close>)\<close>

record mga_bds_iono =
  alpha :: "u8 list"
  beta :: "u8 list"

definition mga_bds_iono_init :: mga_bds_iono where
  "mga_bds_iono_init =
     \<lparr>mga_bds_iono.alpha = replicate 4 0, mga_bds_iono.beta = replicate 4 0\<rparr>"

definition mga_bds_iono_layout :: "mga_bds_iono verb list" where
  "mga_bds_iono_layout =
     [Constant 0x6,
      Constant 0x0,
      Reserved 2,
      Array8 4 mga_bds_iono.alpha (\<lambda>v. mga_bds_iono.alpha_update (\<lambda>_. v)),
      Array8 4 mga_bds_iono.beta (\<lambda>v. mga_bds_iono.beta_update (\<lambda>_. v)),
      Reserved 4]"

definition mga_bds_iono_message :: "mga_bds_iono message_type" where
  "mga_bds_iono_message = \<lparr>mt_class = 0x13, mt_id = 0x3, mt_length = 16, mt_init = mga_bds_iono_init, mt_layout = mga_bds_iono_layout\<rparr>"

definition mga_bds_iono_wf :: "mga_bds_iono \<Rightarrow> bool" where
  "mga_bds_iono_wf msg \<longleftrightarrow> length (mga_bds_iono.alpha msg) = 4 \<and> length (mga_bds_iono.beta msg) = 4"

interpretation mga_bds_iono_msg: fixed_message mga_bds_iono_message mga_bds_iono_wf
  by unfold_locales (simp_all add: mga_bds_iono_message_def mga_bds_iono_layout_def mga_bds_iono_init_def mga_bds_iono_wf_def layout_rules)

section \<open>\<open>mga_gal_eph\<close> (\<open>mga_gal.hpp\<close>)\<close>

record mga_gal_eph =
  sv_id :: u8
  iod_nav :: u16
  delta_n :: u16
  m0 :: u32
  e :: u32
  sqrt_a :: u32
  omega0 :: u32
  i0 :: u32
  omega :: u32
  omega_dot :: u32
  i_dot :: u16
  cuc :: u16
  cus :: u16
  crc :: u16
  crs :: u16
  cic :: u16
  cis :: u16
  toe :: u16
  af0 :: u32
  af1 :: u32
  af2 :: u8
  sisa_index_e1_e5b :: u8
  toc :: u16
  bgd_e1_e5b :: u16
  health_e1b :: u8
  data_validity_e1b :: u8
  health_e5b :: u8
  data_validity_e5b :: u8

definition mga_gal_eph_init :: mga_gal_eph where
  "mga_gal_eph_init =
     \<lparr>mga_gal_eph.sv_id = 0, mga_gal_eph.iod_nav = 0, mga_gal_eph.delta_n = 0, mga_gal_eph.m0 = 0,
      mga_gal_eph.e = 0, mga_gal_eph.sqrt_a = 0, mga_gal_eph.omega0 = 0, mga_gal_eph.i0 = 0,
      mga_gal_eph.omega = 0, mga_gal_eph.omega_dot = 0, mga_gal_eph.i_dot = 0, mga_gal_eph.cuc = 0,
      mga_gal_eph.cus = 0, mga_gal_eph.crc = 0, mga_gal_eph.crs = 0, mga_gal_eph.cic = 0,
      mga_gal_eph.cis = 0, mga_gal_eph.toe = 0, mga_gal_eph.af0 = 0, mga_gal_eph.af1 = 0,
      mga_gal_eph.af2 = 0, mga_gal_eph.sisa_index_e1_e5b = 0, mga_gal_eph.toc = 0,
      mga_gal_eph.bgd_e1_e5b = 0, mga_gal_eph.health_e1b = 0, mga_gal_eph.data_validity_e1b = 0,
      mga_gal_eph.health_e5b = 0, mga_gal_eph.data_validity_e5b = 0\<rparr>"

definition mga_gal_eph_layout :: "mga_gal_eph verb list" where
  "mga_gal_eph_layout =
     [Constant 0x1,
      Constant 0x0,
      Field8 mga_gal_eph.sv_id (\<lambda>v. mga_gal_eph.sv_id_update (\<lambda>_. v)),
      Reserved 1,
      Field16 mga_gal_eph.iod_nav (\<lambda>v. mga_gal_eph.iod_nav_update (\<lambda>_. v)),
      Field16 mga_gal_eph.delta_n (\<lambda>v. mga_gal_eph.delta_n_update (\<lambda>_. v)),
      Field32 mga_gal_eph.m0 (\<lambda>v. mga_gal_eph.m0_update (\<lambda>_. v)),
      Field32 mga_gal_eph.e (\<lambda>v. mga_gal_eph.e_update (\<lambda>_. v)),
      Field32 mga_gal_eph.sqrt_a (\<lambda>v. mga_gal_eph.sqrt_a_update (\<lambda>_. v)),
      Field32 mga_gal_eph.omega0 (\<lambda>v. mga_gal_eph.omega0_update (\<lambda>_. v)),
      Field32 mga_gal_eph.i0 (\<lambda>v. mga_gal_eph.i0_update (\<lambda>_. v)),
      Field32 mga_gal_eph.omega (\<lambda>v. mga_gal_eph.omega_update (\<lambda>_. v)),
      Field32 mga_gal_eph.omega_dot (\<lambda>v. mga_gal_eph.omega_dot_update (\<lambda>_. v)),
      Field16 mga_gal_eph.i_dot (\<lambda>v. mga_gal_eph.i_dot_update (\<lambda>_. v)),
      Field16 mga_gal_eph.cuc (\<lambda>v. mga_gal_eph.cuc_update (\<lambda>_. v)),
      Field16 mga_gal_eph.cus (\<lambda>v. mga_gal_eph.cus_update (\<lambda>_. v)),
      Field16 mga_gal_eph.crc (\<lambda>v. mga_gal_eph.crc_update (\<lambda>_. v)),
      Field16 mga_gal_eph.crs (\<lambda>v. mga_gal_eph.crs_update (\<lambda>_. v)),
      Field16 mga_gal_eph.cic (\<lambda>v. mga_gal_eph.cic_update (\<lambda>_. v)),
      Field16 mga_gal_eph.cis (\<lambda>v. mga_gal_eph.cis_update (\<lambda>_. v)),
      Field16 mga_gal_eph.toe (\<lambda>v. mga_gal_eph.toe_update (\<lambda>_. v)),
      Field32 mga_gal_eph.af0 (\<lambda>v. mga_gal_eph.af0_update (\<lambda>_. v)),
      Field32 mga_gal_eph.af1 (\<lambda>v. mga_gal_eph.af1_update (\<lambda>_. v)),
      Field8 mga_gal_eph.af2 (\<lambda>v. mga_gal_eph.af2_update (\<lambda>_. v)),
      Field8 mga_gal_eph.sisa_index_e1_e5b (\<lambda>v. mga_gal_eph.sisa_index_e1_e5b_update (\<lambda>_. v)),
      Field16 mga_gal_eph.toc (\<lambda>v. mga_gal_eph.toc_update (\<lambda>_. v)),
      Field16 mga_gal_eph.bgd_e1_e5b (\<lambda>v. mga_gal_eph.bgd_e1_e5b_update (\<lambda>_. v)),
      Reserved 2,
      Field8 mga_gal_eph.health_e1b (\<lambda>v. mga_gal_eph.health_e1b_update (\<lambda>_. v)),
      Field8 mga_gal_eph.data_validity_e1b (\<lambda>v. mga_gal_eph.data_validity_e1b_update (\<lambda>_. v)),
      Field8 mga_gal_eph.health_e5b (\<lambda>v. mga_gal_eph.health_e5b_update (\<lambda>_. v)),
      Field8 mga_gal_eph.data_validity_e5b (\<lambda>v. mga_gal_eph.data_validity_e5b_update (\<lambda>_. v)),
      Reserved 4]"

definition mga_gal_eph_message :: "mga_gal_eph message_type" where
  "mga_gal_eph_message = \<lparr>mt_class = 0x13, mt_id = 0x2, mt_length = 76, mt_init = mga_gal_eph_init, mt_layout = mga_gal_eph_layout\<rparr>"

interpretation mga_gal_eph_msg: fixed_message mga_gal_eph_message "\<lambda>_. True"
  by unfold_locales (simp_all add: mga_gal_eph_message_def mga_gal_eph_layout_def mga_gal_eph_init_def layout_rules)

section \<open>\<open>mga_gal_alm\<close> (\<open>mga_gal.hpp\<close>)\<close>

record mga_gal_alm =
  sv_id :: u8
  ioda :: u8
  alm_wn_a :: u8
  toa :: u16
  delta_sqrt_a :: u16
  e :: u16
  delta_i :: u16
  omega0 :: u16
  omega_dot :: u16
  omega :: u16
  m0 :: u16
  af0 :: u16
  af1 :: u16
  health_e1b :: u8
  health_e5b :: u8

definition mga_gal_alm_init :: mga_gal_alm where
  "mga_gal_alm_init =
     \<lparr>mga_gal_alm.sv_id = 0, mga_gal_alm.ioda = 0, mga_gal_alm.alm_wn_a = 0, mga_gal_alm.toa = 0,
      mga_gal_alm.delta_sqrt_a = 0, mga_gal_alm.e = 0, mga_gal_alm.delta_i = 0,
      mga_gal_alm.omega0 = 0, mga_gal_alm.omega_dot = 0, mga_gal_alm.omega = 0, mga_gal_alm.m0 = 0,
      mga_gal_alm.af0 = 0, mga_gal_alm.af1 = 0, mga_gal_alm.health_e1b = 0, mga_gal_alm.health_e5b = 0\<rparr>"

definition mga_gal_alm_layout :: "mga_gal_alm verb list" where
  "mga_gal_alm_layout =
     [Constant 0x2,
      Constant 0x0,
      Field8 mga_gal_alm.sv_id (\<lambda>v. mga_gal_alm.sv_id_update (\<lambda>_. v)),
      Reserved 1,
      Field8 mga_gal_alm.ioda (\<lambda>v. mga_gal_alm.ioda_update (\<lambda>_. v)),
      Field8 mga_gal_alm.alm_wn_a (\<lambda>v. mga_gal_alm.alm_wn_a_update (\<lambda>_. v)),
      Field16 mga_gal_alm.toa (\<lambda>v. mga_gal_alm.toa_update (\<lambda>_. v)),
      Field16 mga_gal_alm.delta_sqrt_a (\<lambda>v. mga_gal_alm.delta_sqrt_a_update (\<lambda>_. v)),
      Field16 mga_gal_alm.e (\<lambda>v. mga_gal_alm.e_update (\<lambda>_. v)),
      Field16 mga_gal_alm.delta_i (\<lambda>v. mga_gal_alm.delta_i_update (\<lambda>_. v)),
      Field16 mga_gal_alm.omega0 (\<lambda>v. mga_gal_alm.omega0_update (\<lambda>_. v)),
      Field16 mga_gal_alm.omega_dot (\<lambda>v. mga_gal_alm.omega_dot_update (\<lambda>_. v)),
      Field16 mga_gal_alm.omega (\<lambda>v. mga_gal_alm.omega_update (\<lambda>_. v)),
      Field16 mga_gal_alm.m0 (\<lambda>v. mga_gal_alm.m0_update (\<lambda>_. v)),
      Field16 mga_gal_alm.af0 (\<lambda>v. mga_gal_alm.af0_update (\<lambda>_. v)),
      Field16 mga_gal_alm.af1 (\<lambda>v. mga_gal_alm.af1_update (\<lambda>_. v)),
      Field8 mga_gal_alm.health_e1b (\<lambda>v. mga_gal_alm.health_e1b_update (\<lambda>_. v)),
      Field8 mga_gal_alm.health_e5b (\<lambda>v. mga_gal_alm.health_e5b_update (\<lambda>_. v)),
      Reserved 4]"

definition mga_gal_alm_message :: "mga_gal_alm message_type" where
  "mga_gal_alm_message = \<lparr>mt_class = 0x13, mt_id = 0x2, mt_length = 32, mt_init = mga_gal_alm_init, mt_layout = mga_gal_alm_layout\<rparr>"

interpretation mga_gal_alm_msg: fixed_message mga_gal_alm_message "\<lambda>_. True"
  by unfold_locales (simp_all add: mga_gal_alm_message_def mga_gal_alm_layout_def mga_gal_alm_init_def layout_rules)

section \<open>\<open>mga_gal_timeoffset\<close> (\<open>mga_gal.hpp\<close>)\<close>

record mga_gal_timeoffset =
  a0_g :: u16
  a1_g :: u16
  t0_g :: u8
  wn0_g :: u8

definition mga_gal_timeoffset_init :: mga_gal_timeoffset where
  "mga_gal_timeoffset_init =
     \<lparr>mga_gal_timeoffset.a0_g = 0, mga_gal_timeoffset.a1_g = 0, mga_gal_timeoffset.t0_g = 0,
      mga_gal_timeoffset.wn0_g = 0\<rparr>"

definition mga_gal_timeoffset_layout :: "mga_gal_timeoffset verb list" where
  "mga_gal_timeoffset_layout =
     [Constant 0x3,
      Constant 0x0,
      Reserved 2,
      Field16 mga_gal_timeoffset.a0_g (\<lambda>v. mga_gal_timeoffset.a0_g_update (\<lambda>_. v)),
      Field16 mga_gal_timeoffset.a1_g (\<lambda>v. mga_gal_timeoffset.a1_g_update (\<lambda>_. v)),
      Field8 mga_gal_timeoffset.t0_g (\<lambda>v. mga_gal_timeoffset.t0_g_update (\<lambda>_. v)),
      Field8 mga_gal_timeoffset.wn0_g (\<lambda>v. mga_gal_timeoffset.wn0_g_update (\<lambda>_. v)),
      Reserved 2]"

definition mga_gal_timeoffset_message :: "mga_gal_timeoffset message_type" where
  "mga_gal_timeoffset_message = \<lparr>mt_class = 0x13, mt_id = 0x2, mt_length = 12, mt_init = mga_gal_timeoffset_init, mt_layout = mga_gal_timeoffset_layout\<rparr>"

interpretation mga_gal_timeoffset_msg: fixed_message mga_gal_timeoffset_message "\<lambda>_. True"
  by unfold_locales (simp_all add: mga_gal_timeoffset_message_def mga_gal_timeoffset_layout_def mga_gal_timeoffset_init_def layout_rules)

section \<open>\<open>mga_gal_utc\<close> (\<open>mga_gal.hpp\<close>)\<close>

record mga_gal_utc =
  a0 :: u32
  a1 :: u32
  dt_ls :: u8
  tot :: u8
  wnt :: u8
  wn_lsf :: u8
  dn :: u8
  dt_lsf :: u8

definition mga_gal_utc_init :: mga_gal_utc where
  "mga_gal_utc_init =
     \<lparr>mga_gal_utc.a0 = 0, mga_gal_utc.a1 = 0, mga_gal_utc.dt_ls = 0, mga_gal_utc.tot = 0,
      mga_gal_utc.wnt = 0, mga_gal_utc.wn_lsf = 0, mga_gal_utc.dn = 0, mga_gal_utc.dt_lsf = 0\<rparr>"

definition mga_gal_utc_layout :: "mga_gal_utc verb list" where
  "mga_gal_utc_layout =
     [Constant 0x5,
      Constant 0x0,
      Reserved 2,
      Field32 mga_gal_utc.a0 (\<lambda>v. mga_gal_utc.a0_update (\<lambda>_. v)),
      Field32 mga_gal_utc.a1 (\<lambda>v. mga_gal_utc.a1_update (\<lambda>_. v)),
      Field8 mga_gal_utc.dt_ls (\<lambda>v. mga_gal_utc.dt_ls_update (\<lambda>_. v)),
      Field8 mga_gal_utc.tot (\<lambda>v. mga_gal_utc.tot_update (\<lambda>_. v)),
      Field8 mga_gal_utc.wnt (\<lambda>v. mga_gal_utc.wnt_update (\<lambda>_. v)),
      Field8 mga_gal_utc.wn_lsf (\<lambda>v. mga_gal_utc.wn_lsf_update (\<lambda>_. v)),
      Field8 mga_gal_utc.dn (\<lambda>v. mga_gal_utc.dn_update (\<lambda>_. v)),
      Field8 mga_gal_utc.dt_lsf (\<lambda>v. mga_gal_utc.dt_lsf_update (\<lambda>_. v)),
      Reserved 2]"

definition mga_gal_utc_message :: "mga_gal_utc message_type" where
  "mga_gal_utc_message = \<lparr>mt_class = 0x13, mt_id = 0x2, mt_length = 20, mt_init = mga_gal_utc_init, mt_layout = mga_gal_utc_layout\<rparr>"

interpretation mga_gal_utc_msg: fixed_message mga_gal_utc_message "\<lambda>_. True"
  by unfold_locales (simp_all add: mga_gal_utc_message_def mga_gal_utc_layout_def mga_gal_utc_init_def layout_rules)

section \<open>\<open>mga_glo_eph\<close> (\<open>mga_glo.hpp\<close>)\<close>

record mga_glo_eph =
  sv_id :: u8
  ft :: u8
  b :: u8
  m :: u8
  h :: u8
  x :: u32
  y :: u32
  z :: u32
  dx :: u32
  dy :: u32
  dz :: u32
  ddx :: u8
  ddy :: u8
  ddz :: u8
  tb :: u8
  gamma :: u16
  e :: u8
  delta_tau :: u8
  tau :: u32

definition mga_glo_eph_init :: mga_glo_eph where
  "mga_glo_eph_init =
     \<lparr>mga_glo_eph.sv_id = 0, mga_glo_eph.ft = 0, mga_glo_eph.b = 0, mga_glo_eph.m = 0,
      mga_glo_eph.h = 0, mga_glo_eph.x = 0, mga_glo_eph.y = 0, mga_glo_eph.z = 0, mga_glo_eph.dx = 0,
      mga_glo_eph.dy = 0, mga_glo_eph.dz = 0, mga_glo_eph.ddx = 0, mga_glo_eph.ddy = 0,
      mga_glo_eph.ddz = 0, mga_glo_eph.tb = 0, mga_glo_eph.gamma = 0, mga_glo_eph.e = 0,
      mga_glo_eph.delta_tau = 0, mga_glo_eph.tau = 0\<rparr>"

definition mga_glo_eph_layout :: "mga_glo_eph verb list" where
  "mga_glo_eph_layout =
     [Constant 0x1,
      Constant 0x0,
      Field8 mga_glo_eph.sv_id (\<lambda>v. mga_glo_eph.sv_id_update (\<lambda>_. v)),
      Reserved 1,
      Field8 mga_glo_eph.ft (\<lambda>v. mga_glo_eph.ft_update (\<lambda>_. v)),
      Field8 mga_glo_eph.b (\<lambda>v. mga_glo_eph.b_update (\<lambda>_. v)),
      Field8 mga_glo_eph.m (\<lambda>v. mga_glo_eph.m_update (\<lambda>_. v)),
      Field8 mga_glo_eph.h (\<lambda>v. mga_glo_eph.h_update (\<lambda>_. v)),
      Field32 mga_glo_eph.x (\<lambda>v. mga_glo_eph.x_update (\<lambda>_. v)),
      Field32 mga_glo_eph.y (\<lambda>v. mga_glo_eph.y_update (\<lambda>_. v)),
      Field32 mga_glo_eph.z (\<lambda>v. mga_glo_eph.z_update (\<lambda>_. v)),
      Field32 mga_glo_eph.dx (\<lambda>v. mga_glo_eph.dx_update (\<lambda>_. v)),
      Field32 mga_glo_eph.dy (\<lambda>v. mga_glo_eph.dy_update (\<lambda>_. v)),
      Field32 mga_glo_eph.dz (\<lambda>v. mga_glo_eph.dz_update (\<lambda>_. v)),
      Field8 mga_glo_eph.ddx (\<lambda>v. mga_glo_eph.ddx_update (\<lambda>_. v)),
      Field8 mga_glo_eph.ddy (\<lambda>v. mga_glo_eph.ddy_update (\<lambda>_. v)),
      Field8 mga_glo_eph.ddz (\<lambda>v. mga_glo_eph.ddz_update (\<lambda>_. v)),
      Field8 mga_glo_eph.tb (\<lambda>v. mga_glo_eph.tb_update (\<lambda>_. v)),
      Field16 mga_glo_eph.gamma (\<lambda>v. mga_glo_eph.gamma_update (\<lambda>_. v)),
      Field8 mga_glo_eph.e (\<lambda>v. mga_glo_eph.e_update (\<lambda>_. v)),
      Field8 mga_glo_eph.delta_tau (\<lambda>v. mga_glo_eph.delta_tau_update (\<lambda>_. v)),
      Field32 mga_glo_eph.tau (\<lambda>v. mga_glo_eph.tau_update (\<lambda>_. v)),
      Reserved 4]"

definition mga_glo_eph_message :: "mga_glo_eph message_type" where
  "mga_glo_eph_message = \<lparr>mt_class = 0x13, mt_id = 0x6, mt_length = 48, mt_init = mga_glo_eph_init, mt_layout = mga_glo_eph_layout\<rparr>"

interpretation mga_glo_eph_msg: fixed_message mga_glo_eph_message "\<lambda>_. True"
  by unfold_locales (simp_all add: mga_glo_eph_message_def mga_glo_eph_layout_def mga_glo_eph_init_def layout_rules)

section \<open>\<open>mga_glo_alm\<close> (\<open>mga_glo.hpp\<close>)\<close>

record mga_glo_alm =
  sv_id :: u8
  n :: u16
  m :: u8
  c :: u8
  tau :: u16
  epsilon :: u16
  lambda :: u32
  delta_i :: u32
  t_lambda :: u32
  delta_t :: u32
  delta_dt :: u8
  h :: u8
  omega :: u16

definition mga_glo_alm_init :: mga_glo_alm where
  "mga_glo_alm_init =
     \<lparr>mga_glo_alm.sv_id = 0, mga_glo_alm.n = 0, mga_glo_alm.m = 0, mga_glo_alm.c = 0,
      mga_glo_alm.tau = 0, mga_glo_alm.epsilon = 0, mga_glo_alm.lambda = 0, mga_glo_alm.delta_i = 0,
      mga_glo_alm.t_lambda = 0, mga_glo_alm.delta_t = 0, mga_glo_alm.delta_dt = 0, mga_glo_alm.h = 0,
      mga_glo_alm.omega = 0\<rparr>"

definition mga_glo_alm_layout :: "mga_glo_alm verb list" where
  "mga_glo_alm_layout =
     [Constant 0x2,
      Constant 0x0,
      Field8 mga_glo_alm.sv_id (\<lambda>v. mga_glo_alm.sv_id_update (\<lambda>_. v)),
      Reserved 1,
      Field16 mga_glo_alm.n (\<lambda>v. mga_glo_alm.n_update (\<lambda>_. v)),
      Field8 mga_glo_alm.m (\<lambda>v. mga_glo_alm.m_update (\<lambda>_. v)),
      Field8 mga_glo_alm.c (\<lambda>v. mga_glo_alm.c_update (\<lambda>_. v)),
      Field16 mga_glo_alm.tau (\<lambda>v. mga_glo_alm.tau_update (\<lambda>_. v)),
      Field16 mga_glo_alm.epsilon (\<lambda>v. mga_glo_alm.epsilon_update (\<lambda>_. v)),
      Field32 mga_glo_alm.lambda (\<lambda>v. mga_glo_alm.lambda_update (\<lambda>_. v)),
      Field32 mga_glo_alm.delta_i (\<lambda>v. mga_glo_alm.delta_i_update (\<lambda>_. v)),
      Field32 mga_glo_alm.t_lambda (\<lambda>v. mga_glo_alm.t_lambda_update (\<lambda>_. v)),
      Field32 mga_glo_alm.delta_t (\<lambda>v. mga_glo_alm.delta_t_update (\<lambda>_. v)),
      Field8 mga_glo_alm.delta_dt (\<lambda>v. mga_glo_alm.delta_dt_update (\<lambda>_. v)),
      Field8 mga_glo_alm.h (\<lambda>v. mga_glo_alm.h_update (\<lambda>_. v)),
      Field16 mga_glo_alm.omega (\<lambda>v. mga_glo_alm.omega_update (\<lambda>_. v)),
      Reserved 4]"

definition mga_glo_alm_message :: "mga_glo_alm message_type" where
  "mga_glo_alm_message = \<lparr>mt_class = 0x13, mt_id = 0x6, mt_length = 36, mt_init = mga_glo_alm_init, mt_layout = mga_glo_alm_layout\<rparr>"

interpretation mga_glo_alm_msg: fixed_message mga_glo_alm_message "\<lambda>_. True"
  by unfold_locales (simp_all add: mga_glo_alm_message_def mga_glo_alm_layout_def mga_glo_alm_init_def layout_rules)

section \<open>\<open>mga_glo_timeoffset\<close> (\<open>mga_glo.hpp\<close>)\<close>

record mga_glo_timeoffset =
  n :: u16
  tau_c :: u32
  tau_gps :: u32
  b1 :: u16
  b2 :: u16

definition mga_glo_timeoffset_init :: mga_glo_timeoffset where
  "mga_glo_timeoffset_init =
     \<lparr>mga_glo_timeoffset.n = 0, mga_glo_timeoffset.tau_c = 0, mga_glo_timeoffset.tau_gps = 0,
      mga_glo_timeoffset.b1 = 0, mga_glo_timeoffset.b2 = 0\<rparr>"

definition mga_glo_timeoffset_layout :: "mga_glo_timeoffset verb list" where
  "mga_glo_timeoffset_layout =
     [Constant 0x3,
      Constant 0x0,
      Field16 mga_glo_timeoffset.n (\<lambda>v. mga_glo_timeoffset.n_update (\<lambda>_. v)),
      Field32 mga_glo_timeoffset.tau_c (\<lambda>v. mga_glo_timeoffset.tau_c_update (\<lambda>_. v)),
      Field32 mga_glo_timeoffset.tau_gps (\<lambda>v. mga_glo_timeoffset.tau_gps_update (\<lambda>_. v)),
      Field16 mga_glo_timeoffset.b1 (\<lambda>v. mga_glo_timeoffset.b1_update (\<lambda>_. v)),
      Field16 mga_glo_timeoffset.b2 (\<lambda>v. mga_glo_timeoffset.b2_update (\<lambda>_. v)),
      Reserved 4]"

definition mga_glo_timeoffset_message :: "mga_glo_timeoffset message_type" where
  "mga_glo_timeoffset_message = \<lparr>mt_class = 0x13, mt_id = 0x6, mt_length = 20, mt_init = mga_glo_timeoffset_init, mt_layout = mga_glo_timeoffset_layout\<rparr>"

interpretation mga_glo_timeoffset_msg: fixed_message mga_glo_timeoffset_message "\<lambda>_. True"
  by unfold_locales (simp_all add: mga_glo_timeoffset_message_def mga_glo_timeoffset_layout_def mga_glo_timeoffset_init_def layout_rules)

section \<open>\<open>basic_mga_gps_eph\<close> (\<open>mga_gps.hpp\<close>)\<close>

record basic_mga_gps_eph =
  sv_id :: u8
  fit_interval :: u8
  ura_index :: u8
  sv_health :: u8
  tgd :: u8
  iodc :: u16
  toc :: u16
  af2 :: u8
  af1 :: u16
  af0 :: u32
  crs :: u16
  delta_n :: u16
  m0 :: u32
  cuc :: u16
  cus :: u16
  e :: u32
  sqrt_a :: u32
  toe :: u16
  cic :: u16
  omega0 :: u32
  cis :: u16
  crc :: u16
  i0 :: u32
  omega :: u32
  omega_dot :: u32
  idot :: u16

definition basic_mga_gps_eph_init :: basic_mga_gps_eph where
  "basic_mga_gps_eph_init =
     \<lparr>basic_mga_gps_eph.sv_id = 0, basic_mga_gps_eph.fit_interval = 0,
      basic_mga_gps_eph.ura_index = 0, basic_mga_gps_eph.sv_health = 0, basic_mga_gps_eph.tgd = 0,
      basic_mga_gps_eph.iodc = 0, basic_mga_gps_eph.toc = 0, basic_mga_gps_eph.af2 = 0,
      basic_mga_gps_eph.af1 = 0, basic_mga_gps_eph.af0 = 0, basic_mga_gps_eph.crs = 0,
      basic_mga_gps_eph.delta_n = 0, basic_mga_gps_eph.m0 = 0, basic_mga_gps_eph.cuc = 0,
      basic_mga_gps_eph.cus = 0, basic_mga_gps_eph.e = 0, basic_mga_gps_eph.sqrt_a = 0,
      basic_mga_gps_eph.toe = 0, basic_mga_gps_eph.cic = 0, basic_mga_gps_eph.omega0 = 0,
      basic_mga_gps_eph.cis = 0, basic_mga_gps_eph.crc = 0, basic_mga_gps_eph.i0 = 0,
      basic_mga_gps_eph.omega = 0, basic_mga_gps_eph.omega_dot = 0, basic_mga_gps_eph.idot = 0\<rparr>"

definition basic_mga_gps_eph_layout :: "basic_mga_gps_eph verb list" where
  "basic_mga_gps_eph_layout =
     [Constant 0x1,
      Constant 0x0,
      Field8 basic_mga_gps_eph.sv_id (\<lambda>v. basic_mga_gps_eph.sv_id_update (\<lambda>_. v)),
      Reserved 1,
      Field8 basic_mga_gps_eph.fit_interval (\<lambda>v. basic_mga_gps_eph.fit_interval_update (\<lambda>_. v)),
      Field8 basic_mga_gps_eph.ura_index (\<lambda>v. basic_mga_gps_eph.ura_index_update (\<lambda>_. v)),
      Field8 basic_mga_gps_eph.sv_health (\<lambda>v. basic_mga_gps_eph.sv_health_update (\<lambda>_. v)),
      Field8 basic_mga_gps_eph.tgd (\<lambda>v. basic_mga_gps_eph.tgd_update (\<lambda>_. v)),
      Field16 basic_mga_gps_eph.iodc (\<lambda>v. basic_mga_gps_eph.iodc_update (\<lambda>_. v)),
      Field16 basic_mga_gps_eph.toc (\<lambda>v. basic_mga_gps_eph.toc_update (\<lambda>_. v)),
      Reserved 1,
      Field8 basic_mga_gps_eph.af2 (\<lambda>v. basic_mga_gps_eph.af2_update (\<lambda>_. v)),
      Field16 basic_mga_gps_eph.af1 (\<lambda>v. basic_mga_gps_eph.af1_update (\<lambda>_. v)),
      Field32 basic_mga_gps_eph.af0 (\<lambda>v. basic_mga_gps_eph.af0_update (\<lambda>_. v)),
      Field16 basic_mga_gps_eph.crs (\<lambda>v. basic_mga_gps_eph.crs_update (\<lambda>_. v)),
      Field16 basic_mga_gps_eph.delta_n (\<lambda>v. basic_mga_gps_eph.delta_n_update (\<lambda>_. v)),
      Field32 basic_mga_gps_eph.m0 (\<lambda>v. basic_mga_gps_eph.m0_update (\<lambda>_. v)),
      Field16 basic_mga_gps_eph.cuc (\<lambda>v. basic_mga_gps_eph.cuc_update (\<lambda>_. v)),
      Field16 basic_mga_gps_eph.cus (\<lambda>v. basic_mga_gps_eph.cus_update (\<lambda>_. v)),
      Field32 basic_mga_gps_eph.e (\<lambda>v. basic_mga_gps_eph.e_update (\<lambda>_. v)),
      Field32 basic_mga_gps_eph.sqrt_a (\<lambda>v. basic_mga_gps_eph.sqrt_a_update (\<lambda>_. v)),
      Field16 basic_mga_gps_eph.toe (\<lambda>v. basic_mga_gps_eph.toe_update (\<lambda>_. v)),
      Field16 basic_mga_gps_eph.cic (\<lambda>v. basic_mga_gps_eph.cic_update (\<lambda>_. v)),
      Field32 basic_mga_gps_eph.omega0 (\<lambda>v. basic_mga_gps_eph.omega0_update (\<lambda>_. v)),
      Field16 basic_mga_gps_eph.cis (\<lambda>v. basic_mga_gps_eph.cis_update (\<lambda>_. v)),
      Field16 basic_mga_gps_eph.crc (\<lambda>v. basic_mga_gps_eph.crc_update (\<lambda>_. v)),
      Field32 basic_mga_gps_eph.i0 (\<lambda>v. basic_mga_gps_eph.i0_update (\<lambda>_. v)),
      Field32 basic_mga_gps_eph.omega (\<lambda>v. basic_mga_gps_eph.omega_update (\<lambda>_. v)),
      Field32 basic_mga_gps_eph.omega_dot (\<lambda>v. basic_mga_gps_eph.omega_dot_update (\<lambda>_. v)),
      Field16 basic_mga_gps_eph.idot (\<lambda>v. basic_mga_gps_eph.idot_update (\<lambda>_. v)),
      Reserved 2]"

definition mga_qzss_eph_message :: "basic_mga_gps_eph message_type" where
  "mga_qzss_eph_message = \<lparr>mt_class = 0x13, mt_id = 0x5, mt_length = 68, mt_init = basic_mga_gps_eph_init, mt_layout = basic_mga_gps_eph_layout\<rparr>"

interpretation mga_qzss_eph_msg: fixed_message mga_qzss_eph_message "\<lambda>_. True"
  by unfold_locales (simp_all add: mga_qzss_eph_message_def basic_mga_gps_eph_layout_def basic_mga_gps_eph_init_def layout_rules)

definition mga_gps_eph_message :: "basic_mga_gps_eph message_type" where
  "mga_gps_eph_message = \<lparr>mt_class = 0x13, mt_id = 0x0, mt_length = 68, mt_init = basic_mga_gps_eph_init, mt_layout = basic_mga_gps_eph_layout\<rparr>"

interpretation mga_gps_eph_msg: fixed_message mga_gps_eph_message "\<lambda>_. True"
  by unfold_locales (simp_all add: mga_gps_eph_message_def basic_mga_gps_eph_layout_def basic_mga_gps_eph_init_def layout_rules)

section \<open>\<open>basic_mga_gps_alm\<close> (\<open>mga_gps.hpp\<close>)\<close>

record basic_mga_gps_alm =
  sv_id :: u8
  sv_health :: u8
  e :: u16
  alm_wn_a :: u8
  toa :: u8
  delta_i :: u16
  omega_dot :: u16
  sqrt_a :: u32
  omega0 :: u32
  omega :: u32
  m0 :: u32
  af0 :: u16
  af1 :: u16

definition basic_mga_gps_alm_init :: basic_mga_gps_alm where
  "basic_mga_gps_alm_init =
     \<lparr>basic_mga_gps_alm.sv_id = 0, basic_mga_gps_alm.sv_health = 0, basic_mga_gps_alm.e = 0,
      basic_mga_gps_alm.alm_wn_a = 0, basic_mga_gps_alm.toa = 0, basic_mga_gps_alm.delta_i = 0,
      basic_mga_gps_alm.omega_dot = 0, basic_mga_gps_alm.sqrt_a = 0, basic_mga_gps_alm.omega0 = 0,
      basic_mga_gps_alm.omega = 0, basic_mga_gps_alm.m0 = 0, basic_mga_gps_alm.af0 = 0,
      basic_mga_gps_alm.af1 = 0\<rparr>"

definition basic_mga_gps_alm_layout :: "basic_mga_gps_alm verb list" where
  "basic_mga_gps_alm_layout =
     [Constant 0x2,
      Constant 0x0,
      Field8 basic_mga_gps_alm.sv_id (\<lambda>v. basic_mga_gps_alm.sv_id_update (\<lambda>_. v)),
      Field8 basic_mga_gps_alm.sv_health (\<lambda>v. basic_mga_gps_alm.sv_health_update (\<lambda>_. v)),
      Field16 basic_mga_gps_alm.e (\<lambda>v. basic_mga_gps_alm.e_update (\<lambda>_. v)),
      Field8 basic_mga_gps_alm.alm_wn_a (\<lambda>v. basic_mga_gps_alm.alm_wn_a_update (\<lambda>_. v)),
      Field8 basic_mga_gps_alm.toa (\<lambda>v. basic_mga_gps_alm.toa_update (\<lambda>_. v)),
      Field16 basic_mga_gps_alm.delta_i (\<lambda>v. basic_mga_gps_alm.delta_i_update (\<lambda>_. v)),
      Field16 basic_mga_gps_alm.omega_dot (\<lambda>v. basic_mga_gps_alm.omega_dot_update (\<lambda>_. v)),
      Field32 basic_mga_gps_alm.sqrt_a (\<lambda>v. basic_mga_gps_alm.sqrt_a_update (\<lambda>_. v)),
      Field32 basic_mga_gps_alm.omega0 (\<lambda>v. basic_mga_gps_alm.omega0_update (\<lambda>_. v)),
      Field32 basic_mga_gps_alm.omega (\<lambda>v. basic_mga_gps_alm.omega_update (\<lambda>_. v)),
      Field32 basic_mga_gps_alm.m0 (\<lambda>v. basic_mga_gps_alm.m0_update (\<lambda>_. v)),
      Field16 basic_mga_gps_alm.af0 (\<lambda>v. basic_mga_gps_alm.af0_update (\<lambda>_. v)),
      Field16 basic_mga_gps_alm.af1 (\<lambda>v. basic_mga_gps_alm.af1_update (\<lambda>_. v)),
      Reserved 4]"

definition mga_qzss_alm_message :: "basic_mga_gps_alm message_type" where
  "mga_qzss_alm_message = \<lparr>mt_class = 0x13, mt_id = 0x5, mt_length = 36, mt_init = basic_mga_gps_alm_init, mt_layout = basic_mga_gps_alm_layout\<rparr>"

interpretation mga_qzss_alm_msg: fixed_message mga_qzss_alm_message "\<lambda>_. True"
  by unfold_locales (simp_all add: mga_qzss_alm_message_def basic_mga_gps_alm_layout_def basic_mga_gps_alm_init_def layout_rules)

definition mga_gps_alm_message :: "basic_mga_gps_alm message_type" where
  "mga_gps_alm_message = \<lparr>mt_class = 0x13, mt_id = 0x0, mt_length = 36, mt_init = basic_mga_gps_alm_init, mt_layout = basic_mga_gps_alm_layout\<rparr>"

interpretation mga_gps_alm_msg: fixed_message mga_gps_alm_message "\<lambda>_. True"
  by unfold_locales (simp_all add: mga_gps_alm_message_def basic_mga_gps_alm_layout_def basic_mga_gps_alm_init_def layout_rules)

section \<open>\<open>mga_gps_health\<close> (\<open>mga_gps.hpp\<close>)\<close>

record mga_gps_health =
  health_code :: "u8 list"

definition mga_gps_health_init :: mga_gps_health where
  "mga_gps_health_init =
     \<lparr>mga_gps_health.health_code = replicate 32 0\<rparr>"

definition mga_gps_health_layout :: "mga_gps_health verb list" where
  "mga_gps_health_layout =
     [Constant 0x4,
      Constant 0x0,
      Reserved 2,
      Array8 32 mga_gps_health.health_code (\<lambda>v. mga_gps_health.health_code_update (\<lambda>_. v)),
      Reserved 4]"

definition mga_gps_health_message :: "mga_gps_health message_type" where
  "mga_gps_health_message = \<lparr>mt_class = 0x13, mt_id = 0x0, mt_length = 40, mt_init = mga_gps_health_init, mt_layout = mga_gps_health_layout\<rparr>"

definition mga_gps_health_wf :: "mga_gps_health \<Rightarrow> bool" where
  "mga_gps_health_wf msg \<longleftrightarrow> length (mga_gps_health.health_code msg) = 32"

interpretation mga_gps_health_msg: fixed_message mga_gps_health_message mga_gps_health_wf
  by unfold_locales (simp_all add: mga_gps_health_message_def mga_gps_health_layout_def mga_gps_health_init_def mga_gps_health_wf_def layout_rules)

section \<open>\<open>mga_gps_utc\<close> (\<open>mga_gps.hpp\<close>)\<close>

record mga_gps_utc =
  utc_a0 :: u32
  utc_a1 :: u32
  utc_dt_ls :: u8
  utc_tot :: u8
  utc_wn_t :: u8
  utc_wn_lsf :: u8
  utc_dn :: u8
  utc_dt_lsf :: u8

definition mga_gps_utc_init :: mga_gps_utc where
  "mga_gps_utc_init =
     \<lparr>mga_gps_utc.utc_a0 = 0, mga_gps_utc.utc_a1 = 0, mga_gps_utc.utc_dt_ls = 0,
      mga_gps_utc.utc_tot = 0, mga_gps_utc.utc_wn_t = 0, mga_gps_utc.utc_wn_lsf = 0,
      mga_gps_utc.utc_dn = 0, mga_gps_utc.utc_dt_lsf = 0\<rparr>"

definition mga_gps_utc_layout :: "mga_gps_utc verb list" where
  "mga_gps_utc_layout =
     [Constant 0x5,
      Constant 0x0,
      Reserved 2,
      Field32 mga_gps_utc.utc_a0 (\<lambda>v. mga_gps_utc.utc_a0_update (\<lambda>_. v)),
      Field32 mga_gps_utc.utc_a1 (\<lambda>v. mga_gps_utc.utc_a1_update (\<lambda>_. v)),
      Field8 mga_gps_utc.utc_dt_ls (\<lambda>v. mga_gps_utc.utc_dt_ls_update (\<lambda>_. v)),
      Field8 mga_gps_utc.utc_tot (\<lambda>v. mga_gps_utc.utc_tot_update (\<lambda>_. v)),
      Field8 mga_gps_utc.utc_wn_t (\<lambda>v. mga_gps_utc.utc_wn_t_update (\<lambda>_. v)),
      Field8 mga_gps_utc.utc_wn_lsf (\<lambda>v. mga_gps_utc.utc_wn_lsf_update (\<lambda>_. v)),
      Field8 mga_gps_utc.utc_dn (\<lambda>v. mga_gps_utc.utc_dn_update (\<lambda>_. v)),
      Field8 mga_gps_utc.utc_dt_lsf (\<lambda>v. mga_gps_utc.utc_dt_lsf_update (\<lambda>_. v)),
      Reserved 2]"

definition mga_gps_utc_message :: "mga_gps_utc message_type" where
  "mga_gps_utc_message = \<lparr>mt_class = 0x13, mt_id = 0x0, mt_length = 20, mt_init = mga_gps_utc_init, mt_layout = mga_gps_utc_layout\<rparr>"

interpretation mga_gps_utc_msg: fixed_message mga_gps_utc_message "\<lambda>_. True"
  by unfold_locales (simp_all add: mga_gps_utc_message_def mga_gps_utc_layout_def mga_gps_utc_init_def layout_rules)

section \<open>\<open>mga_gps_iono\<close> (\<open>mga_gps.hpp\<close>)\<close>

record mga_gps_iono =
  iono_alpha :: "u8 list"
  iono_beta :: "u8 list"

definition mga_gps_iono_init :: mga_gps_iono where
  "mga_gps_iono_init =
     \<lparr>mga_gps_iono.iono_alpha = replicate 4 0, mga_gps_iono.iono_beta = replicate 4 0\<rparr>"

definition mga_gps_iono_layout :: "mga_gps_iono verb list" where
  "mga_gps_iono_layout =
     [Constant 0x6,
      Constant 0x0,
      Reserved 2,
      Array8 4 mga_gps_iono.iono_alpha (\<lambda>v. mga_gps_iono.iono_alpha_update (\<lambda>_. v)),
      Array8 4 mga_gps_iono.iono_beta (\<lambda>v. mga_gps_iono.iono_beta_update (\<lambda>_. v)),
      Reserved 4]"

definition mga_gps_iono_message :: "mga_gps_iono message_type" where
  "mga_gps_iono_message = \<lparr>mt_class = 0x13, mt_id = 0x0, mt_length = 16, mt_init = mga_gps_iono_init, mt_layout = mga_gps_iono_layout\<rparr>"

definition mga_gps_iono_wf :: "mga_gps_iono \<Rightarrow> bool" where
  "mga_gps_iono_wf msg \<longleftrightarrow> length (mga_gps_iono.iono_alpha msg) = 4 \<and> length (mga_gps_iono.iono_beta msg) = 4"

interpretation mga_gps_iono_msg: fixed_message mga_gps_iono_message mga_gps_iono_wf
  by unfold_locales (simp_all add: mga_gps_iono_message_def mga_gps_iono_layout_def mga_gps_iono_init_def mga_gps_iono_wf_def layout_rules)

section \<open>\<open>mga_ini_pos_xyz\<close> (\<open>mga_ini.hpp\<close>)\<close>

record mga_ini_pos_xyz =
  ecef_x :: u32
  ecef_y :: u32
  ecef_z :: u32
  pos_acc :: u32

definition mga_ini_pos_xyz_init :: mga_ini_pos_xyz where
  "mga_ini_pos_xyz_init =
     \<lparr>mga_ini_pos_xyz.ecef_x = 0, mga_ini_pos_xyz.ecef_y = 0, mga_ini_pos_xyz.ecef_z = 0,
      mga_ini_pos_xyz.pos_acc = 0\<rparr>"

definition mga_ini_pos_xyz_layout :: "mga_ini_pos_xyz verb list" where
  "mga_ini_pos_xyz_layout =
     [Constant 0x0,
      Constant 0x0,
      Reserved 2,
      Field32 mga_ini_pos_xyz.ecef_x (\<lambda>v. mga_ini_pos_xyz.ecef_x_update (\<lambda>_. v)),
      Field32 mga_ini_pos_xyz.ecef_y (\<lambda>v. mga_ini_pos_xyz.ecef_y_update (\<lambda>_. v)),
      Field32 mga_ini_pos_xyz.ecef_z (\<lambda>v. mga_ini_pos_xyz.ecef_z_update (\<lambda>_. v)),
      Field32 mga_ini_pos_xyz.pos_acc (\<lambda>v. mga_ini_pos_xyz.pos_acc_update (\<lambda>_. v))]"

definition mga_ini_pos_xyz_message :: "mga_ini_pos_xyz message_type" where
  "mga_ini_pos_xyz_message = \<lparr>mt_class = 0x13, mt_id = 0x40, mt_length = 20, mt_init = mga_ini_pos_xyz_init, mt_layout = mga_ini_pos_xyz_layout\<rparr>"

interpretation mga_ini_pos_xyz_msg: fixed_message mga_ini_pos_xyz_message "\<lambda>_. True"
  by unfold_locales (simp_all add: mga_ini_pos_xyz_message_def mga_ini_pos_xyz_layout_def mga_ini_pos_xyz_init_def layout_rules)

section \<open>\<open>mga_ini_pos_llh\<close> (\<open>mga_ini.hpp\<close>)\<close>

record mga_ini_pos_llh =
  lat :: u32
  lon :: u32
  alt :: u32
  pos_acc :: u32

definition mga_ini_pos_llh_init :: mga_ini_pos_llh where
  "mga_ini_pos_llh_init =
     \<lparr>mga_ini_pos_llh.lat = 0, mga_ini_pos_llh.lon = 0, mga_ini_pos_llh.alt = 0,
      mga_ini_pos_llh.pos_acc = 0\<rparr>"

definition mga_ini_pos_llh_layout :: "mga_ini_pos_llh verb list" where
  "mga_ini_pos_llh_layout =
     [Constant 0x1,
      Constant 0x0,
      Reserved 2,
      Field32 mga_ini_pos_llh.lat (\<lambda>v. mga_ini_pos_llh.lat_update (\<lambda>_. v)),
      Field32 mga_ini_pos_llh.lon (\<lambda>v. mga_ini_pos_llh.lon_update (\<lambda>_. v)),
      Field32 mga_ini_pos_llh.alt (\<lambda>v. mga_ini_pos_llh.alt_update (\<lambda>_. v)),
      Field32 mga_ini_pos_llh.pos_acc (\<lambda>v. mga_ini_pos_llh.pos_acc_update (\<lambda>_. v))]"

definition mga_ini_pos_llh_message :: "mga_ini_pos_llh message_type" where
  "mga_ini_pos_llh_message = \<lparr>mt_class = 0x13, mt_id = 0x40, mt_length = 20, mt_init = mga_ini_pos_llh_init, mt_layout = mga_ini_pos_llh_layout\<rparr>"

interpretation mga_ini_pos_llh_msg: fixed_message mga_ini_pos_llh_message "\<lambda>_. True"
  by unfold_locales (simp_all add: mga_ini_pos_llh_message_def mga_ini_pos_llh_layout_def mga_ini_pos_llh_init_def layout_rules)

section \<open>\<open>mga_ini_time_utc\<close> (\<open>mga_ini.hpp\<close>)\<close>

record mga_ini_time_utc =
  ref :: u8
  leap_secs :: u8
  year :: u16
  month :: u8
  day :: u8
  hour :: u8
  minute :: u8
  second :: u8
  ns :: u32
  t_acc_s :: u16
  t_acc_ns :: u32

definition mga_ini_time_utc_init :: mga_ini_time_utc where
  "mga_ini_time_utc_init =
     \<lparr>mga_ini_time_utc.ref = 0, mga_ini_time_utc.leap_secs = 0, mga_ini_time_utc.year = 0,
      mga_ini_time_utc.month = 0, mga_ini_time_utc.day = 0, mga_ini_time_utc.hour = 0,
      mga_ini_time_utc.minute = 0, mga_ini_time_utc.second = 0, mga_ini_time_utc.ns = 0,
      mga_ini_time_utc.t_acc_s = 0, mga_ini_time_utc.t_acc_ns = 0\<rparr>"

definition mga_ini_time_utc_layout :: "mga_ini_time_utc verb list" where
  "mga_ini_time_utc_layout =
     [Constant 0x10,
      Constant 0x0,
      Field8 mga_ini_time_utc.ref (\<lambda>v. mga_ini_time_utc.ref_update (\<lambda>_. v)),
      Field8 mga_ini_time_utc.leap_secs (\<lambda>v. mga_ini_time_utc.leap_secs_update (\<lambda>_. v)),
      Field16 mga_ini_time_utc.year (\<lambda>v. mga_ini_time_utc.year_update (\<lambda>_. v)),
      Field8 mga_ini_time_utc.month (\<lambda>v. mga_ini_time_utc.month_update (\<lambda>_. v)),
      Field8 mga_ini_time_utc.day (\<lambda>v. mga_ini_time_utc.day_update (\<lambda>_. v)),
      Field8 mga_ini_time_utc.hour (\<lambda>v. mga_ini_time_utc.hour_update (\<lambda>_. v)),
      Field8 mga_ini_time_utc.minute (\<lambda>v. mga_ini_time_utc.minute_update (\<lambda>_. v)),
      Field8 mga_ini_time_utc.second (\<lambda>v. mga_ini_time_utc.second_update (\<lambda>_. v)),
      Reserved 1,
      Field32 mga_ini_time_utc.ns (\<lambda>v. mga_ini_time_utc.ns_update (\<lambda>_. v)),
      Field16 mga_ini_time_utc.t_acc_s (\<lambda>v. mga_ini_time_utc.t_acc_s_update (\<lambda>_. v)),
      Reserved 2,
      Field32 mga_ini_time_utc.t_acc_ns (\<lambda>v. mga_ini_time_utc.t_acc_ns_update (\<lambda>_. v))]"

definition mga_ini_time_utc_message :: "mga_ini_time_utc message_type" where
  "mga_ini_time_utc_message = \<lparr>mt_class = 0x13, mt_id = 0x40, mt_length = 24, mt_init = mga_ini_time_utc_init, mt_layout = mga_ini_time_utc_layout\<rparr>"

interpretation mga_ini_time_utc_msg: fixed_message mga_ini_time_utc_message "\<lambda>_. True"
  by unfold_locales (simp_all add: mga_ini_time_utc_message_def mga_ini_time_utc_layout_def mga_ini_time_utc_init_def layout_rules)

section \<open>\<open>mga_ini_time_gnss\<close> (\<open>mga_ini.hpp\<close>)\<close>

record mga_ini_time_gnss =
  ref :: u8
  gnss_id :: u8
  week :: u16
  tow :: u32
  ns :: u32
  t_acc_s :: u16
  t_acc_ns :: u32

definition mga_ini_time_gnss_init :: mga_ini_time_gnss where
  "mga_ini_time_gnss_init =
     \<lparr>mga_ini_time_gnss.ref = 0, mga_ini_time_gnss.gnss_id = 0, mga_ini_time_gnss.week = 0,
      mga_ini_time_gnss.tow = 0, mga_ini_time_gnss.ns = 0, mga_ini_time_gnss.t_acc_s = 0,
      mga_ini_time_gnss.t_acc_ns = 0\<rparr>"

definition mga_ini_time_gnss_layout :: "mga_ini_time_gnss verb list" where
  "mga_ini_time_gnss_layout =
     [Constant 0x11,
      Constant 0x0,
      Field8 mga_ini_time_gnss.ref (\<lambda>v. mga_ini_time_gnss.ref_update (\<lambda>_. v)),
      Field8 mga_ini_time_gnss.gnss_id (\<lambda>v. mga_ini_time_gnss.gnss_id_update (\<lambda>_. v)),
      Reserved 2,
      Field16 mga_ini_time_gnss.week (\<lambda>v. mga_ini_time_gnss.week_update (\<lambda>_. v)),
      Field32 mga_ini_time_gnss.tow (\<lambda>v. mga_ini_time_gnss.tow_update (\<lambda>_. v)),
      Field32 mga_ini_time_gnss.ns (\<lambda>v. mga_ini_time_gnss.ns_update (\<lambda>_. v)),
      Field16 mga_ini_time_gnss.t_acc_s (\<lambda>v. mga_ini_time_gnss.t_acc_s_update (\<lambda>_. v)),
      Reserved 2,
      Field32 mga_ini_time_gnss.t_acc_ns (\<lambda>v. mga_ini_time_gnss.t_acc_ns_update (\<lambda>_. v))]"

definition mga_ini_time_gnss_message :: "mga_ini_time_gnss message_type" where
  "mga_ini_time_gnss_message = \<lparr>mt_class = 0x13, mt_id = 0x40, mt_length = 24, mt_init = mga_ini_time_gnss_init, mt_layout = mga_ini_time_gnss_layout\<rparr>"

interpretation mga_ini_time_gnss_msg: fixed_message mga_ini_time_gnss_message "\<lambda>_. True"
  by unfold_locales (simp_all add: mga_ini_time_gnss_message_def mga_ini_time_gnss_layout_def mga_ini_time_gnss_init_def layout_rules)

section \<open>\<open>mga_ini_clkd\<close> (\<open>mga_ini.hpp\<close>)\<close>

record mga_ini_clkd =
  clk_d :: u32
  clk_d_acc :: u32

definition mga_ini_clkd_init :: mga_ini_clkd where
  "mga_ini_clkd_init =
     \<lparr>mga_ini_clkd.clk_d = 0, mga_ini_clkd.clk_d_acc = 0\<rparr>"

definition mga_ini_clkd_layout :: "mga_ini_clkd verb list" where
  "mga_ini_clkd_layout =
     [Constant 0x20,
      Constant 0x0,
      Reserved 2,
      Field32 mga_ini_clkd.clk_d (\<lambda>v. mga_ini_clkd.clk_d_update (\<lambda>_. v)),
      Field32 mga_ini_clkd.clk_d_acc (\<lambda>v. mga_ini_clkd.clk_d_acc_update (\<lambda>_. v))]"

definition mga_ini_clkd_message :: "mga_ini_clkd message_type" where
  "mga_ini_clkd_message = \<lparr>mt_class = 0x13, mt_id = 0x40, mt_length = 12, mt_init = mga_ini_clkd_init, mt_layout = mga_ini_clkd_layout\<rparr>"

interpretation mga_ini_clkd_msg: fixed_message mga_ini_clkd_message "\<lambda>_. True"
  by unfold_locales (simp_all add: mga_ini_clkd_message_def mga_ini_clkd_layout_def mga_ini_clkd_init_def layout_rules)

section \<open>\<open>mga_ini_freq\<close> (\<open>mga_ini.hpp\<close>)\<close>

record mga_ini_freq =
  flags :: u8
  freq :: u32
  freq_acc :: u32

definition mga_ini_freq_init :: mga_ini_freq where
  "mga_ini_freq_init =
     \<lparr>mga_ini_freq.flags = 0, mga_ini_freq.freq = 0, mga_ini_freq.freq_acc = 0\<rparr>"

definition mga_ini_freq_layout :: "mga_ini_freq verb list" where
  "mga_ini_freq_layout =
     [Constant 0x21,
      Constant 0x0,
      Reserved 1,
      Field8 mga_ini_freq.flags (\<lambda>v. mga_ini_freq.flags_update (\<lambda>_. v)),
      Field32 mga_ini_freq.freq (\<lambda>v. mga_ini_freq.freq_update (\<lambda>_. v)),
      Field32 mga_ini_freq.freq_acc (\<lambda>v. mga_ini_freq.freq_acc_update (\<lambda>_. v))]"

definition mga_ini_freq_message :: "mga_ini_freq message_type" where
  "mga_ini_freq_message = \<lparr>mt_class = 0x13, mt_id = 0x40, mt_length = 12, mt_init = mga_ini_freq_init, mt_layout = mga_ini_freq_layout\<rparr>"

interpretation mga_ini_freq_msg: fixed_message mga_ini_freq_message "\<lambda>_. True"
  by unfold_locales (simp_all add: mga_ini_freq_message_def mga_ini_freq_layout_def mga_ini_freq_init_def layout_rules)

section \<open>\<open>mga_qzss_health\<close> (\<open>mga_qzss.hpp\<close>)\<close>

record mga_qzss_health =
  health_code :: "u8 list"

definition mga_qzss_health_init :: mga_qzss_health where
  "mga_qzss_health_init =
     \<lparr>mga_qzss_health.health_code = replicate 5 0\<rparr>"

definition mga_qzss_health_layout :: "mga_qzss_health verb list" where
  "mga_qzss_health_layout =
     [Constant 0x4,
      Constant 0x0,
      Reserved 2,
      Array8 5 mga_qzss_health.health_code (\<lambda>v. mga_qzss_health.health_code_update (\<lambda>_. v)),
      Reserved 3]"

definition mga_qzss_health_message :: "mga_qzss_health message_type" where
  "mga_qzss_health_message = \<lparr>mt_class = 0x13, mt_id = 0x5, mt_length = 12, mt_init = mga_qzss_health_init, mt_layout = mga_qzss_health_layout\<rparr>"

definition mga_qzss_health_wf :: "mga_qzss_health \<Rightarrow> bool" where
  "mga_qzss_health_wf msg \<longleftrightarrow> length (mga_qzss_health.health_code msg) = 5"

interpretation mga_qzss_health_msg: fixed_message mga_qzss_health_message mga_qzss_health_wf
  by unfold_locales (simp_all add: mga_qzss_health_message_def mga_qzss_health_layout_def mga_qzss_health_init_def mga_qzss_health_wf_def layout_rules)
section \<open>What the family promises\<close>

text \<open>The messages without array fields survive the wire.\<close>

lemma mga_messages_roundtrip:
  "carries mga_bds_eph_message msg0 \<and>
    carries mga_bds_alm_message msg1 \<and>
    carries mga_bds_utc_message msg2 \<and>
    carries mga_gal_eph_message msg3 \<and>
    carries mga_gal_alm_message msg4 \<and>
    carries mga_gal_timeoffset_message msg5 \<and>
    carries mga_gal_utc_message msg6 \<and>
    carries mga_glo_eph_message msg7 \<and>
    carries mga_glo_alm_message msg8 \<and>
    carries mga_glo_timeoffset_message msg9 \<and>
    carries mga_qzss_eph_message msg10 \<and>
    carries mga_gps_eph_message msg11 \<and>
    carries mga_qzss_alm_message msg12 \<and>
    carries mga_gps_alm_message msg13 \<and>
    carries mga_gps_utc_message msg14 \<and>
    carries mga_ini_pos_xyz_message msg15 \<and>
    carries mga_ini_pos_llh_message msg16 \<and>
    carries mga_ini_time_utc_message msg17 \<and>
    carries mga_ini_time_gnss_message msg18 \<and>
    carries mga_ini_clkd_message msg19 \<and>
    carries mga_ini_freq_message msg20"
  by (intro conjI carriesI; (rule mga_bds_eph_msg.transmitted mga_bds_alm_msg.transmitted mga_bds_utc_msg.transmitted mga_gal_eph_msg.transmitted mga_gal_alm_msg.transmitted mga_gal_timeoffset_msg.transmitted mga_gal_utc_msg.transmitted mga_glo_eph_msg.transmitted mga_glo_alm_msg.transmitted mga_glo_timeoffset_msg.transmitted mga_qzss_eph_msg.transmitted mga_gps_eph_msg.transmitted mga_qzss_alm_msg.transmitted mga_gps_alm_msg.transmitted mga_gps_utc_msg.transmitted mga_ini_pos_xyz_msg.transmitted mga_ini_pos_llh_msg.transmitted mga_ini_time_utc_msg.transmitted mga_ini_time_gnss_msg.transmitted mga_ini_clkd_msg.transmitted mga_ini_freq_msg.transmitted; simp))

text \<open>The same for the messages with array fields, whose arrays have the length their C++ type fixes.\<close>

lemma mga_array_messages_roundtrip:
  assumes "mga_ack_wf msg0" and "mga_bds_health_wf msg1" and "mga_bds_iono_wf msg2" and "mga_gps_health_wf msg3" and "mga_gps_iono_wf msg4" and "mga_qzss_health_wf msg5"
  shows "carries mga_ack_message msg0 \<and>
    carries mga_bds_health_message msg1 \<and>
    carries mga_bds_iono_message msg2 \<and>
    carries mga_gps_health_message msg3 \<and>
    carries mga_gps_iono_message msg4 \<and>
    carries mga_qzss_health_message msg5"
  by (insert assms, intro conjI carriesI; (rule mga_ack_msg.transmitted mga_bds_health_msg.transmitted mga_bds_iono_msg.transmitted mga_gps_health_msg.transmitted mga_gps_iono_msg.transmitted mga_qzss_health_msg.transmitted; simp))

end
