(* ===== verification/UbxSys.thy ===== *)
theory UbxSys
  imports UbxPayload
begin

text \<open>
  The fixed-length UBX-ACK, CFG, ESF, MON, RXM, SEC, TIM and UPD messages
  (\<open>castle_ext/protocols/ubx/messages\<close>), one record, layout and message type each, with the
  \<open>fixed_message\<close> contract discharged for it.
\<close>

section \<open>\<open>ack_message\<close> (\<open>ack.hpp\<close>)\<close>

record ack_message =
  cls_id :: u8
  acked_msg_id :: u8

definition ack_message_init :: ack_message where
  "ack_message_init =
     \<lparr>ack_message.cls_id = 0, ack_message.acked_msg_id = 0\<rparr>"

definition ack_message_layout :: "ack_message verb list" where
  "ack_message_layout =
     [Field8 ack_message.cls_id (\<lambda>v. ack_message.cls_id_update (\<lambda>_. v)),
      Field8 ack_message.acked_msg_id (\<lambda>v. ack_message.acked_msg_id_update (\<lambda>_. v))]"

definition ack_ack_message :: "ack_message message_type" where
  "ack_ack_message = \<lparr>mt_class = 0x5, mt_id = 0x1, mt_length = 2, mt_init = ack_message_init, mt_layout = ack_message_layout\<rparr>"

interpretation ack_ack_msg: fixed_message ack_ack_message "\<lambda>_. True"
  by unfold_locales (simp_all add: ack_ack_message_def ack_message_layout_def ack_message_init_def layout_rules)

definition ack_nak_message :: "ack_message message_type" where
  "ack_nak_message = \<lparr>mt_class = 0x5, mt_id = 0x0, mt_length = 2, mt_init = ack_message_init, mt_layout = ack_message_layout\<rparr>"

interpretation ack_nak_msg: fixed_message ack_nak_message "\<lambda>_. True"
  by unfold_locales (simp_all add: ack_nak_message_def ack_message_layout_def ack_message_init_def layout_rules)

section \<open>\<open>cfg_rst\<close> (\<open>cfg_rst.hpp\<close>)\<close>

record cfg_rst =
  nav_bbr_mask :: u16
  reset_mode :: u8

definition cfg_rst_init :: cfg_rst where
  "cfg_rst_init =
     \<lparr>cfg_rst.nav_bbr_mask = 0, cfg_rst.reset_mode = 1\<rparr>"

definition cfg_rst_layout :: "cfg_rst verb list" where
  "cfg_rst_layout =
     [Field16 cfg_rst.nav_bbr_mask (\<lambda>v. cfg_rst.nav_bbr_mask_update (\<lambda>_. v)),
      Field8 cfg_rst.reset_mode (\<lambda>v. cfg_rst.reset_mode_update (\<lambda>_. v)),
      Reserved 1]"

definition cfg_rst_message :: "cfg_rst message_type" where
  "cfg_rst_message = \<lparr>mt_class = 0x6, mt_id = 0x4, mt_length = 4, mt_init = cfg_rst_init, mt_layout = cfg_rst_layout\<rparr>"

interpretation cfg_rst_msg: fixed_message cfg_rst_message "\<lambda>_. True"
  by unfold_locales (simp_all add: cfg_rst_message_def cfg_rst_layout_def cfg_rst_init_def layout_rules)

section \<open>\<open>cfg_spt\<close> (\<open>cfg_spt.hpp\<close>)\<close>

record cfg_spt =
  sensor_id :: u16

definition cfg_spt_init :: cfg_spt where
  "cfg_spt_init =
     \<lparr>cfg_spt.sensor_id = 0\<rparr>"

definition cfg_spt_layout :: "cfg_spt verb list" where
  "cfg_spt_layout =
     [Constant 0x0,
      Reserved 1,
      Field16 cfg_spt.sensor_id (\<lambda>v. cfg_spt.sensor_id_update (\<lambda>_. v)),
      Reserved 8]"

definition cfg_spt_message :: "cfg_spt message_type" where
  "cfg_spt_message = \<lparr>mt_class = 0x6, mt_id = 0x64, mt_length = 12, mt_init = cfg_spt_init, mt_layout = cfg_spt_layout\<rparr>"

interpretation cfg_spt_msg: fixed_message cfg_spt_message "\<lambda>_. True"
  by unfold_locales (simp_all add: cfg_spt_message_def cfg_spt_layout_def cfg_spt_init_def layout_rules)

section \<open>\<open>esf_alg\<close> (\<open>esf_alg.hpp\<close>)\<close>

record esf_alg =
  i_tow :: u32
  version :: u8
  flags :: u8
  error :: u8
  yaw :: u32
  pitch :: u16
  roll :: u16

definition esf_alg_init :: esf_alg where
  "esf_alg_init =
     \<lparr>esf_alg.i_tow = 0, esf_alg.version = 0, esf_alg.flags = 0, esf_alg.error = 0, esf_alg.yaw = 0,
      esf_alg.pitch = 0, esf_alg.roll = 0\<rparr>"

definition esf_alg_layout :: "esf_alg verb list" where
  "esf_alg_layout =
     [Field32 esf_alg.i_tow (\<lambda>v. esf_alg.i_tow_update (\<lambda>_. v)),
      Field8 esf_alg.version (\<lambda>v. esf_alg.version_update (\<lambda>_. v)),
      Field8 esf_alg.flags (\<lambda>v. esf_alg.flags_update (\<lambda>_. v)),
      Field8 esf_alg.error (\<lambda>v. esf_alg.error_update (\<lambda>_. v)),
      Reserved 1,
      Field32 esf_alg.yaw (\<lambda>v. esf_alg.yaw_update (\<lambda>_. v)),
      Field16 esf_alg.pitch (\<lambda>v. esf_alg.pitch_update (\<lambda>_. v)),
      Field16 esf_alg.roll (\<lambda>v. esf_alg.roll_update (\<lambda>_. v))]"

definition esf_alg_message :: "esf_alg message_type" where
  "esf_alg_message = \<lparr>mt_class = 0x10, mt_id = 0x14, mt_length = 16, mt_init = esf_alg_init, mt_layout = esf_alg_layout\<rparr>"

interpretation esf_alg_msg: fixed_message esf_alg_message "\<lambda>_. True"
  by unfold_locales (simp_all add: esf_alg_message_def esf_alg_layout_def esf_alg_init_def layout_rules)

section \<open>\<open>esf_ins\<close> (\<open>esf_ins.hpp\<close>)\<close>

record esf_ins =
  bitfield0 :: u32
  i_tow :: u32
  x_ang_rate :: u32
  y_ang_rate :: u32
  z_ang_rate :: u32
  x_accel :: u32
  y_accel :: u32
  z_accel :: u32

definition esf_ins_init :: esf_ins where
  "esf_ins_init =
     \<lparr>esf_ins.bitfield0 = 0, esf_ins.i_tow = 0, esf_ins.x_ang_rate = 0, esf_ins.y_ang_rate = 0,
      esf_ins.z_ang_rate = 0, esf_ins.x_accel = 0, esf_ins.y_accel = 0, esf_ins.z_accel = 0\<rparr>"

definition esf_ins_layout :: "esf_ins verb list" where
  "esf_ins_layout =
     [Field32 esf_ins.bitfield0 (\<lambda>v. esf_ins.bitfield0_update (\<lambda>_. v)),
      Reserved 4,
      Field32 esf_ins.i_tow (\<lambda>v. esf_ins.i_tow_update (\<lambda>_. v)),
      Field32 esf_ins.x_ang_rate (\<lambda>v. esf_ins.x_ang_rate_update (\<lambda>_. v)),
      Field32 esf_ins.y_ang_rate (\<lambda>v. esf_ins.y_ang_rate_update (\<lambda>_. v)),
      Field32 esf_ins.z_ang_rate (\<lambda>v. esf_ins.z_ang_rate_update (\<lambda>_. v)),
      Field32 esf_ins.x_accel (\<lambda>v. esf_ins.x_accel_update (\<lambda>_. v)),
      Field32 esf_ins.y_accel (\<lambda>v. esf_ins.y_accel_update (\<lambda>_. v)),
      Field32 esf_ins.z_accel (\<lambda>v. esf_ins.z_accel_update (\<lambda>_. v))]"

definition esf_ins_message :: "esf_ins message_type" where
  "esf_ins_message = \<lparr>mt_class = 0x10, mt_id = 0x15, mt_length = 36, mt_init = esf_ins_init, mt_layout = esf_ins_layout\<rparr>"

interpretation esf_ins_msg: fixed_message esf_ins_message "\<lambda>_. True"
  by unfold_locales (simp_all add: esf_ins_message_def esf_ins_layout_def esf_ins_init_def layout_rules)

section \<open>\<open>mon_gnss\<close> (\<open>mon_gnss.hpp\<close>)\<close>

record mon_gnss =
  version :: u8
  supported :: u8
  default_gnss :: u8
  enabled :: u8
  simultaneous :: u8

definition mon_gnss_init :: mon_gnss where
  "mon_gnss_init =
     \<lparr>mon_gnss.version = 1, mon_gnss.supported = 0, mon_gnss.default_gnss = 0, mon_gnss.enabled = 0,
      mon_gnss.simultaneous = 0\<rparr>"

definition mon_gnss_layout :: "mon_gnss verb list" where
  "mon_gnss_layout =
     [Field8 mon_gnss.version (\<lambda>v. mon_gnss.version_update (\<lambda>_. v)),
      Field8 mon_gnss.supported (\<lambda>v. mon_gnss.supported_update (\<lambda>_. v)),
      Field8 mon_gnss.default_gnss (\<lambda>v. mon_gnss.default_gnss_update (\<lambda>_. v)),
      Field8 mon_gnss.enabled (\<lambda>v. mon_gnss.enabled_update (\<lambda>_. v)),
      Field8 mon_gnss.simultaneous (\<lambda>v. mon_gnss.simultaneous_update (\<lambda>_. v)),
      Reserved 3]"

definition mon_gnss_message :: "mon_gnss message_type" where
  "mon_gnss_message = \<lparr>mt_class = 0xa, mt_id = 0x28, mt_length = 8, mt_init = mon_gnss_init, mt_layout = mon_gnss_layout\<rparr>"

interpretation mon_gnss_msg: fixed_message mon_gnss_message "\<lambda>_. True"
  by unfold_locales (simp_all add: mon_gnss_message_def mon_gnss_layout_def mon_gnss_init_def layout_rules)

section \<open>\<open>mon_hw\<close> (\<open>mon_hw.hpp\<close>)\<close>

record mon_hw =
  pin_sel :: u32
  pin_bank :: u32
  pin_dir :: u32
  pin_val :: u32
  noise_per_ms :: u16
  agc_cnt :: u16
  a_status :: u8
  a_power :: u8
  flags :: u8
  used_mask :: u32
  vp :: "u8 list"
  jam_ind :: u8
  pin_irq :: u32
  pull_h :: u32
  pull_l :: u32

definition mon_hw_init :: mon_hw where
  "mon_hw_init =
     \<lparr>mon_hw.pin_sel = 0, mon_hw.pin_bank = 0, mon_hw.pin_dir = 0, mon_hw.pin_val = 0,
      mon_hw.noise_per_ms = 0, mon_hw.agc_cnt = 0, mon_hw.a_status = 0, mon_hw.a_power = 0,
      mon_hw.flags = 0, mon_hw.used_mask = 0, mon_hw.vp = replicate 17 0, mon_hw.jam_ind = 0,
      mon_hw.pin_irq = 0, mon_hw.pull_h = 0, mon_hw.pull_l = 0\<rparr>"

definition mon_hw_layout :: "mon_hw verb list" where
  "mon_hw_layout =
     [Field32 mon_hw.pin_sel (\<lambda>v. mon_hw.pin_sel_update (\<lambda>_. v)),
      Field32 mon_hw.pin_bank (\<lambda>v. mon_hw.pin_bank_update (\<lambda>_. v)),
      Field32 mon_hw.pin_dir (\<lambda>v. mon_hw.pin_dir_update (\<lambda>_. v)),
      Field32 mon_hw.pin_val (\<lambda>v. mon_hw.pin_val_update (\<lambda>_. v)),
      Field16 mon_hw.noise_per_ms (\<lambda>v. mon_hw.noise_per_ms_update (\<lambda>_. v)),
      Field16 mon_hw.agc_cnt (\<lambda>v. mon_hw.agc_cnt_update (\<lambda>_. v)),
      Field8 mon_hw.a_status (\<lambda>v. mon_hw.a_status_update (\<lambda>_. v)),
      Field8 mon_hw.a_power (\<lambda>v. mon_hw.a_power_update (\<lambda>_. v)),
      Field8 mon_hw.flags (\<lambda>v. mon_hw.flags_update (\<lambda>_. v)),
      Reserved 1,
      Field32 mon_hw.used_mask (\<lambda>v. mon_hw.used_mask_update (\<lambda>_. v)),
      Array8 17 mon_hw.vp (\<lambda>v. mon_hw.vp_update (\<lambda>_. v)),
      Field8 mon_hw.jam_ind (\<lambda>v. mon_hw.jam_ind_update (\<lambda>_. v)),
      Reserved 2,
      Field32 mon_hw.pin_irq (\<lambda>v. mon_hw.pin_irq_update (\<lambda>_. v)),
      Field32 mon_hw.pull_h (\<lambda>v. mon_hw.pull_h_update (\<lambda>_. v)),
      Field32 mon_hw.pull_l (\<lambda>v. mon_hw.pull_l_update (\<lambda>_. v))]"

definition mon_hw_message :: "mon_hw message_type" where
  "mon_hw_message = \<lparr>mt_class = 0xa, mt_id = 0x9, mt_length = 60, mt_init = mon_hw_init, mt_layout = mon_hw_layout\<rparr>"

definition mon_hw_wf :: "mon_hw \<Rightarrow> bool" where
  "mon_hw_wf msg \<longleftrightarrow> length (mon_hw.vp msg) = 17"

interpretation mon_hw_msg: fixed_message mon_hw_message mon_hw_wf
  by unfold_locales (simp_all add: mon_hw_message_def mon_hw_layout_def mon_hw_init_def mon_hw_wf_def layout_rules)

section \<open>\<open>mon_hw2\<close> (\<open>mon_hw2.hpp\<close>)\<close>

record mon_hw2 =
  ofs_i :: u8
  mag_i :: u8
  ofs_q :: u8
  mag_q :: u8
  cfg_source :: u8
  low_lev_cfg :: u32
  post_status :: u32

definition mon_hw2_init :: mon_hw2 where
  "mon_hw2_init =
     \<lparr>mon_hw2.ofs_i = 0, mon_hw2.mag_i = 0, mon_hw2.ofs_q = 0, mon_hw2.mag_q = 0,
      mon_hw2.cfg_source = 114, mon_hw2.low_lev_cfg = 0, mon_hw2.post_status = 0\<rparr>"

definition mon_hw2_layout :: "mon_hw2 verb list" where
  "mon_hw2_layout =
     [Field8 mon_hw2.ofs_i (\<lambda>v. mon_hw2.ofs_i_update (\<lambda>_. v)),
      Field8 mon_hw2.mag_i (\<lambda>v. mon_hw2.mag_i_update (\<lambda>_. v)),
      Field8 mon_hw2.ofs_q (\<lambda>v. mon_hw2.ofs_q_update (\<lambda>_. v)),
      Field8 mon_hw2.mag_q (\<lambda>v. mon_hw2.mag_q_update (\<lambda>_. v)),
      Field8 mon_hw2.cfg_source (\<lambda>v. mon_hw2.cfg_source_update (\<lambda>_. v)),
      Reserved 3,
      Field32 mon_hw2.low_lev_cfg (\<lambda>v. mon_hw2.low_lev_cfg_update (\<lambda>_. v)),
      Reserved 8,
      Field32 mon_hw2.post_status (\<lambda>v. mon_hw2.post_status_update (\<lambda>_. v)),
      Reserved 4]"

definition mon_hw2_message :: "mon_hw2 message_type" where
  "mon_hw2_message = \<lparr>mt_class = 0xa, mt_id = 0xb, mt_length = 28, mt_init = mon_hw2_init, mt_layout = mon_hw2_layout\<rparr>"

interpretation mon_hw2_msg: fixed_message mon_hw2_message "\<lambda>_. True"
  by unfold_locales (simp_all add: mon_hw2_message_def mon_hw2_layout_def mon_hw2_init_def layout_rules)

section \<open>\<open>mon_rxbuf\<close> (\<open>mon_rxbuf.hpp\<close>)\<close>

record mon_rxbuf =
  pending :: "u16 list"
  usage :: "u8 list"
  peak_usage :: "u8 list"

definition mon_rxbuf_init :: mon_rxbuf where
  "mon_rxbuf_init =
     \<lparr>mon_rxbuf.pending = replicate 6 0, mon_rxbuf.usage = replicate 6 0,
      mon_rxbuf.peak_usage = replicate 6 0\<rparr>"

definition mon_rxbuf_layout :: "mon_rxbuf verb list" where
  "mon_rxbuf_layout =
     [Array16 6 mon_rxbuf.pending (\<lambda>v. mon_rxbuf.pending_update (\<lambda>_. v)),
      Array8 6 mon_rxbuf.usage (\<lambda>v. mon_rxbuf.usage_update (\<lambda>_. v)),
      Array8 6 mon_rxbuf.peak_usage (\<lambda>v. mon_rxbuf.peak_usage_update (\<lambda>_. v))]"

definition mon_rxbuf_message :: "mon_rxbuf message_type" where
  "mon_rxbuf_message = \<lparr>mt_class = 0xa, mt_id = 0x7, mt_length = 24, mt_init = mon_rxbuf_init, mt_layout = mon_rxbuf_layout\<rparr>"

definition mon_rxbuf_wf :: "mon_rxbuf \<Rightarrow> bool" where
  "mon_rxbuf_wf msg \<longleftrightarrow> length (mon_rxbuf.pending msg) = 6 \<and> length (mon_rxbuf.usage msg) = 6 \<and> length (mon_rxbuf.peak_usage msg) = 6"

interpretation mon_rxbuf_msg: fixed_message mon_rxbuf_message mon_rxbuf_wf
  by unfold_locales (simp_all add: mon_rxbuf_message_def mon_rxbuf_layout_def mon_rxbuf_init_def mon_rxbuf_wf_def layout_rules)

section \<open>\<open>mon_rxr\<close> (\<open>mon_rxr.hpp\<close>)\<close>

record mon_rxr =
  flags :: u8

definition mon_rxr_init :: mon_rxr where
  "mon_rxr_init =
     \<lparr>mon_rxr.flags = 0\<rparr>"

definition mon_rxr_layout :: "mon_rxr verb list" where
  "mon_rxr_layout =
     [Field8 mon_rxr.flags (\<lambda>v. mon_rxr.flags_update (\<lambda>_. v))]"

definition mon_rxr_message :: "mon_rxr message_type" where
  "mon_rxr_message = \<lparr>mt_class = 0xa, mt_id = 0x21, mt_length = 1, mt_init = mon_rxr_init, mt_layout = mon_rxr_layout\<rparr>"

interpretation mon_rxr_msg: fixed_message mon_rxr_message "\<lambda>_. True"
  by unfold_locales (simp_all add: mon_rxr_message_def mon_rxr_layout_def mon_rxr_init_def layout_rules)

section \<open>\<open>mon_txbuf\<close> (\<open>mon_txbuf.hpp\<close>)\<close>

record mon_txbuf =
  pending :: "u16 list"
  usage :: "u8 list"
  peak_usage :: "u8 list"
  t_used :: u8
  t_peak :: u8
  errors :: u8

definition mon_txbuf_init :: mon_txbuf where
  "mon_txbuf_init =
     \<lparr>mon_txbuf.pending = replicate 6 0, mon_txbuf.usage = replicate 6 0,
      mon_txbuf.peak_usage = replicate 6 0, mon_txbuf.t_used = 0, mon_txbuf.t_peak = 0,
      mon_txbuf.errors = 0\<rparr>"

definition mon_txbuf_layout :: "mon_txbuf verb list" where
  "mon_txbuf_layout =
     [Array16 6 mon_txbuf.pending (\<lambda>v. mon_txbuf.pending_update (\<lambda>_. v)),
      Array8 6 mon_txbuf.usage (\<lambda>v. mon_txbuf.usage_update (\<lambda>_. v)),
      Array8 6 mon_txbuf.peak_usage (\<lambda>v. mon_txbuf.peak_usage_update (\<lambda>_. v)),
      Field8 mon_txbuf.t_used (\<lambda>v. mon_txbuf.t_used_update (\<lambda>_. v)),
      Field8 mon_txbuf.t_peak (\<lambda>v. mon_txbuf.t_peak_update (\<lambda>_. v)),
      Field8 mon_txbuf.errors (\<lambda>v. mon_txbuf.errors_update (\<lambda>_. v)),
      Reserved 1]"

definition mon_txbuf_message :: "mon_txbuf message_type" where
  "mon_txbuf_message = \<lparr>mt_class = 0xa, mt_id = 0x8, mt_length = 28, mt_init = mon_txbuf_init, mt_layout = mon_txbuf_layout\<rparr>"

definition mon_txbuf_wf :: "mon_txbuf \<Rightarrow> bool" where
  "mon_txbuf_wf msg \<longleftrightarrow> length (mon_txbuf.pending msg) = 6 \<and> length (mon_txbuf.usage msg) = 6 \<and> length (mon_txbuf.peak_usage msg) = 6"

interpretation mon_txbuf_msg: fixed_message mon_txbuf_message mon_txbuf_wf
  by unfold_locales (simp_all add: mon_txbuf_message_def mon_txbuf_layout_def mon_txbuf_init_def mon_txbuf_wf_def layout_rules)

section \<open>\<open>rxm_pmreq_v0\<close> (\<open>rxm_pmreq.hpp\<close>)\<close>

record rxm_pmreq_v0 =
  duration :: u32
  flags :: u32

definition rxm_pmreq_v0_init :: rxm_pmreq_v0 where
  "rxm_pmreq_v0_init =
     \<lparr>rxm_pmreq_v0.duration = 0, rxm_pmreq_v0.flags = 0\<rparr>"

definition rxm_pmreq_v0_layout :: "rxm_pmreq_v0 verb list" where
  "rxm_pmreq_v0_layout =
     [Field32 rxm_pmreq_v0.duration (\<lambda>v. rxm_pmreq_v0.duration_update (\<lambda>_. v)),
      Field32 rxm_pmreq_v0.flags (\<lambda>v. rxm_pmreq_v0.flags_update (\<lambda>_. v))]"

definition rxm_pmreq_v0_message :: "rxm_pmreq_v0 message_type" where
  "rxm_pmreq_v0_message = \<lparr>mt_class = 0x2, mt_id = 0x41, mt_length = 8, mt_init = rxm_pmreq_v0_init, mt_layout = rxm_pmreq_v0_layout\<rparr>"

interpretation rxm_pmreq_v0_msg: fixed_message rxm_pmreq_v0_message "\<lambda>_. True"
  by unfold_locales (simp_all add: rxm_pmreq_v0_message_def rxm_pmreq_v0_layout_def rxm_pmreq_v0_init_def layout_rules)

section \<open>\<open>rxm_pmreq_v1\<close> (\<open>rxm_pmreq.hpp\<close>)\<close>

record rxm_pmreq_v1 =
  duration :: u32
  flags :: u32
  wakeup_sources :: u32

definition rxm_pmreq_v1_init :: rxm_pmreq_v1 where
  "rxm_pmreq_v1_init =
     \<lparr>rxm_pmreq_v1.duration = 0, rxm_pmreq_v1.flags = 0, rxm_pmreq_v1.wakeup_sources = 0\<rparr>"

definition rxm_pmreq_v1_layout :: "rxm_pmreq_v1 verb list" where
  "rxm_pmreq_v1_layout =
     [Constant 0x0,
      Reserved 3,
      Field32 rxm_pmreq_v1.duration (\<lambda>v. rxm_pmreq_v1.duration_update (\<lambda>_. v)),
      Field32 rxm_pmreq_v1.flags (\<lambda>v. rxm_pmreq_v1.flags_update (\<lambda>_. v)),
      Field32 rxm_pmreq_v1.wakeup_sources (\<lambda>v. rxm_pmreq_v1.wakeup_sources_update (\<lambda>_. v))]"

definition rxm_pmreq_v1_message :: "rxm_pmreq_v1 message_type" where
  "rxm_pmreq_v1_message = \<lparr>mt_class = 0x2, mt_id = 0x41, mt_length = 16, mt_init = rxm_pmreq_v1_init, mt_layout = rxm_pmreq_v1_layout\<rparr>"

interpretation rxm_pmreq_v1_msg: fixed_message rxm_pmreq_v1_message "\<lambda>_. True"
  by unfold_locales (simp_all add: rxm_pmreq_v1_message_def rxm_pmreq_v1_layout_def rxm_pmreq_v1_init_def layout_rules)

section \<open>\<open>rxm_rtcm\<close> (\<open>rxm_rtcm.hpp\<close>)\<close>

record rxm_rtcm =
  version :: u8
  flags :: u8
  sub_type :: u16
  ref_station :: u16
  msg_type :: u16

definition rxm_rtcm_init :: rxm_rtcm where
  "rxm_rtcm_init =
     \<lparr>rxm_rtcm.version = 0, rxm_rtcm.flags = 0, rxm_rtcm.sub_type = 0, rxm_rtcm.ref_station = 0,
      rxm_rtcm.msg_type = 0\<rparr>"

definition rxm_rtcm_layout :: "rxm_rtcm verb list" where
  "rxm_rtcm_layout =
     [Field8 rxm_rtcm.version (\<lambda>v. rxm_rtcm.version_update (\<lambda>_. v)),
      Field8 rxm_rtcm.flags (\<lambda>v. rxm_rtcm.flags_update (\<lambda>_. v)),
      Field16 rxm_rtcm.sub_type (\<lambda>v. rxm_rtcm.sub_type_update (\<lambda>_. v)),
      Field16 rxm_rtcm.ref_station (\<lambda>v. rxm_rtcm.ref_station_update (\<lambda>_. v)),
      Field16 rxm_rtcm.msg_type (\<lambda>v. rxm_rtcm.msg_type_update (\<lambda>_. v))]"

definition rxm_rtcm_message :: "rxm_rtcm message_type" where
  "rxm_rtcm_message = \<lparr>mt_class = 0x2, mt_id = 0x32, mt_length = 8, mt_init = rxm_rtcm_init, mt_layout = rxm_rtcm_layout\<rparr>"

interpretation rxm_rtcm_msg: fixed_message rxm_rtcm_message "\<lambda>_. True"
  by unfold_locales (simp_all add: rxm_rtcm_message_def rxm_rtcm_layout_def rxm_rtcm_init_def layout_rules)

section \<open>\<open>sec_crc\<close> (\<open>sec_crc.hpp\<close>)\<close>

record sec_crc =
  version :: u8
  crc_type :: u8
  reserved :: u16
  crc32 :: u32

definition sec_crc_init :: sec_crc where
  "sec_crc_init =
     \<lparr>sec_crc.version = 0, sec_crc.crc_type = 0, sec_crc.reserved = 0, sec_crc.crc32 = 0\<rparr>"

definition sec_crc_layout :: "sec_crc verb list" where
  "sec_crc_layout =
     [Field8 sec_crc.version (\<lambda>v. sec_crc.version_update (\<lambda>_. v)),
      Field8 sec_crc.crc_type (\<lambda>v. sec_crc.crc_type_update (\<lambda>_. v)),
      Field16 sec_crc.reserved (\<lambda>v. sec_crc.reserved_update (\<lambda>_. v)),
      Field32 sec_crc.crc32 (\<lambda>v. sec_crc.crc32_update (\<lambda>_. v))]"

definition sec_crc_message :: "sec_crc message_type" where
  "sec_crc_message = \<lparr>mt_class = 0x27, mt_id = 0x1, mt_length = 8, mt_init = sec_crc_init, mt_layout = sec_crc_layout\<rparr>"

interpretation sec_crc_msg: fixed_message sec_crc_message "\<lambda>_. True"
  by unfold_locales (simp_all add: sec_crc_message_def sec_crc_layout_def sec_crc_init_def layout_rules)

section \<open>\<open>sec_sig\<close> (\<open>sec_sig.hpp\<close>)\<close>

record sec_sig =
  version :: u8
  jam_flags :: u8
  spf_flags :: u8

definition sec_sig_init :: sec_sig where
  "sec_sig_init =
     \<lparr>sec_sig.version = 0, sec_sig.jam_flags = 0, sec_sig.spf_flags = 0\<rparr>"

definition sec_sig_layout :: "sec_sig verb list" where
  "sec_sig_layout =
     [Field8 sec_sig.version (\<lambda>v. sec_sig.version_update (\<lambda>_. v)),
      Reserved 3,
      Field8 sec_sig.jam_flags (\<lambda>v. sec_sig.jam_flags_update (\<lambda>_. v)),
      Reserved 3,
      Field8 sec_sig.spf_flags (\<lambda>v. sec_sig.spf_flags_update (\<lambda>_. v)),
      Reserved 3]"

definition sec_sig_message :: "sec_sig message_type" where
  "sec_sig_message = \<lparr>mt_class = 0x27, mt_id = 0x9, mt_length = 12, mt_init = sec_sig_init, mt_layout = sec_sig_layout\<rparr>"

interpretation sec_sig_msg: fixed_message sec_sig_message "\<lambda>_. True"
  by unfold_locales (simp_all add: sec_sig_message_def sec_sig_layout_def sec_sig_init_def layout_rules)

section \<open>\<open>sec_uniqid\<close> (\<open>sec_uniqid.hpp\<close>)\<close>

record sec_uniqid =
  version :: u8
  unique_id :: "u8 list"

definition sec_uniqid_init :: sec_uniqid where
  "sec_uniqid_init =
     \<lparr>sec_uniqid.version = 0, sec_uniqid.unique_id = replicate 5 0\<rparr>"

definition sec_uniqid_layout :: "sec_uniqid verb list" where
  "sec_uniqid_layout =
     [Field8 sec_uniqid.version (\<lambda>v. sec_uniqid.version_update (\<lambda>_. v)),
      Reserved 3,
      Array8 5 sec_uniqid.unique_id (\<lambda>v. sec_uniqid.unique_id_update (\<lambda>_. v))]"

definition sec_uniqid_message :: "sec_uniqid message_type" where
  "sec_uniqid_message = \<lparr>mt_class = 0x27, mt_id = 0x3, mt_length = 9, mt_init = sec_uniqid_init, mt_layout = sec_uniqid_layout\<rparr>"

definition sec_uniqid_wf :: "sec_uniqid \<Rightarrow> bool" where
  "sec_uniqid_wf msg \<longleftrightarrow> length (sec_uniqid.unique_id msg) = 5"

interpretation sec_uniqid_msg: fixed_message sec_uniqid_message sec_uniqid_wf
  by unfold_locales (simp_all add: sec_uniqid_message_def sec_uniqid_layout_def sec_uniqid_init_def sec_uniqid_wf_def layout_rules)

section \<open>\<open>tim_tm2\<close> (\<open>tim_tm2.hpp\<close>)\<close>

record tim_tm2 =
  ch :: u8
  flags :: u8
  count :: u16
  wn_r :: u16
  wn_f :: u16
  tow_ms_r :: u32
  tow_sub_ms_r :: u32
  tow_ms_f :: u32
  tow_sub_ms_f :: u32
  acc_est :: u32

definition tim_tm2_init :: tim_tm2 where
  "tim_tm2_init =
     \<lparr>tim_tm2.ch = 0, tim_tm2.flags = 0, tim_tm2.count = 0, tim_tm2.wn_r = 0, tim_tm2.wn_f = 0,
      tim_tm2.tow_ms_r = 0, tim_tm2.tow_sub_ms_r = 0, tim_tm2.tow_ms_f = 0, tim_tm2.tow_sub_ms_f = 0,
      tim_tm2.acc_est = 0\<rparr>"

definition tim_tm2_layout :: "tim_tm2 verb list" where
  "tim_tm2_layout =
     [Field8 tim_tm2.ch (\<lambda>v. tim_tm2.ch_update (\<lambda>_. v)),
      Field8 tim_tm2.flags (\<lambda>v. tim_tm2.flags_update (\<lambda>_. v)),
      Field16 tim_tm2.count (\<lambda>v. tim_tm2.count_update (\<lambda>_. v)),
      Field16 tim_tm2.wn_r (\<lambda>v. tim_tm2.wn_r_update (\<lambda>_. v)),
      Field16 tim_tm2.wn_f (\<lambda>v. tim_tm2.wn_f_update (\<lambda>_. v)),
      Field32 tim_tm2.tow_ms_r (\<lambda>v. tim_tm2.tow_ms_r_update (\<lambda>_. v)),
      Field32 tim_tm2.tow_sub_ms_r (\<lambda>v. tim_tm2.tow_sub_ms_r_update (\<lambda>_. v)),
      Field32 tim_tm2.tow_ms_f (\<lambda>v. tim_tm2.tow_ms_f_update (\<lambda>_. v)),
      Field32 tim_tm2.tow_sub_ms_f (\<lambda>v. tim_tm2.tow_sub_ms_f_update (\<lambda>_. v)),
      Field32 tim_tm2.acc_est (\<lambda>v. tim_tm2.acc_est_update (\<lambda>_. v))]"

definition tim_tm2_message :: "tim_tm2 message_type" where
  "tim_tm2_message = \<lparr>mt_class = 0xd, mt_id = 0x3, mt_length = 28, mt_init = tim_tm2_init, mt_layout = tim_tm2_layout\<rparr>"

interpretation tim_tm2_msg: fixed_message tim_tm2_message "\<lambda>_. True"
  by unfold_locales (simp_all add: tim_tm2_message_def tim_tm2_layout_def tim_tm2_init_def layout_rules)

section \<open>\<open>tim_tp\<close> (\<open>tim_tp.hpp\<close>)\<close>

record tim_tp =
  tow_ms :: u32
  tow_sub_ms :: u32
  q_err :: u32
  week :: u16
  flags :: u8
  ref_info :: u8

definition tim_tp_init :: tim_tp where
  "tim_tp_init =
     \<lparr>tim_tp.tow_ms = 0, tim_tp.tow_sub_ms = 0, tim_tp.q_err = 0, tim_tp.week = 0, tim_tp.flags = 0,
      tim_tp.ref_info = 0\<rparr>"

definition tim_tp_layout :: "tim_tp verb list" where
  "tim_tp_layout =
     [Field32 tim_tp.tow_ms (\<lambda>v. tim_tp.tow_ms_update (\<lambda>_. v)),
      Field32 tim_tp.tow_sub_ms (\<lambda>v. tim_tp.tow_sub_ms_update (\<lambda>_. v)),
      Field32 tim_tp.q_err (\<lambda>v. tim_tp.q_err_update (\<lambda>_. v)),
      Field16 tim_tp.week (\<lambda>v. tim_tp.week_update (\<lambda>_. v)),
      Field8 tim_tp.flags (\<lambda>v. tim_tp.flags_update (\<lambda>_. v)),
      Field8 tim_tp.ref_info (\<lambda>v. tim_tp.ref_info_update (\<lambda>_. v))]"

definition tim_tp_message :: "tim_tp message_type" where
  "tim_tp_message = \<lparr>mt_class = 0xd, mt_id = 0x1, mt_length = 16, mt_init = tim_tp_init, mt_layout = tim_tp_layout\<rparr>"

interpretation tim_tp_msg: fixed_message tim_tp_message "\<lambda>_. True"
  by unfold_locales (simp_all add: tim_tp_message_def tim_tp_layout_def tim_tp_init_def layout_rules)

section \<open>\<open>tim_vrfy\<close> (\<open>tim_vrfy.hpp\<close>)\<close>

record tim_vrfy =
  itow :: u32
  frac :: u32
  delta_ms :: u32
  delta_ns :: u32
  wno :: u16
  flags :: u8

definition tim_vrfy_init :: tim_vrfy where
  "tim_vrfy_init =
     \<lparr>tim_vrfy.itow = 0, tim_vrfy.frac = 0, tim_vrfy.delta_ms = 0, tim_vrfy.delta_ns = 0,
      tim_vrfy.wno = 0, tim_vrfy.flags = 0\<rparr>"

definition tim_vrfy_layout :: "tim_vrfy verb list" where
  "tim_vrfy_layout =
     [Field32 tim_vrfy.itow (\<lambda>v. tim_vrfy.itow_update (\<lambda>_. v)),
      Field32 tim_vrfy.frac (\<lambda>v. tim_vrfy.frac_update (\<lambda>_. v)),
      Field32 tim_vrfy.delta_ms (\<lambda>v. tim_vrfy.delta_ms_update (\<lambda>_. v)),
      Field32 tim_vrfy.delta_ns (\<lambda>v. tim_vrfy.delta_ns_update (\<lambda>_. v)),
      Field16 tim_vrfy.wno (\<lambda>v. tim_vrfy.wno_update (\<lambda>_. v)),
      Field8 tim_vrfy.flags (\<lambda>v. tim_vrfy.flags_update (\<lambda>_. v)),
      Reserved 1]"

definition tim_vrfy_message :: "tim_vrfy message_type" where
  "tim_vrfy_message = \<lparr>mt_class = 0xd, mt_id = 0x6, mt_length = 20, mt_init = tim_vrfy_init, mt_layout = tim_vrfy_layout\<rparr>"

interpretation tim_vrfy_msg: fixed_message tim_vrfy_message "\<lambda>_. True"
  by unfold_locales (simp_all add: tim_vrfy_message_def tim_vrfy_layout_def tim_vrfy_init_def layout_rules)

section \<open>\<open>upd_sos_ack\<close> (\<open>upd_sos.hpp\<close>)\<close>

record upd_sos_ack =
  response :: u8

definition upd_sos_ack_init :: upd_sos_ack where
  "upd_sos_ack_init =
     \<lparr>upd_sos_ack.response = 0\<rparr>"

definition upd_sos_ack_layout :: "upd_sos_ack verb list" where
  "upd_sos_ack_layout =
     [Constant 0x2,
      Reserved 3,
      Field8 upd_sos_ack.response (\<lambda>v. upd_sos_ack.response_update (\<lambda>_. v)),
      Reserved 3]"

definition upd_sos_ack_message :: "upd_sos_ack message_type" where
  "upd_sos_ack_message = \<lparr>mt_class = 0x9, mt_id = 0x14, mt_length = 8, mt_init = upd_sos_ack_init, mt_layout = upd_sos_ack_layout\<rparr>"

interpretation upd_sos_ack_msg: fixed_message upd_sos_ack_message "\<lambda>_. True"
  by unfold_locales (simp_all add: upd_sos_ack_message_def upd_sos_ack_layout_def upd_sos_ack_init_def layout_rules)

section \<open>\<open>upd_sos_restored\<close> (\<open>upd_sos.hpp\<close>)\<close>

record upd_sos_restored =
  response :: u8

definition upd_sos_restored_init :: upd_sos_restored where
  "upd_sos_restored_init =
     \<lparr>upd_sos_restored.response = 0\<rparr>"

definition upd_sos_restored_layout :: "upd_sos_restored verb list" where
  "upd_sos_restored_layout =
     [Constant 0x3,
      Reserved 3,
      Field8 upd_sos_restored.response (\<lambda>v. upd_sos_restored.response_update (\<lambda>_. v)),
      Reserved 3]"

definition upd_sos_restored_message :: "upd_sos_restored message_type" where
  "upd_sos_restored_message = \<lparr>mt_class = 0x9, mt_id = 0x14, mt_length = 8, mt_init = upd_sos_restored_init, mt_layout = upd_sos_restored_layout\<rparr>"

interpretation upd_sos_restored_msg: fixed_message upd_sos_restored_message "\<lambda>_. True"
  by unfold_locales (simp_all add: upd_sos_restored_message_def upd_sos_restored_layout_def upd_sos_restored_init_def layout_rules)
section \<open>What the family promises\<close>

text \<open>The messages without array fields survive the wire.\<close>

lemma sys_messages_roundtrip:
  "carries ack_ack_message msg0 \<and>
    carries ack_nak_message msg1 \<and>
    carries cfg_rst_message msg2 \<and>
    carries cfg_spt_message msg3 \<and>
    carries esf_alg_message msg4 \<and>
    carries esf_ins_message msg5 \<and>
    carries mon_gnss_message msg6 \<and>
    carries mon_hw2_message msg7 \<and>
    carries mon_rxr_message msg8 \<and>
    carries rxm_pmreq_v0_message msg9 \<and>
    carries rxm_pmreq_v1_message msg10 \<and>
    carries rxm_rtcm_message msg11 \<and>
    carries tim_tm2_message msg12 \<and>
    carries tim_tp_message msg13 \<and>
    carries tim_vrfy_message msg14 \<and>
    carries upd_sos_ack_message msg15 \<and>
    carries upd_sos_restored_message msg16"
  by (intro conjI carriesI; (rule ack_ack_msg.transmitted ack_nak_msg.transmitted cfg_rst_msg.transmitted cfg_spt_msg.transmitted esf_alg_msg.transmitted esf_ins_msg.transmitted mon_gnss_msg.transmitted mon_hw2_msg.transmitted mon_rxr_msg.transmitted rxm_pmreq_v0_msg.transmitted rxm_pmreq_v1_msg.transmitted rxm_rtcm_msg.transmitted tim_tm2_msg.transmitted tim_tp_msg.transmitted tim_vrfy_msg.transmitted upd_sos_ack_msg.transmitted upd_sos_restored_msg.transmitted; simp))

text \<open>The same for the messages with array fields, whose arrays have the length their C++ type fixes.\<close>

lemma sys_array_messages_roundtrip:
  assumes "mon_hw_wf msg0" and "mon_rxbuf_wf msg1" and "mon_txbuf_wf msg2" and "sec_uniqid_wf msg3"
  shows "carries mon_hw_message msg0 \<and>
    carries mon_rxbuf_message msg1 \<and>
    carries mon_txbuf_message msg2 \<and>
    carries sec_uniqid_message msg3"
  by (insert assms, intro conjI carriesI; (rule mon_hw_msg.transmitted mon_rxbuf_msg.transmitted mon_txbuf_msg.transmitted sec_uniqid_msg.transmitted; simp))

end
