(* ===== verification/UbxVariants.thy ===== *)
theory UbxVariants
  imports UbxSys
begin

text \<open>
  The fixed-size UBX messages (\<open>castle_ext/protocols/ubx/messages\<close>) whose struct adds something to the common
  shape: \<open>sec_crc\<close> and \<open>sec_sig\<close> decode the prefix of a longer payload, \<open>ack\<close> decodes either
  acknowledgement, the constellation times share one base, \<open>rxm_rlm\<close> is a template, \<open>mon_msgpp\<close> has arrays of
  arrays and the \<open>upd_sos\<close> commands carry no data.
\<close>

section \<open>Decoding a prefix (\<open>sec_crc.hpp\<close>, \<open>sec_sig.hpp\<close>)\<close>

text \<open>\<open>array_view::subview\<close>.\<close>

definition subview :: "'a ptr \<Rightarrow> nat \<Rightarrow> nat \<Rightarrow> 'a ptr" where
  "subview p offset n =
     (if offset > psize p then Null 0
      else let available = psize p - offset in sub_ptr p offset (if n > available then available else n))"

text \<open>The body the two \<open>decode\<close> functions share.\<close>

definition prefix_decode :: "'m message_type \<Rightarrow> message_view \<Rightarrow> (bool \<times> 'm) option" where
  "prefix_decode t raw =
     (if unat (payload_length (header raw)) < mt_length t then Some (False, mt_init t)
      else fixed_decode t (raw\<lparr>header := (header raw)\<lparr>payload_length := word_of_nat (mt_length t)\<rparr>,
                               payload := subview (payload raw) 0 (mt_length t)\<rparr>))"

definition sec_crc_decode :: "message_view \<Rightarrow> (bool \<times> sec_crc) option" where
  "sec_crc_decode = prefix_decode sec_crc_message"

definition sec_sig_decode :: "message_view \<Rightarrow> (bool \<times> sec_sig) option" where
  "sec_sig_decode = prefix_decode sec_sig_message"

section \<open>\<open>ack\<close> (\<open>ack.hpp\<close>)\<close>

record ack =
  acked_class :: u8
  acked_id :: u8
  accepted :: bool

definition ack_init :: ack where
  "ack_init = \<lparr>acked_class = 0, acked_id = 0, accepted = False\<rparr>"

definition ack_matches :: "message_view \<Rightarrow> bool" where
  "ack_matches raw \<longleftrightarrow> message_view_is raw 0x05 0x01 \<or> message_view_is raw 0x05 0x00"

definition ack_decode :: "message_view \<Rightarrow> (bool \<times> ack) option" where
  "ack_decode raw =
     (if \<not> ack_matches raw \<or> payload_length (header raw) \<noteq> 2 then Some (False, ack_init)
      else do {
        (c, r) \<leftarrow> read_u8 (payload_reader_init (payload raw));
        (i, r) \<leftarrow> read_u8 r;
        Some (if \<not> r_ok r then (False, ack_init)
              else (True, \<lparr>acked_class = c, acked_id = i, accepted = (msg_id (header raw) = 0x01)\<rparr>)) })"

section \<open>\<open>nav_timebds\<close>, \<open>nav_timegal\<close>, \<open>nav_timeqzss\<close> (\<open>detail/nav_gnss_time.hpp\<close>)\<close>

record nav_gnss_time =
  i_tow :: u32
  tow :: u32
  f_tow :: u32
  week :: u16
  leap_s :: u8
  valid :: u8
  t_acc :: u32

definition nav_gnss_time_init :: nav_gnss_time where
  "nav_gnss_time_init =
     \<lparr>nav_gnss_time.i_tow = 0, nav_gnss_time.tow = 0, nav_gnss_time.f_tow = 0, nav_gnss_time.week = 0,
      nav_gnss_time.leap_s = 0, nav_gnss_time.valid = 0, nav_gnss_time.t_acc = 0\<rparr>"

definition nav_gnss_time_layout :: "nav_gnss_time verb list" where
  "nav_gnss_time_layout =
     [Field32 nav_gnss_time.i_tow (\<lambda>v. nav_gnss_time.i_tow_update (\<lambda>_. v)),
      Field32 nav_gnss_time.tow (\<lambda>v. nav_gnss_time.tow_update (\<lambda>_. v)),
      Field32 nav_gnss_time.f_tow (\<lambda>v. nav_gnss_time.f_tow_update (\<lambda>_. v)),
      Field16 nav_gnss_time.week (\<lambda>v. nav_gnss_time.week_update (\<lambda>_. v)),
      Field8 nav_gnss_time.leap_s (\<lambda>v. nav_gnss_time.leap_s_update (\<lambda>_. v)),
      Field8 nav_gnss_time.valid (\<lambda>v. nav_gnss_time.valid_update (\<lambda>_. v)),
      Field32 nav_gnss_time.t_acc (\<lambda>v. nav_gnss_time.t_acc_update (\<lambda>_. v))]"

definition nav_timebds_message :: "nav_gnss_time message_type" where
  "nav_timebds_message = \<lparr>mt_class = 0x1, mt_id = 0x24, mt_length = 20, mt_init = nav_gnss_time_init, mt_layout = nav_gnss_time_layout\<rparr>"

interpretation nav_timebds_msg: fixed_message nav_timebds_message "\<lambda>_. True"
  by unfold_locales (simp_all add: nav_timebds_message_def nav_gnss_time_layout_def nav_gnss_time_init_def layout_rules)

definition nav_timegal_message :: "nav_gnss_time message_type" where
  "nav_timegal_message = \<lparr>mt_class = 0x1, mt_id = 0x25, mt_length = 20, mt_init = nav_gnss_time_init, mt_layout = nav_gnss_time_layout\<rparr>"

interpretation nav_timegal_msg: fixed_message nav_timegal_message "\<lambda>_. True"
  by unfold_locales (simp_all add: nav_timegal_message_def nav_gnss_time_layout_def nav_gnss_time_init_def layout_rules)

definition nav_timeqzss_message :: "nav_gnss_time message_type" where
  "nav_timeqzss_message = \<lparr>mt_class = 0x1, mt_id = 0x27, mt_length = 20, mt_init = nav_gnss_time_init, mt_layout = nav_gnss_time_layout\<rparr>"

interpretation nav_timeqzss_msg: fixed_message nav_timeqzss_message "\<lambda>_. True"
  by unfold_locales (simp_all add: nav_timeqzss_message_def nav_gnss_time_layout_def nav_gnss_time_init_def layout_rules)

section \<open>\<open>mon_msgpp\<close> (\<open>mon_msgpp.hpp\<close>)\<close>

text \<open>\<open>field\<close> of an array is \<open>field\<close> of each element in turn.\<close>

record mon_msgpp =
  msg :: "u16 list list"
  skipped :: "u32 list"

definition mon_msgpp_init :: mon_msgpp where
  "mon_msgpp_init = \<lparr>msg = replicate 6 (replicate 8 0), skipped = replicate 6 0\<rparr>"

definition mon_msgpp_layout :: "mon_msgpp verb list" where
  "mon_msgpp_layout =
     map (\<lambda>p. Array16 8 (\<lambda>m. msg m ! p) (\<lambda>v m. m\<lparr>msg := (msg m)[p := v]\<rparr>)) [0..<6] @
     map (\<lambda>p. Field32 (\<lambda>m. skipped m ! p) (\<lambda>v m. m\<lparr>skipped := (skipped m)[p := v]\<rparr>)) [0..<6]"

definition mon_msgpp_message :: "mon_msgpp message_type" where
  "mon_msgpp_message = \<lparr>mt_class = 0xa, mt_id = 0x6, mt_length = 120, mt_init = mon_msgpp_init, mt_layout = mon_msgpp_layout\<rparr>"

definition mon_msgpp_wf :: "mon_msgpp \<Rightarrow> bool" where
  "mon_msgpp_wf m \<longleftrightarrow> length (msg m) = 6 \<and> list_all (\<lambda>row. length row = 8) (msg m) \<and> length (skipped m) = 6"

lemma six: "length xs = 6 \<longleftrightarrow> (\<exists>a b c d e f. xs = [a, b, c, d, e, f])"
  by (auto simp: numeral_eq_Suc length_Suc_conv)

interpretation mon_msgpp_msg: fixed_message mon_msgpp_message mon_msgpp_wf
proof unfold_locales
  fix m
  assume "mon_msgpp_wf m"
  then obtain a b c d e f a' b' c' d' e' f' where m: "m = \<lparr>msg = [a, b, c, d, e, f], skipped = [a', b', c', d', e', f']\<rparr>"
    "list_all (\<lambda>row. length row = 8) [a, b, c, d, e, f]"
    by (cases m) (auto simp: mon_msgpp_wf_def six)
  then show "layout_ok (mt_layout mon_msgpp_message) m"
    by (simp add: mon_msgpp_message_def mon_msgpp_layout_def layout_ok_def upt_rec)
  show "fold (assign m) (mt_layout mon_msgpp_message) (mt_init mon_msgpp_message) = m"
    using m by (simp add: mon_msgpp_message_def mon_msgpp_layout_def mon_msgpp_init_def upt_rec numeral_eq_Suc)
qed (simp_all add: mon_msgpp_message_def mon_msgpp_layout_def layout_size_def o_def upt_rec)

section \<open>\<open>rxm_rlm\<close> (\<open>rxm_rlm.hpp\<close>)\<close>

text \<open>The template parameters \<open>Type\<close>, \<open>ParamBytes\<close> and \<open>PayloadLength\<close> are arguments.\<close>

record basic_rxm_rlm =
  sv_id :: u8
  beacon :: "u8 list"
  message :: u8
  params :: "u8 list"

definition basic_rxm_rlm_init :: "nat \<Rightarrow> basic_rxm_rlm" where
  "basic_rxm_rlm_init param_bytes =
     \<lparr>basic_rxm_rlm.sv_id = 0, basic_rxm_rlm.beacon = replicate 8 0, basic_rxm_rlm.message = 0,
      basic_rxm_rlm.params = replicate param_bytes 0\<rparr>"

definition basic_rxm_rlm_layout :: "u8 \<Rightarrow> nat \<Rightarrow> nat \<Rightarrow> basic_rxm_rlm verb list" where
  "basic_rxm_rlm_layout type param_bytes len =
     [Constant 0x00,
      Constant type,
      Field8 basic_rxm_rlm.sv_id (\<lambda>v. basic_rxm_rlm.sv_id_update (\<lambda>_. v)),
      Reserved 1,
      Array8 8 basic_rxm_rlm.beacon (\<lambda>v. basic_rxm_rlm.beacon_update (\<lambda>_. v)),
      Field8 basic_rxm_rlm.message (\<lambda>v. basic_rxm_rlm.message_update (\<lambda>_. v)),
      Array8 param_bytes basic_rxm_rlm.params (\<lambda>v. basic_rxm_rlm.params_update (\<lambda>_. v)),
      Reserved (len - 13 - param_bytes)]"

definition basic_rxm_rlm_message :: "u8 \<Rightarrow> nat \<Rightarrow> nat \<Rightarrow> basic_rxm_rlm message_type" where
  "basic_rxm_rlm_message type param_bytes len =
     \<lparr>mt_class = 0x2, mt_id = 0x59, mt_length = len, mt_init = basic_rxm_rlm_init param_bytes,
      mt_layout = basic_rxm_rlm_layout type param_bytes len\<rparr>"

definition rxm_rlm_short_message :: "basic_rxm_rlm message_type" where
  "rxm_rlm_short_message = basic_rxm_rlm_message 0x01 2 16"

definition rxm_rlm_long_message :: "basic_rxm_rlm message_type" where
  "rxm_rlm_long_message = basic_rxm_rlm_message 0x02 12 28"

definition rxm_rlm_wf :: "nat \<Rightarrow> basic_rxm_rlm \<Rightarrow> bool" where
  "rxm_rlm_wf param_bytes m \<longleftrightarrow> length (beacon m) = 8 \<and> length (params m) = param_bytes"

lemmas rxm_rlm_defs = basic_rxm_rlm_message_def basic_rxm_rlm_layout_def basic_rxm_rlm_init_def rxm_rlm_wf_def

interpretation rxm_rlm_short_msg: fixed_message rxm_rlm_short_message "rxm_rlm_wf 2"
  by unfold_locales (simp_all add: rxm_rlm_short_message_def rxm_rlm_defs layout_rules)

interpretation rxm_rlm_long_msg: fixed_message rxm_rlm_long_message "rxm_rlm_wf 12"
  by unfold_locales (simp_all add: rxm_rlm_long_message_def rxm_rlm_defs layout_rules)

section \<open>\<open>upd_sos_save\<close> and \<open>upd_sos_clear\<close> (\<open>upd_sos.hpp\<close>)\<close>

text \<open>Structs without a member.\<close>

definition upd_sos_save_message :: "unit message_type" where
  "upd_sos_save_message = \<lparr>mt_class = 0x9, mt_id = 0x14, mt_length = 4, mt_init = (), mt_layout = [Constant 0x00, Reserved 3]\<rparr>"

interpretation upd_sos_save_msg: fixed_message upd_sos_save_message "\<lambda>_. True"
  by unfold_locales (simp_all add: upd_sos_save_message_def layout_rules)

definition upd_sos_clear_message :: "unit message_type" where
  "upd_sos_clear_message = \<lparr>mt_class = 0x9, mt_id = 0x14, mt_length = 4, mt_init = (), mt_layout = [Constant 0x01, Reserved 3]\<rparr>"

interpretation upd_sos_clear_msg: fixed_message upd_sos_clear_message "\<lambda>_. True"
  by unfold_locales (simp_all add: upd_sos_clear_message_def layout_rules)

section \<open>What the variants promise\<close>

text \<open>The round trip with the struct's own \<open>decode\<close>, which returns \<open>r\<close>.\<close>

definition carries_by :: "'m message_type \<Rightarrow> (message_view \<Rightarrow> (bool \<times> 'r) option) \<Rightarrow> 'm \<Rightarrow> 'r \<Rightarrow> bool" where
  "carries_by t decode m r \<longleftrightarrow> (\<forall>os. mt_length t + 8 \<le> length os \<longrightarrow>
     (\<exists>os' v. encode_fixed_message t m (Mem os) = Some (status_ok, mt_length t + 8, Mem os') \<and>
       decode_frame (Mem (take (mt_length t + 8) os')) = Some (True, v) \<and> decode v = Some (True, r)))"

text \<open>A frame whose payload is the message followed by bytes its layout does not know.\<close>

definition carries_longer :: "'m message_type \<Rightarrow> (message_view \<Rightarrow> (bool \<times> 'm) option) \<Rightarrow> 'm \<Rightarrow> bool" where
  "carries_longer t decode m \<longleftrightarrow> (\<forall>extra. mt_length t + length extra \<le> 0xFFFF \<longrightarrow>
     (\<exists>v. decode_frame (Mem (ubx_frame (mt_class t) (mt_id t) (layout_bytes (mt_layout t) m @ extra))) = Some (True, v) \<and>
       decode v = Some (True, m)))"

lemma fixed_decode_check: "fixed_decode t (v\<lparr>check := c\<rparr>) = fixed_decode t v"
  by (simp add: fixed_decode_def fixed_matches_def message_view_is_def)

context fixed_message
begin

lemma carries_by_own:
  assumes "wf m" and "decode (ubx_view (mt_class t) (mt_id t) (wire m)) = Some (True, r)"
  shows "carries_by t decode m r"
  unfolding carries_by_def
proof (intro allI impI)
  fix os :: "u8 list"
  assume "mt_length t + 8 \<le> length os"
  with encode_frame_of [OF assms(1), of os]
  have "encode_fixed_message t m (Mem os) =
      Some (status_ok, mt_length t + 8, Mem (ubx_frame (mt_class t) (mt_id t) (wire m) @ drop (mt_length t + 8) os))" by simp
  then show "\<exists>os' v. encode_fixed_message t m (Mem os) = Some (status_ok, mt_length t + 8, Mem os') \<and>
      decode_frame (Mem (take (mt_length t + 8) os')) = Some (True, v) \<and> decode v = Some (True, r)"
    using length_wire [OF assms(1)] length_max decode_frame_ubx_frame [of "wire m"] assms(2) by auto
qed

lemma prefix_decode_wire:
  assumes "wf m" and "mt_length t + length extra \<le> 0xFFFF"
  shows "prefix_decode t (ubx_view (mt_class t) (mt_id t) (wire m @ extra)) = Some (True, m)"
proof -
  let ?v = "ubx_view (mt_class t) (mt_id t) (wire m @ extra)"
  have len: "length (wire m) = mt_length t" by (rule length_wire [OF assms(1)])
  then have "wire m \<noteq> []" using length_pos by auto
  then have "?v\<lparr>header := (header ?v)\<lparr>payload_length := word_of_nat (mt_length t)\<rparr>, payload := subview (payload ?v) 0 (mt_length t)\<rparr> =
      (ubx_view (mt_class t) (mt_id t) (wire m))\<lparr>check := check ?v\<rparr>"
    using len by (simp add: ubx_view_def subview_def)
  moreover have "unat (payload_length (header ?v)) = mt_length t + length extra"
    using len assms(2) by (simp add: ubx_view_def del: of_nat_add)
  ultimately show ?thesis
    using decode_wire [OF assms(1)] by (simp add: prefix_decode_def fixed_decode_check)
qed

lemma prefix_carried:
  assumes "wf m"
  shows "carries_by t (prefix_decode t) m m" and "carries_longer t (prefix_decode t) m"
proof -
  show "carries_by t (prefix_decode t) m m"
    using carries_by_own [OF assms] prefix_decode_wire [OF assms, of "[]"] length_max by simp
  show "carries_longer t (prefix_decode t) m"
    using prefix_decode_wire [OF assms] decode_frame_ubx_frame [of "wire m @ extra" for extra] length_wire [OF assms]
    by (simp add: carries_longer_def wire_def)
qed

end

lemma ack_decode_view:
  "i \<in> {0, 1} \<Longrightarrow> ack_decode (ubx_view 0x05 i [a, b]) = Some (True, \<lparr>acked_class = a, acked_id = b, accepted = (i = 1)\<rparr>)"
  by (auto simp: ack_decode_def ack_matches_def message_view_is_def ubx_view_def payload_reader_init_def read_u8_def
      reader_advance_def reader_remaining_def)

lemma ack_carried:
  "carries_by ack_ack_message ack_decode m \<lparr>acked_class = ack_message.cls_id m, acked_id = ack_message.acked_msg_id m, accepted = True\<rparr>"
  "carries_by ack_nak_message ack_decode m \<lparr>acked_class = ack_message.cls_id m, acked_id = ack_message.acked_msg_id m, accepted = False\<rparr>"
proof -
  have w: "ack_ack_msg.wire m = [ack_message.cls_id m, ack_message.acked_msg_id m]"
    "ack_nak_msg.wire m = [ack_message.cls_id m, ack_message.acked_msg_id m]"
    unfolding ack_ack_msg.wire_def ack_nak_msg.wire_def
    by (simp_all add: ack_ack_message_def ack_nak_message_def ack_message_layout_def layout_bytes_def)
  show "carries_by ack_ack_message ack_decode m \<lparr>acked_class = ack_message.cls_id m, acked_id = ack_message.acked_msg_id m, accepted = True\<rparr>"
    using ack_decode_view [of 1] by (intro ack_ack_msg.carries_by_own) (simp_all add: w, simp add: ack_ack_message_def)
  show "carries_by ack_nak_message ack_decode m \<lparr>acked_class = ack_message.cls_id m, acked_id = ack_message.acked_msg_id m, accepted = False\<rparr>"
    using ack_decode_view [of 0] by (intro ack_nak_msg.carries_by_own) (simp_all add: w, simp add: ack_nak_message_def)
qed

lemma variants_carried:
  "carries nav_timebds_message time1" "carries nav_timegal_message time2" "carries nav_timeqzss_message time3"
  "carries upd_sos_save_message u1" "carries upd_sos_clear_message u2"
  "mon_msgpp_wf pp \<Longrightarrow> carries mon_msgpp_message pp"
  "rxm_rlm_wf 2 short \<Longrightarrow> carries rxm_rlm_short_message short" "rxm_rlm_wf 12 long \<Longrightarrow> carries rxm_rlm_long_message long"
  "carries_by sec_crc_message sec_crc_decode c c" "carries_longer sec_crc_message sec_crc_decode c"
  "carries_by sec_sig_message sec_sig_decode s s" "carries_longer sec_sig_message sec_sig_decode s"
  by (auto intro!: carriesI nav_timebds_msg.transmitted nav_timegal_msg.transmitted nav_timeqzss_msg.transmitted
      upd_sos_save_msg.transmitted upd_sos_clear_msg.transmitted mon_msgpp_msg.transmitted
      rxm_rlm_short_msg.transmitted rxm_rlm_long_msg.transmitted
      simp: sec_crc_decode_def sec_sig_decode_def sec_crc_msg.prefix_carried sec_sig_msg.prefix_carried)

end
