(* ===== verification/UbxMessages.thy ===== *)
theory UbxMessages
  imports UbxNav UbxMga UbxVariants
begin

text \<open>
  All fixed-size UBX messages of the library together.
\<close>

text \<open>C10: every value of every fixed-size UBX message survives the wire: encoded into any buffer with room for
  its frame, the frame decodes and the message decoded from it is the value itself, field for field; in
  particular each layout has exactly its declared payload length.  Array fields have the length their
  C++ type fixes.  \<open>sec_crc\<close> and \<open>sec_sig\<close> are decoded by their own \<open>decode\<close>, which finds the value in a
  longer payload as well; the aggregate \<open>ack\<close> decodes both acknowledgements and tells them apart.\<close>

theorem fixed_messages_roundtrip:
  assumes "mga_ack_wf msg45" and "mga_bds_health_wf msg46" and "mga_bds_iono_wf msg47" and "mga_gps_health_wf msg48" and "mga_gps_iono_wf msg49" and "mga_qzss_health_wf msg50" and "mon_hw_wf msg70" and "mon_rxbuf_wf msg71" and "mon_txbuf_wf msg72" and "sec_uniqid_wf msg73"
    and "mon_msgpp_wf msg77" and "rxm_rlm_wf 2 msg78" and "rxm_rlm_wf 12 msg79"
  shows "carries nav_att_message msg0 \<and>
    carries nav_clock_message msg1 \<and>
    carries nav_cov_message msg2 \<and>
    carries nav2_dop_message msg3 \<and>
    carries nav_dop_message msg4 \<and>
    carries nav_eell_message msg5 \<and>
    carries nav2_eell_message msg6 \<and>
    carries nav_eoe_message msg7 \<and>
    carries nav_hpposecef_message msg8 \<and>
    carries nav_hpposllh_message msg9 \<and>
    carries nav_odo_message msg10 \<and>
    carries nav_posecef_message msg11 \<and>
    carries nav_posllh_message msg12 \<and>
    carries nav2_pvt_message msg13 \<and>
    carries nav_pvt_message msg14 \<and>
    carries nav_relposned_message msg15 \<and>
    carries nav_status_message msg16 \<and>
    carries nav_timeglo_message msg17 \<and>
    carries nav2_timegps_message msg18 \<and>
    carries nav_timegps_message msg19 \<and>
    carries nav_timels_message msg20 \<and>
    carries nav_timeutc_message msg21 \<and>
    carries nav_velecef_message msg22 \<and>
    carries nav_velned_message msg23 \<and>
    carries mga_bds_eph_message msg24 \<and>
    carries mga_bds_alm_message msg25 \<and>
    carries mga_bds_utc_message msg26 \<and>
    carries mga_gal_eph_message msg27 \<and>
    carries mga_gal_alm_message msg28 \<and>
    carries mga_gal_timeoffset_message msg29 \<and>
    carries mga_gal_utc_message msg30 \<and>
    carries mga_glo_eph_message msg31 \<and>
    carries mga_glo_alm_message msg32 \<and>
    carries mga_glo_timeoffset_message msg33 \<and>
    carries mga_qzss_eph_message msg34 \<and>
    carries mga_gps_eph_message msg35 \<and>
    carries mga_qzss_alm_message msg36 \<and>
    carries mga_gps_alm_message msg37 \<and>
    carries mga_gps_utc_message msg38 \<and>
    carries mga_ini_pos_xyz_message msg39 \<and>
    carries mga_ini_pos_llh_message msg40 \<and>
    carries mga_ini_time_utc_message msg41 \<and>
    carries mga_ini_time_gnss_message msg42 \<and>
    carries mga_ini_clkd_message msg43 \<and>
    carries mga_ini_freq_message msg44 \<and>
    carries mga_ack_message msg45 \<and>
    carries mga_bds_health_message msg46 \<and>
    carries mga_bds_iono_message msg47 \<and>
    carries mga_gps_health_message msg48 \<and>
    carries mga_gps_iono_message msg49 \<and>
    carries mga_qzss_health_message msg50 \<and>
    carries ack_ack_message msg51 \<and>
    carries ack_nak_message msg52 \<and>
    carries cfg_rst_message msg53 \<and>
    carries cfg_spt_message msg54 \<and>
    carries esf_alg_message msg55 \<and>
    carries esf_ins_message msg56 \<and>
    carries mon_gnss_message msg57 \<and>
    carries mon_hw2_message msg58 \<and>
    carries mon_rxr_message msg59 \<and>
    carries rxm_pmreq_v0_message msg60 \<and>
    carries rxm_pmreq_v1_message msg61 \<and>
    carries rxm_rtcm_message msg62 \<and>
    carries_by sec_crc_message sec_crc_decode msg63 msg63 \<and>
    carries_longer sec_crc_message sec_crc_decode msg63 \<and>
    carries_by sec_sig_message sec_sig_decode msg64 msg64 \<and>
    carries_longer sec_sig_message sec_sig_decode msg64 \<and>
    carries tim_tm2_message msg65 \<and>
    carries tim_tp_message msg66 \<and>
    carries tim_vrfy_message msg67 \<and>
    carries upd_sos_ack_message msg68 \<and>
    carries upd_sos_restored_message msg69 \<and>
    carries mon_hw_message msg70 \<and>
    carries mon_rxbuf_message msg71 \<and>
    carries mon_txbuf_message msg72 \<and>
    carries sec_uniqid_message msg73 \<and>
    carries nav_timebds_message msg74 \<and>
    carries nav_timegal_message msg75 \<and>
    carries nav_timeqzss_message msg76 \<and>
    carries mon_msgpp_message msg77 \<and>
    carries rxm_rlm_short_message msg78 \<and>
    carries rxm_rlm_long_message msg79 \<and>
    carries upd_sos_save_message msg80 \<and>
    carries upd_sos_clear_message msg81 \<and>
    carries_by ack_ack_message ack_decode msg51 \<lparr>acked_class = ack_message.cls_id msg51, acked_id = ack_message.acked_msg_id msg51, accepted = True\<rparr> \<and>
    carries_by ack_nak_message ack_decode msg52 \<lparr>acked_class = ack_message.cls_id msg52, acked_id = ack_message.acked_msg_id msg52, accepted = False\<rparr>"
  using assms nav_messages_roundtrip mga_messages_roundtrip mga_array_messages_roundtrip sys_messages_roundtrip sys_array_messages_roundtrip
    variants_carried ack_carried
  by (intro conjI) (simp_all only:)

theorem fixed_messages_roundtrip_witness:
  "carries nav_att_message nav_att_init \<and>
    carries nav_clock_message nav_clock_init \<and>
    carries nav_cov_message nav_cov_init \<and>
    carries nav2_dop_message basic_nav_dop_init \<and>
    carries nav_dop_message basic_nav_dop_init \<and>
    carries nav_eell_message basic_nav_eell_init \<and>
    carries nav2_eell_message basic_nav_eell_init \<and>
    carries nav_eoe_message nav_eoe_init \<and>
    carries nav_hpposecef_message nav_hpposecef_init \<and>
    carries nav_hpposllh_message nav_hpposllh_init \<and>
    carries nav_odo_message nav_odo_init \<and>
    carries nav_posecef_message nav_posecef_init \<and>
    carries nav_posllh_message nav_posllh_init \<and>
    carries nav2_pvt_message basic_nav_pvt_init \<and>
    carries nav_pvt_message basic_nav_pvt_init \<and>
    carries nav_relposned_message nav_relposned_init \<and>
    carries nav_status_message nav_status_init \<and>
    carries nav_timeglo_message nav_timeglo_init \<and>
    carries nav2_timegps_message basic_nav_timegps_init \<and>
    carries nav_timegps_message basic_nav_timegps_init \<and>
    carries nav_timels_message nav_timels_init \<and>
    carries nav_timeutc_message nav_timeutc_init \<and>
    carries nav_velecef_message nav_velecef_init \<and>
    carries nav_velned_message nav_velned_init \<and>
    carries mga_bds_eph_message mga_bds_eph_init \<and>
    carries mga_bds_alm_message mga_bds_alm_init \<and>
    carries mga_bds_utc_message mga_bds_utc_init \<and>
    carries mga_gal_eph_message mga_gal_eph_init \<and>
    carries mga_gal_alm_message mga_gal_alm_init \<and>
    carries mga_gal_timeoffset_message mga_gal_timeoffset_init \<and>
    carries mga_gal_utc_message mga_gal_utc_init \<and>
    carries mga_glo_eph_message mga_glo_eph_init \<and>
    carries mga_glo_alm_message mga_glo_alm_init \<and>
    carries mga_glo_timeoffset_message mga_glo_timeoffset_init \<and>
    carries mga_qzss_eph_message basic_mga_gps_eph_init \<and>
    carries mga_gps_eph_message basic_mga_gps_eph_init \<and>
    carries mga_qzss_alm_message basic_mga_gps_alm_init \<and>
    carries mga_gps_alm_message basic_mga_gps_alm_init \<and>
    carries mga_gps_utc_message mga_gps_utc_init \<and>
    carries mga_ini_pos_xyz_message mga_ini_pos_xyz_init \<and>
    carries mga_ini_pos_llh_message mga_ini_pos_llh_init \<and>
    carries mga_ini_time_utc_message mga_ini_time_utc_init \<and>
    carries mga_ini_time_gnss_message mga_ini_time_gnss_init \<and>
    carries mga_ini_clkd_message mga_ini_clkd_init \<and>
    carries mga_ini_freq_message mga_ini_freq_init \<and>
    carries mga_ack_message mga_ack_init \<and>
    carries mga_bds_health_message mga_bds_health_init \<and>
    carries mga_bds_iono_message mga_bds_iono_init \<and>
    carries mga_gps_health_message mga_gps_health_init \<and>
    carries mga_gps_iono_message mga_gps_iono_init \<and>
    carries mga_qzss_health_message mga_qzss_health_init \<and>
    carries ack_ack_message ack_message_init \<and>
    carries ack_nak_message ack_message_init \<and>
    carries cfg_rst_message cfg_rst_init \<and>
    carries cfg_spt_message cfg_spt_init \<and>
    carries esf_alg_message esf_alg_init \<and>
    carries esf_ins_message esf_ins_init \<and>
    carries mon_gnss_message mon_gnss_init \<and>
    carries mon_hw2_message mon_hw2_init \<and>
    carries mon_rxr_message mon_rxr_init \<and>
    carries rxm_pmreq_v0_message rxm_pmreq_v0_init \<and>
    carries rxm_pmreq_v1_message rxm_pmreq_v1_init \<and>
    carries rxm_rtcm_message rxm_rtcm_init \<and>
    carries_by sec_crc_message sec_crc_decode sec_crc_init sec_crc_init \<and>
    carries_longer sec_crc_message sec_crc_decode sec_crc_init \<and>
    carries_by sec_sig_message sec_sig_decode sec_sig_init sec_sig_init \<and>
    carries_longer sec_sig_message sec_sig_decode sec_sig_init \<and>
    carries tim_tm2_message tim_tm2_init \<and>
    carries tim_tp_message tim_tp_init \<and>
    carries tim_vrfy_message tim_vrfy_init \<and>
    carries upd_sos_ack_message upd_sos_ack_init \<and>
    carries upd_sos_restored_message upd_sos_restored_init \<and>
    carries mon_hw_message mon_hw_init \<and>
    carries mon_rxbuf_message mon_rxbuf_init \<and>
    carries mon_txbuf_message mon_txbuf_init \<and>
    carries sec_uniqid_message sec_uniqid_init \<and>
    carries nav_timebds_message nav_gnss_time_init \<and>
    carries nav_timegal_message nav_gnss_time_init \<and>
    carries nav_timeqzss_message nav_gnss_time_init \<and>
    carries mon_msgpp_message mon_msgpp_init \<and>
    carries rxm_rlm_short_message (basic_rxm_rlm_init 2) \<and>
    carries rxm_rlm_long_message (basic_rxm_rlm_init 12) \<and>
    carries upd_sos_save_message () \<and>
    carries upd_sos_clear_message () \<and>
    carries_by ack_ack_message ack_decode ack_message_init \<lparr>acked_class = ack_message.cls_id ack_message_init, acked_id = ack_message.acked_msg_id ack_message_init, accepted = True\<rparr> \<and>
    carries_by ack_nak_message ack_decode ack_message_init \<lparr>acked_class = ack_message.cls_id ack_message_init, acked_id = ack_message.acked_msg_id ack_message_init, accepted = False\<rparr>"
  by (rule fixed_messages_roundtrip) (simp_all add: mga_ack_wf_def mga_ack_init_def mga_bds_health_wf_def mga_bds_health_init_def mga_bds_iono_wf_def mga_bds_iono_init_def mga_gps_health_wf_def mga_gps_health_init_def mga_gps_iono_wf_def mga_gps_iono_init_def mga_qzss_health_wf_def mga_qzss_health_init_def mon_hw_wf_def mon_hw_init_def mon_rxbuf_wf_def mon_rxbuf_init_def mon_txbuf_wf_def mon_txbuf_init_def sec_uniqid_wf_def sec_uniqid_init_def
      mon_msgpp_wf_def mon_msgpp_init_def rxm_rlm_wf_def basic_rxm_rlm_init_def list_all_iff)

end
