(* ===== verification/UbxGroups.thy ===== *)
theory UbxGroups
  imports UbxPayload
begin

text \<open>
  The UBX messages with a counted group of blocks (\<open>castle_ext/protocols/ubx/messages\<close>): the block and the
  header of each as records with their layouts, and the \<open>counted_message\<close> contract discharged for it.  The
  capacity of the receiving vector, a template parameter of at most 255, is an argument of the message type.
\<close>

section \<open>\<open>nav_geofence\<close> (\<open>nav_geofence.hpp\<close>)\<close>

record nav_geofence_fence =
  state :: u8
  id :: u8

definition nav_geofence_fence_init :: nav_geofence_fence where
  "nav_geofence_fence_init =
     \<lparr>nav_geofence_fence.state = 0, nav_geofence_fence.id = 0\<rparr>"

definition nav_geofence_fence_layout :: "nav_geofence_fence verb list" where
  "nav_geofence_fence_layout =
     [Field8 nav_geofence_fence.state (\<lambda>v. nav_geofence_fence.state_update (\<lambda>_. v)),
      Field8 nav_geofence_fence.id (\<lambda>v. nav_geofence_fence.id_update (\<lambda>_. v))]"

record nav_geofence =
  i_tow :: u32
  version :: u8
  status :: u8
  num_fences :: u8
  comb_state :: u8

definition nav_geofence_init :: nav_geofence where
  "nav_geofence_init =
     \<lparr>nav_geofence.i_tow = 0, nav_geofence.version = 0, nav_geofence.status = 0,
      nav_geofence.num_fences = 0, nav_geofence.comb_state = 0\<rparr>"

definition nav_geofence_header :: "nav_geofence verb list" where
  "nav_geofence_header =
     [Field32 nav_geofence.i_tow (\<lambda>v. nav_geofence.i_tow_update (\<lambda>_. v)),
      Field8 nav_geofence.version (\<lambda>v. nav_geofence.version_update (\<lambda>_. v)),
      Field8 nav_geofence.status (\<lambda>v. nav_geofence.status_update (\<lambda>_. v)),
      Field8 nav_geofence.num_fences (\<lambda>v. nav_geofence.num_fences_update (\<lambda>_. v)),
      Field8 nav_geofence.comb_state (\<lambda>v. nav_geofence.comb_state_update (\<lambda>_. v))]"

definition nav_geofence_message :: "nat \<Rightarrow> (nav_geofence, nav_geofence_fence) group_type" where
  "nav_geofence_message capacity = \<lparr>gt_class = 0x1, gt_id = 0x39, gt_header_length = 8,
     gt_block_length = 2, gt_capacity = capacity, gt_init = nav_geofence_init, gt_header = nav_geofence_header,
     gt_count = nav_geofence.num_fences, gt_set_count = (\<lambda>c. nav_geofence.num_fences_update (\<lambda>_. c)),
     gt_block_init = nav_geofence_fence_init, gt_block = nav_geofence_fence_layout\<rparr>"

interpretation nav_geofence_msg: counted_message "nav_geofence_message capacity" "\<lambda>_. True" "\<lambda>_. True"
  for capacity
  by unfold_locales (simp_all add: nav_geofence_message_def nav_geofence_header_def nav_geofence_init_def nav_geofence_fence_layout_def nav_geofence_fence_init_def layout_rules)

section \<open>\<open>nav_sat\<close> (\<open>nav_sat.hpp\<close>)\<close>

record nav_sat_sv =
  gnss_id :: u8
  sv_id :: u8
  cno :: u8
  elev :: u8
  azim :: u16
  pr_res :: u16
  flags :: u32

definition nav_sat_sv_init :: nav_sat_sv where
  "nav_sat_sv_init =
     \<lparr>nav_sat_sv.gnss_id = 0, nav_sat_sv.sv_id = 0, nav_sat_sv.cno = 0, nav_sat_sv.elev = 0,
      nav_sat_sv.azim = 0, nav_sat_sv.pr_res = 0, nav_sat_sv.flags = 0\<rparr>"

definition nav_sat_sv_layout :: "nav_sat_sv verb list" where
  "nav_sat_sv_layout =
     [Field8 nav_sat_sv.gnss_id (\<lambda>v. nav_sat_sv.gnss_id_update (\<lambda>_. v)),
      Field8 nav_sat_sv.sv_id (\<lambda>v. nav_sat_sv.sv_id_update (\<lambda>_. v)),
      Field8 nav_sat_sv.cno (\<lambda>v. nav_sat_sv.cno_update (\<lambda>_. v)),
      Field8 nav_sat_sv.elev (\<lambda>v. nav_sat_sv.elev_update (\<lambda>_. v)),
      Field16 nav_sat_sv.azim (\<lambda>v. nav_sat_sv.azim_update (\<lambda>_. v)),
      Field16 nav_sat_sv.pr_res (\<lambda>v. nav_sat_sv.pr_res_update (\<lambda>_. v)),
      Field32 nav_sat_sv.flags (\<lambda>v. nav_sat_sv.flags_update (\<lambda>_. v))]"

record nav_sat =
  i_tow :: u32
  version :: u8
  num_svs :: u8

definition nav_sat_init :: nav_sat where
  "nav_sat_init =
     \<lparr>nav_sat.i_tow = 0, nav_sat.version = 0, nav_sat.num_svs = 0\<rparr>"

definition nav_sat_header :: "nav_sat verb list" where
  "nav_sat_header =
     [Field32 nav_sat.i_tow (\<lambda>v. nav_sat.i_tow_update (\<lambda>_. v)),
      Field8 nav_sat.version (\<lambda>v. nav_sat.version_update (\<lambda>_. v)),
      Field8 nav_sat.num_svs (\<lambda>v. nav_sat.num_svs_update (\<lambda>_. v)),
      Reserved 2]"

definition nav_sat_message :: "nat \<Rightarrow> (nav_sat, nav_sat_sv) group_type" where
  "nav_sat_message capacity = \<lparr>gt_class = 0x1, gt_id = 0x35, gt_header_length = 8,
     gt_block_length = 12, gt_capacity = capacity, gt_init = nav_sat_init, gt_header = nav_sat_header,
     gt_count = nav_sat.num_svs, gt_set_count = (\<lambda>c. nav_sat.num_svs_update (\<lambda>_. c)),
     gt_block_init = nav_sat_sv_init, gt_block = nav_sat_sv_layout\<rparr>"

interpretation nav_sat_msg: counted_message "nav_sat_message capacity" "\<lambda>_. True" "\<lambda>_. True"
  for capacity
  by unfold_locales (simp_all add: nav_sat_message_def nav_sat_header_def nav_sat_init_def nav_sat_sv_layout_def nav_sat_sv_init_def layout_rules)

section \<open>\<open>nav_orb\<close> (\<open>nav_orb.hpp\<close>)\<close>

record nav_orb_sv =
  gnss_id :: u8
  sv_id :: u8
  sv_flag :: u8
  eph :: u8
  alm :: u8
  other_orb :: u8

definition nav_orb_sv_init :: nav_orb_sv where
  "nav_orb_sv_init =
     \<lparr>nav_orb_sv.gnss_id = 0, nav_orb_sv.sv_id = 0, nav_orb_sv.sv_flag = 0, nav_orb_sv.eph = 0,
      nav_orb_sv.alm = 0, nav_orb_sv.other_orb = 0\<rparr>"

definition nav_orb_sv_layout :: "nav_orb_sv verb list" where
  "nav_orb_sv_layout =
     [Field8 nav_orb_sv.gnss_id (\<lambda>v. nav_orb_sv.gnss_id_update (\<lambda>_. v)),
      Field8 nav_orb_sv.sv_id (\<lambda>v. nav_orb_sv.sv_id_update (\<lambda>_. v)),
      Field8 nav_orb_sv.sv_flag (\<lambda>v. nav_orb_sv.sv_flag_update (\<lambda>_. v)),
      Field8 nav_orb_sv.eph (\<lambda>v. nav_orb_sv.eph_update (\<lambda>_. v)),
      Field8 nav_orb_sv.alm (\<lambda>v. nav_orb_sv.alm_update (\<lambda>_. v)),
      Field8 nav_orb_sv.other_orb (\<lambda>v. nav_orb_sv.other_orb_update (\<lambda>_. v))]"

record nav_orb =
  i_tow :: u32
  version :: u8
  num_sv :: u8

definition nav_orb_init :: nav_orb where
  "nav_orb_init =
     \<lparr>nav_orb.i_tow = 0, nav_orb.version = 0, nav_orb.num_sv = 0\<rparr>"

definition nav_orb_header :: "nav_orb verb list" where
  "nav_orb_header =
     [Field32 nav_orb.i_tow (\<lambda>v. nav_orb.i_tow_update (\<lambda>_. v)),
      Field8 nav_orb.version (\<lambda>v. nav_orb.version_update (\<lambda>_. v)),
      Field8 nav_orb.num_sv (\<lambda>v. nav_orb.num_sv_update (\<lambda>_. v)),
      Reserved 2]"

definition nav_orb_message :: "nat \<Rightarrow> (nav_orb, nav_orb_sv) group_type" where
  "nav_orb_message capacity = \<lparr>gt_class = 0x1, gt_id = 0x34, gt_header_length = 8,
     gt_block_length = 6, gt_capacity = capacity, gt_init = nav_orb_init, gt_header = nav_orb_header,
     gt_count = nav_orb.num_sv, gt_set_count = (\<lambda>c. nav_orb.num_sv_update (\<lambda>_. c)),
     gt_block_init = nav_orb_sv_init, gt_block = nav_orb_sv_layout\<rparr>"

interpretation nav_orb_msg: counted_message "nav_orb_message capacity" "\<lambda>_. True" "\<lambda>_. True"
  for capacity
  by unfold_locales (simp_all add: nav_orb_message_def nav_orb_header_def nav_orb_init_def nav_orb_sv_layout_def nav_orb_sv_init_def layout_rules)

section \<open>\<open>nav_sig\<close> (\<open>nav_sig.hpp\<close>)\<close>

record nav_sig_info =
  gnss_id :: u8
  sv_id :: u8
  sig_id :: u8
  freq_id :: u8
  pr_res :: u16
  cno :: u8
  qual_ind :: u8
  corr_source :: u8
  iono_model :: u8
  sig_flags :: u16

definition nav_sig_info_init :: nav_sig_info where
  "nav_sig_info_init =
     \<lparr>nav_sig_info.gnss_id = 0, nav_sig_info.sv_id = 0, nav_sig_info.sig_id = 0,
      nav_sig_info.freq_id = 0, nav_sig_info.pr_res = 0, nav_sig_info.cno = 0,
      nav_sig_info.qual_ind = 0, nav_sig_info.corr_source = 0, nav_sig_info.iono_model = 0,
      nav_sig_info.sig_flags = 0\<rparr>"

definition nav_sig_info_layout :: "nav_sig_info verb list" where
  "nav_sig_info_layout =
     [Field8 nav_sig_info.gnss_id (\<lambda>v. nav_sig_info.gnss_id_update (\<lambda>_. v)),
      Field8 nav_sig_info.sv_id (\<lambda>v. nav_sig_info.sv_id_update (\<lambda>_. v)),
      Field8 nav_sig_info.sig_id (\<lambda>v. nav_sig_info.sig_id_update (\<lambda>_. v)),
      Field8 nav_sig_info.freq_id (\<lambda>v. nav_sig_info.freq_id_update (\<lambda>_. v)),
      Field16 nav_sig_info.pr_res (\<lambda>v. nav_sig_info.pr_res_update (\<lambda>_. v)),
      Field8 nav_sig_info.cno (\<lambda>v. nav_sig_info.cno_update (\<lambda>_. v)),
      Field8 nav_sig_info.qual_ind (\<lambda>v. nav_sig_info.qual_ind_update (\<lambda>_. v)),
      Field8 nav_sig_info.corr_source (\<lambda>v. nav_sig_info.corr_source_update (\<lambda>_. v)),
      Field8 nav_sig_info.iono_model (\<lambda>v. nav_sig_info.iono_model_update (\<lambda>_. v)),
      Field16 nav_sig_info.sig_flags (\<lambda>v. nav_sig_info.sig_flags_update (\<lambda>_. v)),
      Reserved 4]"

record nav_sig =
  i_tow :: u32
  version :: u8
  num_sigs :: u8

definition nav_sig_init :: nav_sig where
  "nav_sig_init =
     \<lparr>nav_sig.i_tow = 0, nav_sig.version = 0, nav_sig.num_sigs = 0\<rparr>"

definition nav_sig_header :: "nav_sig verb list" where
  "nav_sig_header =
     [Field32 nav_sig.i_tow (\<lambda>v. nav_sig.i_tow_update (\<lambda>_. v)),
      Field8 nav_sig.version (\<lambda>v. nav_sig.version_update (\<lambda>_. v)),
      Field8 nav_sig.num_sigs (\<lambda>v. nav_sig.num_sigs_update (\<lambda>_. v)),
      Reserved 2]"

definition nav_sig_message :: "nat \<Rightarrow> (nav_sig, nav_sig_info) group_type" where
  "nav_sig_message capacity = \<lparr>gt_class = 0x1, gt_id = 0x43, gt_header_length = 8,
     gt_block_length = 16, gt_capacity = capacity, gt_init = nav_sig_init, gt_header = nav_sig_header,
     gt_count = nav_sig.num_sigs, gt_set_count = (\<lambda>c. nav_sig.num_sigs_update (\<lambda>_. c)),
     gt_block_init = nav_sig_info_init, gt_block = nav_sig_info_layout\<rparr>"

interpretation nav_sig_msg: counted_message "nav_sig_message capacity" "\<lambda>_. True" "\<lambda>_. True"
  for capacity
  by unfold_locales (simp_all add: nav_sig_message_def nav_sig_header_def nav_sig_init_def nav_sig_info_layout_def nav_sig_info_init_def layout_rules)

section \<open>\<open>nav_slas\<close> (\<open>nav_slas.hpp\<close>)\<close>

record nav_slas_correction =
  gnss_id :: u8
  sv_id :: u8
  prc :: u16

definition nav_slas_correction_init :: nav_slas_correction where
  "nav_slas_correction_init =
     \<lparr>nav_slas_correction.gnss_id = 0, nav_slas_correction.sv_id = 0, nav_slas_correction.prc = 0\<rparr>"

definition nav_slas_correction_layout :: "nav_slas_correction verb list" where
  "nav_slas_correction_layout =
     [Field8 nav_slas_correction.gnss_id (\<lambda>v. nav_slas_correction.gnss_id_update (\<lambda>_. v)),
      Field8 nav_slas_correction.sv_id (\<lambda>v. nav_slas_correction.sv_id_update (\<lambda>_. v)),
      Reserved 1,
      Reserved 3,
      Field16 nav_slas_correction.prc (\<lambda>v. nav_slas_correction.prc_update (\<lambda>_. v))]"

record nav_slas =
  i_tow :: u32
  version :: u8
  gms_lon :: u32
  gms_lat :: u32
  gms_code :: u8
  qzss_sv_id :: u8
  service_flags :: u8
  cnt :: u8

definition nav_slas_init :: nav_slas where
  "nav_slas_init =
     \<lparr>nav_slas.i_tow = 0, nav_slas.version = 0, nav_slas.gms_lon = 0, nav_slas.gms_lat = 0,
      nav_slas.gms_code = 0, nav_slas.qzss_sv_id = 0, nav_slas.service_flags = 0, nav_slas.cnt = 0\<rparr>"

definition nav_slas_header :: "nav_slas verb list" where
  "nav_slas_header =
     [Field32 nav_slas.i_tow (\<lambda>v. nav_slas.i_tow_update (\<lambda>_. v)),
      Field8 nav_slas.version (\<lambda>v. nav_slas.version_update (\<lambda>_. v)),
      Reserved 3,
      Field32 nav_slas.gms_lon (\<lambda>v. nav_slas.gms_lon_update (\<lambda>_. v)),
      Field32 nav_slas.gms_lat (\<lambda>v. nav_slas.gms_lat_update (\<lambda>_. v)),
      Field8 nav_slas.gms_code (\<lambda>v. nav_slas.gms_code_update (\<lambda>_. v)),
      Field8 nav_slas.qzss_sv_id (\<lambda>v. nav_slas.qzss_sv_id_update (\<lambda>_. v)),
      Field8 nav_slas.service_flags (\<lambda>v. nav_slas.service_flags_update (\<lambda>_. v)),
      Field8 nav_slas.cnt (\<lambda>v. nav_slas.cnt_update (\<lambda>_. v))]"

definition nav_slas_message :: "nat \<Rightarrow> (nav_slas, nav_slas_correction) group_type" where
  "nav_slas_message capacity = \<lparr>gt_class = 0x1, gt_id = 0x42, gt_header_length = 20,
     gt_block_length = 8, gt_capacity = capacity, gt_init = nav_slas_init, gt_header = nav_slas_header,
     gt_count = nav_slas.cnt, gt_set_count = (\<lambda>c. nav_slas.cnt_update (\<lambda>_. c)),
     gt_block_init = nav_slas_correction_init, gt_block = nav_slas_correction_layout\<rparr>"

interpretation nav_slas_msg: counted_message "nav_slas_message capacity" "\<lambda>_. True" "\<lambda>_. True"
  for capacity
  by unfold_locales (simp_all add: nav_slas_message_def nav_slas_header_def nav_slas_init_def nav_slas_correction_layout_def nav_slas_correction_init_def layout_rules)

section \<open>\<open>nav_sbas\<close> (\<open>nav_sbas.hpp\<close>)\<close>

record nav_sbas_sv =
  svid :: u8
  flags :: u8
  udre :: u8
  sv_sys :: u8
  sv_service :: u8
  prc :: u16
  ic :: u16

definition nav_sbas_sv_init :: nav_sbas_sv where
  "nav_sbas_sv_init =
     \<lparr>nav_sbas_sv.svid = 0, nav_sbas_sv.flags = 0, nav_sbas_sv.udre = 0, nav_sbas_sv.sv_sys = -1,
      nav_sbas_sv.sv_service = 0, nav_sbas_sv.prc = 0, nav_sbas_sv.ic = 0\<rparr>"

definition nav_sbas_sv_layout :: "nav_sbas_sv verb list" where
  "nav_sbas_sv_layout =
     [Field8 nav_sbas_sv.svid (\<lambda>v. nav_sbas_sv.svid_update (\<lambda>_. v)),
      Field8 nav_sbas_sv.flags (\<lambda>v. nav_sbas_sv.flags_update (\<lambda>_. v)),
      Field8 nav_sbas_sv.udre (\<lambda>v. nav_sbas_sv.udre_update (\<lambda>_. v)),
      Field8 nav_sbas_sv.sv_sys (\<lambda>v. nav_sbas_sv.sv_sys_update (\<lambda>_. v)),
      Field8 nav_sbas_sv.sv_service (\<lambda>v. nav_sbas_sv.sv_service_update (\<lambda>_. v)),
      Reserved 1,
      Field16 nav_sbas_sv.prc (\<lambda>v. nav_sbas_sv.prc_update (\<lambda>_. v)),
      Reserved 2,
      Field16 nav_sbas_sv.ic (\<lambda>v. nav_sbas_sv.ic_update (\<lambda>_. v))]"

record nav_sbas =
  i_tow :: u32
  geo :: u8
  mode :: u8
  sys :: u8
  service :: u8
  cnt :: u8
  status_flags :: u8

definition nav_sbas_init :: nav_sbas where
  "nav_sbas_init =
     \<lparr>nav_sbas.i_tow = 0, nav_sbas.geo = 0, nav_sbas.mode = 0, nav_sbas.sys = -1,
      nav_sbas.service = 0, nav_sbas.cnt = 0, nav_sbas.status_flags = 0\<rparr>"

definition nav_sbas_header :: "nav_sbas verb list" where
  "nav_sbas_header =
     [Field32 nav_sbas.i_tow (\<lambda>v. nav_sbas.i_tow_update (\<lambda>_. v)),
      Field8 nav_sbas.geo (\<lambda>v. nav_sbas.geo_update (\<lambda>_. v)),
      Field8 nav_sbas.mode (\<lambda>v. nav_sbas.mode_update (\<lambda>_. v)),
      Field8 nav_sbas.sys (\<lambda>v. nav_sbas.sys_update (\<lambda>_. v)),
      Field8 nav_sbas.service (\<lambda>v. nav_sbas.service_update (\<lambda>_. v)),
      Field8 nav_sbas.cnt (\<lambda>v. nav_sbas.cnt_update (\<lambda>_. v)),
      Field8 nav_sbas.status_flags (\<lambda>v. nav_sbas.status_flags_update (\<lambda>_. v)),
      Reserved 2]"

definition nav_sbas_message :: "nat \<Rightarrow> (nav_sbas, nav_sbas_sv) group_type" where
  "nav_sbas_message capacity = \<lparr>gt_class = 0x1, gt_id = 0x32, gt_header_length = 12,
     gt_block_length = 12, gt_capacity = capacity, gt_init = nav_sbas_init, gt_header = nav_sbas_header,
     gt_count = nav_sbas.cnt, gt_set_count = (\<lambda>c. nav_sbas.cnt_update (\<lambda>_. c)),
     gt_block_init = nav_sbas_sv_init, gt_block = nav_sbas_sv_layout\<rparr>"

interpretation nav_sbas_msg: counted_message "nav_sbas_message capacity" "\<lambda>_. True" "\<lambda>_. True"
  for capacity
  by unfold_locales (simp_all add: nav_sbas_message_def nav_sbas_header_def nav_sbas_init_def nav_sbas_sv_layout_def nav_sbas_sv_init_def layout_rules)

section \<open>\<open>esf_status\<close> (\<open>esf_status.hpp\<close>)\<close>

record esf_status_sensor =
  sens_status1 :: u8
  sens_status2 :: u8
  freq :: u8
  faults :: u8

definition esf_status_sensor_init :: esf_status_sensor where
  "esf_status_sensor_init =
     \<lparr>esf_status_sensor.sens_status1 = 0, esf_status_sensor.sens_status2 = 0,
      esf_status_sensor.freq = 0, esf_status_sensor.faults = 0\<rparr>"

definition esf_status_sensor_layout :: "esf_status_sensor verb list" where
  "esf_status_sensor_layout =
     [Field8 esf_status_sensor.sens_status1 (\<lambda>v. esf_status_sensor.sens_status1_update (\<lambda>_. v)),
      Field8 esf_status_sensor.sens_status2 (\<lambda>v. esf_status_sensor.sens_status2_update (\<lambda>_. v)),
      Field8 esf_status_sensor.freq (\<lambda>v. esf_status_sensor.freq_update (\<lambda>_. v)),
      Field8 esf_status_sensor.faults (\<lambda>v. esf_status_sensor.faults_update (\<lambda>_. v))]"

record esf_status =
  i_tow :: u32
  version :: u8
  fusion_mode :: u8
  num_sens :: u8

definition esf_status_init :: esf_status where
  "esf_status_init =
     \<lparr>esf_status.i_tow = 0, esf_status.version = 0, esf_status.fusion_mode = 0,
      esf_status.num_sens = 0\<rparr>"

definition esf_status_header :: "esf_status verb list" where
  "esf_status_header =
     [Field32 esf_status.i_tow (\<lambda>v. esf_status.i_tow_update (\<lambda>_. v)),
      Field8 esf_status.version (\<lambda>v. esf_status.version_update (\<lambda>_. v)),
      Reserved 7,
      Field8 esf_status.fusion_mode (\<lambda>v. esf_status.fusion_mode_update (\<lambda>_. v)),
      Reserved 2,
      Field8 esf_status.num_sens (\<lambda>v. esf_status.num_sens_update (\<lambda>_. v))]"

definition esf_status_message :: "nat \<Rightarrow> (esf_status, esf_status_sensor) group_type" where
  "esf_status_message capacity = \<lparr>gt_class = 0x10, gt_id = 0x10, gt_header_length = 16,
     gt_block_length = 4, gt_capacity = capacity, gt_init = esf_status_init, gt_header = esf_status_header,
     gt_count = esf_status.num_sens, gt_set_count = (\<lambda>c. esf_status.num_sens_update (\<lambda>_. c)),
     gt_block_init = esf_status_sensor_init, gt_block = esf_status_sensor_layout\<rparr>"

interpretation esf_status_msg: counted_message "esf_status_message capacity" "\<lambda>_. True" "\<lambda>_. True"
  for capacity
  by unfold_locales (simp_all add: esf_status_message_def esf_status_header_def esf_status_init_def esf_status_sensor_layout_def esf_status_sensor_init_def layout_rules)

section \<open>\<open>mon_rf\<close> (\<open>mon_rf.hpp\<close>)\<close>

record mon_rf_block =
  block_id :: u8
  flags :: u8
  ant_status :: u8
  ant_power :: u8
  post_status :: u32
  noise_per_ms :: u16
  agc_cnt :: u16
  jam_ind :: u8
  ofs_i :: u8
  mag_i :: u8
  ofs_q :: u8
  mag_q :: u8

definition mon_rf_block_init :: mon_rf_block where
  "mon_rf_block_init =
     \<lparr>mon_rf_block.block_id = 0, mon_rf_block.flags = 0, mon_rf_block.ant_status = 0,
      mon_rf_block.ant_power = 0, mon_rf_block.post_status = 0, mon_rf_block.noise_per_ms = 0,
      mon_rf_block.agc_cnt = 0, mon_rf_block.jam_ind = 0, mon_rf_block.ofs_i = 0,
      mon_rf_block.mag_i = 0, mon_rf_block.ofs_q = 0, mon_rf_block.mag_q = 0\<rparr>"

definition mon_rf_block_layout :: "mon_rf_block verb list" where
  "mon_rf_block_layout =
     [Field8 mon_rf_block.block_id (\<lambda>v. mon_rf_block.block_id_update (\<lambda>_. v)),
      Field8 mon_rf_block.flags (\<lambda>v. mon_rf_block.flags_update (\<lambda>_. v)),
      Field8 mon_rf_block.ant_status (\<lambda>v. mon_rf_block.ant_status_update (\<lambda>_. v)),
      Field8 mon_rf_block.ant_power (\<lambda>v. mon_rf_block.ant_power_update (\<lambda>_. v)),
      Field32 mon_rf_block.post_status (\<lambda>v. mon_rf_block.post_status_update (\<lambda>_. v)),
      Reserved 4,
      Field16 mon_rf_block.noise_per_ms (\<lambda>v. mon_rf_block.noise_per_ms_update (\<lambda>_. v)),
      Field16 mon_rf_block.agc_cnt (\<lambda>v. mon_rf_block.agc_cnt_update (\<lambda>_. v)),
      Field8 mon_rf_block.jam_ind (\<lambda>v. mon_rf_block.jam_ind_update (\<lambda>_. v)),
      Field8 mon_rf_block.ofs_i (\<lambda>v. mon_rf_block.ofs_i_update (\<lambda>_. v)),
      Field8 mon_rf_block.mag_i (\<lambda>v. mon_rf_block.mag_i_update (\<lambda>_. v)),
      Field8 mon_rf_block.ofs_q (\<lambda>v. mon_rf_block.ofs_q_update (\<lambda>_. v)),
      Field8 mon_rf_block.mag_q (\<lambda>v. mon_rf_block.mag_q_update (\<lambda>_. v)),
      Reserved 3]"

record mon_rf =
  version :: u8
  n_blocks :: u8

definition mon_rf_init :: mon_rf where
  "mon_rf_init =
     \<lparr>mon_rf.version = 0, mon_rf.n_blocks = 0\<rparr>"

definition mon_rf_header :: "mon_rf verb list" where
  "mon_rf_header =
     [Field8 mon_rf.version (\<lambda>v. mon_rf.version_update (\<lambda>_. v)),
      Field8 mon_rf.n_blocks (\<lambda>v. mon_rf.n_blocks_update (\<lambda>_. v)),
      Reserved 2]"

definition mon_rf_message :: "nat \<Rightarrow> (mon_rf, mon_rf_block) group_type" where
  "mon_rf_message capacity = \<lparr>gt_class = 0xa, gt_id = 0x38, gt_header_length = 4,
     gt_block_length = 24, gt_capacity = capacity, gt_init = mon_rf_init, gt_header = mon_rf_header,
     gt_count = mon_rf.n_blocks, gt_set_count = (\<lambda>c. mon_rf.n_blocks_update (\<lambda>_. c)),
     gt_block_init = mon_rf_block_init, gt_block = mon_rf_block_layout\<rparr>"

interpretation mon_rf_msg: counted_message "mon_rf_message capacity" "\<lambda>_. True" "\<lambda>_. True"
  for capacity
  by unfold_locales (simp_all add: mon_rf_message_def mon_rf_header_def mon_rf_init_def mon_rf_block_layout_def mon_rf_block_init_def layout_rules)

section \<open>\<open>mon_hw3\<close> (\<open>mon_hw3.hpp\<close>)\<close>

record mon_hw3_pin =
  pin_id :: u16
  pin_mask :: u16
  vp :: u8

definition mon_hw3_pin_init :: mon_hw3_pin where
  "mon_hw3_pin_init =
     \<lparr>mon_hw3_pin.pin_id = 0, mon_hw3_pin.pin_mask = 0, mon_hw3_pin.vp = 0\<rparr>"

definition mon_hw3_pin_layout :: "mon_hw3_pin verb list" where
  "mon_hw3_pin_layout =
     [Field16 mon_hw3_pin.pin_id (\<lambda>v. mon_hw3_pin.pin_id_update (\<lambda>_. v)),
      Field16 mon_hw3_pin.pin_mask (\<lambda>v. mon_hw3_pin.pin_mask_update (\<lambda>_. v)),
      Field8 mon_hw3_pin.vp (\<lambda>v. mon_hw3_pin.vp_update (\<lambda>_. v)),
      Reserved 1]"

record mon_hw3 =
  version :: u8
  n_pins :: u8
  flags :: u8
  hw_version :: "u8 list"

definition mon_hw3_init :: mon_hw3 where
  "mon_hw3_init =
     \<lparr>mon_hw3.version = 0, mon_hw3.n_pins = 0, mon_hw3.flags = 0, mon_hw3.hw_version = []\<rparr>"

definition mon_hw3_header :: "mon_hw3 verb list" where
  "mon_hw3_header =
     [Field8 mon_hw3.version (\<lambda>v. mon_hw3.version_update (\<lambda>_. v)),
      Field8 mon_hw3.n_pins (\<lambda>v. mon_hw3.n_pins_update (\<lambda>_. v)),
      Field8 mon_hw3.flags (\<lambda>v. mon_hw3.flags_update (\<lambda>_. v)),
      Text 10 mon_hw3.hw_version (\<lambda>v. mon_hw3.hw_version_update (\<lambda>_. v)),
      Reserved 9]"

definition mon_hw3_message :: "nat \<Rightarrow> (mon_hw3, mon_hw3_pin) group_type" where
  "mon_hw3_message capacity = \<lparr>gt_class = 0xa, gt_id = 0x37, gt_header_length = 22,
     gt_block_length = 6, gt_capacity = capacity, gt_init = mon_hw3_init, gt_header = mon_hw3_header,
     gt_count = mon_hw3.n_pins, gt_set_count = (\<lambda>c. mon_hw3.n_pins_update (\<lambda>_. c)),
     gt_block_init = mon_hw3_pin_init, gt_block = mon_hw3_pin_layout\<rparr>"

definition mon_hw3_wf :: "mon_hw3 \<Rightarrow> bool" where
  "mon_hw3_wf msg \<longleftrightarrow> length (mon_hw3.hw_version msg) \<le> 10 \<and> 0 \<notin> set (mon_hw3.hw_version msg)"

interpretation mon_hw3_msg: counted_message "mon_hw3_message capacity" mon_hw3_wf "\<lambda>_. True"
  for capacity
  by unfold_locales (simp_all add: mon_hw3_message_def mon_hw3_header_def mon_hw3_init_def mon_hw3_pin_layout_def mon_hw3_pin_init_def mon_hw3_wf_def layout_rules)

section \<open>\<open>mon_comms\<close> (\<open>mon_comms.hpp\<close>)\<close>

record mon_comms_port =
  port_id :: u16
  tx_pending :: u16
  tx_bytes :: u32
  tx_usage :: u8
  tx_peak_usage :: u8
  rx_pending :: u16
  rx_bytes :: u32
  rx_usage :: u8
  rx_peak_usage :: u8
  overrun_errs :: u16
  msgs :: "u16 list"
  skipped :: u32

definition mon_comms_port_init :: mon_comms_port where
  "mon_comms_port_init =
     \<lparr>mon_comms_port.port_id = 0, mon_comms_port.tx_pending = 0, mon_comms_port.tx_bytes = 0,
      mon_comms_port.tx_usage = 0, mon_comms_port.tx_peak_usage = 0, mon_comms_port.rx_pending = 0,
      mon_comms_port.rx_bytes = 0, mon_comms_port.rx_usage = 0, mon_comms_port.rx_peak_usage = 0,
      mon_comms_port.overrun_errs = 0, mon_comms_port.msgs = replicate 4 0, mon_comms_port.skipped = 0\<rparr>"

definition mon_comms_port_layout :: "mon_comms_port verb list" where
  "mon_comms_port_layout =
     [Field16 mon_comms_port.port_id (\<lambda>v. mon_comms_port.port_id_update (\<lambda>_. v)),
      Field16 mon_comms_port.tx_pending (\<lambda>v. mon_comms_port.tx_pending_update (\<lambda>_. v)),
      Field32 mon_comms_port.tx_bytes (\<lambda>v. mon_comms_port.tx_bytes_update (\<lambda>_. v)),
      Field8 mon_comms_port.tx_usage (\<lambda>v. mon_comms_port.tx_usage_update (\<lambda>_. v)),
      Field8 mon_comms_port.tx_peak_usage (\<lambda>v. mon_comms_port.tx_peak_usage_update (\<lambda>_. v)),
      Field16 mon_comms_port.rx_pending (\<lambda>v. mon_comms_port.rx_pending_update (\<lambda>_. v)),
      Field32 mon_comms_port.rx_bytes (\<lambda>v. mon_comms_port.rx_bytes_update (\<lambda>_. v)),
      Field8 mon_comms_port.rx_usage (\<lambda>v. mon_comms_port.rx_usage_update (\<lambda>_. v)),
      Field8 mon_comms_port.rx_peak_usage (\<lambda>v. mon_comms_port.rx_peak_usage_update (\<lambda>_. v)),
      Field16 mon_comms_port.overrun_errs (\<lambda>v. mon_comms_port.overrun_errs_update (\<lambda>_. v)),
      Array16 4 mon_comms_port.msgs (\<lambda>v. mon_comms_port.msgs_update (\<lambda>_. v)),
      Reserved 8,
      Field32 mon_comms_port.skipped (\<lambda>v. mon_comms_port.skipped_update (\<lambda>_. v))]"

definition mon_comms_port_wf :: "mon_comms_port \<Rightarrow> bool" where
  "mon_comms_port_wf msg \<longleftrightarrow> length (mon_comms_port.msgs msg) = 4"

record mon_comms =
  version :: u8
  n_ports :: u8
  tx_errors :: u8
  prot_ids :: "u8 list"

definition mon_comms_init :: mon_comms where
  "mon_comms_init =
     \<lparr>mon_comms.version = 0, mon_comms.n_ports = 0, mon_comms.tx_errors = 0,
      mon_comms.prot_ids = replicate 4 0xFF\<rparr>"

definition mon_comms_header :: "mon_comms verb list" where
  "mon_comms_header =
     [Field8 mon_comms.version (\<lambda>v. mon_comms.version_update (\<lambda>_. v)),
      Field8 mon_comms.n_ports (\<lambda>v. mon_comms.n_ports_update (\<lambda>_. v)),
      Field8 mon_comms.tx_errors (\<lambda>v. mon_comms.tx_errors_update (\<lambda>_. v)),
      Reserved 1,
      Array8 4 mon_comms.prot_ids (\<lambda>v. mon_comms.prot_ids_update (\<lambda>_. v))]"

definition mon_comms_message :: "nat \<Rightarrow> (mon_comms, mon_comms_port) group_type" where
  "mon_comms_message capacity = \<lparr>gt_class = 0xa, gt_id = 0x36, gt_header_length = 8,
     gt_block_length = 40, gt_capacity = capacity, gt_init = mon_comms_init, gt_header = mon_comms_header,
     gt_count = mon_comms.n_ports, gt_set_count = (\<lambda>c. mon_comms.n_ports_update (\<lambda>_. c)),
     gt_block_init = mon_comms_port_init, gt_block = mon_comms_port_layout\<rparr>"

definition mon_comms_wf :: "mon_comms \<Rightarrow> bool" where
  "mon_comms_wf msg \<longleftrightarrow> length (mon_comms.prot_ids msg) = 4"

interpretation mon_comms_msg: counted_message "mon_comms_message capacity" mon_comms_wf mon_comms_port_wf
  for capacity
  by unfold_locales (simp_all add: mon_comms_message_def mon_comms_header_def mon_comms_init_def mon_comms_port_layout_def mon_comms_port_init_def mon_comms_wf_def mon_comms_port_wf_def layout_rules)

section \<open>\<open>rxm_rawx\<close> (\<open>rxm_rawx.hpp\<close>)\<close>

record rxm_rawx_meas =
  pr_mes :: u64
  cp_mes :: u64
  do_mes :: u32
  gnss_id :: u8
  sv_id :: u8
  sig_id :: u8
  freq_id :: u8
  locktime :: u16
  cno :: u8
  pr_stdev :: u8
  cp_stdev :: u8
  do_stdev :: u8
  trk_stat :: u8

definition rxm_rawx_meas_init :: rxm_rawx_meas where
  "rxm_rawx_meas_init =
     \<lparr>rxm_rawx_meas.pr_mes = 0, rxm_rawx_meas.cp_mes = 0, rxm_rawx_meas.do_mes = 0,
      rxm_rawx_meas.gnss_id = 0, rxm_rawx_meas.sv_id = 0, rxm_rawx_meas.sig_id = 0,
      rxm_rawx_meas.freq_id = 0, rxm_rawx_meas.locktime = 0, rxm_rawx_meas.cno = 0,
      rxm_rawx_meas.pr_stdev = 0, rxm_rawx_meas.cp_stdev = 0, rxm_rawx_meas.do_stdev = 0,
      rxm_rawx_meas.trk_stat = 0\<rparr>"

definition rxm_rawx_meas_layout :: "rxm_rawx_meas verb list" where
  "rxm_rawx_meas_layout =
     [Field64 rxm_rawx_meas.pr_mes (\<lambda>v. rxm_rawx_meas.pr_mes_update (\<lambda>_. v)),
      Field64 rxm_rawx_meas.cp_mes (\<lambda>v. rxm_rawx_meas.cp_mes_update (\<lambda>_. v)),
      Field32 rxm_rawx_meas.do_mes (\<lambda>v. rxm_rawx_meas.do_mes_update (\<lambda>_. v)),
      Field8 rxm_rawx_meas.gnss_id (\<lambda>v. rxm_rawx_meas.gnss_id_update (\<lambda>_. v)),
      Field8 rxm_rawx_meas.sv_id (\<lambda>v. rxm_rawx_meas.sv_id_update (\<lambda>_. v)),
      Field8 rxm_rawx_meas.sig_id (\<lambda>v. rxm_rawx_meas.sig_id_update (\<lambda>_. v)),
      Field8 rxm_rawx_meas.freq_id (\<lambda>v. rxm_rawx_meas.freq_id_update (\<lambda>_. v)),
      Field16 rxm_rawx_meas.locktime (\<lambda>v. rxm_rawx_meas.locktime_update (\<lambda>_. v)),
      Field8 rxm_rawx_meas.cno (\<lambda>v. rxm_rawx_meas.cno_update (\<lambda>_. v)),
      Field8 rxm_rawx_meas.pr_stdev (\<lambda>v. rxm_rawx_meas.pr_stdev_update (\<lambda>_. v)),
      Field8 rxm_rawx_meas.cp_stdev (\<lambda>v. rxm_rawx_meas.cp_stdev_update (\<lambda>_. v)),
      Field8 rxm_rawx_meas.do_stdev (\<lambda>v. rxm_rawx_meas.do_stdev_update (\<lambda>_. v)),
      Field8 rxm_rawx_meas.trk_stat (\<lambda>v. rxm_rawx_meas.trk_stat_update (\<lambda>_. v)),
      Reserved 1]"

record rxm_rawx =
  rcv_tow :: u64
  week :: u16
  leap_s :: u8
  num_meas :: u8
  rec_stat :: u8
  version :: u8

definition rxm_rawx_init :: rxm_rawx where
  "rxm_rawx_init =
     \<lparr>rxm_rawx.rcv_tow = 0, rxm_rawx.week = 0, rxm_rawx.leap_s = 0, rxm_rawx.num_meas = 0,
      rxm_rawx.rec_stat = 0, rxm_rawx.version = 0\<rparr>"

definition rxm_rawx_header :: "rxm_rawx verb list" where
  "rxm_rawx_header =
     [Field64 rxm_rawx.rcv_tow (\<lambda>v. rxm_rawx.rcv_tow_update (\<lambda>_. v)),
      Field16 rxm_rawx.week (\<lambda>v. rxm_rawx.week_update (\<lambda>_. v)),
      Field8 rxm_rawx.leap_s (\<lambda>v. rxm_rawx.leap_s_update (\<lambda>_. v)),
      Field8 rxm_rawx.num_meas (\<lambda>v. rxm_rawx.num_meas_update (\<lambda>_. v)),
      Field8 rxm_rawx.rec_stat (\<lambda>v. rxm_rawx.rec_stat_update (\<lambda>_. v)),
      Field8 rxm_rawx.version (\<lambda>v. rxm_rawx.version_update (\<lambda>_. v)),
      Reserved 2]"

definition rxm_rawx_message :: "nat \<Rightarrow> (rxm_rawx, rxm_rawx_meas) group_type" where
  "rxm_rawx_message capacity = \<lparr>gt_class = 0x2, gt_id = 0x15, gt_header_length = 16,
     gt_block_length = 32, gt_capacity = capacity, gt_init = rxm_rawx_init, gt_header = rxm_rawx_header,
     gt_count = rxm_rawx.num_meas, gt_set_count = (\<lambda>c. rxm_rawx.num_meas_update (\<lambda>_. c)),
     gt_block_init = rxm_rawx_meas_init, gt_block = rxm_rawx_meas_layout\<rparr>"

interpretation rxm_rawx_msg: counted_message "rxm_rawx_message capacity" "\<lambda>_. True" "\<lambda>_. True"
  for capacity
  by unfold_locales (simp_all add: rxm_rawx_message_def rxm_rawx_header_def rxm_rawx_init_def rxm_rawx_meas_layout_def rxm_rawx_meas_init_def layout_rules)

section \<open>\<open>rxm_measx\<close> (\<open>rxm_measx.hpp\<close>)\<close>

record rxm_measx_sv =
  gnss_id :: u8
  sv_id :: u8
  cno :: u8
  mpath_indic :: u8
  doppler_ms :: u32
  doppler_hz :: u32
  whole_chips :: u16
  frac_chips :: u16
  code_phase :: u32
  int_code_phase :: u8
  pseu_range_rms_err :: u8

definition rxm_measx_sv_init :: rxm_measx_sv where
  "rxm_measx_sv_init =
     \<lparr>rxm_measx_sv.gnss_id = 0, rxm_measx_sv.sv_id = 0, rxm_measx_sv.cno = 0,
      rxm_measx_sv.mpath_indic = 0, rxm_measx_sv.doppler_ms = 0, rxm_measx_sv.doppler_hz = 0,
      rxm_measx_sv.whole_chips = 0, rxm_measx_sv.frac_chips = 0, rxm_measx_sv.code_phase = 0,
      rxm_measx_sv.int_code_phase = 0, rxm_measx_sv.pseu_range_rms_err = 0\<rparr>"

definition rxm_measx_sv_layout :: "rxm_measx_sv verb list" where
  "rxm_measx_sv_layout =
     [Field8 rxm_measx_sv.gnss_id (\<lambda>v. rxm_measx_sv.gnss_id_update (\<lambda>_. v)),
      Field8 rxm_measx_sv.sv_id (\<lambda>v. rxm_measx_sv.sv_id_update (\<lambda>_. v)),
      Field8 rxm_measx_sv.cno (\<lambda>v. rxm_measx_sv.cno_update (\<lambda>_. v)),
      Field8 rxm_measx_sv.mpath_indic (\<lambda>v. rxm_measx_sv.mpath_indic_update (\<lambda>_. v)),
      Field32 rxm_measx_sv.doppler_ms (\<lambda>v. rxm_measx_sv.doppler_ms_update (\<lambda>_. v)),
      Field32 rxm_measx_sv.doppler_hz (\<lambda>v. rxm_measx_sv.doppler_hz_update (\<lambda>_. v)),
      Field16 rxm_measx_sv.whole_chips (\<lambda>v. rxm_measx_sv.whole_chips_update (\<lambda>_. v)),
      Field16 rxm_measx_sv.frac_chips (\<lambda>v. rxm_measx_sv.frac_chips_update (\<lambda>_. v)),
      Field32 rxm_measx_sv.code_phase (\<lambda>v. rxm_measx_sv.code_phase_update (\<lambda>_. v)),
      Field8 rxm_measx_sv.int_code_phase (\<lambda>v. rxm_measx_sv.int_code_phase_update (\<lambda>_. v)),
      Field8 rxm_measx_sv.pseu_range_rms_err (\<lambda>v. rxm_measx_sv.pseu_range_rms_err_update (\<lambda>_. v)),
      Reserved 2]"

record rxm_measx =
  version :: u8
  gps_tow :: u32
  glo_tow :: u32
  bds_tow :: u32
  qzss_tow :: u32
  gps_tow_acc :: u16
  glo_tow_acc :: u16
  bds_tow_acc :: u16
  qzss_tow_acc :: u16
  num_svs :: u8
  flags :: u8

definition rxm_measx_init :: rxm_measx where
  "rxm_measx_init =
     \<lparr>rxm_measx.version = 0, rxm_measx.gps_tow = 0, rxm_measx.glo_tow = 0, rxm_measx.bds_tow = 0,
      rxm_measx.qzss_tow = 0, rxm_measx.gps_tow_acc = 0, rxm_measx.glo_tow_acc = 0,
      rxm_measx.bds_tow_acc = 0, rxm_measx.qzss_tow_acc = 0, rxm_measx.num_svs = 0,
      rxm_measx.flags = 0\<rparr>"

definition rxm_measx_header :: "rxm_measx verb list" where
  "rxm_measx_header =
     [Field8 rxm_measx.version (\<lambda>v. rxm_measx.version_update (\<lambda>_. v)),
      Reserved 3,
      Field32 rxm_measx.gps_tow (\<lambda>v. rxm_measx.gps_tow_update (\<lambda>_. v)),
      Field32 rxm_measx.glo_tow (\<lambda>v. rxm_measx.glo_tow_update (\<lambda>_. v)),
      Field32 rxm_measx.bds_tow (\<lambda>v. rxm_measx.bds_tow_update (\<lambda>_. v)),
      Reserved 4,
      Field32 rxm_measx.qzss_tow (\<lambda>v. rxm_measx.qzss_tow_update (\<lambda>_. v)),
      Field16 rxm_measx.gps_tow_acc (\<lambda>v. rxm_measx.gps_tow_acc_update (\<lambda>_. v)),
      Field16 rxm_measx.glo_tow_acc (\<lambda>v. rxm_measx.glo_tow_acc_update (\<lambda>_. v)),
      Field16 rxm_measx.bds_tow_acc (\<lambda>v. rxm_measx.bds_tow_acc_update (\<lambda>_. v)),
      Reserved 2,
      Field16 rxm_measx.qzss_tow_acc (\<lambda>v. rxm_measx.qzss_tow_acc_update (\<lambda>_. v)),
      Field8 rxm_measx.num_svs (\<lambda>v. rxm_measx.num_svs_update (\<lambda>_. v)),
      Field8 rxm_measx.flags (\<lambda>v. rxm_measx.flags_update (\<lambda>_. v)),
      Reserved 8]"

definition rxm_measx_message :: "nat \<Rightarrow> (rxm_measx, rxm_measx_sv) group_type" where
  "rxm_measx_message capacity = \<lparr>gt_class = 0x2, gt_id = 0x14, gt_header_length = 44,
     gt_block_length = 24, gt_capacity = capacity, gt_init = rxm_measx_init, gt_header = rxm_measx_header,
     gt_count = rxm_measx.num_svs, gt_set_count = (\<lambda>c. rxm_measx.num_svs_update (\<lambda>_. c)),
     gt_block_init = rxm_measx_sv_init, gt_block = rxm_measx_sv_layout\<rparr>"

interpretation rxm_measx_msg: counted_message "rxm_measx_message capacity" "\<lambda>_. True" "\<lambda>_. True"
  for capacity
  by unfold_locales (simp_all add: rxm_measx_message_def rxm_measx_header_def rxm_measx_init_def rxm_measx_sv_layout_def rxm_measx_sv_init_def layout_rules)

section \<open>What the groups promise\<close>

text \<open>C11: every header and every sequence of blocks a message of this family can hold (at most 255, the
  bound its \<open>static_assert\<close> puts on the capacity) survives the wire: the header comes back with the number
  of blocks sent, and the blocks up to the receiver's capacity in their order.\<close>

theorem group_messages_roundtrip:
  assumes "length blocks0 \<le> 0xFF" and "length blocks1 \<le> 0xFF" and "length blocks2 \<le> 0xFF" and "length blocks3 \<le> 0xFF" and "length blocks4 \<le> 0xFF" and "length blocks5 \<le> 0xFF" and "length blocks6 \<le> 0xFF" and "length blocks7 \<le> 0xFF" and "length blocks8 \<le> 0xFF" and "length blocks9 \<le> 0xFF"
  shows "carries_group (nav_geofence_message capacity) header0 blocks0 \<and>
    carries_group (nav_sat_message capacity) header1 blocks1 \<and>
    carries_group (nav_orb_message capacity) header2 blocks2 \<and>
    carries_group (nav_sig_message capacity) header3 blocks3 \<and>
    carries_group (nav_slas_message capacity) header4 blocks4 \<and>
    carries_group (nav_sbas_message capacity) header5 blocks5 \<and>
    carries_group (esf_status_message capacity) header6 blocks6 \<and>
    carries_group (mon_rf_message capacity) header7 blocks7 \<and>
    carries_group (rxm_rawx_message capacity) header8 blocks8 \<and>
    carries_group (rxm_measx_message capacity) header9 blocks9"
  by (insert assms, intro conjI; (rule nav_geofence_msg.carries nav_sat_msg.carries nav_orb_msg.carries nav_sig_msg.carries nav_slas_msg.carries nav_sbas_msg.carries esf_status_msg.carries mon_rf_msg.carries rxm_rawx_msg.carries rxm_measx_msg.carries; simp add: nav_geofence_message_def nav_sat_message_def nav_orb_message_def nav_sig_message_def nav_slas_message_def nav_sbas_message_def esf_status_message_def mon_rf_message_def rxm_rawx_message_def rxm_measx_message_def list_all_iff))

theorem group_messages_roundtrip_witness:
  "carries_group (nav_geofence_message 4) nav_geofence_init [nav_geofence_fence_init, nav_geofence_fence_init] \<and>
    carries_group (nav_sat_message 4) nav_sat_init [nav_sat_sv_init, nav_sat_sv_init] \<and>
    carries_group (nav_orb_message 4) nav_orb_init [nav_orb_sv_init, nav_orb_sv_init] \<and>
    carries_group (nav_sig_message 4) nav_sig_init [nav_sig_info_init, nav_sig_info_init] \<and>
    carries_group (nav_slas_message 4) nav_slas_init [nav_slas_correction_init, nav_slas_correction_init] \<and>
    carries_group (nav_sbas_message 4) nav_sbas_init [nav_sbas_sv_init, nav_sbas_sv_init] \<and>
    carries_group (esf_status_message 4) esf_status_init [esf_status_sensor_init, esf_status_sensor_init] \<and>
    carries_group (mon_rf_message 4) mon_rf_init [mon_rf_block_init, mon_rf_block_init] \<and>
    carries_group (rxm_rawx_message 4) rxm_rawx_init [rxm_rawx_meas_init, rxm_rawx_meas_init] \<and>
    carries_group (rxm_measx_message 4) rxm_measx_init [rxm_measx_sv_init, rxm_measx_sv_init]"
  by (rule group_messages_roundtrip) simp_all

end
