(* ===== verification/Spec2Isabelle.thy ===== *)
theory Spec2Isabelle
  imports RingBuffer Strings JsonWriter AlgorithmOrder BitsScan RtcmMessages DnsQuery OrderedMap HashTable Hex Base64 MqttProperties MqttTopic UbxParser UbxMessages UbxGroups
begin

text \<open>
  A verification development for castle 2.0, the C++ library for embedded targets under
  \<^verbatim>\<open>src/test_features/linking_lib_castle_2.0/include\<close> (all file names below are relative to that
  directory).  The library has two layers: \<^verbatim>\<open>castle\<close> holds containers over fixed storage, generic
  algorithms and byte utilities; \<^verbatim>\<open>castle_ext\<close> builds codecs, stream parsers and protocol messages on
  them.  Nothing in the modelled part allocates: a function works on memory its caller owns and answers with a
  \<^verbatim>\<open>castle::status\<close>.

  \<^bold>\<open>How the code is modelled.\<close>  Integers of a fixed width are words (\<open>u8\<close>, \<open>u16\<close>, \<open>u32\<close>,
  \<open>u64\<close>), so that shifts, masks and wrap-around are those of the code.  \<open>size_type\<close> counts are \<open>nat\<close>;
  where the code relies on the wrap-around of a count, or where it could wrap, the width is written out
  (\<open>usz\<close>).  A pointer with its size is \<open>'a ptr\<close>: \<open>Null n\<close> or \<open>Mem xs\<close>; \<open>rd\<close>, \<open>put\<close>
  and \<open>store\<close> are the accesses through it and are \<open>None\<close> outside the memory.  So \<open>None\<close> is undefined
  behaviour, or a loop that never ends where a loop is a \<open>partial_function\<close>; a theorem that gives a \<open>Some\<close>
  excludes both.  A status is a value, a reference parameter a component of the result, an object a record that
  its methods return updated.  No loop is cut off by fuel: each is structural, has a measure, or is a
  \<open>partial_function\<close> whose termination is a theorem.  Two recursions of the JSON component count levels.
  \<open>parse_value\<close> gets one more than the depth limit of the document, and the code's own depth check refuses the
  input before they run out; \<open>serialize_node\<close> gets the number of nodes, which is enough since a child has
  a larger index than its parent.  With no level left the result is \<open>None\<close>, so \<open>json_parse_exact\<close> and
  \<open>json_roundtrip\<close>, which give a \<open>Some\<close>, show that the levels suffice.

  \<^bold>\<open>Shared theories.\<close>  \<open>Prelude\<close> has the words, \<open>ptr\<close>, \<open>status\<close> (\<^verbatim>\<open>castle/error/status.hpp\<close>) and
  the rules on them.  The contracts of the components are locales, each interpreted on the code's own model:
  \<open>text_codec\<close> (theory \<open>Codec\<close>; by \<open>Hex\<close> and \<open>Base64\<close>), the bounded queue of \<open>Queues\<close> (by
  \<open>RingBuffer\<close>), the priority queue of \<open>PriorityQueues\<close> (by \<open>Heap\<close>), the bounded map of \<open>Maps\<close>
  (by \<open>OrderedMap\<close> and \<open>HashTable\<close>) and the strict weak order of \<open>Comparators\<close>.  Inside a contract
  the facts its clients use are proved once.

  \<^bold>\<open>Containers and algorithms.\<close>
  \<^item> \<open>RingBuffer\<close> is \<^verbatim>\<open>castle/container/ring_buffer.hpp\<close>: head, tail and count over a fixed array.
    Every operation, the bulk operations and the list constructor included, refines the queue of the elements
    stored; the newest elements survive an overwriting push.
  \<^item> \<open>Strings\<close> is \<^verbatim>\<open>castle/container/string_view.hpp\<close> and \<^verbatim>\<open>string.hpp\<close> over \<open>char\<close>: views
    and strings in fixed storage.  An edit of a string computes the edit of its list of characters, keeps the
    terminating zero, and changes nothing when the result does not fit; constructions, copies, comparisons and
    searches are those of the lists.
  \<^item> \<open>Heap\<close> is \<^verbatim>\<open>castle/container/heap.hpp\<close>: \<open>basic_heap\<close> and its priority queue adaptor.  Operations
    refine a multiset with a maximal top; draining a heap sorts it.
  \<^item> \<open>Algorithm\<close> and \<open>AlgorithmOrder\<close> are \<^verbatim>\<open>castle/algorithm/algorithm.hpp\<close>: the first has one
    definition per function template (an iterator is an index into a memory), the second proves that the heap
    sort sorts, that the searches find what they should, and that the scanning, copying and modifying algorithms
    compute the list function they are named after.  A destination may overlap its source where a forward copy is
    right, and a value passed by reference may be an element of the memory as long as the call does not change it.
  \<^item> \<open>AvlTree\<close> is \<^verbatim>\<open>castle/container/avl_tree.hpp\<close>, a balanced tree in a node pool with parent links,
    stored heights and a free list; node pointers are indices into the pool.  \<open>AvlShape\<close> treats the shapes
    alone (rotation, balance, depth), \<open>AvlStore\<close> relates a pool to a shape, \<open>AvlBalance\<close>,
    \<open>AvlUpdate\<close> and \<open>AvlErase\<close> prove the rebalancing walk, insertion and erasure, \<open>AvlMap\<close> the
    map it represents, \<open>AvlIterate\<close> construction and in-order traversal, \<open>AvlClear\<close> the loop of \<open>clear\<close>.  \<open>OrderedMap\<close> is
    \<^verbatim>\<open>castle/container/map.hpp\<close> and \<^verbatim>\<open>set.hpp\<close> on top of it, and shows that the stored heights stay true and
    small, and that \<open>clear\<close> works only on the maps without a right child and destroys an object twice on all others.
  \<^item> \<open>HashTable\<close> is \<^verbatim>\<open>castle/container/hash_table.hpp\<close> with \<^verbatim>\<open>hash_map.hpp\<close> and
    \<^verbatim>\<open>hash_set.hpp\<close>: open addressing with tombstones over an array of slots, for any hash and equality functor.  The functors of
    \<^verbatim>\<open>castle/utility/hash.hpp\<close> are modelled at their width.

  \<^bold>\<open>Codecs and bytes.\<close>
  \<^item> \<open>Hex\<close> and \<open>Base64\<close> are \<^verbatim>\<open>castle_ext/codecs/hex.hpp\<close> and \<^verbatim>\<open>base64.hpp\<close>: decoding inverts
    encoding, is total, and accepts canonical text only.
  \<^item> \<open>Bytes\<close> is \<^verbatim>\<open>castle/utility/bytes.hpp\<close>: the little- and big-endian reads and writes.
  \<^item> \<open>Bits\<close> is the directory \<^verbatim>\<open>castle/bit\<close>, one definition per function template at each word
    width; \<open>BitsCount\<close> and \<open>BitsScan\<close> prove that the counts, the scans, the powers of two and the
    reversals agree with the set of bits of the word.  Where a function looks at the sign of its argument, the
    signedness of the type is an argument of the definition.
  \<^item> \<open>Crc\<close> is \<^verbatim>\<open>castle_ext/checksums/crc_common.hpp\<close> and its five instances (CRC-8, CRC-16, CRC-24Q,
    CRC-32 and CRC-64): an error burst no longer than the register is detected.

  \<^bold>\<open>JSON.\<close>  The parser, document and serializer of \<^verbatim>\<open>castle_ext/serialization/json.hpp\<close>.
  \<^item> \<open>JsonText\<close> is the text level: string literals with their escapes and UTF-8 output, number checks,
    integer conversions.  \<open>JsonNumber\<close> proves that the number check is the grammar of RFC 8259 and that integers
    are read and written exactly within their width.
  \<^item> \<open>JsonDoc\<close> is the document, nodes in an array linked by handles with their texts in a byte arena; its
    operations refine those on the list of entries a caller sees (\<open>represents\<close>).
  \<^item> \<open>JsonParser\<close> is \<open>parser\<close>, with the relation \<open>value_text\<close> of the texts it accepts: the JSON values but for
    empty member names and escaped surrogate pairs, which the code refuses, and with string bytes that need not be UTF-8.
    \<open>JsonSound\<close> shows that it accepts nothing else and adds the entries of the value, \<open>JsonComplete\<close>
    that it accepts each of them that fits the document, and ends on every input.
  \<^item> \<open>JsonWriter\<close> is the serializer: what it writes, compact or indented, parses to the same value if the value
    is one a parser can produce and the document has room.  The document does not check the scalars \<open>append\<close> is given.

  \<^bold>\<open>UBX.\<close>
  \<^item> \<open>Ubx\<close> is \<^verbatim>\<open>castle_ext/protocols/ubx/ubx.hpp\<close>: checksum, frame encoder and decoder.  The decoder
    accepts exactly the frames, and no frame with one corrupted byte.
  \<^item> \<open>UbxParser\<close> is \<^verbatim>\<open>castle_ext/parsers/ubx_parser/ubx_parser.hpp\<close>: its states and one step per byte.
    The parser refines a specification that scans the whole stream, keeps its buffer in bounds, delivers only
    frames, and delivers every frame it is in step with; a lemma shows that it does not see how the stream is cut
    into chunks.
  \<^item> \<open>UbxPayload\<close> is the payload cursors and the layout-driven codec that the message structs share;
    \<open>UbxNav\<close>, \<open>UbxMga\<close> and \<open>UbxSys\<close> are the fixed messages of
    \<^verbatim>\<open>castle_ext/protocols/ubx/messages\<close>, one record, layout, encoder and decoder per struct;
    \<open>UbxVariants\<close> those with a \<open>decode\<close> of their own (a prefix of a longer payload, either acknowledgement), a
    shared base, nested arrays or no data; \<open>UbxMessages\<close> states their round trip together; \<open>UbxGroups\<close> is the messages with a counted group.

  \<^bold>\<open>MQTT.\<close>  \<open>Mqtt\<close> (\<^verbatim>\<open>castle_ext/protocols/mqtt/codec.hpp\<close>) frames packets: an encoded packet
  of a known type and with four-bit flags is found again at the front of any stream, a proper prefix asks for more,
  only the exact wire format is accepted, and the other packets the encoder lets pass reach no receiver.  \<open>MqttProperties\<close> (\<^verbatim>\<open>codec.hpp\<close>, \<^verbatim>\<open>types.hpp\<close>) is the cursors and the property
  section, written as exactly its wire format and read back.
  \<open>MqttTopic\<close> (\<^verbatim>\<open>topic.hpp\<close>) is UTF-8 validation against the set of encoded code points and topic matching
  against the relation on levels.

  \<^bold>\<open>RTCM.\<close>  \<open>Rtcm\<close> is \<^verbatim>\<open>castle_ext/protocols/rtcm/rtcm.hpp\<close> and \<^verbatim>\<open>bit_writer.hpp\<close>;
  \<open>RtcmFrame\<close> shows that an encoded message is a frame around the bits of its fields and that damage within the
  reach of the checksum is visible.  \<open>RtcmMessages\<close> is the messages of \<^verbatim>\<open>castle_ext/protocols/rtcm/messages\<close>,
  one record and one list of fields per struct; each fits the payload limit up to the counts its format has room for.

  \<^bold>\<open>DNS.\<close>  \<open>Dns\<close> is \<^verbatim>\<open>castle_ext/protocols/dns/message.hpp\<close> with \<^verbatim>\<open>types.hpp\<close> and the endpoint
  value of \<^verbatim>\<open>castle_ext/net/endpoint.hpp\<close>.  \<open>DnsName\<close> shows that decoding a name ends whatever loops the
  compression pointers form, and that a parsed response keeps its strings terminated and its count in range.
  \<open>DnsQuery\<close> is the round trip of a question.

  \<^bold>\<open>Parameters.\<close>  Template parameters are arguments of the definitions: comparators, predicates, hash and
  equality functors, capacities, callbacks.  Their documented laws (a strict weak order; equal keys have equal
  hashes) are hypotheses, and the witnesses discharge them on concrete functions.

  \<^bold>\<open>Not modelled.\<close>  Compile-time machinery (traits, macros, iterators as types); whatever is a call into
  POSIX or the Zephyr kernel (threads, clocks, sockets, device files) and the clients, brokers and servers around
  it; floating-point mathematics, filters and geodesy, the conversions of JSON numbers and RTCM fields from and to
  floating point, for want of a model of the rounding the code relies on; type-erased callables and raw-storage
  allocators; a string edited through a view of its own characters, and a caller's pointer that overlaps the memory a
  function writes.  Of what could be modelled the same way, the Fletcher and XOR checksums, Base32, CoAP, NMEA
  sentences, HPACK, the CSV, INI and XML formats and further containers are not.  Outside castle 2.0, castle 1.0 is
  superseded, and the remaining directories are samples that exercise the kernel API or linking.
\<close>

end
